(* ===== verification/GoDB_Prelude.thy ===== *)
theory GoDB_Prelude
  imports Main "HOL-Library.Word" "HOL-Library.List_Lexorder" "HOL-Library.Monad_Syntax"
begin

text \<open>
  What every theory of the development shares: the machine types of the Go sources, the partiality
  of Go expressions, byte buffers and the little-endian integer codec of \<open>encoding/binary\<close>.

  \<^item> A Go expression that may panic (an index or slice expression out of range, a failed
    \<open>common.Assert\<close>, an explicit \<open>panic\<close>) has type \<^typ>\<open>'a option\<close>; \<open>None\<close> is the panic, and no
    part of the program recovers from one. An \<open>error\<close> result is a value of a sum type,
    \<open>Inl\<close> for the error.
  \<^item> A slice is a list. No slice expression of the modelled code extends a slice beyond its length
    into its capacity, so the capacity is not modelled. An update through a slice of a buffer is an
    update of that buffer: operations take the buffer and the offset and return the new buffer.
  \<^item> Fixed-width integers are words; Go's \<open>int\<close>, used for lengths, offsets and counters
    that stay far below \<open>2\<^sup>6\<^sup>3\<close>, is \<^typ>\<open>nat\<close> or \<^typ>\<open>int\<close>.
\<close>

section \<open>Types\<close>

type_synonym byte = "8 word"
type_synonym bytes = "byte list"
type_synonym uint16 = "16 word"
type_synonym uint32 = "32 word"
type_synonym uint64 = "64 word"
type_synonym int32 = "32 word"
type_synonym int64 = "64 word"

named_theorems go_partial \<open>definitions of the partial Go primitives\<close>

section \<open>Go expressions that may panic\<close>

definition Assert :: "bool \<Rightarrow> unit option" where
  "Assert cond = (if \<not> cond then None else Some ())"

definition idx :: "'a list \<Rightarrow> nat \<Rightarrow> 'a option" where
  "idx xs i = (if i < length xs then Some (xs ! i) else None)"

definition upd_idx :: "'a list \<Rightarrow> nat \<Rightarrow> 'a \<Rightarrow> 'a list option" where
  "upd_idx xs i v = (if i < length xs then Some (xs[i := v]) else None)"

definition slice :: "'a list \<Rightarrow> nat \<Rightarrow> nat \<Rightarrow> 'a list option" where
  "slice xs lo hi = (if lo \<le> hi \<and> hi \<le> length xs then Some (take (hi - lo) (drop lo xs)) else None)"

definition slice_from :: "'a list \<Rightarrow> nat \<Rightarrow> 'a list option" where
  "slice_from xs lo = (if lo \<le> length xs then Some (drop lo xs) else None)"

declare Assert_def [go_partial] idx_def [go_partial] upd_idx_def [go_partial]
  slice_def [go_partial] slice_from_def [go_partial]

lemma Assert_simps [simp]:
  "Assert True = Some ()" "Assert False = None"
  by (simp_all add: Assert_def)

lemma Assert_eq_Some [simp]: "Assert c = Some u \<longleftrightarrow> c"
  by (simp add: Assert_def)

lemma Assert_bind_Some [simp]: "(Assert c \<bind> f = Some y) \<longleftrightarrow> c \<and> f () = Some y"
  by (simp add: Assert_def)

lemma Assert_bind_True: "c \<Longrightarrow> Assert c \<bind> f = f ()"
  by simp

lemma idx_Some [simp]: "i < length xs \<Longrightarrow> idx xs i = Some (xs ! i)"
  by (simp add: idx_def)

lemma idx_None [simp]: "length xs \<le> i \<Longrightarrow> idx xs i = None"
  by (simp add: idx_def)

lemma idx_eq_Some [simp]: "idx xs i = Some y \<longleftrightarrow> i < length xs \<and> xs ! i = y"
  by (auto simp: idx_def)

lemma upd_idx_Some [simp]: "i < length xs \<Longrightarrow> upd_idx xs i v = Some (xs[i := v])"
  by (simp add: upd_idx_def)

lemma upd_idx_eq_Some [simp]: "upd_idx xs i v = Some ys \<longleftrightarrow> i < length xs \<and> ys = xs[i := v]"
  by (auto simp: upd_idx_def)

lemma slice_eq_Some [simp]:
  "slice xs lo hi = Some ys \<longleftrightarrow> lo \<le> hi \<and> hi \<le> length xs \<and> ys = take (hi - lo) (drop lo xs)"
  by (auto simp: slice_def)

lemma slice_from_eq_Some [simp]:
  "slice_from xs lo = Some ys \<longleftrightarrow> lo \<le> length xs \<and> ys = drop lo xs"
  by (auto simp: slice_from_def)

section \<open>Segments of a buffer\<close>

text \<open>
  \<open>seg off n xs\<close> reads the \<open>n\<close> elements at \<open>off\<close>; \<open>blit off src dst\<close> is \<open>copy(dst[off:], src)\<close>,
  which copies no more than what fits.
\<close>

definition seg :: "nat \<Rightarrow> nat \<Rightarrow> 'a list \<Rightarrow> 'a list" where
  "seg off n xs = take n (drop off xs)"

definition blit :: "nat \<Rightarrow> 'a list \<Rightarrow> 'a list \<Rightarrow> 'a list" where
  "blit off src dst = take off dst @ take (length dst - off) src @ drop (off + length src) dst"

lemma length_seg [simp]: "length (seg off n xs) = min n (length xs - off)"
  by (simp add: seg_def)

lemma nth_seg [simp]: "i < n \<Longrightarrow> off + i < length xs \<Longrightarrow> seg off n xs ! i = xs ! (off + i)"
  by (simp add: seg_def)

lemma seg_all [simp]: "length xs \<le> n \<Longrightarrow> seg 0 n xs = xs"
  by (simp add: seg_def)

lemma seg_seg: "off + n \<le> m \<Longrightarrow> seg off n (seg base m xs) = seg (base + off) n xs"
  by (simp add: seg_def drop_take add.commute)

lemma seg_append1: "off + n \<le> length xs \<Longrightarrow> seg off n (xs @ ys) = seg off n xs"
  by (simp add: seg_def)

lemma seg_append2: "length xs \<le> off \<Longrightarrow> seg off n (xs @ ys) = seg (off - length xs) n ys"
  by (simp add: seg_def)

lemma length_blit [simp]: "length (blit off src dst) = length dst"
  by (auto simp: blit_def min_def)

lemma nth_blit:
  assumes "i < length dst"
  shows "blit off src dst ! i = (if off \<le> i \<and> i < off + length src then src ! (i - off) else dst ! i)"
proof -
  consider "i < off" | "off \<le> i" "i < off + length src" | "off + length src \<le> i"
    by linarith
  then show ?thesis
    using assms by cases (auto simp: blit_def nth_append min_def)
qed

lemma seg_eqI:
  assumes "length (seg a n xs) = length (seg b n ys)"
    and "\<And>i. i < n \<Longrightarrow> a + i < length xs \<Longrightarrow> b + i < length ys \<Longrightarrow> xs ! (a + i) = ys ! (b + i)"
  shows "seg a n xs = seg b n ys"
  using assms by (intro nth_equalityI) auto

lemma seg_blit_same [simp]:
  "off + length src \<le> length dst \<Longrightarrow> n = length src \<Longrightarrow> seg off n (blit off src dst) = src"
  by (intro nth_equalityI) (auto simp: nth_blit)

lemma seg_blit_disjoint:
  "o' + n \<le> off \<or> off + length src \<le> o' \<Longrightarrow> seg o' n (blit off src dst) = seg o' n dst"
  by (intro seg_eqI) (auto simp: nth_blit)

lemma seg_blit_inside:
  assumes "off \<le> o'" "o' + n \<le> off + length src" "off + length src \<le> length dst"
  shows "seg o' n (blit off src dst) = seg (o' - off) n src"
  using assms by (intro seg_eqI) (auto simp: nth_blit)

lemma blit_blit_same: "length s1 = length s2 \<Longrightarrow> blit off s2 (blit off s1 dst) = blit off s2 dst"
  by (intro nth_equalityI) (auto simp: nth_blit)

lemma blit_seg_id: "off + n \<le> length dst \<Longrightarrow> blit off (seg off n dst) dst = dst"
  by (intro nth_equalityI) (auto simp: nth_blit)

lemma blit_Nil [simp]: "blit off [] dst = dst"
  by (simp add: blit_def)

lemma blit_blit_append:
  assumes "off' = off + length a" "off' + length b \<le> length dst"
  shows "blit off' b (blit off a dst) = blit off (a @ b) dst"
  using assms by (intro nth_equalityI) (auto simp: nth_blit nth_append)

lemma drop_blit_0: "length src \<le> n \<Longrightarrow> drop n (blit 0 src dst) = drop n dst"
  by (intro nth_equalityI) (auto simp: nth_blit)

text \<open>
  \<open>with_slice off f data\<close> runs an operation \<open>f\<close> that writes into its slice argument on \<open>data[off:]\<close>;
  the write is seen through \<open>data\<close>.
\<close>

definition with_slice :: "nat \<Rightarrow> ('a list \<Rightarrow> 'a list option) \<Rightarrow> 'a list \<Rightarrow> 'a list option" where
  "with_slice off f data = do {
     s \<leftarrow> slice_from data off;
     s' \<leftarrow> f s;
     Some (take off data @ s')
   }"

declare with_slice_def [go_partial]

lemma take_blit_drop: "off \<le> length dst \<Longrightarrow> take off dst @ blit k src (drop off dst) = blit (off + k) src dst"
  by (intro nth_equalityI) (auto simp: nth_append nth_blit)

lemma with_slice_blit:
  assumes "off \<le> length data" "f (drop off data) = Some (blit k src (drop off data))"
  shows "with_slice off f data = Some (blit (off + k) src data)"
  using assms by (simp add: with_slice_def slice_from_def take_blit_drop)

lemma with_slice_eq_Some:
  "with_slice off f data = Some d' \<longleftrightarrow>
     off \<le> length data \<and> (\<exists>s'. f (drop off data) = Some s' \<and> d' = take off data @ s')"
  by (auto simp: with_slice_def bind_eq_Some_conv)

section \<open>Byte strings in Go's order\<close>

text \<open>Go compares strings byte by byte, the order of \<open>List_Lexorder\<close> on lists of words.\<close>

lemma lex_append_same [simp]: "(xs @ ys < xs @ zs) \<longleftrightarrow> (ys < (zs :: 'a::linorder list))"
  by (induction xs) auto

lemma lex_append_same_le [simp]: "(xs @ ys \<le> xs @ zs) \<longleftrightarrow> (ys \<le> (zs :: 'a::linorder list))"
  by (induction xs) auto

lemma lex_append_greater: "ys \<noteq> [] \<Longrightarrow> xs < xs @ (ys :: 'a::linorder list)"
  by (induction xs) (auto simp: neq_Nil_conv)

lemma byte_le_max [simp]: "(x :: byte) \<le> 255"
proof -
  have "(255 :: byte) = - 1" by simp
  then show ?thesis by (metis word_n1_ge)
qed

lemma byte_less_Suc: "(x :: byte) \<noteq> 255 \<Longrightarrow> x < x + 1"
proof -
  assume "x \<noteq> 255"
  moreover have "(255 :: byte) = - 1" by simp
  ultimately have "1 + x \<noteq> 0" by (metis add.commute eq_neg_iff_add_eq_0)
  then have "unat (x + 1) = Suc (unat x)" by (simp add: unatSuc add.commute)
  then show ?thesis by (simp add: word_less_nat_alt)
qed

lemma byte_Suc_le: "(x :: byte) < y \<Longrightarrow> x + 1 \<le> y"
  by (simp add: inc_le)

lemma le_replicate_max: "length t \<le> k \<Longrightarrow> t \<le> replicate k (255 :: byte)"
proof (induction k arbitrary: t)
  case 0
  then show ?case by simp
next
  case (Suc k)
  then show ?case
    by (cases t) (auto simp: less_le)
qed

section \<open>Little-endian integers\<close>

text \<open>
  \<open>le_bytes n w\<close> is the \<open>n\<close>-byte little-endian image of a word and \<open>le_word\<close> reads one back;
  \<open>put_le\<close> and \<open>get_le\<close> are \<open>PutUint16/32/64(data[off:], w)\<close> and \<open>Uint16/32/64(data[off:])\<close>,
  which panic when the slice is shorter than the integer.
\<close>

definition le_bytes :: "nat \<Rightarrow> 'a::len word \<Rightarrow> bytes" where
  "le_bytes n w = map (\<lambda>i. ucast (drop_bit (8 * i) w)) [0..<n]"

primrec le_word :: "bytes \<Rightarrow> 'a::len word" where
  "le_word [] = 0"
| "le_word (b # bs) = or (ucast b) (push_bit 8 (le_word bs))"

definition put_le :: "nat \<Rightarrow> nat \<Rightarrow> 'a::len word \<Rightarrow> bytes \<Rightarrow> bytes option" where
  "put_le n off w data =
     (if off + n \<le> length data then Some (blit off (le_bytes n w) data) else None)"

definition get_le :: "nat \<Rightarrow> nat \<Rightarrow> bytes \<Rightarrow> 'a::len word option" where
  "get_le n off data = (if off + n \<le> length data then Some (le_word (seg off n data)) else None)"

declare put_le_def [go_partial] get_le_def [go_partial]

lemma length_le_bytes [simp]: "length (le_bytes n w) = n"
  by (simp add: le_bytes_def)

lemma bit_le_bytes:
  "i < n \<Longrightarrow> bit (le_bytes n w ! i) k \<longleftrightarrow> k < 8 \<and> bit w (8 * i + k)"
  by (auto simp: le_bytes_def bit_simps)

lemma bit_le_word:
  "bit (le_word bs :: 'a::len word) k \<longleftrightarrow>
     k < LENGTH('a) \<and> k < 8 * length bs \<and> bit (bs ! (k div 8)) (k mod 8)"
proof (induction bs arbitrary: k)
  case Nil
  then show ?case by simp
next
  case (Cons b bs)
  show ?case
  proof (cases "k < 8")
    case True
    then show ?thesis by (auto simp: bit_simps)
  next
    case False
    then obtain j where k: "k = 8 + j" by (metis le_add_diff_inverse not_less)
    have "\<not> bit b (8 + j)" by (simp add: bit_word.rep_eq)
    moreover have "(8 + j) div 8 = Suc (j div 8)" by simp
    ultimately show ?thesis
      using Cons.IH [of j] by (auto simp: k bit_simps)
  qed
qed

lemma le_word_le_bytes:
  assumes "LENGTH('a::len) \<le> 8 * n"
  shows "le_word (le_bytes n w) = (w :: 'a word)"
proof (rule bit_word_eqI)
  fix k assume "k < LENGTH('a)"
  then have "k div 8 < n" and "k < 8 * n" using assms by auto
  then show "bit (le_word (le_bytes n w) :: 'a word) k \<longleftrightarrow> bit w k"
    using \<open>k < LENGTH('a)\<close> by (simp add: bit_le_word bit_le_bytes)
qed

lemma le_bytes_le_word:
  assumes "8 * length bs \<le> LENGTH('a::len)" "n = length bs"
  shows "le_bytes n (le_word bs :: 'a word) = bs"
proof (rule nth_equalityI)
  show "length (le_bytes n (le_word bs :: 'a word)) = length bs" by (simp add: assms)
  fix i assume i: "i < length (le_bytes n (le_word bs :: 'a word))"
  show "le_bytes n (le_word bs :: 'a word) ! i = bs ! i"
  proof (rule bit_word_eqI)
    fix k assume "k < LENGTH(8)"
    then show "bit (le_bytes n (le_word bs :: 'a word) ! i) k \<longleftrightarrow> bit (bs ! i) k"
      using i assms by (auto simp: bit_le_bytes bit_le_word)
  qed
qed

lemma le_word_le_bytes_16 [simp]: "le_word (le_bytes 2 w) = (w :: 16 word)"
  by (simp add: le_word_le_bytes)

lemma le_word_le_bytes_32 [simp]: "le_word (le_bytes 4 w) = (w :: 32 word)"
  by (simp add: le_word_le_bytes)

lemma le_word_le_bytes_64 [simp]: "le_word (le_bytes 8 w) = (w :: 64 word)"
  by (simp add: le_word_le_bytes)

lemma put_le_eq_Some [simp]:
  "put_le n off w data = Some d' \<longleftrightarrow> off + n \<le> length data \<and> d' = blit off (le_bytes n w) data"
  by (auto simp: put_le_def)

lemma get_le_eq_Some [simp]:
  "get_le n off data = Some w \<longleftrightarrow> off + n \<le> length data \<and> w = le_word (seg off n data)"
  by (auto simp: get_le_def)

lemma put_le_Some: "off + n \<le> length data \<Longrightarrow> put_le n off w data = Some (blit off (le_bytes n w) data)"
  by simp

lemma get_le_Some: "off + n \<le> length data \<Longrightarrow> get_le n off data = Some (le_word (seg off n data))"
  by simp


section \<open>Text\<close>

text \<open>\<open>%d\<close> of a number that is not negative, and a string between single quotes.\<close>

definition digit :: "nat \<Rightarrow> char" where
  "digit d = char_of (48 + d)"

fun decimal :: "nat \<Rightarrow> string" where
  "decimal n = (if n < 10 then [digit n] else decimal (n div 10) @ [digit (n mod 10)])"

declare decimal.simps [simp del]

definition quoted :: "string \<Rightarrow> string" where
  "quoted s = [CHR 0x27] @ s @ [CHR 0x27]"

section \<open>The interface of a three-way comparison\<close>

text \<open>
  \<open>Compare\<close> methods return -1, 0 or 1. What their clients (ordered indexes, sorting, key equality)
  rely on is that the sign of the result is a total preorder on the values of one type.
\<close>

locale comparator =
  fixes cmp :: "'a \<Rightarrow> 'a \<Rightarrow> int" and carrier :: "'a \<Rightarrow> bool"
  assumes cmp_range: "carrier x \<Longrightarrow> carrier y \<Longrightarrow> cmp x y \<in> {-1, 0, 1}"
    and cmp_refl: "carrier x \<Longrightarrow> cmp x x = 0"
    and cmp_swap: "carrier x \<Longrightarrow> carrier y \<Longrightarrow> cmp y x = - cmp x y"
    and cmp_trans: "carrier x \<Longrightarrow> carrier y \<Longrightarrow> carrier z \<Longrightarrow> cmp x y \<le> 0 \<Longrightarrow> cmp y z \<le> 0 \<Longrightarrow> cmp x z \<le> 0"
begin

lemma cmp_eq_cong:
  assumes "carrier x" "carrier y" "carrier z" "cmp x y = 0"
  shows "cmp x z = cmp y z"
proof -
  have "cmp y x = 0" using assms by (simp add: cmp_swap [of x y])
  have "cmp x z \<le> 0 \<longleftrightarrow> cmp y z \<le> 0"
    using assms \<open>cmp y x = 0\<close> cmp_trans [of x y z] cmp_trans [of y x z] by auto
  moreover have "cmp z x \<le> 0 \<longleftrightarrow> cmp z y \<le> 0"
    using assms \<open>cmp y x = 0\<close> cmp_trans [of z x y] cmp_trans [of z y x] by auto
  ultimately show ?thesis
    using cmp_range [of x z] cmp_range [of y z] cmp_swap [of x z] cmp_swap [of y z] assms by auto
qed

lemma cmp_less_trans:
  assumes "carrier x" "carrier y" "carrier z" "cmp x y < 0" "cmp y z \<le> 0"
  shows "cmp x z < 0"
proof (rule ccontr)
  assume "\<not> cmp x z < 0"
  then have "cmp z x \<le> 0" using assms by (simp add: cmp_swap [of x z])
  then have "cmp y x \<le> 0" using assms cmp_trans [of y z x] by auto
  then show False using assms by (simp add: cmp_swap [of x y])
qed

lemma cmp_less_trans2:
  assumes "carrier x" "carrier y" "carrier z" "cmp x y \<le> 0" "cmp y z < 0"
  shows "cmp x z < 0"
proof (rule ccontr)
  assume "\<not> cmp x z < 0"
  then have "cmp z x \<le> 0" using assms by (simp add: cmp_swap [of x z])
  then have "cmp z y \<le> 0" using assms cmp_trans [of z x y] by auto
  then show False using assms by (simp add: cmp_swap [of y z])
qed

end

text \<open>Comparing column by column: the first difference decides.\<close>

fun lex_cmp :: "('a \<Rightarrow> 'a \<Rightarrow> int) \<Rightarrow> 'a list \<Rightarrow> 'a list \<Rightarrow> int" where
  "lex_cmp cmp (x # xs) (y # ys) = (let c = cmp x y in if c \<noteq> 0 then c else lex_cmp cmp xs ys)"
| "lex_cmp cmp _ _ = 0"

locale comparator_family =
  fixes cmp :: "'a \<Rightarrow> 'a \<Rightarrow> int" and carrier :: "'t \<Rightarrow> 'a \<Rightarrow> bool"
  assumes family: "comparator cmp (carrier t)"
begin

abbreviation rows :: "'t list \<Rightarrow> 'a list \<Rightarrow> bool" where
  "rows ts xs \<equiv> list_all2 carrier ts xs"

lemma lex_range: "rows ts xs \<Longrightarrow> rows ts ys \<Longrightarrow> lex_cmp cmp xs ys \<in> {-1, 0, 1}"
proof (induction ts arbitrary: xs ys)
  case Nil
  then show ?case by simp
next
  case (Cons t ts)
  then show ?case
    using comparator.cmp_range [OF family [of t]] by (fastforce simp: list_all2_Cons1 Let_def)
qed

lemma lex_refl: "rows ts xs \<Longrightarrow> lex_cmp cmp xs xs = 0"
proof (induction ts arbitrary: xs)
  case Nil
  then show ?case by simp
next
  case (Cons t ts)
  then show ?case
    using comparator.cmp_refl [OF family [of t]] by (auto simp: list_all2_Cons1)
qed

lemma lex_swap: "rows ts xs \<Longrightarrow> rows ts ys \<Longrightarrow> lex_cmp cmp ys xs = - lex_cmp cmp xs ys"
proof (induction ts arbitrary: xs ys)
  case Nil
  then show ?case by simp
next
  case (Cons t ts)
  then obtain x xs' y ys' where eqs: "xs = x # xs'" "ys = y # ys'"
    and c: "carrier t x" "carrier t y" and r: "rows ts xs'" "rows ts ys'"
    by (auto simp: list_all2_Cons1)
  show ?case
    using Cons.IH [OF r] comparator.cmp_swap [OF family c] by (simp add: eqs Let_def)
qed

lemma lex_trans:
  "rows ts xs \<Longrightarrow> rows ts ys \<Longrightarrow> rows ts zs \<Longrightarrow>
     lex_cmp cmp xs ys \<le> 0 \<Longrightarrow> lex_cmp cmp ys zs \<le> 0 \<Longrightarrow> lex_cmp cmp xs zs \<le> 0"
proof (induction ts arbitrary: xs ys zs)
  case Nil
  then show ?case by simp
next
  case (Cons t ts)
  from Cons.prems obtain x xs' y ys' z zs' where eqs: "xs = x # xs'" "ys = y # ys'" "zs = z # zs'"
    and c: "carrier t x" "carrier t y" "carrier t z"
    and r: "rows ts xs'" "rows ts ys'" "rows ts zs'"
    by (auto simp: list_all2_Cons1)
  note fam = family [of t]
  from Cons.prems(4,5) have le: "cmp x y \<le> 0" "cmp y z \<le> 0"
    by (auto simp: eqs Let_def split: if_splits)
  show ?case
  proof (cases "cmp x y = 0 \<and> cmp y z = 0")
    case True
    then have "cmp x z = 0" using comparator.cmp_eq_cong [OF fam c] by simp
    with True show ?thesis
      using Cons.IH [OF r] Cons.prems(4,5) by (simp add: eqs)
  next
    case False
    then have "cmp x z < 0"
      using le comparator.cmp_less_trans [OF fam c] comparator.cmp_less_trans2 [OF fam c] by linarith
    then show ?thesis by (simp add: eqs Let_def)
  qed
qed

lemma lex_comparator: "comparator (lex_cmp cmp) (rows ts)"
  by (rule comparator.intro)
    (erule (1) lex_range, erule lex_refl, erule (1) lex_swap, erule (4) lex_trans)

end

end
