(* ===== verification/Common_Types.thy ===== *)
theory Common_Types
  imports GoDB_Prelude
begin

text \<open>
  The package \<open>common\<close> (\<open>common/types.go\<close>, \<open>common/utils.go\<close>, \<open>common/errors.go\<close>): column types,
  page and record identifiers with their byte images, the typed values of a tuple with their
  fixed-width storage format, comparison and the lexicographic neighbours used by index scans,
  the error codes, and the FNV-1a hash.

  The byte view that \<open>AsValue\<close> takes of its source is a snapshot here: the aliasing of a string
  value with the page buffer it was read from is what the flag \<open>safeString\<close> records, and a later
  write to that buffer is not seen through the model's value.
\<close>

section \<open>Types and identifiers\<close>

datatype GoDBErrorCode =
  DuplicateObjectError | NoSuchObjectError | DeadlockError | LogClosedError | LockNotFoundError

fun GoDBErrorCode_String :: "GoDBErrorCode \<Rightarrow> string" where
  "GoDBErrorCode_String DuplicateObjectError = ''DuplicateObjectError''"
| "GoDBErrorCode_String NoSuchObjectError = ''NoSuchObjectError''"
| "GoDBErrorCode_String DeadlockError = ''DeadlockError''"
| "GoDBErrorCode_String _ = ''unknown''"

record GoDBError =
  Code :: GoDBErrorCode
  ErrString :: string

definition PageSize :: nat where [simp]: "PageSize = 4096"
definition IntSize :: nat where [simp]: "IntSize = 8"
definition StringLength :: nat where [simp]: "StringLength = 32"

datatype Type = DefaultType | IntType | StringType

fun Type_Size :: "Type \<Rightarrow> nat option" where
  "Type_Size IntType = Some IntSize"
| "Type_Size StringType = Some StringLength"
| "Type_Size DefaultType = None"

fun Type_String :: "Type \<Rightarrow> string" where
  "Type_String IntType = ''int''"
| "Type_String StringType = ''string''"
| "Type_String DefaultType = ''unknown''"

type_synonym ObjectID = uint32
type_synonym TransactionID = uint64

record PageID =
  Oid :: ObjectID
  PageNum :: int32

definition PageIDSize :: nat where [simp]: "PageIDSize = 8"

definition PageID_IsNil :: "PageID \<Rightarrow> bool" where
  "PageID_IsNil p \<longleftrightarrow> Oid p = 0"

definition PageID_WriteTo :: "PageID \<Rightarrow> bytes \<Rightarrow> bytes option" where
  "PageID_WriteTo p data = do {
     Assert (\<not> length data < PageIDSize);
     data \<leftarrow> put_le 4 0 (Oid p) data;
     put_le 4 4 (PageNum p) data
   }"

definition PageID_LoadFrom :: "bytes \<Rightarrow> PageID option" where
  "PageID_LoadFrom data = do {
     Assert (\<not> length data < PageIDSize);
     oid \<leftarrow> get_le 4 0 data;
     num \<leftarrow> get_le 4 4 data;
     Some \<lparr>Oid = oid, PageNum = num\<rparr>
   }"

record RecordID =
  rid_PageID :: PageID
  Slot :: int32

definition RecordIDSize :: nat where [simp]: "RecordIDSize = 12"

definition RecordID_IsNil :: "RecordID \<Rightarrow> bool" where
  "RecordID_IsNil r \<longleftrightarrow> PageID_IsNil (rid_PageID r)"

definition RecordID_WriteTo :: "RecordID \<Rightarrow> bytes \<Rightarrow> bytes option" where
  "RecordID_WriteTo r data = do {
     Assert (\<not> length data < RecordIDSize);
     data \<leftarrow> PageID_WriteTo (rid_PageID r) data;
     put_le 4 PageIDSize (Slot r) data
   }"

definition RecordID_LoadFrom :: "bytes \<Rightarrow> RecordID option" where
  "RecordID_LoadFrom data = do {
     Assert (\<not> length data < RecordIDSize);
     p \<leftarrow> PageID_LoadFrom data;
     s \<leftarrow> get_le 4 PageIDSize data;
     Some \<lparr>rid_PageID = p, Slot = s\<rparr>
   }"

text \<open>Go's zero values of the two structs.\<close>

definition nilPageID :: PageID where
  "nilPageID = \<lparr>Oid = 0, PageNum = 0\<rparr>"

definition nilRecordID :: RecordID where
  "nilRecordID = \<lparr>rid_PageID = nilPageID, Slot = 0\<rparr>"

section \<open>Values\<close>

record Value =
  v_t :: Type
  v_safeString :: bool
  v_null :: bool
  v_underlyingInt :: int64
  v_underlyingString :: bytes

definition zeroValue :: Value where
  "zeroValue = \<lparr>v_t = DefaultType, v_safeString = False, v_null = False,
     v_underlyingInt = 0, v_underlyingString = []\<rparr>"

abbreviation MinInt64 :: int64 where "MinInt64 \<equiv> 0x8000000000000000"
abbreviation MaxInt64 :: int64 where "MaxInt64 \<equiv> 0x7FFFFFFFFFFFFFFF"

text \<open>The loop of \<open>AsValue\<close> that looks for the first zero byte of the 32-byte field.\<close>

primrec real_len :: "bytes \<Rightarrow> nat" where
  "real_len [] = 0"
| "real_len (b # bs) = (if b = 0 then 0 else Suc (real_len bs))"

definition AsValue :: "Type \<Rightarrow> bytes \<Rightarrow> Value option" where
  "AsValue t source =
     (let val = zeroValue\<lparr>v_t := t\<rparr> in
      case t of
        IntType \<Rightarrow> do {
          i \<leftarrow> get_le 8 0 source;
          Some (if i = MinInt64 then val\<lparr>v_underlyingInt := i, v_null := True\<rparr>
                else val\<lparr>v_underlyingInt := i\<rparr>)
        }
      | StringType \<Rightarrow> do {
          b \<leftarrow> idx source 0;
          (if b = 0xFF then Some (val\<lparr>v_null := True, v_safeString := True\<rparr>)
           else do {
             Assert (length source \<ge> StringLength);
             let realLen = real_len (take StringLength source);
             Some (if realLen = 0 then val\<lparr>v_underlyingString := [], v_safeString := True\<rparr>
                   else val\<lparr>v_underlyingString := take realLen source, v_safeString := False\<rparr>)
           })
        }
      | DefaultType \<Rightarrow> Some val)"

definition Value_IsNil :: "Value \<Rightarrow> bool" where
  "Value_IsNil v \<longleftrightarrow> v_t v = DefaultType"

definition Value_Copy :: "Value \<Rightarrow> Value" where
  "Value_Copy v =
     (if v_t v = StringType \<and> \<not> v_null v \<and> \<not> v_safeString v
      then zeroValue\<lparr>v_t := StringType, v_underlyingString := v_underlyingString v,
             v_null := False, v_safeString := True\<rparr>
      else v)"

definition NewIntValue :: "int64 \<Rightarrow> Value" where
  "NewIntValue i = zeroValue\<lparr>v_t := IntType, v_underlyingInt := i, v_null := False\<rparr>"

definition NewStringValue :: "bytes \<Rightarrow> Value option" where
  "NewStringValue s =
     (if length s > StringLength then None
      else Some (zeroValue\<lparr>v_t := StringType, v_underlyingString := s, v_null := False,
                   v_safeString := True\<rparr>))"

definition NewNullInt :: Value where
  "NewNullInt = zeroValue\<lparr>v_t := IntType, v_null := True\<rparr>"

definition NewNullString :: Value where
  "NewNullString = zeroValue\<lparr>v_t := StringType, v_null := True, v_safeString := True\<rparr>"

definition Value_IntValue :: "Value \<Rightarrow> int64 option" where
  "Value_IntValue v = do {
     Assert (v_t v = IntType);
     Assert (\<not> v_null v);
     Some (v_underlyingInt v)
   }"

definition Value_StringValue :: "Value \<Rightarrow> bytes option" where
  "Value_StringValue v = do {
     Assert (v_t v = StringType);
     Assert (\<not> v_null v);
     Some (v_underlyingString v)
   }"

definition Value_SizeInBytes :: "Value \<Rightarrow> nat option" where
  "Value_SizeInBytes v = Type_Size (v_t v)"

definition Value_WriteTo :: "Value \<Rightarrow> bytes \<Rightarrow> bytes option" where
  "Value_WriteTo v data = do {
     size \<leftarrow> Value_SizeInBytes v;
     Assert (length data \<ge> size);
     (if v_null v then
        (case v_t v of
           IntType \<Rightarrow> put_le 8 0 (0x8000000000000000 :: uint64) data
         | StringType \<Rightarrow> Some (blit 0 (0xFF # replicate (StringLength - 1) 0) data)
         | DefaultType \<Rightarrow> Some data)
      else
        (case v_t v of
           IntType \<Rightarrow> put_le 8 0 (v_underlyingInt v) data
         | StringType \<Rightarrow>
             (let n = min (length data) (length (v_underlyingString v));
                  data = blit 0 (v_underlyingString v) data
              in Some (blit n (replicate (StringLength - n) 0) data))
         | DefaultType \<Rightarrow> Some data))
   }"

definition Value_Compare :: "Value \<Rightarrow> Value \<Rightarrow> int option" where
  "Value_Compare v other = do {
     Assert (v_t v = v_t other);
     (if v_null v \<and> v_null other then Some 0
      else if v_null v then Some (-1)
      else if v_null other then Some 1
      else case v_t v of
        IntType \<Rightarrow>
          Some (if sint (v_underlyingInt v) < sint (v_underlyingInt other) then -1
                else if sint (v_underlyingInt v) > sint (v_underlyingInt other) then 1
                else 0)
      | StringType \<Rightarrow>
          Some (if v_underlyingString v < v_underlyingString other then -1
                else if v_underlyingString v > v_underlyingString other then 1
                else 0)
      | DefaultType \<Rightarrow> None)
   }"

section \<open>Lexicographic neighbours\<close>

text \<open>The carry loop of \<open>nextLexString\<close>, from index \<open>i - 1\<close> down to 0.\<close>

fun next_lex_carry :: "nat \<Rightarrow> bytes \<Rightarrow> bytes option" where
  "next_lex_carry 0 b = None"
| "next_lex_carry (Suc i) b =
     (if b ! i \<noteq> 0xFF
      then Some (take i b @ [b ! i + 1] @ replicate (length b - Suc i) 0)
      else next_lex_carry i b)"

definition nextLexString :: "bytes \<Rightarrow> bytes option" where
  "nextLexString b = do {
     Assert (length b \<le> StringLength);
     (if length b < StringLength then Some (b @ [0])
      else next_lex_carry (length b) b)
   }"

definition prevLexString :: "bytes \<Rightarrow> bytes option" where
  "prevLexString b = do {
     Assert (length b \<le> StringLength);
     Assert (length b > 0);
     (if b ! (length b - 1) = 0 then Some (take (length b - 1) b)
      else Some (b[length b - 1 := b ! (length b - 1) - 1]
                 @ replicate (StringLength - length b) 0xFF))
   }"

definition Value_Increment :: "Value \<Rightarrow> Value option" where
  "Value_Increment v = do {
     Assert (\<not> v_null v);
     (case v_t v of
        IntType \<Rightarrow> do {
          Assert (sint (v_underlyingInt v) < sint MaxInt64);
          Some (NewIntValue (v_underlyingInt v + 1))
        }
      | StringType \<Rightarrow> do {
          s \<leftarrow> nextLexString (v_underlyingString v);
          NewStringValue s
        }
      | DefaultType \<Rightarrow> None)
   }"

definition Value_Decrement :: "Value \<Rightarrow> Value option" where
  "Value_Decrement v = do {
     Assert (\<not> v_null v);
     (case v_t v of
        IntType \<Rightarrow> do {
          Assert (sint (v_underlyingInt v) > sint MinInt64);
          Some (NewIntValue (v_underlyingInt v - 1))
        }
      | StringType \<Rightarrow> do {
          s \<leftarrow> prevLexString (v_underlyingString v);
          NewStringValue s
        }
      | DefaultType \<Rightarrow> None)
   }"

section \<open>Alignment and hashing\<close>

definition Align8 :: "int \<Rightarrow> int" where
  "Align8 n = and (n + 7) (not 7)"

definition AlignedTo8 :: "nat \<Rightarrow> bool" where
  "AlignedTo8 n \<longleftrightarrow> n mod 8 = 0"

definition offset64 :: uint64 where "offset64 = 14695981039346656037"
definition prime64 :: uint64 where "prime64 = 1099511628211"

definition Hash :: "bytes \<Rightarrow> uint64" where
  "Hash data = foldl (\<lambda>h b. xor h (ucast b) * prime64) offset64 data"


section \<open>Identifiers: the byte format\<close>

definition rid_bytes :: "RecordID \<Rightarrow> bytes" where
  "rid_bytes r = le_bytes 4 (Oid (rid_PageID r)) @ le_bytes 4 (PageNum (rid_PageID r)) @ le_bytes 4 (Slot r)"

lemma length_rid_bytes [simp]: "length (rid_bytes r) = 12"
  by (simp add: rid_bytes_def)

lemma PageID_WriteTo_eq:
  "8 \<le> length data \<Longrightarrow>
     PageID_WriteTo p data = Some (blit 0 (le_bytes 4 (Oid p) @ le_bytes 4 (PageNum p)) data)"
  by (simp add: PageID_WriteTo_def put_le_def blit_blit_append)

lemma RecordID_WriteTo_eq:
  "12 \<le> length data \<Longrightarrow> RecordID_WriteTo r data = Some (blit 0 (rid_bytes r) data)"
  by (simp add: RecordID_WriteTo_def PageID_WriteTo_eq put_le_def blit_blit_append rid_bytes_def)

lemma RecordID_LoadFrom_eq:
  assumes "12 \<le> length data"
  shows "RecordID_LoadFrom data =
    Some \<lparr>rid_PageID = \<lparr>Oid = le_word (seg 0 4 data), PageNum = le_word (seg 4 4 data)\<rparr>,
          Slot = le_word (seg 8 4 data)\<rparr>"
  using assms by (simp add: RecordID_LoadFrom_def PageID_LoadFrom_def get_le_def)

lemma RecordID_LoadFrom_rid_bytes:
  assumes "12 \<le> length data" "seg 0 12 data = rid_bytes r"
  shows "RecordID_LoadFrom data = Some r"
proof -
  have sub: "seg k 4 data = seg k 4 (rid_bytes r)" if "k + 4 \<le> 12" for k
    using that by (simp add: seg_seg flip: assms(2))
  show ?thesis
    using assms(1) sub [of 0] sub [of 4] sub [of 8]
    by (simp add: RecordID_LoadFrom_eq rid_bytes_def seg_append1 seg_append2)
qed

section \<open>Values: what they mean\<close>

text \<open>
  The abstract value: which of the record's fields carry it depends on the type and the
  null flag. \<open>safeString\<close> is never part of it.
\<close>

datatype sqlval = VNull Type | VInt int64 | VStr bytes

definition sql_of :: "Value \<Rightarrow> sqlval" where
  "sql_of v = (if v_null v then VNull (v_t v)
     else case v_t v of IntType \<Rightarrow> VInt (v_underlyingInt v)
       | StringType \<Rightarrow> VStr (v_underlyingString v)
       | DefaultType \<Rightarrow> VNull DefaultType)"

text \<open>
  A value the storage format can hold: the two sentinels of the format (\<open>MinInt64\<close>, and a first
  byte \<open>0xFF\<close>) and the terminating zero byte are not available as data.
\<close>

definition storable :: "Value \<Rightarrow> bool" where
  "storable v \<longleftrightarrow> v_t v \<noteq> DefaultType \<and>
     (\<not> v_null v \<longrightarrow>
        (v_t v = IntType \<longrightarrow> v_underlyingInt v \<noteq> MinInt64) \<and>
        (v_t v = StringType \<longrightarrow> length (v_underlyingString v) \<le> StringLength \<and>
           0 \<notin> set (v_underlyingString v) \<and> (\<forall>b bs. v_underlyingString v = b # bs \<longrightarrow> b \<noteq> 0xFF)))"

definition value_bytes :: "Value \<Rightarrow> bytes" where
  "value_bytes v =
     (if v_null v then (if v_t v = IntType then le_bytes 8 MinInt64 else 0xFF # replicate 31 0)
      else if v_t v = IntType then le_bytes 8 (v_underlyingInt v)
      else v_underlyingString v @ replicate (32 - length (v_underlyingString v)) 0)"

lemma length_value_bytes:
  "v_t v \<noteq> DefaultType \<Longrightarrow> (\<not> v_null v \<Longrightarrow> length (v_underlyingString v) \<le> 32) \<Longrightarrow>
     Type_Size (v_t v) = Some (length (value_bytes v))"
  by (cases "v_t v") (auto simp: value_bytes_def)

lemma storable_length: "storable v \<Longrightarrow> Type_Size (v_t v) = Some (length (value_bytes v))"
  by (cases "v_t v") (auto simp: value_bytes_def storable_def)

lemma Value_WriteTo_eq:
  assumes "v_t v \<noteq> DefaultType" "v_t v = StringType \<and> \<not> v_null v \<longrightarrow> length (v_underlyingString v) \<le> 32"
    "Type_Size (v_t v) = Some n" "n \<le> length data"
  shows "Value_WriteTo v data = Some (blit 0 (value_bytes v) data)"
  using assms
  by (cases "v_t v")
     (auto simp: Value_WriteTo_def Value_SizeInBytes_def value_bytes_def put_le_def min_absorb2
        blit_blit_append Let_def)

lemma replicate_32: "replicate 32 x = x # replicate 31 x"
  by (simp flip: replicate_Suc)

lemma real_len_append_zero:
  "0 \<notin> set s \<Longrightarrow> real_len (s @ 0 # t) = length s" "0 \<notin> set s \<Longrightarrow> real_len s = length s"
  by (induction s) auto

lemma real_len_padded: "0 \<notin> set s \<Longrightarrow> real_len (s @ replicate k 0) = length s"
  by (cases k) (auto simp: real_len_append_zero)

text \<open>Reading a field only looks at the type's own bytes.\<close>

lemma AsValue_seg:
  assumes "Type_Size t = Some n" "n \<le> length d1" "n \<le> length d2" "seg 0 n d1 = seg 0 n d2"
  shows "AsValue t d1 = AsValue t d2"
proof -
  have take: "take n d1 = take n d2" using assms(4) by (simp add: seg_def)
  then have hd: "0 < n \<Longrightarrow> d1 ! 0 = d2 ! 0" by (metis nth_take)
  have real: "real_len xs \<le> length xs" for xs by (induction xs) auto
  have "take (real_len (take n d1)) d1 = take (real_len (take n d2)) d2"
    using take real [of "take n d1"] by (metis min.absorb_iff1 length_take min.boundedE take_take)
  then show ?thesis
    using assms take hd by (cases t) (auto simp: AsValue_def get_le_def idx_def Let_def)
qed

lemma AsValue_value_bytes:
  assumes "storable v"
  shows "\<exists>w. AsValue (v_t v) (value_bytes v @ rest) = Some w \<and> sql_of w = sql_of v \<and> v_t w = v_t v"
proof (cases "v_t v = StringType \<and> \<not> v_null v")
  case True
  let ?s = "v_underlyingString v"
  have s: "length ?s \<le> 32" "0 \<notin> set ?s" "\<And>b bs. ?s = b # bs \<Longrightarrow> b \<noteq> 0xFF"
    using assms True by (auto simp: storable_def)
  have bytes: "value_bytes v = ?s @ replicate (32 - length ?s) 0"
    using True by (simp add: value_bytes_def)
  have "hd (value_bytes v @ rest) \<noteq> 0xFF"
    using s by (cases ?s) (auto simp: bytes replicate_32)
  then have "(value_bytes v @ rest) ! 0 \<noteq> 0xFF"
    using s(1) by (metis hd_conv_nth bytes length_append length_replicate le_add_diff_inverse
        list.size(3) append_is_Nil_conv zero_neq_numeral)
  moreover have "real_len (take 32 (value_bytes v @ rest)) = length ?s"
    using s by (simp add: bytes real_len_padded)
  moreover have "take (length ?s) (value_bytes v @ rest) = ?s" by (simp add: bytes)
  ultimately show ?thesis
    using True s(1) by (auto simp: AsValue_def Let_def sql_of_def zeroValue_def bytes)
next
  case False
  then show ?thesis
    using assms
    by (cases "v_t v")
       (auto simp: AsValue_def value_bytes_def storable_def sql_of_def zeroValue_def get_le_def
          seg_append1 Let_def)
qed


section \<open>Comparison of values\<close>

definition value_cmp :: "Value \<Rightarrow> Value \<Rightarrow> int" where
  "value_cmp v w = the (Value_Compare v w)"

definition value_of_type :: "Type \<Rightarrow> Value \<Rightarrow> bool" where
  "value_of_type t v \<longleftrightarrow> v_t v = t \<and> t \<noteq> DefaultType"

lemma Value_Compare_total:
  "v_t v = v_t w \<Longrightarrow> v_t v \<noteq> DefaultType \<Longrightarrow> Value_Compare v w = Some (value_cmp v w)"
  by (cases "v_t w") (auto simp: value_cmp_def Value_Compare_def)

lemma value_comparator: "comparator value_cmp (value_of_type t)"
proof (cases t)
  case DefaultType
  then show ?thesis by unfold_locales (auto simp: value_of_type_def)
next
  case IntType
  then show ?thesis
    by unfold_locales (auto simp: value_of_type_def value_cmp_def Value_Compare_def split: if_splits)
next
  case StringType
  then show ?thesis
    by unfold_locales (auto simp: value_of_type_def value_cmp_def Value_Compare_def split: if_splits)
qed

interpretation vcmp: comparator_family value_cmp value_of_type
  by (rule comparator_family.intro) (rule value_comparator)

text \<open>Comparison depends on the abstract values only, and 0 means that they are equal.\<close>

lemma sql_of_type:
  "v_t v = v_t w \<Longrightarrow> v_t v \<noteq> DefaultType \<Longrightarrow> sql_of v = sql_of w \<longleftrightarrow>
     (v_null v \<and> v_null w) \<or> (\<not> v_null v \<and> \<not> v_null w \<and>
       (if v_t v = IntType then v_underlyingInt v = v_underlyingInt w
        else v_underlyingString v = v_underlyingString w))"
  by (cases "v_t w") (auto simp: sql_of_def)

lemma Value_Compare_eq_0:
  assumes "v_t v = v_t w" "v_t v \<noteq> DefaultType"
  shows "Value_Compare v w = Some 0 \<longleftrightarrow> sql_of v = sql_of w"
  using assms
  by (cases "v_t w") (auto simp: Value_Compare_def sql_of_def signed_word_eqI split: if_splits)

lemma Value_Compare_cong:
  assumes "sql_of v = sql_of v'" "sql_of w = sql_of w'" "v_t v = v_t v'" "v_t w = v_t w'"
    "v_t v \<noteq> DefaultType"
  shows "Value_Compare v w = Value_Compare v' w'"
proof (cases "v_t v = v_t w")
  case True
  then show ?thesis
    using assms by (cases "v_t w'") (auto simp: Value_Compare_def sql_of_def split: if_splits)
next
  case False
  then show ?thesis using assms by (auto simp: Value_Compare_def)
qed

section \<open>Lexicographic neighbours\<close>

lemma lex_le_shorter: "t < x @ [0 :: byte] \<Longrightarrow> t \<le> x"
proof (induction x arbitrary: t)
  case Nil
  then show ?case by (cases t) auto
next
  case (Cons a x)
  then show ?case by (cases t) auto
qed

lemma lex_le_decremented:
  assumes "c \<noteq> 0" "t < x @ [c :: byte]" "length t \<le> length x + 1 + k"
  shows "t \<le> x @ (c - 1) # replicate k 255"
  using assms(2,3)
proof (induction x arbitrary: t)
  case Nil
  show ?case
  proof (cases t)
    case (Cons h u)
    with Nil have "h < c" "length u \<le> k" by auto
    moreover from \<open>h < c\<close> have "h < c - 1 \<or> h = c - 1" by unat_arith
    ultimately show ?thesis
      using le_replicate_max [of u k] Cons by auto
  qed simp
next
  case (Cons a x)
  then show ?case by (cases t) auto
qed

lemma prevLexString_pred:
  assumes "prevLexString s = Some p"
  shows "p < s" "length p \<le> StringLength"
    and "length t \<le> StringLength \<Longrightarrow> t < s \<Longrightarrow> t \<le> p"
proof -
  from assms have len: "length s \<le> 32" "s \<noteq> []"
    by (auto simp: prevLexString_def)
  then obtain x c where s: "s = x @ [c]" by (metis rev_exhaust)
  have p: "p = (if c = 0 then x else x @ (c - 1) # replicate (31 - length x) 255)"
    using assms len by (auto simp: prevLexString_def s list_update_append split: if_splits)
  have dec: "c \<noteq> 0 \<Longrightarrow> c - 1 < c" by unat_arith
  show "p < s"
  proof (cases "c = 0")
    case True
    then show ?thesis using p s lex_append_greater [of "[c]" x] by simp
  next
    case False
    then show ?thesis using p dec by (simp add: s)
  qed
  show "length p \<le> StringLength" using p len by (auto simp: s)
  show "t \<le> p" if "length t \<le> StringLength" "t < s"
    using that p len lex_le_shorter [of t x] lex_le_decremented [of c t x "31 - length x"]
    by (auto simp: s split: if_splits)
qed

lemma next_lex_carry_cases:
  assumes "next_lex_carry i b = Some n" "i \<le> length b"
  shows "\<exists>j < i. b ! j \<noteq> 255 \<and> n = take j b @ (b ! j + 1) # replicate (length b - Suc j) 0
           \<and> (\<forall>k. j < k \<and> k < i \<longrightarrow> b ! k = 255)"
  using assms
proof (induction i)
  case (Suc i)
  show ?case
  proof (cases "b ! i = 255")
    case True
    with Suc obtain j where "j < i" "b ! j \<noteq> 255"
      "n = take j b @ (b ! j + 1) # replicate (length b - Suc j) 0"
      "\<forall>k. j < k \<and> k < i \<longrightarrow> b ! k = 255"
      by auto
    with True show ?thesis by (intro exI [of _ j]) (auto simp: less_Suc_eq)
  next
    case False
    with Suc.prems show ?thesis by (intro exI [of _ i]) auto
  qed
qed simp

lemma lex_increment_greater:
  assumes "j < length b" "b ! j \<noteq> (255 :: byte)"
  shows "b < take j b @ (b ! j + 1) # rest"
proof -
  have "b ! j < b ! j + 1" using assms(2) by (rule byte_less_Suc)
  then have "take j b @ (b ! j # drop (Suc j) b) < take j b @ ((b ! j + 1) # rest)"
    by simp
  then show ?thesis using assms(1) by (simp add: id_take_nth_drop [symmetric])
qed

lemma nextLexString_greater:
  assumes "nextLexString s = Some n"
  shows "s < n" "length n \<le> StringLength"
proof -
  have "s < n \<and> length n \<le> StringLength"
  proof (cases "length s < StringLength")
    case True
    then show ?thesis
      using assms lex_append_greater [of "[0]" s] by (auto simp: nextLexString_def)
  next
    case False
    with assms have "next_lex_carry (length s) s = Some n" "length s = 32"
      by (auto simp: nextLexString_def split: if_splits)
    then show ?thesis
      using next_lex_carry_cases [of "length s" s n] lex_increment_greater by fastforce
  qed
  then show "s < n" "length n \<le> StringLength" by auto
qed

lemma lex_ge_longer: "x < t \<Longrightarrow> x @ [0 :: byte] \<le> t"
proof (induction x arbitrary: t)
  case Nil
  then show ?case by (cases t) (auto simp: less_le)
next
  case (Cons a x)
  then show ?case by (cases t) auto
qed

lemma lex_ge_incremented:
  assumes "c \<noteq> 255" "x @ [c :: byte] < t" "length t \<le> length x + 1"
  shows "x @ [c + 1] \<le> t"
  using assms(2,3)
proof (induction x arbitrary: t)
  case Nil
  show ?case
  proof (cases t)
    case (Cons h u)
    with Nil have "c < h" by auto
    then have "c + 1 < h \<or> c + 1 = h" using byte_Suc_le by (auto simp: le_less)
    then show ?thesis using Cons by auto
  qed (use Nil in simp)
next
  case (Cons a x)
  then show ?case by (cases t) auto
qed

lemma nextLexString_least:
  assumes "nextLexString s = Some n" "length s < StringLength \<or> last s \<noteq> 0xFF"
    and "length t \<le> StringLength" "s < t"
  shows "n \<le> t"
proof (cases "length s < StringLength")
  case True
  then show ?thesis using assms lex_ge_longer by (auto simp: nextLexString_def)
next
  case False
  with assms(1) have len: "length s = 32" by (auto simp: nextLexString_def split: if_splits)
  then obtain x c where s: "s = x @ [c]" by (metis rev_exhaust length_0_conv zero_neq_numeral)
  from assms(1) False have "next_lex_carry (length s) s = Some n"
    by (auto simp: nextLexString_def simp del: StringLength_def)
  then have carry: "next_lex_carry (Suc (length x)) (x @ [c]) = Some n" by (simp add: s)
  have "c \<noteq> 255" using assms(2) len by (simp add: s)
  moreover from carry this have "n = x @ [c + 1]" by simp
  ultimately have "n = x @ [c + 1]" "c \<noteq> 255" by auto
  then show ?thesis
    using lex_ge_incremented [of c x t] assms(3,4) len by (simp add: s)
qed


section \<open>Properties\<close>

text \<open>
  A record identifier written into a buffer of at least 12 bytes is read back unchanged, and the
  write changes neither the length of the buffer nor any byte after the first 12.
\<close>

theorem RecordID_roundtrip:
  assumes "12 \<le> length data"
  shows "\<exists>data'. RecordID_WriteTo r data = Some data' \<and> RecordID_LoadFrom data' = Some r \<and>
    length data' = length data \<and> drop 12 data' = drop 12 data"
proof -
  have "RecordID_LoadFrom (blit 0 (rid_bytes r) data) = Some r"
    using assms by (intro RecordID_LoadFrom_rid_bytes) auto
  then show ?thesis
    using assms by (simp add: RecordID_WriteTo_eq drop_blit_0)
qed

theorem RecordID_roundtrip_witness:
  "\<exists>data'. RecordID_WriteTo \<lparr>rid_PageID = \<lparr>Oid = 7, PageNum = 3\<rparr>, Slot = 9\<rparr> (replicate 16 1) = Some data' \<and>
    RecordID_LoadFrom data' = Some \<lparr>rid_PageID = \<lparr>Oid = 7, PageNum = 3\<rparr>, Slot = 9\<rparr> \<and>
    length data' = length (replicate 16 (1 :: byte)) \<and> drop 12 data' = drop 12 (replicate 16 1)"
  by (rule RecordID_roundtrip) simp

text \<open>
  A storable value written into a buffer that has room for its type is read back, by a read of
  the same type, as the same abstract value (the same NULL, integer or string); bytes beyond the
  field are kept.
\<close>

theorem Value_roundtrip:
  assumes "storable v" "Type_Size (v_t v) = Some n" "n \<le> length data"
  shows "\<exists>data' w. Value_WriteTo v data = Some data' \<and> AsValue (v_t v) data' = Some w \<and>
    sql_of w = sql_of v \<and> length data' = length data \<and> drop n data' = drop n data"
proof -
  have n: "n = length (value_bytes v)"
    using storable_length [OF assms(1)] assms(2) by simp
  have "Value_WriteTo v data = Some (blit 0 (value_bytes v) data)"
    using assms by (intro Value_WriteTo_eq) (auto simp: storable_def)
  moreover obtain w where w: "AsValue (v_t v) (value_bytes v @ []) = Some w" "sql_of w = sql_of v"
    using AsValue_value_bytes [OF assms(1)] by blast
  moreover have "AsValue (v_t v) (blit 0 (value_bytes v) data) = AsValue (v_t v) (value_bytes v @ [])"
    using assms n by (intro AsValue_seg [OF assms(2)]) auto
  ultimately show ?thesis
    using n by (simp add: drop_blit_0)
qed

theorem Value_roundtrip_witness:
  "\<exists>data' w. Value_WriteTo (NewIntValue 42) (replicate 10 1) = Some data' \<and>
    AsValue (v_t (NewIntValue 42)) data' = Some w \<and> sql_of w = sql_of (NewIntValue 42) \<and>
    length data' = length (replicate 10 (1 :: byte)) \<and> drop 8 data' = drop 8 (replicate 10 1)"
  by (rule Value_roundtrip) (simp_all add: storable_def NewIntValue_def zeroValue_def)

text \<open>
  On the values of one column type, \<open>Compare\<close> never panics and is a total preorder whose
  equivalence is equality of the abstract values: it returns 0 exactly on equal values, it is
  antisymmetric in sign and transitive, and NULL is below every other value.
\<close>

theorem Value_Compare_order:
  assumes "v_t a = t" "v_t b = t" "v_t c = t" "t \<noteq> DefaultType"
  shows "Value_Compare a b = Some (value_cmp a b) \<and> value_cmp a b \<in> {-1, 0, 1} \<and>
    value_cmp b a = - value_cmp a b \<and>
    (value_cmp a b \<le> 0 \<longrightarrow> value_cmp b c \<le> 0 \<longrightarrow> value_cmp a c \<le> 0) \<and>
    (value_cmp a b = 0 \<longleftrightarrow> sql_of a = sql_of b) \<and>
    (v_null a \<longrightarrow> \<not> v_null b \<longrightarrow> value_cmp a b = -1)"
proof (intro conjI impI)
  have c: "value_of_type t a" "value_of_type t b" "value_of_type t c"
    using assms by (auto simp: value_of_type_def)
  note cmp = vcmp.family [of t]
  show total: "Value_Compare a b = Some (value_cmp a b)" using assms by (simp add: Value_Compare_total)
  show "value_cmp a b \<in> {-1, 0, 1}" by (rule comparator.cmp_range [OF cmp c(1,2)])
  show "value_cmp b a = - value_cmp a b" by (rule comparator.cmp_swap [OF cmp c(1,2)])
  show "value_cmp a c \<le> 0" if "value_cmp a b \<le> 0" "value_cmp b c \<le> 0"
    by (rule comparator.cmp_trans [OF cmp c that])
  show "value_cmp a b = 0 \<longleftrightarrow> sql_of a = sql_of b"
    using Value_Compare_eq_0 [of a b] total assms by simp
  show "value_cmp a b = -1" if "v_null a" "\<not> v_null b"
    using that assms by (simp add: value_cmp_def Value_Compare_def)
qed

theorem Value_Compare_order_witness:
  "value_cmp NewNullInt (NewIntValue 5) = -1 \<and> value_cmp (NewIntValue 5) NewNullInt = - value_cmp NewNullInt (NewIntValue 5)"
  using Value_Compare_order [of NewNullInt IntType "NewIntValue 5" NewNullInt]
  by (simp add: NewNullInt_def NewIntValue_def zeroValue_def)

text \<open>
  \<open>Decrement\<close> returns the immediate predecessor: the result compares below the value, and
  every other non-NULL value of the type (strings of at most 32 bytes) that compares below the value
  compares below or equal to the result.
\<close>

theorem Value_Decrement_immediate:
  assumes "Value_Decrement v = Some w"
    and "v_t x = v_t v" "\<not> v_null x" "length (v_underlyingString x) \<le> StringLength"
    and "Value_Compare x v = Some (-1)"
  shows "Value_Compare w v = Some (-1) \<and> (Value_Compare x w = Some (-1) \<or> Value_Compare x w = Some 0)"
proof (cases "v_t v")
  case DefaultType
  then show ?thesis using assms(1) by (simp add: Value_Decrement_def)
next
  case IntType
  let ?i = "v_underlyingInt v"
  have v: "\<not> v_null v" "sint ?i > sint MinInt64" "w = NewIntValue (?i - 1)"
    using assms(1) IntType by (auto simp: Value_Decrement_def)
  have "sint (?i - 1) = sint ?i - 1"
    using v(2) sint_lt [of ?i] by (simp add: sint_word_ariths signed_take_bit_int_eq_self)
  moreover have "sint (v_underlyingInt x) < sint ?i"
    using assms v IntType by (auto simp: Value_Compare_def split: if_splits)
  ultimately show ?thesis
    using assms v IntType by (auto simp: Value_Compare_def NewIntValue_def zeroValue_def)
next
  case StringType
  let ?s = "v_underlyingString v"
  obtain p where p: "\<not> v_null v" "prevLexString ?s = Some p" "NewStringValue p = Some w"
    using assms(1) StringType by (auto simp: Value_Decrement_def bind_eq_Some_conv)
  then have w: "v_underlyingString w = p" "v_t w = StringType" "\<not> v_null w"
    by (auto simp: NewStringValue_def zeroValue_def split: if_splits)
  have "v_underlyingString x < ?s"
    using assms p StringType by (auto simp: Value_Compare_def split: if_splits)
  then show ?thesis
    using prevLexString_pred [OF p(2)] assms(2-4) p(1) w StringType
    by (fastforce simp: Value_Compare_def)
qed

theorem Value_Decrement_immediate_witness:
  "Value_Compare (NewIntValue 41) (NewIntValue 42) = Some (-1) \<and>
    (Value_Compare (NewIntValue 7) (NewIntValue 41) = Some (-1) \<or>
     Value_Compare (NewIntValue 7) (NewIntValue 41) = Some 0)"
  by (rule Value_Decrement_immediate)
    (simp_all add: Value_Decrement_def Value_Compare_def NewIntValue_def zeroValue_def)

text \<open>
  \<open>Increment\<close> of a string returns a strictly greater string of at most 32 bytes, and it is the
  immediate successor unless the string is 32 bytes long and ends in \<open>0xFF\<close>; in that case the carry
  pads the result with zero bytes and shorter strings lie in between (the doc comment of
  \<open>nextLexString\<close> claims the immediate successor for every input).
\<close>

theorem nextLexString_successor:
  assumes "nextLexString s = Some n"
  shows "s < n \<and> length n \<le> StringLength \<and>
    ((\<forall>t. length t \<le> StringLength \<longrightarrow> s < t \<longrightarrow> n \<le> t) \<longleftrightarrow> length s < StringLength \<or> last s \<noteq> 0xFF)"
proof -
  have "\<exists>t. length t \<le> StringLength \<and> s < t \<and> t < n" if "\<not> (length s < StringLength \<or> last s \<noteq> 0xFF)"
  proof -
    from that assms have len: "length s = 32" "next_lex_carry (length s) s = Some n"
      by (auto simp: nextLexString_def split: if_splits)
    then obtain j where j: "j < 32" "s ! j \<noteq> 255" "n = take j s @ (s ! j + 1) # replicate (31 - j) 0"
      using next_lex_carry_cases [of "length s" s n] by auto
    have "s ! 31 = 255" using that len by (cases s rule: rev_cases) (auto simp: nth_append)
    then have "j < 31" using j by (cases "j = 31") auto
    then have "n = (take j s @ [s ! j + 1]) @ replicate (31 - j) 0" "replicate (31 - j) 0 \<noteq> ([] :: bytes)"
      using j by auto
    then have "take j s @ [s ! j + 1] < n" using lex_append_greater by metis
    moreover have "s < take j s @ [s ! j + 1]"
      using lex_increment_greater [of j s "[]"] j len by simp
    ultimately show ?thesis
      using \<open>j < 31\<close> len by (intro exI [of _ "take j s @ [s ! j + 1]"]) auto
  qed
  then show ?thesis
    using nextLexString_greater [OF assms] nextLexString_least [OF assms] by (meson not_le)
qed

theorem nextLexString_successor_witness:
  "[97 :: byte] < [97, 0] \<and> length [97 :: byte, 0] \<le> StringLength \<and>
    ((\<forall>t. length t \<le> StringLength \<longrightarrow> [97 :: byte] < t \<longrightarrow> [97, 0] \<le> t) \<longleftrightarrow>
       length [97 :: byte] < StringLength \<or> last [97 :: byte] \<noteq> 0xFF)"
  by (rule nextLexString_successor) (simp add: nextLexString_def)

end
