(* ===== verification/Storage_Tuple.thy ===== *)
theory Storage_Tuple
  imports Common_Types
begin

text \<open>
  Rows (\<open>storage/tuple.go\<close>): the physical layout of a row (\<open>RawTupleDesc\<close>), and the tuples that
  query operators exchange, a physical part followed by virtual values.

  A nil and an empty \<open>extraValues\<close> are different values (\<open>IsNil\<close> and \<open>MergeTuples\<close> look at that), so
  the field is an option. The tuples that \<open>WriteToBuffer\<close> and \<open>MergeTuples\<close> return share the caller's
  buffer; the model returns the buffer's new contents inside the tuple. \<open>Extend\<close> is the value-level
  append: two extensions of one tuple never share the spare capacity of its slice here.

  The reference definitions are \<open>decode_row\<close>, the values a byte string holds under a list of types,
  and \<open>encode_row\<close>, the concatenation of the fields' images; the operations are proved against them.
\<close>

section \<open>Layout of a row\<close>

record RawTupleDesc =
  d_fields :: "Type list"
  d_offsets :: "nat list"
  d_bytesPerRow :: nat

definition RawTupleDesc_NumColumns :: "RawTupleDesc \<Rightarrow> nat" where
  "RawTupleDesc_NumColumns desc = length (d_fields desc)"

definition BytesPerTuple :: "RawTupleDesc \<Rightarrow> nat" where
  "BytesPerTuple desc = d_bytesPerRow desc"

definition GetFieldType :: "RawTupleDesc \<Rightarrow> nat \<Rightarrow> Type option" where
  "GetFieldType desc i = idx (d_fields desc) i"

definition GetFieldTypes :: "RawTupleDesc \<Rightarrow> Type list" where
  "GetFieldTypes desc = d_fields desc"

definition GetFieldOffset :: "RawTupleDesc \<Rightarrow> nat \<Rightarrow> nat option" where
  "GetFieldOffset desc i = idx (d_offsets desc) i"

definition RawTupleDesc_GetValue :: "RawTupleDesc \<Rightarrow> bytes \<Rightarrow> nat \<Rightarrow> Value option" where
  "RawTupleDesc_GetValue desc t i = do {
     ty \<leftarrow> idx (d_fields desc) i;
     off \<leftarrow> idx (d_offsets desc) i;
     src \<leftarrow> slice_from t off;
     AsValue ty src
   }"

definition RawTupleDesc_SetValue :: "RawTupleDesc \<Rightarrow> bytes \<Rightarrow> nat \<Rightarrow> Value \<Rightarrow> bytes option" where
  "RawTupleDesc_SetValue desc t i val = do {
     ty \<leftarrow> idx (d_fields desc) i;
     Assert (v_t val = ty);
     off \<leftarrow> idx (d_offsets desc) i;
     with_slice off (Value_WriteTo val) t
   }"

text \<open>The loop of \<open>NewRawTupleDesc\<close>: the offsets of the remaining fields and the final size.\<close>

primrec desc_loop :: "Type list \<Rightarrow> nat \<Rightarrow> (nat list \<times> nat) option" where
  "desc_loop [] sz = Some ([], sz)"
| "desc_loop (f # fs) sz = do {
     sz' \<leftarrow> (case f of
        IntType \<Rightarrow> Some (sz + IntSize)
      | StringType \<Rightarrow> Some (sz + StringLength)
      | DefaultType \<Rightarrow> None);
     (offs, total) \<leftarrow> desc_loop fs sz';
     Some (sz # offs, total)
   }"

definition NewRawTupleDesc :: "Type list \<Rightarrow> RawTupleDesc option" where
  "NewRawTupleDesc fs = do {
     (offsetOfField, sz) \<leftarrow> desc_loop fs 0;
     Assert (AlignedTo8 sz);
     Assert (sz \<le> PageSize - 32);
     Some \<lparr>d_fields = fs, d_offsets = offsetOfField, d_bytesPerRow = sz\<rparr>
   }"

section \<open>Tuples\<close>

record Tuple =
  rawTuple :: bytes
  rawDesc :: "RawTupleDesc option"
  extraValues :: "Value list option"
  t_rid :: RecordID

abbreviation extras :: "Tuple \<Rightarrow> Value list" where
  "extras t \<equiv> case_option [] id (extraValues t)"

definition FromRawTuple :: "bytes \<Rightarrow> RawTupleDesc \<Rightarrow> RecordID \<Rightarrow> Tuple" where
  "FromRawTuple raw desc rid = \<lparr>rawTuple = raw, rawDesc = Some desc, extraValues = None, t_rid = rid\<rparr>"

definition FromValues :: "Value list option \<Rightarrow> Tuple" where
  "FromValues vs = \<lparr>rawTuple = [], rawDesc = None, extraValues = vs, t_rid = nilRecordID\<rparr>"

definition EmptyTuple :: Tuple where
  "EmptyTuple = FromValues None"

definition Extend :: "Tuple \<Rightarrow> Value list \<Rightarrow> Tuple" where
  "Extend t newValues = t\<lparr>extraValues :=
     (if extraValues t = None \<and> newValues = [] then None else Some (extras t @ newValues))\<rparr>"

definition Tuple_IsNil :: "Tuple \<Rightarrow> bool" where
  "Tuple_IsNil t \<longleftrightarrow> rawDesc t = None \<and> extraValues t = None"

definition RID :: "Tuple \<Rightarrow> RecordID" where
  "RID t = t_rid t"

definition NumColumns :: "Tuple \<Rightarrow> nat" where
  "NumColumns t = (case rawDesc t of None \<Rightarrow> length (extras t)
     | Some d \<Rightarrow> length (extras t) + RawTupleDesc_NumColumns d)"

definition Tuple_GetValue :: "Tuple \<Rightarrow> nat \<Rightarrow> Value option" where
  "Tuple_GetValue t i = (case rawDesc t of
       Some d \<Rightarrow>
         (if i < RawTupleDesc_NumColumns d then RawTupleDesc_GetValue d (rawTuple t) i
          else idx (extras t) (i - RawTupleDesc_NumColumns d))
     | None \<Rightarrow> idx (extras t) i)"

text \<open>\<open>for i in is { desc.SetValue(buf, base+i, get(i)) }\<close>, the loop of the serialisers.\<close>

primrec set_loop :: "RawTupleDesc \<Rightarrow> nat \<Rightarrow> (nat \<Rightarrow> Value option) \<Rightarrow> nat list \<Rightarrow> bytes \<Rightarrow> bytes option" where
  "set_loop desc base get [] buf = Some buf"
| "set_loop desc base get (i # is) buf = do {
     v \<leftarrow> get i;
     buf \<leftarrow> RawTupleDesc_SetValue desc buf (base + i) v;
     set_loop desc base get is buf
   }"

definition WriteToBuffer :: "Tuple \<Rightarrow> bytes \<Rightarrow> RawTupleDesc \<Rightarrow> Tuple option" where
  "WriteToBuffer t buf desc = do {
     Assert (length buf \<ge> BytesPerTuple desc);
     Assert (NumColumns t = RawTupleDesc_NumColumns desc);
     let (numPhysicalColumns, buf) =
       (case rawDesc t of
          None \<Rightarrow> (0, buf)
        | Some d \<Rightarrow> (RawTupleDesc_NumColumns d, blit 0 (rawTuple t) buf));
     buf \<leftarrow> set_loop desc 0 (\<lambda>i. idx (extras t) (i - numPhysicalColumns))
       [numPhysicalColumns..<RawTupleDesc_NumColumns desc] buf;
     Some (FromRawTuple buf desc (t_rid t))
   }"

definition MergeTuples :: "bytes \<Rightarrow> RawTupleDesc \<Rightarrow> Tuple \<Rightarrow> Tuple \<Rightarrow> Tuple option" where
  "MergeTuples buf desc left right = do {
     Assert (length buf \<ge> BytesPerTuple desc);
     Assert (NumColumns left + NumColumns right = RawTupleDesc_NumColumns desc);
     buf \<leftarrow>
       (if extraValues left = None \<and> extraValues right = None then
          with_slice (length (rawTuple left)) (\<lambda>b. Some (blit 0 (rawTuple right) b))
            (blit 0 (rawTuple left) buf)
        else do {
          let leftNumCols = NumColumns left;
          let rightNumCols = NumColumns right;
          buf \<leftarrow> set_loop desc 0 (Tuple_GetValue left) [0..<leftNumCols] buf;
          set_loop desc leftNumCols (Tuple_GetValue right) [0..<rightNumCols] buf
        });
     Some (FromRawTuple buf desc nilRecordID)
   }"

definition DeepCopy :: "Tuple \<Rightarrow> RawTupleDesc \<Rightarrow> Tuple option" where
  "DeepCopy t desc = do {
     Assert (NumColumns t = RawTupleDesc_NumColumns desc);
     let dest = replicate (BytesPerTuple desc) 0;
     copy \<leftarrow> WriteToBuffer t dest desc;
     Some (FromRawTuple (rawTuple copy) desc (t_rid t))
   }"

text \<open>The comparison loop of \<open>Equals\<close>.\<close>

primrec equals_loop :: "Tuple \<Rightarrow> Tuple \<Rightarrow> nat list \<Rightarrow> bool option" where
  "equals_loop t other [] = Some True"
| "equals_loop t other (i # is) = do {
     v1 \<leftarrow> Tuple_GetValue t i;
     v2 \<leftarrow> Tuple_GetValue other i;
     (if v_t v1 \<noteq> v_t v2 then Some False
      else do {
        c \<leftarrow> Value_Compare v1 v2;
        (if c \<noteq> 0 then Some False else equals_loop t other is)
      })
   }"

definition Tuple_Equals :: "Tuple \<Rightarrow> Tuple \<Rightarrow> bool option" where
  "Tuple_Equals t other =
     (if NumColumns t \<noteq> NumColumns other then Some False
      else equals_loop t other [0..<NumColumns t])"

section \<open>The reference codec\<close>

fun tsize :: "Type \<Rightarrow> nat" where
  "tsize IntType = 8"
| "tsize StringType = 32"
| "tsize DefaultType = 0"

definition row_size :: "Type list \<Rightarrow> nat" where
  "row_size ts = sum_list (map tsize ts)"

primrec decode_row :: "Type list \<Rightarrow> bytes \<Rightarrow> Value list" where
  "decode_row [] bs = []"
| "decode_row (t # ts) bs = the (AsValue t bs) # decode_row ts (drop (tsize t) bs)"

definition encode_row :: "Value list \<Rightarrow> bytes" where
  "encode_row vs = concat (map value_bytes vs)"

definition wf_desc :: "RawTupleDesc \<Rightarrow> bool" where
  "wf_desc d \<longleftrightarrow> DefaultType \<notin> set (d_fields d) \<and>
     d_offsets d = map (\<lambda>i. row_size (take i (d_fields d))) [0..<length (d_fields d)] \<and>
     d_bytesPerRow d = row_size (d_fields d) \<and> row_size (d_fields d) \<le> PageSize - 32"

definition wf_tuple :: "Tuple \<Rightarrow> bool" where
  "wf_tuple t \<longleftrightarrow> (\<forall>v \<in> set (extras t). storable v) \<and>
     (case rawDesc t of None \<Rightarrow> rawTuple t = []
      | Some d \<Rightarrow> wf_desc d \<and> length (rawTuple t) = d_bytesPerRow d)"

definition phys_types :: "Tuple \<Rightarrow> Type list" where
  "phys_types t = (case rawDesc t of None \<Rightarrow> [] | Some d \<Rightarrow> d_fields d)"

definition tuple_types :: "Tuple \<Rightarrow> Type list" where
  "tuple_types t = phys_types t @ map v_t (extras t)"

definition tuple_values :: "Tuple \<Rightarrow> Value list" where
  "tuple_values t = decode_row (phys_types t) (rawTuple t) @ extras t"

text \<open>What a tuple is to a query: its list of abstract values.\<close>

definition row_of :: "Tuple \<Rightarrow> sqlval list" where
  "row_of t = map sql_of (tuple_values t)"

subsection \<open>Sizes and offsets\<close>

lemma row_size_simps [simp]:
  "row_size [] = 0" "row_size (t # ts) = tsize t + row_size ts" "row_size (ts @ us) = row_size ts + row_size us"
  by (simp_all add: row_size_def)

lemma Type_Size_tsize: "t \<noteq> DefaultType \<Longrightarrow> Type_Size t = Some (tsize t)"
  by (cases t) auto

lemma storable_tsize: "storable v \<Longrightarrow> length (value_bytes v) = tsize (v_t v)"
  using storable_length [of v] Type_Size_tsize [of "v_t v"] by (auto simp: storable_def)

lemma length_encode_row: "\<forall>v \<in> set vs. storable v \<Longrightarrow> length (encode_row vs) = row_size (map v_t vs)"
  by (induction vs) (auto simp: encode_row_def storable_tsize)

lemma length_decode_row [simp]: "length (decode_row ts bs) = length ts"
  by (induction ts arbitrary: bs) auto

lemma row_size_take_Suc: "i < length ts \<Longrightarrow> row_size (take (Suc i) ts) = row_size (take i ts) + tsize (ts ! i)"
  by (simp add: take_Suc_conv_app_nth)

lemma row_size_take_le: "row_size (take i ts) \<le> row_size ts"
  by (metis append_take_drop_id le_add1 row_size_simps(3))

lemma row_size_mod_8: "row_size ts mod 8 = 0"
proof (induction ts)
  case (Cons t ts)
  then show ?case by (cases t) (auto simp: mod_add_eq)
qed simp

lemma desc_loop_eq:
  "desc_loop fs sz =
    (if DefaultType \<in> set fs then None
     else Some (map (\<lambda>i. sz + row_size (take i fs)) [0..<length fs], sz + row_size fs))"
proof (induction fs arbitrary: sz)
  case (Cons f fs)
  have "map (\<lambda>i. sz + row_size (take i (f # fs))) [0..<length (f # fs)] =
    sz # map (\<lambda>i. (sz + tsize f) + row_size (take i fs)) [0..<length fs]"
    by (simp add: upt_conv_Cons map_Suc_upt [symmetric] comp_def add.assoc del: upt_Suc)
  then show ?case
    by (cases f) (auto simp: Cons add.assoc simp del: upt_Suc)
qed simp

lemma NewRawTupleDesc_Some:
  "NewRawTupleDesc ts = Some d \<longleftrightarrow> wf_desc d \<and> d_fields d = ts"
  by (cases d) (auto simp: NewRawTupleDesc_def desc_loop_eq wf_desc_def AlignedTo8_def row_size_mod_8)

lemma NewRawTupleDesc_None:
  "NewRawTupleDesc ts = None \<longleftrightarrow> DefaultType \<in> set ts \<or> PageSize - 32 < row_size ts"
  by (auto simp: NewRawTupleDesc_def desc_loop_eq AlignedTo8_def row_size_mod_8 bind_eq_None_conv Assert_def)

lemma wf_desc_offset: "wf_desc d \<Longrightarrow> i < length (d_fields d) \<Longrightarrow> d_offsets d ! i = row_size (take i (d_fields d))"
  by (simp add: wf_desc_def)

lemma wf_desc_length: "wf_desc d \<Longrightarrow> length (d_offsets d) = length (d_fields d)"
  by (simp add: wf_desc_def)

lemma field_fits: "i < length ts \<Longrightarrow> row_size (take i ts) + tsize (ts ! i) \<le> row_size ts"
  using row_size_take_Suc [of i ts] row_size_take_le [of "Suc i" ts] by simp


subsection \<open>Decoding\<close>

lemma real_len_prefix: "real_len xs \<le> length xs" "0 \<notin> set (take (real_len xs) xs)"
  by (induction xs) auto

text \<open>Whatever the bytes, a field of known type decodes to a value the format can hold.\<close>

lemma AsValue_total:
  assumes "t \<noteq> DefaultType" "tsize t \<le> length bs"
  shows "\<exists>v. AsValue t bs = Some v \<and> v_t v = t \<and> storable v"
proof (cases t)
  case StringType
  let ?n = "real_len (take 32 bs)"
  have n: "?n \<le> 32" "take ?n bs = take ?n (take 32 bs)"
    using real_len_prefix(1) [of "take 32 bs"] by (auto simp: take_take min_absorb1)
  have z: "0 \<notin> set (take ?n bs)" unfolding n(2) by (rule real_len_prefix(2))
  have len: "0 < length bs" using assms StringType by auto
  then have "take ?n bs = b # bs' \<Longrightarrow> b = bs ! 0" for b bs'
    by (cases bs; cases ?n) auto
  then show ?thesis
    using assms StringType z n(1) len by (auto simp: AsValue_def storable_def zeroValue_def Let_def)
qed (use assms in \<open>auto simp: AsValue_def storable_def zeroValue_def get_le_def Let_def\<close>)

lemma decode_row_values:
  "DefaultType \<notin> set ts \<Longrightarrow> row_size ts \<le> length bs \<Longrightarrow>
     map v_t (decode_row ts bs) = ts \<and> (\<forall>v \<in> set (decode_row ts bs). storable v)"
proof (induction ts arbitrary: bs)
  case (Cons t ts)
  then obtain v where "AsValue t bs = Some v \<and> v_t v = t \<and> storable v"
    using AsValue_total [of t bs] by auto
  then show ?case using Cons.IH [of "drop (tsize t) bs"] Cons.prems by auto
qed simp

lemma decode_row_nth:
  "i < length ts \<Longrightarrow> decode_row ts bs ! i = the (AsValue (ts ! i) (drop (row_size (take i ts)) bs))"
proof (induction ts arbitrary: i bs)
  case (Cons t ts)
  then show ?case by (cases i) (auto simp: add.commute)
qed simp

lemma decode_row_append:
  "decode_row (ts @ us) bs = decode_row ts bs @ decode_row us (drop (row_size ts) bs)"
  by (induction ts arbitrary: bs) (auto simp: add.commute)

lemma decode_row_rest:
  "DefaultType \<notin> set ts \<Longrightarrow> row_size ts \<le> length bs \<Longrightarrow> decode_row ts (bs @ rest) = decode_row ts bs"
proof (induction ts arbitrary: bs)
  case (Cons t ts)
  then have "AsValue t (bs @ rest) = AsValue t bs"
    by (intro AsValue_seg [OF Type_Size_tsize]) (auto simp: seg_append1)
  then show ?case using Cons by simp
qed simp

lemma decode_encode_row:
  "\<forall>v \<in> set vs. storable v \<Longrightarrow>
     map sql_of (decode_row (map v_t vs) (encode_row vs @ rest)) = map sql_of vs"
proof (induction vs)
  case (Cons v vs)
  then have "\<exists>w. AsValue (v_t v) (value_bytes v @ (encode_row vs @ rest)) = Some w \<and> sql_of w = sql_of v"
    using AsValue_value_bytes [of v] by fastforce
  moreover have "drop (tsize (v_t v)) (encode_row (v # vs) @ rest) = encode_row vs @ rest"
    using Cons.prems by (simp add: encode_row_def storable_tsize)
  ultimately show ?case
    using Cons by (auto simp: encode_row_def)
qed simp

lemma value_bytes_cong:
  assumes "storable v" "storable w" "v_t v = v_t w" "sql_of v = sql_of w"
  shows "value_bytes v = value_bytes w"
  using assms by (cases "v_t w") (auto simp: value_bytes_def sql_of_def storable_def split: if_splits)

lemma encode_row_eq_iff:
  assumes "\<forall>v \<in> set vs. storable v" "\<forall>w \<in> set ws. storable w" "map v_t vs = map v_t ws"
  shows "encode_row vs = encode_row ws \<longleftrightarrow> map sql_of vs = map sql_of ws"
proof
  assume "encode_row vs = encode_row ws"
  then show "map sql_of vs = map sql_of ws"
    using decode_encode_row [OF assms(1), of "[]"] decode_encode_row [OF assms(2), of "[]"] assms(3) by simp
next
  assume eq: "map sql_of vs = map sql_of ws"
  have "length vs = length ws" using assms(3) map_eq_imp_length_eq by blast
  then have "map value_bytes vs = map value_bytes ws"
    using eq assms by (induction vs ws rule: list_induct2) (auto intro: value_bytes_cong)
  then show "encode_row vs = encode_row ws" by (simp add: encode_row_def)
qed

subsection \<open>Fields of a row\<close>

lemma GetValue_decode:
  assumes "wf_desc d" "i < length (d_fields d)" "d_bytesPerRow d \<le> length t"
  shows "RawTupleDesc_GetValue d t i = Some (decode_row (d_fields d) t ! i)"
proof -
  let ?off = "row_size (take i (d_fields d))"
  have sz: "?off + tsize (d_fields d ! i) \<le> length t"
    using field_fits [OF assms(2)] assms(1,3) by (simp add: wf_desc_def)
  have "d_fields d ! i \<noteq> DefaultType" using assms by (metis nth_mem wf_desc_def)
  from AsValue_total [OF this, of "drop ?off t"] sz
  obtain v where "AsValue (d_fields d ! i) (drop ?off t) = Some v" by fastforce
  then have "AsValue (d_fields d ! i) (drop ?off t) = Some (the (AsValue (d_fields d ! i) (drop ?off t)))" by simp
  then show ?thesis
    using assms(1,2) sz
    by (simp add: RawTupleDesc_GetValue_def wf_desc_offset wf_desc_length slice_from_def decode_row_nth)
qed

lemma SetValue_blit:
  assumes "wf_desc d" "i < length (d_fields d)" "d_bytesPerRow d \<le> length t"
    "storable v" "v_t v = d_fields d ! i"
  shows "RawTupleDesc_SetValue d t i v = Some (blit (row_size (take i (d_fields d))) (value_bytes v) t)"
proof -
  let ?off = "row_size (take i (d_fields d))"
  have sz: "?off + tsize (d_fields d ! i) \<le> length t"
    using field_fits [OF assms(2)] assms(1,3) by (simp add: wf_desc_def)
  have "Value_WriteTo v (drop ?off t) = Some (blit 0 (value_bytes v) (drop ?off t))"
    using assms(4,5) sz by (intro Value_WriteTo_eq [OF _ _ Type_Size_tsize]) (auto simp: storable_def)
  then have "with_slice ?off (Value_WriteTo v) t = Some (blit (?off + 0) (value_bytes v) t)"
    by (intro with_slice_blit) (use sz in auto)
  then show ?thesis
    using assms by (simp add: RawTupleDesc_SetValue_def wf_desc_offset wf_desc_length)
qed

lemma row_size_take_mono: "i \<le> j \<Longrightarrow> row_size (take i ts) \<le> row_size (take j ts)"
  by (metis min.absorb1 take_take row_size_take_le)

text \<open>Fields do not overlap: a written field changes the decoded row at its own place only.\<close>

lemma decode_row_blit:
  assumes "DefaultType \<notin> set ts" "i < length ts" "row_size ts \<le> length t" "storable v" "v_t v = ts ! i"
  shows "map sql_of (decode_row ts (blit (row_size (take i ts)) (value_bytes v) t)) =
    (map sql_of (decode_row ts t))[i := sql_of v]"
proof (rule nth_equalityI)
  let ?t' = "blit (row_size (take i ts)) (value_bytes v) t"
  fix j assume "j < length (map sql_of (decode_row ts ?t'))"
  then have j: "j < length ts" by simp
  let ?oj = "row_size (take j ts)" and ?oi = "row_size (take i ts)"
  have nd: "ts ! j \<noteq> DefaultType" using assms(1) j by (metis nth_mem)
  have fit: "?oj + tsize (ts ! j) \<le> length t" "?oi + tsize (ts ! i) \<le> length t"
    using field_fits [OF j] field_fits [OF assms(2)] assms(3) by auto
  have len: "length (value_bytes v) = tsize (ts ! i)" using assms(4,5) storable_tsize by metis
  have "sql_of (decode_row ts ?t' ! j) = (if j = i then sql_of v else sql_of (decode_row ts t ! j))"
  proof (cases "j = i")
    case True
    have "drop ?oi ?t' = value_bytes v @ drop (?oi + length (value_bytes v)) t"
      using fit(2) by (simp add: blit_def len)
    then show ?thesis
      using True j AsValue_value_bytes [OF assms(4), of "drop (?oi + length (value_bytes v)) t"] assms(5)
      by (auto simp: decode_row_nth)
  next
    case False
    then consider "j < i" | "i < j" by linarith
    then have "?oj + tsize (ts ! j) \<le> ?oi \<or> ?oi + tsize (ts ! i) \<le> ?oj"
      using row_size_take_mono [of "Suc j" i ts] row_size_take_mono [of "Suc i" j ts]
        row_size_take_Suc [OF j] row_size_take_Suc [OF assms(2)] by cases auto
    then have "seg ?oj (tsize (ts ! j)) ?t' = seg ?oj (tsize (ts ! j)) t"
      by (intro seg_blit_disjoint) (auto simp: len)
    then have "AsValue (ts ! j) (drop ?oj ?t') = AsValue (ts ! j) (drop ?oj t)"
      using fit by (intro AsValue_seg [OF Type_Size_tsize [OF nd]]) (auto simp: seg_def)
    then show ?thesis using False j by (simp add: decode_row_nth)
  qed
  then show "map sql_of (decode_row ts ?t') ! j = (map sql_of (decode_row ts t))[i := sql_of v] ! j"
    using j by (simp add: nth_list_update)
qed simp

lemma set_loop_blit:
  assumes "wf_desc d" "d_bytesPerRow d \<le> length buf" "\<forall>v \<in> set vs. storable v"
    "base + k + length vs \<le> length (d_fields d)"
    "map v_t vs = take (length vs) (drop (base + k) (d_fields d))"
    "\<And>j. j < length vs \<Longrightarrow> get (k + j) = Some (vs ! j)"
  shows "set_loop d base get [k..<k + length vs] buf =
    Some (blit (row_size (take (base + k) (d_fields d))) (encode_row vs) buf)"
  using assms(2-)
proof (induction vs arbitrary: k buf)
  case Nil
  then show ?case by (simp add: encode_row_def)
next
  case (Cons v vs)
  let ?fs = "d_fields d" and ?off = "row_size (take (base + k) (d_fields d))"
  have lt: "base + k < length ?fs" using Cons.prems by simp
  have drop: "drop (base + k) ?fs = ?fs ! (base + k) # drop (base + Suc k) ?fs"
    using lt by (simp add: Cons_nth_drop_Suc)
  then have vt: "v_t v = ?fs ! (base + k)" and
    rest: "map v_t vs = take (length vs) (drop (base + Suc k) ?fs)" using Cons.prems(4) by auto
  have gv: "get k = Some v" using Cons.prems(5) [of 0] by simp
  have gs: "get (Suc k + j) = Some (vs ! j)" if "j < length vs" for j
    using Cons.prems(5) [of "Suc j"] that by simp
  let ?buf = "blit ?off (value_bytes v) buf"
  have set: "RawTupleDesc_SetValue d buf (base + k) v = Some ?buf"
    using Cons.prems vt lt by (intro SetValue_blit [OF assms(1)]) auto
  have len: "length (value_bytes v) = tsize (?fs ! (base + k))"
    using storable_tsize [of v] Cons.prems vt by simp
  have off: "row_size (take (base + Suc k) ?fs) = ?off + length (value_bytes v)"
    using row_size_take_Suc [OF lt] len by simp
  have "length (encode_row vs) = row_size (take (length vs) (drop (base + Suc k) ?fs))"
    using length_encode_row [of vs] Cons.prems(2) rest by simp
  then have "row_size (take (base + Suc k) ?fs) + length (encode_row vs) = row_size (take (base + Suc k + length vs) ?fs)"
    by (simp only: take_add [of "base + Suc k"] row_size_simps)
  also have "\<dots> \<le> row_size ?fs" by (rule row_size_take_le)
  also have "\<dots> \<le> length buf" using Cons.prems(1) assms(1) by (simp add: wf_desc_def)
  finally have fit: "?off + length (value_bytes v) + length (encode_row vs) \<le> length buf"
    using off by simp
  have "set_loop d base get [Suc k..<Suc k + length vs] ?buf =
    Some (blit (row_size (take (base + Suc k) ?fs)) (encode_row vs) ?buf)"
    using Cons.prems rest gs by (intro Cons.IH) auto
  also have "blit (row_size (take (base + Suc k) ?fs)) (encode_row vs) ?buf =
    blit ?off (encode_row (v # vs)) buf"
    unfolding off encode_row_def using fit by (subst blit_blit_append) (auto simp: encode_row_def)
  finally show ?case using gv set by (simp add: upt_conv_Cons del: upt_Suc)
qed

subsection \<open>Tuples as lists of values\<close>

lemma NumColumns_types: "NumColumns t = length (tuple_types t)"
  by (simp add: NumColumns_def tuple_types_def phys_types_def RawTupleDesc_NumColumns_def split: option.split)

lemma wf_tuple_phys:
  assumes "wf_tuple t"
  shows "DefaultType \<notin> set (phys_types t)" "length (rawTuple t) = row_size (phys_types t)"
  using assms by (auto simp: wf_tuple_def phys_types_def wf_desc_def split: option.splits)

lemma tuple_values_props:
  assumes "wf_tuple t"
  shows "map v_t (tuple_values t) = tuple_types t" "\<forall>v \<in> set (tuple_values t). storable v"
    "length (tuple_values t) = NumColumns t"
proof -
  have "map v_t (decode_row (phys_types t) (rawTuple t)) = phys_types t \<and>
    (\<forall>v \<in> set (decode_row (phys_types t) (rawTuple t)). storable v)"
    using wf_tuple_phys [OF assms] by (intro decode_row_values) auto
  then show t: "map v_t (tuple_values t) = tuple_types t" "\<forall>v \<in> set (tuple_values t). storable v"
    using assms by (auto simp: tuple_values_def tuple_types_def wf_tuple_def)
  from arg_cong [OF t(1), of length] show "length (tuple_values t) = NumColumns t"
    by (simp add: NumColumns_types)
qed

lemma Tuple_GetValue_eq:
  assumes "wf_tuple t" "i < NumColumns t"
  shows "Tuple_GetValue t i = Some (tuple_values t ! i)"
proof (cases "rawDesc t")
  case None
  then show ?thesis
    using assms(2) by (simp add: Tuple_GetValue_def tuple_values_def phys_types_def NumColumns_def)
next
  case (Some d)
  then show ?thesis
    using assms GetValue_decode [of d i "rawTuple t"]
    by (auto simp: Tuple_GetValue_def tuple_values_def phys_types_def NumColumns_def wf_tuple_def
        RawTupleDesc_NumColumns_def nth_append)
qed

lemma row_FromRawTuple: "row_of (FromRawTuple buf d r) = map sql_of (decode_row (d_fields d) buf)"
  by (simp add: row_of_def tuple_values_def FromRawTuple_def phys_types_def)

lemma wf_FromRawTuple: "wf_desc d \<Longrightarrow> length buf = d_bytesPerRow d \<Longrightarrow> wf_tuple (FromRawTuple buf d r)"
  by (simp add: wf_tuple_def FromRawTuple_def)

text \<open>The bytes a tuple stands for: its physical part followed by the images of its virtual values.\<close>

definition row_image :: "Tuple \<Rightarrow> bytes" where
  "row_image t = rawTuple t @ encode_row (extras t)"

lemma length_image: "wf_tuple t \<Longrightarrow> length (row_image t) = row_size (tuple_types t)"
  using wf_tuple_phys [of t] length_encode_row [of "extras t"]
  by (auto simp: row_image_def tuple_types_def wf_tuple_def)

lemma decode_image:
  assumes "wf_tuple t"
  shows "map sql_of (decode_row (tuple_types t) (row_image t @ rest)) = row_of t"
  using wf_tuple_phys [OF assms] assms decode_encode_row [of "extras t" rest]
  by (simp add: row_image_def tuple_types_def decode_row_append decode_row_rest row_of_def tuple_values_def
      wf_tuple_def)

lemma WriteToBuffer_eq:
  assumes "wf_tuple t" "wf_desc d" "d_fields d = tuple_types t" "d_bytesPerRow d \<le> length buf"
  shows "WriteToBuffer t buf d = Some (FromRawTuple (blit 0 (row_image t) buf) d (t_rid t))"
proof -
  let ?n = "length (phys_types t)"
  have len: "length (rawTuple t) = row_size (phys_types t)" by (rule wf_tuple_phys [OF assms(1)])
  have stor: "\<forall>v \<in> set (extras t). storable v" using assms(1) by (simp add: wf_tuple_def)
  have fit: "length (row_image t) \<le> length buf"
    using length_image [OF assms(1)] assms(2-4) by (simp add: wf_desc_def)
  have "set_loop d 0 (\<lambda>i. idx (extras t) (i - ?n)) [?n..<?n + length (extras t)] (blit 0 (rawTuple t) buf) =
    Some (blit (row_size (take (0 + ?n) (d_fields d))) (encode_row (extras t)) (blit 0 (rawTuple t) buf))"
    using assms stor by (intro set_loop_blit) (auto simp: tuple_types_def)
  also have "blit (row_size (take (0 + ?n) (d_fields d))) (encode_row (extras t)) (blit 0 (rawTuple t) buf)
    = blit 0 (row_image t) buf"
    unfolding row_image_def using fit len by (subst blit_blit_append) (auto simp: assms(3) tuple_types_def row_image_def)
  finally show ?thesis
    using assms(1,3,4) unfolding WriteToBuffer_def NumColumns_types BytesPerTuple_def
    by (cases "rawDesc t")
       (auto simp: RawTupleDesc_NumColumns_def phys_types_def tuple_types_def wf_tuple_def row_image_def
          simp del: upt_Suc)
qed


lemma merge_fast_eq:
  assumes "wf_tuple l" "wf_tuple r" "extraValues l = None" "extraValues r = None"
    "length (row_image l @ row_image r) \<le> length buf"
  shows "with_slice (length (rawTuple l)) (\<lambda>b. Some (blit 0 (rawTuple r) b)) (blit 0 (rawTuple l) buf) =
    Some (blit 0 (row_image l @ row_image r) buf)"
proof -
  have im: "row_image l = rawTuple l" "row_image r = rawTuple r"
    using assms(3,4) by (simp_all add: row_image_def encode_row_def)
  have "with_slice (length (rawTuple l)) (\<lambda>b. Some (blit 0 (rawTuple r) b)) (blit 0 (rawTuple l) buf)
    = Some (blit (length (rawTuple l) + 0) (rawTuple r) (blit 0 (rawTuple l) buf))"
    using assms(5) im by (intro with_slice_blit) auto
  also have "blit (length (rawTuple l) + 0) (rawTuple r) (blit 0 (rawTuple l) buf) =
    blit 0 (rawTuple l @ rawTuple r) buf"
    using assms(5) im by (intro blit_blit_append) auto
  finally show ?thesis by (simp add: im)
qed

lemma merge_slow_eq:
  assumes "wf_tuple l" "wf_tuple r" "wf_desc d" "d_fields d = tuple_types l @ tuple_types r"
    "d_bytesPerRow d \<le> length buf"
  shows "set_loop d 0 (Tuple_GetValue l) [0..<NumColumns l] buf \<bind>
      set_loop d (NumColumns l) (Tuple_GetValue r) [0..<NumColumns r] =
    Some (blit 0 (encode_row (tuple_values l @ tuple_values r)) buf)"
proof -
  note pl = tuple_values_props [OF assms(1)] and pr = tuple_values_props [OF assms(2)]
  have len: "length (encode_row (tuple_values l)) = row_size (tuple_types l)"
    "length (encode_row (tuple_values r)) = row_size (tuple_types r)"
    using length_encode_row [of "tuple_values l"] length_encode_row [of "tuple_values r"] pl pr by auto
  have sz: "row_size (tuple_types l) + row_size (tuple_types r) \<le> length buf"
    using assms(3-5) by (simp add: wf_desc_def)
  have 1: "set_loop d 0 (Tuple_GetValue l) [0..<0 + length (tuple_values l)] buf =
    Some (blit (row_size (take (0 + 0) (d_fields d))) (encode_row (tuple_values l)) buf)"
    using assms pl by (intro set_loop_blit) (auto simp: Tuple_GetValue_eq NumColumns_types)
  have 2: "set_loop d (NumColumns l) (Tuple_GetValue r) [0..<0 + length (tuple_values r)] buf' =
    Some (blit (row_size (take (NumColumns l + 0) (d_fields d))) (encode_row (tuple_values r)) buf')"
    if "length buf' = length buf" for buf'
    using assms pr that by (intro set_loop_blit) (auto simp: Tuple_GetValue_eq NumColumns_types)
  have "blit (row_size (tuple_types l)) (encode_row (tuple_values r)) (blit 0 (encode_row (tuple_values l)) buf)
    = blit 0 (encode_row (tuple_values l) @ encode_row (tuple_values r)) buf"
    using sz len by (intro blit_blit_append) auto
  then show ?thesis
    using 1 2 [of "blit 0 (encode_row (tuple_values l)) buf"] pl(3) pr(3)
    by (simp add: assms(4) NumColumns_types encode_row_def)
qed

lemma drop_image_blit:
  "length bs \<le> length buf \<Longrightarrow> blit 0 bs buf = bs @ drop (length bs) buf"
  by (simp add: blit_def)

section \<open>Properties\<close>

text \<open>
  C34: a descriptor is built exactly for lists of known types whose row is at most \<open>PageSize - 32\<close>
  bytes. Every field then lies inside the row, the fields tile it without overlap in order, and each
  offset is a multiple of 8.
\<close>

theorem NewRawTupleDesc_layout:
  "case NewRawTupleDesc ts of
     None \<Rightarrow> DefaultType \<in> set ts \<or> PageSize - 32 < row_size ts
   | Some d \<Rightarrow> d_fields d = ts \<and> length (d_offsets d) = length ts \<and>
       d_bytesPerRow d = row_size ts \<and> row_size ts \<le> PageSize - 32 \<and> DefaultType \<notin> set ts \<and>
       (\<forall>i < length ts. d_offsets d ! i mod 8 = 0 \<and>
          d_offsets d ! i + tsize (ts ! i) =
            (if Suc i < length ts then d_offsets d ! Suc i else d_bytesPerRow d))"
proof (cases "NewRawTupleDesc ts")
  case None
  then show ?thesis using NewRawTupleDesc_None [of ts] by simp
next
  case (Some d)
  then have d: "wf_desc d" "d_fields d = ts" by (auto simp: NewRawTupleDesc_Some)
  have "d_offsets d ! i mod 8 = 0 \<and> d_offsets d ! i + tsize (ts ! i) =
      (if Suc i < length ts then d_offsets d ! Suc i else d_bytesPerRow d)" if "i < length ts" for i
    using that d row_size_take_Suc [OF that] row_size_mod_8
    by (auto simp: wf_desc_def not_less le_antisym)
  then show ?thesis
    using Some d by (simp add: wf_desc_def)
qed

theorem NewRawTupleDesc_layout_witness:
  "(case NewRawTupleDesc [IntType, StringType] of
     None \<Rightarrow> DefaultType \<in> set [IntType, StringType] \<or> PageSize - 32 < row_size [IntType, StringType]
   | Some d \<Rightarrow> d_fields d = [IntType, StringType] \<and> length (d_offsets d) = length [IntType, StringType] \<and>
       d_bytesPerRow d = row_size [IntType, StringType] \<and> row_size [IntType, StringType] \<le> PageSize - 32 \<and>
       DefaultType \<notin> set [IntType, StringType] \<and>
       (\<forall>i < length [IntType, StringType]. d_offsets d ! i mod 8 = 0 \<and>
          d_offsets d ! i + tsize ([IntType, StringType] ! i) =
            (if Suc i < length [IntType, StringType] then d_offsets d ! Suc i else d_bytesPerRow d)))
   \<and> NewRawTupleDesc [IntType, StringType] =
       Some \<lparr>d_fields = [IntType, StringType], d_offsets = [0, 8], d_bytesPerRow = 40\<rparr>"
  using NewRawTupleDesc_layout [of "[IntType, StringType]"]
  by (simp add: NewRawTupleDesc_def AlignedTo8_def)

text \<open>
  A storable value of the field's type is written into a row without a panic, keeps the row's
  length, and is what a read of that field returns; every other field reads as before.
\<close>

theorem SetValue_GetValue:
  assumes "NewRawTupleDesc ts = Some d" "d_bytesPerRow d \<le> length t" "i < length ts"
    "storable v" "v_t v = ts ! i"
  shows "\<exists>t'. RawTupleDesc_SetValue d t i v = Some t' \<and> length t' = length t \<and>
    (\<forall>j < length ts. map_option sql_of (RawTupleDesc_GetValue d t' j) =
       (if j = i then Some (sql_of v) else map_option sql_of (RawTupleDesc_GetValue d t j)))"
proof -
  from assms(1) have d: "wf_desc d" "d_fields d = ts" by (auto simp: NewRawTupleDesc_Some)
  let ?t' = "blit (row_size (take i ts)) (value_bytes v) t"
  have set: "RawTupleDesc_SetValue d t i v = Some ?t'"
    using d assms SetValue_blit [of d i t v] by simp
  have dec: "map sql_of (decode_row ts ?t') = (map sql_of (decode_row ts t))[i := sql_of v]"
    using d assms(2-5) by (intro decode_row_blit) (auto simp: wf_desc_def)
  have get: "map_option sql_of (RawTupleDesc_GetValue d t' j) = Some (map sql_of (decode_row ts t') ! j)"
    if "j < length ts" "length t' = length t" for j t'
    using that d assms(2) GetValue_decode [of d j t'] by simp
  have "map_option sql_of (RawTupleDesc_GetValue d ?t' j) =
       (if j = i then Some (sql_of v) else map_option sql_of (RawTupleDesc_GetValue d t j))"
    if "j < length ts" for j
    unfolding get [OF that refl] get [OF that length_blit] dec using that by simp
  then show ?thesis using set by (metis length_blit)
qed

theorem SetValue_GetValue_witness:
  "\<exists>t'. RawTupleDesc_SetValue \<lparr>d_fields = [IntType, StringType], d_offsets = [0, 8], d_bytesPerRow = 40\<rparr>
      (replicate 40 0) 1 NewNullString = Some t' \<and> length t' = length (replicate 40 (0 :: byte)) \<and>
    (\<forall>j < length [IntType, StringType].
       map_option sql_of (RawTupleDesc_GetValue
         \<lparr>d_fields = [IntType, StringType], d_offsets = [0, 8], d_bytesPerRow = 40\<rparr> t' j) =
       (if j = 1 then Some (sql_of NewNullString) else map_option sql_of (RawTupleDesc_GetValue
         \<lparr>d_fields = [IntType, StringType], d_offsets = [0, 8], d_bytesPerRow = 40\<rparr> (replicate 40 0) j)))"
  by (rule SetValue_GetValue)
     (simp_all add: NewRawTupleDesc_def AlignedTo8_def storable_def NewNullString_def zeroValue_def)

lemma MergeTuples_spec:
  assumes "wf_tuple l" "wf_tuple r" "NewRawTupleDesc (tuple_types l @ tuple_types r) = Some d"
    "length buf = d_bytesPerRow d"
  shows "\<exists>m. MergeTuples buf d l r = Some m \<and> wf_tuple m \<and> row_of m = row_of l @ row_of r"
proof -
  from assms(3) have d: "wf_desc d" "d_fields d = tuple_types l @ tuple_types r"
    by (auto simp: NewRawTupleDesc_Some)
  have sz: "length (row_image l @ row_image r) = length buf"
    using length_image assms(1,2,4) d by (simp add: wf_desc_def)
  have types: "DefaultType \<notin> set (tuple_types l)"
    using d by (auto simp: wf_desc_def)
  note pl = tuple_values_props [OF assms(1)] and pr = tuple_values_props [OF assms(2)]
  have cols: "NumColumns l + NumColumns r = length (d_fields d)" by (simp add: NumColumns_types d(2))
  show ?thesis
  proof (cases "extraValues l = None \<and> extraValues r = None")
    case True
    let ?m = "FromRawTuple (row_image l @ row_image r) d nilRecordID"
    have "MergeTuples buf d l r = Some ?m"
      using True assms(1,2,4) cols sz merge_fast_eq [of l r buf]
      by (simp add: MergeTuples_def BytesPerTuple_def RawTupleDesc_NumColumns_def drop_image_blit)
    moreover have "row_of ?m = row_of l @ row_of r"
      using decode_image [OF assms(1), of "row_image r"] decode_image [OF assms(2), of "[]"] length_image [OF assms(1)]
      by (simp add: row_FromRawTuple d(2) decode_row_append)
    ultimately show ?thesis using wf_FromRawTuple [OF d(1)] sz assms(4) by simp
  next
    case False
    let ?e = "encode_row (tuple_values l @ tuple_values r)"
    let ?m = "FromRawTuple ?e d nilRecordID"
    have le: "length ?e = length buf"
      using length_encode_row [of "tuple_values l @ tuple_values r"] pl pr sz length_image assms(1,2)
      by auto
    have "MergeTuples buf d l r = Some ?m"
      using False assms(1,2,4) d cols le merge_slow_eq [of l r d buf]
      by (auto simp: MergeTuples_def BytesPerTuple_def RawTupleDesc_NumColumns_def drop_image_blit)
    moreover have "row_of ?m = row_of l @ row_of r"
      unfolding row_FromRawTuple d(2)
      using decode_encode_row [of "tuple_values l @ tuple_values r" "[]"] pl pr by (auto simp: row_of_def)
    ultimately show ?thesis using wf_FromRawTuple [OF d(1)] le assms(4) by simp
  qed
qed

text \<open>
  \<open>MergeTuples\<close> of two well-formed tuples never panics and gives a physical tuple holding the
  left row followed by the right row, whichever of its two paths runs.
\<close>

theorem MergeTuples_concat:
  assumes "wf_tuple l" "wf_tuple r" "NewRawTupleDesc (tuple_types l @ tuple_types r) = Some d"
    "length buf = d_bytesPerRow d"
  shows "\<exists>m. MergeTuples buf d l r = Some m \<and> wf_tuple m \<and> row_of m = row_of l @ row_of r"
  by (rule MergeTuples_spec [OF assms])

theorem MergeTuples_concat_witness:
  "\<exists>m. MergeTuples (replicate 16 0) \<lparr>d_fields = [IntType, IntType], d_offsets = [0, 8], d_bytesPerRow = 16\<rparr>
      (FromRawTuple (replicate 8 0) \<lparr>d_fields = [IntType], d_offsets = [0], d_bytesPerRow = 8\<rparr> nilRecordID)
      (FromValues (Some [NewIntValue 5])) = Some m \<and> wf_tuple m \<and>
    row_of m = row_of (FromRawTuple (replicate 8 0) \<lparr>d_fields = [IntType], d_offsets = [0], d_bytesPerRow = 8\<rparr> nilRecordID)
      @ row_of (FromValues (Some [NewIntValue 5]))"
  by (rule MergeTuples_concat)
     (simp_all add: NewRawTupleDesc_def AlignedTo8_def storable_def NewIntValue_def zeroValue_def
        wf_tuple_def FromRawTuple_def FromValues_def wf_desc_def tuple_types_def phys_types_def)

text \<open>
  \<open>DeepCopy\<close> of a well-formed tuple under the descriptor of its types never panics and gives a
  purely physical tuple with the same row and the same record identifier, which \<open>Equals\<close> the original.
\<close>

theorem DeepCopy_same_row:
  assumes "wf_tuple t" "NewRawTupleDesc (tuple_types t) = Some d"
  shows "\<exists>c. DeepCopy t d = Some c \<and> wf_tuple c \<and> extraValues c = None \<and> row_of c = row_of t \<and>
    RID c = RID t \<and> Tuple_Equals t c = Some True"
proof -
  from assms(2) have d: "wf_desc d" "d_fields d = tuple_types t" by (auto simp: NewRawTupleDesc_Some)
  let ?c = "FromRawTuple (row_image t) d (t_rid t)"
  have len: "length (row_image t) = d_bytesPerRow d"
    using length_image [OF assms(1)] d by (simp add: wf_desc_def)
  have copy: "DeepCopy t d = Some ?c"
    using WriteToBuffer_eq [OF assms(1) d, of "replicate (d_bytesPerRow d) 0"] len
    by (simp add: DeepCopy_def BytesPerTuple_def drop_image_blit NumColumns_types d(2)
        RawTupleDesc_NumColumns_def FromRawTuple_def)
  have wf: "wf_tuple ?c" using wf_FromRawTuple [OF d(1) len] .
  have row: "row_of ?c = row_of t"
    using decode_image [OF assms(1), of "[]"] by (simp add: row_FromRawTuple d(2))
  have types: "tuple_types ?c = tuple_types t" by (simp add: FromRawTuple_def tuple_types_def phys_types_def d(2))
  have "equals_loop t ?c is = Some True" if "set is \<subseteq> {..<NumColumns t}" for "is"
    using that
  proof (induction "is")
    case (Cons i "is")
    then have i: "i < NumColumns t" "i < NumColumns ?c" using types by (auto simp: NumColumns_types)
    let ?v = "tuple_values t ! i" and ?w = "tuple_values ?c ! i"
    have l: "i < length (tuple_values t)" "i < length (tuple_values ?c)"
      using i tuple_values_props(3) assms(1) wf by auto
    have vt: "v_t ?v = tuple_types t ! i" "v_t ?w = tuple_types t ! i"
      using l tuple_values_props(1) [OF assms(1)] tuple_values_props(1) [OF wf] types by (metis nth_map)+
    have "sql_of ?v = sql_of ?w" using row l by (metis row_of_def nth_map)
    moreover have "v_t ?v \<noteq> DefaultType"
      using tuple_values_props(2) [OF assms(1)] l(1) by (auto simp: storable_def)
    ultimately have "Value_Compare ?v ?w = Some 0" using vt by (subst Value_Compare_eq_0) auto
    then show ?case
      using Cons i Tuple_GetValue_eq [OF assms(1) i(1)] Tuple_GetValue_eq [OF wf i(2)] vt by simp
  qed simp
  from this [of "[0..<NumColumns t]"] have "Tuple_Equals t ?c = Some True"
    by (auto simp: Tuple_Equals_def NumColumns_types types atLeast0LessThan)
  then show ?thesis using copy wf row by (simp add: RID_def) (simp add: FromRawTuple_def)
qed

theorem DeepCopy_same_row_witness:
  "\<exists>c. DeepCopy (FromValues (Some [NewIntValue 5])) \<lparr>d_fields = [IntType], d_offsets = [0], d_bytesPerRow = 8\<rparr> = Some c \<and>
    wf_tuple c \<and> extraValues c = None \<and> row_of c = row_of (FromValues (Some [NewIntValue 5])) \<and>
    RID c = RID (FromValues (Some [NewIntValue 5])) \<and>
    Tuple_Equals (FromValues (Some [NewIntValue 5])) c = Some True"
  by (rule DeepCopy_same_row)
     (simp_all add: NewRawTupleDesc_def AlignedTo8_def storable_def NewIntValue_def zeroValue_def
        wf_tuple_def FromValues_def tuple_types_def phys_types_def)

end
