(* ===== verification/Planner_Expr.thy ===== *)
theory Planner_Expr
  imports Storage_Tuple "HOL-Library.Signed_Division"
begin

text \<open>
  Expressions (\<open>planner/expr.go\<close>), logical columns and schemas (\<open>planner/logical_plan_types.go\<close>) and
  the binder that turns logical into physical expressions (\<open>planner/physical_plan_builder.go\<close>).

  The implementations of the interface \<open>Expr\<close> are one datatype; \<open>LogicalColumn\<close> is one of them. A
  panic of an evaluation (a wrong type, a column out of range, a string that is too long) is \<open>None\<close>.
  Of a \<open>TableRef\<close> the alias, the number and the identifier of its table are kept (\<open>None\<close> for a
  subquery); comparison of pointers first is subsumed, since a reference is equal to itself by its number.
  Names are ASCII, for which \<open>strings.EqualFold\<close> ignores the case of letters.
\<close>

section \<open>Logical columns\<close>

record TableRef =
  tr_table :: "ObjectID option"
  tr_alias :: string
  refID :: uint64

definition TableRef_Equals :: "TableRef option \<Rightarrow> TableRef option \<Rightarrow> bool" where
  "TableRef_Equals t other =
     (case (t, other) of
        (None, None) \<Rightarrow> True
      | (Some t, Some other) \<Rightarrow>
          refID t = refID other \<or> (refID t = 0 \<or> refID other = 0) \<and> tr_alias t = tr_alias other
      | _ \<Rightarrow> False)"

record LogicalColumn =
  cname :: string
  ctype :: Type
  origin :: "TableRef option"

definition ascii_lower :: "char \<Rightarrow> nat" where
  "ascii_lower c = (let n = of_char c in if 65 \<le> n \<and> n \<le> 90 then n + 32 else n)"

definition EqualFold :: "string \<Rightarrow> string \<Rightarrow> bool" where
  "EqualFold s t \<longleftrightarrow> map ascii_lower s = map ascii_lower t"

definition LogicalColumn_Equals :: "LogicalColumn \<Rightarrow> LogicalColumn \<Rightarrow> bool" where
  "LogicalColumn_Equals c other =
     (if \<not> EqualFold (cname c) (cname other) \<or> ctype c \<noteq> ctype other then False
      else TableRef_Equals (origin c) (origin other))"

type_synonym LogicalSchema = "LogicalColumn list"

definition Schema_Contains :: "LogicalSchema \<Rightarrow> LogicalColumn \<Rightarrow> bool" where
  "Schema_Contains s target = list_ex (\<lambda>col. LogicalColumn_Equals col target) s"

definition Schema_Equals :: "LogicalSchema \<Rightarrow> LogicalSchema \<Rightarrow> bool" where
  "Schema_Equals s other =
     (if length s \<noteq> length other then False
      else list_all (Schema_Contains other) s \<and> list_all (Schema_Contains s) other)"

definition Schema_Covers :: "LogicalSchema \<Rightarrow> LogicalSchema \<Rightarrow> bool" where
  "Schema_Covers s sub = list_all (Schema_Contains s) sub"

section \<open>Expressions\<close>

datatype ComparisonType = Equal | NotEqual | GreaterThan | LessThan | GreaterThanOrEqual | LessThanOrEqual
datatype BinaryLogicType = And | Or
datatype NullCheckType = IsNull | IsNotNull
datatype ArithmeticType = Add | Sub | Mult | Div | Mod

text \<open>The items of the regular expressions that LIKE patterns are translated to: a quoted character,
  \<open>.\<close> and \<open>.*\<close>, between \<open>^\<close> and \<open>$\<close>. Characters are runes.\<close>

datatype regex_item = Lit nat | Dot | DotStar

datatype Expr =
    BoundValueExpr int Type string
  | ConstantValueExpr Value
  | LogicalColumnExpr LogicalColumn
  | ComparisonExpression Expr Expr ComparisonType
  | BinaryLogicExpression Expr Expr BinaryLogicType
  | NegationExpression Expr
  | NullCheckExpression Expr NullCheckType
  | ArithmeticExpression Expr Expr ArithmeticType
  | StringConcatExpression Expr Expr
  | LikeExpression Expr Expr "regex_item list option"

fun ComparisonType_String :: "ComparisonType \<Rightarrow> string" where
  "ComparisonType_String Equal = ''=''"
| "ComparisonType_String NotEqual = ''!=''"
| "ComparisonType_String GreaterThan = ''>''"
| "ComparisonType_String LessThan = ''<''"
| "ComparisonType_String GreaterThanOrEqual = ''>=''"
| "ComparisonType_String LessThanOrEqual = ''<=''"

fun BinaryLogicType_String :: "BinaryLogicType \<Rightarrow> string" where
  "BinaryLogicType_String And = ''AND''"
| "BinaryLogicType_String Or = ''OR''"

fun NullCheckType_String :: "NullCheckType \<Rightarrow> string" where
  "NullCheckType_String IsNull = ''IS NULL''"
| "NullCheckType_String IsNotNull = ''IS NOT NULL''"

fun ArithmeticType_String :: "ArithmeticType \<Rightarrow> string" where
  "ArithmeticType_String Add = ''+''"
| "ArithmeticType_String Sub = ''-''"
| "ArithmeticType_String Mult = ''*''"
| "ArithmeticType_String Div = ''/''"
| "ArithmeticType_String Mod = ''%''"

definition NewColumnValueExpression :: "nat \<Rightarrow> Type list \<Rightarrow> string \<Rightarrow> Expr option" where
  "NewColumnValueExpression fieldOffset tupleSchema name = do {
     ty \<leftarrow> idx tupleSchema fieldOffset;
     Some (BoundValueExpr (int fieldOffset) ty name)
   }"

fun OutputType :: "Expr \<Rightarrow> Type" where
  "OutputType (BoundValueExpr _ ty _) = ty"
| "OutputType (ConstantValueExpr v) = v_t v"
| "OutputType (LogicalColumnExpr c) = ctype c"
| "OutputType (ComparisonExpression _ _ _) = IntType"
| "OutputType (BinaryLogicExpression _ _ _) = IntType"
| "OutputType (NegationExpression _) = IntType"
| "OutputType (NullCheckExpression _ _) = IntType"
| "OutputType (ArithmeticExpression _ _ _) = IntType"
| "OutputType (StringConcatExpression _ _) = StringType"
| "OutputType (LikeExpression _ _ _) = IntType"

fun GetReferencedColumns :: "Expr \<Rightarrow> LogicalColumn list option" where
  "GetReferencedColumns (BoundValueExpr _ _ _) = None"
| "GetReferencedColumns (ConstantValueExpr _) = Some []"
| "GetReferencedColumns (LogicalColumnExpr c) = Some [c]"
| "GetReferencedColumns (ComparisonExpression l r _) = do {
     ls \<leftarrow> GetReferencedColumns l; rs \<leftarrow> GetReferencedColumns r; Some (ls @ rs) }"
| "GetReferencedColumns (BinaryLogicExpression l r _) = do {
     ls \<leftarrow> GetReferencedColumns l; rs \<leftarrow> GetReferencedColumns r; Some (ls @ rs) }"
| "GetReferencedColumns (NegationExpression e) = GetReferencedColumns e"
| "GetReferencedColumns (NullCheckExpression _ _) = Some []"
| "GetReferencedColumns (ArithmeticExpression l r _) = do {
     ls \<leftarrow> GetReferencedColumns l; rs \<leftarrow> GetReferencedColumns r; Some (ls @ rs) }"
| "GetReferencedColumns (StringConcatExpression _ _) = Some []"
| "GetReferencedColumns (LikeExpression l r _) = do {
     ls \<leftarrow> GetReferencedColumns l; rs \<leftarrow> GetReferencedColumns r; Some (ls @ rs) }"

definition CoversExpr :: "LogicalSchema \<Rightarrow> Expr \<Rightarrow> bool option" where
  "CoversExpr s expr = do {
     cols \<leftarrow> GetReferencedColumns expr;
     Some (list_all (Schema_Contains s) cols)
   }"

section \<open>LIKE\<close>

text \<open>A Go string read as runes: UTF-8, where a byte that starts no valid sequence is \<open>U+FFFD\<close>.\<close>

definition in_range :: "nat \<Rightarrow> nat \<Rightarrow> byte \<Rightarrow> bool" where
  "in_range a b x \<longleftrightarrow> a \<le> unat x \<and> unat x \<le> b"

abbreviation cont :: "byte \<Rightarrow> bool" where "cont \<equiv> in_range 0x80 0xBF"
abbreviation low6 :: "byte \<Rightarrow> nat" where "low6 x \<equiv> unat x mod 64"

definition decode_rune :: "byte \<Rightarrow> bytes \<Rightarrow> nat \<times> nat" where
  "decode_rune b bs =
     (let x = unat b in
      if x < 0x80 then (x, 0)
      else if in_range 0xC2 0xDF b then
        (case bs of b1 # _ \<Rightarrow> if cont b1 then (x mod 32 * 64 + low6 b1, 1) else (0xFFFD, 0) | _ \<Rightarrow> (0xFFFD, 0))
      else if in_range 0xE0 0xEF b then
        (case bs of
           b1 # b2 # _ \<Rightarrow>
             if in_range (if x = 0xE0 then 0xA0 else 0x80) (if x = 0xED then 0x9F else 0xBF) b1 \<and> cont b2
             then (x mod 16 * 4096 + low6 b1 * 64 + low6 b2, 2) else (0xFFFD, 0)
         | _ \<Rightarrow> (0xFFFD, 0))
      else if in_range 0xF0 0xF4 b then
        (case bs of
           b1 # b2 # b3 # _ \<Rightarrow>
             if in_range (if x = 0xF0 then 0x90 else 0x80) (if x = 0xF4 then 0x8F else 0xBF) b1 \<and> cont b2 \<and> cont b3
             then (x mod 8 * 262144 + low6 b1 * 4096 + low6 b2 * 64 + low6 b3, 3) else (0xFFFD, 0)
         | _ \<Rightarrow> (0xFFFD, 0))
      else (0xFFFD, 0))"

function (sequential) runes :: "bytes \<Rightarrow> nat list" where
  "runes [] = []"
| "runes (b # bs) = (let (r, n) = decode_rune b bs in r # runes (drop n bs))"
  by pat_completeness auto
termination by (relation "measure length") auto

fun sqlLikeToRegexPattern :: "nat list \<Rightarrow> regex_item list" where
  "sqlLikeToRegexPattern [] = []"
| "sqlLikeToRegexPattern (c # cs) =
     (if c = 92 then
        (case cs of
           n # rest \<Rightarrow>
             if n = 37 \<or> n = 95 then Lit n # sqlLikeToRegexPattern rest
             else Lit c # sqlLikeToRegexPattern cs
         | [] \<Rightarrow> [Lit c])
      else if c = 37 then DotStar # sqlLikeToRegexPattern cs
      else if c = 95 then Dot # sqlLikeToRegexPattern cs
      else Lit c # sqlLikeToRegexPattern cs)"

text \<open>\<open>regexp.MatchString\<close> on such a pattern: \<open>.\<close> matches any rune but a newline.\<close>

fun regex_match :: "regex_item list \<Rightarrow> nat list \<Rightarrow> bool" where
  "regex_match [] cs = (cs = [])"
| "regex_match (Lit c # ps) cs = (case cs of x # xs \<Rightarrow> x = c \<and> regex_match ps xs | [] \<Rightarrow> False)"
| "regex_match (Dot # ps) cs = (case cs of x # xs \<Rightarrow> x \<noteq> 10 \<and> regex_match ps xs | [] \<Rightarrow> False)"
| "regex_match (DotStar # ps) cs =
     (regex_match ps cs \<or> (case cs of x # xs \<Rightarrow> x \<noteq> 10 \<and> regex_match (DotStar # ps) xs | [] \<Rightarrow> False))"

definition NewLikeExpression :: "Expr \<Rightarrow> Expr \<Rightarrow> Expr option" where
  "NewLikeExpression left right =
     (case right of
        ConstantValueExpr v \<Rightarrow>
          if \<not> v_null v then do {
            s \<leftarrow> Value_StringValue v;
            Some (LikeExpression left right (Some (sqlLikeToRegexPattern (runes s))))
          } else Some (LikeExpression left right None)
      | _ \<Rightarrow> Some (LikeExpression left right None))"

section \<open>Evaluation\<close>

definition int_bool :: "bool \<Rightarrow> Value" where
  "int_bool result = (if result then NewIntValue 1 else NewIntValue 0)"

fun comparison_result :: "ComparisonType \<Rightarrow> int \<Rightarrow> bool" where
  "comparison_result Equal cmp = (cmp = 0)"
| "comparison_result NotEqual cmp = (cmp \<noteq> 0)"
| "comparison_result GreaterThan cmp = (cmp > 0)"
| "comparison_result LessThan cmp = (cmp < 0)"
| "comparison_result GreaterThanOrEqual cmp = (cmp \<ge> 0)"
| "comparison_result LessThanOrEqual cmp = (cmp \<le> 0)"

definition eval_comparison :: "ComparisonType \<Rightarrow> Value \<Rightarrow> Value \<Rightarrow> Value option" where
  "eval_comparison compType val1 val2 =
     (if v_null val1 \<or> v_null val2 then Some NewNullInt
      else do {
        cmp \<leftarrow> Value_Compare val1 val2;
        Some (int_bool (comparison_result compType cmp))
      })"

definition ExprIsTrue :: "Value \<Rightarrow> bool" where
  "ExprIsTrue v \<longleftrightarrow> v_t v = IntType \<and> \<not> v_null v \<and> v_underlyingInt v \<noteq> 0"

definition ExprIsFalse :: "Value \<Rightarrow> bool" where
  "ExprIsFalse v \<longleftrightarrow> v_t v = IntType \<and> \<not> v_null v \<and> v_underlyingInt v = 0"

fun eval_logic :: "BinaryLogicType \<Rightarrow> Value \<Rightarrow> Value \<Rightarrow> Value" where
  "eval_logic And val1 val2 =
     (if ExprIsTrue val1 \<and> ExprIsTrue val2 then NewIntValue 1
      else if ExprIsFalse val1 \<or> ExprIsFalse val2 then NewIntValue 0
      else NewNullInt)"
| "eval_logic Or val1 val2 =
     (if ExprIsTrue val1 \<or> ExprIsTrue val2 then NewIntValue 1
      else if ExprIsFalse val1 \<and> ExprIsFalse val2 then NewIntValue 0
      else NewNullInt)"

definition eval_negation :: "Value \<Rightarrow> Value" where
  "eval_negation val = (if v_null val then NewNullInt else if ExprIsTrue val then NewIntValue 0 else NewIntValue 1)"

fun eval_null_check :: "NullCheckType \<Rightarrow> Value \<Rightarrow> Value" where
  "eval_null_check IsNull val = int_bool (v_null val)"
| "eval_null_check IsNotNull val = int_bool (\<not> v_null val)"

fun arith :: "ArithmeticType \<Rightarrow> int64 \<Rightarrow> int64 \<Rightarrow> int64 option" where
  "arith Add v1 v2 = Some (v1 + v2)"
| "arith Sub v1 v2 = Some (v1 - v2)"
| "arith Mult v1 v2 = Some (v1 * v2)"
| "arith Div v1 v2 = (if v2 = 0 then None else Some (word_of_int (sint v1 sdiv sint v2)))"
| "arith Mod v1 v2 = (if v2 = 0 then None else Some (word_of_int (sint v1 smod sint v2)))"

definition eval_arith :: "ArithmeticType \<Rightarrow> Value \<Rightarrow> Value \<Rightarrow> Value option" where
  "eval_arith op val1 val2 =
     (if v_null val1 \<or> v_null val2 then Some NewNullInt
      else do {
        v1 \<leftarrow> Value_IntValue val1;
        v2 \<leftarrow> Value_IntValue val2;
        Some (case arith op v1 v2 of None \<Rightarrow> NewNullInt | Some result \<Rightarrow> NewIntValue result)
      })"

definition eval_concat :: "Value \<Rightarrow> Value \<Rightarrow> Value option" where
  "eval_concat val1 val2 =
     (if v_null val1 \<or> v_null val2 then Some NewNullString
      else do {
        s1 \<leftarrow> Value_StringValue val1;
        s2 \<leftarrow> Value_StringValue val2;
        NewStringValue (s1 @ s2)
      })"

definition eval_like :: "regex_item list option \<Rightarrow> Value \<Rightarrow> Value option \<Rightarrow> Value option" where
  "eval_like cachedRegex val pattern =
     (if v_null val then Some NewNullInt
      else do {
        target \<leftarrow> Value_StringValue val;
        (case cachedRegex of
           Some re \<Rightarrow> Some (int_bool (regex_match re (runes target)))
         | None \<Rightarrow> do {
             patternVal \<leftarrow> pattern;
             (if v_null patternVal then Some NewNullInt
              else do {
                s \<leftarrow> Value_StringValue patternVal;
                Some (int_bool (regex_match (sqlLikeToRegexPattern (runes s)) (runes target)))
              })
           })
      })"

fun Eval :: "Expr \<Rightarrow> Tuple \<Rightarrow> Value option" where
  "Eval (BoundValueExpr fieldOffset _ _) t = (if fieldOffset < 0 then None else Tuple_GetValue t (nat fieldOffset))"
| "Eval (ConstantValueExpr v) t = Some v"
| "Eval (LogicalColumnExpr c) t = None"
| "Eval (ComparisonExpression l r compType) t = do { v1 \<leftarrow> Eval l t; v2 \<leftarrow> Eval r t; eval_comparison compType v1 v2 }"
| "Eval (BinaryLogicExpression l r logicType) t = do { v1 \<leftarrow> Eval l t; v2 \<leftarrow> Eval r t; Some (eval_logic logicType v1 v2) }"
| "Eval (NegationExpression e) t = do { v \<leftarrow> Eval e t; Some (eval_negation v) }"
| "Eval (NullCheckExpression e checkType) t = do { v \<leftarrow> Eval e t; Some (eval_null_check checkType v) }"
| "Eval (ArithmeticExpression l r op) t = do { v1 \<leftarrow> Eval l t; v2 \<leftarrow> Eval r t; eval_arith op v1 v2 }"
| "Eval (StringConcatExpression l r) t = do { v1 \<leftarrow> Eval l t; v2 \<leftarrow> Eval r t; eval_concat v1 v2 }"
| "Eval (LikeExpression l r cachedRegex) t = do { v \<leftarrow> Eval l t; eval_like cachedRegex v (Eval r t) }"

section \<open>Conjunctions\<close>

fun SplitPredicate :: "Expr \<Rightarrow> Expr list" where
  "SplitPredicate (BinaryLogicExpression l r And) = SplitPredicate l @ SplitPredicate r"
| "SplitPredicate expr = [expr]"

definition MergePredicates :: "Expr list \<Rightarrow> Expr option" where
  "MergePredicates exprs =
     (case exprs of
        [] \<Rightarrow> None
      | e # es \<Rightarrow> Some (fold (\<lambda>e root. BinaryLogicExpression root e And) es e))"

section \<open>The binder\<close>

primrec find_column :: "(LogicalColumn \<Rightarrow> bool) \<Rightarrow> LogicalSchema \<Rightarrow> nat \<Rightarrow> nat option" where
  "find_column P [] i = None"
| "find_column P (col # cols) i = (if P col then Some i else find_column P cols (Suc i))"

fun BindExpr :: "Expr \<Rightarrow> LogicalSchema \<Rightarrow> Type list \<Rightarrow> Expr option" where
  "BindExpr (LogicalColumnExpr v) ls ps =
     (case find_column (\<lambda>col. LogicalColumn_Equals col v) ls 0 of
        Some i \<Rightarrow> NewColumnValueExpression i ps (cname v)
      | None \<Rightarrow> None)"
| "BindExpr (ComparisonExpression l r compType) ls ps = do {
     l \<leftarrow> BindExpr l ls ps; r \<leftarrow> BindExpr r ls ps; Some (ComparisonExpression l r compType) }"
| "BindExpr (BinaryLogicExpression l r logicType) ls ps = do {
     l \<leftarrow> BindExpr l ls ps; r \<leftarrow> BindExpr r ls ps; Some (BinaryLogicExpression l r logicType) }"
| "BindExpr (ArithmeticExpression l r op) ls ps = do {
     l \<leftarrow> BindExpr l ls ps; r \<leftarrow> BindExpr r ls ps; Some (ArithmeticExpression l r op) }"
| "BindExpr (NegationExpression e) ls ps = do { e \<leftarrow> BindExpr e ls ps; Some (NegationExpression e) }"
| "BindExpr (NullCheckExpression e checkType) ls ps = do { e \<leftarrow> BindExpr e ls ps; Some (NullCheckExpression e checkType) }"
| "BindExpr (StringConcatExpression l r) ls ps = do {
     l \<leftarrow> BindExpr l ls ps; r \<leftarrow> BindExpr r ls ps; Some (StringConcatExpression l r) }"
| "BindExpr (LikeExpression l r _) ls ps = do {
     l \<leftarrow> BindExpr l ls ps; r \<leftarrow> BindExpr r ls ps; NewLikeExpression l r }"
| "BindExpr (ConstantValueExpr v) ls ps = Some (ConstantValueExpr v)"
| "BindExpr (BoundValueExpr off ty name) ls ps = Some (BoundValueExpr off ty name)"

fun ShiftExpr :: "Expr \<Rightarrow> int \<Rightarrow> Expr option" where
  "ShiftExpr (BoundValueExpr off ty name) k = Some (BoundValueExpr (off + k) ty name)"
| "ShiftExpr (ComparisonExpression l r compType) k = do {
     l \<leftarrow> ShiftExpr l k; r \<leftarrow> ShiftExpr r k; Some (ComparisonExpression l r compType) }"
| "ShiftExpr (BinaryLogicExpression l r logicType) k = do {
     l \<leftarrow> ShiftExpr l k; r \<leftarrow> ShiftExpr r k; Some (BinaryLogicExpression l r logicType) }"
| "ShiftExpr (ArithmeticExpression l r op) k = do {
     l \<leftarrow> ShiftExpr l k; r \<leftarrow> ShiftExpr r k; Some (ArithmeticExpression l r op) }"
| "ShiftExpr (NegationExpression e) k = do { e \<leftarrow> ShiftExpr e k; Some (NegationExpression e) }"
| "ShiftExpr (NullCheckExpression e checkType) k = do { e \<leftarrow> ShiftExpr e k; Some (NullCheckExpression e checkType) }"
| "ShiftExpr (StringConcatExpression l r) k = do {
     l \<leftarrow> ShiftExpr l k; r \<leftarrow> ShiftExpr r k; Some (StringConcatExpression l r) }"
| "ShiftExpr (LikeExpression l r _) k = do {
     l \<leftarrow> ShiftExpr l k; r \<leftarrow> ShiftExpr r k; NewLikeExpression l r }"
| "ShiftExpr (ConstantValueExpr v) k = Some (ConstantValueExpr v)"
| "ShiftExpr (LogicalColumnExpr c) k = Some (LogicalColumnExpr c)"

text \<open>An error is \<open>Some (Inl _)\<close>, a panic \<open>None\<close>.\<close>

definition fused :: "('e + 'a) option \<Rightarrow> ('a \<Rightarrow> ('e + 'b) option) \<Rightarrow> ('e + 'b) option" where
  "fused m f = (case m of None \<Rightarrow> None | Some (Inl err) \<Rightarrow> Some (Inl err) | Some (Inr x) \<Rightarrow> f x)"

fun FuseProjectionIntoExpr :: "Expr \<Rightarrow> LogicalSchema \<Rightarrow> Expr list \<Rightarrow> (string + Expr) option" where
  "FuseProjectionIntoExpr (LogicalColumnExpr v) ls es =
     (case find_column (\<lambda>col. LogicalColumn_Equals v col) ls 0 of
        Some i \<Rightarrow> map_option Inr (idx es i)
      | None \<Rightarrow> Some (Inl ''column not found''))"
| "FuseProjectionIntoExpr (ComparisonExpression l r compType) ls es =
     fused (FuseProjectionIntoExpr l ls es) (\<lambda>l. fused (FuseProjectionIntoExpr r ls es) (\<lambda>r. Some (Inr (ComparisonExpression l r compType))))"
| "FuseProjectionIntoExpr (BinaryLogicExpression l r logicType) ls es =
     fused (FuseProjectionIntoExpr l ls es) (\<lambda>l. fused (FuseProjectionIntoExpr r ls es) (\<lambda>r. Some (Inr (BinaryLogicExpression l r logicType))))"
| "FuseProjectionIntoExpr (ArithmeticExpression l r op) ls es =
     fused (FuseProjectionIntoExpr l ls es) (\<lambda>l. fused (FuseProjectionIntoExpr r ls es) (\<lambda>r. Some (Inr (ArithmeticExpression l r op))))"
| "FuseProjectionIntoExpr (NegationExpression e) ls es =
     fused (FuseProjectionIntoExpr e ls es) (\<lambda>e. Some (Inr (NegationExpression e)))"
| "FuseProjectionIntoExpr (NullCheckExpression e checkType) ls es =
     fused (FuseProjectionIntoExpr e ls es) (\<lambda>e. Some (Inr (NullCheckExpression e checkType)))"
| "FuseProjectionIntoExpr (StringConcatExpression l r) ls es =
     fused (FuseProjectionIntoExpr l ls es) (\<lambda>l. fused (FuseProjectionIntoExpr r ls es) (\<lambda>r. Some (Inr (StringConcatExpression l r))))"
| "FuseProjectionIntoExpr (LikeExpression l r _) ls es =
     fused (FuseProjectionIntoExpr l ls es) (\<lambda>l. fused (FuseProjectionIntoExpr r ls es) (\<lambda>r. map_option Inr (NewLikeExpression l r)))"
| "FuseProjectionIntoExpr (ConstantValueExpr v) ls es = Some (Inr (ConstantValueExpr v))"
| "FuseProjectionIntoExpr (BoundValueExpr off ty name) ls es = Some (Inl ''unsupported expression type'')"

section \<open>Three-valued logic\<close>

definition truth :: "Value \<Rightarrow> bool option" where
  "truth v = (if ExprIsTrue v then Some True else if ExprIsFalse v then Some False else None)"

fun and3 :: "bool option \<Rightarrow> bool option \<Rightarrow> bool option" where
  "and3 (Some False) b = Some False"
| "and3 (Some True) b = b"
| "and3 None (Some False) = Some False"
| "and3 None b = None"

abbreviation not3 :: "bool option \<Rightarrow> bool option" where "not3 \<equiv> map_option Not"

definition or3 :: "bool option \<Rightarrow> bool option \<Rightarrow> bool option" where
  "or3 a b = not3 (and3 (not3 a) (not3 b))"

named_theorems kleene \<open>algebra of the three-valued connectives\<close>

lemma tri_cases [case_names true false unknown]:
  "(a = Some True \<Longrightarrow> P) \<Longrightarrow> (a = Some False \<Longrightarrow> P) \<Longrightarrow> (a = None \<Longrightarrow> P) \<Longrightarrow> P"
  by (cases a) auto

lemma and3_simps [simp]:
  "and3 a (Some True) = a" "and3 a (Some False) = Some False" "and3 a a = a" "and3 a b = Some True \<longleftrightarrow> a = Some True \<and> b = Some True"
  by (cases a rule: tri_cases; cases b rule: tri_cases; simp)+

lemma or3_simps [simp]:
  "or3 a (Some True) = Some True" "or3 a (Some False) = a" "or3 (Some True) a = Some True" "or3 (Some False) a = a" "or3 a a = a"
  "or3 None None = None"
  by (cases a rule: tri_cases; simp add: or3_def)+

lemma and3_assoc [kleene]: "and3 (and3 a b) c = and3 a (and3 b c)"
  by (cases a rule: tri_cases; cases b rule: tri_cases; cases c rule: tri_cases; simp)

lemma or3_assoc [kleene]: "or3 (or3 a b) c = or3 a (or3 b c)"
  by (cases a rule: tri_cases; cases b rule: tri_cases; cases c rule: tri_cases; simp)

lemma and3_or3_distrib [kleene]: "and3 (or3 a b) c = or3 (and3 a c) (and3 b c)" "and3 a (or3 b c) = or3 (and3 a b) (and3 a c)"
  by (cases a rule: tri_cases; cases b rule: tri_cases; cases c rule: tri_cases; simp)+

lemma not3_and3 [kleene]: "not3 (and3 a b) = or3 (not3 a) (not3 b)" "not3 (or3 a b) = and3 (not3 a) (not3 b)" "not3 (not3 a) = a"
  by (cases a rule: tri_cases; cases b rule: tri_cases; simp add: or3_def)+

lemma truth_values [simp]:
  "truth (NewIntValue 1) = Some True" "truth (NewIntValue 0) = Some False" "truth NewNullInt = None" "truth (int_bool b) = Some b"
  by (simp_all add: truth_def ExprIsTrue_def ExprIsFalse_def NewIntValue_def NewNullInt_def zeroValue_def int_bool_def)

lemma truth_iff: "truth v = Some True \<longleftrightarrow> ExprIsTrue v" "truth v = Some False \<longleftrightarrow> ExprIsFalse v"
  by (auto simp: truth_def ExprIsTrue_def ExprIsFalse_def)

text \<open>The evaluation of the connectives is Kleene's logic; negation on integer values only.\<close>

lemma truth_logic: "truth (eval_logic And v w) = and3 (truth v) (truth w)" "truth (eval_logic Or v w) = or3 (truth v) (truth w)"
  by (cases "truth v" rule: tri_cases; cases "truth w" rule: tri_cases;
      simp add: truth_iff; simp add: truth_def ExprIsTrue_def ExprIsFalse_def split: if_splits)+

lemma truth_negation: "v_t v = IntType \<Longrightarrow> truth (eval_negation v) = not3 (truth v)"
  by (simp add: eval_negation_def truth_def [of v] ExprIsTrue_def ExprIsFalse_def)

section \<open>Typing\<close>

text \<open>Expressions that fit the columns of a tuple.\<close>

fun well_typed :: "Type list \<Rightarrow> Expr \<Rightarrow> bool" where
  "well_typed ts (BoundValueExpr off ty _) \<longleftrightarrow> 0 \<le> off \<and> nat off < length ts \<and> ts ! nat off = ty"
| "well_typed ts (ConstantValueExpr v) \<longleftrightarrow> v_t v \<noteq> DefaultType"
| "well_typed ts (LogicalColumnExpr c) \<longleftrightarrow> True"
| "well_typed ts (ComparisonExpression l r _) \<longleftrightarrow> well_typed ts l \<and> well_typed ts r \<and> OutputType l = OutputType r \<and> OutputType l \<noteq> DefaultType"
| "well_typed ts (BinaryLogicExpression l r _) \<longleftrightarrow> well_typed ts l \<and> well_typed ts r \<and> OutputType l = IntType \<and> OutputType r = IntType"
| "well_typed ts (NegationExpression e) \<longleftrightarrow> well_typed ts e \<and> OutputType e = IntType"
| "well_typed ts (NullCheckExpression e _) \<longleftrightarrow> well_typed ts e"
| "well_typed ts (ArithmeticExpression l r _) \<longleftrightarrow> well_typed ts l \<and> well_typed ts r \<and> OutputType l = IntType \<and> OutputType r = IntType"
| "well_typed ts (StringConcatExpression l r) \<longleftrightarrow> well_typed ts l \<and> well_typed ts r \<and> OutputType l = StringType \<and> OutputType r = StringType"
| "well_typed ts (LikeExpression l r _) \<longleftrightarrow> well_typed ts l \<and> well_typed ts r \<and> OutputType l = StringType \<and> OutputType r = StringType"

text \<open>Expressions without logical columns and without concatenation, the two ways for a well-typed
  evaluation to panic.\<close>

fun physical :: "Expr \<Rightarrow> bool" where
  "physical (BoundValueExpr _ _ _) \<longleftrightarrow> True"
| "physical (ConstantValueExpr _) \<longleftrightarrow> True"
| "physical (LogicalColumnExpr _) \<longleftrightarrow> False"
| "physical (ComparisonExpression l r _) \<longleftrightarrow> physical l \<and> physical r"
| "physical (BinaryLogicExpression l r _) \<longleftrightarrow> physical l \<and> physical r"
| "physical (NegationExpression e) \<longleftrightarrow> physical e"
| "physical (NullCheckExpression e _) \<longleftrightarrow> physical e"
| "physical (ArithmeticExpression l r _) \<longleftrightarrow> physical l \<and> physical r"
| "physical (StringConcatExpression l r) \<longleftrightarrow> False"
| "physical (LikeExpression l r _) \<longleftrightarrow> physical l \<and> physical r"

lemma new_types [simp]:
  "v_t (NewIntValue i) = IntType" "v_t NewNullInt = IntType" "v_t NewNullString = StringType" "v_t (int_bool b) = IntType"
  "v_t (eval_logic k v w) = IntType" "v_t (eval_negation v) = IntType" "v_t (eval_null_check c v) = IntType"
  by (cases k; cases c; simp add: NewIntValue_def NewNullInt_def NewNullString_def zeroValue_def int_bool_def eval_negation_def)+

lemma tuple_get_typed:
  assumes "wf_tuple t" "i < length (tuple_types t)"
  shows "\<exists>v. Tuple_GetValue t i = Some v \<and> v_t v = tuple_types t ! i"
  using assms Tuple_GetValue_eq [of t i] tuple_values_props(1) [of t] by (metis NumColumns_types length_map nth_map)

lemma eval_typed:
  "eval_comparison c v w = Some u \<Longrightarrow> v_t u = IntType" "eval_arith op v w = Some u \<Longrightarrow> v_t u = IntType"
  "eval_concat v w = Some u \<Longrightarrow> v_t u = StringType" "eval_like re v p = Some u \<Longrightarrow> v_t u = IntType"
  by (auto simp: eval_comparison_def eval_arith_def eval_concat_def eval_like_def bind_eq_Some_conv NewStringValue_def zeroValue_def
      split: if_splits option.splits)

lemma Eval_typed:
  assumes "wf_tuple t" "well_typed (tuple_types t) e" "Eval e t = Some v"
  shows "v_t v = OutputType e"
proof (cases e)
  case (BoundValueExpr off ty nm)
  then show ?thesis using assms tuple_get_typed [OF assms(1), of "nat off"] by auto
qed (use assms in \<open>auto simp: bind_eq_Some_conv dest: eval_typed\<close>)

lemma value_reads:
  "v_t v = IntType \<Longrightarrow> \<not> v_null v \<Longrightarrow> Value_IntValue v = Some (v_underlyingInt v)"
  "v_t v = StringType \<Longrightarrow> \<not> v_null v \<Longrightarrow> Value_StringValue v = Some (v_underlyingString v)"
  by (simp_all add: Value_IntValue_def Value_StringValue_def)

lemma eval_total:
  "v_t v = v_t w \<Longrightarrow> v_t v \<noteq> DefaultType \<Longrightarrow> \<exists>u. eval_comparison c v w = Some u"
  "v_t v = IntType \<Longrightarrow> v_t w = IntType \<Longrightarrow> \<exists>u. eval_arith op v w = Some u"
  "v_t v = StringType \<Longrightarrow> p = Some w \<Longrightarrow> v_t w = StringType \<Longrightarrow> \<exists>u. eval_like re v p = Some u"
  by (auto simp: eval_comparison_def eval_arith_def eval_like_def Value_Compare_total value_reads split: option.split)

lemma Eval_total:
  assumes "wf_tuple t"
  shows "well_typed (tuple_types t) e \<Longrightarrow> physical e \<Longrightarrow> \<exists>v. Eval e t = Some v"
proof (induction e)
  case (BoundValueExpr off ty nm)
  then show ?case using tuple_get_typed [OF assms, of "nat off"] by auto
next
  case (ComparisonExpression l r c)
  then obtain v w where "Eval l t = Some v" "Eval r t = Some w" by auto
  then show ?case
    using ComparisonExpression.prems eval_total(1) [of v w c] Eval_typed [OF assms] by auto
next
  case (ArithmeticExpression l r op)
  then obtain v w where "Eval l t = Some v" "Eval r t = Some w" by auto
  then show ?case
    using ArithmeticExpression.prems eval_total(2) [of v w op] Eval_typed [OF assms] by auto
next
  case (LikeExpression l r re)
  then obtain v w where "Eval l t = Some v" "Eval r t = Some w" by auto
  then show ?case
    using LikeExpression.prems eval_total(3) [of v "Eval r t" w re] Eval_typed [OF assms] by auto
qed auto

section \<open>Evaluators\<close>

text \<open>What the planner's rewritings rely on: an evaluation that is compositional in the connectives, and
  a typing that makes their operands integers. Both physical and logical evaluation are such.\<close>

locale evaluation =
  fixes ev :: "Expr \<Rightarrow> Value option" and typed :: "Expr \<Rightarrow> bool"
  assumes ev_logic: "ev (BinaryLogicExpression l r k) = do { v1 \<leftarrow> ev l; v2 \<leftarrow> ev r; Some (eval_logic k v1 v2) }"
    and ev_negation: "ev (NegationExpression e) = do { v \<leftarrow> ev e; Some (eval_negation v) }"
    and typed_value: "typed e \<Longrightarrow> ev e = Some v \<Longrightarrow> v_t v = OutputType e"
    and typed_logic: "typed (BinaryLogicExpression l r k) \<Longrightarrow> typed l \<and> typed r \<and> OutputType l = IntType \<and> OutputType r = IntType"
    and typed_negation: "typed (NegationExpression e) \<Longrightarrow> typed e \<and> OutputType e = IntType"
begin

text \<open>The truth of an expression, if its evaluation does not panic.\<close>

definition holds :: "Expr \<Rightarrow> bool option option" where
  "holds e = map_option truth (ev e)"

lemma holds_logic:
  "holds (BinaryLogicExpression l r And) = do { a \<leftarrow> holds l; b \<leftarrow> holds r; Some (and3 a b) }"
  "holds (BinaryLogicExpression l r Or) = do { a \<leftarrow> holds l; b \<leftarrow> holds r; Some (or3 a b) }"
  by (cases "ev l"; cases "ev r"; simp add: holds_def ev_logic truth_logic del: eval_logic.simps)+

lemma holds_negation:
  assumes "typed e" "OutputType e = IntType"
  shows "holds (NegationExpression e) = map_option not3 (holds e)"
  using typed_value [OF assms(1)] assms(2) by (cases "ev e") (simp_all add: holds_def ev_negation truth_negation)

text \<open>The conjunction of a list.\<close>

primrec holds_all :: "Expr list \<Rightarrow> bool option option" where
  "holds_all [] = Some (Some True)"
| "holds_all (e # es) = do { a \<leftarrow> holds e; b \<leftarrow> holds_all es; Some (and3 a b) }"

lemma holds_all_append: "holds_all (es @ fs) = do { a \<leftarrow> holds_all es; b \<leftarrow> holds_all fs; Some (and3 a b) }"
proof (induction es)
  case Nil
  then show ?case by (cases "holds_all fs") auto
next
  case (Cons e es)
  then show ?case by (cases "holds e"; cases "holds_all es"; cases "holds_all fs") (auto simp: and3_assoc)
qed

lemma holds_SplitPredicate: "holds_all (SplitPredicate e) = holds e"
proof (induction e rule: SplitPredicate.induct)
  case (1 l r)
  then show ?case by (simp add: holds_all_append holds_logic)
qed simp_all

lemma holds_fold_And:
  "holds (fold (\<lambda>e root. BinaryLogicExpression root e And) es e) = do { a \<leftarrow> holds e; b \<leftarrow> holds_all es; Some (and3 a b) }"
proof (induction es arbitrary: e)
  case Nil
  then show ?case by simp
next
  case (Cons x xs)
  then show ?case
    by (cases "holds e"; cases "holds x"; cases "holds_all xs") (auto simp: holds_logic and3_assoc)
qed

lemma holds_MergePredicates: "MergePredicates es = Some m \<Longrightarrow> holds m = holds_all es"
  by (auto simp: MergePredicates_def holds_fold_And split: list.splits)

end

interpretation eval: evaluation "\<lambda>e. Eval e t" "\<lambda>e. wf_tuple t \<and> well_typed (tuple_types t) e" for t
  by unfold_locales (auto dest: Eval_typed)

section \<open>Logical evaluation\<close>

text \<open>The meaning of a logical expression, given values for its columns.\<close>

fun leval :: "(LogicalColumn \<Rightarrow> Value option) \<Rightarrow> Expr \<Rightarrow> Value option" where
  "leval env (BoundValueExpr _ _ _) = None"
| "leval env (ConstantValueExpr v) = Some v"
| "leval env (LogicalColumnExpr c) = env c"
| "leval env (ComparisonExpression l r compType) = do { v1 \<leftarrow> leval env l; v2 \<leftarrow> leval env r; eval_comparison compType v1 v2 }"
| "leval env (BinaryLogicExpression l r logicType) = do { v1 \<leftarrow> leval env l; v2 \<leftarrow> leval env r; Some (eval_logic logicType v1 v2) }"
| "leval env (NegationExpression e) = do { v \<leftarrow> leval env e; Some (eval_negation v) }"
| "leval env (NullCheckExpression e checkType) = do { v \<leftarrow> leval env e; Some (eval_null_check checkType v) }"
| "leval env (ArithmeticExpression l r op) = do { v1 \<leftarrow> leval env l; v2 \<leftarrow> leval env r; eval_arith op v1 v2 }"
| "leval env (StringConcatExpression l r) = do { v1 \<leftarrow> leval env l; v2 \<leftarrow> leval env r; eval_concat v1 v2 }"
| "leval env (LikeExpression l r cachedRegex) = do { v \<leftarrow> leval env l; eval_like cachedRegex v (leval env r) }"

definition typed_env :: "(LogicalColumn \<Rightarrow> Value option) \<Rightarrow> bool" where
  "typed_env env \<longleftrightarrow> (\<forall>c v. env c = Some v \<longrightarrow> v_t v = ctype c)"

lemma leval_typed: "typed_env env \<Longrightarrow> leval env e = Some v \<Longrightarrow> v_t v = OutputType e"
  by (cases e) (auto simp: bind_eq_Some_conv typed_env_def dest: eval_typed)

interpretation leval: evaluation "leval env" "\<lambda>e. typed_env env \<and> well_typed [] e" for env
  by unfold_locales (auto intro: leval_typed)

text \<open>Expressions whose LIKE nodes come from their constructor.\<close>

fun built :: "Expr \<Rightarrow> bool" where
  "built (BoundValueExpr _ _ _) \<longleftrightarrow> True"
| "built (ConstantValueExpr _) \<longleftrightarrow> True"
| "built (LogicalColumnExpr _) \<longleftrightarrow> True"
| "built (ComparisonExpression l r _) \<longleftrightarrow> built l \<and> built r"
| "built (BinaryLogicExpression l r _) \<longleftrightarrow> built l \<and> built r"
| "built (NegationExpression e) \<longleftrightarrow> built e"
| "built (NullCheckExpression e _) \<longleftrightarrow> built e"
| "built (ArithmeticExpression l r _) \<longleftrightarrow> built l \<and> built r"
| "built (StringConcatExpression l r) \<longleftrightarrow> built l \<and> built r"
| "built (LikeExpression l r c) \<longleftrightarrow> built l \<and> built r \<and> NewLikeExpression l r = Some (LikeExpression l r c)"

fun logical :: "Expr \<Rightarrow> bool" where
  "logical (BoundValueExpr _ _ _) \<longleftrightarrow> False"
| "logical (ConstantValueExpr _) \<longleftrightarrow> True"
| "logical (LogicalColumnExpr _) \<longleftrightarrow> True"
| "logical (ComparisonExpression l r _) \<longleftrightarrow> logical l \<and> logical r"
| "logical (BinaryLogicExpression l r _) \<longleftrightarrow> logical l \<and> logical r"
| "logical (NegationExpression e) \<longleftrightarrow> logical e"
| "logical (NullCheckExpression e _) \<longleftrightarrow> logical e"
| "logical (ArithmeticExpression l r _) \<longleftrightarrow> logical l \<and> logical r"
| "logical (StringConcatExpression l r) \<longleftrightarrow> logical l \<and> logical r"
| "logical (LikeExpression l r _) \<longleftrightarrow> logical l \<and> logical r"

lemma NewLikeExpression_shape:
  "NewLikeExpression l r = Some e \<Longrightarrow> \<exists>c. e = LikeExpression l r c"
  by (auto simp: NewLikeExpression_def bind_eq_Some_conv split: Expr.splits if_splits)

text \<open>The precompiled pattern does not change what LIKE evaluates to.\<close>

lemma eval_like_cached:
  assumes "NewLikeExpression l r = Some (LikeExpression l r c)" "\<And>v. r = ConstantValueExpr v \<Longrightarrow> p = Some v"
  shows "eval_like c val p = eval_like None val p"
  using assms by (auto simp: NewLikeExpression_def eval_like_def bind_eq_Some_conv split: Expr.splits if_splits)

lemma Eval_NewLike:
  "NewLikeExpression l r = Some e \<Longrightarrow> Eval e t = do { v \<leftarrow> Eval l t; eval_like None v (Eval r t) }"
  using NewLikeExpression_shape [of l r e] eval_like_cached [of l r] by fastforce

lemma leval_NewLike:
  "NewLikeExpression l r = Some e \<Longrightarrow> leval env e = do { v \<leftarrow> leval env l; eval_like None v (leval env r) }"
  using NewLikeExpression_shape [of l r e] eval_like_cached [of l r] by fastforce

lemma built_NewLike: "NewLikeExpression l r = Some e \<Longrightarrow> built l \<Longrightarrow> built r \<Longrightarrow> built e"
  using NewLikeExpression_shape [of l r e] by auto

section \<open>The binder is correct\<close>

text \<open>The values that a tuple gives to the columns of a schema.\<close>

definition env_of :: "LogicalSchema \<Rightarrow> Tuple \<Rightarrow> LogicalColumn \<Rightarrow> Value option" where
  "env_of ls t c = (case find_column (\<lambda>col. LogicalColumn_Equals col c) ls 0 of
     Some i \<Rightarrow> Tuple_GetValue t i | None \<Rightarrow> None)"

lemma BindExpr_sound:
  assumes "BindExpr e ls ps = Some e'" "built e" "logical e"
  shows "Eval e' t = leval (env_of ls t) e \<and> built e'"
  using assms
proof (induction e arbitrary: e')
  case (LogicalColumnExpr c)
  then show ?case by (auto simp: env_of_def NewColumnValueExpression_def bind_eq_Some_conv split: option.splits)
next
  case (LikeExpression l r c)
  then obtain l' r' where b: "BindExpr l ls ps = Some l'" "BindExpr r ls ps = Some r'" "NewLikeExpression l' r' = Some e'"
    by (auto simp: bind_eq_Some_conv)
  have new: "NewLikeExpression l r = Some (LikeExpression l r c)" using LikeExpression.prems by simp
  show ?case
    using LikeExpression.IH(1) [OF b(1)] LikeExpression.IH(2) [OF b(2)] LikeExpression.prems
    by (simp only: Eval_NewLike [OF b(3)] leval_NewLike [OF new] built_NewLike [OF b(3)] built.simps logical.simps)
qed (auto simp: bind_eq_Some_conv)

lemma ShiftExpr_sound:
  assumes shift: "\<And>i. 0 \<le> i \<Longrightarrow> 0 \<le> i + k \<and> Tuple_GetValue t' (nat (i + k)) = Tuple_GetValue t (nat i)"
    and "ShiftExpr e k = Some e'" "built e" "well_typed ts e"
  shows "Eval e' t' = Eval e t"
  using assms(2-4)
proof (induction e arbitrary: e')
  case (BoundValueExpr off ty nm)
  then show ?case using shift [of off] by auto
next
  case (LikeExpression l r c)
  then obtain l' r' where b: "ShiftExpr l k = Some l'" "ShiftExpr r k = Some r'" "NewLikeExpression l' r' = Some e'"
    by (auto simp: bind_eq_Some_conv)
  have new: "NewLikeExpression l r = Some (LikeExpression l r c)" using LikeExpression.prems by simp
  have "Eval l' t' = Eval l t" "Eval r' t' = Eval r t"
    using LikeExpression.IH(1) [OF b(1)] LikeExpression.IH(2) [OF b(2)] LikeExpression.prems by auto
  then show ?case by (simp only: Eval_NewLike [OF b(3)] Eval_NewLike [OF new])
qed (auto simp: bind_eq_Some_conv)

lemma fused_eq_Inr: "fused m f = Some (Inr y) \<longleftrightarrow> (\<exists>x. m = Some (Inr x) \<and> f x = Some (Inr y))"
  by (auto simp: fused_def split: option.splits sum.splits)

definition env_through :: "LogicalSchema \<Rightarrow> Expr list \<Rightarrow> (LogicalColumn \<Rightarrow> Value option) \<Rightarrow> LogicalColumn \<Rightarrow> Value option" where
  "env_through ls es env c = (case find_column (\<lambda>col. LogicalColumn_Equals c col) ls 0 of
     Some i \<Rightarrow> do { e \<leftarrow> idx es i; leval env e } | None \<Rightarrow> None)"

lemma FuseProjection_sound:
  assumes "FuseProjectionIntoExpr e ls es = Some (Inr e')" "built e"
  shows "leval env e' = leval (env_through ls es env) e"
  using assms
proof (induction e arbitrary: e')
  case (LogicalColumnExpr c)
  then show ?case by (auto simp: env_through_def split: option.splits)
next
  case (LikeExpression l r c)
  then obtain l' r' where b: "FuseProjectionIntoExpr l ls es = Some (Inr l')" "FuseProjectionIntoExpr r ls es = Some (Inr r')"
      "NewLikeExpression l' r' = Some e'"
    by (auto simp: fused_eq_Inr)
  have new: "NewLikeExpression l r = Some (LikeExpression l r c)" using LikeExpression.prems by simp
  have "leval env l' = leval (env_through ls es env) l" "leval env r' = leval (env_through ls es env) r"
    using LikeExpression.IH(1) [OF b(1)] LikeExpression.IH(2) [OF b(2)] LikeExpression.prems by auto
  then show ?case by (simp only: leval_NewLike [OF b(3)] leval_NewLike [OF new])
qed (auto simp: fused_eq_Inr)

section \<open>LIKE as in SQL\<close>

text \<open>The reference: \<open>%\<close> stands for any sequence of characters, \<open>_\<close> for any character, a backslash
  before them for the character itself.\<close>

function like :: "nat list \<Rightarrow> nat list \<Rightarrow> bool" where
  "like [] s \<longleftrightarrow> s = []"
| "like (c # p) s \<longleftrightarrow>
     (if c = 37 then \<exists>k \<le> length s. like p (drop k s)
      else if c = 95 then s \<noteq> [] \<and> like p (tl s)
      else if c = 92 \<and> p \<noteq> [] \<and> (hd p = 37 \<or> hd p = 95) then s \<noteq> [] \<and> hd s = hd p \<and> like (tl p) (tl s)
      else s \<noteq> [] \<and> hd s = c \<and> like p (tl s))"
  by pat_completeness auto
termination by (relation "measure (length \<circ> fst)") (auto intro: le_imp_less_Suc)

lemma regex_DotStar:
  "regex_match (DotStar # ps) s \<longleftrightarrow> (\<exists>k \<le> length s. 10 \<notin> set (take k s) \<and> regex_match ps (drop k s))"
proof (induction s)
  case (Cons c s)
  have "(\<exists>k \<le> length (c # s). 10 \<notin> set (take k (c # s)) \<and> regex_match ps (drop k (c # s))) \<longleftrightarrow>
      regex_match ps (c # s) \<or> c \<noteq> 10 \<and> (\<exists>k \<le> length s. 10 \<notin> set (take k s) \<and> regex_match ps (drop k s))" (is "?l \<longleftrightarrow> ?r")
  proof
    assume ?l
    then obtain k where k: "k \<le> Suc (length s)" "10 \<notin> set (take k (c # s))" "regex_match ps (drop k (c # s))" by auto
    then show ?r by (cases k) auto
  next
    assume ?r
    then consider "regex_match ps (c # s)" | k where "c \<noteq> 10" "k \<le> length s" "10 \<notin> set (take k s)" "regex_match ps (drop k s)" by auto
    then show ?l
    proof cases
      case 1
      then show ?thesis by (intro exI [of _ 0]) simp
    next
      case 2
      then show ?thesis by (intro exI [of _ "Suc k"]) simp
    qed
  qed
  then show ?case using Cons.IH by simp
qed simp

text \<open>The translated pattern never matches more than SQL's, and as much on strings without newlines.\<close>

lemma regex_like: "regex_match (sqlLikeToRegexPattern p) s \<Longrightarrow> like p s"
  and like_regex: "10 \<notin> set s \<Longrightarrow> like p s \<Longrightarrow> regex_match (sqlLikeToRegexPattern p) s"
proof -
  have both: "(regex_match (sqlLikeToRegexPattern p) s \<longrightarrow> like p s) \<and>
    (10 \<notin> set s \<longrightarrow> like p s \<longrightarrow> regex_match (sqlLikeToRegexPattern p) s)"
  proof (induction p arbitrary: s rule: sqlLikeToRegexPattern.induct)
    case 1
    then show ?case by simp
  next
    case (2 c cs)
    consider (esc) n rest where "c = 92" "cs = n # rest" "n = 37 \<or> n = 95" | (pct) "c = 37" | (us) "c = 95"
      | (plain) "c \<noteq> 37" "c \<noteq> 95" "c = 92 \<Longrightarrow> cs = [] \<or> (hd cs \<noteq> 37 \<and> hd cs \<noteq> 95)"
      by (cases cs) auto
    then show ?case
    proof cases
      case esc
      have ih: "(regex_match (sqlLikeToRegexPattern rest) s \<longrightarrow> like rest s) \<and>
          (10 \<notin> set s \<longrightarrow> like rest s \<longrightarrow> regex_match (sqlLikeToRegexPattern rest) s)" for s
        using 2(1) [of n rest s] esc by auto
      have "like (c # cs) s \<longleftrightarrow> s \<noteq> [] \<and> hd s = n \<and> like rest (tl s)" using esc by auto
      moreover have "sqlLikeToRegexPattern (c # cs) = Lit n # sqlLikeToRegexPattern rest" using esc by auto
      ultimately show ?thesis using ih [of "tl s"] by (cases s) (auto simp del: like.simps(2) sqlLikeToRegexPattern.simps(2))
    next
      case pct
      have l: "like (c # cs) s \<longleftrightarrow> (\<exists>k \<le> length s. like cs (drop k s))" using pct by simp
      have "sqlLikeToRegexPattern (c # cs) = DotStar # sqlLikeToRegexPattern cs" using pct by simp
      then have r: "regex_match (sqlLikeToRegexPattern (c # cs)) s \<longleftrightarrow>
          (\<exists>k \<le> length s. 10 \<notin> set (take k s) \<and> regex_match (sqlLikeToRegexPattern cs) (drop k s))"
        by (simp only: regex_DotStar)
      have ih: "regex_match (sqlLikeToRegexPattern cs) s \<Longrightarrow> like cs s"
        "10 \<notin> set s \<Longrightarrow> like cs s \<Longrightarrow> regex_match (sqlLikeToRegexPattern cs) s" for s
        using 2(3) [of s] pct by auto
      show ?thesis unfolding l r using ih by (meson in_set_takeD in_set_dropD)
    next
      case us
      then have "(regex_match (sqlLikeToRegexPattern cs) s \<longrightarrow> like cs s) \<and>
          (10 \<notin> set s \<longrightarrow> like cs s \<longrightarrow> regex_match (sqlLikeToRegexPattern cs) s)" for s
        using 2(4) [of s] by auto
      note ih = this [of "tl s"]
      have "like (c # cs) s \<longleftrightarrow> s \<noteq> [] \<and> like cs (tl s)" using us by auto
      moreover have "sqlLikeToRegexPattern (c # cs) = Dot # sqlLikeToRegexPattern cs" using us by auto
      ultimately show ?thesis using ih by (cases s) (auto simp del: like.simps(2) sqlLikeToRegexPattern.simps(2))
    next
      case plain
      have "sqlLikeToRegexPattern (c # cs) = Lit c # sqlLikeToRegexPattern cs" using plain by (cases cs) auto
      moreover have "(regex_match (sqlLikeToRegexPattern cs) (tl s) \<longrightarrow> like cs (tl s)) \<and>
          (10 \<notin> set (tl s) \<longrightarrow> like cs (tl s) \<longrightarrow> regex_match (sqlLikeToRegexPattern cs) (tl s))"
      proof (cases "c = 92")
        case True
        show ?thesis
        proof (cases cs)
          case (Cons n rest)
          then have "\<not> (n = 37 \<or> n = 95)" using plain True by auto
          then show ?thesis by (rule 2(2) [OF True Cons])
        qed simp
      next
        case False
        then show ?thesis by (rule 2(5) [OF _ plain(1,2)])
      qed
      moreover have "like (c # cs) s \<longleftrightarrow> s \<noteq> [] \<and> hd s = c \<and> like cs (tl s)" using plain by auto
      ultimately show ?thesis by (cases s) (auto simp del: like.simps(2) sqlLikeToRegexPattern.simps(2))
    qed
  qed
  show "regex_match (sqlLikeToRegexPattern p) s \<Longrightarrow> like p s"
    and "10 \<notin> set s \<Longrightarrow> like p s \<Longrightarrow> regex_match (sqlLikeToRegexPattern p) s"
    using both by auto
qed

section \<open>Properties\<close>

text \<open>C32: Type soundness: a well-typed expression on a well-formed tuple evaluates to a value of its
  output type if it evaluates at all, and it never panics unless it contains a string concatenation (whose
  result may exceed the length of a string value) or a logical column.\<close>

theorem Eval_type_sound:
  assumes "wf_tuple t" "well_typed (tuple_types t) e"
  shows "(\<forall>v. Eval e t = Some v \<longrightarrow> v_t v = OutputType e) \<and> (physical e \<longrightarrow> Eval e t \<noteq> None)"
  using Eval_typed [OF assms] Eval_total [OF assms] by auto

definition pair_tuple :: Tuple where
  "pair_tuple = FromValues (Some [NewIntValue 4, NewNullInt])"

lemma pair_tuple_wf: "wf_tuple pair_tuple" "tuple_types pair_tuple = [IntType, IntType]"
  by (simp_all add: pair_tuple_def FromValues_def wf_tuple_def tuple_types_def phys_types_def storable_def NewIntValue_def
      NewNullInt_def zeroValue_def)

theorem Eval_type_sound_witness:
  "Eval (BinaryLogicExpression (ComparisonExpression (BoundValueExpr 0 IntType ''a'') (ConstantValueExpr (NewIntValue 3)) GreaterThan)
      (BoundValueExpr 1 IntType ''b'') Or) pair_tuple \<noteq> None"
  using Eval_type_sound [OF pair_tuple_wf(1), of "BinaryLogicExpression (ComparisonExpression (BoundValueExpr 0 IntType ''a'')
      (ConstantValueExpr (NewIntValue 3)) GreaterThan) (BoundValueExpr 1 IntType ''b'') Or"]
  by (simp add: pair_tuple_wf)

text \<open>Conjunctions split and merged again keep their three-valued truth on every tuple, panics
  included; the conjuncts never contain a conjunction at the top; and the connectives are Kleene's.\<close>

theorem SplitPredicate_Merge:
  "(\<exists>m. MergePredicates (SplitPredicate e) = Some m \<and> (\<forall>t. map_option truth (Eval m t) = map_option truth (Eval e t))) \<and>
   (\<forall>p \<in> set (SplitPredicate e). \<forall>l r. p \<noteq> BinaryLogicExpression l r And) \<and>
   map_option truth (Eval (BinaryLogicExpression e f And) t) = do { v \<leftarrow> Eval e t; w \<leftarrow> Eval f t; Some (and3 (truth v) (truth w)) } \<and>
   map_option truth (Eval (BinaryLogicExpression e f Or) t) = do { v \<leftarrow> Eval e t; w \<leftarrow> Eval f t; Some (or3 (truth v) (truth w)) }"
proof (intro conjI)
  have "SplitPredicate e \<noteq> []" by (induction e rule: SplitPredicate.induct) auto
  then obtain m where m: "MergePredicates (SplitPredicate e) = Some m"
    by (cases "SplitPredicate e") (auto simp: MergePredicates_def)
  have "map_option truth (Eval m t) = map_option truth (Eval e t)" for t
    using eval.holds_MergePredicates [OF m, of t] eval.holds_SplitPredicate [of t e] by (simp add: eval.holds_def)
  then show "\<exists>m. MergePredicates (SplitPredicate e) = Some m \<and> (\<forall>t. map_option truth (Eval m t) = map_option truth (Eval e t))"
    using m by blast
  show "\<forall>p \<in> set (SplitPredicate e). \<forall>l r. p \<noteq> BinaryLogicExpression l r And"
    by (induction e rule: SplitPredicate.induct) auto
qed (cases "Eval e t"; cases "Eval f t"; simp add: truth_logic del: eval_logic.simps)+

theorem SplitPredicate_Merge_witness:
  "map_option truth (Eval (BinaryLogicExpression (BoundValueExpr 0 IntType ''a'') (BoundValueExpr 1 IntType ''b'') And) pair_tuple) = Some None"
  using SplitPredicate_Merge [of "BoundValueExpr 0 IntType ''a''" "BoundValueExpr 1 IntType ''b''" pair_tuple]
  by (simp add: pair_tuple_def FromValues_def Tuple_GetValue_def truth_def ExprIsTrue_def ExprIsFalse_def NewIntValue_def NewNullInt_def zeroValue_def)

text \<open>LIKE on non-null strings is SQL's LIKE on the characters of the two strings, whether the pattern
  was compiled in advance or not, if the string has no newline; with a newline it can only fail to match
  where SQL's matches, never the other way round.\<close>

theorem LikeExpression_sql:
  assumes "NewLikeExpression l r = Some e" "Eval l t = Some v" "Eval r t = Some w" "\<not> v_null v" "\<not> v_null w"
    "v_t v = StringType" "v_t w = StringType"
  shows "\<exists>b. Eval e t = Some (int_bool b) \<and>
    (b \<longrightarrow> like (runes (v_underlyingString w)) (runes (v_underlyingString v))) \<and>
    (10 \<notin> set (runes (v_underlyingString v)) \<longrightarrow> like (runes (v_underlyingString w)) (runes (v_underlyingString v)) \<longrightarrow> b)"
proof -
  have "Eval e t = Some (int_bool (regex_match (sqlLikeToRegexPattern (runes (v_underlyingString w))) (runes (v_underlyingString v))))"
    using assms(2-) by (simp add: Eval_NewLike [OF assms(1)] eval_like_def value_reads)
  then show ?thesis using regex_like like_regex by blast
qed

theorem LikeExpression_sql_witness:
  "\<exists>b e. NewLikeExpression (ConstantValueExpr (zeroValue\<lparr>v_t := StringType, v_underlyingString := [97, 98]\<rparr>))
      (ConstantValueExpr (zeroValue\<lparr>v_t := StringType, v_underlyingString := [97, 37]\<rparr>)) = Some e \<and>
    Eval e pair_tuple = Some (int_bool b) \<and> b"
proof -
  let ?l = "ConstantValueExpr (zeroValue\<lparr>v_t := StringType, v_underlyingString := [97, 98]\<rparr>)"
  let ?r = "ConstantValueExpr (zeroValue\<lparr>v_t := StringType, v_underlyingString := [97, 37]\<rparr>)"
  obtain e where e: "NewLikeExpression ?l ?r = Some e" by (simp add: NewLikeExpression_def zeroValue_def value_reads)
  have rn: "runes [97, 98] = [97, 98]" "runes [97, 37] = [97, 37]" by (simp_all add: decode_rune_def)
  have "like [97, 37] [97, 98]" by (auto intro: exI [of _ 1])
  then show ?thesis
    using LikeExpression_sql [OF e, of pair_tuple "zeroValue\<lparr>v_t := StringType, v_underlyingString := [97, 98]\<rparr>"
        "zeroValue\<lparr>v_t := StringType, v_underlyingString := [97, 37]\<rparr>"] e rn
    by (auto simp: zeroValue_def simp del: runes.simps like.simps)
qed

text \<open>Binding a logical expression to a schema gives a physical expression that evaluates, on every
  tuple, to what the logical one means when each column has the tuple's value at the column's position;
  a projection fused into an expression gives the expression over the projected columns.\<close>

theorem BindExpr_correct:
  assumes "built e"
  shows "(logical e \<longrightarrow> (\<forall>e'. BindExpr e ls ps = Some e' \<longrightarrow> (\<forall>t. Eval e' t = leval (env_of ls t) e))) \<and>
    (\<forall>e'. FuseProjectionIntoExpr e ls es = Some (Inr e') \<longrightarrow> (\<forall>env. leval env e' = leval (env_through ls es env) e))"
  using BindExpr_sound [OF _ assms] FuseProjection_sound [OF _ assms] by blast

theorem BindExpr_correct_witness:
  "BindExpr (NegationExpression (LogicalColumnExpr \<lparr>cname = ''A'', ctype = IntType, origin = None\<rparr>))
      [\<lparr>cname = ''a'', ctype = IntType, origin = None\<rparr>] [IntType] = Some (NegationExpression (BoundValueExpr 0 IntType ''A'')) \<and>
   Eval (NegationExpression (BoundValueExpr 0 IntType ''A'')) pair_tuple =
     leval (env_of [\<lparr>cname = ''a'', ctype = IntType, origin = None\<rparr>] pair_tuple)
       (NegationExpression (LogicalColumnExpr \<lparr>cname = ''A'', ctype = IntType, origin = None\<rparr>))"
proof -
  have b: "BindExpr (NegationExpression (LogicalColumnExpr \<lparr>cname = ''A'', ctype = IntType, origin = None\<rparr>))
      [\<lparr>cname = ''a'', ctype = IntType, origin = None\<rparr>] [IntType] = Some (NegationExpression (BoundValueExpr 0 IntType ''A''))"
    by (simp add: LogicalColumn_Equals_def EqualFold_def ascii_lower_def TableRef_Equals_def NewColumnValueExpression_def)
  then show ?thesis
    using BindExpr_correct [of "NegationExpression (LogicalColumnExpr \<lparr>cname = ''A'', ctype = IntType, origin = None\<rparr>)"
        "[\<lparr>cname = ''a'', ctype = IntType, origin = None\<rparr>]" "[IntType]"] by (simp del: BindExpr.simps Eval.simps leval.simps)
qed

end
