(* ===== verification/Planner_Rules.thy ===== *)
theory Planner_Rules
  imports Planner_Expr
begin

text \<open>
  Rewriting of logical plans and matching of indexes: predicate push-down
  (\<open>planner/predicate_pushdown.go\<close>, driven by \<open>planner/optimizer.go\<close>), disjunctive normal forms and
  the choice of index keys (\<open>planner/scan_rules.go\<close>).

  Of the logical plan nodes, scans, rows of values, filters and joins have constructors of their own, as they are
  what the push-down looks at; any other node is a node with an operator and a child, which the optimizer only
  rebuilds around its new child (\<open>Planner_Physical\<close> has the operators). The rule mutates join and scan nodes in place; here it returns the new
  node. \<open>OptimizeWithRule\<close> repeats the rule while the node changes its identity: the result of a change
  is a scan or a join, on which the rule does not match, or the same filter, so it is applied once.
\<close>

section \<open>Disjunctive normal form\<close>

definition dnf_product :: "Expr list list \<Rightarrow> Expr list list \<Rightarrow> Expr list list" where
  "dnf_product left right =
     (if left = [] then right else if right = [] then left
      else concat (map (\<lambda>l. map (\<lambda>r. l @ r) right) left))"

fun toDNFTerms :: "Expr \<Rightarrow> Expr list list option"
and negateToDNF :: "Expr \<Rightarrow> Expr list list option" where
  "toDNFTerms (BinaryLogicExpression l r Or) = do { ls \<leftarrow> toDNFTerms l; rs \<leftarrow> toDNFTerms r; Some (ls @ rs) }"
| "toDNFTerms (BinaryLogicExpression l r And) = do { ls \<leftarrow> toDNFTerms l; rs \<leftarrow> toDNFTerms r; Some (dnf_product ls rs) }"
| "toDNFTerms (NegationExpression e) = negateToDNF e"
| "toDNFTerms (ComparisonExpression l r c) = Some [[ComparisonExpression l r c]]"
| "toDNFTerms (NullCheckExpression e c) = Some [[NullCheckExpression e c]]"
| "toDNFTerms (LikeExpression l r c) = Some [[LikeExpression l r c]]"
| "toDNFTerms _ = None"
| "negateToDNF (NegationExpression e) = toDNFTerms e"
| "negateToDNF (BinaryLogicExpression l r And) = do { ls \<leftarrow> negateToDNF l; rs \<leftarrow> negateToDNF r; Some (ls @ rs) }"
| "negateToDNF (BinaryLogicExpression l r Or) = do { ls \<leftarrow> negateToDNF l; rs \<leftarrow> negateToDNF r; Some (dnf_product ls rs) }"
| "negateToDNF e = Some [[NegationExpression e]]"

definition predicatesToDNFTerms :: "Expr list \<Rightarrow> Expr list list option" where
  "predicatesToDNFTerms predicates =
     (case MergePredicates predicates of None \<Rightarrow> Some [] | Some e \<Rightarrow> toDNFTerms e)"

section \<open>Matching an index\<close>

text \<open>\<open>col.origin.alias\<close> panics on a column without an origin.\<close>

definition origin_is :: "LogicalColumn \<Rightarrow> string \<Rightarrow> bool option" where
  "origin_is col tableAlias = do { o' \<leftarrow> origin col; Some (tr_alias o' = tableAlias) }"

fun column_constant :: "Expr \<Rightarrow> Expr \<Rightarrow> (LogicalColumn \<times> Value) option" where
  "column_constant (LogicalColumnExpr col) (ConstantValueExpr val) = Some (col, val)"
| "column_constant _ _ = None"

definition on_table :: "string \<Rightarrow> (LogicalColumn \<times> Value) option \<Rightarrow> (LogicalColumn \<times> Value) option option" where
  "on_table tableAlias cv =
     (case cv of
        None \<Rightarrow> Some None
      | Some (col, val) \<Rightarrow> do { b \<leftarrow> origin_is col tableAlias; Some (if b then Some (col, val) else None) })"

fun isEqualityScan :: "Expr \<Rightarrow> string \<Rightarrow> (LogicalColumn \<times> Value) option option" where
  "isEqualityScan (ComparisonExpression l r compType) tableAlias =
     (if compType \<noteq> Equal then Some None
      else do {
        m \<leftarrow> on_table tableAlias (column_constant l r);
        (case m of Some cv \<Rightarrow> Some (Some cv) | None \<Rightarrow> on_table tableAlias (column_constant r l))
      })"
| "isEqualityScan _ _ = Some None"

fun flipComparison :: "ComparisonType \<Rightarrow> ComparisonType" where
  "flipComparison GreaterThan = LessThan"
| "flipComparison GreaterThanOrEqual = LessThanOrEqual"
| "flipComparison LessThan = GreaterThan"
| "flipComparison LessThanOrEqual = GreaterThanOrEqual"
| "flipComparison op = op"

fun isRangeScan :: "Expr \<Rightarrow> string \<Rightarrow> (LogicalColumn \<times> Value \<times> ComparisonType) option option" where
  "isRangeScan (ComparisonExpression l r compType) tableAlias = do {
     m \<leftarrow> on_table tableAlias (column_constant l r);
     (case m of
        Some (col, val) \<Rightarrow> Some (Some (col, val, compType))
      | None \<Rightarrow> do {
          m \<leftarrow> on_table tableAlias (column_constant r l);
          Some (case m of Some (col, val) \<Rightarrow> Some (col, val, flipComparison compType) | None \<Rightarrow> None)
        })
   }"
| "isRangeScan (NegationExpression e) tableAlias = do {
     m \<leftarrow> isRangeScan e tableAlias;
     Some (case m of Some (col, val, op) \<Rightarrow> Some (col, val, flipComparison op) | None \<Rightarrow> None)
   }"
| "isRangeScan _ _ = Some None"

record IndexMatchResult =
  NumMatchedColumns :: nat
  match_Values :: "Value list"
  IsRange :: bool
  RangeOp :: ComparisonType
  MatchedPreds :: "Expr list"

definition no_match :: IndexMatchResult where
  "no_match = \<lparr>NumMatchedColumns = 0, match_Values = [], IsRange = False, RangeOp = Equal, MatchedPreds = []\<rparr>"

fun find_equality :: "string \<Rightarrow> string \<Rightarrow> Expr list \<Rightarrow> (Value \<times> Expr) option option" where
  "find_equality colName tableAlias [] = Some None"
| "find_equality colName tableAlias (pred # preds) = do {
     m \<leftarrow> isEqualityScan pred tableAlias;
     (case m of
        Some (col, val) \<Rightarrow>
          if cname col = colName then Some (Some (val, pred)) else find_equality colName tableAlias preds
      | None \<Rightarrow> find_equality colName tableAlias preds)
   }"

fun find_range :: "string \<Rightarrow> string \<Rightarrow> Expr list \<Rightarrow> (Value \<times> ComparisonType \<times> Expr) option option" where
  "find_range colName tableAlias [] = Some None"
| "find_range colName tableAlias (pred # preds) = do {
     m \<leftarrow> isRangeScan pred tableAlias;
     (case m of
        Some (col, val, op) \<Rightarrow>
          if cname col = colName then Some (Some (val, op, pred)) else find_range colName tableAlias preds
      | None \<Rightarrow> find_range colName tableAlias preds)
   }"

text \<open>The loop over the key columns. The flag of the result says that the loop returned from inside, with a
  range.\<close>

fun match_columns :: "string list \<Rightarrow> Expr list \<Rightarrow> string \<Rightarrow> IndexMatchResult \<Rightarrow> (bool \<times> IndexMatchResult) option" where
  "match_columns [] predicates tableAlias result = Some (False, result)"
| "match_columns (colName # cols) predicates tableAlias result = do {
     eq \<leftarrow> find_equality colName tableAlias predicates;
     (case eq of
        Some (val, pred) \<Rightarrow>
          match_columns cols predicates tableAlias
            (result\<lparr>NumMatchedColumns := NumMatchedColumns result + 1,
               match_Values := match_Values result @ [val], MatchedPreds := MatchedPreds result @ [pred]\<rparr>)
      | None \<Rightarrow> do {
          rg \<leftarrow> find_range colName tableAlias predicates;
          Some (case rg of
            Some (val, op, pred) \<Rightarrow>
              (True, result\<lparr>NumMatchedColumns := NumMatchedColumns result + 1,
                 match_Values := match_Values result @ [val], MatchedPreds := MatchedPreds result @ [pred],
                 IsRange := True, RangeOp := op\<rparr>)
          | None \<Rightarrow> (False, result))
        })
   }"

definition analyzeIndexTerm :: "string list \<Rightarrow> Expr list \<Rightarrow> string \<Rightarrow> IndexMatchResult option" where
  "analyzeIndexTerm keySchema predicates tableAlias = do {
     (returned, result) \<leftarrow> match_columns keySchema predicates tableAlias no_match;
     Some (if \<not> returned \<and> NumMatchedColumns result < length keySchema then no_match else result)
   }"

fun best_term :: "string list \<Rightarrow> string \<Rightarrow> Expr list list \<Rightarrow> IndexMatchResult option \<Rightarrow> IndexMatchResult option option" where
  "best_term keySchema tableAlias [] best = Some best"
| "best_term keySchema tableAlias (term # terms) best = do {
     m \<leftarrow> analyzeIndexTerm keySchema term tableAlias;
     best_term keySchema tableAlias terms
       (case best of
          None \<Rightarrow> Some m
        | Some b \<Rightarrow> if NumMatchedColumns m > NumMatchedColumns b then Some m else Some b)
   }"

definition analyzeIndex :: "string list \<Rightarrow> Expr list \<Rightarrow> string \<Rightarrow> IndexMatchResult option" where
  "analyzeIndex keySchema predicates tableAlias = do {
     terms \<leftarrow> predicatesToDNFTerms predicates;
     best \<leftarrow> best_term keySchema tableAlias terms None;
     Some (case best of None \<Rightarrow> no_match | Some b \<Rightarrow> b)
   }"

definition makeMultiColumnKey :: "Value list \<Rightarrow> Type list \<Rightarrow> (string + bytes \<times> RawTupleDesc) option" where
  "makeMultiColumnKey vs types =
     (if length vs \<noteq> length types then Some (Inl ''key construction mismatch'')
      else do {
        desc \<leftarrow> NewRawTupleDesc types;
        buf \<leftarrow> set_loop desc 0 (idx vs) [0..<length vs] (replicate (BytesPerTuple desc) 0);
        Some (Inr (buf, desc))
      })"

section \<open>Logical plans\<close>

datatype JoinType = Inner | Left | Right | FullOuter | Cross

fun JoinType_String :: "JoinType \<Rightarrow> string" where
  "JoinType_String Inner = ''INNER JOIN''"
| "JoinType_String Left = ''LEFT JOIN''"
| "JoinType_String Right = ''RIGHT JOIN''"
| "JoinType_String FullOuter = ''FULL OUTER JOIN''"
| "JoinType_String Cross = ''CROSS JOIN''"

record ScanNode =
  sn_TableRef :: TableRef
  sn_schema :: LogicalSchema
  sn_projection :: "(Expr list \<times> LogicalSchema) option"
  sn_Predicates :: "Expr list"
  sn_ForUpdate :: bool

datatype 'op plan =
    LogicalScanNode ScanNode
  | LogicalValuesNode "Expr list list" LogicalSchema
  | LogicalFilterNode "'op plan" Expr
  | LogicalJoinNode "'op plan" "'op plan" "Expr list" JoinType
  | LogicalUnaryNode 'op LogicalSchema "'op plan"

definition AddPredicate :: "ScanNode \<Rightarrow> Expr \<Rightarrow> ScanNode" where
  "AddPredicate n p = n\<lparr>sn_Predicates := sn_Predicates n @ [p]\<rparr>"

definition GetTableAlias :: "ScanNode \<Rightarrow> string" where
  "GetTableAlias n = tr_alias (sn_TableRef n)"

fun OutputSchema :: "'op plan \<Rightarrow> LogicalSchema" where
  "OutputSchema (LogicalScanNode n) = (case sn_projection n of Some (_, s) \<Rightarrow> s | None \<Rightarrow> sn_schema n)"
| "OutputSchema (LogicalValuesNode _ s) = s"
| "OutputSchema (LogicalFilterNode c _) = OutputSchema c"
| "OutputSchema (LogicalJoinNode l r _ _) = OutputSchema l @ OutputSchema r"
| "OutputSchema (LogicalUnaryNode _ s _) = s"

section \<open>Predicate push-down\<close>

definition canPushToScan :: "Expr \<Rightarrow> ScanNode \<Rightarrow> bool option" where
  "canPushToScan expr scan = do {
     cols \<leftarrow> GetReferencedColumns expr;
     Some (list_all (\<lambda>col. case origin col of None \<Rightarrow> False | Some t \<Rightarrow> tr_alias t = GetTableAlias scan) cols)
   }"

record pushed =
  leftPush :: "Expr list"
  rightPush :: "Expr list"
  joinConds :: "Expr list"
  keep :: "Expr list"
  pushed_joinType :: JoinType

definition push_one :: "bool \<Rightarrow> bool \<Rightarrow> Expr \<Rightarrow> pushed \<Rightarrow> pushed" where
  "push_one appliesLeft appliesRight p s =
     (case pushed_joinType s of
        Inner \<Rightarrow>
          if appliesLeft \<and> \<not> appliesRight then s\<lparr>leftPush := leftPush s @ [p]\<rparr>
          else if appliesRight \<and> \<not> appliesLeft then s\<lparr>rightPush := rightPush s @ [p]\<rparr>
          else s\<lparr>joinConds := joinConds s @ [p]\<rparr>
      | Left \<Rightarrow>
          if appliesLeft \<and> \<not> appliesRight then s\<lparr>leftPush := leftPush s @ [p]\<rparr>
          else s\<lparr>keep := keep s @ [p]\<rparr>
      | Right \<Rightarrow>
          if appliesRight \<and> \<not> appliesLeft then s\<lparr>rightPush := rightPush s @ [p]\<rparr>
          else s\<lparr>keep := keep s @ [p]\<rparr>
      | FullOuter \<Rightarrow> s\<lparr>keep := keep s @ [p]\<rparr>
      | Cross \<Rightarrow>
          if appliesLeft \<and> \<not> appliesRight then s\<lparr>leftPush := leftPush s @ [p]\<rparr>
          else if appliesRight \<and> \<not> appliesLeft then s\<lparr>rightPush := rightPush s @ [p]\<rparr>
          else s\<lparr>pushed_joinType := Inner, joinConds := joinConds s @ [p]\<rparr>)"

fun push_all :: "LogicalSchema \<Rightarrow> LogicalSchema \<Rightarrow> Expr list \<Rightarrow> pushed \<Rightarrow> pushed option" where
  "push_all ls rs [] s = Some s"
| "push_all ls rs (p # ps) s = do {
     appliesLeft \<leftarrow> CoversExpr ls p;
     appliesRight \<leftarrow> CoversExpr rs p;
     push_all ls rs ps (push_one appliesLeft appliesRight p s)
   }"

definition wrap_filter :: "'op plan \<Rightarrow> Expr list \<Rightarrow> 'op plan" where
  "wrap_filter node preds = (case MergePredicates preds of None \<Rightarrow> node | Some p \<Rightarrow> LogicalFilterNode node p)"

definition pushThroughJoin :: "Expr \<Rightarrow> 'op plan \<Rightarrow> 'op plan \<Rightarrow> Expr list \<Rightarrow> JoinType \<Rightarrow> 'op plan option" where
  "pushThroughJoin predicate l r joinOn joinType = do {
     s \<leftarrow> push_all (OutputSchema l) (OutputSchema r) (SplitPredicate predicate)
       \<lparr>leftPush = [], rightPush = [], joinConds = [], keep = [], pushed_joinType = joinType\<rparr>;
     let join = LogicalJoinNode (wrap_filter l (leftPush s)) (wrap_filter r (rightPush s))
       (joinOn @ joinConds s) (pushed_joinType s);
     Some (wrap_filter join (keep s))
   }"

fun Apply :: "'op plan \<Rightarrow> 'op plan option" where
  "Apply (LogicalFilterNode (LogicalScanNode scan) p) = do {
     b \<leftarrow> canPushToScan p scan;
     Some (if b then LogicalScanNode (AddPredicate scan p) else LogicalFilterNode (LogicalScanNode scan) p)
   }"
| "Apply (LogicalFilterNode (LogicalJoinNode l r joinOn joinType) p) = pushThroughJoin p l r joinOn joinType"
| "Apply node = Some node"

text \<open>The optimizer with this rule. The fuel bounds the depth of the recursion into children.\<close>

fun OptimizeWithRule :: "nat \<Rightarrow> 'op plan \<Rightarrow> 'op plan option" where
  "OptimizeWithRule 0 node = None"
| "OptimizeWithRule (Suc fuel) node = do {
     node \<leftarrow> Apply node;
     (case node of
        LogicalScanNode _ \<Rightarrow> Some node
      | LogicalValuesNode _ _ \<Rightarrow> Some node
      | LogicalFilterNode c p \<Rightarrow> do { c \<leftarrow> OptimizeWithRule fuel c; Some (LogicalFilterNode c p) }
      | LogicalJoinNode l r joinOn joinType \<Rightarrow> do {
          l \<leftarrow> OptimizeWithRule fuel l; r \<leftarrow> OptimizeWithRule fuel r; Some (LogicalJoinNode l r joinOn joinType) }
      | LogicalUnaryNode op s c \<Rightarrow> do { c \<leftarrow> OptimizeWithRule fuel c; Some (LogicalUnaryNode op s c) })
   }"

section \<open>The normal form is equivalent\<close>

context evaluation
begin

primrec holds_any :: "Expr list list \<Rightarrow> bool option option" where
  "holds_any [] = Some (Some False)"
| "holds_any (t # ts) = do { a \<leftarrow> holds_all t; b \<leftarrow> holds_any ts; Some (or3 a b) }"

lemma holds_any_append: "holds_any (xs @ ys) = do { a \<leftarrow> holds_any xs; b \<leftarrow> holds_any ys; Some (or3 a b) }"
proof (induction xs)
  case Nil
  then show ?case by (cases "holds_any ys") auto
next
  case (Cons x xs)
  then show ?case by (cases "holds_all x"; cases "holds_any xs"; cases "holds_any ys") (auto simp: or3_assoc)
qed

lemma holds_any_prefix:
  "rs \<noteq> [] \<Longrightarrow> holds_any (map (\<lambda>r. l @ r) rs) = do { a \<leftarrow> holds_all l; b \<leftarrow> holds_any rs; Some (and3 a b) }"
proof (induction rs)
  case (Cons r rs)
  then show ?case
    by (cases "rs = []"; cases "holds_all l"; cases "holds_all r"; cases "holds_any rs")
       (auto simp: holds_all_append kleene)
qed simp

lemma holds_any_product:
  assumes "ls \<noteq> []" "rs \<noteq> []"
  shows "holds_any (dnf_product ls rs) = do { a \<leftarrow> holds_any ls; b \<leftarrow> holds_any rs; Some (and3 a b) }"
proof -
  have "holds_any (concat (map (\<lambda>l. map (\<lambda>r. l @ r) rs) ls)) = do { a \<leftarrow> holds_any ls; b \<leftarrow> holds_any rs; Some (and3 a b) }"
    using assms(1)
  proof (induction ls)
    case (Cons l ls)
    then show ?case
      by (cases "ls = []"; cases "holds_all l"; cases "holds_any ls"; cases "holds_any rs")
         (auto simp: holds_any_append holds_any_prefix [OF assms(2)] kleene)
  qed simp
  then show ?thesis using assms by (simp add: dnf_product_def)
qed

lemma holds_single: "holds_any [[e]] = holds e"
  by simp

lemma DNF_nonempty: "toDNFTerms e = Some ts \<Longrightarrow> ts \<noteq> []" "negateToDNF e = Some ts \<Longrightarrow> ts \<noteq> []"
  by (induction e and e arbitrary: ts and ts rule: toDNFTerms_negateToDNF.induct)
     (auto simp: bind_eq_Some_conv dnf_product_def split: if_splits)

lemma holds_DNF:
  "toDNFTerms e = Some ts \<Longrightarrow> typed e \<Longrightarrow> holds_any ts = holds e"
  "negateToDNF e = Some ts \<Longrightarrow> typed e \<Longrightarrow> OutputType e = IntType \<Longrightarrow> holds_any ts = holds (NegationExpression e)"
proof (induction e and e arbitrary: ts and ts rule: toDNFTerms_negateToDNF.induct)
  case (1 l r)
  then show ?case using typed_logic [of l r Or] by (auto simp: bind_eq_Some_conv holds_any_append holds_logic)
next
  case (2 l r)
  then show ?case
    using typed_logic [of l r And] DNF_nonempty by (auto simp: bind_eq_Some_conv holds_any_product holds_logic)
next
  case (3 e)
  then show ?case using typed_negation [of e] by simp
next
  case (8 e)
  then have t: "typed e" "OutputType e = IntType" using typed_negation [of e] by auto
  then have "holds (NegationExpression (NegationExpression e)) = holds e"
    using 8(3) by (cases "holds e") (simp_all add: holds_negation kleene)
  then show ?case using 8 t by simp
next
  case (9 l r)
  note t = typed_logic [OF 9(4)]
  obtain ls rs where n: "negateToDNF l = Some ls" "negateToDNF r = Some rs" "ts = ls @ rs"
    using 9(3) by (auto simp: bind_eq_Some_conv)
  then have "holds_any ls = map_option not3 (holds l)" "holds_any rs = map_option not3 (holds r)"
    using 9(1) [OF n(1)] 9(2) [OF n(1,2)] t by (simp_all add: holds_negation)
  then show ?case
    using 9(4) n(3) by (cases "holds l"; cases "holds r") (simp_all add: holds_negation holds_any_append holds_logic kleene)
next
  case (10 l r)
  note t = typed_logic [OF 10(4)]
  obtain ls rs where n: "negateToDNF l = Some ls" "negateToDNF r = Some rs" "ts = dnf_product ls rs"
    using 10(3) by (auto simp: bind_eq_Some_conv)
  then have "holds_any ls = map_option not3 (holds l)" "holds_any rs = map_option not3 (holds r)"
    using 10(1) [OF n(1)] 10(2) [OF n(1,2)] t by (simp_all add: holds_negation)
  then show ?case
    using 10(4) n(3) holds_any_product [OF DNF_nonempty(2,2)] n(1,2)
    by (cases "holds l"; cases "holds r") (simp_all add: holds_negation holds_logic kleene)
qed simp_all

end

section \<open>What plans mean\<close>

text \<open>Rows are lists of values along the output schema. A predicate selects a row if it evaluates to
  true there, and a list of expressions projects it to their values; an evaluation that panics yields
  no row.\<close>

type_synonym lrow = "Value list"

definition env_row :: "LogicalSchema \<Rightarrow> lrow \<Rightarrow> LogicalColumn \<Rightarrow> Value option" where
  "env_row ls row' c = (case find_column (\<lambda>col. LogicalColumn_Equals col c) ls 0 of Some i \<Rightarrow> idx row' i | None \<Rightarrow> None)"

definition sat :: "LogicalSchema \<Rightarrow> Expr \<Rightarrow> lrow \<Rightarrow> bool" where
  "sat ls p row' \<longleftrightarrow> (case leval (env_row ls row') p of Some v \<Rightarrow> ExprIsTrue v | None \<Rightarrow> False)"

abbreviation sats :: "LogicalSchema \<Rightarrow> Expr list \<Rightarrow> lrow \<Rightarrow> bool" where
  "sats ls ps row' \<equiv> list_all (\<lambda>p. sat ls p row') ps"

definition project_row :: "LogicalSchema \<Rightarrow> Expr list \<Rightarrow> lrow \<Rightarrow> lrow option" where
  "project_row ls es row' = those (map (leval (env_row ls row')) es)"

definition nulls :: "LogicalSchema \<Rightarrow> lrow" where
  "nulls = map (\<lambda>c. if ctype c = StringType then NewNullString else NewNullInt)"

definition or_else :: "'a list \<Rightarrow> 'a list \<Rightarrow> 'a list" where
  "or_else xs ys = (if xs = [] then ys else xs)"

definition inner_join :: "(lrow \<Rightarrow> bool) \<Rightarrow> lrow list \<Rightarrow> lrow list \<Rightarrow> lrow list" where
  "inner_join J L R = concat (map (\<lambda>l. filter J (map (\<lambda>r. l @ r) R)) L)"

definition left_join :: "lrow \<Rightarrow> (lrow \<Rightarrow> bool) \<Rightarrow> lrow list \<Rightarrow> lrow list \<Rightarrow> lrow list" where
  "left_join ns J L R = concat (map (\<lambda>l. or_else (filter J (map (\<lambda>r. l @ r) R)) [l @ ns]) L)"

definition right_join :: "lrow \<Rightarrow> (lrow \<Rightarrow> bool) \<Rightarrow> lrow list \<Rightarrow> lrow list \<Rightarrow> lrow list" where
  "right_join ns J L R = concat (map (\<lambda>r. or_else (filter J (map (\<lambda>l. l @ r) L)) [ns @ r]) R)"

definition full_join :: "lrow \<Rightarrow> lrow \<Rightarrow> (lrow \<Rightarrow> bool) \<Rightarrow> lrow list \<Rightarrow> lrow list \<Rightarrow> lrow list" where
  "full_join nl nr J L R = left_join nr J L R @ map (\<lambda>r. nl @ r) (filter (\<lambda>r. list_all (\<lambda>l. \<not> J (l @ r)) L) R)"

fun join_rows :: "JoinType \<Rightarrow> Expr list \<Rightarrow> LogicalSchema \<Rightarrow> LogicalSchema \<Rightarrow> lrow list \<Rightarrow> lrow list \<Rightarrow> lrow list" where
  "join_rows Inner on ls rs L R = inner_join (sats (ls @ rs) on) L R"
| "join_rows Cross on ls rs L R = inner_join (sats (ls @ rs) on) L R"
| "join_rows Left on ls rs L R = left_join (nulls rs) (sats (ls @ rs) on) L R"
| "join_rows Right on ls rs L R = right_join (nulls ls) (sats (ls @ rs) on) L R"
| "join_rows FullOuter on ls rs L R = full_join (nulls ls) (nulls rs) (sats (ls @ rs) on) L R"

text \<open>The contents of the tables are arbitrary, and so is the meaning of the other operators on rows of the
  schema of their child.\<close>

fun plan_rows :: "(TableRef \<Rightarrow> lrow list) \<Rightarrow> ('op \<Rightarrow> LogicalSchema \<Rightarrow> lrow list \<Rightarrow> lrow list) \<Rightarrow> 'op plan \<Rightarrow> lrow list" where
  "plan_rows tab osem (LogicalScanNode n) =
     (let rs = filter (sats (sn_schema n) (sn_Predicates n)) (tab (sn_TableRef n)) in
      case sn_projection n of Some (es, _) \<Rightarrow> List.map_filter (project_row (sn_schema n) es) rs | None \<Rightarrow> rs)"
| "plan_rows tab osem (LogicalValuesNode vs s) = List.map_filter (\<lambda>es. project_row [] es []) vs"
| "plan_rows tab osem (LogicalFilterNode c p) = filter (sat (OutputSchema c) p) (plan_rows tab osem c)"
| "plan_rows tab osem (LogicalJoinNode l r on joinType) =
     join_rows joinType on (OutputSchema l) (OutputSchema r) (plan_rows tab osem l) (plan_rows tab osem r)"
| "plan_rows tab osem (LogicalUnaryNode op s c) = osem op (OutputSchema c) (plan_rows tab osem c)"

text \<open>All columns an expression uses, and the expressions that report them all.\<close>

fun refs :: "Expr \<Rightarrow> LogicalColumn list" where
  "refs (BoundValueExpr _ _ _) = []"
| "refs (ConstantValueExpr _) = []"
| "refs (LogicalColumnExpr c) = [c]"
| "refs (ComparisonExpression l r _) = refs l @ refs r"
| "refs (BinaryLogicExpression l r _) = refs l @ refs r"
| "refs (NegationExpression e) = refs e"
| "refs (NullCheckExpression e _) = refs e"
| "refs (ArithmeticExpression l r _) = refs l @ refs r"
| "refs (StringConcatExpression l r) = refs l @ refs r"
| "refs (LikeExpression l r _) = refs l @ refs r"

definition reports :: "Expr \<Rightarrow> bool" where
  "reports e \<longleftrightarrow> GetReferencedColumns e = Some (refs e)"

fun wf_plan :: "(TableRef \<Rightarrow> lrow list) \<Rightarrow> ('op \<Rightarrow> LogicalSchema \<Rightarrow> lrow list \<Rightarrow> lrow list) \<Rightarrow> 'op plan \<Rightarrow> bool" where
  "wf_plan tab osem (LogicalScanNode n) \<longleftrightarrow> sn_projection n = None \<and>
     (\<forall>row' \<in> set (tab (sn_TableRef n)). length row' = length (sn_schema n))"
| "wf_plan tab osem (LogicalValuesNode vs s) \<longleftrightarrow> (\<forall>es \<in> set vs. length es = length s)"
| "wf_plan tab osem (LogicalFilterNode c p) \<longleftrightarrow> wf_plan tab osem c \<and> (\<forall>q \<in> set (SplitPredicate p). reports q) \<and> reports p"
| "wf_plan tab osem (LogicalJoinNode l r _ _) \<longleftrightarrow> wf_plan tab osem l \<and> wf_plan tab osem r \<and>
     (\<forall>c. \<not> (Schema_Contains (OutputSchema l) c \<and> Schema_Contains (OutputSchema r) c))"
| "wf_plan tab osem (LogicalUnaryNode op s c) \<longleftrightarrow> wf_plan tab osem c \<and>
     (\<forall>row' \<in> set (osem op (OutputSchema c) (plan_rows tab osem c)). length row' = length s)"

section \<open>Looking up columns\<close>

lemma find_column_append:
  "find_column P (xs @ ys) i = (case find_column P xs i of Some j \<Rightarrow> Some j | None \<Rightarrow> find_column P ys (i + length xs))"
  by (induction xs arbitrary: i) (auto split: option.split)

lemma find_column_shift: "find_column P xs (i + k) = map_option (\<lambda>j. j + k) (find_column P xs i)"
  by (induction xs arbitrary: i) (auto simp flip: add_Suc)

lemma find_column_bound: "find_column P xs i = Some j \<Longrightarrow> i \<le> j \<and> j < i + length xs"
  by (induction xs arbitrary: i) (fastforce split: if_splits)+

lemma find_column_None: "find_column P xs i = None \<longleftrightarrow> \<not> list_ex P xs"
  by (induction xs arbitrary: i) auto

lemma env_row_left:
  assumes "Schema_Contains ls c" "length l = length ls"
  shows "env_row (ls @ rs) (l @ r) c = env_row ls l c"
proof -
  obtain j where j: "find_column (\<lambda>col. LogicalColumn_Equals col c) ls 0 = Some j"
    using assms(1) find_column_None [of "\<lambda>col. LogicalColumn_Equals col c" ls 0] by (auto simp: Schema_Contains_def)
  then show ?thesis
    using find_column_bound [OF j] assms(2) by (auto simp: env_row_def find_column_append idx_def nth_append)
qed

lemma env_row_right:
  assumes "\<not> Schema_Contains ls c" "length l = length ls"
  shows "env_row (ls @ rs) (l @ r) c = env_row rs r c"
proof -
  have "find_column (\<lambda>col. LogicalColumn_Equals col c) ls 0 = None"
    using assms(1) by (simp add: find_column_None Schema_Contains_def)
  then show ?thesis
    using find_column_shift [of "\<lambda>col. LogicalColumn_Equals col c" rs 0 "length ls"] assms(2)
    by (auto simp: env_row_def find_column_append idx_def nth_append split: option.split)
qed

lemma leval_cong: "(\<And>c. c \<in> set (refs e) \<Longrightarrow> env c = env' c) \<Longrightarrow> leval env e = leval env' e"
proof (induction e)
  case (ComparisonExpression l r c)
  then have "leval env l = leval env' l" "leval env r = leval env' r" by simp_all
  then show ?case by simp
next
  case (BinaryLogicExpression l r k)
  then have "leval env l = leval env' l" "leval env r = leval env' r" by simp_all
  then show ?case by simp
next
  case (ArithmeticExpression l r op)
  then have "leval env l = leval env' l" "leval env r = leval env' r" by simp_all
  then show ?case by simp
next
  case (StringConcatExpression l r)
  then have "leval env l = leval env' l" "leval env r = leval env' r" by simp_all
  then show ?case by simp
next
  case (LikeExpression l r c)
  then have "leval env l = leval env' l" "leval env r = leval env' r" by simp_all
  then show ?case by simp
qed simp_all

lemma covers_refs:
  assumes "reports p"
  shows "CoversExpr ls p = Some (\<forall>c \<in> set (refs p). Schema_Contains ls c)"
  using assms by (simp add: reports_def CoversExpr_def list_all_iff)

lemma sat_left:
  assumes "reports p" "CoversExpr ls p = Some True" "length l = length ls"
  shows "sat (ls @ rs) p (l @ r) \<longleftrightarrow> sat ls p l"
proof -
  have "leval (env_row (ls @ rs) (l @ r)) p = leval (env_row ls l) p"
    using assms covers_refs [of p ls] by (intro leval_cong env_row_left) auto
  then show ?thesis by (simp add: sat_def)
qed

lemma sat_right:
  assumes "reports p" "CoversExpr rs p = Some True" "length l = length ls"
    and "\<And>c. \<not> (Schema_Contains ls c \<and> Schema_Contains rs c)"
  shows "sat (ls @ rs) p (l @ r) \<longleftrightarrow> sat rs p r"
proof -
  have "leval (env_row (ls @ rs) (l @ r)) p = leval (env_row rs r) p"
    using assms covers_refs [of p rs] by (intro leval_cong env_row_right) auto
  then show ?thesis by (simp add: sat_def)
qed

lemma sat_holds: "sat ls p row' \<longleftrightarrow> leval.holds (env_row ls row') p = Some (Some True)"
  by (auto simp: sat_def leval.holds_def truth_iff split: option.split)

lemma sats_holds: "sats ls ps row' \<longleftrightarrow> leval.holds_all (env_row ls row') ps = Some (Some True)"
  by (induction ps) (auto simp: sat_holds bind_eq_Some_conv)

lemma sat_SplitPredicate: "sats ls (SplitPredicate p) row' \<longleftrightarrow> sat ls p row'"
  unfolding sats_holds leval.holds_SplitPredicate by (rule sat_holds [symmetric])

lemma sat_MergePredicates: "MergePredicates ps = Some m \<Longrightarrow> sat ls m row' \<longleftrightarrow> sats ls ps row'"
  unfolding sats_holds by (simp only: sat_holds leval.holds_MergePredicates)

section \<open>Pushing predicates through joins\<close>

abbreviation covers :: "LogicalSchema \<Rightarrow> Expr \<Rightarrow> bool" where
  "covers ls p \<equiv> CoversExpr ls p = Some True"

abbreviation left_only :: "LogicalSchema \<Rightarrow> LogicalSchema \<Rightarrow> Expr \<Rightarrow> bool" where
  "left_only ls rs p \<equiv> covers ls p \<and> \<not> covers rs p"

text \<open>Where the loop puts the predicates.\<close>

definition placed :: "LogicalSchema \<Rightarrow> LogicalSchema \<Rightarrow> Expr list \<Rightarrow> pushed \<Rightarrow> pushed \<Rightarrow> bool" where
  "placed ls rs ps s s' \<longleftrightarrow> (case pushed_joinType s of
       Left \<Rightarrow> s' = s\<lparr>leftPush := leftPush s @ filter (left_only ls rs) ps, keep := keep s @ filter (\<lambda>p. \<not> left_only ls rs p) ps\<rparr>
     | Right \<Rightarrow> s' = s\<lparr>rightPush := rightPush s @ filter (left_only rs ls) ps, keep := keep s @ filter (\<lambda>p. \<not> left_only rs ls p) ps\<rparr>
     | FullOuter \<Rightarrow> s' = s\<lparr>keep := keep s @ ps\<rparr>
     | _ \<Rightarrow> leftPush s' = leftPush s @ filter (left_only ls rs) ps \<and> rightPush s' = rightPush s @ filter (left_only rs ls) ps \<and>
         joinConds s' = joinConds s @ filter (\<lambda>p. \<not> left_only ls rs p \<and> \<not> left_only rs ls p) ps \<and> keep s' = keep s \<and>
         pushed_joinType s' \<in> {Inner, Cross})"

lemma push_all_placed:
  assumes "\<forall>p \<in> set ps. reports p"
  shows "\<exists>s'. push_all ls rs ps s = Some s' \<and> placed ls rs ps s s'"
  using assms
proof (induction ps arbitrary: s)
  case Nil
  then show ?case by (cases "pushed_joinType s") (auto simp: placed_def)
next
  case (Cons p ps)
  obtain a b where ab: "CoversExpr ls p = Some a" "CoversExpr rs p = Some b" using Cons.prems covers_refs by auto
  have "\<forall>p \<in> set ps. reports p" using Cons.prems by simp
  from Cons.IH [OF this, of "push_one a b p s"] obtain s' where
    s': "push_all ls rs ps (push_one a b p s) = Some s'" "placed ls rs ps (push_one a b p s) s'" by blast
  have "placed ls rs (p # ps) s s'"
    using s'(2) ab by (cases "pushed_joinType s"; cases a; cases b) (simp_all add: placed_def push_one_def)
  then show ?case using s'(1) ab by simp
qed

lemma filter_inner_join:
  assumes "\<And>l r. l \<in> set L \<Longrightarrow> r \<in> set R \<Longrightarrow> P (l @ r) \<longleftrightarrow> A l \<and> B r \<and> C (l @ r)"
  shows "filter P (inner_join J L R) = inner_join (\<lambda>x. J x \<and> C x) (filter A L) (filter B R)"
proof -
  have one: "filter P (filter J (map (\<lambda>r. l @ r) R)) =
      (if A l then filter (\<lambda>x. J x \<and> C x) (map (\<lambda>r. l @ r) (filter B R)) else [])" if "l \<in> set L" for l
  proof -
    have "filter P (filter J (map (\<lambda>r. l @ r) R')) =
        (if A l then filter (\<lambda>x. J x \<and> C x) (map (\<lambda>r. l @ r) (filter B R')) else [])" if "set R' \<subseteq> set R" for R'
      using that assms [OF \<open>l \<in> set L\<close>] by (induction R') auto
    then show ?thesis by blast
  qed
  have "filter P (concat (map (\<lambda>l. filter J (map (\<lambda>r. l @ r) R)) L')) =
      concat (map (\<lambda>l. filter (\<lambda>x. J x \<and> C x) (map (\<lambda>r. l @ r) (filter B R))) (filter A L'))" if "set L' \<subseteq> set L" for L'
    using that by (induction L') (simp_all add: one del: filter_filter)
  then show ?thesis by (simp add: inner_join_def)
qed

lemma filter_left_join:
  assumes "\<And>l r. l \<in> set L \<Longrightarrow> r \<in> insert ns (set R) \<Longrightarrow> P (l @ r) \<longleftrightarrow> A l \<and> K (l @ r)"
  shows "filter P (left_join ns J L R) = filter K (left_join ns J (filter A L) R)"
proof -
  have one: "filter P (or_else (filter J (map (\<lambda>r. l @ r) R)) [l @ ns]) =
      (if A l then filter K (or_else (filter J (map (\<lambda>r. l @ r) R)) [l @ ns]) else [])" if "l \<in> set L" for l
  proof -
    have "P x \<longleftrightarrow> A l \<and> K x" if "x \<in> set (or_else (filter J (map (\<lambda>r. l @ r) R)) [l @ ns])" for x
      using that assms [OF \<open>l \<in> set L\<close>] by (auto simp: or_else_def split: if_splits)
    then show ?thesis by (cases "A l") (auto intro: filter_cong simp: filter_empty_conv)
  qed
  have "filter P (concat (map (\<lambda>l. or_else (filter J (map (\<lambda>r. l @ r) R)) [l @ ns]) L')) =
      filter K (concat (map (\<lambda>l. or_else (filter J (map (\<lambda>r. l @ r) R)) [l @ ns]) (filter A L')))" if "set L' \<subseteq> set L" for L'
    using that by (induction L') (simp_all add: one)
  then show ?thesis by (simp add: left_join_def)
qed

lemma filter_right_join:
  assumes "\<And>l r. r \<in> set R \<Longrightarrow> l \<in> insert ns (set L) \<Longrightarrow> P (l @ r) \<longleftrightarrow> B r \<and> K (l @ r)"
  shows "filter P (right_join ns J L R) = filter K (right_join ns J L (filter B R))"
proof -
  have one: "filter P (or_else (filter J (map (\<lambda>l. l @ r) L)) [ns @ r]) =
      (if B r then filter K (or_else (filter J (map (\<lambda>l. l @ r) L)) [ns @ r]) else [])" if "r \<in> set R" for r
  proof -
    have "P x \<longleftrightarrow> B r \<and> K x" if "x \<in> set (or_else (filter J (map (\<lambda>l. l @ r) L)) [ns @ r])" for x
      using that assms [OF \<open>r \<in> set R\<close>] by (auto simp: or_else_def split: if_splits)
    then show ?thesis by (cases "B r") (auto intro: filter_cong simp: filter_empty_conv)
  qed
  have "filter P (concat (map (\<lambda>r. or_else (filter J (map (\<lambda>l. l @ r) L)) [ns @ r]) R')) =
      filter K (concat (map (\<lambda>r. or_else (filter J (map (\<lambda>l. l @ r) L)) [ns @ r]) (filter B R')))" if "set R' \<subseteq> set R" for R'
    using that by (induction R') (simp_all add: one)
  then show ?thesis by (simp add: right_join_def)
qed

lemma length_nulls [simp]: "length (nulls ls) = length ls"
  by (simp add: nulls_def)

lemma join_rows_length:
  assumes "\<forall>l \<in> set L. length l = length ls" "\<forall>r \<in> set R. length r = length rs" "x \<in> set (join_rows jt on ls rs L R)"
  shows "length x = length ls + length rs"
  using assms by (cases jt) (auto simp: inner_join_def left_join_def right_join_def full_join_def or_else_def split: if_splits)

lemma those_length: "those xs = Some ys \<Longrightarrow> length ys = length xs"
  by (induction xs arbitrary: ys) (auto split: option.splits)

lemma project_row_length: "project_row ls es row' = Some r \<Longrightarrow> length r = length es"
  by (auto simp: project_row_def dest: those_length)

lemma plan_rows_length: "wf_plan tab osem p \<Longrightarrow> row' \<in> set (plan_rows tab osem p) \<Longrightarrow> length row' = length (OutputSchema p)"
proof (induction p arbitrary: row')
  case (LogicalJoinNode l r on jt)
  then show ?case using join_rows_length [of "plan_rows tab osem l" "OutputSchema l" "plan_rows tab osem r" "OutputSchema r"] by auto
qed (auto simp: List.map_filter_def Let_def project_row_length)

lemma wrap_filter_rows: "plan_rows tab osem (wrap_filter c ps) = filter (sats (OutputSchema c) ps) (plan_rows tab osem c)"
proof (cases "MergePredicates ps")
  case None
  then show ?thesis by (auto simp: wrap_filter_def MergePredicates_def split: list.splits)
next
  case (Some m)
  then show ?thesis using sat_MergePredicates [OF Some] by (simp add: wrap_filter_def cong: filter_cong)
qed

lemma wrap_filter_schema [simp]: "OutputSchema (wrap_filter c ps) = OutputSchema c"
  by (simp add: wrap_filter_def split: option.split)

text \<open>Pushing a predicate through a join keeps the rows.\<close>

definition no_pushes :: "JoinType \<Rightarrow> pushed" where
  "no_pushes jt = \<lparr>leftPush = [], rightPush = [], joinConds = [], keep = [], pushed_joinType = jt\<rparr>"

lemma sats_filter_split: "sats ls ps x \<longleftrightarrow> sats ls (filter P ps) x \<and> sats ls (filter (\<lambda>p. \<not> P p) ps) x"
  by (induction ps) auto

lemma join_push:
  assumes ps: "\<forall>p \<in> set ps. reports p" and dis: "\<And>c. \<not> (Schema_Contains ls c \<and> Schema_Contains rs c)"
    and len: "\<forall>l \<in> set L. length l = length ls" and s: "placed ls rs ps (no_pushes jt) s"
  shows "filter (sats (ls @ rs) ps) (join_rows jt on ls rs L R) =
    filter (sats (ls @ rs) (keep s)) (join_rows (pushed_joinType s) (on @ joinConds s) ls rs
      (filter (sats ls (leftPush s)) L) (filter (sats rs (rightPush s)) R))"
proof -
  let ?l = "filter (left_only ls rs) ps" and ?r = "filter (left_only rs ls) ps"
  let ?m = "filter (\<lambda>p. \<not> left_only ls rs p \<and> \<not> left_only rs ls p) ps"
  have sl: "sats (ls @ rs) ?l (l @ r) \<longleftrightarrow> sats ls ?l l" if "length l = length ls" for l r
    using sat_left [OF _ _ that] ps by (auto simp: list_all_iff)
  have sr: "sats (ls @ rs) ?r (l @ r) \<longleftrightarrow> sats rs ?r r" if "length l = length ls" for l r
    using sat_right [OF _ _ that dis] ps by (auto simp: list_all_iff)
  have all3: "sats (ls @ rs) ps x \<longleftrightarrow> sats (ls @ rs) ?l x \<and> sats (ls @ rs) ?r x \<and> sats (ls @ rs) ?m x" for x
    by (auto simp: list_all_iff)
  have app: "sats q (on @ cs) = (\<lambda>x. sats q on x \<and> sats q cs x)" for q cs by (simp add: fun_eq_iff)
  have inner: "filter (sats (ls @ rs) ps) (inner_join (sats (ls @ rs) on) L R) =
      inner_join (sats (ls @ rs) (on @ ?m)) (filter (sats ls ?l) L) (filter (sats rs ?r) R)"
    unfolding app by (rule filter_inner_join) (use all3 sl sr len in auto)
  show ?thesis
  proof (cases jt)
    case Inner
    then show ?thesis using s inner by (auto simp: placed_def no_pushes_def)
  next
    case Cross
    then show ?thesis using s inner by (auto simp: placed_def no_pushes_def)
  next
    case Left
    have "filter (sats (ls @ rs) ps) (left_join (nulls rs) (sats (ls @ rs) on) L R) =
        filter (sats (ls @ rs) (filter (\<lambda>p. \<not> left_only ls rs p) ps)) (left_join (nulls rs) (sats (ls @ rs) on) (filter (sats ls ?l) L) R)"
    proof (rule filter_left_join)
      fix l r
      assume "l \<in> set L"
      then show "sats (ls @ rs) ps (l @ r) \<longleftrightarrow> sats ls ?l l \<and> sats (ls @ rs) (filter (\<lambda>p. \<not> left_only ls rs p) ps) (l @ r)"
        using sats_filter_split [where x = "l @ r" and P = "left_only ls rs"] sl len by blast
    qed
    then show ?thesis using s Left by (simp add: placed_def no_pushes_def)
  next
    case Right
    have "filter (sats (ls @ rs) ps) (right_join (nulls ls) (sats (ls @ rs) on) L R) =
        filter (sats (ls @ rs) (filter (\<lambda>p. \<not> left_only rs ls p) ps)) (right_join (nulls ls) (sats (ls @ rs) on) L (filter (sats rs ?r) R))"
    proof (rule filter_right_join)
      fix l r
      assume "l \<in> insert (nulls ls) (set L)"
      then have "length l = length ls" using len by auto
      then show "sats (ls @ rs) ps (l @ r) \<longleftrightarrow> sats rs ?r r \<and> sats (ls @ rs) (filter (\<lambda>p. \<not> left_only rs ls p) ps) (l @ r)"
        using sats_filter_split [where x = "l @ r" and P = "left_only rs ls"] sr by blast
    qed
    then show ?thesis using s Right by (simp add: placed_def no_pushes_def)
  next
    case FullOuter
    then show ?thesis using s by (simp add: placed_def no_pushes_def)
  qed
qed

lemma placed_sub:
  "placed ls rs ps (no_pushes jt) s \<Longrightarrow>
   set (leftPush s) \<subseteq> set ps \<and> set (rightPush s) \<subseteq> set ps \<and> set (joinConds s) \<subseteq> set ps \<and> set (keep s) \<subseteq> set ps"
  by (cases jt) (auto simp: placed_def no_pushes_def)

text \<open>Merging atoms and splitting again gives the atoms back.\<close>

abbreviation atom :: "Expr \<Rightarrow> bool" where
  "atom e \<equiv> SplitPredicate e = [e]"

lemma split_fold: "SplitPredicate (fold (\<lambda>e root. BinaryLogicExpression root e And) es e) = SplitPredicate e @ concat (map SplitPredicate es)"
  by (induction es arbitrary: e) auto

lemma split_merge: "\<forall>e \<in> set es. atom e \<Longrightarrow> MergePredicates es = Some m \<Longrightarrow> SplitPredicate m = es"
proof (cases es)
  case (Cons e es')
  assume a: "\<forall>e \<in> set es. atom e" "MergePredicates es = Some m"
  have "map SplitPredicate es' = map (\<lambda>e. [e]) es'" using a(1) Cons by simp
  moreover have "concat (map (\<lambda>e. [e]) es') = es'" by (induction es') auto
  ultimately have "concat (map SplitPredicate es') = es'" by (simp only:)
  then show ?thesis using a Cons by (auto simp: MergePredicates_def split_fold)
qed (simp add: MergePredicates_def)

lemma split_atoms: "\<forall>e \<in> set (SplitPredicate p). atom e"
proof (induction p rule: SplitPredicate.induct)
  case (1 l r)
  then show ?case unfolding SplitPredicate.simps(1) set_append by blast
qed (simp_all only: SplitPredicate.simps, auto)

lemma reports_fold:
  "reports e \<Longrightarrow> \<forall>x \<in> set es. reports x \<Longrightarrow> reports (fold (\<lambda>e root. BinaryLogicExpression root e And) es e)"
  by (induction es arbitrary: e) (auto simp: reports_def)

lemma reports_merge: "\<forall>x \<in> set es. reports x \<Longrightarrow> MergePredicates es = Some m \<Longrightarrow> reports m"
  by (auto simp: MergePredicates_def split: list.splits intro: reports_fold)

lemma wrap_filter_wf:
  assumes "wf_plan tab osem c" "\<forall>p \<in> set ps. reports p \<and> atom p"
  shows "wf_plan tab osem (wrap_filter c ps)"
  using assms split_merge [of ps] reports_merge [of ps] by (auto simp: wrap_filter_def split: option.split)

section \<open>The optimizer keeps the rows\<close>

fun weight :: "'op plan \<Rightarrow> nat" where
  "weight (LogicalScanNode _) = 1"
| "weight (LogicalValuesNode _ _) = 1"
| "weight (LogicalFilterNode c _) = 1 + 3 * weight c"
| "weight (LogicalJoinNode l r _ _) = 1 + weight l + weight r"
| "weight (LogicalUnaryNode _ _ c) = 1 + weight c"

definition same_plan :: "(TableRef \<Rightarrow> lrow list) \<Rightarrow> ('op \<Rightarrow> LogicalSchema \<Rightarrow> lrow list \<Rightarrow> lrow list) \<Rightarrow> 'op plan \<Rightarrow> 'op plan \<Rightarrow> bool" where
  "same_plan tab osem p q \<longleftrightarrow> wf_plan tab osem q \<and> OutputSchema q = OutputSchema p \<and> plan_rows tab osem q = plan_rows tab osem p"

lemma weight_wrap: "weight (wrap_filter c ps) \<le> 1 + 3 * weight c"
  by (simp add: wrap_filter_def split: option.split)

fun children :: "'op plan \<Rightarrow> 'op plan list" where
  "children (LogicalScanNode _) = []"
| "children (LogicalValuesNode _ _) = []"
| "children (LogicalFilterNode c _) = [c]"
| "children (LogicalJoinNode l r _ _) = [l, r]"
| "children (LogicalUnaryNode _ _ c) = [c]"

lemma pushThroughJoin_same:
  assumes wf: "wf_plan tab osem (LogicalFilterNode (LogicalJoinNode l r on jt) p)"
  shows "\<exists>q. pushThroughJoin p l r on jt = Some q \<and> same_plan tab osem (LogicalFilterNode (LogicalJoinNode l r on jt) p) q \<and>
    (\<forall>c \<in> set (children q). weight c < weight (LogicalFilterNode (LogicalJoinNode l r on jt) p))"
proof -
  let ?ls = "OutputSchema l" and ?rs = "OutputSchema r" and ?ps = "SplitPredicate p"
  have ps: "\<forall>p \<in> set ?ps. reports p" using wf by simp
  obtain s where s: "push_all ?ls ?rs ?ps (no_pushes jt) = Some s" "placed ?ls ?rs ?ps (no_pushes jt) s"
    using push_all_placed [OF ps] by blast
  let ?join = "LogicalJoinNode (wrap_filter l (leftPush s)) (wrap_filter r (rightPush s)) (on @ joinConds s) (pushed_joinType s)"
  let ?q = "wrap_filter ?join (keep s)"
  have q: "pushThroughJoin p l r on jt = Some ?q" using s(1) by (simp add: pushThroughJoin_def no_pushes_def)
  have sub: "\<forall>x \<in> set xs. reports x \<and> atom x" if "set xs \<subseteq> set ?ps" for xs
    using that ps split_atoms [of p] by blast
  note sets = placed_sub [OF s(2)]
  have "wf_plan tab osem (wrap_filter l (leftPush s))" "wf_plan tab osem (wrap_filter r (rightPush s))"
    using wf sets by (auto intro!: wrap_filter_wf sub)
  then have "wf_plan tab osem ?join" using wf by simp
  then have wfq: "wf_plan tab osem ?q" using sub [of "keep s"] sets by (intro wrap_filter_wf) auto
  have len: "\<forall>x \<in> set (plan_rows tab osem l). length x = length ?ls" using plan_rows_length [of tab osem l] wf by auto
  have dis: "\<And>c. \<not> (Schema_Contains ?ls c \<and> Schema_Contains ?rs c)" using wf by simp
  have "plan_rows tab osem ?q = filter (sats (?ls @ ?rs) ?ps) (join_rows jt on ?ls ?rs (plan_rows tab osem l) (plan_rows tab osem r))"
    using join_push [OF ps dis len s(2), of on "plan_rows tab osem r"] by (simp add: wrap_filter_rows)
  also have "\<dots> = plan_rows tab osem (LogicalFilterNode (LogicalJoinNode l r on jt) p)"
    by (simp add: sat_SplitPredicate cong: filter_cong)
  finally have "same_plan tab osem (LogicalFilterNode (LogicalJoinNode l r on jt) p) ?q" using wfq by (simp add: same_plan_def)
  moreover have "\<forall>c \<in> set (children ?q). weight c < weight (LogicalFilterNode (LogicalJoinNode l r on jt) p)"
    using weight_wrap [of l "leftPush s"] weight_wrap [of r "rightPush s"]
    by (cases "MergePredicates (keep s)") (auto simp: wrap_filter_def [of ?join])
  ultimately show ?thesis using q by blast
qed

lemma Apply_same:
  assumes "wf_plan tab osem p"
  shows "\<exists>q. Apply p = Some q \<and> same_plan tab osem p q \<and> (\<forall>c \<in> set (children q). weight c < weight p)"
  using assms
proof (cases p rule: Apply.cases)
  case (1 scan e)
  then obtain b where b: "canPushToScan e scan = Some b" using assms by (auto simp: canPushToScan_def reports_def)
  show ?thesis
  proof (cases b)
    case True
    have "plan_rows tab osem (LogicalScanNode (AddPredicate scan e)) = plan_rows tab osem p"
      using 1 assms by (simp add: AddPredicate_def conj_commute Let_def)
    then show ?thesis using assms 1 b True by (simp add: same_plan_def AddPredicate_def)
  next
    case False
    then show ?thesis using assms 1 b by (simp add: same_plan_def)
  qed
next
  case (2 l r on jt e)
  then show ?thesis using pushThroughJoin_same [of tab osem l r on jt e] assms by simp
qed (use assms in \<open>auto simp: same_plan_def\<close>)

lemma OptimizeWithRule_same:
  "wf_plan tab osem p \<Longrightarrow> weight p < fuel \<Longrightarrow> \<exists>q. OptimizeWithRule fuel p = Some q \<and> same_plan tab osem p q"
proof (induction fuel arbitrary: p)
  case (Suc fuel)
  obtain q where q: "Apply p = Some q" "same_plan tab osem p q" "\<forall>c \<in> set (children q). weight c < weight p"
    using Apply_same [OF Suc.prems(1)] by blast
  have wq: "wf_plan tab osem q" using q(2) by (simp add: same_plan_def)
  have ih: "\<exists>c'. OptimizeWithRule fuel c = Some c' \<and> same_plan tab osem c c'" if "c \<in> set (children q)" "wf_plan tab osem c" for c
    using Suc.IH [OF that(2)] q(3) that(1) Suc.prems(2) by fastforce
  have "\<exists>q'. OptimizeWithRule (Suc fuel) p = Some q' \<and> same_plan tab osem q q'"
  proof (cases q)
    case (LogicalScanNode n)
    then show ?thesis using q(1) wq by (simp add: same_plan_def)
  next
    case (LogicalValuesNode rows sch)
    then show ?thesis using q(1) wq by (simp add: same_plan_def)
  next
    case (LogicalFilterNode c e)
    then obtain c' where "OptimizeWithRule fuel c = Some c'" "same_plan tab osem c c'" using ih [of c] wq by auto
    then show ?thesis using LogicalFilterNode q(1) wq by (simp add: same_plan_def)
  next
    case (LogicalJoinNode l r on jt)
    then obtain l' r' where "OptimizeWithRule fuel l = Some l'" "same_plan tab osem l l'"
      "OptimizeWithRule fuel r = Some r'" "same_plan tab osem r r'" using ih [of l] ih [of r] wq by auto
    then show ?thesis using LogicalJoinNode q(1) wq by (simp add: same_plan_def)
  next
    case (LogicalUnaryNode op s c)
    then obtain c' where "OptimizeWithRule fuel c = Some c'" "same_plan tab osem c c'" using ih [of c] wq by auto
    then show ?thesis using LogicalUnaryNode q(1) wq by (simp add: same_plan_def)
  qed
  then show ?case using q(2) by (auto simp: same_plan_def)
qed simp

section \<open>Index matches\<close>

lemma eval_comparison_flip: "eval_comparison (flipComparison op) w v = eval_comparison op v w"
proof (cases "v_null v \<or> v_null w")
  case False
  then show ?thesis
    by (cases op; cases "v_t v"; cases "v_t w") (auto simp: eval_comparison_def Value_Compare_def)
qed (auto simp: eval_comparison_def)

text \<open>What it is for a predicate to say that a column of the table compares with a constant.\<close>

definition compares :: "string \<Rightarrow> string \<Rightarrow> ComparisonType \<Rightarrow> Value \<Rightarrow> Expr \<Rightarrow> bool" where
  "compares tableAlias colName op val p \<longleftrightarrow> (\<exists>col t. cname col = colName \<and> origin col = Some t \<and> tr_alias t = tableAlias \<and>
     (\<forall>env. leval env p = leval env (ComparisonExpression (LogicalColumnExpr col) (ConstantValueExpr val) op)))"

lemma on_table_Some:
  "on_table alias' cv = Some (Some (col, val)) \<longleftrightarrow> cv = Some (col, val) \<and> (\<exists>t. origin col = Some t \<and> tr_alias t = alias')"
  by (auto simp: on_table_def origin_is_def bind_eq_Some_conv split: option.splits if_splits)

lemma column_constant_Some: "column_constant l r = Some (col, val) \<longleftrightarrow> l = LogicalColumnExpr col \<and> r = ConstantValueExpr val"
  by (cases "(l, r)" rule: column_constant.cases) auto

lemma leval_flipped:
  "leval env (ComparisonExpression (ConstantValueExpr val) (LogicalColumnExpr col) op) =
   leval env (ComparisonExpression (LogicalColumnExpr col) (ConstantValueExpr val) (flipComparison op))"
  by (cases "env col") (simp_all add: eval_comparison_flip)

lemma isEqualityScan_compares:
  assumes "isEqualityScan p alias' = Some (Some (col, val))"
  shows "compares alias' (cname col) Equal val p"
proof (cases p)
  case (ComparisonExpression l r ct)
  then have "ct = Equal" using assms by (auto split: if_splits)
  then have "on_table alias' (column_constant l r) = Some (Some (col, val)) \<or> on_table alias' (column_constant r l) = Some (Some (col, val))"
    using assms ComparisonExpression by (auto simp: bind_eq_Some_conv split: option.splits)
  then show ?thesis
    using ComparisonExpression \<open>ct = Equal\<close> leval_flipped [of _ val col Equal]
    by (auto simp: on_table_Some column_constant_Some compares_def simp del: leval.simps)
qed (use assms in auto)

lemma isRangeScan_compares:
  assumes "isRangeScan (ComparisonExpression l r ct) alias' = Some (Some (col, val, op))"
  shows "compares alias' (cname col) op val (ComparisonExpression l r ct)"
proof -
  have "on_table alias' (column_constant l r) = Some (Some (col, val)) \<and> op = ct \<or>
      on_table alias' (column_constant r l) = Some (Some (col, val)) \<and> op = flipComparison ct"
    using assms by (auto simp: bind_eq_Some_conv split: option.splits)
  then show ?thesis
    using leval_flipped [of _ val col ct]
    by (auto simp: on_table_Some column_constant_Some compares_def simp del: leval.simps)
qed

lemma find_equality_compares:
  "find_equality c alias' ps = Some (Some (val, p)) \<Longrightarrow> p \<in> set ps \<and> compares alias' c Equal val p"
  by (induction ps) (auto simp: bind_eq_Some_conv split: option.splits if_splits dest: isEqualityScan_compares)

lemma match_columns_equality:
  assumes "match_columns cols ps alias' res = Some (returned, res')" "\<not> IsRange res'"
  shows "\<exists>vs qs. length qs = length vs \<and> length vs \<le> length cols \<and> \<not> returned \<and> NumMatchedColumns res' = NumMatchedColumns res + length vs \<and>
    match_Values res' = match_Values res @ vs \<and> MatchedPreds res' = MatchedPreds res @ qs \<and> set qs \<subseteq> set ps \<and>
    (\<forall>i < length vs. compares alias' (cols ! i) Equal (vs ! i) (qs ! i))"
  using assms
proof (induction cols arbitrary: res)
  case (Cons c cols)
  obtain eq where eq: "find_equality c alias' ps = Some eq" using Cons.prems(1) by (auto simp: bind_eq_Some_conv)
  show ?case
  proof (cases eq)
    case None
    then show ?thesis
      using Cons.prems eq by (auto simp: bind_eq_Some_conv split: option.splits intro!: exI [of _ "[]"])
  next
    case (Some vp)
    obtain val p where vp: "vp = (val, p)" by fastforce
    let ?res = "res\<lparr>NumMatchedColumns := NumMatchedColumns res + 1, match_Values := match_Values res @ [val], MatchedPreds := MatchedPreds res @ [p]\<rparr>"
    have f: "p \<in> set ps" "compares alias' c Equal val p" using find_equality_compares eq Some vp by blast+
    have "match_columns cols ps alias' ?res = Some (returned, res')" using Cons.prems(1) eq Some vp by simp
    from Cons.IH [OF this Cons.prems(2)] obtain vs qs where "length qs = length vs" "length vs \<le> length cols" "\<not> returned"
      "NumMatchedColumns res' = NumMatchedColumns ?res + length vs" "match_Values res' = match_Values ?res @ vs"
      "MatchedPreds res' = MatchedPreds ?res @ qs" "set qs \<subseteq> set ps"
      "\<forall>i < length vs. compares alias' (cols ! i) Equal (vs ! i) (qs ! i)" by blast
    then show ?thesis
      using f by (intro exI [of _ "val # vs"] exI [of _ "p # qs"]) (auto simp: nth_Cons split: nat.split)
  qed
qed (auto intro!: exI [of _ "[]"])

section \<open>Properties\<close>

text \<open>The three-valued truth of a disjunction of conjunctions under an evaluation; a panic anywhere is a
  panic of the whole, as all operands are evaluated.\<close>

primrec conj_truth :: "(Expr \<Rightarrow> Value option) \<Rightarrow> Expr list \<Rightarrow> bool option option" where
  "conj_truth ev [] = Some (Some True)"
| "conj_truth ev (e # es) = do { v \<leftarrow> ev e; b \<leftarrow> conj_truth ev es; Some (and3 (truth v) b) }"

primrec disj_truth :: "(Expr \<Rightarrow> Value option) \<Rightarrow> Expr list list \<Rightarrow> bool option option" where
  "disj_truth ev [] = Some (Some False)"
| "disj_truth ev (t # ts) = do { a \<leftarrow> conj_truth ev t; b \<leftarrow> disj_truth ev ts; Some (or3 a b) }"

lemma holds_conj: "leval.holds_all env es = conj_truth (leval env) es"
proof (induction es)
  case (Cons e es)
  then show ?case by (cases "leval env e") (simp_all add: leval.holds_def)
qed simp

lemma holds_disj: "leval.holds_any env ts = disj_truth (leval env) ts"
  by (induction ts) (simp_all add: holds_conj)

text \<open>The disjunctive normal form of a predicate has, under every assignment of values to the columns,
  the three-valued truth of the predicate; it is never empty.\<close>

theorem toDNFTerms_equivalent:
  assumes "toDNFTerms e = Some ts" "well_typed [] e" "typed_env env"
  shows "disj_truth (leval env) ts = map_option truth (leval env e) \<and> ts \<noteq> []"
  using leval.holds_DNF(1) [OF assms(1), of env] leval.DNF_nonempty(1) [OF assms(1)] assms(2,3)
  by (simp add: holds_disj leval.holds_def)

definition col_a :: LogicalColumn where
  "col_a = \<lparr>cname = ''a'', ctype = IntType, origin = Some \<lparr>tr_table = Some 7, tr_alias = ''t'', refID = 1\<rparr>\<rparr>"

definition a_cmp :: "int64 \<Rightarrow> ComparisonType \<Rightarrow> Expr" where
  "a_cmp i op = ComparisonExpression (LogicalColumnExpr col_a) (ConstantValueExpr (NewIntValue i)) op"

theorem toDNFTerms_equivalent_witness:
  "\<exists>ts. toDNFTerms (NegationExpression (BinaryLogicExpression (a_cmp 1 LessThan) (a_cmp 5 Equal) Or)) = Some ts \<and>
     disj_truth (leval (\<lambda>c. Some (NewIntValue 3 \<lparr>v_t := ctype c\<rparr>))) ts =
       map_option truth (leval (\<lambda>c. Some (NewIntValue 3 \<lparr>v_t := ctype c\<rparr>))
         (NegationExpression (BinaryLogicExpression (a_cmp 1 LessThan) (a_cmp 5 Equal) Or)))"
  using toDNFTerms_equivalent [of "NegationExpression (BinaryLogicExpression (a_cmp 1 LessThan) (a_cmp 5 Equal) Or)" _
      "\<lambda>c. Some (NewIntValue 3 \<lparr>v_t := ctype c\<rparr>)"]
  by (auto simp: a_cmp_def col_a_def dnf_product_def typed_env_def)

text \<open>C24: Predicate push-down keeps what a well-formed plan returns, for every join type, whatever the tables contain and
  whatever the other operators do: the optimizer terminates without a panic, and the new plan has the same
  output schema and the same rows in the same order. Well-formed means that the predicates of filters report all the columns they
  use (null checks and concatenations report none, and pushing such a predicate can lose rows), that no column belongs to both
  sides of a join, that scans have no projection of their own, and that rows have the length of their schema.\<close>

theorem OptimizeWithRule_sound:
  assumes "wf_plan tab osem p" "weight p < fuel"
  shows "\<exists>q. OptimizeWithRule fuel p = Some q \<and> OutputSchema q = OutputSchema p \<and> plan_rows tab osem q = plan_rows tab osem p"
  using OptimizeWithRule_same [OF assms] by (auto simp: same_plan_def)

definition scan_of :: "string \<Rightarrow> uint64 \<Rightarrow> ScanNode" where
  "scan_of nm i = \<lparr>sn_TableRef = \<lparr>tr_table = Some (ucast i), tr_alias = nm, refID = i\<rparr>,
     sn_schema = [\<lparr>cname = ''a'', ctype = IntType, origin = Some \<lparr>tr_table = Some (ucast i), tr_alias = nm, refID = i\<rparr>\<rparr>], sn_projection = None, sn_Predicates = [], sn_ForUpdate = False\<rparr>"

definition sample_plan :: "unit plan" where
  "sample_plan = LogicalFilterNode (LogicalJoinNode (LogicalScanNode (scan_of ''t'' 1)) (LogicalScanNode (scan_of ''u'' 2)) [] Left) (a_cmp 1 Equal)"

theorem OptimizeWithRule_sound_witness:
  "\<exists>q. OptimizeWithRule 11 sample_plan = Some q \<and>
     plan_rows (\<lambda>_. [[NewIntValue 1], [NewIntValue 2]]) (\<lambda>_ _ rs. rs) q =
     plan_rows (\<lambda>_. [[NewIntValue 1], [NewIntValue 2]]) (\<lambda>_ _ rs. rs) sample_plan"
proof -
  have "wf_plan (\<lambda>_. [[NewIntValue 1], [NewIntValue 2]]) (\<lambda>_ _ rs. rs) sample_plan"
    by (auto simp: sample_plan_def scan_of_def a_cmp_def col_a_def reports_def Schema_Contains_def LogicalColumn_Equals_def
        TableRef_Equals_def eq_commute [of "''t''"] eq_commute [of "''u''"] split: option.splits)
  moreover have "weight sample_plan < 11" by (simp add: sample_plan_def)
  ultimately show ?thesis using OptimizeWithRule_sound by blast
qed

text \<open>When an index is matched by equalities, every key column gets exactly one constant, and every row
  that satisfies the term has these constants in the key columns, up to the order of values; the predicates
  counted as matched are among those of the term.\<close>

lemma analyzeIndexTerm_equality:
  assumes "analyzeIndexTerm key preds alias' = Some m" "0 < NumMatchedColumns m" "\<not> IsRange m"
  shows "length (match_Values m) = length key \<and> set (MatchedPreds m) \<subseteq> set preds \<and>
    (\<forall>i < length key. \<exists>col t. cname col = key ! i \<and> origin col = Some t \<and> tr_alias t = alias' \<and>
      (\<forall>env. conj_truth (leval env) preds = Some (Some True) \<longrightarrow>
        (\<exists>v. env col = Some v \<and> Value_Compare v (match_Values m ! i) = Some 0)))"
proof -
  obtain returned r where r: "match_columns key preds alias' no_match = Some (returned, r)"
    "m = (if \<not> returned \<and> NumMatchedColumns r < length key then no_match else r)"
    using assms(1) by (auto simp: analyzeIndexTerm_def bind_eq_Some_conv)
  have m: "m = r" using r(2) assms(2) by (auto simp: no_match_def split: if_splits)
  obtain vs qs where f: "length qs = length vs" "length vs \<le> length key" "\<not> returned" "NumMatchedColumns r = length vs"
    "match_Values r = vs" "MatchedPreds r = qs" "set qs \<subseteq> set preds"
    "\<forall>i < length vs. compares alias' (key ! i) Equal (vs ! i) (qs ! i)"
    using match_columns_equality [OF r(1)] assms(3) m by (auto simp: no_match_def)
  have len: "length vs = length key" using r(2) f assms(2) m by (auto simp: no_match_def split: if_splits)
  have all: "\<forall>p \<in> set preds. \<exists>v. leval env p = Some v \<and> ExprIsTrue v" if "conj_truth (leval env) preds = Some (Some True)" for env
    using that by (induction preds) (auto simp: bind_eq_Some_conv truth_iff)
  have "\<exists>col t. cname col = key ! i \<and> origin col = Some t \<and> tr_alias t = alias' \<and>
      (\<forall>env. conj_truth (leval env) preds = Some (Some True) \<longrightarrow> (\<exists>v. env col = Some v \<and> Value_Compare v (vs ! i) = Some 0))"
    if "i < length key" for i
  proof -
    have "compares alias' (key ! i) Equal (vs ! i) (qs ! i)" and q: "qs ! i \<in> set preds" using f len that by auto
    then obtain col t where c: "cname col = key ! i" "origin col = Some t" "tr_alias t = alias'"
      "\<And>env. leval env (qs ! i) = leval env (ComparisonExpression (LogicalColumnExpr col) (ConstantValueExpr (vs ! i)) Equal)"
      by (auto simp: compares_def simp del: leval.simps)
    have "\<exists>v. env col = Some v \<and> Value_Compare v (vs ! i) = Some 0" if true: "conj_truth (leval env) preds = Some (Some True)" for env
    proof -
      obtain u where "leval env (qs ! i) = Some u" "ExprIsTrue u" using all [OF true] q by blast
      then show ?thesis unfolding c(4)
        by (auto simp: bind_eq_Some_conv eval_comparison_def int_bool_def ExprIsTrue_def NewIntValue_def NewNullInt_def zeroValue_def split: if_splits)
    qed
    then show ?thesis using c by blast
  qed
  then show ?thesis using len f m by simp
qed

lemma well_typed_MergePredicates:
  assumes "MergePredicates es = Some m" "\<forall>e \<in> set es. well_typed ts e \<and> OutputType e = IntType"
  shows "well_typed ts m"
proof -
  have "well_typed ts (fold (\<lambda>e root. BinaryLogicExpression root e And) es e)"
    if "well_typed ts e" "OutputType e = IntType" "\<forall>e \<in> set es. well_typed ts e \<and> OutputType e = IntType" for es e
    using that by (induction es arbitrary: e) auto
  then show ?thesis using assms by (auto simp: MergePredicates_def split: list.splits)
qed

text \<open>The match of an index is the match of one term of the normal form, the first with the most columns.\<close>

lemma best_term_spec:
  assumes "best_term key alias' terms best = Some r"
  shows "(\<forall>b. best = Some b \<longrightarrow> (\<exists>m. r = Some m \<and> NumMatchedColumns b \<le> NumMatchedColumns m)) \<and>
    (\<forall>m. r = Some m \<longrightarrow> best = Some m \<or> (\<exists>c \<in> set terms. analyzeIndexTerm key c alias' = Some m)) \<and>
    (\<forall>c \<in> set terms. \<exists>m' m. analyzeIndexTerm key c alias' = Some m' \<and> r = Some m \<and> NumMatchedColumns m' \<le> NumMatchedColumns m)"
  using assms
proof (induction terms arbitrary: best)
  case (Cons c terms)
  obtain m1 where m1: "analyzeIndexTerm key c alias' = Some m1" using Cons.prems by (auto simp: bind_eq_Some_conv)
  define b1 where "b1 = (case best of None \<Rightarrow> m1 | Some b \<Rightarrow> if NumMatchedColumns m1 > NumMatchedColumns b then m1 else b)"
  have "best_term key alias' terms (Some b1) = Some r"
    using Cons.prems m1 by (simp add: b1_def option.case_distrib [of Some] if_distrib [of Some] cong: option.case_cong if_cong)
  note ih = Cons.IH [OF this]
  have b1: "NumMatchedColumns m1 \<le> NumMatchedColumns b1" "\<And>b. best = Some b \<Longrightarrow> NumMatchedColumns b \<le> NumMatchedColumns b1" "b1 = m1 \<or> best = Some b1"
    by (auto simp: b1_def split: option.splits)
  obtain m where m: "r = Some m" "NumMatchedColumns b1 \<le> NumMatchedColumns m" using ih by blast
  have "m = b1 \<or> (\<exists>c \<in> set terms. analyzeIndexTerm key c alias' = Some m)" using ih m(1) by auto
  then have "best = Some m \<or> (\<exists>c' \<in> set (c # terms). analyzeIndexTerm key c' alias' = Some m)" using b1(3) m1 by auto
  moreover have "\<exists>m'. analyzeIndexTerm key c' alias' = Some m' \<and> NumMatchedColumns m' \<le> NumMatchedColumns m" if "c' \<in> set (c # terms)" for c'
    using that ih m b1(1) m1 by (auto intro: order_trans)
  ultimately show ?case using m b1(2) by (fastforce intro: order_trans)
qed auto

lemma analyzeIndex_term:
  assumes "analyzeIndex key preds alias' = Some m" "0 < NumMatchedColumns m"
  obtains terms c where "predicatesToDNFTerms preds = Some terms" "c \<in> set terms" "analyzeIndexTerm key c alias' = Some m"
    "\<And>t m'. t \<in> set terms \<Longrightarrow> analyzeIndexTerm key t alias' = Some m' \<Longrightarrow> NumMatchedColumns m' \<le> NumMatchedColumns m"
proof -
  obtain terms best where b: "predicatesToDNFTerms preds = Some terms" "best_term key alias' terms None = Some best"
    "m = (case best of None \<Rightarrow> no_match | Some b \<Rightarrow> b)" using assms(1) by (auto simp: analyzeIndex_def bind_eq_Some_conv)
  have best: "best = Some m" using b(3) assms(2) by (auto simp: no_match_def split: option.splits)
  note spec = best_term_spec [OF b(2)]
  have "m' \<in> {m'. NumMatchedColumns m' \<le> NumMatchedColumns m}" if "t \<in> set terms" "analyzeIndexTerm key t alias' = Some m'" for t m'
    using spec that best by fastforce
  moreover obtain c where "c \<in> set terms" "analyzeIndexTerm key c alias' = Some m" using spec best by auto
  ultimately show thesis using that b(1) by blast
qed

text \<open>
  C36: matching an index by equalities. The match comes from one term of the disjunctive normal form of the scan predicates, and no term matches more
  columns. It gives every key column exactly one constant: a row that satisfies the predicates and this term has these
  constants in the key columns, up to the order of values. If the normal form is a single term, that is every row that
  satisfies the predicates; with a disjunction it is not (see below). The predicates counted as matched belong to the term. The
  predicates have to be well typed.
\<close>

theorem analyzeIndex_equality:
  assumes "analyzeIndex key preds alias' = Some m" "0 < NumMatchedColumns m" "\<not> IsRange m" "\<forall>p \<in> set preds. well_typed [] p \<and> OutputType p = IntType"
  shows "\<exists>terms c. predicatesToDNFTerms preds = Some terms \<and> c \<in> set terms \<and>
    (\<forall>t \<in> set terms. \<forall>m'. analyzeIndexTerm key t alias' = Some m' \<longrightarrow> NumMatchedColumns m' \<le> NumMatchedColumns m) \<and>
    length (match_Values m) = length key \<and> set (MatchedPreds m) \<subseteq> set c \<and>
    (\<forall>i < length key. \<exists>col t. cname col = key ! i \<and> origin col = Some t \<and> tr_alias t = alias' \<and>
      (\<forall>env. typed_env env \<and> conj_truth (leval env) preds = Some (Some True) \<and>
          (terms = [c] \<or> conj_truth (leval env) c = Some (Some True)) \<longrightarrow>
        (\<exists>v. env col = Some v \<and> Value_Compare v (match_Values m ! i) = Some 0)))"
proof -
  obtain terms c where t: "predicatesToDNFTerms preds = Some terms" "c \<in> set terms" "analyzeIndexTerm key c alias' = Some m"
    "\<And>t m'. t \<in> set terms \<Longrightarrow> analyzeIndexTerm key t alias' = Some m' \<Longrightarrow> NumMatchedColumns m' \<le> NumMatchedColumns m"
    using analyzeIndex_term [OF assms(1,2)] by blast
  note e = analyzeIndexTerm_equality [OF t(3) assms(2,3)]
  have single: "conj_truth (leval env) c = Some (Some True)"
    if s: "typed_env env" "conj_truth (leval env) preds = Some (Some True)" "terms = [c]" for env
  proof -
    obtain p where p: "MergePredicates preds = Some p" "toDNFTerms p = Some [c]"
      using t(1,2) s(3) by (auto simp: predicatesToDNFTerms_def split: option.splits)
    have "well_typed [] p" using p(1) assms(4) by (rule well_typed_MergePredicates)
    then have "disj_truth (leval env) [c] = map_option truth (leval env p)" using toDNFTerms_equivalent [OF p(2) _ s(1)] by blast
    also have "\<dots> = conj_truth (leval env) preds" using leval.holds_MergePredicates [OF p(1), of env] by (simp add: leval.holds_def holds_conj)
    finally show ?thesis using s(2) by (auto simp: bind_eq_Some_conv or3_def split: option.splits)
  qed
  show ?thesis using t(1,2,4) e single by (intro exI [of _ terms] exI [of _ c]) blast
qed

theorem analyzeIndex_equality_witness:
  "\<exists>m. analyzeIndex [''a''] [a_cmp 7 Equal] ''t'' = Some m \<and> length (match_Values m) = 1 \<and> set (MatchedPreds m) \<subseteq> {a_cmp 7 Equal}"
proof -
  obtain m where m: "analyzeIndex [''a''] [a_cmp 7 Equal] ''t'' = Some m" "0 < NumMatchedColumns m" "\<not> IsRange m"
    by (simp add: analyzeIndex_def predicatesToDNFTerms_def MergePredicates_def analyzeIndexTerm_def a_cmp_def col_a_def on_table_def origin_is_def no_match_def)
  have "\<forall>p \<in> set [a_cmp 7 Equal]. well_typed [] p \<and> OutputType p = IntType" "predicatesToDNFTerms [a_cmp 7 Equal] = Some [[a_cmp 7 Equal]]"
    by (simp_all add: a_cmp_def col_a_def predicatesToDNFTerms_def MergePredicates_def)
  then show ?thesis using analyzeIndex_equality [OF m] m(1) by auto
qed

text \<open>With a disjunction the match drops rows that satisfy the predicates: of \<open>col = v OR col = w\<close> only \<open>v\<close> becomes the key, whatever the column and
  the values are, although a row with \<open>w\<close> satisfies the predicate.\<close>

lemma analyzeIndex_disjunction:
  fixes col v w
  defines "eq \<equiv> \<lambda>u. ComparisonExpression (LogicalColumnExpr col) (ConstantValueExpr u) Equal"
  assumes "origin col = Some t" "Value_Compare w w = Some 0" "Value_Compare w v \<noteq> None"
  shows "\<exists>m. analyzeIndex [cname col] [BinaryLogicExpression (eq v) (eq w) Or] (tr_alias t) = Some m \<and>
    NumMatchedColumns m = 1 \<and> \<not> IsRange m \<and> match_Values m = [v]"
    and "\<not> v_null v \<Longrightarrow> \<not> v_null w \<Longrightarrow> map_option truth (leval [col \<mapsto> w] (BinaryLogicExpression (eq v) (eq w) Or)) = Some (Some True)"
proof -
  show "\<exists>m. analyzeIndex [cname col] [BinaryLogicExpression (eq v) (eq w) Or] (tr_alias t) = Some m \<and>
    NumMatchedColumns m = 1 \<and> \<not> IsRange m \<and> match_Values m = [v]"
    using assms(2) by (simp add: eq_def analyzeIndex_def predicatesToDNFTerms_def MergePredicates_def analyzeIndexTerm_def on_table_def origin_is_def no_match_def)
  assume "\<not> v_null v" "\<not> v_null w"
  then obtain a b where "leval [col \<mapsto> w] (eq v) = Some a" "leval [col \<mapsto> w] (eq w) = Some b" "truth b = Some True"
    using assms(3,4) by (auto simp: eq_def eval_comparison_def truth_def int_bool_def NewIntValue_def zeroValue_def ExprIsTrue_def)
  then show "map_option truth (leval [col \<mapsto> w] (BinaryLogicExpression (eq v) (eq w) Or)) = Some (Some True)"
    by (simp add: truth_logic or3_def del: eval_logic.simps)
qed

text \<open>The negation of a range predicate is taken for its mirror image, which misses the bound: \<open>NOT col < v\<close> scans \<open>col > v\<close>.\<close>

lemma isRangeScan_negation:
  assumes "origin col = Some t"
  shows "isRangeScan (NegationExpression (ComparisonExpression (LogicalColumnExpr col) (ConstantValueExpr v) op)) (tr_alias t) =
    Some (Some (col, v, flipComparison op))"
  using assms by (simp add: on_table_def origin_is_def)

end
