(* ===== verification/Execution_Operators.thy ===== *)
theory Execution_Operators
  imports Planner_Expr "HOL-Library.Multiset"
begin

text \<open>
  The pull-based executors (\<open>execution/executor.go\<close>) that need no table: filter, projection, limit,
  values, sort and aggregation.

  An executor is a record of its methods over a state; the operators build an executor from the executor
  of their child. A panic, or a loop that does not end, is \<open>None\<close>. The relation \<open>produces\<close> says
  which tuples an executor yields from a state until \<open>Next\<close> returns false, and the error it then reports.
\<close>

section \<open>Executors\<close>

record 's Executor =
  ex_Init :: "'s \<Rightarrow> (string option \<times> 's) option"
  ex_Next :: "'s \<Rightarrow> (bool \<times> 's) option"
  ex_Current :: "'s \<Rightarrow> Tuple option"
  ex_Error :: "'s \<Rightarrow> string option"
  ex_Close :: "'s \<Rightarrow> (string option \<times> 's) option"

inductive produces :: "'s Executor \<Rightarrow> 's \<Rightarrow> Tuple list \<Rightarrow> string option \<Rightarrow> bool" for E where
  exhausted: "ex_Next E s = Some (False, s') \<Longrightarrow> ex_Error E s' = err \<Longrightarrow> produces E s [] err"
| yield_tuple: "ex_Next E s = Some (True, s') \<Longrightarrow> ex_Current E s' = Some t \<Longrightarrow> produces E s' ts err \<Longrightarrow> produces E s (t # ts) err"

inductive_cases produces_NilE: "produces E s [] err"
inductive_cases produces_ConsE: "produces E s (t # ts) err"

lemma FromValues_props:
  assumes "\<forall>v \<in> set vs. storable v"
  shows "wf_tuple (FromValues (Some vs))" "tuple_values (FromValues (Some vs)) = vs" "tuple_types (FromValues (Some vs)) = map v_t vs"
  using assms by (auto simp: wf_tuple_def FromValues_def tuple_values_def phys_types_def tuple_types_def)

lemma produces_next_cong: "produces E s ts err \<Longrightarrow> ex_Next E s' = ex_Next E s \<Longrightarrow> produces E s' ts err"
  by (erule produces.cases) (auto intro: produces.intros)

text \<open>\<open>Init\<close> succeeds and the run then produces the tuples.\<close>

definition runs :: "'s Executor \<Rightarrow> 's \<Rightarrow> Tuple list \<Rightarrow> string option \<Rightarrow> bool" where
  "runs E s ts err \<longleftrightarrow> (\<exists>s'. ex_Init E s = Some (None, s') \<and> produces E s' ts err)"

section \<open>Filter\<close>

record 's FilterState =
  fe_child :: 's
  fe_current :: Tuple

partial_function (option) filter_loop :: "Expr \<Rightarrow> 's Executor \<Rightarrow> 's \<Rightarrow> (Tuple option \<times> 's) option" where
  "filter_loop predicate E c = do {
     (b, c') \<leftarrow> ex_Next E c;
     (if \<not> b then Some (None, c')
      else do {
        t \<leftarrow> ex_Current E c';
        val \<leftarrow> Eval predicate t;
        (if ExprIsTrue val then Some (Some t, c') else filter_loop predicate E c')
      })
   }"

definition Filter_Init :: "'s Executor \<Rightarrow> 's FilterState \<Rightarrow> (string option \<times> 's FilterState) option" where
  "Filter_Init E e = do { (err, c) \<leftarrow> ex_Init E (fe_child e); Some (err, e\<lparr>fe_child := c\<rparr>) }"

definition Filter_Next :: "Expr \<Rightarrow> 's Executor \<Rightarrow> 's FilterState \<Rightarrow> (bool \<times> 's FilterState) option" where
  "Filter_Next predicate E e = do {
     (t, c) \<leftarrow> filter_loop predicate E (fe_child e);
     Some (case t of
       Some t \<Rightarrow> (True, e\<lparr>fe_child := c, fe_current := t\<rparr>)
     | None \<Rightarrow> (False, e\<lparr>fe_child := c\<rparr>))
   }"

definition NewFilter :: "'s \<Rightarrow> 's FilterState" where
  "NewFilter child = \<lparr>fe_child = child, fe_current = EmptyTuple\<rparr>"

definition Filter_Close :: "'s Executor \<Rightarrow> 's FilterState \<Rightarrow> (string option \<times> 's FilterState) option" where
  "Filter_Close E e = do { (err, c) \<leftarrow> ex_Close E (fe_child e); Some (err, e\<lparr>fe_child := c\<rparr>) }"

definition FilterExecutor :: "Expr \<Rightarrow> 's Executor \<Rightarrow> 's FilterState Executor" where
  "FilterExecutor predicate E = \<lparr>ex_Init = Filter_Init E, ex_Next = Filter_Next predicate E,
     ex_Current = (\<lambda>e. Some (fe_current e)), ex_Error = (\<lambda>e. ex_Error E (fe_child e)),
     ex_Close = Filter_Close E\<rparr>"

section \<open>Projection\<close>

record 's ProjectionState =
  pe_child :: 's
  pe_current :: Tuple

primrec eval_all :: "Expr list \<Rightarrow> Tuple \<Rightarrow> Value list option" where
  "eval_all [] t = Some []"
| "eval_all (e # es) t = do { v \<leftarrow> Eval e t; vs \<leftarrow> eval_all es t; Some (v # vs) }"

definition Projection_Init :: "'s Executor \<Rightarrow> 's ProjectionState \<Rightarrow> (string option \<times> 's ProjectionState) option" where
  "Projection_Init E e = do { (err, c) \<leftarrow> ex_Init E (pe_child e); Some (err, e\<lparr>pe_child := c\<rparr>) }"

definition Projection_Next :: "Expr list \<Rightarrow> 's Executor \<Rightarrow> 's ProjectionState \<Rightarrow> (bool \<times> 's ProjectionState) option" where
  "Projection_Next exprs E e = do {
     (b, c) \<leftarrow> ex_Next E (pe_child e);
     (if \<not> b then Some (False, e\<lparr>pe_child := c\<rparr>)
      else do {
        t \<leftarrow> ex_Current E c;
        vs \<leftarrow> eval_all exprs t;
        Some (True, e\<lparr>pe_child := c, pe_current := FromValues (Some vs)\<rparr>)
      })
   }"

definition NewProjectionExecutor :: "'s \<Rightarrow> 's ProjectionState" where
  "NewProjectionExecutor child = \<lparr>pe_child = child, pe_current = EmptyTuple\<rparr>"

definition Projection_Close :: "'s Executor \<Rightarrow> 's ProjectionState \<Rightarrow> (string option \<times> 's ProjectionState) option" where
  "Projection_Close E e = do { (err, c) \<leftarrow> ex_Close E (pe_child e); Some (err, e\<lparr>pe_child := c\<rparr>) }"

definition ProjectionExecutor :: "Expr list \<Rightarrow> 's Executor \<Rightarrow> 's ProjectionState Executor" where
  "ProjectionExecutor exprs E = \<lparr>ex_Init = Projection_Init E, ex_Next = Projection_Next exprs E,
     ex_Current = (\<lambda>e. Some (pe_current e)), ex_Error = (\<lambda>e. ex_Error E (pe_child e)),
     ex_Close = Projection_Close E\<rparr>"

section \<open>Limit\<close>

record 's LimitState =
  le_child :: 's
  le_count :: int
  le_current :: Tuple

definition Limit_Init :: "'s Executor \<Rightarrow> 's LimitState \<Rightarrow> (string option \<times> 's LimitState) option" where
  "Limit_Init E e = do { (err, c) \<leftarrow> ex_Init E (le_child e); Some (err, e\<lparr>le_count := 0, le_child := c\<rparr>) }"

definition Limit_Next :: "int \<Rightarrow> 's Executor \<Rightarrow> 's LimitState \<Rightarrow> (bool \<times> 's LimitState) option" where
  "Limit_Next limit E e =
     (if le_count e \<ge> limit then Some (False, e)
      else do {
        (b, c) \<leftarrow> ex_Next E (le_child e);
        (if \<not> b then Some (False, e\<lparr>le_child := c\<rparr>)
         else do {
           t \<leftarrow> ex_Current E c;
           Some (True, e\<lparr>le_child := c, le_current := t, le_count := le_count e + 1\<rparr>)
         })
      })"

definition NewLimitExecutor :: "'s \<Rightarrow> 's LimitState" where
  "NewLimitExecutor child = \<lparr>le_child = child, le_count = 0, le_current = EmptyTuple\<rparr>"

definition Limit_Close :: "'s Executor \<Rightarrow> 's LimitState \<Rightarrow> (string option \<times> 's LimitState) option" where
  "Limit_Close E e = do { (err, c) \<leftarrow> ex_Close E (le_child e); Some (err, e\<lparr>le_child := c\<rparr>) }"

definition LimitExecutor :: "int \<Rightarrow> 's Executor \<Rightarrow> 's LimitState Executor" where
  "LimitExecutor limit E = \<lparr>ex_Init = Limit_Init E, ex_Next = Limit_Next limit E,
     ex_Current = (\<lambda>e. Some (le_current e)), ex_Error = (\<lambda>e. ex_Error E (le_child e)),
     ex_Close = Limit_Close E\<rparr>"

section \<open>Values\<close>

record ValuesNode =
  vn_Values :: "Expr list list"
  vn_Schema :: "Type list"

record ValuesState =
  ve_cursor :: nat
  ve_currentValues :: "Value list"

fun values_loop :: "nat \<Rightarrow> Expr list \<Rightarrow> Value list \<Rightarrow> Value list option" where
  "values_loop i [] cur = Some cur"
| "values_loop i (expr # exprs) cur = do {
     v \<leftarrow> Eval expr EmptyTuple;
     cur \<leftarrow> upd_idx cur i v;
     values_loop (Suc i) exprs cur
   }"

definition Values_Init :: "ValuesNode \<Rightarrow> ValuesState \<Rightarrow> (string option \<times> ValuesState) option" where
  "Values_Init plan e = Some (None, e\<lparr>ve_cursor := 0, ve_currentValues := replicate (length (vn_Schema plan)) zeroValue\<rparr>)"

definition Values_Next :: "ValuesNode \<Rightarrow> ValuesState \<Rightarrow> (bool \<times> ValuesState) option" where
  "Values_Next plan e =
     (if ve_cursor e \<ge> length (vn_Values plan) then Some (False, e)
      else do {
        cur \<leftarrow> values_loop 0 (vn_Values plan ! ve_cursor e) (ve_currentValues e);
        Some (True, e\<lparr>ve_currentValues := cur, ve_cursor := ve_cursor e + 1\<rparr>)
      })"

definition NewValuesExecutor :: ValuesState where
  "NewValuesExecutor = \<lparr>ve_cursor = 0, ve_currentValues = []\<rparr>"

definition Values_Close :: "ValuesState \<Rightarrow> (string option \<times> ValuesState) option" where
  "Values_Close e = Some (None, e)"

definition ValuesExecutor :: "ValuesNode \<Rightarrow> ValuesState Executor" where
  "ValuesExecutor plan = \<lparr>ex_Init = Values_Init plan, ex_Next = Values_Next plan,
     ex_Current = (\<lambda>e. Some (FromValues (Some (ve_currentValues e)))), ex_Error = (\<lambda>e. None),
     ex_Close = Values_Close\<rparr>"

section \<open>Sort\<close>

datatype SortDirection = SortOrderAscending | SortOrderDescending

record OrderByClause =
  ob_Expr :: Expr
  ob_Direction :: SortDirection

fun sort_less :: "OrderByClause list \<Rightarrow> Tuple \<Rightarrow> Tuple \<Rightarrow> bool option" where
  "sort_less [] a b = Some False"
| "sort_less (ob # obs) a b = do {
     va \<leftarrow> Eval (ob_Expr ob) a;
     vb \<leftarrow> Eval (ob_Expr ob) b;
     c \<leftarrow> Value_Compare va vb;
     (if c = 0 then sort_less obs a b
      else if ob_Direction ob = SortOrderDescending then Some (c > 0)
      else Some (c < 0))
   }"

text \<open>\<open>sort.SliceStable\<close>: a stable sort, here by insertion behind the elements that are not greater.\<close>

fun stable_insert :: "('a \<Rightarrow> 'a \<Rightarrow> bool option) \<Rightarrow> 'a \<Rightarrow> 'a list \<Rightarrow> 'a list option" where
  "stable_insert lt x [] = Some [x]"
| "stable_insert lt x (y # ys) = do {
     b \<leftarrow> lt x y;
     (if b then Some (x # y # ys) else do { zs \<leftarrow> stable_insert lt x ys; Some (y # zs) })
   }"

fun stable_sort :: "('a \<Rightarrow> 'a \<Rightarrow> bool option) \<Rightarrow> 'a list \<Rightarrow> 'a list \<Rightarrow> 'a list option" where
  "stable_sort lt [] acc = Some acc"
| "stable_sort lt (x # xs) acc = do { acc \<leftarrow> stable_insert lt x acc; stable_sort lt xs acc }"

record 's SortState =
  se_child :: 's
  se_desc :: "RawTupleDesc option"
  se_buffer :: "Tuple list"
  se_pos :: int
  se_loaded :: bool
  se_err :: "string option"

partial_function (option) load_loop :: "'s Executor \<Rightarrow> RawTupleDesc option \<Rightarrow> 's \<Rightarrow> Tuple list \<Rightarrow> (Tuple list \<times> 's) option" where
  "load_loop E desc c buffer = do {
     (b, c') \<leftarrow> ex_Next E c;
     (if \<not> b then Some (buffer, c')
      else do {
        t \<leftarrow> ex_Current E c';
        d \<leftarrow> desc;
        copy \<leftarrow> DeepCopy t d;
        load_loop E desc c' (buffer @ [copy])
      })
   }"

definition Sort_Init :: "Type list \<Rightarrow> 's Executor \<Rightarrow> 's SortState \<Rightarrow> (string option \<times> 's SortState) option" where
  "Sort_Init childSchema E e = do {
     let e = e\<lparr>se_buffer := [], se_pos := -1, se_loaded := False, se_err := None\<rparr>;
     (err, c) \<leftarrow> ex_Init E (se_child e);
     (case err of
        Some err \<Rightarrow> Some (Some err, e\<lparr>se_child := c\<rparr>)
      | None \<Rightarrow> do {
          desc \<leftarrow> NewRawTupleDesc childSchema;
          Some (None, e\<lparr>se_child := c, se_desc := Some desc\<rparr>)
        })
   }"

definition Sort_load :: "OrderByClause list \<Rightarrow> 's Executor \<Rightarrow> 's SortState \<Rightarrow> 's SortState option" where
  "Sort_load orderBy E e = do {
     (buffer, c) \<leftarrow> load_loop E (se_desc e) (se_child e) (se_buffer e);
     (case ex_Error E c of
        Some err \<Rightarrow> Some (e\<lparr>se_child := c, se_buffer := buffer, se_err := Some err\<rparr>)
      | None \<Rightarrow> do {
          buffer \<leftarrow> stable_sort (sort_less orderBy) buffer [];
          Some (e\<lparr>se_child := c, se_buffer := buffer, se_loaded := True\<rparr>)
        })
   }"

definition Sort_Next :: "OrderByClause list \<Rightarrow> 's Executor \<Rightarrow> 's SortState \<Rightarrow> (bool \<times> 's SortState) option" where
  "Sort_Next orderBy E e =
     (if se_err e \<noteq> None then Some (False, e)
      else do {
        e \<leftarrow> (if se_loaded e then Some e else Sort_load orderBy E e);
        (if se_err e \<noteq> None then Some (False, e)
         else if se_pos e + 1 \<ge> int (length (se_buffer e)) then Some (False, e)
         else Some (True, e\<lparr>se_pos := se_pos e + 1\<rparr>))
      })"

definition buffer_at :: "Tuple list \<Rightarrow> int \<Rightarrow> Tuple option" where
  "buffer_at buffer pos = (if pos < 0 then None else idx buffer (nat pos))"

definition NewSortExecutor :: "'s \<Rightarrow> 's SortState" where
  "NewSortExecutor child = \<lparr>se_child = child, se_desc = None, se_buffer = [], se_pos = -1, se_loaded = False, se_err = None\<rparr>"

definition Sort_Close :: "'s Executor \<Rightarrow> 's SortState \<Rightarrow> (string option \<times> 's SortState) option" where
  "Sort_Close E e = do { (err, c) \<leftarrow> ex_Close E (se_child e); Some (err, e\<lparr>se_child := c, se_buffer := []\<rparr>) }"

definition SortExecutor :: "OrderByClause list \<Rightarrow> Type list \<Rightarrow> 's Executor \<Rightarrow> 's SortState Executor" where
  "SortExecutor orderBy childSchema E = \<lparr>ex_Init = Sort_Init childSchema E, ex_Next = Sort_Next orderBy E,
     ex_Current = (\<lambda>e. buffer_at (se_buffer e) (se_pos e)), ex_Error = se_err,
     ex_Close = Sort_Close E\<rparr>"

section \<open>Streaming operators\<close>

text \<open>
  The interface of an operator that transforms the stream of its child tuple by tuple: for the child's next
  tuple it either yields one tuple or asks the child again; it forwards exhaustion and the child's error.
  The clients are the operators above it in a plan; \<open>f\<close> is the transformation and \<open>ok\<close> the tuples on which
  the operator's expressions evaluate.
\<close>

locale stream_operator =
  fixes E :: "'s Executor" and X :: "'x Executor" and kid :: "'x \<Rightarrow> 's" and f :: "Tuple \<Rightarrow> Tuple option" and ok :: "Tuple \<Rightarrow> bool"
  assumes init_law: "ex_Init E (kid x) = Some (None, c) \<Longrightarrow> \<exists>x'. ex_Init X x = Some (None, x') \<and> kid x' = c"
    and done_law: "ex_Next E (kid x) = Some (False, c) \<Longrightarrow> \<exists>x'. ex_Next X x = Some (False, x') \<and> kid x' = c"
    and yield_law: "ex_Next E (kid x) = Some (True, c) \<Longrightarrow> ex_Current E c = Some t \<Longrightarrow> ok t \<Longrightarrow> f t = Some u \<Longrightarrow>
      \<exists>x'. ex_Next X x = Some (True, x') \<and> kid x' = c \<and> ex_Current X x' = Some u"
    and skip_law: "ex_Next E (kid x) = Some (True, c) \<Longrightarrow> ex_Current E c = Some t \<Longrightarrow> ok t \<Longrightarrow> f t = None \<Longrightarrow>
      \<exists>x'. ex_Next X x = ex_Next X x' \<and> kid x' = c"
    and error_law: "ex_Error X x = ex_Error E (kid x)"
begin

lemma stream_produces:
  assumes "produces E c ts err" "\<forall>t \<in> set ts. ok t" "kid x = c"
  shows "produces X x (List.map_filter f ts) err"
  using assms
proof (induction arbitrary: x rule: produces.induct)
  case (exhausted s s' err)
  then obtain x' where "ex_Next X x = Some (False, x')" "kid x' = s'" using done_law by blast
  then show ?case using exhausted by (auto simp: List.map_filter_def error_law intro: produces.exhausted)
next
  case (yield_tuple s s' t ts err)
  have ok: "ok t" "\<forall>t \<in> set ts. ok t" using yield_tuple.prems(1) by simp_all
  have next_kid: "ex_Next E (kid x) = Some (True, s')" using yield_tuple by simp
  show ?case
  proof (cases "f t")
    case None
    then obtain x' where "ex_Next X x = ex_Next X x'" "kid x' = s'"
      using skip_law [OF next_kid yield_tuple.hyps(2) ok(1)] by blast
    then show ?thesis using yield_tuple.IH [OF ok(2), of x'] None produces_next_cong [of X x' _ _ x] by (simp add: List.map_filter_def)
  next
    case (Some u)
    then obtain x' where "ex_Next X x = Some (True, x')" "kid x' = s'" "ex_Current X x' = Some u"
      using yield_law [OF next_kid yield_tuple.hyps(2) ok(1)] by blast
    then show ?thesis using yield_tuple.IH [OF ok(2), of x'] Some by (simp add: List.map_filter_def produces.yield_tuple)
  qed
qed

lemma stream_runs:
  assumes "runs E (kid x) ts err" "\<forall>t \<in> set ts. ok t"
  shows "runs X x (List.map_filter f ts) err"
  using assms stream_produces init_law unfolding runs_def by blast

end

text \<open>
  The interface of a blocking operator once it has materialised its result: \<open>Next\<close> advances a cursor over a
  buffer.
\<close>

locale buffered_executor =
  fixes X :: "'x Executor" and buf :: "'x \<Rightarrow> Tuple list" and pos :: "'x \<Rightarrow> int" and ready :: "'x \<Rightarrow> bool"
  assumes end_law: "ready x \<Longrightarrow> int (length (buf x)) \<le> pos x + 1 \<Longrightarrow> ex_Next X x = Some (False, x) \<and> ex_Error X x = None"
    and step_law: "ready x \<Longrightarrow> -1 \<le> pos x \<Longrightarrow> pos x + 1 < int (length (buf x)) \<Longrightarrow>
      \<exists>x'. ex_Next X x = Some (True, x') \<and> ready x' \<and> buf x' = buf x \<and> pos x' = pos x + 1 \<and> ex_Current X x' = Some (buf x ! nat (pos x + 1))"
begin

lemma buffered_produces:
  assumes "ready x" "-1 \<le> pos x"
  shows "produces X x (drop (nat (pos x + 1)) (buf x)) None"
  using assms
proof (induction "length (buf x) - nat (pos x + 1)" arbitrary: x)
  case 0
  then have "int (length (buf x)) \<le> pos x + 1" by simp
  then show ?case using 0 end_law [of x] by (auto intro!: produces.exhausted)
next
  case (Suc n)
  let ?k = "nat (pos x + 1)"
  have k: "?k < length (buf x)" "nat (pos x + 1 + 1) = Suc ?k" using Suc.hyps(2) Suc.prems by simp_all
  have "pos x + 1 < int (length (buf x))" using k(1) Suc.prems(2) by linarith
  then obtain x' where x': "ex_Next X x = Some (True, x')" "ready x'" "buf x' = buf x" "pos x' = pos x + 1" "ex_Current X x' = Some (buf x ! ?k)"
    using step_law [of x] Suc.prems by auto
  have "produces X x' (drop (Suc ?k) (buf x)) None" using Suc.hyps(1) [of x'] Suc.hyps(2) Suc.prems x'(2-4) k by simp
  then show ?case using k(1) x'(1,5) by (auto simp: Cons_nth_drop_Suc [symmetric] intro: produces.yield_tuple)
qed

end

text \<open>The predicate holds on a tuple.\<close>

definition keeps :: "Expr \<Rightarrow> Tuple \<Rightarrow> bool" where
  "keeps p t \<longleftrightarrow> (\<exists>v. Eval p t = Some v \<and> ExprIsTrue v)"

definition project :: "Expr list \<Rightarrow> Tuple \<Rightarrow> Tuple" where
  "project es t = FromValues (eval_all es t)"

lemma filter_loop_simps:
  "ex_Next E c = Some (False, c') \<Longrightarrow> filter_loop p E c = Some (None, c')"
  "ex_Next E c = Some (True, c') \<Longrightarrow> ex_Current E c' = Some t \<Longrightarrow> Eval p t = Some v \<Longrightarrow>
     filter_loop p E c = (if ExprIsTrue v then Some (Some t, c') else filter_loop p E c')"
  by (simp_all add: filter_loop.simps [of p E c])

interpretation filter: stream_operator E "FilterExecutor p E" fe_child "\<lambda>t. if keeps p t then Some t else None" "\<lambda>t. Eval p t \<noteq> None"
  for E p
proof (unfold_locales, goal_cases)
  case (4 x c t)
  then have "Filter_Next p E x = Filter_Next p E (x\<lparr>fe_child := c\<rparr>)"
    by (cases "filter_loop p E c") (auto simp: Filter_Next_def keeps_def filter_loop_simps(2) split: if_splits option.split)
  then show ?case by (intro exI [of _ "x\<lparr>fe_child := c\<rparr>"]) (simp add: FilterExecutor_def)
qed (auto simp: FilterExecutor_def Filter_Init_def Filter_Next_def keeps_def filter_loop_simps split: if_splits)

interpretation projection: stream_operator E "ProjectionExecutor es E" pe_child "\<lambda>t. Some (project es t)" "\<lambda>t. eval_all es t \<noteq> None"
  for E es
  by unfold_locales (auto simp: ProjectionExecutor_def Projection_Init_def Projection_Next_def project_def)

lemma map_filter_keeps: "List.map_filter (\<lambda>t. if keeps p t then Some t else None) ts = filter (keeps p) ts"
  by (induction ts) (simp_all add: List.map_filter_def)

lemma map_filter_project: "List.map_filter (\<lambda>t. Some (project es t)) ts = map (project es) ts"
  by (induction ts) (simp_all add: List.map_filter_def)

section \<open>The other non-blocking operators\<close>

text \<open>A limit yields a prefix; it reports the child's error if it reaches the child's end.\<close>

lemma Limit_produces:
  assumes "produces E c ts err" "le_child x = c" "le_count x \<ge> 0"
  shows "\<exists>err'. produces (LimitExecutor n E) x (take (nat (n - le_count x)) ts) err' \<and> (int (length ts) < n - le_count x \<longrightarrow> err' = err)"
  using assms
proof (induction arbitrary: x rule: produces.induct)
  case (exhausted s s' err)
  then show ?case
    by (cases "n \<le> le_count x") (auto simp: LimitExecutor_def Limit_Next_def intro!: produces.exhausted)
next
  case (yield_tuple s s' t ts err)
  let ?x = "x\<lparr>le_child := s', le_current := t, le_count := le_count x + 1\<rparr>"
  show ?case
  proof (cases "n \<le> le_count x")
    case True
    then show ?thesis by (auto simp: LimitExecutor_def Limit_Next_def intro!: produces.exhausted)
  next
    case False
    obtain err' where "produces (LimitExecutor n E) ?x (take (nat (n - le_count ?x)) ts) err'" "int (length ts) < n - le_count ?x \<longrightarrow> err' = err"
      using yield_tuple.IH [of ?x] yield_tuple.prems by auto
    moreover have "ex_Next (LimitExecutor n E) x = Some (True, ?x)" "ex_Current (LimitExecutor n E) ?x = Some t"
      using False yield_tuple by (simp_all add: LimitExecutor_def Limit_Next_def)
    moreover have "take (nat (n - le_count x)) (t # ts) = t # take (nat (n - le_count ?x)) ts"
    proof -
      have "nat (n - le_count x) = Suc (nat (n - (le_count x + 1)))" using False by simp
      then show ?thesis by simp
    qed
    ultimately show ?thesis by (auto intro!: exI [of _ err'] produces.yield_tuple)
  qed
qed

lemma Limit_runs:
  assumes "runs E (le_child x) ts err"
  shows "\<exists>err'. runs (LimitExecutor n E) x (take (nat n) ts) err' \<and> (int (length ts) < n \<longrightarrow> err' = err)"
proof -
  obtain c where c: "ex_Init E (le_child x) = Some (None, c)" "produces E c ts err" using assms unfolding runs_def by blast
  let ?x = "x\<lparr>le_count := 0, le_child := c\<rparr>"
  have "ex_Init (LimitExecutor n E) x = Some (None, ?x)" using c by (simp add: LimitExecutor_def Limit_Init_def)
  then show ?thesis using Limit_produces [OF c(2), of ?x n] unfolding runs_def by auto
qed

text \<open>A list of literal rows of the width of the schema yields its rows, from any state: \<open>Init\<close> rewinds.\<close>

lemma values_loop_eq:
  assumes "eval_all es EmptyTuple = Some vs" "i + length es \<le> length cur"
  shows "values_loop i es cur = Some (take i cur @ vs @ drop (i + length es) cur)"
  using assms
proof (induction es arbitrary: i cur vs)
  case (Cons e es)
  then obtain v ws where v: "Eval e EmptyTuple = Some v" "eval_all es EmptyTuple = Some ws" "vs = v # ws"
    by (auto simp: bind_eq_Some_conv)
  have "take (Suc i) (cur[i := v]) = take i cur @ [v]" using Cons.prems(2) by (simp add: take_Suc_conv_app_nth)
  then show ?case using Cons.IH [OF v(2), of "Suc i" "cur[i := v]"] Cons.prems(2) v by simp
qed simp

definition wf_values :: "ValuesNode \<Rightarrow> bool" where
  "wf_values plan \<longleftrightarrow> (\<forall>es \<in> set (vn_Values plan). length es = length (vn_Schema plan) \<and> eval_all es EmptyTuple \<noteq> None)"

definition values_rows :: "ValuesNode \<Rightarrow> Tuple list" where
  "values_rows plan = map (\<lambda>es. project es EmptyTuple) (vn_Values plan)"

lemma eval_all_length: "eval_all es t = Some vs \<Longrightarrow> length vs = length es"
  by (induction es arbitrary: vs) (auto simp: bind_eq_Some_conv)

lemma Values_produces:
  assumes "wf_values plan" "length (ve_currentValues e) = length (vn_Schema plan)"
  shows "produces (ValuesExecutor plan) e (drop (ve_cursor e) (values_rows plan)) None"
  using assms(2)
proof (induction "length (vn_Values plan) - ve_cursor e" arbitrary: e)
  case 0
  then show ?case by (auto simp: ValuesExecutor_def Values_Next_def values_rows_def intro!: produces.exhausted)
next
  case (Suc n)
  let ?k = "ve_cursor e"
  let ?es = "vn_Values plan ! ?k"
  have k: "?k < length (vn_Values plan)" using Suc.hyps(2) by simp
  then have "?es \<in> set (vn_Values plan)" by simp
  then obtain vs where vs: "length ?es = length (vn_Schema plan)" "eval_all ?es EmptyTuple = Some vs"
    using assms(1) by (auto simp: wf_values_def)
  let ?e = "e\<lparr>ve_currentValues := vs, ve_cursor := ?k + 1\<rparr>"
  have "values_loop 0 ?es (ve_currentValues e) = Some vs" using values_loop_eq [OF vs(2), of 0] vs(1) Suc.prems by simp
  then have step: "ex_Next (ValuesExecutor plan) e = Some (True, ?e)" using k by (simp add: ValuesExecutor_def Values_Next_def)
  have "produces (ValuesExecutor plan) ?e (drop (Suc ?k) (values_rows plan)) None"
    using Suc.hyps(1) [of ?e] Suc.hyps(2) eval_all_length [OF vs(2)] vs(1) by simp
  moreover have "drop ?k (values_rows plan) = FromValues (Some vs) # drop (Suc ?k) (values_rows plan)"
    using k vs(2) by (simp add: values_rows_def project_def Cons_nth_drop_Suc [symmetric] flip: drop_map)
  ultimately show ?case using step by (auto simp: ValuesExecutor_def intro: produces.yield_tuple)
qed

lemma Values_runs: "wf_values plan \<Longrightarrow> runs (ValuesExecutor plan) e (values_rows plan) None"
  using Values_produces [of plan "e\<lparr>ve_cursor := 0, ve_currentValues := replicate (length (vn_Schema plan)) zeroValue\<rparr>"]
  unfolding runs_def by (auto simp: ValuesExecutor_def Values_Init_def)

section \<open>Sorting\<close>

context comparator
begin

abbreviation leq :: "'a \<Rightarrow> 'a \<Rightarrow> bool" where
  "leq a b \<equiv> cmp a b \<le> 0"

lemma stable_insert_ok:
  assumes lt: "\<And>a b. carrier a \<Longrightarrow> carrier b \<Longrightarrow> lt a b = Some (cmp a b < 0)"
    and "carrier x" "\<forall>y \<in> set ys. carrier y" "sorted_wrt leq ys"
  shows "\<exists>zs. stable_insert lt x ys = Some zs \<and> mset zs = add_mset x (mset ys) \<and> sorted_wrt leq zs \<and>
    (\<forall>k. carrier k \<longrightarrow> filter (\<lambda>y. cmp k y = 0) zs = filter (\<lambda>y. cmp k y = 0) (ys @ [x]))"
  using assms(3,4)
proof (induction ys)
  case (Cons y ys)
  have c: "carrier y" "\<forall>y \<in> set ys. carrier y" using Cons.prems by auto
  show ?case
  proof (cases "cmp x y < 0")
    case True
    have less: "cmp x z < 0" if "z \<in> set (y # ys)" for z
      using that True c Cons.prems(2) cmp_less_trans [of x y z] assms(2) by auto
    have none: "filter (\<lambda>y. cmp k y = 0) (y # ys) = []" if "carrier k" "cmp k x = 0" for k
      using that less c assms(2) cmp_eq_cong [of k x] by (force simp: filter_empty_conv)
    have "filter (\<lambda>y. cmp k y = 0) (x # y # ys) = filter (\<lambda>y. cmp k y = 0) ((y # ys) @ [x])" if "carrier k" for k
      using none [OF that] by (cases "cmp k x = 0") (auto split: if_splits)
    moreover have "sorted_wrt leq (x # y # ys)" using less Cons.prems(2) by (simp add: order.strict_implies_order)
    ultimately show ?thesis using True lt [OF assms(2) c(1)] by auto
  next
    case False
    obtain zs where zs: "stable_insert lt x ys = Some zs" "mset zs = add_mset x (mset ys)" "sorted_wrt leq zs"
      "\<forall>k. carrier k \<longrightarrow> filter (\<lambda>y. cmp k y = 0) zs = filter (\<lambda>y. cmp k y = 0) (ys @ [x])"
      using Cons.IH [OF c(2)] Cons.prems(2) by auto
    have "leq y x" using False assms(2) c(1) cmp_swap [of x y] by simp
    moreover have "set zs = insert x (set ys)" using zs(2) by (metis set_mset_add_mset_insert set_mset_mset)
    ultimately have "sorted_wrt leq (y # zs)" using zs(3) Cons.prems(2) by auto
    then show ?thesis using False lt [OF assms(2) c(1)] zs by auto
  qed
qed simp

lemma stable_sort_ok:
  assumes lt: "\<And>a b. carrier a \<Longrightarrow> carrier b \<Longrightarrow> lt a b = Some (cmp a b < 0)"
  shows "\<forall>y \<in> set (acc @ xs). carrier y \<Longrightarrow> sorted_wrt leq acc \<Longrightarrow>
    \<exists>zs. stable_sort lt xs acc = Some zs \<and> mset zs = mset (acc @ xs) \<and> sorted_wrt leq zs \<and>
    (\<forall>k. carrier k \<longrightarrow> filter (\<lambda>y. cmp k y = 0) zs = filter (\<lambda>y. cmp k y = 0) (acc @ xs))"
proof (induction xs arbitrary: acc)
  case (Cons x xs)
  obtain ws where ws: "stable_insert lt x acc = Some ws" "mset ws = add_mset x (mset acc)" "sorted_wrt leq ws"
    "\<forall>k. carrier k \<longrightarrow> filter (\<lambda>y. cmp k y = 0) ws = filter (\<lambda>y. cmp k y = 0) (acc @ [x])"
    using stable_insert_ok [OF lt, of x acc] Cons.prems by auto
  have "set ws = insert x (set acc)" using ws(2) by (metis set_mset_add_mset_insert set_mset_mset)
  then show ?case using Cons.IH [of ws] Cons.prems(1) ws by auto
qed simp

end

lemma comparator_pullback:
  assumes "comparator cmp C" "\<And>x. D x \<Longrightarrow> C (f x)"
  shows "comparator (\<lambda>a b. cmp (f a) (f b)) D"
proof (rule comparator.intro)
  show "cmp (f x) (f y) \<in> {-1, 0, 1}" if "D x" "D y" for x y
    by (rule comparator.cmp_range [OF assms(1) assms(2) [OF that(1)] assms(2) [OF that(2)]])
  show "cmp (f x) (f x) = 0" if "D x" for x by (rule comparator.cmp_refl [OF assms(1) assms(2) [OF that]])
  show "cmp (f y) (f x) = - cmp (f x) (f y)" if "D x" "D y" for x y
    by (rule comparator.cmp_swap [OF assms(1) assms(2) [OF that(1)] assms(2) [OF that(2)]])
  show "cmp (f x) (f z) \<le> 0" if "D x" "D y" "D z" "cmp (f x) (f y) \<le> 0" "cmp (f y) (f z) \<le> 0" for x y z
    by (rule comparator.cmp_trans [OF assms(1) assms(2) [OF that(1)] assms(2) [OF that(2)] assms(2) [OF that(3)] that(4,5)])
qed

lemma comparator_reverse:
  assumes "comparator cmp C"
  shows "comparator (\<lambda>a b. - cmp a b) C"
proof (rule comparator.intro)
  show "- cmp x y \<in> {-1, 0, 1}" if "C x" "C y" for x y using comparator.cmp_range [OF assms that] by auto
  show "- cmp x x = 0" if "C x" for x using comparator.cmp_refl [OF assms that] by simp
  show swap: "- cmp y x = - (- cmp x y)" if "C x" "C y" for x y using comparator.cmp_swap [OF assms that] by simp
  show "- cmp x z \<le> 0" if "C x" "C y" "C z" "- cmp x y \<le> 0" "- cmp y z \<le> 0" for x y z
    using comparator.cmp_trans [OF assms that(3,2,1)] swap [OF that(1,2)] swap [OF that(2,3)] swap [OF that(1,3)] that(4,5) by simp
qed

lemma comparator_cong:
  assumes "comparator cmp C" "\<And>x y. C x \<Longrightarrow> C y \<Longrightarrow> cmp' x y = cmp x y"
  shows "comparator cmp' C"
proof (rule comparator.intro)
  show "cmp' x y \<in> {-1, 0, 1}" if "C x" "C y" for x y using comparator.cmp_range [OF assms(1) that] assms(2) that by simp
  show "cmp' x x = 0" if "C x" for x using comparator.cmp_refl [OF assms(1) that] assms(2) that by simp
  show "cmp' y x = - cmp' x y" if "C x" "C y" for x y using comparator.cmp_swap [OF assms(1) that] assms(2) that by simp
  show "cmp' x z \<le> 0" if "C x" "C y" "C z" "cmp' x y \<le> 0" "cmp' y z \<le> 0" for x y z
    using comparator.cmp_trans [OF assms(1) that(1-3)] assms(2) that by simp
qed

text \<open>The order of an ORDER BY list: the values of its expressions compared from left to right, reversed
  where the direction is descending.\<close>

definition dir_cmp :: "SortDirection \<times> Value \<Rightarrow> SortDirection \<times> Value \<Rightarrow> int" where
  "dir_cmp x y = (if fst x = SortOrderDescending then - value_cmp (snd x) (snd y) else value_cmp (snd x) (snd y))"

definition dir_value :: "SortDirection \<times> Type \<Rightarrow> SortDirection \<times> Value \<Rightarrow> bool" where
  "dir_value t x \<longleftrightarrow> fst x = fst t \<and> value_of_type (snd t) (snd x)"

interpretation dcmp: comparator_family dir_cmp dir_value
proof (rule comparator_family.intro)
  fix t :: "SortDirection \<times> Type"
  have "comparator (\<lambda>x y. value_cmp (snd x) (snd y)) (dir_value t)"
    by (rule comparator_pullback [OF value_comparator [of "snd t"]]) (simp add: dir_value_def)
  note c = this
  show "comparator dir_cmp (dir_value t)"
  proof (cases "fst t = SortOrderDescending")
    case True
    show ?thesis by (rule comparator_cong [OF comparator_reverse [OF c]]) (simp add: dir_cmp_def dir_value_def True)
  next
    case False
    show ?thesis by (rule comparator_cong [OF c]) (use False in \<open>simp add: dir_cmp_def dir_value_def\<close>)
  qed
qed

definition order_key :: "OrderByClause list \<Rightarrow> Tuple \<Rightarrow> (SortDirection \<times> Value) list" where
  "order_key obs t = map (\<lambda>ob. (ob_Direction ob, the (Eval (ob_Expr ob) t))) obs"

definition order_cmp :: "OrderByClause list \<Rightarrow> Tuple \<Rightarrow> Tuple \<Rightarrow> int" where
  "order_cmp obs a b = lex_cmp dir_cmp (order_key obs a) (order_key obs b)"

definition sortable :: "Type list \<Rightarrow> OrderByClause list \<Rightarrow> bool" where
  "sortable ts obs \<longleftrightarrow> (\<forall>ob \<in> set obs. well_typed ts (ob_Expr ob) \<and> physical (ob_Expr ob) \<and> OutputType (ob_Expr ob) \<noteq> DefaultType)"

definition tuple_of :: "Type list \<Rightarrow> Tuple \<Rightarrow> bool" where
  "tuple_of ts t \<longleftrightarrow> wf_tuple t \<and> tuple_types t = ts"

lemma Eval_of_type:
  assumes "tuple_of ts t" "well_typed ts e" "physical e" "OutputType e \<noteq> DefaultType"
  shows "\<exists>v. Eval e t = Some v \<and> value_of_type (OutputType e) v"
  using assms Eval_total [of t e] Eval_typed [of t e] by (auto simp: tuple_of_def value_of_type_def)

lemma order_key_rows:
  "sortable ts obs \<Longrightarrow> tuple_of ts t \<Longrightarrow> dcmp.rows (map (\<lambda>ob. (ob_Direction ob, OutputType (ob_Expr ob))) obs) (order_key obs t)"
  unfolding order_key_def list_all2_map1 list_all2_map2
  by (rule list.rel_refl_strong) (use Eval_of_type [of ts t] in \<open>force simp: sortable_def dir_value_def\<close>)

lemma order_comparator: "sortable ts obs \<Longrightarrow> comparator (order_cmp obs) (tuple_of ts)"
  unfolding order_cmp_def by (rule comparator_pullback [OF dcmp.lex_comparator order_key_rows])

lemma sort_less_order:
  assumes "tuple_of ts a" "tuple_of ts b"
  shows "sortable ts obs \<Longrightarrow> sort_less obs a b = Some (order_cmp obs a b < 0)"
proof (induction obs)
  case (Cons ob obs)
  then have ob: "well_typed ts (ob_Expr ob)" "physical (ob_Expr ob)" "OutputType (ob_Expr ob) \<noteq> DefaultType" "sortable ts obs"
    by (auto simp: sortable_def)
  obtain v w where v: "Eval (ob_Expr ob) a = Some v" "Eval (ob_Expr ob) b = Some w" "v_t v = v_t w" "v_t v \<noteq> DefaultType"
    using Eval_of_type [OF assms(1) ob(1-3)] Eval_of_type [OF assms(2) ob(1-3)] by (auto simp: value_of_type_def)
  then show ?case using Cons.IH [OF ob(4)] Value_Compare_total [OF v(3,4)]
    by (cases "ob_Direction ob") (auto simp: order_cmp_def order_key_def dir_cmp_def Let_def)
qed (simp add: order_cmp_def order_key_def)


text \<open>Loading and sorting a child: the run of the sort is the stably sorted list of the copies.\<close>

lemma DeepCopy_copy:
  assumes "tuple_of ts t" "NewRawTupleDesc ts = Some d"
  shows "\<exists>c. DeepCopy t d = Some c \<and> tuple_of ts c \<and> row_of c = row_of t"
proof -
  obtain c where c: "DeepCopy t d = Some c" "wf_tuple c" "row_of c = row_of t"
    using DeepCopy_same_row [of t d] assms by (auto simp: tuple_of_def)
  have "tuple_types c = ts"
    using c(1) assms(2) by (auto simp: DeepCopy_def bind_eq_Some_conv NewRawTupleDesc_Some FromRawTuple_def tuple_types_def phys_types_def)
  then show ?thesis using c by (auto simp: tuple_of_def)
qed

lemma load_loop_copies:
  assumes "produces E c us err" "\<forall>t \<in> set us. tuple_of ts t" "NewRawTupleDesc ts = Some d"
  shows "\<exists>c' cs. load_loop E (Some d) c buf = Some (buf @ cs, c') \<and> ex_Error E c' = err \<and> list_all2 (\<lambda>t c. DeepCopy t d = Some c) us cs"
  using assms(1,2)
proof (induction arbitrary: buf rule: produces.induct)
  case (exhausted s s' err)
  then show ?case by (simp add: load_loop.simps [of E "Some d" s])
next
  case (yield_tuple s s' t us err)
  obtain k where k: "DeepCopy t d = Some k" using DeepCopy_copy [OF _ assms(3), of t] yield_tuple.prems by auto
  then obtain c' cs where "load_loop E (Some d) s' (buf @ [k]) = Some ((buf @ [k]) @ cs, c')" "ex_Error E c' = err"
    "list_all2 (\<lambda>t c. DeepCopy t d = Some c) us cs"
    using yield_tuple.IH [of "buf @ [k]"] yield_tuple.prems by auto
  then show ?case using yield_tuple.hyps(1,2) k
    by (intro exI [of _ c'] exI [of _ "k # cs"]) (simp add: load_loop.simps [of E "Some d" s])
qed

interpretation sort_cursor: buffered_executor "SortExecutor obs sch E" se_buffer se_pos "\<lambda>e. se_err e = None \<and> se_loaded e" for obs sch E
  by unfold_locales (auto simp: SortExecutor_def Sort_Next_def buffer_at_def)

lemma Sort_Next_first:
  assumes "se_err e = None" "\<not> se_loaded e" "load_loop E (se_desc e) (se_child e) (se_buffer e) = Some (buf, c)" "ex_Error E c = None"
    "stable_sort (sort_less obs) buf [] = Some us"
  shows "ex_Next (SortExecutor obs sch E) e = ex_Next (SortExecutor obs sch E) (e\<lparr>se_child := c, se_buffer := us, se_loaded := True\<rparr>)"
  using assms by (simp add: SortExecutor_def Sort_Next_def Sort_load_def)

lemma Sort_Next_error:
  assumes "se_err e = None" "\<not> se_loaded e" "load_loop E (se_desc e) (se_child e) (se_buffer e) = Some (buf, c)" "ex_Error E c = Some err"
  shows "produces (SortExecutor obs sch E) e [] (Some err)"
  using assms by (auto simp: SortExecutor_def Sort_Next_def Sort_load_def intro!: produces.exhausted)

lemma copies_rows:
  assumes "list_all2 (\<lambda>t c. DeepCopy t d = Some c) us cs" "\<forall>t \<in> set us. tuple_of ts t" "NewRawTupleDesc ts = Some d"
  shows "map row_of cs = map row_of us \<and> (\<forall>c \<in> set cs. tuple_of ts c)"
  using assms(1,2)
proof (induction rule: list_all2_induct)
  case (Cons t us c cs)
  then show ?case using DeepCopy_copy [OF _ assms(3), of t] by auto
qed simp

lemma pipeline_spec:
  assumes "runs E (fe_child (pe_child (le_child x))) ts err" "\<forall>t \<in> set ts. Eval p t \<noteq> None"
    "\<forall>t \<in> set ts. keeps p t \<longrightarrow> eval_all es t \<noteq> None"
  shows "\<exists>err'. runs (LimitExecutor n (ProjectionExecutor es (FilterExecutor p E))) x
      (take (nat n) (map (project es) (filter (keeps p) ts))) err' \<and>
    (int (length (filter (keeps p) ts)) < n \<longrightarrow> err' = err)"
proof -
  have "runs (FilterExecutor p E) (pe_child (le_child x)) (filter (keeps p) ts) err"
    using filter.stream_runs [OF assms(1), of p] assms(2) by (simp add: map_filter_keeps)
  then have "runs (ProjectionExecutor es (FilterExecutor p E)) (le_child x) (map (project es) (filter (keeps p) ts)) err"
    using projection.stream_runs [of "FilterExecutor p E" "le_child x" "filter (keeps p) ts" err es] assms(3)
    by (simp add: map_filter_project)
  then show ?thesis using Limit_runs [of "ProjectionExecutor es (FilterExecutor p E)" x "map (project es) (filter (keeps p) ts)" err n] by force
qed

section \<open>Properties\<close>

text \<open>A pipeline of filter, projection and limit over any child yields the first tuples of the
  projection of the tuples on which the predicate is true, in the child's order, and reports the error of the
  child unless the limit stops it before the child's end.\<close>

theorem pipeline_correct:
  assumes "runs E (fe_child (pe_child (le_child x))) ts err" "\<forall>t \<in> set ts. Eval p t \<noteq> None"
    "\<forall>t \<in> set ts. keeps p t \<longrightarrow> eval_all es t \<noteq> None"
  shows "\<exists>err'. runs (LimitExecutor n (ProjectionExecutor es (FilterExecutor p E))) x
      (take (nat n) (map (project es) (filter (keeps p) ts))) err' \<and>
    (int (length (filter (keeps p) ts)) < n \<longrightarrow> err' = err)"
  by (rule pipeline_spec [OF assms])

definition demo_plan :: ValuesNode where
  "demo_plan = \<lparr>vn_Values = map (\<lambda>i. [ConstantValueExpr (NewIntValue i)]) [3, 5, 1], vn_Schema = [IntType]\<rparr>"

definition demo_column :: Expr where
  "demo_column = BoundValueExpr 0 IntType ''a''"

lemma demo_rows: "wf_values demo_plan" "values_rows demo_plan = map (\<lambda>i. FromValues (Some [NewIntValue i])) [3, 5, 1]"
  by (simp_all add: demo_plan_def wf_values_def values_rows_def project_def)

definition demo_filter :: Expr where
  "demo_filter = ComparisonExpression demo_column (ConstantValueExpr (NewIntValue 2)) GreaterThan"

lemma demo_tuple:
  assumes "t \<in> set (values_rows demo_plan)"
  shows "tuple_of [IntType] t"
  using assms
  by (auto simp: demo_rows(2) tuple_of_def FromValues_def wf_tuple_def tuple_types_def phys_types_def storable_def NewIntValue_def zeroValue_def)

lemma demo_typed:
  "well_typed [IntType] demo_column" "physical demo_column" "OutputType demo_column = IntType"
  "well_typed [IntType] demo_filter" "physical demo_filter"
  by (simp_all add: demo_column_def demo_filter_def)

lemma demo_Eval:
  assumes "t \<in> set (values_rows demo_plan)"
  shows "Eval demo_filter t \<noteq> None" "eval_all [demo_column] t \<noteq> None"
  using Eval_total [of t demo_filter] Eval_total [of t demo_column] demo_tuple [OF assms] demo_typed by (auto simp: tuple_of_def)

theorem pipeline_correct_witness:
  "\<exists>err'. runs (LimitExecutor 1 (ProjectionExecutor [demo_column] (FilterExecutor demo_filter (ValuesExecutor demo_plan))))
      (NewLimitExecutor (NewProjectionExecutor (NewFilter NewValuesExecutor)))
      (take (nat 1) (map (project [demo_column]) (filter (keeps demo_filter) (values_rows demo_plan)))) err'"
proof -
  have "\<forall>t \<in> set (values_rows demo_plan). Eval demo_filter t \<noteq> None"
    "\<forall>t \<in> set (values_rows demo_plan). keeps demo_filter t \<longrightarrow> eval_all [demo_column] t \<noteq> None"
    using demo_Eval by blast+
  from pipeline_correct [OF Values_runs [OF demo_rows(1)] this, where x = "NewLimitExecutor (NewProjectionExecutor (NewFilter NewValuesExecutor))" and n = 1]
  show ?thesis by blast
qed

lemma SortExecutor_spec:
  assumes "runs E (se_child s) ts err" "\<forall>t \<in> set ts. tuple_of sch t" "NewRawTupleDesc sch = Some d" "sortable sch obs"
  shows "\<exists>cs us. list_all2 (\<lambda>t c. DeepCopy t d = Some c) ts cs \<and> map row_of cs = map row_of ts \<and>
    (\<forall>c \<in> set cs. tuple_of sch c) \<and> stable_sort (sort_less obs) cs [] = Some us \<and> mset us = mset cs \<and> sorted_wrt (\<lambda>a b. order_cmp obs a b \<le> 0) us \<and>
    (\<forall>k. tuple_of sch k \<longrightarrow> filter (\<lambda>t. order_cmp obs k t = 0) us = filter (\<lambda>t. order_cmp obs k t = 0) cs) \<and>
    runs (SortExecutor obs sch E) s (if err = None then us else []) err"
proof -
  obtain c where c: "ex_Init E (se_child s) = Some (None, c)" "produces E c ts err" using assms(1) unfolding runs_def by blast
  let ?e = "s\<lparr>se_buffer := [], se_pos := -1, se_loaded := False, se_err := None, se_child := c, se_desc := Some d\<rparr>"
  obtain c' cs where cs: "load_loop E (Some d) c [] = Some (cs, c')" "ex_Error E c' = err" "list_all2 (\<lambda>t c. DeepCopy t d = Some c) ts cs"
    using load_loop_copies [OF c(2) assms(2,3), of "[]"] by auto
  note rows = copies_rows [OF cs(3) assms(2,3)]
  obtain us where us: "stable_sort (sort_less obs) cs [] = Some us" "mset us = mset cs" "sorted_wrt (\<lambda>a b. order_cmp obs a b \<le> 0) us"
    "\<forall>k. tuple_of sch k \<longrightarrow> filter (\<lambda>t. order_cmp obs k t = 0) us = filter (\<lambda>t. order_cmp obs k t = 0) cs"
    using comparator.stable_sort_ok [OF order_comparator [OF assms(4)] sort_less_order [OF _ _ assms(4)], of "[]" cs] rows by auto
  have init: "ex_Init (SortExecutor obs sch E) s = Some (None, ?e)"
    using c(1) assms(3) by (simp add: SortExecutor_def Sort_Init_def Let_def)
  have "produces (SortExecutor obs sch E) ?e (if err = None then us else []) err"
  proof (cases err)
    case None
    then have "ex_Next (SortExecutor obs sch E) ?e = ex_Next (SortExecutor obs sch E) (?e\<lparr>se_child := c', se_buffer := us, se_loaded := True\<rparr>)"
      using Sort_Next_first [of ?e E cs c' obs us sch] cs us(1) by simp
    then show ?thesis
      using produces_next_cong [OF sort_cursor.buffered_produces [of "?e\<lparr>se_child := c', se_buffer := us, se_loaded := True\<rparr>"]] None by simp
  next
    case (Some x)
    then show ?thesis using Sort_Next_error [of ?e E cs c' x] cs by simp
  qed
  then show ?thesis using init cs(3) rows us unfolding runs_def by blast
qed

text \<open>C28: Sorting is a stable sort by the ORDER BY list: the run yields the deep copies of the child's
  tuples, which are the same rows, as a permutation that is sorted and keeps the child's order among tuples
  that compare equal; if the child fails, the run yields nothing and reports the child's error.\<close>

theorem SortExecutor_sorts:
  assumes "runs E (se_child s) ts err" "\<forall>t \<in> set ts. tuple_of sch t" "NewRawTupleDesc sch = Some d" "sortable sch obs"
  shows "\<exists>cs us. list_all2 (\<lambda>t c. DeepCopy t d = Some c) ts cs \<and> map row_of cs = map row_of ts \<and>
    mset us = mset cs \<and> sorted_wrt (\<lambda>a b. order_cmp obs a b \<le> 0) us \<and>
    (\<forall>k. tuple_of sch k \<longrightarrow> filter (\<lambda>t. order_cmp obs k t = 0) us = filter (\<lambda>t. order_cmp obs k t = 0) cs) \<and>
    runs (SortExecutor obs sch E) s (if err = None then us else []) err"
  using SortExecutor_spec [OF assms] by blast

theorem SortExecutor_sorts_witness:
  "\<exists>us. mset (map row_of us) = mset (map row_of (values_rows demo_plan)) \<and>
    runs (SortExecutor [\<lparr>ob_Expr = demo_column, ob_Direction = SortOrderDescending\<rparr>] [IntType] (ValuesExecutor demo_plan)) (NewSortExecutor NewValuesExecutor) us None"
proof -
  have d: "NewRawTupleDesc [IntType] = Some \<lparr>d_fields = [IntType], d_offsets = [0], d_bytesPerRow = 8\<rparr>"
    by (simp add: NewRawTupleDesc_def AlignedTo8_def)
  have "sortable [IntType] [\<lparr>ob_Expr = demo_column, ob_Direction = SortOrderDescending\<rparr>]"
    using demo_typed by (simp add: sortable_def)
  from SortExecutor_sorts [OF Values_runs [OF demo_rows(1)] _ d this, of "(NewSortExecutor NewValuesExecutor)"] demo_tuple
  obtain cs us where "map row_of cs = map row_of (values_rows demo_plan)" "mset us = mset cs"
    "runs (SortExecutor [\<lparr>ob_Expr = demo_column, ob_Direction = SortOrderDescending\<rparr>] [IntType] (ValuesExecutor demo_plan)) (NewSortExecutor NewValuesExecutor)
       (if (None :: string option) = None then us else []) None"
    by blast
  moreover from this have "mset (map row_of us) = mset (map row_of (values_rows demo_plan))" by (metis mset_map)
  ultimately show ?thesis by (intro exI [of _ us]) (simp del: mset_map)
qed

end
