(* ===== verification/Execution_Aggregate.thy ===== *)
theory Execution_Aggregate
  imports Execution_Operators
begin

text \<open>
  Grouping and aggregation (\<open>execution/aggregate_executor.go\<close>) and the hash table keyed by rows
  (\<open>execution/hash_table.go\<close>). Both identify rows by the bytes of their storage format; the first group of
  lemmas shows that for storable values this is equality of the rows as SQL sees them. The main result relates
  a run of the executor to the groups and aggregates of the input list.
\<close>

section \<open>Plans\<close>

datatype AggregatorType = AggCount | AggSum | AggMin | AggMax

record AggregateClause =
  ac_Type :: AggregatorType
  ac_Expr :: Expr

record AggregateNode =
  an_GroupByClause :: "Expr list"
  an_AggClauses :: "AggregateClause list"
  an_outputSchema :: "Type list"

definition NewAggregateNode :: "Expr list \<Rightarrow> AggregateClause list \<Rightarrow> AggregateNode" where
  "NewAggregateNode groupBy aggregates = \<lparr>an_GroupByClause = groupBy, an_AggClauses = aggregates,
     an_outputSchema = map OutputType groupBy @ map (\<lambda>agg. OutputType (ac_Expr agg)) aggregates\<rparr>"

section \<open>The executor\<close>

record aggregateState =
  as_values :: "Value list"
  as_seen :: "bool list"

record 's AggregateState =
  ae_child :: 's
  ae_results :: "Tuple list"
  ae_pos :: int
  ae_err :: "string option"

definition NewAggregateExecutor :: "'s \<Rightarrow> 's AggregateState" where
  "NewAggregateExecutor child = \<lparr>ae_child = child, ae_results = [], ae_pos = -1, ae_err = None\<rparr>"

text \<open>One clause of one tuple: the new value and the new \<open>seen\<close> flag.\<close>

definition agg_clause :: "AggregatorType \<Rightarrow> Value \<Rightarrow> Value \<Rightarrow> bool \<Rightarrow> (Value \<times> bool) option" where
  "agg_clause ty v acc seen =
     (if v_null v then Some (acc, seen)
      else case ty of
        AggCount \<Rightarrow>
          (if \<not> seen then Some (NewIntValue 1, True)
           else do { i \<leftarrow> Value_IntValue acc; Some (NewIntValue (i + 1), seen) })
      | AggSum \<Rightarrow>
          (if \<not> seen then Some (Value_Copy v, True)
           else do { i \<leftarrow> Value_IntValue acc; j \<leftarrow> Value_IntValue v; Some (NewIntValue (i + j), seen) })
      | AggMin \<Rightarrow> do {
          b \<leftarrow> (if \<not> seen then Some True else do { c \<leftarrow> Value_Compare v acc; Some (c < 0) });
          Some (if b then (Value_Copy v, True) else (acc, seen))
        }
      | AggMax \<Rightarrow> do {
          b \<leftarrow> (if \<not> seen then Some True else do { c \<leftarrow> Value_Compare v acc; Some (c > 0) });
          Some (if b then (Value_Copy v, True) else (acc, seen))
        })"

text \<open>The loop over the clauses; the two arrays are indexed by the position of the clause.\<close>

fun agg_clauses :: "AggregateClause list \<Rightarrow> Tuple \<Rightarrow> Value list \<Rightarrow> bool list \<Rightarrow> (Value list \<times> bool list) option" where
  "agg_clauses [] t accs seens = Some (accs, seens)"
| "agg_clauses (clause # clauses) t (acc # accs) (seen # seens) = do {
     v \<leftarrow> Eval (ac_Expr clause) t;
     (acc, seen) \<leftarrow> agg_clause (ac_Type clause) v acc seen;
     (accs, seens) \<leftarrow> agg_clauses clauses t accs seens;
     Some (acc # accs, seen # seens)
   }"
| "agg_clauses (clause # clauses) t _ _ = None"

record agg_table =
  at_buffer :: bytes
  at_groups :: "bytes \<rightharpoonup> nat"
  at_groupValues :: "Value list list"
  at_states :: "aggregateState list"

text \<open>The body of the loop over the child's tuples.\<close>

definition agg_tuple :: "AggregateNode \<Rightarrow> RawTupleDesc \<Rightarrow> Tuple \<Rightarrow> agg_table \<Rightarrow> agg_table option" where
  "agg_tuple plan groupDesc t g = do {
     keyValues \<leftarrow> eval_all (an_GroupByClause plan) t;
     let keyValues = map Value_Copy keyValues;
     keyTuple \<leftarrow> WriteToBuffer (FromValues (Some keyValues)) (at_buffer g) groupDesc;
     let key = rawTuple keyTuple;
     let g = g\<lparr>at_buffer := key\<rparr>;
     let (stateIdx, g) = (case at_groups g key of
         Some stateIdx \<Rightarrow> (stateIdx, g)
       | None \<Rightarrow> (length (at_states g),
           g\<lparr>at_groups := (at_groups g)(key \<mapsto> length (at_states g)),
             at_states := at_states g @ [\<lparr>as_values = replicate (length (an_AggClauses plan)) zeroValue,
                as_seen = replicate (length (an_AggClauses plan)) False\<rparr>],
             at_groupValues := at_groupValues g @ [keyValues]\<rparr>));
     state \<leftarrow> idx (at_states g) stateIdx;
     (vs, seen) \<leftarrow> agg_clauses (an_AggClauses plan) t (as_values state) (as_seen state);
     Some (g\<lparr>at_states := (at_states g)[stateIdx := \<lparr>as_values = vs, as_seen = seen\<rparr>]\<rparr>)
   }"

partial_function (option) agg_loop :: "'s Executor \<Rightarrow> AggregateNode \<Rightarrow> RawTupleDesc \<Rightarrow> 's \<Rightarrow> agg_table \<Rightarrow> (agg_table \<times> 's) option" where
  "agg_loop E plan groupDesc c g = do {
     (b, c') \<leftarrow> ex_Next E c;
     (if \<not> b then Some (g, c')
      else do {
        t \<leftarrow> ex_Current E c';
        g \<leftarrow> agg_tuple plan groupDesc t g;
        agg_loop E plan groupDesc c' g
      })
   }"

fun agg_output :: "AggregateClause list \<Rightarrow> Value list \<Rightarrow> bool list \<Rightarrow> Value list option" where
  "agg_output [] accs seens = Some []"
| "agg_output (clause # clauses) (acc # accs) (seen # seens) = do {
     out \<leftarrow> agg_output clauses accs seens;
     Some ((if seen then Value_Copy acc else if ac_Type clause = AggCount then NewIntValue 0 else NewNullInt) # out)
   }"
| "agg_output (clause # clauses) _ _ = None"

fun agg_results :: "AggregateNode \<Rightarrow> Value list list \<Rightarrow> aggregateState list \<Rightarrow> Tuple list option" where
  "agg_results plan groupValues [] = Some []"
| "agg_results plan (kv # groupValues) (state # states) = do {
     out \<leftarrow> agg_output (an_AggClauses plan) (as_values state) (as_seen state);
     rest \<leftarrow> agg_results plan groupValues states;
     Some (FromValues (Some (kv @ out)) # rest)
   }"
| "agg_results plan [] (state # states) = None"

definition Aggregate_Init :: "AggregateNode \<Rightarrow> 's Executor \<Rightarrow> 's AggregateState \<Rightarrow> (string option \<times> 's AggregateState) option" where
  "Aggregate_Init plan E e = do {
     let e = e\<lparr>ae_results := [], ae_pos := -1, ae_err := None\<rparr>;
     (err, c) \<leftarrow> ex_Init E (ae_child e);
     (case err of
        Some err \<Rightarrow> Some (Some err, e\<lparr>ae_child := c\<rparr>)
      | None \<Rightarrow> do {
          groupDesc \<leftarrow> NewRawTupleDesc (map OutputType (an_GroupByClause plan));
          let g = \<lparr>at_buffer = replicate (BytesPerTuple groupDesc) 0, at_groups = Map.empty, at_groupValues = [], at_states = []\<rparr>;
          (g, c) \<leftarrow> agg_loop E plan groupDesc c g;
          let e = e\<lparr>ae_child := c\<rparr>;
          (case ex_Error E c of
             Some err \<Rightarrow> Some (Some err, e\<lparr>ae_err := Some err\<rparr>)
           | None \<Rightarrow>
               (if an_GroupByClause plan = [] \<and> at_states g = [] then Some (None, e)
                else do {
                  results \<leftarrow> agg_results plan (at_groupValues g) (at_states g);
                  Some (None, e\<lparr>ae_results := results\<rparr>)
                }))
        })
   }"

definition Aggregate_Next :: "'s AggregateState \<Rightarrow> (bool \<times> 's AggregateState) option" where
  "Aggregate_Next e =
     (if ae_err e \<noteq> None then Some (False, e)
      else if ae_pos e + 1 \<ge> int (length (ae_results e)) then Some (False, e)
      else Some (True, e\<lparr>ae_pos := ae_pos e + 1\<rparr>))"

definition Aggregate_Close :: "'s Executor \<Rightarrow> 's AggregateState \<Rightarrow> (string option \<times> 's AggregateState) option" where
  "Aggregate_Close E e = do { (err, c) \<leftarrow> ex_Close E (ae_child e); Some (err, e\<lparr>ae_child := c, ae_results := []\<rparr>) }"

definition AggregateExecutor :: "AggregateNode \<Rightarrow> 's Executor \<Rightarrow> 's AggregateState Executor" where
  "AggregateExecutor plan E = \<lparr>ex_Init = Aggregate_Init plan E, ex_Next = Aggregate_Next,
     ex_Current = (\<lambda>e. buffer_at (ae_results e) (ae_pos e)), ex_Error = ae_err, ex_Close = Aggregate_Close E\<rparr>"

section \<open>The hash table\<close>

record 'v ExecutionHashTable =
  ht_table :: "bytes \<rightharpoonup> 'v"
  ht_keySchema :: RawTupleDesc
  ht_scratchBuffer :: bytes

definition NewExecutionHashTable :: "RawTupleDesc \<Rightarrow> 'v ExecutionHashTable" where
  "NewExecutionHashTable keySchema = \<lparr>ht_table = Map.empty, ht_keySchema = keySchema,
     ht_scratchBuffer = replicate (BytesPerTuple keySchema) 0\<rparr>"

definition HashTable_Insert :: "'v ExecutionHashTable \<Rightarrow> Tuple \<Rightarrow> 'v \<Rightarrow> 'v ExecutionHashTable option" where
  "HashTable_Insert ht key val = do {
     k \<leftarrow> WriteToBuffer key (ht_scratchBuffer ht) (ht_keySchema ht);
     Some (ht\<lparr>ht_scratchBuffer := rawTuple k, ht_table := (ht_table ht)(rawTuple k \<mapsto> val)\<rparr>)
   }"

definition HashTable_Get :: "'v ExecutionHashTable \<Rightarrow> Tuple \<Rightarrow> ('v option \<times> 'v ExecutionHashTable) option" where
  "HashTable_Get ht key = do {
     k \<leftarrow> WriteToBuffer key (ht_scratchBuffer ht) (ht_keySchema ht);
     Some (ht_table ht (rawTuple k), ht\<lparr>ht_scratchBuffer := rawTuple k\<rparr>)
   }"

definition HashTable_Delete :: "'v ExecutionHashTable \<Rightarrow> Tuple \<Rightarrow> 'v ExecutionHashTable option" where
  "HashTable_Delete ht key = do {
     k \<leftarrow> WriteToBuffer key (ht_scratchBuffer ht) (ht_keySchema ht);
     Some (ht\<lparr>ht_scratchBuffer := rawTuple k, ht_table := (ht_table ht)(rawTuple k := None)\<rparr>)
   }"

text \<open>\<open>Iterate\<close> visits the entries in an unspecified order, here given as the argument \<open>keys\<close>.\<close>

primrec HashTable_Iterate :: "'v ExecutionHashTable \<Rightarrow> bytes list \<Rightarrow> (Tuple \<Rightarrow> 'v \<Rightarrow> 'a \<Rightarrow> 'a) \<Rightarrow> 'a \<Rightarrow> 'a" where
  "HashTable_Iterate ht [] iter acc = acc"
| "HashTable_Iterate ht (key # keys) iter acc =
     HashTable_Iterate ht keys iter
       (case ht_table ht key of None \<Rightarrow> acc
        | Some v \<Rightarrow> iter (FromRawTuple key (ht_keySchema ht) nilRecordID) v acc)"

section \<open>Rows as keys\<close>

lemma Value_Copy_same [simp]: "sql_of (Value_Copy v) = sql_of v" "v_t (Value_Copy v) = v_t v" "v_null (Value_Copy v) = v_null v"
  by (auto simp: Value_Copy_def sql_of_def zeroValue_def)

lemma storable_Copy [simp]: "storable (Value_Copy v) = storable v"
  by (auto simp: Value_Copy_def storable_def zeroValue_def)

text \<open>Tuples whose bytes are the encoding of their values.\<close>

definition canonical :: "Tuple \<Rightarrow> bool" where
  "canonical t \<longleftrightarrow> wf_tuple t \<and> row_image t = encode_row (tuple_values t)"

lemma FromValues_row:
  assumes "\<forall>v \<in> set vs. storable v"
  shows "canonical (FromValues (Some vs))" "tuple_values (FromValues (Some vs)) = vs" "tuple_types (FromValues (Some vs)) = map v_t vs"
  using FromValues_props [OF assms] by (auto simp: canonical_def row_image_def FromValues_def)

lemma canonical_image_eq:
  assumes "canonical s" "canonical t" "tuple_types s = tuple_types t"
  shows "row_image s = row_image t \<longleftrightarrow> row_of s = row_of t"
  using assms encode_row_eq_iff [of "tuple_values s" "tuple_values t"] tuple_values_props
  unfolding canonical_def row_of_def by (metis (no_types, lifting))

lemma WriteToBuffer_key:
  assumes "wf_tuple t" "NewRawTupleDesc (tuple_types t) = Some d" "length buf = d_bytesPerRow d"
  shows "\<exists>k. WriteToBuffer t buf d = Some k \<and> rawTuple k = row_image t"
proof -
  have d: "wf_desc d" "d_fields d = tuple_types t" using assms(2) by (auto simp: NewRawTupleDesc_Some)
  then have "length (row_image t) = length buf" using length_image [OF assms(1)] assms(3) by (simp add: wf_desc_def)
  then have "blit 0 (row_image t) buf = row_image t" by (simp add: blit_def)
  then show ?thesis using WriteToBuffer_eq [OF assms(1) d] assms(3) by (simp add: FromRawTuple_def)
qed

section \<open>The aggregates of a list of values\<close>

abbreviation nonnull :: "Value list \<Rightarrow> Value list" where
  "nonnull vs \<equiv> filter (\<lambda>v. \<not> v_null v) vs"

text \<open>A value of the list that no value of the list precedes, in the direction of the sign.\<close>

definition extremum :: "int \<Rightarrow> Value list \<Rightarrow> sqlval \<Rightarrow> bool" where
  "extremum sg vs r \<longleftrightarrow> (\<exists>m \<in> set vs. r = sql_of m \<and> (\<forall>w \<in> set vs. sg * value_cmp m w \<le> 0))"

fun agg_value :: "AggregatorType \<Rightarrow> Value list \<Rightarrow> sqlval \<Rightarrow> bool" where
  "agg_value AggCount ns r \<longleftrightarrow> r = VInt (of_nat (length ns))"
| "agg_value AggSum ns r \<longleftrightarrow> r = (if ns = [] then VNull IntType else VInt (sum_list (map v_underlyingInt ns)))"
| "agg_value AggMin ns r \<longleftrightarrow> (if ns = [] then r = VNull IntType else extremum 1 ns r)"
| "agg_value AggMax ns r \<longleftrightarrow> (if ns = [] then r = VNull IntType else extremum (-1) ns r)"

definition tracks :: "AggregatorType \<Rightarrow> Type \<Rightarrow> Value list \<Rightarrow> Value \<Rightarrow> bool \<Rightarrow> bool" where
  "tracks ty T vs acc seen \<longleftrightarrow> seen = (nonnull vs \<noteq> []) \<and>
     (seen \<longrightarrow> \<not> v_null acc \<and> v_t acc = (if ty = AggCount then IntType else T) \<and> agg_value ty (nonnull vs) (sql_of acc))"

lemma value_cmp_sql:
  assumes "sql_of acc = sql_of m" "v_t acc = v_t m" "v_t v = v_t m" "v_t m \<noteq> DefaultType"
  shows "Value_Compare v acc = Some (value_cmp v m)"
  using Value_Compare_cong [of v v acc m] Value_Compare_total [of v m] assms by simp

lemma signed_comparator: "sg = 1 \<or> sg = -1 \<Longrightarrow> comparator (\<lambda>a b. sg * value_cmp a b) (value_of_type T)"
  using value_comparator [of T] comparator_reverse [OF value_comparator [of T]] by auto

lemma extremum_snoc:
  assumes "extremum sg vs (sql_of acc)" "sg = 1 \<or> sg = -1" "\<forall>w \<in> set (acc # v # vs). value_of_type T w"
  shows "\<exists>c. Value_Compare v acc = Some c \<and> extremum sg (vs @ [v]) (if sg * c < 0 then sql_of v else sql_of acc)"
proof -
  obtain m where m: "m \<in> set vs" "sql_of acc = sql_of m" "\<forall>w \<in> set vs. sg * value_cmp m w \<le> 0"
    using assms(1) unfolding extremum_def by blast
  have c: "Value_Compare v acc = Some (value_cmp v m)" using value_cmp_sql [of acc m v] m assms(3) by (auto simp: value_of_type_def)
  note sc = signed_comparator [OF assms(2), of T]
  have "sg * value_cmp v w \<le> 0" if "sg * value_cmp v m < 0" "w \<in> set (vs @ [v])" for w
    using that m assms(3) comparator.cmp_trans [OF sc, of v m w] comparator.cmp_refl [OF sc, of v] by auto
  moreover have "sg * value_cmp m w \<le> 0" if "\<not> sg * value_cmp v m < 0" "w \<in> set (vs @ [v])" for w
    using that m assms(3) comparator.cmp_swap [OF sc, of v m] by auto
  ultimately show ?thesis using m(1,2) c unfolding extremum_def by auto
qed

lemma sql_of_int: "v_t v = IntType \<Longrightarrow> \<not> v_null v \<Longrightarrow> sql_of v = VInt (v_underlyingInt v)"
  by (simp add: sql_of_def)

lemma NewIntValue_fields [simp]: "\<not> v_null (NewIntValue i)" "v_underlyingInt (NewIntValue i) = i" "sql_of (NewIntValue i) = VInt i"
  by (simp_all add: NewIntValue_def zeroValue_def sql_of_def)

lemma agg_clause_first:
  assumes "value_of_type T v" "\<not> v_null v" "ty = AggSum \<longrightarrow> T = IntType"
  shows "\<exists>acc'. agg_clause ty v acc False = Some (acc', True) \<and> \<not> v_null acc' \<and> v_t acc' = (if ty = AggCount then IntType else T) \<and>
    agg_value ty [v] (sql_of acc')"
proof -
  have "value_cmp v v = 0" using comparator.cmp_refl [OF value_comparator assms(1)] .
  then show ?thesis using assms by (cases ty) (auto simp: agg_clause_def value_of_type_def sql_of_int extremum_def)
qed

lemma agg_clause_next:
  assumes "\<not> v_null acc" "v_t acc = (if ty = AggCount then IntType else T)" "agg_value ty ns (sql_of acc)" "ns \<noteq> []"
    "value_of_type T v" "\<not> v_null v" "\<forall>w \<in> set ns. value_of_type T w" "ty = AggSum \<longrightarrow> T = IntType"
  shows "\<exists>acc'. agg_clause ty v acc True = Some (acc', True) \<and> \<not> v_null acc' \<and> v_t acc' = (if ty = AggCount then IntType else T) \<and>
    agg_value ty (ns @ [v]) (sql_of acc')"
proof (cases ty)
  case AggCount
  then show ?thesis using assms by (simp add: agg_clause_def value_reads sql_of_int add.commute)
next
  case AggSum
  then show ?thesis using assms by (simp add: agg_clause_def value_reads sql_of_int value_of_type_def)
next
  case AggMin
  then show ?thesis using assms extremum_snoc [of 1 ns acc v T] by (auto simp: agg_clause_def value_of_type_def)
next
  case AggMax
  then show ?thesis using assms extremum_snoc [of "-1" ns acc v T] by (auto simp: agg_clause_def value_of_type_def)
qed

lemma agg_clause_tracks:
  assumes "tracks ty T vs acc seen" "value_of_type T v" "\<forall>w \<in> set vs. value_of_type T w" "ty = AggSum \<longrightarrow> T = IntType"
  shows "\<exists>acc' seen'. agg_clause ty v acc seen = Some (acc', seen') \<and> tracks ty T (vs @ [v]) acc' seen'"
proof (cases "v_null v")
  case True
  then show ?thesis using assms(1) by (simp add: agg_clause_def tracks_def)
next
  case False
  show ?thesis
  proof (cases seen)
    case True
    then show ?thesis using agg_clause_next [of acc ty T "nonnull vs" v] assms False by (auto simp: tracks_def)
  next
    case unseen: False
    then show ?thesis using agg_clause_first [OF assms(2) False assms(4), of acc] assms(1) False by (auto simp: tracks_def)
  qed
qed

section \<open>The table of groups\<close>

definition clause_ok :: "Tuple \<Rightarrow> AggregateClause \<Rightarrow> bool" where
  "clause_ok t cl \<longleftrightarrow> (\<exists>v. Eval (ac_Expr cl) t = Some v \<and> value_of_type (OutputType (ac_Expr cl)) v) \<and>
     (ac_Type cl = AggSum \<longrightarrow> OutputType (ac_Expr cl) = IntType)"

definition arg_of :: "AggregateClause \<Rightarrow> Tuple \<Rightarrow> Value" where
  "arg_of cl t = the (Eval (ac_Expr cl) t)"

fun state_tracks :: "AggregateClause list \<Rightarrow> Tuple list \<Rightarrow> Value list \<Rightarrow> bool list \<Rightarrow> bool" where
  "state_tracks [] ts [] [] \<longleftrightarrow> True"
| "state_tracks (cl # cls) ts (acc # accs) (seen # seens) \<longleftrightarrow>
     tracks (ac_Type cl) (OutputType (ac_Expr cl)) (map (arg_of cl) ts) acc seen \<and> state_tracks cls ts accs seens"
| "state_tracks _ _ _ _ \<longleftrightarrow> False"

lemma state_tracks_init: "state_tracks cls [] (replicate (length cls) zeroValue) (replicate (length cls) False)"
  by (induction cls) (simp_all add: tracks_def)

lemma agg_clauses_tracks:
  assumes "\<forall>u \<in> set (t # ts). \<forall>cl \<in> set cls. clause_ok u cl" "state_tracks cls ts accs seens"
  shows "\<exists>accs' seens'. agg_clauses cls t accs seens = Some (accs', seens') \<and> state_tracks cls (ts @ [t]) accs' seens'"
  using assms
proof (induction cls ts accs seens rule: state_tracks.induct)
  case (2 cl cls ts acc accs seen seens)
  have ok: "\<forall>u \<in> set (t # ts). clause_ok u cl" using 2(2) by simp
  then obtain v where v: "Eval (ac_Expr cl) t = Some v" "value_of_type (OutputType (ac_Expr cl)) v" by (auto simp: clause_ok_def)
  have sum: "ac_Type cl = AggSum \<longrightarrow> OutputType (ac_Expr cl) = IntType" using ok by (auto simp: clause_ok_def)
  have args: "\<forall>w \<in> set (map (arg_of cl) ts). value_of_type (OutputType (ac_Expr cl)) w"
    using ok by (force simp: clause_ok_def arg_of_def)
  obtain acc' seen' where one: "agg_clause (ac_Type cl) v acc seen = Some (acc', seen')"
    "tracks (ac_Type cl) (OutputType (ac_Expr cl)) (map (arg_of cl) ts @ [v]) acc' seen'"
    using agg_clause_tracks [OF _ v(2) args sum, of acc seen] 2(3) by auto
  obtain accs' seens' where "agg_clauses cls t accs seens = Some (accs', seens')" "state_tracks cls (ts @ [t]) accs' seens'"
    using 2(1) 2(2,3) by auto
  then show ?case using one v(1) by (simp add: arg_of_def)
qed simp_all

definition firsts :: "'a list \<Rightarrow> 'a list" where
  "firsts xs = fold (\<lambda>x acc. if x \<in> set acc then acc else acc @ [x]) xs []"

lemma firsts_snoc: "firsts (xs @ [x]) = (if x \<in> set (firsts xs) then firsts xs else firsts xs @ [x])"
  by (simp add: firsts_def)

lemma firsts_props [simp]: "firsts [] = []" "set (firsts xs) = set xs" "distinct (firsts xs)"
proof -
  show "firsts [] = []" by (simp add: firsts_def)
  then show "set (firsts xs) = set xs" by (induction xs rule: rev_induct) (auto simp: firsts_snoc)
  show "distinct (firsts xs)"
  proof (induction xs rule: rev_induct)
    case Nil
    then show ?case by (simp add: firsts_def)
  qed (auto simp: firsts_snoc)
qed

definition group_key :: "AggregateNode \<Rightarrow> Tuple \<Rightarrow> sqlval list" where
  "group_key plan t = map sql_of (the (eval_all (an_GroupByClause plan) t))"

definition key_values :: "AggregateNode \<Rightarrow> Value list \<Rightarrow> bool" where
  "key_values plan vs \<longleftrightarrow> map v_t vs = map OutputType (an_GroupByClause plan) \<and> (\<forall>v \<in> set vs. storable v)"

definition agg_ok :: "AggregateNode \<Rightarrow> Tuple \<Rightarrow> bool" where
  "agg_ok plan t \<longleftrightarrow> (\<exists>vs. eval_all (an_GroupByClause plan) t = Some vs \<and> key_values plan vs) \<and>
     (\<forall>cl \<in> set (an_AggClauses plan). clause_ok t cl)"

text \<open>The table after the tuples \<open>ps\<close>, with the groups \<open>ks\<close> in this order.\<close>

definition table_inv :: "AggregateNode \<Rightarrow> RawTupleDesc \<Rightarrow> sqlval list list \<Rightarrow> Tuple list \<Rightarrow> agg_table \<Rightarrow> bool" where
  "table_inv plan d ks ps g \<longleftrightarrow> distinct ks \<and> length (at_buffer g) = d_bytesPerRow d \<and> map (map sql_of) (at_groupValues g) = ks \<and>
     list_all2 (\<lambda>k st. state_tracks (an_AggClauses plan) (filter (\<lambda>t. group_key plan t = k) ps) (as_values st) (as_seen st)) ks (at_states g) \<and>
     (\<forall>vs i. key_values plan vs \<longrightarrow> at_groups g (encode_row vs) = Some i \<longleftrightarrow> i < length ks \<and> ks ! i = map sql_of vs)"

text \<open>Entering a new group, and the update of a group by a tuple.\<close>

definition enter_group :: "AggregateNode \<Rightarrow> bytes \<Rightarrow> Value list \<Rightarrow> agg_table \<Rightarrow> nat \<times> agg_table" where
  "enter_group plan key kv g = (case at_groups g key of
         Some stateIdx \<Rightarrow> (stateIdx, g)
       | None \<Rightarrow> (length (at_states g),
           g\<lparr>at_groups := (at_groups g)(key \<mapsto> length (at_states g)),
             at_states := at_states g @ [\<lparr>as_values = replicate (length (an_AggClauses plan)) zeroValue,
                as_seen = replicate (length (an_AggClauses plan)) False\<rparr>],
             at_groupValues := at_groupValues g @ [kv]\<rparr>))"

lemma agg_tuple_eq:
  "agg_tuple plan d t g = do {
     kv \<leftarrow> eval_all (an_GroupByClause plan) t;
     k \<leftarrow> WriteToBuffer (FromValues (Some (map Value_Copy kv))) (at_buffer g) d;
     let (i, g) = enter_group plan (rawTuple k) (map Value_Copy kv) (g\<lparr>at_buffer := rawTuple k\<rparr>);
     state \<leftarrow> idx (at_states g) i;
     (vs, seen) \<leftarrow> agg_clauses (an_AggClauses plan) t (as_values state) (as_seen state);
     Some (g\<lparr>at_states := (at_states g)[i := \<lparr>as_values = vs, as_seen = seen\<rparr>]\<rparr>)
   }"
  by (simp add: agg_tuple_def enter_group_def Let_def)

lemma table_inv_states:
  assumes "table_inv plan d ks ps g"
  shows "length (at_states g) = length ks"
    "i < length ks \<Longrightarrow> state_tracks (an_AggClauses plan) (filter (\<lambda>t. group_key plan t = ks ! i) ps) (as_values (at_states g ! i)) (as_seen (at_states g ! i))"
proof -
  have "list_all2 (\<lambda>k st. state_tracks (an_AggClauses plan) (filter (\<lambda>t. group_key plan t = k) ps) (as_values st) (as_seen st)) ks (at_states g)"
    using assms unfolding table_inv_def by blast
  note l = this [unfolded list_all2_conv_all_nth]
  show "length (at_states g) = length ks" using l by simp
  show "state_tracks (an_AggClauses plan) (filter (\<lambda>t. group_key plan t = ks ! i) ps) (as_values (at_states g ! i)) (as_seen (at_states g ! i))"
    if "i < length ks" using l that by blast
qed

lemma enter_group_inv:
  assumes "table_inv plan d ks ps g" "key_values plan kv" "\<forall>p \<in> set ps. group_key plan p \<in> set ks"
    "ks' = (if map sql_of kv \<in> set ks then ks else ks @ [map sql_of kv])"
  shows "\<exists>i g'. enter_group plan (encode_row kv) kv g = (i, g') \<and> table_inv plan d ks' ps g' \<and> i < length ks' \<and> ks' ! i = map sql_of kv"
proof (cases "at_groups g (encode_row kv)")
  case (Some i)
  then have "i < length ks" "ks ! i = map sql_of kv" using assms(1,2) unfolding table_inv_def by blast+
  moreover from this have "map sql_of kv \<in> set ks" by (metis nth_mem)
  ultimately show ?thesis using assms(1,4) Some by (simp add: enter_group_def)
next
  case None
  then have "ks ! i \<noteq> map sql_of kv" if "i < length ks" for i
    using assms(1,2) that unfolding table_inv_def by force
  then have new: "map sql_of kv \<notin> set ks" by (auto simp: in_set_conv_nth)
  then have ks': "ks' = ks @ [map sql_of kv]" using assms(4) by simp
  note len = table_inv_states(1) [OF assms(1)]
  have none: "filter (\<lambda>t. group_key plan t = map sql_of kv) ps = []" using assms(3) new by (auto simp: filter_empty_conv)
  let ?g = "snd (enter_group plan (encode_row kv) kv g)"
  have lookup: "at_groups ?g (encode_row vs) = Some i \<longleftrightarrow> i < length ks' \<and> ks' ! i = map sql_of vs" if "key_values plan vs" for vs i
  proof (cases "encode_row vs = encode_row kv")
    case True
    then have "map sql_of vs = map sql_of kv" using encode_row_eq_iff [of vs kv] that assms(2) by (simp add: key_values_def)
    then show ?thesis using True None new len ks' by (auto simp: enter_group_def nth_append in_set_conv_nth)
  next
    case False
    then have "map sql_of vs \<noteq> map sql_of kv" using encode_row_eq_iff [of vs kv] that assms(2) by (simp add: key_values_def)
    then show ?thesis using False None that assms(1) ks' by (auto simp: enter_group_def nth_append table_inv_def)
  qed
  have "table_inv plan d ks' ps ?g"
    unfolding table_inv_def using lookup assms(1) None new ks' none state_tracks_init
    by (auto simp: enter_group_def table_inv_def list_all2_appendI)
  then show ?thesis using None len ks' by (simp add: enter_group_def)
qed

lemma update_group_inv:
  assumes "table_inv plan d ks ps g" "i < length ks" "ks ! i = group_key plan t" "state_tracks (an_AggClauses plan)
      (filter (\<lambda>u. group_key plan u = ks ! i) ps @ [t]) vs seen"
  shows "table_inv plan d ks (ps @ [t]) (g\<lparr>at_states := (at_states g)[i := \<lparr>as_values = vs, as_seen = seen\<rparr>]\<rparr>)"
proof -
  have dist: "distinct ks" using assms(1) unfolding table_inv_def by blast
  have other: "ks ! j \<noteq> group_key plan t" if "j < length ks" "j \<noteq> i" for j
    using that assms(2) nth_eq_iff_index_eq [OF dist, of j i] by (simp add: assms(3) [symmetric])
  note st = table_inv_states [OF assms(1)]
  have "list_all2 (\<lambda>k st. state_tracks (an_AggClauses plan) (filter (\<lambda>t. group_key plan t = k) (ps @ [t])) (as_values st) (as_seen st)) ks
      ((at_states g)[i := \<lparr>as_values = vs, as_seen = seen\<rparr>])"
    unfolding list_all2_conv_all_nth
  proof (intro conjI allI impI)
    fix j assume j: "j < length ks"
    show "state_tracks (an_AggClauses plan) (filter (\<lambda>t. group_key plan t = ks ! j) (ps @ [t]))
       (as_values ((at_states g)[i := \<lparr>as_values = vs, as_seen = seen\<rparr>] ! j)) (as_seen ((at_states g)[i := \<lparr>as_values = vs, as_seen = seen\<rparr>] ! j))"
      using st(1) st(2) [OF j] assms(2-4) other [OF j] j by (cases "j = i") auto
  qed (simp add: st(1))
  then show ?thesis using assms(1) unfolding table_inv_def by simp
qed

lemma agg_tuple_inv:
  assumes "table_inv plan d (firsts (map (group_key plan) ps)) ps g" "\<forall>u \<in> set (t # ps). agg_ok plan u"
    "NewRawTupleDesc (map OutputType (an_GroupByClause plan)) = Some d"
  shows "\<exists>g'. agg_tuple plan d t g = Some g' \<and> table_inv plan d (firsts (map (group_key plan) (ps @ [t]))) (ps @ [t]) g'"
proof -
  let ?ks = "firsts (map (group_key plan) (ps @ [t]))"
  obtain vs where vs: "eval_all (an_GroupByClause plan) t = Some vs" "key_values plan vs" using assms(2) by (auto simp: agg_ok_def)
  let ?kv = "map Value_Copy vs"
  have key: "map sql_of ?kv = group_key plan t" using vs(1) by (simp add: group_key_def comp_def)
  have kv: "key_values plan ?kv" using vs(2) by (simp add: key_values_def comp_def)
  then have stor: "\<forall>v \<in> set ?kv. storable v" by (simp add: key_values_def)
  have "tuple_types (FromValues (Some ?kv)) = map OutputType (an_GroupByClause plan)"
    using FromValues_row(3) [OF stor] kv by (simp add: key_values_def)
  then obtain k where k: "WriteToBuffer (FromValues (Some ?kv)) (at_buffer g) d = Some k" "rawTuple k = encode_row ?kv"
    using WriteToBuffer_key [of "FromValues (Some ?kv)" d "at_buffer g"] FromValues_row(1,2) [OF stor] assms(1,3)
    by (auto simp: canonical_def table_inv_def)
  have len: "length (encode_row ?kv) = d_bytesPerRow d"
    using length_encode_row [OF stor] kv assms(3) by (simp add: key_values_def NewRawTupleDesc_Some wf_desc_def)
  have "table_inv plan d (firsts (map (group_key plan) ps)) ps (g\<lparr>at_buffer := rawTuple k\<rparr>)"
    using assms(1) len k(2) by (simp add: table_inv_def)
  moreover have "\<forall>p \<in> set ps. group_key plan p \<in> set (firsts (map (group_key plan) ps))" by simp
  moreover have "?ks = (if map sql_of ?kv \<in> set (firsts (map (group_key plan) ps)) then firsts (map (group_key plan) ps)
      else firsts (map (group_key plan) ps) @ [map sql_of ?kv])" unfolding key by (simp add: firsts_snoc)
  ultimately have "\<exists>i g'. enter_group plan (encode_row ?kv) ?kv (g\<lparr>at_buffer := rawTuple k\<rparr>) = (i, g') \<and> table_inv plan d ?ks ps g' \<and>
      i < length ?ks \<and> ?ks ! i = map sql_of ?kv" using enter_group_inv [OF _ kv] by blast
  then obtain i g' where g': "enter_group plan (rawTuple k) ?kv (g\<lparr>at_buffer := rawTuple k\<rparr>) = (i, g')"
    "table_inv plan d ?ks ps g'" "i < length ?ks" "?ks ! i = group_key plan t"
    unfolding key k(2) by blast
  have st: "state_tracks (an_AggClauses plan) (filter (\<lambda>u. group_key plan u = ?ks ! i) ps) (as_values (at_states g' ! i)) (as_seen (at_states g' ! i))"
    "i < length (at_states g')" using table_inv_states [OF g'(2)] g'(3) by simp_all
  have "\<forall>u \<in> set (t # filter (\<lambda>u. group_key plan u = ?ks ! i) ps). \<forall>cl \<in> set (an_AggClauses plan). clause_ok u cl"
    using assms(2) by (auto simp: agg_ok_def)
  from agg_clauses_tracks [OF this st(1)] obtain ws seen where
    "agg_clauses (an_AggClauses plan) t (as_values (at_states g' ! i)) (as_seen (at_states g' ! i)) = Some (ws, seen)"
    "state_tracks (an_AggClauses plan) (filter (\<lambda>u. group_key plan u = ?ks ! i) ps @ [t]) ws seen" by blast
  then show ?thesis using update_group_inv [OF g'(2-4)] vs(1) k(1) g'(1) st(2) by (auto simp: agg_tuple_eq)
qed

lemma agg_loop_inv:
  assumes "produces E c ts err" "\<forall>u \<in> set (ps @ ts). agg_ok plan u"
    "NewRawTupleDesc (map OutputType (an_GroupByClause plan)) = Some d" "table_inv plan d (firsts (map (group_key plan) ps)) ps g"
  shows "\<exists>g' c'. agg_loop E plan d c g = Some (g', c') \<and> ex_Error E c' = err \<and>
    table_inv plan d (firsts (map (group_key plan) (ps @ ts))) (ps @ ts) g'"
  using assms(1,2,4)
proof (induction arbitrary: ps g rule: produces.induct)
  case (exhausted s s' err)
  then show ?case by (simp add: agg_loop.simps [of E plan d s])
next
  case (yield_tuple s s' t ts err)
  obtain g' where g': "agg_tuple plan d t g = Some g'" "table_inv plan d (firsts (map (group_key plan) (ps @ [t]))) (ps @ [t]) g'"
    using agg_tuple_inv [OF yield_tuple.prems(2) _ assms(3), of t] yield_tuple.prems(1) by auto
  have "agg_loop E plan d s g = agg_loop E plan d s' g'"
    using yield_tuple.hyps(1,2) g'(1) by (simp add: agg_loop.simps [of E plan d s])
  then show ?case using yield_tuple.IH [OF _ g'(2)] yield_tuple.prems(1) by simp
qed

section \<open>The results\<close>

text \<open>A result row: the key of the group and one value per clause.\<close>

definition group_row :: "AggregateNode \<Rightarrow> Tuple list \<Rightarrow> sqlval list \<Rightarrow> sqlval list \<Rightarrow> bool" where
  "group_row plan ts k r \<longleftrightarrow> (\<exists>as. r = k @ as \<and>
     list_all2 (\<lambda>cl a. agg_value (ac_Type cl) (nonnull (map (arg_of cl) (filter (\<lambda>t. group_key plan t = k) ts))) a) (an_AggClauses plan) as)"

lemma agg_output_tracks:
  assumes "state_tracks cls ts accs seens"
  shows "\<exists>out. agg_output cls accs seens = Some out \<and> list_all2 (\<lambda>cl a. agg_value (ac_Type cl) (nonnull (map (arg_of cl) ts)) a) cls (map sql_of out)"
  using assms
proof (induction cls ts accs seens rule: state_tracks.induct)
  case (2 cl cls ts acc accs seen seens)
  then obtain out where out: "agg_output cls accs seens = Some out"
    "list_all2 (\<lambda>cl a. agg_value (ac_Type cl) (nonnull (map (arg_of cl) ts)) a) cls (map sql_of out)" by auto
  have tr: "tracks (ac_Type cl) (OutputType (ac_Expr cl)) (map (arg_of cl) ts) acc seen" using 2 by simp
  have null: "sql_of NewNullInt = VNull IntType" by (simp add: NewNullInt_def zeroValue_def sql_of_def)
  show ?case
  proof (cases seen)
    case True
    then show ?thesis using out tr by (simp add: tracks_def)
  next
    case False
    then have "nonnull (map (arg_of cl) ts) = []" using tr by (simp add: tracks_def)
    then show ?thesis using out False null by (cases "ac_Type cl") simp_all
  qed
qed simp_all

lemma agg_results_rows:
  assumes "list_all2 (\<lambda>k st. state_tracks (an_AggClauses plan) (filter (\<lambda>t. group_key plan t = k) ts) (as_values st) (as_seen st)) ks states"
    "map (map sql_of) gvs = ks"
  shows "\<exists>rs. agg_results plan gvs states = Some rs \<and> list_all2 (group_row plan ts) ks (map row_of rs)"
  using assms
proof (induction arbitrary: gvs rule: list_all2_induct)
  case (Cons k ks st states)
  obtain kv rest where gvs: "gvs = kv # rest" "map sql_of kv = k" "map (map sql_of) rest = ks" using Cons.prems by (cases gvs) auto
  obtain rs where rs: "agg_results plan rest states = Some rs" "list_all2 (group_row plan ts) ks (map row_of rs)"
    using Cons.IH [OF gvs(3)] by blast
  obtain out where "agg_output (an_AggClauses plan) (as_values st) (as_seen st) = Some out"
    "list_all2 (\<lambda>cl a. agg_value (ac_Type cl) (nonnull (map (arg_of cl) (filter (\<lambda>t. group_key plan t = k) ts))) a) (an_AggClauses plan) (map sql_of out)"
    using agg_output_tracks [OF Cons.hyps(1)] by blast
  moreover have "row_of (FromValues (Some (kv @ out))) = k @ map sql_of out"
    using gvs(2) by (simp add: row_of_def tuple_values_def FromValues_def phys_types_def)
  ultimately have "agg_results plan gvs (st # states) = Some (FromValues (Some (kv @ out)) # rs)"
    "group_row plan ts k (row_of (FromValues (Some (kv @ out))))"
    using gvs(1) rs(1) by (auto simp: group_row_def)
  then show ?case using rs(2) by simp
qed simp

interpretation agg_cursor: buffered_executor "AggregateExecutor plan E" ae_results ae_pos "\<lambda>e. ae_err e = None" for plan E
  by unfold_locales (auto simp: AggregateExecutor_def Aggregate_Next_def buffer_at_def)

text \<open>The hash table is a map from the rows of canonical keys.\<close>

definition ht_lookup :: "'v ExecutionHashTable \<Rightarrow> Tuple \<Rightarrow> 'v option" where
  "ht_lookup ht key = ht_table ht (row_image key)"

definition ht_ok :: "'v ExecutionHashTable \<Rightarrow> bool" where
  "ht_ok ht \<longleftrightarrow> wf_desc (ht_keySchema ht) \<and> length (ht_scratchBuffer ht) = d_bytesPerRow (ht_keySchema ht)"

definition ht_key :: "'v ExecutionHashTable \<Rightarrow> Tuple \<Rightarrow> bool" where
  "ht_key ht key \<longleftrightarrow> canonical key \<and> tuple_types key = d_fields (ht_keySchema ht)"

lemma HashTable_write:
  assumes "ht_ok ht" "ht_key ht key"
  shows "\<exists>k. WriteToBuffer key (ht_scratchBuffer ht) (ht_keySchema ht) = Some k \<and> rawTuple k = row_image key \<and>
    length (row_image key) = d_bytesPerRow (ht_keySchema ht)"
  using assms WriteToBuffer_key [of key "ht_keySchema ht" "ht_scratchBuffer ht"] length_image [of key]
  by (auto simp: ht_ok_def ht_key_def canonical_def NewRawTupleDesc_Some wf_desc_def)

lemma HashTable_Insert_lookup:
  assumes "ht_ok ht" "ht_key ht key"
  shows "\<exists>ht'. HashTable_Insert ht key v = Some ht' \<and> ht_ok ht' \<and> ht_keySchema ht' = ht_keySchema ht \<and>
    (\<forall>key'. ht_key ht key' \<longrightarrow> ht_lookup ht' key' = (if row_of key' = row_of key then Some v else ht_lookup ht key'))"
  using HashTable_write [OF assms] assms canonical_image_eq
  by (auto simp: HashTable_Insert_def ht_ok_def ht_lookup_def ht_key_def)

lemma HashTable_Get_lookup:
  assumes "ht_ok ht" "ht_key ht key"
  shows "\<exists>ht'. HashTable_Get ht key = Some (ht_lookup ht key, ht') \<and> ht_ok ht' \<and> ht_table ht' = ht_table ht"
  using HashTable_write [OF assms] assms by (auto simp: HashTable_Get_def ht_ok_def ht_lookup_def)

lemma HashTable_Delete_lookup:
  assumes "ht_ok ht" "ht_key ht key"
  shows "\<exists>ht'. HashTable_Delete ht key = Some ht' \<and> ht_ok ht' \<and> ht_keySchema ht' = ht_keySchema ht \<and>
    (\<forall>key'. ht_key ht key' \<longrightarrow> ht_lookup ht' key' = (if row_of key' = row_of key then None else ht_lookup ht key'))"
  using HashTable_write [OF assms] assms canonical_image_eq
  by (auto simp: HashTable_Delete_def ht_ok_def ht_lookup_def ht_key_def)

section \<open>Properties\<close>

text \<open>C25: Aggregation computes GROUP BY: on a child that produces well-typed tuples with storable group
  keys, a run yields exactly one row per distinct key, in the order in which the keys first appear; each row
  holds the key followed by, for every clause, the count, wrap-around sum, minimum or maximum of the non-null
  values of its expression over the tuples of that group (0 or NULL when there are none). If the child fails,
  \<open>Init\<close> returns the child's error.\<close>

theorem AggregateExecutor_groups:
  assumes "ex_Init E (ae_child s) = Some (None, c)" "produces E c ts err" "\<forall>t \<in> set ts. agg_ok plan t"
    "NewRawTupleDesc (map OutputType (an_GroupByClause plan)) = Some d"
  shows "(case err of
      None \<Rightarrow> \<exists>rs. runs (AggregateExecutor plan E) s rs None \<and>
        list_all2 (group_row plan ts) (firsts (map (group_key plan) ts)) (map row_of rs)
    | Some e \<Rightarrow> \<exists>s'. ex_Init (AggregateExecutor plan E) s = Some (Some e, s'))"
proof -
  let ?g = "\<lparr>at_buffer = replicate (BytesPerTuple d) 0, at_groups = Map.empty, at_groupValues = [], at_states = []\<rparr>"
  have "table_inv plan d (firsts (map (group_key plan) [])) [] ?g" by (simp add: table_inv_def BytesPerTuple_def)
  then obtain g c' where g: "agg_loop E plan d c ?g = Some (g, c')" "ex_Error E c' = err"
    "table_inv plan d (firsts (map (group_key plan) ts)) ts g"
    using agg_loop_inv [OF assms(2) _ assms(4), of "[]" ?g] assms(3) by auto
  obtain rs where rs: "agg_results plan (at_groupValues g) (at_states g) = Some rs"
    "list_all2 (group_row plan ts) (firsts (map (group_key plan) ts)) (map row_of rs)"
    using agg_results_rows [of plan ts "firsts (map (group_key plan) ts)" "at_states g" "at_groupValues g"] g(3)
    unfolding table_inv_def by blast
  show ?thesis
  proof (cases err)
    case None
    have none: "rs = []" if "at_states g = []" using rs(1) that by simp
    let ?s = "s\<lparr>ae_results := rs, ae_pos := -1, ae_err := None, ae_child := c'\<rparr>"
    have "ex_Init (AggregateExecutor plan E) s = Some (None, ?s)"
      using assms(1,4) g(1,2) None rs(1) none by (auto simp: AggregateExecutor_def Aggregate_Init_def Let_def)
    moreover have "produces (AggregateExecutor plan E) ?s rs None" using agg_cursor.buffered_produces [of ?s plan E] by simp
    ultimately show ?thesis using None rs(2) by (auto simp: runs_def)
  next
    case (Some e)
    then show ?thesis using assms(1,4) g(1,2) by (simp add: AggregateExecutor_def Aggregate_Init_def Let_def)
  qed
qed

definition demo_agg :: AggregateNode where
  "demo_agg = NewAggregateNode [demo_column] [\<lparr>ac_Type = AggCount, ac_Expr = demo_column\<rparr>, \<lparr>ac_Type = AggMax, ac_Expr = demo_column\<rparr>]"

lemma demo_agg_ok:
  assumes "t \<in> set (values_rows demo_plan)"
  shows "agg_ok demo_agg t"
proof -
  obtain i where "t = FromValues (Some [NewIntValue i])" "i \<noteq> MinInt64"
    using assms by (auto simp: demo_rows(2))
  then have "Eval demo_column t = Some (NewIntValue i)" "storable (NewIntValue i)"
    by (simp_all add: demo_column_def Tuple_GetValue_def NumColumns_def FromValues_def NewIntValue_def zeroValue_def storable_def)
  then show ?thesis
    using demo_typed(3) by (simp add: agg_ok_def demo_agg_def NewAggregateNode_def key_values_def clause_ok_def value_of_type_def)
qed

theorem AggregateExecutor_groups_witness:
  "\<exists>rs. runs (AggregateExecutor demo_agg (ValuesExecutor demo_plan)) (NewAggregateExecutor NewValuesExecutor) rs None \<and>
    list_all2 (group_row demo_agg (values_rows demo_plan)) (firsts (map (group_key demo_agg) (values_rows demo_plan))) (map row_of rs)"
proof -
  have d: "NewRawTupleDesc (map OutputType (an_GroupByClause demo_agg)) = Some \<lparr>d_fields = [IntType], d_offsets = [0], d_bytesPerRow = 8\<rparr>"
    by (simp add: demo_agg_def NewAggregateNode_def demo_typed(3) NewRawTupleDesc_def AlignedTo8_def)
  obtain c where "ex_Init (ValuesExecutor demo_plan) (ae_child (NewAggregateExecutor NewValuesExecutor)) = Some (None, c)"
    "produces (ValuesExecutor demo_plan) c (values_rows demo_plan) None"
    using Values_runs [OF demo_rows(1)] unfolding runs_def by blast
  from AggregateExecutor_groups [OF this _ d] demo_agg_ok show ?thesis by simp
qed

end
