(* ===== verification/Catalog.thy ===== *)
theory Catalog
  imports Common_Types "HOL-Library.Multiset"
begin

text \<open>
  The catalog (\<open>catalog/catalog.go\<close>): tables, columns and indexes with their object identifiers, the lookup maps by
  table and by column name, and the persistence of the catalog as a JSON document.

  A pointer to a table is its position in \<open>Tables\<close>, which only grows; \<open>AddIndex\<close> changes a table through such a
  pointer. The embedding of \<open>catalogState\<close> in \<open>Catalog\<close> is a record extension. A JSON document is its tree of values:
  the text form and the formatting are those of \<open>encoding/json\<close>. Its decoder ignores unknown keys, leaves the zero
  value for a missing key or \<open>null\<close>, and rejects a value of another kind or out of range; column types are small integers,
  and every number that is no known type behaves as the default type does. A \<open>null\<close> table is a nil pointer, which
  panics (\<open>None\<close>).

  The theorems show which identifiers and lookups the catalog keeps, that a saved catalog is loaded back as it was, and
  what a failed save leaves behind.
\<close>

section \<open>Data\<close>

record Column =
  col_Name :: string
  col_Type :: Type

record Index =
  ix_Oid :: ObjectID
  ix_TableOid :: ObjectID
  ix_Name :: string
  ix_Type :: string
  ix_KeySchema :: "string list"

record Table =
  tb_Oid :: ObjectID
  tb_Name :: string
  tb_Columns :: "Column list"
  tb_Indexes :: "Index list"

record catalogState =
  NextId :: uint32
  Tables :: "Table list"

record Catalog = catalogState +
  tableMap :: "string \<rightharpoonup> nat"
  columnMap :: "string \<Rightarrow> nat list"

section \<open>JSON documents\<close>

datatype json = JNull | JNum int | JStr string | JArr "json list" | JObj "(string \<times> json) list"

fun type_json :: "Type \<Rightarrow> json" where
  "type_json DefaultType = JNum 0"
| "type_json IntType = JNum 1"
| "type_json StringType = JNum 2"

definition column_json :: "Column \<Rightarrow> json" where
  "column_json c = JObj [(''name'', JStr (col_Name c)), (''type'', type_json (col_Type c))]"

definition index_json :: "Index \<Rightarrow> json" where
  "index_json i = JObj [(''oid'', JNum (uint (ix_Oid i))), (''table_oid'', JNum (uint (ix_TableOid i))), (''name'', JStr (ix_Name i)),
     (''type'', JStr (ix_Type i)), (''key_schema'', JArr (map JStr (ix_KeySchema i)))]"

definition table_json :: "Table \<Rightarrow> json" where
  "table_json t = JObj [(''oid'', JNum (uint (tb_Oid t))), (''name'', JStr (tb_Name t)),
     (''columns'', JArr (map column_json (tb_Columns t))), (''indexes'', JArr (map index_json (tb_Indexes t)))]"

text \<open>The saved document. A string is carried as it is: the encoder of the code replaces bytes that are not UTF-8, so names are
  taken to be UTF-8 text.\<close>

definition toJSON :: "'a catalogState_scheme \<Rightarrow> json" where
  "toJSON c = JObj [(''next_id'', JNum (uint (NextId c))), (''tables'', JArr (map table_json (Tables c)))]"

text \<open>The decoder: the last of equal keys wins.\<close>

definition json_field :: "string \<Rightarrow> (json \<Rightarrow> 'a option) \<Rightarrow> 'a \<Rightarrow> (string \<times> json) list \<Rightarrow> 'a option" where
  "json_field key dec zero kvs =
     (case map_of (rev kvs) key of None \<Rightarrow> Some zero | Some JNull \<Rightarrow> Some zero | Some j \<Rightarrow> dec j)"

fun json_uint32 :: "json \<Rightarrow> uint32 option" where
  "json_uint32 (JNum n) = (if 0 \<le> n \<and> n < 2 ^ 32 then Some (word_of_int n) else None)"
| "json_uint32 _ = None"

fun json_string :: "json \<Rightarrow> string option" where
  "json_string (JStr s) = Some s"
| "json_string _ = None"

fun json_type :: "json \<Rightarrow> Type option" where
  "json_type (JNum n) = (if n = 1 then Some IntType else if n = 2 then Some StringType else Some DefaultType)"
| "json_type _ = None"

primrec option_list :: "'a option list \<Rightarrow> 'a list option" where
  "option_list [] = Some []"
| "option_list (x # xs) = do { a \<leftarrow> x; as \<leftarrow> option_list xs; Some (a # as) }"

fun json_list :: "(json \<Rightarrow> 'a option) \<Rightarrow> 'a \<Rightarrow> json \<Rightarrow> 'a list option" where
  "json_list dec zero (JArr js) = option_list (map (\<lambda>j. if j = JNull then Some zero else dec j) js)"
| "json_list dec zero _ = None"

fun json_column :: "json \<Rightarrow> Column option" where
  "json_column (JObj kvs) = do {
     name \<leftarrow> json_field ''name'' json_string [] kvs;
     ty \<leftarrow> json_field ''type'' json_type DefaultType kvs;
     Some \<lparr>col_Name = name, col_Type = ty\<rparr>
   }"
| "json_column _ = None"

fun json_index :: "json \<Rightarrow> Index option" where
  "json_index (JObj kvs) = do {
     oid \<leftarrow> json_field ''oid'' json_uint32 0 kvs;
     table_oid \<leftarrow> json_field ''table_oid'' json_uint32 0 kvs;
     name \<leftarrow> json_field ''name'' json_string [] kvs;
     ty \<leftarrow> json_field ''type'' json_string [] kvs;
     key_schema \<leftarrow> json_field ''key_schema'' (json_list json_string []) [] kvs;
     Some \<lparr>ix_Oid = oid, ix_TableOid = table_oid, ix_Name = name, ix_Type = ty, ix_KeySchema = key_schema\<rparr>
   }"
| "json_index _ = None"

definition zero_column :: Column where
  "zero_column = \<lparr>col_Name = [], col_Type = DefaultType\<rparr>"

definition zero_index :: Index where
  "zero_index = \<lparr>ix_Oid = 0, ix_TableOid = 0, ix_Name = [], ix_Type = [], ix_KeySchema = []\<rparr>"

fun json_table :: "json \<Rightarrow> Table option" where
  "json_table (JObj kvs) = do {
     oid \<leftarrow> json_field ''oid'' json_uint32 0 kvs;
     name \<leftarrow> json_field ''name'' json_string [] kvs;
     columns \<leftarrow> json_field ''columns'' (json_list json_column zero_column) [] kvs;
     indexes \<leftarrow> json_field ''indexes'' (json_list json_index zero_index) [] kvs;
     Some \<lparr>tb_Oid = oid, tb_Name = name, tb_Columns = columns, tb_Indexes = indexes\<rparr>
   }"
| "json_table _ = None"

text \<open>A table of the document is a pointer, \<open>None\<close> when it is \<open>null\<close>.\<close>

fun json_state :: "json \<Rightarrow> (uint32 \<times> Table option list) option" where
  "json_state (JObj kvs) = do {
     next_id \<leftarrow> json_field ''next_id'' json_uint32 0 kvs;
     tables \<leftarrow> json_field ''tables'' (json_list (\<lambda>j. map_option Some (json_table j)) None) [] kvs;
     Some (next_id, tables)
   }"
| "json_state JNull = Some (0, [])"
| "json_state _ = None"

section \<open>Operations\<close>

text \<open>The lookup maps of the table at position \<open>a\<close>.\<close>

definition register_columns :: "nat \<Rightarrow> Column list \<Rightarrow> (string \<Rightarrow> nat list) \<Rightarrow> string \<Rightarrow> nat list" where
  "register_columns a cols = fold (\<lambda>f m. m(col_Name f := m (col_Name f) @ [a])) cols"

definition register_table :: "nat \<Rightarrow> Table \<Rightarrow> Catalog \<Rightarrow> Catalog" where
  "register_table a t c = c\<lparr>tableMap := (tableMap c)(tb_Name t \<mapsto> a), columnMap := register_columns a (tb_Columns t) (columnMap c)\<rparr>"

fun register_tables :: "nat \<Rightarrow> Table list \<Rightarrow> Catalog \<Rightarrow> Catalog" where
  "register_tables a [] c = c"
| "register_tables a (t # ts) c = register_tables (Suc a) ts (register_table a t c)"

definition empty_catalog :: Catalog where
  "empty_catalog = \<lparr>NextId = 0, Tables = [], tableMap = Map.empty, columnMap = (\<lambda>_. [])\<rparr>"

text \<open>An error of the decoder is \<open>Inl\<close>.\<close>

definition fromJSON :: "json \<Rightarrow> Catalog \<Rightarrow> (unit + Catalog) option" where
  "fromJSON j c = (case json_state j of
     None \<Rightarrow> Some (Inl ())
   | Some (next_id, ptrs) \<Rightarrow> do {
       tables \<leftarrow> option_list ptrs;
       Some (Inr (register_tables 0 tables (c\<lparr>NextId := next_id, Tables := tables\<rparr>)))
     })"

datatype load_error = ErrNotExist | LoadError string

record 'p PersistenceProvider =
  pp_LoadCatalogState :: "'p \<Rightarrow> load_error + json"
  pp_SaveCatalogState :: "json \<Rightarrow> 'p \<Rightarrow> string option \<times> 'p"

datatype cat_error = GoDB GoDBError | Load string | ParseError | Save string

definition NewCatalog :: "'p PersistenceProvider \<Rightarrow> 'p \<Rightarrow> (cat_error + Catalog) option" where
  "NewCatalog P p = (case pp_LoadCatalogState P p of
     Inl ErrNotExist \<Rightarrow> Some (Inr empty_catalog)
   | Inl (LoadError err) \<Rightarrow> Some (Inl (Load err))
   | Inr j \<Rightarrow> do {
       r \<leftarrow> fromJSON j empty_catalog;
       Some (case r of Inl _ \<Rightarrow> Inl ParseError | Inr c \<Rightarrow> Inr c)
     })"

text \<open>The result of \<open>SaveCatalogState\<close> as the error of the caller.\<close>

definition save :: "'p PersistenceProvider \<Rightarrow> Catalog \<Rightarrow> 'p \<Rightarrow> cat_error option \<times> 'p" where
  "save P c p = map_prod (map_option Save) id (pp_SaveCatalogState P (toJSON c) p)"

text \<open>The pointer to the new table, the error, and the new states.\<close>

definition AddTable :: "'p PersistenceProvider \<Rightarrow> string \<Rightarrow> Column list \<Rightarrow> Catalog \<Rightarrow> 'p \<Rightarrow> nat option \<times> cat_error option \<times> Catalog \<times> 'p" where
  "AddTable P tableName columns c p =
     (if tableMap c tableName \<noteq> None
      then (None, Some (GoDB \<lparr>Code = DuplicateObjectError, ErrString = ''table '' @ quoted tableName @ '' already exists''\<rparr>), c, p)
      else
        let c = c\<lparr>NextId := NextId c + 1\<rparr>;
            t = \<lparr>tb_Oid = NextId c, tb_Name = tableName, tb_Columns = columns, tb_Indexes = []\<rparr>;
            a = length (Tables c);
            c = register_table a t (c\<lparr>Tables := Tables c @ [t]\<rparr>);
            (err, p) = save P c p
        in (Some a, err, c, p))"

definition GetTableMetadata :: "string \<Rightarrow> Catalog \<Rightarrow> cat_error + nat" where
  "GetTableMetadata tableName c = (case tableMap c tableName of
     Some a \<Rightarrow> Inr a
   | None \<Rightarrow> Inl (GoDB \<lparr>Code = NoSuchObjectError, ErrString = ''table '' @ quoted tableName @ '' does not exist''\<rparr>))"

definition GetTableByOid :: "ObjectID \<Rightarrow> Catalog \<Rightarrow> GoDBError + Table" where
  "GetTableByOid tableOid c = (case find (\<lambda>t. tb_Oid t = tableOid) (Tables c) of
     Some t \<Rightarrow> Inr t
   | None \<Rightarrow> Inl \<lparr>Code = NoSuchObjectError, ErrString = ''table with OID '' @ quoted (decimal (unat tableOid)) @ '' does not exist''\<rparr>)"

definition GetIndexByOid :: "ObjectID \<Rightarrow> Catalog \<Rightarrow> GoDBError + Index" where
  "GetIndexByOid indexOid c = (case find (\<lambda>i. ix_Oid i = indexOid) (concat (map tb_Indexes (Tables c))) of
     Some i \<Rightarrow> Inr i
   | None \<Rightarrow> Inl \<lparr>Code = NoSuchObjectError, ErrString = ''index with OID '' @ quoted (decimal (unat indexOid)) @ '' does not exist''\<rparr>)"

definition FindTablesWithColumnName :: "string \<Rightarrow> Catalog \<Rightarrow> nat list" where
  "FindTablesWithColumnName columnName c = columnMap c columnName"

definition AddIndex :: "'p PersistenceProvider \<Rightarrow> string \<Rightarrow> string \<Rightarrow> string \<Rightarrow> string list \<Rightarrow> Catalog \<Rightarrow> 'p \<Rightarrow>
    ((Index option \<times> cat_error option) \<times> Catalog \<times> 'p) option" where
  "AddIndex P indexName tableName indexType columnNames c p = (case GetTableMetadata tableName c of
     Inl err \<Rightarrow> Some ((None, Some err), c, p)
   | Inr a \<Rightarrow> do {
       table \<leftarrow> idx (Tables c) a;
       (if \<exists>i \<in> set (tb_Indexes table). ix_Name i = indexName
        then Some ((None, Some (GoDB \<lparr>Code = DuplicateObjectError,
          ErrString = ''indexing '' @ quoted indexName @ '' already exists on table '' @ quoted tableName\<rparr>)), c, p)
        else case find (\<lambda>colName. colName \<notin> set (map col_Name (tb_Columns table))) columnNames of
          Some colName \<Rightarrow> Some ((None, Some (GoDB \<lparr>Code = NoSuchObjectError,
            ErrString = ''column '' @ quoted colName @ '' does not exist in table '' @ quoted tableName\<rparr>)), c, p)
        | None \<Rightarrow>
            let c = c\<lparr>NextId := NextId c + 1\<rparr>;
                i = \<lparr>ix_Oid = NextId c, ix_TableOid = tb_Oid table, ix_Name = indexName, ix_Type = indexType, ix_KeySchema = columnNames\<rparr>;
                c = c\<lparr>Tables := (Tables c)[a := table\<lparr>tb_Indexes := tb_Indexes table @ [i]\<rparr>]\<rparr>;
                (err, p) = save P c p
            in Some ((Some i, err), c, p))
     })"

section \<open>Persistence providers\<close>

definition NullPersistenceProvider :: "unit PersistenceProvider" where
  "NullPersistenceProvider = \<lparr>pp_LoadCatalogState = (\<lambda>_. Inl ErrNotExist), pp_SaveCatalogState = (\<lambda>_ p. (None, p))\<rparr>"

text \<open>A directory tree: a path is the list of its components, and a file holds a document.\<close>

datatype node = Dir | File json

type_synonym tree = "string list \<Rightarrow> node option"

definition ReadFile :: "string list \<Rightarrow> tree \<Rightarrow> load_error + json" where
  "ReadFile path fs = (case fs path of None \<Rightarrow> Inl ErrNotExist | Some Dir \<Rightarrow> Inl (LoadError ''is a directory'') | Some (File j) \<Rightarrow> Inr j)"

text \<open>A file is created in an existing directory only; a rename does not replace a directory by a file.\<close>

definition WriteFile :: "string list \<Rightarrow> json \<Rightarrow> tree \<Rightarrow> string option \<times> tree" where
  "WriteFile path j fs =
     (if path = [] \<or> fs path = Some Dir then (Some ''is a directory'', fs)
      else case fs (butlast path) of
        None \<Rightarrow> (Some ''no such file or directory'', fs)
      | Some (File _) \<Rightarrow> (Some ''not a directory'', fs)
      | Some Dir \<Rightarrow> (None, fs(path \<mapsto> File j)))"

definition Rename :: "string list \<Rightarrow> string list \<Rightarrow> tree \<Rightarrow> string option \<times> tree" where
  "Rename old_path new_path fs = (case fs old_path of
     Some (File j) \<Rightarrow>
       (if new_path = [] \<or> fs new_path = Some Dir then (Some ''file exists'', fs)
        else if fs (butlast new_path) \<noteq> Some Dir then (Some ''no such file or directory'', fs)
        else (None, fs(old_path := None, new_path \<mapsto> File j)))
   | _ \<Rightarrow> (Some ''no such file or directory'', fs))"

definition LoadCatalogState :: "string list \<Rightarrow> tree \<Rightarrow> load_error + json" where
  "LoadCatalogState path fs = ReadFile path fs"

text \<open>\<open>filepath.Join(dcm.path, ".tmp")\<close> is a path below the path of the catalog.\<close>

definition SaveCatalogState :: "string list \<Rightarrow> json \<Rightarrow> tree \<Rightarrow> string option \<times> tree" where
  "SaveCatalogState path j fs =
     (let tmpPath = path @ [''.tmp''];
          (err, fs) = WriteFile tmpPath j fs
      in if err \<noteq> None then (err, fs) else Rename tmpPath path fs)"

definition NewDiskCatalogManager :: "string list \<Rightarrow> tree PersistenceProvider" where
  "NewDiskCatalogManager path = \<lparr>pp_LoadCatalogState = LoadCatalogState path, pp_SaveCatalogState = SaveCatalogState path\<rparr>"

section \<open>Saving and loading\<close>

lemma option_list_map: "\<forall>x \<in> set xs. f (g x) = Some x \<Longrightarrow> option_list (map f (map g xs)) = Some xs"
  by (induction xs) auto

lemma json_list_map:
  assumes "\<forall>x \<in> set xs. dec (enc x) = Some x" "\<forall>x \<in> set xs. enc x \<noteq> JNull"
  shows "json_list dec zero (JArr (map enc xs)) = Some xs"
proof -
  have "option_list (map (\<lambda>j. if j = JNull then Some zero else dec j) (map enc xs)) = Some xs"
    using assms by (intro option_list_map) auto
  then show ?thesis by simp
qed

lemma json_uint32_uint [simp]: "json_uint32 (JNum (uint (w :: uint32))) = Some w"
  using uint_lt2p [of w] by simp

declare json_uint32.simps(1) [simp del]

lemma json_type_type [simp]: "json_type (type_json t) = Some t" "type_json t \<noteq> JNull"
  by (cases t; simp)+

lemma json_strings [simp]: "json_list json_string zero (JArr (map JStr ss)) = Some ss"
  by (rule json_list_map) simp_all

declare json_list.simps(1) [simp del]

lemma json_column_column: "json_column (column_json c) = Some c"
  by (cases "col_Type c") (simp_all add: column_json_def json_field_def)

lemma json_index_index: "json_index (index_json i) = Some i"
  by (simp add: index_json_def json_field_def)

lemma json_columns [simp]: "json_list json_column zero (JArr (map column_json cs)) = Some cs"
  by (rule json_list_map) (simp_all add: json_column_column, simp_all add: column_json_def)

lemma json_indexes [simp]: "json_list json_index zero (JArr (map index_json cs)) = Some cs"
  by (rule json_list_map) (simp_all add: json_index_index, simp_all add: index_json_def)

lemma json_table_table: "json_table (table_json t) = Some t"
  by (simp add: table_json_def json_field_def)

lemma json_tables: "json_list (\<lambda>j. map_option Some (json_table j)) None (JArr (map table_json ts)) = Some (map Some ts)"
proof -
  have "option_list (map (\<lambda>j. if j = JNull then Some None else map_option Some (json_table j)) (map table_json ts)) = Some (map Some ts)"
    by (induction ts) (simp_all add: json_table_table, simp_all add: table_json_def)
  then show ?thesis by (simp only: json_list.simps)
qed

lemma option_list_Some [simp]: "option_list (map Some xs) = Some xs"
  by (induction xs) auto

lemma json_state_toJSON: "json_state (toJSON c) = Some (NextId c, map Some (Tables c))"
  using json_tables by (simp add: toJSON_def json_field_def)

text \<open>The catalog whose lookup maps are those of its tables.\<close>

definition rebuilt :: "Catalog \<Rightarrow> Catalog" where
  "rebuilt c = register_tables 0 (Tables c) (empty_catalog\<lparr>NextId := NextId c, Tables := Tables c\<rparr>)"

lemma fromJSON_toJSON: "fromJSON (toJSON c) empty_catalog = Some (Inr (rebuilt c))"
  by (simp add: fromJSON_def json_state_toJSON rebuilt_def)

section \<open>The lookup maps\<close>

lemma register_tables_append:
  "register_tables a (ts @ [t]) c = register_table (a + length ts) t (register_tables a ts c)"
  by (induction ts arbitrary: a c) simp_all

lemma register_tables_state:
  "NextId (register_tables a ts c) = NextId c" "Tables (register_tables a ts c) = Tables c"
  by (induction ts arbitrary: a c) (simp_all add: register_table_def)

lemma register_table_more:
  "register_table a t (c\<lparr>NextId := n, Tables := xs\<rparr>) = (register_table a t c)\<lparr>NextId := n, Tables := xs\<rparr>"
  by (simp add: register_table_def)

lemma register_tables_more:
  "register_tables a ts (c\<lparr>NextId := n, Tables := xs\<rparr>) = (register_tables a ts c)\<lparr>NextId := n, Tables := xs\<rparr>"
  by (induction ts arbitrary: a c) (simp_all only: register_tables.simps register_table_more)

lemma register_tables_cong:
  "map (\<lambda>t. (tb_Name t, tb_Columns t)) ts = map (\<lambda>t. (tb_Name t, tb_Columns t)) us \<Longrightarrow> register_tables a ts c = register_tables a us c"
proof (induction ts arbitrary: us a c)
  case (Cons t ts)
  then obtain u us' where "us = u # us'" "tb_Name t = tb_Name u" "tb_Columns t = tb_Columns u"
    "map (\<lambda>t. (tb_Name t, tb_Columns t)) ts = map (\<lambda>t. (tb_Name t, tb_Columns t)) us'" by auto
  then show ?case using Cons.IH by (simp add: register_table_def)
qed simp

lemma tableMap_register_tables:
  "tableMap (register_tables a ts c) = tableMap c ++ map_of (rev (zip (map tb_Name ts) [a..<a + length ts]))"
proof (induction ts rule: rev_induct)
  case (snoc t ts)
  have "zip (map tb_Name (ts @ [t])) [a..<a + length (ts @ [t])] = zip (map tb_Name ts) [a..<a + length ts] @ [(tb_Name t, a + length ts)]"
    by simp
  then show ?case using snoc by (simp add: register_tables_append register_table_def map_add_def fun_eq_iff del: map_append upt_Suc)
qed simp

lemma register_columns_eq: "register_columns a cols m name = m name @ replicate (length (filter (\<lambda>f. col_Name f = name) cols)) a"
  by (induction cols arbitrary: m) (auto simp: register_columns_def replicate_append_same)

text \<open>The entries of the column map: a table once for each of its columns of that name.\<close>

lemma columnMap_register_tables:
  "columnMap (register_tables a ts c) name =
     columnMap c name @ concat (map (\<lambda>(b, t). replicate (length (filter (\<lambda>f. col_Name f = name) (tb_Columns t))) b) (enumerate a ts))"
  by (induction ts rule: rev_induct) (simp_all add: register_tables_append register_table_def register_columns_eq enumerate_append_eq)

section \<open>The invariant\<close>

text \<open>What the column map has to hold for a name: the positions of the tables in order, each as often as the table has columns of that name.\<close>

definition tables_with_column :: "string \<Rightarrow> Table list \<Rightarrow> nat list" where
  "tables_with_column name ts = concat (map (\<lambda>a. replicate (count_list (map col_Name (tb_Columns (ts ! a))) name) a) [0..<length ts])"

lemma count_list_names: "count_list (map col_Name cols) name = length (filter (\<lambda>f. col_Name f = name) cols)"
  by (induction cols) auto

definition catalog_oids :: "Table list \<Rightarrow> ObjectID list" where
  "catalog_oids ts = concat (map (\<lambda>t. tb_Oid t # map ix_Oid (tb_Indexes t)) ts)"

definition indexes_ok :: "Table \<Rightarrow> bool" where
  "indexes_ok t \<longleftrightarrow> distinct (map ix_Name (tb_Indexes t)) \<and>
     (\<forall>i \<in> set (tb_Indexes t). ix_TableOid i = tb_Oid t \<and> set (ix_KeySchema i) \<subseteq> col_Name ` set (tb_Columns t))"

definition catalog_ok :: "Catalog \<Rightarrow> bool" where
  "catalog_ok c \<longleftrightarrow> rebuilt c = c \<and> distinct (map tb_Name (Tables c)) \<and> distinct (catalog_oids (Tables c)) \<and>
     (\<forall>i \<in> set (catalog_oids (Tables c)). 0 < unat i \<and> unat i \<le> unat (NextId c)) \<and> (\<forall>t \<in> set (Tables c). indexes_ok t)"

lemma catalog_ok_empty: "catalog_ok empty_catalog"
  by (simp add: catalog_ok_def rebuilt_def empty_catalog_def catalog_oids_def)

lemma columnMap_ok:
  assumes "catalog_ok c"
  shows "columnMap c name = tables_with_column name (Tables c)"
proof -
  have "columnMap c = columnMap (rebuilt c)" using assms by (simp add: catalog_ok_def)
  moreover have "map (\<lambda>(a, t). replicate (count_list (map col_Name (tb_Columns t)) name) a) (enumerate 0 (Tables c)) =
      map (\<lambda>a. replicate (count_list (map col_Name (tb_Columns (Tables c ! a))) name) a) [0..<length (Tables c)]"
    by (rule nth_equalityI) (simp_all add: nth_enumerate_eq)
  ultimately show ?thesis
    by (simp add: rebuilt_def empty_catalog_def columnMap_register_tables tables_with_column_def count_list_names)
qed

lemma tableMap_ok:
  assumes "catalog_ok c"
  shows "tableMap c name = Some a \<longleftrightarrow> a < length (Tables c) \<and> tb_Name (Tables c ! a) = name"
proof -
  let ?z = "zip (map tb_Name (Tables c)) [0..<length (Tables c)]"
  have d: "distinct (map fst ?z)" using assms by (simp add: catalog_ok_def)
  have "tableMap c = tableMap (rebuilt c)" using assms by (simp add: catalog_ok_def)
  also have "\<dots> = map_of (rev ?z)" using tableMap_register_tables [of 0 "Tables c"] by (simp add: rebuilt_def empty_catalog_def)
  finally have "tableMap c name = Some a \<longleftrightarrow> (name, a) \<in> set ?z"
    using d map_of_eq_Some_iff [of "rev ?z" name a] by (simp add: rev_map [symmetric])
  moreover have "(name, a) \<in> set ?z \<longleftrightarrow> a < length (Tables c) \<and> tb_Name (Tables c ! a) = name"
    by (fastforce simp: in_set_zip intro: exI [of _ a])
  ultimately show ?thesis by simp
qed

lemma rebuilt_snoc:
  assumes "rebuilt c = c" "t = \<lparr>tb_Oid = oid, tb_Name = name, tb_Columns = cols, tb_Indexes = is\<rparr>"
  shows "rebuilt (register_table (length (Tables c)) t (c\<lparr>NextId := n, Tables := Tables c @ [t]\<rparr>)) =
    register_table (length (Tables c)) t (c\<lparr>NextId := n, Tables := Tables c @ [t]\<rparr>)"
proof -
  let ?r = "register_tables 0 (Tables c) empty_catalog" and ?ts = "Tables c @ [t]"
  have c: "c = ?r\<lparr>NextId := NextId c, Tables := Tables c\<rparr>" using assms(1) unfolding rebuilt_def register_tables_more by simp
  have m: "c\<lparr>NextId := n, Tables := ?ts\<rparr> = ?r\<lparr>NextId := n, Tables := ?ts\<rparr>" by (subst c) simp
  show ?thesis unfolding rebuilt_def m register_tables_more register_table_more by (simp add: register_tables_append)
qed

lemma oids_snoc: "catalog_oids (ts @ [t]) = catalog_oids ts @ tb_Oid t # map ix_Oid (tb_Indexes t)"
  by (simp add: catalog_oids_def)

lemma unat_next: "unat (n :: uint32) + 1 < 2 ^ 32 \<Longrightarrow> unat (n + 1) = unat n + 1"
  by (simp add: unat_word_ariths)

lemma AddTable_ok:
  assumes "catalog_ok c" "unat (NextId c) + 1 < 2 ^ 32" "AddTable P name cols c p = (a, err, c', p')"
  shows "catalog_ok c'" "unat (NextId c') \<le> unat (NextId c) + 1"
proof -
  let ?n = "NextId c + 1"
  let ?t = "\<lparr>tb_Oid = ?n, tb_Name = name, tb_Columns = cols, tb_Indexes = []\<rparr>"
  let ?c = "register_table (length (Tables c)) ?t (c\<lparr>NextId := ?n, Tables := Tables c @ [?t]\<rparr>)"
  have un: "unat ?n = unat (NextId c) + 1" using unat_next [OF assms(2)] .
  have st: "NextId ?c = ?n" "Tables ?c = Tables c @ [?t]" by (simp_all add: register_table_def)
  have ok: "catalog_ok ?c" if new: "tableMap c name = None"
  proof -
    have nn: "name \<notin> tb_Name ` set (Tables c)"
    proof
      assume "name \<in> tb_Name ` set (Tables c)"
      then obtain a where "a < length (Tables c)" "tb_Name (Tables c ! a) = name" by (auto simp: in_set_conv_nth)
      then show False using tableMap_ok [OF assms(1), of name a] new by simp
    qed
    have old: "unat i \<le> unat (NextId c)" if "i \<in> set (catalog_oids (Tables c))" for i using assms(1) that by (simp add: catalog_ok_def)
    have fresh: "?n \<notin> set (catalog_oids (Tables c))"
    proof
      assume "?n \<in> set (catalog_oids (Tables c))"
      from old [OF this] show False unfolding un by simp
    qed
    have "rebuilt ?c = ?c" using assms(1) by (intro rebuilt_snoc) (simp_all add: catalog_ok_def)
    moreover have "0 < unat i \<and> unat i \<le> unat ?n" if "i \<in> set (catalog_oids (Tables c @ [?t]))" for i
      using that assms(1) un by (auto simp: catalog_ok_def oids_snoc)
    ultimately show ?thesis
      using assms(1) nn fresh unfolding catalog_ok_def st oids_snoc by (auto simp: indexes_ok_def)
  qed
  have c': "c' = (if tableMap c name = None then ?c else c)"
    using assms(3) by (auto simp: AddTable_def Let_def split: prod.splits if_splits)
  then show "catalog_ok c'" using ok assms(1) by simp
  show "unat (NextId c') \<le> unat (NextId c) + 1" using c' un st(1) by simp
qed

lemma oids_update:
  assumes "a < length ts" "t' = (ts ! a)\<lparr>tb_Indexes := tb_Indexes (ts ! a) @ [i]\<rparr>"
  shows "mset (catalog_oids (ts[a := t'])) = mset (ix_Oid i # catalog_oids ts)"
proof -
  have "mset (catalog_oids (ts[a := t'])) = mset (catalog_oids (take a ts)) + mset (tb_Oid t' # map ix_Oid (tb_Indexes t')) + mset (catalog_oids (drop (Suc a) ts))"
    by (simp add: upd_conv_take_nth_drop [OF assms(1)] catalog_oids_def)
  also have "\<dots> = add_mset (ix_Oid i) (mset (catalog_oids (take a ts @ ts ! a # drop (Suc a) ts)))" by (simp add: catalog_oids_def assms(2))
  finally show ?thesis by (simp add: id_take_nth_drop [OF assms(1), symmetric])
qed

lemma rebuilt_same:
  assumes "rebuilt c = c" "map (\<lambda>t. (tb_Name t, tb_Columns t)) ts = map (\<lambda>t. (tb_Name t, tb_Columns t)) (Tables c)"
  shows "rebuilt (c\<lparr>NextId := n, Tables := ts\<rparr>) = c\<lparr>NextId := n, Tables := ts\<rparr>"
proof -
  let ?r = "register_tables 0 (Tables c) empty_catalog"
  have c: "c = ?r\<lparr>NextId := NextId c, Tables := Tables c\<rparr>" using assms(1) unfolding rebuilt_def register_tables_more by simp
  have "rebuilt (c\<lparr>NextId := n, Tables := ts\<rparr>) = ?r\<lparr>NextId := n, Tables := ts\<rparr>"
    using register_tables_cong [OF assms(2), of 0 empty_catalog] unfolding rebuilt_def register_tables_more by simp
  also have "\<dots> = c\<lparr>NextId := n, Tables := ts\<rparr>" by (subst c) simp
  finally show ?thesis .
qed

lemma map_update_same: "a < length xs \<Longrightarrow> f y = f (xs ! a) \<Longrightarrow> map f (xs[a := y]) = map f xs"
  by (simp add: map_update list_update_same_conv)

lemma AddIndex_ok:
  assumes "catalog_ok c" "unat (NextId c) + 1 < 2 ^ 32"
  shows "\<exists>r c' p'. AddIndex P iname tname ty cols c p = Some (r, c', p') \<and> catalog_ok c' \<and> unat (NextId c') \<le> unat (NextId c) + 1"
proof (cases "GetTableMetadata tname c")
  case (Inl err)
  then show ?thesis using assms(1) by (simp add: AddIndex_def)
next
  case (Inr a)
  then have "tableMap c tname = Some a" by (simp add: GetTableMetadata_def split: option.splits)
  then have a: "a < length (Tables c)" using tableMap_ok [OF assms(1)] by simp
  let ?table = "Tables c ! a" and ?n = "NextId c + 1"
  let ?i = "\<lparr>ix_Oid = ?n, ix_TableOid = tb_Oid ?table, ix_Name = iname, ix_Type = ty, ix_KeySchema = cols\<rparr>"
  let ?t = "?table\<lparr>tb_Indexes := tb_Indexes ?table @ [?i]\<rparr>"
  let ?c = "c\<lparr>NextId := ?n, Tables := (Tables c)[a := ?t]\<rparr>"
  have un: "unat ?n = unat (NextId c) + 1" using unat_next [OF assms(2)] .
  have ok: "catalog_ok ?c" if n: "\<forall>i \<in> set (tb_Indexes ?table). ix_Name i \<noteq> iname" "set cols \<subseteq> col_Name ` set (tb_Columns ?table)"
  proof -
    have m: "mset (catalog_oids (Tables ?c)) = mset (?n # catalog_oids (Tables c))" using oids_update [OF a, of ?t ?i] by simp
    have old: "0 < unat i \<and> unat i \<le> unat (NextId c)" if "i \<in> set (catalog_oids (Tables c))" for i using assms(1) that by (simp add: catalog_ok_def)
    have fresh: "?n \<notin> set (catalog_oids (Tables c))"
    proof
      assume "?n \<in> set (catalog_oids (Tables c))"
      from old [OF this] show False unfolding un by simp
    qed
    have "distinct (catalog_oids (Tables ?c))" using mset_eq_imp_distinct_iff [OF m] fresh assms(1) by (simp add: catalog_ok_def)
    moreover have "0 < unat i \<and> unat i \<le> unat (NextId ?c)" if "i \<in> set (catalog_oids (Tables ?c))" for i
      using that old [of i] un unfolding mset_eq_setD [OF m] by auto
    moreover have "rebuilt ?c = ?c" using assms(1) a by (intro rebuilt_same map_update_same) (simp_all add: catalog_ok_def)
    moreover have "map tb_Name (Tables ?c) = map tb_Name (Tables c)" using a by (simp add: map_update_same)
    moreover have "indexes_ok ?t" using assms(1) a n nth_mem [OF a] by (auto simp: catalog_ok_def indexes_ok_def)
    then have "indexes_ok t" if "t \<in> set (Tables ?c)" for t
      using that assms(1) set_update_subset_insert [of "Tables c" a ?t] by (auto simp: catalog_ok_def)
    ultimately show ?thesis using assms(1) unfolding catalog_ok_def by simp
  qed
  show ?thesis
  proof (cases "(\<exists>i \<in> set (tb_Indexes ?table). ix_Name i = iname) \<or> find (\<lambda>n. n \<notin> set (map col_Name (tb_Columns ?table))) cols \<noteq> None")
    case True
    then show ?thesis using Inr a assms(1) by (auto simp: AddIndex_def split: option.splits)
  next
    case False
    then have "catalog_ok ?c" by (intro ok) (auto simp: find_None_iff)
    then show ?thesis using False Inr a un by (auto simp: AddIndex_def Let_def case_prod_beta)
  qed
qed

section \<open>Histories\<close>

datatype cat_op = OpTable string "Column list" | OpIndex string string string "string list"

fun run_catalog :: "'p PersistenceProvider \<Rightarrow> cat_op list \<Rightarrow> Catalog \<Rightarrow> 'p \<Rightarrow> (Catalog \<times> 'p) option" where
  "run_catalog P [] c p = Some (c, p)"
| "run_catalog P (OpTable name cols # ops) c p = (let (_, _, c, p) = AddTable P name cols c p in run_catalog P ops c p)"
| "run_catalog P (OpIndex iname tname ty cols # ops) c p = do {
     (_, c, p) \<leftarrow> AddIndex P iname tname ty cols c p;
     run_catalog P ops c p
   }"

lemma run_catalog_ok:
  assumes "catalog_ok c" "unat (NextId c) + length ops < 2 ^ 32"
  shows "\<exists>c' p'. run_catalog P ops c p = Some (c', p') \<and> catalog_ok c'"
  using assms
proof (induction ops arbitrary: c p)
  case (Cons op ops)
  show ?case
  proof (cases op)
    case (OpTable name cols)
    obtain a err c1 p1 where t: "AddTable P name cols c p = (a, err, c1, p1)" by (metis prod_cases4)
    have "catalog_ok c1" "unat (NextId c1) + length ops < 2 ^ 32" using AddTable_ok [OF Cons.prems(1) _ t] Cons.prems(2) by auto
    then show ?thesis using Cons.IH t OpTable by simp
  next
    case (OpIndex iname tname ty cols)
    obtain r c1 p1 where i: "AddIndex P iname tname ty cols c p = Some (r, c1, p1)" "catalog_ok c1" "unat (NextId c1) \<le> unat (NextId c) + 1"
      using AddIndex_ok [OF Cons.prems(1)] Cons.prems(2) by fastforce
    then show ?thesis using Cons.IH [of c1 p1] Cons.prems(2) OpIndex by simp
  qed
qed simp

lemma find_distinct:
  assumes "x \<in> set xs" "P x" "\<And>y. y \<in> set xs \<Longrightarrow> P y \<Longrightarrow> y = x"
  shows "find P xs = Some x"
proof (cases "find P xs")
  case None
  then show ?thesis using assms(1,2) by (auto simp: find_None_iff)
next
  case (Some y)
  then have "y \<in> set xs" "P y" by (auto simp: find_Some_iff)
  then show ?thesis using Some assms(3) by simp
qed

lemma oids_member: "t \<in> set ts \<Longrightarrow> i \<in> set (tb_Oid t # map ix_Oid (tb_Indexes t)) \<Longrightarrow> i \<in> set (catalog_oids ts)"
  unfolding catalog_oids_def by auto

lemma oids_same:
  assumes "distinct (catalog_oids ts)" "t \<in> set ts" "u \<in> set ts" "i \<in> set (tb_Oid t # map ix_Oid (tb_Indexes t))" "i \<in> set (tb_Oid u # map ix_Oid (tb_Indexes u))"
  shows "t = u"
  using assms
proof (induction ts)
  case (Cons x xs)
  have d: "distinct (catalog_oids xs)" "set (tb_Oid x # map ix_Oid (tb_Indexes x)) \<inter> set (catalog_oids xs) = {}"
    using Cons.prems(1) unfolding catalog_oids_def list.map concat.simps distinct_append by blast+
  show ?case
    using Cons.IH [OF d(1)] Cons.prems(2-) d(2) oids_member [of t xs i] oids_member [of u xs i] by (metis disjoint_iff set_ConsD)
qed simp

lemma lookup_oids:
  assumes "distinct (catalog_oids (Tables c))" "t \<in> set (Tables c)"
  shows "GetTableByOid (tb_Oid t) c = Inr t" "i \<in> set (tb_Indexes t) \<Longrightarrow> GetIndexByOid (ix_Oid i) c = Inr i"
proof -
  have "u = t" if "u \<in> set (Tables c)" "tb_Oid u = tb_Oid t" for u
    using oids_same [OF assms that(1), of "tb_Oid t"] that(2) by simp
  then have "find (\<lambda>u. tb_Oid u = tb_Oid t) (Tables c) = Some t" using assms(2) by (intro find_distinct) auto
  then show "GetTableByOid (tb_Oid t) c = Inr t" by (simp add: GetTableByOid_def)
  assume i: "i \<in> set (tb_Indexes t)"
  have dt: "distinct (map ix_Oid (tb_Indexes t))" using assms by (auto simp: catalog_oids_def distinct_concat_iff)
  have "j = i" if j: "u \<in> set (Tables c)" "j \<in> set (tb_Indexes u)" "ix_Oid j = ix_Oid i" for u j
  proof -
    have "t = u" using oids_same [OF assms j(1), of "ix_Oid i"] i j(2,3) by (simp add: image_iff) (metis j(3))
    then show ?thesis using dt i j(2,3) by (auto simp: distinct_map inj_on_def)
  qed
  then have "find (\<lambda>j. ix_Oid j = ix_Oid i) (concat (map tb_Indexes (Tables c))) = Some i"
    using i assms(2) by (intro find_distinct) auto
  then show "GetIndexByOid (ix_Oid i) c = Inr i" by (simp add: GetIndexByOid_def)
qed

text \<open>
  C18: the catalog stays consistent. Whatever tables and indexes are added, with whatever errors on the way, the tables have
  different names and a lookup by name finds exactly the table of that name; the lookup by column name gives exactly the
  tables with such a column, in the order in which they were added and each once per column of that name; tables and indexes have different
  identifiers, none of them zero, and a lookup by identifier finds its object; every index names its own table and
  columns of it. The hypothesis keeps the 32-bit counter of identifiers from wrapping around.
\<close>

theorem catalog_consistent:
  assumes "length ops < 2 ^ 32"
  shows "\<exists>c p'. run_catalog P ops empty_catalog p = Some (c, p') \<and>
    distinct (map tb_Name (Tables c)) \<and> distinct (catalog_oids (Tables c)) \<and> 0 \<notin> set (catalog_oids (Tables c)) \<and>
    (\<forall>name a. GetTableMetadata name c = Inr a \<longleftrightarrow> a < length (Tables c) \<and> tb_Name (Tables c ! a) = name) \<and>
    (\<forall>name. FindTablesWithColumnName name c = tables_with_column name (Tables c)) \<and>
    (\<forall>t \<in> set (Tables c). GetTableByOid (tb_Oid t) c = Inr t \<and>
       (\<forall>i \<in> set (tb_Indexes t). GetIndexByOid (ix_Oid i) c = Inr i \<and> ix_TableOid i = tb_Oid t \<and>
          set (ix_KeySchema i) \<subseteq> col_Name ` set (tb_Columns t)))"
proof -
  obtain c p' where c: "run_catalog P ops empty_catalog p = Some (c, p')" "catalog_ok c"
    using run_catalog_ok [OF catalog_ok_empty] assms by (fastforce simp: empty_catalog_def)
  have "GetTableMetadata name c = Inr a \<longleftrightarrow> tableMap c name = Some a" for name a
    by (simp add: GetTableMetadata_def split: option.splits)
  then have "\<forall>name a. GetTableMetadata name c = Inr a \<longleftrightarrow> a < length (Tables c) \<and> tb_Name (Tables c ! a) = name"
    using tableMap_ok [OF c(2)] by simp
  moreover have "\<forall>name. FindTablesWithColumnName name c = tables_with_column name (Tables c)"
    using columnMap_ok [OF c(2)] by (simp add: FindTablesWithColumnName_def)
  moreover have "\<forall>t \<in> set (Tables c). GetTableByOid (tb_Oid t) c = Inr t \<and>
       (\<forall>i \<in> set (tb_Indexes t). GetIndexByOid (ix_Oid i) c = Inr i \<and> ix_TableOid i = tb_Oid t \<and>
          set (ix_KeySchema i) \<subseteq> col_Name ` set (tb_Columns t))"
    using lookup_oids c(2) by (simp add: catalog_ok_def indexes_ok_def)
  moreover have "0 \<notin> set (catalog_oids (Tables c))" using c(2) by (auto simp: catalog_ok_def)
  ultimately show ?thesis using c by (auto simp: catalog_ok_def)
qed

definition sample_cat_ops :: "cat_op list" where
  "sample_cat_ops = [OpTable ''users'' [\<lparr>col_Name = ''id'', col_Type = IntType\<rparr>], OpIndex ''pk'' ''users'' ''btree'' [''id''], OpTable ''users'' []]"

theorem catalog_consistent_witness:
  "\<exists>c. run_catalog NullPersistenceProvider sample_cat_ops empty_catalog () = Some (c, ()) \<and> catalog_oids (Tables c) = [1, 2] \<and>
     distinct (catalog_oids (Tables c)) \<and> GetTableMetadata ''users'' c = Inr 0 \<and> FindTablesWithColumnName ''id'' c = [0]"
  using catalog_consistent [of sample_cat_ops NullPersistenceProvider "()"]
  by (simp add: sample_cat_ops_def AddTable_def AddIndex_def GetTableMetadata_def register_table_def empty_catalog_def save_def
      NullPersistenceProvider_def catalog_oids_def tables_with_column_def idx_def Let_def)

text \<open>
  C37: a saved catalog is loaded back as it was, with the same lookup maps: after any history, a start with a
  provider that returns the document of the last save gives the same catalog.
\<close>

theorem catalog_reload:
  assumes "length ops < 2 ^ 32" "run_catalog P ops empty_catalog p = Some (c, p')" "pp_LoadCatalogState Q q = Inr (toJSON c)"
  shows "NewCatalog Q q = Some (Inr c)"
proof -
  have "catalog_ok c" using run_catalog_ok [OF catalog_ok_empty, of ops P p] assms(1,2) by (simp add: empty_catalog_def)
  then show ?thesis using assms(3) fromJSON_toJSON [of c] by (simp add: NewCatalog_def catalog_ok_def)
qed

theorem catalog_reload_witness:
  "\<exists>c. run_catalog NullPersistenceProvider sample_cat_ops empty_catalog () = Some (c, ()) \<and> Tables c \<noteq> [] \<and>
     NewCatalog (NewDiskCatalogManager [''db'', ''catalog'']) [[''db'', ''catalog''] \<mapsto> File (toJSON c)] = Some (Inr c)"
proof -
  obtain c where c: "run_catalog NullPersistenceProvider sample_cat_ops empty_catalog () = Some (c, ())" "Tables c \<noteq> []"
    by (simp add: sample_cat_ops_def AddTable_def AddIndex_def GetTableMetadata_def register_table_def empty_catalog_def save_def
      NullPersistenceProvider_def idx_def Let_def)
  have "NewCatalog (NewDiskCatalogManager [''db'', ''catalog'']) [[''db'', ''catalog''] \<mapsto> File (toJSON c)] = Some (Inr c)"
    by (rule catalog_reload [OF _ c(1)]) (simp_all add: sample_cat_ops_def NewDiskCatalogManager_def LoadCatalogState_def ReadFile_def)
  then show ?thesis using c by blast
qed

text \<open>
  C38: on disk a table is never saved. The temporary file is named as a file below the path of the catalog, so that writing it
  needs a directory at that path, which the rename cannot replace. \<open>AddTable\<close> reports the error, leaves the stored catalog as
  it was, and keeps the table in memory, so that adding it again reports a duplicate.
\<close>

theorem AddTable_disk_not_saved:
  assumes "tableMap c tableName = None"
  shows "\<exists>err c' fs' err'. AddTable (NewDiskCatalogManager path) tableName columns c fs = (Some (length (Tables c)), Some (Save err), c', fs') \<and>
    LoadCatalogState path fs' = LoadCatalogState path fs \<and>
    AddTable (NewDiskCatalogManager path) tableName columns c' fs' = (None, Some (GoDB err'), c', fs') \<and> Code err' = DuplicateObjectError"
proof -
  have "\<exists>err fs'. SaveCatalogState path j fs = (Some err, fs') \<and> fs' path = fs path" for j
    by (auto simp: SaveCatalogState_def WriteFile_def Rename_def Let_def split: option.splits node.splits)
  then obtain err fs' where s: "\<And>j. SaveCatalogState path j fs = (Some (err j), fs' j) \<and> fs' j path = fs path" by metis
  then have "LoadCatalogState path (fs' j) = LoadCatalogState path fs" for j by (simp add: LoadCatalogState_def ReadFile_def)
  then show ?thesis using assms s
    by (auto simp: AddTable_def save_def NewDiskCatalogManager_def Let_def register_table_def)
qed

theorem AddTable_disk_not_saved_witness:
  "\<exists>err c' fs'. AddTable (NewDiskCatalogManager [''db'', ''catalog'']) ''users'' [] empty_catalog [[] \<mapsto> Dir, [''db''] \<mapsto> Dir] =
     (Some 0, Some (Save err), c', fs')"
  using AddTable_disk_not_saved [of empty_catalog "''users''" "[''db'', ''catalog'']" "[]" "[[] \<mapsto> Dir, [''db''] \<mapsto> Dir]"]
  by (auto simp: empty_catalog_def)

end
