(* ===== verification/Storage_Bitmap.thy ===== *)
theory Storage_Bitmap
  imports Common_Types "HOL-Library.Signed_Division"
begin

text \<open>
  \<open>storage/bitmap.go\<close>: a bitmap is a view of a byte slice as 64-bit words. \<open>AsBitmap\<close> reads the
  words (a little-endian host, as the unsafe cast of the source gives on amd64 and arm64) and
  \<open>bitmap_store\<close> is the effect of writing through the view. Bit indexes are Go \<open>int\<close>s: a
  negative index truncates towards zero and shifts the mask out, as in Go.
\<close>

section \<open>Definitions\<close>

record Bitmap =
  words :: "uint64 list"
  numBits :: nat

definition AsBitmap :: "bytes \<Rightarrow> nat \<Rightarrow> Bitmap option" where
  "AsBitmap data n = do {
     Assert (AlignedTo8 (length data));
     let numWords = (n + 63) div 64;
     Assert (length data \<ge> numWords * 8);
     _ \<leftarrow> idx data 0;
     Some \<lparr>words = map (\<lambda>i. le_word (seg (8 * i) 8 data)) [0..<numWords], numBits = n\<rparr>
   }"

text \<open>The words of the view written back over the bytes it was taken from.\<close>

definition bitmap_store :: "Bitmap \<Rightarrow> bytes \<Rightarrow> bytes" where
  "bitmap_store b data = blit 0 (concat (map (le_bytes 8) (words b))) data"

definition bit_mask :: "int \<Rightarrow> uint64" where
  "bit_mask bitindex = (if bitindex < 0 then 0 else push_bit (nat bitindex) 1)"

definition SetBit :: "Bitmap \<Rightarrow> int \<Rightarrow> bool \<Rightarrow> (bool \<times> Bitmap) option" where
  "SetBit b i on = do {
     let boardindex = i sdiv 64;
     let bitindex = i smod 64;
     Assert (boardindex \<ge> 0);
     currentboard \<leftarrow> idx (words b) (nat boardindex);
     let mask = bit_mask bitindex;
     let originalValue = (and currentboard mask \<noteq> 0);
     ws \<leftarrow> upd_idx (words b) (nat boardindex)
            (if on then or currentboard mask else and currentboard (not mask));
     Some (originalValue, b\<lparr>words := ws\<rparr>)
   }"

definition LoadBit :: "Bitmap \<Rightarrow> int \<Rightarrow> bool option" where
  "LoadBit b i = do {
     let boardindex = i sdiv 64;
     let bitindex = i smod 64;
     Assert (boardindex \<ge> 0);
     currentboard \<leftarrow> idx (words b) (nat boardindex);
     let mask = bit_mask bitindex;
     Some (and currentboard mask \<noteq> 0)
   }"

definition TrailingZeros64 :: "uint64 \<Rightarrow> nat" where
  "TrailingZeros64 x = length (takeWhile (\<lambda>k. \<not> bit x k) [0..<64])"

text \<open>The loop over the other words, starting after the word of the hint and wrapping around.\<close>

primrec find_zero_loop :: "Bitmap \<Rightarrow> nat \<Rightarrow> nat list \<Rightarrow> int option" where
  "find_zero_loop b boardIndex [] = Some (-1)"
| "find_zero_loop b boardIndex (i # is) = do {
     let currWordIdx = (boardIndex + i) mod length (words b);
     curr \<leftarrow> idx (words b) currWordIdx;
     (if curr = not 0 then find_zero_loop b boardIndex is
      else let resultidx = currWordIdx * 64 + TrailingZeros64 (not curr) in
        if resultidx < numBits b then Some (int resultidx)
        else find_zero_loop b boardIndex is)
   }"

definition FindFirstZero :: "Bitmap \<Rightarrow> nat \<Rightarrow> int option" where
  "FindFirstZero b startHint =
     (if numBits b = 0 then Some (-1)
      else do {
        let startHint = startHint mod numBits b;
        let boardIndex = startHint div 64;
        let bitindex = startHint mod 64;
        w \<leftarrow> idx (words b) boardIndex;
        let mask = push_bit bitindex 1 - 1;
        let word = or w mask;
        let resultidx = boardIndex * 64 + TrailingZeros64 (not word);
        (if word \<noteq> not 0 \<and> resultidx < numBits b then Some (int resultidx)
         else find_zero_loop b boardIndex [1..<Suc (length (words b))])
      })"

section \<open>The interface of an array of bits\<close>

text \<open>
  What the users of a bitmap rely on: a written bit is read back and no other bit changes. The
  number of set bits, which a heap page caches in its header, follows from that.
\<close>

locale bit_array =
  fixes load :: "'s \<Rightarrow> nat \<Rightarrow> bool" and put :: "'s \<Rightarrow> nat \<Rightarrow> bool \<Rightarrow> 's"
    and bits :: "'s \<Rightarrow> nat" and inv :: "'s \<Rightarrow> bool"
  assumes load_put: "inv s \<Longrightarrow> i < bits s \<Longrightarrow> j < bits s \<Longrightarrow> load (put s i v) j = (if j = i then v else load s j)"
    and bits_put: "inv s \<Longrightarrow> i < bits s \<Longrightarrow> bits (put s i v) = bits s"
    and inv_put: "inv s \<Longrightarrow> i < bits s \<Longrightarrow> inv (put s i v)"
begin

definition used :: "'s \<Rightarrow> nat" where
  "used s = card {k. k < bits s \<and> load s k}"

lemma set_bits_put:
  assumes "inv s" "i < bits s"
  shows "{k. k < bits (put s i v) \<and> load (put s i v) k} =
    (if v then insert i {k. k < bits s \<and> load s k} else {k. k < bits s \<and> load s k} - {i})"
  using assms by (auto simp: load_put bits_put split: if_splits)

lemma used_put:
  assumes "inv s" "i < bits s"
  shows "used (put s i v) =
    (if v \<and> \<not> load s i then Suc (used s) else if \<not> v \<and> load s i then used s - 1 else used s)"
  using assms by (auto simp: used_def set_bits_put card_insert_if insert_absorb)

lemma used_le: "used s \<le> bits s"
proof -
  have "card {k. k < bits s \<and> load s k} \<le> card {..<bits s}" by (rule card_mono) auto
  then show ?thesis by (simp add: used_def)
qed

lemma used_pos: "i < bits s \<Longrightarrow> load s i \<Longrightarrow> 0 < used s"
  by (auto simp: used_def card_gt_0_iff)

lemma used_full: "used s = bits s \<longleftrightarrow> (\<forall>k < bits s. load s k)"
proof
  assume "used s = bits s"
  then have "{k. k < bits s \<and> load s k} = {..<bits s}"
    by (intro card_subset_eq) (auto simp: used_def)
  then show "\<forall>k < bits s. load s k" by auto
next
  assume "\<forall>k < bits s. load s k"
  then have "{k. k < bits s \<and> load s k} = {..<bits s}" by auto
  then show "used s = bits s" by (simp add: used_def)
qed

end

section \<open>Bits of a bitmap\<close>

definition wf_bitmap :: "Bitmap \<Rightarrow> bool" where
  "wf_bitmap b \<longleftrightarrow> length (words b) = (numBits b + 63) div 64"

definition bit_at :: "Bitmap \<Rightarrow> nat \<Rightarrow> bool" where
  "bit_at b k = bit (words b ! (k div 64)) (k mod 64)"

definition put_bit :: "Bitmap \<Rightarrow> nat \<Rightarrow> bool \<Rightarrow> Bitmap" where
  "put_bit b i v = b\<lparr>words := (words b)[i div 64 :=
     (if v then or (words b ! (i div 64)) (push_bit (i mod 64) 1)
      else and (words b ! (i div 64)) (not (push_bit (i mod 64) 1)))]\<rparr>"

lemma nat_sdiv_smod [simp]: "int k sdiv 64 = int (k div 64)" "int k smod 64 = int (k mod 64)"
  by (simp_all add: signed_divide_int_def signed_modulo_int_def sgn_if zdiv_int zmod_int
      minus_div_mult_eq_mod)

lemma bit_mask_int [simp]: "bit_mask (int k) = push_bit k 1"
  by (simp add: bit_mask_def)

lemma and_exp_eq_0: "and (w :: uint64) (2 ^ k) = 0 \<longleftrightarrow> \<not> bit w k"
  by (simp add: bit_iff_and_push_bit_not_eq_0)

lemma wf_bitmap_word: "wf_bitmap b \<Longrightarrow> k < numBits b \<Longrightarrow> k div 64 < length (words b)"
  by (auto simp: wf_bitmap_def)

lemma SetBit_eq:
  assumes "wf_bitmap b" "i < numBits b"
  shows "SetBit b (int i) v = Some (bit_at b i, put_bit b i v)"
  using wf_bitmap_word [OF assms]
  by (simp add: SetBit_def bit_at_def put_bit_def and_exp_eq_0 Let_def)

lemma LoadBit_eq:
  assumes "wf_bitmap b" "i < numBits b"
  shows "LoadBit b (int i) = Some (bit_at b i)"
  using wf_bitmap_word [OF assms]
  by (simp add: LoadBit_def bit_at_def and_exp_eq_0 Let_def)

lemma div_mod_64_eqI: "i div 64 = j div 64 \<Longrightarrow> i mod 64 = j mod 64 \<Longrightarrow> i = (j :: nat)"
  by (metis div_mult_mod_eq)

interpretation bitmap: bit_array bit_at put_bit numBits wf_bitmap
proof unfold_locales
  fix s i j v
  assume wf: "wf_bitmap s" and i: "i < numBits s" and j: "j < numBits s"
  have len: "i div 64 < length (words s)" "j div 64 < length (words s)"
    using wf i j by (auto intro: wf_bitmap_word)
  show "bit_at (put_bit s i v) j = (if j = i then v else bit_at s j)"
  proof (cases "j div 64 = i div 64")
    case True
    then have "j mod 64 = i mod 64 \<longleftrightarrow> j = i" by (metis div_mod_64_eqI)
    with True len show ?thesis by (auto simp: bit_at_def put_bit_def bit_simps)
  next
    case False
    then show ?thesis by (auto simp: bit_at_def put_bit_def)
  qed
qed (auto simp: put_bit_def wf_bitmap_def)


section \<open>The search for a zero bit\<close>

lemma TrailingZeros64_props:
  assumes "x \<noteq> 0"
  shows "TrailingZeros64 x < 64" "bit x (TrailingZeros64 x)" "k < TrailingZeros64 x \<Longrightarrow> \<not> bit x k"
proof -
  let ?tw = "takeWhile (\<lambda>k. \<not> bit x k) [0..<64]"
  have nth: "j < length ?tw \<Longrightarrow> ?tw ! j = j" for j
    using length_takeWhile_le [of "\<lambda>k. \<not> bit x k" "[0..<64]"] by (subst takeWhile_nth) auto
  obtain k where k: "k < 64" "bit x k"
    using assms by (auto simp: bit_eq_iff dest: bit_imp_le_length)
  show "\<not> bit x k" if "k < TrailingZeros64 x" for k
    using that nth [of k] nth_mem [of k ?tw] set_takeWhileD by (fastforce simp: TrailingZeros64_def)
  then have "TrailingZeros64 x \<le> k" using k(2) by (meson not_le)
  then show lt: "TrailingZeros64 x < 64" using k by simp
  show "bit x (TrailingZeros64 x)"
    using lt nth_length_takeWhile [of "\<lambda>k. \<not> bit x k" "[0..<64]"] by (simp add: TrailingZeros64_def)
qed

definition word_full :: "Bitmap \<Rightarrow> nat \<Rightarrow> bool" where
  "word_full b c \<longleftrightarrow> (\<forall>k. k div 64 = c \<and> k < numBits b \<longrightarrow> bit_at b k)"

text \<open>The zero found in a word of which the bits below \<open>lo\<close> are masked out.\<close>

definition first_zero_in :: "Bitmap \<Rightarrow> nat \<Rightarrow> nat \<Rightarrow> nat \<Rightarrow> bool" where
  "first_zero_in b c lo r \<longleftrightarrow> r div 64 = c \<and> lo \<le> r \<and> \<not> bit_at b r \<and>
     (\<forall>k. k div 64 = c \<and> lo \<le> k \<and> k < r \<longrightarrow> bit_at b k)"

lemma bit_not_lt_64: "bit (not w :: uint64) k \<longleftrightarrow> k < 64 \<and> \<not> bit w k"
  by (auto simp: bit_simps)

lemma masked_word:
  fixes w :: uint64
  assumes "w = or (words b ! c) m" "\<And>k. bit m k \<longleftrightarrow> k < lo" "lo < 64"
  shows "w = not 0 \<Longrightarrow> k div 64 = c \<Longrightarrow> c * 64 + lo \<le> k \<Longrightarrow> bit_at b k"
    and "w \<noteq> not 0 \<Longrightarrow> first_zero_in b c (c * 64 + lo) (c * 64 + TrailingZeros64 (not w))"
proof -
  have at: "bit_at b k \<longleftrightarrow> bit w (k mod 64)" if "k div 64 = c" "c * 64 + lo \<le> k" for k
  proof -
    have "k mod 64 = k - c * 64" using that(1) by (metis minus_div_mult_eq_mod)
    then have "\<not> k mod 64 < lo" using that by linarith
    then show ?thesis using that assms(1,2) by (simp add: bit_at_def bit_or_iff)
  qed
  show "bit_at b k" if "w = not 0" "k div 64 = c" "c * 64 + lo \<le> k"
    using that at [of k] by (simp add: bit_simps)
  show "first_zero_in b c (c * 64 + lo) (c * 64 + TrailingZeros64 (not w))" if "w \<noteq> not 0"
  proof -
    let ?z = "TrailingZeros64 (not w)"
    have "not w \<noteq> 0" using that by (metis bit.double_compl)
    note z = TrailingZeros64_props [OF this]
    have "\<not> bit w ?z" using z(2) by (simp add: bit_not_lt_64)
    then have "lo \<le> ?z" using assms(1,2) by (auto simp: bit_or_iff)
    moreover have "bit_at b k" if "k div 64 = c" "c * 64 + lo \<le> k" "k < c * 64 + ?z" for k
    proof -
      have "k mod 64 = k - c * 64" using that(1) by (metis minus_div_mult_eq_mod)
      then have "k mod 64 < ?z" using that by linarith
      then show ?thesis using z(1) z(3) [of "k mod 64"] at [OF that(1,2)] by (simp add: bit_not_lt_64)
    qed
    moreover have "\<not> bit_at b (c * 64 + ?z)"
      using at [of "c * 64 + ?z"] z(1) \<open>lo \<le> ?z\<close> \<open>\<not> bit w ?z\<close> by simp
    ultimately show ?thesis using z(1) by (auto simp: first_zero_in_def)
  qed
qed

lemmas plain_word = masked_word [where lo = 0 and m = 0, simplified]

lemma find_zero_loop_spec:
  assumes "words b \<noteq> []"
  shows "\<exists>r. find_zero_loop b bi is = Some r \<and>
    (r = -1 \<and> (\<forall>i \<in> set is. word_full b ((bi + i) mod length (words b))) \<or>
     (\<exists>pre i post. is = pre @ i # post \<and> 0 \<le> r \<and> nat r < numBits b \<and>
        first_zero_in b ((bi + i) mod length (words b)) ((bi + i) mod length (words b) * 64) (nat r) \<and>
        (\<forall>i' \<in> set pre. word_full b ((bi + i') mod length (words b)))))"
proof (induction "is")
  case Nil
  then show ?case by simp
next
  case (Cons i "is")
  let ?c = "(bi + i) mod length (words b)"
  let ?w = "words b ! ?c"
  have c: "?c < length (words b)" using assms by simp
  let ?r = "?c * 64 + TrailingZeros64 (not ?w)"
  show ?case
  proof (cases "?w \<noteq> not 0 \<and> ?r < numBits b")
    case True
    then have "find_zero_loop b bi (i # is) = Some (int ?r)" using c by (simp add: Let_def)
    moreover have "first_zero_in b ?c (?c * 64) ?r" using True plain_word(2) [of ?w b ?c] by simp
    ultimately obtain r where "find_zero_loop b bi (i # is) = Some (int r)" "r < numBits b"
      "first_zero_in b ?c (?c * 64) r" using True by blast
    then show ?thesis
      by (intro exI [of _ "int r"] conjI disjI2 exI [of _ "[]"] exI [of _ i] exI [of _ "is"])
        (simp_all del: find_zero_loop.simps)
  next
    case False
    have full: "word_full b ?c"
    proof (cases "?w = not 0")
      case True
      then show ?thesis using plain_word(1) [of ?w b ?c] by (auto simp: word_full_def)
    next
      case w: False
      then have "first_zero_in b ?c (?c * 64) ?r" using plain_word(2) [of ?w b ?c] by simp
      then show ?thesis using False w by (fastforce simp: word_full_def first_zero_in_def)
    qed
    have eq: "find_zero_loop b bi (i # is) = find_zero_loop b bi is" using False c by (auto simp: Let_def)
    obtain r where r: "find_zero_loop b bi is = Some r"
      "r = -1 \<and> (\<forall>i \<in> set is. word_full b ((bi + i) mod length (words b))) \<or>
       (\<exists>pre i post. is = pre @ i # post \<and> 0 \<le> r \<and> nat r < numBits b \<and>
        first_zero_in b ((bi + i) mod length (words b)) ((bi + i) mod length (words b) * 64) (nat r) \<and>
        (\<forall>i' \<in> set pre. word_full b ((bi + i') mod length (words b))))"
      using Cons.IH by blast
    from r(2) show ?thesis
    proof
      assume "r = -1 \<and> (\<forall>i \<in> set is. word_full b ((bi + i) mod length (words b)))"
      then show ?thesis using full r(1) eq by auto
    next
      assume "\<exists>pre i post. is = pre @ i # post \<and> 0 \<le> r \<and> nat r < numBits b \<and>
        first_zero_in b ((bi + i) mod length (words b)) ((bi + i) mod length (words b) * 64) (nat r) \<and>
        (\<forall>i' \<in> set pre. word_full b ((bi + i') mod length (words b)))"
      then obtain pre i0 post where "is = pre @ i0 # post" "0 \<le> r" "nat r < numBits b"
        "first_zero_in b ((bi + i0) mod length (words b)) ((bi + i0) mod length (words b) * 64) (nat r)"
        "\<forall>i' \<in> set pre. word_full b ((bi + i') mod length (words b))" by blast
      then show ?thesis
        using full r(1) eq by (intro exI [of _ r] conjI disjI2 exI [of _ "i # pre"]) auto
    qed
  qed
qed


lemma bit_low_mask: "bit (push_bit n 1 - 1 :: uint64) k \<longleftrightarrow> k < n \<and> k < 64"
proof -
  have "push_bit n 1 - 1 = (mask n :: uint64)" by (simp add: mask_eq_exp_minus_1)
  then show ?thesis by (auto simp: bit_simps)
qed

text \<open>
  The answer the search owes to its caller: with \<open>h\<close> the hint reduced to the bitmap, no zero bit at
  all, or the first zero bit at or after \<open>h\<close>, or, when there is none, the first one from index 0.
\<close>

definition first_zero_cyclic :: "Bitmap \<Rightarrow> nat \<Rightarrow> int \<Rightarrow> bool" where
  "first_zero_cyclic b h r \<longleftrightarrow>
     (if \<forall>k < numBits b. bit_at b k then r = -1
      else 0 \<le> r \<and> nat r < numBits b \<and> \<not> bit_at b (nat r) \<and>
        (\<forall>k. h \<le> k \<and> k < numBits b \<and> (nat r < h \<or> k < nat r) \<longrightarrow> bit_at b k) \<and>
        (nat r < h \<longrightarrow> (\<forall>k < nat r. bit_at b k)))"

text \<open>The place of a word in the wrap-around order of the loop.\<close>

lemma wrap_position:
  fixes c :: nat
  assumes "c < L" "bi < L"
  defines "i \<equiv> if bi < c then c - bi else L - bi + c"
  shows "(bi + i) mod L = c" "1 \<le> i" "i < Suc L"
  using assms by (auto simp: mod_if)

lemma upt_split_mem: "[1..<Suc L] = pre @ i # post \<Longrightarrow> set pre = {1..<i} \<and> 1 \<le> i \<and> i \<le> L"
proof -
  assume eq: "[1..<Suc L] = pre @ i # post"
  from arg_cong [OF eq, of length] have len: "length pre < L" by (simp del: upt_Suc)
  have "[1..<Suc L] ! length pre = i" by (simp only: eq nth_append_length)
  then have "i = 1 + length pre" using len nth_upt [of 1 "length pre" "Suc L"] by (simp del: upt_Suc)
  moreover have "pre = [1..<1 + length pre]"
    using take_upt [of 1 "length pre" "Suc L"] len unfolding eq by simp
  then have "set pre = {1..<1 + length pre}" using set_upt by metis
  ultimately have "i = 1 + length pre" "set pre = {1..<1 + length pre}" by simp_all
  then show ?thesis using len by auto
qed

lemma find_zero_wrapped:
  assumes wf: "wf_bitmap b" and h: "h < numBits b"
    and tail: "\<And>k. k div 64 = h div 64 \<Longrightarrow> h \<le> k \<Longrightarrow> k < numBits b \<Longrightarrow> bit_at b k"
    and r: "find_zero_loop b (h div 64) [1..<Suc (length (words b))] = Some r"
  shows "first_zero_cyclic b h r"
proof -
  let ?L = "length (words b)" and ?bi = "h div 64"
  have bi: "?bi < ?L" using wf h by (rule wf_bitmap_word)
  define pos where "pos c = (if ?bi < c then c - ?bi else ?L - ?bi + c)" for c
  have pos: "(?bi + pos c) mod ?L = c \<and> 1 \<le> pos c \<and> pos c < Suc ?L" if "c < ?L" for c
    using wrap_position [OF that bi] by (simp add: pos_def)
  have word: "k div 64 < ?L" if "k < numBits b" for k using wf that by (rule wf_bitmap_word)
  have "words b \<noteq> []" using bi by auto
  from find_zero_loop_spec [OF this, of ?bi "[1..<Suc ?L]"] r
  consider (none) "r = -1" "\<forall>i \<in> set [1..<Suc ?L]. word_full b ((?bi + i) mod ?L)"
    | (found) pre i post where "[1..<Suc ?L] = pre @ i # post" "0 \<le> r" "nat r < numBits b"
      "first_zero_in b ((?bi + i) mod ?L) ((?bi + i) mod ?L * 64) (nat r)"
      "\<forall>i' \<in> set pre. word_full b ((?bi + i') mod ?L)"
    by auto
  then show ?thesis
  proof cases
    case none
    have "bit_at b k" if "k < numBits b" for k
    proof -
      have "word_full b ((?bi + pos (k div 64)) mod ?L)"
        using none(2) pos [OF word [OF that]] by (metis atLeastLessThan_iff set_upt)
      then show ?thesis using pos [OF word [OF that]] that by (simp add: word_full_def)
    qed
    then show ?thesis using none(1) by (simp add: first_zero_cyclic_def)
  next
    case found
    define c where "c = (?bi + i) mod ?L"
    have i: "set pre = {1..<i}" "1 \<le> i" "i \<le> ?L" using upt_split_mem [OF found(1)] by auto
    have zero: "nat r div 64 = c" "\<not> bit_at b (nat r)"
      "\<And>k. k div 64 = c \<Longrightarrow> k < nat r \<Longrightarrow> bit_at b k"
      using found(4) by (auto simp: first_zero_in_def c_def)
    have full: "bit_at b k" if "k < numBits b" "pos (k div 64) < i" for k
    proof -
      have "word_full b ((?bi + pos (k div 64)) mod ?L)"
        using i(1) that(2) pos [OF word [OF that(1)]] by (intro found(5) [rule_format]) simp
      then show ?thesis using pos [OF word [OF that(1)]] that(1) by (simp add: word_full_def)
    qed
    have inpos: "i = pos c"
      using i bi by (auto simp: pos_def c_def mod_if split: if_splits)
    have below: "bit_at b k" if "k < nat r" "pos (k div 64) < i \<or> k div 64 = c" for k
      using that found(3) zero(3) full by auto
    have "bit_at b k" if "h \<le> k" "k < numBits b" "nat r < h \<or> k < nat r" for k
    proof -
      have "?bi \<le> k div 64" using that(1) by (rule div_le_mono)
      then consider "k div 64 = ?bi" | "?bi < k div 64" by linarith
      then show ?thesis
      proof cases
        case 1
        then show ?thesis using tail that by blast
      next
        case 2
        from that(3) show ?thesis
        proof
          assume "nat r < h"
          then have "c \<le> ?bi" using div_le_mono [of "nat r" h 64] zero(1) by simp
          then have "pos (k div 64) < i"
            unfolding inpos using 2 word [OF that(2)] by (simp add: pos_def)
          then show ?thesis using full that(2) by blast
        next
          assume "k < nat r"
          then have "k div 64 \<le> c" using div_le_mono [of k "nat r" 64] zero(1) by simp
          then have "pos (k div 64) < i \<or> k div 64 = c"
            unfolding inpos using 2 by (auto simp: pos_def)
          then show ?thesis using below \<open>k < nat r\<close> by blast
        qed
      qed
    qed
    moreover have "bit_at b k" if "nat r < h" "k < nat r" for k
    proof -
      have "k div 64 \<le> c" "c \<le> ?bi" using that div_le_mono [of k "nat r" 64] div_le_mono [of "nat r" h 64] zero(1) by auto
      then have "pos (k div 64) < i \<or> k div 64 = c" unfolding inpos by (auto simp: pos_def)
      then show ?thesis using below that(2) by blast
    qed
    ultimately show ?thesis
      using found(2,3) zero(2) by (auto simp: first_zero_cyclic_def)
  qed
qed


section \<open>Views of bytes\<close>

lemma AsBitmap_eq:
  assumes "length data mod 8 = 0" "((n + 63) div 64) * 8 \<le> length data" "data \<noteq> []"
  shows "AsBitmap data n =
    Some \<lparr>words = map (\<lambda>i. le_word (seg (8 * i) 8 data)) [0..<(n + 63) div 64], numBits = n\<rparr>"
  using assms by (simp add: AsBitmap_def AlignedTo8_def idx_def Let_def)

lemma length_concat_le_bytes: "length (concat (map (le_bytes 8) ws)) = 8 * length ws"
  by (induction ws) auto

lemma seg_concat_le_bytes:
  "i < length ws \<Longrightarrow> seg (8 * i) 8 (concat (map (le_bytes 8) ws)) = le_bytes 8 (ws ! i)"
proof (induction ws arbitrary: i)
  case (Cons w ws)
  then show ?case
    by (cases i) (auto simp: seg_append1 seg_append2)
qed simp

text \<open>Reading the view of a slice that a view has been written to gives that view again.\<close>

lemma AsBitmap_bitmap_store:
  assumes "AsBitmap data n = Some b0" "wf_bitmap b" "numBits b = n"
  shows "AsBitmap (bitmap_store b data) n = Some b"
proof -
  from assms(1) have d: "length data mod 8 = 0" "((n + 63) div 64) * 8 \<le> length data" "data \<noteq> []"
    by (auto simp: AsBitmap_def AlignedTo8_def bind_eq_Some_conv Let_def)
  have len: "length (words b) = (n + 63) div 64" using assms(2,3) by (simp add: wf_bitmap_def)
  have "le_word (seg (8 * i) 8 (bitmap_store b data)) = words b ! i" if "i < length (words b)" for i
  proof -
    have "seg (8 * i) 8 (bitmap_store b data) = seg (8 * i) 8 (concat (map (le_bytes 8) (words b)))"
      unfolding bitmap_store_def
      using that d(2) len by (subst seg_blit_inside) (auto simp: length_concat_le_bytes)
    then show ?thesis using that by (simp add: seg_concat_le_bytes)
  qed
  then have "map (\<lambda>i. le_word (seg (8 * i) 8 (bitmap_store b data))) [0..<length (words b)] = words b"
    by (intro nth_equalityI) auto
  moreover have l: "length (bitmap_store b data) = length data" by (simp add: bitmap_store_def)
  moreover have "bitmap_store b data \<noteq> []" using l d(3) by (metis length_0_conv)
  ultimately show ?thesis
    using d len assms(3) by (simp add: AsBitmap_eq)
qed

lemma AsBitmap_wf: "AsBitmap data n = Some b \<Longrightarrow> wf_bitmap b \<and> numBits b = n"
  by (auto simp: AsBitmap_def bind_eq_Some_conv wf_bitmap_def Let_def)

lemma FindFirstZero_spec:
  assumes "wf_bitmap b"
  shows "\<exists>r. FindFirstZero b hint = Some r \<and> first_zero_cyclic b (hint mod numBits b) r"
proof (cases "numBits b = 0")
  case True
  then show ?thesis by (simp add: FindFirstZero_def first_zero_cyclic_def)
next
  case False
  define h where "h = hint mod numBits b"
  let ?bi = "h div 64" and ?lo = "h mod 64"
  let ?w = "or (words b ! ?bi) (push_bit ?lo 1 - 1)"
  let ?r = "?bi * 64 + TrailingZeros64 (not ?w)"
  have h: "h < numBits b" using False by (simp add: h_def)
  have bi: "?bi < length (words b)" using assms h by (rule wf_bitmap_word)
  have at: "?bi * 64 + ?lo = h" by simp
  have m: "bit (push_bit ?lo 1 - 1 :: uint64) k \<longleftrightarrow> k < ?lo" for k
    using bit_low_mask [of ?lo k] by auto
  have lo: "?lo < 64" by simp
  note word = masked_word [OF refl m lo, of b ?bi, unfolded at]
  show ?thesis
  proof (cases "?w \<noteq> not 0 \<and> ?r < numBits b")
    case True
    then have fz: "first_zero_in b ?bi h ?r" using word(2) by blast
    have "bit_at b k" if "h \<le> k" "k < ?r" for k
    proof -
      have "?bi \<le> k div 64" "k div 64 \<le> ?r div 64" using that by (auto intro: div_le_mono)
      then show ?thesis using fz that by (auto simp: first_zero_in_def)
    qed
    then have "first_zero_cyclic b h (int ?r)"
      using fz True unfolding first_zero_cyclic_def first_zero_in_def nat_int by auto
    moreover have "FindFirstZero b hint = Some (int ?r)"
      using True bi False unfolding FindFirstZero_def by (simp add: h_def [symmetric] Let_def)
    ultimately show ?thesis unfolding h_def by blast
  next
    case nf: False
    have tail: "bit_at b k" if "k div 64 = ?bi" "h \<le> k" "k < numBits b" for k
    proof (cases "?w = not 0")
      case True
      then show ?thesis using word(1) [of k] that by blast
    next
      case False
      then have "first_zero_in b ?bi h ?r" using word(2) by blast
      then show ?thesis using nf False that by (auto simp: first_zero_in_def)
    qed
    have ne: "words b \<noteq> []" using bi by auto
    then obtain r where r: "find_zero_loop b ?bi [1..<Suc (length (words b))] = Some r"
      using find_zero_loop_spec [OF ne] by blast
    then have "FindFirstZero b hint = Some r"
      using nf bi False unfolding FindFirstZero_def
      by (auto simp: h_def [symmetric] Let_def simp del: upt_Suc)
    then show ?thesis using find_zero_wrapped [OF assms h tail r] unfolding h_def by blast
  qed
qed

section \<open>Properties\<close>

text \<open>
  \<open>FindFirstZero\<close> never panics on a bitmap with the words \<open>AsBitmap\<close> gives it. It returns -1
  exactly when every bit is set; otherwise it returns a zero bit, the first one at or after the hint
  (taken modulo the number of bits), or the first one of the bitmap when the rest is full.
\<close>

theorem FindFirstZero_first:
  assumes "wf_bitmap b"
  shows "\<exists>r. FindFirstZero b hint = Some r \<and> first_zero_cyclic b (hint mod numBits b) r"
  using assms by (rule FindFirstZero_spec)

theorem FindFirstZero_first_witness:
  "\<exists>r. FindFirstZero \<lparr>words = [7], numBits = 10\<rparr> 1 = Some r \<and>
    first_zero_cyclic \<lparr>words = [7], numBits = 10\<rparr> (1 mod numBits \<lparr>words = [7], numBits = 10\<rparr>) r"
  by (rule FindFirstZero_first) (simp add: wf_bitmap_def)

text \<open>
  \<open>SetBit\<close> on an index of the bitmap returns the previous value of the bit and the bitmap in
  which \<open>LoadBit\<close> gives the new value at that index and the old value at every other index.
\<close>

theorem SetBit_LoadBit:
  assumes "wf_bitmap b" "i < numBits b"
  shows "\<exists>b'. SetBit b (int i) v = Some (bit_at b i, b') \<and> wf_bitmap b' \<and> numBits b' = numBits b \<and>
    (\<forall>j < numBits b. LoadBit b' (int j) = (if j = i then Some v else LoadBit b (int j)))"
proof -
  let ?b' = "put_bit b i v"
  have wf: "wf_bitmap ?b'" "numBits ?b' = numBits b"
    using bitmap.inv_put [OF assms] bitmap.bits_put [OF assms] by auto
  moreover have "LoadBit ?b' (int j) = (if j = i then Some v else LoadBit b (int j))"
    if "j < numBits b" for j
    using that wf assms bitmap.load_put [OF assms that] by (simp add: LoadBit_eq)
  ultimately show ?thesis using SetBit_eq [OF assms] by blast
qed

theorem SetBit_LoadBit_witness:
  "\<exists>b'. SetBit \<lparr>words = [5, 0], numBits = 70\<rparr> (int 66) True =
      Some (bit_at \<lparr>words = [5, 0], numBits = 70\<rparr> 66, b') \<and> wf_bitmap b' \<and>
    numBits b' = numBits \<lparr>words = [5, 0], numBits = 70\<rparr> \<and>
    (\<forall>j < numBits \<lparr>words = [5, 0], numBits = 70\<rparr>.
       LoadBit b' (int j) = (if j = 66 then Some True else LoadBit \<lparr>words = [5, 0], numBits = 70\<rparr> (int j)))"
  by (rule SetBit_LoadBit) (simp_all add: wf_bitmap_def)

end
