(* ===== verification/Storage_HeapPage.thy ===== *)
theory Storage_HeapPage
  imports Storage_Bitmap Storage_Tuple
begin

text \<open>
  Pages in memory (\<open>storage/page.go\<close>) and the slotted layout of heap pages (\<open>storage/heap_page.go\<close>).

  A \<open>PageFrame\<close> is a record; \<open>HeapPage\<close>, which embeds a pointer to its frame, extends it. The latches
  are not part of the state of sequential operations. The frame's byte array has a fixed length, so
  reads and writes at constant offsets are total; slices at computed offsets are partial.

  The update of the page LSN is a compare-and-swap loop that other threads may interleave with: it is
  modelled as a step relation between any number of threads.
\<close>

section \<open>Frames\<close>

record PageFrame =
  Bytes :: bytes
  pf_pageID :: PageID
  pinCount :: int32
  isDirty :: bool
  refCount :: int32

type_synonym LSN = int64

text \<open>On a little-endian and, after \<open>ReverseBytes64\<close>, on a big-endian machine the LSN is read and
  written as the little-endian integer of the first 8 bytes.\<close>

definition pageOffsetLSN :: nat where [simp]: "pageOffsetLSN = 0"

definition PageFrame_LSN :: "'a PageFrame_scheme \<Rightarrow> LSN" where
  "PageFrame_LSN frame = le_word (seg pageOffsetLSN 8 (Bytes frame))"

text \<open>The update when no other thread writes the LSN meanwhile: the first compare-and-swap succeeds.\<close>

definition MonotonicallyUpdateLSN :: "LSN \<Rightarrow> 'a PageFrame_scheme \<Rightarrow> 'a PageFrame_scheme" where
  "MonotonicallyUpdateLSN lsn frame =
     (let newVal = lsn; logicalCurrent = PageFrame_LSN frame in
      if newVal \<le> logicalCurrent then frame
      else frame\<lparr>Bytes := blit pageOffsetLSN (le_bytes 8 newVal) (Bytes frame)\<rparr>)"

text \<open>
  The loop under interleaving: a thread is about to load (\<open>Start\<close>), has loaded a value it may swap
  (\<open>Loaded\<close>) or has returned. A failed swap goes back to the load.
\<close>

datatype lsn_pc = Start uint64 | Loaded uint64 uint64 | Returned uint64

inductive lsn_step :: "uint64 \<times> lsn_pc list \<Rightarrow> uint64 \<times> lsn_pc list \<Rightarrow> bool" where
  load_return: "i < length ts \<Longrightarrow> ts ! i = Start n \<Longrightarrow> n \<le> cur \<Longrightarrow>
    lsn_step (cur, ts) (cur, ts[i := Returned n])"
| load_go: "i < length ts \<Longrightarrow> ts ! i = Start n \<Longrightarrow> \<not> n \<le> cur \<Longrightarrow>
    lsn_step (cur, ts) (cur, ts[i := Loaded n cur])"
| swap: "i < length ts \<Longrightarrow> ts ! i = Loaded n old \<Longrightarrow> old = cur \<Longrightarrow>
    lsn_step (cur, ts) (n, ts[i := Returned n])"
| retry: "i < length ts \<Longrightarrow> ts ! i = Loaded n old \<Longrightarrow> old \<noteq> cur \<Longrightarrow>
    lsn_step (cur, ts) (cur, ts[i := Start n])"

fun lsn_arg :: "lsn_pc \<Rightarrow> uint64" where
  "lsn_arg (Start n) = n"
| "lsn_arg (Loaded n old) = n"
| "lsn_arg (Returned n) = n"

definition lsn_inv :: "uint64 \<Rightarrow> uint64 list \<Rightarrow> uint64 \<times> lsn_pc list \<Rightarrow> bool" where
  "lsn_inv v0 ns s \<longleftrightarrow> (case s of (cur, ts) \<Rightarrow>
     map lsn_arg ts = ns \<and> v0 \<le> cur \<and> cur \<in> insert v0 (set ns) \<and>
     (\<forall>t \<in> set ts. case t of Start n \<Rightarrow> True | Loaded n old \<Rightarrow> old < n | Returned n \<Rightarrow> n \<le> cur))"

section \<open>Heap pages\<close>

record HeapPage = PageFrame +
  allocOffset :: nat
  deletedOffset :: nat
  tupleOffset :: nat

definition get_u16 :: "nat \<Rightarrow> bytes \<Rightarrow> uint16" where
  "get_u16 off bs = le_word (seg off 2 bs)"

definition NumUsed :: "'a PageFrame_scheme \<Rightarrow> nat" where
  "NumUsed hp = unat (get_u16 12 (Bytes hp))"

definition setNumUsed :: "int \<Rightarrow> 'a PageFrame_scheme \<Rightarrow> 'a PageFrame_scheme" where
  "setNumUsed numUsed hp = hp\<lparr>Bytes := blit 12 (le_bytes 2 (word_of_int numUsed :: uint16)) (Bytes hp)\<rparr>"

definition NumSlots :: "'a PageFrame_scheme \<Rightarrow> nat" where
  "NumSlots hp = unat (get_u16 10 (Bytes hp))"

definition RowSize :: "'a PageFrame_scheme \<Rightarrow> nat" where
  "RowSize hp = unat (get_u16 8 (Bytes hp))"

text \<open>The search for the number of slots: the loop stops at the first count that does not fit.\<close>

definition slots_bytes :: "nat \<Rightarrow> nat \<Rightarrow> nat" where
  "slots_bytes rowSize totalSlots =
     16 + 2 * (((totalSlots + 63) div 64) * 8) + totalSlots * rowSize"

function slots_loop :: "nat \<Rightarrow> nat \<Rightarrow> nat \<Rightarrow> nat" where
  "slots_loop rowSize totalSlots maxSlots =
     (if totalSlots \<le> PageSize then
        (if slots_bytes rowSize totalSlots \<le> PageSize
         then slots_loop rowSize (totalSlots + 1) totalSlots
         else maxSlots)
      else maxSlots)"
  by pat_completeness auto
termination by (relation "measure (\<lambda>(r, t, m). Suc PageSize - t)") auto

declare slots_loop.simps [simp del]

definition InitializeHeapPage :: "RawTupleDesc \<Rightarrow> 'a PageFrame_scheme \<Rightarrow> 'a PageFrame_scheme" where
  "InitializeHeapPage desc frame =
     (let rowSize = BytesPerTuple desc;
          maxSlots = slots_loop rowSize 1 0;
          bs = replicate (length (Bytes frame)) 0;
          bs = blit 8 (le_bytes 2 (of_nat rowSize :: uint16)) bs;
          bs = blit 10 (le_bytes 2 (of_nat maxSlots :: uint16)) bs;
          bs = blit 12 (le_bytes 2 (0 :: uint16)) bs
      in frame\<lparr>Bytes := bs\<rparr>)"

definition AsHeapPage :: "PageFrame \<Rightarrow> HeapPage" where
  "AsHeapPage frame =
     (let numSlots = unat (get_u16 10 (Bytes frame));
          bitmapSize = ((numSlots + 63) div 64) * 8
      in PageFrame.extend frame
           \<lparr>allocOffset = 16, deletedOffset = 16 + bitmapSize, tupleOffset = 16 + 2 * bitmapSize\<rparr>)"

definition FindFreeSlot :: "HeapPage \<Rightarrow> int option" where
  "FindFreeSlot hp = do {
     s \<leftarrow> slice (Bytes hp) (allocOffset hp) (deletedOffset hp);
     allocMap \<leftarrow> AsBitmap s (NumSlots hp);
     FindFirstZero allocMap 0
   }"

definition IsAllocated :: "HeapPage \<Rightarrow> RecordID \<Rightarrow> bool option" where
  "IsAllocated hp rid = do {
     s \<leftarrow> slice (Bytes hp) (allocOffset hp) (deletedOffset hp);
     bm \<leftarrow> AsBitmap s (NumSlots hp);
     LoadBit bm (sint (Slot rid))
   }"

definition IsDeleted :: "HeapPage \<Rightarrow> RecordID \<Rightarrow> bool option" where
  "IsDeleted hp rid = do {
     s \<leftarrow> slice (Bytes hp) (deletedOffset hp) (tupleOffset hp);
     bm \<leftarrow> AsBitmap s (NumSlots hp);
     LoadBit bm (sint (Slot rid))
   }"

definition MarkDeleted :: "HeapPage \<Rightarrow> RecordID \<Rightarrow> bool \<Rightarrow> HeapPage option" where
  "MarkDeleted hp rid deleted = do {
     s \<leftarrow> slice (Bytes hp) (deletedOffset hp) (tupleOffset hp);
     bm \<leftarrow> AsBitmap s (NumSlots hp);
     (_, bm) \<leftarrow> SetBit bm (sint (Slot rid)) deleted;
     Some (hp\<lparr>Bytes := blit (deletedOffset hp) (bitmap_store bm s) (Bytes hp)\<rparr>)
   }"

definition MarkAllocated :: "HeapPage \<Rightarrow> RecordID \<Rightarrow> bool \<Rightarrow> HeapPage option" where
  "MarkAllocated hp rid allocated = do {
     s \<leftarrow> slice (Bytes hp) (allocOffset hp) (deletedOffset hp);
     bm \<leftarrow> AsBitmap s (NumSlots hp);
     (wasAllocated, bm) \<leftarrow> SetBit bm (sint (Slot rid)) allocated;
     let hp = hp\<lparr>Bytes := blit (allocOffset hp) (bitmap_store bm s) (Bytes hp)\<rparr>;
     let hp = (if allocated \<and> \<not> wasAllocated then setNumUsed (int (NumUsed hp) + 1) hp
               else if \<not> allocated \<and> wasAllocated then setNumUsed (int (NumUsed hp) - 1) hp
               else hp);
     (if \<not> allocated then MarkDeleted hp rid False else MarkDeleted hp rid False)
   }"

text \<open>\<open>AccessTuple\<close> returns a window of the page: its position, and the bytes read through it.\<close>

definition AccessTuple_bounds :: "HeapPage \<Rightarrow> RecordID \<Rightarrow> (nat \<times> nat) option" where
  "AccessTuple_bounds hp rid =
     (let start = int (tupleOffset hp) + sint (Slot rid) * int (RowSize hp);
          stop = start + int (RowSize hp)
      in if 0 \<le> start \<and> stop \<le> int (length (Bytes hp)) then Some (nat start, nat stop) else None)"

definition AccessTuple :: "HeapPage \<Rightarrow> RecordID \<Rightarrow> bytes option" where
  "AccessTuple hp rid = do {
     (start, stop) \<leftarrow> AccessTuple_bounds hp rid;
     slice (Bytes hp) start stop
   }"

text \<open>\<open>copy(hp.AccessTuple(rid), row)\<close>, how its callers write through that window.\<close>

definition copy_to_tuple :: "HeapPage \<Rightarrow> RecordID \<Rightarrow> bytes \<Rightarrow> HeapPage option" where
  "copy_to_tuple hp rid row = do {
     (start, stop) \<leftarrow> AccessTuple_bounds hp rid;
     s \<leftarrow> slice (Bytes hp) start stop;
     Some (hp\<lparr>Bytes := blit start (blit 0 row s) (Bytes hp)\<rparr>)
   }"

section \<open>The page LSN\<close>

lemma lsn_inv_step: "lsn_step s s' \<Longrightarrow> lsn_inv v0 ns s \<Longrightarrow> lsn_inv v0 ns s' \<and> fst s \<le> fst s'"
proof (induction rule: lsn_step.induct)
  case (load_return i ts n cur)
  have "map lsn_arg (ts[i := Returned n]) = map lsn_arg ts"
    using load_return by (intro nth_equalityI) (auto simp: nth_list_update)
  then show ?case using load_return set_update_subset_insert [of ts i "Returned n"]
    by (fastforce simp: lsn_inv_def)
next
  case (load_go i ts n cur)
  have "map lsn_arg (ts[i := Loaded n cur]) = map lsn_arg ts"
    using load_go by (intro nth_equalityI) (auto simp: nth_list_update)
  then show ?case using load_go set_update_subset_insert [of ts i "Loaded n cur"]
    by (fastforce simp: lsn_inv_def)
next
  case (swap i ts n old cur)
  have m: "map lsn_arg (ts[i := Returned n]) = map lsn_arg ts"
    using swap by (intro nth_equalityI) (auto simp: nth_list_update)
  have "Loaded n old \<in> set ts" using swap.hyps(1,2) by (metis nth_mem)
  then have "old < n" "n \<in> set ns" using swap.prems by (force simp: lsn_inv_def)+
  moreover have "case t of Start n' \<Rightarrow> True | Loaded n' o' \<Rightarrow> o' < n' | Returned n' \<Rightarrow> n' \<le> n"
    if "t \<in> set (ts[i := Returned n])" for t
  proof (cases "t = Returned n")
    case False
    then have "t \<in> set ts" using that set_update_subset_insert [of ts i "Returned n"] by auto
    then show ?thesis using swap.prems swap.hyps(3) \<open>old < n\<close>
      by (fastforce simp: lsn_inv_def split: lsn_pc.splits)
  qed simp
  ultimately show ?case using swap.prems swap.hyps(3) m by (auto simp: lsn_inv_def)
next
  case (retry i ts n old cur)
  have "map lsn_arg (ts[i := Start n]) = map lsn_arg ts"
    using retry by (intro nth_equalityI) (auto simp: nth_list_update)
  then show ?case using retry set_update_subset_insert [of ts i "Start n"]
    by (fastforce simp: lsn_inv_def)
qed

lemma lsn_inv_steps:
  "lsn_step\<^sup>*\<^sup>* s s' \<Longrightarrow> lsn_inv v0 ns s \<Longrightarrow> lsn_inv v0 ns s' \<and> fst s \<le> fst s'"
proof (induction rule: rtranclp_induct)
  case (step y z)
  then show ?case using lsn_inv_step [of y z v0 ns] by auto
qed simp

lemma lsn_inv_start: "lsn_inv v0 ns (v0, map Start ns)"
  by (auto simp: lsn_inv_def comp_def)


section \<open>A bitmap inside a page\<close>

definition map_bytes :: "nat \<Rightarrow> nat" where
  "map_bytes n = ((n + 63) div 64) * 8"

definition area_map :: "nat \<Rightarrow> nat \<Rightarrow> bytes \<Rightarrow> Bitmap" where
  "area_map off n bs = the (AsBitmap (seg off (map_bytes n) bs) n)"

definition area_bit :: "nat \<Rightarrow> nat \<Rightarrow> bytes \<Rightarrow> nat \<Rightarrow> bool" where
  "area_bit off n bs k = bit_at (area_map off n bs) k"

definition area_put :: "nat \<Rightarrow> nat \<Rightarrow> bytes \<Rightarrow> nat \<Rightarrow> bool \<Rightarrow> bytes" where
  "area_put off n bs i v =
     blit off (bitmap_store (put_bit (area_map off n bs) i v) (seg off (map_bytes n) bs)) bs"

definition area_ok :: "nat \<Rightarrow> nat \<Rightarrow> bytes \<Rightarrow> bool" where
  "area_ok off n bs \<longleftrightarrow> 0 < n \<and> off + map_bytes n \<le> length bs"

lemma length_bitmap_store [simp]: "length (bitmap_store b s) = length s"
  by (simp add: bitmap_store_def)

lemma length_area_put [simp]: "length (area_put off n bs i v) = length bs"
  by (simp add: area_put_def)

lemma AsBitmap_area:
  assumes "area_ok off n bs"
  shows "AsBitmap (seg off (map_bytes n) bs) n = Some (area_map off n bs)"
proof -
  have "0 < map_bytes n" using assms by (auto simp: area_ok_def map_bytes_def)
  then have "seg off (map_bytes n) bs \<noteq> []" using assms by (auto simp: area_ok_def seg_def)
  then show ?thesis
    unfolding area_map_def using assms
    by (subst AsBitmap_eq; (subst AsBitmap_eq)?) (auto simp: area_ok_def map_bytes_def)
qed

lemma area_map_wf:
  assumes "area_ok off n bs"
  shows "wf_bitmap (area_map off n bs)" "numBits (area_map off n bs) = n"
  using AsBitmap_wf [OF AsBitmap_area [OF assms]] by auto

lemma area_map_put:
  assumes "area_ok off n bs" "i < n"
  shows "area_map off n (area_put off n bs i v) = put_bit (area_map off n bs) i v"
proof -
  let ?b = "put_bit (area_map off n bs) i v" and ?s = "seg off (map_bytes n) bs"
  have "wf_bitmap ?b" "numBits ?b = n"
    using bitmap.inv_put bitmap.bits_put area_map_wf [OF assms(1)] assms(2) by auto
  then have "AsBitmap (bitmap_store ?b ?s) n = Some ?b"
    by (rule AsBitmap_bitmap_store [OF AsBitmap_area [OF assms(1)]])
  moreover have "seg off (map_bytes n) (area_put off n bs i v) = bitmap_store ?b ?s"
    unfolding area_put_def using assms(1) by (intro seg_blit_same) (auto simp: area_ok_def)
  ultimately show ?thesis by (simp add: area_map_def)
qed

interpretation area: bit_array "area_bit off n" "area_put off n" "\<lambda>_. n" "area_ok off n" for off n
proof unfold_locales
  fix s i j v
  assume *: "area_ok off n s" "i < n" "j < n"
  show "area_bit off n (area_put off n s i v) j = (if j = i then v else area_bit off n s j)"
    using * bitmap.load_put area_map_wf [OF *(1)] by (simp add: area_bit_def area_map_put)
qed (auto simp: area_ok_def)

lemma seg_area_put:
  assumes "o' + m \<le> off \<or> off + map_bytes n \<le> o'"
  shows "seg o' m (area_put off n bs i v) = seg o' m bs"
  unfolding area_put_def using assms by (intro seg_blit_disjoint) auto

lemma area_bit_seg:
  "seg off (map_bytes n) bs = seg off (map_bytes n) bs' \<Longrightarrow> area_bit off n bs = area_bit off n bs'"
  by (simp add: area_bit_def area_map_def fun_eq_iff)

section \<open>The abstract page\<close>

text \<open>
  A page is a list of slots, each with its allocation flag, its deletion mark and its row. The header
  counts the allocated slots.
\<close>

type_synonym slot = "bool \<times> bool \<times> bytes"

definition allocated :: "HeapPage \<Rightarrow> nat \<Rightarrow> bool" where
  "allocated hp k = area_bit 16 (NumSlots hp) (Bytes hp) k"

definition deleted :: "HeapPage \<Rightarrow> nat \<Rightarrow> bool" where
  "deleted hp k = area_bit (16 + map_bytes (NumSlots hp)) (NumSlots hp) (Bytes hp) k"

definition slot_bytes :: "HeapPage \<Rightarrow> nat \<Rightarrow> bytes" where
  "slot_bytes hp k = seg (16 + 2 * map_bytes (NumSlots hp) + k * RowSize hp) (RowSize hp) (Bytes hp)"

definition abs_page :: "HeapPage \<Rightarrow> slot list" where
  "abs_page hp = map (\<lambda>k. (allocated hp k, deleted hp k, slot_bytes hp k)) [0..<NumSlots hp]"

definition wf_layout :: "HeapPage \<Rightarrow> bool" where
  "wf_layout hp \<longleftrightarrow> length (Bytes hp) = PageSize \<and> 0 < NumSlots hp \<and>
     allocOffset hp = 16 \<and> deletedOffset hp = 16 + map_bytes (NumSlots hp) \<and>
     tupleOffset hp = 16 + 2 * map_bytes (NumSlots hp) \<and>
     tupleOffset hp + NumSlots hp * RowSize hp \<le> PageSize"

definition used_slots :: "slot list \<Rightarrow> nat" where
  "used_slots ss = length (filter fst ss)"

definition wf_heap_page :: "HeapPage \<Rightarrow> bool" where
  "wf_heap_page hp \<longleftrightarrow> wf_layout hp \<and> NumUsed hp = used_slots (abs_page hp)"

definition at_slot :: "RecordID \<Rightarrow> nat \<Rightarrow> bool" where
  "at_slot rid k \<longleftrightarrow> sint (Slot rid) = int k"

lemma length_abs_page [simp]: "length (abs_page hp) = NumSlots hp"
  by (simp add: abs_page_def)

lemma abs_page_nth [simp]:
  "k < NumSlots hp \<Longrightarrow> abs_page hp ! k = (allocated hp k, deleted hp k, slot_bytes hp k)"
  by (simp add: abs_page_def)

lemma wf_layout_areas:
  assumes "wf_layout hp"
  shows "area_ok 16 (NumSlots hp) (Bytes hp)"
    "area_ok (16 + map_bytes (NumSlots hp)) (NumSlots hp) (Bytes hp)"
  using assms by (auto simp: wf_layout_def area_ok_def)

lemma wf_layout_slices:
  assumes "wf_layout hp"
  shows "slice (Bytes hp) (allocOffset hp) (deletedOffset hp) = Some (seg 16 (map_bytes (NumSlots hp)) (Bytes hp))"
    "slice (Bytes hp) (deletedOffset hp) (tupleOffset hp) =
       Some (seg (16 + map_bytes (NumSlots hp)) (map_bytes (NumSlots hp)) (Bytes hp))"
  using assms by (auto simp: wf_layout_def slice_def seg_def)

lemmas heap_page_access = wf_layout_slices AsBitmap_area [OF wf_layout_areas(1)]
  AsBitmap_area [OF wf_layout_areas(2)]

lemma IsAllocated_eq:
  assumes "wf_layout hp" "k < NumSlots hp" "at_slot rid k"
  shows "IsAllocated hp rid = Some (allocated hp k)"
  using assms area_map_wf [OF wf_layout_areas(1) [OF assms(1)]]
  by (simp add: IsAllocated_def heap_page_access at_slot_def LoadBit_eq allocated_def area_bit_def)

lemma IsDeleted_eq:
  assumes "wf_layout hp" "k < NumSlots hp" "at_slot rid k"
  shows "IsDeleted hp rid = Some (deleted hp k)"
  using assms area_map_wf [OF wf_layout_areas(2) [OF assms(1)]]
  by (simp add: IsDeleted_def heap_page_access at_slot_def LoadBit_eq deleted_def area_bit_def)

lemma MarkDeleted_eq:
  assumes "wf_layout hp" "k < NumSlots hp" "at_slot rid k"
  shows "MarkDeleted hp rid v =
    Some (hp\<lparr>Bytes := area_put (16 + map_bytes (NumSlots hp)) (NumSlots hp) (Bytes hp) k v\<rparr>)"
  using assms area_map_wf [OF wf_layout_areas(2) [OF assms(1)]]
  by (simp add: MarkDeleted_def heap_page_access at_slot_def SetBit_eq area_put_def)
    (simp add: wf_layout_def)

text \<open>Two pages with the same headers other than the count.\<close>

definition same_header :: "HeapPage \<Rightarrow> HeapPage \<Rightarrow> bool" where
  "same_header hp hp' \<longleftrightarrow> length (Bytes hp') = length (Bytes hp) \<and> seg 0 12 (Bytes hp') = seg 0 12 (Bytes hp) \<and>
     allocOffset hp' = allocOffset hp \<and> deletedOffset hp' = deletedOffset hp \<and> tupleOffset hp' = tupleOffset hp"

lemma same_headerD:
  assumes "same_header hp hp'"
  shows "NumSlots hp' = NumSlots hp" "RowSize hp' = RowSize hp" "PageFrame_LSN hp' = PageFrame_LSN hp"
    "wf_layout hp \<Longrightarrow> wf_layout hp'"
proof -
  have *: "seg k n (Bytes hp') = seg k n (Bytes hp)" if "k + n \<le> 12" for k n
    using assms seg_seg [of k n 12 0 "Bytes hp"] seg_seg [of k n 12 0 "Bytes hp'"] that
    by (simp add: same_header_def)
  show "NumSlots hp' = NumSlots hp" "RowSize hp' = RowSize hp" "PageFrame_LSN hp' = PageFrame_LSN hp"
    by (simp_all add: NumSlots_def RowSize_def PageFrame_LSN_def get_u16_def *)
  then show "wf_layout hp \<Longrightarrow> wf_layout hp'"
    using assms by (simp add: wf_layout_def same_header_def)
qed

lemma same_headerI:
  assumes "hp' = hp\<lparr>Bytes := bs\<rparr>" "length bs = length (Bytes hp)" "seg 0 12 bs = seg 0 12 (Bytes hp)"
  shows "same_header hp hp'"
  using assms by (simp add: same_header_def)

text \<open>Parts of the page that a write leaves alone.\<close>

lemma abs_page_eqI:
  assumes "same_header hp hp'" "k < NumSlots hp"
    and "\<And>j. j < NumSlots hp \<Longrightarrow>
      (allocated hp' j, deleted hp' j, slot_bytes hp' j) =
      (if j = k then sl else (allocated hp j, deleted hp j, slot_bytes hp j))"
  shows "abs_page hp' = (abs_page hp)[k := sl]"
  using assms(2,3) same_headerD(1) [OF assms(1)]
  by (intro nth_equalityI) (auto simp: nth_list_update)

lemma slot_in_page:
  assumes "wf_layout hp" "j < NumSlots hp"
  shows "16 + 2 * map_bytes (NumSlots hp) + j * RowSize hp + RowSize hp \<le> PageSize"
proof -
  have "Suc j * RowSize hp \<le> NumSlots hp * RowSize hp" using assms(2) by (intro mult_le_mono1) simp
  then show ?thesis using assms(1) by (simp add: wf_layout_def)
qed


lemma used_slots_area: "used_slots (abs_page hp) = area.used 16 (NumSlots hp) (Bytes hp)"
  by (simp add: used_slots_def abs_page_def length_filter_conv_card area.used_def allocated_def
      cong: conj_cong)

lemma setNumUsed_same_header: "same_header hp (setNumUsed m hp)"
  unfolding setNumUsed_def by (rule same_headerI [OF refl]) (auto simp: seg_blit_disjoint)

lemma setNumUsed_abs: "abs_page (setNumUsed m hp) = abs_page hp"
proof -
  note h = same_headerD [OF setNumUsed_same_header [of hp m]]
  have seg: "seg off n (Bytes (setNumUsed m hp)) = seg off n (Bytes hp)" if "16 \<le> off" for off n
    unfolding setNumUsed_def using that by (simp add: seg_blit_disjoint)
  show ?thesis
    by (simp add: abs_page_def allocated_def deleted_def slot_bytes_def h seg
        area_bit_seg [OF seg] del: upt_Suc)
qed

lemma NumUsed_setNumUsed:
  "16 \<le> length (Bytes hp) \<Longrightarrow> 0 \<le> m \<Longrightarrow> m < 65536 \<Longrightarrow> NumUsed (setNumUsed m hp) = nat m"
  by (simp add: NumUsed_def setNumUsed_def get_u16_def unat_eq_nat_uint uint_word_of_int)

lemma NumSlots_less: "NumSlots hp < 65536"
proof -
  have "unat (w :: uint16) < 2 ^ LENGTH(16)" for w by (rule unsigned_less)
  then show ?thesis by (simp add: NumSlots_def)
qed

text \<open>The write of one bit in either bitmap of the page.\<close>

lemma put_allocated:
  fixes v :: bool
  assumes "wf_layout hp" "k < NumSlots hp"
  defines "hp' \<equiv> hp\<lparr>Bytes := area_put 16 (NumSlots hp) (Bytes hp) k v\<rparr>"
  shows "same_header hp hp'" "NumUsed hp' = NumUsed hp"
    "abs_page hp' = (abs_page hp)[k := (v, deleted hp k, slot_bytes hp k)]"
proof -
  note areas = wf_layout_areas [OF assms(1)]
  have seg: "seg o' m (Bytes hp') = seg o' m (Bytes hp)" if "o' + m \<le> 16 \<or> 16 + map_bytes (NumSlots hp) \<le> o'" for o' m
    unfolding hp'_def using that by (simp add: seg_area_put)
  show h: "same_header hp hp'"
    by (rule same_headerI [OF hp'_def [THEN meta_eq_to_obj_eq]]) (auto simp: seg_area_put)
  show "NumUsed hp' = NumUsed hp" by (simp add: NumUsed_def get_u16_def seg)
  note hd = same_headerD [OF h]
  show "abs_page hp' = (abs_page hp)[k := (v, deleted hp k, slot_bytes hp k)]"
  proof (rule abs_page_eqI [OF h assms(2)])
    fix j assume j: "j < NumSlots hp"
    have "allocated hp' j = (if j = k then v else allocated hp j)"
      using area.load_put [OF areas(1) assms(2) j, of v] unfolding allocated_def hd(1) by (simp add: hp'_def)
    moreover have "deleted hp' j = deleted hp j"
      by (simp add: deleted_def hd(1) area_bit_seg [OF seg])
    moreover have "slot_bytes hp' j = slot_bytes hp j"
      by (simp add: slot_bytes_def hd seg)
    ultimately show "(allocated hp' j, deleted hp' j, slot_bytes hp' j) =
      (if j = k then (v, deleted hp k, slot_bytes hp k) else (allocated hp j, deleted hp j, slot_bytes hp j))"
      by simp
  qed
qed

lemma put_deleted:
  fixes v :: bool
  assumes "wf_layout hp" "k < NumSlots hp"
  defines "hp' \<equiv> hp\<lparr>Bytes := area_put (16 + map_bytes (NumSlots hp)) (NumSlots hp) (Bytes hp) k v\<rparr>"
  shows "same_header hp hp'" "NumUsed hp' = NumUsed hp"
    "abs_page hp' = (abs_page hp)[k := (allocated hp k, v, slot_bytes hp k)]"
proof -
  let ?d = "16 + map_bytes (NumSlots hp)"
  note areas = wf_layout_areas [OF assms(1)]
  have seg: "seg o' m (Bytes hp') = seg o' m (Bytes hp)" if "o' + m \<le> ?d \<or> ?d + map_bytes (NumSlots hp) \<le> o'" for o' m
    unfolding hp'_def using that by (simp add: seg_area_put)
  show h: "same_header hp hp'"
    by (rule same_headerI [OF hp'_def [THEN meta_eq_to_obj_eq]]) (auto simp: seg_area_put)
  show "NumUsed hp' = NumUsed hp" by (simp add: NumUsed_def get_u16_def seg)
  note hd = same_headerD [OF h]
  show "abs_page hp' = (abs_page hp)[k := (allocated hp k, v, slot_bytes hp k)]"
  proof (rule abs_page_eqI [OF h assms(2)])
    fix j assume j: "j < NumSlots hp"
    have "deleted hp' j = (if j = k then v else deleted hp j)"
      using area.load_put [OF areas(2) assms(2) j, of v] unfolding deleted_def hd(1) by (simp add: hp'_def)
    moreover have "allocated hp' j = allocated hp j"
      by (simp add: allocated_def hd(1) area_bit_seg [OF seg])
    moreover have "slot_bytes hp' j = slot_bytes hp j"
      by (simp add: slot_bytes_def hd seg)
    ultimately show "(allocated hp' j, deleted hp' j, slot_bytes hp' j) =
      (if j = k then (allocated hp k, v, slot_bytes hp k) else (allocated hp j, deleted hp j, slot_bytes hp j))"
      by simp
  qed
qed

lemma used_slots_update:
  assumes "k < length ss" "fst sl = fst (ss ! k)"
  shows "used_slots (ss[k := sl]) = used_slots ss"
proof -
  have "map fst (ss[k := sl]) = map fst ss"
    using assms by (simp add: map_update list_update_same_conv)
  moreover have "used_slots xs = length (filter id (map fst xs))" for xs
    by (simp add: used_slots_def filter_map comp_def)
  ultimately show ?thesis by metis
qed

lemma MarkDeleted_refines:
  assumes "wf_heap_page hp" "k < NumSlots hp" "at_slot rid k"
  shows "\<exists>hp'. MarkDeleted hp rid v = Some hp' \<and> wf_heap_page hp' \<and> same_header hp hp' \<and>
    abs_page hp' = (abs_page hp)[k := (allocated hp k, v, slot_bytes hp k)]"
proof -
  have wf: "wf_layout hp" using assms(1) by (simp add: wf_heap_page_def)
  note put = put_deleted [OF wf assms(2), of v]
  show ?thesis
    using MarkDeleted_eq [OF wf assms(2,3), of v] put same_headerD(4) [OF put(1) wf] assms(1,2)
    by (auto simp: wf_heap_page_def used_slots_update)
qed

lemma same_header_trans: "same_header a b \<Longrightarrow> same_header b c \<Longrightarrow> same_header a c"
  by (simp add: same_header_def)

lemma same_header_refl: "same_header a a"
  by (simp add: same_header_def)

text \<open>The count in the header after the allocation bit of a slot is written.\<close>

lemma count_allocated:
  fixes v :: bool
  assumes "wf_heap_page hp" "k < NumSlots hp"
  defines "hp1 \<equiv> hp\<lparr>Bytes := area_put 16 (NumSlots hp) (Bytes hp) k v\<rparr>"
  defines "hp2 \<equiv> (if v \<and> \<not> allocated hp k then setNumUsed (int (NumUsed hp1) + 1) hp1
               else if \<not> v \<and> allocated hp k then setNumUsed (int (NumUsed hp1) - 1) hp1
               else hp1)"
  shows "wf_heap_page hp2" "same_header hp hp2"
    "abs_page hp2 = (abs_page hp)[k := (v, deleted hp k, slot_bytes hp k)]"
proof -
  have wf: "wf_layout hp" and used: "NumUsed hp = used_slots (abs_page hp)"
    using assms(1) by (auto simp: wf_heap_page_def)
  note put = put_allocated [OF wf assms(2), of v, folded hp1_def]
  note areas = wf_layout_areas [OF wf]
  have abs: "abs_page hp2 = abs_page hp1" by (simp add: hp2_def setNumUsed_abs)
  show h: "same_header hp hp2"
    unfolding hp2_def using put(1) same_header_trans [OF put(1) setNumUsed_same_header] by auto
  then have wf2: "wf_layout hp2" using same_headerD(4) wf by blast
  show "abs_page hp2 = (abs_page hp)[k := (v, deleted hp k, slot_bytes hp k)]"
    using abs put(3) by simp
  have "used_slots (abs_page hp1) = area.used 16 (NumSlots hp) (area_put 16 (NumSlots hp) (Bytes hp) k v)"
    using used_slots_area [of hp1] same_headerD(1) [OF put(1)] by (simp add: hp1_def)
  also have "\<dots> = (if v \<and> \<not> allocated hp k then Suc (NumUsed hp) else
      if \<not> v \<and> allocated hp k then NumUsed hp - 1 else NumUsed hp)"
    using area.used_put [OF areas(1) assms(2), of v] used used_slots_area [of hp] by (simp add: allocated_def)
  finally have cnt: "used_slots (abs_page hp1) = \<dots>" .
  have "used_slots (abs_page hp1) \<le> NumSlots hp"
    using area.used_le [of 16 "NumSlots hp1" "Bytes hp1"] used_slots_area [of hp1] same_headerD(1) [OF put(1)] by simp
  then have small: "used_slots (abs_page hp1) < 65536" using NumSlots_less [of hp] by simp
  have pos: "allocated hp k \<Longrightarrow> 0 < NumUsed hp"
    using area.used_pos [of k "NumSlots hp" 16 "Bytes hp"] assms(2) used used_slots_area [of hp]
    by (simp add: allocated_def)
  have len: "16 \<le> length (Bytes hp1)" using put(1) wf by (simp add: same_header_def wf_layout_def)
  have "NumUsed hp2 = used_slots (abs_page hp1)"
    unfolding hp2_def using cnt small pos len put(2)
    by (auto simp: NumUsed_setNumUsed nat_diff_distrib split: if_splits)
  then show "wf_heap_page hp2" using wf2 abs by (simp add: wf_heap_page_def)
qed

lemma MarkAllocated_refines:
  assumes "wf_heap_page hp" "k < NumSlots hp" "at_slot rid k"
  shows "\<exists>hp'. MarkAllocated hp rid v = Some hp' \<and> wf_heap_page hp' \<and> same_header hp hp' \<and>
    abs_page hp' = (abs_page hp)[k := (v, False, slot_bytes hp k)]"
proof -
  have wf: "wf_layout hp" using assms(1) by (simp add: wf_heap_page_def)
  define hp1 where "hp1 = hp\<lparr>Bytes := area_put 16 (NumSlots hp) (Bytes hp) k v\<rparr>"
  define hp2 where "hp2 = (if v \<and> \<not> allocated hp k then setNumUsed (int (NumUsed hp1) + 1) hp1
               else if \<not> v \<and> allocated hp k then setNumUsed (int (NumUsed hp1) - 1) hp1
               else hp1)"
  note c = count_allocated [OF assms(1,2), of v, folded hp1_def, folded hp2_def]
  note hd = same_headerD [OF c(2)]
  have k: "k < NumSlots hp2" using assms(2) hd(1) by simp
  obtain hp3 where hp3: "MarkDeleted hp2 rid False = Some hp3" "wf_heap_page hp3" "same_header hp2 hp3"
    "abs_page hp3 = (abs_page hp2)[k := (allocated hp2 k, False, slot_bytes hp2 k)]"
    using MarkDeleted_refines [OF c(1) k assms(3)] by blast
  have "abs_page hp2 ! k = (v, deleted hp k, slot_bytes hp k)"
    using c(3) assms(2) by simp
  then have "allocated hp2 k = v" "slot_bytes hp2 k = slot_bytes hp k" using k by auto
  then have abs: "abs_page hp3 = (abs_page hp)[k := (v, False, slot_bytes hp k)]"
    using hp3(4) c(3) by simp
  have "MarkAllocated hp rid v = MarkDeleted hp2 rid False"
    using assms(2,3) area_map_wf [OF wf_layout_areas(1) [OF wf]] wf
    by (simp add: MarkAllocated_def heap_page_access at_slot_def SetBit_eq hp2_def hp1_def area_put_def
        allocated_def area_bit_def Let_def) (simp add: wf_layout_def)
  then show ?thesis using hp3 abs same_header_trans [OF c(2)] by auto
qed


subsection \<open>Rows\<close>

lemma AccessTuple_bounds_eq:
  assumes "wf_layout hp" "k < NumSlots hp" "at_slot rid k"
  shows "AccessTuple_bounds hp rid =
    (let start = 16 + 2 * map_bytes (NumSlots hp) + k * RowSize hp in Some (start, start + RowSize hp))"
proof -
  have "int (tupleOffset hp) + sint (Slot rid) * int (RowSize hp) =
      int (16 + 2 * map_bytes (NumSlots hp) + k * RowSize hp)"
    using assms by (simp add: wf_layout_def at_slot_def)
  moreover have "16 + 2 * map_bytes (NumSlots hp) + k * RowSize hp + RowSize hp \<le> length (Bytes hp)"
    using slot_in_page [OF assms(1,2)] assms(1) by (simp add: wf_layout_def)
  ultimately show ?thesis
    unfolding AccessTuple_bounds_def Let_def by (simp add: nat_add_distrib flip: of_nat_add)
qed

lemma AccessTuple_eq:
  assumes "wf_layout hp" "k < NumSlots hp" "at_slot rid k"
  shows "AccessTuple hp rid = Some (slot_bytes hp k)"
  using slot_in_page [OF assms(1,2)] assms(1)
  by (simp add: AccessTuple_def AccessTuple_bounds_eq [OF assms] slot_bytes_def seg_def wf_layout_def Let_def)

lemma slots_disjoint:
  fixes j k rs :: nat
  assumes "j \<noteq> k"
  shows "j * rs + rs \<le> k * rs \<or> k * rs + rs \<le> j * rs"
proof -
  have "Suc j \<le> k \<or> Suc k \<le> j" using assms by auto
  then have "Suc j * rs \<le> k * rs \<or> Suc k * rs \<le> j * rs" by (meson mult_le_mono1)
  then show ?thesis by (simp add: add.commute)
qed

lemma copy_to_tuple_refines:
  assumes "wf_heap_page hp" "k < NumSlots hp" "at_slot rid k" "length r = RowSize hp"
  shows "\<exists>hp'. copy_to_tuple hp rid r = Some hp' \<and> wf_heap_page hp' \<and> same_header hp hp' \<and>
    abs_page hp' = (abs_page hp)[k := (allocated hp k, deleted hp k, r)]"
proof -
  have wf: "wf_layout hp" using assms(1) by (simp add: wf_heap_page_def)
  let ?base = "16 + 2 * map_bytes (NumSlots hp)"
  let ?off = "?base + k * RowSize hp"
  define hp' where "hp' = hp\<lparr>Bytes := blit ?off r (Bytes hp)\<rparr>"
  have fit: "?off + RowSize hp \<le> length (Bytes hp)"
    using slot_in_page [OF wf assms(2)] wf by (simp add: wf_layout_def)
  have copy: "copy_to_tuple hp rid r = Some hp'"
    using fit assms(4)
    by (simp add: copy_to_tuple_def AccessTuple_bounds_eq [OF wf assms(2,3)] Let_def slice_def hp'_def blit_def)
  have seg: "seg o' m (Bytes hp') = seg o' m (Bytes hp)" if "o' + m \<le> ?off \<or> ?off + RowSize hp \<le> o'" for o' m
    unfolding hp'_def using that assms(4) by (simp add: seg_blit_disjoint)
  have h: "same_header hp hp'"
    by (rule same_headerI [OF hp'_def]) (auto simp: seg_blit_disjoint)
  note hd = same_headerD [OF h]
  have abs: "abs_page hp' = (abs_page hp)[k := (allocated hp k, deleted hp k, r)]"
  proof (rule abs_page_eqI [OF h assms(2)])
    fix j assume j: "j < NumSlots hp"
    have "allocated hp' j = allocated hp j" "deleted hp' j = deleted hp j"
      unfolding allocated_def deleted_def hd(1) by (simp_all add: area_bit_seg [OF seg])
    moreover have "slot_bytes hp' j = (if j = k then r else slot_bytes hp j)"
    proof (cases "j = k")
      case True
      have "seg ?off (RowSize hp) (blit ?off r (Bytes hp)) = r"
        using fit assms(4) by (intro seg_blit_same) auto
      then show ?thesis using True by (simp add: slot_bytes_def hd) (simp add: hp'_def)
    next
      case False
      have "?base + j * RowSize hp + RowSize hp \<le> ?off \<or> ?off + RowSize hp \<le> ?base + j * RowSize hp"
        using slots_disjoint [OF False, of "RowSize hp"] by auto
      then show ?thesis using False by (simp add: slot_bytes_def hd seg)
    qed
    ultimately show "(allocated hp' j, deleted hp' j, slot_bytes hp' j) =
      (if j = k then (allocated hp k, deleted hp k, r) else (allocated hp j, deleted hp j, slot_bytes hp j))"
      by simp
  qed
  have "NumUsed hp' = NumUsed hp" by (simp add: NumUsed_def get_u16_def seg)
  then have "wf_heap_page hp'"
    using assms(1,2) abs hd(4) [OF wf] by (simp add: wf_heap_page_def used_slots_update)
  then show ?thesis using copy h abs by blast
qed

subsection \<open>Free slots\<close>

text \<open>The first slot of a list that is not allocated.\<close>

definition first_free :: "slot list \<Rightarrow> int" where
  "first_free ss = (if \<forall>sl \<in> set ss. fst sl then -1 else int (length (takeWhile fst ss)))"

lemma first_free_cyclic:
  assumes "first_zero_cyclic b 0 r" "length ss = numBits b" "\<And>k. k < numBits b \<Longrightarrow> fst (ss ! k) = bit_at b k"
  shows "r = first_free ss"
proof (cases "\<forall>k < numBits b. bit_at b k")
  case True
  then have "\<forall>sl \<in> set ss. fst sl" using assms(2,3) by (metis in_set_conv_nth)
  then show ?thesis using True assms(1) by (simp add: first_zero_cyclic_def first_free_def)
next
  case False
  then have r: "0 \<le> r" "nat r < numBits b" "\<not> bit_at b (nat r)" "\<And>k. k < nat r \<Longrightarrow> bit_at b k"
    using assms(1) unfolding first_zero_cyclic_def
    by (metis less_nat_zero_code le0 less_trans)+
  have "\<not> fst (ss ! nat r)" using r assms(3) by simp
  then have "\<not> (\<forall>sl \<in> set ss. fst sl)" using r(2) assms(2) by (metis nth_mem)
  moreover have "takeWhile fst ss = take (nat r) ss"
    using r assms(2,3) by (intro takeWhile_eq_take_P_nth) auto
  then have "length (takeWhile fst ss) = nat r" using r(2) assms(2) by simp
  ultimately show ?thesis using r(1) by (simp add: first_free_def)
qed

lemma FindFreeSlot_eq:
  assumes "wf_layout hp"
  shows "FindFreeSlot hp = Some (first_free (abs_page hp))"
proof -
  let ?b = "area_map 16 (NumSlots hp) (Bytes hp)"
  note wf = area_map_wf [OF wf_layout_areas(1) [OF assms]]
  obtain r where r: "FindFirstZero ?b 0 = Some r" "first_zero_cyclic ?b (0 mod numBits ?b) r"
    using FindFirstZero_spec [OF wf(1)] by blast
  then have "r = first_free (abs_page hp)"
    using wf(2) by (intro first_free_cyclic [where b = ?b]) (auto simp: allocated_def area_bit_def)
  then show ?thesis using r(1) by (simp add: FindFreeSlot_def heap_page_access [OF assms])
qed

lemma first_free_used: "first_free ss = -1 \<longleftrightarrow> used_slots ss = length ss"
proof -
  have "used_slots ss = length ss \<longleftrightarrow> (\<forall>sl \<in> set ss. fst sl)"
  proof (induction ss)
    case (Cons sl ss)
    have "length (filter fst ss) \<noteq> Suc (length ss)" using length_filter_le [of fst ss] by linarith
    then show ?case using Cons by (auto simp: used_slots_def)
  qed (simp add: used_slots_def)
  then show ?thesis by (auto simp: first_free_def)
qed

subsection \<open>A fresh page\<close>

lemma slots_bytes_mono: "m \<le> n \<Longrightarrow> slots_bytes r m \<le> slots_bytes r n"
  unfolding slots_bytes_def by (intro add_mono mult_le_mono div_le_mono) auto

lemma slots_loop_spec:
  assumes "t = Suc m" "m \<le> PageSize" "m = 0 \<or> slots_bytes r m \<le> PageSize"
  shows "let n = slots_loop r t m in m \<le> n \<and> n \<le> PageSize \<and> (n = 0 \<or> slots_bytes r n \<le> PageSize) \<and>
    (n < PageSize \<longrightarrow> PageSize < slots_bytes r (Suc n))"
  using assms
proof (induction r t m rule: slots_loop.induct)
  case (1 r t m)
  show ?case
  proof (cases "t \<le> PageSize \<and> slots_bytes r t \<le> PageSize")
    case True
    then have "slots_loop r t m = slots_loop r (t + 1) t" by (subst slots_loop.simps) simp
    moreover have "let n = slots_loop r (t + 1) t in t \<le> n \<and> n \<le> PageSize \<and>
      (n = 0 \<or> slots_bytes r n \<le> PageSize) \<and> (n < PageSize \<longrightarrow> PageSize < slots_bytes r (Suc n))"
      using True by (intro "1.IH") auto
    ultimately show ?thesis using "1.prems"(1) by (auto simp: Let_def)
  next
    case False
    then have "slots_loop r t m = m" by (subst slots_loop.simps) auto
    then show ?thesis using "1.prems" False by (auto simp: Let_def)
  qed
qed


lemma le_word_zeros: "le_word (replicate k 0) = 0"
  by (induction k) auto

lemma seg_replicate: "off + n \<le> m \<Longrightarrow> seg off n (replicate m x) = replicate n x"
  by (intro nth_equalityI) auto

lemma area_bit_zeros:
  assumes "area_ok off n bs" "seg off (map_bytes n) bs = replicate (map_bytes n) 0" "k < n"
  shows "\<not> area_bit off n bs k"
proof -
  have "words (area_map off n bs) =
      map (\<lambda>i. le_word (seg (8 * i) 8 (replicate (map_bytes n) 0))) [0..<(n + 63) div 64]"
    using AsBitmap_area [OF assms(1)] unfolding assms(2)
    by (auto simp: AsBitmap_def Let_def bind_eq_Some_conv dest: arg_cong [where f = words])
  then have w: "\<forall>x \<in> set (words (area_map off n bs)). x = 0"
    by (auto simp: seg_replicate le_word_zeros map_bytes_def)
  have "k div 64 < length (words (area_map off n bs))"
    using wf_bitmap_word [OF area_map_wf(1) [OF assms(1)]] area_map_wf(2) [OF assms(1)] assms(3) by simp
  then have "words (area_map off n bs) ! (k div 64) = 0" using w by (metis nth_mem)
  then show ?thesis by (simp add: area_bit_def bit_at_def)
qed

lemma initialized_bytes:
  fixes desc :: RawTupleDesc
  assumes "length (Bytes frame) = PageSize"
  defines "r \<equiv> BytesPerTuple desc" and "bs \<equiv> Bytes (InitializeHeapPage desc frame)"
  shows "length bs = PageSize" "seg 0 8 bs = replicate 8 0"
    "get_u16 8 bs = of_nat r" "get_u16 10 bs = of_nat (slots_loop r 1 0)" "get_u16 12 bs = 0"
    "16 \<le> off \<Longrightarrow> off + n \<le> PageSize \<Longrightarrow> seg off n bs = replicate n 0"
  using assms(1) unfolding bs_def r_def
  by (simp_all add: InitializeHeapPage_def Let_def get_u16_def seg_blit_disjoint seg_replicate)

lemma InitializeHeapPage_layout:
  fixes desc :: RawTupleDesc
  assumes "length (Bytes frame) = PageSize" "BytesPerTuple desc \<le> PageSize - 32"
  defines "hp \<equiv> AsHeapPage (InitializeHeapPage desc frame)" and "n \<equiv> slots_loop (BytesPerTuple desc) 1 0"
  shows "wf_layout hp" "NumSlots hp = n" "RowSize hp = BytesPerTuple desc" "NumUsed hp = 0"
    "Bytes hp = Bytes (InitializeHeapPage desc frame)" "slots_bytes (BytesPerTuple desc) n \<le> PageSize"
    "0 < n" "n < PageSize \<longrightarrow> PageSize < slots_bytes (BytesPerTuple desc) (Suc n)"
proof -
  let ?r = "BytesPerTuple desc"
  note init = initialized_bytes [OF assms(1), where desc = desc]
  have spec: "n \<le> PageSize" "n = 0 \<or> slots_bytes ?r n \<le> PageSize"
    "n < PageSize \<longrightarrow> PageSize < slots_bytes ?r (Suc n)"
    using slots_loop_spec [of 1 0 ?r] unfolding n_def Let_def by auto
  have "slots_bytes ?r 1 \<le> PageSize" using assms(2) by (simp add: slots_bytes_def)
  then show pos: "0 < n" using spec(3) by (cases "n = 0") auto
  then show fits: "slots_bytes ?r n \<le> PageSize" using spec(2) by simp
  show "n < PageSize \<longrightarrow> PageSize < slots_bytes ?r (Suc n)" by (rule spec(3))
  show bytes: "Bytes hp = Bytes (InitializeHeapPage desc frame)"
    by (simp add: hp_def AsHeapPage_def Let_def PageFrame.defs)
  show slots: "NumSlots hp = n"
    unfolding NumSlots_def bytes init(4) using spec(1) by (simp add: n_def unat_of_nat)
  show rs: "RowSize hp = ?r" unfolding RowSize_def bytes init(3) using assms(2) by (simp add: unat_of_nat)
  show "NumUsed hp = 0" unfolding NumUsed_def bytes init(5) by simp
  have "unat (get_u16 10 (Bytes (InitializeHeapPage desc frame))) = n"
    using slots by (simp add: NumSlots_def bytes)
  then have "allocOffset hp = 16" "deletedOffset hp = 16 + map_bytes n" "tupleOffset hp = 16 + 2 * map_bytes n"
    by (simp_all add: hp_def AsHeapPage_def Let_def PageFrame.defs map_bytes_def)
  then show "wf_layout hp"
    using pos fits init(1) by (simp add: wf_layout_def slots rs bytes slots_bytes_def map_bytes_def)
qed

lemma InitializeHeapPage_abs:
  assumes "length (Bytes frame) = PageSize" "BytesPerTuple desc \<le> PageSize - 32"
  defines "hp \<equiv> AsHeapPage (InitializeHeapPage desc frame)"
  shows "abs_page hp = replicate (NumSlots hp) (False, False, replicate (RowSize hp) 0)" "wf_heap_page hp"
proof -
  note lay = InitializeHeapPage_layout [OF assms(1,2), folded hp_def]
  note init = initialized_bytes(6) [OF assms(1), where desc = desc, folded lay(5)]
  have ends: "16 + 2 * map_bytes (NumSlots hp) + NumSlots hp * RowSize hp \<le> PageSize"
    using lay(1) by (simp add: wf_layout_def)
  have "(allocated hp k, deleted hp k, slot_bytes hp k) = (False, False, replicate (RowSize hp) 0)"
    if "k < NumSlots hp" for k
  proof -
    note areas = wf_layout_areas [OF lay(1)]
    have "\<not> allocated hp k" unfolding allocated_def
      using ends by (intro area_bit_zeros [OF areas(1) init that]) auto
    moreover have "\<not> deleted hp k" unfolding deleted_def
      using ends by (intro area_bit_zeros [OF areas(2) init that]) auto
    moreover have "slot_bytes hp k = replicate (RowSize hp) 0" unfolding slot_bytes_def
      using slot_in_page [OF lay(1) that] by (intro init) auto
    ultimately show ?thesis by simp
  qed
  then show abs: "abs_page hp = replicate (NumSlots hp) (False, False, replicate (RowSize hp) 0)"
    by (intro nth_equalityI) auto
  have "used_slots (replicate k (False, False, bs)) = 0" for k bs by (simp add: used_slots_def)
  then show "wf_heap_page hp" using lay(1,4) abs by (simp add: wf_heap_page_def)
qed


text \<open>A page of rows with one integer column, as an example.\<close>

definition sample_desc :: RawTupleDesc where
  "sample_desc = \<lparr>d_fields = [IntType], d_offsets = [0], d_bytesPerRow = 8\<rparr>"

definition zero_frame :: PageFrame where
  "zero_frame = \<lparr>Bytes = replicate PageSize 0, pf_pageID = nilPageID, pinCount = 0, isDirty = False, refCount = 0\<rparr>"

definition sample_page :: HeapPage where
  "sample_page = AsHeapPage (InitializeHeapPage sample_desc zero_frame)"

lemma sample_page_props: "wf_heap_page sample_page" "0 < NumSlots sample_page" "RowSize sample_page = 8"
proof -
  have *: "length (Bytes zero_frame) = PageSize" "BytesPerTuple sample_desc \<le> PageSize - 32"
    by (simp_all add: zero_frame_def sample_desc_def BytesPerTuple_def)
  show "wf_heap_page sample_page" "0 < NumSlots sample_page" "RowSize sample_page = 8"
    using InitializeHeapPage_layout [OF *] InitializeHeapPage_abs [OF *]
    by (simp_all add: sample_page_def sample_desc_def BytesPerTuple_def)
qed

section \<open>Properties\<close>

text \<open>
  A freshly initialised page for rows of at most \<open>PageSize - 32\<close> bytes has the largest number
  of slots whose header, bitmaps and rows fit the page, at least one; every slot is free and zero, and
  the page is well-formed.
\<close>

theorem InitializeHeapPage_fresh:
  assumes "length (Bytes frame) = PageSize" "BytesPerTuple desc \<le> PageSize - 32"
  shows "let hp = AsHeapPage (InitializeHeapPage desc frame) in
    wf_heap_page hp \<and> RowSize hp = BytesPerTuple desc \<and> 0 < NumSlots hp \<and>
    (\<forall>n. 0 < n \<and> n \<le> PageSize \<longrightarrow> (slots_bytes (RowSize hp) n \<le> PageSize \<longleftrightarrow> n \<le> NumSlots hp)) \<and>
    abs_page hp = replicate (NumSlots hp) (False, False, replicate (RowSize hp) 0)"
proof -
  define hp where "hp = AsHeapPage (InitializeHeapPage desc frame)"
  note lay = InitializeHeapPage_layout [OF assms, folded hp_def]
  have "slots_bytes (RowSize hp) n \<le> PageSize \<longleftrightarrow> n \<le> NumSlots hp" if "n \<le> PageSize" for n
  proof
    assume fit: "slots_bytes (RowSize hp) n \<le> PageSize"
    show "n \<le> NumSlots hp"
    proof (rule ccontr)
      assume "\<not> n \<le> NumSlots hp"
      then have "Suc (NumSlots hp) \<le> n" by simp
      with slots_bytes_mono [OF this, of "RowSize hp"] fit lay(2,3,8) that show False by simp
    qed
  next
    assume "n \<le> NumSlots hp"
    with slots_bytes_mono [OF this, of "RowSize hp"] lay(2,3,6) show "slots_bytes (RowSize hp) n \<le> PageSize" by simp
  qed
  then show ?thesis
    using lay(2,3,7) InitializeHeapPage_abs [OF assms, folded hp_def] by (simp add: Let_def hp_def)
qed

theorem InitializeHeapPage_fresh_witness:
  "let hp = AsHeapPage (InitializeHeapPage sample_desc zero_frame) in
    wf_heap_page hp \<and> RowSize hp = BytesPerTuple sample_desc \<and> 0 < NumSlots hp \<and>
    (\<forall>n. 0 < n \<and> n \<le> PageSize \<longrightarrow> (slots_bytes (RowSize hp) n \<le> PageSize \<longleftrightarrow> n \<le> NumSlots hp)) \<and>
    abs_page hp = replicate (NumSlots hp) (False, False, replicate (RowSize hp) 0)"
  by (rule InitializeHeapPage_fresh) (simp_all add: zero_frame_def sample_desc_def BytesPerTuple_def)

text \<open>
  On a well-formed page, setting the allocation flag of a slot changes that flag, clears its
  deletion mark and nothing else; the used count in the header stays the number of allocated slots.
\<close>

theorem MarkAllocated_slot:
  assumes "wf_heap_page hp" "k < NumSlots hp" "at_slot rid k"
  shows "\<exists>hp'. MarkAllocated hp rid v = Some hp' \<and> wf_heap_page hp' \<and> same_header hp hp' \<and>
    abs_page hp' = (abs_page hp)[k := (v, False, snd (snd (abs_page hp ! k)))] \<and>
    NumUsed hp' = used_slots (abs_page hp') \<and>
    IsAllocated hp' rid = Some v \<and> IsDeleted hp' rid = Some False"
proof -
  obtain hp' where hp': "MarkAllocated hp rid v = Some hp'" "wf_heap_page hp'" "same_header hp hp'"
    "abs_page hp' = (abs_page hp)[k := (v, False, slot_bytes hp k)]"
    using MarkAllocated_refines [OF assms] by blast
  then have k: "wf_layout hp'" "k < NumSlots hp'"
    using assms(2) same_headerD(1) by (auto simp: wf_heap_page_def)
  have "abs_page hp' ! k = (v, False, slot_bytes hp k)" using hp'(4) assms(2) by simp
  then have "allocated hp' k = v" "deleted hp' k = False" using k(2) by auto
  then show ?thesis
    using hp' k assms(2,3) IsAllocated_eq IsDeleted_eq by (auto simp: wf_heap_page_def)
qed

theorem MarkAllocated_slot_witness:
  "\<exists>hp'. MarkAllocated sample_page nilRecordID True = Some hp' \<and> wf_heap_page hp' \<and> same_header sample_page hp' \<and>
    abs_page hp' = (abs_page sample_page)[0 := (True, False, snd (snd (abs_page sample_page ! 0)))] \<and>
    NumUsed hp' = used_slots (abs_page hp') \<and>
    IsAllocated hp' nilRecordID = Some True \<and> IsDeleted hp' nilRecordID = Some False"
  by (rule MarkAllocated_slot) (simp_all add: sample_page_props at_slot_def nilRecordID_def)

text \<open>
  A row of the page's row size written through \<open>AccessTuple\<close> is what \<open>AccessTuple\<close> reads back;
  the other rows and all flags are unchanged.
\<close>

theorem AccessTuple_write_read:
  assumes "wf_heap_page hp" "k < NumSlots hp" "at_slot rid k" "length r = RowSize hp"
  shows "\<exists>hp'. copy_to_tuple hp rid r = Some hp' \<and> wf_heap_page hp' \<and> AccessTuple hp' rid = Some r \<and>
    abs_page hp' = (abs_page hp)[k := (fst (abs_page hp ! k), fst (snd (abs_page hp ! k)), r)]"
proof -
  obtain hp' where hp': "copy_to_tuple hp rid r = Some hp'" "wf_heap_page hp'" "same_header hp hp'"
    "abs_page hp' = (abs_page hp)[k := (allocated hp k, deleted hp k, r)]"
    using copy_to_tuple_refines [OF assms] by blast
  then have k: "wf_layout hp'" "k < NumSlots hp'"
    using assms(2) same_headerD(1) by (auto simp: wf_heap_page_def)
  have "abs_page hp' ! k = (allocated hp k, deleted hp k, r)" using hp'(4) assms(2) by simp
  then have "slot_bytes hp' k = r" using k(2) by simp
  then show ?thesis using hp' k assms(2,3) AccessTuple_eq by auto
qed

theorem AccessTuple_write_read_witness:
  "\<exists>hp'. copy_to_tuple sample_page nilRecordID [1, 2, 3, 4, 5, 6, 7, 8] = Some hp' \<and> wf_heap_page hp' \<and>
    AccessTuple hp' nilRecordID = Some [1, 2, 3, 4, 5, 6, 7, 8] \<and>
    abs_page hp' = (abs_page sample_page)[0 :=
      (fst (abs_page sample_page ! 0), fst (snd (abs_page sample_page ! 0)), [1, 2, 3, 4, 5, 6, 7, 8])]"
  by (rule AccessTuple_write_read) (simp_all add: sample_page_props at_slot_def nilRecordID_def)

text \<open>
  \<open>FindFreeSlot\<close> never panics on a page with at least one slot; it returns -1 exactly when the
  header counts every slot as used, and otherwise the lowest slot that is not allocated.
\<close>

theorem FindFreeSlot_lowest:
  assumes "wf_heap_page hp"
  shows "\<exists>r. FindFreeSlot hp = Some r \<and> (r = -1 \<longleftrightarrow> NumUsed hp = NumSlots hp) \<and>
    (r \<noteq> -1 \<longrightarrow> 0 \<le> r \<and> nat r < NumSlots hp \<and> \<not> fst (abs_page hp ! nat r) \<and>
       (\<forall>j < nat r. fst (abs_page hp ! j)))"
proof -
  let ?ss = "abs_page hp" and ?t = "takeWhile fst (abs_page hp)"
  have wf: "wf_layout hp" "NumUsed hp = used_slots ?ss" using assms by (auto simp: wf_heap_page_def)
  have found: "length ?t < NumSlots hp \<and> \<not> fst (?ss ! length ?t) \<and> (\<forall>j < length ?t. fst (?ss ! j))"
    if "first_free ?ss \<noteq> -1"
  proof -
    have "\<not> (\<forall>sl \<in> set ?ss. fst sl)" using that unfolding first_free_def by metis
    then obtain sl where "sl \<in> set ?ss" "\<not> fst sl" by blast
    then have "length ?t < length ?ss" by (metis length_takeWhile_le le_neq_implies_less takeWhile_eq_all_conv takeWhile_eq_take take_all_iff le_refl)
    then show ?thesis
      by (metis length_abs_page nth_length_takeWhile nth_mem set_takeWhileD takeWhile_nth)
  qed
  have "first_free ?ss \<noteq> -1 \<longrightarrow> first_free ?ss = int (length ?t)" by (auto simp: first_free_def)
  then show ?thesis
    using FindFreeSlot_eq [OF wf(1)] first_free_used [of ?ss] wf(2) found by auto
qed

theorem FindFreeSlot_lowest_witness:
  "\<exists>r. FindFreeSlot sample_page = Some r \<and> (r = -1 \<longleftrightarrow> NumUsed sample_page = NumSlots sample_page) \<and>
    (r \<noteq> -1 \<longrightarrow> 0 \<le> r \<and> nat r < NumSlots sample_page \<and> \<not> fst (abs_page sample_page ! nat r) \<and>
       (\<forall>j < nat r. fst (abs_page sample_page ! j)))"
  by (rule FindFreeSlot_lowest) (rule sample_page_props(1))

text \<open>
  On a page whose header was never initialised (all zero, as a page is right after it has been
  allocated in its file) the search for a free slot panics.
\<close>

theorem FindFreeSlot_zero_page:
  "FindFreeSlot (AsHeapPage (f\<lparr>Bytes := replicate PageSize 0\<rparr>)) = None"
proof -
  have "get_u16 10 (replicate 4096 0) = 0"
    by (simp add: get_u16_def seg_replicate le_word_zeros)
  then show ?thesis
    by (simp add: FindFreeSlot_def AsHeapPage_def PageFrame.defs slice_def AsBitmap_def NumSlots_def
        AlignedTo8_def Let_def)
qed

text \<open>
  C35: however many threads run \<open>MonotonicallyUpdateLSN\<close> on one page and however their loads and
  compare-and-swaps interleave, the page LSN never decreases, and once all of them have returned it is
  the maximum of its first value and all the arguments.
\<close>

theorem MonotonicallyUpdateLSN_concurrent:
  assumes "lsn_step\<^sup>*\<^sup>* (v0, map Start ns) (v, ts)"
  shows "v0 \<le> v \<and> (\<forall>v' ts'. lsn_step (v, ts) (v', ts') \<longrightarrow> v \<le> v') \<and>
    ((\<forall>t \<in> set ts. t = Returned (lsn_arg t)) \<longrightarrow> v = Max (set (v0 # ns)))"
proof -
  have inv: "lsn_inv v0 ns (v, ts)" and le: "v0 \<le> v"
    using lsn_inv_steps [OF assms lsn_inv_start] by auto
  have "v = Max (set (v0 # ns))" if ret: "\<forall>t \<in> set ts. t = Returned (lsn_arg t)"
  proof (rule Max_eqI [symmetric])
    fix y assume "y \<in> set (v0 # ns)"
    then consider "y = v0" | "y \<in> lsn_arg ` set ts" using inv by (auto simp: lsn_inv_def)
    then show "y \<le> v"
    proof cases
      case 2
      then obtain t where "t \<in> set ts" "y = lsn_arg t" by auto
      then have "t = Returned y" using ret by metis
      then show ?thesis using inv \<open>t \<in> set ts\<close> by (force simp: lsn_inv_def)
    qed (use le in simp)
  qed (use inv in \<open>auto simp: lsn_inv_def\<close>)
  moreover have "\<forall>v' ts'. lsn_step (v, ts) (v', ts') \<longrightarrow> v \<le> v'"
    using lsn_inv_step [OF _ inv] by fastforce
  ultimately show ?thesis using le by blast
qed

theorem MonotonicallyUpdateLSN_concurrent_witness:
  "lsn_step\<^sup>*\<^sup>* (5, map Start [9, 7]) (9, [Returned 9, Returned 7]) \<and>
   5 \<le> (9 :: uint64) \<and> 9 = Max (set (5 # [9, 7 :: uint64]))"
proof -
  have 1: "lsn_step (5, [Start 9, Start 7]) (5, [Loaded 9 5, Start 7])"
    using load_go [of 0 "[Start 9, Start 7]" 9 5] by simp
  have 2: "lsn_step (5, [Loaded 9 5, Start 7]) (5, [Loaded 9 5, Loaded 7 5])"
    using load_go [of 1 "[Loaded 9 5, Start 7]" 7 5] by simp
  have 3: "lsn_step (5, [Loaded 9 5, Loaded 7 5]) (9, [Returned 9, Loaded 7 5])"
    using swap [of 0 "[Loaded 9 5, Loaded 7 5]" 9 5 5] by simp
  have 4: "lsn_step (9, [Returned 9, Loaded 7 5]) (9, [Returned 9, Start 7])"
    using retry [of 1 "[Returned 9, Loaded 7 5]" 7 5 9] by simp
  have 5: "lsn_step (9, [Returned 9, Start 7]) (9, [Returned 9, Returned 7])"
    using load_return [of 1 "[Returned 9, Start 7]" 7 9] by simp
  have *: "lsn_step\<^sup>*\<^sup>* (5, map Start [9, 7]) (9, [Returned 9, Returned 7])"
    using 1 2 3 4 5 by (auto intro: converse_rtranclp_into_rtranclp)
  show ?thesis using * MonotonicallyUpdateLSN_concurrent [OF *] by simp
qed

end
