(* ===== verification/Storage_Disk.thy ===== *)
theory Storage_Disk
  imports Storage_HeapPage
begin

text \<open>
  Files of pages (\<open>storage/db_file.go\<close>, \<open>storage/disk_storage.go\<close>).

  The operating system's files are a map from names to bytes. Every system call may fail: the state
  carries a schedule of faults that the calls consume, one each, and the theorems hold for every
  schedule. A failed call leaves the files as they were. All names are relative to the manager's root
  directory.

  The concurrent map of the package \<open>xsync\<close> is not part of the repository: it is a parameter, a
  record of its operations, and \<open>xsync_map\<close> states the documented behaviour of a map that the
  code relies on. An open file is shared through the manager's cache, so a handle is the object
  identifier under which the cache has the file; operations on a handle that the cache no longer has
  fail, as they do on a closed file.
\<close>

section \<open>The concurrent map\<close>

record ('k, 'v, 'm) MapOf =
  m_New :: 'm
  m_Load :: "'m \<Rightarrow> 'k \<Rightarrow> 'v option"
  m_Store :: "'k \<Rightarrow> 'v \<Rightarrow> 'm \<Rightarrow> 'm"
  m_Delete :: "'k \<Rightarrow> 'm \<Rightarrow> 'm"
  m_LoadOrStore :: "'k \<Rightarrow> 'v \<Rightarrow> 'm \<Rightarrow> ('v \<times> bool) \<times> 'm"
  m_LoadAndDelete :: "'k \<Rightarrow> 'm \<Rightarrow> 'v option \<times> 'm"

definition xsync_map :: "('k, 'v, 'm) MapOf \<Rightarrow> bool" where
  "xsync_map X \<longleftrightarrow>
     (\<forall>k. m_Load X (m_New X) k = None) \<and>
     (\<forall>m k v. m_Load X (m_Store X k v m) = (m_Load X m)(k \<mapsto> v)) \<and>
     (\<forall>m k. m_Load X (m_Delete X k m) = (m_Load X m)(k := None)) \<and>
     (\<forall>m k v. m_LoadOrStore X k v m =
        (case m_Load X m k of Some w \<Rightarrow> ((w, True), m) | None \<Rightarrow> ((v, False), m_Store X k v m))) \<and>
     (\<forall>m k. m_LoadAndDelete X k m = (m_Load X m k, m_Delete X k m))"

text \<open>An instance: functions as maps.\<close>

definition fun_map :: "('k, 'v, 'k \<Rightarrow> 'v option) MapOf" where
  "fun_map = \<lparr>m_New = Map.empty, m_Load = (\<lambda>m. m), m_Store = (\<lambda>k v m. m(k \<mapsto> v)),
     m_Delete = (\<lambda>k m. m(k := None)),
     m_LoadOrStore = (\<lambda>k v m. case m k of Some w \<Rightarrow> ((w, True), m) | None \<Rightarrow> ((v, False), m(k \<mapsto> v))),
     m_LoadAndDelete = (\<lambda>k m. (m k, m(k := None)))\<rparr>"

lemma xsync_fun_map: "xsync_map fun_map"
  by (auto simp: xsync_map_def fun_map_def split: option.split)

lemma xsync_mapD:
  assumes "xsync_map X"
  shows "m_Load X (m_New X) k = None" "m_Load X (m_Store X k v m) = (m_Load X m)(k \<mapsto> v)"
    "m_Load X (m_Delete X k m) = (m_Load X m)(k := None)"
    "m_LoadOrStore X k v m =
       (case m_Load X m k of Some w \<Rightarrow> ((w, True), m) | None \<Rightarrow> ((v, False), m_Store X k v m))"
    "m_LoadAndDelete X k m = (m_Load X m k, m_Delete X k m)"
  using assms unfolding xsync_map_def by blast+

section \<open>The operating system\<close>

record OS =
  os_files :: "string \<Rightarrow> bytes option"
  os_faults :: "bool list"

definition sys_call :: "OS \<Rightarrow> bool \<times> OS" where
  "sys_call os = (case os_faults os of [] \<Rightarrow> (False, os) | f # fs \<Rightarrow> (f, os\<lparr>os_faults := fs\<rparr>))"

definition os_OpenFile :: "string \<Rightarrow> OS \<Rightarrow> (string + unit) \<times> OS" where
  "os_OpenFile name os =
     (let (fault, os) = sys_call os in
      if fault then (Inl ''open'', os)
      else (Inr (), case os_files os name of
        None \<Rightarrow> os\<lparr>os_files := (os_files os)(name \<mapsto> [])\<rparr> | Some _ \<Rightarrow> os))"

definition os_Size :: "string \<Rightarrow> OS \<Rightarrow> (string + nat) \<times> OS" where
  "os_Size name os =
     (let (fault, os) = sys_call os in
      if fault then (Inl ''stat'', os)
      else case os_files os name of
        None \<Rightarrow> (Inl ''stat'', os) | Some bs \<Rightarrow> (Inr (length bs), os))"

definition os_Truncate :: "string \<Rightarrow> nat \<Rightarrow> OS \<Rightarrow> (string + unit) \<times> OS" where
  "os_Truncate name n os =
     (let (fault, os) = sys_call os in
      if fault then (Inl ''truncate'', os)
      else case os_files os name of
        None \<Rightarrow> (Inl ''truncate'', os)
      | Some bs \<Rightarrow> (Inr (), os\<lparr>os_files := (os_files os)(name \<mapsto> take n bs @ replicate (n - length bs) 0)\<rparr>))"

definition os_ReadAt :: "string \<Rightarrow> nat \<Rightarrow> nat \<Rightarrow> OS \<Rightarrow> (string + bytes) \<times> OS" where
  "os_ReadAt name n off os =
     (let (fault, os) = sys_call os in
      if fault then (Inl ''read'', os)
      else case os_files os name of
        None \<Rightarrow> (Inl ''read'', os)
      | Some bs \<Rightarrow> (if off + n \<le> length bs then (Inr (seg off n bs), os) else (Inl ''EOF'', os)))"

text \<open>A write beyond the end extends the file, with zeros in between.\<close>

definition os_WriteAt :: "string \<Rightarrow> bytes \<Rightarrow> nat \<Rightarrow> OS \<Rightarrow> (string + unit) \<times> OS" where
  "os_WriteAt name src off os =
     (let (fault, os) = sys_call os in
      if fault then (Inl ''write'', os)
      else case os_files os name of
        None \<Rightarrow> (Inl ''write'', os)
      | Some bs \<Rightarrow> (Inr (), os\<lparr>os_files := (os_files os)(name \<mapsto>
          blit off src (bs @ replicate (off + length src - length bs) 0))\<rparr>))"

definition os_Remove :: "string \<Rightarrow> OS \<Rightarrow> (string + unit) \<times> OS" where
  "os_Remove name os =
     (let (fault, os) = sys_call os in
      if fault then (Inl ''remove'', os)
      else case os_files os name of
        None \<Rightarrow> (Inl ''remove'', os) | Some _ \<Rightarrow> (Inr (), os\<lparr>os_files := (os_files os)(name := None)\<rparr>))"

section \<open>Files\<close>

text \<open>\<open>fmt.Sprintf("dbo_%d.dat", oid)\<close>.\<close>

definition file_name :: "ObjectID \<Rightarrow> string" where
  "file_name oid = ''dbo_'' @ decimal (unat oid) @ ''.dat''"

record DiskDBFile =
  df_file :: string
  df_numPages :: int32

definition NewDiskDBFile :: "string \<Rightarrow> OS \<Rightarrow> (string + DiskDBFile) \<times> OS" where
  "NewDiskDBFile name os =
     (case os_Size name os of
        (Inl err, os) \<Rightarrow> (Inl err, os)
      | (Inr n, os) \<Rightarrow> (Inr \<lparr>df_file = name, df_numPages = of_nat (n div PageSize)\<rparr>, os))"

definition DiskDBFile_AllocatePage :: "DiskDBFile \<Rightarrow> int32 \<Rightarrow> OS \<Rightarrow> ((string + int32) \<times> DiskDBFile \<times> OS) option" where
  "DiskDBFile_AllocatePage f numPages os = do {
     Assert (0 < sint numPages);
     let currentPages = df_numPages f;
     let newTotalPages = currentPages + numPages;
     let newSizeBytes = sint newTotalPages * int PageSize;
     (if newSizeBytes < 0 then Some (Inl ''truncate: invalid argument'', f, os)
      else case os_Truncate (df_file f) (nat newSizeBytes) os of
        (Inl err, os) \<Rightarrow> Some (Inl err, f, os)
      | (Inr _, os) \<Rightarrow> Some (Inr currentPages, f\<lparr>df_numPages := newTotalPages\<rparr>, os))
   }"

definition DiskDBFile_ReadPage :: "DiskDBFile \<Rightarrow> int32 \<Rightarrow> nat \<Rightarrow> OS \<Rightarrow> ((string + bytes) \<times> OS) option" where
  "DiskDBFile_ReadPage f pageNum frameLen os = do {
     Assert (frameLen = PageSize);
     Some (if sint pageNum \<ge> sint (df_numPages f) then (Inl ''read out of bounds'', os)
           else if sint pageNum < 0 then (Inl ''negative offset'', os)
           else os_ReadAt (df_file f) PageSize (nat (sint pageNum) * PageSize) os)
   }"

definition DiskDBFile_WritePage :: "DiskDBFile \<Rightarrow> int32 \<Rightarrow> bytes \<Rightarrow> OS \<Rightarrow> ((string + unit) \<times> OS) option" where
  "DiskDBFile_WritePage f pageNum frame os = do {
     Assert (length frame = PageSize);
     Some (if sint pageNum \<ge> sint (df_numPages f) then (Inl ''write out of bounds'', os)
           else if sint pageNum < 0 then (Inl ''negative offset'', os)
           else os_WriteAt (df_file f) frame (nat (sint pageNum) * PageSize) os)
   }"

definition DiskDBFile_NumPages :: "DiskDBFile \<Rightarrow> int32" where
  "DiskDBFile_NumPages f = df_numPages f"

section \<open>The file manager\<close>

record 'm DiskDBFileManager =
  fileCache :: 'm
  dm_os :: OS

definition NewDiskStorageManager :: "(ObjectID, DiskDBFile, 'm) MapOf \<Rightarrow> OS \<Rightarrow> 'm DiskDBFileManager" where
  "NewDiskStorageManager X os = \<lparr>fileCache = m_New X, dm_os = os\<rparr>"

definition GetDBFile :: "(ObjectID, DiskDBFile, 'm) MapOf \<Rightarrow> ObjectID \<Rightarrow> 'm DiskDBFileManager \<Rightarrow>
    (string + ObjectID) \<times> 'm DiskDBFileManager" where
  "GetDBFile X oid dsm =
     (case m_Load X (fileCache dsm) oid of
        Some file \<Rightarrow> (Inr oid, dsm)
      | None \<Rightarrow>
          (case os_OpenFile (file_name oid) (dm_os dsm) of
             (Inl err, os) \<Rightarrow> (Inl err, dsm\<lparr>dm_os := os\<rparr>)
           | (Inr _, os) \<Rightarrow>
               (case NewDiskDBFile (file_name oid) os of
                  (Inl err, os) \<Rightarrow> (Inl err, dsm\<lparr>dm_os := os\<rparr>)
                | (Inr newDBFile, os) \<Rightarrow>
                    (let ((actualFile, loaded), cache) = m_LoadOrStore X oid newDBFile (fileCache dsm)
                     in (Inr oid, dsm\<lparr>fileCache := cache, dm_os := os\<rparr>)))))"

definition DeleteDBFile :: "(ObjectID, DiskDBFile, 'm) MapOf \<Rightarrow> ObjectID \<Rightarrow> 'm DiskDBFileManager \<Rightarrow>
    (string + unit) \<times> 'm DiskDBFileManager" where
  "DeleteDBFile X oid dsm =
     (let (file, cache) = m_LoadAndDelete X oid (fileCache dsm);
          (res, os) = os_Remove (file_name oid) (dm_os dsm)
      in (res, dsm\<lparr>fileCache := cache, dm_os := os\<rparr>))"

text \<open>The operations on a file through its handle.\<close>

definition handle_ReadPage :: "(ObjectID, DiskDBFile, 'm) MapOf \<Rightarrow> ObjectID \<Rightarrow> int32 \<Rightarrow> nat \<Rightarrow> 'm DiskDBFileManager \<Rightarrow>
    ((string + bytes) \<times> 'm DiskDBFileManager) option" where
  "handle_ReadPage X h pageNum frameLen dsm =
     (case m_Load X (fileCache dsm) h of
        None \<Rightarrow> Some (Inl ''file already closed'', dsm)
      | Some f \<Rightarrow> do {
          (res, os) \<leftarrow> DiskDBFile_ReadPage f pageNum frameLen (dm_os dsm);
          Some (res, dsm\<lparr>dm_os := os\<rparr>)
        })"

definition handle_WritePage :: "(ObjectID, DiskDBFile, 'm) MapOf \<Rightarrow> ObjectID \<Rightarrow> int32 \<Rightarrow> bytes \<Rightarrow> 'm DiskDBFileManager \<Rightarrow>
    ((string + unit) \<times> 'm DiskDBFileManager) option" where
  "handle_WritePage X h pageNum frame dsm =
     (case m_Load X (fileCache dsm) h of
        None \<Rightarrow> Some (Inl ''file already closed'', dsm)
      | Some f \<Rightarrow> do {
          (res, os) \<leftarrow> DiskDBFile_WritePage f pageNum frame (dm_os dsm);
          Some (res, dsm\<lparr>dm_os := os\<rparr>)
        })"

definition handle_AllocatePage :: "(ObjectID, DiskDBFile, 'm) MapOf \<Rightarrow> ObjectID \<Rightarrow> int32 \<Rightarrow> 'm DiskDBFileManager \<Rightarrow>
    ((string + int32) \<times> 'm DiskDBFileManager) option" where
  "handle_AllocatePage X h numPages dsm =
     (case m_Load X (fileCache dsm) h of
        None \<Rightarrow> Some (Inl ''file already closed'', dsm)
      | Some f \<Rightarrow> do {
          (res, f, os) \<leftarrow> DiskDBFile_AllocatePage f numPages (dm_os dsm);
          Some (res, dsm\<lparr>fileCache := m_Store X h f (fileCache dsm), dm_os := os\<rparr>)
        })"

definition handle_NumPages :: "(ObjectID, DiskDBFile, 'm) MapOf \<Rightarrow> ObjectID \<Rightarrow> 'm DiskDBFileManager \<Rightarrow> string + int32" where
  "handle_NumPages X h dsm =
     (case m_Load X (fileCache dsm) h of
        None \<Rightarrow> Inl ''file already closed''
      | Some f \<Rightarrow> Inr (DiskDBFile_NumPages f))"


section \<open>The interface of a store of pages\<close>

text \<open>The operations of \<open>DBFileManager\<close> and \<open>DBFile\<close>, as their clients call them.\<close>

record 'fs DBFileManager =
  fm_GetDBFile :: "ObjectID \<Rightarrow> 'fs \<Rightarrow> (string + ObjectID) \<times> 'fs"
  fm_ReadPage :: "ObjectID \<Rightarrow> int32 \<Rightarrow> nat \<Rightarrow> 'fs \<Rightarrow> ((string + bytes) \<times> 'fs) option"
  fm_WritePage :: "ObjectID \<Rightarrow> int32 \<Rightarrow> bytes \<Rightarrow> 'fs \<Rightarrow> ((string + unit) \<times> 'fs) option"
  fm_AllocatePage :: "ObjectID \<Rightarrow> int32 \<Rightarrow> 'fs \<Rightarrow> ((string + int32) \<times> 'fs) option"
  fm_NumPages :: "ObjectID \<Rightarrow> 'fs \<Rightarrow> string + int32"

abbreviation pid_of :: "ObjectID \<Rightarrow> int32 \<Rightarrow> PageID" where
  "pid_of oid n \<equiv> \<lparr>Oid = oid, PageNum = n\<rparr>"

locale page_store =
  fixes M :: "'fs DBFileManager" and pages :: "'fs \<Rightarrow> PageID \<Rightarrow> bytes option" and ok :: "'fs \<Rightarrow> bool"
  assumes page_length: "ok fs \<Longrightarrow> pages fs pid = Some bs \<Longrightarrow> length bs = PageSize"
    and get_file: "ok fs \<Longrightarrow> fm_GetDBFile M oid fs = (rg, fs') \<Longrightarrow>
      ok fs' \<and> pages fs' = pages fs \<and> (\<forall>h. rg = Inr h \<longrightarrow> h = oid)"
    and read_total: "\<exists>rr fs'. fm_ReadPage M oid n PageSize fs = Some (rr, fs')"
    and read_page: "ok fs \<Longrightarrow> fm_ReadPage M oid n PageSize fs = Some (rr, fs') \<Longrightarrow>
      ok fs' \<and> pages fs' = pages fs \<and> (\<forall>bs. rr = Inr bs \<longrightarrow> pages fs (pid_of oid n) = Some bs)"
    and write_total: "length bs = PageSize \<Longrightarrow> \<exists>rw fs'. fm_WritePage M oid n bs fs = Some (rw, fs')"
    and write_page: "ok fs \<Longrightarrow> fm_WritePage M oid n bs fs = Some (rw, fs') \<Longrightarrow>
      ok fs' \<and> (\<forall>e. rw = Inl e \<longrightarrow> pages fs' = pages fs) \<and>
      (\<forall>u. rw = Inr u \<longrightarrow> pages fs' = (pages fs)(pid_of oid n \<mapsto> bs) \<and> pages fs (pid_of oid n) \<noteq> None)"
    and allocate_page: "ok fs \<Longrightarrow> fm_AllocatePage M oid k fs = Some (ra, fs') \<Longrightarrow>
      ok fs' \<and> (\<forall>e. ra = Inl e \<longrightarrow> pages fs' = pages fs) \<and>
      (\<forall>n. ra = Inr n \<longrightarrow> (\<forall>pid. pages fs' pid =
         (if Oid pid = oid \<and> sint n \<le> sint (PageNum pid) \<and> sint (PageNum pid) < sint n + sint k
          then Some (replicate PageSize 0) else pages fs pid)) \<and> fm_NumPages M oid fs = Inr n)"
    and allocate_total: "0 < sint k \<Longrightarrow> \<exists>ra fs'. fm_AllocatePage M oid k fs = Some (ra, fs')"
    and num_pages: "ok fs \<Longrightarrow> fm_NumPages M oid fs = Inr n \<Longrightarrow>
      pages fs (pid_of oid m) \<noteq> None \<longleftrightarrow> 0 \<le> sint m \<and> sint m < sint n"
    and num_pages_nonneg: "ok fs \<Longrightarrow> fm_NumPages M oid fs = Inr n \<Longrightarrow> 0 \<le> sint n"
    and page_nums: "ok fs \<Longrightarrow> pages fs pid = Some bs \<Longrightarrow> 0 \<le> sint (PageNum pid)"
begin

text \<open>A page that has been written is what a later read of it returns, if that read succeeds.\<close>

lemma write_read:
  assumes "ok fs" "fm_WritePage M oid n bs fs = Some (Inr u, fs1)" "fm_ReadPage M oid n PageSize fs1 = Some (Inr bs', fs2)"
  shows "bs' = bs"
  using write_page [OF assms(1,2)] read_page [of fs1 oid n "Inr bs'" fs2] assms(3) by auto

end

section \<open>The disk manager as a store of pages\<close>

definition disk_ops :: "(ObjectID, DiskDBFile, 'm) MapOf \<Rightarrow> 'm DiskDBFileManager DBFileManager" where
  "disk_ops X = \<lparr>fm_GetDBFile = GetDBFile X, fm_ReadPage = handle_ReadPage X, fm_WritePage = handle_WritePage X,
     fm_AllocatePage = handle_AllocatePage X, fm_NumPages = handle_NumPages X\<rparr>"

definition page_at :: "bytes \<Rightarrow> nat \<Rightarrow> bytes" where
  "page_at bs k = seg (k * PageSize) PageSize bs"

definition file_pages :: "bytes option \<Rightarrow> int32 \<Rightarrow> bytes option" where
  "file_pages file n = (case file of None \<Rightarrow> None
     | Some bs \<Rightarrow> if 0 \<le> sint n \<and> (nat (sint n) + 1) * PageSize \<le> length bs then Some (page_at bs (nat (sint n))) else None)"

definition disk_pages :: "'m DiskDBFileManager \<Rightarrow> PageID \<Rightarrow> bytes option" where
  "disk_pages dsm pid = file_pages (os_files (dm_os dsm) (file_name (Oid pid))) (PageNum pid)"

definition file_ok :: "bytes \<Rightarrow> bool" where
  "file_ok bs \<longleftrightarrow> (\<exists>k < 2147483648. length bs = k * PageSize)"

definition disk_ok :: "(ObjectID, DiskDBFile, 'm) MapOf \<Rightarrow> 'm DiskDBFileManager \<Rightarrow> bool" where
  "disk_ok X dsm \<longleftrightarrow>
     (\<forall>oid bs. os_files (dm_os dsm) (file_name oid) = Some bs \<longrightarrow> file_ok bs) \<and>
     (\<forall>oid f. m_Load X (fileCache dsm) oid = Some f \<longrightarrow> df_file f = file_name oid \<and>
        (\<exists>bs. os_files (dm_os dsm) (file_name oid) = Some bs \<and> int (length bs) = sint (df_numPages f) * int PageSize))"

lemma digit_inj: "a < 10 \<Longrightarrow> b < 10 \<Longrightarrow> digit a = digit b \<Longrightarrow> a = b"
  by (auto simp: digit_def dest!: arg_cong [where f = "of_char :: char \<Rightarrow> nat"])

lemma decimal_snoc: "\<exists>ds. decimal n = ds @ [digit (n mod 10)]"
  by (cases "n < 10") (simp_all add: decimal.simps [of n])

lemma decimal_ne: "decimal n \<noteq> []"
  using decimal_snoc [of n] by auto

lemma decimal_inj: "decimal a = decimal b \<Longrightarrow> a = b"
proof (induction a arbitrary: b rule: less_induct)
  case (less a)
  have d: "digit (a mod 10) = digit (b mod 10)"
    using decimal_snoc [of a] decimal_snoc [of b] less.prems by auto
  then have m: "a mod 10 = b mod 10" by (intro digit_inj) auto
  show ?case
  proof (cases "a < 10 \<or> b < 10")
    case True
    then have "a < 10 \<and> b < 10"
      using less.prems decimal_ne [of "a div 10"] decimal_ne [of "b div 10"]
      by (cases "a < 10"; cases "b < 10") (auto simp: decimal.simps [of a] decimal.simps [of b])
    then show ?thesis using m by simp
  next
    case False
    then have "decimal (a div 10) = decimal (b div 10)"
      using less.prems d by (simp add: decimal.simps [of a] decimal.simps [of b])
    then have "a div 10 = b div 10" using False by (intro less.IH) auto
    then show ?thesis using m by (metis div_mult_mod_eq)
  qed
qed

lemma file_name_inj: "file_name a = file_name b \<longleftrightarrow> a = b"
  by (auto simp: file_name_def word_unat_eq_iff dest: decimal_inj)

lemma file_pages_update:
  assumes "file_ok bs" "length src = PageSize" "(k + 1) * PageSize \<le> length bs"
  shows "file_pages (Some (blit (k * PageSize) src bs)) n =
    (if sint n = int k then Some src else file_pages (Some bs) n)"
proof (cases "0 \<le> sint n \<and> (nat (sint n) + 1) * PageSize \<le> length bs")
  case True
  have "page_at (blit (k * PageSize) src bs) (nat (sint n)) = (if sint n = int k then src else page_at bs (nat (sint n)))"
  proof (cases "sint n = int k")
    case True
    then show ?thesis unfolding page_at_def using assms by (simp add: seg_blit_same)
  next
    case False
    then have "nat (sint n) \<noteq> k" using True by auto
    then have "nat (sint n) * PageSize + PageSize \<le> k * PageSize \<or> k * PageSize + PageSize \<le> nat (sint n) * PageSize"
      by (rule slots_disjoint)
    then show ?thesis unfolding page_at_def using False assms(2) by (subst seg_blit_disjoint) auto
  qed
  then show ?thesis using True by (simp add: file_pages_def)
next
  case False
  then have "sint n \<noteq> int k" using assms(3) by auto
  then show ?thesis using False by (auto simp: file_pages_def)
qed


lemma sys_call_files [simp]: "sys_call os = (b, os') \<Longrightarrow> os_files os' = os_files os"
  by (auto simp: sys_call_def split: list.splits)

lemma os_ReadAt_spec:
  assumes "os_ReadAt name n off os = (r, os')"
  shows "os_files os' = os_files os \<and>
    (\<forall>bs. r = Inr bs \<longrightarrow> (\<exists>file. os_files os name = Some file \<and> off + n \<le> length file \<and> bs = seg off n file))"
  using assms by (auto simp: os_ReadAt_def split: prod.splits option.splits if_splits)

lemma os_WriteAt_spec:
  assumes "os_WriteAt name src off os = (r, os')"
  shows "(\<forall>e. r = Inl e \<longrightarrow> os_files os' = os_files os) \<and>
    (\<forall>u. r = Inr u \<longrightarrow> (\<exists>file. os_files os name = Some file \<and>
       os_files os' = (os_files os)(name \<mapsto> blit off src (file @ replicate (off + length src - length file) 0))))"
  using assms by (auto simp: os_WriteAt_def split: prod.splits option.splits if_splits)

lemma os_Truncate_spec:
  assumes "os_Truncate name n os = (r, os')"
  shows "(\<forall>e. r = Inl e \<longrightarrow> os_files os' = os_files os) \<and>
    (\<forall>u. r = Inr u \<longrightarrow> (\<exists>file. os_files os name = Some file \<and>
       os_files os' = (os_files os)(name \<mapsto> take n file @ replicate (n - length file) 0)))"
  using assms by (auto simp: os_Truncate_def split: prod.splits option.splits if_splits)

lemma os_OpenFile_spec:
  assumes "os_OpenFile name os = (r, os')"
  shows "(\<forall>e. r = Inl e \<longrightarrow> os_files os' = os_files os) \<and>
    (\<forall>u. r = Inr u \<longrightarrow> os_files os' = (if os_files os name = None then (os_files os)(name \<mapsto> []) else os_files os))"
  using assms by (auto simp: os_OpenFile_def split: prod.splits option.splits if_splits)

lemma os_Size_spec:
  assumes "os_Size name os = (r, os')"
  shows "os_files os' = os_files os \<and>
    (\<forall>n. r = Inr n \<longrightarrow> (\<exists>file. os_files os name = Some file \<and> n = length file))"
  using assms by (auto simp: os_Size_def split: prod.splits option.splits if_splits)

lemma file_pages_empty: "file_pages (Some []) n = None" "file_pages None n = None"
  by (auto simp: file_pages_def)

lemma disk_okD:
  assumes "disk_ok X dsm" "m_Load X (fileCache dsm) oid = Some f"
  obtains bs where "df_file f = file_name oid" "os_files (dm_os dsm) (file_name oid) = Some bs"
    "int (length bs) = sint (df_numPages f) * int PageSize" "file_ok bs"
  using assms unfolding disk_ok_def by blast

lemma disk_pages_upd:
  "os_files (dm_os dsm') = (os_files (dm_os dsm))(file_name oid \<mapsto> bs) \<Longrightarrow>
   disk_pages dsm' pid = (if Oid pid = oid then file_pages (Some bs) (PageNum pid) else disk_pages dsm pid)"
  by (simp add: disk_pages_def file_name_inj)

lemma disk_ok_upd:
  assumes "disk_ok X dsm" "os_files os' = (os_files (dm_os dsm))(file_name oid \<mapsto> bs')" "file_ok bs'"
    and "\<And>f. m_Load X (fileCache dsm) oid = Some f \<Longrightarrow> int (length bs') = sint (df_numPages f) * int PageSize"
  shows "disk_ok X (dsm\<lparr>dm_os := os'\<rparr>)"
  using assms unfolding disk_ok_def by (auto simp: file_name_inj)

lemma disk_ok_same: "disk_ok X dsm \<Longrightarrow> os_files os' = os_files (dm_os dsm) \<Longrightarrow> disk_ok X (dsm\<lparr>dm_os := os'\<rparr>)"
  by (simp add: disk_ok_def)

lemma disk_pages_same: "os_files os' = os_files (dm_os dsm) \<Longrightarrow> disk_pages (dsm\<lparr>dm_os := os'\<rparr>) = disk_pages dsm"
  by (simp add: disk_pages_def fun_eq_iff)

lemma sint_of_nat_eq_32: "k < 2147483648 \<Longrightarrow> sint (of_nat k :: int32) = int k"
  by (simp add: signed_of_nat signed_take_bit_int_eq_self)

lemma disk_get_file:
  assumes X: "xsync_map X" and ok: "disk_ok X dsm" and get: "GetDBFile X oid dsm = (r, dsm')"
  shows "disk_ok X dsm' \<and> disk_pages dsm' = disk_pages dsm \<and> (\<forall>h. r = Inr h \<longrightarrow> h = oid)"
proof (cases "m_Load X (fileCache dsm) oid")
  case (Some f)
  then show ?thesis using get ok by (auto simp: GetDBFile_def)
next
  case None
  obtain r1 os1 where o1: "os_OpenFile (file_name oid) (dm_os dsm) = (r1, os1)" by fastforce
  obtain r2 os2 where o2: "os_Size (file_name oid) os1 = (r2, os2)" by fastforce
  note s1 = os_OpenFile_spec [OF o1] and s2 = os_Size_spec [OF o2]
  have f2: "os_files os2 = os_files os1" using s2 by simp
  have base: "disk_ok X (dsm\<lparr>dm_os := os\<rparr>) \<and> disk_pages (dsm\<lparr>dm_os := os\<rparr>) = disk_pages dsm"
    if "os_files os = os_files os1" for os
  proof (cases "\<exists>u. r1 = Inr u \<and> os_files (dm_os dsm) (file_name oid) = None")
    case True
    then have upd: "os_files os = (os_files (dm_os dsm))(file_name oid \<mapsto> [])" using s1 that by auto
    have "file_ok []" by (simp add: file_ok_def)
    then have "disk_ok X (dsm\<lparr>dm_os := os\<rparr>)" using upd None by (intro disk_ok_upd [OF ok]) auto
    moreover have "disk_pages (dsm\<lparr>dm_os := os\<rparr>) = disk_pages dsm"
      using True upd by (auto simp: fun_eq_iff disk_pages_def file_name_inj file_pages_empty)
    ultimately show ?thesis ..
  next
    case False
    then have "os_files os = os_files (dm_os dsm)" using s1 that by (cases r1) auto
    then show ?thesis using disk_ok_same [OF ok] disk_pages_same by blast
  qed
  show ?thesis
  proof (cases r1)
    case (Inl e)
    then show ?thesis using get None o1 base [OF refl] by (auto simp: GetDBFile_def)
  next
    case r1: (Inr u)
    show ?thesis
    proof (cases r2)
      case (Inl e)
      then show ?thesis using get None o1 o2 r1 base [OF f2] by (auto simp: GetDBFile_def NewDiskDBFile_def)
    next
      case (Inr n)
      then obtain bs where fl: "os_files os1 (file_name oid) = Some bs" "n = length bs" using s2 by blast
      define f where "f = \<lparr>df_file = file_name oid, df_numPages = of_nat (n div PageSize) :: int32\<rparr>"
      have dsm': "dsm' = dsm\<lparr>fileCache := m_Store X oid f (fileCache dsm), dm_os := os2\<rparr>" "r = Inr oid"
        using get None o1 o2 r1 Inr by (simp_all add: GetDBFile_def NewDiskDBFile_def xsync_mapD(4) [OF X] f_def)
      have b: "disk_ok X (dsm\<lparr>dm_os := os2\<rparr>)" "disk_pages (dsm\<lparr>dm_os := os2\<rparr>) = disk_pages dsm" using base [OF f2] by auto
      then have "file_ok bs" using fl(1) f2 by (auto simp: disk_ok_def)
      then obtain k where k: "k < 2147483648" "length bs = k * PageSize" by (auto simp: file_ok_def)
      then have "sint (df_numPages f) = int k"
        using fl(2) by (simp add: f_def sint_of_nat_eq_32)
      then have "disk_ok X dsm'"
        using b(1) k(2) fl(1) f2 unfolding disk_ok_def dsm' by (auto simp: xsync_mapD(2) [OF X] f_def)
      moreover have "disk_pages dsm' = disk_pages dsm" using b(2) by (simp add: dsm' disk_pages_def fun_eq_iff)
      ultimately show ?thesis using dsm'(2) by simp
    qed
  qed
qed


lemma disk_read_page:
  assumes ok: "disk_ok X dsm" and rd: "handle_ReadPage X oid n PageSize dsm = Some (r, dsm')"
  shows "disk_ok X dsm' \<and> disk_pages dsm' = disk_pages dsm \<and> (\<forall>bs. r = Inr bs \<longrightarrow> disk_pages dsm (pid_of oid n) = Some bs)"
proof (cases "m_Load X (fileCache dsm) oid")
  case None
  then show ?thesis using rd ok by (auto simp: handle_ReadPage_def)
next
  case (Some f)
  obtain bs where f: "df_file f = file_name oid" "os_files (dm_os dsm) (file_name oid) = Some bs"
    "int (length bs) = sint (df_numPages f) * int PageSize" by (rule disk_okD [OF ok Some])
  obtain os' where r: "DiskDBFile_ReadPage f n PageSize (dm_os dsm) = Some (r, os')" "dsm' = dsm\<lparr>dm_os := os'\<rparr>"
    using rd Some by (auto simp: handle_ReadPage_def bind_eq_Some_conv)
  have "os_files os' = os_files (dm_os dsm) \<and> (\<forall>d. r = Inr d \<longrightarrow> disk_pages dsm (pid_of oid n) = Some d)"
  proof (cases "sint n \<ge> sint (df_numPages f) \<or> sint n < 0")
    case True
    then show ?thesis using r(1) by (auto simp: DiskDBFile_ReadPage_def split: if_splits)
  next
    case False
    then have "os_ReadAt (file_name oid) PageSize (nat (sint n) * PageSize) (dm_os dsm) = (r, os')"
      using r(1) f(1) by (simp add: DiskDBFile_ReadPage_def)
    note sp = os_ReadAt_spec [OF this]
    have "disk_pages dsm (pid_of oid n) = Some d" if "r = Inr d" for d
    proof -
      have "nat (sint n) * PageSize + PageSize \<le> length bs" "d = seg (nat (sint n) * PageSize) PageSize bs"
        using sp that f(2) by auto
      then show ?thesis using False f(2) by (simp add: disk_pages_def file_pages_def page_at_def)
    qed
    then show ?thesis using sp by blast
  qed
  then show ?thesis using disk_ok_same [OF ok] disk_pages_same r(2) by blast
qed

lemma disk_write_page:
  assumes ok: "disk_ok X dsm" and wr: "handle_WritePage X oid n src dsm = Some (r, dsm')"
  shows "disk_ok X dsm' \<and> (\<forall>e. r = Inl e \<longrightarrow> disk_pages dsm' = disk_pages dsm) \<and>
    (\<forall>u. r = Inr u \<longrightarrow> disk_pages dsm' = (disk_pages dsm)(pid_of oid n \<mapsto> src) \<and> disk_pages dsm (pid_of oid n) \<noteq> None)"
proof (cases "m_Load X (fileCache dsm) oid")
  case None
  then show ?thesis using wr ok by (auto simp: handle_WritePage_def)
next
  case (Some f)
  obtain bs where f: "df_file f = file_name oid" "os_files (dm_os dsm) (file_name oid) = Some bs"
    "int (length bs) = sint (df_numPages f) * int PageSize" "file_ok bs" by (rule disk_okD [OF ok Some])
  obtain os' where r: "DiskDBFile_WritePage f n src (dm_os dsm) = Some (r, os')" "dsm' = dsm\<lparr>dm_os := os'\<rparr>"
    using wr Some by (auto simp: handle_WritePage_def bind_eq_Some_conv)
  have len: "length src = PageSize" using r(1) by (simp add: DiskDBFile_WritePage_def)
  show ?thesis
  proof (cases "sint n \<ge> sint (df_numPages f) \<or> sint n < 0")
    case True
    then have "os' = dm_os dsm" "\<exists>e. r = Inl e" using r(1) by (auto simp: DiskDBFile_WritePage_def split: if_splits)
    then show ?thesis using ok r(2) by auto
  next
    case False
    let ?k = "nat (sint n)"
    have w: "os_WriteAt (file_name oid) src (?k * PageSize) (dm_os dsm) = (r, os')"
      using r(1) f(1) False by (simp add: DiskDBFile_WritePage_def)
    note sp = os_WriteAt_spec [OF w]
    show ?thesis
    proof (cases r)
      case (Inl e)
      then show ?thesis using sp disk_ok_same [OF ok] disk_pages_same r(2) by blast
    next
      case (Inr u)
      have "sint n + 1 \<le> sint (df_numPages f)" using False by simp
      then have "(sint n + 1) * int PageSize \<le> int (length bs)" unfolding f(3) by (rule mult_right_mono) simp
      then have "int ((?k + 1) * PageSize) \<le> int (length bs)" using False by (simp add: algebra_simps)
      then have fit: "(?k + 1) * PageSize \<le> length bs" by (simp only: of_nat_le_iff)
      then have upd: "os_files os' = (os_files (dm_os dsm))(file_name oid \<mapsto> blit (?k * PageSize) src bs)"
        using sp Inr f(2) len by auto
      have "disk_ok X dsm'"
        unfolding r(2) using f(3,4) Some by (intro disk_ok_upd [OF ok upd]) (auto simp: file_ok_def)
      moreover have "disk_pages dsm' = (disk_pages dsm)(pid_of oid n \<mapsto> src)"
      proof
        fix pid :: PageID
        have "sint (PageNum pid) = int ?k \<longleftrightarrow> PageNum pid = n" using False by (auto simp: signed_word_eqI)
        then have "disk_pages dsm' pid = (if Oid pid = oid then
            (if PageNum pid = n then Some src else file_pages (Some bs) (PageNum pid)) else disk_pages dsm pid)"
          using disk_pages_upd [of dsm' dsm oid _ pid] upd r(2) file_pages_update [OF f(4) len fit, of "PageNum pid"] by simp
        then show "disk_pages dsm' pid = ((disk_pages dsm)(pid_of oid n \<mapsto> src)) pid"
          using f(2) by (cases pid) (auto simp: disk_pages_def)
      qed
      moreover have "disk_pages dsm (pid_of oid n) \<noteq> None"
        using fit f(2) False by (simp add: disk_pages_def file_pages_def)
      ultimately show ?thesis using Inr by simp
    qed
  qed
qed

lemma file_pages_extend:
  assumes "length bs = k * PageSize"
  shows "file_pages (Some (bs @ replicate (m * PageSize) 0)) n =
    (if int k \<le> sint n \<and> sint n < int k + int m then Some (replicate PageSize 0) else file_pages (Some bs) n)"
proof (cases "0 \<le> sint n")
  case True
  then obtain j where j: "sint n = int j" by (metis nonneg_int_cases)
  have *: "(j + 1) * PageSize \<le> (k + m) * PageSize \<longleftrightarrow> j < k + m" "(j + 1) * PageSize \<le> k * PageSize \<longleftrightarrow> j < k"
    by auto
  consider "j < k" | "k \<le> j" "j < k + m" | "k + m \<le> j" by linarith
  then show ?thesis
  proof cases
    case 1
    then have "j * PageSize + PageSize \<le> length bs" using * assms by simp
    then have "page_at (bs @ replicate (m * PageSize) 0) j = page_at bs j" by (simp add: page_at_def seg_append1)
    then show ?thesis using 1 * assms j by (auto simp: file_pages_def)
  next
    case 2
    have "(j - k) * PageSize + PageSize \<le> m * PageSize"
      using 2 slots_disjoint [of "j - k" m PageSize] by (cases "j - k < m") auto
    then have "page_at (bs @ replicate (m * PageSize) 0) j = replicate PageSize 0"
      using 2 assms by (simp add: page_at_def seg_append2 seg_replicate diff_mult_distrib)
    then show ?thesis using 2 * assms j by (auto simp: file_pages_def)
  next
    case 3
    then show ?thesis using * assms j by (auto simp: file_pages_def)
  qed
qed (simp add: file_pages_def)


lemma sint_add_32:
  fixes a b :: int32
  assumes "0 \<le> sint a" "0 \<le> sint b" "0 \<le> sint (a + b)"
  shows "sint (a + b) = sint a + sint b"
proof -
  have r: "sint a < 2147483648" "sint b < 2147483648"
    using sint_lt [of a] sint_lt [of b] by simp_all
  have e: "sint (a + b) = signed_take_bit 31 (sint a + sint b)" by (simp add: sint_word_ariths)
  show ?thesis
  proof (cases "sint a + sint b < 2147483648")
    case True
    then show ?thesis using e assms(1,2) by (simp add: signed_take_bit_int_eq_self)
  next
    case False
    let ?x = "sint a + sint b - 2147483648"
    have "(?x + 4294967296) mod 4294967296 = ?x" using False r by (simp only: mod_add_self2) (rule mod_pos_pos_trivial, auto)
    then have "signed_take_bit 31 (sint a + sint b) = ?x - 2147483648"
      by (simp add: signed_take_bit_eq_take_bit_shift take_bit_eq_mod algebra_simps)
    then show ?thesis using e assms(3) r by simp
  qed
qed

lemma disk_allocate_page:
  assumes X: "xsync_map X" and ok: "disk_ok X dsm" and al: "handle_AllocatePage X oid k dsm = Some (r, dsm')"
  shows "disk_ok X dsm' \<and> (\<forall>e. r = Inl e \<longrightarrow> disk_pages dsm' = disk_pages dsm) \<and>
    (\<forall>n. r = Inr n \<longrightarrow> (\<forall>pid. disk_pages dsm' pid =
       (if Oid pid = oid \<and> sint n \<le> sint (PageNum pid) \<and> sint (PageNum pid) < sint n + sint k
        then Some (replicate PageSize 0) else disk_pages dsm pid)))"
proof (cases "m_Load X (fileCache dsm) oid")
  case None
  then show ?thesis using al ok by (auto simp: handle_AllocatePage_def)
next
  case (Some f)
  obtain bs where f: "df_file f = file_name oid" "os_files (dm_os dsm) (file_name oid) = Some bs"
    "int (length bs) = sint (df_numPages f) * int PageSize" "file_ok bs" by (rule disk_okD [OF ok Some])
  obtain f' os' where a: "DiskDBFile_AllocatePage f k (dm_os dsm) = Some (r, f', os')"
    "dsm' = dsm\<lparr>fileCache := m_Store X oid f' (fileCache dsm), dm_os := os'\<rparr>"
    using al Some by (auto simp: handle_AllocatePage_def bind_eq_Some_conv)
  have k: "0 < sint k" using a(1) by (simp add: DiskDBFile_AllocatePage_def)
  let ?tot = "df_numPages f + k"
  have same: "disk_ok X dsm' \<and> disk_pages dsm' = disk_pages dsm" if "f' = f" "os_files os' = os_files (dm_os dsm)"
  proof -
    have "m_Load X (m_Store X oid f (fileCache dsm)) = m_Load X (fileCache dsm)"
      using Some by (auto simp: xsync_mapD(2) [OF X])
    then show ?thesis using ok that by (simp add: a(2) disk_ok_def disk_pages_def fun_eq_iff)
  qed
  show ?thesis
  proof (cases "sint ?tot * int PageSize < 0")
    case True
    then show ?thesis using a(1) k same by (auto simp: DiskDBFile_AllocatePage_def Let_def)
  next
    case False
    obtain t os1 where t: "os_Truncate (file_name oid) (nat (sint ?tot * int PageSize)) (dm_os dsm) = (t, os1)" by fastforce
    note sp = os_Truncate_spec [OF t]
    show ?thesis
    proof (cases t)
      case (Inl e)
      then show ?thesis using a(1) k False t sp same f(1) by (auto simp: DiskDBFile_AllocatePage_def Let_def)
    next
      case (Inr u)
      then have r: "r = Inr (df_numPages f)" "f' = f\<lparr>df_numPages := ?tot\<rparr>" "os' = os1"
        using a(1) k False t f(1) by (auto simp: DiskDBFile_AllocatePage_def Let_def)
      obtain c where c: "sint (df_numPages f) = int c" "length bs = c * PageSize"
        using f(3) by (metis of_nat_0_le_iff nonneg_int_cases zero_le_mult_iff of_nat_mult of_nat_eq_iff
            mult_less_0_iff not_less of_nat_less_0_iff f(4) file_ok_def mult_cancel_right PageSize_def of_nat_numeral zero_neq_numeral)
      obtain m where m: "sint k = int m" using k by (metis less_imp_le nonneg_int_cases)
      have tot: "sint ?tot = int (c + m)" using sint_add_32 [of "df_numPages f" k] c(1) m False by simp
      let ?bs' = "bs @ replicate (m * PageSize) 0"
      have sz: "nat (sint ?tot * int PageSize) = c * PageSize + m * PageSize"
        unfolding tot by (simp only: nat_int distrib_right flip: of_nat_mult)
      have upd: "os_files os' = (os_files (dm_os dsm))(file_name oid \<mapsto> ?bs')"
        using sp Inr f(2) r(3) c(2) unfolding sz by auto
      have "c + m < 2147483648" using tot sint_lt [of ?tot] by simp
      then have ok': "file_ok ?bs'" using c(2) by (auto simp: file_ok_def algebra_simps intro: exI [of _ "c + m"])
      have "disk_ok X dsm'"
        using ok ok' upd tot c(2) unfolding disk_ok_def a(2) r(2)
        by (auto simp: xsync_mapD(2) [OF X] file_name_inj f(1) algebra_simps)
      moreover have "disk_pages dsm' pid = (if Oid pid = oid \<and> sint (df_numPages f) \<le> sint (PageNum pid) \<and>
          sint (PageNum pid) < sint (df_numPages f) + sint k then Some (replicate PageSize 0) else disk_pages dsm pid)" for pid
        using disk_pages_upd [of dsm' dsm oid ?bs' pid] upd a(2) file_pages_extend [OF c(2), of m "PageNum pid"] c(1) m f(2)
        by (auto simp: disk_pages_def)
      ultimately show ?thesis using r(1) by auto
    qed
  qed
qed

lemma handle_AllocatePage_count:
  assumes "xsync_map X" "handle_AllocatePage X oid k dsm = Some (Inr m, dsm1)"
  shows "handle_NumPages X oid dsm = Inr m" "handle_NumPages X oid dsm1 = Inr (m + k)"
  using assms(2) by (auto simp: handle_AllocatePage_def DiskDBFile_AllocatePage_def handle_NumPages_def DiskDBFile_NumPages_def Let_def
      bind_eq_Some_conv xsync_mapD(2) [OF assms(1)] split: option.splits if_splits prod.splits sum.splits)

lemma disk_num_pages:
  assumes "disk_ok X dsm" "handle_NumPages X oid dsm = Inr n"
  shows "0 \<le> sint n" "disk_pages dsm (pid_of oid m) \<noteq> None \<longleftrightarrow> 0 \<le> sint m \<and> sint m < sint n"
proof -
  obtain f where f: "m_Load X (fileCache dsm) oid = Some f" "n = df_numPages f"
    using assms(2) by (auto simp: handle_NumPages_def DiskDBFile_NumPages_def split: option.splits)
  obtain bs where b: "os_files (dm_os dsm) (file_name oid) = Some bs" "int (length bs) = sint n * int PageSize"
    by (rule disk_okD [OF assms(1) f(1)]) (simp add: f(2))
  have "0 \<le> sint n * int PageSize" using b(2) by (metis of_nat_0_le_iff)
  then show "0 \<le> sint n" by (simp add: zero_le_mult_iff)
  show "disk_pages dsm (pid_of oid m) \<noteq> None \<longleftrightarrow> 0 \<le> sint m \<and> sint m < sint n"
  proof (cases "0 \<le> sint m")
    case True
    then obtain k where k: "sint m = int k" by (rule nonneg_int_cases)
    have "(k + 1) * PageSize \<le> length bs \<longleftrightarrow> int k < sint n" using b(2) by auto
    then show ?thesis using b(1) k by (simp add: disk_pages_def file_pages_def)
  qed (use b(1) in \<open>simp add: disk_pages_def file_pages_def\<close>)
qed

lemma disk_page_store:
  assumes "xsync_map X"
  shows "page_store (disk_ops X) disk_pages (disk_ok X)"
proof unfold_locales
  fix fs pid bs
  assume "disk_ok X fs" "disk_pages fs pid = Some bs"
  then show "length bs = PageSize"
    by (auto simp: disk_pages_def file_pages_def page_at_def split: option.splits if_splits)
next
  fix fs :: "'a DiskDBFileManager" and pid bs
  assume "disk_pages fs pid = Some bs"
  then show "0 \<le> sint (PageNum pid)" by (auto simp: disk_pages_def file_pages_def split: option.splits if_splits)
next
  fix oid n fs
  show "\<exists>r fs'. fm_ReadPage (disk_ops X) oid n PageSize fs = Some (r, fs')"
    by (auto simp: disk_ops_def handle_ReadPage_def DiskDBFile_ReadPage_def split: option.split prod.split)
next
  fix bs :: bytes and oid n fs
  assume "length bs = PageSize"
  then show "\<exists>r fs'. fm_WritePage (disk_ops X) oid n bs fs = Some (r, fs')"
    by (auto simp: disk_ops_def handle_WritePage_def DiskDBFile_WritePage_def split: option.split prod.split)
next
  fix fs oid rg fs'
  assume "disk_ok X fs" "fm_GetDBFile (disk_ops X) oid fs = (rg, fs')"
  then show "disk_ok X fs' \<and> disk_pages fs' = disk_pages fs \<and> (\<forall>h. rg = Inr h \<longrightarrow> h = oid)"
    using disk_get_file [OF assms] by (simp add: disk_ops_def)
next
  fix fs oid n rr fs'
  assume "disk_ok X fs" "fm_ReadPage (disk_ops X) oid n PageSize fs = Some (rr, fs')"
  then show "disk_ok X fs' \<and> disk_pages fs' = disk_pages fs \<and>
      (\<forall>bs. rr = Inr bs \<longrightarrow> disk_pages fs (pid_of oid n) = Some bs)"
    using disk_read_page by (fastforce simp: disk_ops_def)
next
  fix fs oid n bs rw fs'
  assume "disk_ok X fs" "fm_WritePage (disk_ops X) oid n bs fs = Some (rw, fs')"
  then show "disk_ok X fs' \<and> (\<forall>e. rw = Inl e \<longrightarrow> disk_pages fs' = disk_pages fs) \<and>
      (\<forall>u. rw = Inr u \<longrightarrow> disk_pages fs' = (disk_pages fs)(pid_of oid n \<mapsto> bs) \<and> disk_pages fs (pid_of oid n) \<noteq> None)"
    unfolding disk_ops_def DBFileManager.simps by (rule disk_write_page)
next
  fix fs oid k ra fs'
  assume a: "disk_ok X fs" "fm_AllocatePage (disk_ops X) oid k fs = Some (ra, fs')"
  then have h: "handle_AllocatePage X oid k fs = Some (ra, fs')" by (simp add: disk_ops_def)
  show "disk_ok X fs' \<and> (\<forall>e. ra = Inl e \<longrightarrow> disk_pages fs' = disk_pages fs) \<and>
      (\<forall>n. ra = Inr n \<longrightarrow> (\<forall>pid. disk_pages fs' pid =
         (if Oid pid = oid \<and> sint n \<le> sint (PageNum pid) \<and> sint (PageNum pid) < sint n + sint k
          then Some (replicate PageSize 0) else disk_pages fs pid)) \<and> fm_NumPages (disk_ops X) oid fs = Inr n)"
    using disk_allocate_page [OF assms a(1) h] handle_AllocatePage_count(1) [OF assms, of oid k fs _ fs'] h by (auto simp: disk_ops_def)
next
  fix k :: int32 and oid fs
  assume "0 < sint k"
  then show "\<exists>ra fs'. fm_AllocatePage (disk_ops X) oid k fs = Some (ra, fs')"
    by (auto simp: disk_ops_def handle_AllocatePage_def DiskDBFile_AllocatePage_def Let_def split: option.split prod.split sum.split)
next
  fix fs oid n m
  assume "disk_ok X fs" "fm_NumPages (disk_ops X) oid fs = Inr n"
  then show "disk_pages fs (pid_of oid m) \<noteq> None \<longleftrightarrow> 0 \<le> sint m \<and> sint m < sint n"
    using disk_num_pages(2) [of X fs oid n m] by (simp add: disk_ops_def)
next
  fix fs oid n
  assume "disk_ok X fs" "fm_NumPages (disk_ops X) oid fs = Inr n"
  then show "0 \<le> sint n" using disk_num_pages(1) [of X fs oid n] by (simp add: disk_ops_def)
qed

interpretation disk: page_store "disk_ops fun_map" disk_pages "disk_ok fun_map"
  by (rule disk_page_store) (rule xsync_fun_map)

lemma DiskFile_pages_spec:
  assumes "xsync_map X" "disk_ok X dsm"
  shows "handle_WritePage X oid n src dsm = Some (Inr u, dsm1) \<Longrightarrow>
      disk_ok X dsm1 \<and> disk_pages dsm1 = (disk_pages dsm)(pid_of oid n \<mapsto> src) \<and> disk_pages dsm (pid_of oid n) \<noteq> None \<and>
      (\<not> fst (sys_call (dm_os dsm1)) \<longrightarrow> (\<exists>dsm2. handle_ReadPage X oid n PageSize dsm1 = Some (Inr src, dsm2)))"
    and "handle_AllocatePage X oid k dsm = Some (Inr m, dsm1) \<Longrightarrow>
      disk_ok X dsm1 \<and> handle_NumPages X oid dsm = Inr m \<and> handle_NumPages X oid dsm1 = Inr (m + k) \<and>
      disk_pages dsm1 = (\<lambda>pid. if Oid pid = oid \<and> sint m \<le> sint (PageNum pid) \<and> sint (PageNum pid) < sint m + sint k
        then Some (replicate PageSize 0) else disk_pages dsm pid)"
proof -
  assume w: "handle_WritePage X oid n src dsm = Some (Inr u, dsm1)"
  note dw = disk_write_page [OF assms(2) w]
  obtain f where f: "m_Load X (fileCache dsm1) oid = Some f" "sint n < sint (df_numPages f)" "0 \<le> sint n"
    using w by (auto simp: handle_WritePage_def DiskDBFile_WritePage_def bind_eq_Some_conv split: option.splits if_splits prod.splits)
  have "disk_ok X dsm1" using dw by simp
  then obtain bs where b: "df_file f = file_name oid" "os_files (dm_os dsm1) (file_name oid) = Some bs" by (rule disk_okD [OF _ f(1)])
  have p: "disk_pages dsm1 (pid_of oid n) = Some src" using dw by simp
  then have "nat (sint n) * PageSize + PageSize \<le> length bs" "seg (nat (sint n) * PageSize) PageSize bs = src"
    using b(2) by (auto simp: disk_pages_def file_pages_def page_at_def split: if_splits)
  then have "\<exists>dsm2. handle_ReadPage X oid n PageSize dsm1 = Some (Inr src, dsm2)" if "\<not> fst (sys_call (dm_os dsm1))"
    using that f b by (cases "sys_call (dm_os dsm1)") (auto simp: handle_ReadPage_def DiskDBFile_ReadPage_def os_ReadAt_def)
  then show "disk_ok X dsm1 \<and> disk_pages dsm1 = (disk_pages dsm)(pid_of oid n \<mapsto> src) \<and> disk_pages dsm (pid_of oid n) \<noteq> None \<and>
      (\<not> fst (sys_call (dm_os dsm1)) \<longrightarrow> (\<exists>dsm2. handle_ReadPage X oid n PageSize dsm1 = Some (Inr src, dsm2)))"
    using dw by simp
next
  assume a: "handle_AllocatePage X oid k dsm = Some (Inr m, dsm1)"
  show "disk_ok X dsm1 \<and> handle_NumPages X oid dsm = Inr m \<and> handle_NumPages X oid dsm1 = Inr (m + k) \<and>
      disk_pages dsm1 = (\<lambda>pid. if Oid pid = oid \<and> sint m \<le> sint (PageNum pid) \<and> sint (PageNum pid) < sint m + sint k
        then Some (replicate PageSize 0) else disk_pages dsm pid)"
    using disk_allocate_page [OF assms a] handle_AllocatePage_count [OF assms(1) a] by (auto simp: fun_eq_iff)
qed

definition sample_files :: "(ObjectID \<Rightarrow> DiskDBFile option) DiskDBFileManager" where
  "sample_files = \<lparr>fileCache = [1 \<mapsto> \<lparr>df_file = file_name 1, df_numPages = 1\<rparr>],
     dm_os = \<lparr>os_files = [file_name 1 \<mapsto> replicate PageSize 0], os_faults = []\<rparr>\<rparr>"

section \<open>Properties\<close>

text \<open>A page that \<open>WritePage\<close> reports as written is what \<open>ReadPage\<close> of the same page returns
  unless the read itself faults; no other page of any file changes, no file grows, and the file cache still
  describes the files. \<open>AllocatePage\<close> appends exactly the pages it was asked for, filled with zeros,
  after the pages the file had.\<close>

theorem DiskFile_pages:
  assumes "xsync_map X" "disk_ok X dsm"
  shows "(\<forall>u dsm1. handle_WritePage X oid n src dsm = Some (Inr u, dsm1) \<longrightarrow>
      disk_ok X dsm1 \<and> disk_pages dsm1 = (disk_pages dsm)(pid_of oid n \<mapsto> src) \<and> disk_pages dsm (pid_of oid n) \<noteq> None \<and>
      (\<not> fst (sys_call (dm_os dsm1)) \<longrightarrow> (\<exists>dsm2. handle_ReadPage X oid n PageSize dsm1 = Some (Inr src, dsm2)))) \<and>
    (\<forall>m dsm1. handle_AllocatePage X oid k dsm = Some (Inr m, dsm1) \<longrightarrow>
      disk_ok X dsm1 \<and> handle_NumPages X oid dsm = Inr m \<and> handle_NumPages X oid dsm1 = Inr (m + k) \<and>
      disk_pages dsm1 = (\<lambda>pid. if Oid pid = oid \<and> sint m \<le> sint (PageNum pid) \<and> sint (PageNum pid) < sint m + sint k
        then Some (replicate PageSize 0) else disk_pages dsm pid))"
  using DiskFile_pages_spec [OF assms] by blast

theorem DiskFile_pages_witness:
  "\<exists>u dsm1 dsm2. handle_WritePage fun_map 1 0 (replicate PageSize 7) sample_files = Some (Inr u, dsm1) \<and>
     handle_ReadPage fun_map 1 0 PageSize dsm1 = Some (Inr (replicate PageSize 7), dsm2)"
proof -
  have "file_ok (replicate PageSize 0)" unfolding file_ok_def by (rule exI [of _ 1]) simp
  then have ok: "disk_ok fun_map sample_files" by (auto simp: disk_ok_def sample_files_def fun_map_def)
  obtain dsm1 where w: "handle_WritePage fun_map 1 0 (replicate PageSize 7) sample_files = Some (Inr (), dsm1)" "os_faults (dm_os dsm1) = []"
    by (simp add: handle_WritePage_def sample_files_def fun_map_def DiskDBFile_WritePage_def os_WriteAt_def sys_call_def)
  then show ?thesis using DiskFile_pages [OF xsync_fun_map ok, of 1 0 "replicate PageSize 7"] by (fastforce simp: sys_call_def)
qed

end
