(* ===== verification/Storage_LogRecord.thy ===== *)
theory Storage_LogRecord
  imports Storage_HeapPage
begin

text \<open>
  Log records (\<open>storage/log_record.go\<close>), their type codes and the no-op log manager
  (\<open>storage/wal.go\<close>).

  A \<open>LogRecord\<close> is a window of a caller's buffer. The constructors write into the first bytes of the
  buffer they are given and return the window; here they return the window's new contents, and a
  caller that keeps the buffer writes them back over it. The checksum field is never written by the
  code (its computation is left open there), so the bytes 2 to 5 of a record are those of the buffer.
  \<open>AsVerifiedLogRecord\<close> is an unconditional panic in the source.
\<close>

section \<open>Record types\<close>

type_synonym LogRecordType = uint16

definition InvalidLogRecord :: LogRecordType where [simp]: "InvalidLogRecord = 0"
definition LogBeginTransaction :: LogRecordType where [simp]: "LogBeginTransaction = 1"
definition LogCommit :: LogRecordType where [simp]: "LogCommit = 2"
definition LogAbort :: LogRecordType where [simp]: "LogAbort = 3"
definition LogInsert :: LogRecordType where [simp]: "LogInsert = 4"
definition LogUpdate :: LogRecordType where [simp]: "LogUpdate = 5"
definition LogDelete :: LogRecordType where [simp]: "LogDelete = 6"
definition LogBeginCheckpoint :: LogRecordType where [simp]: "LogBeginCheckpoint = 7"
definition LogEndCheckpoint :: LogRecordType where [simp]: "LogEndCheckpoint = 8"
definition LogInsertCLR :: LogRecordType where [simp]: "LogInsertCLR = 9"
definition LogUpdateCLR :: LogRecordType where [simp]: "LogUpdateCLR = 10"
definition LogDeleteCLR :: LogRecordType where [simp]: "LogDeleteCLR = 11"

definition LogRecordType_String :: "LogRecordType \<Rightarrow> string" where
  "LogRecordType_String t =
     (if t = InvalidLogRecord then ''INVALID''
      else if t = LogBeginTransaction then ''BEGIN TRANSACTION''
      else if t = LogCommit then ''COMMIT''
      else if t = LogAbort then ''ABORT''
      else if t = LogInsert then ''INSERT''
      else if t = LogUpdate then ''UPDATE''
      else if t = LogDelete then ''DELETE''
      else if t = LogBeginCheckpoint then ''BEGIN CHECKPOINT''
      else if t = LogEndCheckpoint then ''END CHECKPOINT''
      else if t = LogInsertCLR then ''INSERT CLR''
      else if t = LogUpdateCLR then ''UPDATE CLR''
      else if t = LogDeleteCLR then ''DELETE CLR''
      else ''UNKNOWN'')"

section \<open>Records\<close>

record LogRecord =
  lr_data :: bytes

definition logRecordHeaderSize :: nat where [simp]: "logRecordHeaderSize = 8"
definition offsetSize :: nat where [simp]: "offsetSize = 0"
definition offsetChecksum :: nat where [simp]: "offsetChecksum = 2"
definition offsetType :: nat where [simp]: "offsetType = 6"
definition offsetTxnID :: nat where [simp]: "offsetTxnID = 8"
definition offsetRID :: nat where [simp]: "offsetRID = 16"
definition offsetAfterImage :: nat where [simp]: "offsetAfterImage = 28"
definition offsetCheckpointData :: nat where [simp]: "offsetCheckpointData = 8"

definition LogRecord_IsNil :: "LogRecord \<Rightarrow> bool" where
  "LogRecord_IsNil r \<longleftrightarrow> length (lr_data r) = 0"

definition LogRecord_Size :: "LogRecord \<Rightarrow> nat" where
  "LogRecord_Size r = length (lr_data r)"

definition TxnID :: "LogRecord \<Rightarrow> TransactionID option" where
  "TxnID r = get_le 8 offsetTxnID (lr_data r)"

definition RecordType :: "LogRecord \<Rightarrow> LogRecordType option" where
  "RecordType r = get_le 2 offsetType (lr_data r)"

definition LogRecord_RID :: "LogRecord \<Rightarrow> RecordID option" where
  "LogRecord_RID r = do {
     t \<leftarrow> RecordType r;
     Assert (t = LogInsertCLR \<or> t = LogDeleteCLR \<or> t = LogDelete \<or> t = LogUpdate \<or> t = LogUpdateCLR \<or> t = LogInsert);
     d \<leftarrow> slice_from (lr_data r) offsetRID;
     RecordID_LoadFrom d
   }"

definition BeforeImage :: "LogRecord \<Rightarrow> bytes option" where
  "BeforeImage r = do {
     t \<leftarrow> RecordType r;
     Assert (t = LogUpdate);
     let n = (length (lr_data r) - offsetAfterImage) div 2;
     slice_from (lr_data r) (offsetAfterImage + n)
   }"

definition AfterImage :: "LogRecord \<Rightarrow> bytes option" where
  "AfterImage r = do {
     t \<leftarrow> RecordType r;
     Assert (t = LogUpdate \<or> t = LogUpdateCLR \<or> t = LogInsert);
     (if t = LogUpdate then
        (let n = (length (lr_data r) - offsetAfterImage) div 2 in
         slice (lr_data r) offsetAfterImage (offsetAfterImage + n))
      else slice_from (lr_data r) offsetAfterImage)
   }"

definition IsCLR :: "LogRecord \<Rightarrow> bool option" where
  "IsCLR r = do {
     t \<leftarrow> RecordType r;
     Some (t = LogInsertCLR \<or> t = LogUpdateCLR \<or> t = LogDeleteCLR)
   }"

definition CheckpointData :: "LogRecord \<Rightarrow> bytes option" where
  "CheckpointData r = do {
     t \<leftarrow> RecordType r;
     Assert (t = LogEndCheckpoint);
     slice_from (lr_data r) offsetCheckpointData
   }"

definition WriteToLog :: "LogRecord \<Rightarrow> bytes \<Rightarrow> bytes option" where
  "WriteToLog r buffer = do {
     Assert (length buffer \<ge> LogRecord_Size r);
     let buffer = blit 0 (lr_data r) buffer;
     put_le 2 offsetSize (of_nat (LogRecord_Size r) :: uint16) buffer
   }"

definition LogRecord_Equal :: "LogRecord \<Rightarrow> LogRecord \<Rightarrow> bool option" where
  "LogRecord_Equal r other =
     (if LogRecord_Size r \<noteq> LogRecord_Size other then Some False
      else do {
        rBuf \<leftarrow> WriteToLog r (replicate (LogRecord_Size r) 0);
        otherBuf \<leftarrow> WriteToLog other (replicate (LogRecord_Size other) 0);
        Some (rBuf = otherBuf)
      })"

definition AsLogRecord :: "bytes \<Rightarrow> LogRecord" where
  "AsLogRecord buf = \<lparr>lr_data = buf\<rparr>"

definition CreateCopy :: "bytes \<Rightarrow> LogRecord \<Rightarrow> LogRecord option" where
  "CreateCopy buf src = do {
     Assert (length buf \<ge> LogRecord_Size src);
     let buf = blit 0 (lr_data src) buf;
     d \<leftarrow> slice buf 0 (LogRecord_Size src);
     Some \<lparr>lr_data = d\<rparr>
   }"

section \<open>Constructors\<close>

definition BeginTransactionRecordSize :: nat where "BeginTransactionRecordSize = logRecordHeaderSize + 8"
definition CommitRecordSize :: nat where "CommitRecordSize = logRecordHeaderSize + 8"
definition AbortRecordSize :: nat where "AbortRecordSize = logRecordHeaderSize + 8"

definition InsertRecordSize :: "bytes \<Rightarrow> nat" where
  "InsertRecordSize r = logRecordHeaderSize + 8 + RecordIDSize + length r"

definition InsertCLRSize :: nat where "InsertCLRSize = logRecordHeaderSize + 8 + RecordIDSize"
definition DeleteRecordSize :: nat where "DeleteRecordSize = logRecordHeaderSize + 8 + RecordIDSize"
definition DeleteCLRSize :: nat where "DeleteCLRSize = logRecordHeaderSize + 8 + RecordIDSize"

definition UpdateRecordSize :: "bytes \<Rightarrow> bytes \<Rightarrow> nat option" where
  "UpdateRecordSize before after = do {
     Assert (length before = length after);
     Some (logRecordHeaderSize + 8 + RecordIDSize + length before + length after)
   }"

definition UpdateCLRSize :: "LogRecord \<Rightarrow> nat option" where
  "UpdateCLRSize updateRecord = do {
     beforeImage \<leftarrow> BeforeImage updateRecord;
     Some (logRecordHeaderSize + 8 + RecordIDSize + length beforeImage)
   }"

definition BeginCheckpointRecordSize :: nat where "BeginCheckpointRecordSize = logRecordHeaderSize"

definition EndCheckpointRecordSize :: "nat \<Rightarrow> nat" where
  "EndCheckpointRecordSize payloadSize = logRecordHeaderSize + payloadSize"

definition NewBeginTransactionRecord :: "bytes \<Rightarrow> TransactionID \<Rightarrow> LogRecord option" where
  "NewBeginTransactionRecord buf txnID = do {
     d \<leftarrow> slice buf 0 BeginTransactionRecordSize;
     d \<leftarrow> put_le 2 offsetType LogBeginTransaction d;
     d \<leftarrow> put_le 8 offsetTxnID txnID d;
     Some \<lparr>lr_data = d\<rparr>
   }"

definition NewCommitRecord :: "bytes \<Rightarrow> TransactionID \<Rightarrow> LogRecord option" where
  "NewCommitRecord buf txnID = do {
     d \<leftarrow> slice buf 0 CommitRecordSize;
     d \<leftarrow> put_le 2 offsetType LogCommit d;
     d \<leftarrow> put_le 8 offsetTxnID txnID d;
     Some \<lparr>lr_data = d\<rparr>
   }"

definition NewAbortRecord :: "bytes \<Rightarrow> TransactionID \<Rightarrow> LogRecord option" where
  "NewAbortRecord buf txnID = do {
     d \<leftarrow> slice buf 0 AbortRecordSize;
     d \<leftarrow> put_le 2 offsetType LogAbort d;
     d \<leftarrow> put_le 8 offsetTxnID txnID d;
     Some \<lparr>lr_data = d\<rparr>
   }"

definition NewInsertRecord :: "bytes \<Rightarrow> TransactionID \<Rightarrow> RecordID \<Rightarrow> bytes \<Rightarrow> LogRecord option" where
  "NewInsertRecord buf txnID rid r = do {
     d \<leftarrow> slice buf 0 (InsertRecordSize r);
     d \<leftarrow> put_le 2 offsetType LogInsert d;
     d \<leftarrow> put_le 8 offsetTxnID txnID d;
     d \<leftarrow> with_slice offsetRID (RecordID_WriteTo rid) d;
     d \<leftarrow> with_slice offsetAfterImage (\<lambda>s. Some (blit 0 r s)) d;
     Some \<lparr>lr_data = d\<rparr>
   }"

definition NewInsertCLR :: "bytes \<Rightarrow> LogRecord \<Rightarrow> LogRecord option" where
  "NewInsertCLR buf insertRecord = do {
     d \<leftarrow> slice buf 0 InsertCLRSize;
     d \<leftarrow> put_le 2 offsetType LogInsertCLR d;
     ids \<leftarrow> slice (lr_data insertRecord) offsetTxnID offsetAfterImage;
     d \<leftarrow> with_slice offsetTxnID (\<lambda>s. Some (blit 0 ids s)) d;
     Some \<lparr>lr_data = d\<rparr>
   }"

definition NewDeleteRecord :: "bytes \<Rightarrow> TransactionID \<Rightarrow> RecordID \<Rightarrow> LogRecord option" where
  "NewDeleteRecord buf txnID rid = do {
     d \<leftarrow> slice buf 0 DeleteRecordSize;
     d \<leftarrow> put_le 2 offsetType LogDelete d;
     d \<leftarrow> put_le 8 offsetTxnID txnID d;
     d \<leftarrow> with_slice offsetRID (RecordID_WriteTo rid) d;
     Some \<lparr>lr_data = d\<rparr>
   }"

definition NewDeleteCLR :: "bytes \<Rightarrow> LogRecord \<Rightarrow> LogRecord option" where
  "NewDeleteCLR buf deleteRecord = do {
     d \<leftarrow> slice buf 0 DeleteCLRSize;
     let d = blit 0 (lr_data deleteRecord) d;
     d \<leftarrow> put_le 2 offsetType LogDeleteCLR d;
     Some \<lparr>lr_data = d\<rparr>
   }"

definition NewUpdateRecord :: "bytes \<Rightarrow> TransactionID \<Rightarrow> RecordID \<Rightarrow> bytes \<Rightarrow> bytes \<Rightarrow> LogRecord option" where
  "NewUpdateRecord buf txnID rid before after = do {
     n \<leftarrow> UpdateRecordSize before after;
     d \<leftarrow> slice buf 0 n;
     d \<leftarrow> put_le 2 offsetType LogUpdate d;
     d \<leftarrow> put_le 8 offsetTxnID txnID d;
     d \<leftarrow> with_slice offsetRID (RecordID_WriteTo rid) d;
     d \<leftarrow> with_slice offsetAfterImage (\<lambda>s. Some (blit 0 after s)) d;
     d \<leftarrow> with_slice (offsetAfterImage + length after) (\<lambda>s. Some (blit 0 before s)) d;
     Some \<lparr>lr_data = d\<rparr>
   }"

definition NewUpdateCLR :: "bytes \<Rightarrow> LogRecord \<Rightarrow> LogRecord option" where
  "NewUpdateCLR buf updateRecord = do {
     beforeImage \<leftarrow> BeforeImage updateRecord;
     n \<leftarrow> UpdateCLRSize updateRecord;
     d \<leftarrow> slice buf 0 n;
     d \<leftarrow> put_le 2 offsetType LogUpdateCLR d;
     ids \<leftarrow> slice (lr_data updateRecord) offsetTxnID offsetAfterImage;
     d \<leftarrow> with_slice offsetTxnID (\<lambda>s. Some (blit 0 ids s)) d;
     d \<leftarrow> with_slice offsetAfterImage (\<lambda>s. Some (blit 0 beforeImage s)) d;
     Some \<lparr>lr_data = d\<rparr>
   }"

definition NewBeginCheckpointRecord :: "bytes \<Rightarrow> LogRecord option" where
  "NewBeginCheckpointRecord buf = do {
     d \<leftarrow> slice buf 0 BeginCheckpointRecordSize;
     d \<leftarrow> put_le 2 offsetType LogBeginCheckpoint d;
     Some \<lparr>lr_data = d\<rparr>
   }"

definition NewEndCheckpointRecord :: "bytes \<Rightarrow> nat \<Rightarrow> LogRecord option" where
  "NewEndCheckpointRecord buf payloadSize = do {
     d \<leftarrow> slice buf 0 (EndCheckpointRecordSize payloadSize);
     d \<leftarrow> put_le 2 offsetType LogEndCheckpoint d;
     Some \<lparr>lr_data = d\<rparr>
   }"

lemmas record_sizes = BeginTransactionRecordSize_def CommitRecordSize_def AbortRecordSize_def
  InsertRecordSize_def InsertCLRSize_def DeleteRecordSize_def DeleteCLRSize_def UpdateRecordSize_def
  BeginCheckpointRecordSize_def EndCheckpointRecordSize_def

section \<open>The no-op log manager\<close>

definition Noop_Append :: "LogRecord \<Rightarrow> GoDBError + LSN" where
  "Noop_Append r = Inr 0"

definition Noop_WaitUntilFlushed :: "LSN \<Rightarrow> GoDBError + unit" where
  "Noop_WaitUntilFlushed lsn = Inr ()"

definition Noop_FlushedUntil :: LSN where
  "Noop_FlushedUntil = MaxInt64"

section \<open>What a record holds\<close>

text \<open>
  The layout of the records that carry a record identifier: any header, the type, the transaction, the
  identifier, and a payload.
\<close>

definition record_of :: "LogRecord \<Rightarrow> LogRecordType \<Rightarrow> TransactionID \<Rightarrow> RecordID \<Rightarrow> bytes \<Rightarrow> bool" where
  "record_of r t txn rid payload \<longleftrightarrow> (\<exists>hd. length hd = 6 \<and>
     lr_data r = hd @ le_bytes 2 t @ le_bytes 8 txn @ rid_bytes rid @ payload)"

lemma RecordID_LoadFrom_append: "RecordID_LoadFrom (rid_bytes rid @ rest) = Some rid"
  by (rule RecordID_LoadFrom_rid_bytes) (auto simp: seg_append1 seg_def)

lemma record_of_accessors:
  assumes "record_of r t txn rid payload"
  shows "RecordType r = Some t" "TxnID r = Some txn"
    "t \<in> {LogInsertCLR, LogDeleteCLR, LogDelete, LogUpdate, LogUpdateCLR, LogInsert} \<Longrightarrow> LogRecord_RID r = Some rid"
    "LogRecord_Size r = 28 + length payload"
    "drop 28 (lr_data r) = payload" "seg 8 20 (lr_data r) = le_bytes 8 txn @ rid_bytes rid"
proof -
  obtain hd where hd: "length hd = 6"
    "lr_data r = hd @ le_bytes 2 t @ le_bytes 8 txn @ rid_bytes rid @ payload"
    using assms by (auto simp: record_of_def)
  show ty: "RecordType r = Some t" "TxnID r = Some txn"
    by (simp_all add: RecordType_def TxnID_def hd get_le_def seg_def)
  show "LogRecord_Size r = 28 + length payload" by (simp add: LogRecord_Size_def hd)
  show "drop 28 (lr_data r) = payload" "seg 8 20 (lr_data r) = le_bytes 8 txn @ rid_bytes rid"
    by (simp_all add: hd seg_def)
  assume "t \<in> {LogInsertCLR, LogDeleteCLR, LogDelete, LogUpdate, LogUpdateCLR, LogInsert}"
  then show "LogRecord_RID r = Some rid"
    using ty(1) by (auto simp: LogRecord_RID_def hd slice_from_def RecordID_LoadFrom_append)
qed

lemma slice_record:
  "n \<le> length buf \<Longrightarrow> slice buf 0 n = Some (take n buf)"
  by (simp add: slice_def)

lemma blit_to_end: "off + length src = length dst \<Longrightarrow> blit off src dst = take off dst @ src"
  by (simp add: blit_def)

lemma with_slice_copy: "off \<le> length d \<Longrightarrow> with_slice off (\<lambda>s. Some (blit 0 src s)) d = Some (blit off src d)"
  using with_slice_blit [of off d "\<lambda>s. Some (blit 0 src s)" 0 src] by simp

lemma with_slice_rid:
  "off + 12 \<le> length d \<Longrightarrow> with_slice off (RecordID_WriteTo rid) d = Some (blit off (rid_bytes rid) d)"
  using with_slice_blit [of off d "RecordID_WriteTo rid" 0 "rid_bytes rid"] by (simp add: RecordID_WriteTo_eq)

text \<open>The sequence of writes shared by the constructors.\<close>

lemma header_writes:
  assumes "28 \<le> length d"
  shows "blit 16 (rid_bytes rid) (blit 8 (le_bytes 8 txn) (blit 6 (le_bytes 2 t) d)) =
    blit 6 (le_bytes 2 t @ le_bytes 8 txn @ rid_bytes rid) d"
  using assms by (simp add: blit_blit_append)

lemma payload_write:
  assumes "length d = 28 + length payload" "length ids = 22"
  shows "blit 28 payload (blit 6 ids d) = take 6 d @ ids @ payload"
  using assms blit_blit_append [of 28 6 ids payload d] blit_to_end [of 6 "ids @ payload" d] by simp

lemma NewInsertRecord_record_of:
  assumes "InsertRecordSize row \<le> length buf"
  shows "\<exists>r. NewInsertRecord buf txn rid row = Some r \<and> record_of r LogInsert txn rid row"
proof -
  define d where "d = take (28 + length row) buf"
  have len: "length d = 28 + length row" using assms by (simp add: record_sizes d_def)
  have "slice buf 0 (28 + length row) = Some d" using assms by (simp add: record_sizes slice_record d_def)
  then have "NewInsertRecord buf txn rid row =
    Some \<lparr>lr_data = take 6 d @ (le_bytes 2 LogInsert @ le_bytes 8 txn @ rid_bytes rid) @ row\<rparr>"
    using len
    by (simp add: NewInsertRecord_def record_sizes put_le_Some with_slice_rid with_slice_copy
        header_writes payload_write del: slice_eq_Some)
  then show ?thesis using len by (auto simp: record_of_def intro!: exI [of _ "take 6 d"])
qed

lemma NewDeleteRecord_record_of:
  assumes "DeleteRecordSize \<le> length buf"
  shows "\<exists>r. NewDeleteRecord buf txn rid = Some r \<and> record_of r LogDelete txn rid []"
proof -
  define d where "d = take 28 buf"
  have len: "length d = 28" using assms by (simp add: record_sizes d_def)
  have "slice buf 0 28 = Some d" using assms by (simp add: record_sizes slice_record d_def)
  then have "NewDeleteRecord buf txn rid =
    Some \<lparr>lr_data = take 6 d @ (le_bytes 2 LogDelete @ le_bytes 8 txn @ rid_bytes rid)\<rparr>"
    using len
    by (simp add: NewDeleteRecord_def record_sizes put_le_Some with_slice_rid blit_def del: slice_eq_Some)
  then show ?thesis using len by (auto simp: record_of_def intro!: exI [of _ "take 6 d"])
qed

lemma NewUpdateRecord_record_of:
  assumes "UpdateRecordSize before after = Some n" "n \<le> length buf"
  shows "\<exists>r. NewUpdateRecord buf txn rid before after = Some r \<and>
    record_of r LogUpdate txn rid (after @ before) \<and> length before = length after"
proof -
  have n: "n = 28 + length (after @ before)" and same: "length before = length after"
    using assms(1) by (auto simp: record_sizes)
  let ?ids = "le_bytes 2 LogUpdate @ le_bytes 8 txn @ rid_bytes rid"
  define d where "d = take n buf"
  have len: "length d = 28 + length (after @ before)" using assms(2) n by (simp add: d_def)
  have "blit (28 + length after) before (blit 28 after (blit 6 ?ids d)) = blit 28 (after @ before) (blit 6 ?ids d)"
    using len by (simp add: blit_blit_append)
  moreover have "slice buf 0 n = Some d" using assms(2) by (simp add: slice_record d_def)
  ultimately have "NewUpdateRecord buf txn rid before after = Some \<lparr>lr_data = take 6 d @ ?ids @ (after @ before)\<rparr>"
    using assms(1) len
    by (simp add: NewUpdateRecord_def put_le_Some with_slice_rid with_slice_copy header_writes payload_write del: slice_eq_Some)
  then show ?thesis using len same by (auto simp: record_of_def intro!: exI [of _ "take 6 d"])
qed

lemma record_images:
  assumes "record_of r LogUpdate txn rid (after @ before)" "length before = length after"
  shows "AfterImage r = Some after" "BeforeImage r = Some before"
proof -
  note acc = record_of_accessors [OF assms(1)]
  have len: "length (lr_data r) = 28 + length after + length before"
    using acc(4) by (simp add: LogRecord_Size_def)
  have "(length (lr_data r) - 28) div 2 = length after" using len assms(2) by simp
  moreover have "drop (28 + length after) (lr_data r) = before"
    using acc(5) by (metis add.commute append_eq_conv_conj drop_drop)
  ultimately show "AfterImage r = Some after" "BeforeImage r = Some before"
    using acc(1,5) len by (auto simp: AfterImage_def BeforeImage_def slice_def slice_from_def Let_def)
qed

lemma record_after_image:
  assumes "record_of r t txn rid payload" "t = LogInsert \<or> t = LogUpdateCLR"
  shows "AfterImage r = Some payload"
  using record_of_accessors [OF assms(1)] assms(2)
  by (auto simp: AfterImage_def slice_from_def LogRecord_Size_def)

lemma ids_slice:
  assumes "record_of r t txn rid payload"
  shows "slice (lr_data r) 8 28 = Some (le_bytes 8 txn @ rid_bytes rid)"
  using record_of_accessors [OF assms] by (simp add: slice_def seg_def LogRecord_Size_def)

lemma NewUpdateCLR_record_of:
  assumes "record_of u LogUpdate txn rid (after @ before)" "length before = length after"
    "28 + length before \<le> length buf"
  shows "\<exists>r. NewUpdateCLR buf u = Some r \<and> record_of r LogUpdateCLR txn rid before"
proof -
  let ?ids = "le_bytes 2 LogUpdateCLR @ le_bytes 8 txn @ rid_bytes rid"
  define d where "d = take (28 + length before) buf"
  have len: "length d = 28 + length before" using assms(3) by (simp add: d_def)
  have "slice buf 0 (28 + length before) = Some d" using assms(3) by (simp add: slice_record d_def)
  then have "NewUpdateCLR buf u = Some \<lparr>lr_data = take 6 d @ ?ids @ before\<rparr>"
    using len record_images(2) [OF assms(1,2)] ids_slice [OF assms(1)]
    by (simp add: NewUpdateCLR_def UpdateCLRSize_def put_le_Some with_slice_copy del: slice_eq_Some)
      (simp add: blit_def del: slice_eq_Some)
  then show ?thesis using len by (auto simp: record_of_def intro!: exI [of _ "take 6 d"])
qed

lemma NewInsertCLR_record_of:
  assumes "record_of i t txn rid payload" "InsertCLRSize \<le> length buf"
  shows "\<exists>r. NewInsertCLR buf i = Some r \<and> record_of r LogInsertCLR txn rid []"
proof -
  let ?ids = "le_bytes 2 LogInsertCLR @ le_bytes 8 txn @ rid_bytes rid"
  define d where "d = take 28 buf"
  have len: "length d = 28" using assms(2) by (simp add: record_sizes d_def)
  have "slice buf 0 28 = Some d" using assms(2) by (simp add: record_sizes slice_record d_def)
  then have "NewInsertCLR buf i = Some \<lparr>lr_data = take 6 d @ ?ids\<rparr>"
    using len ids_slice [OF assms(1)]
    by (simp add: NewInsertCLR_def record_sizes put_le_Some with_slice_copy del: slice_eq_Some)
      (simp add: blit_def del: slice_eq_Some)
  then show ?thesis using len by (auto simp: record_of_def intro!: exI [of _ "take 6 d"])
qed

lemma NewDeleteCLR_record_of:
  assumes "record_of i t txn rid []" "DeleteCLRSize \<le> length buf"
  shows "\<exists>r. NewDeleteCLR buf i = Some r \<and> record_of r LogDeleteCLR txn rid []"
proof -
  obtain hd where hd: "length hd = 6" "lr_data i = hd @ le_bytes 2 t @ le_bytes 8 txn @ rid_bytes rid"
    using assms(1) by (auto simp: record_of_def)
  have "blit 0 (lr_data i) (take 28 buf) = lr_data i"
    using assms(2) by (simp add: blit_to_end hd record_sizes)
  moreover have "blit 6 (le_bytes 2 LogDeleteCLR) (lr_data i) =
      hd @ le_bytes 2 LogDeleteCLR @ le_bytes 8 txn @ rid_bytes rid"
    by (simp add: blit_def hd)
  ultimately have "NewDeleteCLR buf i = Some \<lparr>lr_data = hd @ le_bytes 2 LogDeleteCLR @ le_bytes 8 txn @ rid_bytes rid\<rparr>"
    using assms(2) hd by (simp add: NewDeleteCLR_def record_sizes slice_record put_le_Some)
  then show ?thesis using hd(1) by (auto simp: record_of_def)
qed

text \<open>The bytes that reach the log: the record with its length in the first two bytes.\<close>

definition logged :: "LogRecord \<Rightarrow> bytes" where
  "logged r = le_bytes 2 (of_nat (length (lr_data r)) :: uint16) @ drop 2 (lr_data r)"

lemma WriteToLog_eq:
  assumes "2 \<le> length (lr_data r)" "length (lr_data r) \<le> length buffer"
  shows "WriteToLog r buffer = Some (blit 0 (logged r) buffer)"
proof -
  let ?n = "le_bytes 2 (of_nat (length (lr_data r)) :: uint16)"
  have "blit 0 ?n (blit 0 (lr_data r) buffer) = blit 0 (?n @ drop 2 (lr_data r)) buffer"
  proof (rule nth_equalityI)
    fix i assume "i < length (blit 0 ?n (blit 0 (lr_data r) buffer))"
    moreover have "\<not> i < 2 \<Longrightarrow> 2 + (i - 2) = i" by simp
    moreover have "Suc (Suc (length (lr_data r) - 2)) = length (lr_data r)" using assms(1) by simp
    ultimately show "blit 0 ?n (blit 0 (lr_data r) buffer) ! i = blit 0 (?n @ drop 2 (lr_data r)) buffer ! i"
      using assms by (simp add: nth_blit nth_append)
  qed simp
  then show ?thesis
    using assms by (simp add: WriteToLog_def LogRecord_Size_def put_le_Some logged_def)
qed

lemma length_logged: "2 \<le> length (lr_data r) \<Longrightarrow> length (logged r) = length (lr_data r)"
  by (simp add: logged_def)

lemma record_of_logged:
  assumes "record_of r t txn rid payload"
  shows "record_of (AsLogRecord (logged r)) t txn rid payload"
proof -
  obtain hd where hd: "length hd = 6" "lr_data r = hd @ le_bytes 2 t @ le_bytes 8 txn @ rid_bytes rid @ payload"
    using assms by (auto simp: record_of_def)
  let ?hd = "le_bytes 2 (of_nat (length (lr_data r)) :: uint16) @ drop 2 hd"
  have "logged r = ?hd @ le_bytes 2 t @ le_bytes 8 txn @ rid_bytes rid @ payload"
    using hd(1) by (simp add: logged_def hd(2))
  moreover have "length ?hd = 6" using hd(1) by simp
  ultimately show ?thesis unfolding record_of_def AsLogRecord_def by (metis LogRecord.select_convs(1))
qed

section \<open>Properties\<close>

text \<open>
  An update record built in any large enough buffer holds the transaction, the record
  identifier, the after image and the before image it was given; the compensation record built from it
  in any large enough buffer is a CLR of the same transaction and record whose after image, the bytes
  a redo installs, is the before image of the update. Both survive the copy to the log.
\<close>

theorem UpdateRecord_CLR:
  assumes "UpdateRecordSize before after = Some n" "n \<le> length buf" "UpdateCLRSize u = Some m" "m \<le> length buf'"
    "NewUpdateRecord buf txn rid before after = Some u"
  shows "RecordType u = Some LogUpdate \<and> TxnID u = Some txn \<and> LogRecord_RID u = Some rid \<and>
    AfterImage u = Some after \<and> BeforeImage u = Some before \<and> IsCLR u = Some False \<and>
    (\<exists>c. NewUpdateCLR buf' u = Some c \<and> IsCLR c = Some True \<and> TxnID c = Some txn \<and>
       LogRecord_RID c = Some rid \<and> AfterImage c = Some before \<and>
       AfterImage (AsLogRecord (logged c)) = Some before \<and> LogRecord_RID (AsLogRecord (logged c)) = Some rid)"
proof -
  have u: "record_of u LogUpdate txn rid (after @ before)" and len: "length before = length after"
    using NewUpdateRecord_record_of [OF assms(1,2), of txn rid] assms(5) by auto
  have m: "m = 28 + length before"
    using assms(3) record_images(2) [OF u len] by (simp add: UpdateCLRSize_def)
  obtain c where c: "NewUpdateCLR buf' u = Some c" "record_of c LogUpdateCLR txn rid before"
    using NewUpdateCLR_record_of [OF u len] assms(4) m by blast
  show ?thesis
    using record_of_accessors [OF u] record_images [OF u len] c(1) record_of_accessors [OF c(2)]
      record_after_image [OF c(2)] record_of_accessors [OF record_of_logged [OF c(2)]]
      record_after_image [OF record_of_logged [OF c(2)]]
    by (simp add: IsCLR_def)
qed

theorem UpdateRecord_CLR_witness:
  "\<exists>u. NewUpdateRecord (replicate 40 0) 7 nilRecordID [1, 2] [3, 4] = Some u \<and>
    RecordType u = Some LogUpdate \<and> TxnID u = Some 7 \<and> LogRecord_RID u = Some nilRecordID \<and>
    AfterImage u = Some [3, 4] \<and> BeforeImage u = Some [1, 2] \<and> IsCLR u = Some False \<and>
    (\<exists>c. NewUpdateCLR (replicate 30 0) u = Some c \<and> IsCLR c = Some True \<and> TxnID c = Some 7 \<and>
       LogRecord_RID c = Some nilRecordID \<and> AfterImage c = Some [1, 2] \<and>
       AfterImage (AsLogRecord (logged c)) = Some [1, 2] \<and> LogRecord_RID (AsLogRecord (logged c)) = Some nilRecordID)"
proof -
  have n: "UpdateRecordSize [1, 2] [3, 4] = Some 32" by (simp add: UpdateRecordSize_def)
  obtain u where u: "NewUpdateRecord (replicate 40 0) 7 nilRecordID [1, 2] [3, 4] = Some u"
    "record_of u LogUpdate 7 nilRecordID ([3, 4] @ [1, 2])"
    using NewUpdateRecord_record_of [OF n, of "replicate 40 0" 7 nilRecordID] by auto
  have m: "UpdateCLRSize u = Some 30"
    using record_images(2) [OF u(2)] by (simp add: UpdateCLRSize_def)
  show ?thesis
    using u(1) UpdateRecord_CLR [OF n _ m _ u(1), of "replicate 30 0"] by simp
qed

text \<open>
  Insert and delete records hold the transaction, the record identifier and, for an insert, the
  row; the compensation record of either names the same transaction and record and is a CLR.
\<close>

theorem InsertDelete_CLR:
  assumes "InsertRecordSize row \<le> length b1" "InsertCLRSize \<le> length b2" "DeleteRecordSize \<le> length b3"
    "DeleteCLRSize \<le> length b4"
  shows "(\<exists>i c. NewInsertRecord b1 txn rid row = Some i \<and> NewInsertCLR b2 i = Some c \<and>
      RecordType i = Some LogInsert \<and> TxnID i = Some txn \<and> LogRecord_RID i = Some rid \<and> AfterImage i = Some row \<and>
      RecordType c = Some LogInsertCLR \<and> IsCLR c = Some True \<and> TxnID c = Some txn \<and> LogRecord_RID c = Some rid) \<and>
    (\<exists>d c. NewDeleteRecord b3 txn rid = Some d \<and> NewDeleteCLR b4 d = Some c \<and>
      RecordType d = Some LogDelete \<and> TxnID d = Some txn \<and> LogRecord_RID d = Some rid \<and> IsCLR d = Some False \<and>
      RecordType c = Some LogDeleteCLR \<and> IsCLR c = Some True \<and> TxnID c = Some txn \<and> LogRecord_RID c = Some rid)"
proof -
  obtain i where i: "NewInsertRecord b1 txn rid row = Some i" "record_of i LogInsert txn rid row"
    using NewInsertRecord_record_of [OF assms(1)] by blast
  obtain c where c: "NewInsertCLR b2 i = Some c" "record_of c LogInsertCLR txn rid []"
    using NewInsertCLR_record_of [OF i(2) assms(2)] by blast
  obtain d where d: "NewDeleteRecord b3 txn rid = Some d" "record_of d LogDelete txn rid []"
    using NewDeleteRecord_record_of [OF assms(3)] by blast
  obtain e where e: "NewDeleteCLR b4 d = Some e" "record_of e LogDeleteCLR txn rid []"
    using NewDeleteCLR_record_of [OF d(2) assms(4)] by blast
  show ?thesis
    using i(1) c(1) d(1) e(1) record_of_accessors [OF i(2)] record_of_accessors [OF c(2)]
      record_of_accessors [OF d(2)] record_of_accessors [OF e(2)] record_after_image [OF i(2)]
    by (simp add: IsCLR_def)
qed

theorem InsertDelete_CLR_witness:
  "(\<exists>i c. NewInsertRecord (replicate 30 0) 7 nilRecordID [1, 2] = Some i \<and> NewInsertCLR (replicate 28 0) i = Some c \<and>
      RecordType i = Some LogInsert \<and> TxnID i = Some 7 \<and> LogRecord_RID i = Some nilRecordID \<and> AfterImage i = Some [1, 2] \<and>
      RecordType c = Some LogInsertCLR \<and> IsCLR c = Some True \<and> TxnID c = Some 7 \<and> LogRecord_RID c = Some nilRecordID) \<and>
    (\<exists>d c. NewDeleteRecord (replicate 28 0) 7 nilRecordID = Some d \<and> NewDeleteCLR (replicate 28 0) d = Some c \<and>
      RecordType d = Some LogDelete \<and> TxnID d = Some 7 \<and> LogRecord_RID d = Some nilRecordID \<and> IsCLR d = Some False \<and>
      RecordType c = Some LogDeleteCLR \<and> IsCLR c = Some True \<and> TxnID c = Some 7 \<and> LogRecord_RID c = Some nilRecordID)"
  by (rule InsertDelete_CLR) (simp_all add: record_sizes)

end
