(* ===== verification/Logging_Memory.thy ===== *)
theory Logging_Memory
  imports Storage_LogRecord
begin

text \<open>
  The in-memory log (\<open>logging/test_log_manager.go\<close>): records stored back to back in one byte
  buffer, addressed by byte offset, its iterator, and the checker of the record order of
  transactions. The interface \<open>record_log\<close> states what a byte buffer with an offset table owes to its
  readers; the undo buffer of a transaction implements it too.

  Growing a slice keeps its contents; the capacity is not modelled. \<open>WaitUntilFlushed\<close> spins until
  the flushed LSN reaches its argument: the model has the condition of that loop.
\<close>

section \<open>The interface of a sequence of records\<close>

text \<open>The table of the starting offsets of a list of byte strings stored back to back.\<close>

definition offs :: "bytes list \<Rightarrow> nat list" where
  "offs rs = map (\<lambda>i. length (concat (take i rs))) [0..<length rs]"

lemma length_offs [simp]: "length (offs rs) = length rs"
  by (simp add: offs_def)

lemma offs_nth: "i < length rs \<Longrightarrow> offs rs ! i = length (concat (take i rs))"
  by (simp add: offs_def)

lemma offs_snoc: "offs (rs @ [r]) = offs rs @ [length (concat rs)]"
  by (simp add: offs_def)

lemma drop_concat_take: "i \<le> length rs \<Longrightarrow> drop (length (concat (take i rs))) (concat rs) = concat (drop i rs)"
  by (metis append_eq_conv_conj append_take_drop_id concat_append)

lemma concat_take_Suc:
  "i < length rs \<Longrightarrow> length (concat (take (Suc i) rs)) = length (concat (take i rs)) + length (rs ! i)"
  by (simp add: take_Suc_conv_app_nth)

lemma take_drop_concat:
  "i < length rs \<Longrightarrow> take (length (rs ! i)) (drop (length (concat (take i rs))) (concat rs)) = rs ! i"
  by (simp add: drop_concat_take Cons_nth_drop_Suc [symmetric])

locale record_log =
  fixes rep :: "'s \<Rightarrow> bytes list \<Rightarrow> bool" and count :: "'s \<Rightarrow> nat" and fetch :: "'s \<Rightarrow> nat \<Rightarrow> LogRecord option"
  assumes count_rep: "rep s rs \<Longrightarrow> count s = length rs"
    and fetch_rep: "rep s rs \<Longrightarrow> i < length rs \<Longrightarrow> fetch s i = Some (AsLogRecord (rs ! i))"
begin

definition contents :: "'s \<Rightarrow> bytes list" where
  "contents s = map (\<lambda>i. lr_data (the (fetch s i))) [0..<count s]"

lemma contents_rep: "rep s rs \<Longrightarrow> contents s = rs"
  by (auto simp: contents_def count_rep fetch_rep AsLogRecord_def intro!: nth_equalityI)

lemma rep_unique: "rep s rs \<Longrightarrow> rep s rs' \<Longrightarrow> rs = rs'"
  using contents_rep by metis

text \<open>A later state that extends the sequence answers for the earlier indexes as before.\<close>

lemma fetch_extends: "rep s rs \<Longrightarrow> rep s' (rs @ rs2) \<Longrightarrow> i < count s \<Longrightarrow> fetch s' i = fetch s i"
  by (simp add: count_rep fetch_rep nth_append)

end

section \<open>The memory log manager\<close>

record MemoryLogManager =
  ml_buffer :: bytes
  ml_offsets :: "nat list"
  ml_flushedUntil :: int64
  ml_flushOnAppend :: bool
  ml_appendCountdown :: int
  ml_appendCountdownErr :: string

definition NewMemoryLogManager :: MemoryLogManager where
  "NewMemoryLogManager = \<lparr>ml_buffer = [], ml_offsets = [], ml_flushedUntil = 0, ml_flushOnAppend = False,
     ml_appendCountdown = -1, ml_appendCountdownErr = []\<rparr>"

definition ML_Append :: "MemoryLogManager \<Rightarrow> LogRecord \<Rightarrow> (MemoryLogManager \<times> (string + LSN)) option" where
  "ML_Append m r =
     (if ml_appendCountdown m = 0 then Some (m, Inl (ml_appendCountdownErr m))
      else do {
        let m = (if ml_appendCountdown m \<ge> 0 then m\<lparr>ml_appendCountdown := ml_appendCountdown m - 1\<rparr> else m);
        let lsn = length (ml_buffer m);
        buffer \<leftarrow> with_slice lsn (WriteToLog r) (ml_buffer m @ replicate (LogRecord_Size r) 0);
        let m = m\<lparr>ml_buffer := buffer, ml_offsets := ml_offsets m @ [lsn]\<rparr>;
        let m = (if ml_flushOnAppend m then m\<lparr>ml_flushedUntil := of_nat lsn\<rparr> else m);
        Some (m, Inr (of_nat lsn))
      })"

definition ML_WaitUntilFlushed_done :: "MemoryLogManager \<Rightarrow> LSN \<Rightarrow> bool" where
  "ML_WaitUntilFlushed_done m lsn \<longleftrightarrow> \<not> sint (ml_flushedUntil m) < sint lsn"

definition ML_FlushedUntil :: "MemoryLogManager \<Rightarrow> LSN" where
  "ML_FlushedUntil m = ml_flushedUntil m"

definition ML_SetFlushedLSN :: "LSN \<Rightarrow> MemoryLogManager \<Rightarrow> MemoryLogManager" where
  "ML_SetFlushedLSN lsn m =
     (if sint lsn \<le> sint (ml_flushedUntil m) then m else m\<lparr>ml_flushedUntil := lsn\<rparr>)"

definition ML_Tail :: "MemoryLogManager \<Rightarrow> LSN" where
  "ML_Tail m = of_nat (length (ml_buffer m))"

definition ML_SetAppendErrorAfterN :: "int \<Rightarrow> string \<Rightarrow> MemoryLogManager \<Rightarrow> MemoryLogManager" where
  "ML_SetAppendErrorAfterN n err m = m\<lparr>ml_appendCountdown := n, ml_appendCountdownErr := err\<rparr>"

definition ML_SetFlushOnAppend :: "bool \<Rightarrow> MemoryLogManager \<Rightarrow> MemoryLogManager" where
  "ML_SetFlushOnAppend v m = m\<lparr>ml_flushOnAppend := v\<rparr>"

definition ML_Count :: "MemoryLogManager \<Rightarrow> nat" where
  "ML_Count m = length (ml_offsets m)"

definition ML_GetRecord :: "MemoryLogManager \<Rightarrow> nat \<Rightarrow> LogRecord option" where
  "ML_GetRecord m i = do {
     off \<leftarrow> idx (ml_offsets m) i;
     buf \<leftarrow> slice_from (ml_buffer m) off;
     recordLen \<leftarrow> get_le 2 0 buf;
     d \<leftarrow> slice buf 0 (unat (recordLen :: uint16));
     Some (AsLogRecord d)
   }"

record MemoryLogIterator =
  li_currOffset :: nat
  li_current :: LogRecord

definition ML_Iterator :: "nat \<Rightarrow> MemoryLogIterator" where
  "ML_Iterator startLSN = \<lparr>li_currOffset = startLSN, li_current = \<lparr>lr_data = []\<rparr>\<rparr>"

definition LI_Next :: "MemoryLogManager \<Rightarrow> MemoryLogIterator \<Rightarrow> (bool \<times> MemoryLogIterator) option" where
  "LI_Next m i = do {
     let i = (if \<not> LogRecord_IsNil (li_current i)
              then i\<lparr>li_currOffset := li_currOffset i + LogRecord_Size (li_current i)\<rparr> else i);
     (if li_currOffset i \<ge> length (ml_buffer m) then Some (False, i)
      else do {
        buf \<leftarrow> slice_from (ml_buffer m) (li_currOffset i);
        recordLen \<leftarrow> get_le 2 0 buf;
        d \<leftarrow> slice buf 0 (unat (recordLen :: uint16));
        Some (True, i\<lparr>li_current := AsLogRecord d\<rparr>)
      })
   }"

text \<open>\<open>for it.Next() { ... it.CurrentRecord() ... it.CurrentLSN() ... }\<close>: the records the loop sees. The
  loop ends when \<open>Next\<close> returns false; the fuel bounds the number of its calls.\<close>

fun log_scan :: "nat \<Rightarrow> MemoryLogManager \<Rightarrow> MemoryLogIterator \<Rightarrow> (nat \<times> LogRecord) list option" where
  "log_scan 0 m i = None"
| "log_scan (Suc fuel) m i = do {
     (found, i) \<leftarrow> LI_Next m i;
     (if found then do {
        rest \<leftarrow> log_scan fuel m i;
        Some ((li_currOffset i, li_current i) # rest)
      } else Some [])
   }"

section \<open>The order of records\<close>

record txnState =
  hasBegin :: bool
  hasEnd :: bool
  wal_aborted :: bool
  dataCount :: nat
  clrCount :: nat

definition newTxnState :: txnState where
  "newTxnState = \<lparr>hasBegin = False, hasEnd = False, wal_aborted = False, dataCount = 0, clrCount = 0\<rparr>"

text \<open>One record: the new state of its transaction, and whether the assertions on it hold.\<close>

definition wal_step :: "LogRecordType \<Rightarrow> txnState \<Rightarrow> txnState \<times> bool" where
  "wal_step t s =
     (if t = LogBeginTransaction then (s\<lparr>hasBegin := True\<rparr>, \<not> hasBegin s)
      else if t = LogCommit then (s\<lparr>hasEnd := True\<rparr>, hasBegin s \<and> \<not> hasEnd s)
      else if t = LogAbort then (s\<lparr>hasEnd := True, wal_aborted := True\<rparr>, hasBegin s \<and> \<not> hasEnd s)
      else if t \<in> {LogInsert, LogUpdate, LogDelete}
        then (s\<lparr>dataCount := dataCount s + 1\<rparr>, hasBegin s \<and> \<not> hasEnd s)
      else if t \<in> {LogInsertCLR, LogUpdateCLR, LogDeleteCLR}
        then (s\<lparr>clrCount := clrCount s + 1\<rparr>, hasBegin s \<and> \<not> hasEnd s)
      else (s, True))"

definition wal_final :: "txnState \<Rightarrow> bool" where
  "wal_final s \<longleftrightarrow> hasBegin s \<and> hasEnd s \<and> (wal_aborted s \<longrightarrow> dataCount s = clrCount s)"

text \<open>The scan, over the transaction and type of each record, and the final loop over all states.\<close>

fun wal_scan :: "(TransactionID \<times> LogRecordType) list \<Rightarrow> (TransactionID \<Rightarrow> txnState option) \<Rightarrow> bool \<Rightarrow>
    (TransactionID \<Rightarrow> txnState option) \<times> bool" where
  "wal_scan [] states ok = (states, ok)"
| "wal_scan ((x, t) # rs) states ok =
     (let (s, good) = wal_step t (case states x of Some s \<Rightarrow> s | None \<Rightarrow> newTxnState)
      in wal_scan rs (states(x \<mapsto> s)) (ok \<and> good))"

definition wal_check :: "(TransactionID \<times> LogRecordType) list \<Rightarrow> bool" where
  "wal_check rs =
     (let (states, ok) = wal_scan rs Map.empty True
      in ok \<and> list_all (\<lambda>x. wal_final (the (states x))) (remdups (map fst rs)))"

text \<open>The whole checker: it reads the transaction and the type of every record of the log. The scan
  calls \<open>Next\<close> at most once per byte and once more.\<close>

fun read_types :: "(nat \<times> LogRecord) list \<Rightarrow> (TransactionID \<times> LogRecordType) list option" where
  "read_types [] = Some []"
| "read_types ((_, r) # rs) = do {
     x \<leftarrow> TxnID r;
     t \<leftarrow> RecordType r;
     rest \<leftarrow> read_types rs;
     Some ((x, t) # rest)
   }"

definition VerifyWALOrdering :: "MemoryLogManager \<Rightarrow> bool option" where
  "VerifyWALOrdering mlm = do {
     recs \<leftarrow> log_scan (Suc (length (ml_buffer mlm))) mlm (ML_Iterator 0);
     types \<leftarrow> read_types recs;
     Some (wal_check types)
   }"

section \<open>The memory log implements the interface\<close>

definition ml_rep :: "MemoryLogManager \<Rightarrow> bytes list \<Rightarrow> bool" where
  "ml_rep m rs \<longleftrightarrow> ml_buffer m = concat rs \<and> ml_offsets m = offs rs \<and>
     (\<forall>r \<in> set rs. 2 \<le> length r \<and> length r < 65536 \<and> seg 0 2 r = le_bytes 2 (of_nat (length r) :: uint16))"

lemma ml_rep_record_at:
  assumes "ml_rep m rs" "i < length rs"
  shows "length (concat (take i rs)) < length (ml_buffer m)"
    "drop (length (concat (take i rs))) (ml_buffer m) = rs ! i @ concat (drop (Suc i) rs)"
    "get_le 2 0 (rs ! i @ rest) = Some (of_nat (length (rs ! i)) :: uint16)"
    "unat (of_nat (length (rs ! i)) :: uint16) = length (rs ! i)"
proof -
  have r: "2 \<le> length (rs ! i)" "length (rs ! i) < 65536"
    "seg 0 2 (rs ! i) = le_bytes 2 (of_nat (length (rs ! i)) :: uint16)"
    using assms by (auto simp: ml_rep_def)
  show "drop (length (concat (take i rs))) (ml_buffer m) = rs ! i @ concat (drop (Suc i) rs)"
    using assms by (simp add: ml_rep_def drop_concat_take Cons_nth_drop_Suc [symmetric])
  have "length (concat (take (Suc i) rs)) \<le> length (concat rs)"
    by (metis append_take_drop_id concat_append le_add1 length_append)
  then show "length (concat (take i rs)) < length (ml_buffer m)"
    using concat_take_Suc [OF assms(2)] r(1) assms(1) by (simp add: ml_rep_def)
  show "get_le 2 0 (rs ! i @ rest) = Some (of_nat (length (rs ! i)) :: uint16)"
    using r by (simp add: get_le_def seg_append1)
  show "unat (of_nat (length (rs ! i)) :: uint16) = length (rs ! i)"
    using r(2) by (simp add: unat_of_nat)
qed

interpretation ml: record_log ml_rep ML_Count ML_GetRecord
proof unfold_locales
  fix s rs i
  assume rep: "ml_rep s rs"
  then show "ML_Count s = length rs" by (simp add: ML_Count_def ml_rep_def)
  assume i: "i < length rs"
  note at = ml_rep_record_at [OF rep i]
  show "ML_GetRecord s i = Some (AsLogRecord (rs ! i))"
    using rep i at
    by (simp add: ML_GetRecord_def ml_rep_def offs_nth slice_from_def slice_def del: get_le_eq_Some)
qed

lemma ML_Append_rep:
  assumes "ml_rep m rs" "8 \<le> length (lr_data r)" "length (lr_data r) < 65536" "ml_appendCountdown m \<noteq> 0"
  shows "\<exists>m'. ML_Append m r = Some (m', Inr (of_nat (length (concat rs)))) \<and> ml_rep m' (rs @ [logged r])"
proof -
  let ?lsn = "length (ml_buffer m)" and ?n = "length (lr_data r)"
  have buf: "ml_buffer m = concat rs" "ml_offsets m = offs rs" using assms(1) by (auto simp: ml_rep_def)
  have "WriteToLog r (replicate ?n 0) = Some (logged r)"
    using assms(2) length_logged [of r] by (simp add: WriteToLog_eq blit_to_end)
  then have "with_slice ?lsn (WriteToLog r) (ml_buffer m @ replicate ?n 0) = Some (ml_buffer m @ logged r)"
    by (simp add: with_slice_def slice_from_def)
  moreover have "2 \<le> length (logged r) \<and> length (logged r) < 65536 \<and>
      seg 0 2 (logged r) = le_bytes 2 (of_nat (length (logged r)) :: uint16)"
    using assms(2,3) length_logged [of r] by (simp add: logged_def seg_def)
  then have "ml_rep (m'\<lparr>ml_buffer := ml_buffer m @ logged r, ml_offsets := ml_offsets m @ [?lsn]\<rparr>) (rs @ [logged r])" for m'
    using assms(1) by (auto simp: ml_rep_def offs_snoc)
  ultimately show ?thesis
    using assms(4) by (simp add: ML_Append_def LogRecord_Size_def Let_def buf) (auto simp: ml_rep_def)
qed


subsection \<open>Scanning\<close>

text \<open>The iterator stands before record \<open>k\<close>: at its offset with no current record, or on the record before it.\<close>

definition before_record :: "bytes list \<Rightarrow> nat \<Rightarrow> MemoryLogIterator \<Rightarrow> bool" where
  "before_record rs k i \<longleftrightarrow> k \<le> length rs \<and>
     (lr_data (li_current i) = [] \<and> li_currOffset i = length (concat (take k rs)) \<or>
      (\<exists>j. k = Suc j \<and> li_currOffset i = length (concat (take j rs)) \<and> li_current i = AsLogRecord (rs ! j) \<and> rs ! j \<noteq> []))"

lemma before_record_advance:
  assumes "before_record rs k i"
  shows "(if \<not> LogRecord_IsNil (li_current i)
          then i\<lparr>li_currOffset := li_currOffset i + LogRecord_Size (li_current i)\<rparr> else i) =
         i\<lparr>li_currOffset := length (concat (take k rs))\<rparr>"
  using assms
  by (auto simp: before_record_def LogRecord_IsNil_def LogRecord_Size_def AsLogRecord_def concat_take_Suc)

lemma LI_Next_eq:
  assumes "ml_rep m rs" "before_record rs k i"
  shows "LI_Next m i = Some (k < length rs, i\<lparr>li_currOffset := length (concat (take k rs)),
      li_current := if k < length rs then AsLogRecord (rs ! k) else li_current i\<rparr>)"
proof (cases "k < length rs")
  case True
  note at = ml_rep_record_at [OF assms(1) True]
  show ?thesis
    unfolding LI_Next_def before_record_advance [OF assms(2)]
    using True at by (simp add: slice_from_def slice_def del: get_le_eq_Some)
next
  case False
  then have "k = length rs" using assms(2) by (auto simp: before_record_def)
  then show ?thesis
    unfolding LI_Next_def before_record_advance [OF assms(2)] using assms(1) by (simp add: ml_rep_def)
qed

lemma log_scan_eq:
  assumes "ml_rep m rs"
  shows "before_record rs k i \<Longrightarrow> length rs - k < fuel \<Longrightarrow>
    log_scan fuel m i = Some (map (\<lambda>j. (length (concat (take j rs)), AsLogRecord (rs ! j))) [k..<length rs])"
proof (induction fuel arbitrary: k i)
  case (Suc fuel)
  show ?case
  proof (cases "k < length rs")
    case True
    let ?i = "i\<lparr>li_currOffset := length (concat (take k rs)), li_current := AsLogRecord (rs ! k)\<rparr>"
    have "rs ! k \<noteq> []" using assms True by (auto simp: ml_rep_def dest!: nth_mem)
    then have "before_record rs (Suc k) ?i" using True by (auto simp: before_record_def)
    then have "log_scan fuel m ?i =
        Some (map (\<lambda>j. (length (concat (take j rs)), AsLogRecord (rs ! j))) [Suc k..<length rs])"
      using Suc.prems(2) True by (intro Suc.IH) auto
    then show ?thesis using True LI_Next_eq [OF assms Suc.prems(1)] by (simp add: upt_conv_Cons)
  next
    case False
    then show ?thesis using LI_Next_eq [OF assms Suc.prems(1)] by simp
  qed
qed simp

lemma before_record_start: "k \<le> length rs \<Longrightarrow> before_record rs k (ML_Iterator (length (concat (take k rs))))"
  by (simp add: before_record_def ML_Iterator_def)

fun append_all :: "MemoryLogManager \<Rightarrow> LogRecord list \<Rightarrow> (MemoryLogManager \<times> LSN list) option" where
  "append_all m [] = Some (m, [])"
| "append_all m (r # rs) = do {
     (m, res) \<leftarrow> ML_Append m r;
     (case res of Inl err \<Rightarrow> None
      | Inr lsn \<Rightarrow> do {
          (m, lsns) \<leftarrow> append_all m rs;
          Some (m, lsn # lsns)
        })
   }"

lemma ML_Append_countdown:
  "ML_Append m r = Some (m', res) \<Longrightarrow> ml_appendCountdown m < 0 \<Longrightarrow> ml_appendCountdown m' = ml_appendCountdown m"
  by (auto simp: ML_Append_def bind_eq_Some_conv Let_def split: if_splits)

lemma append_all_rep:
  assumes "ml_rep m done" "ml_appendCountdown m < 0" "\<forall>r \<in> set rs. 8 \<le> length (lr_data r) \<and> length (lr_data r) < 65536"
  shows "\<exists>m' lsns. append_all m rs = Some (m', lsns) \<and> ml_rep m' (done @ map logged rs) \<and>
    lsns = map (\<lambda>j. of_nat (length (concat (take (length done + j) (done @ map logged rs))))) [0..<length rs]"
  using assms
proof (induction rs arbitrary: m "done")
  case (Cons r rs)
  obtain m1 where m1: "ML_Append m r = Some (m1, Inr (of_nat (length (concat done))))" "ml_rep m1 (done @ [logged r])"
    using ML_Append_rep [of m "done" r] Cons.prems by auto
  then have "ml_appendCountdown m1 < 0" using ML_Append_countdown [OF m1(1)] Cons.prems(2) by simp
  then obtain m2 lsns where m2: "append_all m1 rs = Some (m2, lsns)" "ml_rep m2 ((done @ [logged r]) @ map logged rs)"
    "lsns = map (\<lambda>j. of_nat (length (concat (take (length (done @ [logged r]) + j) ((done @ [logged r]) @ map logged rs))))) [0..<length rs]"
    using Cons.IH [of m1 "done @ [logged r]"] m1(2) Cons.prems(3) by auto
  then show ?case using m1 by (simp add: upt_conv_Cons map_Suc_upt [symmetric] comp_def del: upt_Suc)
qed simp

section \<open>The order checker, per transaction\<close>

definition run_txn :: "LogRecordType list \<Rightarrow> txnState \<times> bool \<Rightarrow> txnState \<times> bool" where
  "run_txn ts st = foldl (\<lambda>(s, ok) t. let (s', good) = wal_step t s in (s', ok \<and> good)) st ts"

definition types_of :: "TransactionID \<Rightarrow> (TransactionID \<times> LogRecordType) list \<Rightarrow> LogRecordType list" where
  "types_of x rs = map snd (filter (\<lambda>p. fst p = x) rs)"

abbreviation state_of :: "(TransactionID \<Rightarrow> txnState option) \<Rightarrow> TransactionID \<Rightarrow> txnState" where
  "state_of states x \<equiv> case_option newTxnState id (states x)"

lemma run_txn_Cons: "run_txn (t # ts) (s, ok) = run_txn ts (let (s', good) = wal_step t s in (s', ok \<and> good))"
  by (simp add: run_txn_def)

lemma run_txn_ok: "run_txn ts (s, ok) = (fst (run_txn ts (s, True)), ok \<and> snd (run_txn ts (s, True)))"
proof (induction ts arbitrary: s ok)
  case (Cons t ts)
  obtain s' g where st: "wal_step t s = (s', g)" by fastforce
  show ?case
    using Cons.IH [of s' "ok \<and> g"] Cons.IH [of s' g] by (simp add: run_txn_Cons st)
qed (simp add: run_txn_def)

lemma wal_scan_txn:
  "state_of (fst (wal_scan rs states ok)) x = fst (run_txn (types_of x rs) (state_of states x, True))"
proof (induction rs arbitrary: states ok)
  case Nil
  then show ?case by (simp add: types_of_def run_txn_def)
next
  case (Cons p rs)
  obtain y t where p: "p = (y, t)" by fastforce
  obtain s' g where st: "wal_step t (state_of states y) = (s', g)" by fastforce
  have eq: "(case states y of Some s \<Rightarrow> s | None \<Rightarrow> newTxnState) = state_of states y" by (cases "states y") auto
  have scan: "wal_scan (p # rs) states ok = wal_scan rs (states(y \<mapsto> s')) (ok \<and> g)" by (simp add: p eq st)
  have "fst (run_txn (types_of x (p # rs)) (state_of states x, True)) =
      fst (run_txn (types_of x rs) (state_of (states(y \<mapsto> s')) x, True))"
    using st run_txn_ok [of "types_of x rs" s' g] by (auto simp: p types_of_def run_txn_Cons)
  then show ?case unfolding scan Cons.IH by simp
qed

lemma wal_scan_dom: "dom (fst (wal_scan rs states ok)) = dom states \<union> fst ` set rs"
proof (induction rs arbitrary: states ok)
  case (Cons p rs)
  obtain y t where p: "p = (y, t)" by fastforce
  obtain s' g where st: "wal_step t (case states y of Some s \<Rightarrow> s | None \<Rightarrow> newTxnState) = (s', g)" by fastforce
  have "wal_scan (p # rs) states ok = wal_scan rs (states(y \<mapsto> s')) (ok \<and> g)" by (simp add: p st)
  then show ?case unfolding Cons.IH [of "states(y \<mapsto> s')"] by (simp only: Cons.IH) (auto simp: p)
qed simp

lemma wal_scan_ok:
  "snd (wal_scan rs states ok) \<longleftrightarrow>
    ok \<and> (\<forall>x. snd (run_txn (types_of x rs) (state_of states x, True)))"
proof (induction rs arbitrary: states ok)
  case Nil
  then show ?case by (simp add: types_of_def run_txn_def)
next
  case (Cons p rs)
  obtain y t where p: "p = (y, t)" by fastforce
  obtain s' g where st: "wal_step t (state_of states y) = (s', g)" by fastforce
  have eq: "(case states y of Some s \<Rightarrow> s | None \<Rightarrow> newTxnState) = state_of states y" by (cases "states y") auto
  have "snd (run_txn (types_of x (p # rs)) (state_of states x, True)) \<longleftrightarrow>
      (x = y \<longrightarrow> g) \<and> snd (run_txn (types_of x rs) (state_of (states(y \<mapsto> s')) x, True))" for x
    using st run_txn_ok [of "types_of x rs" s' g] by (auto simp: p types_of_def run_txn_Cons)
  moreover have "wal_scan (p # rs) states ok = wal_scan rs (states(y \<mapsto> s')) (ok \<and> g)" by (simp add: p eq st)
  ultimately show ?case using Cons.IH [of "states(y \<mapsto> s')" "ok \<and> g"] by metis
qed

text \<open>The shape the checker accepts, for the records of one transaction other than checkpoints.\<close>

definition is_data :: "LogRecordType \<Rightarrow> bool" where
  "is_data t \<longleftrightarrow> t \<in> {LogInsert, LogUpdate, LogDelete}"

definition is_clr :: "LogRecordType \<Rightarrow> bool" where
  "is_clr t \<longleftrightarrow> t \<in> {LogInsertCLR, LogUpdateCLR, LogDeleteCLR}"

definition is_txn_type :: "LogRecordType \<Rightarrow> bool" where
  "is_txn_type t \<longleftrightarrow> t \<in> {LogBeginTransaction, LogCommit, LogAbort} \<or> is_data t \<or> is_clr t"

definition txn_shape :: "LogRecordType list \<Rightarrow> bool" where
  "txn_shape ts \<longleftrightarrow> (\<exists>body e. filter is_txn_type ts = LogBeginTransaction # body @ [e] \<and>
     (\<forall>t \<in> set body. is_data t \<or> is_clr t) \<and>
     (e = LogCommit \<or> e = LogAbort \<and> length (filter is_data body) = length (filter is_clr body)))"


definition accepts :: "LogRecordType list \<Rightarrow> txnState \<Rightarrow> bool" where
  "accepts ts s \<longleftrightarrow> snd (run_txn ts (s, True)) \<and> wal_final (fst (run_txn ts (s, True)))"

lemma accepts_Nil [simp]: "accepts [] s = wal_final s"
  by (simp add: accepts_def run_txn_def)

lemma accepts_Cons: "accepts (t # ts) s \<longleftrightarrow> snd (wal_step t s) \<and> accepts ts (fst (wal_step t s))"
proof -
  obtain s' g where st: "wal_step t s = (s', g)" by fastforce
  show ?thesis using run_txn_ok [of ts s' g] by (simp add: accepts_def run_txn_Cons st)
qed

lemma wal_step_other: "\<not> is_txn_type t \<Longrightarrow> wal_step t s = (s, True)"
  by (auto simp: is_txn_type_def is_data_def is_clr_def wal_step_def)

lemma accepts_filter: "accepts ts s = accepts (filter is_txn_type ts) s"
  by (induction ts arbitrary: s) (auto simp: accepts_Cons wal_step_other)

lemmas txn_type_defs = is_txn_type_def is_data_def is_clr_def wal_step_def

lemma accepts_ended:
  assumes "hasBegin s" "hasEnd s" "\<forall>t \<in> set ts. is_txn_type t"
  shows "accepts ts s \<longleftrightarrow> ts = [] \<and> wal_final s"
  using assms by (cases ts) (auto simp: accepts_Cons txn_type_defs)

definition open_shape :: "nat \<Rightarrow> nat \<Rightarrow> LogRecordType list \<Rightarrow> bool" where
  "open_shape d c ts \<longleftrightarrow> (\<exists>body e. ts = body @ [e] \<and> (\<forall>t \<in> set body. is_data t \<or> is_clr t) \<and>
     (e = LogCommit \<or> e = LogAbort \<and> d + length (filter is_data body) = c + length (filter is_clr body)))"

lemma open_shape_Nil [simp]: "\<not> open_shape d c []"
  by (simp add: open_shape_def)

lemma data_clr_disjoint: "is_data t \<Longrightarrow> \<not> is_clr t" "is_data t \<Longrightarrow> t \<noteq> LogCommit \<and> t \<noteq> LogAbort"
  "is_clr t \<Longrightarrow> t \<noteq> LogCommit \<and> t \<noteq> LogAbort"
  by (auto simp: is_data_def is_clr_def)

lemma open_shape_Cons:
  "open_shape d c (t # ts) \<longleftrightarrow>
     (is_data t \<and> open_shape (Suc d) c ts) \<or> (is_clr t \<and> open_shape d (Suc c) ts) \<or>
     (ts = [] \<and> (t = LogCommit \<or> t = LogAbort \<and> d = c))"
proof
  assume "open_shape d c (t # ts)"
  then obtain body e where b: "t # ts = body @ [e]" "\<forall>t \<in> set body. is_data t \<or> is_clr t"
    "e = LogCommit \<or> e = LogAbort \<and> d + length (filter is_data body) = c + length (filter is_clr body)"
    unfolding open_shape_def by blast
  show "(is_data t \<and> open_shape (Suc d) c ts) \<or> (is_clr t \<and> open_shape d (Suc c) ts) \<or>
     (ts = [] \<and> (t = LogCommit \<or> t = LogAbort \<and> d = c))"
  proof (cases body)
    case Nil
    then show ?thesis using b by simp
  next
    case (Cons t' body')
    then show ?thesis using b data_clr_disjoint(1) [of t] unfolding open_shape_def by fastforce
  qed
next
  assume "(is_data t \<and> open_shape (Suc d) c ts) \<or> (is_clr t \<and> open_shape d (Suc c) ts) \<or>
     (ts = [] \<and> (t = LogCommit \<or> t = LogAbort \<and> d = c))"
  then show "open_shape d c (t # ts)"
  proof (elim disjE conjE)
    assume "is_data t" "open_shape (Suc d) c ts"
    then obtain body e where "ts = body @ [e]" "\<forall>t \<in> set body. is_data t \<or> is_clr t"
      "e = LogCommit \<or> e = LogAbort \<and> Suc d + length (filter is_data body) = c + length (filter is_clr body)"
      unfolding open_shape_def by blast
    with \<open>is_data t\<close> data_clr_disjoint(1) [of t] show ?thesis
      unfolding open_shape_def by (intro exI [of _ "t # body"] exI [of _ e]) auto
  next
    assume "is_clr t" "open_shape d (Suc c) ts"
    then obtain body e where "ts = body @ [e]" "\<forall>t \<in> set body. is_data t \<or> is_clr t"
      "e = LogCommit \<or> e = LogAbort \<and> d + length (filter is_data body) = Suc c + length (filter is_clr body)"
      unfolding open_shape_def by blast
    with \<open>is_clr t\<close> data_clr_disjoint(1) [of t] show ?thesis
      unfolding open_shape_def by (intro exI [of _ "t # body"] exI [of _ e]) auto
  qed (auto simp: open_shape_def)
qed

lemma accepts_open:
  assumes "\<forall>t \<in> set ts. is_txn_type t" "hasBegin s" "\<not> hasEnd s" "\<not> wal_aborted s"
  shows "accepts ts s \<longleftrightarrow> open_shape (dataCount s) (clrCount s) ts"
  using assms
proof (induction ts arbitrary: s)
  case Nil
  then show ?case by (simp add: wal_final_def)
next
  case (Cons t ts)
  have ts: "\<forall>t \<in> set ts. is_txn_type t" using Cons.prems by simp
  have "is_txn_type t" using Cons.prems by simp
  then consider (b) "t = LogBeginTransaction" | (e) "t = LogCommit \<or> t = LogAbort" | (d) "is_data t" | (c) "is_clr t"
    by (auto simp: is_txn_type_def)
  then show ?case
  proof cases
    case b
    then show ?thesis using Cons.prems by (simp add: accepts_Cons open_shape_Cons txn_type_defs)
  next
    case e
    have "accepts ts (fst (wal_step t s)) \<longleftrightarrow> ts = [] \<and> wal_final (fst (wal_step t s))"
      using e Cons.prems ts by (intro accepts_ended) (auto simp: wal_step_def)
    moreover have "\<not> is_data t" "\<not> is_clr t" using e data_clr_disjoint by blast+
    ultimately have "accepts (t # ts) s \<longleftrightarrow> ts = [] \<and> snd (wal_step t s) \<and> wal_final (fst (wal_step t s))"
      "open_shape (dataCount s) (clrCount s) (t # ts) \<longleftrightarrow> ts = [] \<and> (t = LogCommit \<or> dataCount s = clrCount s)"
      using e by (auto simp: accepts_Cons open_shape_Cons)
    moreover have "snd (wal_step t s) \<and> wal_final (fst (wal_step t s)) \<longleftrightarrow> t = LogCommit \<or> dataCount s = clrCount s"
      using e Cons.prems by (auto simp: wal_step_def wal_final_def)
    ultimately show ?thesis by blast
  next
    case d
    let ?s = "s\<lparr>dataCount := dataCount s + 1\<rparr>"
    have "wal_step t s = (?s, True)" using d Cons.prems by (auto simp: is_data_def wal_step_def)
    then show ?thesis
      using Cons.IH [of ?s] ts Cons.prems d data_clr_disjoint [of t] by (simp add: accepts_Cons open_shape_Cons)
  next
    case c
    let ?s = "s\<lparr>clrCount := clrCount s + 1\<rparr>"
    have "wal_step t s = (?s, True)" using c Cons.prems by (auto simp: is_clr_def wal_step_def)
    then show ?thesis
      using Cons.IH [of ?s] ts Cons.prems c data_clr_disjoint [of t] by (auto simp: accepts_Cons open_shape_Cons)
  qed
qed

lemma accepts_shape: "accepts ts newTxnState \<longleftrightarrow> txn_shape ts"
proof -
  let ?ts = "filter is_txn_type ts"
  have "accepts ?ts newTxnState \<longleftrightarrow> (\<exists>us. ?ts = LogBeginTransaction # us \<and> open_shape 0 0 us)"
  proof (cases ?ts)
    case Nil
    then show ?thesis by (simp add: wal_final_def newTxnState_def)
  next
    case (Cons t us)
    have us: "\<forall>t \<in> set us. is_txn_type t" "is_txn_type t"
      using arg_cong [OF Cons, of set] by auto
    let ?s = "newTxnState\<lparr>hasBegin := True\<rparr>"
    show ?thesis
    proof (cases "t = LogBeginTransaction")
      case True
      have "accepts us ?s \<longleftrightarrow> open_shape 0 0 us"
        using accepts_open [OF us(1), of ?s] by (simp add: newTxnState_def)
      then show ?thesis using True Cons by (simp add: accepts_Cons wal_step_def newTxnState_def)
    next
      case False
      then show ?thesis
        using us(2) Cons by (auto simp: accepts_Cons txn_type_defs newTxnState_def)
    qed
  qed
  then show ?thesis
    unfolding accepts_filter [of ts] txn_shape_def open_shape_def by auto
qed

lemma wal_check_shape:
  "wal_check rs \<longleftrightarrow> (\<forall>x \<in> fst ` set rs. txn_shape (types_of x rs))"
proof -
  obtain states ok where sc: "wal_scan rs Map.empty True = (states, ok)" by fastforce
  have st: "state_of states x = fst (run_txn (types_of x rs) (newTxnState, True))" for x
    using wal_scan_txn [of rs Map.empty True x] by (simp add: sc)
  have ok: "ok \<longleftrightarrow> (\<forall>x. snd (run_txn (types_of x rs) (newTxnState, True)))"
    using wal_scan_ok [of rs Map.empty True] by (simp add: sc)
  have other: "snd (run_txn (types_of x rs) (newTxnState, True))" if "x \<notin> fst ` set rs" for x
  proof -
    have "types_of x rs = []" using that by (force simp: types_of_def filter_empty_conv)
    then show ?thesis by (simp add: run_txn_def)
  qed
  have dom: "states x \<noteq> None" if "x \<in> fst ` set rs" for x
  proof -
    have "dom (fst (wal_scan rs Map.empty True)) = fst ` set rs" by (simp add: wal_scan_dom)
    then show ?thesis using that by (auto simp: sc dom_def)
  qed
  have "wal_final (the (states x)) = wal_final (fst (run_txn (types_of x rs) (newTxnState, True)))"
    if "x \<in> fst ` set rs" for x using st [of x] dom [OF that] by (cases "states x") auto
  then have "wal_check rs \<longleftrightarrow> (\<forall>x \<in> fst ` set rs. accepts (types_of x rs) newTxnState)"
    using ok other unfolding wal_check_def sc list_all_iff accepts_def
    by (simp only: prod.case Let_def set_remdups set_map) blast
  then show ?thesis by (simp add: accepts_shape)
qed

lemma ml_rep_length: "ml_rep m rs \<Longrightarrow> length rs \<le> length (ml_buffer m)"
proof -
  assume "ml_rep m rs"
  then have "\<forall>r \<in> set rs. 1 \<le> length r" "ml_buffer m = concat rs" by (auto simp: ml_rep_def)
  moreover have "\<forall>r \<in> set rs. 1 \<le> length r \<Longrightarrow> length rs \<le> length (concat rs)" for rs :: "bytes list"
  proof (induction rs)
    case (Cons r rs)
    then have "1 \<le> length r" "length rs \<le> length (concat rs)" by simp_all
    then have "1 + length rs \<le> length r + length (concat rs)" by (rule add_mono)
    then show ?case by simp
  qed simp
  ultimately show ?thesis by simp
qed

definition txn_and_type :: "bytes \<Rightarrow> TransactionID \<times> LogRecordType" where
  "txn_and_type r = (le_word (seg 8 8 r), le_word (seg 6 2 r))"

lemma read_types_eq:
  "\<forall>p \<in> set ps. 16 \<le> length (lr_data (snd p)) \<Longrightarrow> read_types ps = Some (map (txn_and_type \<circ> lr_data \<circ> snd) ps)"
  by (induction ps rule: read_types.induct)
     (auto simp: TxnID_def RecordType_def get_le_def txn_and_type_def)

section \<open>Properties\<close>

text \<open>
  C31: records appended to an empty log (each between 8 and 65535 bytes, no injected error) are read
  back in order, by index and by a scan from the LSN of any of them; each comes back as the bytes
  \<open>WriteToLog\<close> produces, and the scan ends.
\<close>

theorem MemoryLog_append_scan:
  assumes "\<forall>r \<in> set rs. 8 \<le> length (lr_data r) \<and> length (lr_data r) < 65536"
  shows "\<exists>m lsns. append_all NewMemoryLogManager rs = Some (m, lsns) \<and> length lsns = length rs \<and>
    ML_Count m = length rs \<and>
    (\<forall>i < length rs. ML_GetRecord m i = Some (AsLogRecord (logged (rs ! i)))) \<and>
    (\<forall>k \<le> length rs. \<exists>found. log_scan (Suc (length rs)) m (ML_Iterator (length (concat (map logged (take k rs))))) = Some found \<and>
       map snd found = map (AsLogRecord \<circ> logged) (drop k rs) \<and> map (of_nat \<circ> fst) found = drop k lsns)"
proof -
  have "ml_rep NewMemoryLogManager []" "ml_appendCountdown NewMemoryLogManager < 0"
    by (simp_all add: ml_rep_def NewMemoryLogManager_def offs_def)
  from append_all_rep [OF this assms] obtain m lsns where m: "append_all NewMemoryLogManager rs = Some (m, lsns)"
    "ml_rep m (map logged rs)"
    "lsns = map (\<lambda>j. of_nat (length (concat (take j (map logged rs))))) [0..<length rs]" by auto
  have scan: "log_scan (Suc (length rs)) m (ML_Iterator (length (concat (map logged (take k rs))))) =
      Some (map (\<lambda>j. (length (concat (take j (map logged rs))), AsLogRecord (map logged rs ! j))) [k..<length rs])"
    if "k \<le> length rs" for k
    using log_scan_eq [OF m(2) before_record_start [of k]] that by (simp add: take_map del: log_scan.simps)
  have "map snd (map (\<lambda>j. (length (concat (take j (map logged rs))), AsLogRecord (map logged rs ! j))) [k..<length rs])
      = map (AsLogRecord \<circ> logged) (drop k rs)" for k
    by (auto intro!: nth_equalityI)
  moreover have "map (of_nat \<circ> fst) (map (\<lambda>j. (length (concat (take j (map logged rs))), AsLogRecord (map logged rs ! j))) [k..<length rs])
      = drop k lsns" for k
    by (simp add: m(3) drop_map)
  ultimately show ?thesis
    using m(1,3) ml.count_rep [OF m(2)] ml.fetch_rep [OF m(2)] scan by (metis (no_types, lifting) length_map length_upt minus_nat.diff_0 nth_map)
qed

theorem MemoryLog_append_scan_witness:
  "\<exists>m lsns. append_all NewMemoryLogManager [\<lparr>lr_data = replicate 8 1\<rparr>, \<lparr>lr_data = replicate 9 2\<rparr>] = Some (m, lsns) \<and>
    length lsns = length [\<lparr>lr_data = replicate 8 1\<rparr>, \<lparr>lr_data = replicate 9 2\<rparr> :: LogRecord] \<and>
    ML_Count m = length [\<lparr>lr_data = replicate 8 1\<rparr>, \<lparr>lr_data = replicate 9 2\<rparr> :: LogRecord] \<and>
    (\<forall>i < length [\<lparr>lr_data = replicate 8 1\<rparr>, \<lparr>lr_data = replicate 9 2\<rparr> :: LogRecord].
       ML_GetRecord m i = Some (AsLogRecord (logged ([\<lparr>lr_data = replicate 8 1\<rparr>, \<lparr>lr_data = replicate 9 2\<rparr>] ! i)))) \<and>
    (\<forall>k \<le> length [\<lparr>lr_data = replicate 8 1\<rparr>, \<lparr>lr_data = replicate 9 2\<rparr> :: LogRecord].
       \<exists>found. log_scan (Suc (length [\<lparr>lr_data = replicate 8 1\<rparr>, \<lparr>lr_data = replicate 9 2\<rparr> :: LogRecord])) m
         (ML_Iterator (length (concat (map logged (take k [\<lparr>lr_data = replicate 8 1\<rparr>, \<lparr>lr_data = replicate 9 2\<rparr>]))))) = Some found \<and>
       map snd found = map (AsLogRecord \<circ> logged) (drop k [\<lparr>lr_data = replicate 8 1\<rparr>, \<lparr>lr_data = replicate 9 2\<rparr>]) \<and>
       map (of_nat \<circ> fst) found = drop k lsns)"
  by (rule MemoryLog_append_scan) simp

text \<open>
  The order checker, run on a log whose records hold at least a transaction id, never panics and accepts the log exactly when the records of every transaction that occurs in
  it are one begin, then data and compensation records, then one end, with as many compensation as
  data records when that end is an abort. In particular a committed transaction may contain
  compensation records.
\<close>

theorem VerifyWALOrdering_shape:
  assumes "ml_rep m rs" "\<forall>r \<in> set rs. 16 \<le> length r"
  shows "VerifyWALOrdering m =
    Some (\<forall>x \<in> fst ` set (map txn_and_type rs). txn_shape (types_of x (map txn_and_type rs)))"
proof -
  let ?found = "map (\<lambda>j. (length (concat (take j rs)), AsLogRecord (rs ! j))) [0..<length rs]"
  have "log_scan (Suc (length (ml_buffer m))) m (ML_Iterator 0) = Some ?found"
    using log_scan_eq [OF assms(1) before_record_start [of 0 rs], of "Suc (length (ml_buffer m))"] ml_rep_length [OF assms(1)]
    by (simp del: log_scan.simps)
  moreover have "read_types ?found = Some (map (txn_and_type \<circ> lr_data \<circ> snd) ?found)"
    using assms(2) by (intro read_types_eq) (auto simp: AsLogRecord_def)
  moreover have "map (txn_and_type \<circ> lr_data \<circ> snd) ?found = map txn_and_type rs"
    by (auto simp: AsLogRecord_def intro!: nth_equalityI)
  ultimately show ?thesis
    by (simp add: VerifyWALOrdering_def wal_check_shape del: log_scan.simps)
qed

definition sample_record :: "byte \<Rightarrow> bytes" where
  "sample_record t = [16, 0, 0, 0, 0, 0, t, 0, 1, 0, 0, 0, 0, 0, 0, 0]"

lemma le_bytes_16: "le_bytes 2 (16 :: uint16) = [16, 0]"
proof -
  have "[0..<2] = [0, 1 :: nat]" by code_simp
  then show ?thesis by (simp add: le_bytes_def)
qed

lemma offs_sample:
  "length a = 16 \<Longrightarrow> length b = 16 \<Longrightarrow> offs [a, b, c] = [0, 16, 32]"
  by (simp add: offs_def upt_rec [of 0] upt_rec [of 1] upt_rec [of 2])

theorem VerifyWALOrdering_shape_witness:
  "VerifyWALOrdering (NewMemoryLogManager\<lparr>ml_buffer := concat (map sample_record [1, 9, 2]),
      ml_offsets := [0, 16, 32]\<rparr>) =
    Some (\<forall>x \<in> fst ` set (map txn_and_type (map sample_record [1, 9, 2])).
       txn_shape (types_of x (map txn_and_type (map sample_record [1, 9, 2]))))"
  by (rule VerifyWALOrdering_shape)
     (simp_all add: ml_rep_def sample_record_def NewMemoryLogManager_def offs_sample le_bytes_16 seg_def)

end
