(* ===== verification/Transaction_Lock.thy ===== *)
theory Transaction_Lock
  imports Common_Types "HOL-Library.AList"
begin

text \<open>
  The lock manager (\<open>transaction/lock.go\<close>): multi-granularity lock modes, the table of granted
  locks, the wait queues, and deadlock detection by a depth-first search of the waits-for graph.

  The Go maps are association lists; the order of a list stands for the order in which a \<open>range\<close>
  loop happens to visit the map, and the theorems hold for every order. The manager's mutex makes each
  operation atomic up to the condition variable: \<open>Lock\<close> is split into what runs before a transaction
  may go to sleep (\<open>Lock_begin\<close>) and what runs when it wakes up (\<open>Lock_wake\<close>). \<open>lock_step\<close>
  interleaves requests, wake-ups and releases of any number of transactions, each with at most
  one outstanding request.
\<close>

section \<open>Tags and modes\<close>

record DBLockTag =
  tag_RecordID :: RecordID

definition NewTableLockTag :: "ObjectID \<Rightarrow> DBLockTag" where
  "NewTableLockTag oid =
     \<lparr>tag_RecordID = \<lparr>rid_PageID = \<lparr>Oid = oid, PageNum = - 1\<rparr>, Slot = - 1\<rparr>\<rparr>"

definition NewTupleLockTag :: "RecordID \<Rightarrow> DBLockTag" where
  "NewTupleLockTag rid = \<lparr>tag_RecordID = rid\<rparr>"

datatype DBLockMode = LockModeS | LockModeX | LockModeIS | LockModeIX | LockModeSIX

fun DBLockMode_String :: "DBLockMode \<Rightarrow> string" where
  "DBLockMode_String LockModeS = ''LockModeS''"
| "DBLockMode_String LockModeX = ''LockModeX''"
| "DBLockMode_String LockModeIS = ''LockModeIS''"
| "DBLockMode_String LockModeIX = ''LockModeIX''"
| "DBLockMode_String LockModeSIX = ''LockModeSIX''"

definition isCompatible :: "DBLockMode \<Rightarrow> DBLockMode \<Rightarrow> bool" where
  "isCompatible requestedMode existingMode =
     (if requestedMode = LockModeX \<or> existingMode = LockModeX then False
      else if requestedMode = LockModeS then
        (if existingMode = LockModeS \<or> existingMode = LockModeIS \<or> existingMode = LockModeSIX then True else False)
      else if existingMode = LockModeS then
        (if requestedMode = LockModeS \<or> requestedMode = LockModeIS \<or> requestedMode = LockModeSIX then True else False)
      else if requestedMode = LockModeIX then
        (if existingMode = LockModeIS \<or> existingMode = LockModeIX then True else False)
      else if existingMode = LockModeIX then
        (if requestedMode = LockModeIS \<or> requestedMode = LockModeIX then True else False)
      else if requestedMode = LockModeSIX then
        (if existingMode = LockModeIS \<or> existingMode = LockModeS then True else False)
      else if existingMode = LockModeSIX then
        (if requestedMode = LockModeIS \<or> requestedMode = LockModeS then True else False)
      else True)"

section \<open>The manager\<close>

type_synonym holders = "(TransactionID \<times> DBLockMode) list"

record LockManager =
  locks :: "(DBLockTag \<times> holders) list"
  waitqueue :: "(DBLockTag \<times> TransactionID list) list"

definition NewLockManager :: LockManager where
  "NewLockManager = \<lparr>locks = [], waitqueue = []\<rparr>"

definition holders_of :: "LockManager \<Rightarrow> DBLockTag \<Rightarrow> holders" where
  "holders_of lm tag = (case map_of (locks lm) tag of None \<Rightarrow> [] | Some h \<Rightarrow> h)"

definition waiters_of :: "LockManager \<Rightarrow> DBLockTag \<Rightarrow> TransactionID list" where
  "waiters_of lm tag = (case map_of (waitqueue lm) tag of None \<Rightarrow> [] | Some w \<Rightarrow> w)"

text \<open>\<open>delete(holders, tid)\<close>, and of the tag's entry when no holder is left.\<close>

definition delete_holder :: "LockManager \<Rightarrow> TransactionID \<Rightarrow> DBLockTag \<Rightarrow> LockManager" where
  "delete_holder lm tid tag =
     (let hs = AList.delete tid (holders_of lm tag) in
      lm\<lparr>locks := if hs = [] then AList.delete tag (locks lm) else AList.update tag hs (locks lm)\<rparr>)"

definition grant :: "LockManager \<Rightarrow> TransactionID \<Rightarrow> DBLockTag \<Rightarrow> DBLockMode \<Rightarrow> LockManager" where
  "grant lm tid tag mode =
     lm\<lparr>locks := AList.update tag (AList.update tid mode (holders_of lm tag)) (locks lm)\<rparr>"

definition enqueue :: "LockManager \<Rightarrow> TransactionID \<Rightarrow> DBLockTag \<Rightarrow> LockManager" where
  "enqueue lm tid tag = lm\<lparr>waitqueue := AList.update tag (waiters_of lm tag @ [tid]) (waitqueue lm)\<rparr>"

definition removeFromWaitQueue :: "LockManager \<Rightarrow> TransactionID \<Rightarrow> DBLockTag \<Rightarrow> LockManager" where
  "removeFromWaitQueue lm tid tag =
     (let waiters = waiters_of lm tag;
          lm = (if tid \<in> set waiters
                then lm\<lparr>waitqueue := AList.update tag (remove1 tid waiters) (waitqueue lm)\<rparr> else lm)
      in if waiters_of lm tag = [] then lm\<lparr>waitqueue := AList.delete tag (waitqueue lm)\<rparr> else lm)"

text \<open>The two conflict loops of \<open>Lock\<close>.\<close>

definition lock_conflict :: "LockManager \<Rightarrow> TransactionID \<Rightarrow> DBLockTag \<Rightarrow> DBLockMode \<Rightarrow> bool" where
  "lock_conflict lm tid tag mode =
     list_ex (\<lambda>(otherTid, otherMode). otherTid \<noteq> tid \<and> \<not> isCompatible mode otherMode) (holders_of lm tag)"

text \<open>
  The search. \<open>wait_edges\<close> lists the transactions the nested loops of \<open>dfs\<close> descend into, in
  their order: the manager does not change during a search. The map \<open>visited\<close> is threaded through.
  The fuel bounds the depth of the recursion.
\<close>

definition wait_edges :: "LockManager \<Rightarrow> TransactionID \<Rightarrow> TransactionID list" where
  "wait_edges lm currentId =
     concat (map (\<lambda>(waitTag, waiters).
       concat (map (\<lambda>waitingTid.
         (if waitingTid = currentId
          then filter (\<lambda>holderTid. holderTid \<noteq> currentId) (map fst (holders_of lm waitTag))
          else [])) waiters)) (waitqueue lm))"

function (sequential) dfs :: "nat \<Rightarrow> LockManager \<Rightarrow> TransactionID \<Rightarrow> TransactionID \<Rightarrow> TransactionID list \<Rightarrow>
    (bool \<times> TransactionID list) option"
  and dfs_each :: "nat \<Rightarrow> LockManager \<Rightarrow> TransactionID list \<Rightarrow> TransactionID \<Rightarrow> TransactionID list \<Rightarrow>
    (bool \<times> TransactionID list) option" where
  "dfs 0 lm currentId startId visited = None"
| "dfs (Suc fuel) lm currentId startId visited =
     (if currentId \<in> set visited then Some (currentId = startId, visited)
      else dfs_each fuel lm (wait_edges lm currentId) startId (currentId # visited))"
| "dfs_each fuel lm [] startId visited = Some (False, visited)"
| "dfs_each fuel lm (holderTid # hs) startId visited = do {
     (found, visited) \<leftarrow> dfs fuel lm holderTid startId visited;
     (if found then Some (True, visited) else dfs_each fuel lm hs startId visited)
   }"
  by pat_completeness auto
termination
  by (relation "measures [case_sum (\<lambda>(n, _). n) (\<lambda>(n, _). n), case_sum (\<lambda>_. 0) (\<lambda>(_, _, hs, _). Suc (length hs))]") auto

text \<open>A depth that is always enough: one more than the number of grants in the table.\<close>

definition dfs_fuel :: "LockManager \<Rightarrow> nat" where
  "dfs_fuel lm = Suc (Suc (length (concat (map snd (locks lm)))))"

definition hasDeadLock :: "LockManager \<Rightarrow> TransactionID \<Rightarrow> bool option" where
  "hasDeadLock lm startID = map_option fst (dfs (dfs_fuel lm) lm startID startID [])"

datatype lock_result = LockGranted | LockFailed GoDBErrorCode | LockWaits

definition Lock_begin :: "LockManager \<Rightarrow> TransactionID \<Rightarrow> DBLockTag \<Rightarrow> DBLockMode \<Rightarrow>
    (lock_result \<times> LockManager) option" where
  "Lock_begin lm tid tag mode =
     (if map_of (holders_of lm tag) tid = Some mode then Some (LockGranted, lm)
      else do {
        let lm = (if map_of (holders_of lm tag) tid \<noteq> None then delete_holder lm tid tag else lm);
        (if lock_conflict lm tid tag mode then do {
           let lm = enqueue lm tid tag;
           dead \<leftarrow> hasDeadLock lm tid;
           (if dead then Some (LockFailed DeadlockError, removeFromWaitQueue lm tid tag)
            else Some (LockWaits, lm))
         }
         else Some (LockGranted, grant lm tid tag mode))
      })"

definition Lock_wake :: "LockManager \<Rightarrow> TransactionID \<Rightarrow> DBLockTag \<Rightarrow> DBLockMode \<Rightarrow>
    lock_result \<times> LockManager" where
  "Lock_wake lm tid tag mode =
     (if lock_conflict lm tid tag mode then (LockWaits, lm)
      else (LockGranted, grant (removeFromWaitQueue lm tid tag) tid tag mode))"

definition Unlock :: "LockManager \<Rightarrow> TransactionID \<Rightarrow> DBLockTag \<Rightarrow> GoDBErrorCode option \<times> LockManager" where
  "Unlock lm tid tag =
     (case map_of (locks lm) tag of
        None \<Rightarrow> (Some LockNotFoundError, lm)
      | Some hs \<Rightarrow>
          (if map_of hs tid = None then (Some LockNotFoundError, lm)
           else (None, delete_holder lm tid tag)))"

text \<open>Whether \<open>Unlock\<close> wakes the sleeping transactions.\<close>

definition Unlock_broadcasts :: "LockManager \<Rightarrow> TransactionID \<Rightarrow> DBLockTag \<Rightarrow> bool" where
  "Unlock_broadcasts lm tid tag \<longleftrightarrow> fst (Unlock lm tid tag) = None \<and> length (waiters_of lm tag) > 0"

definition LockHeld :: "LockManager \<Rightarrow> DBLockTag \<Rightarrow> bool" where
  "LockHeld lm tag \<longleftrightarrow> \<not> holders_of lm tag = []"

section \<open>Interleavings\<close>

type_synonym pending = "TransactionID \<Rightarrow> (DBLockTag \<times> DBLockMode) option"

inductive lock_step :: "LockManager \<times> pending \<Rightarrow> LockManager \<times> pending \<Rightarrow> bool" where
  request: "p tid = None \<Longrightarrow> Lock_begin lm tid tag mode = Some (res, lm') \<Longrightarrow>
    lock_step (lm, p) (lm', if res = LockWaits then p(tid \<mapsto> (tag, mode)) else p)"
| wake: "p tid = Some (tag, mode) \<Longrightarrow> Lock_wake lm tid tag mode = (res, lm') \<Longrightarrow>
    lock_step (lm, p) (lm', if res = LockWaits then p else p(tid := None))"
| unlock: "p tid = None \<Longrightarrow> Unlock lm tid tag = (err, lm') \<Longrightarrow> lock_step (lm, p) (lm', p)"

inductive_cases lock_stepE: "lock_step (lm, p) (lm', p')"

abbreviation lock_reachable :: "LockManager \<times> pending \<Rightarrow> bool" where
  "lock_reachable s \<equiv> lock_step\<^sup>*\<^sup>* (NewLockManager, Map.empty) s"


section \<open>The tables as functions\<close>

definition hmap :: "LockManager \<Rightarrow> DBLockTag \<Rightarrow> TransactionID \<Rightarrow> DBLockMode option" where
  "hmap lm tag = map_of (holders_of lm tag)"

definition wf_lm :: "LockManager \<Rightarrow> bool" where
  "wf_lm lm \<longleftrightarrow> distinct (map fst (locks lm)) \<and> distinct (map fst (waitqueue lm)) \<and>
     (\<forall>tag. distinct (map fst (holders_of lm tag)))"

lemma holders_of_grant:
  "holders_of (grant lm t tag m) tag' = (if tag' = tag then AList.update t m (holders_of lm tag) else holders_of lm tag')"
  by (simp add: grant_def holders_of_def update_conv')

lemma holders_of_delete_holder:
  "holders_of (delete_holder lm t tag) tag' = (if tag' = tag then AList.delete t (holders_of lm tag) else holders_of lm tag')"
  by (simp add: delete_holder_def holders_of_def update_conv' delete_conv' Let_def)

lemma queue_ops_holders [simp]:
  "holders_of (enqueue lm t tag) = holders_of lm" "holders_of (removeFromWaitQueue lm t tag) = holders_of lm"
  "locks (enqueue lm t tag) = locks lm" "locks (removeFromWaitQueue lm t tag) = locks lm"
  by (auto simp: enqueue_def removeFromWaitQueue_def holders_of_def fun_eq_iff Let_def)

lemma lock_ops_queue [simp]:
  "waitqueue (grant lm t tag m) = waitqueue lm" "waitqueue (delete_holder lm t tag) = waitqueue lm"
  by (simp_all add: grant_def delete_holder_def Let_def)

lemma lock_ops_waiters [simp]:
  "waiters_of (grant lm t tag m) = waiters_of lm" "waiters_of (delete_holder lm t tag) = waiters_of lm"
  by (simp_all add: waiters_of_def fun_eq_iff)

lemma hmap_grant: "hmap (grant lm t tag m) = (hmap lm)(tag := (hmap lm tag)(t \<mapsto> m))"
  by (auto simp: hmap_def fun_eq_iff holders_of_grant update_conv')

lemma hmap_delete_holder: "hmap (delete_holder lm t tag) = (hmap lm)(tag := (hmap lm tag)(t := None))"
  by (auto simp: hmap_def fun_eq_iff holders_of_delete_holder delete_conv')

lemma hmap_queue_ops [simp]:
  "hmap (enqueue lm t tag) = hmap lm" "hmap (removeFromWaitQueue lm t tag) = hmap lm"
  by (simp_all add: hmap_def fun_eq_iff)

lemma waiters_of_enqueue:
  "waiters_of (enqueue lm t tag) tag' = (if tag' = tag then waiters_of lm tag @ [t] else waiters_of lm tag')"
  by (simp add: enqueue_def waiters_of_def update_conv')

lemma waiters_of_remove:
  "waiters_of (removeFromWaitQueue lm t tag) tag' = (if tag' = tag then remove1 t (waiters_of lm tag) else waiters_of lm tag')"
proof -
  have upd: "waiters_of (lm\<lparr>waitqueue := AList.update tag w (waitqueue lm)\<rparr>) tag' = (if tag' = tag then w else waiters_of lm tag')" for w tag'
    by (simp add: waiters_of_def update_conv')
  have del: "waiters_of (lm'\<lparr>waitqueue := AList.delete tag (waitqueue lm')\<rparr>) tag' = (if tag' = tag then [] else waiters_of lm' tag')" for lm' :: LockManager and tag'
    by (simp add: waiters_of_def delete_conv')
  show ?thesis
    by (auto simp: removeFromWaitQueue_def Let_def upd del remove1_idem)
qed

lemma wf_lm_ops:
  assumes "wf_lm lm"
  shows "wf_lm (grant lm t tag m)" "wf_lm (delete_holder lm t tag)" "wf_lm (enqueue lm t tag)"
    "wf_lm (removeFromWaitQueue lm t tag)"
proof -
  show "wf_lm (grant lm t tag m)"
    using assms by (auto simp: wf_lm_def holders_of_grant distinct_update) (simp add: grant_def distinct_update)
  show "wf_lm (delete_holder lm t tag)"
    using assms by (auto simp: wf_lm_def holders_of_delete_holder distinct_delete)
      (simp add: delete_holder_def Let_def distinct_update distinct_delete)
  show "wf_lm (enqueue lm t tag)"
    using assms by (auto simp: wf_lm_def) (simp add: enqueue_def distinct_update)
  show "wf_lm (removeFromWaitQueue lm t tag)"
    using assms by (auto simp: wf_lm_def)
      (simp add: removeFromWaitQueue_def Let_def distinct_update distinct_delete)
qed

lemma lock_conflict_iff:
  assumes "wf_lm lm"
  shows "lock_conflict lm tid tag mode \<longleftrightarrow> (\<exists>t m. t \<noteq> tid \<and> hmap lm tag t = Some m \<and> \<not> isCompatible mode m)"
  using assms by (auto simp: lock_conflict_def list_ex_iff hmap_def wf_lm_def)

lemma isCompatible_sym: "isCompatible a b = isCompatible b a"
  by (cases a; cases b) (simp_all add: isCompatible_def)

section \<open>The waits-for graph\<close>

definition wait_rel :: "LockManager \<Rightarrow> (TransactionID \<times> TransactionID) set" where
  "wait_rel lm = {(x, h). h \<in> set (wait_edges lm x)}"

lemma wait_rel_iff:
  assumes "wf_lm lm"
  shows "(x, h) \<in> wait_rel lm \<longleftrightarrow> (\<exists>tag. x \<in> set (waiters_of lm tag) \<and> h \<noteq> x \<and> hmap lm tag h \<noteq> None)"
proof -
  have "(tag, ws) \<in> set (waitqueue lm) \<Longrightarrow> waiters_of lm tag = ws" for tag ws
    using assms by (simp add: wf_lm_def waiters_of_def)
  moreover have "x \<in> set (waiters_of lm tag) \<Longrightarrow> \<exists>ws. (tag, ws) \<in> set (waitqueue lm) \<and> x \<in> set ws" for tag
    by (cases "map_of (waitqueue lm) tag") (auto simp: waiters_of_def dest: map_of_SomeD)
  ultimately show ?thesis
    unfolding wait_rel_def wait_edges_def hmap_def
    by (auto simp: map_of_eq_None_iff split: if_splits) (force+)
qed

lemma wait_rel_mono:
  assumes "wf_lm lm" "wf_lm lm'"
    and "\<And>x h tag. x \<in> set (waiters_of lm' tag) \<Longrightarrow> h \<noteq> x \<Longrightarrow> hmap lm' tag h \<noteq> None \<Longrightarrow>
      (x, h) \<in> extra \<or> (x \<in> set (waiters_of lm tag) \<and> hmap lm tag h \<noteq> None)"
  shows "wait_rel lm' \<subseteq> wait_rel lm \<union> extra"
proof (rule subrelI)
  fix x h
  assume "(x, h) \<in> wait_rel lm'"
  then obtain tag where "x \<in> set (waiters_of lm' tag)" "h \<noteq> x" "hmap lm' tag h \<noteq> None"
    using wait_rel_iff [OF assms(2)] by blast
  then show "(x, h) \<in> wait_rel lm \<union> extra"
    using assms(3) [of x tag h] wait_rel_iff [OF assms(1)] by blast
qed

subsection \<open>The search finds exactly the cycles through its start\<close>

lemma dfs_found:
  "dfs fuel lm cur start vis = Some (True, vis') \<Longrightarrow> (cur, start) \<in> (wait_rel lm)\<^sup>*"
  "dfs_each fuel lm hs start vis = Some (True, vis') \<Longrightarrow> \<exists>h \<in> set hs. (h, start) \<in> (wait_rel lm)\<^sup>*"
proof (induction fuel lm cur start vis and fuel lm hs start vis arbitrary: vis' and vis' rule: dfs_dfs_each.induct)
  case (2 fuel lm cur start vis)
  show ?case
  proof (cases "cur \<in> set vis")
    case True
    then show ?thesis using "2.prems" by simp
  next
    case False
    then obtain h where "h \<in> set (wait_edges lm cur)" "(h, start) \<in> (wait_rel lm)\<^sup>*"
      using "2.IH" "2.prems" by auto
    then show ?thesis by (auto simp: wait_rel_def intro: converse_rtrancl_into_rtrancl)
  qed
next
  case (4 fuel lm h hs start vis)
  then obtain b vis1 where v: "dfs fuel lm h start vis = Some (b, vis1)" by (auto simp: bind_eq_Some_conv)
  show ?case
  proof (cases b)
    case True
    then show ?thesis using "4.IH"(1) v by auto
  next
    case False
    then show ?thesis using "4.IH"(2) [OF v refl False] "4.prems" v by auto
  qed
qed simp_all

text \<open>After an unsuccessful search every newly visited transaction has its successors visited, none of them the start.\<close>

definition explored :: "LockManager \<Rightarrow> TransactionID \<Rightarrow> TransactionID set \<Rightarrow> TransactionID set \<Rightarrow> bool" where
  "explored lm start V V' \<longleftrightarrow> V \<subseteq> V' \<and> (\<forall>x \<in> V' - V. \<forall>y. (x, y) \<in> wait_rel lm \<longrightarrow> y \<in> V' \<and> y \<noteq> start)"

lemma explored_trans: "explored lm start A B \<Longrightarrow> explored lm start B C \<Longrightarrow> explored lm start A C"
  unfolding explored_def by blast

lemma dfs_not_found:
  "dfs fuel lm cur start vis = Some (False, vis') \<Longrightarrow> start \<in> set vis \<Longrightarrow>
     cur \<noteq> start \<and> cur \<in> set vis' \<and> explored lm start (set vis) (set vis')"
  "dfs_each fuel lm hs start vis = Some (False, vis') \<Longrightarrow> start \<in> set vis \<Longrightarrow>
     (\<forall>h \<in> set hs. h \<noteq> start \<and> h \<in> set vis') \<and> explored lm start (set vis) (set vis')"
proof (induction fuel lm cur start vis and fuel lm hs start vis arbitrary: vis' and vis' rule: dfs_dfs_each.induct)
  case (2 fuel lm cur start vis)
  show ?case
  proof (cases "cur \<in> set vis")
    case True
    then show ?thesis using "2.prems" by (auto simp: explored_def)
  next
    case False
    then have "(\<forall>h \<in> set (wait_edges lm cur). h \<noteq> start \<and> h \<in> set vis') \<and>
        explored lm start (set (cur # vis)) (set vis')"
      using "2.IH" "2.prems" by simp
    then show ?thesis using False "2.prems"(2) by (auto simp: explored_def wait_rel_def)
  qed
next
  case (4 fuel lm h hs start vis)
  then obtain vis1 where v: "dfs fuel lm h start vis = Some (False, vis1)" "dfs_each fuel lm hs start vis1 = Some (False, vis')"
    by (auto simp: bind_eq_Some_conv split: if_splits)
  have 1: "h \<noteq> start \<and> h \<in> set vis1 \<and> explored lm start (set vis) (set vis1)"
    using "4.IH"(1) v(1) "4.prems"(2) by blast
  then have "start \<in> set vis1" using "4.prems"(2) by (auto simp: explored_def)
  then have 2: "(\<forall>h \<in> set hs. h \<noteq> start \<and> h \<in> set vis') \<and> explored lm start (set vis1) (set vis')"
    using "4.IH"(2) [OF v(1) refl] v(2) by simp
  have "explored lm start (set vis) (set vis')" using 1 2 explored_trans by blast
  moreover have "set vis1 \<subseteq> set vis'" using 2 unfolding explored_def by blast
  ultimately show ?case using 1 2 by auto
qed (simp_all add: explored_def)


lemma dfs_mono:
  "dfs fuel lm cur start vis = Some (b, vis') \<Longrightarrow> set vis \<subseteq> set vis'"
  "dfs_each fuel lm hs start vis = Some (b, vis') \<Longrightarrow> set vis \<subseteq> set vis'"
proof (induction fuel lm cur start vis and fuel lm hs start vis arbitrary: b vis' and b vis' rule: dfs_dfs_each.induct)
  case (2 fuel lm cur start vis)
  then show ?case by (auto split: if_splits)
next
  case (4 fuel lm h hs start vis)
  then obtain b1 vis1 where v: "dfs fuel lm h start vis = Some (b1, vis1)" by (auto simp: bind_eq_Some_conv)
  have "set vis \<subseteq> set vis1" using "4.IH"(1) v by blast
  moreover have "\<not> b1 \<Longrightarrow> set vis1 \<subseteq> set vis'" using "4.IH"(2) [OF v refl] "4.prems" v by auto
  ultimately show ?case using "4.prems" v by (auto split: if_splits)
qed simp_all

lemma dfs_enough_fuel:
  assumes "finite U" "\<And>x. set (wait_edges lm x) \<subseteq> U"
  shows "cur \<in> U \<Longrightarrow> card (U - set vis) < fuel \<Longrightarrow> \<exists>r. dfs fuel lm cur start vis = Some r"
    and "set hs \<subseteq> U \<Longrightarrow> card (U - set vis) < fuel \<Longrightarrow> \<exists>r. dfs_each fuel lm hs start vis = Some r"
  using assms(2)
proof (induction fuel lm cur start vis and fuel lm hs start vis rule: dfs_dfs_each.induct)
  case (2 fuel lm cur start vis)
  show ?case
  proof (cases "cur \<in> set vis")
    case False
    have "U - set (cur # vis) \<subset> U - set vis" using False "2.prems"(1) by auto
    then have "card (U - set (cur # vis)) < card (U - set vis)" using assms(1) by (simp add: psubset_card_mono)
    then have "card (U - set (cur # vis)) < fuel" using "2.prems"(2) by simp
    then show ?thesis using False "2.IH" "2.prems" by simp
  qed simp
next
  case (4 fuel lm h hs start vis)
  then obtain b vis1 where v: "dfs fuel lm h start vis = Some (b, vis1)" by fastforce
  have "U - set vis1 \<subseteq> U - set vis" using dfs_mono(1) [OF v] by auto
  then have "card (U - set vis1) < fuel"
    using "4.prems"(2) assms(1) card_mono [of "U - set vis" "U - set vis1"] by simp
  then show ?case using "4.IH"(2) [OF v refl] "4.prems" v by (cases b) auto
qed auto

lemma holders_of_subset: "set (holders_of lm tag) \<subseteq> set (concat (map snd (locks lm)))"
proof (cases "map_of (locks lm) tag")
  case (Some hs)
  then have "hs \<in> snd ` set (locks lm)" by (metis image_eqI map_of_SomeD snd_conv)
  then show ?thesis using Some by (auto simp: holders_of_def)
qed (simp add: holders_of_def)

lemma set_concat_map_subset: "(\<And>x. set (f x) \<subseteq> A) \<Longrightarrow> set (concat (map f xs)) \<subseteq> A"
  by auto

lemma wait_edges_holders: "set (wait_edges lm x) \<subseteq> fst ` set (concat (map snd (locks lm)))"
proof -
  have *: "fst ` set (holders_of lm tag) \<subseteq> fst ` set (concat (map snd (locks lm)))" for tag
    using holders_of_subset by (rule image_mono)
  have "set (if w = x then filter (\<lambda>h. h \<noteq> x) (map fst (holders_of lm tag)) else []) \<subseteq>
      fst ` set (concat (map snd (locks lm)))" for w tag
    using * [of tag] by (cases "w = x") auto
  then show ?thesis
    unfolding wait_edges_def case_prod_beta by (intro set_concat_map_subset)
qed

lemma dfs_fuel_enough: "\<exists>r. dfs (dfs_fuel lm) lm start start [] = Some r"
proof -
  let ?U = "insert start (fst ` set (concat (map snd (locks lm))))"
  have "card (fst ` set (concat (map snd (locks lm)))) \<le> length (concat (map snd (locks lm)))"
    by (metis card_length list.set_map length_map)
  then have "card (?U - set []) < dfs_fuel lm"
    unfolding dfs_fuel_def by (simp add: card_insert_if del: set_concat)
  then show ?thesis
    by (intro dfs_enough_fuel(1) [where U = ?U]) (use wait_edges_holders in auto)
qed

lemma hasDeadLock_cycle: "hasDeadLock lm t = Some ((t, t) \<in> (wait_rel lm)\<^sup>+)"
proof -
  obtain b vis where r: "dfs (dfs_fuel lm) lm t t [] = Some (b, vis)" using dfs_fuel_enough by fastforce
  obtain fuel where fuel: "dfs_fuel lm = Suc fuel" by (simp add: dfs_fuel_def)
  have each: "dfs_each fuel lm (wait_edges lm t) t [t] = Some (b, vis)" using r by (simp add: fuel)
  have "b \<longleftrightarrow> (t, t) \<in> (wait_rel lm)\<^sup>+"
  proof (cases b)
    case True
    then obtain h where "h \<in> set (wait_edges lm t)" "(h, t) \<in> (wait_rel lm)\<^sup>*"
      using dfs_found(2) [of fuel lm _ t "[t]" vis] each by auto
    then have "(t, h) \<in> wait_rel lm" by (simp add: wait_rel_def)
    then show ?thesis using True \<open>(h, t) \<in> (wait_rel lm)\<^sup>*\<close> by (simp add: rtrancl_into_trancl2)
  next
    case False
    then have nf: "\<forall>h \<in> set (wait_edges lm t). h \<noteq> t \<and> h \<in> set vis" "explored lm t {t} (set vis)"
      using dfs_not_found(2) [of fuel lm _ t "[t]" vis] each by auto
    have closed: "y \<in> set vis \<and> y \<noteq> t" if "(x, y) \<in> wait_rel lm" "x \<in> set vis" for x y
    proof (cases "x = t")
      case True
      then show ?thesis using that nf(1) by (simp add: wait_rel_def)
    next
      case False
      then show ?thesis using that nf(2) unfolding explored_def by blast
    qed
    have "y \<in> set vis \<and> y \<noteq> t" if "(t, y) \<in> (wait_rel lm)\<^sup>+" for y
      using that
    proof (induction rule: trancl_induct)
      case (base y)
      then show ?case using nf(1) by (simp add: wait_rel_def)
    qed (use closed in blast)
    then show ?thesis using False by blast
  qed
  then show ?thesis using r by (simp add: hasDeadLock_def)
qed

section \<open>The invariant\<close>

definition holders_compatible :: "LockManager \<Rightarrow> bool" where
  "holders_compatible lm \<longleftrightarrow> (\<forall>tag t1 t2 m1 m2.
     t1 \<noteq> t2 \<and> hmap lm tag t1 = Some m1 \<and> hmap lm tag t2 = Some m2 \<longrightarrow> isCompatible m1 m2)"

definition queues_match :: "LockManager \<Rightarrow> pending \<Rightarrow> bool" where
  "queues_match lm p \<longleftrightarrow> (\<forall>tag. distinct (waiters_of lm tag)) \<and>
     (\<forall>tag x. x \<in> set (waiters_of lm tag) \<longleftrightarrow> (\<exists>m. p x = Some (tag, m)))"

definition lock_inv :: "LockManager \<times> pending \<Rightarrow> bool" where
  "lock_inv s \<longleftrightarrow> (case s of (lm, p) \<Rightarrow>
     wf_lm lm \<and> holders_compatible lm \<and> queues_match lm p \<and> acyclic (wait_rel lm))"

lemma lock_invD:
  assumes "lock_inv (lm, p)"
  shows "wf_lm lm" "holders_compatible lm" "queues_match lm p" "acyclic (wait_rel lm)"
  using assms by (simp_all add: lock_inv_def)

lemma lock_invI:
  "wf_lm lm \<Longrightarrow> holders_compatible lm \<Longrightarrow> queues_match lm p \<Longrightarrow> acyclic (wait_rel lm) \<Longrightarrow> lock_inv (lm, p)"
  by (simp add: lock_inv_def)

text \<open>Two ways to extend an acyclic graph.\<close>

lemma acyclic_into_sink:
  assumes "acyclic r" "\<And>y. (t, y) \<notin> r'" "r' \<subseteq> r \<union> UNIV \<times> {t}"
  shows "acyclic r'"
proof -
  have no: "(t, y) \<notin> r'\<^sup>+" for y using assms(2) by (meson tranclD)
  have "(x, y) \<in> r\<^sup>+ \<or> y = t" if "(x, y) \<in> r'\<^sup>+" for x y
    using that
  proof (induction rule: trancl_induct)
    case (base y)
    then show ?case using assms(3) by auto
  next
    case (step y z)
    then show ?case using assms(2,3) by (blast intro: trancl_into_trancl)
  qed
  then show ?thesis using assms(1) no unfolding acyclic_def by blast
qed

lemma acyclic_from_source:
  assumes "acyclic r" "(t, t) \<notin> r'\<^sup>+" "r' \<subseteq> r \<union> {t} \<times> UNIV"
  shows "acyclic r'"
proof -
  have "(x, y) \<in> r\<^sup>+ \<or> ((x, t) \<in> r'\<^sup>* \<and> (t, y) \<in> r'\<^sup>+)" if "(x, y) \<in> r'\<^sup>+" for x y
    using that
  proof (induction rule: trancl_induct)
    case (base y)
    then show ?case using assms(3) by auto
  next
    case (step y z)
    then show ?case using assms(3) by (auto intro: trancl_into_trancl trancl_into_rtrancl)
  qed
  then show ?thesis
    using assms(1,2) unfolding acyclic_def by (meson rtrancl_trancl_trancl trancl_rtrancl_trancl)
qed

lemma compat_grant:
  assumes "wf_lm lm" "\<not> lock_conflict lm t tag m" "holders_compatible lm"
  shows "holders_compatible (grant lm t tag m)"
  unfolding holders_compatible_def
proof (intro allI impI, elim conjE)
  fix tag' t1 t2 m1 m2
  assume *: "t1 \<noteq> t2" "hmap (grant lm t tag m) tag' t1 = Some m1" "hmap (grant lm t tag m) tag' t2 = Some m2"
  have new: "t' \<noteq> t \<Longrightarrow> hmap lm tag t' = Some m' \<Longrightarrow> isCompatible m m'" for t' m'
    using assms(2) unfolding lock_conflict_iff [OF assms(1)] by blast
  have old: "t1' \<noteq> t2' \<Longrightarrow> hmap lm tg t1' = Some a \<Longrightarrow> hmap lm tg t2' = Some b \<Longrightarrow> isCompatible a b" for tg t1' t2' a b
    using assms(3) unfolding holders_compatible_def by blast
  show "isCompatible m1 m2"
    using * old [of t1 t2 tag' m1 m2] new [of t2 m2] new [of t1 m1] isCompatible_sym [of m1 m2]
    by (auto simp: hmap_grant split: if_splits)
qed

lemma grant_wait_rel:
  assumes "wf_lm lm"
  shows "wait_rel (grant lm t tag m) \<subseteq> wait_rel lm \<union> UNIV \<times> {t}"
  by (rule wait_rel_mono [OF assms wf_lm_ops(1) [OF assms]]) (auto simp: hmap_grant split: if_splits)

lemma idle_no_edges:
  assumes "wf_lm lm" "\<And>tag. t \<notin> set (waiters_of lm tag)"
  shows "(t, y) \<notin> wait_rel lm"
  using assms by (simp add: wait_rel_iff)

lemma queues_match_idle: "queues_match lm p \<Longrightarrow> p t = None \<Longrightarrow> t \<notin> set (waiters_of lm tag)"
  by (auto simp: queues_match_def)

lemma queues_match_cong: "waiters_of lm' = waiters_of lm \<Longrightarrow> queues_match lm p \<Longrightarrow> queues_match lm' p"
  by (simp add: queues_match_def)

lemma holders_compatible_cong: "hmap lm' = hmap lm \<Longrightarrow> holders_compatible lm \<Longrightarrow> holders_compatible lm'"
  by (simp add: holders_compatible_def)

lemma lock_inv_grant:
  assumes "lock_inv (lm, p)" "p t = None" "\<not> lock_conflict lm t tag m"
  shows "lock_inv (grant lm t tag m, p)"
proof -
  note i = lock_invD [OF assms(1)]
  have wf: "wf_lm (grant lm t tag m)" using wf_lm_ops(1) [OF i(1)] .
  have "(t, y) \<notin> wait_rel (grant lm t tag m)" for y
    using idle_no_edges [OF wf, of t y] queues_match_idle [OF i(3) assms(2)] by simp
  then have "acyclic (wait_rel (grant lm t tag m))"
    by (rule acyclic_into_sink [OF i(4) _ grant_wait_rel [OF i(1)]])
  moreover have "queues_match (grant lm t tag m) p" by (rule queues_match_cong [OF _ i(3)]) simp
  ultimately show ?thesis using wf compat_grant [OF i(1) assms(3) i(2)] by (intro lock_invI)
qed

lemma lock_inv_delete_holder:
  assumes "lock_inv (lm, p)"
  shows "lock_inv (delete_holder lm t tag, p)"
proof -
  note i = lock_invD [OF assms]
  have "wait_rel (delete_holder lm t tag) \<subseteq> wait_rel lm \<union> {}"
    by (rule wait_rel_mono [OF i(1) wf_lm_ops(2) [OF i(1)]]) (auto simp: hmap_delete_holder split: if_splits)
  then have "acyclic (wait_rel (delete_holder lm t tag))"
    using acyclic_subset [OF i(4)] by simp
  moreover have "hmap (delete_holder lm t tag) tg t' = Some m \<Longrightarrow> hmap lm tg t' = Some m" for tg t' m
    by (auto simp: hmap_delete_holder split: if_splits)
  then have "holders_compatible (delete_holder lm t tag)"
    using i(2) unfolding holders_compatible_def by blast
  moreover have "queues_match (delete_holder lm t tag) p" by (rule queues_match_cong [OF _ i(3)]) simp
  ultimately show ?thesis using wf_lm_ops(2) [OF i(1)] by (intro lock_invI)
qed

lemma lock_inv_wait:
  assumes "lock_inv (lm, p)" "p t = None" "hasDeadLock (enqueue lm t tag) t = Some False"
  shows "lock_inv (enqueue lm t tag, p(t \<mapsto> (tag, m)))"
proof -
  note i = lock_invD [OF assms(1)]
  have "wait_rel (enqueue lm t tag) \<subseteq> wait_rel lm \<union> {t} \<times> UNIV"
    by (rule wait_rel_mono [OF i(1) wf_lm_ops(3) [OF i(1)]]) (auto simp: waiters_of_enqueue split: if_splits)
  moreover have "(t, t) \<notin> (wait_rel (enqueue lm t tag))\<^sup>+" using assms(3) by (simp add: hasDeadLock_cycle)
  ultimately have "acyclic (wait_rel (enqueue lm t tag))" by (intro acyclic_from_source [OF i(4)])
  moreover have "queues_match (enqueue lm t tag) (p(t \<mapsto> (tag, m)))"
    using i(3) assms(2) queues_match_idle [OF i(3) assms(2)] by (auto simp: queues_match_def waiters_of_enqueue)
  ultimately show ?thesis
    using wf_lm_ops(3) [OF i(1)] holders_compatible_cong [OF _ i(2)] by (intro lock_invI) auto
qed

lemma lock_inv_remove:
  assumes "lock_inv (lm, p)" "p t = Some (tag, m)"
  shows "lock_inv (removeFromWaitQueue lm t tag, p(t := None))"
proof -
  note i = lock_invD [OF assms(1)]
  have sub: "set (waiters_of (removeFromWaitQueue lm t tag) tag') \<subseteq> set (waiters_of lm tag')" for tag'
    by (simp add: waiters_of_remove set_remove1_subset)
  have "wait_rel (removeFromWaitQueue lm t tag) \<subseteq> wait_rel lm \<union> {}"
    by (rule wait_rel_mono [OF i(1) wf_lm_ops(4) [OF i(1)]]) (use sub in auto)
  then have "acyclic (wait_rel (removeFromWaitQueue lm t tag))"
    using acyclic_subset [OF i(4)] by simp
  moreover have "queues_match (removeFromWaitQueue lm t tag) (p(t := None))"
    using i(3) assms(2) by (auto simp: queues_match_def waiters_of_remove)
  ultimately show ?thesis
    using wf_lm_ops(4) [OF i(1)] holders_compatible_cong [OF _ i(2)] by (intro lock_invI) auto
qed

text \<open>A request that is refused leaves the queues as they were.\<close>

lemma enqueue_remove_inv:
  assumes "lock_inv (lm, p)" "p t = None"
  shows "lock_inv (removeFromWaitQueue (enqueue lm t tag) t tag, p)"
proof -
  note i = lock_invD [OF assms(1)]
  let ?lm = "removeFromWaitQueue (enqueue lm t tag) t tag"
  have w: "waiters_of ?lm = waiters_of lm"
    using queues_match_idle [OF i(3) assms(2)] by (auto simp: fun_eq_iff waiters_of_remove waiters_of_enqueue remove1_append)
  have wf: "wf_lm ?lm" using wf_lm_ops i(1) by blast
  have "wait_rel ?lm \<subseteq> wait_rel lm \<union> {}" by (rule wait_rel_mono [OF i(1) wf]) (simp add: w)
  then have "acyclic (wait_rel ?lm)" using acyclic_subset [OF i(4)] by simp
  then show ?thesis
    using wf queues_match_cong [OF w i(3)] holders_compatible_cong [OF _ i(2), of ?lm] by (intro lock_invI) auto
qed

lemma Lock_begin_inv:
  assumes "lock_inv (lm, p)" "p t = None" "Lock_begin lm t tag m = Some (res, lm')"
  shows "lock_inv (lm', if res = LockWaits then p(t \<mapsto> (tag, m)) else p)"
proof (cases "map_of (holders_of lm tag) t = Some m")
  case True
  then show ?thesis using assms by (simp add: Lock_begin_def)
next
  case False
  define lm1 where "lm1 = (if map_of (holders_of lm tag) t \<noteq> None then delete_holder lm t tag else lm)"
  have inv1: "lock_inv (lm1, p)" using assms(1) lock_inv_delete_holder by (simp add: lm1_def)
  show ?thesis
  proof (cases "lock_conflict lm1 t tag m")
    case True
    then obtain dead where "hasDeadLock (enqueue lm1 t tag) t = Some dead"
      "(res, lm') = (if dead then (LockFailed DeadlockError, removeFromWaitQueue (enqueue lm1 t tag) t tag)
        else (LockWaits, enqueue lm1 t tag))"
      using assms(3) False unfolding Lock_begin_def Let_def lm1_def [symmetric]
      by (auto simp: bind_eq_Some_conv split: if_splits)
    then show ?thesis
      using lock_inv_wait [OF inv1 assms(2)] enqueue_remove_inv [OF inv1 assms(2)] by (cases dead) auto
  next
    case nc: False
    then have "res = LockGranted" "lm' = grant lm1 t tag m"
      using assms(3) False unfolding Lock_begin_def Let_def lm1_def [symmetric] by auto
    then show ?thesis using lock_inv_grant [OF inv1 assms(2) nc] by simp
  qed
qed

lemma lock_conflict_cong: "holders_of lm' = holders_of lm \<Longrightarrow> lock_conflict lm' = lock_conflict lm"
  by (simp add: lock_conflict_def fun_eq_iff)

lemma Lock_wake_inv:
  assumes "lock_inv (lm, p)" "p t = Some (tag, m)" "Lock_wake lm t tag m = (res, lm')"
  shows "lock_inv (lm', if res = LockWaits then p else p(t := None))"
proof (cases "lock_conflict lm t tag m")
  case True
  then show ?thesis using assms by (simp add: Lock_wake_def)
next
  case False
  have "lock_inv (removeFromWaitQueue lm t tag, p(t := None))" by (rule lock_inv_remove [OF assms(1,2)])
  then have "lock_inv (grant (removeFromWaitQueue lm t tag) t tag m, p(t := None))"
    using False lock_conflict_cong [of "removeFromWaitQueue lm t tag" lm] by (intro lock_inv_grant) auto
  then show ?thesis using assms(3) False by (simp add: Lock_wake_def)
qed

lemma Unlock_inv: "lock_inv (lm, p) \<Longrightarrow> Unlock lm t tag = (err, lm') \<Longrightarrow> lock_inv (lm', p)"
  by (auto simp: Unlock_def lock_inv_delete_holder split: option.splits if_splits)

lemma lock_step_inv: "lock_step s s' \<Longrightarrow> lock_inv s \<Longrightarrow> lock_inv s'"
  by (induction rule: lock_step.induct) (metis Lock_begin_inv, metis Lock_wake_inv, metis Unlock_inv)

lemma lock_inv_init: "lock_inv (NewLockManager, Map.empty)"
  by (simp add: lock_inv_def wf_lm_def NewLockManager_def holders_of_def holders_compatible_def hmap_def
      queues_match_def waiters_of_def wait_rel_def wait_edges_def acyclic_def)

lemma lock_reachable_inv: "lock_reachable s \<Longrightarrow> lock_inv s"
  by (induction rule: rtranclp_induct) (auto intro: lock_inv_init lock_step_inv)


text \<open>The compatibility matrix of multi-granularity locking, by what each mode permits.\<close>

fun std_compatible :: "DBLockMode \<Rightarrow> DBLockMode \<Rightarrow> bool" where
  "std_compatible LockModeX _ = False"
| "std_compatible _ LockModeX = False"
| "std_compatible LockModeIS _ = True"
| "std_compatible _ LockModeIS = True"
| "std_compatible LockModeIX m = (m = LockModeIX)"
| "std_compatible LockModeS m = (m = LockModeS)"
| "std_compatible LockModeSIX _ = False"

section \<open>Properties\<close>


definition sample_tag :: DBLockTag where
  "sample_tag = NewTableLockTag 1"

definition sample_lm :: LockManager where
  "sample_lm = \<lparr>locks = [(sample_tag, [(1, LockModeS), (2, LockModeS)])], waitqueue = []\<rparr>"

lemma sample_lm_reachable: "lock_reachable (sample_lm, Map.empty)"
proof -
  let ?lm1 = "\<lparr>locks = [(sample_tag, [(1, LockModeS)])], waitqueue = []\<rparr>"
  have "Lock_begin NewLockManager 1 sample_tag LockModeS = Some (LockGranted, ?lm1)"
    by (simp add: Lock_begin_def NewLockManager_def holders_of_def lock_conflict_def grant_def)
  then have 1: "lock_step (NewLockManager, Map.empty) (?lm1, Map.empty)"
    using request [of Map.empty 1 NewLockManager sample_tag LockModeS LockGranted ?lm1] by simp
  have "Lock_begin ?lm1 2 sample_tag LockModeS = Some (LockGranted, sample_lm)"
    by (simp add: Lock_begin_def holders_of_def lock_conflict_def grant_def isCompatible_def sample_lm_def)
  then have 2: "lock_step (?lm1, Map.empty) (sample_lm, Map.empty)"
    using request [of Map.empty 2 ?lm1 sample_tag LockModeS LockGranted sample_lm] by simp
  from 1 2 show ?thesis by (meson converse_rtranclp_into_rtranclp rtranclp.rtrancl_refl)
qed


text \<open>
  C27: in every reachable state the waits-for graph has no cycle, so no group of waiting
  transactions is deadlocked: in any nonempty set of waiting transactions one waits on a resource that no
  other transaction of the set holds.
\<close>

theorem deadlock_freedom:
  assumes "lock_reachable (lm, p)"
  shows "acyclic (wait_rel lm) \<and>
    (\<forall>S. S \<noteq> {} \<and> (\<forall>t \<in> S. p t \<noteq> None) \<longrightarrow>
       (\<exists>t \<in> S. \<forall>h. h \<noteq> t \<and> map_of (holders_of lm (fst (the (p t)))) h \<noteq> None \<longrightarrow> h \<notin> S))"
proof -
  note i = lock_invD [OF lock_reachable_inv [OF assms]]
  have wf: "wf ((wait_rel lm)\<inverse>)" using i(4) by (intro finite_acyclic_wf_converse) auto
  have "\<exists>t \<in> S. \<forall>h. h \<noteq> t \<and> map_of (holders_of lm (fst (the (p t)))) h \<noteq> None \<longrightarrow> h \<notin> S"
    if ne: "S \<noteq> {}" and waits: "\<forall>t \<in> S. p t \<noteq> None" for S
  proof -
    obtain t where t: "t \<in> S" "\<And>h. (t, h) \<in> wait_rel lm \<Longrightarrow> h \<notin> S"
      using wfE_min' [OF wf ne] by (metis converse_iff)
    obtain tag m where "p t = Some (tag, m)" using waits t(1) by fastforce
    then have "t \<in> set (waiters_of lm tag)" "fst (the (p t)) = tag" using i(3) by (auto simp: queues_match_def)
    then have "(t, h) \<in> wait_rel lm" if "h \<noteq> t" "map_of (holders_of lm (fst (the (p t)))) h \<noteq> None" for h
      using that wait_rel_iff [OF i(1)] unfolding hmap_def by blast
    then show ?thesis using t by blast
  qed
  then show ?thesis using i(4) by blast
qed

definition waiting_lm :: LockManager where
  "waiting_lm = \<lparr>locks = [(sample_tag, [(1, LockModeS), (2, LockModeS)])], waitqueue = [(sample_tag, [3])]\<rparr>"

theorem deadlock_freedom_witness:
  "acyclic (wait_rel waiting_lm) \<and>
   (\<exists>t \<in> {3}. \<forall>h. h \<noteq> t \<and> map_of (holders_of waiting_lm (fst (the ([3 \<mapsto> (sample_tag, LockModeX)] t)))) h \<noteq> None \<longrightarrow> h \<notin> {3})"
proof -
  have dead: "hasDeadLock waiting_lm 3 = Some False"
    by (simp add: hasDeadLock_def dfs_fuel_def waiting_lm_def wait_edges_def holders_of_def numeral_eq_Suc)
  have "enqueue sample_lm 3 sample_tag = waiting_lm"
    by (simp add: enqueue_def waiters_of_def sample_lm_def waiting_lm_def)
  then have "Lock_begin sample_lm 3 sample_tag LockModeX = Some (LockWaits, waiting_lm)"
    using dead by (simp add: Lock_begin_def holders_of_def lock_conflict_def isCompatible_def sample_lm_def)
  then have "lock_step (sample_lm, Map.empty) (waiting_lm, [3 \<mapsto> (sample_tag, LockModeX)])"
    using request [of Map.empty 3 sample_lm sample_tag LockModeX LockWaits waiting_lm] by simp
  then have r: "lock_reachable (waiting_lm, [3 \<mapsto> (sample_tag, LockModeX)])"
    using sample_lm_reachable by (simp add: rtranclp.rtrancl_into_rtrancl)
  show ?thesis using deadlock_freedom [OF r] by (elim conjE allE [of _ "{3}"]) simp
qed

text \<open>
  C29: the depth-first search always ends, and reports a deadlock for a transaction exactly when the
  waits-for graph has a cycle through it, whatever the order in which the maps are visited.
\<close>

theorem hasDeadLock_exact:
  "hasDeadLock lm t = Some ((t, t) \<in> (wait_rel lm)\<^sup>+)"
  by (rule hasDeadLock_cycle)

text \<open>
  An upgrade gives up the lock it starts from before it waits. With two readers of a
  resource, the second asks for an exclusive lock and has to wait for the first; its shared lock is gone,
  and the first reader's own upgrade is granted at once, although the second never released.
\<close>

theorem upgrade_drops_shared_lock:
  "\<exists>lm1 lm2. Lock_begin sample_lm 2 sample_tag LockModeX = Some (LockWaits, lm1) \<and>
     map_of (holders_of lm1 sample_tag) 2 = None \<and>
     Lock_begin lm1 1 sample_tag LockModeX = Some (LockGranted, lm2) \<and>
     map_of (holders_of lm2 sample_tag) 1 = Some LockModeX"
proof -
  let ?lm1 = "\<lparr>locks = [(sample_tag, [(1, LockModeS)])], waitqueue = [(sample_tag, [2])]\<rparr>"
  have dead: "hasDeadLock ?lm1 2 = Some False"
    by (simp add: hasDeadLock_def dfs_fuel_def wait_edges_def holders_of_def numeral_eq_Suc)
  have del: "delete_holder sample_lm 2 sample_tag = \<lparr>locks = [(sample_tag, [(1, LockModeS)])], waitqueue = []\<rparr>"
    by (simp add: delete_holder_def sample_lm_def holders_of_def AList.delete_eq)
  have 1: "Lock_begin sample_lm 2 sample_tag LockModeX = Some (LockWaits, ?lm1)"
    using dead unfolding Lock_begin_def del
    by (simp add: holders_of_def lock_conflict_def isCompatible_def enqueue_def waiters_of_def)
       (simp add: sample_lm_def)
  have 2: "Lock_begin ?lm1 1 sample_tag LockModeX =
      Some (LockGranted, \<lparr>locks = [(sample_tag, [(1, LockModeX)])], waitqueue = [(sample_tag, [2])]\<rparr>)"
    by (simp add: Lock_begin_def holders_of_def lock_conflict_def delete_holder_def grant_def AList.delete_eq)
  show ?thesis using 1 2 by (auto simp: holders_of_def)
qed

text \<open>
  The compatibility test is symmetric and agrees with the standard matrix on every pair of modes
  but one: it also lets a shared lock and a shared-intent-exclusive lock be held together.
\<close>

theorem isCompatible_matrix:
  "isCompatible a b = isCompatible b a \<and>
   (isCompatible a b \<longleftrightarrow> std_compatible a b \<or> {a, b} = {LockModeS, LockModeSIX})"
  by (cases a; cases b) (auto simp: isCompatible_def)

end
