(* ===== verification/Transaction_Context.thy ===== *)
theory Transaction_Context
  imports Logging_Memory Transaction_Lock
begin

text \<open>
  The state of one transaction (\<open>transaction/transaction_context.go\<close>, \<open>transaction/index_task.go\<close>): the
  buffer of its log records, the locks it holds and the index tasks it defers, and the task loops of
  \<open>Commit\<close> and \<open>Abort\<close> (\<open>transaction/transaction_manager.go\<close>; the rest of that file is not implemented
  in the source).

  The index a task refers to is a parameter of the task type, and what \<open>Invoke\<close> does to it is an
  argument of the loops. \<open>AcquireLock\<close> is split, as \<open>Lock\<close> is, at the point where it may sleep. The
  Go map \<open>heldLocks\<close> is an association list in the order of its iteration.
\<close>

section \<open>The buffer of log records\<close>

record logRecordBuffer =
  lb_buffer :: bytes
  lb_offsets :: "nat list"

definition newLogRecordBuffer :: logRecordBuffer where
  "newLogRecordBuffer = \<lparr>lb_buffer = [], lb_offsets = []\<rparr>"

text \<open>The new buffer, and the position of the reserved slice, which extends to the end of the buffer.\<close>

definition allocate :: "logRecordBuffer \<Rightarrow> nat \<Rightarrow> logRecordBuffer \<times> nat" where
  "allocate s totalSize =
     (let off = length (lb_buffer s) in
      (\<lparr>lb_buffer = lb_buffer s @ replicate totalSize 0, lb_offsets = lb_offsets s @ [off]\<rparr>, off))"

definition logRecordBuffer_len :: "logRecordBuffer \<Rightarrow> nat" where
  "logRecordBuffer_len s = length (lb_offsets s)"

definition logRecordBuffer_get :: "logRecordBuffer \<Rightarrow> nat \<Rightarrow> LogRecord option" where
  "logRecordBuffer_get s i = do {
     start \<leftarrow> idx (lb_offsets s) i;
     let stop = (if Suc i = length (lb_offsets s) then length (lb_buffer s) else 0);
     stop \<leftarrow> (if Suc i < length (lb_offsets s) then idx (lb_offsets s) (i + 1) else Some stop);
     d \<leftarrow> slice (lb_buffer s) start stop;
     Some (AsLogRecord d)
   }"

definition pop :: "logRecordBuffer \<Rightarrow> logRecordBuffer option" where
  "pop s =
     (if length (lb_offsets s) = 0 then Some s
      else do {
        off \<leftarrow> idx (lb_offsets s) (length (lb_offsets s) - 1);
        b \<leftarrow> slice (lb_buffer s) 0 off;
        os \<leftarrow> slice (lb_offsets s) 0 (length (lb_offsets s) - 1);
        Some \<lparr>lb_buffer = b, lb_offsets = os\<rparr>
      })"

definition logRecordBuffer_reset :: "logRecordBuffer \<Rightarrow> logRecordBuffer" where
  "logRecordBuffer_reset s = s\<lparr>lb_buffer := [], lb_offsets := []\<rparr>"

section \<open>The context\<close>

datatype IndexOpType = IndexOpUndoInsert | IndexOpDelete

record 'i IndexTask =
  it_Target :: 'i
  it_Type :: IndexOpType
  it_Key :: bytes
  it_RID :: RecordID

record 'i TransactionContext =
  txn_id :: TransactionID
  logRecords :: logRecordBuffer
  heldLocks :: "(DBLockTag \<times> DBLockMode) list"
  abortActions :: "'i IndexTask list"
  commitActions :: "'i IndexTask list"

definition AddAbortTask :: "'i IndexTask \<Rightarrow> 'i TransactionContext \<Rightarrow> 'i TransactionContext" where
  "AddAbortTask task txn = txn\<lparr>abortActions := abortActions txn @ [task]\<rparr>"

definition AddCommitTask :: "'i IndexTask \<Rightarrow> 'i TransactionContext \<Rightarrow> 'i TransactionContext" where
  "AddCommitTask task txn = txn\<lparr>commitActions := commitActions txn @ [task]\<rparr>"

text \<open>The re-entrancy tests of \<open>AcquireLock\<close>: the held mode already gives the requested one.\<close>

definition lock_covered :: "DBLockMode option \<Rightarrow> DBLockMode \<Rightarrow> bool" where
  "lock_covered held mode =
     (case held of
        None \<Rightarrow> False
      | Some currentMode \<Rightarrow>
          currentMode = LockModeX \<or>
          currentMode = LockModeSIX \<and> (mode = LockModeS \<or> mode = LockModeIS \<or> mode = LockModeIX) \<or>
          currentMode = LockModeS \<and> mode = LockModeIS \<or>
          currentMode = LockModeIX \<and> mode = LockModeIS)"

definition record_held :: "DBLockTag \<Rightarrow> DBLockMode \<Rightarrow> lock_result \<Rightarrow> 'i TransactionContext \<Rightarrow> 'i TransactionContext" where
  "record_held tag mode res txn =
     (if res = LockGranted then txn\<lparr>heldLocks := AList.update tag mode (heldLocks txn)\<rparr> else txn)"

definition AcquireLock :: "'i TransactionContext \<Rightarrow> LockManager \<Rightarrow> DBLockTag \<Rightarrow> DBLockMode \<Rightarrow>
    (lock_result \<times> 'i TransactionContext \<times> LockManager) option" where
  "AcquireLock txn lm tag mode =
     (if lock_covered (map_of (heldLocks txn) tag) mode then Some (LockGranted, txn, lm)
      else do {
        (res, lm) \<leftarrow> Lock_begin lm (txn_id txn) tag mode;
        Some (res, record_held tag mode res txn, lm)
      })"

definition AcquireLock_wake :: "'i TransactionContext \<Rightarrow> LockManager \<Rightarrow> DBLockTag \<Rightarrow> DBLockMode \<Rightarrow>
    lock_result \<times> 'i TransactionContext \<times> LockManager" where
  "AcquireLock_wake txn lm tag mode =
     (let (res, lm) = Lock_wake lm (txn_id txn) tag mode in (res, record_held tag mode res txn, lm))"

definition HeldLock :: "'i TransactionContext \<Rightarrow> DBLockTag \<Rightarrow> DBLockMode option" where
  "HeldLock txn tag = map_of (heldLocks txn) tag"

primrec unlock_all :: "TransactionID \<Rightarrow> DBLockTag list \<Rightarrow> LockManager \<Rightarrow> LockManager" where
  "unlock_all tid [] lm = lm"
| "unlock_all tid (tag # tags) lm = unlock_all tid tags (snd (Unlock lm tid tag))"

definition ReleaseAllLocks :: "'i TransactionContext \<Rightarrow> LockManager \<Rightarrow> 'i TransactionContext \<times> LockManager" where
  "ReleaseAllLocks txn lm = (txn\<lparr>heldLocks := []\<rparr>, unlock_all (txn_id txn) (map fst (heldLocks txn)) lm)"

definition TransactionContext_Reset :: "TransactionID \<Rightarrow> 'i TransactionContext \<Rightarrow> 'i TransactionContext" where
  "TransactionContext_Reset i txn =
     txn\<lparr>txn_id := i, logRecords := logRecordBuffer_reset (logRecords txn), heldLocks := [],
       abortActions := [], commitActions := []\<rparr>"

definition NewTestTransactionContext :: "TransactionID \<Rightarrow> 'i TransactionContext" where
  "NewTestTransactionContext i = \<lparr>txn_id = i, logRecords = newLogRecordBuffer, heldLocks = [],
     abortActions = [], commitActions = []\<rparr>"

section \<open>Building records in the buffer\<close>

text \<open>\<open>buf := txn.logRecords.allocate(n)\<close> followed by a constructor that writes into \<open>buf\<close>.\<close>

definition build_record :: "nat \<Rightarrow> (bytes \<Rightarrow> LogRecord option) \<Rightarrow> 'i TransactionContext \<Rightarrow>
    (LogRecord \<times> 'i TransactionContext) option" where
  "build_record n mk txn = do {
     let (s, off) = allocate (logRecords txn) n;
     buf \<leftarrow> slice_from (lb_buffer s) off;
     r \<leftarrow> mk buf;
     Some (r, txn\<lparr>logRecords := s\<lparr>lb_buffer := blit off (lr_data r) (lb_buffer s)\<rparr>\<rparr>)
   }"

definition Txn_NewBeginTransactionRecord :: "'i TransactionContext \<Rightarrow> (LogRecord \<times> 'i TransactionContext) option" where
  "Txn_NewBeginTransactionRecord txn =
     build_record BeginTransactionRecordSize (\<lambda>buf. NewBeginTransactionRecord buf (txn_id txn)) txn"

definition Txn_NewCommitRecord :: "'i TransactionContext \<Rightarrow> (LogRecord \<times> 'i TransactionContext) option" where
  "Txn_NewCommitRecord txn = build_record CommitRecordSize (\<lambda>buf. NewCommitRecord buf (txn_id txn)) txn"

definition Txn_NewAbortRecord :: "'i TransactionContext \<Rightarrow> (LogRecord \<times> 'i TransactionContext) option" where
  "Txn_NewAbortRecord txn = build_record AbortRecordSize (\<lambda>buf. NewAbortRecord buf (txn_id txn)) txn"

definition Txn_NewInsertCLR :: "LogRecord \<Rightarrow> 'i TransactionContext \<Rightarrow> (LogRecord \<times> 'i TransactionContext) option" where
  "Txn_NewInsertCLR r txn = build_record InsertCLRSize (\<lambda>buf. NewInsertCLR buf r) txn"

definition Txn_NewInsertRecord :: "RecordID \<Rightarrow> bytes \<Rightarrow> 'i TransactionContext \<Rightarrow> (LogRecord \<times> 'i TransactionContext) option" where
  "Txn_NewInsertRecord rid r txn =
     build_record (InsertRecordSize r) (\<lambda>buf. NewInsertRecord buf (txn_id txn) rid r) txn"

definition Txn_NewDeleteCLR :: "LogRecord \<Rightarrow> 'i TransactionContext \<Rightarrow> (LogRecord \<times> 'i TransactionContext) option" where
  "Txn_NewDeleteCLR r txn = build_record DeleteCLRSize (\<lambda>buf. NewDeleteCLR buf r) txn"

definition Txn_NewDeleteRecord :: "RecordID \<Rightarrow> 'i TransactionContext \<Rightarrow> (LogRecord \<times> 'i TransactionContext) option" where
  "Txn_NewDeleteRecord rid txn =
     build_record DeleteRecordSize (\<lambda>buf. NewDeleteRecord buf (txn_id txn) rid) txn"

definition Txn_NewUpdateCLR :: "LogRecord \<Rightarrow> 'i TransactionContext \<Rightarrow> (LogRecord \<times> 'i TransactionContext) option" where
  "Txn_NewUpdateCLR r txn = do {
     n \<leftarrow> UpdateCLRSize r;
     build_record n (\<lambda>buf. NewUpdateCLR buf r) txn
   }"

definition Txn_NewUpdateRecord :: "RecordID \<Rightarrow> bytes \<Rightarrow> bytes \<Rightarrow> 'i TransactionContext \<Rightarrow>
    (LogRecord \<times> 'i TransactionContext) option" where
  "Txn_NewUpdateRecord rid before after txn = do {
     n \<leftarrow> UpdateRecordSize before after;
     build_record n (\<lambda>buf. NewUpdateRecord buf (txn_id txn) rid before after) txn
   }"

section \<open>The end of a transaction\<close>

definition Commit :: "('i IndexTask \<Rightarrow> 'w \<Rightarrow> 'w) \<Rightarrow> 'i TransactionContext \<Rightarrow> 'w \<Rightarrow> 'w" where
  "Commit Invoke txn w = fold Invoke (commitActions txn) w"

definition Abort :: "('i IndexTask \<Rightarrow> 'w \<Rightarrow> 'w) \<Rightarrow> 'i TransactionContext \<Rightarrow> 'w \<Rightarrow> 'w" where
  "Abort Invoke txn w = fold Invoke (rev (abortActions txn)) w"

section \<open>The buffer as a sequence of records\<close>

definition lb_rep :: "logRecordBuffer \<Rightarrow> bytes list \<Rightarrow> bool" where
  "lb_rep s rs \<longleftrightarrow> lb_buffer s = concat rs \<and> lb_offsets s = offs rs"

interpretation lb: record_log lb_rep logRecordBuffer_len logRecordBuffer_get
proof unfold_locales
  fix s rs i
  assume rep: "lb_rep s rs"
  then show "logRecordBuffer_len s = length rs" by (simp add: logRecordBuffer_len_def lb_rep_def)
  assume i: "i < length rs"
  let ?o = "length (concat (take i rs))"
  have le: "?o + length (rs ! i) \<le> length (concat rs)"
    using concat_take_Suc [OF i] by (metis append_take_drop_id concat_append le_add1 length_append)
  have "logRecordBuffer_get s i = slice (concat rs) ?o (?o + length (rs ! i)) \<bind> (\<lambda>d. Some (AsLogRecord d))"
  proof (cases "Suc i = length rs")
    case True
    then have "length (concat rs) = ?o + length (rs ! i)" using concat_take_Suc [OF i] by simp
    then show ?thesis using True rep i by (simp add: logRecordBuffer_get_def lb_rep_def offs_nth)
  next
    case False
    then show ?thesis using rep i concat_take_Suc [OF i] by (simp add: logRecordBuffer_get_def lb_rep_def offs_nth)
  qed
  then show "logRecordBuffer_get s i = Some (AsLogRecord (rs ! i))"
    using le take_drop_concat [OF i] by (simp add: slice_def)
qed

lemma allocate_rep:
  "lb_rep s rs \<Longrightarrow> allocate s n = (s', off) \<Longrightarrow> lb_rep s' (rs @ [replicate n 0]) \<and> off = length (concat rs)"
  by (auto simp: allocate_def lb_rep_def offs_snoc Let_def)

lemma pop_rep: "lb_rep s (rs @ [r]) \<Longrightarrow> \<exists>s'. pop s = Some s' \<and> lb_rep s' rs"
  by (auto simp: pop_def lb_rep_def offs_snoc slice_def nth_append)

lemma build_record_rep:
  assumes "lb_rep (logRecords txn) rs" "mk (replicate n 0) = Some r" "length (lr_data r) = n"
  shows "\<exists>txn'. build_record n mk txn = Some (r, txn') \<and> lb_rep (logRecords txn') (rs @ [lr_data r]) \<and>
    txn_id txn' = txn_id txn \<and> heldLocks txn' = heldLocks txn"
proof -
  have buf: "lb_buffer (logRecords txn) = concat rs" "lb_offsets (logRecords txn) = offs rs"
    using assms(1) by (auto simp: lb_rep_def)
  have "blit (length (concat rs)) (lr_data r) (concat rs @ replicate n 0) = concat rs @ lr_data r"
    using assms(3) by (simp add: blit_def)
  then show ?thesis
    using assms(2) by (simp add: build_record_def allocate_def buf slice_from_def lb_rep_def offs_snoc Let_def)
qed


section \<open>Locks of a transaction\<close>

definition locks_synced :: "'i TransactionContext \<Rightarrow> LockManager \<Rightarrow> bool" where
  "locks_synced txn lm \<longleftrightarrow> (\<forall>tag. map_of (heldLocks txn) tag = hmap lm tag (txn_id txn))"

fun at_least :: "DBLockMode \<Rightarrow> DBLockMode \<Rightarrow> bool" where
  "at_least LockModeX m = True"
| "at_least LockModeSIX m = (m \<noteq> LockModeX)"
| "at_least LockModeS m = (m \<in> {LockModeS, LockModeIS})"
| "at_least LockModeIX m = (m \<in> {LockModeIX, LockModeIS})"
| "at_least LockModeIS m = (m = LockModeIS)"

lemma lock_covered_at_least: "lock_covered (Some m) mode \<Longrightarrow> at_least m mode"
  by (cases m) (auto simp: lock_covered_def)

lemma at_least_refl: "at_least m m"
  by (cases m) auto

lemma Lock_begin_hmap:
  assumes "Lock_begin lm tid tag mode = Some (res, lm')"
  shows "(res = LockGranted \<longrightarrow> hmap lm' = (hmap lm)(tag := (hmap lm tag)(tid \<mapsto> mode))) \<and>
    (res \<noteq> LockGranted \<longrightarrow> hmap lm' = (hmap lm)(tag := (hmap lm tag)(tid := None))) \<and>
    (\<forall>e. res = LockFailed e \<longrightarrow> e = DeadlockError)"
proof (cases "map_of (holders_of lm tag) tid = Some mode")
  case True
  then show ?thesis using assms by (auto simp: Lock_begin_def hmap_def fun_eq_iff)
next
  case False
  define lm1 where "lm1 = (if map_of (holders_of lm tag) tid \<noteq> None then delete_holder lm tid tag else lm)"
  have h1: "hmap lm1 = (hmap lm)(tag := (hmap lm tag)(tid := None))"
    by (auto simp: lm1_def hmap_delete_holder) (auto simp: hmap_def fun_eq_iff)
  show ?thesis
    using assms False unfolding Lock_begin_def Let_def lm1_def [symmetric]
    by (auto simp: bind_eq_Some_conv h1 hmap_grant split: if_splits)
qed

lemma hmap_Unlock: "hmap (snd (Unlock lm tid tag)) = (hmap lm)(tag := (hmap lm tag)(tid := None))"
proof (cases "hmap lm tag tid")
  case None
  then have "snd (Unlock lm tid tag) = lm"
    by (auto simp: Unlock_def hmap_def holders_of_def split: option.splits)
  then show ?thesis using None by (auto simp: fun_eq_iff)
next
  case (Some m)
  then have "snd (Unlock lm tid tag) = delete_holder lm tid tag"
    by (auto simp: Unlock_def hmap_def holders_of_def split: option.splits)
  then show ?thesis by (simp add: hmap_delete_holder)
qed

lemma hmap_unlock_all:
  "hmap (unlock_all tid tags lm) tag t = (if t = tid \<and> tag \<in> set tags then None else hmap lm tag t)"
  by (induction tags arbitrary: lm) (auto simp: hmap_Unlock)

section \<open>Waiting for a lock\<close>

text \<open>The steps of the lock manager, by any transaction, while one of them sleeps in its request.\<close>

definition sleeps :: "TransactionID \<Rightarrow> DBLockTag \<Rightarrow> DBLockMode \<Rightarrow> LockManager \<times> pending \<Rightarrow> LockManager \<times> pending \<Rightarrow> bool" where
  "sleeps tid tag mode = (\<lambda>s s'. lock_step s s' \<and> snd s' tid = Some (tag, mode))\<^sup>*\<^sup>*"

lemma Lock_wake_hmap:
  "Lock_wake lm tid tag mode =
     (if lock_conflict lm tid tag mode then (LockWaits, lm) else (LockGranted, grant (removeFromWaitQueue lm tid tag) tid tag mode))"
  "hmap (grant (removeFromWaitQueue lm tid tag) tid tag mode) = (hmap lm)(tag := (hmap lm tag)(tid \<mapsto> mode))"
  by (simp_all add: Lock_wake_def hmap_grant)

text \<open>A sleeping transaction neither gets nor loses a lock.\<close>

lemma lock_step_asleep:
  assumes "lock_step (lm, p) (lm', p')" "p tid = Some (tag, mode)" "p' tid = Some (tag, mode)"
  shows "hmap lm' tag' tid = hmap lm tag' tid"
  using assms(1)
proof (cases rule: lock_step.cases)
  case (request t tag1 m res)
  then have "t \<noteq> tid" using assms(2) by auto
  then show ?thesis using Lock_begin_hmap [OF request(3)] by (cases "res = LockGranted") simp_all
next
  case (wake t tag1 m res)
  then have "t \<noteq> tid \<or> res = LockWaits" using assms(3) by (auto split: if_splits)
  then show ?thesis using wake(3) Lock_wake_hmap(2) [of lm t tag1 m]
    by (auto simp: Lock_wake_hmap(1) split: if_splits)
next
  case (unlock t tag1 err)
  then have "t \<noteq> tid" using assms(2) by auto
  moreover have "lm' = snd (Unlock lm t tag1)" using unlock(3) by simp
  ultimately show ?thesis by (simp add: hmap_Unlock)
qed

lemma sleeps_hmap:
  assumes "sleeps tid tag mode (lm, p) (lm', p')" "p tid = Some (tag, mode)"
  shows "p' tid = Some (tag, mode) \<and> (\<forall>tag'. hmap lm' tag' tid = hmap lm tag' tid)"
  using assms unfolding sleeps_def
proof (induction rule: rtranclp_induct2)
  case (step lm1 p1 lm2 p2)
  then show ?case using lock_step_asleep [of lm1 p1 lm2 p2 tid tag mode] by simp
qed simp

section \<open>Properties\<close>

text \<open>
  C33: when a transaction's table of held locks agrees with the lock manager, a granted
  \<open>AcquireLock\<close> leaves them in agreement, holding a mode at least as strong as the one asked for and no
  other lock changed. A refused one reports a deadlock and leaves the table as it was; the
  agreement is kept exactly when the transaction held no lock on that resource before.
  If the request has to wait, then after any steps of the other transactions, and of its own that still have to wait, a
  wake-up that finds no conflicting lock is granted: the table and the lock manager agree again, both with the mode that was
  asked for, and no other lock has changed by it; a wake-up that finds one changes nothing.
\<close>

theorem AcquireLock_synced:
  assumes "locks_synced txn lm" "AcquireLock txn lm tag mode = Some (res, txn', lm')"
  shows "txn_id txn' = txn_id txn \<and>
    (\<forall>tag' t. (tag', t) \<noteq> (tag, txn_id txn) \<longrightarrow> hmap lm' tag' t = hmap lm tag' t) \<and>
    (case res of
       LockGranted \<Rightarrow> locks_synced txn' lm' \<and>
         (\<exists>m. HeldLock txn' tag = Some m \<and> at_least m mode)
     | LockFailed e \<Rightarrow> e = DeadlockError \<and> heldLocks txn' = heldLocks txn \<and>
         (locks_synced txn' lm' \<longleftrightarrow> HeldLock txn tag = None)
     | LockWaits \<Rightarrow> heldLocks txn' = heldLocks txn \<and>
         (\<forall>p lm1 p1 res2 txn2 lm2. sleeps (txn_id txn) tag mode (lm', p(txn_id txn \<mapsto> (tag, mode))) (lm1, p1) \<longrightarrow>
            AcquireLock_wake txn' lm1 tag mode = (res2, txn2, lm2) \<longrightarrow>
            (if lock_conflict lm1 (txn_id txn) tag mode then res2 = LockWaits \<and> txn2 = txn' \<and> lm2 = lm1
             else res2 = LockGranted \<and> txn_id txn2 = txn_id txn \<and> locks_synced txn2 lm2 \<and> HeldLock txn2 tag = Some mode \<and>
               (\<forall>tag' t. (tag', t) \<noteq> (tag, txn_id txn) \<longrightarrow> hmap lm2 tag' t = hmap lm1 tag' t))))"
proof (cases "lock_covered (map_of (heldLocks txn) tag) mode")
  case True
  then obtain m where "map_of (heldLocks txn) tag = Some m" "at_least m mode"
    using lock_covered_at_least by (cases "map_of (heldLocks txn) tag") (auto simp: lock_covered_def)
  then show ?thesis using assms True by (auto simp: AcquireLock_def HeldLock_def)
next
  case False
  then have b: "Lock_begin lm (txn_id txn) tag mode = Some (res, lm')" and t: "txn' = record_held tag mode res txn"
    using assms(2) by (auto simp: AcquireLock_def bind_eq_Some_conv)
  note h = Lock_begin_hmap [OF b]
  have s: "map_of (heldLocks txn) tag' = hmap lm tag' (txn_id txn)" for tag'
    using assms(1) by (simp add: locks_synced_def)
  show ?thesis
  proof (cases res)
    case LockGranted
    then show ?thesis
      using h s at_least_refl by (auto simp: t record_held_def locks_synced_def HeldLock_def update_conv')
  next
    case (LockFailed e)
    then show ?thesis using h s by (auto simp: t record_held_def locks_synced_def HeldLock_def)
  next
    case LockWaits
    then have t': "txn' = txn" and h': "hmap lm' = (hmap lm)(tag := (hmap lm tag)(txn_id txn := None))" using h by (simp_all add: t record_held_def)
    have "locks_synced (txn\<lparr>heldLocks := AList.update tag mode (heldLocks txn)\<rparr>) (grant (removeFromWaitQueue lm1 (txn_id txn) tag) (txn_id txn) tag mode)"
      if "sleeps (txn_id txn) tag mode (lm', p(txn_id txn \<mapsto> (tag, mode))) (lm1, p1)" for p lm1 p1
      using sleeps_hmap [OF that] s by (simp add: locks_synced_def update_conv' Lock_wake_hmap(2) h')
    then show ?thesis using LockWaits unfolding t'
      by (auto simp: h' AcquireLock_wake_def Lock_wake_hmap record_held_def HeldLock_def update_conv')
  qed
qed

text \<open>A request for an exclusive lock that waits for two readers and is granted when both have gone.\<close>

lemma waiting_request:
  "AcquireLock (NewTestTransactionContext 3 :: unit TransactionContext) sample_lm sample_tag LockModeX =
     Some (LockWaits, NewTestTransactionContext 3, waiting_lm)"
proof -
  have "hasDeadLock waiting_lm 3 = Some False"
    by (simp add: hasDeadLock_def dfs_fuel_def waiting_lm_def wait_edges_def holders_of_def numeral_eq_Suc)
  moreover have "enqueue sample_lm 3 sample_tag = waiting_lm" by (simp add: enqueue_def waiters_of_def sample_lm_def waiting_lm_def)
  ultimately have "Lock_begin sample_lm 3 sample_tag LockModeX = Some (LockWaits, waiting_lm)"
    by (simp add: Lock_begin_def holders_of_def lock_conflict_def isCompatible_def sample_lm_def)
  then show ?thesis by (simp add: AcquireLock_def NewTestTransactionContext_def lock_covered_def record_held_def)
qed

definition readers_gone :: LockManager where
  "readers_gone = snd (Unlock (snd (Unlock waiting_lm 1 sample_tag)) 2 sample_tag)"

lemma readers_gone_sleeps: "sleeps 3 sample_tag LockModeX (waiting_lm, [3 \<mapsto> (sample_tag, LockModeX)]) (readers_gone, [3 \<mapsto> (sample_tag, LockModeX)])"
proof -
  let ?p = "[3 \<mapsto> (sample_tag, LockModeX)] :: pending" and ?lm = "snd (Unlock waiting_lm 1 sample_tag)"
  have "lock_step (lm, ?p) (snd (Unlock lm t sample_tag), ?p)" if "t \<noteq> 3" for lm t
    using unlock [of ?p t lm sample_tag "fst (Unlock lm t sample_tag)"] that by simp
  from this [of 1 waiting_lm] this [of 2 ?lm] show ?thesis unfolding sleeps_def readers_gone_def
    by (intro rtranclp.rtrancl_into_rtrancl [OF rtranclp.rtrancl_into_rtrancl [OF rtranclp.rtrancl_refl]]) simp_all
qed

theorem AcquireLock_synced_witness:
  "\<exists>txn lm. AcquireLock_wake (NewTestTransactionContext 3 :: unit TransactionContext) readers_gone sample_tag LockModeX =
      (LockGranted, txn, lm) \<and> locks_synced txn lm \<and> HeldLock txn sample_tag = Some LockModeX"
proof -
  let ?t = "NewTestTransactionContext 3 :: unit TransactionContext"
  have s: "locks_synced ?t sample_lm"
    by (simp add: locks_synced_def NewTestTransactionContext_def hmap_def holders_of_def sample_lm_def)
  have i: "txn_id ?t = 3" by (simp add: NewTestTransactionContext_def)
  have "\<not> lock_conflict readers_gone 3 sample_tag LockModeX"
    by (simp add: readers_gone_def Unlock_def waiting_lm_def delete_holder_def holders_of_def lock_conflict_def)
  then show ?thesis using AcquireLock_synced [OF s waiting_request] readers_gone_sleeps unfolding i
    by (cases "AcquireLock_wake ?t readers_gone sample_tag LockModeX") fastforce
qed

text \<open>
  \<open>ReleaseAllLocks\<close> of a transaction whose table agrees with the lock manager leaves it without
  any lock, and the locks of every other transaction as they were.
\<close>

theorem ReleaseAllLocks_none_left:
  assumes "locks_synced txn lm" "ReleaseAllLocks txn lm = (txn', lm')"
  shows "heldLocks txn' = [] \<and> locks_synced txn' lm' \<and>
    (\<forall>tag t. hmap lm' tag t = (if t = txn_id txn then None else hmap lm tag t))"
proof -
  have lm': "lm' = unlock_all (txn_id txn) (map fst (heldLocks txn)) lm" and t: "txn' = txn\<lparr>heldLocks := []\<rparr>"
    using assms(2) by (auto simp: ReleaseAllLocks_def)
  have "tag \<notin> fst ` set (heldLocks txn) \<Longrightarrow> hmap lm tag (txn_id txn) = None" for tag
    using assms(1) by (metis locks_synced_def map_of_eq_None_iff)
  then have "hmap lm' tag t = (if t = txn_id txn then None else hmap lm tag t)" for tag t
    by (auto simp: lm' hmap_unlock_all)
  then show ?thesis by (simp add: t locks_synced_def)
qed

theorem ReleaseAllLocks_none_left_witness:
  "\<exists>txn' lm'. ReleaseAllLocks ((NewTestTransactionContext 1 :: unit TransactionContext)\<lparr>heldLocks := [(sample_tag, LockModeS)]\<rparr>)
      sample_lm = (txn', lm') \<and> heldLocks txn' = [] \<and> hmap lm' sample_tag 1 = None \<and> hmap lm' sample_tag 2 = Some LockModeS"
proof -
  let ?txn = "(NewTestTransactionContext 1 :: unit TransactionContext)\<lparr>heldLocks := [(sample_tag, LockModeS)]\<rparr>"
  have s: "locks_synced ?txn sample_lm"
    by (simp add: locks_synced_def NewTestTransactionContext_def hmap_def holders_of_def sample_lm_def)
  obtain txn' lm' where r: "ReleaseAllLocks ?txn sample_lm = (txn', lm')" by fastforce
  have "hmap sample_lm sample_tag 2 = Some LockModeS" "txn_id ?txn = 1"
    by (simp_all add: hmap_def holders_of_def sample_lm_def NewTestTransactionContext_def)
  then show ?thesis using r ReleaseAllLocks_none_left [OF s r] by auto
qed

text \<open>
  The log records of a transaction form a stack. An update record and then its compensation
  record, built through the context, are appended to the records already there, which do not change;
  both name the transaction, the compensation restores the before image, and popping twice gives back
  the records from before.
\<close>

theorem txn_records_stack:
  assumes "lb_rep (logRecords txn) rs" "length before = length after"
  shows "\<exists>u txn1 c txn2 s1 s2.
    Txn_NewUpdateRecord rid before after txn = Some (u, txn1) \<and> Txn_NewUpdateCLR u txn1 = Some (c, txn2) \<and>
    lb_rep (logRecords txn2) (rs @ [lr_data u, lr_data c]) \<and>
    (\<forall>i < length rs. logRecordBuffer_get (logRecords txn2) i = logRecordBuffer_get (logRecords txn) i) \<and>
    TxnID u = Some (txn_id txn) \<and> TxnID c = Some (txn_id txn) \<and> BeforeImage u = Some before \<and>
    AfterImage c = Some before \<and> LogRecord_RID c = Some rid \<and>
    pop (logRecords txn2) = Some s1 \<and> pop s1 = Some s2 \<and> lb_rep s2 rs"
proof -
  obtain n where n: "UpdateRecordSize before after = Some n" "n = 28 + length (after @ before)"
    using assms(2) by (simp add: UpdateRecordSize_def)
  obtain u where u: "NewUpdateRecord (replicate n 0) (txn_id txn) rid before after = Some u"
    "record_of u LogUpdate (txn_id txn) rid (after @ before)"
    using NewUpdateRecord_record_of [OF n(1), of "replicate n 0"] by auto
  have lu: "length (lr_data u) = n" using record_of_accessors(4) [OF u(2)] n(2) by (simp add: LogRecord_Size_def)
  obtain txn1 where t1: "build_record n (\<lambda>buf. NewUpdateRecord buf (txn_id txn) rid before after) txn = Some (u, txn1)"
    "lb_rep (logRecords txn1) (rs @ [lr_data u])" "txn_id txn1 = txn_id txn"
    using build_record_rep [OF assms(1) _ lu, of "\<lambda>buf. NewUpdateRecord buf (txn_id txn) rid before after"] u(1) by auto
  have m: "UpdateCLRSize u = Some (28 + length before)"
    using record_images(2) [OF u(2) assms(2)] by (simp add: UpdateCLRSize_def)
  obtain c where c: "NewUpdateCLR (replicate (28 + length before) 0) u = Some c"
    "record_of c LogUpdateCLR (txn_id txn) rid before"
    using NewUpdateCLR_record_of [OF u(2) assms(2), of "replicate (28 + length before) 0"] by auto
  have lc: "length (lr_data c) = 28 + length before" using record_of_accessors(4) [OF c(2)] by (simp add: LogRecord_Size_def)
  obtain txn2 where t2: "build_record (28 + length before) (\<lambda>buf. NewUpdateCLR buf u) txn1 = Some (c, txn2)"
    "lb_rep (logRecords txn2) ((rs @ [lr_data u]) @ [lr_data c])"
    using build_record_rep [OF t1(2) _ lc, of "\<lambda>buf. NewUpdateCLR buf u"] c(1) by auto
  obtain s1 s2 where "pop (logRecords txn2) = Some s1" "pop s1 = Some s2" "lb_rep s2 rs"
    using pop_rep [OF t2(2)] pop_rep by blast
  moreover have "logRecordBuffer_get (logRecords txn2) i = logRecordBuffer_get (logRecords txn) i" if "i < length rs" for i
    using lb.fetch_extends [OF assms(1), of "logRecords txn2" "[lr_data u, lr_data c]"] t2(2) that
      lb.count_rep [OF assms(1)] by simp
  ultimately show ?thesis
    using n(1) t1 m t2 record_of_accessors [OF u(2)] record_of_accessors [OF c(2)]
      record_images [OF u(2) assms(2)] record_after_image [OF c(2)]
    unfolding Txn_NewUpdateRecord_def Txn_NewUpdateCLR_def by auto
qed

theorem txn_records_stack_witness:
  "\<exists>u txn1 c txn2 s1 s2.
    Txn_NewUpdateRecord nilRecordID [1] [2] (NewTestTransactionContext 1 :: unit TransactionContext) = Some (u, txn1) \<and>
    Txn_NewUpdateCLR u txn1 = Some (c, txn2) \<and> lb_rep (logRecords txn2) ([] @ [lr_data u, lr_data c]) \<and>
    (\<forall>i < length ([] :: bytes list). logRecordBuffer_get (logRecords txn2) i =
       logRecordBuffer_get (logRecords (NewTestTransactionContext 1 :: unit TransactionContext)) i) \<and>
    TxnID u = Some (txn_id (NewTestTransactionContext 1 :: unit TransactionContext)) \<and>
    TxnID c = Some (txn_id (NewTestTransactionContext 1 :: unit TransactionContext)) \<and> BeforeImage u = Some [1] \<and>
    AfterImage c = Some [1] \<and> LogRecord_RID c = Some nilRecordID \<and>
    pop (logRecords txn2) = Some s1 \<and> pop s1 = Some s2 \<and> lb_rep s2 []"
  by (rule txn_records_stack)
     (simp_all add: lb_rep_def NewTestTransactionContext_def newLogRecordBuffer_def offs_def)

end
