(* ===== verification/Indexing_Hash.thy ===== *)
theory Indexing_Hash
  imports Storage_Disk Transaction_Context
begin

text \<open>
  Index keys and metadata (\<open>indexing/index.go\<close>, \<open>indexing/key.go\<close>) and the concurrent in-memory hash index
  (\<open>indexing/mem_hash_index.go\<close>).

  A schema is compared by its address, so a reference to one is an address with the descriptor it points to. The
  concurrent map of the hash index is the parameter of \<open>xsync_map\<close>; it holds addresses of buckets, and the
  buckets live in a store, since threads share them. A panic, or a retry loop that does not end, is \<open>None\<close>.

  Two models share the steps of the operations: the operations of one thread, and a transition system in which
  threads interleave between the atomic steps (map calls and critical sections of a bucket). The theorems show that
  the index is a map from keys to lists of record identifiers, that no insertion is lost to a concurrent removal
  of its bucket, and what an entry that is inserted twice does to a deletion.
\<close>

section \<open>Keys and metadata\<close>

type_synonym desc_ref = "nat \<times> RawTupleDesc"

datatype ScanDirection = ScanDirectionForward | ScanDirectionBackward

record IndexMetadata =
  KeySchema :: desc_ref
  ProjectionList :: "nat list"

record Key =
  k_RawTuple :: bytes
  k_schema :: "desc_ref option"

definition KeySize :: "IndexMetadata \<Rightarrow> nat" where
  "KeySize md = BytesPerTuple (snd (KeySchema md))"

definition AsKey :: "IndexMetadata \<Rightarrow> bytes \<Rightarrow> Key option" where
  "AsKey md raw = do {
     bs \<leftarrow> slice raw 0 (BytesPerTuple (snd (KeySchema md)));
     Some \<lparr>k_RawTuple = bs, k_schema = Some (KeySchema md)\<rparr>
   }"

definition NilKey :: Key where
  "NilKey = \<lparr>k_RawTuple = [], k_schema = None\<rparr>"

definition NewKey :: "bytes \<Rightarrow> desc_ref option \<Rightarrow> Key" where
  "NewKey tuple schema = \<lparr>k_RawTuple = tuple, k_schema = schema\<rparr>"

definition Key_IsNil :: "Key \<Rightarrow> bool" where
  "Key_IsNil k \<longleftrightarrow> k_schema k = None"

definition Key_Hash :: "Key \<Rightarrow> uint64" where
  "Key_Hash k = (if Key_IsNil k then 0 else Hash (k_RawTuple k))"

text \<open>Equality of schema pointers.\<close>

definition same_schema :: "desc_ref option \<Rightarrow> desc_ref option \<Rightarrow> bool" where
  "same_schema a b \<longleftrightarrow> map_option fst a = map_option fst b"

definition Key_Equals :: "Key \<Rightarrow> Key \<Rightarrow> bool" where
  "Key_Equals k other \<longleftrightarrow> same_schema (k_schema k) (k_schema other) \<and> k_RawTuple k = k_RawTuple other"

fun compare_fields :: "nat list \<Rightarrow> RawTupleDesc \<Rightarrow> bytes \<Rightarrow> RawTupleDesc \<Rightarrow> bytes \<Rightarrow> int option" where
  "compare_fields [] d r d' r' = Some 0"
| "compare_fields (i # is) d r d' r' = do {
     v1 \<leftarrow> RawTupleDesc_GetValue d r i;
     v2 \<leftarrow> RawTupleDesc_GetValue d' r' i;
     c \<leftarrow> Value_Compare v1 v2;
     (if c \<noteq> 0 then Some c else compare_fields is d r d' r')
   }"

definition Key_Compare :: "Key \<Rightarrow> Key \<Rightarrow> int option" where
  "Key_Compare k other = do {
     Assert (same_schema (k_schema k) (k_schema other));
     (_, d) \<leftarrow> k_schema k;
     (_, d') \<leftarrow> k_schema other;
     compare_fields [0..<RawTupleDesc_NumColumns d] d (k_RawTuple k) d' (k_RawTuple other)
   }"

definition Key_DeepCopy :: "Key \<Rightarrow> Key" where
  "Key_DeepCopy k = (if Key_IsNil k then NilKey else \<lparr>k_RawTuple = blit 0 (k_RawTuple k) (replicate (length (k_RawTuple k)) 0), k_schema = k_schema k\<rparr>)"

section \<open>The hash index\<close>

record bucket =
  b_key :: bytes
  b_rids :: "RecordID list"
  b_removed :: bool

text \<open>\<open>hx_m\<close> maps the bytes of a key to the address of its bucket in \<open>hx_buckets\<close>.\<close>

record 'm MemHashIndex =
  hx_m :: 'm
  hx_buckets :: "bucket list"
  hx_metadata :: IndexMetadata

definition NewMemHashIndex :: "(bytes, nat, 'm) MapOf \<Rightarrow> desc_ref \<Rightarrow> nat list \<Rightarrow> 'm MemHashIndex" where
  "NewMemHashIndex X schema projectionList = \<lparr>hx_m = m_New X, hx_buckets = [],
     hx_metadata = \<lparr>KeySchema = schema, ProjectionList = projectionList\<rparr>\<rparr>"

definition new_bucket :: "bytes \<Rightarrow> bucket" where
  "new_bucket key = \<lparr>b_key = key, b_rids = [], b_removed = False\<rparr>"

text \<open>The atomic steps: a load, a load-or-store of a fresh bucket, and the critical sections of a bucket.\<close>

definition load_bucket :: "(bytes, nat, 'm) MapOf \<Rightarrow> bytes \<Rightarrow> 'm MemHashIndex \<Rightarrow> nat option" where
  "load_bucket X key index = m_Load X (hx_m index) key"

definition store_bucket :: "(bytes, nat, 'm) MapOf \<Rightarrow> bytes \<Rightarrow> 'm MemHashIndex \<Rightarrow> nat \<times> 'm MemHashIndex" where
  "store_bucket X key index =
     (let fresh = length (hx_buckets index);
          ((actual, _), m) = m_LoadOrStore X key fresh (hx_m index)
      in (actual, index\<lparr>hx_m := m, hx_buckets := hx_buckets index @ [new_bucket key]\<rparr>))"

definition set_bucket :: "nat \<Rightarrow> bucket \<Rightarrow> 'm MemHashIndex \<Rightarrow> 'm MemHashIndex" where
  "set_bucket a b index = index\<lparr>hx_buckets := (hx_buckets index)[a := b]\<rparr>"

text \<open>The section of \<open>InsertEntry\<close>; it is false when the bucket has been removed.\<close>

definition insert_section :: "nat \<Rightarrow> RecordID \<Rightarrow> 'm MemHashIndex \<Rightarrow> (bool \<times> 'm MemHashIndex) option" where
  "insert_section a rid index = do {
     b \<leftarrow> idx (hx_buckets index) a;
     (if b_removed b then Some (False, index)
      else Some (True, set_bucket a (b\<lparr>b_rids := b_rids b @ [rid]\<rparr>) index))
   }"

text \<open>
  The loop of \<open>DeleteEntry\<close>: the range expression fixes the number of iterations, \<open>arr\<close> is the array under the
  slice, and \<open>len\<close> the current length of \<open>b.rids\<close>.
\<close>

fun delete_rids_loop :: "RecordID \<Rightarrow> nat list \<Rightarrow> RecordID list \<Rightarrow> nat \<Rightarrow> (RecordID list \<times> nat) option" where
  "delete_rids_loop rid [] arr len = Some (arr, len)"
| "delete_rids_loop rid (i # is) arr len = do {
     r \<leftarrow> idx arr i;
     (if r = rid
      then (if i < len \<and> 0 < len then delete_rids_loop rid is (arr[i := arr ! (len - 1)]) (len - 1) else None)
      else delete_rids_loop rid is arr len)
   }"

definition delete_rids :: "RecordID \<Rightarrow> RecordID list \<Rightarrow> RecordID list option" where
  "delete_rids rid rids = do {
     (arr, len) \<leftarrow> delete_rids_loop rid [0..<length rids] rids (length rids);
     Some (take len arr)
   }"

definition delete_section :: "(bytes, nat, 'm) MapOf \<Rightarrow> bytes \<Rightarrow> nat \<Rightarrow> RecordID \<Rightarrow> 'm MemHashIndex \<Rightarrow> 'm MemHashIndex option" where
  "delete_section X key a rid index = do {
     b \<leftarrow> idx (hx_buckets index) a;
     rids \<leftarrow> delete_rids rid (b_rids b);
     (if rids = [] \<and> b_rids b \<noteq> []
      then Some ((set_bucket a (b\<lparr>b_rids := rids, b_removed := True\<rparr>) index)\<lparr>hx_m := m_Delete X key (hx_m index)\<rparr>)
      else Some (set_bucket a (b\<lparr>b_rids := rids\<rparr>) index))
   }"

text \<open>The section of \<open>ScanKey\<close>; \<open>None\<close> inside when the bucket has been removed.\<close>

definition scan_section :: "nat \<Rightarrow> 'm MemHashIndex \<Rightarrow> RecordID list option option" where
  "scan_section a index = do {
     b \<leftarrow> idx (hx_buckets index) a;
     Some (if b_removed b then None else Some (b_rids b))
   }"

definition key_matches :: "Key \<Rightarrow> IndexMetadata \<Rightarrow> bool" where
  "key_matches key md \<longleftrightarrow> same_schema (k_schema key) (Some (KeySchema md))"

section \<open>The operations\<close>

partial_function (option) hash_insert_loop :: "(bytes, nat, 'm) MapOf \<Rightarrow> bytes \<Rightarrow> RecordID \<Rightarrow> 'm MemHashIndex \<Rightarrow>
    (nat \<times> 'm MemHashIndex) option" where
  "hash_insert_loop X key rid index = (
     let (a, index) = (case load_bucket X key index of Some a \<Rightarrow> (a, index) | None \<Rightarrow> store_bucket X key index) in
     do {
       (done, index) \<leftarrow> insert_section a rid index;
       (if done then Some (a, index) else hash_insert_loop X key rid index)
     })"

definition Hash_InsertEntry :: "(bytes, nat, 'm) MapOf \<Rightarrow> 'i \<Rightarrow> Key \<Rightarrow> RecordID \<Rightarrow> 'i TransactionContext option \<Rightarrow> 'm MemHashIndex \<Rightarrow>
    ('i TransactionContext option \<times> 'm MemHashIndex) option" where
  "Hash_InsertEntry X self key rid txn index = do {
     Assert (key_matches key (hx_metadata index));
     (a, index) \<leftarrow> hash_insert_loop X (k_RawTuple key) rid index;
     b \<leftarrow> idx (hx_buckets index) a;
     Some (map_option (AddAbortTask \<lparr>it_Target = self, it_Type = IndexOpUndoInsert, it_Key = b_key b, it_RID = rid\<rparr>) txn, index)
   }"

definition Hash_DeleteEntry :: "(bytes, nat, 'm) MapOf \<Rightarrow> 'i \<Rightarrow> Key \<Rightarrow> RecordID \<Rightarrow> 'i TransactionContext option \<Rightarrow> 'm MemHashIndex \<Rightarrow>
    ('i TransactionContext option \<times> 'm MemHashIndex) option" where
  "Hash_DeleteEntry X self key rid txn index = do {
     Assert (key_matches key (hx_metadata index));
     (case load_bucket X (k_RawTuple key) index of
        None \<Rightarrow> Some (txn, index)
      | Some a \<Rightarrow>
          (case txn of
             Some t \<Rightarrow> do {
               b \<leftarrow> idx (hx_buckets index) a;
               Some (Some (AddCommitTask \<lparr>it_Target = self, it_Type = IndexOpDelete, it_Key = b_key b, it_RID = rid\<rparr> t), index)
             }
           | None \<Rightarrow> do { index \<leftarrow> delete_section X (k_RawTuple key) a rid index; Some (None, index) }))
   }"

partial_function (option) hash_scan_loop :: "(bytes, nat, 'm) MapOf \<Rightarrow> bytes \<Rightarrow> RecordID list \<Rightarrow> 'm MemHashIndex \<Rightarrow> RecordID list option" where
  "hash_scan_loop X key output index =
     (case load_bucket X key index of
        None \<Rightarrow> Some output
      | Some a \<Rightarrow> do {
          r \<leftarrow> scan_section a index;
          (case r of Some rids \<Rightarrow> Some (output @ rids) | None \<Rightarrow> hash_scan_loop X key output index)
        })"

definition Hash_ScanKey :: "(bytes, nat, 'm) MapOf \<Rightarrow> Key \<Rightarrow> RecordID list \<Rightarrow> 'm MemHashIndex \<Rightarrow> RecordID list option" where
  "Hash_ScanKey X key output index = do {
     Assert (key_matches key (hx_metadata index));
     hash_scan_loop X (k_RawTuple key) output index
   }"

definition Hash_Scan :: "Key \<Rightarrow> ScanDirection \<Rightarrow> 'm MemHashIndex \<Rightarrow> string + unit" where
  "Hash_Scan start direction index = Inl ''range scans not supported for hash indexes''"

text \<open>Both kinds of task delete the entry at once.\<close>

definition Hash_Invoke :: "(bytes, nat, 'm) MapOf \<Rightarrow> IndexOpType \<Rightarrow> bytes \<Rightarrow> RecordID \<Rightarrow> 'm MemHashIndex \<Rightarrow> 'm MemHashIndex option" where
  "Hash_Invoke X opType key rid index = do {
     k \<leftarrow> AsKey (hx_metadata index) key;
     (_, index) \<leftarrow> Hash_DeleteEntry X () k rid (None :: unit TransactionContext option) index;
     Some index
   }"

section \<open>Deletion from a bucket\<close>

lemma delete_rids_loop_absent:
  assumes "\<forall>i \<in> set is. i < length arr \<and> arr ! i \<noteq> rid"
  shows "delete_rids_loop rid is arr len = Some (arr, len)"
  using assms by (induction "is") (auto simp: idx_def)

lemma delete_rids_loop_append:
  "delete_rids_loop rid (is @ js) arr len = do { (arr, len) \<leftarrow> delete_rids_loop rid is arr len; delete_rids_loop rid js arr len }"
  by (induction "is" arbitrary: arr len) (auto split: bind_split)

lemma delete_rids_absent: "rid \<notin> set rids \<Longrightarrow> delete_rids rid rids = Some rids"
  by (simp add: delete_rids_def delete_rids_loop_absent in_set_conv_nth)

text \<open>An identifier that occurs once is replaced by the last one.\<close>

lemma delete_rids_once:
  assumes "rid \<notin> set xs" "rid \<notin> set ys"
  shows "delete_rids rid (xs @ rid # ys) = Some (if ys = [] then xs else xs @ last ys # butlast ys)"
proof -
  let ?r = "xs @ rid # ys" and ?j = "length xs"
  let ?l = "?r ! (length ?r - 1)"
  have split: "[0..<length ?r] = [0..<?j] @ [?j] @ [Suc ?j..<length ?r]"
    using upt_add_eq_append [of 0 "length xs" "Suc (length ys)"] by (simp add: upt_conv_Cons del: upt_Suc)
  have a: "delete_rids_loop rid [0..<?j] ?r (length ?r) = Some (?r, length ?r)"
    using assms(1) by (intro delete_rids_loop_absent) (auto simp: nth_append in_set_conv_nth)
  have b: "delete_rids_loop rid [?j] ?r (length ?r) = Some (?r[?j := ?l], length ?r - 1)"
    by (simp add: idx_def)
  have c: "delete_rids_loop rid [Suc ?j..<length ?r] (?r[?j := ?l]) (length ?r - 1) = Some (?r[?j := ?l], length ?r - 1)"
  proof (rule delete_rids_loop_absent, rule ballI)
    fix i assume i: "i \<in> set [Suc ?j..<length ?r]"
    then obtain m where m: "i = Suc (?j + m)" by (auto dest!: le_Suc_ex)
    then have "?r[?j := ?l] ! i = ys ! (i - Suc ?j)" by (simp add: nth_append)
    moreover have "ys ! (i - Suc ?j) \<in> set ys" using i by (intro nth_mem) auto
    ultimately show "i < length (?r[?j := ?l]) \<and> ?r[?j := ?l] ! i \<noteq> rid" using i assms(2) by auto
  qed
  have "take (length ?r - 1) (?r[?j := ?l]) = (if ys = [] then xs else xs @ last ys # butlast ys)"
    by (cases ys rule: rev_cases) (auto simp: nth_append)
  moreover have "delete_rids_loop rid [0..<length ?r] ?r (length ?r) = Some (?r[?j := ?l], length ?r - 1)"
    unfolding split delete_rids_loop_append by (simp only: a b c Option.bind_lunit prod.case)
  ultimately show ?thesis unfolding delete_rids_def by simp
qed

lemma delete_rids_distinct:
  assumes "distinct rids"
  shows "\<exists>rids'. delete_rids rid rids = Some rids' \<and> distinct rids' \<and> set rids' = set rids - {rid}"
proof (cases "rid \<in> set rids")
  case True
  then obtain xs ys where r: "rids = xs @ rid # ys" by (auto dest: split_list)
  then have n: "rid \<notin> set xs" "rid \<notin> set ys" using assms by auto
  show ?thesis
  proof (cases ys rule: rev_cases)
    case Nil
    then show ?thesis using delete_rids_once [OF n] r assms by auto
  next
    case (snoc zs z)
    then show ?thesis using delete_rids_once [OF n] r assms by auto
  qed
qed (use assms delete_rids_absent in auto)

text \<open>An identifier at the last place and somewhere before panics.\<close>

lemma delete_rids_twice:
  assumes "rid \<notin> set xs"
  shows "delete_rids rid (xs @ [rid, rid]) = None"
proof -
  let ?r = "xs @ [rid, rid]" and ?j = "length xs"
  have split: "[0..<length ?r] = [0..<?j] @ [?j, Suc ?j]" by simp
  have a: "delete_rids_loop rid [0..<?j] ?r (length ?r) = Some (?r, length ?r)"
    using assms by (intro delete_rids_loop_absent) (auto simp: nth_append in_set_conv_nth)
  show ?thesis unfolding delete_rids_def split by (simp add: delete_rids_loop_append a [simplified] idx_def nth_append)
qed

section \<open>The index as a map from keys to lists\<close>

definition hash_ok :: "(bytes, nat, 'm) MapOf \<Rightarrow> 'm MemHashIndex \<Rightarrow> bool" where
  "hash_ok X index \<longleftrightarrow> (\<forall>k a. load_bucket X k index = Some a \<longrightarrow> a < length (hx_buckets index) \<and>
     b_key (hx_buckets index ! a) = k \<and> \<not> b_removed (hx_buckets index ! a))"

definition entries :: "(bytes, nat, 'm) MapOf \<Rightarrow> 'm MemHashIndex \<Rightarrow> bytes \<Rightarrow> RecordID list" where
  "entries X index k = (case load_bucket X k index of None \<Rightarrow> [] | Some a \<Rightarrow> b_rids (hx_buckets index ! a))"

lemma hash_okD:
  assumes "hash_ok X index" "load_bucket X k index = Some a"
  shows "a < length (hx_buckets index)" "b_key (hx_buckets index ! a) = k" "\<not> b_removed (hx_buckets index ! a)"
    "entries X index k = b_rids (hx_buckets index ! a)"
  using assms by (auto simp: hash_ok_def entries_def)

lemma store_bucket_spec:
  assumes "xsync_map X" "hash_ok X index" "store_bucket X k index = (a, index')"
  shows "hash_ok X index'" "load_bucket X k index' = Some a" "entries X index' = entries X index"
    "hx_buckets index' = hx_buckets index @ [new_bucket k]" "hx_metadata index' = hx_metadata index"
    "\<And>k' b. load_bucket X k' index = Some b \<Longrightarrow> load_bucket X k' index' = Some b"
    "\<And>k' b. load_bucket X k' index' = Some b \<Longrightarrow> load_bucket X k' index = None \<Longrightarrow> k' = k \<and> b = length (hx_buckets index)"
proof -
  note ls = xsync_mapD(2,4) [OF assms(1)]
  have b: "hx_buckets index' = hx_buckets index @ [new_bucket k]" and md: "hx_metadata index' = hx_metadata index"
    using assms(3) by (auto simp: store_bucket_def Let_def split: prod.splits)
  have l: "load_bucket X k' index' = (if k' = k \<and> load_bucket X k index = None then Some (length (hx_buckets index)) else load_bucket X k' index)"
    and a: "a = (case load_bucket X k index of None \<Rightarrow> length (hx_buckets index) | Some b \<Rightarrow> b)" for k'
    using assms(3) ls by (auto simp: store_bucket_def Let_def load_bucket_def split: prod.splits option.splits)
  show "load_bucket X k index' = Some a" using l [of k] a by (auto split: option.splits)
  show "\<And>k' b. load_bucket X k' index = Some b \<Longrightarrow> load_bucket X k' index' = Some b" using l by auto
  show "\<And>k' b. load_bucket X k' index' = Some b \<Longrightarrow> load_bucket X k' index = None \<Longrightarrow> k' = k \<and> b = length (hx_buckets index)"
    using l by (auto split: if_splits)
  show "hash_ok X index'" unfolding hash_ok_def
  proof (intro allI impI)
    fix k' c assume c: "load_bucket X k' index' = Some c"
    show "c < length (hx_buckets index') \<and> b_key (hx_buckets index' ! c) = k' \<and> \<not> b_removed (hx_buckets index' ! c)"
    proof (cases "load_bucket X k' index")
      case None
      then show ?thesis using c l [of k'] b by (auto simp: new_bucket_def nth_append split: if_splits)
    next
      case (Some c')
      then show ?thesis using c l [of k'] b hash_okD [OF assms(2) Some] by (auto simp: nth_append split: if_splits)
    qed
  qed
  show "entries X index' = entries X index"
  proof
    fix k'
    show "entries X index' k' = entries X index k'"
    proof (cases "load_bucket X k' index")
      case None
      then show ?thesis using l [of k'] b by (auto simp: entries_def new_bucket_def nth_append split: option.splits)
    next
      case (Some c')
      then show ?thesis using l [of k'] b hash_okD [OF assms(2) Some] by (auto simp: entries_def nth_append)
    qed
  qed
  show "hx_buckets index' = hx_buckets index @ [new_bucket k]" "hx_metadata index' = hx_metadata index" using b md by simp_all
qed

lemma set_bucket_simps [simp]:
  "hx_m (set_bucket a b index) = hx_m index" "hx_buckets (set_bucket a b index) = (hx_buckets index)[a := b]"
  "hx_metadata (set_bucket a b index) = hx_metadata index" "load_bucket X k (set_bucket a b index) = load_bucket X k index"
  by (simp_all add: set_bucket_def load_bucket_def)

text \<open>A critical section on the bucket that the map holds for a key.\<close>

lemma insert_section_spec:
  assumes "hash_ok X index" "load_bucket X k index = Some a"
  shows "\<exists>index'. insert_section a rid index = Some (True, index') \<and> hash_ok X index' \<and>
    entries X index' = (entries X index)(k := entries X index k @ [rid]) \<and> hx_m index' = hx_m index \<and>
    hx_metadata index' = hx_metadata index \<and> hx_buckets index' = (hx_buckets index)[a := (hx_buckets index ! a)\<lparr>b_rids := entries X index k @ [rid]\<rparr>]"
proof -
  note b = hash_okD [OF assms]
  let ?i = "set_bucket a ((hx_buckets index ! a)\<lparr>b_rids := b_rids (hx_buckets index ! a) @ [rid]\<rparr>) index"
  have "hash_ok X ?i" using assms(1) b by (auto simp: hash_ok_def nth_list_update)
  moreover have "entries X ?i = (entries X index)(k := entries X index k @ [rid])"
  proof
    fix k'
    show "entries X ?i k' = ((entries X index)(k := entries X index k @ [rid])) k'"
      using assms(2) b hash_okD(1,2) [OF assms(1), of k'] by (auto simp: entries_def nth_list_update split: option.splits)
  qed
  ultimately show ?thesis using b by (simp add: insert_section_def)
qed

lemma delete_section_spec:
  assumes "xsync_map X" "hash_ok X index" "load_bucket X k index = Some a" "delete_rids rid (entries X index k) = Some rids"
  shows "\<exists>index'. delete_section X k a rid index = Some index' \<and> hash_ok X index' \<and> entries X index' = (entries X index)(k := rids) \<and>
    hx_metadata index' = hx_metadata index \<and>
    (let gone = (rids = [] \<and> entries X index k \<noteq> []) in
     load_bucket X k index' = (if gone then None else Some a) \<and> (\<forall>k'. k' \<noteq> k \<longrightarrow> load_bucket X k' index' = load_bucket X k' index) \<and>
     hx_buckets index' = (hx_buckets index)[a := (hx_buckets index ! a)\<lparr>b_rids := rids, b_removed := gone\<rparr>])"
proof -
  note b = hash_okD [OF assms(2,3)]
  define gone where "gone \<longleftrightarrow> rids = [] \<and> entries X index k \<noteq> []"
  define index' where "index' = (set_bucket a ((hx_buckets index ! a)\<lparr>b_rids := rids, b_removed := gone\<rparr>) index)
    \<lparr>hx_m := if gone then m_Delete X k (hx_m index) else hx_m index\<rparr>"
  have nr: "(hx_buckets index ! a)\<lparr>b_rids := rids\<rparr> = (hx_buckets index ! a)\<lparr>b_rids := rids, b_removed := False\<rparr>"
    using b(3) by (cases "hx_buckets index ! a") simp
  have d: "delete_section X k a rid index = Some index'"
  proof (cases gone)
    case True
    then show ?thesis using b assms(4) by (auto simp: delete_section_def index'_def gone_def set_bucket_def)
  next
    case False
    have "index' = set_bucket a ((hx_buckets index ! a)\<lparr>b_rids := rids, b_removed := False\<rparr>) index"
      using False by (simp add: index'_def set_bucket_def)
    moreover have "delete_section X k a rid index = Some (set_bucket a ((hx_buckets index ! a)\<lparr>b_rids := rids\<rparr>) index)"
      using b assms(4) False by (auto simp: delete_section_def gone_def)
    ultimately show ?thesis using nr by metis
  qed
  have l: "load_bucket X k' index' = (if k' = k \<and> gone then None else load_bucket X k' index)" for k'
    using xsync_mapD(3) [OF assms(1), of k "hx_m index"] by (simp add: load_bucket_def index'_def set_bucket_def)
  have bk: "hx_buckets index' = (hx_buckets index)[a := (hx_buckets index ! a)\<lparr>b_rids := rids, b_removed := gone\<rparr>]"
    by (simp add: index'_def)
  have other: "c \<noteq> a" if "load_bucket X k' index = Some c" "k' \<noteq> k" for k' c
    using that hash_okD(2) [OF assms(2) that(1)] b(2) by auto
  have ok: "hash_ok X index'" unfolding hash_ok_def
  proof (intro allI impI)
    fix k' c assume c: "load_bucket X k' index' = Some c"
    show "c < length (hx_buckets index') \<and> b_key (hx_buckets index' ! c) = k' \<and> \<not> b_removed (hx_buckets index' ! c)"
    proof (cases "k' = k")
      case True
      then have "c = a" "\<not> gone" using c l [of k] assms(3) by (auto split: if_splits)
      then show ?thesis using b True by (simp add: bk)
    next
      case False
      then have "load_bucket X k' index = Some c" using c l [of k'] by simp
      from hash_okD [OF assms(2) this] other [OF this False] show ?thesis by (simp add: bk)
    qed
  qed
  have "entries X index' k' = ((entries X index)(k := rids)) k'" for k'
  proof (cases "k' = k")
    case True
    then show ?thesis using l [of k] assms(3) b(1) by (auto simp: entries_def bk gone_def)
  next
    case False
    then show ?thesis using l [of k'] other [of k'] by (auto simp: entries_def bk nth_list_update split: option.split)
  qed
  then have "entries X index' = (entries X index)(k := rids)" ..
  moreover have "hx_metadata index' = hx_metadata index" by (simp add: index'_def)
  ultimately show ?thesis using d ok l assms(3) bk by (auto simp: Let_def gone_def)
qed

section \<open>One thread\<close>

lemma hash_insert_loop_spec:
  assumes "xsync_map X" "hash_ok X index"
  shows "\<exists>a index'. hash_insert_loop X k rid index = Some (a, index') \<and> hash_ok X index' \<and>
    entries X index' = (entries X index)(k := entries X index k @ [rid]) \<and> hx_metadata index' = hx_metadata index \<and> load_bucket X k index' = Some a"
proof -
  obtain a index1 where s: "(case load_bucket X k index of Some a \<Rightarrow> (a, index) | None \<Rightarrow> store_bucket X k index) = (a, index1)" by force
  have i: "hash_ok X index1" "load_bucket X k index1 = Some a" "entries X index1 = entries X index" "hx_metadata index1 = hx_metadata index"
  proof -
    have "hash_ok X index1 \<and> load_bucket X k index1 = Some a \<and> entries X index1 = entries X index \<and> hx_metadata index1 = hx_metadata index"
    proof (cases "load_bucket X k index")
      case None
      then have "store_bucket X k index = (a, index1)" using s by simp
      from store_bucket_spec(1-3,5) [OF assms this] show ?thesis by simp
    qed (use s assms in simp)
    then show "hash_ok X index1" "load_bucket X k index1 = Some a" "entries X index1 = entries X index" "hx_metadata index1 = hx_metadata index" by simp_all
  qed
  obtain index2 where 2: "insert_section a rid index1 = Some (True, index2)" "hash_ok X index2"
    "entries X index2 = (entries X index)(k := entries X index k @ [rid])" "hx_m index2 = hx_m index1" "hx_metadata index2 = hx_metadata index"
    using insert_section_spec [OF i(1,2), of rid] i(3,4) by auto
  have "hash_insert_loop X k rid index = Some (a, index2)"
    by (subst hash_insert_loop.simps) (simp add: s 2)
  then show ?thesis using 2 i(2) by (auto simp: load_bucket_def)
qed

lemma Hash_InsertEntry_spec:
  assumes "xsync_map X" "hash_ok X index" "key_matches key (hx_metadata index)"
  shows "\<exists>index'. Hash_InsertEntry X self key rid txn index =
      Some (map_option (AddAbortTask \<lparr>it_Target = self, it_Type = IndexOpUndoInsert, it_Key = k_RawTuple key, it_RID = rid\<rparr>) txn, index') \<and>
    hash_ok X index' \<and> entries X index' = (entries X index)(k_RawTuple key := entries X index (k_RawTuple key) @ [rid]) \<and> hx_metadata index' = hx_metadata index"
proof -
  obtain a index' where i: "hash_insert_loop X (k_RawTuple key) rid index = Some (a, index')" "hash_ok X index'"
    "entries X index' = (entries X index)(k_RawTuple key := entries X index (k_RawTuple key) @ [rid])"
    "hx_metadata index' = hx_metadata index" "load_bucket X (k_RawTuple key) index' = Some a"
    using hash_insert_loop_spec [OF assms(1,2)] by blast
  then show ?thesis using assms(3) hash_okD [OF i(2,5)] by (simp add: Hash_InsertEntry_def Assert_def)
qed

text \<open>An immediate deletion; inside a transaction it is deferred to the commit.\<close>

lemma Hash_DeleteEntry_spec:
  assumes "xsync_map X" "hash_ok X index" "key_matches key (hx_metadata index)"
  shows "delete_rids rid (entries X index (k_RawTuple key)) = Some rids \<Longrightarrow>
      \<exists>index'. Hash_DeleteEntry X self key rid None index = Some (None, index') \<and> hash_ok X index' \<and>
        entries X index' = (entries X index)(k_RawTuple key := rids) \<and> hx_metadata index' = hx_metadata index"
    and "delete_rids rid (entries X index (k_RawTuple key)) = None \<Longrightarrow> Hash_DeleteEntry X self key rid None index = None"
    and "Hash_DeleteEntry X self key rid (Some t) index = Some (Some (if load_bucket X (k_RawTuple key) index = None then t
      else AddCommitTask \<lparr>it_Target = self, it_Type = IndexOpDelete, it_Key = k_RawTuple key, it_RID = rid\<rparr> t), index)"
proof -
  let ?k = "k_RawTuple key"
  show "\<exists>index'. Hash_DeleteEntry X self key rid None index = Some (None, index') \<and> hash_ok X index' \<and>
        entries X index' = (entries X index)(?k := rids) \<and> hx_metadata index' = hx_metadata index"
    if r: "delete_rids rid (entries X index ?k) = Some rids"
  proof (cases "load_bucket X ?k index")
    case None
    then have "rids = []" "entries X index ?k = []" using r delete_rids_absent [of rid "[]"] by (auto simp: entries_def)
    then show ?thesis using None assms(2,3) by (simp add: Hash_DeleteEntry_def Assert_def fun_upd_idem)
  next
    case (Some a)
    then show ?thesis using delete_section_spec [OF assms(1,2) Some r] assms(3) by (auto simp: Hash_DeleteEntry_def Assert_def)
  qed
  show "Hash_DeleteEntry X self key rid None index = None" if r: "delete_rids rid (entries X index ?k) = None"
  proof (cases "load_bucket X ?k index")
    case None
    then show ?thesis using r delete_rids_absent [of rid "[]"] by (simp add: entries_def)
  next
    case (Some a)
    then show ?thesis using r hash_okD [OF assms(2) Some] assms(3) by (simp add: Hash_DeleteEntry_def Assert_def delete_section_def)
  qed
  show "Hash_DeleteEntry X self key rid (Some t) index = Some (Some (if load_bucket X ?k index = None then t
      else AddCommitTask \<lparr>it_Target = self, it_Type = IndexOpDelete, it_Key = ?k, it_RID = rid\<rparr> t), index)"
    using assms(3) hash_okD [OF assms(2), of ?k] by (auto simp: Hash_DeleteEntry_def Assert_def split: option.split)
qed

lemma Hash_ScanKey_spec:
  assumes "hash_ok X index" "key_matches key (hx_metadata index)"
  shows "Hash_ScanKey X key output index = Some (output @ entries X index (k_RawTuple key))"
  using assms(2) hash_okD [OF assms(1), of "k_RawTuple key"]
  by (subst Hash_ScanKey_def, subst hash_scan_loop.simps) (auto simp: Assert_def scan_section_def entries_def split: option.split)

section \<open>Threads\<close>

text \<open>
  Each thread makes one call. The log is a ghost: it lists the calls in the order in which they take effect. A deletion
  that has loaded a bucket which another thread then removes takes effect at that removal, where its key has no entries.
\<close>

datatype hash_call = CInsert bytes RecordID | CDelete bytes RecordID | CScan bytes

datatype hash_pc = Idle | AtStart | AtMiss | AtBucket nat | Returned "RecordID list"

record 'm hash_sys =
  sys_index :: "'m MemHashIndex"
  sys_threads :: "(hash_call \<times> hash_pc) list"
  sys_log :: "(nat \<times> hash_call \<times> RecordID list) list"

fun call_key :: "hash_call \<Rightarrow> bytes" where
  "call_key (CInsert k r) = k" | "call_key (CDelete k r) = k" | "call_key (CScan k) = k"

fun is_delete :: "hash_call \<Rightarrow> bool" where
  "is_delete (CDelete k r) = True" | "is_delete _ = False"

definition bucket_removed :: "'m MemHashIndex \<Rightarrow> nat \<Rightarrow> bool" where
  "bucket_removed index a \<longleftrightarrow> b_removed (hx_buckets index ! a)"

text \<open>The deletions that wait for bucket \<open>a\<close>, except thread \<open>t\<close>.\<close>

definition waiting_deletes :: "nat \<Rightarrow> nat \<Rightarrow> (hash_call \<times> hash_pc) list \<Rightarrow> (nat \<times> hash_call \<times> RecordID list) list" where
  "waiting_deletes a t ths = map (\<lambda>u. (u, fst (ths ! u), []))
     (filter (\<lambda>u. u \<noteq> t \<and> is_delete (fst (ths ! u)) \<and> snd (ths ! u) = AtBucket a) [0..<length ths])"

definition move :: "nat \<Rightarrow> hash_pc \<Rightarrow> 'm MemHashIndex \<Rightarrow> (nat \<times> hash_call \<times> RecordID list) list \<Rightarrow> 'm hash_sys \<Rightarrow> 'm hash_sys" where
  "move t pc index es s = \<lparr>sys_index = index, sys_threads = (sys_threads s)[t := (fst (sys_threads s ! t), pc)], sys_log = sys_log s @ es\<rparr>"

inductive hash_step :: "(bytes, nat, 'm) MapOf \<Rightarrow> 'm hash_sys \<Rightarrow> 'm hash_sys \<Rightarrow> bool" for X where
  invoke: "t < length (sys_threads s) \<Longrightarrow> sys_threads s ! t = (c, Idle) \<Longrightarrow> hash_step X s (move t AtStart (sys_index s) [] s)"
| found: "t < length (sys_threads s) \<Longrightarrow> sys_threads s ! t = (c, AtStart) \<Longrightarrow> load_bucket X (call_key c) (sys_index s) = Some a \<Longrightarrow>
    hash_step X s (move t (AtBucket a) (sys_index s) [] s)"
| insert_miss: "t < length (sys_threads s) \<Longrightarrow> sys_threads s ! t = (CInsert k r, AtStart) \<Longrightarrow> load_bucket X k (sys_index s) = None \<Longrightarrow>
    hash_step X s (move t AtMiss (sys_index s) [] s)"
| other_miss: "t < length (sys_threads s) \<Longrightarrow> sys_threads s ! t = (c, AtStart) \<Longrightarrow> c = CDelete k r \<or> c = CScan k \<Longrightarrow> load_bucket X k (sys_index s) = None \<Longrightarrow>
    hash_step X s (move t (Returned []) (sys_index s) [(t, c, [])] s)"
| insert_store: "t < length (sys_threads s) \<Longrightarrow> sys_threads s ! t = (CInsert k r, AtMiss) \<Longrightarrow> store_bucket X k (sys_index s) = (a, index') \<Longrightarrow>
    hash_step X s (move t (AtBucket a) index' [] s)"
| insert_retry: "t < length (sys_threads s) \<Longrightarrow> sys_threads s ! t = (CInsert k r, AtBucket a) \<Longrightarrow> insert_section a r (sys_index s) = Some (False, index') \<Longrightarrow>
    hash_step X s (move t AtStart index' [] s)"
| insert_lock: "t < length (sys_threads s) \<Longrightarrow> sys_threads s ! t = (CInsert k r, AtBucket a) \<Longrightarrow> insert_section a r (sys_index s) = Some (True, index') \<Longrightarrow>
    hash_step X s (move t (Returned []) index' [(t, CInsert k r, [])] s)"
| delete_lock: "t < length (sys_threads s) \<Longrightarrow> sys_threads s ! t = (CDelete k r, AtBucket a) \<Longrightarrow> delete_section X k a r (sys_index s) = Some index' \<Longrightarrow>
    es = (if bucket_removed (sys_index s) a then []
          else (t, CDelete k r, []) # (if bucket_removed index' a then waiting_deletes a t (sys_threads s) else [])) \<Longrightarrow>
    hash_step X s (move t (Returned []) index' es s)"
| scan_retry: "t < length (sys_threads s) \<Longrightarrow> sys_threads s ! t = (CScan k, AtBucket a) \<Longrightarrow> scan_section a (sys_index s) = Some None \<Longrightarrow>
    hash_step X s (move t AtStart (sys_index s) [] s)"
| scan_lock: "t < length (sys_threads s) \<Longrightarrow> sys_threads s ! t = (CScan k, AtBucket a) \<Longrightarrow> scan_section a (sys_index s) = Some (Some rids) \<Longrightarrow>
    hash_step X s (move t (Returned rids) (sys_index s) [(t, CScan k, rids)] s)"

definition hash_start :: "(bytes, nat, 'm) MapOf \<Rightarrow> desc_ref \<Rightarrow> nat list \<Rightarrow> hash_call list \<Rightarrow> 'm hash_sys" where
  "hash_start X schema ps calls = \<lparr>sys_index = NewMemHashIndex X schema ps, sys_threads = map (\<lambda>c. (c, Idle)) calls, sys_log = []\<rparr>"

text \<open>The specification: calls on a map from keys to lists, one after the other.\<close>

fun abs_call :: "(bytes \<Rightarrow> RecordID list) \<Rightarrow> hash_call \<Rightarrow> ((bytes \<Rightarrow> RecordID list) \<times> RecordID list) option" where
  "abs_call m (CInsert k r) = Some (m(k := m k @ [r]), [])"
| "abs_call m (CDelete k r) = do { rs \<leftarrow> delete_rids r (m k); Some (m(k := rs), []) }"
| "abs_call m (CScan k) = Some (m, m k)"

fun replay :: "(bytes \<Rightarrow> RecordID list) \<Rightarrow> (nat \<times> hash_call \<times> RecordID list) list \<Rightarrow> (bytes \<Rightarrow> RecordID list) option" where
  "replay m [] = Some m"
| "replay m ((t, c, res) # es) = do { (m', res') \<leftarrow> abs_call m c; if res' = res then replay m' es else None }"

lemma replay_append: "replay m (es @ fs) = do { m' \<leftarrow> replay m es; replay m' fs }"
proof (induction m es rule: replay.induct)
  case (2 m t c res es)
  then show ?case by (cases "abs_call m c") auto
qed simp

text \<open>What the log says of a thread.\<close>

definition expected :: "'m MemHashIndex \<Rightarrow> nat \<Rightarrow> hash_call \<times> hash_pc \<Rightarrow> (nat \<times> hash_call \<times> RecordID list) list" where
  "expected index t th = (case snd th of
     Returned res \<Rightarrow> [(t, fst th, res)]
   | AtBucket a \<Rightarrow> if is_delete (fst th) \<and> bucket_removed index a then [(t, fst th, [])] else []
   | _ \<Rightarrow> [])"

definition log_of :: "nat \<Rightarrow> (nat \<times> hash_call \<times> RecordID list) list \<Rightarrow> (nat \<times> hash_call \<times> RecordID list) list" where
  "log_of t es = filter (\<lambda>e. fst e = t) es"

definition thread_ok :: "(bytes, nat, 'm) MapOf \<Rightarrow> 'm MemHashIndex \<Rightarrow> hash_call \<times> hash_pc \<Rightarrow> bool" where
  "thread_ok X index th \<longleftrightarrow> (case snd th of
     AtBucket a \<Rightarrow> a < length (hx_buckets index) \<and> b_key (hx_buckets index ! a) = call_key (fst th) \<and>
       (bucket_removed index a \<or> load_bucket X (call_key (fst th)) index = Some a)
   | AtMiss \<Rightarrow> \<not> is_delete (fst th)
   | _ \<Rightarrow> True)"

definition hash_inv :: "(bytes, nat, 'm) MapOf \<Rightarrow> 'm hash_sys \<Rightarrow> bool" where
  "hash_inv X s \<longleftrightarrow> hash_ok X (sys_index s) \<and>
     (\<forall>b \<in> set (hx_buckets (sys_index s)). b_removed b \<longrightarrow> b_rids b = []) \<and>
     (\<forall>th \<in> set (sys_threads s). thread_ok X (sys_index s) th) \<and>
     replay (\<lambda>_. []) (sys_log s) = Some (entries X (sys_index s)) \<and>
     (\<forall>t < length (sys_threads s). log_of t (sys_log s) = expected (sys_index s) t (sys_threads s ! t))"

lemma log_of_append [simp]: "log_of t (es @ fs) = log_of t es @ log_of t fs"
  by (simp add: log_of_def)

lemma log_of_Cons [simp]: "log_of u [] = []" "log_of u (e # es) = (if fst e = u then e # log_of u es else log_of u es)"
  by (simp_all add: log_of_def)

lemma move_inv:
  assumes inv: "hash_inv X s" and t: "t < length (sys_threads s)" "sys_threads s ! t = (c, pc)"
    and ok: "hash_ok X index'" "\<forall>b \<in> set (hx_buckets index'). b_removed b \<longrightarrow> b_rids b = []"
    and others: "\<And>u. u < length (sys_threads s) \<Longrightarrow> u \<noteq> t \<Longrightarrow> thread_ok X index' (sys_threads s ! u) \<and>
      expected index' u (sys_threads s ! u) = expected (sys_index s) u (sys_threads s ! u) @ log_of u es"
    and self: "thread_ok X index' (c, pc')" "expected index' t (c, pc') = expected (sys_index s) t (c, pc) @ log_of t es"
    and rep: "replay (entries X (sys_index s)) es = Some (entries X index')"
  shows "hash_inv X (move t pc' index' es s)"
proof -
  have i: "replay (\<lambda>_. []) (sys_log s) = Some (entries X (sys_index s))"
    "\<And>u. u < length (sys_threads s) \<Longrightarrow> log_of u (sys_log s) = expected (sys_index s) u (sys_threads s ! u)"
    using inv by (auto simp: hash_inv_def)
  have "thread_ok X index' th" if "th \<in> set ((sys_threads s)[t := (c, pc')])" for th
    using that others self(1) t(1) by (auto simp: in_set_conv_nth nth_list_update)
  moreover have "log_of u (sys_log s @ es) = expected index' u ((sys_threads s)[t := (c, pc')] ! u)" if "u < length (sys_threads s)" for u
    using others [OF that] i(2) [OF that] self(2) t by (cases "u = t") simp_all
  ultimately show ?thesis using ok i(1) rep t by (simp add: hash_inv_def move_def replay_append)
qed

text \<open>A step that keeps the index.\<close>

lemma move_same_index:
  assumes "hash_inv X s" "t < length (sys_threads s)" "sys_threads s ! t = (c, pc)" "thread_ok X (sys_index s) (c, pc')"
    "es = [] \<or> (\<exists>res. es = [(t, c, res)])" "expected (sys_index s) t (c, pc') = expected (sys_index s) t (c, pc) @ es"
    "replay (entries X (sys_index s)) es = Some (entries X (sys_index s))"
  shows "hash_inv X (move t pc' (sys_index s) es s)"
  using assms(1,4-7) by (intro move_inv [OF assms(1-3)]) (auto simp: hash_inv_def)

lemma thread_bucket:
  assumes "hash_inv X s" "t < length (sys_threads s)" "sys_threads s ! t = (c, AtBucket a)"
  shows "a < length (hx_buckets (sys_index s))" "b_key (hx_buckets (sys_index s) ! a) = call_key c"
    "bucket_removed (sys_index s) a \<or> load_bucket X (call_key c) (sys_index s) = Some a"
proof -
  have "thread_ok X (sys_index s) (c, AtBucket a)" using assms by (metis hash_inv_def nth_mem)
  then show "a < length (hx_buckets (sys_index s))" "b_key (hx_buckets (sys_index s) ! a) = call_key c"
    "bucket_removed (sys_index s) a \<or> load_bucket X (call_key c) (sys_index s) = Some a"
    by (simp_all add: thread_ok_def)
qed

lemma waiting_deletes_log:
  "u < length ths \<Longrightarrow> log_of u (waiting_deletes a t ths) =
     (if u \<noteq> t \<and> is_delete (fst (ths ! u)) \<and> snd (ths ! u) = AtBucket a then [(u, fst (ths ! u), [])] else [])"
proof -
  have *: "filter (\<lambda>v. P v \<and> v = u) [0..<n] = (if u < n \<and> P u then [u] else [])" for P :: "nat \<Rightarrow> bool" and n
    by (induction n) (auto simp: less_Suc_eq)
  have **: "log_of u (map (\<lambda>u. (u, f u)) (filter P xs)) = map (\<lambda>u. (u, f u)) (filter (\<lambda>v. P v \<and> v = u) xs)"
    for P :: "nat \<Rightarrow> bool" and f :: "nat \<Rightarrow> hash_call \<times> RecordID list" and xs
    by (induction xs) auto
  assume "u < length ths"
  then show ?thesis unfolding waiting_deletes_def ** * by simp
qed

lemma replay_waiting:
  assumes "\<forall>e \<in> set es. \<exists>u r. e = (u, CDelete k r, [])" "m k = []"
  shows "replay m es = Some m"
  using assms by (induction es) (auto simp: delete_rids_absent fun_upd_idem)

lemma insert_store_inv:
  assumes X: "xsync_map X" and inv: "hash_inv X s" and t: "t < length (sys_threads s)" "sys_threads s ! t = (CInsert k r, AtMiss)"
    and st: "store_bucket X k (sys_index s) = (a, index')"
  shows "hash_inv X (move t (AtBucket a) index' [] s)"
proof -
  have ok: "hash_ok X (sys_index s)" using inv by (simp add: hash_inv_def)
  note sb = store_bucket_spec [OF X ok st]
  have same: "hx_buckets index' ! b = hx_buckets (sys_index s) ! b" if "b < length (hx_buckets (sys_index s))" for b
    using that sb(4) by (simp add: nth_append)
  show ?thesis
  proof (rule move_inv [OF inv t sb(1)])
    show "\<forall>b \<in> set (hx_buckets index'). b_removed b \<longrightarrow> b_rids b = []"
      using inv sb(4) by (auto simp: hash_inv_def new_bucket_def)
    show "thread_ok X index' (sys_threads s ! u) \<and> expected index' u (sys_threads s ! u) = expected (sys_index s) u (sys_threads s ! u) @ log_of u []"
      if "u < length (sys_threads s)" "u \<noteq> t" for u
    proof -
      have "thread_ok X (sys_index s) (sys_threads s ! u)" using inv that(1) by (simp add: hash_inv_def)
      then show ?thesis using same sb(4,6) by (auto simp: thread_ok_def expected_def bucket_removed_def split: hash_pc.splits)
    qed
    show "thread_ok X index' (CInsert k r, AtBucket a)" using hash_okD [OF sb(1,2)] sb(2) by (simp add: thread_ok_def)
    show "expected index' t (CInsert k r, AtBucket a) = expected (sys_index s) t (CInsert k r, AtMiss) @ log_of t []" by (simp add: expected_def)
    show "replay (entries X (sys_index s)) [] = Some (entries X index')" using sb(3) by simp
  qed
qed

lemma insert_lock_inv:
  assumes inv: "hash_inv X s" and t: "t < length (sys_threads s)" "sys_threads s ! t = (CInsert k r, AtBucket a)"
    and se: "insert_section a r (sys_index s) = Some (True, index')"
  shows "hash_inv X (move t (Returned []) index' [(t, CInsert k r, [])] s)"
proof -
  let ?i = "sys_index s"
  have ok: "hash_ok X ?i" using inv by (simp add: hash_inv_def)
  note tb = thread_bucket [OF inv t]
  have nr: "\<not> bucket_removed ?i a" using se tb(1) by (auto simp: insert_section_def bucket_removed_def split: if_splits)
  then have ld: "load_bucket X k ?i = Some a" using tb(3) by simp
  have s2: "hash_ok X index'" "entries X index' = (entries X ?i)(k := entries X ?i k @ [r])" "hx_m index' = hx_m ?i"
    "hx_buckets index' = (hx_buckets ?i)[a := (hx_buckets ?i ! a)\<lparr>b_rids := entries X ?i k @ [r]\<rparr>]"
    using insert_section_spec [OF ok ld, of r] se by auto
  show ?thesis
  proof (rule move_inv [OF inv t s2(1)])
    show "\<forall>b \<in> set (hx_buckets index'). b_removed b \<longrightarrow> b_rids b = []"
      using inv nr tb(1) by (auto simp: hash_inv_def s2(4) bucket_removed_def dest!: subsetD [OF set_update_subset_insert])
    show "thread_ok X index' (sys_threads s ! u) \<and> expected index' u (sys_threads s ! u) = expected ?i u (sys_threads s ! u) @ log_of u [(t, CInsert k r, [])]"
      if "u < length (sys_threads s)" "u \<noteq> t" for u
    proof -
      have "thread_ok X ?i (sys_threads s ! u)" using inv that(1) by (simp add: hash_inv_def)
      moreover have "b_removed (hx_buckets index' ! c) = b_removed (hx_buckets ?i ! c)" "b_key (hx_buckets index' ! c) = b_key (hx_buckets ?i ! c)" for c
        using tb(1) by (simp_all add: s2(4) nth_list_update)
      ultimately show ?thesis using that(2) s2(3,4)
        by (cases "sys_threads s ! u") (auto simp: thread_ok_def expected_def bucket_removed_def load_bucket_def split: hash_pc.splits)
    qed
  qed (simp_all add: s2(2) expected_def thread_ok_def)
qed

lemma delete_lock_inv:
  assumes X: "xsync_map X" and inv: "hash_inv X s" and t: "t < length (sys_threads s)" "sys_threads s ! t = (CDelete k r, AtBucket a)"
    and se: "delete_section X k a r (sys_index s) = Some index'"
    and es: "es = (if bucket_removed (sys_index s) a then []
          else (t, CDelete k r, []) # (if bucket_removed index' a then waiting_deletes a t (sys_threads s) else []))"
  shows "hash_inv X (move t (Returned []) index' es s)"
proof -
  let ?i = "sys_index s"
  have ok: "hash_ok X ?i" using inv by (simp add: hash_inv_def)
  note tb = thread_bucket [OF inv t]
  show ?thesis
  proof (cases "bucket_removed ?i a")
    case True
    then have "b_rids (hx_buckets ?i ! a) = []" using inv tb(1) by (auto simp: hash_inv_def bucket_removed_def)
    then have "(hx_buckets ?i ! a)\<lparr>b_rids := []\<rparr> = hx_buckets ?i ! a" "delete_section X k a r ?i = Some (set_bucket a ((hx_buckets ?i ! a)\<lparr>b_rids := []\<rparr>) ?i)"
      using tb(1) by (cases "hx_buckets ?i ! a"; simp add: delete_section_def delete_rids_absent)+
    then have "index' = ?i" using se by (simp add: set_bucket_def)
    then show ?thesis using True es move_same_index [OF inv t, of "Returned []" "[]"] by (simp add: thread_ok_def expected_def)
  next
    case False
    then have ld: "load_bucket X k ?i = Some a" using tb(3) by simp
    note b = hash_okD [OF ok ld]
    obtain rids where rids: "delete_rids r (entries X ?i k) = Some rids"
      using se b by (cases "delete_rids r (entries X ?i k)") (auto simp: delete_section_def)
    define gone where "gone \<longleftrightarrow> rids = [] \<and> entries X ?i k \<noteq> []"
    have d: "hash_ok X index'" "entries X index' = (entries X ?i)(k := rids)"
      "load_bucket X k index' = (if gone then None else Some a)" "\<forall>k'. k' \<noteq> k \<longrightarrow> load_bucket X k' index' = load_bucket X k' ?i"
      "hx_buckets index' = (hx_buckets ?i)[a := (hx_buckets ?i ! a)\<lparr>b_rids := rids, b_removed := gone\<rparr>]"
      using delete_section_spec [OF X ok ld rids] se by (auto simp: Let_def gone_def)
    have ra: "bucket_removed index' c \<longleftrightarrow> (if c = a then gone else bucket_removed ?i c)" for c
      using tb(1) by (simp add: bucket_removed_def d(5) nth_list_update)
    have es': "es = (t, CDelete k r, []) # (if gone then waiting_deletes a t (sys_threads s) else [])" using es False ra by simp
    have w: "\<exists>u r'. e = (u, CDelete k r', [])" if e: "e \<in> set (waiting_deletes a t (sys_threads s))" for e
    proof -
      obtain u where u: "u < length (sys_threads s)" "is_delete (fst (sys_threads s ! u))" "snd (sys_threads s ! u) = AtBucket a"
        "e = (u, fst (sys_threads s ! u), [])" using e by (auto simp: waiting_deletes_def)
      then have "call_key (fst (sys_threads s ! u)) = k" using thread_bucket(2) [OF inv u(1), of _ a] tb(2) by (metis call_key.simps(2) prod.collapse)
      then show ?thesis using u by (cases "fst (sys_threads s ! u)") auto
    qed
    show ?thesis
    proof (rule move_inv [OF inv t d(1)])
      show "\<forall>b \<in> set (hx_buckets index'). b_removed b \<longrightarrow> b_rids b = []"
        using inv by (auto simp: hash_inv_def d(5) gone_def dest!: subsetD [OF set_update_subset_insert])
      show "thread_ok X index' (CDelete k r, Returned [])" by (simp add: thread_ok_def)
      show "expected index' t (CDelete k r, Returned []) = expected ?i t (CDelete k r, AtBucket a) @ log_of t es"
        using False t(1) by (simp add: es' expected_def waiting_deletes_log)
      show "replay (entries X ?i) es = Some (entries X index')"
        using rids w replay_waiting [of "waiting_deletes a t (sys_threads s)" k "entries X index'"] by (simp add: es' d(2) gone_def)
      fix u assume u: "u < length (sys_threads s)" "u \<noteq> t"
      have tu: "thread_ok X ?i (sys_threads s ! u)" using inv u(1) by (simp add: hash_inv_def)
      obtain c pc where cp: "sys_threads s ! u = (c, pc)" by fastforce
      have "load_bucket X k' index' = Some b" if "load_bucket X k' ?i = Some b" "b \<noteq> a" for k' b
        using that ld d(4) by (cases "k' = k") auto
      then have "thread_ok X index' (c, pc)"
        using tu ra d(3,4) tb(2) by (auto simp: cp thread_ok_def d(5) nth_list_update split: hash_pc.splits if_splits)
      moreover have "expected index' u (c, pc) = expected ?i u (c, pc) @ log_of u es"
        using u ra False by (auto simp: es' waiting_deletes_log cp expected_def split: hash_pc.splits)
      ultimately show "thread_ok X index' (sys_threads s ! u) \<and> expected index' u (sys_threads s ! u) = expected ?i u (sys_threads s ! u) @ log_of u es"
        by (simp add: cp)
    qed
  qed
qed

lemma hash_step_inv:
  assumes "hash_step X s s'" "xsync_map X" "hash_inv X s"
  shows "hash_inv X s'"
  using assms(1)
proof cases
  case (invoke t c)
  then show ?thesis using move_same_index [OF assms(3) invoke(2,3)] by (simp add: thread_ok_def expected_def)
next
  case (found t c a)
  then show ?thesis using move_same_index [OF assms(3) found(2,3), of "AtBucket a" "[]"] hash_okD [of X "sys_index s"] assms(3)
    by (simp add: thread_ok_def expected_def hash_inv_def bucket_removed_def)
next
  case (insert_miss t k r)
  then show ?thesis using move_same_index [OF assms(3) insert_miss(2,3)] by (simp add: thread_ok_def expected_def)
next
  case (other_miss t c k r)
  then have "entries X (sys_index s) k = []" by (simp add: entries_def)
  then show ?thesis using move_same_index [OF assms(3) other_miss(2,3), of "Returned []" "[(t, c, [])]"] other_miss
    by (auto simp: thread_ok_def expected_def delete_rids_absent fun_upd_idem)
next
  case (insert_store t k r a index')
  then show ?thesis using insert_store_inv [OF assms(2,3)] by simp
next
  case (insert_retry t k r a index')
  then have "index' = sys_index s" by (auto simp: insert_section_def bind_eq_Some_conv split: if_splits)
  then show ?thesis using move_same_index [OF assms(3) insert_retry(2,3)] insert_retry(1) by (simp add: thread_ok_def expected_def)
next
  case (insert_lock t k r a index')
  then show ?thesis using insert_lock_inv [OF assms(3)] by simp
next
  case (delete_lock t k r a index' es)
  then show ?thesis using delete_lock_inv [OF assms(2,3)] by simp
next
  case (scan_retry t k a)
  then show ?thesis using move_same_index [OF assms(3) scan_retry(2,3)] by (simp add: thread_ok_def expected_def)
next
  case (scan_lock t k a rids)
  note tb = thread_bucket [OF assms(3) scan_lock(2,3)]
  have "\<not> bucket_removed (sys_index s) a" "rids = b_rids (hx_buckets (sys_index s) ! a)"
    using scan_lock(4) tb(1) by (auto simp: scan_section_def bucket_removed_def split: if_splits)
  then have "entries X (sys_index s) k = rids" using tb(3) by (simp add: entries_def)
  then show ?thesis using move_same_index [OF assms(3) scan_lock(2,3), of "Returned rids" "[(t, CScan k, rids)]"] scan_lock(1)
    by (simp add: thread_ok_def expected_def)
qed

lemma hash_step_calls:
  assumes "hash_step X s s'"
  shows "map fst (sys_threads s') = map fst (sys_threads s)" "\<exists>es. sys_log s' = sys_log s @ es"
  using assms by (cases; auto simp: move_def map_update list_update_same_conv)+

lemma hash_reachable:
  assumes "(hash_step X)\<^sup>*\<^sup>* (hash_start X schema ps calls) s" "xsync_map X"
  shows "hash_inv X s \<and> map fst (sys_threads s) = calls"
  using assms(1)
proof (induction rule: rtranclp_induct)
  case base
  have "load_bucket X k (NewMemHashIndex X schema ps) = None" for k
    using xsync_mapD(1) [OF assms(2)] by (simp add: load_bucket_def NewMemHashIndex_def)
  then show ?case by (auto simp: hash_inv_def hash_ok_def hash_start_def NewMemHashIndex_def thread_ok_def expected_def entries_def log_of_def comp_def)
next
  case (step s s')
  then show ?case using hash_step_inv [OF step.hyps(2) assms(2)] hash_step_calls(1) [OF step.hyps(2)] by simp
qed

text \<open>
  C8: the concurrent hash index is linearizable. In every reachable state of any number of threads that insert, delete
  and look up entries at the same time, the calls that have taken effect form a sequential history of a map from keys
  to lists: replaying it gives the result of every call and the contents of the index. Every call that has returned is
  in the history exactly once with the result it returned, a call that has not started is not in it, and the history only
  grows at its end, so that it respects the order of calls that do not overlap. In particular no insertion is lost to
  a removal of its bucket.
\<close>

theorem hash_index_linearizable:
  assumes "xsync_map X" "(hash_step X)\<^sup>*\<^sup>* (hash_start X schema ps calls) s"
  shows "replay (\<lambda>_. []) (sys_log s) = Some (entries X (sys_index s)) \<and>
    (\<forall>t < length calls. (\<forall>res. snd (sys_threads s ! t) = Returned res \<longrightarrow> log_of t (sys_log s) = [(t, calls ! t, res)]) \<and>
       (snd (sys_threads s ! t) = Idle \<longrightarrow> log_of t (sys_log s) = [])) \<and>
    (\<forall>s'. hash_step X s s' \<longrightarrow> (\<exists>es. sys_log s' = sys_log s @ es))"
proof -
  have r: "hash_inv X s" "map fst (sys_threads s) = calls" using hash_reachable [OF assms(2,1)] by simp_all
  have c: "length (sys_threads s) = length calls" using arg_cong [OF r(2), of length] by simp
  have th: "log_of t (sys_log s) = expected (sys_index s) t (sys_threads s ! t)" "fst (sys_threads s ! t) = calls ! t"
    if "t < length calls" for t
    using r(1) that c arg_cong [OF r(2), of "\<lambda>xs. xs ! t"] by (simp_all add: hash_inv_def)
  have "log_of t (sys_log s) = [(t, calls ! t, res)]" if "t < length calls" "snd (sys_threads s ! t) = Returned res" for t res
    using th [OF that(1)] that(2) by (simp add: expected_def)
  moreover have "log_of t (sys_log s) = []" if "t < length calls" "snd (sys_threads s ! t) = Idle" for t
    using th [OF that(1)] that(2) by (simp add: expected_def)
  moreover have "replay (\<lambda>_. []) (sys_log s) = Some (entries X (sys_index s))" using r(1) by (simp add: hash_inv_def)
  ultimately show ?thesis using hash_step_calls(2) by blast
qed

text \<open>Two threads, an insertion and a deletion of the same entry: the insertion has returned, the deletion has not started.\<close>

definition demo_calls :: "hash_call list" where
  "demo_calls = [CInsert [1] nilRecordID, CDelete [1] nilRecordID]"

definition demo_ref :: desc_ref where
  "demo_ref = (0, \<lparr>d_fields = [], d_offsets = [], d_bytesPerRow = 0\<rparr>)"

theorem hash_index_linearizable_witness:
  "\<exists>s. (hash_step fun_map)\<^sup>*\<^sup>* (hash_start fun_map demo_ref [] demo_calls) s \<and> snd (sys_threads s ! 0) = Returned [] \<and>
     log_of 0 (sys_log s) = [(0, CInsert [1] nilRecordID, [])] \<and> log_of 1 (sys_log s) = []"
proof -
  let ?c0 = "CInsert [1] nilRecordID" and ?c1 = "CDelete [1] nilRecordID"
  define s0 where "s0 = hash_start fun_map demo_ref [] demo_calls"
  define s1 where "s1 = move 0 AtStart (sys_index s0) [] s0"
  define s2 where "s2 = move 0 AtMiss (sys_index s1) [] s1"
  obtain a i3 where i3: "store_bucket fun_map [1] (sys_index s2) = (a, i3)" by fastforce
  define s3 where "s3 = move 0 (AtBucket a) i3 [] s2"
  have th: "sys_threads s0 = [(?c0, Idle), (?c1, Idle)]" "sys_threads s1 = [(?c0, AtStart), (?c1, Idle)]"
    "sys_threads s2 = [(?c0, AtMiss), (?c1, Idle)]" "sys_threads s3 = [(?c0, AtBucket a), (?c1, Idle)]"
    by (simp_all add: s0_def s1_def s2_def s3_def move_def hash_start_def demo_calls_def)
  have i: "sys_index s1 = sys_index s0" "sys_index s3 = i3" "load_bucket fun_map [1] (sys_index s0) = None"
    by (simp_all add: s1_def s3_def move_def s0_def hash_start_def NewMemHashIndex_def load_bucket_def fun_map_def)
  have 1: "hash_step fun_map s0 s1" unfolding s1_def by (rule hash_step.invoke [of 0 _ ?c0]) (simp_all add: th)
  have 2: "hash_step fun_map s1 s2" unfolding s2_def by (rule hash_step.insert_miss [of 0 _ "[1]" nilRecordID]) (simp_all add: th i)
  have 3: "hash_step fun_map s2 s3" unfolding s3_def by (rule hash_step.insert_store [OF _ _ i3]) (simp_all add: th)
  have r2: "(hash_step fun_map)\<^sup>*\<^sup>* s0 s2" using 1 2 by simp
  have r3: "(hash_step fun_map)\<^sup>*\<^sup>* s0 s3" using r2 3 by simp
  have "hash_ok fun_map (sys_index s2)" using hash_reachable [OF r2 [unfolded s0_def] xsync_fun_map] by (simp add: hash_inv_def)
  then obtain i4 where i4: "insert_section a nilRecordID (sys_index s3) = Some (True, i4)"
    using insert_section_spec [OF store_bucket_spec(1,2) [OF xsync_fun_map _ i3], of nilRecordID] i(2) by auto
  define s4 where "s4 = move 0 (Returned []) i4 [(0, ?c0, [])] s3"
  have 4: "hash_step fun_map s3 s4" unfolding s4_def by (rule hash_step.insert_lock [OF _ _ i4]) (simp_all add: th)
  have r4: "(hash_step fun_map)\<^sup>*\<^sup>* s0 s4" using r3 4 by simp
  have pcs: "sys_threads s4 = [(?c0, Returned []), (?c1, Idle)]" by (simp add: s4_def move_def th)
  show ?thesis
    using hash_index_linearizable [OF xsync_fun_map r4 [unfolded s0_def]] r4 pcs
    by (intro exI [of _ s4]) (auto simp: demo_calls_def nth_Cons' s0_def simp del: log_of_Cons)
qed

section \<open>Index entries and transactions\<close>

text \<open>The index calls of an update that changes the key of a row.\<close>

definition hash_reindex :: "(bytes, nat, 'm) MapOf \<Rightarrow> 'i \<Rightarrow> Key \<Rightarrow> Key \<Rightarrow> RecordID \<Rightarrow> 'i TransactionContext option \<times> 'm MemHashIndex \<Rightarrow>
    ('i TransactionContext option \<times> 'm MemHashIndex) option" where
  "hash_reindex X self oldKey newKey rid st = (case st of (txn, index) \<Rightarrow> do {
     (txn, index) \<leftarrow> Hash_DeleteEntry X self oldKey rid txn index;
     Hash_InsertEntry X self newKey rid txn index
   })"

text \<open>The tasks of a transaction at its end, for the index they were registered by.\<close>

definition hash_task :: "(bytes, nat, 'm) MapOf \<Rightarrow> 'i IndexTask \<Rightarrow> 'm MemHashIndex option \<Rightarrow> 'm MemHashIndex option" where
  "hash_task X task w = do { index \<leftarrow> w; Hash_Invoke X (it_Type task) (it_Key task) (it_RID task) index }"

definition key_fits :: "Key \<Rightarrow> IndexMetadata \<Rightarrow> bool" where
  "key_fits key md \<longleftrightarrow> key_matches key md \<and> length (k_RawTuple key) = KeySize md"

lemma Hash_Invoke_spec:
  assumes "xsync_map X" "hash_ok X index" "length k = KeySize (hx_metadata index)"
  shows "delete_rids rid (entries X index k) = None \<Longrightarrow> Hash_Invoke X ty k rid index = None"
    and "delete_rids rid (entries X index k) = Some rids \<Longrightarrow> \<exists>index'. Hash_Invoke X ty k rid index = Some index' \<and> hash_ok X index' \<and>
      entries X index' = (entries X index)(k := rids) \<and> hx_metadata index' = hx_metadata index"
proof -
  let ?key = "\<lparr>k_RawTuple = k, k_schema = Some (KeySchema (hx_metadata index))\<rparr>"
  have k: "AsKey (hx_metadata index) k = Some ?key" using assms(3) by (simp add: AsKey_def slice_def KeySize_def)
  have m: "key_matches ?key (hx_metadata index)" by (simp add: key_matches_def same_schema_def)
  note de = Hash_DeleteEntry_spec [OF assms(1,2) m, where self = "()"]
  show "Hash_Invoke X ty k rid index = None" if "delete_rids rid (entries X index k) = None"
    using de(2) [of rid] that by (simp add: Hash_Invoke_def k)
  show "\<exists>index'. Hash_Invoke X ty k rid index = Some index' \<and> hash_ok X index' \<and>
      entries X index' = (entries X index)(k := rids) \<and> hx_metadata index' = hx_metadata index" if "delete_rids rid (entries X index k) = Some rids"
    using de(1) [of rid rids] that by (auto simp: Hash_Invoke_def k)
qed

text \<open>
  An update that changes the indexed key of a row and a later update in the same transaction that changes it back
  make the commit panic: the deletion of the old entry is deferred to the commit, the second update inserts the same
  entry again, and the commit task finds it twice.
\<close>

theorem hash_update_back_panics:
  assumes "xsync_map X" "hash_ok X index" "key_fits kA (hx_metadata index)" "key_fits kB (hx_metadata index)"
    "k_RawTuple kA \<noteq> k_RawTuple kB" "entries X index (k_RawTuple kA) = xs @ [rid]" "rid \<notin> set xs" "commitActions txn = []"
  shows "\<exists>txn' index'. do { st \<leftarrow> hash_reindex X self kA kB rid (Some txn, index); hash_reindex X self kB kA rid st } = Some (Some txn', index') \<and>
    Hash_ScanKey X kA [] index' = Some (xs @ [rid, rid]) \<and> Commit (hash_task X) txn' (Some index') = None"
proof -
  let ?a = "k_RawTuple kA" and ?b = "k_RawTuple kB" and ?md = "hx_metadata index"
  let ?del = "\<lambda>k. \<lparr>it_Target = self, it_Type = IndexOpDelete, it_Key = k, it_RID = rid\<rparr>"
    and ?undo = "\<lambda>k. \<lparr>it_Target = self, it_Type = IndexOpUndoInsert, it_Key = k, it_RID = rid\<rparr>"
  have m: "key_matches kA ?md" "key_matches kB ?md" "length ?a = KeySize ?md" using assms(3,4) by (simp_all add: key_fits_def)
  have la: "load_bucket X ?a index \<noteq> None" using assms(6) by (auto simp: entries_def split: option.splits)
  let ?t1 = "AddCommitTask (?del ?a) txn"
  have d1: "Hash_DeleteEntry X self kA rid (Some txn) index = Some (Some ?t1, index)"
    using Hash_DeleteEntry_spec(3) [OF assms(1,2) m(1)] la by simp
  obtain i2 where i2: "Hash_InsertEntry X self kB rid (Some ?t1) index = Some (Some (AddAbortTask (?undo ?b) ?t1), i2)" "hash_ok X i2"
    "entries X i2 = (entries X index)(?b := entries X index ?b @ [rid])" "hx_metadata i2 = ?md"
    using Hash_InsertEntry_spec [OF assms(1,2) m(2), of self rid "Some ?t1"] by auto
  let ?t2 = "AddAbortTask (?undo ?b) ?t1"
  have lb: "load_bucket X ?b i2 \<noteq> None" using i2(3) by (auto simp: entries_def fun_eq_iff split: option.splits dest!: spec [of _ ?b])
  let ?t3 = "AddCommitTask (?del ?b) ?t2"
  have d3: "Hash_DeleteEntry X self kB rid (Some ?t2) i2 = Some (Some ?t3, i2)"
    using Hash_DeleteEntry_spec(3) [OF assms(1) i2(2), of kB] m(2) i2(4) lb by simp
  obtain i4 where i4: "Hash_InsertEntry X self kA rid (Some ?t3) i2 = Some (Some (AddAbortTask (?undo ?a) ?t3), i4)" "hash_ok X i4"
    "entries X i4 = (entries X i2)(?a := entries X i2 ?a @ [rid])" "hx_metadata i4 = ?md"
    using Hash_InsertEntry_spec [OF assms(1) i2(2), of kA self rid "Some ?t3"] m(1) i2(4) by auto
  let ?t4 = "AddAbortTask (?undo ?a) ?t3"
  have ea: "entries X i4 ?a = xs @ [rid, rid]" using i4(3) i2(3) assms(5,6) by simp
  have "Hash_ScanKey X kA [] i4 = Some (xs @ [rid, rid])" using Hash_ScanKey_spec [OF i4(2), of kA "[]"] m(1) i4(4) ea by simp
  moreover have "Hash_Invoke X IndexOpDelete ?a rid i4 = None"
    using Hash_Invoke_spec(1) [OF assms(1) i4(2), of ?a] m(3) i4(4) ea delete_rids_twice [OF assms(7)] by simp
  then have "Commit (hash_task X) ?t4 (Some i4) = None"
    using assms(8) by (simp add: Commit_def AddAbortTask_def AddCommitTask_def hash_task_def)
  ultimately show ?thesis using d1 i2(1) d3 i4(1) by (simp add: hash_reindex_def)
qed

definition int_ref :: desc_ref where
  "int_ref = (7, \<lparr>d_fields = [IntType], d_offsets = [0], d_bytesPerRow = 8\<rparr>)"

definition int_key :: "bytes \<Rightarrow> Key" where
  "int_key bs = \<lparr>k_RawTuple = bs, k_schema = Some int_ref\<rparr>"

theorem hash_update_back_panics_witness:
  "\<exists>index txn' index'. Hash_InsertEntry fun_map () (int_key (replicate 8 1)) nilRecordID None (NewMemHashIndex fun_map int_ref [0]) = Some (None, index) \<and>
     do { st \<leftarrow> hash_reindex fun_map () (int_key (replicate 8 1)) (int_key (replicate 8 2)) nilRecordID (Some (NewTestTransactionContext 1), index);
          hash_reindex fun_map () (int_key (replicate 8 2)) (int_key (replicate 8 1)) nilRecordID st } = Some (Some txn', index') \<and>
     Commit (hash_task fun_map) txn' (Some index') = None"
proof -
  let ?i = "NewMemHashIndex fun_map int_ref [0]" and ?a = "int_key (replicate 8 1)"
  have ok: "hash_ok fun_map ?i" "entries fun_map ?i k = []" for k
    by (auto simp: hash_ok_def entries_def load_bucket_def NewMemHashIndex_def fun_map_def)
  have fit: "key_fits (int_key (replicate 8 b)) (hx_metadata ?i)" for b
    by (simp add: key_fits_def key_matches_def same_schema_def int_key_def int_ref_def NewMemHashIndex_def KeySize_def BytesPerTuple_def)
  obtain index where i: "Hash_InsertEntry fun_map () ?a nilRecordID None ?i = Some (None, index)" "hash_ok fun_map index"
    "entries fun_map index = (entries fun_map ?i)(k_RawTuple ?a := [nilRecordID])" "hx_metadata index = hx_metadata ?i"
    using Hash_InsertEntry_spec [OF xsync_fun_map ok(1), of ?a "()" nilRecordID None] fit [of 1] ok(2) by (auto simp: key_fits_def)
  have ne: "k_RawTuple ?a \<noteq> k_RawTuple (int_key (replicate 8 2))" by (simp add: int_key_def)
  have e: "entries fun_map index (k_RawTuple ?a) = [] @ [nilRecordID]" using i(3) by simp
  have c: "commitActions (NewTestTransactionContext 1 :: unit TransactionContext) = []" by (simp add: NewTestTransactionContext_def)
  from hash_update_back_panics [OF xsync_fun_map i(2) fit [folded i(4)] fit [folded i(4)] ne e _ c, of "()"]
  show ?thesis using i(1) by auto
qed

end
