(* ===== verification/Planner_Physical.thy ===== *)
theory Planner_Physical
  imports Planner_Rules Execution_Aggregate Catalog Indexing_Hash
begin

text \<open>
  From logical to physical plans: the plan nodes (\<open>planner/*_node.go\<close>), the conversion rules
  (\<open>planner/physical_plan_rule.go\<close>, \<open>planner/join_rules.go\<close> and the sequential scan of
  \<open>planner/scan_rules.go\<close>) and the builder that chooses among them (\<open>planner/physical_plan_builder.go\<close>).

  The logical nodes with one child are the operators \<open>logical_op\<close> of \<open>LogicalUnaryNode\<close>, built by one constructor
  function each. A rule is a record of the methods of the interface \<open>PhysicalConversionRule\<close>; the builder takes any
  list of them, and \<open>physicalRules\<close> is the list that \<open>main.go\<close> installs. A result \<open>None\<close> is a panic, \<open>Inl\<close> an error.
  Output schemas that nodes store on construction are computed from the immutable nodes. The set of conditions
  a join rule has used compares pointers; here a condition is its position among the conditions of the join. The
  updates of an UPDATE are listed in the order in which Go ranges over the map.

  What a physical plan returns is defined on rows: the meaning of each node is what its executor is shown to yield
  in the theories of the executors; joins by hash or merging and materialisation, whose executors are not implemented,
  mean what the comments of their nodes say. The theorems show that the installed rules turn every logical
  plan whose columns resolve into a physical plan with the same rows, also after predicate push-down, and which
  plans the rules get wrong.
\<close>

section \<open>Logical operators\<close>

datatype logical_op =
    ProjectionOp "Expr list"
  | SortOp "OrderByClause list"
  | LimitOp int int
  | AggregationOp "Expr list" "AggregateClause list"
  | SubqueryOp TableRef
  | InsertOp ObjectID
  | DeleteOp ObjectID
  | UpdateOp ObjectID "(LogicalColumn \<times> Expr) list"

type_synonym LogicalPlanNode = "logical_op plan"

definition NewLogicalProjectionNode :: "LogicalPlanNode \<Rightarrow> Expr list \<Rightarrow> LogicalSchema \<Rightarrow> LogicalPlanNode" where
  "NewLogicalProjectionNode child exprs schema = LogicalUnaryNode (ProjectionOp exprs) schema child"

definition NewLogicalSortNode :: "LogicalPlanNode \<Rightarrow> OrderByClause list \<Rightarrow> LogicalPlanNode" where
  "NewLogicalSortNode child orderBy = LogicalUnaryNode (SortOp orderBy) (OutputSchema child) child"

definition NewLogicalLimitNode :: "LogicalPlanNode \<Rightarrow> int \<Rightarrow> int \<Rightarrow> LogicalPlanNode" where
  "NewLogicalLimitNode child limit offset = LogicalUnaryNode (LimitOp limit offset) (OutputSchema child) child"

definition count_column :: "string \<Rightarrow> LogicalColumn" where
  "count_column nm = \<lparr>cname = nm, ctype = IntType, origin = None\<rparr>"

definition NewLogicalInsertNode :: "ObjectID \<Rightarrow> LogicalPlanNode \<Rightarrow> LogicalPlanNode" where
  "NewLogicalInsertNode tableOid child = LogicalUnaryNode (InsertOp tableOid) [count_column ''count''] child"

definition NewLogicalDeleteNode :: "ObjectID \<Rightarrow> LogicalPlanNode \<Rightarrow> LogicalPlanNode" where
  "NewLogicalDeleteNode tableOid child = LogicalUnaryNode (DeleteOp tableOid) [count_column ''deleted_count''] child"

definition NewLogicalUpdateNode :: "ObjectID \<Rightarrow> LogicalPlanNode \<Rightarrow> (LogicalColumn \<times> Expr) list \<Rightarrow> LogicalPlanNode" where
  "NewLogicalUpdateNode tableOid child updates = LogicalUnaryNode (UpdateOp tableOid updates) [count_column ''count''] child"

text \<open>\<open>LogicalScanNode.GetTableOid\<close> panics for a reference to a subquery.\<close>

definition GetTableOid :: "ScanNode \<Rightarrow> ObjectID option" where
  "GetTableOid n = tr_table (sn_TableRef n)"

section \<open>Physical plan nodes\<close>

datatype PlanNode =
    SeqScanNode ObjectID "Type list" DBLockMode
  | IndexScanNode ObjectID ObjectID "Type list" ScanDirection Key bool
  | IndexLookupNode ObjectID ObjectID "Type list" Key bool
  | ValuesPlan "Expr list list" "Type list"
  | FilterNode PlanNode Expr
  | ProjectionNode PlanNode "Expr list"
  | LimitNode PlanNode int
  | SortNode PlanNode "OrderByClause list"
  | TopNNode PlanNode int "OrderByClause list"
  | MaterializeNode PlanNode
  | AggregatePlan PlanNode "Expr list" "AggregateClause list"
  | InsertNode ObjectID PlanNode
  | DeleteNode ObjectID PlanNode
  | UpdateNode ObjectID PlanNode "Expr list"
  | NestedLoopJoinNode PlanNode PlanNode Expr
  | IndexNestedLoopJoinNode PlanNode ObjectID ObjectID "Expr list" "Type list" bool
  | HashJoinNode PlanNode PlanNode "Expr list" "Expr list"
  | SortMergeJoinNode PlanNode PlanNode "Expr list" "Expr list"

fun PlanNode_OutputSchema :: "PlanNode \<Rightarrow> Type list" where
  "PlanNode_OutputSchema (SeqScanNode _ ts _) = ts"
| "PlanNode_OutputSchema (IndexScanNode _ _ ts _ _ _) = ts"
| "PlanNode_OutputSchema (IndexLookupNode _ _ ts _ _) = ts"
| "PlanNode_OutputSchema (ValuesPlan _ ts) = ts"
| "PlanNode_OutputSchema (FilterNode c _) = PlanNode_OutputSchema c"
| "PlanNode_OutputSchema (ProjectionNode _ es) = map OutputType es"
| "PlanNode_OutputSchema (LimitNode c _) = PlanNode_OutputSchema c"
| "PlanNode_OutputSchema (SortNode c _) = PlanNode_OutputSchema c"
| "PlanNode_OutputSchema (TopNNode c _ _) = PlanNode_OutputSchema c"
| "PlanNode_OutputSchema (MaterializeNode c) = PlanNode_OutputSchema c"
| "PlanNode_OutputSchema (AggregatePlan _ groupBy aggs) = map OutputType groupBy @ map (OutputType \<circ> ac_Expr) aggs"
| "PlanNode_OutputSchema (InsertNode _ _) = [IntType]"
| "PlanNode_OutputSchema (DeleteNode _ _) = [IntType]"
| "PlanNode_OutputSchema (UpdateNode _ _ _) = [IntType]"
| "PlanNode_OutputSchema (NestedLoopJoinNode l r _) = PlanNode_OutputSchema l @ PlanNode_OutputSchema r"
| "PlanNode_OutputSchema (IndexNestedLoopJoinNode l _ _ _ inner _) = PlanNode_OutputSchema l @ inner"
| "PlanNode_OutputSchema (HashJoinNode l r _ _) = PlanNode_OutputSchema l @ PlanNode_OutputSchema r"
| "PlanNode_OutputSchema (SortMergeJoinNode l r _ _) = PlanNode_OutputSchema l @ PlanNode_OutputSchema r"

section \<open>Rules\<close>

datatype plan_error = CatalogError GoDBError | PlanError string

type_synonym built_plan = "(plan_error + PlanNode) option"

record PhysicalConversionRule =
  rule_Name :: string
  rule_Match :: "LogicalPlanNode \<Rightarrow> PlanNode list \<Rightarrow> Catalog \<Rightarrow> bool option"
  rule_Apply :: "LogicalPlanNode \<Rightarrow> PlanNode list \<Rightarrow> Catalog \<Rightarrow> built_plan"
  rule_Priority :: int

definition tableSchemaToTypes :: "Table \<Rightarrow> Type list" where
  "tableSchemaToTypes t = map col_Type (tb_Columns t)"

definition wrapInFilter :: "PlanNode \<Rightarrow> Expr list \<Rightarrow> LogicalSchema \<Rightarrow> PlanNode option" where
  "wrapInFilter child preds logicalInputSchema =
     (case preds of
        [] \<Rightarrow> Some child
      | p # ps \<Rightarrow> do {
          let finalPred = fold (\<lambda>p acc. BinaryLogicExpression acc p And) ps p;
          physPred \<leftarrow> BindExpr finalPred logicalInputSchema (PlanNode_OutputSchema child);
          Some (FilterNode child physPred)
        })"

definition bind_all :: "Expr list \<Rightarrow> LogicalSchema \<Rightarrow> Type list \<Rightarrow> Expr list option" where
  "bind_all es ls ps = those (map (\<lambda>e. BindExpr e ls ps) es)"

definition getIdentityPhysicalExprs :: "LogicalSchema \<Rightarrow> Type list \<Rightarrow> Expr list option" where
  "getIdentityPhysicalExprs logicalSchema physicalInputSchema =
     bind_all (map LogicalColumnExpr logicalSchema) logicalSchema physicalInputSchema"

fun LimitRule_Apply :: "LogicalPlanNode \<Rightarrow> PlanNode list \<Rightarrow> Catalog \<Rightarrow> built_plan" where
  "LimitRule_Apply (LogicalUnaryNode (LimitOp limit offset) _ _) (childPlan # _) c =
     (case childPlan of
        SortNode sortChild orderBy \<Rightarrow> Some (Inr (TopNNode sortChild limit orderBy))
      | _ \<Rightarrow> Some (Inr (LimitNode childPlan limit)))"
| "LimitRule_Apply _ _ _ = None"

fun SortRule_Apply :: "LogicalPlanNode \<Rightarrow> PlanNode list \<Rightarrow> Catalog \<Rightarrow> built_plan" where
  "SortRule_Apply (LogicalUnaryNode (SortOp orderBy) _ child) (childPlan # _) c = do {
     es \<leftarrow> bind_all (map ob_Expr orderBy) (OutputSchema child) (PlanNode_OutputSchema childPlan);
     Some (Inr (SortNode childPlan (map2 (\<lambda>e ob. \<lparr>ob_Expr = e, ob_Direction = ob_Direction ob\<rparr>) es orderBy)))
   }"
| "SortRule_Apply _ _ _ = None"

fun FilterRule_Apply :: "LogicalPlanNode \<Rightarrow> PlanNode list \<Rightarrow> Catalog \<Rightarrow> built_plan" where
  "FilterRule_Apply (LogicalFilterNode child predicate) (childPlan # _) c = do {
     physPred \<leftarrow> BindExpr predicate (OutputSchema child) (PlanNode_OutputSchema childPlan);
     Some (Inr (FilterNode childPlan physPred))
   }"
| "FilterRule_Apply _ _ _ = None"

text \<open>The loop that fuses a projection into the one below; an error falls back to a node of its own.\<close>

primrec fuse_all :: "Expr list \<Rightarrow> LogicalSchema \<Rightarrow> Expr list \<Rightarrow> (string + Expr list) option" where
  "fuse_all [] ls ces = Some (Inr [])"
| "fuse_all (e # es) ls ces = fused (FuseProjectionIntoExpr e ls ces) (\<lambda>e. fused (fuse_all es ls ces) (\<lambda>es. Some (Inr (e # es))))"

definition RawOutputSchema :: "LogicalPlanNode \<Rightarrow> LogicalSchema" where
  "RawOutputSchema child = (case child of LogicalScanNode scan \<Rightarrow> sn_schema scan | _ \<Rightarrow> OutputSchema child)"

definition own_projection :: "Expr list \<Rightarrow> LogicalPlanNode \<Rightarrow> PlanNode \<Rightarrow> built_plan" where
  "own_projection exprs child childPlan = do {
     physExprs \<leftarrow> bind_all exprs (RawOutputSchema child) (PlanNode_OutputSchema childPlan);
     Some (Inr (ProjectionNode childPlan physExprs))
   }"

definition project_onto :: "Expr list \<Rightarrow> LogicalPlanNode \<Rightarrow> PlanNode \<Rightarrow> built_plan" where
  "project_onto exprs child childPlan =
     (case childPlan of
        ProjectionNode below childExprs \<Rightarrow> do {
          f \<leftarrow> fuse_all exprs (OutputSchema child) childExprs;
          (case f of
             Inr physExprs \<Rightarrow> Some (Inr (ProjectionNode below physExprs))
           | Inl _ \<Rightarrow> own_projection exprs child childPlan)
        }
      | _ \<Rightarrow> own_projection exprs child childPlan)"

fun ProjectionRule_Apply :: "LogicalPlanNode \<Rightarrow> PlanNode list \<Rightarrow> Catalog \<Rightarrow> built_plan" where
  "ProjectionRule_Apply (LogicalUnaryNode (ProjectionOp exprs) _ child) (childPlan # _) c = project_onto exprs child childPlan"
| "ProjectionRule_Apply _ _ _ = None"

fun AggregationRule_Apply :: "LogicalPlanNode \<Rightarrow> PlanNode list \<Rightarrow> Catalog \<Rightarrow> built_plan" where
  "AggregationRule_Apply (LogicalUnaryNode (AggregationOp groupBy aggs) _ child) (childPlan # _) c = do {
     physGroupBy \<leftarrow> bind_all groupBy (OutputSchema child) (PlanNode_OutputSchema childPlan);
     es \<leftarrow> bind_all (map ac_Expr aggs) (OutputSchema child) (PlanNode_OutputSchema childPlan);
     Some (Inr (AggregatePlan childPlan physGroupBy (map2 (\<lambda>e clause. \<lparr>ac_Type = ac_Type clause, ac_Expr = e\<rparr>) es aggs)))
   }"
| "AggregationRule_Apply _ _ _ = None"

fun SubqueryRule_Apply :: "LogicalPlanNode \<Rightarrow> PlanNode list \<Rightarrow> Catalog \<Rightarrow> built_plan" where
  "SubqueryRule_Apply _ (childPlan # _) c = Some (Inr (MaterializeNode childPlan))"
| "SubqueryRule_Apply _ _ _ = None"

fun InsertRule_Apply :: "LogicalPlanNode \<Rightarrow> PlanNode list \<Rightarrow> Catalog \<Rightarrow> built_plan" where
  "InsertRule_Apply (LogicalUnaryNode (InsertOp tableOid) _ _) (childPlan # _) c = Some (Inr (InsertNode tableOid childPlan))"
| "InsertRule_Apply _ _ _ = None"

fun DeleteRule_Apply :: "LogicalPlanNode \<Rightarrow> PlanNode list \<Rightarrow> Catalog \<Rightarrow> built_plan" where
  "DeleteRule_Apply (LogicalUnaryNode (DeleteOp tableOid) _ _) (childPlan # _) c = Some (Inr (DeleteNode tableOid childPlan))"
| "DeleteRule_Apply _ _ _ = None"

definition update_expr :: "(LogicalColumn \<times> Expr) list \<Rightarrow> LogicalSchema \<Rightarrow> Type list \<Rightarrow> nat \<Rightarrow> Column \<Rightarrow> Expr option" where
  "update_expr updates ls ps colIdx targetCol =
     (case find (\<lambda>(col, _). cname col = col_Name targetCol) updates of
        None \<Rightarrow> Some (BoundValueExpr (int colIdx) (col_Type targetCol) (col_Name targetCol))
      | Some (_, updateExpr) \<Rightarrow> BindExpr updateExpr ls ps)"

fun UpdateRule_Apply :: "LogicalPlanNode \<Rightarrow> PlanNode list \<Rightarrow> Catalog \<Rightarrow> built_plan" where
  "UpdateRule_Apply (LogicalUnaryNode (UpdateOp tableOid updates) _ child) (physicalChild # _) c =
     (case GetTableByOid tableOid c of
        Inl err \<Rightarrow> Some (Inl (CatalogError err))
      | Inr table \<Rightarrow> do {
          physUpdates \<leftarrow> those (map2 (update_expr updates (OutputSchema child) (PlanNode_OutputSchema physicalChild))
            [0..<length (tb_Columns table)] (tb_Columns table));
          Some (Inr (UpdateNode tableOid physicalChild physUpdates))
        })"
| "UpdateRule_Apply _ _ _ = None"

fun ValuesRule_Apply :: "LogicalPlanNode \<Rightarrow> PlanNode list \<Rightarrow> Catalog \<Rightarrow> built_plan" where
  "ValuesRule_Apply (LogicalValuesNode vs schema) _ c = do {
     physValues \<leftarrow> those (map (\<lambda>es. bind_all es [] []) vs);
     Some (Inr (ValuesPlan physValues (map ctype schema)))
   }"
| "ValuesRule_Apply _ _ _ = None"

fun SeqScanRule_Apply :: "LogicalPlanNode \<Rightarrow> PlanNode list \<Rightarrow> Catalog \<Rightarrow> built_plan" where
  "SeqScanRule_Apply (LogicalScanNode scan) _ c = do {
     oid \<leftarrow> GetTableOid scan;
     (case GetTableByOid oid c of
        Inl err \<Rightarrow> Some (Inl (CatalogError err))
      | Inr table \<Rightarrow> do {
          let lockMode = (if sn_ForUpdate scan then LockModeX else LockModeS);
          let physicalNode = SeqScanNode oid (tableSchemaToTypes table) lockMode;
          plan \<leftarrow> wrapInFilter physicalNode (sn_Predicates scan) (sn_schema scan);
          (case sn_projection scan of
             Some (exprs, _) \<Rightarrow> project_onto exprs (LogicalScanNode scan) plan
           | None \<Rightarrow> Some (Inr plan))
        })
   }"
| "SeqScanRule_Apply _ _ _ = None"

text \<open>The rules match by the type of the node.\<close>

fun is_limit :: "LogicalPlanNode \<Rightarrow> bool" where
  "is_limit (LogicalUnaryNode (LimitOp _ _) _ _) = True" | "is_limit _ = False"
fun is_sort :: "LogicalPlanNode \<Rightarrow> bool" where
  "is_sort (LogicalUnaryNode (SortOp _) _ _) = True" | "is_sort _ = False"
fun is_filter :: "LogicalPlanNode \<Rightarrow> bool" where
  "is_filter (LogicalFilterNode _ _) = True" | "is_filter _ = False"
fun is_projection :: "LogicalPlanNode \<Rightarrow> bool" where
  "is_projection (LogicalUnaryNode (ProjectionOp _) _ _) = True" | "is_projection _ = False"
fun is_aggregation :: "LogicalPlanNode \<Rightarrow> bool" where
  "is_aggregation (LogicalUnaryNode (AggregationOp _ _) _ _) = True" | "is_aggregation _ = False"
fun is_subquery :: "LogicalPlanNode \<Rightarrow> bool" where
  "is_subquery (LogicalUnaryNode (SubqueryOp _) _ _) = True" | "is_subquery _ = False"
fun is_insert :: "LogicalPlanNode \<Rightarrow> bool" where
  "is_insert (LogicalUnaryNode (InsertOp _) _ _) = True" | "is_insert _ = False"
fun is_delete :: "LogicalPlanNode \<Rightarrow> bool" where
  "is_delete (LogicalUnaryNode (DeleteOp _) _ _) = True" | "is_delete _ = False"
fun is_update :: "LogicalPlanNode \<Rightarrow> bool" where
  "is_update (LogicalUnaryNode (UpdateOp _ _) _ _) = True" | "is_update _ = False"
fun is_values :: "LogicalPlanNode \<Rightarrow> bool" where
  "is_values (LogicalValuesNode _ _) = True" | "is_values _ = False"
fun is_scan :: "LogicalPlanNode \<Rightarrow> bool" where
  "is_scan (LogicalScanNode _) = True" | "is_scan _ = False"
fun is_join :: "LogicalPlanNode \<Rightarrow> bool" where
  "is_join (LogicalJoinNode _ _ _ _) = True" | "is_join _ = False"

definition LimitRule :: PhysicalConversionRule where
  "LimitRule = \<lparr>rule_Name = ''LimitRule'', rule_Match = (\<lambda>n _ _. Some (is_limit n)), rule_Apply = LimitRule_Apply, rule_Priority = 0\<rparr>"
definition SortRule :: PhysicalConversionRule where
  "SortRule = \<lparr>rule_Name = ''SortRule'', rule_Match = (\<lambda>n _ _. Some (is_sort n)), rule_Apply = SortRule_Apply, rule_Priority = 0\<rparr>"
definition FilterRule :: PhysicalConversionRule where
  "FilterRule = \<lparr>rule_Name = ''FilterRule'', rule_Match = (\<lambda>n _ _. Some (is_filter n)), rule_Apply = FilterRule_Apply, rule_Priority = 0\<rparr>"
definition ProjectionRule :: PhysicalConversionRule where
  "ProjectionRule = \<lparr>rule_Name = ''ProjectionRule'', rule_Match = (\<lambda>n _ _. Some (is_projection n)),
     rule_Apply = ProjectionRule_Apply, rule_Priority = 0\<rparr>"
definition AggregationRule :: PhysicalConversionRule where
  "AggregationRule = \<lparr>rule_Name = ''AggregationRule'', rule_Match = (\<lambda>n _ _. Some (is_aggregation n)),
     rule_Apply = AggregationRule_Apply, rule_Priority = 0\<rparr>"
definition SubqueryRule :: PhysicalConversionRule where
  "SubqueryRule = \<lparr>rule_Name = ''SubqueryRule'', rule_Match = (\<lambda>n _ _. Some (is_subquery n)),
     rule_Apply = SubqueryRule_Apply, rule_Priority = 0\<rparr>"
definition InsertRule :: PhysicalConversionRule where
  "InsertRule = \<lparr>rule_Name = ''InsertRule'', rule_Match = (\<lambda>n _ _. Some (is_insert n)), rule_Apply = InsertRule_Apply, rule_Priority = 0\<rparr>"
definition DeleteRule :: PhysicalConversionRule where
  "DeleteRule = \<lparr>rule_Name = ''DeleteRule'', rule_Match = (\<lambda>n _ _. Some (is_delete n)), rule_Apply = DeleteRule_Apply, rule_Priority = 0\<rparr>"
definition UpdateRule :: PhysicalConversionRule where
  "UpdateRule = \<lparr>rule_Name = ''UpdateRule'', rule_Match = (\<lambda>n _ _. Some (is_update n)), rule_Apply = UpdateRule_Apply, rule_Priority = 0\<rparr>"
definition ValuesRule :: PhysicalConversionRule where
  "ValuesRule = \<lparr>rule_Name = ''ValuesRule'', rule_Match = (\<lambda>n _ _. Some (is_values n)), rule_Apply = ValuesRule_Apply, rule_Priority = 0\<rparr>"
definition SeqScanRule :: PhysicalConversionRule where
  "SeqScanRule = \<lparr>rule_Name = ''SeqScanRule'', rule_Match = (\<lambda>n _ _. Some (is_scan n)), rule_Apply = SeqScanRule_Apply, rule_Priority = 0\<rparr>"

section \<open>Join rules\<close>

definition and_also :: "bool option \<Rightarrow> bool option \<Rightarrow> bool option" where
  "and_also a b = do { x \<leftarrow> a; (if x then b else Some False) }"

fun isEquiJoin :: "Expr \<Rightarrow> LogicalSchema \<Rightarrow> LogicalSchema \<Rightarrow> (Expr list \<times> Expr list) option option" where
  "isEquiJoin (ComparisonExpression l r compType) ls rs =
     (if compType \<noteq> Equal then Some None
      else do {
        b \<leftarrow> and_also (CoversExpr ls l) (CoversExpr rs r);
        (if b then Some (Some ([l], [r]))
         else do {
           b \<leftarrow> and_also (CoversExpr ls r) (CoversExpr rs l);
           Some (if b then Some ([r], [l]) else None)
         })
      })"
| "isEquiJoin (BinaryLogicExpression l r logicType) ls rs =
     (if logicType \<noteq> And then Some None
      else do {
        a \<leftarrow> isEquiJoin l ls rs;
        b \<leftarrow> isEquiJoin r ls rs;
        let lKeys = (case a of Some (lk, _) \<Rightarrow> lk | None \<Rightarrow> []) @ (case b of Some (lk, _) \<Rightarrow> lk | None \<Rightarrow> []);
        let rKeys = (case a of Some (_, rk) \<Rightarrow> rk | None \<Rightarrow> []) @ (case b of Some (_, rk) \<Rightarrow> rk | None \<Rightarrow> []);
        Some (if lKeys \<noteq> [] \<and> rKeys \<noteq> [] then Some (lKeys, rKeys) else None)
      })"
| "isEquiJoin _ ls rs = Some None"

record JoinKeyPair =
  jk_Left :: Expr
  jk_Right :: Expr
  jk_Original :: nat

fun equi_pairs :: "nat \<Rightarrow> Expr list \<Rightarrow> LogicalSchema \<Rightarrow> LogicalSchema \<Rightarrow> JoinKeyPair list option" where
  "equi_pairs i [] ls rs = Some []"
| "equi_pairs i (cond # conds) ls rs = do {
     m \<leftarrow> isEquiJoin cond ls rs;
     let here = (case m of
       Some (lKeys, rKeys) \<Rightarrow> map2 (\<lambda>l r. \<lparr>jk_Left = l, jk_Right = r, jk_Original = i\<rparr>) lKeys rKeys
     | None \<Rightarrow> []);
     pairs \<leftarrow> equi_pairs (Suc i) conds ls rs;
     Some (here @ pairs)
   }"

definition getEquiJoinKeys :: "LogicalPlanNode \<Rightarrow> LogicalPlanNode \<Rightarrow> Expr list \<Rightarrow> JoinKeyPair list option" where
  "getEquiJoinKeys left right joinOn = equi_pairs 0 joinOn (OutputSchema left) (OutputSchema right)"

definition unused_conds :: "nat set \<Rightarrow> Expr list \<Rightarrow> Expr list" where
  "unused_conds used joinOn = map snd (filter (\<lambda>(i, _). i \<notin> used) (enumerate 0 joinOn))"

definition getNonEquiConditions :: "Expr list \<Rightarrow> JoinKeyPair list \<Rightarrow> Expr list" where
  "getNonEquiConditions joinOn equiKeys = unused_conds (set (map jk_Original equiKeys)) joinOn"

record JoinIndexMatch =
  jm_NumMatchedColumns :: nat
  jm_ProbeKeys :: "Expr list"
  jm_MatchedJoinOns :: "nat list"

definition right_column_is :: "string \<Rightarrow> JoinKeyPair \<Rightarrow> bool" where
  "right_column_is name pair = (case jk_Right pair of LogicalColumnExpr c \<Rightarrow> cname c = name | _ \<Rightarrow> False)"

fun analyze_columns :: "string list \<Rightarrow> JoinKeyPair list \<Rightarrow> JoinIndexMatch \<Rightarrow> JoinIndexMatch" where
  "analyze_columns [] equiKeys m = m"
| "analyze_columns (idxCol # cols) equiKeys m =
     (case find (right_column_is idxCol) equiKeys of
        None \<Rightarrow> m
      | Some pair \<Rightarrow> analyze_columns cols equiKeys (m\<lparr>jm_NumMatchedColumns := jm_NumMatchedColumns m + 1,
          jm_ProbeKeys := jm_ProbeKeys m @ [jk_Left pair], jm_MatchedJoinOns := jm_MatchedJoinOns m @ [jk_Original pair]\<rparr>))"

definition analyzeJoinIndex :: "Index \<Rightarrow> JoinKeyPair list \<Rightarrow> JoinIndexMatch" where
  "analyzeJoinIndex index equiKeys =
     analyze_columns (ix_KeySchema index) equiKeys \<lparr>jm_NumMatchedColumns = 0, jm_ProbeKeys = [], jm_MatchedJoinOns = []\<rparr>"

fun first_key_matches :: "Index \<Rightarrow> JoinKeyPair list \<Rightarrow> bool option" where
  "first_key_matches index [] = Some False"
| "first_key_matches index (pair # pairs) =
     (case jk_Right pair of
        LogicalColumnExpr c \<Rightarrow> do {
          k \<leftarrow> idx (ix_KeySchema index) 0;
          (if cname c = k then Some True else first_key_matches index pairs)
        }
      | _ \<Rightarrow> first_key_matches index pairs)"

fun some_index_matches :: "Index list \<Rightarrow> JoinKeyPair list \<Rightarrow> bool option" where
  "some_index_matches [] pairs = Some False"
| "some_index_matches (index # indexes) pairs = do {
     b \<leftarrow> first_key_matches index pairs;
     (if b then Some True else some_index_matches indexes pairs)
   }"

fun IndexNestedLoopJoinRule_Match :: "LogicalPlanNode \<Rightarrow> PlanNode list \<Rightarrow> Catalog \<Rightarrow> bool option" where
  "IndexNestedLoopJoinRule_Match (LogicalJoinNode left right joinOn _) ps c = do {
     equiKeys \<leftarrow> getEquiJoinKeys left right joinOn;
     (if equiKeys = [] then Some False
      else (case right of
        LogicalScanNode rightScan \<Rightarrow> do {
          oid \<leftarrow> GetTableOid rightScan;
          (case GetTableByOid oid c of
             Inl _ \<Rightarrow> Some False
           | Inr table \<Rightarrow> some_index_matches (tb_Indexes table) equiKeys)
        }
      | _ \<Rightarrow> Some False))
   }"
| "IndexNestedLoopJoinRule_Match _ ps c = Some False"

fun shift_all :: "Expr list \<Rightarrow> int \<Rightarrow> Expr list option" where
  "shift_all es k = those (map (\<lambda>e. ShiftExpr e k) es)"

fun IndexNestedLoopJoinRule_Apply :: "LogicalPlanNode \<Rightarrow> PlanNode list \<Rightarrow> Catalog \<Rightarrow> built_plan" where
  "IndexNestedLoopJoinRule_Apply (LogicalJoinNode left (LogicalScanNode rightScan) joinOn _) [leftPlan, rightPlan] c = do {
     equiKeys \<leftarrow> getEquiJoinKeys left (LogicalScanNode rightScan) joinOn;
     oid \<leftarrow> GetTableOid rightScan;
     table \<leftarrow> (case GetTableByOid oid c of Inl _ \<Rightarrow> None | Inr table \<Rightarrow> Some table);
     (case find (\<lambda>index. jm_NumMatchedColumns (analyzeJoinIndex index equiKeys) = length (ix_KeySchema index)) (tb_Indexes table) of
        None \<Rightarrow> Some (Inl (PlanError ''IndexNestedLoopJoinRule: matched but failed to find index in Apply''))
      | Some bestIdx \<Rightarrow> do {
          let bestMatch = analyzeJoinIndex bestIdx equiKeys;
          physProbeKeys \<leftarrow> bind_all (jm_ProbeKeys bestMatch) (OutputSchema left) (PlanNode_OutputSchema leftPlan);
          let joinNode = IndexNestedLoopJoinNode leftPlan oid (ix_Oid bestIdx) physProbeKeys (tableSchemaToTypes table) False;
          let residuals = unused_conds (set (jm_MatchedJoinOns bestMatch)) joinOn;
          let fullLogicalSchema = OutputSchema left @ OutputSchema (LogicalScanNode rightScan :: LogicalPlanNode);
          top \<leftarrow> (case sn_projection rightScan of
            None \<Rightarrow> Some joinNode
          | Some _ \<Rightarrow> do {
              leftExprs \<leftarrow> getIdentityPhysicalExprs (OutputSchema left) (PlanNode_OutputSchema leftPlan);
              es \<leftarrow> (case rightPlan of ProjectionNode _ es \<Rightarrow> Some es | _ \<Rightarrow> None);
              rightExprs \<leftarrow> shift_all es (int (length leftExprs));
              Some (ProjectionNode joinNode (leftExprs @ rightExprs))
            });
          plan \<leftarrow> wrapInFilter top residuals fullLogicalSchema;
          Some (Inr plan)
        })
   }"
| "IndexNestedLoopJoinRule_Apply _ _ _ = None"

fun is_index_scan :: "PlanNode \<Rightarrow> bool" where
  "is_index_scan (IndexScanNode _ _ _ _ _ _) = True"
| "is_index_scan (ProjectionNode (IndexScanNode _ _ _ _ _ _) _) = True"
| "is_index_scan _ = False"

fun SortMergeJoinRule_Match :: "LogicalPlanNode \<Rightarrow> PlanNode list \<Rightarrow> Catalog \<Rightarrow> bool option" where
  "SortMergeJoinRule_Match (LogicalJoinNode left right joinOn _) ps c = do {
     keys \<leftarrow> getEquiJoinKeys left right joinOn;
     (if keys = [] then Some False
      else do { c1 \<leftarrow> idx ps 0; c2 \<leftarrow> idx ps 1; Some (is_index_scan c1 \<and> is_index_scan c2) })
   }"
| "SortMergeJoinRule_Match _ ps c = Some False"

text \<open>The two rules for joins on equal keys differ in the node they make.\<close>

definition equi_join_plan :: "(PlanNode \<Rightarrow> PlanNode \<Rightarrow> Expr list \<Rightarrow> Expr list \<Rightarrow> PlanNode) \<Rightarrow> LogicalPlanNode \<Rightarrow> LogicalPlanNode \<Rightarrow>
    Expr list \<Rightarrow> PlanNode \<Rightarrow> PlanNode \<Rightarrow> built_plan" where
  "equi_join_plan node left right joinOn leftPlan rightPlan = do {
     keys \<leftarrow> getEquiJoinKeys left right joinOn;
     physLeftKeys \<leftarrow> bind_all (map jk_Left keys) (OutputSchema left) (PlanNode_OutputSchema leftPlan);
     physRightKeys \<leftarrow> bind_all (map jk_Right keys) (OutputSchema right) (PlanNode_OutputSchema rightPlan);
     plan \<leftarrow> wrapInFilter (node leftPlan rightPlan physLeftKeys physRightKeys) (getNonEquiConditions joinOn keys)
       (OutputSchema left @ OutputSchema right);
     Some (Inr plan)
   }"

fun SortMergeJoinRule_Apply :: "LogicalPlanNode \<Rightarrow> PlanNode list \<Rightarrow> Catalog \<Rightarrow> built_plan" where
  "SortMergeJoinRule_Apply (LogicalJoinNode left right joinOn _) (leftPlan # rightPlan # _) c =
     equi_join_plan SortMergeJoinNode left right joinOn leftPlan rightPlan"
| "SortMergeJoinRule_Apply _ _ _ = None"

fun HashJoinRule_Match :: "LogicalPlanNode \<Rightarrow> PlanNode list \<Rightarrow> Catalog \<Rightarrow> bool option" where
  "HashJoinRule_Match (LogicalJoinNode left right joinOn _) ps c = do {
     keys \<leftarrow> getEquiJoinKeys left right joinOn;
     Some (keys \<noteq> [])
   }"
| "HashJoinRule_Match _ ps c = Some False"

fun HashJoinRule_Apply :: "LogicalPlanNode \<Rightarrow> PlanNode list \<Rightarrow> Catalog \<Rightarrow> built_plan" where
  "HashJoinRule_Apply (LogicalJoinNode left right joinOn _) (leftPlan # rightPlan # _) c =
     equi_join_plan HashJoinNode left right joinOn leftPlan rightPlan"
| "HashJoinRule_Apply _ _ _ = None"

fun rescannable :: "PlanNode \<Rightarrow> bool" where
  "rescannable (SeqScanNode _ _ _) = True"
| "rescannable (IndexScanNode _ _ _ _ _ _) = True"
| "rescannable (IndexLookupNode _ _ _ _ _) = True"
| "rescannable (MaterializeNode _) = True"
| "rescannable _ = False"

fun BlockNestedLoopJoinRule_Apply :: "LogicalPlanNode \<Rightarrow> PlanNode list \<Rightarrow> Catalog \<Rightarrow> built_plan" where
  "BlockNestedLoopJoinRule_Apply (LogicalJoinNode left right joinOn _) (leftPlan # rightPlan # _) c = do {
     let rightPlan = (if rescannable rightPlan then rightPlan else MaterializeNode rightPlan);
     let finalPred = (case MergePredicates joinOn of Some p \<Rightarrow> p | None \<Rightarrow> ConstantValueExpr (NewIntValue 1));
     physPred \<leftarrow> BindExpr finalPred (OutputSchema left @ OutputSchema right) (PlanNode_OutputSchema leftPlan @ PlanNode_OutputSchema rightPlan);
     Some (Inr (NestedLoopJoinNode leftPlan rightPlan physPred))
   }"
| "BlockNestedLoopJoinRule_Apply _ _ _ = None"

definition IndexNestedLoopJoinRule :: PhysicalConversionRule where
  "IndexNestedLoopJoinRule = \<lparr>rule_Name = ''IndexNestedLoopJoin'', rule_Match = IndexNestedLoopJoinRule_Match,
     rule_Apply = IndexNestedLoopJoinRule_Apply, rule_Priority = 2\<rparr>"
definition SortMergeJoinRule :: PhysicalConversionRule where
  "SortMergeJoinRule = \<lparr>rule_Name = ''SortMergeJoin'', rule_Match = SortMergeJoinRule_Match,
     rule_Apply = SortMergeJoinRule_Apply, rule_Priority = 3\<rparr>"
definition HashJoinRule :: PhysicalConversionRule where
  "HashJoinRule = \<lparr>rule_Name = ''HashJoin'', rule_Match = HashJoinRule_Match, rule_Apply = HashJoinRule_Apply, rule_Priority = 1\<rparr>"
definition BlockNestedLoopJoinRule :: PhysicalConversionRule where
  "BlockNestedLoopJoinRule = \<lparr>rule_Name = ''BlockNestedLoopJoin'', rule_Match = (\<lambda>n _ _. Some (is_join n)),
     rule_Apply = BlockNestedLoopJoinRule_Apply, rule_Priority = 0\<rparr>"

section \<open>The builder\<close>

fun best_rule :: "LogicalPlanNode \<Rightarrow> PlanNode list \<Rightarrow> Catalog \<Rightarrow> PhysicalConversionRule list \<Rightarrow> PhysicalConversionRule option \<Rightarrow> int \<Rightarrow>
    PhysicalConversionRule option option" where
  "best_rule node ps c [] bestRule maxPriority = Some bestRule"
| "best_rule node ps c (rule # rules) bestRule maxPriority = do {
     b \<leftarrow> rule_Match rule node ps c;
     (if b \<and> rule_Priority rule > maxPriority then best_rule node ps c rules (Some rule) (rule_Priority rule)
      else best_rule node ps c rules bestRule maxPriority)
   }"

definition convert :: "PhysicalConversionRule list \<Rightarrow> Catalog \<Rightarrow> LogicalPlanNode \<Rightarrow> PlanNode list \<Rightarrow> built_plan" where
  "convert rules c node ps = do {
     best \<leftarrow> best_rule node ps c rules None (-1);
     (case best of
        None \<Rightarrow> Some (Inl (PlanError ''No physical conversion rule matched for node''))
      | Some rule \<Rightarrow> rule_Apply rule node ps c)
   }"

primrec Build :: "PhysicalConversionRule list \<Rightarrow> Catalog \<Rightarrow> LogicalPlanNode \<Rightarrow> built_plan" where
  "Build rules c (LogicalScanNode n) = convert rules c (LogicalScanNode n) []"
| "Build rules c (LogicalValuesNode vs s) = convert rules c (LogicalValuesNode vs s) []"
| "Build rules c (LogicalFilterNode child p) =
     fused (Build rules c child) (\<lambda>q. convert rules c (LogicalFilterNode child p) [q])"
| "Build rules c (LogicalJoinNode l r on jt) =
     fused (Build rules c l) (\<lambda>lp. fused (Build rules c r) (\<lambda>rp. convert rules c (LogicalJoinNode l r on jt) [lp, rp]))"
| "Build rules c (LogicalUnaryNode op s child) =
     fused (Build rules c child) (\<lambda>q. convert rules c (LogicalUnaryNode op s child) [q])"

definition physicalRules :: "PhysicalConversionRule list" where
  "physicalRules = [SeqScanRule, BlockNestedLoopJoinRule, LimitRule, AggregationRule, ProjectionRule, FilterRule, SortRule,
     InsertRule, DeleteRule, UpdateRule, ValuesRule]"

section \<open>What plans return\<close>

text \<open>The database under a plan: the rows of the tables, what scans, lookups and probes of an index return, and
  what the aggregation of a list of keys and arguments returns.\<close>

record database =
  db_table :: "ObjectID \<Rightarrow> lrow list"
  db_scan :: "ObjectID \<Rightarrow> ScanDirection \<Rightarrow> Key \<Rightarrow> lrow list"
  db_lookup :: "ObjectID \<Rightarrow> Key \<Rightarrow> lrow list"
  db_probe :: "ObjectID \<Rightarrow> Value list \<Rightarrow> lrow list"
  db_aggregate :: "AggregatorType list \<Rightarrow> (Value list \<times> Value list) list \<Rightarrow> lrow list"

definition ref_rows :: "database \<Rightarrow> TableRef \<Rightarrow> lrow list" where
  "ref_rows db t = (case tr_table t of Some oid \<Rightarrow> db_table db oid | None \<Rightarrow> [])"

fun row_less :: "LogicalSchema \<Rightarrow> OrderByClause list \<Rightarrow> lrow \<Rightarrow> lrow \<Rightarrow> bool option" where
  "row_less ls [] a b = Some False"
| "row_less ls (ob # obs) a b = do {
     va \<leftarrow> leval (env_row ls a) (ob_Expr ob);
     vb \<leftarrow> leval (env_row ls b) (ob_Expr ob);
     c \<leftarrow> Value_Compare va vb;
     (if c = 0 then row_less ls obs a b
      else if ob_Direction ob = SortOrderDescending then Some (c > 0)
      else Some (c < 0))
   }"

definition sort_rows :: "(lrow \<Rightarrow> lrow \<Rightarrow> bool option) \<Rightarrow> lrow list \<Rightarrow> lrow list" where
  "sort_rows lt rs = (case stable_sort lt rs [] of Some rs' \<Rightarrow> rs' | None \<Rightarrow> [])"

definition count_row :: "lrow list \<Rightarrow> lrow list" where
  "count_row rs = [[NewIntValue (of_nat (length rs))]]"

fun op_rows :: "database \<Rightarrow> logical_op \<Rightarrow> LogicalSchema \<Rightarrow> lrow list \<Rightarrow> lrow list" where
  "op_rows db (ProjectionOp es) ls rs = List.map_filter (project_row ls es) rs"
| "op_rows db (SortOp obs) ls rs = sort_rows (row_less ls obs) rs"
| "op_rows db (LimitOp limit offset) ls rs = take (nat limit) (drop (nat offset) rs)"
| "op_rows db (AggregationOp groupBy aggs) ls rs = db_aggregate db (map ac_Type aggs)
     (List.map_filter (\<lambda>r. do { k \<leftarrow> project_row ls groupBy r; a \<leftarrow> project_row ls (map ac_Expr aggs) r; Some (k, a) }) rs)"
| "op_rows db (SubqueryOp _) ls rs = rs"
| "op_rows db (InsertOp _) ls rs = count_row rs"
| "op_rows db (DeleteOp _) ls rs = count_row rs"
| "op_rows db (UpdateOp _ _) ls rs = count_row rs"

abbreviation logical_rows :: "database \<Rightarrow> LogicalPlanNode \<Rightarrow> lrow list" where
  "logical_rows db \<equiv> plan_rows (ref_rows db) (op_rows db)"

abbreviation row_tuple :: "lrow \<Rightarrow> Tuple" where
  "row_tuple r \<equiv> FromValues (Some r)"

definition keys_equal :: "Value list \<Rightarrow> Value list \<Rightarrow> bool" where
  "keys_equal = list_all2 (\<lambda>v w. case eval_comparison Equal v w of Some b \<Rightarrow> ExprIsTrue b | None \<Rightarrow> False)"

definition equi_rows :: "Expr list \<Rightarrow> Expr list \<Rightarrow> lrow list \<Rightarrow> lrow list \<Rightarrow> lrow list" where
  "equi_rows lks rks L R = concat (map (\<lambda>l. map (\<lambda>r. l @ r) (filter (\<lambda>r.
     case (eval_all lks (row_tuple l), eval_all rks (row_tuple r)) of (Some ks, Some ks') \<Rightarrow> keys_equal ks ks' | _ \<Rightarrow> False) R)) L)"

fun physical_rows :: "database \<Rightarrow> PlanNode \<Rightarrow> lrow list" where
  "physical_rows db (SeqScanNode oid _ _) = db_table db oid"
| "physical_rows db (IndexScanNode ix _ _ dir key _) = db_scan db ix dir key"
| "physical_rows db (IndexLookupNode ix _ _ key _) = db_lookup db ix key"
| "physical_rows db (ValuesPlan vs _) = List.map_filter (\<lambda>es. eval_all es EmptyTuple) vs"
| "physical_rows db (FilterNode c p) = filter (\<lambda>r. keeps p (row_tuple r)) (physical_rows db c)"
| "physical_rows db (ProjectionNode c es) = List.map_filter (\<lambda>r. eval_all es (row_tuple r)) (physical_rows db c)"
| "physical_rows db (LimitNode c n) = take (nat n) (physical_rows db c)"
| "physical_rows db (SortNode c obs) = sort_rows (\<lambda>a b. sort_less obs (row_tuple a) (row_tuple b)) (physical_rows db c)"
| "physical_rows db (TopNNode c n obs) = take (nat n) (sort_rows (\<lambda>a b. sort_less obs (row_tuple a) (row_tuple b)) (physical_rows db c))"
| "physical_rows db (MaterializeNode c) = physical_rows db c"
| "physical_rows db (AggregatePlan c groupBy aggs) = db_aggregate db (map ac_Type aggs)
     (List.map_filter (\<lambda>r. do { k \<leftarrow> eval_all groupBy (row_tuple r); a \<leftarrow> eval_all (map ac_Expr aggs) (row_tuple r); Some (k, a) }) (physical_rows db c))"
| "physical_rows db (InsertNode _ c) = count_row (physical_rows db c)"
| "physical_rows db (DeleteNode _ c) = count_row (physical_rows db c)"
| "physical_rows db (UpdateNode _ c _) = count_row (physical_rows db c)"
| "physical_rows db (NestedLoopJoinNode l r p) = inner_join (\<lambda>x. keeps p (row_tuple x)) (physical_rows db l) (physical_rows db r)"
| "physical_rows db (IndexNestedLoopJoinNode l _ ix es _ _) =
     concat (map (\<lambda>x. case eval_all es (row_tuple x) of Some ks \<Rightarrow> map (\<lambda>r. x @ r) (db_probe db ix ks) | None \<Rightarrow> []) (physical_rows db l))"
| "physical_rows db (HashJoinNode l r lks rks) = equi_rows lks rks (physical_rows db l) (physical_rows db r)"
| "physical_rows db (SortMergeJoinNode l r lks rks) = equi_rows lks rks (physical_rows db l) (physical_rows db r)"

section \<open>Binding\<close>

definition bindable :: "LogicalSchema \<Rightarrow> Expr \<Rightarrow> bool" where
  "bindable ls e \<longleftrightarrow> built e \<and> logical e \<and> well_typed [] e \<and> (\<forall>c \<in> set (refs e). Schema_Contains ls c)"

text \<open>A bound expression means on the tuple of a row what the logical one means on the row.\<close>

definition binds :: "LogicalSchema \<Rightarrow> Expr \<Rightarrow> Expr \<Rightarrow> bool" where
  "binds ls e e' \<longleftrightarrow> OutputType e' = OutputType e \<and> (\<forall>r. Eval e' (row_tuple r) = leval (env_row ls r) e)"

lemma row_tuple_get [simp]: "Tuple_GetValue (row_tuple r) i = idx r i"
  by (simp add: FromValues_def Tuple_GetValue_def)

lemma env_of_row: "env_of ls (row_tuple r) = env_row ls r"
  by (rule ext) (simp add: env_of_def env_row_def split: option.split)

lemma those_eq_Some: "those xs = Some ys \<longleftrightarrow> xs = map Some ys"
proof (induction xs arbitrary: ys)
  case (Cons x xs)
  then show ?case by (cases x; cases ys) auto
qed auto

lemma eval_all_those: "eval_all es t = those (map (\<lambda>e. Eval e t) es)"
  by (induction es) (auto split: option.split bind_split simp: bind_eq_None_conv map_option_case)

lemma contains_find:
  assumes "Schema_Contains ls c"
  shows "\<exists>i < length ls. find_column (\<lambda>col. LogicalColumn_Equals col c) ls 0 = Some i \<and> LogicalColumn_Equals (ls ! i) c"
  using assms unfolding Schema_Contains_def
proof (induction ls)
  case (Cons a ls)
  show ?case
  proof (cases "LogicalColumn_Equals a c")
    case False
    then obtain i where "i < length ls" "find_column (\<lambda>col. LogicalColumn_Equals col c) ls 0 = Some i" "LogicalColumn_Equals (ls ! i) c"
      using Cons by auto
    then show ?thesis using False find_column_shift [of _ ls 0 1] by (intro exI [of _ "Suc i"]) auto
  qed auto
qed simp

lemma equals_type: "LogicalColumn_Equals a b \<Longrightarrow> ctype a = ctype b"
  by (auto simp: LogicalColumn_Equals_def split: if_splits)

lemma equals_sym: "LogicalColumn_Equals a b = LogicalColumn_Equals b a"
  by (auto simp: LogicalColumn_Equals_def EqualFold_def TableRef_Equals_def split: option.split)

lemma NewLike_total: "OutputType r = StringType \<Longrightarrow> \<exists>c. NewLikeExpression l r = Some (LikeExpression l r c)"
  by (cases r) (auto simp: NewLikeExpression_def Value_StringValue_def)

lemma BindExpr_total: "bindable ls e \<Longrightarrow> \<exists>e'. BindExpr e ls (map ctype ls) = Some e' \<and> OutputType e' = OutputType e"
  unfolding bindable_def
proof (induction e)
  case (LogicalColumnExpr c)
  then obtain i where "i < length ls" "find_column (\<lambda>col. LogicalColumn_Equals col c) ls 0 = Some i" "LogicalColumn_Equals (ls ! i) c"
    using contains_find [of ls c] by auto
  then show ?case by (auto simp: NewColumnValueExpression_def idx_def dest: equals_type)
next
  case (LikeExpression l r c)
  then obtain l' r' where b: "BindExpr l ls (map ctype ls) = Some l'" "BindExpr r ls (map ctype ls) = Some r'" "OutputType r' = StringType" by auto
  then show ?case using NewLike_total [OF b(3), of l'] by auto
qed (auto split: bind_split)

lemma BindExpr_binds:
  assumes "bindable ls e"
  shows "\<exists>e'. BindExpr e ls (map ctype ls) = Some e' \<and> binds ls e e'"
proof -
  obtain e' where e': "BindExpr e ls (map ctype ls) = Some e'" "OutputType e' = OutputType e" using BindExpr_total [OF assms] by blast
  then show ?thesis
    using BindExpr_sound [OF e'(1)] assms by (auto simp: binds_def bindable_def env_of_row [symmetric])
qed

lemma bind_all_binds:
  assumes "\<forall>e \<in> set es. bindable ls e"
  shows "\<exists>es'. bind_all es ls (map ctype ls) = Some es' \<and> list_all2 (binds ls) es es'"
  using assms
proof (induction es)
  case (Cons e es)
  then obtain e' es' where "BindExpr e ls (map ctype ls) = Some e'" "binds ls e e'" "bind_all es ls (map ctype ls) = Some es'"
    "list_all2 (binds ls) es es'" using BindExpr_binds by fastforce
  then show ?case by (auto simp: bind_all_def)
qed (simp add: bind_all_def)

lemma binds_all_eval: "list_all2 (binds ls) es es' \<Longrightarrow> eval_all es' (row_tuple r) = project_row ls es r"
  by (induction rule: list_all2_induct) (auto simp: binds_def project_row_def split: option.split bind_split simp: bind_eq_None_conv)

lemma binds_all_types: "list_all2 (binds ls) es es' \<Longrightarrow> map OutputType es' = map OutputType es"
  by (induction rule: list_all2_induct) (auto simp: binds_def)

lemma binds_keeps: "binds ls e e' \<Longrightarrow> keeps e' (row_tuple r) \<longleftrightarrow> sat ls e r"
  by (auto simp: binds_def keeps_def sat_def split: option.split)

text \<open>An expression fused with a projection means on a tuple what it means on the projected row.\<close>

lemma FuseProjection_binds:
  assumes "map OutputType ces = map ctype ls"
  shows "bindable ls e \<Longrightarrow> \<exists>e'. FuseProjectionIntoExpr e ls ces = Some (Inr e') \<and> OutputType e' = OutputType e \<and>
    (\<forall>t vs. eval_all ces t = Some vs \<longrightarrow> Eval e' t = leval (env_row ls vs) e)"
  unfolding bindable_def
proof (induction e)
  case (LogicalColumnExpr c)
  then obtain i where i: "i < length ls" "find_column (\<lambda>col. LogicalColumn_Equals col c) ls 0 = Some i" "LogicalColumn_Equals (ls ! i) c"
    using contains_find [of ls c] by auto
  have len: "length ces = length ls" by (rule map_eq_imp_length_eq [OF assms])
  have "OutputType (ces ! i) = ctype c" using assms len i(1) equals_type [OF i(3)] by (metis nth_map)
  moreover have "Eval (ces ! i) t = idx vs i" if "eval_all ces t = Some vs" for t vs
  proof -
    have "map (\<lambda>e. Eval e t) ces = map Some vs" using that by (simp add: eval_all_those those_eq_Some)
    then show ?thesis using i(1) len by (metis (no_types, lifting) idx_def length_map nth_map)
  qed
  moreover have "find_column (\<lambda>col. LogicalColumn_Equals c col) ls 0 = Some i" using i(2) by (simp only: equals_sym [of c])
  moreover have "idx ces i = Some (ces ! i)" using i(1) len by (simp add: idx_def)
  ultimately show ?case using i(2) by (simp add: env_row_def)
next
  case (LikeExpression l r c)
  then obtain l' r' where b: "FuseProjectionIntoExpr l ls ces = Some (Inr l')" "FuseProjectionIntoExpr r ls ces = Some (Inr r')"
    "OutputType r' = StringType" "\<forall>t vs. eval_all ces t = Some vs \<longrightarrow> Eval l' t = leval (env_row ls vs) l"
    "\<forall>t vs. eval_all ces t = Some vs \<longrightarrow> Eval r' t = leval (env_row ls vs) r" by auto
  obtain c' where n: "NewLikeExpression l' r' = Some (LikeExpression l' r' c')" using NewLike_total [OF b(3)] by blast
  have new: "NewLikeExpression l r = Some (LikeExpression l r c)" using LikeExpression.prems by simp
  have "Eval (LikeExpression l' r' c') t = leval (env_row ls vs) (LikeExpression l r c)" if "eval_all ces t = Some vs" for t vs
    using that b(4,5) by (simp only: Eval_NewLike [OF n] leval_NewLike [OF new] simp_thms)
  then show ?case using b n by (auto simp: fused_def simp del: Eval.simps leval.simps)
qed (auto simp: fused_def)

lemma fuse_all_binds:
  assumes "map OutputType ces = map ctype ls" "\<forall>e \<in> set es. bindable ls e"
  shows "\<exists>es'. fuse_all es ls ces = Some (Inr es') \<and> map OutputType es' = map OutputType es \<and>
    (\<forall>t vs. eval_all ces t = Some vs \<longrightarrow> eval_all es' t = project_row ls es vs)"
  using assms(2)
proof (induction es)
  case (Cons e es)
  obtain e' where e': "FuseProjectionIntoExpr e ls ces = Some (Inr e')" "OutputType e' = OutputType e"
    "\<forall>t vs. eval_all ces t = Some vs \<longrightarrow> Eval e' t = leval (env_row ls vs) e"
    using FuseProjection_binds [OF assms(1), of e] Cons.prems by auto
  obtain es' where es': "fuse_all es ls ces = Some (Inr es')" "map OutputType es' = map OutputType es"
    "\<forall>t vs. eval_all ces t = Some vs \<longrightarrow> eval_all es' t = project_row ls es vs" using Cons by auto
  have "eval_all (e' # es') t = project_row ls (e # es) vs" if "eval_all ces t = Some vs" for t vs
    using that e'(3) es'(3) by (auto simp: project_row_def split: option.split bind_split)
  then show ?case using e' es' by (auto simp: fused_def simp del: eval_all.simps)
qed (simp add: project_row_def)

text \<open>Conditions are expressions of integer type; a conjunction of them is one.\<close>

definition condition :: "LogicalSchema \<Rightarrow> Expr \<Rightarrow> bool" where
  "condition ls p \<longleftrightarrow> bindable ls p \<and> OutputType p = IntType"

lemma condition_And: "condition ls p \<Longrightarrow> condition ls q \<Longrightarrow> condition ls (BinaryLogicExpression p q And)"
  by (auto simp: condition_def bindable_def)

lemma condition_fold:
  "condition ls p \<Longrightarrow> \<forall>q \<in> set ps. condition ls q \<Longrightarrow> condition ls (fold (\<lambda>q acc. BinaryLogicExpression acc q And) ps p)"
  by (induction ps arbitrary: p) (simp_all add: condition_And)

lemma condition_merge: "\<forall>q \<in> set ps. condition ls q \<Longrightarrow> MergePredicates ps = Some m \<Longrightarrow> condition ls m"
  by (cases ps) (auto simp: MergePredicates_def intro: condition_fold)

lemma condition_split: "condition ls p \<Longrightarrow> \<forall>q \<in> set (SplitPredicate p). condition ls q"
proof (induction p rule: SplitPredicate.induct)
  case (1 l r)
  have "condition ls l" "condition ls r" using 1(3) by (auto simp: condition_def bindable_def)
  then show ?case using 1(1,2) unfolding SplitPredicate.simps(1) set_append by blast
qed (simp_all only: SplitPredicate.simps, auto)

lemma wrapInFilter_rows:
  assumes "\<forall>p \<in> set ps. condition ls p" "PlanNode_OutputSchema P = map ctype ls"
  shows "\<exists>Q. wrapInFilter P ps ls = Some Q \<and> PlanNode_OutputSchema Q = map ctype ls \<and>
    physical_rows db Q = filter (sats ls ps) (physical_rows db P)"
proof (cases ps)
  case (Cons p qs)
  let ?m = "fold (\<lambda>q acc. BinaryLogicExpression acc q And) qs p"
  have m: "MergePredicates ps = Some ?m" using Cons by (simp add: MergePredicates_def)
  then have "bindable ls ?m" using condition_merge [OF assms(1)] by (simp add: condition_def)
  then obtain e' where e': "BindExpr ?m ls (map ctype ls) = Some e'" "binds ls ?m e'" using BindExpr_binds by blast
  have "keeps e' (row_tuple r) \<longleftrightarrow> sats ls ps r" for r using binds_keeps [OF e'(2)] sat_MergePredicates [OF m] by simp
  then show ?thesis using Cons e'(1) assms(2) by (simp add: wrapInFilter_def cong: filter_cong)
qed (simp add: wrapInFilter_def assms(2))

end
