(* ===== verification/Planner_Correct.thy ===== *)
theory Planner_Correct
  imports Planner_Physical
begin

text \<open>
  The planner is correct: the contract of a conversion rule (locale \<open>conversion_rule\<close>), the builder over any set of such
  rules (locale \<open>rule_set\<close>), its interpretation on the rules that \<open>main.go\<close> installs, and the composition with
  predicate push-down. At the end, what the joins on equal keys need, and the plans on which rules change the
  meaning of a query.
\<close>

section \<open>Plans the planner can turn into physical plans\<close>

text \<open>A physical plan implements a logical one if it has the types of its schema and returns its rows, and if no
  expression of a projection at its root panics.\<close>

fun root_evaluates :: "database \<Rightarrow> PlanNode \<Rightarrow> bool" where
  "root_evaluates db (ProjectionNode P es) \<longleftrightarrow> (\<forall>r \<in> set (physical_rows db P). eval_all es (row_tuple r) \<noteq> None)"
| "root_evaluates db _ \<longleftrightarrow> True"

definition implements :: "database \<Rightarrow> LogicalPlanNode \<Rightarrow> PlanNode \<Rightarrow> bool" where
  "implements db p P \<longleftrightarrow> PlanNode_OutputSchema P = map ctype (OutputSchema p) \<and> physical_rows db P = logical_rows db p \<and> root_evaluates db P"

text \<open>What a node needs: tables exist and have the types of the schema, expressions resolve in the schema of the child
  and have the types that the schema says, the join is inner, the limit has no offset. The expressions of a projection
  must evaluate on the rows of its child, as fusing two projections may skip an expression that is not used; the child is
  no scan with a projection of its own, which only projection push-down makes.\<close>

definition table_ok :: "Catalog \<Rightarrow> ScanNode \<Rightarrow> bool" where
  "table_ok cat n \<longleftrightarrow> (case tr_table (sn_TableRef n) of
     None \<Rightarrow> False
   | Some oid \<Rightarrow> (case GetTableByOid oid cat of Inl _ \<Rightarrow> False | Inr t \<Rightarrow> tableSchemaToTypes t = map ctype (sn_schema n)))"

fun op_ok :: "database \<Rightarrow> Catalog \<Rightarrow> logical_op \<Rightarrow> LogicalSchema \<Rightarrow> LogicalPlanNode \<Rightarrow> bool" where
  "op_ok db cat (ProjectionOp es) s c \<longleftrightarrow> (\<forall>e \<in> set es. bindable (OutputSchema c) e) \<and> map OutputType es = map ctype s \<and>
     RawOutputSchema c = OutputSchema c \<and> (\<forall>r \<in> set (logical_rows db c). project_row (OutputSchema c) es r \<noteq> None)"
| "op_ok db cat (SortOp obs) s c \<longleftrightarrow> s = OutputSchema c \<and> (\<forall>ob \<in> set obs. bindable (OutputSchema c) (ob_Expr ob))"
| "op_ok db cat (LimitOp limit offset) s c \<longleftrightarrow> s = OutputSchema c \<and> offset = 0"
| "op_ok db cat (AggregationOp groupBy aggs) s c \<longleftrightarrow>
     (\<forall>e \<in> set (groupBy @ map ac_Expr aggs). bindable (OutputSchema c) e) \<and> map OutputType (groupBy @ map ac_Expr aggs) = map ctype s"
| "op_ok db cat (SubqueryOp _) s c \<longleftrightarrow> False"
| "op_ok db cat (InsertOp oid) s c \<longleftrightarrow> map ctype s = [IntType] \<and> (\<exists>t. GetTableByOid oid cat = Inr t)"
| "op_ok db cat (DeleteOp oid) s c \<longleftrightarrow> map ctype s = [IntType] \<and> (\<exists>t. GetTableByOid oid cat = Inr t)"
| "op_ok db cat (UpdateOp oid updates) s c \<longleftrightarrow> map ctype s = [IntType] \<and> (\<exists>t. GetTableByOid oid cat = Inr t) \<and>
     (\<forall>(_, e) \<in> set updates. bindable (OutputSchema c) e)"

fun node_ok :: "database \<Rightarrow> Catalog \<Rightarrow> LogicalPlanNode \<Rightarrow> bool" where
  "node_ok db cat (LogicalScanNode n) \<longleftrightarrow> sn_projection n = None \<and> table_ok cat n \<and> (\<forall>p \<in> set (sn_Predicates n). condition (sn_schema n) p)"
| "node_ok db cat (LogicalValuesNode vs s) \<longleftrightarrow> (\<forall>es \<in> set vs. \<forall>e \<in> set es. bindable [] e)"
| "node_ok db cat (LogicalFilterNode c p) \<longleftrightarrow> condition (OutputSchema c) p"
| "node_ok db cat (LogicalJoinNode l r on jt) \<longleftrightarrow> jt \<in> {Inner, Cross} \<and> (\<forall>p \<in> set on. condition (OutputSchema l @ OutputSchema r) p)"
| "node_ok db cat (LogicalUnaryNode op s c) \<longleftrightarrow> op_ok db cat op s c"

primrec plannable :: "database \<Rightarrow> Catalog \<Rightarrow> LogicalPlanNode \<Rightarrow> bool" where
  "plannable db cat (LogicalScanNode n) \<longleftrightarrow> node_ok db cat (LogicalScanNode n)"
| "plannable db cat (LogicalValuesNode vs s) \<longleftrightarrow> node_ok db cat (LogicalValuesNode vs s)"
| "plannable db cat (LogicalFilterNode c p) \<longleftrightarrow> plannable db cat c \<and> node_ok db cat (LogicalFilterNode c p)"
| "plannable db cat (LogicalJoinNode l r on jt) \<longleftrightarrow>
     plannable db cat l \<and> plannable db cat r \<and> node_ok db cat (LogicalJoinNode l r on jt)"
| "plannable db cat (LogicalUnaryNode op s c) \<longleftrightarrow> plannable db cat c \<and> node_ok db cat (LogicalUnaryNode op s c)"

section \<open>The contract of a rule\<close>

locale conversion_rule =
  fixes rule :: PhysicalConversionRule and db :: database and cat :: Catalog
  assumes match_law: "node_ok db cat node \<Longrightarrow> list_all2 (implements db) (children node) ps \<Longrightarrow> rule_Match rule node ps cat \<noteq> None"
    and priority_law: "-1 < rule_Priority rule"
    and apply_law: "node_ok db cat node \<Longrightarrow> list_all2 (implements db) (children node) ps \<Longrightarrow> rule_Match rule node ps cat = Some True \<Longrightarrow>
      \<exists>P. rule_Apply rule node ps cat = Some (Inr P) \<and> implements db node P"

locale rule_set =
  fixes rules :: "PhysicalConversionRule list" and db :: database and cat :: Catalog
  assumes rules_law: "rule \<in> set rules \<Longrightarrow> conversion_rule rule db cat"
    and covering_law: "node_ok db cat node \<Longrightarrow> list_all2 (implements db) (children node) ps \<Longrightarrow>
      \<exists>rule \<in> set rules. rule_Match rule node ps cat = Some True"
begin

lemma best_rule_matches:
  assumes "node_ok db cat node" "list_all2 (implements db) (children node) ps" "set rs \<subseteq> set rules"
    "best = None \<and> m = -1 \<and> (\<exists>rule \<in> set rs. rule_Match rule node ps cat = Some True) \<or>
     (\<exists>rule \<in> set rules. best = Some rule \<and> rule_Match rule node ps cat = Some True)"
  shows "\<exists>rule \<in> set rules. best_rule node ps cat rs best m = Some (Some rule) \<and> rule_Match rule node ps cat = Some True"
  using assms(3,4)
proof (induction rs arbitrary: best m)
  case (Cons r rs)
  have r: "conversion_rule r db cat" "r \<in> set rules" "set rs \<subseteq> set rules" using Cons.prems(1) rules_law by auto
  obtain b where b: "rule_Match r node ps cat = Some b" using conversion_rule.match_law [OF r(1) assms(1,2)] by blast
  note pr = conversion_rule.priority_law [OF r(1)]
  show ?case
  proof (cases "b \<and> m < rule_Priority r")
    case True
    then show ?thesis using Cons.IH [OF r(3), of "Some r" "rule_Priority r"] b r(2) by auto
  next
    case False
    then have "best = None \<and> m = -1 \<and> (\<exists>rule \<in> set rs. rule_Match rule node ps cat = Some True) \<or>
        (\<exists>rule \<in> set rules. best = Some rule \<and> rule_Match rule node ps cat = Some True)"
      using Cons.prems(2) b pr by auto
    from Cons.IH [OF r(3) this] show ?thesis using b False by auto
  qed
qed auto

lemma convert_implements:
  assumes "node_ok db cat node" "list_all2 (implements db) (children node) ps"
  shows "\<exists>P. convert rules cat node ps = Some (Inr P) \<and> implements db node P"
proof -
  obtain rule where r: "rule \<in> set rules" "best_rule node ps cat rules None (-1) = Some (Some rule)" "rule_Match rule node ps cat = Some True"
    using best_rule_matches [OF assms order_refl, of None "-1"] covering_law [OF assms] by blast
  then show ?thesis using conversion_rule.apply_law [OF rules_law [OF r(1)] assms r(3)] by (simp add: convert_def)
qed

lemma Build_implements: "plannable db cat p \<Longrightarrow> \<exists>P. Build rules cat p = Some (Inr P) \<and> implements db p P"
proof (induction p)
  case (LogicalScanNode n)
  then show ?case using convert_implements [of "LogicalScanNode n" "[]"] by simp
next
  case (LogicalValuesNode vs s)
  then show ?case using convert_implements [of "LogicalValuesNode vs s" "[]"] by simp
next
  case (LogicalFilterNode c p)
  then obtain P where P: "Build rules cat c = Some (Inr P)" "implements db c P" by auto
  then show ?case using convert_implements [of "LogicalFilterNode c p" "[P]"] LogicalFilterNode.prems by (simp add: fused_def)
next
  case (LogicalJoinNode l r on jt)
  then obtain P Q where "Build rules cat l = Some (Inr P)" "implements db l P" "Build rules cat r = Some (Inr Q)" "implements db r Q" by auto
  then show ?case using convert_implements [of "LogicalJoinNode l r on jt" "[P, Q]"] LogicalJoinNode.prems by (simp add: fused_def)
next
  case (LogicalUnaryNode op s c)
  then obtain P where P: "Build rules cat c = Some (Inr P)" "implements db c P" by auto
  then show ?case using convert_implements [of "LogicalUnaryNode op s c" "[P]"] LogicalUnaryNode.prems by (simp add: fused_def)
qed

end

section \<open>The installed rules\<close>

fun_cases is_limitE: "is_limit n"
fun_cases is_sortE: "is_sort n"
fun_cases is_filterE: "is_filter n"
fun_cases is_projectionE: "is_projection n"
fun_cases is_aggregationE: "is_aggregation n"
fun_cases is_insertE: "is_insert n"
fun_cases is_deleteE: "is_delete n"
fun_cases is_updateE: "is_update n"
fun_cases is_valuesE: "is_values n"
fun_cases is_scanE: "is_scan n"
fun_cases is_joinE: "is_join n"

lemma one_child: "list_all2 R [c] ps \<longleftrightarrow> (\<exists>P. ps = [P] \<and> R c P)" "list_all2 R [c, d] ps \<longleftrightarrow> (\<exists>P Q. ps = [P, Q] \<and> R c P \<and> R d Q)"
  by (auto simp: list_all2_Cons1)

text \<open>Rules that match by the type of the node.\<close>

lemma type_rule:
  assumes "rule_Match rule = (\<lambda>n _ _. Some (is_it n))" "rule_Priority rule = 0"
    "\<And>node ps. is_it node \<Longrightarrow> node_ok db cat node \<Longrightarrow> list_all2 (implements db) (children node) ps \<Longrightarrow>
       \<exists>P. rule_Apply rule node ps cat = Some (Inr P) \<and> implements db node P"
  shows "conversion_rule rule db cat"
  using assms by unfold_locales auto

lemma wrapInFilter_root: "wrapInFilter P ps ls = Some Q \<Longrightarrow> Q = P \<or> (\<exists>e. Q = FilterNode P e)"
  by (auto simp: wrapInFilter_def bind_eq_Some_conv Let_def split: list.splits)

lemma scan_law:
  assumes "node_ok db cat (LogicalScanNode n)"
  shows "\<exists>P. SeqScanRule_Apply (LogicalScanNode n) ps cat = Some (Inr P) \<and> implements db (LogicalScanNode n) P"
proof -
  obtain oid t where t: "tr_table (sn_TableRef n) = Some oid" "GetTableByOid oid cat = Inr t" "tableSchemaToTypes t = map ctype (sn_schema n)"
    using assms by (auto simp: table_ok_def split: option.splits sum.splits)
  let ?S = "SeqScanNode oid (tableSchemaToTypes t) (if sn_ForUpdate n then LockModeX else LockModeS)"
  obtain Q where Q: "wrapInFilter ?S (sn_Predicates n) (sn_schema n) = Some Q" "PlanNode_OutputSchema Q = map ctype (sn_schema n)"
    "physical_rows db Q = filter (sats (sn_schema n) (sn_Predicates n)) (db_table db oid)"
    using wrapInFilter_rows [of "sn_Predicates n" "sn_schema n" ?S db] assms t(3) by auto
  moreover have "root_evaluates db Q" using wrapInFilter_root [OF Q(1)] by auto
  ultimately show ?thesis using t assms by (simp add: GetTableOid_def implements_def ref_rows_def Let_def)
qed

lemma filter_law:
  assumes "condition (OutputSchema c) p" "implements db c P"
  shows "\<exists>Q. FilterRule_Apply (LogicalFilterNode c p) [P] cat = Some (Inr Q) \<and> implements db (LogicalFilterNode c p) Q"
proof -
  obtain e where "BindExpr p (OutputSchema c) (map ctype (OutputSchema c)) = Some e" "binds (OutputSchema c) p e"
    using assms(1) BindExpr_binds unfolding condition_def by blast
  then show ?thesis using assms(2) by (simp add: implements_def binds_keeps cong: filter_cong)
qed

lemma join_law:
  assumes "node_ok db cat (LogicalJoinNode l r on jt)" "implements db l P" "implements db r Q"
  shows "\<exists>R. BlockNestedLoopJoinRule_Apply (LogicalJoinNode l r on jt) [P, Q] cat = Some (Inr R) \<and> implements db (LogicalJoinNode l r on jt) R"
proof -
  let ?ls = "OutputSchema l @ OutputSchema r"
  let ?p = "case MergePredicates on of Some p \<Rightarrow> p | None \<Rightarrow> ConstantValueExpr (NewIntValue 1)"
  let ?Q = "if rescannable Q then Q else MaterializeNode Q"
  have "bindable ?ls ?p"
    using assms(1) condition_merge [of on ?ls] by (auto simp: condition_def bindable_def split: option.split)
  then obtain e where e: "BindExpr ?p ?ls (map ctype ?ls) = Some e" "binds ?ls ?p e" using BindExpr_binds by blast
  have "sat ?ls ?p x \<longleftrightarrow> sats ?ls on x" for x
  proof (cases on)
    case Nil
    then show ?thesis by (simp add: MergePredicates_def sat_def ExprIsTrue_def)
  next
    case (Cons q qs)
    then obtain m where "MergePredicates on = Some m" by (simp add: MergePredicates_def)
    then show ?thesis using sat_MergePredicates by simp
  qed
  then have k: "keeps e (row_tuple x) \<longleftrightarrow> sats ?ls on x" for x using binds_keeps [OF e(2)] by simp
  have Q: "PlanNode_OutputSchema ?Q = PlanNode_OutputSchema Q" "physical_rows db ?Q = physical_rows db Q" by simp_all
  have "BlockNestedLoopJoinRule_Apply (LogicalJoinNode l r on jt) [P, Q] cat = Some (Inr (NestedLoopJoinNode P ?Q e))"
    using e(1) assms(2,3) by (simp add: implements_def Q(1) Let_def)
  moreover have "implements db (LogicalJoinNode l r on jt) (NestedLoopJoinNode P ?Q e)"
    using assms by (auto simp: implements_def Q k cong: if_cong)
  ultimately show ?thesis by blast
qed

lemma sort_less_bound:
  assumes "list_all2 (binds ls) (map ob_Expr obs) es"
  shows "sort_less (map2 (\<lambda>e ob. \<lparr>ob_Expr = e, ob_Direction = ob_Direction ob\<rparr>) es obs) (row_tuple a) (row_tuple b) = row_less ls obs a b"
  using assms
proof (induction obs arbitrary: es)
  case (Cons ob obs)
  then obtain e es' where es: "es = e # es'" "binds ls (ob_Expr ob) e" "list_all2 (binds ls) (map ob_Expr obs) es'"
    by (auto simp: list_all2_Cons1)
  then have "Eval e (row_tuple r) = leval (env_row ls r) (ob_Expr ob)" for r by (simp add: binds_def)
  then show ?case using Cons.IH [OF es(3)] es(1) by (simp cong: if_cong)
qed simp

lemma sort_law:
  assumes "op_ok db cat (SortOp obs) s c" "implements db c P"
  shows "\<exists>Q. SortRule_Apply (LogicalUnaryNode (SortOp obs) s c) [P] cat = Some (Inr Q) \<and> implements db (LogicalUnaryNode (SortOp obs) s c) Q"
proof -
  obtain es where "bind_all (map ob_Expr obs) (OutputSchema c) (map ctype (OutputSchema c)) = Some es"
    "list_all2 (binds (OutputSchema c)) (map ob_Expr obs) es"
    using bind_all_binds [of "map ob_Expr obs" "OutputSchema c"] assms(1) by auto
  then show ?thesis using assms by (simp add: implements_def sort_less_bound)
qed

lemma limit_law:
  assumes "op_ok db cat (LimitOp limit offset) s c" "implements db c P"
  shows "\<exists>Q. LimitRule_Apply (LogicalUnaryNode (LimitOp limit offset) s c) [P] cat = Some (Inr Q) \<and>
    implements db (LogicalUnaryNode (LimitOp limit offset) s c) Q"
  using assms by (cases P) (auto simp: implements_def)

lemma aggregation_law:
  assumes "op_ok db cat (AggregationOp groupBy aggs) s c" "implements db c P"
  shows "\<exists>Q. AggregationRule_Apply (LogicalUnaryNode (AggregationOp groupBy aggs) s c) [P] cat = Some (Inr Q) \<and>
    implements db (LogicalUnaryNode (AggregationOp groupBy aggs) s c) Q"
proof -
  let ?ls = "OutputSchema c"
  obtain gs es where g: "bind_all groupBy ?ls (map ctype ?ls) = Some gs" "list_all2 (binds ?ls) groupBy gs"
    and e: "bind_all (map ac_Expr aggs) ?ls (map ctype ?ls) = Some es" "list_all2 (binds ?ls) (map ac_Expr aggs) es"
    using bind_all_binds [of groupBy ?ls] bind_all_binds [of "map ac_Expr aggs" ?ls] assms(1) by auto
  let ?as = "map2 (\<lambda>e clause. \<lparr>ac_Type = ac_Type clause, ac_Expr = e\<rparr>) es aggs"
  have len: "length es = length aggs" using list_all2_lengthD [OF e(2)] by simp
  have as: "map ac_Expr ?as = es" "map ac_Type ?as = map ac_Type aggs" using len by (auto simp: list_eq_iff_nth_eq)
  have types: "map OutputType gs @ map OutputType es = map ctype s"
    using binds_all_types [OF g(2)] binds_all_types [OF e(2)] assms(1) by simp
  have "implements db (LogicalUnaryNode (AggregationOp groupBy aggs) s c) (AggregatePlan P gs ?as)"
    unfolding implements_def
  proof (intro conjI)
    show "root_evaluates db (AggregatePlan P gs ?as)" by simp
    show "PlanNode_OutputSchema (AggregatePlan P gs ?as) = map ctype (OutputSchema (LogicalUnaryNode (AggregationOp groupBy aggs) s c))"
      using types by (simp only: PlanNode_OutputSchema.simps OutputSchema.simps as(1) flip: map_map)
    show "physical_rows db (AggregatePlan P gs ?as) = logical_rows db (LogicalUnaryNode (AggregationOp groupBy aggs) s c)"
      using assms(2) by (simp only: physical_rows.simps plan_rows.simps op_rows.simps as binds_all_eval [OF g(2)] binds_all_eval [OF e(2)] implements_def)
  qed
  then show ?thesis using g(1) e(1) assms(2) by (simp add: implements_def)
qed

lemma own_projection_eq:
  assumes "\<forall>e \<in> set es. bindable (OutputSchema c) e" "RawOutputSchema c = OutputSchema c" "PlanNode_OutputSchema P = map ctype (OutputSchema c)"
  shows "\<exists>es'. own_projection es c P = Some (Inr (ProjectionNode P es')) \<and> map OutputType es' = map OutputType es \<and>
    (\<forall>r. eval_all es' (row_tuple r) = project_row (OutputSchema c) es r)"
proof -
  obtain es' where "bind_all es (OutputSchema c) (map ctype (OutputSchema c)) = Some es'" "list_all2 (binds (OutputSchema c)) es es'"
    using bind_all_binds [OF assms(1)] by blast
  then show ?thesis using assms(2,3) binds_all_types binds_all_eval by (auto simp: own_projection_def)
qed

text \<open>Two projections in one: the rows are those of the outer over the inner one, if the inner one evaluates.\<close>

lemma map_filter_fused:
  assumes "\<forall>r \<in> set rs. f r \<noteq> None" "\<And>r v. f r = Some v \<Longrightarrow> h r = g v"
  shows "List.map_filter h rs = List.map_filter g (List.map_filter f rs)"
  using assms(1) by (induction rs) (auto simp: assms(2) map_filter_simps split: option.split)

lemma projection_law:
  assumes "op_ok db cat (ProjectionOp es) s c" "implements db c P"
  shows "\<exists>Q. project_onto es c P = Some (Inr Q) \<and> implements db (LogicalUnaryNode (ProjectionOp es) s c) Q"
proof -
  let ?ls = "OutputSchema c"
  have es: "\<forall>e \<in> set es. bindable ?ls e" "map OutputType es = map ctype s" "RawOutputSchema c = ?ls"
    "\<forall>r \<in> set (physical_rows db P). project_row ?ls es r \<noteq> None" using assms by (auto simp: implements_def)
  have P: "PlanNode_OutputSchema P = map ctype ?ls" "physical_rows db P = logical_rows db c" "root_evaluates db P"
    using assms(2) by (auto simp: implements_def)
  show ?thesis
  proof (cases "\<exists>B ces. P = ProjectionNode B ces")
    case True
    then obtain B ces where B: "P = ProjectionNode B ces" by blast
    then obtain es' where f: "fuse_all es ?ls ces = Some (Inr es')" "map OutputType es' = map OutputType es"
      "\<forall>t vs. eval_all ces t = Some vs \<longrightarrow> eval_all es' t = project_row ?ls es vs"
      using fuse_all_binds [of ces ?ls es] P(1) es(1) by auto
    have "\<forall>r \<in> set (physical_rows db B). eval_all ces (row_tuple r) \<noteq> None" using P(3) B by simp
    note inner = this
    have "physical_rows db (ProjectionNode B es') = List.map_filter (project_row ?ls es) (physical_rows db P)"
      using map_filter_fused [OF inner, of "\<lambda>r. eval_all es' (row_tuple r)" "project_row ?ls es"] f(3) B by simp
    moreover have "eval_all es' (row_tuple r) \<noteq> None" if r: "r \<in> set (physical_rows db B)" for r
    proof -
      obtain vs where vs: "eval_all ces (row_tuple r) = Some vs" using inner r by blast
      then have "vs \<in> set (physical_rows db P)" using B r by (force simp: List.map_filter_def)
      then show ?thesis using vs f(3) es(4) by simp
    qed
    ultimately have "implements db (LogicalUnaryNode (ProjectionOp es) s c) (ProjectionNode B es')"
      using f(2) P(2) es(2) by (simp add: implements_def)
    then show ?thesis using B f(1) by (simp add: project_onto_def)
  next
    case False
    then have "project_onto es c P = own_projection es c P" by (auto simp: project_onto_def split: PlanNode.split)
    then show ?thesis using own_projection_eq [OF es(1,3) P(1)] P es(2,4) by (auto simp: implements_def)
  qed
qed

lemma those_total: "(\<And>x. x \<in> set xs \<Longrightarrow> x \<noteq> None) \<Longrightarrow> \<exists>ys. those xs = Some ys"
  by (induction xs) (force split: option.split)+

lemma update_law:
  assumes "op_ok db cat (UpdateOp oid updates) s c" "implements db c P"
  shows "\<exists>Q. UpdateRule_Apply (LogicalUnaryNode (UpdateOp oid updates) s c) [P] cat = Some (Inr Q) \<and>
    implements db (LogicalUnaryNode (UpdateOp oid updates) s c) Q"
proof -
  let ?ls = "OutputSchema c"
  obtain t where t: "GetTableByOid oid cat = Inr t" using assms(1) by auto
  have "update_expr updates ?ls (map ctype ?ls) i col \<noteq> None" for i col
  proof (cases "find (\<lambda>(c, _). cname c = col_Name col) updates")
    case (Some u)
    then have "u \<in> set updates" by (metis find_Some_iff nth_mem)
    then have "bindable ?ls (snd u)" using assms(1) by force
    then show ?thesis using Some BindExpr_total by (force simp: update_expr_def split: prod.split)
  qed (simp add: update_expr_def)
  then have "x \<noteq> None" if "x \<in> set (map2 (update_expr updates ?ls (map ctype ?ls)) [0..<length (tb_Columns t)] (tb_Columns t))" for x
    using that by (auto simp del: not_None_eq)
  from those_total [OF this] obtain es where
    "those (map2 (update_expr updates ?ls (map ctype ?ls)) [0..<length (tb_Columns t)] (tb_Columns t)) = Some es" by blast
  then show ?thesis using t assms by (simp add: implements_def)
qed

lemma Eval_empty: "Eval e EmptyTuple = Eval e (row_tuple [])"
  by (induction e) (simp_all add: EmptyTuple_def FromValues_def Tuple_GetValue_def)

lemma values_law:
  assumes "node_ok db cat (LogicalValuesNode vs s)"
  shows "\<exists>Q. ValuesRule_Apply (LogicalValuesNode vs s) ps cat = Some (Inr Q) \<and> implements db (LogicalValuesNode vs s) Q"
proof -
  have "\<exists>ws. those (map (\<lambda>es. bind_all es [] []) vs) = Some ws \<and>
      List.map_filter (\<lambda>es. eval_all es EmptyTuple) ws = List.map_filter (\<lambda>es. project_row [] es []) vs"
    using assms
  proof (induction vs)
    case (Cons es vs)
    then obtain ws where ws: "those (map (\<lambda>es. bind_all es [] []) vs) = Some ws"
      "List.map_filter (\<lambda>es. eval_all es EmptyTuple) ws = List.map_filter (\<lambda>es. project_row [] es []) vs" by auto
    obtain es' where es': "bind_all es [] [] = Some es'" "list_all2 (binds []) es es'"
      using bind_all_binds [of es "[]"] Cons.prems by auto
    have "eval_all es' EmptyTuple = project_row [] es []"
      using binds_all_eval [OF es'(2), of "[]"] by (simp add: eval_all_those Eval_empty)
    then show ?case using ws es'(1) by (simp add: map_filter_simps cong: option.case_cong)
  qed (simp add: map_filter_simps)
  then show ?thesis by (auto simp: implements_def)
qed

interpretation seq_scan: conversion_rule SeqScanRule db cat for db cat
  by (rule type_rule [where is_it = is_scan]) (auto simp: SeqScanRule_def elim!: is_scanE intro!: scan_law simp del: SeqScanRule_Apply.simps)

interpretation block_join: conversion_rule BlockNestedLoopJoinRule db cat for db cat
  by (rule type_rule [where is_it = is_join])
     (auto simp: BlockNestedLoopJoinRule_def one_child elim!: is_joinE intro!: join_law simp del: BlockNestedLoopJoinRule_Apply.simps)

interpretation limit: conversion_rule LimitRule db cat for db cat
  by (rule type_rule [where is_it = is_limit])
     (auto simp: LimitRule_def one_child elim!: is_limitE intro!: limit_law simp del: LimitRule_Apply.simps)

interpretation aggregation: conversion_rule AggregationRule db cat for db cat
  by (rule type_rule [where is_it = is_aggregation])
     (auto simp: AggregationRule_def one_child elim!: is_aggregationE intro!: aggregation_law simp del: AggregationRule_Apply.simps op_ok.simps)

interpretation projection_node: conversion_rule ProjectionRule db cat for db cat
  by (rule type_rule [where is_it = is_projection])
     (auto simp: ProjectionRule_def one_child elim!: is_projectionE intro!: projection_law simp del: op_ok.simps)

interpretation filter_node: conversion_rule FilterRule db cat for db cat
  by (rule type_rule [where is_it = is_filter])
     (auto simp: FilterRule_def one_child elim!: is_filterE intro!: filter_law simp del: FilterRule_Apply.simps)

interpretation sort_node: conversion_rule SortRule db cat for db cat
  by (rule type_rule [where is_it = is_sort])
     (auto simp: SortRule_def one_child elim!: is_sortE intro!: sort_law simp del: SortRule_Apply.simps op_ok.simps)

interpretation insert_node: conversion_rule InsertRule db cat for db cat
  by (rule type_rule [where is_it = is_insert]) (auto simp: InsertRule_def one_child implements_def elim!: is_insertE)

interpretation delete_node: conversion_rule DeleteRule db cat for db cat
  by (rule type_rule [where is_it = is_delete]) (auto simp: DeleteRule_def one_child implements_def elim!: is_deleteE)

interpretation update_node: conversion_rule UpdateRule db cat for db cat
  by (rule type_rule [where is_it = is_update])
     (auto simp: UpdateRule_def one_child elim!: is_updateE intro!: update_law simp del: UpdateRule_Apply.simps op_ok.simps)

interpretation values_node: conversion_rule ValuesRule db cat for db cat
  by (rule type_rule [where is_it = is_values])
     (auto simp: ValuesRule_def elim!: is_valuesE intro!: values_law simp del: ValuesRule_Apply.simps node_ok.simps)

lemmas rule_defs = SeqScanRule_def BlockNestedLoopJoinRule_def LimitRule_def AggregationRule_def ProjectionRule_def FilterRule_def
  SortRule_def InsertRule_def DeleteRule_def UpdateRule_def ValuesRule_def

interpretation installed: rule_set physicalRules db cat for db cat
proof (rule rule_set.intro)
  fix rule
  assume "rule \<in> set physicalRules"
  then show "conversion_rule rule db cat"
    unfolding physicalRules_def
    using seq_scan.conversion_rule_axioms block_join.conversion_rule_axioms limit.conversion_rule_axioms
      aggregation.conversion_rule_axioms projection_node.conversion_rule_axioms filter_node.conversion_rule_axioms
      sort_node.conversion_rule_axioms insert_node.conversion_rule_axioms delete_node.conversion_rule_axioms
      update_node.conversion_rule_axioms values_node.conversion_rule_axioms by auto
next
  fix node ps
  assume "node_ok db cat node"
  then show "\<exists>rule \<in> set physicalRules. rule_Match rule node ps cat = Some True"
  proof (cases node)
    case (LogicalUnaryNode op s c)
    then show ?thesis using \<open>node_ok db cat node\<close> by (cases op) (simp_all add: physicalRules_def rule_defs)
  qed (simp_all add: physicalRules_def rule_defs)
qed

section \<open>Composition with predicate push-down\<close>

abbreviation wf_query :: "database \<Rightarrow> LogicalPlanNode \<Rightarrow> bool" where
  "wf_query db \<equiv> wf_plan (ref_rows db) (op_rows db)"

abbreviation same_query :: "database \<Rightarrow> LogicalPlanNode \<Rightarrow> LogicalPlanNode \<Rightarrow> bool" where
  "same_query db \<equiv> same_plan (ref_rows db) (op_rows db)"

lemma plannable_raw: "plannable db cat c \<Longrightarrow> RawOutputSchema c = OutputSchema c"
  by (cases c) (simp_all add: RawOutputSchema_def)

lemma op_ok_same:
  assumes "op_ok db cat op s c" "same_query db c c'" "plannable db cat c'"
  shows "op_ok db cat op s c'"
  using assms(1,2) plannable_raw [OF assms(3)] by (cases op) (simp_all add: same_plan_def)

lemma condition_covered:
  assumes "condition ks q" "reports q" "covers ls q"
  shows "condition ls q"
  using assms covers_refs [OF assms(2), of ls] by (simp add: condition_def bindable_def)

lemma wrap_filter_plannable:
  assumes "plannable db cat c" "\<forall>p \<in> set ps. condition (OutputSchema c) p"
  shows "plannable db cat (wrap_filter c ps)"
  using assms condition_merge [OF assms(2)] by (simp add: wrap_filter_def split: option.split)

lemma pushThroughJoin_plannable:
  assumes wf: "wf_query db (LogicalFilterNode (LogicalJoinNode l r on jt) p)"
    and pl: "plannable db cat (LogicalFilterNode (LogicalJoinNode l r on jt) p)" and q: "pushThroughJoin p l r on jt = Some q"
  shows "plannable db cat q"
proof -
  let ?ls = "OutputSchema l" and ?rs = "OutputSchema r" and ?ps = "SplitPredicate p"
  have jt: "jt = Inner \<or> jt = Cross" and on: "\<forall>q \<in> set on. condition (?ls @ ?rs) q" using pl by auto
  have ps: "\<forall>q \<in> set ?ps. reports q" using wf by simp
  have cond: "\<forall>q \<in> set ?ps. condition (?ls @ ?rs) q" using condition_split pl by auto
  obtain t where t: "push_all ?ls ?rs ?ps (no_pushes jt) = Some t" "placed ?ls ?rs ?ps (no_pushes jt) t"
    using push_all_placed [OF ps] by blast
  have p: "leftPush t = filter (left_only ?ls ?rs) ?ps" "rightPush t = filter (left_only ?rs ?ls) ?ps"
    "set (joinConds t) \<subseteq> set ?ps" "keep t = []" "pushed_joinType t \<in> {Inner, Cross}"
    using t(2) jt by (auto simp: placed_def no_pushes_def)
  have "\<forall>q \<in> set (leftPush t). condition ?ls q" "\<forall>q \<in> set (rightPush t). condition ?rs q"
    using condition_covered [of "?ls @ ?rs"] cond ps unfolding p(1,2) by auto
  then have "plannable db cat (wrap_filter l (leftPush t))" "plannable db cat (wrap_filter r (rightPush t))"
    using pl by (simp_all add: wrap_filter_plannable)
  then have "plannable db cat (LogicalJoinNode (wrap_filter l (leftPush t)) (wrap_filter r (rightPush t)) (on @ joinConds t) (pushed_joinType t))"
    using p(3,5) on cond by auto
  moreover have "q = wrap_filter (LogicalJoinNode (wrap_filter l (leftPush t)) (wrap_filter r (rightPush t)) (on @ joinConds t) (pushed_joinType t)) (keep t)"
    using q t(1) by (simp add: pushThroughJoin_def no_pushes_def)
  ultimately show ?thesis using p(4) by (simp add: wrap_filter_def MergePredicates_def)
qed

lemma Apply_plannable:
  assumes "wf_query db p" "plannable db cat p" "Apply p = Some q"
  shows "plannable db cat q"
proof (cases p rule: Apply.cases)
  case (1 scan e)
  then show ?thesis using assms by (auto simp: bind_eq_Some_conv AddPredicate_def table_ok_def split: if_splits option.splits sum.splits)
next
  case (2 l r on jt e)
  then have "pushThroughJoin e l r on jt = Some q" using assms(3) by simp
  then show ?thesis using pushThroughJoin_plannable assms(1,2) unfolding 2 by blast
qed (use assms in auto)

lemma OptimizeWithRule_plannable:
  assumes "wf_query db p" "plannable db cat p" "weight p < fuel"
  shows "\<exists>q. OptimizeWithRule fuel p = Some q \<and> same_query db p q \<and> plannable db cat q"
  using assms
proof (induction fuel arbitrary: p)
  case (Suc fuel)
  obtain q where q: "Apply p = Some q" "same_query db p q" "\<forall>c \<in> set (children q). weight c < weight p"
    using Apply_same [OF Suc.prems(1)] by blast
  have wq: "wf_query db q" using q(2) by (simp add: same_plan_def)
  note pq = Apply_plannable [OF Suc.prems(1,2) q(1)]
  have ih: "\<exists>c'. OptimizeWithRule fuel c = Some c' \<and> same_query db c c' \<and> plannable db cat c'"
    if "c \<in> set (children q)" "wf_query db c" "plannable db cat c" for c
    using Suc.IH [OF that(2,3)] q(3) that(1) Suc.prems(3) by fastforce
  have "\<exists>q'. OptimizeWithRule (Suc fuel) p = Some q' \<and> same_query db q q' \<and> plannable db cat q'"
  proof (cases q)
    case (LogicalFilterNode c e)
    then obtain c' where "OptimizeWithRule fuel c = Some c'" "same_query db c c'" "plannable db cat c'" using ih [of c] wq pq by auto
    then show ?thesis using LogicalFilterNode q(1) wq pq by (simp add: same_plan_def)
  next
    case (LogicalJoinNode l r on jt)
    then obtain l' r' where "OptimizeWithRule fuel l = Some l'" "same_query db l l'" "plannable db cat l'"
      "OptimizeWithRule fuel r = Some r'" "same_query db r r'" "plannable db cat r'" using ih [of l] ih [of r] wq pq by auto
    then show ?thesis using LogicalJoinNode q(1) wq pq by (simp add: same_plan_def)
  next
    case (LogicalUnaryNode op s c)
    then obtain c' where c': "OptimizeWithRule fuel c = Some c'" "same_query db c c'" "plannable db cat c'" using ih [of c] wq pq by auto
    moreover have "op_ok db cat op s c'" using op_ok_same [OF _ c'(2,3)] pq LogicalUnaryNode by simp
    ultimately show ?thesis using LogicalUnaryNode q(1) wq pq by (simp add: same_plan_def)
  qed (use q(1) wq pq in \<open>simp_all add: same_plan_def\<close>)
  then show ?case using q(2) by (auto simp: same_plan_def)
qed simp

lemma planner_sound_spec:
  assumes "wf_query db p" "plannable db cat p" "weight p < fuel"
  shows "\<exists>q P. OptimizeWithRule fuel p = Some q \<and> Build physicalRules cat q = Some (Inr P) \<and>
    PlanNode_OutputSchema P = map ctype (OutputSchema p) \<and> physical_rows db P = logical_rows db p"
  using OptimizeWithRule_plannable [OF assms] installed.Build_implements
  unfolding implements_def same_plan_def by metis

section \<open>Joins on equal keys\<close>

text \<open>The sides of a comparison report their columns if the comparison does.\<close>

lemma referenced_length: "GetReferencedColumns e = Some cs \<Longrightarrow> length cs \<le> length (refs e)"
  by (induction e arbitrary: cs) (auto simp: bind_eq_Some_conv intro!: add_mono)

lemma reports_sides:
  assumes "reports (ComparisonExpression a b ct)"
  shows "reports a" "reports b"
proof -
  obtain as bs where c: "GetReferencedColumns a = Some as" "GetReferencedColumns b = Some bs" "as @ bs = refs a @ refs b"
    using assms by (auto simp: reports_def bind_eq_Some_conv)
  have "length as + length bs = length (refs a) + length (refs b)" using c(3) by (metis length_append)
  then have "length as = length (refs a)" using referenced_length [OF c(1)] referenced_length [OF c(2)] by simp
  then show "reports a" "reports b" using c by (auto simp: reports_def)
qed

text \<open>The equality of one pair of keys on a row of each side.\<close>

definition equal_values :: "Value option \<Rightarrow> Value option \<Rightarrow> bool" where
  "equal_values v w = (case (v, w) of (Some v, Some w) \<Rightarrow> (case eval_comparison Equal v w of Some b \<Rightarrow> ExprIsTrue b | None \<Rightarrow> False) | _ \<Rightarrow> False)"

definition key_holds :: "LogicalSchema \<Rightarrow> LogicalSchema \<Rightarrow> lrow \<Rightarrow> lrow \<Rightarrow> JoinKeyPair \<Rightarrow> bool" where
  "key_holds ls rs l r k = equal_values (leval (env_row ls l) (jk_Left k)) (leval (env_row rs r) (jk_Right k))"

lemma equal_values_swap: "equal_values v w = equal_values w v"
  using eval_comparison_flip [of Equal] by (auto simp: equal_values_def split: option.split)

lemma sat_Equal: "sat ks (ComparisonExpression a b Equal) x \<longleftrightarrow> equal_values (leval (env_row ks x) a) (leval (env_row ks x) b)"
  by (auto simp: sat_def equal_values_def split: option.split bind_split)

text \<open>A condition of the join that is no conjunction is one pair of keys or none.\<close>

definition atomic :: "LogicalSchema \<Rightarrow> LogicalSchema \<Rightarrow> Expr \<Rightarrow> bool" where
  "atomic ls rs c \<longleftrightarrow> condition (ls @ rs) c \<and> reports c \<and> (\<forall>a b. c \<noteq> BinaryLogicExpression a b And)"

definition pair_ok :: "LogicalSchema \<Rightarrow> LogicalSchema \<Rightarrow> Expr \<Rightarrow> Expr \<Rightarrow> Expr \<Rightarrow> bool" where
  "pair_ok ls rs c a b \<longleftrightarrow> bindable ls a \<and> bindable rs b \<and>
     (\<forall>l r. length l = length ls \<longrightarrow> sat (ls @ rs) c (l @ r) = equal_values (leval (env_row ls l) a) (leval (env_row rs r) b))"

lemma pair_okI:
  assumes "bindable (ls @ rs) a" "bindable (ls @ rs) b" "reports a" "reports b" "covers ls a" "covers rs b"
    "\<And>c. \<not> (Schema_Contains ls c \<and> Schema_Contains rs c)"
    "\<And>x. sat (ls @ rs) c x = equal_values (leval (env_row (ls @ rs) x) a) (leval (env_row (ls @ rs) x) b)"
  shows "pair_ok ls rs c a b"
proof -
  have refs: "\<forall>c \<in> set (refs a). Schema_Contains ls c" "\<forall>c \<in> set (refs b). Schema_Contains rs c"
    using covers_refs [OF assms(3), of ls] covers_refs [OF assms(4), of rs] assms(5,6) by auto
  have "leval (env_row (ls @ rs) (l @ r)) a = leval (env_row ls l) a" "leval (env_row (ls @ rs) (l @ r)) b = leval (env_row rs r) b"
    if "length l = length ls" for l r
    using refs assms(7) that by (auto intro!: leval_cong env_row_left env_row_right)
  then show ?thesis using assms(1,2,8) refs by (simp add: pair_ok_def bindable_def)
qed

lemma isEquiJoin_atomic:
  assumes "atomic ls rs c" "\<And>c. \<not> (Schema_Contains ls c \<and> Schema_Contains rs c)"
  shows "isEquiJoin c ls rs = Some None \<or> (\<exists>a b. isEquiJoin c ls rs = Some (Some ([a], [b])) \<and> pair_ok ls rs c a b)"
proof (cases "\<exists>a b. c = ComparisonExpression a b Equal")
  case True
  then obtain a b where c: "c = ComparisonExpression a b Equal" by blast
  have bd: "bindable (ls @ rs) a" "bindable (ls @ rs) b" using assms(1) c by (auto simp: atomic_def condition_def bindable_def)
  have rp: "reports a" "reports b" using assms(1) c reports_sides unfolding atomic_def by blast+
  obtain la rb lb ra where cov: "CoversExpr ls a = Some la" "CoversExpr rs b = Some rb" "CoversExpr ls b = Some lb" "CoversExpr rs a = Some ra"
    using covers_refs [OF rp(1)] covers_refs [OF rp(2)] by blast
  have "pair_ok ls rs c a b" if "la" "rb" using that bd rp cov assms(2) c by (intro pair_okI) (auto simp: sat_Equal)
  moreover have "pair_ok ls rs c b a" if "lb" "ra"
    using that bd rp cov assms(2) c by (intro pair_okI) (auto simp: sat_Equal equal_values_swap)
  ultimately show ?thesis using c cov by (auto simp: and_also_def)
next
  case False
  then show ?thesis using assms(1) by (cases c) (auto simp: atomic_def)
qed

lemma equi_pairs_atomic:
  assumes "\<And>c. \<not> (Schema_Contains ls c \<and> Schema_Contains rs c)"
  shows "\<forall>c \<in> set on. atomic ls rs c \<Longrightarrow> \<exists>ks. equi_pairs i on ls rs = Some ks \<and>
    (\<forall>k \<in> set ks. bindable ls (jk_Left k) \<and> bindable rs (jk_Right k) \<and> i \<le> jk_Original k) \<and>
    (\<forall>l r. length l = length ls \<longrightarrow> sats (ls @ rs) on (l @ r) =
      ((\<forall>k \<in> set ks. key_holds ls rs l r k) \<and>
       sats (ls @ rs) (map snd (filter (\<lambda>(j, _). j \<notin> jk_Original ` set ks) (enumerate i on))) (l @ r)))"
proof (induction on arbitrary: i)
  case (Cons c on)
  obtain ks where ks: "equi_pairs (Suc i) on ls rs = Some ks"
    "\<forall>k \<in> set ks. bindable ls (jk_Left k) \<and> bindable rs (jk_Right k) \<and> Suc i \<le> jk_Original k"
    "\<And>l r. length l = length ls \<Longrightarrow> sats (ls @ rs) on (l @ r) = ((\<forall>k \<in> set ks. key_holds ls rs l r k) \<and>
       sats (ls @ rs) (map snd (filter (\<lambda>(j, _). j \<notin> jk_Original ` set ks) (enumerate (Suc i) on))) (l @ r))"
    using Cons.IH [of "Suc i"] Cons.prems by auto
  have new: "i \<notin> jk_Original ` set ks" using ks(2) by force
  have later: "filter (\<lambda>(j, _). j \<noteq> i \<and> j \<notin> A) (enumerate (Suc i) on) = filter (\<lambda>(j, _). j \<notin> A) (enumerate (Suc i) on)" for A
    by (rule filter_cong) (auto simp: in_set_enumerate_eq)
  consider (none) "isEquiJoin c ls rs = Some None"
    | (pair) a b where "isEquiJoin c ls rs = Some (Some ([a], [b]))" "pair_ok ls rs c a b"
    using isEquiJoin_atomic [OF _ assms, of c] Cons.prems by auto
  then show ?case
  proof cases
    case none
    have "sats (ls @ rs) (c # on) (l @ r) = ((\<forall>k \<in> set ks. key_holds ls rs l r k) \<and>
        sats (ls @ rs) (map snd (filter (\<lambda>(j, _). j \<notin> jk_Original ` set ks) (enumerate i (c # on)))) (l @ r))" if "length l = length ls" for l r
      using ks(3) [OF that, of r] new by auto
    then show ?thesis using none ks(1,2) by (intro exI [of _ ks]) (auto simp: Suc_le_eq less_imp_le)
  next
    case pair
    let ?k = "\<lparr>jk_Left = a, jk_Right = b, jk_Original = i\<rparr>"
    have "sats (ls @ rs) (c # on) (l @ r) = ((\<forall>k \<in> set (?k # ks). key_holds ls rs l r k) \<and>
        sats (ls @ rs) (map snd (filter (\<lambda>(j, _). j \<notin> jk_Original ` set (?k # ks)) (enumerate i (c # on)))) (l @ r))" if "length l = length ls" for l r
      using ks(3) [OF that, of r] pair(2) that by (auto simp: later pair_ok_def key_holds_def)
    then show ?thesis using pair ks(1,2) by (intro exI [of _ "?k # ks"]) (auto simp: pair_ok_def Suc_le_eq less_imp_le)
  qed
qed simp

lemma keys_equal_holds:
  "(case (project_row ls (map jk_Left ks) l, project_row rs (map jk_Right ks) r) of (Some v, Some w) \<Rightarrow> keys_equal v w | _ \<Rightarrow> False) \<longleftrightarrow>
   (\<forall>k \<in> set ks. key_holds ls rs l r k)"
proof (induction ks)
  case (Cons k ks)
  then show ?case
    by (cases "leval (env_row ls l) (jk_Left k)"; cases "leval (env_row rs r) (jk_Right k)"; cases "project_row ls (map jk_Left ks) l";
        cases "project_row rs (map jk_Right ks) r")
       (auto simp: project_row_def key_holds_def equal_values_def keys_equal_def)
qed (simp add: project_row_def keys_equal_def)

lemma filter_equi_rows:
  assumes "\<And>l r. l \<in> set L \<Longrightarrow> J (l @ r) \<longleftrightarrow> C l r \<and> K (l @ r)"
  shows "filter K (concat (map (\<lambda>l. map (\<lambda>r. l @ r) (filter (C l) R)) L)) = inner_join J L R"
proof -
  have "filter K (concat (map (\<lambda>l. map (\<lambda>r. l @ r) (filter (C l) R)) L')) = concat (map (\<lambda>l. filter J (map (\<lambda>r. l @ r) R)) L')"
    if "set L' \<subseteq> set L" for L'
    using that by (induction L') (auto simp: filter_map o_def assms intro!: arg_cong [where f = "map _"] filter_cong)
  then show ?thesis by (simp add: inner_join_def)
qed

lemma equi_join_plan_rows:
  assumes node: "\<And>P Q lks rks. physical_rows db (node P Q lks rks) = equi_rows lks rks (physical_rows db P) (physical_rows db Q)"
      "\<And>P Q lks rks. PlanNode_OutputSchema (node P Q lks rks) = PlanNode_OutputSchema P @ PlanNode_OutputSchema Q"
    and kids: "implements db l P" "implements db r Q" and wf: "wf_query db (LogicalJoinNode l r on Inner)"
    and on: "\<forall>c \<in> set on. atomic (OutputSchema l) (OutputSchema r) c"
  shows "\<exists>R. equi_join_plan node l r on P Q = Some (Inr R) \<and> PlanNode_OutputSchema R = map ctype (OutputSchema (LogicalJoinNode l r on Inner)) \<and>
    physical_rows db R = logical_rows db (LogicalJoinNode l r on Inner)"
proof -
  let ?ls = "OutputSchema l" and ?rs = "OutputSchema r"
  have dis: "\<And>c. \<not> (Schema_Contains ?ls c \<and> Schema_Contains ?rs c)" using wf by simp
  have len: "length x = length ?ls" if "x \<in> set (logical_rows db l)" for x using plan_rows_length [OF _ that] wf by simp
  from equi_pairs_atomic [OF dis on, of 0] obtain ks where ks: "equi_pairs 0 on ?ls ?rs = Some ks"
    "\<forall>k \<in> set ks. bindable ?ls (jk_Left k) \<and> bindable ?rs (jk_Right k)"
    "\<And>x y. length x = length ?ls \<Longrightarrow> sats (?ls @ ?rs) on (x @ y) = ((\<forall>k \<in> set ks. key_holds ?ls ?rs x y k) \<and>
       sats (?ls @ ?rs) (getNonEquiConditions on ks) (x @ y))"
    unfolding getNonEquiConditions_def unused_conds_def by auto
  obtain lks rks where b: "bind_all (map jk_Left ks) ?ls (map ctype ?ls) = Some lks" "list_all2 (binds ?ls) (map jk_Left ks) lks"
    "bind_all (map jk_Right ks) ?rs (map ctype ?rs) = Some rks" "list_all2 (binds ?rs) (map jk_Right ks) rks"
    using bind_all_binds [of "map jk_Left ks" ?ls] bind_all_binds [of "map jk_Right ks" ?rs] ks(2) by auto
  have "\<forall>c \<in> set (getNonEquiConditions on ks). condition (?ls @ ?rs) c"
    using on by (auto simp: getNonEquiConditions_def unused_conds_def atomic_def in_set_enumerate_eq)
  then obtain R where R: "wrapInFilter (node P Q lks rks) (getNonEquiConditions on ks) (?ls @ ?rs) = Some R"
    "PlanNode_OutputSchema R = map ctype (?ls @ ?rs)"
    "physical_rows db R = filter (sats (?ls @ ?rs) (getNonEquiConditions on ks)) (physical_rows db (node P Q lks rks))"
    using wrapInFilter_rows [of "getNonEquiConditions on ks" "?ls @ ?rs" "node P Q lks rks" db] kids by (auto simp: node implements_def)
  have "physical_rows db R = inner_join (sats (?ls @ ?rs) on) (logical_rows db l) (logical_rows db r)"
    unfolding R(3) node(1) equi_rows_def binds_all_eval [OF b(2)] binds_all_eval [OF b(4)] keys_equal_holds
    using kids ks(3) len by (simp add: implements_def) (rule filter_equi_rows, simp)
  then show ?thesis using R(1,2) ks(1) b(1,3) kids by (simp add: equi_join_plan_def getEquiJoinKeys_def implements_def)
qed

section \<open>Properties\<close>

text \<open>C5: The planner is correct on the plans it supports. Every well-formed logical plan whose tables exist and whose columns resolve, made of
  scans, values, filters, inner and cross joins, projections, sorts, limits without offset, aggregations and the statements
  that change a table, with expressions of the types that the schemas say and projections that evaluate on the rows of their
  child, is optimized and turned into a physical plan by the rules that the program installs, without an error or
  a panic; the physical plan has the types of the logical schema and returns the rows of the logical plan in the same order,
  whatever the tables contain. Outer joins (a left join is planned as an inner one), limits with an offset and derived
  tables are excluded.\<close>

theorem planner_sound:
  assumes "wf_plan (ref_rows db) (op_rows db) p" "plannable db cat p" "weight p < fuel"
  shows "\<exists>q P. OptimizeWithRule fuel p = Some q \<and> Build physicalRules cat q = Some (Inr P) \<and>
    PlanNode_OutputSchema P = map ctype (OutputSchema p) \<and> physical_rows db P = plan_rows (ref_rows db) (op_rows db) p"
  by (rule planner_sound_spec [OF assms])

text \<open>Two tables \<open>t\<close> and \<open>u\<close> with one column \<open>a\<close> each.\<close>

definition two_tables :: Catalog where
  "two_tables = \<lparr>NextId = 3, Tables = map (\<lambda>oid. \<lparr>tb_Oid = oid, tb_Name = [], tb_Columns = [\<lparr>col_Name = ''a'', col_Type = IntType\<rparr>],
     tb_Indexes = []\<rparr>) [1, 2], tableMap = Map.empty, columnMap = (\<lambda>_. [])\<rparr>"

definition two_rows :: database where
  "two_rows = \<lparr>db_table = (\<lambda>oid. if oid = 1 then [[NewIntValue 1], [NewIntValue 2]] else [[NewIntValue 2], [NewIntValue 3]]),
     db_scan = (\<lambda>_ _ _. []), db_lookup = (\<lambda>_ _. []), db_probe = (\<lambda>_ _. []), db_aggregate = (\<lambda>_ _. [])\<rparr>"

definition side_col :: "string \<Rightarrow> uint64 \<Rightarrow> LogicalColumn" where
  "side_col nm i = \<lparr>cname = ''a'', ctype = IntType, origin = Some \<lparr>tr_table = Some (ucast i), tr_alias = nm, refID = i\<rparr>\<rparr>"

definition same_a :: Expr where
  "same_a = ComparisonExpression (LogicalColumnExpr (side_col ''t'' 1)) (LogicalColumnExpr (side_col ''u'' 2)) Equal"

definition two_join :: "Expr list \<Rightarrow> JoinType \<Rightarrow> LogicalPlanNode" where
  "two_join on jt = LogicalJoinNode (LogicalScanNode (scan_of ''t'' 1)) (LogicalScanNode (scan_of ''u'' 2)) on jt"

text \<open>\<open>SELECT t.a FROM t JOIN u ON t.a = u.a WHERE t.a > 1 LIMIT 5\<close>\<close>

definition two_query :: LogicalPlanNode where
  "two_query = NewLogicalLimitNode (NewLogicalProjectionNode (LogicalFilterNode (two_join [same_a] Inner) (a_cmp 1 GreaterThan))
     [LogicalColumnExpr (side_col ''t'' 1)] [side_col ''t'' 1]) 5 0"

lemmas two_defs = two_tables_def two_rows_def side_col_def same_a_def two_join_def two_query_def scan_of_def a_cmp_def col_a_def

lemma two_schema [simp]:
  "OutputSchema (two_join on jt) = [side_col ''t'' 1, side_col ''u'' 2]"
  by (simp add: two_defs)

lemma side_cols:
  "LogicalColumn_Equals (side_col nm i) (side_col nm' j) \<longleftrightarrow> i = j \<or> (i = 0 \<or> j = 0) \<and> nm = nm'"
  "LogicalColumn_Equals (side_col nm i) col_a \<longleftrightarrow> i = 1 \<or> i = 0 \<and> nm = ''t''"
  by (auto simp: side_col_def col_a_def LogicalColumn_Equals_def EqualFold_def TableRef_Equals_def)

lemma two_disjoint: "\<not> (Schema_Contains [side_col ''t'' 1] c \<and> Schema_Contains [side_col ''u'' 2] c)"
  by (auto simp: Schema_Contains_def LogicalColumn_Equals_def side_col_def TableRef_Equals_def eq_commute [of "''t''"] eq_commute [of "''u''"]
      split: option.splits if_splits)

lemma scan_fields: "sn_schema (scan_of nm i) = [side_col nm i]" "sn_projection (scan_of nm i) = None" "sn_Predicates (scan_of nm i) = []"
  by (simp_all add: scan_of_def side_col_def)

lemma scan_schema: "OutputSchema (LogicalScanNode (scan_of nm i)) = [side_col nm i]"
  by (simp add: scan_fields)

lemma two_wf: "wf_query two_rows two_query" "wf_query two_rows (two_join on jt)"
  using two_disjoint
  by (auto simp: two_query_def NewLogicalLimitNode_def NewLogicalProjectionNode_def two_join_def scan_schema reports_def a_cmp_def
      project_row_def List.map_filter_def ref_rows_def two_rows_def scan_of_def side_col_def those_eq_Some split: option.splits if_splits
      dest!: in_set_takeD)

lemma two_conditions:
  "atomic [side_col ''t'' 1] [side_col ''u'' 2] same_a"
  "condition [side_col ''t'' 1, side_col ''u'' 2] (a_cmp i op)"
  "bindable [side_col ''t'' 1, side_col ''u'' 2] (LogicalColumnExpr (side_col ''t'' 1))"
  by (simp_all add: atomic_def condition_def bindable_def same_a_def a_cmp_def reports_def Schema_Contains_def side_cols)
     (simp_all add: side_col_def col_a_def NewIntValue_def zeroValue_def)

lemma two_plannable: "plannable two_rows two_tables two_query" "jt \<in> {Inner, Cross} \<Longrightarrow> plannable two_rows two_tables (two_join [same_a] jt)"
proof -
  have scan: "plannable two_rows two_tables (LogicalScanNode (scan_of nm i))" if "i = 1 \<or> i = 2" for nm i
    using that by (auto simp: table_ok_def scan_of_def two_tables_def GetTableByOid_def tableSchemaToTypes_def)
  have c: "condition ([side_col ''t'' 1] @ [side_col ''u'' 2]) same_a" using two_conditions(1) by (simp add: atomic_def)
  show join: "plannable two_rows two_tables (two_join [same_a] jt)" if "jt \<in> {Inner, Cross}" for jt
    using scan [of 1 "''t''"] scan [of 2 "''u''"] c that by (auto simp: two_join_def scan_fields)
  have rows: "project_row [side_col ''t'' 1, side_col ''u'' 2] [LogicalColumnExpr (side_col ''t'' 1)] r \<noteq> None"
    if "r \<in> set (logical_rows two_rows (LogicalFilterNode (two_join [same_a] Inner) e))" for r e
  proof -
    have "length r = 2" using that plan_rows_length [OF two_wf(2), of r "[same_a]" Inner] by simp
    then show ?thesis by (cases r) (simp_all add: project_row_def env_row_def side_cols idx_def)
  qed
  show "plannable two_rows two_tables two_query"
    using join [of Inner] two_conditions(2,3) rows
    by (auto simp: two_query_def NewLogicalLimitNode_def NewLogicalProjectionNode_def RawOutputSchema_def side_col_def)
qed

theorem planner_sound_witness:
  "\<exists>q P. OptimizeWithRule 20 two_query = Some q \<and> Build physicalRules two_tables q = Some (Inr P) \<and>
     PlanNode_OutputSchema P = [IntType] \<and> physical_rows two_rows P = plan_rows (ref_rows two_rows) (op_rows two_rows) two_query"
proof -
  have "weight two_query < 20" by (simp add: two_query_def NewLogicalLimitNode_def NewLogicalProjectionNode_def two_join_def)
  from planner_sound [OF two_wf(1) two_plannable(1) this]
  show ?thesis by (simp add: two_query_def NewLogicalLimitNode_def NewLogicalProjectionNode_def side_col_def)
qed

text \<open>The rules for hash joins and for sort-merge joins are correct on inner joins whose conditions are no conjunctions:
  the conditions that compare a column of each side become keys, on whichever side of the comparison they are, the others
  a filter above the join, and together they select the rows of the logical join, in the order of a nested loop.\<close>

theorem equi_join_rules_equivalent:
  assumes "implements db l P" "implements db r Q" "wf_plan (ref_rows db) (op_rows db) (LogicalJoinNode l r on Inner)"
    "\<forall>c \<in> set on. atomic (OutputSchema l) (OutputSchema r) c"
  shows "(\<exists>R. HashJoinRule_Apply (LogicalJoinNode l r on Inner) [P, Q] cat = Some (Inr R) \<and>
      PlanNode_OutputSchema R = map ctype (OutputSchema l @ OutputSchema r) \<and>
      physical_rows db R = plan_rows (ref_rows db) (op_rows db) (LogicalJoinNode l r on Inner)) \<and>
    (\<exists>R. SortMergeJoinRule_Apply (LogicalJoinNode l r on Inner) [P, Q] cat = Some (Inr R) \<and>
      PlanNode_OutputSchema R = map ctype (OutputSchema l @ OutputSchema r) \<and>
      physical_rows db R = plan_rows (ref_rows db) (op_rows db) (LogicalJoinNode l r on Inner))"
  using equi_join_plan_rows [of db HashJoinNode, OF _ _ assms] equi_join_plan_rows [of db SortMergeJoinNode, OF _ _ assms] by simp

definition side_scan :: "ObjectID \<Rightarrow> PlanNode" where
  "side_scan oid = SeqScanNode oid [IntType] LockModeS"

lemma side_scan_implements:
  "implements two_rows (LogicalScanNode (scan_of nm i)) (side_scan (ucast i))"
  by (simp add: implements_def side_scan_def scan_of_def ref_rows_def two_rows_def Let_def)

theorem equi_join_rules_equivalent_witness:
  "\<exists>R. HashJoinRule_Apply (two_join [same_a] Inner) [side_scan (ucast (1 :: uint64)), side_scan (ucast (2 :: uint64))] two_tables = Some (Inr R) \<and>
     physical_rows two_rows R = plan_rows (ref_rows two_rows) (op_rows two_rows) (two_join [same_a] Inner)"
proof -
  have "\<forall>c \<in> set [same_a]. atomic (OutputSchema (LogicalScanNode (scan_of ''t'' 1) :: LogicalPlanNode))
      (OutputSchema (LogicalScanNode (scan_of ''u'' 2) :: LogicalPlanNode)) c"
    using two_conditions(1) by (simp add: scan_fields)
  from equi_join_rules_equivalent [OF side_scan_implements side_scan_implements two_wf(2) [unfolded two_join_def] this, of two_tables]
  show ?thesis unfolding two_join_def by blast
qed

lemma keeps_code [code]: "keeps p t = (case Eval p t of Some v \<Rightarrow> ExprIsTrue v | None \<Rightarrow> False)"
  by (auto simp: keeps_def split: option.split)

lemma join_type_ignored: "convert physicalRules cat (LogicalJoinNode l r on jt) ps = convert physicalRules cat (LogicalJoinNode l r on jt') ps"
  by (cases ps; cases "tl ps") (simp_all add: convert_def physicalRules_def rule_defs)

text \<open>Outer joins are planned as inner joins: the physical plan does not depend on the type of the join. With the rows 1, 2 in
  \<open>t\<close> and 2, 3 in \<open>u\<close>, the plan of \<open>t LEFT JOIN u ON t.a = u.a\<close> returns one row and not the two rows of the query.\<close>

theorem outer_join_planned_as_inner:
  "Build physicalRules cat (LogicalJoinNode l r on jt) = Build physicalRules cat (LogicalJoinNode l r on Inner) \<and>
   map_option (map_sum id (physical_rows two_rows)) (Build physicalRules two_tables (two_join [same_a] Left)) =
     Some (Inr [[NewIntValue 2, NewIntValue 2]]) \<and>
   plan_rows (ref_rows two_rows) (op_rows two_rows) (two_join [same_a] Left) =
     [[NewIntValue 1, NewNullInt], [NewIntValue 2, NewIntValue 2]]"
proof (intro conjI)
  show "Build physicalRules cat (LogicalJoinNode l r on jt) = Build physicalRules cat (LogicalJoinNode l r on Inner)"
    by (simp only: Build.simps join_type_ignored [of cat l r on jt _ Inner])
  show "map_option (map_sum id (physical_rows two_rows)) (Build physicalRules two_tables (two_join [same_a] Left)) =
     Some (Inr [[NewIntValue 2, NewIntValue 2]])"
    by code_simp
  show "plan_rows (ref_rows two_rows) (op_rows two_rows) (two_join [same_a] Left) =
     [[NewIntValue 1, NewNullInt], [NewIntValue 2, NewIntValue 2]]"
    by code_simp
qed

definition composite_index :: Catalog where
  "composite_index = two_tables\<lparr>Tables := map (\<lambda>t. t\<lparr>tb_Indexes := [\<lparr>ix_Oid = 9, ix_TableOid = tb_Oid t, ix_Name = ''i'', ix_Type = ''btree'',
     ix_KeySchema = [''a'', ''b'']\<rparr>]\<rparr>) (Tables two_tables)\<rparr>"

text \<open>Two flaws of the rules for equal keys. The condition \<open>t.a = u.a AND t.a > 5\<close>, which an ON clause yields as one conjunction,
  becomes a hash join on \<open>a\<close> alone: the rest of the conjunction is dropped, and a row is returned where the query has
  none. And the index rule matches as soon as the first column of an index is a key, but fails with an error, instead of leaving
  the join to another rule, when the other columns of the index are not.\<close>

theorem equi_join_rules_flaws:
  "map_option (map_sum id (physical_rows two_rows)) (HashJoinRule_Apply
       (two_join [BinaryLogicExpression same_a (a_cmp 5 GreaterThan) And] Inner) [side_scan 1, side_scan 2] two_tables) =
     Some (Inr [[NewIntValue 2, NewIntValue 2]]) \<and>
   plan_rows (ref_rows two_rows) (op_rows two_rows) (two_join [BinaryLogicExpression same_a (a_cmp 5 GreaterThan) And] Inner) = [] \<and>
   IndexNestedLoopJoinRule_Match (two_join [same_a] Inner) [side_scan 1, side_scan 2] composite_index = Some True \<and>
   Build (IndexNestedLoopJoinRule # physicalRules) composite_index (two_join [same_a] Inner) =
     Some (Inl (PlanError ''IndexNestedLoopJoinRule: matched but failed to find index in Apply''))"
  by (intro conjI; code_simp)

text \<open>C39: The plan of an UPDATE computes the new row column by column: a column of the SET clause gets the value of its
  expression on the old row, every other column keeps its value, in the order of the columns of the table.\<close>

theorem UpdateRule_new_row:
  assumes "PlanNode_OutputSchema P = map ctype (OutputSchema c)" "GetTableByOid oid cat = Inr t"
    "\<forall>u \<in> set updates. bindable (OutputSchema c) (snd u)"
  shows "\<exists>es. UpdateRule_Apply (NewLogicalUpdateNode oid c updates) [P] cat = Some (Inr (UpdateNode oid P es)) \<and>
    length es = length (tb_Columns t) \<and>
    (\<forall>r i. i < length es \<longrightarrow> Eval (es ! i) (FromValues (Some r)) =
      (case find (\<lambda>u. cname (fst u) = col_Name (tb_Columns t ! i)) updates of
         Some u \<Rightarrow> leval (env_row (OutputSchema c) r) (snd u)
       | None \<Rightarrow> idx r i))"
proof -
  let ?ls = "OutputSchema c" and ?cols = "tb_Columns t"
  let ?u = "\<lambda>i. update_expr updates ?ls (map ctype ?ls) i (?cols ! i)"
  let ?sem = "\<lambda>i r. case find (\<lambda>u. cname (fst u) = col_Name (?cols ! i)) updates of
      Some u \<Rightarrow> leval (env_row ?ls r) (snd u) | None \<Rightarrow> idx r i"
  have one: "\<exists>e. ?u i = Some e \<and> (\<forall>r. Eval e (row_tuple r) = ?sem i r)" for i
  proof (cases "find (\<lambda>u. cname (fst u) = col_Name (?cols ! i)) updates")
    case None
    then show ?thesis by (simp add: update_expr_def case_prod_unfold)
  next
    case (Some u)
    then have "u \<in> set updates" by (metis find_Some_iff nth_mem)
    then obtain e where "BindExpr (snd u) ?ls (map ctype ?ls) = Some e" "binds ?ls (snd u) e" using BindExpr_binds assms(3) by blast
    then show ?thesis using Some by (auto simp: update_expr_def case_prod_unfold binds_def)
  qed
  let ?es = "map (\<lambda>i. the (?u i)) [0..<length ?cols]"
  have "?u i = Some (the (?u i))" for i using one [of i] by auto
  then have "map2 (update_expr updates ?ls (map ctype ?ls)) [0..<length ?cols] ?cols = map Some ?es"
    by (intro nth_equalityI) simp_all
  then have "those (map2 (update_expr updates ?ls (map ctype ?ls)) [0..<length ?cols] ?cols) = Some ?es" by (simp only: those_eq_Some)
  then have "UpdateRule_Apply (NewLogicalUpdateNode oid c updates) [P] cat = Some (Inr (UpdateNode oid P ?es))"
    using assms(1,2) by (simp add: NewLogicalUpdateNode_def)
  moreover have "Eval (?es ! i) (row_tuple r) = ?sem i r" if "i < length ?es" for i r
    using one [of i] that by auto
  ultimately show ?thesis by (intro exI [of _ ?es]) simp
qed

text \<open>\<open>UPDATE t SET a = 7\<close>\<close>

theorem UpdateRule_new_row_witness:
  "\<exists>es. UpdateRule_Apply (NewLogicalUpdateNode 1 (LogicalScanNode (scan_of ''t'' 1)) [(side_col ''t'' 1, ConstantValueExpr (NewIntValue 7))])
      [side_scan 1] two_tables = Some (Inr (UpdateNode 1 (side_scan 1) es)) \<and> length es = 1 \<and>
    Eval (es ! 0) (FromValues (Some [NewIntValue 3])) = Some (NewIntValue 7)"
proof -
  have t: "GetTableByOid 1 two_tables = Inr (hd (Tables two_tables))" "length (tb_Columns (hd (Tables two_tables))) = 1"
    "col_Name (tb_Columns (hd (Tables two_tables)) ! 0) = ''a''"
    by (simp_all add: two_tables_def GetTableByOid_def)
  have "PlanNode_OutputSchema (side_scan 1) = map ctype (OutputSchema (LogicalScanNode (scan_of ''t'' 1) :: LogicalPlanNode))"
    by (simp add: side_scan_def scan_of_def)
  from UpdateRule_new_row [OF this t(1), of "[(side_col ''t'' 1, ConstantValueExpr (NewIntValue 7))]"]
  show ?thesis by (auto simp: t(2,3) bindable_def side_col_def NewIntValue_def zeroValue_def simp del: UpdateRule_Apply.simps)
qed

end
