(* ===== verification/Storage_BufferPool.thy ===== *)
theory Storage_BufferPool
  imports Storage_Disk
begin

text \<open>
  The buffer pool (\<open>storage/buffer_pool.go\<close>).

  The frames are a list and a pointer to a frame is its index; the page table is the concurrent map of
  Storage_Disk and the files below the pool are any implementation of \<open>DBFileManager\<close>. \<open>GetPage\<close> is a
  loop: \<open>GetPage_try\<close> is one iteration, which returns, fails or asks for another iteration
  (\<open>Retry\<close>), and \<open>GetPage\<close> iterates it with fuel. Each iteration, \<open>UnpinPage\<close> and the flush of
  one frame run under the latches of the frames they touch and are one step each; between two iterations
  other threads may run. The second look-up of the page table under \<open>poolLatch\<close> is the first one then.
\<close>

section \<open>The model\<close>

definition maxRefCount :: int32 where [simp]: "maxRefCount = 2"

record 'm BufferPool =
  frames :: "PageFrame list"
  pageTable :: 'm
  clockHand :: nat

definition new_frame :: PageFrame where
  "new_frame = \<lparr>Bytes = replicate PageSize 0, pf_pageID = nilPageID, pinCount = 0, isDirty = False, refCount = 0\<rparr>"

definition NewBufferPool :: "(PageID, nat, 'm) MapOf \<Rightarrow> nat \<Rightarrow> 'm BufferPool" where
  "NewBufferPool X numPages = \<lparr>frames = replicate numPages new_frame, pageTable = m_New X, clockHand = 0\<rparr>"

text \<open>\<open>GetPage\<close> on a cached page.\<close>

definition pin_frame :: "PageFrame \<Rightarrow> PageFrame" where
  "pin_frame frame = frame\<lparr>pinCount := pinCount frame + 1,
     refCount := (if sint (refCount frame) < sint maxRefCount then refCount frame + 1 else refCount frame)\<rparr>"

text \<open>One pass of the clock: the flag says whether a reference count is decremented or cleared.\<close>

fun clock_pass :: "bool \<Rightarrow> nat \<Rightarrow> PageFrame list \<Rightarrow> nat \<Rightarrow> (nat option \<times> PageFrame list \<times> nat) option" where
  "clock_pass dec 0 frs hand = Some (None, frs, hand)"
| "clock_pass dec (Suc n) frs hand = do {
     frame \<leftarrow> idx frs hand;
     let next = (hand + 1) mod length frs;
     (if pinCount frame = 0 then
        (if refCount frame = 0 then Some (Some hand, frs, hand)
         else let frame' = frame\<lparr>refCount := (if dec then refCount frame - 1 else 0)\<rparr>;
                  frs' = frs[hand := frame']
              in if refCount frame' = 0 then Some (Some hand, frs', hand) else clock_pass dec n frs' next)
      else clock_pass dec n frs next)
   }"

fun clock_passes :: "nat \<Rightarrow> nat \<Rightarrow> PageFrame list \<Rightarrow> nat \<Rightarrow> (nat option \<times> PageFrame list \<times> nat) option" where
  "clock_passes 0 pass frs hand = Some (None, frs, hand)"
| "clock_passes (Suc k) pass frs hand = do {
     (victim, frs', hand') \<leftarrow> clock_pass (pass = 0 \<and> length frs \<le> 1000) (length frs) frs hand;
     (case victim of
        Some _ \<Rightarrow> Some (victim, frs', hand')
      | None \<Rightarrow> clock_passes k (Suc pass) frs' hand')
   }"

definition find_victim :: "PageFrame list \<Rightarrow> nat \<Rightarrow> (nat option \<times> PageFrame list \<times> nat) option" where
  "find_victim frs hand = clock_passes (if length frs > 1000 then 1 else 2) 0 frs hand"

text \<open>Writing a dirty frame to a page of its file, and reading a page into a frame.\<close>

definition write_back :: "'fs DBFileManager \<Rightarrow> PageID \<Rightarrow> PageFrame \<Rightarrow> 'fs \<Rightarrow> ((string + PageFrame) \<times> 'fs) option" where
  "write_back M pid frame fs =
     (if \<not> isDirty frame then Some (Inr frame, fs)
      else case fm_GetDBFile M (Oid pid) fs of
        (Inl err, fs) \<Rightarrow> Some (Inl err, fs)
      | (Inr dbFile, fs) \<Rightarrow> do {
          (res, fs) \<leftarrow> fm_WritePage M dbFile (PageNum pid) (Bytes frame) fs;
          (case res of Inl err \<Rightarrow> Some (Inl err, fs) | Inr _ \<Rightarrow> Some (Inr (frame\<lparr>isDirty := False\<rparr>), fs))
        })"

definition read_in :: "'fs DBFileManager \<Rightarrow> PageID \<Rightarrow> PageFrame \<Rightarrow> 'fs \<Rightarrow> ((string + PageFrame) \<times> 'fs) option" where
  "read_in M pid frame fs =
     (case fm_GetDBFile M (Oid pid) fs of
        (Inl err, fs) \<Rightarrow> Some (Inl err, fs)
      | (Inr dbFile, fs) \<Rightarrow> do {
          (res, fs) \<leftarrow> fm_ReadPage M dbFile (PageNum pid) (length (Bytes frame)) fs;
          (case res of Inl err \<Rightarrow> Some (Inl err, fs) | Inr bs \<Rightarrow> Some (Inr (frame\<lparr>Bytes := bs\<rparr>), fs))
        })"

definition give_up :: "PageFrame \<Rightarrow> PageFrame" where
  "give_up frame = frame\<lparr>pinCount := 0, pf_pageID := nilPageID\<rparr>"

definition load_page :: "(PageID, nat, 'm) MapOf \<Rightarrow> 'fs DBFileManager \<Rightarrow> PageID \<Rightarrow> nat \<Rightarrow> 'm BufferPool \<Rightarrow> 'fs \<Rightarrow>
    ((string + nat) \<times> 'm BufferPool \<times> 'fs) option" where
  "load_page X M pageID i bp fs = do {
     frame \<leftarrow> idx (frames bp) i;
     let oldPageID = pf_pageID frame;
     let victim = frame\<lparr>pinCount := 1, pf_pageID := pageID\<rparr>;
     let table = m_Store X pageID i (pageTable bp);
     let bp = bp\<lparr>clockHand := (clockHand bp + 1) mod length (frames bp)\<rparr>;
     (wres, fs) \<leftarrow> write_back M oldPageID victim fs;
     (case wres of
        Inl err \<Rightarrow> Some (Inl err, bp\<lparr>frames := (frames bp)[i := give_up victim],
          pageTable := m_Delete X oldPageID (m_Delete X pageID table)\<rparr>, fs)
      | Inr victim \<Rightarrow> do {
          let table = m_Delete X oldPageID table;
          let victim = victim\<lparr>refCount := 1\<rparr>;
          (rres, fs) \<leftarrow> read_in M pageID victim fs;
          (case rres of
             Inl err \<Rightarrow> Some (Inl err, bp\<lparr>frames := (frames bp)[i := give_up victim], pageTable := m_Delete X pageID table\<rparr>, fs)
           | Inr victim \<Rightarrow> Some (Inr i, bp\<lparr>frames := (frames bp)[i := victim], pageTable := table\<rparr>, fs))
        })
   }"

datatype get_outcome = Retry | Got "string + nat"

definition GetPage_try :: "(PageID, nat, 'm) MapOf \<Rightarrow> 'fs DBFileManager \<Rightarrow> PageID \<Rightarrow> 'm BufferPool \<Rightarrow> 'fs \<Rightarrow>
    (get_outcome \<times> 'm BufferPool \<times> 'fs) option" where
  "GetPage_try X M pageID bp fs =
     (case m_Load X (pageTable bp) pageID of
        Some i \<Rightarrow> do {
          frame \<leftarrow> idx (frames bp) i;
          Some (if pf_pageID frame = pageID then (Got (Inr i), bp\<lparr>frames := (frames bp)[i := pin_frame frame]\<rparr>, fs)
                else (Retry, bp, fs))
        }
      | None \<Rightarrow> do {
          (victim, frs, hand) \<leftarrow> find_victim (frames bp) (clockHand bp);
          let bp = bp\<lparr>frames := frs, clockHand := hand\<rparr>;
          (case victim of
             None \<Rightarrow> Some (Retry, bp, fs)
           | Some i \<Rightarrow> do {
               (res, bp, fs) \<leftarrow> load_page X M pageID i bp fs;
               Some (Got res, bp, fs)
             })
        })"

fun GetPage :: "nat \<Rightarrow> (PageID, nat, 'm) MapOf \<Rightarrow> 'fs DBFileManager \<Rightarrow> PageID \<Rightarrow> 'm BufferPool \<Rightarrow> 'fs \<Rightarrow>
    ((string + nat) \<times> 'm BufferPool \<times> 'fs) option" where
  "GetPage 0 X M pageID bp fs = None"
| "GetPage (Suc fuel) X M pageID bp fs = do {
     (out, bp, fs) \<leftarrow> GetPage_try X M pageID bp fs;
     (case out of Retry \<Rightarrow> GetPage fuel X M pageID bp fs | Got res \<Rightarrow> Some (res, bp, fs))
   }"

definition UnpinPage :: "nat \<Rightarrow> bool \<Rightarrow> 'm BufferPool \<Rightarrow> 'm BufferPool option" where
  "UnpinPage i setDirty bp = do {
     frame \<leftarrow> idx (frames bp) i;
     let frame = (if pinCount frame \<noteq> 0 then frame\<lparr>pinCount := pinCount frame - 1\<rparr> else frame);
     let frame = (if setDirty then frame\<lparr>isDirty := True\<rparr> else frame);
     Some (bp\<lparr>frames := (frames bp)[i := frame]\<rparr>)
   }"

definition flushFrame :: "'fs DBFileManager \<Rightarrow> PageFrame \<Rightarrow> 'fs \<Rightarrow> ((string + PageFrame) \<times> 'fs) option" where
  "flushFrame M frame fs = write_back M (pf_pageID frame) frame fs"

fun flush_loop :: "'fs DBFileManager \<Rightarrow> PageFrame list \<Rightarrow> 'fs \<Rightarrow> ((string + unit) \<times> PageFrame list \<times> 'fs) option" where
  "flush_loop M [] fs = Some (Inr (), [], fs)"
| "flush_loop M (frame # frs) fs = do {
     (res, fs) \<leftarrow> flushFrame M frame fs;
     (case res of
        Inl err \<Rightarrow> Some (Inl err, frame # frs, fs)
      | Inr frame \<Rightarrow> do {
          (res, frs, fs) \<leftarrow> flush_loop M frs fs;
          Some (res, frame # frs, fs)
        })
   }"

definition FlushAllPages :: "'fs DBFileManager \<Rightarrow> 'm BufferPool \<Rightarrow> 'fs \<Rightarrow> ((string + unit) \<times> 'm BufferPool \<times> 'fs) option" where
  "FlushAllPages M bp fs = do {
     (res, frs, fs) \<leftarrow> flush_loop M (frames bp) fs;
     Some (res, bp\<lparr>frames := frs\<rparr>, fs)
   }"

section \<open>The clock\<close>

text \<open>The sweep only lowers reference counts of unpinned frames.\<close>

definition swept :: "PageFrame \<Rightarrow> PageFrame \<Rightarrow> bool" where
  "swept f f' \<longleftrightarrow> (\<exists>r. f' = f\<lparr>refCount := r\<rparr> \<and> (pinCount f \<noteq> 0 \<longrightarrow> r = refCount f) \<and>
     0 \<le> sint r \<and> sint r \<le> sint (refCount f))"

abbreviation refs_ok :: "PageFrame list \<Rightarrow> bool" where
  "refs_ok frs \<equiv> (\<forall>f\<in>set frs. 0 \<le> sint (refCount f) \<and> sint (refCount f) \<le> 2)"

lemma swept_refl: "0 \<le> sint (refCount f) \<Longrightarrow> swept f f"
  unfolding swept_def by (rule exI [of _ "refCount f"]) simp

lemma swept_trans: "swept f g \<Longrightarrow> swept g h \<Longrightarrow> swept f h"
  unfolding swept_def by (elim exE conjE, rule_tac x = ra in exI) auto

lemma sweptD:
  assumes "swept f f'"
  shows "Bytes f' = Bytes f" "pf_pageID f' = pf_pageID f" "pinCount f' = pinCount f" "isDirty f' = isDirty f"
    "pinCount f \<noteq> 0 \<Longrightarrow> f' = f" "0 \<le> sint (refCount f')" "sint (refCount f') \<le> sint (refCount f)"
  using assms unfolding swept_def by auto

lemma all2_swept_refl: "refs_ok frs \<Longrightarrow> list_all2 swept frs frs"
  by (auto simp: list_all2_conv_all_nth intro: swept_refl)

lemma all2_swept_trans: "list_all2 swept xs ys \<Longrightarrow> list_all2 swept ys zs \<Longrightarrow> list_all2 swept xs zs"
  by (rule list_all2_trans [of swept swept swept]) (rule swept_trans)

lemma all2_swept_refs: "list_all2 swept frs frs' \<Longrightarrow> refs_ok frs \<Longrightarrow> refs_ok frs'"
  by (induction rule: list_all2_induct) (auto dest: sweptD(6,7))

lemma refCount_dec: "w \<noteq> 0 \<Longrightarrow> 0 \<le> sint w \<Longrightarrow> sint w \<le> 2 \<Longrightarrow> sint (w - 1 :: int32) = sint w - 1"
  by (simp add: sint_word_ariths signed_take_bit_int_eq_self)

lemma swept_lower:
  assumes "pinCount f = 0" "refCount f \<noteq> 0" "0 \<le> sint (refCount f)" "sint (refCount f) \<le> 2"
  shows "swept f (f\<lparr>refCount := if dec then refCount f - 1 else 0\<rparr>)"
proof -
  have "0 < sint (refCount f)" using assms(2,3) by (metis signed_0 order_le_less signed_word_eqI)
  then show ?thesis using assms refCount_dec [of "refCount f"] unfolding swept_def
    by (intro exI [of _ "if dec then refCount f - 1 else 0"]) auto
qed

lemma all2_swept_update:
  "refs_ok frs \<Longrightarrow> i < length frs \<Longrightarrow> swept (frs ! i) f' \<Longrightarrow> list_all2 swept frs (frs[i := f'])"
  by (auto simp: list_all2_conv_all_nth nth_list_update intro: swept_refl)

lemma clock_pass_spec:
  assumes "refs_ok frs" "hand < length frs"
  shows "\<exists>v frs' hand'. clock_pass dec n frs hand = Some (v, frs', hand') \<and> list_all2 swept frs frs' \<and>
    hand' < length frs' \<and> (\<forall>i. v = Some i \<longrightarrow> i = hand' \<and> pinCount (frs' ! i) = 0) \<and>
    (v = None \<and> \<not> dec \<longrightarrow> (\<forall>k<n. pinCount (frs ! ((hand + k) mod length frs)) \<noteq> 0))"
  using assms
proof (induction n arbitrary: frs hand)
  case 0
  then show ?case by (simp add: all2_swept_refl)
next
  case (Suc n)
  let ?f = "frs ! hand" and ?next = "(hand + 1) mod length frs"
  let ?f' = "?f\<lparr>refCount := if dec then refCount ?f - 1 else 0\<rparr>"
  have nx: "?next < length frs" using Suc.prems(2) by (intro mod_less_divisor) auto
  have f: "0 \<le> sint (refCount ?f)" "sint (refCount ?f) \<le> 2" using Suc.prems by auto
  consider (ref0) "pinCount ?f = 0" "refCount ?f = 0" | (hit) "pinCount ?f = 0" "refCount ?f \<noteq> 0" "refCount ?f' = 0"
    | (miss) "pinCount ?f = 0" "refCount ?f \<noteq> 0" "refCount ?f' \<noteq> 0" | (pinned) "pinCount ?f \<noteq> 0" by blast
  then show ?case
  proof cases
    case ref0
    then show ?thesis using Suc.prems by (simp add: all2_swept_refl)
  next
    case hit
    then have "list_all2 swept frs (frs[hand := ?f'])" using Suc.prems f by (intro all2_swept_update swept_lower)
    then show ?thesis using hit Suc.prems by (simp add: Let_def)
  next
    case miss
    let ?frs = "frs[hand := ?f']"
    have sw: "list_all2 swept frs ?frs" using miss Suc.prems f by (intro all2_swept_update swept_lower)
    have "refs_ok ?frs" by (rule all2_swept_refs [OF sw Suc.prems(1)])
    from Suc.IH [OF this, of ?next] nx obtain v frs' hand' where
      r: "clock_pass dec n ?frs ?next = Some (v, frs', hand')" "list_all2 swept ?frs frs'" "hand' < length frs'"
        "\<forall>i. v = Some i \<longrightarrow> i = hand' \<and> pinCount (frs' ! i) = 0" by auto
    have "dec" using miss(3) by (cases dec) auto
    then show ?thesis using miss Suc.prems r all2_swept_trans [OF sw r(2)] by (simp add: Let_def)
  next
    case pinned
    from Suc.IH [OF Suc.prems(1) nx] obtain v frs' hand' where
      r: "clock_pass dec n frs ?next = Some (v, frs', hand')" "list_all2 swept frs frs'" "hand' < length frs'"
        "\<forall>i. v = Some i \<longrightarrow> i = hand' \<and> pinCount (frs' ! i) = 0"
        "v = None \<and> \<not> dec \<longrightarrow> (\<forall>k<n. pinCount (frs ! ((?next + k) mod length frs)) \<noteq> 0)" by blast
    have "pinCount (frs ! ((hand + k) mod length frs)) \<noteq> 0" if "v = None" "\<not> dec" "k < Suc n" for k
    proof (cases k)
      case 0
      then show ?thesis using pinned Suc.prems(2) by simp
    next
      case (Suc j)
      then have "pinCount (frs ! ((?next + j) mod length frs)) \<noteq> 0" using r(5) that by auto
      then show ?thesis using Suc by (simp add: mod_add_left_eq)
    qed
    then show ?thesis using pinned Suc.prems r by (auto simp: Let_def)
  qed
qed

lemma clock_hand_covers: "h < (n :: nat) \<Longrightarrow> i < n \<Longrightarrow> \<exists>k<n. (h + k) mod n = i"
  by (intro exI [of _ "(n + i - h) mod n"]) (simp add: mod_add_right_eq)

text \<open>The sweep finds an unpinned frame whenever there is one, and changes nothing else.\<close>

lemma find_victim_spec:
  assumes "refs_ok frs" "hand < length frs"
  shows "\<exists>v frs' hand'. find_victim frs hand = Some (v, frs', hand') \<and> list_all2 swept frs frs' \<and> hand' < length frs' \<and>
    (\<forall>i. v = Some i \<longrightarrow> i = hand' \<and> pinCount (frs' ! i) = 0) \<and> (v = None \<longrightarrow> (\<forall>f\<in>set frs. pinCount f \<noteq> 0))"
proof -
  have all: "\<forall>f\<in>set frs. pinCount f \<noteq> 0"
    if "\<forall>k<length frs'. pinCount (frs' ! ((h + k) mod length frs')) \<noteq> 0" "h < length frs'" "list_all2 swept frs frs'" for frs' h
  proof -
    have "pinCount (frs' ! i) \<noteq> 0" if "i < length frs'" for i
      using clock_hand_covers [OF \<open>h < length frs'\<close> that] \<open>\<forall>k<length frs'. _ k\<close> by auto
    then show ?thesis using that(3) by (metis in_set_conv_nth list_all2_conv_all_nth sweptD(3))
  qed
  obtain v1 frs1 h1 where p1: "clock_pass (length frs \<le> 1000) (length frs) frs hand = Some (v1, frs1, h1)"
    "list_all2 swept frs frs1" "h1 < length frs1" "\<forall>i. v1 = Some i \<longrightarrow> i = h1 \<and> pinCount (frs1 ! i) = 0"
    "v1 = None \<and> \<not> length frs \<le> 1000 \<longrightarrow> (\<forall>k<length frs. pinCount (frs ! ((hand + k) mod length frs)) \<noteq> 0)"
    using clock_pass_spec [OF assms, of "length frs \<le> 1000" "length frs"] by blast
  show ?thesis
  proof (cases "v1 = None \<and> length frs \<le> 1000")
    case False
    then show ?thesis
      using p1 all [of frs hand] assms all2_swept_refl [OF assms(1)]
      by (auto simp: find_victim_def numeral_2_eq_2 split: option.split)
  next
    case True
    obtain v2 frs2 h2 where p2: "clock_pass False (length frs1) frs1 h1 = Some (v2, frs2, h2)"
      "list_all2 swept frs1 frs2" "h2 < length frs2" "\<forall>i. v2 = Some i \<longrightarrow> i = h2 \<and> pinCount (frs2 ! i) = 0"
      "v2 = None \<longrightarrow> (\<forall>k<length frs1. pinCount (frs1 ! ((h1 + k) mod length frs1)) \<noteq> 0)"
      using clock_pass_spec [OF all2_swept_refs [OF p1(2) assms(1)] p1(3), of False "length frs1"] by blast
    have "find_victim frs hand = Some (v2, frs2, h2)"
      using True p1(1) p2(1) by (auto simp: find_victim_def numeral_2_eq_2 split: option.split)
    then show ?thesis
      using p2 all [of frs1 h1] p1(2,3) all2_swept_trans [OF p1(2) p2(2)] by auto
  qed
qed

section \<open>The invariant and the logical pages\<close>

text \<open>What the frames hold: an unpinned clean frame holds its page as the file has it, a dirty frame
  holds a page that exists in its file. A frame without a page is unpinned.\<close>

definition frame_ok :: "(PageID \<Rightarrow> bytes option) \<Rightarrow> PageFrame \<Rightarrow> bool" where
  "frame_ok pages f \<longleftrightarrow> length (Bytes f) = PageSize \<and> 0 \<le> sint (refCount f) \<and> sint (refCount f) \<le> 2 \<and>
     (if pf_pageID f = nilPageID then pinCount f = 0
      else pages (pf_pageID f) \<noteq> None \<and>
        (\<not> isDirty f \<and> pinCount f = 0 \<longrightarrow> pages (pf_pageID f) = Some (Bytes f)))"

definition table_ok :: "(PageID \<Rightarrow> nat option) \<Rightarrow> PageFrame list \<Rightarrow> bool" where
  "table_ok t frs \<longleftrightarrow> (\<forall>pid i. t pid = Some i \<longleftrightarrow> i < length frs \<and> pf_pageID (frs ! i) = pid \<and> pid \<noteq> nilPageID)"

definition pool_inv :: "(PageID, nat, 'm) MapOf \<Rightarrow> (PageID \<Rightarrow> bytes option) \<Rightarrow> 'm BufferPool \<Rightarrow> bool" where
  "pool_inv X pages bp \<longleftrightarrow> pages nilPageID = None \<and> (frames bp = [] \<longrightarrow> clockHand bp = 0) \<and>
     (frames bp \<noteq> [] \<longrightarrow> clockHand bp < length (frames bp)) \<and>
     table_ok (m_Load X (pageTable bp)) (frames bp) \<and> (\<forall>f\<in>set (frames bp). frame_ok pages f)"

text \<open>The logical contents of a page: its frame's if it is cached, otherwise its file's.\<close>

definition view :: "(PageID, nat, 'm) MapOf \<Rightarrow> (PageID \<Rightarrow> bytes option) \<Rightarrow> 'm BufferPool \<Rightarrow> PageID \<Rightarrow> bytes option" where
  "view X pages bp pid = (case m_Load X (pageTable bp) pid of
     Some i \<Rightarrow> Some (Bytes (frames bp ! i)) | None \<Rightarrow> pages pid)"

lemma pool_invD:
  assumes "pool_inv X pages bp"
  shows "pages nilPageID = None" "frames bp \<noteq> [] \<Longrightarrow> clockHand bp < length (frames bp)"
    "table_ok (m_Load X (pageTable bp)) (frames bp)" "\<And>i. i < length (frames bp) \<Longrightarrow> frame_ok pages (frames bp ! i)"
    "refs_ok (frames bp)"
  using assms unfolding pool_inv_def frame_ok_def by auto

lemma table_okD: "table_ok t frs \<Longrightarrow> t pid = Some i \<longleftrightarrow> i < length frs \<and> pf_pageID (frs ! i) = pid \<and> pid \<noteq> nilPageID"
  unfolding table_ok_def by blast

lemma table_ok_nil: "table_ok t frs \<Longrightarrow> t nilPageID = None"
  using table_okD [of t frs nilPageID] by (cases "t nilPageID") auto

text \<open>A frame changes its page: what the table has to record.\<close>

lemma table_ok_move:
  assumes t: "table_ok t frs" and i: "i < length frs" and p: "pf_pageID f' = pid" "t pid = None"
    and "t' = (t(pf_pageID (frs ! i) := None))(pid := if pid = nilPageID then None else Some i)"
  shows "table_ok t' (frs[i := f'])"
  unfolding table_ok_def
proof (intro allI)
  fix q j
  have tq: "t q = Some j \<longleftrightarrow> j < length frs \<and> pf_pageID (frs ! j) = q \<and> q \<noteq> nilPageID" for q j
    by (rule table_okD [OF t])
  have none: "\<not> (j < length frs \<and> pf_pageID (frs ! j) = pid \<and> pid \<noteq> nilPageID)" for j
    using tq [of pid j] p(2) by simp
  show "t' q = Some j \<longleftrightarrow> j < length (frs[i := f']) \<and> pf_pageID (frs[i := f'] ! j) = q \<and> q \<noteq> nilPageID"
  proof (cases "q = pid")
    case True
    then show ?thesis using assms(5) i p none [of j] by (auto simp: nth_list_update)
  next
    case q: False
    show ?thesis
    proof (cases "q = pf_pageID (frs ! i)")
      case True
      have "t q = Some i" if "q \<noteq> nilPageID" using tq [of q i] True i that by simp
      then have "pf_pageID (frs ! j) = q \<longrightarrow> j = i" if "q \<noteq> nilPageID" "j < length frs" using tq [of q j] that by auto
      then show ?thesis using q True assms(5) p i by (cases "j = i") auto
    next
      case False
      then show ?thesis using q assms(5) p i tq [of q j] by (cases "j = i") auto
    qed
  qed
qed

lemma table_ok_same:
  "table_ok t frs \<Longrightarrow> length frs' = length frs \<Longrightarrow> (\<And>i. i < length frs \<Longrightarrow> pf_pageID (frs' ! i) = pf_pageID (frs ! i)) \<Longrightarrow>
   table_ok t frs'"
  unfolding table_ok_def by auto

text \<open>Replacing a frame by one with the same page.\<close>

lemma pool_inv_frame:
  assumes "pool_inv X pages bp" "i < length (frames bp)" "pf_pageID f' = pf_pageID (frames bp ! i)" "frame_ok pages f'"
  shows "pool_inv X pages (bp\<lparr>frames := (frames bp)[i := f']\<rparr>)"
proof -
  have "table_ok (m_Load X (pageTable bp)) ((frames bp)[i := f'])"
    using assms(2,3) by (intro table_ok_same [OF pool_invD(3) [OF assms(1)]]) (auto simp: nth_list_update)
  then show ?thesis using assms unfolding pool_inv_def by (auto dest: subsetD [OF set_update_subset_insert])
qed

text \<open>The sweep keeps the invariant and the view.\<close>

lemma pool_inv_swept:
  assumes inv: "pool_inv X pages bp" and sw: "list_all2 swept (frames bp) frs" and h: "hand < length frs"
  shows "pool_inv X pages (bp\<lparr>frames := frs, clockHand := hand\<rparr>) \<and>
    view X pages (bp\<lparr>frames := frs, clockHand := hand\<rparr>) = view X pages bp"
proof -
  have len: "length frs = length (frames bp)" and s: "\<And>i. i < length frs \<Longrightarrow> swept (frames bp ! i) (frs ! i)"
    using sw by (auto simp: list_all2_conv_all_nth)
  have "frame_ok pages (frs ! i)" if "i < length frs" for i
    using sweptD [OF s [OF that]] pool_invD(4) [OF inv, of i] that len by (auto simp: frame_ok_def split: if_splits)
  moreover have "table_ok (m_Load X (pageTable bp)) frs"
    using len s by (intro table_ok_same [OF pool_invD(3) [OF inv]]) (auto simp: sweptD(2))
  ultimately have "pool_inv X pages (bp\<lparr>frames := frs, clockHand := hand\<rparr>)"
    using inv h by (auto simp: pool_inv_def in_set_conv_nth)
  moreover have "view X pages (bp\<lparr>frames := frs, clockHand := hand\<rparr>) = view X pages bp"
  proof
    fix pid
    show "view X pages (bp\<lparr>frames := frs, clockHand := hand\<rparr>) pid = view X pages bp pid"
      using table_okD [OF pool_invD(3) [OF inv], of pid] s len sweptD(1)
      by (cases "m_Load X (pageTable bp) pid") (auto simp: view_def)
  qed
  ultimately show ?thesis ..
qed

text \<open>A frame is given to another page (or to none), its old page possibly written to its file.\<close>

lemma move_frame:
  assumes inv: "pool_inv X pages bp" and i: "i < length (frames bp)" and f: "f = frames bp ! i" "old = pf_pageID f"
    and pg: "pages' = pages \<or> pages' = pages(old \<mapsto> Bytes f) \<and> pages old \<noteq> None"
    and tb: "m_Load X tbl = ((m_Load X (pageTable bp))(old := None))(pid := if pid = nilPageID then None else Some i)"
    and new: "pf_pageID f' = pid" "m_Load X (pageTable bp) pid = None" "frame_ok pages' f'"
      "pid \<noteq> nilPageID \<Longrightarrow> pages' pid = Some (Bytes f')"
    and bp': "bp' = bp\<lparr>clockHand := hand, frames := (frames bp)[i := f'], pageTable := tbl\<rparr>" and h: "hand < length (frames bp)"
  shows "pool_inv X pages' bp'"
    and "\<And>q. (q = old \<and> q \<noteq> nilPageID \<longrightarrow> pages' old = Some (Bytes f)) \<Longrightarrow> view X pages' bp' q = view X pages bp q"
proof -
  let ?t = "m_Load X (pageTable bp)"
  note tok = pool_invD(3) [OF inv]
  have other: "pf_pageID (frames bp ! j) \<noteq> old" if "j < length (frames bp)" "j \<noteq> i" "old \<noteq> nilPageID" for j
    using table_okD [OF tok, of old j] table_okD [OF tok, of old i] that i f by auto
  have old: "?t old = Some i" if "old \<noteq> nilPageID" using table_okD [OF tok, of old i] that i f by simp
  have oldnil: "pages' = pages" if "old = nilPageID" using pg pool_invD(1) [OF inv] that by auto
  have "frame_ok pages' (frames bp ! j)" if "j < length (frames bp)" "j \<noteq> i" for j
    using pool_invD(4) [OF inv that(1)] other [OF that] pg oldnil by (cases "old = nilPageID") (auto simp: frame_ok_def split: if_splits)
  then have "frame_ok pages' ((frames bp)[i := f'] ! j)" if "j < length (frames bp)" for j
    using that new(3) i by (cases "j = i") auto
  moreover have "table_ok (m_Load X tbl) ((frames bp)[i := f'])"
    using table_ok_move [OF tok i new(1,2)] tb f by simp
  moreover have "pages' nilPageID = None" using pool_invD(1) [OF inv] pg by auto
  ultimately show "pool_inv X pages' bp'" using h by (auto simp: pool_inv_def bp' in_set_conv_nth)
  fix q
  assume q: "q = old \<and> q \<noteq> nilPageID \<longrightarrow> pages' old = Some (Bytes f)"
  have pidold: "pid \<noteq> old" if "old \<noteq> nilPageID" using old new(2) that by auto
  have t': "m_Load X (pageTable bp') q = (if q = pid then if pid = nilPageID then None else Some i else if q = old then None else ?t q)"
    by (simp add: bp' tb)
  have keep: "pages' q = pages q" if "q \<noteq> old" using pg that by auto
  consider "q = nilPageID" | "q \<noteq> nilPageID" "q = pid" | "q \<noteq> nilPageID" "q = old" "q \<noteq> pid" | "q \<noteq> nilPageID" "q \<noteq> old" "q \<noteq> pid" by blast
  then show "view X pages' bp' q = view X pages bp q"
  proof cases
    case 1
    have "pages' nilPageID = pages nilPageID" using pool_invD(1) [OF inv] pg by auto
    moreover have "m_Load X (pageTable bp') nilPageID = None" using t' 1 table_ok_nil [OF tok] by simp
    ultimately show ?thesis using 1 table_ok_nil [OF tok] by (simp add: view_def)
  next
    case 2
    have "pages' pid = pages pid" using keep pidold 2 by (cases "old = nilPageID") (auto simp: oldnil)
    then show ?thesis using 2 t' new(2,4) i by (simp add: view_def bp' tb)
  next
    case 3
    then show ?thesis using t' old q f by (simp add: view_def)
  next
    case 4
    then show ?thesis using t' keep table_okD [OF tok, of q i] f by (auto simp: view_def bp' split: option.split)
  qed
qed

section \<open>The contract of a request\<close>

text \<open>It returns the page, pinned, and no page changes. On an error only a page whose dirty, unpinned
  frame was chosen as the victim can change. Pinned frames stay where they are.\<close>

definition got_page :: "(PageID, nat, 'm) MapOf \<Rightarrow> ('fs \<Rightarrow> PageID \<Rightarrow> bytes option) \<Rightarrow> PageID \<Rightarrow> 'm BufferPool \<Rightarrow> 'fs \<Rightarrow>
    string + nat \<Rightarrow> 'm BufferPool \<Rightarrow> 'fs \<Rightarrow> bool" where
  "got_page X pages pid bp fs r bp' fs' \<longleftrightarrow> pool_inv X (pages fs') bp' \<and> length (frames bp') = length (frames bp) \<and>
     (\<forall>j. r = Inr j \<longrightarrow> j < length (frames bp) \<and> pf_pageID (frames bp' ! j) = pid \<and>
        view X (pages fs) bp pid = Some (Bytes (frames bp' ! j)) \<and>
        pinCount (frames bp' ! j) = (if pf_pageID (frames bp ! j) = pid then pinCount (frames bp ! j) + 1 else 1) \<and>
        (pinCount (frames bp' ! j) = 1 \<longrightarrow> isDirty (frames bp' ! j) \<or> pages fs' pid = Some (Bytes (frames bp' ! j))) \<and>
        view X (pages fs') bp' = view X (pages fs) bp) \<and>
     (\<forall>j<length (frames bp). r \<noteq> Inr j \<longrightarrow> pinCount (frames bp' ! j) = pinCount (frames bp ! j)) \<and>
     (\<forall>q. view X (pages fs') bp' q = view X (pages fs) bp q \<or>
       (\<exists>j<length (frames bp). pf_pageID (frames bp ! j) = q \<and> isDirty (frames bp ! j) \<and> pinCount (frames bp ! j) = 0)) \<and>
     (\<forall>j<length (frames bp). pinCount (frames bp ! j) \<noteq> 0 \<longrightarrow> frames bp' ! j = frames bp ! j \<or> r = Inr j \<and> frames bp' ! j = pin_frame (frames bp ! j))"

text \<open>No pin count is about to wrap around.\<close>

definition pins_bounded :: "'m BufferPool \<Rightarrow> bool" where
  "pins_bounded bp \<longleftrightarrow> (\<forall>f\<in>set (frames bp). pinCount f + 1 \<noteq> 0)"

section \<open>The pool over a store of pages\<close>

locale buffer_pool = page_store M pages ok
  for M :: "'fs DBFileManager" and pages :: "'fs \<Rightarrow> PageID \<Rightarrow> bytes option" and ok :: "'fs \<Rightarrow> bool" +
  fixes X :: "(PageID, nat, 'm) MapOf"
  assumes xsync: "xsync_map X"
begin

lemmas load_simps = xsync_mapD(1-3) [OF xsync]

lemma write_back_total:
  assumes "length (Bytes f) = PageSize"
  shows "\<exists>r fs'. write_back M pid f fs = Some (r, fs')"
proof (cases "fm_GetDBFile M (Oid pid) fs")
  case (Pair r fs1)
  show ?thesis
  proof (cases r)
    case (Inr h)
    then show ?thesis using Pair write_total [OF assms, of h "PageNum pid" fs1] by (fastforce simp: write_back_def split: sum.split)
  qed (simp add: Pair write_back_def)
qed

text \<open>A write-back that succeeds makes the file agree with the frame; one that fails changes nothing.\<close>

lemma write_back_spec:
  assumes "ok fs" "write_back M pid f fs = Some (r, fs')"
  shows "ok fs' \<and> (\<forall>e. r = Inl e \<longrightarrow> pages fs' = pages fs \<and> isDirty f) \<and>
    (\<forall>f'. r = Inr f' \<longrightarrow> f' = f\<lparr>isDirty := False\<rparr> \<and>
      (if isDirty f then pages fs' = (pages fs)(pid \<mapsto> Bytes f) \<and> pages fs pid \<noteq> None else pages fs' = pages fs))"
proof (cases "isDirty f")
  case False
  then show ?thesis using assms by (cases f) (auto simp: write_back_def)
next
  case True
  obtain g fs1 where g: "fm_GetDBFile M (Oid pid) fs = (g, fs1)" by fastforce
  note g1 = get_file [OF assms(1) g]
  show ?thesis
  proof (cases g)
    case (Inl e)
    then show ?thesis using True assms(2) g g1 by (auto simp: write_back_def)
  next
    case (Inr h)
    then have h: "h = Oid pid" using g1 by simp
    obtain w fs2 where w: "fm_WritePage M h (PageNum pid) (Bytes f) fs1 = Some (w, fs2)"
      using True assms(2) g Inr by (cases "fm_WritePage M h (PageNum pid) (Bytes f) fs1") (auto simp: write_back_def)
    then have r: "r = (case w of Inl e \<Rightarrow> Inl e | Inr _ \<Rightarrow> Inr (f\<lparr>isDirty := False\<rparr>))" "fs' = fs2"
      using True assms(2) g Inr by (cases w; simp add: write_back_def)+
    have "ok fs1" using g1 by simp
    note w1 = write_page [OF this w]
    have pid: "pid_of h (PageNum pid) = pid" by (simp add: h)
    show ?thesis using w1 g1 r True unfolding pid by (cases w) auto
  qed
qed

lemma read_in_total:
  assumes "length (Bytes f) = PageSize"
  shows "\<exists>r fs'. read_in M pid f fs = Some (r, fs')"
proof (cases "fm_GetDBFile M (Oid pid) fs")
  case (Pair r fs1)
  show ?thesis
  proof (cases r)
    case (Inr h)
    then show ?thesis using assms Pair read_total [of h "PageNum pid" fs1] by (fastforce simp: read_in_def split: sum.split)
  qed (simp add: Pair read_in_def)
qed

lemma read_in_spec:
  assumes "ok fs" "length (Bytes f) = PageSize" "read_in M pid f fs = Some (r, fs')"
  shows "ok fs' \<and> pages fs' = pages fs \<and> (\<forall>f'. r = Inr f' \<longrightarrow> (\<exists>bs. f' = f\<lparr>Bytes := bs\<rparr> \<and> pages fs pid = Some bs))"
proof -
  obtain g fs1 where g: "fm_GetDBFile M (Oid pid) fs = (g, fs1)" by fastforce
  note g1 = get_file [OF assms(1) g]
  show ?thesis
  proof (cases g)
    case (Inl e)
    then show ?thesis using assms(3) g g1 by (auto simp: read_in_def)
  next
    case (Inr h)
    then have h: "h = Oid pid" using g1 by simp
    obtain w fs2 where w: "fm_ReadPage M h (PageNum pid) PageSize fs1 = Some (w, fs2)"
      using read_total by blast
    then have r: "r = (case w of Inl e \<Rightarrow> Inl e | Inr bs \<Rightarrow> Inr (f\<lparr>Bytes := bs\<rparr>))" "fs' = fs2"
      using assms(2,3) g Inr by (cases w; simp add: read_in_def)+
    have "ok fs1" using g1 by simp
    note w1 = read_page [OF this w]
    have pid: "pid_of h (PageNum pid) = pid" by (simp add: h)
    show ?thesis using w1 g1 r unfolding pid by (cases w) auto
  qed
qed

text \<open>Loading a page into an unpinned frame.\<close>

lemma load_page_spec:
  assumes fs: "ok fs" and inv: "pool_inv X (pages fs) bp" and i: "i < length (frames bp)" "pinCount (frames bp ! i) = 0"
    and pid: "pid \<noteq> nilPageID" "m_Load X (pageTable bp) pid = None"
  shows "\<exists>r bp' fs'. load_page X M pid i bp fs = Some (r, bp', fs') \<and> ok fs' \<and> pool_inv X (pages fs') bp' \<and>
    (\<exists>f'. frames bp' = (frames bp)[i := f'] \<and> (\<forall>j. r = Inr j \<longrightarrow> j = i \<and> pf_pageID f' = pid \<and> pinCount f' = 1 \<and> \<not> isDirty f' \<and> pages fs' pid = Some (Bytes f')) \<and>
       ((\<exists>e. r = Inl e) \<longrightarrow> pinCount f' = 0)) \<and>
    (\<forall>q. view X (pages fs') bp' q = view X (pages fs) bp q \<or>
       (\<exists>e. r = Inl e) \<and> q = pf_pageID (frames bp ! i) \<and> isDirty (frames bp ! i))"
proof -
  let ?f = "frames bp ! i" let ?old = "pf_pageID ?f" let ?v = "?f\<lparr>pinCount := 1, pf_pageID := pid\<rparr>"
  let ?h = "(clockHand bp + 1) mod length (frames bp)"
  have h: "?h < length (frames bp)" using i by (intro mod_less_divisor) auto
  have fok: "frame_ok (pages fs) ?f" by (rule pool_invD(4) [OF inv i(1)])
  then have len: "length (Bytes ?f) = PageSize" by (simp add: frame_ok_def)
  have old: "pid \<noteq> ?old" using pid i(1) table_okD [OF pool_invD(3) [OF inv], of pid i] by auto
  obtain w fs1 where w: "write_back M ?old ?v fs = Some (w, fs1)" using write_back_total [of ?v] len by fastforce
  note ws = write_back_spec [OF fs w]
  note move = move_frame [OF inv i(1) refl refl _ _ _ _ _ _ refl h]
  show ?thesis
  proof (cases w)
    case (Inl e)
    let ?tbl = "m_Delete X ?old (m_Delete X pid (m_Store X pid i (pageTable bp)))"
    let ?bp = "bp\<lparr>clockHand := ?h, frames := (frames bp)[i := give_up ?v], pageTable := ?tbl\<rparr>"
    have r: "load_page X M pid i bp fs = Some (Inl e, ?bp, fs1)"
      using i(1) w Inl by (simp add: load_page_def Let_def)
    have tb: "m_Load X ?tbl = ((m_Load X (pageTable bp))(?old := None))(nilPageID := if nilPageID = nilPageID then None else Some i)"
      using pid(2) table_ok_nil [OF pool_invD(3) [OF inv]] by (auto simp: load_simps)
    have ok': "frame_ok (pages fs1) (give_up ?v)" using fok by (auto simp: frame_ok_def give_up_def)
    have pg: "pages fs1 = pages fs" "isDirty ?f" using ws Inl by auto
    note mv = move [OF disjI1 [OF pg(1)] tb _ table_ok_nil [OF pool_invD(3) [OF inv]] ok']
    have "pool_inv X (pages fs1) ?bp" by (rule mv(1)) (simp_all add: give_up_def)
    moreover have "view X (pages fs1) ?bp q = view X (pages fs) bp q" if "q \<noteq> ?old" for q
      using that by (intro mv(2)) (simp_all add: give_up_def)
    ultimately show ?thesis using r ws pg by (auto simp: give_up_def)
  next
    case (Inr v1)
    let ?v1 = "?v\<lparr>isDirty := False, refCount := 1\<rparr>"
    let ?tbl = "m_Delete X ?old (m_Store X pid i (pageTable bp))"
    have ok1: "ok fs1" using ws by simp
    obtain rr fs2 where rr: "read_in M pid ?v1 fs1 = Some (rr, fs2)" using read_in_total [of ?v1] len by fastforce
    have len1: "length (Bytes ?v1) = PageSize" using len by simp
    note rs = read_in_spec [OF ok1 len1 rr]
    have pg: "pages fs2 = pages fs \<or> pages fs2 = (pages fs)(?old \<mapsto> Bytes ?f) \<and> pages fs ?old \<noteq> None"
      using ws rs Inr by (auto split: if_splits)
    have saved: "?old \<noteq> nilPageID \<longrightarrow> pages fs2 ?old = Some (Bytes ?f)"
      using ws rs Inr fok i(2) by (auto simp: frame_ok_def split: if_splits)
    show ?thesis
    proof (cases rr)
      case (Inl e)
      let ?bp = "bp\<lparr>clockHand := ?h, frames := (frames bp)[i := give_up ?v1], pageTable := m_Delete X pid ?tbl\<rparr>"
      have r: "load_page X M pid i bp fs = Some (Inl e, ?bp, fs2)"
        using i(1) w rr Inl Inr ws by (simp add: load_page_def Let_def)
      have tb: "m_Load X (m_Delete X pid ?tbl) = ((m_Load X (pageTable bp))(?old := None))(nilPageID := if nilPageID = nilPageID then None else Some i)"
        using pid(2) table_ok_nil [OF pool_invD(3) [OF inv]] by (auto simp: load_simps)
      have ok': "frame_ok (pages fs2) (give_up ?v1)" using fok by (auto simp: frame_ok_def give_up_def)
      note mv = move [OF pg tb _ table_ok_nil [OF pool_invD(3) [OF inv]] ok']
      have "pool_inv X (pages fs2) ?bp" by (rule mv(1)) (simp_all add: give_up_def)
      moreover have "view X (pages fs2) ?bp q = view X (pages fs) bp q" for q
        using saved by (intro mv(2)) (auto simp: give_up_def)
      ultimately show ?thesis using r rs by (auto simp: give_up_def)
    next
      case rok: (Inr v2)
      then obtain bs where bs: "v2 = ?v1\<lparr>Bytes := bs\<rparr>" "pages fs2 pid = Some bs" using rs by auto
      let ?bp = "bp\<lparr>clockHand := ?h, frames := (frames bp)[i := v2], pageTable := ?tbl\<rparr>"
      have r: "load_page X M pid i bp fs = Some (Inr i, ?bp, fs2)"
        using i(1) w rr rok Inr ws by (simp add: load_page_def Let_def)
      have tb: "m_Load X ?tbl = ((m_Load X (pageTable bp))(?old := None))(pid := if pid = nilPageID then None else Some i)"
        using pid old by (auto simp: load_simps)
      have ok': "frame_ok (pages fs2) v2" using bs page_length [OF _ bs(2)] rs pid(1) by (auto simp: frame_ok_def)
      note mv = move [OF pg tb _ pid(2) ok']
      have "pool_inv X (pages fs2) ?bp" by (rule mv(1)) (simp_all add: bs)
      moreover have "view X (pages fs2) ?bp q = view X (pages fs) bp q" for q
        using saved by (intro mv(2)) (auto simp: bs)
      ultimately show ?thesis using r rs bs(2)
        by (intro exI [of _ "Inr i"] exI [of _ ?bp] exI [of _ fs2] conjI exI [of _ v2]) (auto simp: bs(1))
    qed
  qed
qed

lemma pin_frame_ok: "frame_ok pgs f \<Longrightarrow> pf_pageID f \<noteq> nilPageID \<Longrightarrow> pinCount f + 1 \<noteq> 0 \<or> isDirty f \<or> pinCount f = 0 \<Longrightarrow> frame_ok pgs (pin_frame f)"
proof -
  assume f: "frame_ok pgs f" and nn: "pf_pageID f \<noteq> nilPageID" and p: "pinCount f + 1 \<noteq> 0 \<or> isDirty f \<or> pinCount f = 0"
  have "sint (refCount f + 1) = sint (refCount f) + 1" if "sint (refCount f) < 2"
    using f that by (simp add: frame_ok_def sint_word_ariths signed_take_bit_int_eq_self)
  then show ?thesis using f nn p by (auto simp: pin_frame_def frame_ok_def)
qed

lemma view_cached:
  assumes "pool_inv X pgs bp" "j < length (frames bp)" "pf_pageID (frames bp ! j) \<noteq> nilPageID"
  shows "view X pgs bp (pf_pageID (frames bp ! j)) = Some (Bytes (frames bp ! j))"
  using table_okD [OF pool_invD(3) [OF assms(1)], of "pf_pageID (frames bp ! j)" j] assms(2,3) by (simp add: view_def)

lemma GetPage_try_spec:
  assumes fs: "ok fs" and inv: "pool_inv X (pages fs) bp" and pid: "pid \<noteq> nilPageID" and pins: "pins_bounded bp"
  shows "\<exists>out bp' fs'. GetPage_try X M pid bp fs = Some (out, bp', fs') \<and>
    (case out of
       Got r \<Rightarrow> ok fs' \<and> got_page X pages pid bp fs r bp' fs'
     | Retry \<Rightarrow> m_Load X (pageTable bp) pid = None \<and> (\<forall>f\<in>set (frames bp). pinCount f \<noteq> 0) \<and>
         frames bp' = frames bp \<and> pageTable bp' = pageTable bp \<and> fs' = fs \<and> pool_inv X (pages fs) bp')"
proof (cases "m_Load X (pageTable bp) pid")
  case (Some i)
  then have i: "i < length (frames bp)" "pf_pageID (frames bp ! i) = pid"
    using table_okD [OF pool_invD(3) [OF inv], of pid i] by auto
  let ?f' = "pin_frame (frames bp ! i)" let ?bp = "bp\<lparr>frames := (frames bp)[i := ?f']\<rparr>"
  have f': "pf_pageID ?f' = pid" "Bytes ?f' = Bytes (frames bp ! i)" "pinCount ?f' = pinCount (frames bp ! i) + 1"
    using i by (simp_all add: pin_frame_def)
  have "frame_ok (pages fs) ?f'" using pool_invD(4) [OF inv i(1)] i pid pins by (intro pin_frame_ok) (auto simp: pins_bounded_def)
  then have "pool_inv X (pages fs) ?bp" using i f'(1) by (intro pool_inv_frame [OF inv]) auto
  moreover have "view X (pages fs) ?bp q = view X (pages fs) bp q" for q
    using f'(2) i(1) by (auto simp: view_def nth_list_update split: option.split)
  moreover have "view X (pages fs) bp pid = Some (Bytes ?f')" using Some f'(2) by (simp add: view_def)
  moreover have "isDirty ?f' \<or> pages fs pid = Some (Bytes ?f')" if "pinCount ?f' = 1"
    using that f' pool_invD(4) [OF inv i(1)] i pid by (auto simp: frame_ok_def pin_frame_def)
  ultimately have "got_page X pages pid bp fs (Inr i) ?bp fs" using i f' by (auto simp: got_page_def nth_list_update fun_eq_iff)
  then show ?thesis using fs Some i by (simp add: GetPage_try_def)
next
  case None
  show ?thesis
  proof (cases "frames bp = []")
    case True
    then show ?thesis using None inv by (simp add: GetPage_try_def find_victim_def numeral_2_eq_2 pool_inv_def)
  next
    case False
    obtain v frs hand where v: "find_victim (frames bp) (clockHand bp) = Some (v, frs, hand)"
      "list_all2 swept (frames bp) frs" "hand < length frs" "\<And>i. v = Some i \<Longrightarrow> i = hand \<and> pinCount (frs ! i) = 0"
      "v = None \<Longrightarrow> \<forall>f\<in>set (frames bp). pinCount f \<noteq> 0"
      using find_victim_spec [OF pool_invD(5,2) [OF inv]] False by blast
    have len: "length frs = length (frames bp)" using v(2) by (simp add: list_all2_lengthD)
    have sw: "swept (frames bp ! j) (frs ! j)" if "j < length (frames bp)" for j
      using v(2) that by (simp add: list_all2_conv_all_nth)
    let ?bp = "bp\<lparr>frames := frs, clockHand := hand\<rparr>"
    note inv1 = pool_inv_swept [OF inv v(2,3)]
    show ?thesis
    proof (cases v)
      case none: None
      then have "frs = frames bp" using sw len v(5) by (intro nth_equalityI) (auto simp: sweptD(5))
      then show ?thesis using None none v(1,5) inv1 by (simp add: GetPage_try_def)
    next
      case (Some i)
      then have i: "i < length (frames ?bp)" "pinCount (frames ?bp ! i) = 0" using v(3,4) by auto
      then have i0: "i < length (frames bp)" using len by simp
      have "m_Load X (pageTable ?bp) pid = None" using None by simp
      then have "\<exists>r bp' fs'. load_page X M pid i ?bp fs = Some (r, bp', fs') \<and> ok fs' \<and> pool_inv X (pages fs') bp' \<and>
          (\<exists>f'. frames bp' = frs[i := f'] \<and> (\<forall>j. r = Inr j \<longrightarrow> j = i \<and> pf_pageID f' = pid \<and> pinCount f' = 1 \<and> \<not> isDirty f' \<and> pages fs' pid = Some (Bytes f')) \<and>
             ((\<exists>e. r = Inl e) \<longrightarrow> pinCount f' = 0)) \<and>
          (\<forall>q. view X (pages fs') bp' q = view X (pages fs) ?bp q \<or> (\<exists>e. r = Inl e) \<and> q = pf_pageID (frs ! i) \<and> isDirty (frs ! i))"
        using load_page_spec [OF fs conjunct1 [OF inv1] i pid] by simp
      then obtain r bp' fs' f' where l0: "load_page X M pid i ?bp fs = Some (r, bp', fs')" "ok fs'" "pool_inv X (pages fs') bp'"
        "frames bp' = frs[i := f']" "\<forall>j. r = Inr j \<longrightarrow> j = i \<and> pf_pageID f' = pid \<and> pinCount f' = 1 \<and> \<not> isDirty f' \<and> pages fs' pid = Some (Bytes f')"
        "\<forall>q. view X (pages fs') bp' q = view X (pages fs) ?bp q \<or> (\<exists>e. r = Inl e) \<and> q = pf_pageID (frs ! i) \<and> isDirty (frs ! i)"
        "(\<exists>e. r = Inl e) \<longrightarrow> pinCount f' = 0"
        by (elim exE conjE) (rule that, assumption+)
      note l = l0(1-4) l0(5) [rule_format] l0(6) [rule_format] l0(7) [rule_format]
      have old: "pf_pageID (frames bp ! i) \<noteq> pid"
        using None table_okD [OF pool_invD(3) [OF inv], of pid i] i0 pid by auto
      have vw: "view X (pages fs') bp' q = view X (pages fs) bp q \<or>
          (\<exists>e. r = Inl e) \<and> q = pf_pageID (frames bp ! i) \<and> isDirty (frames bp ! i) \<and> pinCount (frames bp ! i) = 0" for q
        using l(6) [of q] inv1 sweptD [OF sw [OF i0]] i by auto
      have at: "view X (pages fs) bp pid = Some (Bytes f')" if "r = Inr i"
      proof -
        have "pf_pageID f' = pid" using l(5) [OF that] by simp
        then have "view X (pages fs') bp' pid = Some (Bytes f')" using view_cached [OF l(3), of i] l(4) i pid by simp
        then show ?thesis using vw [of pid] old by simp
      qed
      have keep: "frames bp' ! j = frames bp ! j" if "j < length (frames bp)" "pinCount (frames bp ! j) \<noteq> 0" for j
        using sweptD(3,5) [OF sw [OF that(1)]] that i l(4) by (cases "j = i") auto
      have "got_page X pages pid bp fs r bp' fs'"
        unfolding got_page_def
      proof (intro conjI allI impI)
        fix j
        assume "r = Inr j"
        then have j: "j = i" "r = Inr i" "pf_pageID f' = pid" "pinCount f' = 1" "pages fs' pid = Some (Bytes f')" using l(5) by auto
        show "view X (pages fs') bp' = view X (pages fs) bp" using vw j(2) by (auto simp: fun_eq_iff)
        show "j < length (frames bp)" "pf_pageID (frames bp' ! j) = pid" "view X (pages fs) bp pid = Some (Bytes (frames bp' ! j))"
          "pinCount (frames bp' ! j) = (if pf_pageID (frames bp ! j) = pid then pinCount (frames bp ! j) + 1 else 1)"
          using j i0 l(4) len old at by simp_all
        show "isDirty (frames bp' ! j) \<or> pages fs' pid = Some (Bytes (frames bp' ! j))" using j i0 l(4) len by simp
      next
        fix j
        assume j: "j < length (frames bp)" "r \<noteq> Inr j"
        then show "pinCount (frames bp' ! j) = pinCount (frames bp ! j)"
          using l(4,5,7) i len sweptD(3) [OF sw [OF j(1)]] by (cases r; cases "j = i") auto
      next
        fix q
        show "view X (pages fs') bp' q = view X (pages fs) bp q \<or>
            (\<exists>j<length (frames bp). pf_pageID (frames bp ! j) = q \<and> isDirty (frames bp ! j) \<and> pinCount (frames bp ! j) = 0)"
          using vw [of q] i0 by blast
      qed (use l(3,4) len keep in auto)
      then show ?thesis using None v(1) Some l(1,2) by (simp add: GetPage_try_def)
    qed
  qed
qed

text \<open>\<open>GetPage\<close> returns in one iteration if the page is cached or some frame is unpinned, and only then.\<close>

lemma GetPage_returns:
  assumes "ok fs" "pool_inv X (pages fs) bp" "pid \<noteq> nilPageID" "pins_bounded bp"
    and "m_Load X (pageTable bp) pid \<noteq> None \<or> (\<exists>f\<in>set (frames bp). pinCount f = 0)"
  shows "\<exists>r bp' fs'. GetPage (Suc n) X M pid bp fs = Some (r, bp', fs') \<and> ok fs' \<and> got_page X pages pid bp fs r bp' fs'"
proof -
  obtain out bp' fs' where g: "GetPage_try X M pid bp fs = Some (out, bp', fs')"
    "case out of Got r \<Rightarrow> ok fs' \<and> got_page X pages pid bp fs r bp' fs'
     | Retry \<Rightarrow> m_Load X (pageTable bp) pid = None \<and> (\<forall>f\<in>set (frames bp). pinCount f \<noteq> 0) \<and>
         frames bp' = frames bp \<and> pageTable bp' = pageTable bp \<and> fs' = fs \<and> pool_inv X (pages fs) bp'"
    using GetPage_try_spec [OF assms(1-4)] by blast
  show ?thesis
  proof (cases out)
    case (Got r)
    then show ?thesis using g by simp
  next
    case Retry
    then show ?thesis using g(2) assms(5) by auto
  qed
qed

lemma GetPage_waits:
  assumes "ok fs" "pool_inv X (pages fs) bp" "pid \<noteq> nilPageID" "pins_bounded bp"
    and "m_Load X (pageTable bp) pid = None" "\<forall>f\<in>set (frames bp). pinCount f \<noteq> 0"
  shows "GetPage n X M pid bp fs = None"
  using assms
proof (induction n arbitrary: bp)
  case (Suc n)
  obtain out bp' fs' where g: "GetPage_try X M pid bp fs = Some (out, bp', fs')"
    "case out of Got r \<Rightarrow> ok fs' \<and> got_page X pages pid bp fs r bp' fs'
     | Retry \<Rightarrow> m_Load X (pageTable bp) pid = None \<and> (\<forall>f\<in>set (frames bp). pinCount f \<noteq> 0) \<and>
         frames bp' = frames bp \<and> pageTable bp' = pageTable bp \<and> fs' = fs \<and> pool_inv X (pages fs) bp'"
    using GetPage_try_spec [OF Suc.prems(1-4)] by blast
  have "out = Retry"
  proof (cases "frames bp = []")
    case True
    then show ?thesis using g(1) Suc.prems(5) by (simp add: GetPage_try_def find_victim_def numeral_2_eq_2)
  next
    case False
    obtain v frs hand where v: "find_victim (frames bp) (clockHand bp) = Some (v, frs, hand)"
      "list_all2 swept (frames bp) frs" "hand < length frs" "\<And>i. v = Some i \<Longrightarrow> i = hand \<and> pinCount (frs ! i) = 0"
      using find_victim_spec [OF pool_invD(5,2) [OF Suc.prems(2)]] False by blast
    have "v = None"
    proof (rule ccontr)
      assume "v \<noteq> None"
      then have "pinCount (frs ! hand) = 0" using v(4) by auto
      then show False using v(2,3) Suc.prems(6) by (simp add: list_all2_conv_all_nth) (metis nth_mem sweptD(3))
    qed
    then show ?thesis using g(1) Suc.prems(5) v(1) by (simp add: GetPage_try_def)
  qed
  then show ?case using g Suc.prems by (simp add: Suc.IH pins_bounded_def)
qed simp

text \<open>Unpinning keeps the invariant if a page that was modified is declared dirty; no page changes.\<close>

lemma UnpinPage_spec:
  assumes inv: "pool_inv X pgs bp" and i: "i < length (frames bp)" "pf_pageID (frames bp ! i) \<noteq> nilPageID"
    and d: "setDirty \<or> isDirty (frames bp ! i) \<or> pgs (pf_pageID (frames bp ! i)) = Some (Bytes (frames bp ! i)) \<or> pinCount (frames bp ! i) \<notin> {0, 1}"
  shows "\<exists>bp'. UnpinPage i setDirty bp = Some bp' \<and> pool_inv X pgs bp' \<and> view X pgs bp' = view X pgs bp \<and>
    (\<exists>f'. frames bp' = (frames bp)[i := f'] \<and> pinCount f' = (if pinCount (frames bp ! i) = 0 then 0 else pinCount (frames bp ! i) - 1) \<and>
       (isDirty f' \<longleftrightarrow> setDirty \<or> isDirty (frames bp ! i)))"
proof -
  let ?f = "frames bp ! i"
  define f' where "f' = ?f\<lparr>pinCount := if pinCount ?f \<noteq> 0 then pinCount ?f - 1 else pinCount ?f, isDirty := setDirty \<or> isDirty ?f\<rparr>"
  let ?bp = "bp\<lparr>frames := (frames bp)[i := f']\<rparr>"
  have u: "UnpinPage i setDirty bp = Some ?bp" using i by (cases ?f) (simp add: UnpinPage_def Let_def f'_def)
  have "frame_ok pgs f'" using pool_invD(4) [OF inv i(1)] i(2) d by (auto simp: frame_ok_def f'_def)
  then have "pool_inv X pgs ?bp" using i by (intro pool_inv_frame [OF inv]) (auto simp: f'_def)
  moreover have "view X pgs ?bp = view X pgs bp"
    using i(1) by (auto simp: view_def f'_def fun_eq_iff nth_list_update split: option.split)
  ultimately show ?thesis using u by (auto simp: f'_def)
qed

text \<open>Flushing: every frame is either as it was or clean and saved.\<close>

definition flushed :: "'fs \<Rightarrow> PageFrame \<Rightarrow> PageFrame \<Rightarrow> bool" where
  "flushed fs f f' \<longleftrightarrow> f' = f \<or> f' = f\<lparr>isDirty := False\<rparr> \<and> pages fs (pf_pageID f) = Some (Bytes f)"

lemma frame_ok_other:
  "frame_ok pgs f \<Longrightarrow> pf_pageID f \<noteq> q \<or> pf_pageID f = nilPageID \<Longrightarrow> frame_ok (pgs(q \<mapsto> bs)) f"
  by (auto simp: frame_ok_def)

lemma flush_loop_spec:
  assumes "ok fs" "\<forall>f\<in>set frs. frame_ok (pages fs) f" "distinct (filter (\<lambda>q. q \<noteq> nilPageID) (map pf_pageID frs))"
    "pages fs nilPageID = None"
  shows "\<exists>r frs' fs'. flush_loop M frs fs = Some (r, frs', fs') \<and> ok fs' \<and> list_all2 (flushed fs') frs frs' \<and>
    (\<forall>f'\<in>set frs'. frame_ok (pages fs') f') \<and>
    (\<forall>q. pages fs' q = pages fs q \<or> (\<exists>f\<in>set frs. pf_pageID f = q \<and> q \<noteq> nilPageID \<and> isDirty f \<and> pages fs' q = Some (Bytes f))) \<and>
    (\<forall>u. r = Inr u \<longrightarrow> (\<forall>f'\<in>set frs'. \<not> isDirty f'))"
  using assms
proof (induction frs arbitrary: fs)
  case (Cons f frs)
  let ?q = "pf_pageID f"
  have fok: "frame_ok (pages fs) f" using Cons.prems(2) by simp
  obtain w fs1 where w: "write_back M ?q f fs = Some (w, fs1)"
    using write_back_total [of f] fok unfolding frame_ok_def by blast
  note ws = write_back_spec [OF Cons.prems(1) w]
  show ?case
  proof (cases w)
    case (Inl e)
    then show ?thesis using w ws Cons.prems(2) by (auto simp: flushFrame_def flushed_def list_all2_same)
  next
    case (Inr f1)
    then have f1: "f1 = f\<lparr>isDirty := False\<rparr>" "ok fs1" using ws by auto
    have pg: "pages fs1 = pages fs \<and> \<not> isDirty f \<or>
        pages fs1 = (pages fs)(?q \<mapsto> Bytes f) \<and> ?q \<noteq> nilPageID \<and> isDirty f"
      using ws Inr Cons.prems(4) by (auto split: if_splits)
    have other: "pf_pageID g \<noteq> ?q \<or> pf_pageID g = nilPageID" if "g \<in> set frs" for g
      using Cons.prems(3) that by (auto simp: image_iff split: if_splits)
    have "\<forall>g\<in>set frs. frame_ok (pages fs1) g" using pg other Cons.prems(2) frame_ok_other by fastforce
    moreover have "pages fs1 nilPageID = None" using pg Cons.prems(4) by auto
    moreover have "distinct (filter (\<lambda>q. q \<noteq> nilPageID) (map pf_pageID frs))" using Cons.prems(3) by (auto split: if_splits)
    ultimately obtain r frs' fs' where ih: "flush_loop M frs fs1 = Some (r, frs', fs')" "ok fs'" "list_all2 (flushed fs') frs frs'"
      "\<forall>f'\<in>set frs'. frame_ok (pages fs') f'" "\<forall>u. r = Inr u \<longrightarrow> (\<forall>f'\<in>set frs'. \<not> isDirty f')"
      "\<And>q. pages fs' q = pages fs1 q \<or> (\<exists>f\<in>set frs. pf_pageID f = q \<and> q \<noteq> nilPageID \<and> isDirty f \<and> pages fs' q = Some (Bytes f))"
      using Cons.IH [OF f1(2)] by blast
    have q: "pages fs' ?q = pages fs1 ?q" using ih(6) [of ?q] other by auto
    have "flushed fs' f f1"
      using pg q f1(1) by (cases f) (auto simp: flushed_def)
    moreover have "frame_ok (pages fs') f1" using pg q f1(1) fok by (auto simp: frame_ok_def split: if_splits)
    moreover have "pages fs' p = pages fs p \<or>
        (\<exists>g\<in>set (f # frs). pf_pageID g = p \<and> p \<noteq> nilPageID \<and> isDirty g \<and> pages fs' p = Some (Bytes g))" for p
      using ih(6) [of p] pg by (cases "p = ?q") auto
    ultimately show ?thesis using w Inr ih(1-5) f1(1) by (auto simp: flushFrame_def)
  qed
qed simp

lemma distinct_pages:
  assumes "table_ok t frs"
  shows "distinct (filter (\<lambda>q. q \<noteq> nilPageID) (map pf_pageID frs))"
proof -
  have "inj_on (\<lambda>i. pf_pageID (frs ! i)) {i. i < length frs \<and> pf_pageID (frs ! i) \<noteq> nilPageID}"
    using table_okD [OF assms] by (intro inj_onI) (metis (mono_tags, lifting) mem_Collect_eq option.inject)
  then have "distinct (map (\<lambda>i. pf_pageID (frs ! i)) (filter (\<lambda>i. pf_pageID (frs ! i) \<noteq> nilPageID) [0..<length frs]))"
    by (auto simp: distinct_map intro: inj_on_subset)
  moreover have "filter (\<lambda>q. q \<noteq> nilPageID) (map pf_pageID frs) =
      map (\<lambda>i. pf_pageID (frs ! i)) (filter (\<lambda>i. pf_pageID (frs ! i) \<noteq> nilPageID) [0..<length frs])"
    by (subst (1) map_nth [symmetric]) (simp add: filter_map comp_def)
  ultimately show ?thesis by simp
qed

lemma FlushAllPages_spec:
  assumes fs: "ok fs" and inv: "pool_inv X (pages fs) bp"
  shows "\<exists>r bp' fs'. FlushAllPages M bp fs = Some (r, bp', fs') \<and> ok fs' \<and> pool_inv X (pages fs') bp' \<and>
    view X (pages fs') bp' = view X (pages fs) bp \<and>
    (\<forall>u. r = Inr u \<longrightarrow> (\<forall>f\<in>set (frames bp'). \<not> isDirty f) \<and>
       (\<forall>q. (\<forall>f\<in>set (frames bp). pf_pageID f = q \<longrightarrow> isDirty f \<or> pinCount f = 0) \<longrightarrow> pages fs' q = view X (pages fs) bp q))"
proof -
  note tok = pool_invD(3) [OF inv]
  have "\<forall>f\<in>set (frames bp). frame_ok (pages fs) f" using inv by (simp add: pool_inv_def)
  then obtain r frs' fs' where l: "flush_loop M (frames bp) fs = Some (r, frs', fs')" "ok fs'" "list_all2 (flushed fs') (frames bp) frs'"
    "\<forall>f'\<in>set frs'. frame_ok (pages fs') f'" "\<forall>u. r = Inr u \<longrightarrow> (\<forall>f'\<in>set frs'. \<not> isDirty f')"
    "\<And>q. pages fs' q = pages fs q \<or> (\<exists>f\<in>set (frames bp). pf_pageID f = q \<and> q \<noteq> nilPageID \<and> isDirty f \<and> pages fs' q = Some (Bytes f))"
    using flush_loop_spec [OF fs _ distinct_pages [OF tok] pool_invD(1) [OF inv]] by blast
  let ?bp = "bp\<lparr>frames := frs'\<rparr>"
  have len: "length frs' = length (frames bp)" using l(3) by (simp add: list_all2_lengthD)
  have fl: "flushed fs' (frames bp ! i) (frs' ! i)" if "i < length (frames bp)" for i
    using l(3) that by (simp add: list_all2_conv_all_nth)
  then have same: "pf_pageID (frs' ! i) = pf_pageID (frames bp ! i)" "Bytes (frs' ! i) = Bytes (frames bp ! i)"
    "pinCount (frs' ! i) = pinCount (frames bp ! i)" if "i < length (frames bp)" for i
    using fl [OF that] by (auto simp: flushed_def)
  have nil: "pages fs' nilPageID = None" using l(6) [of nilPageID] pool_invD(1) [OF inv] by auto
  have "table_ok (m_Load X (pageTable bp)) frs'" using len same(1) by (intro table_ok_same [OF tok]) auto
  then have inv': "pool_inv X (pages fs') ?bp" using inv l(4) len nil by (auto simp: pool_inv_def)
  have un: "pages fs' q = pages fs q" if "m_Load X (pageTable bp) q = None" for q
    using l(6) [of q] table_okD [OF tok, of q] that by (metis in_set_conv_nth option.distinct(1))
  have vw: "view X (pages fs') ?bp q = view X (pages fs) bp q" for q
    using un [of q] same(2) table_okD [OF tok, of q] by (cases "m_Load X (pageTable bp) q") (auto simp: view_def)
  have "pages fs' q = view X (pages fs) bp q"
    if r: "r = Inr u" and q: "\<forall>f\<in>set (frames bp). pf_pageID f = q \<longrightarrow> isDirty f \<or> pinCount f = 0" for u q
  proof (cases "m_Load X (pageTable bp) q")
    case None
    then show ?thesis using un by (simp add: view_def)
  next
    case (Some i)
    then have i: "i < length (frames bp)" "pf_pageID (frames bp ! i) = q" "q \<noteq> nilPageID" using table_okD [OF tok, of q i] by auto
    have "\<not> isDirty (frs' ! i)" "frame_ok (pages fs') (frs' ! i)" using l(4,5) r i len by auto
    moreover have "isDirty (frames bp ! i) \<or> pinCount (frames bp ! i) = 0" using q i by simp
    ultimately have "pages fs' q = Some (Bytes (frames bp ! i))"
      using fl [OF i(1)] i same [OF i(1)] by (auto simp: flushed_def frame_ok_def)
    then show ?thesis using Some by (simp add: view_def)
  qed
  moreover have "FlushAllPages M bp fs = Some (r, ?bp, fs')" using l(1) by (simp add: FlushAllPages_def)
  ultimately show ?thesis using l(2,5) inv' vw by (simp add: fun_eq_iff)
qed

end

section \<open>The pool over the disk\<close>

lemma buffer_pool_disk: "xsync_map X \<Longrightarrow> xsync_map Y \<Longrightarrow> buffer_pool (disk_ops Y) disk_pages (disk_ok Y) X"
  by (simp add: buffer_pool_def buffer_pool_axioms_def disk_page_store)

interpretation pool: buffer_pool "disk_ops fun_map" disk_pages "disk_ok fun_map" fun_map
  by (rule buffer_pool_disk) (rule xsync_fun_map)+

lemma NewBufferPool_inv:
  assumes "xsync_map X" "pages nilPageID = None"
  shows "pool_inv X pages (NewBufferPool X n)" "view X pages (NewBufferPool X n) = pages"
  using assms xsync_mapD(1) [OF assms(1)]
  by (auto simp: pool_inv_def NewBufferPool_def table_ok_def frame_ok_def new_frame_def view_def fun_eq_iff)

text \<open>A client's write to a frame it has pinned.\<close>

definition client_write :: "nat \<Rightarrow> bytes \<Rightarrow> 'm BufferPool \<Rightarrow> 'm BufferPool" where
  "client_write i bs bp = bp\<lparr>frames := (frames bp)[i := (frames bp ! i)\<lparr>Bytes := bs\<rparr>]\<rparr>"

lemma client_write_spec:
  assumes inv: "pool_inv X pgs bp" and i: "i < length (frames bp)" "pinCount (frames bp ! i) \<noteq> 0" and bs: "length bs = PageSize"
  shows "pool_inv X pgs (client_write i bs bp)"
    and "view X pgs (client_write i bs bp) = (view X pgs bp)(pf_pageID (frames bp ! i) \<mapsto> bs)"
proof -
  let ?f = "frames bp ! i" let ?f' = "?f\<lparr>Bytes := bs\<rparr>"
  have f: "frame_ok pgs ?f" by (rule pool_invD(4) [OF inv i(1)])
  then have nn: "pf_pageID ?f \<noteq> nilPageID" using i(2) by (auto simp: frame_ok_def)
  have "frame_ok pgs ?f'" using f i(2) bs by (auto simp: frame_ok_def)
  then show "pool_inv X pgs (client_write i bs bp)" unfolding client_write_def using i by (intro pool_inv_frame [OF inv]) auto
  show "view X pgs (client_write i bs bp) = (view X pgs bp)(pf_pageID ?f \<mapsto> bs)"
  proof
    fix q
    show "view X pgs (client_write i bs bp) q = ((view X pgs bp)(pf_pageID ?f \<mapsto> bs)) q"
    proof (cases "m_Load X (pageTable bp) q")
      case None
      then have "q \<noteq> pf_pageID ?f" using table_okD [OF pool_invD(3) [OF inv], of q i] i nn by auto
      then show ?thesis using None by (simp add: view_def client_write_def)
    next
      case (Some j)
      then have j: "j < length (frames bp)" "pf_pageID (frames bp ! j) = q"
        using table_okD [OF pool_invD(3) [OF inv], of q j] by auto
      have "j = i \<longleftrightarrow> q = pf_pageID ?f"
        using Some j i nn table_okD [OF pool_invD(3) [OF inv], of q i] by auto
      then show ?thesis using Some i j by (auto simp: view_def client_write_def)
    qed
  qed
qed

section \<open>Histories of the pool\<close>

text \<open>What clients of the pool may do while nobody writes page \<open>q\<close>: fetch pages, write other pages that they have pinned, give frames
  back (as dirty if they have written them), and flush the pool.\<close>

inductive pool_history :: "(PageID, nat, 'm) MapOf \<Rightarrow> 'fs DBFileManager \<Rightarrow> ('fs \<Rightarrow> PageID \<Rightarrow> bytes option) \<Rightarrow> PageID \<Rightarrow>
    'm BufferPool \<Rightarrow> 'fs \<Rightarrow> 'm BufferPool \<Rightarrow> 'fs \<Rightarrow> bool" for X M pages q bp fs where
  no_step: "pool_history X M pages q bp fs bp fs"
| fetched: "pool_history X M pages q bp fs bp1 fs1 \<Longrightarrow> pid \<noteq> nilPageID \<Longrightarrow> pins_bounded bp1 \<Longrightarrow>
    GetPage n X M pid bp1 fs1 = Some (Inr j, bp2, fs2) \<Longrightarrow> pool_history X M pages q bp fs bp2 fs2"
| written: "pool_history X M pages q bp fs bp1 fs1 \<Longrightarrow> i < length (frames bp1) \<Longrightarrow> pinCount (frames bp1 ! i) \<noteq> 0 \<Longrightarrow>
    pf_pageID (frames bp1 ! i) \<noteq> q \<Longrightarrow> length bs = PageSize \<Longrightarrow> pool_history X M pages q bp fs (client_write i bs bp1) fs1"
| unpinned: "pool_history X M pages q bp fs bp1 fs1 \<Longrightarrow> i < length (frames bp1) \<Longrightarrow> pinCount (frames bp1 ! i) \<noteq> 0 \<Longrightarrow>
    setDirty \<or> isDirty (frames bp1 ! i) \<or> pages fs1 (pf_pageID (frames bp1 ! i)) = Some (Bytes (frames bp1 ! i)) \<Longrightarrow>
    UnpinPage i setDirty bp1 = Some bp2 \<Longrightarrow> pool_history X M pages q bp fs bp2 fs1"
| flushed_pool: "pool_history X M pages q bp fs bp1 fs1 \<Longrightarrow> FlushAllPages M bp1 fs1 = Some (r, bp2, fs2) \<Longrightarrow>
    pool_history X M pages q bp fs bp2 fs2"

context buffer_pool
begin

lemma GetPage_fetched:
  assumes "ok fs" "pool_inv X (pages fs) bp" "pid \<noteq> nilPageID" "pins_bounded bp" "GetPage n X M pid bp fs = Some (r, bp', fs')"
  shows "ok fs' \<and> got_page X pages pid bp fs r bp' fs'"
proof (cases "m_Load X (pageTable bp) pid \<noteq> None \<or> (\<exists>f\<in>set (frames bp). pinCount f = 0)")
  case True
  obtain k where "n = Suc k" using assms(5) by (cases n) auto
  then show ?thesis using GetPage_returns [OF assms(1-4) True, of k] assms(5) by (auto simp del: GetPage.simps)
next
  case False
  then show ?thesis using GetPage_waits [OF assms(1-4), of n] assms(5) by simp
qed

lemma pool_history_keeps:
  assumes "pool_history X M pages q bp fs bp' fs'" "ok fs" "pool_inv X (pages fs) bp"
  shows "ok fs' \<and> pool_inv X (pages fs') bp' \<and> view X (pages fs') bp' q = view X (pages fs) bp q"
  using assms
proof (induction rule: pool_history.induct)
  case (fetched bp1 fs1 pid n j bp2 fs2)
  then show ?case using GetPage_fetched [OF _ _ fetched.hyps(2-4)] unfolding got_page_def by metis
next
  case (written bp1 fs1 i bs)
  then show ?case using client_write_spec [of X "pages fs1" bp1 i bs] by simp
next
  case (unpinned bp1 fs1 i setDirty bp2)
  then have "pf_pageID (frames bp1 ! i) \<noteq> nilPageID" using pool_invD(4) [of X "pages fs1" bp1 i] by (auto simp: frame_ok_def)
  then show ?case using unpinned UnpinPage_spec [of "pages fs1" bp1 i setDirty] by auto
next
  case (flushed_pool bp1 fs1 r bp2 fs2)
  then show ?case using FlushAllPages_spec [of fs1 bp1] by auto
qed simp

text \<open>The first call of \<open>GetPage\<close> on a cached page finds its frame and pins it.\<close>

lemma GetPage_cached:
  assumes "pool_inv X (pages fs) bp" "i < length (frames bp)" "pf_pageID (frames bp ! i) \<noteq> nilPageID"
  shows "GetPage (Suc n) X M (pf_pageID (frames bp ! i)) bp fs =
    Some (Inr i, bp\<lparr>frames := (frames bp)[i := pin_frame (frames bp ! i)]\<rparr>, fs)"
proof -
  have "m_Load X (pageTable bp) (pf_pageID (frames bp ! i)) = Some i"
    using table_okD [OF pool_invD(3) [OF assms(1)], of "pf_pageID (frames bp ! i)" i] assms(2,3) by auto
  then show ?thesis using assms(2) by (simp add: GetPage_try_def)
qed

end

section \<open>Properties\<close>

text \<open>C26: \<open>GetPage\<close> over the disk, from any pool state that keeps the invariant and with any schedule
  of I/O faults. If the page is cached or some frame is unpinned it returns within one iteration, and the
  outcome keeps the contract: on success the frame holds the page's logical contents and is pinned once
  more, no logical page changes and no pinned frame moves; an error can only affect a page in a dirty
  unpinned frame. Otherwise it does not return, whatever the fuel.\<close>

theorem GetPage_contract:
  assumes "xsync_map X" "xsync_map Y" "disk_ok Y fs" "pool_inv X (disk_pages fs) bp" "pid \<noteq> nilPageID" "pins_bounded bp"
  shows "if m_Load X (pageTable bp) pid \<noteq> None \<or> (\<exists>f\<in>set (frames bp). pinCount f = 0)
    then \<exists>r bp' fs'. GetPage (Suc n) X (disk_ops Y) pid bp fs = Some (r, bp', fs') \<and> disk_ok Y fs' \<and>
      got_page X disk_pages pid bp fs r bp' fs'
    else GetPage n X (disk_ops Y) pid bp fs = None"
  using buffer_pool.GetPage_returns [OF buffer_pool_disk [OF assms(1,2)] assms(3-6)]
    buffer_pool.GetPage_waits [OF buffer_pool_disk [OF assms(1,2)] assms(3-6)]
  by (auto simp del: GetPage.simps)

definition sample_disk :: "(ObjectID \<Rightarrow> DiskDBFile option) DiskDBFileManager" where
  "sample_disk = \<lparr>fileCache = Map.empty, dm_os = \<lparr>os_files = Map.empty, os_faults = []\<rparr>\<rparr>"

lemma sample_disk_ok: "disk_ok fun_map sample_disk" "disk_pages sample_disk = Map.empty"
  by (auto simp: disk_ok_def sample_disk_def fun_map_def disk_pages_def file_pages_def fun_eq_iff)

theorem GetPage_contract_witness:
  "\<exists>r bp' fs'. GetPage 1 fun_map (disk_ops fun_map) (pid_of 1 0) (NewBufferPool fun_map 2) sample_disk = Some (r, bp', fs') \<and>
     disk_ok fun_map fs' \<and> got_page fun_map disk_pages (pid_of 1 0) (NewBufferPool fun_map 2) sample_disk r bp' fs'"
proof -
  have "pool_inv fun_map (disk_pages sample_disk) (NewBufferPool fun_map 2)"
    by (rule NewBufferPool_inv [OF xsync_fun_map]) (simp add: sample_disk_ok)
  moreover have "pins_bounded (NewBufferPool (fun_map :: (PageID, nat, PageID \<Rightarrow> nat option) MapOf) 2)"
    by (simp add: pins_bounded_def NewBufferPool_def new_frame_def)
  moreover have "\<exists>f\<in>set (frames (NewBufferPool (fun_map :: (PageID, nat, PageID \<Rightarrow> nat option) MapOf) 2)). pinCount f = 0"
    by (simp add: NewBufferPool_def new_frame_def)
  ultimately show ?thesis
    using GetPage_contract [OF xsync_fun_map xsync_fun_map sample_disk_ok(1), of "NewBufferPool fun_map 2" "pid_of 1 0" 0]
    by (simp add: nilPageID_def)
qed

text \<open>C30: \<open>FlushAllPages\<close> never blocks, keeps the invariant and every logical page, whatever I/O fails.
  When it reports success no frame is dirty and the files hold the logical contents of every page, except
  of a page that a client has pinned and not yet declared dirty.\<close>

theorem FlushAllPages_durable:
  assumes "xsync_map X" "xsync_map Y" "disk_ok Y fs" "pool_inv X (disk_pages fs) bp"
  shows "\<exists>r bp' fs'. FlushAllPages (disk_ops Y) bp fs = Some (r, bp', fs') \<and> disk_ok Y fs' \<and> pool_inv X (disk_pages fs') bp' \<and>
    view X (disk_pages fs') bp' = view X (disk_pages fs) bp \<and>
    (\<forall>u. r = Inr u \<longrightarrow> (\<forall>f\<in>set (frames bp'). \<not> isDirty f) \<and>
       (\<forall>q. (\<forall>f\<in>set (frames bp). pf_pageID f = q \<longrightarrow> isDirty f \<or> pinCount f = 0) \<longrightarrow>
          disk_pages fs' q = view X (disk_pages fs) bp q))"
  by (rule buffer_pool.FlushAllPages_spec [OF buffer_pool_disk [OF assms(1,2)] assms(3,4)])


definition one_page_disk :: "(ObjectID \<Rightarrow> DiskDBFile option) DiskDBFileManager" where
  "one_page_disk = \<lparr>fileCache = Map.empty, dm_os = \<lparr>os_files = [file_name 1 \<mapsto> replicate PageSize 0], os_faults = []\<rparr>\<rparr>"

definition one_page_pool :: "(PageID \<Rightarrow> nat option) BufferPool" where
  "one_page_pool = \<lparr>frames = [\<lparr>Bytes = replicate PageSize 0, pf_pageID = pid_of 1 0, pinCount = 1, isDirty = False, refCount = 1\<rparr>],
     pageTable = [pid_of 1 0 \<mapsto> 0], clockHand = 0\<rparr>"

lemma one_page_ok: "disk_ok fun_map one_page_disk" "pool_inv fun_map (disk_pages one_page_disk) one_page_pool"
proof -
  have "file_ok (replicate PageSize 0)" unfolding file_ok_def by (rule exI [of _ 1]) simp
  then show "disk_ok fun_map one_page_disk"
    by (auto simp: disk_ok_def one_page_disk_def fun_map_def)
  have "disk_pages one_page_disk nilPageID = None" "disk_pages one_page_disk (pid_of 1 0) \<noteq> None"
    by (simp_all add: disk_pages_def one_page_disk_def file_name_inj file_pages_def nilPageID_def)
  then show "pool_inv fun_map (disk_pages one_page_disk) one_page_pool"
    by (auto simp: pool_inv_def one_page_pool_def table_ok_def frame_ok_def fun_map_def nilPageID_def nth_Cons' split: if_splits)
qed

text \<open>A pool with a page that was written and given back.\<close>

definition dirty_pool :: "(PageID \<Rightarrow> nat option) BufferPool" where
  "dirty_pool = \<lparr>frames = [\<lparr>Bytes = replicate PageSize 7, pf_pageID = pid_of 1 0, pinCount = 0, isDirty = True, refCount = 1\<rparr>],
     pageTable = [pid_of 1 0 \<mapsto> 0], clockHand = 0\<rparr>"

lemma dirty_pool_inv: "pool_inv fun_map (disk_pages one_page_disk) dirty_pool"
  using one_page_ok(2) by (auto simp: pool_inv_def one_page_pool_def dirty_pool_def table_ok_def frame_ok_def)

lemma dirty_pool_flush: "\<exists>bp fs. FlushAllPages (disk_ops fun_map) dirty_pool one_page_disk = Some (Inr (), bp, fs)"
  by (simp add: FlushAllPages_def flushFrame_def write_back_def dirty_pool_def one_page_disk_def disk_ops_def GetDBFile_def handle_WritePage_def
      DiskDBFile_WritePage_def NewDiskDBFile_def os_OpenFile_def os_Size_def os_WriteAt_def sys_call_def fun_map_def Let_def)

theorem FlushAllPages_durable_witness:
  "\<exists>bp' fs'. FlushAllPages (disk_ops fun_map) dirty_pool one_page_disk = Some (Inr (), bp', fs') \<and>
     disk_pages fs' (pid_of 1 0) = Some (replicate PageSize 7) \<and> (\<forall>f\<in>set (frames bp'). \<not> isDirty f)"
proof -
  obtain bp fs where f: "FlushAllPages (disk_ops fun_map) dirty_pool one_page_disk = Some (Inr (), bp, fs)" using dirty_pool_flush by blast
  have "view fun_map (disk_pages one_page_disk) dirty_pool (pid_of 1 0) = Some (replicate PageSize 7)"
    by (simp add: view_def dirty_pool_def fun_map_def)
  moreover have "\<forall>f\<in>set (frames dirty_pool). pinCount f = 0" by (simp add: dirty_pool_def)
  ultimately show ?thesis
    using FlushAllPages_durable [OF xsync_fun_map xsync_fun_map one_page_ok(1) dirty_pool_inv] f by auto
qed


end
