(* ===== verification/Execution_TableHeap.thy ===== *)
theory Execution_TableHeap
  imports Storage_BufferPool Catalog
begin

text \<open>
  Heap files (\<open>execution/table_heap.go\<close>, \<open>execution/table_manager.go\<close>): insert, read, update, delete and
  vacuum of tuples through the buffer pool, and the scan of a heap file.

  An operation is a function of the pool and of the files. \<open>GetPage\<close> takes its fuel: the loop in it
  spins while every frame is pinned. The frame an operation pins is written through the window of its
  heap page; \<open>client_write\<close> stores the bytes back to the frame. A panic is \<open>None\<close>. The page latch and
  the table's mutex order operations that run at the same time; the operations here run one after the
  other. The theorems show that a heap file is a map from record identifiers to rows.
\<close>

section \<open>The table heap\<close>

record TableHeap =
  th_oid :: ObjectID
  th_desc :: RawTupleDesc

definition NewTableHeap :: "Table \<Rightarrow> TableHeap option" where
  "NewTableHeap table = do {
     desc \<leftarrow> NewRawTupleDesc (map col_Type (tb_Columns table));
     Some \<lparr>th_oid = tb_Oid table, th_desc = desc\<rparr>
   }"

definition StorageSchema :: "TableHeap \<Rightarrow> RawTupleDesc" where
  "StorageSchema th = th_desc th"

datatype heap_error = ErrTupleDeleted | ErrIO string

text \<open>\<open>GetPage\<close>, work on the frame, \<open>UnpinPage\<close>: the work gives the dirty flag, a result and the new bytes.\<close>

definition on_page :: "nat \<Rightarrow> (PageID, nat, 'm) MapOf \<Rightarrow> 'fs DBFileManager \<Rightarrow> PageID \<Rightarrow> (PageFrame \<Rightarrow> (bool \<times> 'a \<times> bytes) option) \<Rightarrow>
    'm BufferPool \<Rightarrow> 'fs \<Rightarrow> ((string + 'a) \<times> 'm BufferPool \<times> 'fs) option" where
  "on_page fuel X M pid work bp fs = do {
     (r, bp, fs) \<leftarrow> GetPage fuel X M pid bp fs;
     (case r of
        Inl err \<Rightarrow> Some (Inl err, bp, fs)
      | Inr i \<Rightarrow> do {
          frame \<leftarrow> idx (frames bp) i;
          (setDirty, res, bs) \<leftarrow> work frame;
          bp \<leftarrow> UnpinPage i setDirty (client_write i bs bp);
          Some (Inr res, bp, fs)
        })
   }"

definition flatten_err :: "string + (heap_error + 'a) \<Rightarrow> heap_error + 'a" where
  "flatten_err r = (case r of Inl err \<Rightarrow> Inl (ErrIO err) | Inr x \<Rightarrow> x)"

definition place_row :: "HeapPage \<Rightarrow> RecordID \<Rightarrow> bytes \<Rightarrow> HeapPage option" where
  "place_row hp rid row = do { hp \<leftarrow> MarkAllocated hp rid True; copy_to_tuple hp rid row }"

text \<open>The attempt on the last page: the slot found, if any.\<close>

definition insert_last :: "PageID \<Rightarrow> bytes \<Rightarrow> PageFrame \<Rightarrow> (bool \<times> RecordID option \<times> bytes) option" where
  "insert_last pid row frame = do {
     let hp = AsHeapPage frame;
     slot \<leftarrow> FindFreeSlot hp;
     (if slot \<noteq> -1 then do {
        let rid = \<lparr>rid_PageID = pid, Slot = word_of_int slot\<rparr>;
        hp \<leftarrow> place_row hp rid row;
        Some (True, Some rid, Bytes hp)
      } else Some (False, None, Bytes frame))
   }"

definition insert_new :: "RawTupleDesc \<Rightarrow> PageID \<Rightarrow> bytes \<Rightarrow> PageFrame \<Rightarrow> (bool \<times> RecordID \<times> bytes) option" where
  "insert_new desc pid row frame = do {
     let rid = \<lparr>rid_PageID = pid, Slot = 0\<rparr>;
     hp \<leftarrow> place_row (AsHeapPage (InitializeHeapPage desc frame)) rid row;
     Some (True, rid, Bytes hp)
   }"

definition InsertTuple :: "nat \<Rightarrow> (PageID, nat, 'm) MapOf \<Rightarrow> 'fs DBFileManager \<Rightarrow> TableHeap \<Rightarrow> bytes \<Rightarrow> 'm BufferPool \<Rightarrow> 'fs \<Rightarrow>
    ((string + RecordID) \<times> 'm BufferPool \<times> 'fs) option" where
  "InsertTuple fuel X M th row bp fs =
     (case fm_GetDBFile M (th_oid th) fs of
        (Inl err, fs) \<Rightarrow> Some (Inl err, bp, fs)
      | (Inr h, fs) \<Rightarrow>
          (case fm_NumPages M h fs of
             Inl err \<Rightarrow> Some (Inl err, bp, fs)
           | Inr numPages \<Rightarrow> do {
               (r, bp, fs) \<leftarrow>
                 (if sint numPages > 0
                  then on_page fuel X M (pid_of (th_oid th) (numPages - 1)) (insert_last (pid_of (th_oid th) (numPages - 1)) row) bp fs
                  else Some (Inr None, bp, fs));
               (case r of
                  Inl err \<Rightarrow> Some (Inl err, bp, fs)
                | Inr (Some rid) \<Rightarrow> Some (Inr rid, bp, fs)
                | Inr None \<Rightarrow> do {
                    (ra, fs) \<leftarrow> fm_AllocatePage M h 1 fs;
                    (case ra of
                       Inl err \<Rightarrow> Some (Inl err, bp, fs)
                     | Inr newPage \<Rightarrow>
                         on_page fuel X M (pid_of (th_oid th) newPage) (insert_new (th_desc th) (pid_of (th_oid th) newPage) row) bp fs)
                  })
             }))"

text \<open>\<open>!IsAllocated(rid) || IsDeleted(rid)\<close>\<close>

definition slot_dead :: "HeapPage \<Rightarrow> RecordID \<Rightarrow> bool option" where
  "slot_dead hp rid = do {
     a \<leftarrow> IsAllocated hp rid;
     (if \<not> a then Some True else IsDeleted hp rid)
   }"

definition delete_slot :: "RecordID \<Rightarrow> PageFrame \<Rightarrow> (bool \<times> (heap_error + unit) \<times> bytes) option" where
  "delete_slot rid frame = do {
     let hp = AsHeapPage frame;
     dead \<leftarrow> slot_dead hp rid;
     (if dead then Some (True, Inl ErrTupleDeleted, Bytes hp)
      else do { hp \<leftarrow> MarkDeleted hp rid True; Some (True, Inr (), Bytes hp) })
   }"

definition DeleteTuple :: "nat \<Rightarrow> (PageID, nat, 'm) MapOf \<Rightarrow> 'fs DBFileManager \<Rightarrow> RecordID \<Rightarrow> 'm BufferPool \<Rightarrow> 'fs \<Rightarrow>
    ((heap_error + unit) \<times> 'm BufferPool \<times> 'fs) option" where
  "DeleteTuple fuel X M rid bp fs = do {
     (r, bp, fs) \<leftarrow> on_page fuel X M (rid_PageID rid) (delete_slot rid) bp fs;
     Some (flatten_err r, bp, fs)
   }"

definition read_slot :: "RecordID \<Rightarrow> bytes \<Rightarrow> PageFrame \<Rightarrow> (bool \<times> (heap_error + bytes) \<times> bytes) option" where
  "read_slot rid buffer frame = do {
     let hp = AsHeapPage frame;
     dead \<leftarrow> slot_dead hp rid;
     (if dead then Some (False, Inl ErrTupleDeleted, Bytes hp)
      else do { rawTuple \<leftarrow> AccessTuple hp rid; Some (False, Inr (blit 0 rawTuple buffer), Bytes hp) })
   }"

definition ReadTuple :: "nat \<Rightarrow> (PageID, nat, 'm) MapOf \<Rightarrow> 'fs DBFileManager \<Rightarrow> RecordID \<Rightarrow> bytes \<Rightarrow> 'm BufferPool \<Rightarrow> 'fs \<Rightarrow>
    ((heap_error + bytes) \<times> 'm BufferPool \<times> 'fs) option" where
  "ReadTuple fuel X M rid buffer bp fs = do {
     (r, bp, fs) \<leftarrow> on_page fuel X M (rid_PageID rid) (read_slot rid buffer) bp fs;
     Some (flatten_err r, bp, fs)
   }"

definition update_slot :: "RecordID \<Rightarrow> bytes \<Rightarrow> PageFrame \<Rightarrow> (bool \<times> (heap_error + unit) \<times> bytes) option" where
  "update_slot rid updatedTuple frame = do {
     let hp = AsHeapPage frame;
     dead \<leftarrow> slot_dead hp rid;
     (if dead then Some (True, Inl ErrTupleDeleted, Bytes hp)
      else do { hp \<leftarrow> copy_to_tuple hp rid updatedTuple; Some (True, Inr (), Bytes hp) })
   }"

definition UpdateTuple :: "nat \<Rightarrow> (PageID, nat, 'm) MapOf \<Rightarrow> 'fs DBFileManager \<Rightarrow> RecordID \<Rightarrow> bytes \<Rightarrow> 'm BufferPool \<Rightarrow> 'fs \<Rightarrow>
    ((heap_error + unit) \<times> 'm BufferPool \<times> 'fs) option" where
  "UpdateTuple fuel X M rid updatedTuple bp fs = do {
     (r, bp, fs) \<leftarrow> on_page fuel X M (rid_PageID rid) (update_slot rid updatedTuple) bp fs;
     Some (flatten_err r, bp, fs)
   }"

definition vacuum_slot :: "HeapPage \<Rightarrow> RecordID \<Rightarrow> HeapPage option" where
  "vacuum_slot hp rid = do {
     d \<leftarrow> IsDeleted hp rid;
     dead \<leftarrow> (if d then Some True else do { a \<leftarrow> IsAllocated hp rid; Some (\<not> a) });
     (if dead then do { hp \<leftarrow> MarkDeleted hp rid False; MarkAllocated hp rid False } else Some hp)
   }"

fun vacuum_loop :: "PageID \<Rightarrow> nat list \<Rightarrow> HeapPage \<Rightarrow> HeapPage option" where
  "vacuum_loop pid [] hp = Some hp"
| "vacuum_loop pid (i # is) hp = do {
     hp \<leftarrow> vacuum_slot hp \<lparr>rid_PageID = pid, Slot = of_nat i\<rparr>;
     vacuum_loop pid is hp
   }"

definition vacuum_slots :: "PageID \<Rightarrow> PageFrame \<Rightarrow> (bool \<times> unit \<times> bytes) option" where
  "vacuum_slots pid frame = do {
     let hp = AsHeapPage frame;
     hp \<leftarrow> vacuum_loop pid [0..<NumSlots hp] hp;
     Some (True, (), Bytes hp)
   }"

definition VacuumPage :: "nat \<Rightarrow> (PageID, nat, 'm) MapOf \<Rightarrow> 'fs DBFileManager \<Rightarrow> PageID \<Rightarrow> 'm BufferPool \<Rightarrow> 'fs \<Rightarrow>
    ((string + unit) \<times> 'm BufferPool \<times> 'fs) option" where
  "VacuumPage fuel X M pageID bp fs = on_page fuel X M pageID (vacuum_slots pageID) bp fs"

section \<open>Table manager\<close>

text \<open>The tables of the catalog, by object identifier; a failed \<open>NewRawTupleDesc\<close> panics.\<close>

fun load_tables :: "Table list \<Rightarrow> (ObjectID \<rightharpoonup> TableHeap) \<Rightarrow> (ObjectID \<rightharpoonup> TableHeap) option" where
  "load_tables [] tables = Some tables"
| "load_tables (tableDef # defs) tables = do {
     heap \<leftarrow> NewTableHeap tableDef;
     load_tables defs (tables(tb_Oid tableDef \<mapsto> heap))
   }"

definition NewTableManager :: "Catalog \<Rightarrow> (ObjectID \<rightharpoonup> TableHeap) option" where
  "NewTableManager c = load_tables (Tables c) Map.empty"

definition GetTable :: "(ObjectID \<rightharpoonup> TableHeap) \<Rightarrow> ObjectID \<Rightarrow> string + TableHeap" where
  "GetTable tm oid = (case tm oid of Some heap \<Rightarrow> Inr heap | None \<Rightarrow> Inl (''object '' @ quoted (decimal (unat oid)) @ '' not found''))"

section \<open>Pages as bytes\<close>

text \<open>The slots of a page are a function of its bytes.\<close>

definition page_of :: "bytes \<Rightarrow> HeapPage" where
  "page_of b = AsHeapPage (zero_frame\<lparr>Bytes := b\<rparr>)"

lemma Bytes_AsHeapPage [simp]: "Bytes (AsHeapPage f) = Bytes f"
  by (simp add: AsHeapPage_def PageFrame.defs Let_def)

lemma Bytes_page_of [simp]: "Bytes (page_of b) = b"
  by (simp add: page_of_def)

lemma page_bytes_only:
  assumes "Bytes hp = Bytes hp'"
  shows "NumSlots hp = NumSlots hp'" "RowSize hp = RowSize hp'" "NumUsed hp = NumUsed hp'" "abs_page hp = abs_page hp'"
    "allocated hp = allocated hp'" "deleted hp = deleted hp'" "slot_bytes hp = slot_bytes hp'"
  using assms by (auto simp: NumSlots_def RowSize_def NumUsed_def abs_page_def allocated_def deleted_def slot_bytes_def fun_eq_iff)

lemma AsHeapPage_offsets:
  "allocOffset (AsHeapPage f) = 16" "deletedOffset (AsHeapPage f) = 16 + map_bytes (NumSlots (AsHeapPage f))"
  "tupleOffset (AsHeapPage f) = 16 + 2 * map_bytes (NumSlots (AsHeapPage f))"
  by (simp_all add: NumSlots_def map_bytes_def) (simp_all add: AsHeapPage_def PageFrame.defs Let_def)

lemma wf_page_of:
  assumes "wf_heap_page hp" "Bytes hp = Bytes f"
  shows "wf_heap_page (AsHeapPage f)"
proof -
  have "Bytes hp = Bytes (AsHeapPage f)" using assms(2) by simp
  note p = page_bytes_only [OF this]
  show ?thesis using assms unfolding wf_heap_page_def wf_layout_def by (simp add: p AsHeapPage_offsets)
qed

text \<open>The pages of a table all have the same number of slots.\<close>

definition slots_per_page :: "TableHeap \<Rightarrow> nat" where
  "slots_per_page th = slots_loop (BytesPerTuple (th_desc th)) 1 0"

definition wf_page :: "TableHeap \<Rightarrow> bytes \<Rightarrow> bool" where
  "wf_page th b \<longleftrightarrow> wf_heap_page (page_of b) \<and> RowSize (page_of b) = d_bytesPerRow (th_desc th) \<and>
     NumSlots (page_of b) = slots_per_page th"

text \<open>A record identifier that addresses a slot of the table.\<close>

definition valid_rid :: "TableHeap \<Rightarrow> RecordID \<Rightarrow> bool" where
  "valid_rid th rid \<longleftrightarrow> Oid (rid_PageID rid) = th_oid th \<and> 0 \<le> sint (Slot rid) \<and> nat (sint (Slot rid)) < slots_per_page th"

text \<open>The row in a slot, if it is live.\<close>

definition live :: "slot \<Rightarrow> bytes option" where
  "live sl = (if fst sl \<and> \<not> fst (snd sl) then Some (snd (snd sl)) else None)"

definition page_row :: "bytes \<Rightarrow> int32 \<Rightarrow> bytes option" where
  "page_row b s = (let slots = abs_page (page_of b) in
     if 0 \<le> sint s \<and> nat (sint s) < length slots then live (slots ! nat (sint s)) else None)"

text \<open>The contents of a heap file, given the logical pages.\<close>

definition heap_rows :: "TableHeap \<Rightarrow> (PageID \<Rightarrow> bytes option) \<Rightarrow> RecordID \<Rightarrow> bytes option" where
  "heap_rows th v rid = (if Oid (rid_PageID rid) = th_oid th
     then (case v (rid_PageID rid) of None \<Rightarrow> None | Some b \<Rightarrow> page_row b (Slot rid)) else None)"

lemma page_row_slot:
  assumes "at_slot rid k" "k < NumSlots (page_of b)"
  shows "page_row b (Slot rid) = live (abs_page (page_of b) ! k)"
  using assms by (simp add: page_row_def at_slot_def Let_def)

text \<open>A page whose slot \<open>k\<close> has been replaced.\<close>

definition slot_set :: "bytes \<Rightarrow> nat \<Rightarrow> slot \<Rightarrow> bytes \<Rightarrow> bool" where
  "slot_set b k sl b' \<longleftrightarrow> abs_page (page_of b') = (abs_page (page_of b))[k := sl]"

lemma heap_rows_update:
  assumes "v pid = Some b" "slot_set b k sl b'" "rid_PageID rid = pid" "at_slot rid k" "k < NumSlots (page_of b)" "Oid pid = th_oid th"
  shows "heap_rows th (v(pid \<mapsto> b')) = (heap_rows th v)(rid := live sl)"
proof
  fix r
  show "heap_rows th (v(pid \<mapsto> b')) r = ((heap_rows th v)(rid := live sl)) r"
  proof (cases "rid_PageID r = pid")
    case True
    have "nat (sint (Slot r)) = k \<and> 0 \<le> sint (Slot r) \<longleftrightarrow> r = rid"
    proof -
      have "sint (Slot r) = sint (Slot rid) \<longleftrightarrow> Slot r = Slot rid" using signed_word_eqI by auto
      then show ?thesis using True assms(3,4) by (cases r; cases rid) (auto simp: at_slot_def)
    qed
    moreover have "length (abs_page (page_of b')) = length (abs_page (page_of b))" using assms(2) by (simp only: slot_set_def length_list_update)
    ultimately show ?thesis
      using True assms by (auto simp: heap_rows_def page_row_def slot_set_def Let_def nth_list_update at_slot_def)
  next
    case False
    then show ?thesis using assms(3) by (auto simp: heap_rows_def)
  qed
qed

section \<open>The work on one page\<close>

text \<open>The heap page that a frame shows.\<close>

lemma frame_page:
  assumes "wf_page th (Bytes f)"
  shows "wf_heap_page (AsHeapPage f)" "RowSize (AsHeapPage f) = d_bytesPerRow (th_desc th)"
    "abs_page (AsHeapPage f) = abs_page (page_of (Bytes f))" "NumSlots (AsHeapPage f) = NumSlots (page_of (Bytes f))"
proof -
  have b: "Bytes (AsHeapPage f) = Bytes (page_of (Bytes f))" by simp
  show "wf_heap_page (AsHeapPage f)" using assms by (intro wf_page_of [of "page_of (Bytes f)"]) (simp_all add: wf_page_def)
  show "RowSize (AsHeapPage f) = d_bytesPerRow (th_desc th)" using page_bytes_only(2) [OF b] assms by (simp add: wf_page_def)
  show "abs_page (AsHeapPage f) = abs_page (page_of (Bytes f))" "NumSlots (AsHeapPage f) = NumSlots (page_of (Bytes f))"
    using page_bytes_only(1,4) [OF b] by simp_all
qed

lemma page_result:
  assumes "wf_heap_page hp" "same_header (AsHeapPage f) hp" "abs_page hp = (abs_page (AsHeapPage f))[k := sl]" "wf_page th (Bytes f)"
  shows "wf_page th (Bytes hp)" "slot_set (Bytes f) k sl (Bytes hp)" "length (Bytes hp) = PageSize"
proof -
  have b: "Bytes hp = Bytes (page_of (Bytes hp))" by simp
  note p = page_bytes_only [OF b]
  have "wf_heap_page (page_of (Bytes hp))" unfolding page_of_def by (rule wf_page_of [OF assms(1)]) simp
  then show "wf_page th (Bytes hp)"
    using p(1,2) same_headerD(1,2) [OF assms(2)] frame_page(2,4) [OF assms(4)] assms(4) by (simp add: wf_page_def)
  show "slot_set (Bytes f) k sl (Bytes hp)" using p(4) assms(3) frame_page(3) [OF assms(4)] by (simp add: slot_set_def)
  show "length (Bytes hp) = PageSize" using assms(1) by (simp add: wf_heap_page_def wf_layout_def)
qed

lemma place_row_spec:
  assumes "wf_heap_page hp" "k < NumSlots hp" "at_slot rid k" "length row = RowSize hp"
  shows "\<exists>hp'. place_row hp rid row = Some hp' \<and> wf_heap_page hp' \<and> same_header hp hp' \<and> abs_page hp' = (abs_page hp)[k := (True, False, row)]"
proof -
  obtain h1 where h1: "MarkAllocated hp rid True = Some h1" "wf_heap_page h1" "same_header hp h1"
    "abs_page h1 = (abs_page hp)[k := (True, False, slot_bytes hp k)]"
    using MarkAllocated_refines [OF assms(1-3), of True] by blast
  note hd = same_headerD [OF h1(3)]
  have k: "k < NumSlots h1" "length row = RowSize h1" using hd(1,2) assms(2,4) by simp_all
  obtain h2 where h2: "copy_to_tuple h1 rid row = Some h2" "wf_heap_page h2" "same_header h1 h2"
    "abs_page h2 = (abs_page h1)[k := (allocated h1 k, deleted h1 k, row)]"
    using copy_to_tuple_refines [OF h1(2) k(1) assms(3) k(2)] by blast
  have "(allocated h1 k, deleted h1 k, slot_bytes h1 k) = (True, False, slot_bytes hp k)"
    using abs_page_nth [OF k(1)] h1(4) assms(2) by simp
  then have "abs_page h2 = (abs_page hp)[k := (True, False, row)]" using h2(4) h1(4) by simp
  then show ?thesis using h1(1) h2 same_header_trans [OF h1(3) h2(3)] by (simp add: place_row_def)
qed

lemma NumSlots_small: "wf_heap_page hp \<Longrightarrow> k < NumSlots hp \<Longrightarrow> sint (of_nat k :: int32) = int k"
  using NumSlots_less [of hp] by (simp add: signed_of_nat signed_take_bit_int_eq_self)

lemma first_free_slot:
  assumes "first_free ss \<noteq> -1"
  shows "\<exists>k. first_free ss = int k \<and> k < length ss \<and> \<not> fst (ss ! k)"
proof -
  let ?t = "takeWhile fst ss"
  have ex: "\<not> (\<forall>sl \<in> set ss. fst sl)" and ff: "first_free ss = int (length ?t)" using assms by (auto simp: first_free_def split: if_splits)
  have "?t \<noteq> ss" using ex by (auto simp: takeWhile_eq_all_conv)
  then have "length ?t < length ss" by (metis length_takeWhile_le le_neq_implies_less takeWhile_eq_take take_all_iff order_refl)
  then show ?thesis using ff nth_length_takeWhile [of fst ss] by blast
qed

lemma insert_last_spec:
  assumes "wf_page th (Bytes f)" "length row = d_bytesPerRow (th_desc th)"
  shows "\<exists>d res b'. insert_last pid row f = Some (d, res, b') \<and> length b' = PageSize \<and> (\<not> d \<longrightarrow> b' = Bytes f) \<and> wf_page th b' \<and>
    (case res of None \<Rightarrow> b' = Bytes f
     | Some rid \<Rightarrow> \<exists>k < NumSlots (page_of (Bytes f)). rid_PageID rid = pid \<and> at_slot rid k \<and> \<not> fst (abs_page (page_of (Bytes f)) ! k) \<and>
         slot_set (Bytes f) k (True, False, row) b')"
proof -
  note fp = frame_page [OF assms(1)]
  let ?hp = "AsHeapPage f"
  let ?ss = "abs_page ?hp"
  have slot: "FindFreeSlot ?hp = Some (first_free ?ss)" using FindFreeSlot_eq fp(1) by (simp add: wf_heap_page_def)
  have len: "length (Bytes f) = PageSize" using fp(1) by (simp add: wf_heap_page_def wf_layout_def)
  show ?thesis
  proof (cases "first_free ?ss = -1")
    case True
    then have "insert_last pid row f = Some (False, None, Bytes f)" using slot by (simp add: insert_last_def Let_def)
    then show ?thesis using assms(1) len by (intro exI [of _ False] exI [of _ None] exI [of _ "Bytes f"]) simp
  next
    case False
    obtain k where k: "first_free ?ss = int k" "k < length ?ss" "\<not> fst (?ss ! k)"
      using first_free_slot [OF False] by blast
    let ?rid = "\<lparr>rid_PageID = pid, Slot = word_of_int (int k)\<rparr>"
    have at: "at_slot ?rid k" using NumSlots_small [OF fp(1), of k] k(2) by (simp add: at_slot_def)
    obtain hp' where hp': "place_row ?hp ?rid row = Some hp'" "wf_heap_page hp'" "same_header ?hp hp'"
      "abs_page hp' = ?ss[k := (True, False, row)]"
      using place_row_spec [OF fp(1) _ at, of row] k(2) fp(2) assms(2) by auto
    note pr = page_result [OF hp'(2-4) assms(1)]
    show ?thesis
      using slot False k hp'(1) pr at fp(3,4)
      by (intro exI [of _ True] exI [of _ "Some ?rid"] exI [of _ "Bytes hp'"]) (auto simp: insert_last_def Let_def)
  qed
qed

lemma insert_new_spec:
  assumes "length (Bytes f) = PageSize" "wf_desc (th_desc th)" "length row = d_bytesPerRow (th_desc th)"
  shows "\<exists>b'. insert_new (th_desc th) pid row f = Some (True, \<lparr>rid_PageID = pid, Slot = 0\<rparr>, b') \<and> length b' = PageSize \<and> wf_page th b' \<and>
    (\<forall>s. page_row b' s = (if s = 0 then Some row else None))"
proof -
  let ?g = "InitializeHeapPage (th_desc th) f"
  let ?hp = "AsHeapPage ?g"
  have fit: "BytesPerTuple (th_desc th) \<le> PageSize - 32" using assms(2) by (simp add: wf_desc_def BytesPerTuple_def)
  note lay = InitializeHeapPage_layout [OF assms(1) fit] and ab = InitializeHeapPage_abs [OF assms(1) fit]
  have n: "0 < NumSlots ?hp" using lay(2,7) by simp
  let ?rid = "\<lparr>rid_PageID = pid, Slot = 0\<rparr>"
  have at: "at_slot ?rid 0" by (simp add: at_slot_def)
  have rs: "RowSize ?hp = d_bytesPerRow (th_desc th)" using lay(3) by (simp add: BytesPerTuple_def)
  have b: "Bytes ?hp = Bytes (page_of (Bytes ?g))" by simp
  have wfg: "wf_page th (Bytes ?g)"
    using wf_page_of [OF ab(2), of "zero_frame\<lparr>Bytes := Bytes ?g\<rparr>"] page_bytes_only(1,2) [OF b] rs lay(2) by (simp add: wf_page_def page_of_def slots_per_page_def)
  obtain hp' where hp': "place_row ?hp ?rid row = Some hp'" "wf_heap_page hp'" "same_header ?hp hp'"
    "abs_page hp' = (abs_page ?hp)[0 := (True, False, row)]"
    using place_row_spec [OF ab(2) n at, of row] rs assms(3) by auto
  note pr = page_result [OF hp'(2-4) wfg]
  have "abs_page (page_of (Bytes hp')) = (replicate (NumSlots ?hp) (False, False, replicate (RowSize ?hp) 0))[0 := (True, False, row)]"
    using pr(2) page_bytes_only(4) [OF b] ab(1) by (simp only: slot_set_def)
  then have "page_row (Bytes hp') s = (if s = 0 then Some row else None)" for s
    using n signed_word_eqI [of s 0] by (auto simp: page_row_def Let_def live_def nth_list_update simp del: length_abs_page)
  then show ?thesis using hp'(1) pr by (auto simp: insert_new_def Let_def)
qed

text \<open>The slot operations on an addressed slot of a page.\<close>

lemma slot_dead_spec:
  assumes "wf_page th (Bytes f)" "k < NumSlots (page_of (Bytes f))" "at_slot rid k"
  shows "slot_dead (AsHeapPage f) rid = Some (page_row (Bytes f) (Slot rid) = None)"
proof -
  note fp = frame_page [OF assms(1)]
  have k: "k < NumSlots (AsHeapPage f)" "wf_layout (AsHeapPage f)" using assms(2) fp by (simp_all add: wf_heap_page_def)
  have "page_row (Bytes f) (Slot rid) = live (allocated (AsHeapPage f) k, deleted (AsHeapPage f) k, slot_bytes (AsHeapPage f) k)"
    using page_row_slot [OF assms(3,2)] abs_page_nth [OF k(1)] fp(3) by simp
  then show ?thesis
    using IsAllocated_eq [OF k(2,1) assms(3)] IsDeleted_eq [OF k(2,1) assms(3)] by (simp add: slot_dead_def live_def)
qed

lemma delete_slot_spec:
  assumes "wf_page th (Bytes f)" "k < NumSlots (page_of (Bytes f))" "at_slot rid k"
  shows "\<exists>res b'. delete_slot rid f = Some (True, res, b') \<and> length b' = PageSize \<and> wf_page th b' \<and>
    (if page_row (Bytes f) (Slot rid) = None then res = Inl ErrTupleDeleted \<and> b' = Bytes f
     else res = Inr () \<and> (\<exists>sl. live sl = None \<and> slot_set (Bytes f) k sl b'))"
proof (cases "page_row (Bytes f) (Slot rid) = None")
  case True
  have "length (Bytes f) = PageSize" using frame_page(1) [OF assms(1)] by (simp add: wf_heap_page_def wf_layout_def)
  then show ?thesis using True slot_dead_spec [OF assms] assms(1) by (simp add: delete_slot_def Let_def)
next
  case False
  note fp = frame_page [OF assms(1)]
  obtain hp' where hp': "MarkDeleted (AsHeapPage f) rid True = Some hp'" "wf_heap_page hp'" "same_header (AsHeapPage f) hp'"
    "abs_page hp' = (abs_page (AsHeapPage f))[k := (allocated (AsHeapPage f) k, True, slot_bytes (AsHeapPage f) k)]"
    using MarkDeleted_refines [OF fp(1) _ assms(3), of True] assms(2) fp(4) by auto
  note pr = page_result [OF hp'(2-4) assms(1)]
  have "live (allocated (AsHeapPage f) k, True, slot_bytes (AsHeapPage f) k) = None" by (simp add: live_def)
  then show ?thesis using False slot_dead_spec [OF assms] hp'(1) pr by (auto simp: delete_slot_def Let_def)
qed

lemma read_slot_spec:
  assumes "wf_page th (Bytes f)" "k < NumSlots (page_of (Bytes f))" "at_slot rid k" "length buffer = d_bytesPerRow (th_desc th)"
  shows "read_slot rid buffer f = Some (False, case page_row (Bytes f) (Slot rid) of None \<Rightarrow> Inl ErrTupleDeleted | Some r \<Rightarrow> Inr r, Bytes f)"
proof (cases "page_row (Bytes f) (Slot rid)")
  case None
  then show ?thesis using slot_dead_spec [OF assms(1-3)] by (simp add: read_slot_def Let_def)
next
  case (Some r)
  note fp = frame_page [OF assms(1)]
  have k: "k < NumSlots (AsHeapPage f)" "wf_layout (AsHeapPage f)" using assms(2) fp by (simp_all add: wf_heap_page_def)
  have "r = slot_bytes (AsHeapPage f) k"
    using Some page_row_slot [OF assms(3,2)] abs_page_nth [OF k(1)] fp(3) by (simp add: live_def split: if_splits)
  moreover have "length (slot_bytes (AsHeapPage f) k) = RowSize (AsHeapPage f)"
    using slot_in_page [OF k(2,1)] k(2) by (simp add: slot_bytes_def wf_layout_def)
  ultimately have "AccessTuple (AsHeapPage f) rid = Some r" "blit 0 r buffer = r"
    using AccessTuple_eq [OF k(2,1) assms(3)] fp(2) assms(4) by (simp_all add: blit_def)
  then show ?thesis using Some slot_dead_spec [OF assms(1-3)] by (simp add: read_slot_def Let_def)
qed

lemma update_slot_spec:
  assumes "wf_page th (Bytes f)" "k < NumSlots (page_of (Bytes f))" "at_slot rid k" "length row = d_bytesPerRow (th_desc th)"
  shows "\<exists>res b'. update_slot rid row f = Some (True, res, b') \<and> length b' = PageSize \<and> wf_page th b' \<and>
    (if page_row (Bytes f) (Slot rid) = None then res = Inl ErrTupleDeleted \<and> b' = Bytes f
     else res = Inr () \<and> (\<exists>sl. live sl = Some row \<and> slot_set (Bytes f) k sl b'))"
proof (cases "page_row (Bytes f) (Slot rid) = None")
  case True
  have "length (Bytes f) = PageSize" using frame_page(1) [OF assms(1)] by (simp add: wf_heap_page_def wf_layout_def)
  then show ?thesis using True slot_dead_spec [OF assms(1-3)] assms(1) by (simp add: update_slot_def Let_def)
next
  case False
  note fp = frame_page [OF assms(1)]
  have k: "k < NumSlots (AsHeapPage f)" using assms(2) fp(4) by simp
  obtain hp' where hp': "copy_to_tuple (AsHeapPage f) rid row = Some hp'" "wf_heap_page hp'" "same_header (AsHeapPage f) hp'"
    "abs_page hp' = (abs_page (AsHeapPage f))[k := (allocated (AsHeapPage f) k, deleted (AsHeapPage f) k, row)]"
    using copy_to_tuple_refines [OF fp(1) k assms(3)] fp(2) assms(4) by auto
  note pr = page_result [OF hp'(2-4) assms(1)]
  have "live (allocated (AsHeapPage f) k, deleted (AsHeapPage f) k, row) = Some row"
    using False page_row_slot [OF assms(3,2)] abs_page_nth [OF k] fp(3) by (simp add: live_def split: if_splits)
  then show ?thesis using False slot_dead_spec [OF assms(1-3)] hp'(1) pr by (auto simp: update_slot_def Let_def)
qed

text \<open>Vacuum frees the dead slots and leaves the live ones.\<close>

definition freed :: "slot \<Rightarrow> slot" where
  "freed sl = (if live sl = None then (False, False, snd (snd sl)) else sl)"

lemma live_freed [simp]: "live (freed sl) = live sl"
  by (simp add: freed_def live_def)

lemma freed_idem [simp]: "freed (freed sl) = freed sl"
  by (simp add: freed_def live_def)

lemma vacuum_slot_spec:
  assumes "wf_heap_page hp" "i < NumSlots hp" "at_slot rid i"
  shows "\<exists>hp'. vacuum_slot hp rid = Some hp' \<and>
     wf_heap_page hp' \<and> same_header hp hp' \<and> abs_page hp' = (abs_page hp)[i := freed (abs_page hp ! i)]"
proof -
  have wf: "wf_layout hp" using assms(1) by (simp add: wf_heap_page_def)
  note tests = IsDeleted_eq [OF wf assms(2,3)] IsAllocated_eq [OF wf assms(2,3)]
  have nth: "abs_page hp ! i = (allocated hp i, deleted hp i, slot_bytes hp i)" using assms(2) by simp
  show ?thesis
  proof (cases "deleted hp i \<or> \<not> allocated hp i")
    case True
    obtain h1 where h1: "MarkDeleted hp rid False = Some h1" "wf_heap_page h1" "same_header hp h1"
      "abs_page h1 = (abs_page hp)[i := (allocated hp i, False, slot_bytes hp i)]"
      using MarkDeleted_refines [OF assms, of False] by blast
    have i: "i < NumSlots h1" using assms(2) same_headerD(1) [OF h1(3)] by simp
    obtain h2 where h2: "MarkAllocated h1 rid False = Some h2" "wf_heap_page h2" "same_header h1 h2"
      "abs_page h2 = (abs_page h1)[i := (False, False, slot_bytes h1 i)]"
      using MarkAllocated_refines [OF h1(2) i assms(3), of False] by blast
    have "slot_bytes h1 i = slot_bytes hp i" using abs_page_nth [OF i] h1(4) assms(2) by simp
    then have "abs_page h2 = (abs_page hp)[i := freed (abs_page hp ! i)]"
      using h2(4) h1(4) True by (auto simp: nth freed_def live_def)
    then show ?thesis using tests True h1(1) h2 same_header_trans [OF h1(3) h2(3)] by (auto simp: vacuum_slot_def)
  next
    case False
    then have "freed (abs_page hp ! i) = abs_page hp ! i" by (simp add: nth freed_def live_def)
    then have "(abs_page hp)[i := freed (abs_page hp ! i)] = abs_page hp" by simp
    then show ?thesis using tests False assms(1) same_header_refl [of hp] by (simp add: vacuum_slot_def)
  qed
qed

lemma vacuum_loop_spec:
  assumes "wf_heap_page hp" "\<forall>i \<in> set is. i < NumSlots hp"
  shows "\<exists>hp'. vacuum_loop pid is hp = Some hp' \<and> wf_heap_page hp' \<and> same_header hp hp' \<and>
    (\<forall>j < NumSlots hp. abs_page hp' ! j = (if j \<in> set is then freed (abs_page hp ! j) else abs_page hp ! j))"
  using assms
proof (induction "is" arbitrary: hp)
  case Nil
  then show ?case by (simp add: same_header_refl)
next
  case (Cons i "is")
  let ?rid = "\<lparr>rid_PageID = pid, Slot = of_nat i\<rparr>"
  have i: "i < NumSlots hp" using Cons.prems(2) by simp
  have at: "at_slot ?rid i" using NumSlots_small [OF Cons.prems(1) i] by (simp add: at_slot_def)
  obtain h1 where h1: "vacuum_slot hp ?rid = Some h1"
     "wf_heap_page h1" "same_header hp h1" "abs_page h1 = (abs_page hp)[i := freed (abs_page hp ! i)]"
    using vacuum_slot_spec [OF Cons.prems(1) i at] by blast
  have n: "NumSlots h1 = NumSlots hp" using same_headerD(1) [OF h1(3)] .
  obtain h2 where h2: "vacuum_loop pid is h1 = Some h2" "wf_heap_page h2" "same_header h1 h2"
    "\<forall>j < NumSlots hp. abs_page h2 ! j = (if j \<in> set is then freed (abs_page h1 ! j) else abs_page h1 ! j)"
    using Cons.IH [OF h1(2)] Cons.prems(2) n by auto
  have "vacuum_loop pid (i # is) hp = Some h2" using h1(1) h2(1) by simp
  moreover have "abs_page h2 ! j = (if j \<in> set (i # is) then freed (abs_page hp ! j) else abs_page hp ! j)" if "j < NumSlots hp" for j
    using h2(4) that i h1(4) by (auto simp: nth_list_update simp del: abs_page_nth)
  ultimately show ?case using h2(2) same_header_trans [OF h1(3) h2(3)] by blast
qed

lemma vacuum_slots_spec:
  assumes "wf_page th (Bytes f)"
  shows "\<exists>b'. vacuum_slots pid f = Some (True, (), b') \<and> length b' = PageSize \<and> wf_page th b' \<and>
    abs_page (page_of b') = map freed (abs_page (page_of (Bytes f)))"
proof -
  note fp = frame_page [OF assms]
  obtain hp' where hp': "vacuum_loop pid [0..<NumSlots (AsHeapPage f)] (AsHeapPage f) = Some hp'" "wf_heap_page hp'" "same_header (AsHeapPage f) hp'"
    "\<forall>j < NumSlots (AsHeapPage f). abs_page hp' ! j = freed (abs_page (AsHeapPage f) ! j)"
    using vacuum_loop_spec [OF fp(1), of "[0..<NumSlots (AsHeapPage f)]" pid] by auto
  have ab: "abs_page hp' = map freed (abs_page (AsHeapPage f))"
    using hp'(4) same_headerD(1) [OF hp'(3)] by (intro nth_equalityI) (simp_all del: abs_page_nth)
  have b: "Bytes hp' = Bytes (page_of (Bytes hp'))" by simp
  have "wf_heap_page (page_of (Bytes hp'))" unfolding page_of_def by (rule wf_page_of [OF hp'(2)]) simp
  then have "wf_page th (Bytes hp')"
    using page_bytes_only(1,2) [OF b] same_headerD(1,2) [OF hp'(3)] fp(2,4) assms by (simp add: wf_page_def)
  moreover have "length (Bytes hp') = PageSize" using hp'(2) by (simp add: wf_heap_page_def wf_layout_def)
  ultimately show ?thesis using hp'(1) ab page_bytes_only(4) [OF b] fp(3) by (simp add: vacuum_slots_def Let_def)
qed

lemma page_row_freed: "abs_page (page_of b') = map freed (abs_page (page_of b)) \<Longrightarrow> page_row b' s = page_row b s"
  by (simp add: page_row_def Let_def del: abs_page_nth length_abs_page)

section \<open>Operations through the pool\<close>

text \<open>Between operations every frame is unpinned.\<close>

definition quiescent :: "'m BufferPool \<Rightarrow> bool" where
  "quiescent bp \<longleftrightarrow> frames bp \<noteq> [] \<and> (\<forall>f \<in> set (frames bp). pinCount f = 0)"

context buffer_pool
begin

definition pool_state :: "'m BufferPool \<Rightarrow> 'fs \<Rightarrow> bool" where
  "pool_state bp fs \<longleftrightarrow> ok fs \<and> pool_inv X (pages fs) bp \<and> quiescent bp"

lemma view_exists:
  assumes "pool_inv X (pages fs) bp"
  shows "view X (pages fs) bp pid \<noteq> None \<longleftrightarrow> pages fs pid \<noteq> None"
proof (cases "m_Load X (pageTable bp) pid")
  case (Some i)
  then have "i < length (frames bp)" "pf_pageID (frames bp ! i) = pid" "pid \<noteq> nilPageID"
    using table_okD [OF pool_invD(3) [OF assms], of pid i] by auto
  then show ?thesis using pool_invD(4) [OF assms, of i] Some by (auto simp: view_def frame_ok_def)
qed (simp add: view_def)

lemma GetPage_quiescent:
  assumes "pool_state bp fs" "pid \<noteq> nilPageID"
  shows "\<exists>r bp' fs'. GetPage (Suc n) X M pid bp fs = Some (r, bp', fs') \<and> ok fs' \<and> pool_inv X (pages fs') bp' \<and>
    length (frames bp') = length (frames bp) \<and>
    (case r of Inl e \<Rightarrow> pool_state bp' fs'
     | Inr j \<Rightarrow> j < length (frames bp') \<and> pf_pageID (frames bp' ! j) = pid \<and> pinCount (frames bp' ! j) = 1 \<and>
         view X (pages fs) bp pid = Some (Bytes (frames bp' ! j)) \<and> view X (pages fs') bp' = view X (pages fs) bp \<and>
         (isDirty (frames bp' ! j) \<or> pages fs' pid = Some (Bytes (frames bp' ! j))) \<and>
         (\<forall>i < length (frames bp'). i \<noteq> j \<longrightarrow> pinCount (frames bp' ! i) = 0))"
proof -
  have st: "ok fs" "pool_inv X (pages fs) bp" "frames bp \<noteq> []" "\<And>i. i < length (frames bp) \<Longrightarrow> pinCount (frames bp ! i) = 0"
    using assms(1) by (auto simp: pool_state_def quiescent_def)
  have "pins_bounded bp" using assms(1) by (auto simp: pins_bounded_def pool_state_def quiescent_def)
  moreover have "\<exists>f \<in> set (frames bp). pinCount f = 0" using st(3,4) by (metis length_greater_0_conv nth_mem)
  ultimately obtain r bp' fs' where g: "GetPage (Suc n) X M pid bp fs = Some (r, bp', fs')" "ok fs'" "got_page X pages pid bp fs r bp' fs'"
    using GetPage_returns [OF st(1,2) assms(2)] by blast
  have gp: "pool_inv X (pages fs') bp'" "length (frames bp') = length (frames bp)"
    "\<forall>j < length (frames bp). r \<noteq> Inr j \<longrightarrow> pinCount (frames bp' ! j) = pinCount (frames bp ! j)"
    using g(3) unfolding got_page_def by blast+
  show ?thesis
  proof (cases r)
    case (Inl e)
    then have "\<forall>f \<in> set (frames bp'). pinCount f = 0" using gp(2,3) st(4) by (auto simp: in_set_conv_nth)
    moreover have "frames bp' \<noteq> []" using gp(2) st(3) by (metis length_0_conv)
    ultimately have "pool_state bp' fs'" using g(2) gp(1) by (simp add: pool_state_def quiescent_def)
    then show ?thesis using g(1,2) gp(1,2) Inl by simp
  next
    case (Inr j)
    have "j < length (frames bp) \<and> pf_pageID (frames bp' ! j) = pid \<and> view X (pages fs) bp pid = Some (Bytes (frames bp' ! j)) \<and>
        pinCount (frames bp' ! j) = (if pf_pageID (frames bp ! j) = pid then pinCount (frames bp ! j) + 1 else 1) \<and>
        (pinCount (frames bp' ! j) = 1 \<longrightarrow> isDirty (frames bp' ! j) \<or> pages fs' pid = Some (Bytes (frames bp' ! j))) \<and>
        view X (pages fs') bp' = view X (pages fs) bp"
      using g(3) Inr unfolding got_page_def by blast
    then show ?thesis using g(1,2) gp Inr st(4) by simp
  qed
qed

lemma on_page_spec:
  assumes st: "pool_state bp fs" and pid: "pid \<noteq> nilPageID"
    and work: "\<And>f. view X (pages fs) bp pid = Some (Bytes f) \<Longrightarrow>
      \<exists>d res b'. work f = Some (d, res, b') \<and> length b' = PageSize \<and> (\<not> d \<longrightarrow> b' = Bytes f) \<and> P (Bytes f) res b'"
  shows "\<exists>r bp' fs'. on_page (Suc n) X M pid work bp fs = Some (r, bp', fs') \<and> pool_state bp' fs' \<and>
    (\<forall>res. r = Inr res \<longrightarrow> (\<exists>b b'. view X (pages fs) bp pid = Some b \<and> P b res b' \<and> view X (pages fs') bp' = (view X (pages fs) bp)(pid \<mapsto> b')))"
proof -
  obtain r bp1 fs1 where g: "GetPage (Suc n) X M pid bp fs = Some (r, bp1, fs1)" "ok fs1" "pool_inv X (pages fs1) bp1"
    "length (frames bp1) = length (frames bp)"
    "case r of Inl e \<Rightarrow> pool_state bp1 fs1
     | Inr j \<Rightarrow> j < length (frames bp1) \<and> pf_pageID (frames bp1 ! j) = pid \<and> pinCount (frames bp1 ! j) = 1 \<and>
         view X (pages fs) bp pid = Some (Bytes (frames bp1 ! j)) \<and> view X (pages fs1) bp1 = view X (pages fs) bp \<and>
         (isDirty (frames bp1 ! j) \<or> pages fs1 pid = Some (Bytes (frames bp1 ! j))) \<and>
         (\<forall>i < length (frames bp1). i \<noteq> j \<longrightarrow> pinCount (frames bp1 ! i) = 0)"
    using GetPage_quiescent [OF st pid, of n] by blast
  show ?thesis
  proof (cases r)
    case (Inl e)
    then show ?thesis using g(1,5) by (simp add: on_page_def del: GetPage.simps)
  next
    case (Inr j)
    let ?f = "frames bp1 ! j"
    have j: "j < length (frames bp1)" "pf_pageID ?f = pid" "pinCount ?f = 1" "view X (pages fs) bp pid = Some (Bytes ?f)"
      "view X (pages fs1) bp1 = view X (pages fs) bp" "isDirty ?f \<or> pages fs1 pid = Some (Bytes ?f)"
      "\<forall>i < length (frames bp1). i \<noteq> j \<longrightarrow> pinCount (frames bp1 ! i) = 0"
      using g(5) Inr by simp_all
    obtain d res b' where w: "work ?f = Some (d, res, b')" "length b' = PageSize" "\<not> d \<longrightarrow> b' = Bytes ?f" "P (Bytes ?f) res b'"
      using work [OF j(4)] by blast
    let ?w = "client_write j b' bp1"
    have pin: "pinCount ?f \<noteq> 0" using j(3) by simp
    note cw = client_write_spec [OF g(3) j(1) pin w(2)]
    have wf: "frames ?w = (frames bp1)[j := ?f\<lparr>Bytes := b'\<rparr>]" by (simp add: client_write_def)
    have cond: "d \<or> isDirty (frames ?w ! j) \<or> pages fs1 (pf_pageID (frames ?w ! j)) = Some (Bytes (frames ?w ! j)) \<or> pinCount (frames ?w ! j) \<notin> {0, 1}"
      using w(3) j(1,2,6) by (auto simp: wf)
    have bounds: "j < length (frames ?w)" "pf_pageID (frames ?w ! j) \<noteq> nilPageID" using j(1,2) pid by (simp_all add: wf)
    obtain bp2 f2 where u: "UnpinPage j d ?w = Some bp2" "pool_inv X (pages fs1) bp2" "view X (pages fs1) bp2 = view X (pages fs1) ?w"
      "frames bp2 = (frames ?w)[j := f2]" "pinCount f2 = 0"
      using UnpinPage_spec [OF cw(1) bounds cond] j(1,3) by (auto simp: wf)
    have "\<forall>f \<in> set (frames bp2). pinCount f = 0"
      using u(4,5) j(1,7) by (auto simp: wf in_set_conv_nth nth_list_update)
    moreover have "frames bp2 \<noteq> []" using u(4) j(1) by (auto simp: wf)
    ultimately have "pool_state bp2 fs1" using g(2) u(2) by (simp add: pool_state_def quiescent_def)
    moreover have "on_page (Suc n) X M pid work bp fs = Some (Inr res, bp2, fs1)"
      using g(1) Inr j(1) w(1) u(1) by (simp add: on_page_def del: GetPage.simps)
    moreover have "view X (pages fs1) bp2 = (view X (pages fs) bp)(pid \<mapsto> b')" using u(3) cw(2) j(2,5) by simp
    ultimately show ?thesis using w(4) j(4) by blast
  qed
qed

text \<open>The state of a heap file: all its pages are heap pages of its row size.\<close>

definition heap_state :: "TableHeap \<Rightarrow> 'm BufferPool \<Rightarrow> 'fs \<Rightarrow> bool" where
  "heap_state th bp fs \<longleftrightarrow> pool_state bp fs \<and> wf_desc (th_desc th) \<and> th_oid th \<noteq> 0 \<and>
     (\<forall>n b. view X (pages fs) bp (pid_of (th_oid th) n) = Some b \<longrightarrow> wf_page th b)"

abbreviation rows_of :: "TableHeap \<Rightarrow> 'm BufferPool \<Rightarrow> 'fs \<Rightarrow> RecordID \<Rightarrow> bytes option" where
  "rows_of th bp fs \<equiv> heap_rows th (view X (pages fs) bp)"

lemma heap_page_wf:
  assumes "heap_state th bp fs" "view X (pages fs) bp pid = Some b" "Oid pid = th_oid th"
  shows "wf_page th b"
proof -
  have "pid = pid_of (th_oid th) (PageNum pid)" using assms(3) by simp
  then show ?thesis using assms(1,2) unfolding heap_state_def by metis
qed

lemma heap_state_update:
  assumes "heap_state th bp fs" "pool_state bp' fs'" "view X (pages fs') bp' = (view X (pages fs) bp)(pid \<mapsto> b')" "wf_page th b'"
  shows "heap_state th bp' fs'"
  using assms by (auto simp: heap_state_def)

lemma oid_not_nil: "heap_state th bp fs \<Longrightarrow> Oid pid = th_oid th \<Longrightarrow> pid \<noteq> nilPageID"
  by (auto simp: heap_state_def nilPageID_def)

lemma on_slot_spec:
  assumes "heap_state th bp fs" "valid_rid th rid"
    and work: "\<And>f k. wf_page th (Bytes f) \<Longrightarrow> k < NumSlots (page_of (Bytes f)) \<Longrightarrow> at_slot rid k \<Longrightarrow>
      \<exists>d res b'. work f = Some (d, res, b') \<and> length b' = PageSize \<and> (\<not> d \<longrightarrow> b' = Bytes f) \<and> wf_page th b' \<and>
        (if page_row (Bytes f) (Slot rid) = None then res = Inl ErrTupleDeleted \<and> b' = Bytes f
         else \<exists>sl. res = good (page_row (Bytes f) (Slot rid)) \<and> live sl = new (page_row (Bytes f) (Slot rid)) \<and> (b' = Bytes f \<and> live sl = page_row (Bytes f) (Slot rid) \<or> slot_set (Bytes f) k sl b'))"
  shows "\<exists>r bp' fs'. on_page (Suc n) X M (rid_PageID rid) work bp fs = Some (r, bp', fs') \<and> pool_state bp' fs' \<and>
    (\<forall>res. r = Inr res \<longrightarrow> heap_state th bp' fs' \<and>
       (if rows_of th bp fs rid = None then res = Inl ErrTupleDeleted \<and> rows_of th bp' fs' = rows_of th bp fs
        else res = good (rows_of th bp fs rid) \<and> rows_of th bp' fs' = (rows_of th bp fs)(rid := new (rows_of th bp fs rid))))"
proof -
  let ?pid = "rid_PageID rid" and ?v = "view X (pages fs) bp"
  have oid: "Oid ?pid = th_oid th" using assms(2) by (simp add: valid_rid_def)
  define P where "P b res b' \<longleftrightarrow> wf_page th b' \<and> (\<exists>k < NumSlots (page_of b). at_slot rid k \<and>
      (if page_row b (Slot rid) = None then res = Inl ErrTupleDeleted \<and> b' = b
       else \<exists>sl. res = good (page_row b (Slot rid)) \<and> live sl = new (page_row b (Slot rid)) \<and> (b' = b \<and> live sl = page_row b (Slot rid) \<or> slot_set b k sl b')))" for b res b'
  have w: "\<exists>d res b'. work f = Some (d, res, b') \<and> length b' = PageSize \<and> (\<not> d \<longrightarrow> b' = Bytes f) \<and> P (Bytes f) res b'"
    if f: "?v ?pid = Some (Bytes f)" for f
  proof -
    obtain k where k: "k < NumSlots (page_of (Bytes f))" "at_slot rid k"
      using assms(2) heap_page_wf [OF assms(1) f oid] by (auto simp: valid_rid_def wf_page_def at_slot_def)
    show ?thesis using work [OF heap_page_wf [OF assms(1) f oid] k] k unfolding P_def by blast
  qed
  have st: "pool_state bp fs" using assms(1) by (simp add: heap_state_def)
  obtain r bp' fs' where
    o: "on_page (Suc n) X M ?pid work bp fs = Some (r, bp', fs')" "pool_state bp' fs'"
    "\<And>res. r = Inr res \<Longrightarrow> (\<exists>b b'. ?v ?pid = Some b \<and> P b res b' \<and> view X (pages fs') bp' = ?v(?pid \<mapsto> b'))"
    using on_page_spec [where P = P, OF st oid_not_nil [OF assms(1) oid] w, where n = n] by blast
  have "heap_state th bp' fs' \<and>
       (if rows_of th bp fs rid = None then res = Inl ErrTupleDeleted \<and> rows_of th bp' fs' = rows_of th bp fs
        else res = good (rows_of th bp fs rid) \<and> rows_of th bp' fs' = (rows_of th bp fs)(rid := new (rows_of th bp fs rid)))" if r: "r = Inr res" for res
  proof -
    obtain b b' where b: "?v ?pid = Some b" "P b res b'" "view X (pages fs') bp' = ?v(?pid \<mapsto> b')" using o(3) [OF r] by blast
    have row: "rows_of th bp fs rid = page_row b (Slot rid)" using b(1) oid by (simp add: heap_rows_def)
    have hs: "heap_state th bp' fs'" using heap_state_update [OF assms(1) o(2) b(3)] b(2) unfolding P_def by blast
    have same: "rows_of th bp' fs' = rows_of th bp fs" if "b' = b" using that b(1,3) by (simp add: fun_upd_idem)
    show ?thesis
    proof (cases "page_row b (Slot rid) = None")
      case True
      then show ?thesis using hs row b(2) same by (auto simp: P_def)
    next
      case False
      then obtain k sl where k: "k < NumSlots (page_of b)" "at_slot rid k" "res = good (page_row b (Slot rid))" "live sl = new (page_row b (Slot rid))"
        "b' = b \<and> live sl = page_row b (Slot rid) \<or> slot_set b k sl b'" using b(2) by (auto simp: P_def)
      from k(5) have "rows_of th bp' fs' = (rows_of th bp fs)(rid := new (rows_of th bp fs rid))"
      proof
        assume "b' = b \<and> live sl = page_row b (Slot rid)"
        then show ?thesis using same k(4) row by (simp add: fun_upd_idem)
      next
        assume "slot_set b k sl b'"
        then show ?thesis using heap_rows_update [where rid = rid and v = "?v" and pid = "?pid", OF b(1) _ refl k(2,1) oid, of sl b'] b(3) k(4) row by simp
      qed
      then show ?thesis using hs row False k(3) by auto
    qed
  qed
  then show ?thesis using o(1,2) by blast
qed

text \<open>Delete, read and update of an addressed slot.\<close>

definition heap_contract :: "TableHeap \<Rightarrow> RecordID \<Rightarrow> (bytes option \<Rightarrow> 'a) \<Rightarrow> (bytes option \<Rightarrow> bytes option) \<Rightarrow>
    'm BufferPool \<Rightarrow> 'fs \<Rightarrow> ((heap_error + 'a) \<times> 'm BufferPool \<times> 'fs) option \<Rightarrow> bool" where
  "heap_contract th rid good new bp fs out \<longleftrightarrow> (\<exists>r bp' fs'. out = Some (r, bp', fs') \<and> pool_state bp' fs' \<and>
     ((\<exists>e. r = Inl (ErrIO e)) \<or> heap_state th bp' fs' \<and>
       (if rows_of th bp fs rid = None then r = Inl ErrTupleDeleted \<and> rows_of th bp' fs' = rows_of th bp fs
        else r = Inr (good (rows_of th bp fs rid)) \<and> rows_of th bp' fs' = (rows_of th bp fs)(rid := new (rows_of th bp fs rid)))))"

lemma slot_op_contract:
  assumes "\<exists>r bp' fs'. on_page (Suc n) X M (rid_PageID rid) work bp fs = Some (r, bp', fs') \<and> pool_state bp' fs' \<and>
    (\<forall>res. r = Inr res \<longrightarrow> heap_state th bp' fs' \<and>
       (if rows_of th bp fs rid = None then res = Inl ErrTupleDeleted \<and> rows_of th bp' fs' = rows_of th bp fs
        else res = Inr (good (rows_of th bp fs rid)) \<and> rows_of th bp' fs' = (rows_of th bp fs)(rid := new (rows_of th bp fs rid))))"
  shows "heap_contract th rid good new bp fs
    (do { (r, bp, fs) \<leftarrow> on_page (Suc n) X M (rid_PageID rid) work bp fs; Some (flatten_err r, bp, fs) })"
proof -
  obtain r bp' fs' where o: "on_page (Suc n) X M (rid_PageID rid) work bp fs = Some (r, bp', fs')" "pool_state bp' fs'"
    "\<forall>res. r = Inr res \<longrightarrow> heap_state th bp' fs' \<and>
       (if rows_of th bp fs rid = None then res = Inl ErrTupleDeleted \<and> rows_of th bp' fs' = rows_of th bp fs
        else res = Inr (good (rows_of th bp fs rid)) \<and> rows_of th bp' fs' = (rows_of th bp fs)(rid := new (rows_of th bp fs rid)))"
    using assms by blast
  show ?thesis using o by (cases r) (auto simp: heap_contract_def flatten_err_def)
qed

lemma DeleteTuple_spec:
  assumes "heap_state th bp fs" "valid_rid th rid"
  shows "heap_contract th rid (\<lambda>_. ()) (\<lambda>_. None) bp fs (DeleteTuple (Suc n) X M rid bp fs)"
  unfolding DeleteTuple_def
proof (rule slot_op_contract, rule on_slot_spec [OF assms, where good = "\<lambda>_. Inr ()"])
  fix f :: PageFrame and k assume a: "wf_page th (Bytes f)" "k < NumSlots (page_of (Bytes f))" "at_slot rid k"
  show "\<exists>d res b'. delete_slot rid f = Some (d, res, b') \<and> length b' = PageSize \<and> (\<not> d \<longrightarrow> b' = Bytes f) \<and> wf_page th b' \<and>
        (if page_row (Bytes f) (Slot rid) = None then res = Inl ErrTupleDeleted \<and> b' = Bytes f
         else \<exists>sl. res = Inr () \<and> live sl = None \<and> (b' = Bytes f \<and> live sl = page_row (Bytes f) (Slot rid) \<or> slot_set (Bytes f) k sl b'))"
    using delete_slot_spec [OF a] by (cases "page_row (Bytes f) (Slot rid)") (fastforce simp del: split_paired_Ex)+
qed

lemma ReadTuple_spec:
  assumes "heap_state th bp fs" "valid_rid th rid" "length buffer = d_bytesPerRow (th_desc th)"
  shows "heap_contract th rid the id bp fs (ReadTuple (Suc n) X M rid buffer bp fs)"
  unfolding ReadTuple_def
proof (rule slot_op_contract, rule on_slot_spec [OF assms(1,2), where good = "\<lambda>x. Inr (the x)"])
  fix f :: PageFrame and k assume a: "wf_page th (Bytes f)" "k < NumSlots (page_of (Bytes f))" "at_slot rid k"
  have "length (Bytes f) = PageSize" using frame_page(1) [OF a(1)] by (simp add: wf_heap_page_def wf_layout_def)
  moreover have "live (True, False, r) = Some r" for r by (simp add: live_def)
  ultimately show "\<exists>d res b'. read_slot rid buffer f = Some (d, res, b') \<and> length b' = PageSize \<and> (\<not> d \<longrightarrow> b' = Bytes f) \<and> wf_page th b' \<and>
        (if page_row (Bytes f) (Slot rid) = None then res = Inl ErrTupleDeleted \<and> b' = Bytes f
         else \<exists>sl. res = Inr (the (page_row (Bytes f) (Slot rid))) \<and> live sl = id (page_row (Bytes f) (Slot rid)) \<and>
           (b' = Bytes f \<and> live sl = page_row (Bytes f) (Slot rid) \<or> slot_set (Bytes f) k sl b'))"
    using read_slot_spec [OF a assms(3)] a(1) by (cases "page_row (Bytes f) (Slot rid)") (fastforce simp del: split_paired_Ex)+
qed

lemma UpdateTuple_spec:
  assumes "heap_state th bp fs" "valid_rid th rid" "length row = d_bytesPerRow (th_desc th)"
  shows "heap_contract th rid (\<lambda>_. ()) (\<lambda>_. Some row) bp fs (UpdateTuple (Suc n) X M rid row bp fs)"
  unfolding UpdateTuple_def
proof (rule slot_op_contract, rule on_slot_spec [OF assms(1,2), where good = "\<lambda>_. Inr ()"])
  fix f :: PageFrame and k assume a: "wf_page th (Bytes f)" "k < NumSlots (page_of (Bytes f))" "at_slot rid k"
  show "\<exists>d res b'. update_slot rid row f = Some (d, res, b') \<and> length b' = PageSize \<and> (\<not> d \<longrightarrow> b' = Bytes f) \<and> wf_page th b' \<and>
        (if page_row (Bytes f) (Slot rid) = None then res = Inl ErrTupleDeleted \<and> b' = Bytes f
         else \<exists>sl. res = Inr () \<and> live sl = Some row \<and> (b' = Bytes f \<and> live sl = page_row (Bytes f) (Slot rid) \<or> slot_set (Bytes f) k sl b'))"
    using update_slot_spec [OF a assms(3)] by (cases "page_row (Bytes f) (Slot rid)") (fastforce simp del: split_paired_Ex)+
qed

text \<open>A page added at the end of a file is seen by the pool as a page of zeros.\<close>

lemma allocate_view:
  assumes "pool_state bp fs" "oid \<noteq> 0" "fm_AllocatePage M oid 1 fs = Some (Inr np, fs')"
  shows "pool_state bp fs'" "view X (pages fs) bp (pid_of oid np) = None"
    "view X (pages fs') bp = (view X (pages fs) bp)(pid_of oid np \<mapsto> replicate PageSize 0)"
proof -
  have st: "ok fs" "pool_inv X (pages fs) bp" "quiescent bp" using assms(1) by (simp_all add: pool_state_def)
  have al: "ok fs'" "fm_NumPages M oid fs = Inr np"
    "\<forall>pid. pages fs' pid = (if Oid pid = oid \<and> sint np \<le> sint (PageNum pid) \<and> sint (PageNum pid) < sint np + sint (1::int32)
       then Some (replicate PageSize 0) else pages fs pid)"
    using allocate_page [OF st(1) assms(3)] by auto
  have one: "sint (1::int32) = 1" by simp
  have here: "Oid pid = oid \<and> sint np \<le> sint (PageNum pid) \<and> sint (PageNum pid) < sint np + 1 \<longleftrightarrow> pid = pid_of oid np" for pid
  proof -
    have "sint np \<le> sint (PageNum pid) \<and> sint (PageNum pid) < sint np + 1 \<longleftrightarrow> sint (PageNum pid) = sint np" by linarith
    also have "\<dots> \<longleftrightarrow> PageNum pid = np" by (auto intro: signed_word_eqI)
    finally show ?thesis by (cases pid) auto
  qed
  have pg: "pages fs' = (pages fs)(pid_of oid np \<mapsto> replicate PageSize 0)" using al(3) one here by (auto simp: fun_eq_iff)
  have new: "pages fs (pid_of oid np) = None" using num_pages [OF st(1) al(2), of np] by auto
  show v: "view X (pages fs) bp (pid_of oid np) = None" using view_exists [OF st(2), of "pid_of oid np"] new by auto
  then have nl: "m_Load X (pageTable bp) (pid_of oid np) = None" by (auto simp: view_def split: option.splits)
  then show "view X (pages fs') bp = (view X (pages fs) bp)(pid_of oid np \<mapsto> replicate PageSize 0)"
    by (auto simp: view_def pg fun_eq_iff split: option.splits)
  have "pf_pageID f \<noteq> pid_of oid np" if "f \<in> set (frames bp)" for f
    using that st(2) new assms(2) by (auto simp: pool_inv_def frame_ok_def nilPageID_def split: if_splits)
  moreover have "pid_of oid np \<noteq> nilPageID" using assms(2) by (auto simp: nilPageID_def)
  ultimately have "pool_inv X (pages fs') bp" using st(2) by (auto simp: pool_inv_def frame_ok_def pg)
  then show "pool_state bp fs'" using al(1) st(3) by (simp add: pool_state_def)
qed

lemma insert_last_step:
  assumes "heap_state th bp fs" "Oid pid = th_oid th" "length row = d_bytesPerRow (th_desc th)"
  shows "\<exists>r bp' fs'. on_page (Suc n) X M pid (insert_last pid row) bp fs = Some (r, bp', fs') \<and> pool_state bp' fs' \<and>
    (\<forall>res. r = Inr res \<longrightarrow> heap_state th bp' fs' \<and>
       (case res of None \<Rightarrow> rows_of th bp' fs' = rows_of th bp fs
        | Some rid \<Rightarrow> valid_rid th rid \<and> rows_of th bp fs rid = None \<and> rows_of th bp' fs' = (rows_of th bp fs)(rid \<mapsto> row)))"
proof -
  define P where "P b res b' \<longleftrightarrow> wf_page th b' \<and> (case res of None \<Rightarrow> b' = b
     | Some rid \<Rightarrow> \<exists>k < NumSlots (page_of b). rid_PageID rid = pid \<and> at_slot rid k \<and> \<not> fst (abs_page (page_of b) ! k) \<and>
         slot_set b k (True, False, row) b')" for b res b'
  let ?v = "view X (pages fs) bp"
  have st: "pool_state bp fs" using assms(1) by (simp add: heap_state_def)
  have w: "\<exists>d res b'. insert_last pid row f = Some (d, res, b') \<and> length b' = PageSize \<and> (\<not> d \<longrightarrow> b' = Bytes f) \<and> P (Bytes f) res b'"
    if f: "?v pid = Some (Bytes f)" for f
    using insert_last_spec [OF heap_page_wf [OF assms(1) f assms(2)] assms(3), of pid] unfolding P_def by blast
  obtain r bp' fs' where
    o: "on_page (Suc n) X M pid (insert_last pid row) bp fs = Some (r, bp', fs')" "pool_state bp' fs'"
    "\<And>res. r = Inr res \<Longrightarrow> (\<exists>b b'. ?v pid = Some b \<and> P b res b' \<and> view X (pages fs') bp' = ?v(pid \<mapsto> b'))"
    using on_page_spec [where P = P, OF st oid_not_nil [OF assms(1,2)] w, where n = n] by blast
  have "heap_state th bp' fs' \<and>
       (case res of None \<Rightarrow> rows_of th bp' fs' = rows_of th bp fs
        | Some rid \<Rightarrow> valid_rid th rid \<and> rows_of th bp fs rid = None \<and> rows_of th bp' fs' = (rows_of th bp fs)(rid \<mapsto> row))"
    if r: "r = Inr res" for res
  proof -
    obtain b b' where b: "?v pid = Some b" "P b res b'" "view X (pages fs') bp' = ?v(pid \<mapsto> b')" using o(3) [OF r] by blast
    have hs: "heap_state th bp' fs'" using heap_state_update [OF assms(1) o(2) b(3)] b(2) unfolding P_def by blast
    show ?thesis
    proof (cases res)
      case None
      then show ?thesis using hs b by (simp add: P_def fun_upd_idem)
    next
      case (Some rid)
      then obtain k where k: "k < NumSlots (page_of b)" "rid_PageID rid = pid" "at_slot rid k" "\<not> fst (abs_page (page_of b) ! k)"
        "slot_set b k (True, False, row) b'" using b(2) by (auto simp: P_def)
      have "rows_of th bp' fs' = (rows_of th bp fs)(rid \<mapsto> row)"
        using heap_rows_update [where v = "?v" and pid = pid, OF b(1) k(5,2,3,1) assms(2)] b(3) by (simp add: live_def)
      moreover have "rows_of th bp fs rid = None"
        using b(1) k(2,4) page_row_slot [OF k(3,1)] by (simp add: heap_rows_def live_def)
      moreover have "valid_rid th rid" using k(1-3) heap_page_wf [OF assms(1) b(1) assms(2)] assms(2) by (auto simp: valid_rid_def wf_page_def at_slot_def)
      ultimately show ?thesis using hs Some by simp
    qed
  qed
  then show ?thesis using o(1,2) by blast
qed

lemma insert_new_step:
  assumes "heap_state th bp fs" "fm_AllocatePage M (th_oid th) 1 fs = Some (Inr np, fs1)" "length row = d_bytesPerRow (th_desc th)"
  shows "\<exists>r bp' fs'. on_page (Suc n) X M (pid_of (th_oid th) np) (insert_new (th_desc th) (pid_of (th_oid th) np) row) bp fs1 = Some (r, bp', fs') \<and>
    pool_state bp' fs' \<and>
    (\<forall>rid. r = Inr rid \<longrightarrow> heap_state th bp' fs' \<and> valid_rid th rid \<and> rows_of th bp fs rid = None \<and> rows_of th bp' fs' = (rows_of th bp fs)(rid \<mapsto> row))"
proof -
  let ?pid = "pid_of (th_oid th) np" and ?v = "view X (pages fs) bp" and ?v1 = "view X (pages fs1) bp"
  define P where "P b rid b' \<longleftrightarrow> rid = \<lparr>rid_PageID = ?pid, Slot = 0\<rparr> \<and> wf_page th b' \<and> (\<forall>s. page_row b' s = (if s = 0 then Some row else None))" for b :: bytes and rid b'
  have hs: "pool_state bp fs" "wf_desc (th_desc th)" "th_oid th \<noteq> 0" using assms(1) by (simp_all add: heap_state_def)
  note al = allocate_view [OF hs(1,3) assms(2)]
  have nil: "?pid \<noteq> nilPageID" using hs(3) by (auto simp: nilPageID_def)
  have w: "\<exists>d res b'. insert_new (th_desc th) ?pid row f = Some (d, res, b') \<and> length b' = PageSize \<and> (\<not> d \<longrightarrow> b' = Bytes f) \<and> P (Bytes f) res b'"
    if f: "?v1 ?pid = Some (Bytes f)" for f
  proof -
    have "replicate PageSize 0 = Bytes f" using f al(3) by (simp only: fun_upd_same option.inject)
    then have "length (Bytes f) = PageSize" by (metis length_replicate)
    from insert_new_spec [OF this hs(2) assms(3), of ?pid] show ?thesis unfolding P_def by blast
  qed
  obtain r bp' fs' where
    o: "on_page (Suc n) X M ?pid (insert_new (th_desc th) ?pid row) bp fs1 = Some (r, bp', fs')" "pool_state bp' fs'"
    "\<And>res. r = Inr res \<Longrightarrow> (\<exists>b b'. ?v1 ?pid = Some b \<and> P b res b' \<and> view X (pages fs') bp' = ?v1(?pid \<mapsto> b'))"
    using on_page_spec [where P = P, OF al(1) nil w, where n = n] by blast
  have "heap_state th bp' fs' \<and> valid_rid th rid \<and> rows_of th bp fs rid = None \<and> rows_of th bp' fs' = (rows_of th bp fs)(rid \<mapsto> row)"
    if r: "r = Inr rid" for rid
  proof -
    obtain b' where b: "rid = \<lparr>rid_PageID = ?pid, Slot = 0\<rparr>" "wf_page th b'" "\<And>s. page_row b' s = (if s = 0 then Some row else None)"
      "view X (pages fs') bp' = ?v(?pid \<mapsto> b')" using o(3) [OF r] al(3) unfolding P_def by auto
    have none: "rows_of th bp fs rid = None" using al(2) b(1) by (simp add: heap_rows_def)
    have "rows_of th bp' fs' = (rows_of th bp fs)(rid \<mapsto> row)"
    proof
      fix q
      show "rows_of th bp' fs' q = ((rows_of th bp fs)(rid \<mapsto> row)) q"
        using al(2) b by (cases q) (auto simp: heap_rows_def)
    qed
    moreover have "page_row b' 0 = Some row" using b(3) by simp
    then have "0 < NumSlots (page_of b')" by (simp add: page_row_def Let_def length_greater_0_conv [symmetric] del: length_greater_0_conv split: if_splits)
    then have "valid_rid th rid" using b(1,2) by (auto simp: valid_rid_def wf_page_def)
    ultimately show ?thesis using none heap_state_update [OF assms(1) o(2) b(4,2)] by simp
  qed
  then show ?thesis using o(1,2) by blast
qed

lemma InsertTuple_spec:
  assumes "heap_state th bp fs" "length row = d_bytesPerRow (th_desc th)"
  shows "\<exists>r bp' fs'. InsertTuple (Suc n) X M th row bp fs = Some (r, bp', fs') \<and> pool_state bp' fs' \<and>
    (\<forall>rid. r = Inr rid \<longrightarrow> heap_state th bp' fs' \<and> valid_rid th rid \<and> rows_of th bp fs rid = None \<and>
       rows_of th bp' fs' = (rows_of th bp fs)(rid \<mapsto> row))"
proof -
  have st: "ok fs" "pool_state bp fs" using assms(1) by (simp_all add: heap_state_def pool_state_def)
  obtain rg fs1 where g: "fm_GetDBFile M (th_oid th) fs = (rg, fs1)" by fastforce
  note gf = get_file [OF st(1) g]
  have st1: "heap_state th bp fs1" "pool_state bp fs1" using assms(1) gf by (simp_all add: heap_state_def pool_state_def)
  have same1: "rows_of th bp fs1 = rows_of th bp fs" using gf by simp
  show ?thesis
  proof (cases "\<exists>h np. rg = Inr h \<and> fm_NumPages M h fs1 = Inr np")
    case False
    have "\<exists>e. InsertTuple (Suc n) X M th row bp fs = Some (Inl e, bp, fs1)"
    proof (cases rg)
      case (Inr h)
      then obtain e where "fm_NumPages M h fs1 = Inl e" using False by (cases "fm_NumPages M h fs1") auto
      then show ?thesis using Inr by (simp add: InsertTuple_def g)
    qed (simp add: InsertTuple_def g)
    then show ?thesis using st1(2) by blast
  next
    case True
    then obtain np where np: "rg = Inr (th_oid th)" "fm_NumPages M (th_oid th) fs1 = Inr np" using gf by blast
    let ?pid = "pid_of (th_oid th) (np - 1)"
    define Q where "Q r bp2 fs2 \<longleftrightarrow> pool_state bp2 fs2 \<and> (\<forall>res. r = Inr res \<longrightarrow> heap_state th bp2 fs2 \<and>
       (case res of None \<Rightarrow> rows_of th bp2 fs2 = rows_of th bp fs
        | Some rid \<Rightarrow> valid_rid th rid \<and> rows_of th bp fs rid = None \<and> rows_of th bp2 fs2 = (rows_of th bp fs)(rid \<mapsto> row)))" for r :: "string + RecordID option" and bp2 fs2
    have "Q (Inr None) bp fs1" using st1 same1 by (simp add: Q_def)
    moreover have "\<exists>r bp2 fs2. on_page (Suc n) X M ?pid (insert_last ?pid row) bp fs1 = Some (r, bp2, fs2) \<and> Q r bp2 fs2"
      unfolding Q_def same1 [symmetric] by (rule insert_last_step [OF st1(1) _ assms(2)]) simp
    ultimately obtain r bp2 fs2 where i: "(if sint np > 0 then on_page (Suc n) X M ?pid (insert_last ?pid row) bp fs1 else Some (Inr None, bp, fs1)) = Some (r, bp2, fs2)" "Q r bp2 fs2"
      by (cases "sint np > 0") auto
    have ins: "InsertTuple (Suc n) X M th row bp fs = (case r of
                  Inl err \<Rightarrow> Some (Inl err, bp2, fs2)
                | Inr (Some rid) \<Rightarrow> Some (Inr rid, bp2, fs2)
                | Inr None \<Rightarrow> do {
                    (ra, fs) \<leftarrow> fm_AllocatePage M (th_oid th) 1 fs2;
                    (case ra of
                       Inl err \<Rightarrow> Some (Inl err, bp2, fs)
                     | Inr newPage \<Rightarrow>
                         on_page (Suc n) X M (pid_of (th_oid th) newPage) (insert_new (th_desc th) (pid_of (th_oid th) newPage) row) bp2 fs)
                  })"
      unfolding InsertTuple_def g np(1) using np(2) i(1) by simp
    consider e where "r = Inl e" | rid where "r = Inr (Some rid)" | "r = Inr None" by (cases r) auto
    then show ?thesis
    proof cases
      case 3
      then have h2: "heap_state th bp2 fs2" "rows_of th bp2 fs2 = rows_of th bp fs" using i(2) by (simp_all add: Q_def)
      obtain ra fs3 where a: "fm_AllocatePage M (th_oid th) 1 fs2 = Some (ra, fs3)" using allocate_total [of 1 "th_oid th" fs2] by auto
      have ok2: "ok fs2" using h2(1) by (simp add: heap_state_def pool_state_def)
      show ?thesis
      proof (cases ra)
        case (Inl e)
        have "pages fs3 = pages fs2" "ok fs3" using allocate_page [OF ok2 a] Inl by auto
        then have "pool_state bp2 fs3" using h2(1) by (simp add: heap_state_def pool_state_def)
        then show ?thesis using ins 3 a Inl by simp
      next
        case (Inr m)
        then show ?thesis using ins 3 a insert_new_step [OF h2(1) _ assms(2), of m fs3 n] h2(2) by simp
      qed
    qed (use ins i(2) in \<open>simp_all add: Q_def\<close>)
  qed
qed

lemma VacuumPage_spec:
  assumes "heap_state th bp fs" "Oid pid = th_oid th"
  shows "\<exists>r bp' fs'. VacuumPage (Suc n) X M pid bp fs = Some (r, bp', fs') \<and> pool_state bp' fs' \<and>
    (r = Inr () \<longrightarrow> heap_state th bp' fs' \<and> rows_of th bp' fs' = rows_of th bp fs \<and>
       (\<exists>b b'. view X (pages fs) bp pid = Some b \<and> view X (pages fs') bp' pid = Some b' \<and>
          abs_page (page_of b') = map freed (abs_page (page_of b))))"
proof -
  let ?v = "view X (pages fs) bp"
  define P where "P b res b' \<longleftrightarrow> wf_page th b' \<and> abs_page (page_of b') = map freed (abs_page (page_of b))" for b b' and res :: unit
  have st: "pool_state bp fs" using assms(1) by (simp add: heap_state_def)
  have w: "\<exists>d res b'. vacuum_slots pid f = Some (d, res, b') \<and> length b' = PageSize \<and> (\<not> d \<longrightarrow> b' = Bytes f) \<and> P (Bytes f) res b'"
    if f: "?v pid = Some (Bytes f)" for f
    using vacuum_slots_spec [OF heap_page_wf [OF assms(1) f assms(2)], of pid] unfolding P_def by blast
  obtain r bp' fs' where
    o: "on_page (Suc n) X M pid (vacuum_slots pid) bp fs = Some (r, bp', fs')" "pool_state bp' fs'"
    "\<And>res. r = Inr res \<Longrightarrow> (\<exists>b b'. ?v pid = Some b \<and> P b res b' \<and> view X (pages fs') bp' = ?v(pid \<mapsto> b'))"
    using on_page_spec [where P = P, OF st oid_not_nil [OF assms(1,2)] w, where n = n] by blast
  have "heap_state th bp' fs' \<and> rows_of th bp' fs' = rows_of th bp fs \<and> (\<exists>b b'. ?v pid = Some b \<and> view X (pages fs') bp' pid = Some b' \<and>
          abs_page (page_of b') = map freed (abs_page (page_of b)))"
    if r: "r = Inr ()"
  proof -
    obtain b b' where b: "?v pid = Some b" "wf_page th b'" "abs_page (page_of b') = map freed (abs_page (page_of b))"
      "view X (pages fs') bp' = ?v(pid \<mapsto> b')" using o(3) [OF r] unfolding P_def by blast
    have "rows_of th bp' fs' q = rows_of th bp fs q" for q
      using b(1,4) page_row_freed [OF b(3)] by (auto simp: heap_rows_def)
    then show ?thesis using heap_state_update [OF assms(1) o(2) b(4,2)] b by auto
  qed
  then show ?thesis using o(1,2) unfolding VacuumPage_def by blast
qed

end

section \<open>Histories of a heap file\<close>

datatype heap_op = OpInsert bytes | OpDelete RecordID | OpRead RecordID | OpUpdate RecordID bytes | OpVacuum int32

datatype heap_res = RInserted RecordID | RRow bytes | RDone | RDeleted | RFailed string

fun tuple_res :: "('a \<Rightarrow> heap_res) \<Rightarrow> heap_error + 'a \<Rightarrow> heap_res" where
  "tuple_res g (Inl ErrTupleDeleted) = RDeleted"
| "tuple_res g (Inl (ErrIO e)) = RFailed e"
| "tuple_res g (Inr x) = g x"

definition io_res :: "('a \<Rightarrow> heap_res) \<Rightarrow> string + 'a \<Rightarrow> heap_res" where
  "io_res g r = (case r of Inl e \<Rightarrow> RFailed e | Inr x \<Rightarrow> g x)"

fun exec_op :: "nat \<Rightarrow> (PageID, nat, 'm) MapOf \<Rightarrow> 'fs DBFileManager \<Rightarrow> TableHeap \<Rightarrow> heap_op \<Rightarrow> 'm BufferPool \<Rightarrow> 'fs \<Rightarrow>
    (heap_res \<times> 'm BufferPool \<times> 'fs) option" where
  "exec_op n X M th (OpInsert row) bp fs = map_option (apfst (io_res RInserted)) (InsertTuple n X M th row bp fs)"
| "exec_op n X M th (OpDelete rid) bp fs = map_option (apfst (tuple_res (\<lambda>_. RDone))) (DeleteTuple n X M rid bp fs)"
| "exec_op n X M th (OpRead rid) bp fs =
     map_option (apfst (tuple_res RRow)) (ReadTuple n X M rid (replicate (d_bytesPerRow (th_desc th)) 0) bp fs)"
| "exec_op n X M th (OpUpdate rid row) bp fs = map_option (apfst (tuple_res (\<lambda>_. RDone))) (UpdateTuple n X M rid row bp fs)"
| "exec_op n X M th (OpVacuum pn) bp fs = map_option (apfst (io_res (\<lambda>_. RDone))) (VacuumPage n X M (pid_of (th_oid th) pn) bp fs)"

text \<open>A client that stops at the first error of the file system.\<close>

fun run_ops :: "nat \<Rightarrow> (PageID, nat, 'm) MapOf \<Rightarrow> 'fs DBFileManager \<Rightarrow> TableHeap \<Rightarrow> heap_op list \<Rightarrow> 'm BufferPool \<Rightarrow> 'fs \<Rightarrow>
    (heap_res list \<times> 'm BufferPool \<times> 'fs) option" where
  "run_ops n X M th [] bp fs = Some ([], bp, fs)"
| "run_ops n X M th (opn # ops) bp fs = do {
     (r, bp, fs) \<leftarrow> exec_op n X M th opn bp fs;
     (case r of
        RFailed e \<Rightarrow> Some ([RFailed e], bp, fs)
      | _ \<Rightarrow> do { (rs, bp, fs) \<leftarrow> run_ops n X M th ops bp fs; Some (r # rs, bp, fs) })
   }"

text \<open>The specification: a table is a map from record identifiers to rows. An operation and its result give the next
  map, or are not allowed; an insertion may choose any identifier that is not in use.\<close>

fun abs_op :: "(RecordID \<rightharpoonup> bytes) \<Rightarrow> heap_op \<Rightarrow> heap_res \<Rightarrow> (RecordID \<rightharpoonup> bytes) option" where
  "abs_op m (OpInsert row) (RInserted rid) = (if m rid = None then Some (m(rid \<mapsto> row)) else None)"
| "abs_op m (OpDelete rid) RDone = (if m rid \<noteq> None then Some (m(rid := None)) else None)"
| "abs_op m (OpDelete rid) RDeleted = (if m rid = None then Some m else None)"
| "abs_op m (OpRead rid) (RRow row) = (if m rid = Some row then Some m else None)"
| "abs_op m (OpRead rid) RDeleted = (if m rid = None then Some m else None)"
| "abs_op m (OpUpdate rid row) RDone = (if m rid \<noteq> None then Some (m(rid \<mapsto> row)) else None)"
| "abs_op m (OpUpdate rid row) RDeleted = (if m rid = None then Some m else None)"
| "abs_op m (OpVacuum pn) RDone = Some m"
| "abs_op m _ _ = None"

text \<open>A history that the specification allows, and the map it ends with; after an error nothing is promised.\<close>

fun allowed :: "(RecordID \<rightharpoonup> bytes) \<Rightarrow> heap_op list \<Rightarrow> heap_res list \<Rightarrow> (RecordID \<rightharpoonup> bytes) \<Rightarrow> bool" where
  "allowed m [] [] final \<longleftrightarrow> final = m"
| "allowed m (opn # ops) [RFailed e] final \<longleftrightarrow> True"
| "allowed m (opn # ops) (r # rs) final \<longleftrightarrow> (case abs_op m opn r of None \<Rightarrow> False | Some m' \<Rightarrow> allowed m' ops rs final)"
| "allowed m _ _ final \<longleftrightarrow> False"

fun valid_op :: "TableHeap \<Rightarrow> heap_op \<Rightarrow> bool" where
  "valid_op th (OpInsert row) \<longleftrightarrow> length row = d_bytesPerRow (th_desc th)"
| "valid_op th (OpDelete rid) \<longleftrightarrow> valid_rid th rid"
| "valid_op th (OpRead rid) \<longleftrightarrow> valid_rid th rid"
| "valid_op th (OpUpdate rid row) \<longleftrightarrow> valid_rid th rid \<and> length row = d_bytesPerRow (th_desc th)"
| "valid_op th (OpVacuum pn) \<longleftrightarrow> True"

context buffer_pool
begin

lemma exec_op_spec:
  assumes "heap_state th bp fs" "valid_op th opn"
  shows "\<exists>r bp' fs'. exec_op (Suc n) X M th opn bp fs = Some (r, bp', fs') \<and> pool_state bp' fs' \<and>
    ((\<exists>e. r = RFailed e) \<or> heap_state th bp' fs' \<and> abs_op (rows_of th bp fs) opn r = Some (rows_of th bp' fs'))"
proof (cases opn)
  case (OpInsert row)
  then obtain r bp' fs' where "InsertTuple (Suc n) X M th row bp fs = Some (r, bp', fs')" "pool_state bp' fs'"
    "\<forall>rid. r = Inr rid \<longrightarrow> heap_state th bp' fs' \<and> valid_rid th rid \<and> rows_of th bp fs rid = None \<and> rows_of th bp' fs' = (rows_of th bp fs)(rid \<mapsto> row)"
    using InsertTuple_spec [OF assms(1), of row n] assms(2) by auto
  then show ?thesis using OpInsert by (cases r) (auto simp: io_res_def)
next
  case (OpDelete rid)
  then show ?thesis using DeleteTuple_spec [OF assms(1), of rid n] assms(2) by (auto simp: heap_contract_def split: if_splits)
next
  case (OpRead rid)
  then show ?thesis using ReadTuple_spec [OF assms(1), of rid "replicate (d_bytesPerRow (th_desc th)) 0" n] assms(2)
    by (auto simp: heap_contract_def split: if_splits)
next
  case (OpUpdate rid row)
  then show ?thesis using UpdateTuple_spec [OF assms(1), of rid row n] assms(2) by (auto simp: heap_contract_def split: if_splits)
next
  case (OpVacuum pn)
  obtain r bp' fs' where "VacuumPage (Suc n) X M (pid_of (th_oid th) pn) bp fs = Some (r, bp', fs')" "pool_state bp' fs'"
    "r = Inr () \<longrightarrow> heap_state th bp' fs' \<and> rows_of th bp' fs' = rows_of th bp fs"
    using VacuumPage_spec [OF assms(1), of "pid_of (th_oid th) pn" n] by auto
  then show ?thesis using OpVacuum by (cases r) (auto simp: io_res_def)
qed

lemma run_ops_spec:
  assumes "heap_state th bp fs" "list_all (valid_op th) ops"
  shows "\<exists>rs bp' fs'. run_ops (Suc n) X M th ops bp fs = Some (rs, bp', fs') \<and> pool_state bp' fs' \<and>
    allowed (rows_of th bp fs) ops rs (rows_of th bp' fs')"
  using assms
proof (induction ops arbitrary: bp fs)
  case Nil
  then show ?case by (simp add: heap_state_def)
next
  case (Cons opn ops)
  obtain r bp1 fs1 where e: "exec_op (Suc n) X M th opn bp fs = Some (r, bp1, fs1)" "pool_state bp1 fs1"
    "(\<exists>e. r = RFailed e) \<or> heap_state th bp1 fs1 \<and> abs_op (rows_of th bp fs) opn r = Some (rows_of th bp1 fs1)"
    using exec_op_spec [OF Cons.prems(1), of opn n] Cons.prems(2) by auto
  show ?case
  proof (cases "\<exists>e. r = RFailed e")
    case True
    then show ?thesis using e(1,2) by auto
  next
    case False
    then have h: "heap_state th bp1 fs1" "abs_op (rows_of th bp fs) opn r = Some (rows_of th bp1 fs1)" using e(3) by auto
    obtain rs bp' fs' where r: "run_ops (Suc n) X M th ops bp1 fs1 = Some (rs, bp', fs')" "pool_state bp' fs'"
      "allowed (rows_of th bp1 fs1) ops rs (rows_of th bp' fs')" using Cons.IH [OF h(1)] Cons.prems(2) by auto
    have "run_ops (Suc n) X M th (opn # ops) bp fs = Some (r # rs, bp', fs')"
      using e(1) r(1) False by (cases r) auto
    moreover have "allowed (rows_of th bp fs) (opn # ops) (r # rs) (rows_of th bp' fs')"
      using h(2) r(3) False by (cases r; cases rs) auto
    ultimately show ?thesis using r(2) by blast
  qed
qed

end

text \<open>
  C2: a heap file over the disk implements the map of records. From a quiescent pool and a file of well-formed pages,
  every sequence of inserts, reads, updates, deletes and vacuums with rows of the table's size and identifiers of its
  slots returns (no panic, no endless wait), its results are those of the map up to the first file system error, and
  without an error the file's contents are the map the specification ends with.
\<close>

theorem TableHeap_map:
  assumes "xsync_map X" "xsync_map Y" "disk_ok Y fs" "pool_inv X (disk_pages fs) bp" "quiescent bp" "wf_desc (th_desc th)" "th_oid th \<noteq> 0"
    "\<forall>pid b. Oid pid = th_oid th \<and> view X (disk_pages fs) bp pid = Some b \<longrightarrow> wf_page th b" "list_all (valid_op th) ops"
  shows "\<exists>rs bp' fs'. run_ops (Suc n) X (disk_ops Y) th ops bp fs = Some (rs, bp', fs') \<and>
    disk_ok Y fs' \<and> pool_inv X (disk_pages fs') bp' \<and> quiescent bp' \<and>
    allowed (heap_rows th (view X (disk_pages fs) bp)) ops rs (heap_rows th (view X (disk_pages fs') bp'))"
proof -
  note bp = buffer_pool_disk [OF assms(1,2)]
  have "buffer_pool.heap_state disk_pages (disk_ok Y) X th bp fs"
    using assms(3-8) unfolding buffer_pool.heap_state_def [OF bp] buffer_pool.pool_state_def [OF bp] by force
  from buffer_pool.run_ops_spec [OF bp this assms(9)] show ?thesis unfolding buffer_pool.pool_state_def [OF bp] by blast
qed

definition sample_heap :: TableHeap where
  "sample_heap = \<lparr>th_oid = 1, th_desc = sample_desc\<rparr>"

text \<open>Two rows into a table that has no file yet, then a read of the first one's slot.\<close>

definition sample_ops :: "heap_op list" where
  "sample_ops = [OpInsert (replicate 8 1), OpInsert (replicate 8 2), OpRead \<lparr>rid_PageID = pid_of 1 0, Slot = 0\<rparr>, OpVacuum 0]"

theorem TableHeap_map_witness:
  "\<exists>rs bp' fs'. run_ops 1 fun_map (disk_ops fun_map) sample_heap sample_ops (NewBufferPool fun_map 2) sample_disk = Some (rs, bp', fs') \<and>
     allowed Map.empty sample_ops rs (heap_rows sample_heap (view fun_map (disk_pages fs') bp'))"
proof -
  have inv: "pool_inv fun_map (disk_pages sample_disk) (NewBufferPool fun_map 2)"
    "view fun_map (disk_pages sample_disk) (NewBufferPool fun_map 2) = Map.empty"
    using NewBufferPool_inv [OF xsync_fun_map, of "disk_pages sample_disk" 2] sample_disk_ok(2) by auto
  have q: "quiescent (NewBufferPool fun_map 2)"
    by (simp add: quiescent_def NewBufferPool_def new_frame_def numeral_2_eq_2)
  have d: "wf_desc (th_desc sample_heap)" by (simp add: sample_heap_def sample_desc_def wf_desc_def row_size_def)
  have "0 < slots_per_page sample_heap"
    using InitializeHeapPage_layout(7) [of zero_frame sample_desc]
    by (simp add: slots_per_page_def sample_heap_def zero_frame_def sample_desc_def BytesPerTuple_def)
  then have v: "list_all (valid_op sample_heap) sample_ops"
    by (simp add: sample_ops_def valid_rid_def) (simp add: sample_heap_def sample_desc_def)
  have "heap_rows sample_heap Map.empty = Map.empty" by (auto simp: heap_rows_def)
  moreover have "th_oid sample_heap \<noteq> 0" by (simp add: sample_heap_def)
  ultimately show ?thesis
    using TableHeap_map [OF xsync_fun_map xsync_fun_map sample_disk_ok(1) inv(1) q d _ _ v, of 0] inv(2) by auto
qed

end
