(* ===== verification/Execution_Scan.thy ===== *)
theory Execution_Scan
  imports Execution_TableHeap Execution_Operators "HOL-Library.Sublist"
begin

text \<open>
  The scan of a heap file: \<open>TableHeapIterator\<close> (\<open>execution/table_heap.go\<close>) and the sequential scan
  executor (\<open>execution/seq_scan_executor.go\<close>).

  The iterator keeps the frame of the page it is on pinned between calls of \<open>Next\<close>. The window of the heap page
  that it stores is recomputed from the bytes of that frame. The tuple it shows is a slice of the frame; the model
  reads it when \<open>Next\<close> returns, while the page is pinned. The theorems show that a scan yields exactly the rows of
  the file, in the order of pages and slots, and leaves no page pinned.
\<close>

section \<open>The iterator\<close>

record TableHeapIterator =
  it_tableHeap :: "TableHeap option"
  it_buffer :: bytes
  it_numPages :: int
  it_currentPageNum :: int
  it_currentSlot :: int
  it_currentFrame :: "nat option"
  it_err :: "string option"
  it_hasLock :: bool

definition nil_iterator :: TableHeapIterator where
  "nil_iterator = \<lparr>it_tableHeap = None, it_buffer = [], it_numPages = 0, it_currentPageNum = 0, it_currentSlot = 0,
     it_currentFrame = None, it_err = None, it_hasLock = False\<rparr>"

definition Iterator :: "'fs DBFileManager \<Rightarrow> TableHeap \<Rightarrow> bytes \<Rightarrow> 'fs \<Rightarrow> TableHeapIterator \<times> string option \<times> 'fs" where
  "Iterator M th buffer fs =
     (case fm_GetDBFile M (th_oid th) fs of
        (Inl err, fs) \<Rightarrow> (nil_iterator, Some err, fs)
      | (Inr h, fs) \<Rightarrow>
          (case fm_NumPages M h fs of
             Inl err \<Rightarrow> (nil_iterator, Some err, fs)
           | Inr numPages \<Rightarrow> (nil_iterator\<lparr>it_tableHeap := Some th, it_buffer := buffer, it_numPages := sint numPages,
               it_currentPageNum := 0, it_currentSlot := -1\<rparr>, None, fs)))"

definition Iterator_IsNil :: "TableHeapIterator \<Rightarrow> bool" where
  "Iterator_IsNil it \<longleftrightarrow> it_tableHeap it = None"

definition current_rid :: "TableHeap \<Rightarrow> TableHeapIterator \<Rightarrow> RecordID" where
  "current_rid th it = \<lparr>rid_PageID = pid_of (th_oid th) (word_of_int (it_currentPageNum it)), Slot = word_of_int (it_currentSlot it)\<rparr>"

text \<open>The pinned frame of the current page; it is fetched when there is none.\<close>

definition current_frame :: "nat \<Rightarrow> (PageID, nat, 'm) MapOf \<Rightarrow> 'fs DBFileManager \<Rightarrow> TableHeap \<Rightarrow> TableHeapIterator \<Rightarrow>
    'm BufferPool \<Rightarrow> 'fs \<Rightarrow> ((string + nat) \<times> 'm BufferPool \<times> 'fs) option" where
  "current_frame fuel X M th it bp fs =
     (case it_currentFrame it of
        Some i \<Rightarrow> Some (Inr i, bp, fs)
      | None \<Rightarrow> GetPage fuel X M (pid_of (th_oid th) (word_of_int (it_currentPageNum it))) bp fs)"

partial_function (option) iter_loop :: "nat \<Rightarrow> (PageID, nat, 'm) MapOf \<Rightarrow> 'fs DBFileManager \<Rightarrow> TableHeapIterator \<Rightarrow>
    'm BufferPool \<Rightarrow> 'fs \<Rightarrow> (bool \<times> TableHeapIterator \<times> 'm BufferPool \<times> 'fs) option" where
  "iter_loop fuel X M it bp fs =
     (let it = it\<lparr>it_currentSlot := it_currentSlot it + 1\<rparr> in
      if it_currentPageNum it \<ge> it_numPages it then Some (False, it, bp, fs)
      else do {
        th \<leftarrow> it_tableHeap it;
        (r, bp, fs) \<leftarrow> current_frame fuel X M th it bp fs;
        (case r of
           Inl err \<Rightarrow> Some (False, it\<lparr>it_err := Some err\<rparr>, bp, fs)
         | Inr i \<Rightarrow> do {
             let it = it\<lparr>it_currentFrame := Some i\<rparr>;
             frame \<leftarrow> idx (frames bp) i;
             let hp = AsHeapPage frame;
             (if it_currentSlot it \<ge> int (NumSlots hp) then do {
                bp \<leftarrow> UnpinPage i False bp;
                iter_loop fuel X M (it\<lparr>it_currentFrame := None, it_currentPageNum := it_currentPageNum it + 1, it_currentSlot := -1\<rparr>) bp fs
              } else do {
                dead \<leftarrow> slot_dead hp (current_rid th it);
                (if dead then iter_loop fuel X M it bp fs
                 else Some (True, it\<lparr>it_hasLock := True\<rparr>, bp, fs))
              })
           })
      })"

definition Iterator_Next :: "nat \<Rightarrow> (PageID, nat, 'm) MapOf \<Rightarrow> 'fs DBFileManager \<Rightarrow> TableHeapIterator \<Rightarrow>
    'm BufferPool \<Rightarrow> 'fs \<Rightarrow> (bool \<times> TableHeapIterator \<times> 'm BufferPool \<times> 'fs) option" where
  "Iterator_Next fuel X M it bp fs = iter_loop fuel X M (it\<lparr>it_hasLock := False\<rparr>) bp fs"

text \<open>The slice of the current tuple; \<open>nil\<close> is the empty slice.\<close>

definition CurrentTuple :: "TableHeapIterator \<Rightarrow> 'm BufferPool \<Rightarrow> bytes option" where
  "CurrentTuple it bp =
     (case it_currentFrame it of
        None \<Rightarrow> Some []
      | Some i \<Rightarrow> do {
          th \<leftarrow> it_tableHeap it;
          frame \<leftarrow> idx (frames bp) i;
          AccessTuple (AsHeapPage frame) (current_rid th it)
        })"

definition CurrentRID :: "TableHeapIterator \<Rightarrow> RecordID option" where
  "CurrentRID it =
     (case it_currentFrame it of
        None \<Rightarrow> Some nilRecordID
      | Some i \<Rightarrow> do { th \<leftarrow> it_tableHeap it; Some (current_rid th it) })"

definition Iterator_Close :: "TableHeapIterator \<Rightarrow> 'm BufferPool \<Rightarrow> (TableHeapIterator \<times> 'm BufferPool) option" where
  "Iterator_Close it bp =
     (let it = it\<lparr>it_hasLock := False\<rparr> in
      case it_currentFrame it of
        None \<Rightarrow> Some (it, bp)
      | Some i \<Rightarrow> do { bp \<leftarrow> UnpinPage i False bp; Some (it\<lparr>it_currentFrame := None\<rparr>, bp) })"

section \<open>Sequential scan\<close>

record ('m, 'fs) SeqScanState =
  ss_iterator :: TableHeapIterator
  ss_current :: Tuple
  ss_buffer :: bytes
  ss_pool :: "'m BufferPool"
  ss_files :: 'fs

definition NewSeqScanExecutor :: "TableHeap \<Rightarrow> 'm BufferPool \<Rightarrow> 'fs \<Rightarrow> ('m, 'fs) SeqScanState" where
  "NewSeqScanExecutor th bp fs = \<lparr>ss_iterator = nil_iterator, ss_current = EmptyTuple,
     ss_buffer = replicate (BytesPerTuple (StorageSchema th)) 0, ss_pool = bp, ss_files = fs\<rparr>"

definition SeqScan_Init :: "'fs DBFileManager \<Rightarrow> TableHeap \<Rightarrow> ('m, 'fs) SeqScanState \<Rightarrow> (string option \<times> ('m, 'fs) SeqScanState) option" where
  "SeqScan_Init M th e =
     (let (iter, err, fs) = Iterator M th (ss_buffer e) (ss_files e)
      in Some (err, e\<lparr>ss_iterator := iter, ss_files := fs\<rparr>))"

definition SeqScan_Next :: "nat \<Rightarrow> (PageID, nat, 'm) MapOf \<Rightarrow> 'fs DBFileManager \<Rightarrow> TableHeap \<Rightarrow> ('m, 'fs) SeqScanState \<Rightarrow>
    (bool \<times> ('m, 'fs) SeqScanState) option" where
  "SeqScan_Next fuel X M th e = do {
     (b, it, bp, fs) \<leftarrow> Iterator_Next fuel X M (ss_iterator e) (ss_pool e) (ss_files e);
     let e = e\<lparr>ss_iterator := it, ss_pool := bp, ss_files := fs\<rparr>;
     (if \<not> b then Some (False, e)
      else do {
        raw \<leftarrow> CurrentTuple it bp;
        rid \<leftarrow> CurrentRID it;
        Some (True, e\<lparr>ss_current := FromRawTuple raw (StorageSchema th) rid\<rparr>)
      })
   }"

definition SeqScan_Close :: "('m, 'fs) SeqScanState \<Rightarrow> (string option \<times> ('m, 'fs) SeqScanState) option" where
  "SeqScan_Close e = do {
     (it, bp) \<leftarrow> Iterator_Close (ss_iterator e) (ss_pool e);
     Some (None, e\<lparr>ss_iterator := it, ss_pool := bp\<rparr>)
   }"

definition SeqScanExecutor :: "nat \<Rightarrow> (PageID, nat, 'm) MapOf \<Rightarrow> 'fs DBFileManager \<Rightarrow> TableHeap \<Rightarrow> ('m, 'fs) SeqScanState Executor" where
  "SeqScanExecutor fuel X M th = \<lparr>ex_Init = SeqScan_Init M th, ex_Next = SeqScan_Next fuel X M th,
     ex_Current = (\<lambda>e. Some (ss_current e)), ex_Error = (\<lambda>e. it_err (ss_iterator e)), ex_Close = SeqScan_Close\<rparr>"

section \<open>The entries of a heap file\<close>

text \<open>The rows of a file with their identifiers, in the order of pages and slots, from a position on.\<close>

definition entry_rid :: "TableHeap \<Rightarrow> nat \<Rightarrow> nat \<Rightarrow> RecordID" where
  "entry_rid th q k = \<lparr>rid_PageID = pid_of (th_oid th) (of_nat q), Slot = of_nat k\<rparr>"

definition slot_entry :: "TableHeap \<Rightarrow> (PageID \<Rightarrow> bytes option) \<Rightarrow> nat \<Rightarrow> nat \<Rightarrow> (RecordID \<times> bytes) option" where
  "slot_entry th v q k = map_option (Pair (entry_rid th q k)) (heap_rows th v (entry_rid th q k))"

definition page_entries :: "TableHeap \<Rightarrow> (PageID \<Rightarrow> bytes option) \<Rightarrow> nat \<Rightarrow> nat \<Rightarrow> (RecordID \<times> bytes) list" where
  "page_entries th v q k = List.map_filter (slot_entry th v q) [k..<slots_per_page th]"

definition entries_from :: "TableHeap \<Rightarrow> (PageID \<Rightarrow> bytes option) \<Rightarrow> nat \<Rightarrow> nat \<Rightarrow> nat \<Rightarrow> (RecordID \<times> bytes) list" where
  "entries_from th v n q k = (if q < n then page_entries th v q k @ concat (map (\<lambda>p. page_entries th v p 0) [Suc q..<n]) else [])"

definition heap_entries :: "TableHeap \<Rightarrow> (PageID \<Rightarrow> bytes option) \<Rightarrow> nat \<Rightarrow> (RecordID \<times> bytes) list" where
  "heap_entries th v n = concat (map (\<lambda>q. page_entries th v q 0) [0..<n])"

lemma entries_from_start: "entries_from th v n 0 0 = heap_entries th v n"
  by (cases n) (simp_all add: entries_from_def heap_entries_def upt_conv_Cons del: upt_Suc)

lemma entries_from_end: "n \<le> q \<Longrightarrow> entries_from th v n q k = []"
  by (simp add: entries_from_def)

lemma entries_from_page:
  assumes "q < n" "slots_per_page th \<le> k"
  shows "entries_from th v n q k = entries_from th v n (Suc q) 0"
  using assms by (simp add: entries_from_def page_entries_def List.map_filter_def upt_conv_Cons del: upt_Suc)

lemma entries_from_slot:
  assumes "q < n" "k < slots_per_page th"
  shows "entries_from th v n q k = (case slot_entry th v q k of None \<Rightarrow> [] | Some x \<Rightarrow> [x]) @ entries_from th v n q (Suc k)"
  using assms by (simp add: entries_from_def page_entries_def List.map_filter_def upt_conv_Cons split: option.split del: upt_Suc)

text \<open>The entries are the map of the file, each row once.\<close>

lemma entry_rid_inj: "inj_on (\<lambda>(q, k). entry_rid th q k) ({..<2 ^ 31} \<times> {..<2 ^ 31})"
proof (rule inj_onI, clarsimp)
  have eq: "a = b" if "(of_nat a :: int32) = of_nat b" "a < 2 ^ 31" "b < 2 ^ 31" for a b :: nat
    using arg_cong [OF that(1), of unat] that(2,3) by (simp add: unat_of_nat take_bit_nat_eq_self)
  fix q k q' k' :: nat
  assume "q < 2147483648" "k < 2147483648" "q' < 2147483648" "k' < 2147483648" "entry_rid th q k = entry_rid th q' k'"
  then show "q = q' \<and> k = k'" using eq [of q q'] eq [of k k'] by (simp add: entry_rid_def)
qed

lemma slots_per_page_less: "slots_per_page th < 2 ^ 31"
  using slots_loop_spec [of 1 0 "BytesPerTuple (th_desc th)"] by (simp add: slots_per_page_def Let_def)

lemma fst_page_entries:
  "map fst (List.map_filter (slot_entry th v q) ks) = filter (\<lambda>rid. heap_rows th v rid \<noteq> None) (map (entry_rid th q) ks)"
  by (induction ks) (auto simp: List.map_filter_def slot_entry_def)

lemma fst_heap_entries:
  "map fst (heap_entries th v n) =
     filter (\<lambda>rid. heap_rows th v rid \<noteq> None) (map (\<lambda>(q, k). entry_rid th q k) (List.product [0..<n] [0..<slots_per_page th]))"
  by (induction n) (simp_all add: heap_entries_def page_entries_def fst_page_entries product_concat_map map_concat comp_def)

lemma heap_entries_distinct: "n < 2 ^ 31 \<Longrightarrow> distinct (map fst (heap_entries th v n))"
  unfolding fst_heap_entries using slots_per_page_less [of th]
  by (intro distinct_filter) (auto simp: distinct_map distinct_product intro!: inj_on_subset [OF entry_rid_inj])

lemma heap_entries_rows: "(rid, row) \<in> set (heap_entries th v n) \<Longrightarrow> heap_rows th v rid = Some row"
  by (auto simp: heap_entries_def page_entries_def List.map_filter_def slot_entry_def)

lemma map_of_heap_entries:
  assumes "\<forall>pid. Oid pid = th_oid th \<longrightarrow> v pid \<noteq> None \<longrightarrow> (\<exists>q < n. PageNum pid = of_nat q)"
    "\<forall>pid b. Oid pid = th_oid th \<longrightarrow> v pid = Some b \<longrightarrow> wf_page th b" "n < 2 ^ 31"
  shows "map_of (heap_entries th v n) = heap_rows th v"
proof
  fix rid
  have iff: "rid \<in> set (map fst (heap_entries th v n)) \<longleftrightarrow> heap_rows th v rid \<noteq> None"
  proof
    assume r: "heap_rows th v rid \<noteq> None"
    then obtain b where b: "Oid (rid_PageID rid) = th_oid th" "v (rid_PageID rid) = Some b" "page_row b (Slot rid) \<noteq> None"
      by (auto simp: heap_rows_def split: if_splits option.splits)
    obtain q where q: "q < n" "PageNum (rid_PageID rid) = of_nat q" using assms(1) b(1,2) by blast
    have "NumSlots (page_of b) = slots_per_page th" using assms(2) b(1,2) by (auto simp: wf_page_def)
    then have k: "0 \<le> sint (Slot rid)" "nat (sint (Slot rid)) < slots_per_page th"
      using b(3) by (auto simp: page_row_def Let_def split: if_splits)
    have "rid = entry_rid th q (nat (sint (Slot rid)))" using q(2) b(1) k(1) by (cases rid) (simp add: entry_rid_def)
    then show "rid \<in> set (map fst (heap_entries th v n))" unfolding fst_heap_entries using r q(1) k(2) by force
  qed (use fst_heap_entries [of th v n] in auto)
  show "map_of (heap_entries th v n) rid = heap_rows th v rid"
  proof (cases "heap_rows th v rid")
    case None
    then show ?thesis using iff by (simp add: map_of_eq_None_iff)
  next
    case (Some row)
    then have "rid \<in> set (map fst (heap_entries th v n))" using iff by simp
    then obtain row' where "(rid, row') \<in> set (heap_entries th v n)" by auto
    moreover from this have "row' = row" using heap_entries_rows Some by fastforce
    ultimately show ?thesis using map_of_is_SomeI [OF heap_entries_distinct [OF assms(3)]] Some by metis
  qed
qed

definition seq_tuple :: "TableHeap \<Rightarrow> RecordID \<times> bytes \<Rightarrow> Tuple" where
  "seq_tuple th e = FromRawTuple (snd e) (StorageSchema th) (fst e)"

text \<open>The states of an executor after it has yielded some tuples.\<close>

inductive yields :: "'s Executor \<Rightarrow> 's \<Rightarrow> Tuple list \<Rightarrow> 's \<Rightarrow> bool" for E where
  yields_none: "yields E s [] s"
| yields_more: "yields E s ts s' \<Longrightarrow> ex_Next E s' = Some (True, s'') \<Longrightarrow> ex_Current E s'' = Some t \<Longrightarrow> yields E s (ts @ [t]) s''"

section \<open>The iterator over a store of pages\<close>

text \<open>One iteration of the loop, by the frame and the slot.\<close>

lemma iter_loop_end:
  "it_numPages it \<le> it_currentPageNum it \<Longrightarrow> iter_loop fuel X M it bp fs = Some (False, it\<lparr>it_currentSlot := it_currentSlot it + 1\<rparr>, bp, fs)"
  by (subst iter_loop.simps) simp

lemma iter_loop_fetch:
  assumes "it_currentPageNum it < it_numPages it" "it_tableHeap it = Some th" "it_currentFrame it = None"
    "GetPage fuel X M (pid_of (th_oid th) (word_of_int (it_currentPageNum it))) bp fs = Some (r, bp1, fs1)"
  shows "iter_loop fuel X M it bp fs =
    (case r of Inl err \<Rightarrow> Some (False, it\<lparr>it_currentSlot := it_currentSlot it + 1, it_err := Some err\<rparr>, bp1, fs1)
     | Inr j \<Rightarrow> iter_loop fuel X M (it\<lparr>it_currentFrame := Some j\<rparr>) bp1 fs1)"
  using assms by (cases r) (simp_all add: iter_loop.simps [of fuel X M it] iter_loop.simps [of fuel X M "it\<lparr>it_currentFrame := Some _\<rparr>"] current_frame_def Let_def)

lemma iter_loop_framed:
  assumes "it_currentPageNum it < it_numPages it" "it_tableHeap it = Some th" "it_currentFrame it = Some j" "j < length (frames bp)"
  shows "iter_loop fuel X M it bp fs =
    (let it' = it\<lparr>it_currentSlot := it_currentSlot it + 1\<rparr>; hp = AsHeapPage (frames bp ! j) in
     if it_currentSlot it + 1 \<ge> int (NumSlots hp) then do {
       bp \<leftarrow> UnpinPage j False bp;
       iter_loop fuel X M (it\<lparr>it_currentFrame := None, it_currentPageNum := it_currentPageNum it + 1, it_currentSlot := -1\<rparr>) bp fs
     } else do {
       dead \<leftarrow> slot_dead hp (current_rid th it');
       (if dead then iter_loop fuel X M it' bp fs else Some (True, it'\<lparr>it_hasLock := True\<rparr>, bp, fs))
     })"
  using assms by (subst iter_loop.simps) (cases it, simp add: current_frame_def Let_def)

text \<open>The first \<open>n\<close> pages of the table exist and are heap pages.\<close>

definition scannable :: "TableHeap \<Rightarrow> (PageID \<Rightarrow> bytes option) \<Rightarrow> nat \<Rightarrow> bool" where
  "scannable th v n \<longleftrightarrow> th_oid th \<noteq> 0 \<and> n < 2 ^ 31 \<and> (\<forall>q < n. \<exists>b. v (pid_of (th_oid th) (of_nat q)) = Some b \<and> wf_page th b)"

context buffer_pool
begin

text \<open>The frame that an iterator holds is the only pinned one.\<close>

definition holds_frame :: "'m BufferPool \<Rightarrow> 'fs \<Rightarrow> PageID \<Rightarrow> nat \<Rightarrow> bool" where
  "holds_frame bp fs pid j \<longleftrightarrow> j < length (frames bp) \<and> pf_pageID (frames bp ! j) = pid \<and> pinCount (frames bp ! j) = 1 \<and>
     (isDirty (frames bp ! j) \<or> pages fs pid = Some (Bytes (frames bp ! j))) \<and>
     (\<forall>i < length (frames bp). i \<noteq> j \<longrightarrow> pinCount (frames bp ! i) = 0)"

text \<open>An iterator that will visit slot \<open>k\<close> of page \<open>q\<close> next.\<close>

definition iter_at :: "TableHeap \<Rightarrow> (PageID \<Rightarrow> bytes option) \<Rightarrow> nat \<Rightarrow> nat \<Rightarrow> nat \<Rightarrow> TableHeapIterator \<Rightarrow> 'm BufferPool \<Rightarrow> 'fs \<Rightarrow> bool" where
  "iter_at th v n q k it bp fs \<longleftrightarrow> ok fs \<and> pool_inv X (pages fs) bp \<and> view X (pages fs) bp = v \<and>
     it_tableHeap it = Some th \<and> it_numPages it = int n \<and> it_currentPageNum it = int q \<and> it_currentSlot it = int k - 1 \<and>
     it_err it = None \<and> k \<le> slots_per_page th \<and>
     (case it_currentFrame it of None \<Rightarrow> quiescent bp
      | Some j \<Rightarrow> q < n \<and> holds_frame bp fs (pid_of (th_oid th) (of_nat q)) j)"

lemma holds_frame_view:
  assumes "pool_inv X (pages fs) bp" "holds_frame bp fs pid j" "pid \<noteq> nilPageID"
  shows "view X (pages fs) bp pid = Some (Bytes (frames bp ! j))"
proof -
  have "m_Load X (pageTable bp) pid = Some j"
    using table_okD [OF pool_invD(3) [OF assms(1)], of pid j] assms(2,3) by (auto simp: holds_frame_def)
  then show ?thesis by (simp add: view_def)
qed

lemma holds_frame_unpin:
  assumes "ok fs" "pool_inv X (pages fs) bp" "holds_frame bp fs pid j" "pid \<noteq> nilPageID"
  shows "\<exists>bp'. UnpinPage j False bp = Some bp' \<and> pool_state bp' fs \<and> view X (pages fs) bp' = view X (pages fs) bp"
proof -
  have h: "j < length (frames bp)" "pf_pageID (frames bp ! j) = pid" "pinCount (frames bp ! j) = 1"
    "isDirty (frames bp ! j) \<or> pages fs pid = Some (Bytes (frames bp ! j))" "\<forall>i < length (frames bp). i \<noteq> j \<longrightarrow> pinCount (frames bp ! i) = 0"
    using assms(3) unfolding holds_frame_def by blast+
  have "pf_pageID (frames bp ! j) \<noteq> nilPageID" using h(2) assms(4) by simp
  from UnpinPage_spec [OF assms(2) h(1) this, of False] obtain bp' f where
    u: "UnpinPage j False bp = Some bp'" "pool_inv X (pages fs) bp'" "view X (pages fs) bp' = view X (pages fs) bp"
    "frames bp' = (frames bp)[j := f]" "pinCount f = 0" using h(2-4) by auto
  have "\<forall>f \<in> set (frames bp'). pinCount f = 0" using u(4,5) h(1,5) by (auto simp: in_set_conv_nth nth_list_update)
  moreover have "frames bp' \<noteq> []" using u(4) h(1) by auto
  ultimately show ?thesis using u(1-3) assms(1) by (auto simp: pool_state_def quiescent_def)
qed

lemma entry_at_slot:
  assumes "wf_page th b" "k < slots_per_page th"
  shows "k < NumSlots (page_of b)" "at_slot (entry_rid th q k) k"
  using assms NumSlots_small [of "page_of b" k] by (auto simp: wf_page_def at_slot_def entry_rid_def)

lemma current_rid_entry:
  "it_currentPageNum it = int q \<Longrightarrow> it_currentSlot it = int k \<Longrightarrow> current_rid th it = entry_rid th q k"
  by (simp add: current_rid_def entry_rid_def)

text \<open>What a call of \<open>Next\<close> does at a position of the file.\<close>

definition next_result :: "TableHeap \<Rightarrow> (PageID \<Rightarrow> bytes option) \<Rightarrow> nat \<Rightarrow> (RecordID \<times> bytes) list \<Rightarrow>
    (bool \<times> TableHeapIterator \<times> 'm BufferPool \<times> 'fs) option \<Rightarrow> bool" where
  "next_result th v n rest out \<longleftrightarrow> (\<exists>b it bp fs. out = Some (b, it, bp, fs) \<and>
     (if b then \<exists>q k rid row. iter_at th v n q k it bp fs \<and> rest = (rid, row) # entries_from th v n q k \<and>
        it_currentFrame it \<noteq> None \<and> CurrentTuple it bp = Some row \<and> CurrentRID it = Some rid
      else it_currentFrame it = None \<and> pool_state bp fs \<and>
        (it_err it = None \<longrightarrow> rest = [] \<and> view X (pages fs) bp = v)))"

lemma iter_loop_yield:
  assumes "scannable th v n" "iter_at th v n q k it bp fs" "it_currentFrame it = Some j" "k < slots_per_page th"
  defines "it' \<equiv> it\<lparr>it_currentSlot := it_currentSlot it + 1\<rparr>"
  shows "iter_loop fuel X M it bp fs =
      (if slot_entry th v q k = None then iter_loop fuel X M it' bp fs else Some (True, it'\<lparr>it_hasLock := True\<rparr>, bp, fs))"
    "iter_at th v n q (Suc k) it' bp fs"
    "slot_entry th v q k = Some (rid, row) \<Longrightarrow> CurrentTuple it' bp = Some row \<and> CurrentRID it' = Some rid"
proof -
  let ?pid = "pid_of (th_oid th) (of_nat q)" and ?f = "frames bp ! j" and ?rid = "entry_rid th q k"
  have i: "pool_inv X (pages fs) bp" "view X (pages fs) bp = v" "it_tableHeap it = Some th" "it_numPages it = int n"
    "it_currentPageNum it = int q" "it_currentSlot it = int k - 1" "q < n" "holds_frame bp fs ?pid j"
    using assms(2,3) by (simp_all add: iter_at_def)
  have "?pid \<noteq> nilPageID" using assms(1) by (auto simp: scannable_def nilPageID_def)
  then have vf: "v ?pid = Some (Bytes ?f)" using holds_frame_view [OF i(1,8)] i(2) by simp
  have j: "j < length (frames bp)" using i(8) by (simp add: holds_frame_def)
  have wf: "wf_page th (Bytes ?f)" using assms(1) i(7) vf unfolding scannable_def by force
  note at = entry_at_slot(1) [OF wf assms(4)] entry_at_slot(2) [OF wf assms(4), where q = q]
  have hr: "heap_rows th v ?rid = page_row (Bytes ?f) (Slot ?rid)" using vf by (simp add: heap_rows_def entry_rid_def)
  have rid: "current_rid th it' = ?rid" by (rule current_rid_entry) (simp_all add: it'_def i)
  have dead: "slot_dead (AsHeapPage ?f) ?rid = Some (slot_entry th v q k = None)"
    using slot_dead_spec [OF wf at] hr by (simp add: slot_entry_def)
  have ns: "NumSlots (AsHeapPage ?f) = slots_per_page th" using frame_page(4) [OF wf] wf by (simp add: wf_page_def)
  show "iter_loop fuel X M it bp fs =
      (if slot_entry th v q k = None then iter_loop fuel X M it' bp fs else Some (True, it'\<lparr>it_hasLock := True\<rparr>, bp, fs))"
    using iter_loop_framed [of it th j bp fuel X M fs] i(3-7) assms(3,4) j dead ns rid unfolding it'_def Let_def by simp
  show "iter_at th v n q (Suc k) it' bp fs" using assms(2,4) by (simp add: iter_at_def it'_def)
  show "CurrentTuple it' bp = Some row \<and> CurrentRID it' = Some rid" if "slot_entry th v q k = Some (rid, row)"
  proof -
    have r: "rid = ?rid" "page_row (Bytes ?f) (Slot ?rid) = Some row" using that hr by (auto simp: slot_entry_def)
    have lay: "wf_layout (AsHeapPage ?f)" "k < NumSlots (AsHeapPage ?f)" using frame_page(1) [OF wf] ns assms(4) by (simp_all add: wf_heap_page_def)
    have "row = slot_bytes (AsHeapPage ?f) k"
      using r(2) page_row_slot [OF at(2,1)] abs_page_nth [OF lay(2)] frame_page(3) [OF wf] by (simp add: live_def split: if_splits)
    then have "AccessTuple (AsHeapPage ?f) ?rid = Some row" using AccessTuple_eq [OF lay at(2)] by simp
    then show ?thesis using assms(3) i(3) j rid r(1) by (simp add: CurrentTuple_def CurrentRID_def it'_def)
  qed
qed

lemma iter_loop_spec:
  assumes "scannable th v n" "iter_at th v n q k it bp fs"
  shows "next_result th v n (entries_from th v n q k) (iter_loop (Suc m) X M it bp fs)"
  using assms(2)
proof (induction "(n - q) * (slots_per_page th + 1) + (slots_per_page th - k)" arbitrary: q k it bp fs rule: less_induct)
  case less
  let ?N = "slots_per_page th" and ?pid = "\<lambda>q. pid_of (th_oid th) (of_nat q)"
  have nil: "?pid q \<noteq> nilPageID" for q using assms(1) by (auto simp: scannable_def nilPageID_def)
  have framed: "next_result th v n (entries_from th v n q k) (iter_loop (Suc m) X M it bp fs)"
    if it: "iter_at th v n q k it bp fs" "it_currentFrame it = Some j" for it bp fs j
  proof -
    have i: "ok fs" "pool_inv X (pages fs) bp" "view X (pages fs) bp = v" "it_tableHeap it = Some th" "it_numPages it = int n"
      "it_currentPageNum it = int q" "it_currentSlot it = int k - 1" "q < n" "holds_frame bp fs (?pid q) j" "k \<le> ?N" "it_err it = None"
      using it by (simp_all add: iter_at_def)
    have j: "j < length (frames bp)" using i(9) by (simp add: holds_frame_def)
    show ?thesis
    proof (cases "k < ?N")
      case True
      note y = iter_loop_yield [OF assms(1) it True]
      show ?thesis
      proof (cases "slot_entry th v q k")
        case None
        have "next_result th v n (entries_from th v n q (Suc k)) (iter_loop (Suc m) X M (it\<lparr>it_currentSlot := it_currentSlot it + 1\<rparr>) bp fs)"
          by (rule less.hyps [OF _ y(2)]) (use True in simp)
        then show ?thesis using y(1) [of "Suc m"] None entries_from_slot [OF i(8) True, of v] by simp
      next
        case (Some e)
        obtain rid row where e: "e = (rid, row)" by (cases e)
        have "iter_at th v n q (Suc k) (it\<lparr>it_currentSlot := it_currentSlot it + 1, it_hasLock := True\<rparr>) bp fs"
          using y(2) by (simp add: iter_at_def)
        moreover have "CurrentTuple (it\<lparr>it_currentSlot := it_currentSlot it + 1, it_hasLock := True\<rparr>) bp = Some row \<and>
            CurrentRID (it\<lparr>it_currentSlot := it_currentSlot it + 1, it_hasLock := True\<rparr>) = Some rid"
          using y(3) Some e it(2) by (simp add: CurrentTuple_def CurrentRID_def current_rid_def)
        ultimately show ?thesis
          using y(1) [of "Suc m"] Some e it(2) entries_from_slot [OF i(8) True, of v] unfolding next_result_def by fastforce
      qed
    next
      case False
      then have k: "k = ?N" using i(10) by simp
      obtain bp1 where u: "UnpinPage j False bp = Some bp1" "pool_state bp1 fs" "view X (pages fs) bp1 = v"
        using holds_frame_unpin [OF i(1,2,9) nil] i(3) by auto
      let ?it = "it\<lparr>it_currentFrame := None, it_currentPageNum := it_currentPageNum it + 1, it_currentSlot := -1\<rparr>"
      have "v (?pid q) = Some (Bytes (frames bp ! j))" using holds_frame_view [OF i(2,9) nil] i(3) by simp
      then have wf: "wf_page th (Bytes (frames bp ! j))" using assms(1) i(8) unfolding scannable_def by force
      have "NumSlots (AsHeapPage (frames bp ! j)) = ?N" using frame_page(4) [OF wf] wf by (simp add: wf_page_def)
      then have "iter_loop (Suc m) X M it bp fs = iter_loop (Suc m) X M ?it bp1 fs"
        using iter_loop_framed [of it th j bp "Suc m" X M fs] i(4-8) it(2) j u(1) k unfolding Let_def by simp
      moreover have "iter_at th v n (Suc q) 0 ?it bp1 fs" using u(2,3) i(4-7,11) by (simp add: iter_at_def pool_state_def)
      moreover have "(n - Suc q) * (?N + 1) + (?N - 0) < (n - q) * (?N + 1) + (?N - k)"
        using i(8) k by (simp add: Suc_diff_Suc [symmetric] algebra_simps)
      ultimately show ?thesis
        using less.hyps [of "Suc q" 0 ?it bp1 fs] entries_from_page [OF i(8), of th k v] k by simp
    qed
  qed
  have i: "ok fs" "pool_inv X (pages fs) bp" "view X (pages fs) bp = v" "it_tableHeap it = Some th" "it_numPages it = int n"
    "it_currentPageNum it = int q" "it_currentSlot it = int k - 1" "k \<le> ?N" "it_err it = None"
    using less.prems by (simp_all add: iter_at_def)
  show ?case
  proof (cases "it_currentFrame it")
    case (Some j)
    then show ?thesis using framed less.prems by blast
  next
    case None
    then have st: "pool_state bp fs" using less.prems i(1,2) by (simp add: iter_at_def pool_state_def)
    show ?thesis
    proof (cases "q < n")
      case False
      then show ?thesis using iter_loop_end [of it "Suc m" X M bp fs] i None st by (auto simp: next_result_def entries_from_end)
    next
      case True
      obtain r bp1 fs1 where g: "GetPage (Suc m) X M (?pid q) bp fs = Some (r, bp1, fs1)" "ok fs1" "pool_inv X (pages fs1) bp1"
        "case r of Inl e \<Rightarrow> pool_state bp1 fs1
         | Inr j \<Rightarrow> holds_frame bp1 fs1 (?pid q) j \<and> view X (pages fs1) bp1 = v"
      proof -
        obtain r bp1 fs1 where "GetPage (Suc m) X M (?pid q) bp fs = Some (r, bp1, fs1) \<and> ok fs1 \<and> pool_inv X (pages fs1) bp1 \<and>
          length (frames bp1) = length (frames bp) \<and>
          (case r of Inl e \<Rightarrow> pool_state bp1 fs1
           | Inr j \<Rightarrow> j < length (frames bp1) \<and> pf_pageID (frames bp1 ! j) = ?pid q \<and> pinCount (frames bp1 ! j) = 1 \<and>
               view X (pages fs) bp (?pid q) = Some (Bytes (frames bp1 ! j)) \<and> view X (pages fs1) bp1 = view X (pages fs) bp \<and>
               (isDirty (frames bp1 ! j) \<or> pages fs1 (?pid q) = Some (Bytes (frames bp1 ! j))) \<and>
               (\<forall>i < length (frames bp1). i \<noteq> j \<longrightarrow> pinCount (frames bp1 ! i) = 0))"
          using GetPage_quiescent [OF st nil, of m q] by blast
        then show thesis using i(3) by (intro that [of r bp1 fs1]) (simp_all add: holds_frame_def split: sum.splits del: GetPage.simps)
      qed
      have "GetPage (Suc m) X M (pid_of (th_oid th) (word_of_int (it_currentPageNum it))) bp fs = Some (r, bp1, fs1)"
        using g(1) i(6) by (simp del: GetPage.simps)
      note lf = iter_loop_fetch [OF _ i(4) None this]
      show ?thesis
      proof (cases r)
        case (Inl e)
        then show ?thesis using lf True i(5,6) g(4) None by (auto simp: next_result_def)
      next
        case (Inr j)
        then have "iter_at th v n q k (it\<lparr>it_currentFrame := Some j\<rparr>) bp1 fs1"
          using g(2-4) i True by (simp add: iter_at_def)
        from framed [OF this] show ?thesis using lf True i(5,6) Inr by simp
      qed
    qed
  qed
qed

abbreviation scan_at :: "TableHeap \<Rightarrow> (PageID \<Rightarrow> bytes option) \<Rightarrow> nat \<Rightarrow> nat \<Rightarrow> nat \<Rightarrow> ('m, 'fs) SeqScanState \<Rightarrow> bool" where
  "scan_at th v n q k e \<equiv> iter_at th v n q k (ss_iterator e) (ss_pool e) (ss_files e)"

lemma SeqScan_Next_spec:
  assumes "scannable th v n" "scan_at th v n q k e"
  shows "\<exists>b e'. SeqScan_Next (Suc m) X M th e = Some (b, e') \<and>
    (if b then \<exists>q' k' x. scan_at th v n q' k' e' \<and> entries_from th v n q k = x # entries_from th v n q' k' \<and> ss_current e' = seq_tuple th x
     else it_currentFrame (ss_iterator e') = None \<and> pool_state (ss_pool e') (ss_files e') \<and>
       (it_err (ss_iterator e') = None \<longrightarrow> entries_from th v n q k = [] \<and> view X (pages (ss_files e')) (ss_pool e') = v))"
proof -
  have "iter_at th v n q k ((ss_iterator e)\<lparr>it_hasLock := False\<rparr>) (ss_pool e) (ss_files e)" using assms(2) by (simp add: iter_at_def)
  from iter_loop_spec [OF assms(1) this, of m] obtain b it bp fs where
    n: "Iterator_Next (Suc m) X M (ss_iterator e) (ss_pool e) (ss_files e) = Some (b, it, bp, fs)"
    "if b then \<exists>q' k' rid row. iter_at th v n q' k' it bp fs \<and> entries_from th v n q k = (rid, row) # entries_from th v n q' k' \<and>
        it_currentFrame it \<noteq> None \<and> CurrentTuple it bp = Some row \<and> CurrentRID it = Some rid
      else it_currentFrame it = None \<and> pool_state bp fs \<and> (it_err it = None \<longrightarrow> entries_from th v n q k = [] \<and> view X (pages fs) bp = v)"
    unfolding next_result_def Iterator_Next_def by blast
  show ?thesis
  proof (cases b)
    case True
    then obtain q' k' rid row where "iter_at th v n q' k' it bp fs" "entries_from th v n q k = (rid, row) # entries_from th v n q' k'"
      "CurrentTuple it bp = Some row" "CurrentRID it = Some rid" using n(2) by auto
    then show ?thesis using n(1) True by (auto simp: SeqScan_Next_def seq_tuple_def)
  next
    case False
    then have "SeqScan_Next (Suc m) X M th e = Some (False, e\<lparr>ss_iterator := it, ss_pool := bp, ss_files := fs\<rparr>)"
      using n(1) by (simp add: SeqScan_Next_def)
    then show ?thesis using n(2) False by (intro exI [of _ False] exI [of _ "e\<lparr>ss_iterator := it, ss_pool := bp, ss_files := fs\<rparr>"]) simp
  qed
qed

lemma SeqScan_produces:
  assumes "scannable th v n" "scan_at th v n q k e"
  shows "\<exists>ts err. produces (SeqScanExecutor (Suc m) X M th) e ts err \<and>
    (case err of None \<Rightarrow> ts = map (seq_tuple th) (entries_from th v n q k)
     | Some _ \<Rightarrow> prefix ts (map (seq_tuple th) (entries_from th v n q k)))"
  using assms(2)
proof (induction "length (entries_from th v n q k)" arbitrary: q k e rule: less_induct)
  case less
  let ?E = "SeqScanExecutor (Suc m) X M th"
  obtain b e' where n: "ex_Next ?E e = Some (b, e')"
    "if b then \<exists>q' k' x. scan_at th v n q' k' e' \<and> entries_from th v n q k = x # entries_from th v n q' k' \<and> ss_current e' = seq_tuple th x
     else it_err (ss_iterator e') = None \<longrightarrow> entries_from th v n q k = []"
  proof -
    obtain b e' where "SeqScan_Next (Suc m) X M th e = Some (b, e')"
      "if b then \<exists>q' k' x. scan_at th v n q' k' e' \<and> entries_from th v n q k = x # entries_from th v n q' k' \<and> ss_current e' = seq_tuple th x
       else it_currentFrame (ss_iterator e') = None \<and> pool_state (ss_pool e') (ss_files e') \<and>
         (it_err (ss_iterator e') = None \<longrightarrow> entries_from th v n q k = [] \<and> view X (pages (ss_files e')) (ss_pool e') = v)"
      using SeqScan_Next_spec [OF assms(1) less.prems, of m] by blast
    then show thesis by (intro that [of b e']) (simp_all add: SeqScanExecutor_def split: if_splits)
  qed
  show ?case
  proof (cases b)
    case True
    then obtain q' k' x where x: "scan_at th v n q' k' e'" "entries_from th v n q k = x # entries_from th v n q' k'"
      "ss_current e' = seq_tuple th x" using n(2) by auto
    obtain ts err where t: "produces ?E e' ts err" "case err of None \<Rightarrow> ts = map (seq_tuple th) (entries_from th v n q' k')
      | Some _ \<Rightarrow> prefix ts (map (seq_tuple th) (entries_from th v n q' k'))" using less.hyps [OF _ x(1)] x(2) by auto
    have "produces ?E e (seq_tuple th x # ts) err"
      using n(1) True x(3) t(1) by (intro produces.yield_tuple [of ?E e e']) (simp_all add: SeqScanExecutor_def)
    then show ?thesis using t(2) x(2)
      by (intro exI [of _ "seq_tuple th x # ts"] exI [of _ err]) (auto split: option.splits)
  next
    case False
    have "produces ?E e [] (ex_Error ?E e')" using n(1) False by (auto intro: produces.exhausted)
    then show ?thesis using n(2) False
      by (intro exI [of _ "[]"] exI [of _ "ex_Error ?E e'"]) (auto simp: SeqScanExecutor_def split: option.splits)
  qed
qed

lemma SeqScan_yields:
  assumes "yields (SeqScanExecutor (Suc m) X M th) e ts e'" "scannable th v n" "scan_at th v n q k e"
  shows "\<exists>q' k'. scan_at th v n q' k' e'"
  using assms
proof (induction rule: yields.induct)
  case (yields_more s ts s' s'' t)
  then obtain q' k' where "scan_at th v n q' k' s'" by blast
  note spec = SeqScan_Next_spec [OF yields_more.prems(1) this, of m]
  have "SeqScan_Next (Suc m) X M th s' = Some (True, s'')" using yields_more.hyps(2) by (simp add: SeqScanExecutor_def)
  then show ?case using spec by (simp split: if_splits) blast
qed blast

lemma SeqScan_Close_spec:
  assumes "scannable th v n" "scan_at th v n q k e"
  shows "\<exists>e'. SeqScan_Close e = Some (None, e') \<and> pool_state (ss_pool e') (ss_files e') \<and> view X (pages (ss_files e')) (ss_pool e') = v"
proof (cases "it_currentFrame (ss_iterator e)")
  case None
  then show ?thesis using assms(2) by (simp add: SeqScan_Close_def Iterator_Close_def iter_at_def pool_state_def Let_def)
next
  case (Some j)
  have nil: "pid_of (th_oid th) (of_nat q) \<noteq> nilPageID" using assms(1) by (auto simp: scannable_def nilPageID_def)
  have "ok (ss_files e)" "pool_inv X (pages (ss_files e)) (ss_pool e)" "holds_frame (ss_pool e) (ss_files e) (pid_of (th_oid th) (of_nat q)) j"
    "view X (pages (ss_files e)) (ss_pool e) = v"
    using assms(2) Some by (simp_all add: iter_at_def)
  then show ?thesis using holds_frame_unpin [OF _ _ _ nil] Some
    by (fastforce simp: SeqScan_Close_def Iterator_Close_def Let_def)
qed

text \<open>Closing the scan when \<open>Next\<close> has returned false, at the end of the file or because of an error.\<close>

lemma SeqScan_Close_ended:
  assumes "scannable th v n" "scan_at th v n q k s" "SeqScan_Next (Suc m) X M th s = Some (False, e)"
  shows "\<exists>e'. SeqScan_Close e = Some (None, e') \<and> pool_state (ss_pool e') (ss_files e') \<and>
    (it_err (ss_iterator e) = None \<longrightarrow> view X (pages (ss_files e')) (ss_pool e') = v)"
proof -
  have "it_currentFrame (ss_iterator e) = None" "pool_state (ss_pool e) (ss_files e)"
    "it_err (ss_iterator e) = None \<longrightarrow> view X (pages (ss_files e)) (ss_pool e) = v"
    using SeqScan_Next_spec [OF assms(1,2), of m] assms(3) by auto
  then show ?thesis by (simp add: SeqScan_Close_def Iterator_Close_def Let_def)
qed

lemma SeqScan_Init_spec:
  assumes "heap_state th (ss_pool e) (ss_files e)"
  defines "v \<equiv> view X (pages (ss_files e)) (ss_pool e)"
  shows "\<exists>err e'. SeqScan_Init M th e = Some (err, e') \<and>
    (err = None \<longrightarrow> (\<exists>n. scannable th v n \<and> scan_at th v n 0 0 e' \<and> (\<forall>pid. Oid pid = th_oid th \<longrightarrow> v pid \<noteq> None \<longleftrightarrow> (\<exists>q < n. PageNum pid = of_nat q))))"
proof -
  let ?fs = "ss_files e"
  have st: "ok ?fs" "pool_inv X (pages ?fs) (ss_pool e)" "quiescent (ss_pool e)" "th_oid th \<noteq> 0"
    using assms(1) by (simp_all add: heap_state_def pool_state_def)
  obtain rg fs1 where g: "fm_GetDBFile M (th_oid th) ?fs = (rg, fs1)" by fastforce
  note gf = get_file [OF st(1) g]
  show ?thesis
  proof (cases "\<exists>np. rg = Inr (th_oid th) \<and> fm_NumPages M (th_oid th) fs1 = Inr np")
    case False
    have "\<exists>iter err. Iterator M th (ss_buffer e) ?fs = (iter, Some err, fs1)"
    proof (cases rg)
      case (Inr h)
      then obtain er where "fm_NumPages M h fs1 = Inl er" using False gf by (cases "fm_NumPages M h fs1") blast+
      then show ?thesis using Inr g by (simp add: Iterator_def)
    qed (simp add: Iterator_def g)
    then show ?thesis by (auto simp: SeqScan_Init_def)
  next
    case True
    then obtain np where np: "rg = Inr (th_oid th)" "fm_NumPages M (th_oid th) fs1 = Inr np" by blast
    let ?n = "nat (sint np)"
    have ok1: "ok fs1" and pg: "pages fs1 = pages ?fs" using gf by auto
    have ex: "v (pid_of (th_oid th) m) \<noteq> None \<longleftrightarrow> 0 \<le> sint m \<and> sint m < sint np" for m
      using num_pages [OF ok1 np(2), of m] view_exists [OF st(2), of "pid_of (th_oid th) m"] pg by (simp add: v_def)
    have small: "sint np < 2 ^ 31" using sint_less [of np] by simp
    have sq: "sint (of_nat q :: int32) = int q" if "q < ?n" for q
      using that small by (simp add: signed_of_nat signed_take_bit_int_eq_self)
    have scan: "scannable th v ?n"
    proof -
      have "\<exists>b. v (pid_of (th_oid th) (of_nat q)) = Some b \<and> wf_page th b" if q: "q < ?n" for q
      proof -
        have "v (pid_of (th_oid th) (of_nat q)) \<noteq> None" using ex [of "of_nat q"] sq [OF q] q by simp
        then show ?thesis using assms(1) unfolding heap_state_def v_def by blast
      qed
      then show ?thesis using small st(4) by (simp add: scannable_def)
    qed
    have "(\<exists>q < ?n. m = of_nat q) \<longleftrightarrow> 0 \<le> sint m \<and> sint m < sint np" for m :: int32
    proof
      assume m: "0 \<le> sint m \<and> sint m < sint np"
      then have "nat (sint m) < ?n" by linarith
      moreover have "sint (of_nat (nat (sint m)) :: int32) = sint m" using sq [OF calculation] m by simp
      then have "m = of_nat (nat (sint m))" by (metis signed_word_eqI)
      ultimately show "\<exists>q < ?n. m = of_nat q" by blast
    qed (use sq in force)
    then have pages: "\<forall>pid. Oid pid = th_oid th \<longrightarrow> v pid \<noteq> None \<longleftrightarrow> (\<exists>q < ?n. PageNum pid = of_nat q)" using ex
      by (metis (full_types) PageID.surjective old.unit.exhaust)
    let ?it = "nil_iterator\<lparr>it_tableHeap := Some th, it_buffer := ss_buffer e, it_numPages := sint np, it_currentPageNum := 0, it_currentSlot := -1\<rparr>"
    have "SeqScan_Init M th e = Some (None, e\<lparr>ss_iterator := ?it, ss_files := fs1\<rparr>)"
      by (simp add: SeqScan_Init_def Iterator_def g np)
    moreover have "scan_at th v ?n 0 0 (e\<lparr>ss_iterator := ?it, ss_files := fs1\<rparr>)"
      using st(2,3) ok1 pg num_pages_nonneg [OF ok1 np(2)] by (simp add: iter_at_def nil_iterator_def v_def)
    ultimately show ?thesis using scan pages by blast
  qed
qed

end

lemma SeqScan_spec:
  fixes th bp fs X Y m
  assumes "xsync_map X" "xsync_map Y" "disk_ok Y fs" "pool_inv X (disk_pages fs) bp" "quiescent bp" "wf_desc (th_desc th)" "th_oid th \<noteq> 0"
    "\<forall>pid b. Oid pid = th_oid th \<and> view X (disk_pages fs) bp pid = Some b \<longrightarrow> wf_page th b"
  defines "E \<equiv> SeqScanExecutor (Suc m) X (disk_ops Y) th" and "v \<equiv> view X (disk_pages fs) bp"
  shows "\<exists>err e. ex_Init E (NewSeqScanExecutor th bp fs) = Some (err, e) \<and>
    (err = None \<longrightarrow> (\<exists>xs. map_of xs = heap_rows th v \<and> distinct (map fst xs) \<and>
       (\<exists>ts er. produces E e ts er \<and> prefix ts (map (seq_tuple th) xs) \<and> (er = None \<longrightarrow> ts = map (seq_tuple th) xs)) \<and>
       (\<forall>ts s. yields E e ts s \<longrightarrow> (\<exists>s'. ex_Close E s = Some (None, s') \<and> disk_ok Y (ss_files s') \<and>
          pool_inv X (disk_pages (ss_files s')) (ss_pool s') \<and> quiescent (ss_pool s') \<and> view X (disk_pages (ss_files s')) (ss_pool s') = v) \<and>
          (\<forall>s1. ex_Next E s = Some (False, s1) \<longrightarrow> (\<exists>s'. ex_Close E s1 = Some (None, s') \<and> disk_ok Y (ss_files s') \<and>
             pool_inv X (disk_pages (ss_files s')) (ss_pool s') \<and> quiescent (ss_pool s') \<and>
             (ex_Error E s1 = None \<longrightarrow> view X (disk_pages (ss_files s')) (ss_pool s') = v))))))"
proof -
  note bp = buffer_pool_disk [OF assms(1,2)]
  let ?e = "NewSeqScanExecutor th bp fs"
  have pf: "ss_pool ?e = bp" "ss_files ?e = fs" by (simp_all add: NewSeqScanExecutor_def)
  have "buffer_pool.heap_state disk_pages (disk_ok Y) X th (ss_pool ?e) (ss_files ?e)"
    using assms(3-8) unfolding buffer_pool.heap_state_def [OF bp] buffer_pool.pool_state_def [OF bp] pf by force
  from buffer_pool.SeqScan_Init_spec [OF bp this, unfolded pf, folded v_def] obtain err e where
    i: "ex_Init E ?e = Some (err, e)" "err = None \<Longrightarrow> \<exists>n. scannable th v n \<and> buffer_pool.iter_at disk_pages (disk_ok Y) X th v n 0 0 (ss_iterator e) (ss_pool e) (ss_files e) \<and>
      (\<forall>pid. Oid pid = th_oid th \<longrightarrow> v pid \<noteq> None \<longleftrightarrow> (\<exists>q < n. PageNum pid = of_nat q))"
    by (auto simp: E_def SeqScanExecutor_def)
  let ?xs = "heap_entries th v"
  have main: "map_of (?xs n) = heap_rows th v \<and> distinct (map fst (?xs n)) \<and>
       (\<exists>ts er. produces E e ts er \<and> prefix ts (map (seq_tuple th) (?xs n)) \<and> (er = None \<longrightarrow> ts = map (seq_tuple th) (?xs n))) \<and>
       (\<forall>ts s. yields E e ts s \<longrightarrow> (\<exists>s'. ex_Close E s = Some (None, s') \<and> disk_ok Y (ss_files s') \<and>
          pool_inv X (disk_pages (ss_files s')) (ss_pool s') \<and> quiescent (ss_pool s') \<and> view X (disk_pages (ss_files s')) (ss_pool s') = v) \<and>
          (\<forall>s1. ex_Next E s = Some (False, s1) \<longrightarrow> (\<exists>s'. ex_Close E s1 = Some (None, s') \<and> disk_ok Y (ss_files s') \<and>
             pool_inv X (disk_pages (ss_files s')) (ss_pool s') \<and> quiescent (ss_pool s') \<and>
             (ex_Error E s1 = None \<longrightarrow> view X (disk_pages (ss_files s')) (ss_pool s') = v))))"
    if n: "scannable th v n" "buffer_pool.iter_at disk_pages (disk_ok Y) X th v n 0 0 (ss_iterator e) (ss_pool e) (ss_files e)"
      "\<forall>pid. Oid pid = th_oid th \<longrightarrow> v pid \<noteq> None \<longleftrightarrow> (\<exists>q < n. PageNum pid = of_nat q)" for n
  proof (intro conjI allI impI)
    have small: "n < 2 ^ 31" using n(1) by (simp add: scannable_def)
    then show "distinct (map fst (?xs n))" by (rule heap_entries_distinct)
    show "map_of (?xs n) = heap_rows th v" using n(3) assms(8) small by (intro map_of_heap_entries) (auto simp: v_def)
    show "\<exists>ts er. produces E e ts er \<and> prefix ts (map (seq_tuple th) (?xs n)) \<and> (er = None \<longrightarrow> ts = map (seq_tuple th) (?xs n))"
      using buffer_pool.SeqScan_produces [OF bp n(1,2), of m] unfolding E_def entries_from_start by (auto split: option.splits)
    fix ts s assume "yields E e ts s"
    then obtain q k where at: "buffer_pool.iter_at disk_pages (disk_ok Y) X th v n q k (ss_iterator s) (ss_pool s) (ss_files s)"
      using buffer_pool.SeqScan_yields [OF bp _ n(1,2)] unfolding E_def by blast
    from buffer_pool.SeqScan_Close_spec [OF bp n(1) this]
    show "\<exists>s'. ex_Close E s = Some (None, s') \<and> disk_ok Y (ss_files s') \<and>
          pool_inv X (disk_pages (ss_files s')) (ss_pool s') \<and> quiescent (ss_pool s') \<and> view X (disk_pages (ss_files s')) (ss_pool s') = v"
      by (auto simp: E_def SeqScanExecutor_def buffer_pool.pool_state_def [OF bp])
    fix s1 assume "ex_Next E s = Some (False, s1)"
    then have "SeqScan_Next (Suc m) X (disk_ops Y) th s = Some (False, s1)" by (simp add: E_def SeqScanExecutor_def)
    from buffer_pool.SeqScan_Close_ended [OF bp n(1) at this]
    show "\<exists>s'. ex_Close E s1 = Some (None, s') \<and> disk_ok Y (ss_files s') \<and>
          pool_inv X (disk_pages (ss_files s')) (ss_pool s') \<and> quiescent (ss_pool s') \<and>
          (ex_Error E s1 = None \<longrightarrow> view X (disk_pages (ss_files s')) (ss_pool s') = v)"
      by (auto simp: E_def SeqScanExecutor_def buffer_pool.pool_state_def [OF bp])
  qed
  show ?thesis
  proof (rule exI [of _ err], rule exI [of _ e], intro conjI impI, rule i(1))
    assume "err = None"
    from i(2) [OF this] obtain n where n: "scannable th v n" "buffer_pool.iter_at disk_pages (disk_ok Y) X th v n 0 0 (ss_iterator e) (ss_pool e) (ss_files e)"
      "\<forall>pid. Oid pid = th_oid th \<longrightarrow> v pid \<noteq> None \<longleftrightarrow> (\<exists>q < n. PageNum pid = of_nat q)" by blast
    from main [OF n] show "\<exists>xs. map_of xs = heap_rows th v \<and> distinct (map fst xs) \<and>
       (\<exists>ts er. produces E e ts er \<and> prefix ts (map (seq_tuple th) xs) \<and> (er = None \<longrightarrow> ts = map (seq_tuple th) xs)) \<and>
       (\<forall>ts s. yields E e ts s \<longrightarrow> (\<exists>s'. ex_Close E s = Some (None, s') \<and> disk_ok Y (ss_files s') \<and>
          pool_inv X (disk_pages (ss_files s')) (ss_pool s') \<and> quiescent (ss_pool s') \<and> view X (disk_pages (ss_files s')) (ss_pool s') = v) \<and>
          (\<forall>s1. ex_Next E s = Some (False, s1) \<longrightarrow> (\<exists>s'. ex_Close E s1 = Some (None, s') \<and> disk_ok Y (ss_files s') \<and>
             pool_inv X (disk_pages (ss_files s')) (ss_pool s') \<and> quiescent (ss_pool s') \<and>
             (ex_Error E s1 = None \<longrightarrow> view X (disk_pages (ss_files s')) (ss_pool s') = v))))"
      by (rule exI [of _ "?xs n"])
  qed
qed

text \<open>
  C21: a sequential scan reads the table. If \<open>Init\<close> succeeds, there is one list of all rows of the heap file with their
  identifiers, each row once (the list is the map of the file): the scan ends and yields exactly these rows in this
  order, or a prefix of them and the error of a failed page access. \<open>Close\<close> after any number of tuples, and \<open>Close\<close> after
  \<open>Next\<close> has returned false, at the end or because of an error, succeeds and leaves no page pinned and the pool and the
  files well formed; the logical contents of every page are those of before, except that a failed page access may have
  lost a dirty page that was being evicted.
\<close>

theorem SeqScan_scans:
  assumes "xsync_map X" "xsync_map Y" "disk_ok Y fs" "pool_inv X (disk_pages fs) bp" "quiescent bp" "wf_desc (th_desc th)" "th_oid th \<noteq> 0"
    "\<forall>pid b. Oid pid = th_oid th \<and> view X (disk_pages fs) bp pid = Some b \<longrightarrow> wf_page th b"
  shows "let E = SeqScanExecutor (Suc m) X (disk_ops Y) th; v = view X (disk_pages fs) bp in
    \<exists>err e. ex_Init E (NewSeqScanExecutor th bp fs) = Some (err, e) \<and>
    (err = None \<longrightarrow> (\<exists>xs. map_of xs = heap_rows th v \<and> distinct (map fst xs) \<and>
       (\<exists>ts er. produces E e ts er \<and> prefix ts (map (seq_tuple th) xs) \<and> (er = None \<longrightarrow> ts = map (seq_tuple th) xs)) \<and>
       (\<forall>ts s. yields E e ts s \<longrightarrow> (\<exists>s'. ex_Close E s = Some (None, s') \<and> disk_ok Y (ss_files s') \<and>
          pool_inv X (disk_pages (ss_files s')) (ss_pool s') \<and> quiescent (ss_pool s') \<and> view X (disk_pages (ss_files s')) (ss_pool s') = v) \<and>
          (\<forall>s1. ex_Next E s = Some (False, s1) \<longrightarrow> (\<exists>s'. ex_Close E s1 = Some (None, s') \<and> disk_ok Y (ss_files s') \<and>
             pool_inv X (disk_pages (ss_files s')) (ss_pool s') \<and> quiescent (ss_pool s') \<and>
             (ex_Error E s1 = None \<longrightarrow> view X (disk_pages (ss_files s')) (ss_pool s') = v))))))"
  using SeqScan_spec [OF assms] by (simp only: Let_def)

lemma heap_row_length:
  assumes "heap_rows th v rid = Some row" "\<forall>pid b. Oid pid = th_oid th \<and> v pid = Some b \<longrightarrow> wf_page th b"
  shows "length row = d_bytesPerRow (th_desc th)"
proof -
  obtain b where b: "Oid (rid_PageID rid) = th_oid th" "v (rid_PageID rid) = Some b" "page_row b (Slot rid) = Some row"
    using assms(1) by (auto simp: heap_rows_def split: if_splits option.splits)
  then have wf: "wf_page th b" using assms(2) by blast
  let ?k = "nat (sint (Slot rid))"
  have k: "?k < NumSlots (page_of b)" "live (abs_page (page_of b) ! ?k) = Some row"
    using b(3) by (auto simp: page_row_def Let_def split: if_splits)
  have lay: "wf_layout (page_of b)" using wf by (simp add: wf_page_def wf_heap_page_def)
  have "row = slot_bytes (page_of b) ?k" using k by (simp add: live_def split: if_splits)
  then show ?thesis using slot_in_page [OF lay k(1)] lay wf by (simp add: slot_bytes_def wf_layout_def wf_page_def)
qed

lemma seq_tuple_wf:
  assumes "wf_desc (th_desc th)" "length row = d_bytesPerRow (th_desc th)"
  shows "wf_tuple (seq_tuple th (rid, row))" "tuple_types (seq_tuple th (rid, row)) = d_fields (th_desc th)"
  using assms by (auto simp: seq_tuple_def StorageSchema_def FromRawTuple_def wf_tuple_def tuple_types_def phys_types_def)

lemma seq_tuple_row: "row_of (seq_tuple th (rid, row)) = map sql_of (decode_row (d_fields (th_desc th)) row)" "t_rid (seq_tuple th (rid, row)) = rid"
  by (simp_all add: row_of_def tuple_values_def phys_types_def seq_tuple_def FromRawTuple_def StorageSchema_def)

text \<open>A table with one row.\<close>

definition row_page :: bytes where
  "row_page = snd (snd (the (insert_new sample_desc (pid_of 1 0) (replicate 8 1) zero_frame)))"

definition row_disk :: "(ObjectID \<Rightarrow> DiskDBFile option) DiskDBFileManager" where
  "row_disk = \<lparr>fileCache = Map.empty, dm_os = \<lparr>os_files = [file_name 1 \<mapsto> row_page], os_faults = []\<rparr>\<rparr>"

lemma sample_heap_desc: "wf_desc (th_desc sample_heap)" "th_oid sample_heap = 1" "d_bytesPerRow (th_desc sample_heap) = 8"
  by (simp_all add: sample_heap_def sample_desc_def wf_desc_def row_size_def)

lemma row_page_spec: "length row_page = PageSize" "wf_page sample_heap row_page" "page_row row_page s = (if s = 0 then Some (replicate 8 1) else None)"
proof -
  have z: "length (Bytes zero_frame) = PageSize" by (simp add: zero_frame_def)
  obtain b where b: "insert_new (th_desc sample_heap) (pid_of 1 0) (replicate 8 1) zero_frame = Some (True, \<lparr>rid_PageID = pid_of 1 0, Slot = 0\<rparr>, b)"
    "length b = PageSize" "wf_page sample_heap b" "\<forall>s. page_row b s = (if s = 0 then Some (replicate 8 1) else None)"
    using insert_new_spec [OF z sample_heap_desc(1), of "replicate 8 1" "pid_of 1 0"] sample_heap_desc(3) by auto
  moreover have "row_page = b" using b(1) by (simp add: row_page_def sample_heap_def)
  ultimately show "length row_page = PageSize" "wf_page sample_heap row_page" "page_row row_page s = (if s = 0 then Some (replicate 8 1) else None)" by auto
qed

lemma row_disk_spec: "disk_ok fun_map row_disk" "disk_pages row_disk = [pid_of 1 0 \<mapsto> row_page]"
proof -
  show "disk_ok fun_map row_disk" using row_page_spec(1) by (auto simp: disk_ok_def row_disk_def fun_map_def file_ok_def)
  show "disk_pages row_disk = [pid_of 1 0 \<mapsto> row_page]"
  proof
    fix pid :: PageID
    have "file_name (Oid pid) = file_name 1 \<longleftrightarrow> Oid pid = 1" using file_name_inj by auto
    moreover have "0 \<le> sint (PageNum pid) \<and> (nat (sint (PageNum pid)) + 1) * PageSize \<le> PageSize \<longleftrightarrow> PageNum pid = 0"
      using signed_word_eqI [of "PageNum pid" 0] by auto
    moreover have "page_at row_page 0 = row_page" using row_page_spec(1) by (simp add: page_at_def seg_def)
    ultimately show "disk_pages row_disk pid = [pid_of 1 0 \<mapsto> row_page] pid"
      using row_page_spec(1) by (cases pid) (auto simp: disk_pages_def row_disk_def file_pages_def)
  qed
qed

lemma row_pool:
  "pool_inv fun_map (disk_pages row_disk) (NewBufferPool fun_map 2)" "quiescent (NewBufferPool fun_map 2)"
  "\<forall>pid b. Oid pid = th_oid sample_heap \<and> view fun_map (disk_pages row_disk) (NewBufferPool fun_map 2) pid = Some b \<longrightarrow> wf_page sample_heap b"
  "heap_rows sample_heap (view fun_map (disk_pages row_disk) (NewBufferPool fun_map 2)) = [\<lparr>rid_PageID = pid_of 1 0, Slot = 0\<rparr> \<mapsto> replicate 8 1]"
proof -
  have "disk_pages row_disk nilPageID = None" by (simp add: row_disk_spec nilPageID_def)
  note inv = NewBufferPool_inv [where pages = "disk_pages row_disk", OF xsync_fun_map this, of 2]
  have v: "view fun_map (disk_pages row_disk) (NewBufferPool fun_map 2) = [pid_of 1 0 \<mapsto> row_page]" using inv(2) row_disk_spec(2) by simp
  show "pool_inv fun_map (disk_pages row_disk) (NewBufferPool fun_map 2)" by (rule inv(1))
  show "quiescent (NewBufferPool fun_map 2)" by (simp add: quiescent_def NewBufferPool_def new_frame_def numeral_2_eq_2)
  show "\<forall>pid b. Oid pid = th_oid sample_heap \<and> view fun_map (disk_pages row_disk) (NewBufferPool fun_map 2) pid = Some b \<longrightarrow> wf_page sample_heap b"
    unfolding v using row_page_spec(2) by auto
  show "heap_rows sample_heap (view fun_map (disk_pages row_disk) (NewBufferPool fun_map 2)) = [\<lparr>rid_PageID = pid_of 1 0, Slot = 0\<rparr> \<mapsto> replicate 8 1]"
  proof
    fix r :: RecordID
    show "heap_rows sample_heap (view fun_map (disk_pages row_disk) (NewBufferPool fun_map 2)) r = [\<lparr>rid_PageID = pid_of 1 0, Slot = 0\<rparr> \<mapsto> replicate 8 1] r"
      unfolding v by (cases r) (auto simp: heap_rows_def row_page_spec(3) sample_heap_desc)
  qed
qed

theorem SeqScan_scans_witness:
  "let E = SeqScanExecutor 1 fun_map (disk_ops fun_map) sample_heap; rid = \<lparr>rid_PageID = pid_of 1 0, Slot = 0\<rparr> in
   \<exists>err e. ex_Init E (NewSeqScanExecutor sample_heap (NewBufferPool fun_map 2) row_disk) = Some (err, e) \<and>
     (err = None \<longrightarrow> (\<exists>ts er. produces E e ts er \<and> (er = None \<longrightarrow> ts = [seq_tuple sample_heap (rid, replicate 8 1)])))"
proof -
  let ?rid = "\<lparr>rid_PageID = pid_of 1 0, Slot = 0\<rparr>"
  have single: "xs = [(?rid, replicate 8 1)]" if "map_of xs = [?rid \<mapsto> replicate 8 1]" "distinct (map fst xs)" for xs :: "(RecordID \<times> bytes) list"
  proof -
    have "(r, y) \<in> set xs \<longleftrightarrow> r = ?rid \<and> y = replicate 8 1" for r y
      using map_of_eq_Some_iff [OF that(2), of r y] that(1) by (auto split: if_splits)
    then have "set xs = {(?rid, replicate 8 1)}" by auto
    then show ?thesis using that(2) by (cases xs; cases "tl xs") auto
  qed
  show ?thesis unfolding Let_def
    using SeqScan_scans [OF xsync_fun_map xsync_fun_map row_disk_spec(1) row_pool(1,2) sample_heap_desc(1) _ row_pool(3), of 0, unfolded Let_def row_pool(4)]
      single sample_heap_desc(2) by fastforce
qed

end
