(* ===== verification/Indexing_BTree.thy ===== *)
theory Indexing_BTree
  imports Indexing_Hash
begin

text \<open>
  The ordered in-memory index (\<open>indexing/mem_btree_index.go\<close>).

  The index wraps the B-tree of \<open>github.com/tidwall/btree\<close>, which is not part of the repository: it is a record of
  operations, and \<open>tidwall_btree\<close> states its documented behaviour for an ordering that is strict and total on the
  items, through the ascending list of the items of a tree and the position of an iterator in that list. A list
  is an instance. \<open>Ascend\<close> is the list of items that it passes to its callback.

  The theorems show that the index is a set of entries, that a lookup returns exactly the identifiers of its key, and
  which entries a range scan visits in either direction.
\<close>

section \<open>The parameter: an ordered tree\<close>

record ('a, 't, 'it) BTreeG =
  bt_New :: "('a \<Rightarrow> 'a \<Rightarrow> bool) \<Rightarrow> 't"
  bt_Set :: "'a \<Rightarrow> 't \<Rightarrow> 't"
  bt_Delete :: "'a \<Rightarrow> 't \<Rightarrow> 't"
  bt_Get :: "'a \<Rightarrow> 't \<Rightarrow> 'a option"
  bt_Ascend :: "'a \<Rightarrow> 't \<Rightarrow> 'a list"
  bt_Iter :: "'t \<Rightarrow> 'it"
  it_Seek :: "'a \<Rightarrow> 'it \<Rightarrow> bool \<times> 'it"
  it_First :: "'it \<Rightarrow> bool \<times> 'it"
  it_Last :: "'it \<Rightarrow> bool \<times> 'it"
  it_Next :: "'it \<Rightarrow> bool \<times> 'it"
  it_Prev :: "'it \<Rightarrow> bool \<times> 'it"
  it_Item :: "'it \<Rightarrow> 'a"

definition strict_total :: "('a \<Rightarrow> 'a \<Rightarrow> bool) \<Rightarrow> 'a set \<Rightarrow> bool" where
  "strict_total lt S \<longleftrightarrow> (\<forall>a \<in> S. \<not> lt a a) \<and> (\<forall>a \<in> S. \<forall>b \<in> S. \<forall>c \<in> S. lt a b \<longrightarrow> lt b c \<longrightarrow> lt a c) \<and>
     (\<forall>a \<in> S. \<forall>b \<in> S. a \<noteq> b \<longrightarrow> lt a b \<or> lt b a)"

definition tidwall_btree :: "('a, 't, 'it) BTreeG \<Rightarrow> ('a \<Rightarrow> 'a \<Rightarrow> bool) \<Rightarrow> ('t \<Rightarrow> 'a list) \<Rightarrow> ('it \<Rightarrow> 'a list \<times> nat) \<Rightarrow> bool" where
  "tidwall_btree B lt items cursor \<longleftrightarrow>
     items (bt_New B lt) = [] \<and>
     (\<forall>t x. strict_total lt (insert x (set (items t))) \<and> sorted_wrt lt (items t) \<longrightarrow>
        items (bt_Set B x t) = filter (\<lambda>y. lt y x) (items t) @ x # filter (lt x) (items t) \<and>
        items (bt_Delete B x t) = filter (\<lambda>y. y \<noteq> x) (items t) \<and>
        bt_Get B x t = (if x \<in> set (items t) then Some x else None) \<and>
        bt_Ascend B x t = filter (\<lambda>y. \<not> lt y x) (items t)) \<and>
     (\<forall>t. fst (cursor (bt_Iter B t)) = items t) \<and>
     (\<forall>i x xs n. cursor i = (xs, n) \<and> strict_total lt (insert x (set xs)) \<and> sorted_wrt lt xs \<longrightarrow>
        (let k = length (filter (\<lambda>y. lt y x) xs) in
         fst (it_Seek B x i) = (k < length xs) \<and> fst (cursor (snd (it_Seek B x i))) = xs \<and>
         (k < length xs \<longrightarrow> snd (cursor (snd (it_Seek B x i))) = k))) \<and>
     (\<forall>i xs n. cursor i = (xs, n) \<longrightarrow>
        fst (it_First B i) = (xs \<noteq> []) \<and> (xs \<noteq> [] \<longrightarrow> cursor (snd (it_First B i)) = (xs, 0)) \<and>
        fst (it_Last B i) = (xs \<noteq> []) \<and> (xs \<noteq> [] \<longrightarrow> cursor (snd (it_Last B i)) = (xs, length xs - 1)) \<and>
        (n < length xs \<longrightarrow> it_Item B i = xs ! n \<and>
           fst (it_Next B i) = (Suc n < length xs) \<and> (Suc n < length xs \<longrightarrow> cursor (snd (it_Next B i)) = (xs, Suc n)) \<and>
           fst (it_Prev B i) = (0 < n) \<and> (0 < n \<longrightarrow> cursor (snd (it_Prev B i)) = (xs, n - 1))))"

section \<open>The index\<close>

record btreeItem =
  bi_key :: Key
  bi_rid :: RecordID

text \<open>The ordering given to the tree: by key, then by record identifier.\<close>

definition rid_less :: "RecordID \<Rightarrow> RecordID \<Rightarrow> bool" where
  "rid_less a b =
     (if Oid (rid_PageID a) \<noteq> Oid (rid_PageID b) then Oid (rid_PageID a) < Oid (rid_PageID b)
      else if PageNum (rid_PageID a) \<noteq> PageNum (rid_PageID b) then sint (PageNum (rid_PageID a)) < sint (PageNum (rid_PageID b))
      else sint (Slot a) < sint (Slot b))"

definition btree_less :: "btreeItem \<Rightarrow> btreeItem \<Rightarrow> bool option" where
  "btree_less a b = do {
     cmp \<leftarrow> Key_Compare (bi_key a) (bi_key b);
     (if cmp \<noteq> 0 then Some (cmp < 0) else Some (rid_less (bi_rid a) (bi_rid b)))
   }"

text \<open>The tree calls it on items of the index only, where it does not panic.\<close>

definition item_less :: "btreeItem \<Rightarrow> btreeItem \<Rightarrow> bool" where
  "item_less a b \<longleftrightarrow> btree_less a b = Some True"

record 't MemBTreeIndex =
  bx_tree :: 't
  bx_metadata :: IndexMetadata

definition NewMemBTreeIndex :: "(btreeItem, 't, 'it) BTreeG \<Rightarrow> desc_ref \<Rightarrow> nat list \<Rightarrow> 't MemBTreeIndex" where
  "NewMemBTreeIndex B schema projectionList = \<lparr>bx_tree = bt_New B item_less,
     bx_metadata = \<lparr>KeySchema = schema, ProjectionList = projectionList\<rparr>\<rparr>"

definition BTree_InsertEntry :: "(btreeItem, 't, 'it) BTreeG \<Rightarrow> 'i \<Rightarrow> Key \<Rightarrow> RecordID \<Rightarrow> 'i TransactionContext option \<Rightarrow> 't MemBTreeIndex \<Rightarrow>
    ('i TransactionContext option \<times> 't MemBTreeIndex) option" where
  "BTree_InsertEntry B self key rid txn index = do {
     Assert (key_matches key (bx_metadata index));
     let keyCopy = Key_DeepCopy key;
     Some (map_option (AddAbortTask \<lparr>it_Target = self, it_Type = IndexOpUndoInsert, it_Key = k_RawTuple keyCopy, it_RID = rid\<rparr>) txn,
       index\<lparr>bx_tree := bt_Set B \<lparr>bi_key = keyCopy, bi_rid = rid\<rparr> (bx_tree index)\<rparr>)
   }"

definition BTree_DeleteEntry :: "(btreeItem, 't, 'it) BTreeG \<Rightarrow> 'i \<Rightarrow> Key \<Rightarrow> RecordID \<Rightarrow> 'i TransactionContext option \<Rightarrow> 't MemBTreeIndex \<Rightarrow>
    ('i TransactionContext option \<times> 't MemBTreeIndex) option" where
  "BTree_DeleteEntry B self key rid txn index = do {
     Assert (key_matches key (bx_metadata index));
     let item = \<lparr>bi_key = key, bi_rid = rid\<rparr>;
     (case txn of
        None \<Rightarrow> Some (None, index\<lparr>bx_tree := bt_Delete B item (bx_tree index)\<rparr>)
      | Some t \<Rightarrow>
          (case bt_Get B item (bx_tree index) of
             None \<Rightarrow> Some (Some t, index)
           | Some stored \<Rightarrow> Some (Some (AddCommitTask \<lparr>it_Target = self, it_Type = IndexOpDelete,
               it_Key = k_RawTuple (bi_key stored), it_RID = rid\<rparr> t), index)))
   }"

definition BTree_ScanKey :: "(btreeItem, 't, 'it) BTreeG \<Rightarrow> Key \<Rightarrow> RecordID list \<Rightarrow> 't MemBTreeIndex \<Rightarrow> RecordID list option" where
  "BTree_ScanKey B key output index = do {
     Assert (key_matches key (bx_metadata index));
     let pivot = \<lparr>bi_key = key, bi_rid = nilRecordID\<rparr>;
     Some (output @ map bi_rid (takeWhile (\<lambda>item. Key_Equals (bi_key item) key) (bt_Ascend B pivot (bx_tree index))))
   }"

record 'it MemBTreeIndexIterator =
  mi_iter :: 'it
  mi_direction :: ScanDirection
  mi_firstCall :: bool
  mi_hasMore :: bool

text \<open>The start of a scan: the position of the iterator and whether there is an entry.\<close>

definition seek_start :: "(btreeItem, 't, 'it) BTreeG \<Rightarrow> Key \<Rightarrow> ScanDirection \<Rightarrow> 'it \<Rightarrow> (bool \<times> 'it) option" where
  "seek_start B start direction iter =
     (case direction of
        ScanDirectionForward \<Rightarrow>
          Some (if \<not> Key_IsNil start then it_Seek B \<lparr>bi_key = start, bi_rid = nilRecordID\<rparr> iter else it_First B iter)
      | ScanDirectionBackward \<Rightarrow>
          (if Key_IsNil start then Some (it_Last B iter)
           else let (found, iter) = it_Seek B \<lparr>bi_key = start, bi_rid = nilRecordID\<rparr> iter in
             if \<not> found then Some (it_Last B iter)
             else do {
               c \<leftarrow> Key_Compare (bi_key (it_Item B iter)) start;
               Some (if c > 0 then it_Prev B iter else (True, iter))
             }))"

definition BTree_Scan :: "(btreeItem, 't, 'it) BTreeG \<Rightarrow> Key \<Rightarrow> ScanDirection \<Rightarrow> 't MemBTreeIndex \<Rightarrow> 'it MemBTreeIndexIterator option" where
  "BTree_Scan B start direction index = do {
     Assert (Key_IsNil start \<or> key_matches start (bx_metadata index));
     (found, iter) \<leftarrow> seek_start B start direction (bt_Iter B (bx_tree index));
     Some \<lparr>mi_iter = iter, mi_direction = direction, mi_firstCall = True, mi_hasMore = found\<rparr>
   }"

definition BTreeIterator_Next :: "(btreeItem, 't, 'it) BTreeG \<Rightarrow> 'it MemBTreeIndexIterator \<Rightarrow> bool \<times> 'it MemBTreeIndexIterator" where
  "BTreeIterator_Next B it =
     (if mi_firstCall it then (mi_hasMore it, it\<lparr>mi_firstCall := False\<rparr>)
      else if \<not> mi_hasMore it then (False, it)
      else let (found, iter) = (case mi_direction it of ScanDirectionForward \<Rightarrow> it_Next B (mi_iter it) | ScanDirectionBackward \<Rightarrow> it_Prev B (mi_iter it))
           in (found, it\<lparr>mi_iter := iter, mi_hasMore := found\<rparr>))"

definition BTreeIterator_Key :: "(btreeItem, 't, 'it) BTreeG \<Rightarrow> 'it MemBTreeIndexIterator \<Rightarrow> Key" where
  "BTreeIterator_Key B it = bi_key (it_Item B (mi_iter it))"

definition BTreeIterator_Value :: "(btreeItem, 't, 'it) BTreeG \<Rightarrow> 'it MemBTreeIndexIterator \<Rightarrow> RecordID" where
  "BTreeIterator_Value B it = bi_rid (it_Item B (mi_iter it))"

definition BTree_Invoke :: "(btreeItem, 't, 'it) BTreeG \<Rightarrow> IndexOpType \<Rightarrow> bytes \<Rightarrow> RecordID \<Rightarrow> 't MemBTreeIndex \<Rightarrow> 't MemBTreeIndex option" where
  "BTree_Invoke B opType key rid index = do {
     k \<leftarrow> AsKey (bx_metadata index) key;
     (_, index) \<leftarrow> BTree_DeleteEntry B () k rid (None :: unit TransactionContext option) index;
     Some index
   }"

section \<open>The order of the entries\<close>

text \<open>The keys an index holds: of its schema, and the image of their values.\<close>

definition key_row :: "IndexMetadata \<Rightarrow> Key \<Rightarrow> Value list" where
  "key_row md k = decode_row (d_fields (snd (KeySchema md))) (k_RawTuple k)"

definition key_ok :: "IndexMetadata \<Rightarrow> Key \<Rightarrow> bool" where
  "key_ok md k \<longleftrightarrow> k_schema k = Some (KeySchema md) \<and> length (k_RawTuple k) = KeySize md \<and> k_RawTuple k = encode_row (key_row md k)"

definition key_cmp :: "IndexMetadata \<Rightarrow> Key \<Rightarrow> Key \<Rightarrow> int" where
  "key_cmp md k k' = lex_cmp value_cmp (key_row md k) (key_row md k')"

definition schema_ok :: "IndexMetadata \<Rightarrow> bool" where
  "schema_ok md \<longleftrightarrow> wf_desc (snd (KeySchema md))"

lemma key_ok_matches: "key_ok md k \<Longrightarrow> key_matches k md"
  by (simp add: key_ok_def key_matches_def same_schema_def)

lemma key_ok_eqI: "key_ok md k \<Longrightarrow> key_ok md k' \<Longrightarrow> k_RawTuple k = k_RawTuple k' \<Longrightarrow> k = k'"
  by (simp add: key_ok_def)

lemma key_ok_Equals: "key_ok md k \<Longrightarrow> key_ok md k' \<Longrightarrow> Key_Equals k k' \<longleftrightarrow> k = k'"
  by (auto simp: Key_Equals_def same_schema_def key_ok_def)

lemma key_ok_DeepCopy: "key_ok md k \<Longrightarrow> Key_DeepCopy k = k"
  by (simp add: key_ok_def Key_DeepCopy_def Key_IsNil_def blit_def)

lemma AsKey_key_ok:
  assumes "key_ok md k"
  shows "AsKey md (k_RawTuple k) = Some k"
proof -
  have "k_schema k = Some (KeySchema md)" "length (k_RawTuple k) = KeySize md" using assms unfolding key_ok_def by blast+
  then show ?thesis by (simp add: AsKey_def slice_def KeySize_def)
qed

lemma key_ok_not_nil: "key_ok md k \<Longrightarrow> \<not> Key_IsNil k"
  by (simp add: key_ok_def Key_IsNil_def)

lemma key_row_rows:
  assumes "schema_ok md" "key_ok md k"
  shows "map v_t (key_row md k) = d_fields (snd (KeySchema md))" "\<forall>v \<in> set (key_row md k). storable v"
    "vcmp.rows (d_fields (snd (KeySchema md))) (key_row md k)"
proof -
  let ?ts = "d_fields (snd (KeySchema md))"
  have d: "DefaultType \<notin> set ?ts" "row_size ?ts \<le> length (k_RawTuple k)"
    using assms by (auto simp: schema_ok_def wf_desc_def key_ok_def KeySize_def BytesPerTuple_def)
  show t: "map v_t (key_row md k) = ?ts" and "\<forall>v \<in> set (key_row md k). storable v"
    using decode_row_values [OF d] by (simp_all add: key_row_def)
  have "?ts ! i \<noteq> DefaultType" if "i < length ?ts" for i using d(1) that by (metis nth_mem)
  moreover have "v_t (key_row md k ! i) = ?ts ! i" if "i < length ?ts" for i
    using arg_cong [OF t, of "\<lambda>xs. xs ! i"] that by (simp add: key_row_def)
  ultimately show "vcmp.rows ?ts (key_row md k)"
    by (auto simp: list_all2_conv_all_nth value_of_type_def key_row_def)
qed

interpretation key_order: comparator "key_cmp md" "\<lambda>k. schema_ok md \<and> key_ok md k" for md
proof (unfold_locales, goal_cases)
  case (1 x y)
  then show ?case using vcmp.lex_range [OF key_row_rows(3) key_row_rows(3)] unfolding key_cmp_def by blast
next
  case (2 x)
  then show ?case using vcmp.lex_refl [OF key_row_rows(3)] unfolding key_cmp_def by blast
next
  case (3 x y)
  then show ?case using vcmp.lex_swap [OF key_row_rows(3) key_row_rows(3)] unfolding key_cmp_def by blast
next
  case (4 x y z)
  then show ?case using vcmp.lex_trans [OF key_row_rows(3) key_row_rows(3) key_row_rows(3)] unfolding key_cmp_def by blast
qed

text \<open>Keys that compare as equal are equal.\<close>

lemma lex_cmp_zero:
  "vcmp.rows ts xs \<Longrightarrow> vcmp.rows ts ys \<Longrightarrow> lex_cmp value_cmp xs ys = 0 \<longleftrightarrow> map sql_of xs = map sql_of ys"
proof (induction ts arbitrary: xs ys)
  case (Cons t ts)
  then obtain x xs' y ys' where eqs: "xs = x # xs'" "ys = y # ys'" and v: "value_of_type t x" "value_of_type t y"
    and r: "vcmp.rows ts xs'" "vcmp.rows ts ys'"
    by (auto simp: list_all2_Cons1)
  have "value_cmp x y = 0 \<longleftrightarrow> sql_of x = sql_of y"
    using v Value_Compare_eq_0 [of x y] Value_Compare_total [of x y] by (simp add: value_of_type_def)
  then show ?case using Cons.IH [OF r] by (simp add: eqs)
qed simp

lemma key_cmp_zero:
  assumes "schema_ok md" "key_ok md k" "key_ok md k'"
  shows "key_cmp md k k' = 0 \<longleftrightarrow> k = k'"
proof -
  have "key_cmp md k k' = 0 \<longleftrightarrow> map sql_of (key_row md k) = map sql_of (key_row md k')"
    using lex_cmp_zero key_row_rows(3) [OF assms(1,2)] key_row_rows(3) [OF assms(1,3)] unfolding key_cmp_def by blast
  also have "\<dots> \<longleftrightarrow> encode_row (key_row md k) = encode_row (key_row md k')"
    using encode_row_eq_iff key_row_rows(1,2) [OF assms(1,2)] key_row_rows(1,2) [OF assms(1,3)] by metis
  also have "\<dots> \<longleftrightarrow> k = k'" using assms(2,3) unfolding key_ok_def by auto
  finally show ?thesis .
qed

lemma compare_fields_lex:
  assumes "wf_desc d" "length r = d_bytesPerRow d" "length r' = d_bytesPerRow d" "n = length (d_fields d)" "i \<le> n"
  shows "compare_fields [i..<n] d r d r' = Some (lex_cmp value_cmp (drop i (decode_row (d_fields d) r)) (drop i (decode_row (d_fields d) r')))"
  using assms(5)
proof (induction "n - i" arbitrary: i)
  case 0
  then show ?case using assms(4) by simp
next
  case (Suc m)
  then have i: "i < n" by simp
  let ?v = "decode_row (d_fields d) r ! i" and ?w = "decode_row (d_fields d) r' ! i"
  have d: "DefaultType \<notin> set (d_fields d)" "row_size (d_fields d) \<le> length r" "row_size (d_fields d) \<le> length r'"
    using assms(1,2,3) by (auto simp: wf_desc_def)
  have ty: "v_t ?v = d_fields d ! i" "v_t ?w = d_fields d ! i"
    using decode_row_values [OF d(1,2)] decode_row_values [OF d(1,3)] i assms(4) by (metis length_decode_row nth_map)+
  have "d_fields d ! i \<noteq> DefaultType" using d(1) i assms(4) by (metis nth_mem)
  then have c: "Value_Compare ?v ?w = Some (value_cmp ?v ?w)" using Value_Compare_total [of ?v ?w] ty by simp
  have g: "RawTupleDesc_GetValue d r i = Some ?v" "RawTupleDesc_GetValue d r' i = Some ?w"
    using GetValue_decode assms i by simp_all
  have dr: "drop i (decode_row (d_fields d) r) = ?v # drop (Suc i) (decode_row (d_fields d) r)"
    "drop i (decode_row (d_fields d) r') = ?w # drop (Suc i) (decode_row (d_fields d) r')"
    using i assms(4) by (simp_all add: Cons_nth_drop_Suc)
  have ih: "compare_fields [Suc i..<n] d r d r' =
      Some (lex_cmp value_cmp (drop (Suc i) (decode_row (d_fields d) r)) (drop (Suc i) (decode_row (d_fields d) r')))"
    using Suc.hyps(1) [of "Suc i"] Suc.hyps(2) i by simp
  show ?case unfolding dr upt_conv_Cons [OF i] by (simp add: g c ih)
qed

lemma Key_Compare_cmp:
  assumes "schema_ok md" "key_ok md k" "key_ok md k'"
  shows "Key_Compare k k' = Some (key_cmp md k k')"
proof -
  obtain a d where s: "KeySchema md = (a, d)" by fastforce
  have "compare_fields [0..<RawTupleDesc_NumColumns d] d (k_RawTuple k) d (k_RawTuple k') = Some (key_cmp md k k')"
    using compare_fields_lex [of d "k_RawTuple k" "k_RawTuple k'" "RawTupleDesc_NumColumns d" 0] assms
    by (simp add: schema_ok_def key_ok_def KeySize_def BytesPerTuple_def s RawTupleDesc_NumColumns_def key_cmp_def key_row_def)
  then show ?thesis using assms(2,3) by (simp add: Key_Compare_def key_ok_def same_schema_def s)
qed

subsection \<open>Record identifiers\<close>

lemma rid_less_irrefl: "\<not> rid_less r r"
  by (simp add: rid_less_def)

lemma rid_less_trans: "rid_less a b \<Longrightarrow> rid_less b c \<Longrightarrow> rid_less a c"
  by (auto simp: rid_less_def split: if_splits)

lemma rid_less_linear: "a \<noteq> b \<Longrightarrow> rid_less a b \<or> rid_less b a"
  by (cases a; cases b; cases "rid_PageID a"; cases "rid_PageID b") (auto simp: rid_less_def not_less_iff_gr_or_eq dest: signed_word_eqI)

subsection \<open>Entries\<close>

text \<open>No entry comes before the pivot of its key: page numbers and slots are not negative.\<close>

definition rid_ok :: "RecordID \<Rightarrow> bool" where
  "rid_ok r \<longleftrightarrow> 0 \<le> sint (PageNum (rid_PageID r)) \<and> 0 \<le> sint (Slot r)"

definition item_ok :: "IndexMetadata \<Rightarrow> btreeItem \<Rightarrow> bool" where
  "item_ok md e \<longleftrightarrow> key_ok md (bi_key e) \<and> rid_ok (bi_rid e)"

lemma rid_ok_nil [simp]: "rid_ok nilRecordID"
  by (simp add: rid_ok_def nilRecordID_def nilPageID_def)

lemma rid_ok_least: "rid_ok r \<Longrightarrow> \<not> rid_less r nilRecordID"
  by (auto simp: rid_ok_def rid_less_def nilRecordID_def nilPageID_def split: if_splits)

lemma item_less_iff:
  assumes "schema_ok md" "key_ok md (bi_key a)" "key_ok md (bi_key b)"
  shows "item_less a b \<longleftrightarrow> key_cmp md (bi_key a) (bi_key b) < 0 \<or> bi_key a = bi_key b \<and> rid_less (bi_rid a) (bi_rid b)"
  using Key_Compare_cmp [OF assms] key_cmp_zero [OF assms] key_order.cmp_refl [of md "bi_key b"] assms
  by (auto simp: item_less_def btree_less_def)

lemma item_less_total:
  assumes "schema_ok md" "\<forall>e \<in> S. item_ok md e"
  shows "strict_total item_less S"
proof -
  have k: "schema_ok md \<and> key_ok md (bi_key e)" if "e \<in> S" for e using assms that by (simp add: item_ok_def)
  have iff: "item_less a b \<longleftrightarrow> key_cmp md (bi_key a) (bi_key b) < 0 \<or> bi_key a = bi_key b \<and> rid_less (bi_rid a) (bi_rid b)"
    if "a \<in> S" "b \<in> S" for a b using item_less_iff k that by blast
  have "\<not> item_less a a" if "a \<in> S" for a
    using iff [OF that that] key_order.cmp_refl [OF k [OF that]] rid_less_irrefl by simp
  moreover have "item_less a c" if "a \<in> S" "b \<in> S" "c \<in> S" "item_less a b" "item_less b c" for a b c
    using that(4,5) key_order.cmp_less_trans [OF k [OF that(1)] k [OF that(2)] k [OF that(3)]] rid_less_trans
    unfolding iff [OF that(1,2)] iff [OF that(2,3)] iff [OF that(1,3)] by auto
  moreover have "item_less a b \<or> item_less b a" if "a \<in> S" "b \<in> S" "a \<noteq> b" for a b
  proof (cases "bi_key a = bi_key b")
    case True
    then have "bi_rid a \<noteq> bi_rid b" using that(3) by (cases a; cases b) auto
    then show ?thesis using iff [OF that(1,2)] iff [OF that(2,1)] True rid_less_linear by metis
  next
    case False
    then have "key_cmp md (bi_key a) (bi_key b) \<noteq> 0" using key_cmp_zero k [OF that(1)] k [OF that(2)] by blast
    then show ?thesis
      using iff [OF that(1,2)] iff [OF that(2,1)] key_order.cmp_swap [OF k [OF that(1)] k [OF that(2)]] by linarith
  qed
  ultimately show ?thesis unfolding strict_total_def by blast
qed

section \<open>The operations on the entries\<close>

lemma tidwall_btreeD:
  assumes "tidwall_btree B lt items cursor"
  shows "items (bt_New B lt) = []"
    and "strict_total lt (insert x (set (items t))) \<Longrightarrow> sorted_wrt lt (items t) \<Longrightarrow>
      items (bt_Set B x t) = filter (\<lambda>y. lt y x) (items t) @ x # filter (lt x) (items t)"
    and "strict_total lt (insert x (set (items t))) \<Longrightarrow> sorted_wrt lt (items t) \<Longrightarrow> items (bt_Delete B x t) = filter (\<lambda>y. y \<noteq> x) (items t)"
    and "strict_total lt (insert x (set (items t))) \<Longrightarrow> sorted_wrt lt (items t) \<Longrightarrow> bt_Get B x t = (if x \<in> set (items t) then Some x else None)"
    and "strict_total lt (insert x (set (items t))) \<Longrightarrow> sorted_wrt lt (items t) \<Longrightarrow> bt_Ascend B x t = filter (\<lambda>y. \<not> lt y x) (items t)"
  using assms unfolding tidwall_btree_def by simp_all

definition btree_ok :: "('t \<Rightarrow> btreeItem list) \<Rightarrow> 't MemBTreeIndex \<Rightarrow> bool" where
  "btree_ok items index \<longleftrightarrow> schema_ok (bx_metadata index) \<and> sorted_wrt item_less (items (bx_tree index)) \<and>
     (\<forall>e \<in> set (items (bx_tree index)). item_ok (bx_metadata index) e)"

text \<open>The identifiers of a key, and the entries as a set.\<close>

definition btree_entries :: "('t \<Rightarrow> btreeItem list) \<Rightarrow> 't MemBTreeIndex \<Rightarrow> bytes \<Rightarrow> RecordID list" where
  "btree_entries items index k = map bi_rid (filter (\<lambda>e. k_RawTuple (bi_key e) = k) (items (bx_tree index)))"

definition entry :: "Key \<Rightarrow> RecordID \<Rightarrow> btreeItem" where
  "entry key rid = \<lparr>bi_key = key, bi_rid = rid\<rparr>"

lemma entry_sel [simp]: "bi_key (entry k r) = k" "bi_rid (entry k r) = r" "entry (bi_key e) (bi_rid e) = e" "entry k r = entry k' r' \<longleftrightarrow> k = k' \<and> r = r'"
  by (simp_all add: entry_def)

lemma item_ok_entry: "item_ok md (entry k r) \<longleftrightarrow> key_ok md k \<and> rid_ok r"
  by (simp add: item_ok_def)

lemma btree_total:
  assumes "btree_ok items index" "item_ok (bx_metadata index) e"
  shows "strict_total item_less (insert e (set (items (bx_tree index))))"
  using assms by (intro item_less_total [of "bx_metadata index"]) (auto simp: btree_ok_def)

lemma sorted_wrt_insert:
  assumes "strict_total lt (insert x (set xs))" "sorted_wrt lt xs"
  shows "sorted_wrt lt (filter (\<lambda>y. lt y x) xs @ x # filter (lt x) xs)"
    "set (filter (\<lambda>y. lt y x) xs @ x # filter (lt x) xs) = insert x (set xs)"
proof -
  have t: "lt a c" if "lt a b" "lt b c" "a \<in> insert x (set xs)" "b \<in> insert x (set xs)" "c \<in> insert x (set xs)" for a b c
    using assms(1) that unfolding strict_total_def by blast
  show "sorted_wrt lt (filter (\<lambda>y. lt y x) xs @ x # filter (lt x) xs)"
    using assms(2) t by (auto simp: sorted_wrt_append sorted_wrt_filter)
  show "set (filter (\<lambda>y. lt y x) xs @ x # filter (lt x) xs) = insert x (set xs)"
    using assms(1) by (auto simp: strict_total_def)
qed

lemma takeWhile_filter_interval:
  assumes "sorted_wrt lt xs" "\<forall>x \<in> set xs. Q x \<longrightarrow> P x" "\<forall>x \<in> set xs. \<forall>y \<in> set xs. lt x y \<longrightarrow> P x \<longrightarrow> Q y \<longrightarrow> Q x"
  shows "takeWhile Q (filter P xs) = filter Q xs"
  using assms
proof (induction xs)
  case (Cons x xs)
  have c: "\<forall>a \<in> set xs. \<forall>b \<in> set xs. lt a b \<longrightarrow> P a \<longrightarrow> Q b \<longrightarrow> Q a" using Cons.prems(3) by (meson list.set_intros(2))
  have ih: "takeWhile Q (filter P xs) = filter Q xs" using Cons.IH [OF _ _ c] Cons.prems(1,2) by simp
  show ?case
  proof (cases "P x \<and> \<not> Q x")
    case True
    then have "\<forall>y \<in> set xs. \<not> Q y" using Cons.prems(1,3) by (meson list.set_intros sorted_wrt.simps(2))
    then show ?thesis using True by (simp add: filter_empty_conv)
  qed (use ih Cons.prems(2) in auto)
qed simp

lemma BTree_InsertEntry_spec:
  assumes "tidwall_btree B item_less items cursor" "btree_ok items index" "key_ok (bx_metadata index) key" "rid_ok rid"
  shows "\<exists>index'. BTree_InsertEntry B self key rid txn index =
      Some (map_option (AddAbortTask \<lparr>it_Target = self, it_Type = IndexOpUndoInsert, it_Key = k_RawTuple key, it_RID = rid\<rparr>) txn, index') \<and>
      btree_ok items index' \<and> bx_metadata index' = bx_metadata index \<and>
      set (items (bx_tree index')) = insert (entry key rid) (set (items (bx_tree index)))"
proof -
  let ?e = "entry key rid" and ?xs = "items (bx_tree index)"
  have e: "item_ok (bx_metadata index) ?e" using assms(3,4) by (simp add: item_ok_entry)
  note tot = btree_total [OF assms(2) e]
  have so: "sorted_wrt item_less ?xs" using assms(2) by (simp add: btree_ok_def)
  note ins = tidwall_btreeD(2) [OF assms(1) tot so] and si = sorted_wrt_insert [OF tot so]
  let ?i = "index\<lparr>bx_tree := bt_Set B ?e (bx_tree index)\<rparr>"
  have s: "set (items (bx_tree ?i)) = insert ?e (set ?xs)" using si(2) by (simp add: ins)
  moreover have "sorted_wrt item_less (items (bx_tree ?i))" using si(1) by (simp add: ins)
  then have "btree_ok items ?i" using assms(2) e s unfolding btree_ok_def by simp
  ultimately show ?thesis
    using assms(3) by (intro exI [of _ ?i]) (simp add: BTree_InsertEntry_def key_ok_matches key_ok_DeepCopy entry_def)
qed

lemma BTree_DeleteEntry_spec:
  assumes "tidwall_btree B item_less items cursor" "btree_ok items index" "key_ok (bx_metadata index) key" "rid_ok rid"
  shows "\<exists>index'. BTree_DeleteEntry B self key rid None index = Some (None, index') \<and>
      btree_ok items index' \<and> bx_metadata index' = bx_metadata index \<and>
      set (items (bx_tree index')) = set (items (bx_tree index)) - {entry key rid}"
    and "BTree_DeleteEntry B self key rid (Some t) index =
      Some (Some (if entry key rid \<in> set (items (bx_tree index))
        then AddCommitTask \<lparr>it_Target = self, it_Type = IndexOpDelete, it_Key = k_RawTuple key, it_RID = rid\<rparr> t else t), index)"
proof -
  let ?e = "entry key rid" and ?xs = "items (bx_tree index)"
  have e: "item_ok (bx_metadata index) ?e" using assms(3,4) by (simp add: item_ok_entry)
  note tot = btree_total [OF assms(2) e]
  have so: "sorted_wrt item_less ?xs" using assms(2) by (simp add: btree_ok_def)
  note del = tidwall_btreeD(3) [OF assms(1) tot so] and get = tidwall_btreeD(4) [OF assms(1) tot so]
  let ?i = "index\<lparr>bx_tree := bt_Delete B ?e (bx_tree index)\<rparr>"
  have "btree_ok items ?i" using assms(2) by (auto simp: btree_ok_def del sorted_wrt_filter)
  moreover have "set (items (bx_tree ?i)) = set ?xs - {?e}" by (auto simp: del)
  ultimately show "\<exists>index'. BTree_DeleteEntry B self key rid None index = Some (None, index') \<and>
      btree_ok items index' \<and> bx_metadata index' = bx_metadata index \<and>
      set (items (bx_tree index')) = set (items (bx_tree index)) - {entry key rid}"
    using assms(3) by (intro exI [of _ ?i]) (simp add: BTree_DeleteEntry_def key_ok_matches entry_def)
  show "BTree_DeleteEntry B self key rid (Some t) index =
      Some (Some (if entry key rid \<in> set (items (bx_tree index))
        then AddCommitTask \<lparr>it_Target = self, it_Type = IndexOpDelete, it_Key = k_RawTuple key, it_RID = rid\<rparr> t else t), index)"
    using assms(3) get by (simp add: BTree_DeleteEntry_def key_ok_matches entry_def)
qed

lemma BTree_ScanKey_spec:
  assumes "tidwall_btree B item_less items cursor" "btree_ok items index" "key_ok (bx_metadata index) key"
  shows "BTree_ScanKey B key output index = Some (output @ btree_entries items index (k_RawTuple key))"
proof -
  let ?p = "entry key nilRecordID" and ?xs = "items (bx_tree index)" and ?md = "bx_metadata index"
  let ?Q = "\<lambda>e. Key_Equals (bi_key e) key" and ?P = "\<lambda>e. \<not> item_less e ?p"
  have p: "item_ok ?md ?p" using assms(3) by (simp add: item_ok_entry)
  have sch: "schema_ok ?md" and so: "sorted_wrt item_less ?xs" and ok: "item_ok ?md e" if "e \<in> set ?xs" for e
    using assms(2) that by (auto simp: btree_ok_def)
  have so: "sorted_wrt item_less ?xs" using assms(2) by (auto simp: btree_ok_def)
  note tot = btree_total [OF assms(2) p]
  have k: "key_ok ?md (bi_key e)" "rid_ok (bi_rid e)" if "e \<in> set ?xs" for e using ok [OF that] by (simp_all add: item_ok_def)
  have q: "?Q e \<longleftrightarrow> bi_key e = key" if "e \<in> set ?xs" for e using key_ok_Equals [OF k(1) [OF that] assms(3)] .
  have lt: "item_less a b \<longleftrightarrow> key_cmp ?md (bi_key a) (bi_key b) < 0 \<or> bi_key a = bi_key b \<and> rid_less (bi_rid a) (bi_rid b)"
    if "a \<in> insert ?p (set ?xs)" "b \<in> insert ?p (set ?xs)" for a b
    using that k sch assms(2,3) by (intro item_less_iff) (auto simp: btree_ok_def)
  have "takeWhile ?Q (filter ?P ?xs) = filter ?Q ?xs"
  proof (rule takeWhile_filter_interval [OF so], intro ballI impI)
    fix e assume "e \<in> set ?xs" "?Q e"
    then show "\<not> item_less e ?p"
      using lt [of e ?p] q rid_ok_least k key_order.cmp_refl [of ?md key] assms(2,3) by (auto simp: btree_ok_def)
  next
    show "\<forall>a \<in> set ?xs. \<forall>b \<in> set ?xs. item_less a b \<longrightarrow> ?P a \<longrightarrow> ?Q b \<longrightarrow> ?Q a"
    proof (intro ballI impI)
      fix a b assume ab: "a \<in> set ?xs" "b \<in> set ?xs" "item_less a b" "?P a" "?Q b"
      then have "\<not> key_cmp ?md (bi_key a) key < 0" using lt [of a ?p] by simp
      then show "?Q a" using lt [of a b] ab q by auto
    qed
  qed
  also have "\<dots> = filter (\<lambda>e. k_RawTuple (bi_key e) = k_RawTuple key) ?xs"
    using q k(1) assms(3) key_ok_eqI by (intro filter_cong) metis+
  finally show ?thesis
    using tidwall_btreeD(5) [OF assms(1) tot so] assms(3) by (simp add: BTree_ScanKey_def key_ok_matches btree_entries_def entry_def)
qed

lemma btree_entries_set:
  assumes "btree_ok items index" "key_ok (bx_metadata index) key"
  shows "set (btree_entries items index (k_RawTuple key)) = {r. entry key r \<in> set (items (bx_tree index))}"
proof -
  have "k_RawTuple (bi_key e) = k_RawTuple key \<longleftrightarrow> bi_key e = key" if "e \<in> set (items (bx_tree index))" for e
    using assms that key_ok_eqI [of "bx_metadata index" "bi_key e" key] by (auto simp: btree_ok_def item_ok_def)
  then have "set (btree_entries items index (k_RawTuple key)) = bi_rid ` {e \<in> set (items (bx_tree index)). bi_key e = key}"
    by (auto simp: btree_entries_def)
  also have "\<dots> = {r. entry key r \<in> set (items (bx_tree index))}" by (force simp: image_iff intro: exI [of _ "entry key _"])
  finally show ?thesis .
qed

lemma btree_entries_sorted:
  assumes "btree_ok items index"
  shows "sorted_wrt rid_less (btree_entries items index k)"
proof -
  let ?md = "bx_metadata index" and ?xs = "items (bx_tree index)"
  have so: "sorted_wrt item_less (filter (\<lambda>e. k_RawTuple (bi_key e) = k) ?xs)" using assms by (simp add: btree_ok_def sorted_wrt_filter)
  have "rid_less (bi_rid a) (bi_rid b)" if "a \<in> set ?xs" "b \<in> set ?xs" "k_RawTuple (bi_key a) = k" "k_RawTuple (bi_key b) = k" "item_less a b" for a b
  proof -
    have ok: "schema_ok ?md" "key_ok ?md (bi_key a)" "key_ok ?md (bi_key b)" using assms that by (auto simp: btree_ok_def item_ok_def)
    have eq: "bi_key a = bi_key b" using key_ok_eqI [OF ok(2,3)] that by simp
    then show ?thesis using item_less_iff [OF ok] that(5) key_order.cmp_refl [of ?md "bi_key b"] ok by simp
  qed
  then show ?thesis unfolding btree_entries_def sorted_wrt_map
    by (intro sorted_wrt_mono_rel [OF _ so]) auto
qed

section \<open>Range scans\<close>

text \<open>The loop of a client over an iterator.\<close>

fun drain_scan :: "(btreeItem, 't, 'it) BTreeG \<Rightarrow> nat \<Rightarrow> 'it MemBTreeIndexIterator \<Rightarrow> btreeItem list option" where
  "drain_scan B 0 it = None"
| "drain_scan B (Suc fuel) it =
     (let (found, it) = BTreeIterator_Next B it in
      if found then map_option (Cons (entry (BTreeIterator_Key B it) (BTreeIterator_Value B it))) (drain_scan B fuel it) else Some [])"

lemma cursorD:
  assumes "tidwall_btree B lt items cursor" "cursor i = (xs, n)"
  shows "fst (it_First B i) = (xs \<noteq> [])" "xs \<noteq> [] \<Longrightarrow> cursor (snd (it_First B i)) = (xs, 0)"
    "fst (it_Last B i) = (xs \<noteq> [])" "xs \<noteq> [] \<Longrightarrow> cursor (snd (it_Last B i)) = (xs, length xs - 1)"
    "n < length xs \<Longrightarrow> it_Item B i = xs ! n"
    "n < length xs \<Longrightarrow> fst (it_Next B i) = (Suc n < length xs)" "Suc n < length xs \<Longrightarrow> cursor (snd (it_Next B i)) = (xs, Suc n)"
    "n < length xs \<Longrightarrow> fst (it_Prev B i) = (0 < n)" "n < length xs \<Longrightarrow> 0 < n \<Longrightarrow> cursor (snd (it_Prev B i)) = (xs, n - 1)"
  using assms unfolding tidwall_btree_def by simp_all

lemma seekD:
  assumes "tidwall_btree B lt items cursor" "cursor i = (xs, n)" "strict_total lt (insert x (set xs))" "sorted_wrt lt xs"
    and "k = length (filter (\<lambda>y. lt y x) xs)"
  shows "fst (it_Seek B x i) = (k < length xs)" "fst (cursor (snd (it_Seek B x i))) = xs"
    "k < length xs \<Longrightarrow> cursor (snd (it_Seek B x i)) = (xs, k)"
proof -
  have "fst (it_Seek B x i) = (k < length xs) \<and> fst (cursor (snd (it_Seek B x i))) = xs \<and>
      (k < length xs \<longrightarrow> snd (cursor (snd (it_Seek B x i))) = k)"
    using assms unfolding tidwall_btree_def Let_def by blast
  then show "fst (it_Seek B x i) = (k < length xs)" "fst (cursor (snd (it_Seek B x i))) = xs"
    "k < length xs \<Longrightarrow> cursor (snd (it_Seek B x i)) = (xs, k)"
    by (auto intro: prod_eqI)
qed

text \<open>What an iterator has still to return.\<close>

lemma drain_forward:
  assumes "tidwall_btree B lt items cursor" "cursor (mi_iter it) = (xs, n)" "n < length xs" "mi_hasMore it" "\<not> mi_firstCall it"
    "mi_direction it = ScanDirectionForward" "length xs \<le> n + fuel"
  shows "drain_scan B fuel it = Some (drop (Suc n) xs)"
  using assms(2-)
proof (induction fuel arbitrary: it n)
  case (Suc fuel)
  note c = cursorD [OF assms(1) Suc.prems(1)]
  show ?case
  proof (cases "Suc n < length xs")
    case True
    let ?it = "it\<lparr>mi_iter := snd (it_Next B (mi_iter it)), mi_hasMore := True\<rparr>"
    have it: "BTreeIterator_Next B it = (True, ?it)" using c(6) Suc.prems True by (simp add: BTreeIterator_Next_def case_prod_beta Let_def)
    have cu: "cursor (mi_iter ?it) = (xs, Suc n)" using c(7) True by simp
    have "drain_scan B fuel ?it = Some (drop (Suc (Suc n)) xs)" using Suc.IH [OF cu] True Suc.prems by simp
    then show ?thesis
      using it cursorD(5) [OF assms(1) cu True] True by (simp add: BTreeIterator_Key_def BTreeIterator_Value_def Cons_nth_drop_Suc)
  next
    case False
    then show ?thesis using c(6) Suc.prems by (simp add: BTreeIterator_Next_def case_prod_beta Let_def)
  qed
qed simp

lemma drain_backward:
  assumes "tidwall_btree B lt items cursor" "cursor (mi_iter it) = (xs, n)" "n < length xs" "mi_hasMore it" "\<not> mi_firstCall it"
    "mi_direction it = ScanDirectionBackward" "n < fuel"
  shows "drain_scan B fuel it = Some (rev (take n xs))"
  using assms(2-)
proof (induction fuel arbitrary: it n)
  case (Suc fuel)
  note c = cursorD [OF assms(1) Suc.prems(1)]
  show ?case
  proof (cases n)
    case (Suc m)
    let ?it = "it\<lparr>mi_iter := snd (it_Prev B (mi_iter it)), mi_hasMore := True\<rparr>"
    have it: "BTreeIterator_Next B it = (True, ?it)" using c(8) Suc.prems Suc by (simp add: BTreeIterator_Next_def case_prod_beta Let_def)
    have m: "m < length xs" using Suc.prems(2) Suc by simp
    have cu: "cursor (mi_iter ?it) = (xs, m)" using c(9) Suc.prems(2) Suc by simp
    have "drain_scan B fuel ?it = Some (rev (take m xs))" using Suc.IH [OF cu] m Suc.prems Suc by simp
    then show ?thesis
      using it cursorD(5) [OF assms(1) cu m] m Suc by (simp add: BTreeIterator_Key_def BTreeIterator_Value_def take_Suc_conv_app_nth)
  next
    case 0
    then show ?thesis using c(8) Suc.prems by (simp add: BTreeIterator_Next_def case_prod_beta Let_def)
  qed
qed simp

lemma drain_start:
  assumes "tidwall_btree B lt items cursor" "it = \<lparr>mi_iter = i, mi_direction = d, mi_firstCall = True, mi_hasMore = b\<rparr>" "length xs < fuel"
    "b \<Longrightarrow> cursor i = (xs, n) \<and> n < length xs"
  shows "drain_scan B fuel it =
    Some (if \<not> b then [] else case d of ScanDirectionForward \<Rightarrow> drop n xs | ScanDirectionBackward \<Rightarrow> rev (take (Suc n) xs))"
proof -
  obtain m where m: "fuel = Suc m" "length xs \<le> m" using assms(3) by (cases fuel) auto
  let ?it = "it\<lparr>mi_firstCall := False\<rparr>"
  have nx: "BTreeIterator_Next B it = (b, ?it)" by (simp add: BTreeIterator_Next_def assms(2))
  show ?thesis
  proof (cases b)
    case True
    then have cu: "cursor (mi_iter ?it) = (xs, n)" "n < length xs" using assms(2,4) by simp_all
    have e: "entry (BTreeIterator_Key B ?it) (BTreeIterator_Value B ?it) = xs ! n"
      using cursorD(5) [OF assms(1) cu] by (simp add: BTreeIterator_Key_def BTreeIterator_Value_def)
    show ?thesis
    proof (cases d)
      case ScanDirectionForward
      then have "drain_scan B m ?it = Some (drop (Suc n) xs)"
        using drain_forward [OF assms(1) cu] True m by (simp add: assms(2))
      then show ?thesis using nx e True m ScanDirectionForward cu(2) by (simp add: Cons_nth_drop_Suc)
    next
      case ScanDirectionBackward
      then have "drain_scan B m ?it = Some (rev (take n xs))"
        using drain_backward [OF assms(1) cu] True m cu(2) by (simp add: assms(2))
      then show ?thesis using nx e True m ScanDirectionBackward cu(2) by (simp add: take_Suc_conv_app_nth)
    qed
  qed (use nx m in simp)
qed

lemma strict_totalD:
  assumes "strict_total lt S"
  shows "a \<in> S \<Longrightarrow> \<not> lt a a" "a \<in> S \<Longrightarrow> b \<in> S \<Longrightarrow> c \<in> S \<Longrightarrow> lt a b \<Longrightarrow> lt b c \<Longrightarrow> lt a c"
    "a \<in> S \<Longrightarrow> b \<in> S \<Longrightarrow> a \<noteq> b \<Longrightarrow> lt a b \<or> lt b a"
  using assms unfolding strict_total_def by blast+

lemma strict_total_mono: "strict_total lt S \<Longrightarrow> T \<subseteq> S \<Longrightarrow> strict_total lt T"
  unfolding strict_total_def by blast

lemma sorted_filter_split:
  assumes "sorted_wrt lt xs" "strict_total lt (insert x (set xs))"
  shows "xs = filter (\<lambda>y. lt y x) xs @ filter (\<lambda>y. \<not> lt y x) xs"
  using assms
proof (induction xs)
  case (Cons a xs)
  have st: "strict_total lt (insert x (set xs))" by (rule strict_total_mono [OF Cons.prems(2)]) auto
  have ih: "xs = filter (\<lambda>y. lt y x) xs @ filter (\<lambda>y. \<not> lt y x) xs"
    by (rule Cons.IH [OF _ st]) (use Cons.prems(1) in simp)
  show ?case
  proof (cases "lt a x")
    case True
    then have "filter (\<lambda>y. lt y x) (a # xs) @ filter (\<lambda>y. \<not> lt y x) (a # xs) = a # (filter (\<lambda>y. lt y x) xs @ filter (\<lambda>y. \<not> lt y x) xs)" by simp
    then show ?thesis by (simp only: ih [symmetric])
  next
    case False
    have "\<not> lt y x" if "y \<in> set xs" for y
    proof -
      have "lt a y" using that Cons.prems(1) by simp
      then show ?thesis using strict_totalD(2) [OF Cons.prems(2), of a y x] that False by auto
    qed
    then show ?thesis using False by simp
  qed
qed simp

lemma filter_split_take:
  assumes "xs = filter P xs @ filter (\<lambda>y. \<not> P y) xs" "k = length (filter P xs)"
  shows "take k xs = filter P xs" "drop k xs = filter (\<lambda>y. \<not> P y) xs"
  using assms by (metis append_eq_conv_conj)+

definition below :: "IndexMetadata \<Rightarrow> Key \<Rightarrow> btreeItem \<Rightarrow> bool" where
  "below md start e \<longleftrightarrow> key_cmp md (bi_key e) start < 0"

lemma item_less_pivot:
  assumes "schema_ok md" "key_ok md start" "item_ok md e"
  shows "item_less e (entry start nilRecordID) \<longleftrightarrow> below md start e"
  using assms rid_ok_least [of "bi_rid e"] item_less_iff [of md e "entry start nilRecordID"] by (auto simp: item_ok_def below_def)

text \<open>The entries a scan from \<open>start\<close> visits, in order.\<close>

definition scan_range :: "IndexMetadata \<Rightarrow> Key \<Rightarrow> ScanDirection \<Rightarrow> btreeItem list \<Rightarrow> btreeItem list" where
  "scan_range md start direction xs = (case direction of
     ScanDirectionForward \<Rightarrow> if Key_IsNil start then xs else filter (\<lambda>e. \<not> below md start e) xs
   | ScanDirectionBackward \<Rightarrow>
       if Key_IsNil start then rev xs
       else rev (filter (below md start) xs @ take 1 (filter (\<lambda>e. bi_key e = start) xs)))"

lemma BTree_Scan_nil:
  assumes "tidwall_btree B item_less items cursor" "Key_IsNil start" "length (items (bx_tree index)) < fuel"
  shows "\<exists>it. BTree_Scan B start direction index = Some it \<and>
    drain_scan B fuel it = Some (scan_range (bx_metadata index) start direction (items (bx_tree index)))"
proof -
  let ?xs = "items (bx_tree index)"
  obtain n where cu: "cursor (bt_Iter B (bx_tree index)) = (?xs, n)"
    using assms(1) unfolding tidwall_btree_def by (metis prod.collapse)
  note c = cursorD [OF assms(1) cu]
  define p where "p = (case direction of ScanDirectionForward \<Rightarrow> it_First B (bt_Iter B (bx_tree index)) | ScanDirectionBackward \<Rightarrow> it_Last B (bt_Iter B (bx_tree index)))"
  let ?it = "\<lparr>mi_iter = snd p, mi_direction = direction, mi_firstCall = True, mi_hasMore = fst p\<rparr>"
  have it: "BTree_Scan B start direction index = Some ?it"
    using assms(2) by (cases direction) (simp_all add: BTree_Scan_def seek_start_def p_def case_prod_beta)
  let ?m = "case direction of ScanDirectionForward \<Rightarrow> 0 | ScanDirectionBackward \<Rightarrow> length ?xs - 1"
  have p: "fst p = (?xs \<noteq> [])" "?xs \<noteq> [] \<Longrightarrow> cursor (snd p) = (?xs, ?m) \<and> ?m < length ?xs"
    using c by (cases direction; simp add: p_def)+
  have "drain_scan B fuel ?it = Some (scan_range (bx_metadata index) start direction ?xs)"
    using drain_start [OF assms(1) refl assms(3), of "fst p" "snd p" ?m direction] p assms(2)
    by (cases direction) (auto simp: scan_range_def)
  then show ?thesis using it by blast
qed

lemma pivot_next:
  assumes "btree_ok items index" "key_ok (bx_metadata index) start" "xs = items (bx_tree index)"
    "k = length (filter (below (bx_metadata index) start) xs)" "k < length xs"
  shows "key_cmp (bx_metadata index) (bi_key (xs ! k)) start > 0 \<Longrightarrow> filter (\<lambda>e. bi_key e = start) xs = []"
    and "\<not> key_cmp (bx_metadata index) (bi_key (xs ! k)) start > 0 \<Longrightarrow> take 1 (filter (\<lambda>e. bi_key e = start) xs) = [xs ! k]"
proof -
  let ?md = "bx_metadata index" and ?p = "entry start nilRecordID"
  have p: "item_ok ?md ?p" using assms(2) by (simp add: item_ok_entry)
  have sch: "schema_ok ?md" and so: "sorted_wrt item_less xs" using assms(1,3) by (simp_all add: btree_ok_def)
  have ok: "item_ok ?md e" if "e \<in> set xs" for e using assms(1,3) that by (simp add: btree_ok_def)
  have kc: "key_cmp ?md (bi_key e) start = 0 \<longleftrightarrow> bi_key e = start" if "e \<in> set xs" for e
    using key_cmp_zero [OF sch] ok [OF that] assms(2) by (simp add: item_ok_def)
  have "filter (\<lambda>y. item_less y ?p) xs = filter (below ?md start) xs"
    using item_less_pivot [OF sch assms(2) ok] by (intro filter_cong) simp_all
  moreover have "filter (\<lambda>y. \<not> item_less y ?p) xs = filter (\<lambda>e. \<not> below ?md start e) xs"
    using item_less_pivot [OF sch assms(2) ok] by (intro filter_cong) simp_all
  ultimately have sp: "xs = filter (below ?md start) xs @ filter (\<lambda>e. \<not> below ?md start e) xs"
    using sorted_filter_split [OF so, of ?p] btree_total [OF assms(1) p] assms(3) by simp
  have dr: "drop k xs = filter (\<lambda>e. \<not> below ?md start e) xs" using filter_split_take(2) [OF sp assms(4)] .
  have hd: "xs ! k # drop (Suc k) xs = filter (\<lambda>e. \<not> below ?md start e) xs" using Cons_nth_drop_Suc [OF assms(5)] dr by simp
  have nb: "\<not> below ?md start e" if "e \<in> set (xs ! k # drop (Suc k) xs)" for e using that unfolding hd by simp
  have mem: "xs ! k \<in> set xs" using assms(5) by simp
  have eqs: "filter (\<lambda>e. bi_key e = start) xs = filter (\<lambda>e. bi_key e = start) (xs ! k # drop (Suc k) xs)"
  proof -
    have "\<not> below ?md start e" if "e \<in> set xs" "bi_key e = start" for e using kc [OF that(1)] that(2) by (simp add: below_def)
    then show ?thesis unfolding hd filter_filter by (intro filter_cong) auto
  qed
  show "filter (\<lambda>e. bi_key e = start) xs = []" if g: "key_cmp ?md (bi_key (xs ! k)) start > 0"
  proof -
    have "bi_key e \<noteq> start" if e: "e \<in> set (drop (Suc k) xs)" for e
    proof
      assume eq: "bi_key e = start"
      have ex: "e \<in> set xs" using e by (meson in_set_dropD)
      have "sorted_wrt item_less (xs ! k # drop (Suc k) xs)" using so hd sorted_wrt_filter by metis
      then have "item_less (xs ! k) e" using e by simp
      then show False using item_less_iff [OF sch] ok [OF mem] ok [OF ex] eq g by (auto simp: item_ok_def key_order.cmp_refl sch assms(2))
    qed
    moreover have "bi_key (xs ! k) \<noteq> start" using g kc [OF mem] by auto
    ultimately show ?thesis unfolding eqs by (simp add: filter_empty_conv)
  qed
  show "take 1 (filter (\<lambda>e. bi_key e = start) xs) = [xs ! k]" if "\<not> key_cmp ?md (bi_key (xs ! k)) start > 0"
  proof -
    have "bi_key (xs ! k) = start" using that nb [of "xs ! k"] kc [OF mem] by (auto simp: below_def)
    then show ?thesis unfolding eqs by simp
  qed
qed

lemma BTree_Scan_spec:
  assumes "tidwall_btree B item_less items cursor" "btree_ok items index" "key_ok (bx_metadata index) start"
    "length (items (bx_tree index)) < fuel"
  shows "\<exists>it. BTree_Scan B start direction index = Some it \<and>
    drain_scan B fuel it = Some (scan_range (bx_metadata index) start direction (items (bx_tree index)))"
proof -
  let ?xs = "items (bx_tree index)" and ?md = "bx_metadata index" and ?p = "entry start nilRecordID" and ?i = "bt_Iter B (bx_tree index)"
  have p: "item_ok ?md ?p" using assms(3) by (simp add: item_ok_entry)
  have sch: "schema_ok ?md" and so: "sorted_wrt item_less ?xs" using assms(2) by (simp_all add: btree_ok_def)
  have ok: "item_ok ?md e" if "e \<in> set ?xs" for e using assms(2) that by (simp add: btree_ok_def)
  obtain n where cu: "cursor ?i = (?xs, n)" using assms(1) unfolding tidwall_btree_def by (metis prod.collapse)
  define k where "k = length (filter (below ?md start) ?xs)"
  have f: "filter (\<lambda>y. item_less y ?p) ?xs = filter (below ?md start) ?xs"
    "filter (\<lambda>y. \<not> item_less y ?p) ?xs = filter (\<lambda>e. \<not> below ?md start e) ?xs"
    using item_less_pivot [OF sch assms(3) ok] by (auto intro!: filter_cong)
  have sp: "?xs = filter (below ?md start) ?xs @ filter (\<lambda>e. \<not> below ?md start e) ?xs"
    using sorted_filter_split [OF so btree_total [OF assms(2) p]] f by simp
  note parts = filter_split_take [OF sp k_def]
  obtain b j where seek: "it_Seek B ?p ?i = (b, j)" by fastforce
  note sk = seekD [OF assms(1) cu btree_total [OF assms(2) p] so, of k, unfolded f(1) seek fst_conv snd_conv, OF k_def]
  have pv: "entry start nilRecordID = \<lparr>bi_key = start, bi_rid = nilRecordID\<rparr>" by (simp add: entry_def)
  note nn = key_ok_not_nil [OF assms(3)] and km = key_ok_matches [OF assms(3)]
  show ?thesis
  proof (cases direction)
    case ScanDirectionForward
    have "BTree_Scan B start direction index = Some \<lparr>mi_iter = j, mi_direction = direction, mi_firstCall = True, mi_hasMore = b\<rparr>"
      using seek nn km ScanDirectionForward by (simp add: BTree_Scan_def seek_start_def pv)
    moreover have "drop k ?xs = []" if "\<not> b" using that sk(1) by simp
    ultimately show ?thesis
      using drain_start [OF assms(1) refl assms(4), of b j k direction] sk nn parts(2) ScanDirectionForward
      by (auto simp: scan_range_def)
  next
    case ScanDirectionBackward
    note bw = ScanDirectionBackward
    have rg: "scan_range ?md start direction ?xs = rev (take k ?xs @ take 1 (filter (\<lambda>e. bi_key e = start) ?xs))"
      using nn parts(1) bw by (simp add: scan_range_def)
    show ?thesis
    proof (cases b)
      case False
      then have k: "\<not> k < length ?xs" using sk(1) by simp
      obtain n' where cj: "cursor j = (?xs, n')" using sk(2) by (metis prod.collapse)
      note c = cursorD [OF assms(1) cj]
      have it: "BTree_Scan B start direction index =
          Some \<lparr>mi_iter = snd (it_Last B j), mi_direction = direction, mi_firstCall = True, mi_hasMore = (?xs \<noteq> [])\<rparr>"
        using seek nn km bw False c(3) by (simp add: BTree_Scan_def seek_start_def pv case_prod_beta)
      have "filter (\<lambda>e. \<not> below ?md start e) ?xs = []" using k parts(2) by simp
      then have "filter (\<lambda>e. bi_key e = start) ?xs = []"
        using key_order.cmp_refl [of ?md start] sch assms(3) by (auto simp: filter_empty_conv below_def)
      then show ?thesis
        using drain_start [OF assms(1) refl assms(4), of "?xs \<noteq> []" "snd (it_Last B j)" "length ?xs - 1" direction] c(4) k it bw rg
        by (auto simp: Suc_diff_1)
    next
      case True
      then have k: "k < length ?xs" and cj: "cursor j = (?xs, k)" using sk by simp_all
      note c = cursorD [OF assms(1) cj] and pn = pivot_next [OF assms(2,3) refl k_def k]
      let ?c = "key_cmp ?md (bi_key (?xs ! k)) start"
      have cmp: "Key_Compare (bi_key (it_Item B j)) start = Some ?c"
        using c(5) [OF k] Key_Compare_cmp [OF sch _ assms(3)] ok [of "?xs ! k"] k by (simp add: item_ok_def)
      have it: "BTree_Scan B start direction index = Some \<lparr>mi_iter = (if ?c > 0 then snd (it_Prev B j) else j), mi_direction = direction,
          mi_firstCall = True, mi_hasMore = (if ?c > 0 then 0 < k else True)\<rparr>"
        using seek nn km bw True c(8) [OF k] cmp by (simp add: BTree_Scan_def seek_start_def pv case_prod_beta)
      show ?thesis
      proof (cases "?c > 0")
        case True
        then show ?thesis
          using drain_start [OF assms(1) refl assms(4), of "0 < k" "snd (it_Prev B j)" "k - 1" direction] c(9) [OF k] k it bw rg pn(1)
          by (auto simp: Suc_diff_1)
      next
        case False
        then show ?thesis
          using drain_start [OF assms(1) refl assms(4), of True j k direction] cj k it bw rg pn(2)
          by (auto simp: take_Suc_conv_app_nth)
      qed
    qed
  qed
qed

lemma BTree_Invoke_spec:
  assumes "tidwall_btree B item_less items cursor" "btree_ok items index" "key_ok (bx_metadata index) key" "rid_ok rid"
  shows "\<exists>index'. BTree_Invoke B ty (k_RawTuple key) rid index = Some index' \<and> btree_ok items index' \<and> bx_metadata index' = bx_metadata index \<and>
      set (items (bx_tree index')) = set (items (bx_tree index)) - {entry key rid}"
  using BTree_DeleteEntry_spec(1) [OF assms, where self = "()"] by (auto simp: BTree_Invoke_def AsKey_key_ok [OF assms(3)])

section \<open>An instance of the parameter: sorted lists\<close>

definition list_btree :: "('a \<Rightarrow> 'a \<Rightarrow> bool) \<Rightarrow> ('a, 'a list, 'a list \<times> nat) BTreeG" where
  "list_btree lt = \<lparr>bt_New = (\<lambda>_. []),
     bt_Set = (\<lambda>x t. filter (\<lambda>y. lt y x) t @ x # filter (lt x) t),
     bt_Delete = (\<lambda>x t. filter (\<lambda>y. y \<noteq> x) t),
     bt_Get = (\<lambda>x t. if x \<in> set t then Some x else None),
     bt_Ascend = (\<lambda>x t. filter (\<lambda>y. \<not> lt y x) t),
     bt_Iter = (\<lambda>t. (t, 0)),
     it_Seek = (\<lambda>x (t, n). let k = length (filter (\<lambda>y. lt y x) t) in (k < length t, (t, k))),
     it_First = (\<lambda>(t, n). (t \<noteq> [], (t, 0))),
     it_Last = (\<lambda>(t, n). (t \<noteq> [], (t, length t - 1))),
     it_Next = (\<lambda>(t, n). (Suc n < length t, (t, Suc n))),
     it_Prev = (\<lambda>(t, n). (0 < n, (t, n - 1))),
     it_Item = (\<lambda>(t, n). t ! n)\<rparr>"

lemma tidwall_list_btree: "tidwall_btree (list_btree lt) lt id id"
  by (auto simp: tidwall_btree_def list_btree_def Let_def)

text \<open>
  C19: a range scan visits the entries in the order of the keys (forward: those whose key is at least the start; without a
  start: all). A backward scan visits the entries below the start in descending order, but of the entries whose key is
  the start only the one with the least record identifier: the tree is searched with the zero identifier, which
  finds the first of them, and the scan goes on downwards from there.
\<close>

theorem BTree_Scan_entries:
  assumes "tidwall_btree B item_less items cursor" "btree_ok items index" "Key_IsNil start \<or> key_ok (bx_metadata index) start"
    "length (items (bx_tree index)) < fuel"
  shows "\<exists>it. BTree_Scan B start direction index = Some it \<and>
    drain_scan B fuel it = Some (case direction of
      ScanDirectionForward \<Rightarrow> filter (\<lambda>e. Key_IsNil start \<or> 0 \<le> key_cmp (bx_metadata index) (bi_key e) start) (items (bx_tree index))
    | ScanDirectionBackward \<Rightarrow>
        if Key_IsNil start then rev (items (bx_tree index))
        else rev (filter (\<lambda>e. key_cmp (bx_metadata index) (bi_key e) start < 0) (items (bx_tree index)) @
                  take 1 (filter (\<lambda>e. bi_key e = start) (items (bx_tree index)))))"
proof -
  have "\<exists>it. BTree_Scan B start direction index = Some it \<and>
      drain_scan B fuel it = Some (scan_range (bx_metadata index) start direction (items (bx_tree index)))"
    using BTree_Scan_nil [OF assms(1) _ assms(4)] BTree_Scan_spec [OF assms(1,2) _ assms(4)] assms(3) by blast
  then show ?thesis
    by (cases direction) (auto simp: scan_range_def below_def [abs_def] not_less)
qed

definition demo_rid :: "nat \<Rightarrow> RecordID" where
  "demo_rid n = \<lparr>rid_PageID = pid_of 1 0, Slot = of_nat n\<rparr>"

text \<open>Two rows with the key 1 and one with the key 2: the backward scan from 1 misses the second row with the key 1.\<close>

definition demo_key :: "nat \<Rightarrow> Key" where
  "demo_key n = \<lparr>k_RawTuple = of_nat n # replicate 7 0, k_schema = Some int_ref\<rparr>"

definition demo_index :: "btreeItem list MemBTreeIndex" where
  "demo_index = \<lparr>bx_tree = [entry (demo_key 1) (demo_rid 1), entry (demo_key 1) (demo_rid 2), entry (demo_key 2) (demo_rid 3)],
     bx_metadata = \<lparr>KeySchema = int_ref, ProjectionList = [0]\<rparr>\<rparr>"

lemma demo_ok: "btree_ok id demo_index"
  by code_simp

theorem BTree_Scan_entries_witness:
  "\<exists>it. BTree_Scan (list_btree item_less) (demo_key 1) ScanDirectionBackward demo_index = Some it \<and>
     drain_scan (list_btree item_less) 4 it = Some [entry (demo_key 1) (demo_rid 1)]"
proof -
  let ?md = "bx_metadata demo_index" and ?xs = "id (bx_tree demo_index)"
  have ok: "\<not> Key_IsNil (demo_key 1)" "key_ok ?md (demo_key 1)" "length ?xs < 4" by code_simp+
  have res: "rev (filter (\<lambda>e. key_cmp ?md (bi_key e) (demo_key 1) < 0) ?xs @ take 1 (filter (\<lambda>e. bi_key e = demo_key 1) ?xs)) =
      [entry (demo_key 1) (demo_rid 1)]" by code_simp
  show ?thesis
    using BTree_Scan_entries [OF tidwall_list_btree demo_ok disjI2 [OF ok(2)] ok(3), of ScanDirectionBackward] res ok(1) by simp
qed

end
