(* ===== verification/Indexing_Manager.thy ===== *)
theory Indexing_Manager
  imports Indexing_BTree Catalog
begin

text \<open>
  The interface \<open>Index\<close> and the index manager (\<open>indexing/index.go\<close>, \<open>indexing/index_manager.go\<close>).

  A runtime index is one of the two implementations, and a call of the interface is the dispatch on it; \<open>X\<close> and \<open>B\<close> are
  the concurrent map and the tree the implementations use. The locale \<open>point_index\<close> is what the clients of an index
  rely on: an index is a set of pairs of a key and a record identifier, an insertion registers its undo, and a deletion
  in a transaction is deferred to the commit. It is interpreted on the dispatch. The theorems show that every
  sequence of calls agrees with the set, and what the end of a transaction does to it.
\<close>

section \<open>Runtime indexes\<close>

datatype ('m, 't) RuntimeIndex = HashIndex "'m MemHashIndex" | BTreeIndex "'t MemBTreeIndex"

fun Index_Metadata :: "('m, 't) RuntimeIndex \<Rightarrow> IndexMetadata" where
  "Index_Metadata (HashIndex index) = hx_metadata index"
| "Index_Metadata (BTreeIndex index) = bx_metadata index"

fun Index_InsertEntry :: "(bytes, nat, 'm) MapOf \<Rightarrow> (btreeItem, 't, 'it) BTreeG \<Rightarrow> 'i \<Rightarrow> Key \<Rightarrow> RecordID \<Rightarrow> 'i TransactionContext option \<Rightarrow>
    ('m, 't) RuntimeIndex \<Rightarrow> ('i TransactionContext option \<times> ('m, 't) RuntimeIndex) option" where
  "Index_InsertEntry X B self key rid txn (HashIndex index) = map_option (map_prod id HashIndex) (Hash_InsertEntry X self key rid txn index)"
| "Index_InsertEntry X B self key rid txn (BTreeIndex index) = map_option (map_prod id BTreeIndex) (BTree_InsertEntry B self key rid txn index)"

fun Index_DeleteEntry :: "(bytes, nat, 'm) MapOf \<Rightarrow> (btreeItem, 't, 'it) BTreeG \<Rightarrow> 'i \<Rightarrow> Key \<Rightarrow> RecordID \<Rightarrow> 'i TransactionContext option \<Rightarrow>
    ('m, 't) RuntimeIndex \<Rightarrow> ('i TransactionContext option \<times> ('m, 't) RuntimeIndex) option" where
  "Index_DeleteEntry X B self key rid txn (HashIndex index) = map_option (map_prod id HashIndex) (Hash_DeleteEntry X self key rid txn index)"
| "Index_DeleteEntry X B self key rid txn (BTreeIndex index) = map_option (map_prod id BTreeIndex) (BTree_DeleteEntry B self key rid txn index)"

fun Index_ScanKey :: "(bytes, nat, 'm) MapOf \<Rightarrow> (btreeItem, 't, 'it) BTreeG \<Rightarrow> Key \<Rightarrow> RecordID list \<Rightarrow> ('m, 't) RuntimeIndex \<Rightarrow> RecordID list option" where
  "Index_ScanKey X B key output (HashIndex index) = Hash_ScanKey X key output index"
| "Index_ScanKey X B key output (BTreeIndex index) = BTree_ScanKey B key output index"

fun Index_Scan :: "(btreeItem, 't, 'it) BTreeG \<Rightarrow> Key \<Rightarrow> ScanDirection \<Rightarrow> ('m, 't) RuntimeIndex \<Rightarrow> (string + 'it MemBTreeIndexIterator) option" where
  "Index_Scan B start direction (HashIndex index) = (case Hash_Scan start direction index of Inl err \<Rightarrow> Some (Inl err) | Inr _ \<Rightarrow> None)"
| "Index_Scan B start direction (BTreeIndex index) = map_option Inr (BTree_Scan B start direction index)"

fun Index_Invoke :: "(bytes, nat, 'm) MapOf \<Rightarrow> (btreeItem, 't, 'it) BTreeG \<Rightarrow> IndexOpType \<Rightarrow> bytes \<Rightarrow> RecordID \<Rightarrow> ('m, 't) RuntimeIndex \<Rightarrow>
    ('m, 't) RuntimeIndex option" where
  "Index_Invoke X B opType key rid (HashIndex index) = map_option HashIndex (Hash_Invoke X opType key rid index)"
| "Index_Invoke X B opType key rid (BTreeIndex index) = map_option BTreeIndex (BTree_Invoke B opType key rid index)"

section \<open>The index manager\<close>

type_synonym ('m, 't) IndexManager = "ObjectID \<rightharpoonup> ('m, 't) RuntimeIndex"

text \<open>The position of a column name; the last of equal names wins.\<close>

definition name_map :: "Column list \<Rightarrow> string \<rightharpoonup> nat" where
  "name_map cols = fold (\<lambda>(i, col) m. m(col_Name col \<mapsto> i)) (enumerate 0 cols) Map.empty"

fun key_columns :: "string \<Rightarrow> (string \<rightharpoonup> nat) \<Rightarrow> string list \<Rightarrow> string + nat list" where
  "key_columns tname nameMap [] = Inr []"
| "key_columns tname nameMap (name # ns) = (case nameMap name of
     None \<Rightarrow> Inl (''column '' @ quoted name @ '' in index definition does not exist in table '' @ quoted tname)
   | Some i \<Rightarrow> (case key_columns tname nameMap ns of Inl err \<Rightarrow> Inl err | Inr is \<Rightarrow> Inr (i # is)))"

text \<open>A new index; \<open>addr\<close> is the address of its new schema. \<open>None\<close> is a panic of \<open>NewRawTupleDesc\<close>.\<close>

definition new_index :: "(bytes, nat, 'm) MapOf \<Rightarrow> (btreeItem, 't, 'it) BTreeG \<Rightarrow> nat \<Rightarrow> Table \<Rightarrow> Index \<Rightarrow> (string + ('m, 't) RuntimeIndex) option" where
  "new_index X B addr table i = (case key_columns (tb_Name table) (name_map (tb_Columns table)) (ix_KeySchema i) of
     Inl err \<Rightarrow> Some (Inl err)
   | Inr indices \<Rightarrow> do {
       keyFields \<leftarrow> option_list (map (\<lambda>c. map_option col_Type (idx (tb_Columns table) c)) indices);
       desc \<leftarrow> NewRawTupleDesc keyFields;
       let keySchema = (addr, desc);
       Some (if ix_Type i = ''hash'' then Inr (HashIndex (NewMemHashIndex X keySchema indices))
             else if ix_Type i = ''btree'' then Inr (BTreeIndex (NewMemBTreeIndex B keySchema indices))
             else Inl (''unsupported index type '' @ quoted (ix_Type i) @ '' for index '' @ quoted (ix_Name i)))
     })"

fun load_indexes :: "(bytes, nat, 'm) MapOf \<Rightarrow> (btreeItem, 't, 'it) BTreeG \<Rightarrow> nat \<Rightarrow> (Table \<times> Index) list \<Rightarrow> ('m, 't) IndexManager \<Rightarrow>
    (string + ('m, 't) IndexManager) option" where
  "load_indexes X B addr [] im = Some (Inr im)"
| "load_indexes X B addr ((table, i) # defs) im = do {
     r \<leftarrow> new_index X B addr table i;
     (case r of Inl err \<Rightarrow> Some (Inl err) | Inr index \<Rightarrow> load_indexes X B (Suc addr) defs (im(ix_Oid i \<mapsto> index)))
   }"

definition NewIndexManager :: "(bytes, nat, 'm) MapOf \<Rightarrow> (btreeItem, 't, 'it) BTreeG \<Rightarrow> Catalog \<Rightarrow> (string + ('m, 't) IndexManager) option" where
  "NewIndexManager X B c = load_indexes X B 0 (concat (map (\<lambda>t. map (Pair t) (tb_Indexes t)) (Tables c))) Map.empty"

definition GetIndex :: "('m, 't) IndexManager \<Rightarrow> ObjectID \<Rightarrow> string + ('m, 't) RuntimeIndex" where
  "GetIndex im oid = (case im oid of Some index \<Rightarrow> Inr index | None \<Rightarrow> Inl (''object '' @ quoted (decimal (unat oid)) @ '' not found''))"

section \<open>The contract of an index\<close>

definition undo_task :: "'i \<Rightarrow> Key \<Rightarrow> RecordID \<Rightarrow> 'i IndexTask" where
  "undo_task self key rid = \<lparr>it_Target = self, it_Type = IndexOpUndoInsert, it_Key = k_RawTuple key, it_RID = rid\<rparr>"

definition delete_task :: "'i \<Rightarrow> Key \<Rightarrow> RecordID \<Rightarrow> 'i IndexTask" where
  "delete_task self key rid = \<lparr>it_Target = self, it_Type = IndexOpDelete, it_Key = k_RawTuple key, it_RID = rid\<rparr>"

text \<open>The calls of a client, for given operations, and the set they stand for.\<close>

datatype index_call = ICInsert Key RecordID | ICDelete Key RecordID | ICScan Key

fun run_calls :: "('i \<Rightarrow> Key \<Rightarrow> RecordID \<Rightarrow> 'i TransactionContext option \<Rightarrow> 'x \<Rightarrow> ('i TransactionContext option \<times> 'x) option) \<Rightarrow>
    ('i \<Rightarrow> Key \<Rightarrow> RecordID \<Rightarrow> 'i TransactionContext option \<Rightarrow> 'x \<Rightarrow> ('i TransactionContext option \<times> 'x) option) \<Rightarrow>
    (Key \<Rightarrow> RecordID list \<Rightarrow> 'x \<Rightarrow> RecordID list option) \<Rightarrow> 'i \<Rightarrow> index_call list \<Rightarrow> 'i TransactionContext option \<Rightarrow> 'x \<Rightarrow>
    (RecordID list list \<times> 'i TransactionContext option \<times> 'x) option" where
  "run_calls ins del scan self [] txn x = Some ([], txn, x)"
| "run_calls ins del scan self (ICInsert key rid # cs) txn x = do {
     (txn, x) \<leftarrow> ins self key rid txn x;
     run_calls ins del scan self cs txn x
   }"
| "run_calls ins del scan self (ICDelete key rid # cs) txn x = do {
     (txn, x) \<leftarrow> del self key rid txn x;
     run_calls ins del scan self cs txn x
   }"
| "run_calls ins del scan self (ICScan key # cs) txn x = do {
     rids \<leftarrow> scan key [] x;
     (rs, txn, x) \<leftarrow> run_calls ins del scan self cs txn x;
     Some (rids # rs, txn, x)
   }"

type_synonym index_set = "(bytes \<times> RecordID) set"

fun abs_calls :: "index_call list \<Rightarrow> index_set \<Rightarrow> RecordID set list \<times> index_set" where
  "abs_calls [] S = ([], S)"
| "abs_calls (ICInsert key rid # cs) S = abs_calls cs (insert (k_RawTuple key, rid) S)"
| "abs_calls (ICDelete key rid # cs) S = abs_calls cs (S - {(k_RawTuple key, rid)})"
| "abs_calls (ICScan key # cs) S = (let (rs, S') = abs_calls cs S in ({r. (k_RawTuple key, r) \<in> S} # rs, S'))"

text \<open>The clients insert an entry only where it is not there yet.\<close>

fun valid_calls :: "IndexMetadata \<Rightarrow> index_call list \<Rightarrow> index_set \<Rightarrow> bool" where
  "valid_calls md [] S \<longleftrightarrow> True"
| "valid_calls md (ICInsert key rid # cs) S \<longleftrightarrow>
     key_ok md key \<and> rid_ok rid \<and> (k_RawTuple key, rid) \<notin> S \<and> valid_calls md cs (insert (k_RawTuple key, rid) S)"
| "valid_calls md (ICDelete key rid # cs) S \<longleftrightarrow> key_ok md key \<and> rid_ok rid \<and> valid_calls md cs (S - {(k_RawTuple key, rid)})"
| "valid_calls md (ICScan key # cs) S \<longleftrightarrow> key_ok md key \<and> valid_calls md cs S"

text \<open>In a transaction a deletion is of an entry that is there, and the entry stays until the commit.\<close>

fun txn_calls :: "IndexMetadata \<Rightarrow> index_call list \<Rightarrow> index_set \<Rightarrow> bool" where
  "txn_calls md [] S \<longleftrightarrow> True"
| "txn_calls md (ICInsert key rid # cs) S \<longleftrightarrow>
     key_ok md key \<and> rid_ok rid \<and> (k_RawTuple key, rid) \<notin> S \<and> txn_calls md cs (insert (k_RawTuple key, rid) S)"
| "txn_calls md (ICDelete key rid # cs) S \<longleftrightarrow> key_ok md key \<and> rid_ok rid \<and> (k_RawTuple key, rid) \<in> S \<and> txn_calls md cs S"
| "txn_calls md (ICScan key # cs) S \<longleftrightarrow> key_ok md key \<and> txn_calls md cs S"

fun inserted :: "index_call list \<Rightarrow> (Key \<times> RecordID) list" where
  "inserted [] = []"
| "inserted (ICInsert key rid # cs) = (key, rid) # inserted cs"
| "inserted (_ # cs) = inserted cs"

fun removed :: "index_call list \<Rightarrow> (Key \<times> RecordID) list" where
  "removed [] = []"
| "removed (ICDelete key rid # cs) = (key, rid) # removed cs"
| "removed (_ # cs) = removed cs"

definition entry_set :: "(Key \<times> RecordID) list \<Rightarrow> index_set" where
  "entry_set es = (\<lambda>(k, r). (k_RawTuple k, r)) ` set es"

lemma txn_calls_keys:
  assumes "txn_calls md cs S"
  shows "\<forall>(k, r) \<in> set (inserted cs). key_ok md k \<and> rid_ok r" "\<forall>(k, r) \<in> set (removed cs). key_ok md k \<and> rid_ok r"
    "entry_set (inserted cs) \<inter> S = {}"
  using assms by (induction md cs S rule: txn_calls.induct) (auto simp: entry_set_def)

definition index_task :: "(IndexOpType \<Rightarrow> bytes \<Rightarrow> RecordID \<Rightarrow> 'x \<Rightarrow> 'x option) \<Rightarrow> 'i IndexTask \<Rightarrow> 'x option \<Rightarrow> 'x option" where
  "index_task invoke task w = do { x \<leftarrow> w; invoke (it_Type task) (it_Key task) (it_RID task) x }"

locale point_index =
  fixes ok :: "'x \<Rightarrow> bool" and metadata :: "'x \<Rightarrow> IndexMetadata" and ents :: "'x \<Rightarrow> bytes \<Rightarrow> RecordID list"
    and ins :: "'i \<Rightarrow> Key \<Rightarrow> RecordID \<Rightarrow> 'i TransactionContext option \<Rightarrow> 'x \<Rightarrow> ('i TransactionContext option \<times> 'x) option"
    and del :: "'i \<Rightarrow> Key \<Rightarrow> RecordID \<Rightarrow> 'i TransactionContext option \<Rightarrow> 'x \<Rightarrow> ('i TransactionContext option \<times> 'x) option"
    and scan :: "Key \<Rightarrow> RecordID list \<Rightarrow> 'x \<Rightarrow> RecordID list option"
    and invoke :: "IndexOpType \<Rightarrow> bytes \<Rightarrow> RecordID \<Rightarrow> 'x \<Rightarrow> 'x option"
  assumes ents_distinct: "ok x \<Longrightarrow> distinct (ents x k)"
    and ins_law: "ok x \<Longrightarrow> key_ok (metadata x) key \<Longrightarrow> rid_ok rid \<Longrightarrow> rid \<notin> set (ents x (k_RawTuple key)) \<Longrightarrow>
      \<exists>x'. ins self key rid txn x = Some (map_option (AddAbortTask (undo_task self key rid)) txn, x') \<and> ok x' \<and> metadata x' = metadata x \<and>
        (\<forall>k. set (ents x' k) = set (ents x k) \<union> (if k = k_RawTuple key then {rid} else {}))"
    and del_law: "ok x \<Longrightarrow> key_ok (metadata x) key \<Longrightarrow> rid_ok rid \<Longrightarrow>
      \<exists>x'. del self key rid None x = Some (None, x') \<and> ok x' \<and> metadata x' = metadata x \<and>
        (\<forall>k. set (ents x' k) = set (ents x k) - (if k = k_RawTuple key then {rid} else {}))"
    and del_txn_law: "ok x \<Longrightarrow> key_ok (metadata x) key \<Longrightarrow> rid_ok rid \<Longrightarrow> rid \<in> set (ents x (k_RawTuple key)) \<Longrightarrow>
      del self key rid (Some t) x = Some (Some (AddCommitTask (delete_task self key rid) t), x)"
    and scan_law: "ok x \<Longrightarrow> key_ok (metadata x) key \<Longrightarrow> scan key output x = Some (output @ ents x (k_RawTuple key))"
    and invoke_law: "ok x \<Longrightarrow> key_ok (metadata x) key \<Longrightarrow> rid_ok rid \<Longrightarrow>
      \<exists>x'. invoke ty (k_RawTuple key) rid x = Some x' \<and> ok x' \<and> metadata x' = metadata x \<and>
        (\<forall>k. set (ents x' k) = set (ents x k) - (if k = k_RawTuple key then {rid} else {}))"
begin

definition index_set :: "'x \<Rightarrow> index_set" where
  "index_set x = {(k, r). r \<in> set (ents x k)}"

lemma index_set_ins:
  assumes "ok x" "key_ok (metadata x) key" "rid_ok rid" "(k_RawTuple key, rid) \<notin> index_set x"
  shows "\<exists>x'. ins self key rid txn x = Some (map_option (AddAbortTask (undo_task self key rid)) txn, x') \<and> ok x' \<and> metadata x' = metadata x \<and>
    index_set x' = insert (k_RawTuple key, rid) (index_set x)"
proof -
  obtain x' where x': "ins self key rid txn x = Some (map_option (AddAbortTask (undo_task self key rid)) txn, x')" "ok x'" "metadata x' = metadata x"
    "\<forall>k. set (ents x' k) = set (ents x k) \<union> (if k = k_RawTuple key then {rid} else {})"
    using ins_law [OF assms(1-3), of self txn] assms(4) by (auto simp: index_set_def)
  have "index_set x' = insert (k_RawTuple key, rid) (index_set x)" using x'(4) by (auto simp: index_set_def split: if_splits)
  then show ?thesis using x'(1-3) by blast
qed

lemma index_set_minus:
  assumes "\<forall>k. set (ents x' k) = set (ents x k) - (if k = k_RawTuple key then {rid} else {})"
  shows "index_set x' = index_set x - {(k_RawTuple key, rid)}"
  using assms by (auto simp: index_set_def split: if_splits)

lemma index_set_invoke:
  assumes "ok x" "key_ok (metadata x) key" "rid_ok rid"
  shows "\<exists>x'. invoke ty (k_RawTuple key) rid x = Some x' \<and> ok x' \<and> metadata x' = metadata x \<and> index_set x' = index_set x - {(k_RawTuple key, rid)}"
proof -
  obtain x' where "invoke ty (k_RawTuple key) rid x = Some x'" "ok x'" "metadata x' = metadata x"
    "\<forall>k. set (ents x' k) = set (ents x k) - (if k = k_RawTuple key then {rid} else {})"
    using invoke_law [OF assms, of ty] by auto
  then show ?thesis using index_set_minus [of x' x key rid] by simp
qed

text \<open>Calls outside a transaction.\<close>

lemma run_calls_refine:
  assumes "ok x" "valid_calls (metadata x) cs (index_set x)"
  shows "\<exists>rs x'. run_calls ins del scan self cs None x = Some (rs, None, x') \<and> ok x' \<and> metadata x' = metadata x \<and>
    (map set rs, index_set x') = abs_calls cs (index_set x) \<and> (\<forall>r \<in> set rs. distinct r)"
  using assms
proof (induction cs arbitrary: x)
  case (Cons c cs)
  show ?case
  proof (cases c)
    case (ICInsert key rid)
    then obtain x1 where x1: "ins self key rid None x = Some (None, x1)" "ok x1" "metadata x1 = metadata x"
      "index_set x1 = insert (k_RawTuple key, rid) (index_set x)"
      using index_set_ins [OF Cons.prems(1), of key rid self None] Cons.prems(2) by auto
    then show ?thesis using Cons.IH [of x1] Cons.prems(2) ICInsert by simp
  next
    case (ICDelete key rid)
    then obtain x1 where x1: "del self key rid None x = Some (None, x1)" "ok x1" "metadata x1 = metadata x"
      "\<forall>k. set (ents x1 k) = set (ents x k) - (if k = k_RawTuple key then {rid} else {})"
      using del_law [OF Cons.prems(1), of key rid self] Cons.prems(2) by auto
    then show ?thesis using Cons.IH [of x1] Cons.prems(2) ICDelete index_set_minus [OF x1(4)] by simp
  next
    case (ICScan key)
    have s: "scan key [] x = Some (ents x (k_RawTuple key))" using scan_law [OF Cons.prems(1)] Cons.prems(2) ICScan by simp
    obtain rs x' where r: "run_calls ins del scan self cs None x = Some (rs, None, x')" "ok x'" "metadata x' = metadata x"
      "(map set rs, index_set x') = abs_calls cs (index_set x)" "\<forall>r \<in> set rs. distinct r"
      using Cons.IH [OF Cons.prems(1)] Cons.prems(2) ICScan by auto
    have "set (ents x (k_RawTuple key)) = {r. (k_RawTuple key, r) \<in> index_set x}" by (simp add: index_set_def)
    then show ?thesis using s r ICScan ents_distinct [OF Cons.prems(1)] by (simp add: r(4) [symmetric])
  qed
qed simp

text \<open>The tasks at the end of a transaction remove their entries.\<close>

lemma tasks_minus:
  assumes "ok x" "\<forall>t \<in> set ts. \<exists>key. key_ok (metadata x) key \<and> it_Key t = k_RawTuple key \<and> rid_ok (it_RID t)"
  shows "\<exists>x'. fold (index_task invoke) ts (Some x) = Some x' \<and> ok x' \<and> metadata x' = metadata x \<and>
    index_set x' = index_set x - (\<lambda>t. (it_Key t, it_RID t)) ` set ts"
  using assms
proof (induction ts arbitrary: x)
  case (Cons t ts)
  then obtain key where k: "key_ok (metadata x) key" "it_Key t = k_RawTuple key" "rid_ok (it_RID t)" by auto
  obtain x1 where x1: "invoke (it_Type t) (it_Key t) (it_RID t) x = Some x1" "ok x1" "metadata x1 = metadata x"
    "index_set x1 = index_set x - {(it_Key t, it_RID t)}"
    using index_set_invoke [OF Cons.prems(1) k(1,3)] k(2) by metis
  then obtain x' where "fold (index_task invoke) ts (Some x1) = Some x'" "ok x'" "metadata x' = metadata x"
    "index_set x' = index_set x1 - (\<lambda>t. (it_Key t, it_RID t)) ` set ts"
    using Cons.IH [of x1] Cons.prems(2) by auto
  moreover have "fold (index_task invoke) (t # ts) (Some x) = fold (index_task invoke) ts (Some x1)"
    using x1(1) by (simp add: index_task_def [of _ _ "Some x"])
  ultimately show ?case using x1(4) by auto
qed simp

text \<open>Calls in a transaction.\<close>

lemma run_calls_txn:
  assumes "ok x" "txn_calls (metadata x) cs (index_set x)"
  shows "\<exists>rs t' x'. run_calls ins del scan self cs (Some t) x = Some (rs, Some t', x') \<and> ok x' \<and> metadata x' = metadata x \<and>
    index_set x' = index_set x \<union> entry_set (inserted cs) \<and>
    abortActions t' = abortActions t @ map (\<lambda>(k, r). undo_task self k r) (inserted cs) \<and>
    commitActions t' = commitActions t @ map (\<lambda>(k, r). delete_task self k r) (removed cs)"
  using assms
proof (induction cs arbitrary: x t)
  case (Cons c cs)
  show ?case
  proof (cases c)
    case (ICInsert key rid)
    let ?t = "AddAbortTask (undo_task self key rid) t"
    obtain x1 where x1: "ins self key rid (Some t) x = Some (Some ?t, x1)" "ok x1" "metadata x1 = metadata x"
      "index_set x1 = insert (k_RawTuple key, rid) (index_set x)"
      using index_set_ins [OF Cons.prems(1), of key rid self "Some t"] Cons.prems(2) ICInsert by auto
    obtain rs t' x' where r: "run_calls ins del scan self cs (Some ?t) x1 = Some (rs, Some t', x')" "ok x'" "metadata x' = metadata x"
      "index_set x' = index_set x1 \<union> entry_set (inserted cs)"
      "abortActions t' = abortActions ?t @ map (\<lambda>(k, r). undo_task self k r) (inserted cs)"
      "commitActions t' = commitActions ?t @ map (\<lambda>(k, r). delete_task self k r) (removed cs)"
      using Cons.IH [of x1 ?t] x1 Cons.prems(2) ICInsert by auto
    then show ?thesis using x1 ICInsert by (auto simp: AddAbortTask_def entry_set_def)
  next
    case (ICDelete key rid)
    let ?t = "AddCommitTask (delete_task self key rid) t"
    have d: "del self key rid (Some t) x = Some (Some ?t, x)"
      using del_txn_law [OF Cons.prems(1), of key rid self t] Cons.prems(2) ICDelete by (simp add: index_set_def)
    show ?thesis using Cons.IH [OF Cons.prems(1), of ?t] d Cons.prems(2) ICDelete by (auto simp: AddCommitTask_def)
  next
    case (ICScan key)
    have "scan key [] x = Some (ents x (k_RawTuple key))" using scan_law [OF Cons.prems(1)] Cons.prems(2) ICScan by simp
    then show ?thesis using Cons.IH [OF Cons.prems(1), of t] Cons.prems(2) ICScan by auto
  qed
qed (simp add: entry_set_def)

lemma txn_end:
  assumes "ok x" "txn_calls (metadata x) cs (index_set x)" "abortActions t = []" "commitActions t = []"
  shows "\<exists>rs t' x' xa xc. run_calls ins del scan self cs (Some t) x = Some (rs, Some t', x') \<and>
    Abort (index_task invoke) t' (Some x') = Some xa \<and> ok xa \<and> index_set xa = index_set x \<and>
    Commit (index_task invoke) t' (Some x') = Some xc \<and> ok xc \<and> index_set xc = index_set x \<union> entry_set (inserted cs) - entry_set (removed cs)"
proof -
  obtain rs t' x' where r: "run_calls ins del scan self cs (Some t) x = Some (rs, Some t', x')" "ok x'" "metadata x' = metadata x"
    "index_set x' = index_set x \<union> entry_set (inserted cs)"
    "abortActions t' = map (\<lambda>(k, r). undo_task self k r) (inserted cs)" "commitActions t' = map (\<lambda>(k, r). delete_task self k r) (removed cs)"
    using run_calls_txn [OF assms(1,2), of self t] assms(3,4) by auto
  note vk = txn_calls_keys [OF assms(2)]
  have tasks: "\<forall>task \<in> set ts. \<exists>key. key_ok (metadata x') key \<and> it_Key task = k_RawTuple key \<and> rid_ok (it_RID task)"
    if "set ts = set (abortActions t') \<or> set ts = set (commitActions t')" for ts
    using that vk(1,2) unfolding r(3,5,6) by (fastforce simp: undo_task_def delete_task_def)
  obtain xa where a: "fold (index_task invoke) (rev (abortActions t')) (Some x') = Some xa" "ok xa"
    "index_set xa = index_set x' - (\<lambda>t. (it_Key t, it_RID t)) ` set (rev (abortActions t'))"
    using tasks_minus [OF r(2) tasks, of "rev (abortActions t')"] by auto
  obtain xc where c: "fold (index_task invoke) (commitActions t') (Some x') = Some xc" "ok xc"
    "index_set xc = index_set x' - (\<lambda>t. (it_Key t, it_RID t)) ` set (commitActions t')"
    using tasks_minus [OF r(2) tasks, of "commitActions t'"] by auto
  have im: "(\<lambda>t. (it_Key t, it_RID t)) ` set (rev (abortActions t')) = entry_set (inserted cs)"
    "(\<lambda>t. (it_Key t, it_RID t)) ` set (commitActions t') = entry_set (removed cs)"
    by (force simp: r(5,6) entry_set_def undo_task_def delete_task_def)+
  have "index_set xa = index_set x" using a(3) im(1) r(4) vk(3) by auto
  moreover have "index_set xc = index_set x \<union> entry_set (inserted cs) - entry_set (removed cs)" using c(3) im(2) r(4) by simp
  ultimately show ?thesis using r(1) a(1,2) c(1,2) by (auto simp: Abort_def Commit_def)
qed

end

section \<open>The implementations keep the contract\<close>

fun idx_ok :: "(bytes, nat, 'm) MapOf \<Rightarrow> ('t \<Rightarrow> btreeItem list) \<Rightarrow> ('m, 't) RuntimeIndex \<Rightarrow> bool" where
  "idx_ok X items (HashIndex index) \<longleftrightarrow> hash_ok X index \<and> (\<forall>k. distinct (entries X index k)) \<and> schema_ok (hx_metadata index)"
| "idx_ok X items (BTreeIndex index) \<longleftrightarrow> btree_ok items index"

fun idx_entries :: "(bytes, nat, 'm) MapOf \<Rightarrow> ('t \<Rightarrow> btreeItem list) \<Rightarrow> ('m, 't) RuntimeIndex \<Rightarrow> bytes \<Rightarrow> RecordID list" where
  "idx_entries X items (HashIndex index) = entries X index"
| "idx_entries X items (BTreeIndex index) = btree_entries items index"

lemma rid_less_distinct: "sorted_wrt rid_less rs \<Longrightarrow> distinct rs"
  by (induction rs) (auto simp: rid_less_irrefl)

lemma key_ok_length: "key_ok md k \<Longrightarrow> length (k_RawTuple k) = KeySize md"
  unfolding key_ok_def by blast

lemma btree_entries_image: "set (btree_entries items index k) = bi_rid ` {e \<in> set (items (bx_tree index)). k_RawTuple (bi_key e) = k}"
  by (auto simp: btree_entries_def)

lemma btree_entries_minus:
  assumes "btree_ok items index" "key_ok (bx_metadata index) key" "set (items (bx_tree index')) = set (items (bx_tree index)) - {entry key rid}"
  shows "set (btree_entries items index' k) = set (btree_entries items index k) - (if k = k_RawTuple key then {rid} else {})"
proof -
  have "bi_key e = key" if "e \<in> set (items (bx_tree index))" "k_RawTuple (bi_key e) = k_RawTuple key" for e
    using assms(1,2) that key_ok_eqI [of "bx_metadata index" "bi_key e" key] by (auto simp: btree_ok_def item_ok_def)
  then have "e = entry key rid \<longleftrightarrow> bi_rid e = rid" if "e \<in> set (items (bx_tree index))" "k_RawTuple (bi_key e) = k_RawTuple key" for e
    using that by (metis entry_sel(2,3))
  then show ?thesis unfolding btree_entries_image assms(3) by (auto simp: image_iff)
qed

lemma btree_entries_insert:
  assumes "set (items (bx_tree index')) = insert (entry key rid) (set (items (bx_tree index)))"
  shows "set (btree_entries items index' k) = set (btree_entries items index k) \<union> (if k = k_RawTuple key then {rid} else {})"
proof -
  have "{e \<in> set (items (bx_tree index')). k_RawTuple (bi_key e) = k} =
      {e \<in> set (items (bx_tree index)). k_RawTuple (bi_key e) = k} \<union> (if k = k_RawTuple key then {entry key rid} else {})"
    using assms by auto
  then show ?thesis unfolding btree_entries_image by simp
qed

lemma point_index_runtime:
  assumes "xsync_map X" "tidwall_btree B item_less items cursor"
  shows "point_index (idx_ok X items) Index_Metadata (idx_entries X items) (Index_InsertEntry X B) (Index_DeleteEntry X B) (Index_ScanKey X B) (Index_Invoke X B)"
proof (unfold_locales, goal_cases)
  case (1 x k)
  then show ?case using btree_entries_sorted rid_less_distinct by (cases x) fastforce+
next
  case (2 x key rid self txn)
  show ?case
  proof (cases x)
    case (HashIndex h)
    then show ?thesis
      using 2 Hash_InsertEntry_spec [OF assms(1), of h key self rid txn] by (fastforce simp: undo_task_def key_ok_matches)
  next
    case (BTreeIndex b)
    then obtain b' where b': "BTree_InsertEntry B self key rid txn b = Some (map_option (AddAbortTask (undo_task self key rid)) txn, b')"
      "btree_ok items b'" "bx_metadata b' = bx_metadata b" "set (items (bx_tree b')) = insert (entry key rid) (set (items (bx_tree b)))"
      using BTree_InsertEntry_spec [OF assms(2), of b key rid self txn] 2 by (auto simp: undo_task_def)
    then show ?thesis using BTreeIndex btree_entries_insert [OF b'(4)] by simp
  qed
next
  case (3 x key rid self)
  show ?case
  proof (cases x)
    case (HashIndex h)
    then obtain rids where r: "delete_rids rid (entries X h (k_RawTuple key)) = Some rids" "distinct rids" "set rids = set (entries X h (k_RawTuple key)) - {rid}"
      using delete_rids_distinct [of "entries X h (k_RawTuple key)" rid] 3(1) by auto
    obtain h' where "Hash_DeleteEntry X self key rid None h = Some (None, h')" "hash_ok X h'" "entries X h' = (entries X h)(k_RawTuple key := rids)"
      "hx_metadata h' = hx_metadata h"
      using Hash_DeleteEntry_spec(1) [OF assms(1) _ _ r(1), of self] 3 HashIndex by (auto simp: key_ok_matches)
    then show ?thesis using r 3(1) HashIndex by auto
  next
    case (BTreeIndex b)
    then obtain b' where b': "BTree_DeleteEntry B self key rid None b = Some (None, b')"
      "btree_ok items b'" "bx_metadata b' = bx_metadata b" "set (items (bx_tree b')) = set (items (bx_tree b)) - {entry key rid}"
      using BTree_DeleteEntry_spec(1) [OF assms(2), of b key rid self] 3 by auto
    then show ?thesis using BTreeIndex btree_entries_minus [OF _ _ b'(4)] 3 by simp
  qed
next
  case (4 x key rid self t)
  show ?case
  proof (cases x)
    case (HashIndex h)
    then have "load_bucket X (k_RawTuple key) h \<noteq> None" using 4(4) by (cases "load_bucket X (k_RawTuple key) h") (auto simp: entries_def)
    then show ?thesis using Hash_DeleteEntry_spec(3) [OF assms(1), of h key self rid t] 4 HashIndex by (auto simp: delete_task_def key_ok_matches)
  next
    case (BTreeIndex b)
    then have "entry key rid \<in> set (items (bx_tree b))" using btree_entries_set [of items b key] 4 by simp
    then show ?thesis using BTree_DeleteEntry_spec(2) [OF assms(2), of b key rid self t] 4 BTreeIndex by (simp add: delete_task_def)
  qed
next
  case (5 x key out)
  then show ?case by (cases x) (simp_all add: key_ok_matches Hash_ScanKey_spec BTree_ScanKey_spec [OF assms(2)])
next
  case (6 x key rid ty)
  show ?case
  proof (cases x)
    case (HashIndex h)
    then obtain rids where r: "delete_rids rid (entries X h (k_RawTuple key)) = Some rids" "distinct rids" "set rids = set (entries X h (k_RawTuple key)) - {rid}"
      using delete_rids_distinct [of "entries X h (k_RawTuple key)" rid] 6(1) by auto
    obtain h' where "Hash_Invoke X ty (k_RawTuple key) rid h = Some h'" "hash_ok X h'" "entries X h' = (entries X h)(k_RawTuple key := rids)"
      "hx_metadata h' = hx_metadata h"
      using Hash_Invoke_spec(2) [OF assms(1) _ _ r(1), of ty] 6 HashIndex by (auto simp: key_ok_length)
    then show ?thesis using r 6(1) HashIndex by auto
  next
    case (BTreeIndex b)
    then obtain b' where b': "BTree_Invoke B ty (k_RawTuple key) rid b = Some b'"
      "btree_ok items b'" "bx_metadata b' = bx_metadata b" "set (items (bx_tree b')) = set (items (bx_tree b)) - {entry key rid}"
      using BTree_Invoke_spec [OF assms(2), of b key rid ty] 6 by auto
    then show ?thesis using BTreeIndex btree_entries_minus [OF _ _ b'(4)] 6 by simp
  qed
qed

interpretation ri: point_index "idx_ok fun_map id" Index_Metadata "idx_entries fun_map id" "Index_InsertEntry fun_map (list_btree item_less)"
    "Index_DeleteEntry fun_map (list_btree item_less)" "Index_ScanKey fun_map (list_btree item_less)" "Index_Invoke fun_map (list_btree item_less)"
  by (rule point_index_runtime [OF xsync_fun_map tidwall_list_btree])

text \<open>The entries of a runtime index as a set.\<close>

definition idx_set :: "(bytes, nat, 'm) MapOf \<Rightarrow> ('t \<Rightarrow> btreeItem list) \<Rightarrow> ('m, 't) RuntimeIndex \<Rightarrow> index_set" where
  "idx_set X items x = {(k, r). r \<in> set (idx_entries X items x k)}"

lemma idx_set_eq:
  assumes "xsync_map X" "tidwall_btree B item_less items cursor"
  shows "point_index.index_set (idx_entries X items) = idx_set X items"
  by (rule ext) (simp add: idx_set_def point_index.index_set_def [OF point_index_runtime [OF assms]])

text \<open>
  C16: an index is a set of entries, whichever of the two implementations it is. Any sequence of insertions of new entries,
  deletions and lookups outside a transaction succeeds, every lookup returns exactly the record identifiers of its key
  in the set at that time, each once, and the index ends with the entries of the set.
\<close>

theorem index_refines_set:
  assumes "xsync_map X" "tidwall_btree B item_less items cursor" "idx_ok X items x" "valid_calls (Index_Metadata x) calls (idx_set X items x)"
  shows "\<exists>rs x'. run_calls (Index_InsertEntry X B) (Index_DeleteEntry X B) (Index_ScanKey X B) self calls None x = Some (rs, None, x') \<and>
    idx_ok X items x' \<and> (map set rs, idx_set X items x') = abs_calls calls (idx_set X items x) \<and> (\<forall>r \<in> set rs. distinct r)"
  using point_index.run_calls_refine [OF point_index_runtime [OF assms(1,2)] assms(3), unfolded idx_set_eq [OF assms(1,2)], OF assms(4), of self] by auto

text \<open>
  C20: the index changes of a transaction are atomic, if it does not insert an entry again that it has deleted. For a transaction that
  inserts entries that are not in the index and deletes entries that are there, in any order, an abort leaves the set of entries as it was at
  the start, and a commit adds the inserted entries and removes the deleted ones. A deletion is deferred to the commit, so
  that a deleted entry is still in the index: inserting it again is excluded by the hypothesis on the calls (the code loses the entry at the
  commit, or panics).
\<close>

theorem index_txn_atomic:
  assumes "xsync_map X" "tidwall_btree B item_less items cursor" "idx_ok X items x" "txn_calls (Index_Metadata x) calls (idx_set X items x)"
    "abortActions t = []" "commitActions t = []"
  shows "\<exists>rs t' x' xa xc. run_calls (Index_InsertEntry X B) (Index_DeleteEntry X B) (Index_ScanKey X B) self calls (Some t) x = Some (rs, Some t', x') \<and>
    Abort (index_task (Index_Invoke X B)) t' (Some x') = Some xa \<and> idx_ok X items xa \<and> idx_set X items xa = idx_set X items x \<and>
    Commit (index_task (Index_Invoke X B)) t' (Some x') = Some xc \<and> idx_ok X items xc \<and>
    idx_set X items xc = idx_set X items x \<union> entry_set (inserted calls) - entry_set (removed calls)"
  using point_index.txn_end [OF point_index_runtime [OF assms(1,2)] assms(3), unfolded idx_set_eq [OF assms(1,2)], OF assms(4-6), of self] .

lemma idx_set_btree: "idx_set X items (BTreeIndex index) = (\<lambda>e. (k_RawTuple (bi_key e), bi_rid e)) ` set (items (bx_tree index))"
  by (force simp: idx_set_def btree_entries_image)

lemma demo_index_set: "idx_set fun_map id (BTreeIndex demo_index :: ((bytes \<rightharpoonup> nat), btreeItem list) RuntimeIndex) =
    {(k_RawTuple (demo_key 1), demo_rid 1), (k_RawTuple (demo_key 1), demo_rid 2), (k_RawTuple (demo_key 2), demo_rid 3)}"
  by (auto simp: idx_set_btree demo_index_def)

lemma demo_index_keys: "key_ok (bx_metadata demo_index) (demo_key 1)" "key_ok (bx_metadata demo_index) (demo_key 2)" "rid_ok (demo_rid 1)" "rid_ok (demo_rid 4)"
  by code_simp+

lemma demo_rids: "demo_rid 4 \<noteq> demo_rid 1" "demo_rid 4 \<noteq> demo_rid 2" "demo_rid 4 \<noteq> demo_rid 3" "demo_rid 2 \<noteq> demo_rid 1" "demo_rid 3 \<noteq> demo_rid 1"
  by (simp_all add: demo_rid_def)

lemma demo_key_neq: "k_RawTuple (demo_key 1) \<noteq> k_RawTuple (demo_key 2)"
  by (simp add: demo_key_def)

definition demo_index_calls :: "index_call list" where
  "demo_index_calls = [ICDelete (demo_key 1) (demo_rid 1), ICInsert (demo_key 2) (demo_rid 4), ICScan (demo_key 2)]"

theorem index_refines_set_witness:
  "\<exists>rs x'. run_calls (Index_InsertEntry fun_map (list_btree item_less)) (Index_DeleteEntry fun_map (list_btree item_less))
       (Index_ScanKey fun_map (list_btree item_less)) () demo_index_calls None (BTreeIndex demo_index) = Some (rs, None, x') \<and> map set rs = [{demo_rid 3, demo_rid 4}]"
proof -
  let ?S = "idx_set fun_map id (BTreeIndex demo_index :: ((bytes \<rightharpoonup> nat), btreeItem list) RuntimeIndex)"
  have v: "valid_calls (Index_Metadata (BTreeIndex demo_index :: ((bytes \<rightharpoonup> nat), btreeItem list) RuntimeIndex)) demo_index_calls ?S"
    using demo_index_keys demo_rids demo_key_neq by (simp add: demo_index_calls_def demo_index_set)
  have "fst (abs_calls demo_index_calls ?S) = [{demo_rid 3, demo_rid 4}]"
    using demo_key_neq demo_rids by (auto simp: demo_index_calls_def demo_index_set Let_def)
  moreover have "idx_ok fun_map id (BTreeIndex demo_index :: ((bytes \<rightharpoonup> nat), btreeItem list) RuntimeIndex)" using demo_ok by simp
  ultimately show ?thesis
    using index_refines_set [OF xsync_fun_map tidwall_list_btree _ v, of "()"] by (metis fst_conv)
qed

theorem index_txn_atomic_witness:
  "\<exists>rs t' x' xa. run_calls (Index_InsertEntry fun_map (list_btree item_less)) (Index_DeleteEntry fun_map (list_btree item_less))
       (Index_ScanKey fun_map (list_btree item_less)) () demo_index_calls (Some (NewTestTransactionContext 1)) (BTreeIndex demo_index) = Some (rs, Some t', x') \<and>
     Abort (index_task (Index_Invoke fun_map (list_btree item_less))) t' (Some x') = Some xa \<and>
     idx_set fun_map id xa = {(k_RawTuple (demo_key 1), demo_rid 1), (k_RawTuple (demo_key 1), demo_rid 2), (k_RawTuple (demo_key 2), demo_rid 3)}"
proof -
  let ?x = "BTreeIndex demo_index :: ((bytes \<rightharpoonup> nat), btreeItem list) RuntimeIndex"
  have v: "txn_calls (Index_Metadata ?x) demo_index_calls (idx_set fun_map id ?x)"
    using demo_index_keys demo_rids demo_key_neq by (simp add: demo_index_calls_def demo_index_set)
  have "idx_ok fun_map id ?x" using demo_ok by simp
  from index_txn_atomic [OF xsync_fun_map tidwall_list_btree this v, of "NewTestTransactionContext 1" "()"]
  show ?thesis unfolding demo_index_set by (auto simp: NewTestTransactionContext_def)
qed

end
