(* ===== verification/Execution_Modify.thy ===== *)
theory Execution_Modify
  imports Execution_Scan Execution_Aggregate Indexing_Manager
begin

text \<open>
  The executors that change a table (\<open>execution/insert_executor.go\<close>, \<open>execution/delete_executor.go\<close>,
  \<open>execution/update_executor.go\<close>): the rows of the heap file and the entries of all indexes of the table.

  The pool and the files are shared with the child, so they are reached through the state of the child by a pair of
  functions to read and to replace them (a \<open>HeapLens\<close>). A pointer to an index is its object identifier; the
  runtime indexes are the state of the index manager. No implementation of an index returns an error. A panic, or a
  child that never ends, is \<open>None\<close>.

  The theorems show that after a statement and its commit every index of the table holds exactly one entry for each
  row of the heap file.
\<close>

section \<open>State\<close>

record ('s, 'm, 'fs) HeapLens =
  hl_get :: "'s \<Rightarrow> 'm BufferPool \<times> 'fs"
  hl_put :: "'m BufferPool \<times> 'fs \<Rightarrow> 's \<Rightarrow> 's"

record ('s, 'h, 't) ModifyState =
  mo_child :: 's
  mo_indexes :: "('h, 't) IndexManager"
  mo_txn :: "ObjectID TransactionContext option"
  mo_current :: Tuple
  mo_done :: bool
  mo_lastErr :: "string option"

text \<open>What does not change: the libraries, the heap file and the pointers to its indexes.\<close>

record ('s, 'm, 'fs, 'h, 't, 'it) ModifyEnv =
  me_fuel :: nat
  me_pages :: "(PageID, nat, 'm) MapOf"
  me_files :: "'fs DBFileManager"
  me_keys :: "(bytes, nat, 'h) MapOf"
  me_btree :: "(btreeItem, 't, 'it) BTreeG"
  me_lens :: "('s, 'm, 'fs) HeapLens"
  me_tableHeap :: TableHeap
  me_oids :: "ObjectID list"

definition NewModifyExecutor :: "'s \<Rightarrow> ('h, 't) IndexManager \<Rightarrow> ObjectID TransactionContext option \<Rightarrow> ('s, 'h, 't) ModifyState" where
  "NewModifyExecutor c im txn = \<lparr>mo_child = c, mo_indexes = im, mo_txn = txn, mo_current = EmptyTuple, mo_done = False, mo_lastErr = None\<rparr>"

definition Modify_Init :: "'s Executor \<Rightarrow> ('s, 'h, 't) ModifyState \<Rightarrow> (string option \<times> ('s, 'h, 't) ModifyState) option" where
  "Modify_Init E e = do { (err, c) \<leftarrow> ex_Init E (mo_child e); Some (err, e\<lparr>mo_done := False, mo_child := c\<rparr>) }"

definition Modify_Error :: "'s Executor \<Rightarrow> ('s, 'h, 't) ModifyState \<Rightarrow> string option" where
  "Modify_Error E e = (case mo_lastErr e of Some err \<Rightarrow> Some err | None \<Rightarrow> ex_Error E (mo_child e))"

definition Modify_Close :: "'s Executor \<Rightarrow> ('s, 'h, 't) ModifyState \<Rightarrow> (string option \<times> ('s, 'h, 't) ModifyState) option" where
  "Modify_Close E e = do { (err, c) \<leftarrow> ex_Close E (mo_child e); Some (err, e\<lparr>mo_child := c\<rparr>) }"

text \<open>\<open>ErrTupleDeleted\<close> and the errors of the storage as text.\<close>

fun heap_error_text :: "heap_error \<Rightarrow> string" where
  "heap_error_text ErrTupleDeleted = ''tuple has been deleted''"
| "heap_error_text (ErrIO err) = err"

definition on_heap :: "('s, 'm, 'fs, 'h, 't, 'it) ModifyEnv \<Rightarrow> ('m BufferPool \<Rightarrow> 'fs \<Rightarrow> ('r \<times> 'm BufferPool \<times> 'fs) option) \<Rightarrow>
    ('s, 'h, 't) ModifyState \<Rightarrow> ('r \<times> ('s, 'h, 't) ModifyState) option" where
  "on_heap env f e = do {
     let (bp, fs) = hl_get (me_lens env) (mo_child e);
     (r, bp, fs) \<leftarrow> f bp fs;
     Some (r, e\<lparr>mo_child := hl_put (me_lens env) (bp, fs) (mo_child e)\<rparr>)
   }"

section \<open>Index keys of a row\<close>

definition get_values :: "(nat \<Rightarrow> Value option) \<Rightarrow> nat list \<Rightarrow> Value list option" where
  "get_values get cols = option_list (map get cols)"

text \<open>\<open>FromValues\<close>, \<open>WriteToBuffer\<close> to a new buffer, and \<open>AsKey\<close>.\<close>

definition index_key :: "IndexMetadata \<Rightarrow> Value list \<Rightarrow> Key option" where
  "index_key md keyValues = do {
     let keyBuf = replicate (BytesPerTuple (snd (KeySchema md))) 0;
     key \<leftarrow> WriteToBuffer (FromValues (Some keyValues)) keyBuf (snd (KeySchema md));
     AsKey md (rawTuple key)
   }"

text \<open>The loop \<open>for _, idx := range e.indexes\<close>.\<close>

fun for_indexes :: "(ObjectID \<Rightarrow> ObjectID TransactionContext option \<Rightarrow> ('h, 't) RuntimeIndex \<Rightarrow> (ObjectID TransactionContext option \<times> ('h, 't) RuntimeIndex) option) \<Rightarrow>
    ObjectID list \<Rightarrow> ObjectID TransactionContext option \<Rightarrow> ('h, 't) IndexManager \<Rightarrow> (ObjectID TransactionContext option \<times> ('h, 't) IndexManager) option" where
  "for_indexes f [] txn im = Some (txn, im)"
| "for_indexes f (oid # oids) txn im = do {
     ix \<leftarrow> im oid;
     (txn, ix) \<leftarrow> f oid txn ix;
     for_indexes f oids txn (im(oid \<mapsto> ix))
   }"

section \<open>Insert\<close>

definition insert_entry :: "('s, 'm, 'fs, 'h, 't, 'it) ModifyEnv \<Rightarrow> Tuple \<Rightarrow> RecordID \<Rightarrow> ObjectID \<Rightarrow> ObjectID TransactionContext option \<Rightarrow>
    ('h, 't) RuntimeIndex \<Rightarrow> (ObjectID TransactionContext option \<times> ('h, 't) RuntimeIndex) option" where
  "insert_entry env t rid oid txn ix = do {
     let md = Index_Metadata ix;
     keyValues \<leftarrow> get_values (Tuple_GetValue t) (ProjectionList md);
     key \<leftarrow> index_key md keyValues;
     Index_InsertEntry (me_keys env) (me_btree env) oid key rid txn ix
   }"

definition insert_row :: "('s, 'm, 'fs, 'h, 't, 'it) ModifyEnv \<Rightarrow> Tuple \<Rightarrow> ('s, 'h, 't) ModifyState \<Rightarrow> ((string + unit) \<times> ('s, 'h, 't) ModifyState) option" where
  "insert_row env t e = do {
     let schema = StorageSchema (me_tableHeap env);
     raw \<leftarrow> WriteToBuffer t (replicate (BytesPerTuple schema) 0) schema;
     (r, e) \<leftarrow> on_heap env (InsertTuple (me_fuel env) (me_pages env) (me_files env) (me_tableHeap env) (rawTuple raw)) e;
     (case r of
        Inl err \<Rightarrow> Some (Inl err, e)
      | Inr rid \<Rightarrow> do {
          (txn, im) \<leftarrow> for_indexes (insert_entry env t rid) (me_oids env) (mo_txn e) (mo_indexes e);
          Some (Inr (), e\<lparr>mo_txn := txn, mo_indexes := im\<rparr>)
        })
   }"

partial_function (option) insert_loop :: "('s, 'm, 'fs, 'h, 't, 'it) ModifyEnv \<Rightarrow> 's Executor \<Rightarrow> nat \<Rightarrow> ('s, 'h, 't) ModifyState \<Rightarrow>
    ((string + nat) \<times> ('s, 'h, 't) ModifyState) option" where
  "insert_loop env E cnt e = do {
     (b, c) \<leftarrow> ex_Next E (mo_child e);
     let e = e\<lparr>mo_child := c\<rparr>;
     (if \<not> b then Some (Inr cnt, e)
      else do {
        t \<leftarrow> ex_Current E c;
        (r, e) \<leftarrow> insert_row env t e;
        (case r of Inl err \<Rightarrow> Some (Inl err, e) | Inr _ \<Rightarrow> insert_loop env E (cnt + 1) e)
      })
   }"

text \<open>The common end of the three \<open>Next\<close>: an error, or the tuple with the number of rows.\<close>

definition finish :: "(string + nat) \<times> ('s, 'h, 't) ModifyState \<Rightarrow> bool \<times> ('s, 'h, 't) ModifyState" where
  "finish p = (case p of (Inl err, e) \<Rightarrow> (False, e\<lparr>mo_lastErr := Some err\<rparr>)
     | (Inr cnt, e) \<Rightarrow> (True, e\<lparr>mo_current := FromValues (Some [NewIntValue (of_nat cnt)])\<rparr>))"

definition Insert_Next :: "('s, 'm, 'fs, 'h, 't, 'it) ModifyEnv \<Rightarrow> 's Executor \<Rightarrow> ('s, 'h, 't) ModifyState \<Rightarrow> (bool \<times> ('s, 'h, 't) ModifyState) option" where
  "Insert_Next env E e =
     (if mo_done e then Some (False, e)
      else map_option finish (insert_loop env E 0 (e\<lparr>mo_done := True\<rparr>)))"

section \<open>Delete\<close>

text \<open>The copies of all tuples of the child, taken before the first change.\<close>

partial_function (option) collect :: "'s Executor \<Rightarrow> RawTupleDesc \<Rightarrow> Tuple list \<Rightarrow> 's \<Rightarrow> (Tuple list \<times> 's) option" where
  "collect E schema acc c = do {
     (b, c) \<leftarrow> ex_Next E c;
     (if \<not> b then Some (acc, c)
      else do {
        t \<leftarrow> ex_Current E c;
        t \<leftarrow> DeepCopy t schema;
        collect E schema (acc @ [t]) c
      })
   }"

definition delete_entry :: "('s, 'm, 'fs, 'h, 't, 'it) ModifyEnv \<Rightarrow> Tuple \<Rightarrow> ObjectID \<Rightarrow> ObjectID TransactionContext option \<Rightarrow>
    ('h, 't) RuntimeIndex \<Rightarrow> (ObjectID TransactionContext option \<times> ('h, 't) RuntimeIndex) option" where
  "delete_entry env t oid txn ix = do {
     let md = Index_Metadata ix;
     keyValues \<leftarrow> get_values (Tuple_GetValue t) (ProjectionList md);
     key \<leftarrow> index_key md keyValues;
     Index_DeleteEntry (me_keys env) (me_btree env) oid key (t_rid t) txn ix
   }"

fun delete_loop :: "('s, 'm, 'fs, 'h, 't, 'it) ModifyEnv \<Rightarrow> nat \<Rightarrow> Tuple list \<Rightarrow> ('s, 'h, 't) ModifyState \<Rightarrow>
    ((string + nat) \<times> ('s, 'h, 't) ModifyState) option" where
  "delete_loop env cnt [] e = Some (Inr cnt, e)"
| "delete_loop env cnt (t # ts) e = do {
     (txn, im) \<leftarrow> for_indexes (delete_entry env t) (me_oids env) (mo_txn e) (mo_indexes e);
     (r, e) \<leftarrow> on_heap env (DeleteTuple (me_fuel env) (me_pages env) (me_files env) (t_rid t)) (e\<lparr>mo_txn := txn, mo_indexes := im\<rparr>);
     (case r of Inl err \<Rightarrow> Some (Inl (heap_error_text err), e) | Inr _ \<Rightarrow> delete_loop env (cnt + 1) ts e)
   }"

definition Delete_Next :: "('s, 'm, 'fs, 'h, 't, 'it) ModifyEnv \<Rightarrow> 's Executor \<Rightarrow> ('s, 'h, 't) ModifyState \<Rightarrow> (bool \<times> ('s, 'h, 't) ModifyState) option" where
  "Delete_Next env E e =
     (if mo_done e then Some (False, e)
      else do {
        (tuplesToDelete, c) \<leftarrow> collect E (StorageSchema (me_tableHeap env)) [] (mo_child e);
        map_option finish (delete_loop env 0 tuplesToDelete (e\<lparr>mo_done := True, mo_child := c\<rparr>))
      })"

section \<open>Update\<close>

text \<open>The new values of a row; a nil expression keeps the value of the column.\<close>

definition new_value :: "Expr option list \<Rightarrow> Tuple \<Rightarrow> nat \<Rightarrow> Value option" where
  "new_value exprs t i = do {
     expr \<leftarrow> idx exprs i;
     (case expr of Some e \<Rightarrow> Eval e t | None \<Rightarrow> Tuple_GetValue t i)
   }"

definition new_values :: "Expr option list \<Rightarrow> Tuple \<Rightarrow> Value list option" where
  "new_values exprs t = option_list (map (new_value exprs t) [0..<NumColumns t])"

text \<open>Whether some key column has changed; every pair is compared.\<close>

definition key_changed :: "Value list \<Rightarrow> Value list \<Rightarrow> bool option" where
  "key_changed oldKeyValues newKeyValues =
     map_option (\<lambda>cs. \<exists>c \<in> set cs. c \<noteq> 0) (option_list (map2 Value_Compare oldKeyValues newKeyValues))"

definition update_entry :: "('s, 'm, 'fs, 'h, 't, 'it) ModifyEnv \<Rightarrow> Tuple \<Rightarrow> Value list \<Rightarrow> ObjectID \<Rightarrow> ObjectID TransactionContext option \<Rightarrow>
    ('h, 't) RuntimeIndex \<Rightarrow> (ObjectID TransactionContext option \<times> ('h, 't) RuntimeIndex) option" where
  "update_entry env t newVals oid txn ix = do {
     let md = Index_Metadata ix;
     oldKeyValues \<leftarrow> get_values (Tuple_GetValue t) (ProjectionList md);
     newKeyValues \<leftarrow> get_values (idx newVals) (ProjectionList md);
     changed \<leftarrow> key_changed oldKeyValues newKeyValues;
     (if changed then do {
        oldKey \<leftarrow> index_key md oldKeyValues;
        (txn, ix) \<leftarrow> Index_DeleteEntry (me_keys env) (me_btree env) oid oldKey (t_rid t) txn ix;
        newKey \<leftarrow> index_key md newKeyValues;
        Index_InsertEntry (me_keys env) (me_btree env) oid newKey (t_rid t) txn ix
      } else Some (txn, ix))
   }"

fun update_loop :: "('s, 'm, 'fs, 'h, 't, 'it) ModifyEnv \<Rightarrow> Expr option list \<Rightarrow> nat \<Rightarrow> Tuple list \<Rightarrow> ('s, 'h, 't) ModifyState \<Rightarrow>
    ((string + nat) \<times> ('s, 'h, 't) ModifyState) option" where
  "update_loop env exprs cnt [] e = Some (Inr cnt, e)"
| "update_loop env exprs cnt (t # ts) e = do {
     newVals \<leftarrow> new_values exprs t;
     let schema = StorageSchema (me_tableHeap env);
     raw \<leftarrow> WriteToBuffer (FromValues (Some newVals)) (replicate (BytesPerTuple schema) 0) schema;
     (r, e) \<leftarrow> on_heap env (UpdateTuple (me_fuel env) (me_pages env) (me_files env) (t_rid t) (rawTuple raw)) e;
     (case r of
        Inl err \<Rightarrow> Some (Inl (heap_error_text err), e)
      | Inr _ \<Rightarrow> do {
          (txn, im) \<leftarrow> for_indexes (update_entry env t newVals) (me_oids env) (mo_txn e) (mo_indexes e);
          update_loop env exprs (cnt + 1) ts (e\<lparr>mo_txn := txn, mo_indexes := im\<rparr>)
        })
   }"

definition Update_Next :: "('s, 'm, 'fs, 'h, 't, 'it) ModifyEnv \<Rightarrow> Expr option list \<Rightarrow> 's Executor \<Rightarrow> ('s, 'h, 't) ModifyState \<Rightarrow>
    (bool \<times> ('s, 'h, 't) ModifyState) option" where
  "Update_Next env exprs E e =
     (if mo_done e then Some (False, e)
      else do {
        (tuplesToUpdate, c) \<leftarrow> collect E (StorageSchema (me_tableHeap env)) [] (mo_child e);
        map_option finish (update_loop env exprs 0 tuplesToUpdate (e\<lparr>mo_done := True, mo_child := c\<rparr>))
      })"

section \<open>Executors\<close>

definition ModifyExecutor :: "'s Executor \<Rightarrow> (('s, 'h, 't) ModifyState \<Rightarrow> (bool \<times> ('s, 'h, 't) ModifyState) option) \<Rightarrow> ('s, 'h, 't) ModifyState Executor" where
  "ModifyExecutor E nxt = \<lparr>ex_Init = Modify_Init E, ex_Next = nxt, ex_Current = (\<lambda>e. Some (mo_current e)),
     ex_Error = Modify_Error E, ex_Close = Modify_Close E\<rparr>"

definition InsertExecutor :: "('s, 'm, 'fs, 'h, 't, 'it) ModifyEnv \<Rightarrow> 's Executor \<Rightarrow> ('s, 'h, 't) ModifyState Executor" where
  "InsertExecutor env E = ModifyExecutor E (Insert_Next env E)"

definition DeleteExecutor :: "('s, 'm, 'fs, 'h, 't, 'it) ModifyEnv \<Rightarrow> 's Executor \<Rightarrow> ('s, 'h, 't) ModifyState Executor" where
  "DeleteExecutor env E = ModifyExecutor E (Delete_Next env E)"

definition UpdateExecutor :: "('s, 'm, 'fs, 'h, 't, 'it) ModifyEnv \<Rightarrow> Expr option list \<Rightarrow> 's Executor \<Rightarrow> ('s, 'h, 't) ModifyState Executor" where
  "UpdateExecutor env exprs E = ModifyExecutor E (Update_Next env exprs E)"

section \<open>Rows and their index entries\<close>

abbreviation heap_types :: "TableHeap \<Rightarrow> Type list" where
  "heap_types th \<equiv> d_fields (th_desc th)"

text \<open>An index over columns of the table.\<close>

definition index_for :: "TableHeap \<Rightarrow> IndexMetadata \<Rightarrow> bool" where
  "index_for th md \<longleftrightarrow> schema_ok md \<and> (\<forall>c \<in> set (ProjectionList md). c < length (heap_types th)) \<and>
     d_fields (snd (KeySchema md)) = map (nth (heap_types th)) (ProjectionList md)"

definition key_of_values :: "IndexMetadata \<Rightarrow> Value list \<Rightarrow> Key" where
  "key_of_values md vs = \<lparr>k_RawTuple = encode_row (map (nth vs) (ProjectionList md)), k_schema = Some (KeySchema md)\<rparr>"

definition row_key :: "TableHeap \<Rightarrow> IndexMetadata \<Rightarrow> bytes \<Rightarrow> Key" where
  "row_key th md row = key_of_values md (decode_row (heap_types th) row)"

definition row_entries :: "TableHeap \<Rightarrow> IndexMetadata \<Rightarrow> (RecordID \<rightharpoonup> bytes) \<Rightarrow> index_set" where
  "row_entries th md rows = {(k, rid). \<exists>row. rows rid = Some row \<and> k = k_RawTuple (row_key th md row)}"

definition vals_of :: "Type list \<Rightarrow> Value list \<Rightarrow> bool" where
  "vals_of ts vs \<longleftrightarrow> map v_t vs = ts \<and> (\<forall>v \<in> set vs. storable v)"

lemma vals_of_nth:
  assumes "vals_of ts vs" "i < length ts"
  shows "storable (vs ! i)" "v_t (vs ! i) = ts ! i" "i < length vs"
proof -
  have m: "ts = map v_t vs" and st: "\<forall>v \<in> set vs. storable v" using assms(1) by (simp_all add: vals_of_def)
  show "i < length vs" using assms(2) unfolding m by simp
  then show "storable (vs ! i)" "v_t (vs ! i) = ts ! i" using st unfolding m by simp_all
qed

lemma vals_of_project:
  assumes "index_for th md" "vals_of (heap_types th) vs"
  shows "vals_of (d_fields (snd (KeySchema md))) (map (nth vs) (ProjectionList md))"
  using assms vals_of_nth [OF assms(2)] by (auto simp: vals_of_def index_for_def)

lemma key_of_values_ok:
  assumes "index_for th md" "vals_of (heap_types th) vs"
  shows "key_ok md (key_of_values md vs)"
proof -
  let ?ks = "map (nth vs) (ProjectionList md)" and ?ts = "d_fields (snd (KeySchema md))"
  have ks: "map v_t ?ks = ?ts" "\<forall>v \<in> set ?ks. storable v" using vals_of_project [OF assms] by (simp_all add: vals_of_def)
  have wf: "wf_desc (snd (KeySchema md))" using assms(1) by (simp add: index_for_def schema_ok_def)
  have len: "length (encode_row ?ks) = row_size ?ts" using length_encode_row [OF ks(2)] ks(1) by simp
  have r: "key_row md (key_of_values md vs) = decode_row (map v_t ?ks) (encode_row ?ks @ [])" by (simp only: key_row_def key_of_values_def ks(1) Key.simps append_Nil2)
  have d: "map v_t (key_row md (key_of_values md vs)) = ?ts" "\<forall>v \<in> set (key_row md (key_of_values md vs)). storable v"
    using decode_row_values [of ?ts "encode_row ?ks"] wf len unfolding r ks(1) by (auto simp: wf_desc_def)
  have "encode_row (key_row md (key_of_values md vs)) = encode_row ?ks"
    using encode_row_eq_iff [OF d(2) ks(2)] decode_encode_row [OF ks(2), of "[]"] d(1) ks(1) unfolding r by simp
  then show ?thesis using len wf by (simp add: key_ok_def key_of_values_def KeySize_def BytesPerTuple_def wf_desc_def)
qed

lemma index_key_values:
  assumes "index_for th md" "vals_of (heap_types th) vs"
  shows "index_key md (map (nth vs) (ProjectionList md)) = Some (key_of_values md vs)"
proof -
  let ?ks = "map (nth vs) (ProjectionList md)" and ?d = "snd (KeySchema md)"
  have ks: "map v_t ?ks = d_fields ?d" "\<forall>v \<in> set ?ks. storable v" using vals_of_project [OF assms] by (simp_all add: vals_of_def)
  note fv = FromValues_row [OF ks(2)]
  have d: "NewRawTupleDesc (tuple_types (FromValues (Some ?ks))) = Some ?d"
    using assms(1) fv(3) ks(1) by (simp add: NewRawTupleDesc_Some index_for_def schema_ok_def)
  obtain k where k: "WriteToBuffer (FromValues (Some ?ks)) (replicate (BytesPerTuple ?d) 0) ?d = Some k" "rawTuple k = row_image (FromValues (Some ?ks))"
    using WriteToBuffer_key [OF _ d, of "replicate (BytesPerTuple ?d) 0"] fv(1) by (auto simp: canonical_def BytesPerTuple_def)
  have "rawTuple k = k_RawTuple (key_of_values md vs)" using k(2) fv(1,2) by (simp add: canonical_def key_of_values_def)
  then show ?thesis using k(1) AsKey_key_ok [OF key_of_values_ok [OF assms]] by (simp add: index_key_def)
qed

text \<open>The key depends on the abstract values only.\<close>

lemma key_of_values_cong:
  assumes "index_for th md" "vals_of (heap_types th) vs" "vals_of (heap_types th) ws" "map sql_of vs = map sql_of ws"
  shows "key_of_values md vs = key_of_values md ws"
proof -
  note p = vals_of_project [OF assms(1,2)] vals_of_project [OF assms(1,3)]
  have len: "length vs = length ws" using assms(4) by (metis length_map)
  have "sql_of (vs ! c) = sql_of (ws ! c)" if "c \<in> set (ProjectionList md)" for c
  proof -
    have "c < length vs" using assms(1) that vals_of_nth(3) [OF assms(2)] by (auto simp: index_for_def)
    then show ?thesis using arg_cong [OF assms(4), of "\<lambda>xs. xs ! c"] len by simp
  qed
  then have "map sql_of (map (nth vs) (ProjectionList md)) = map sql_of (map (nth ws) (ProjectionList md))" by simp
  then show ?thesis using encode_row_eq_iff [of "map (nth vs) (ProjectionList md)" "map (nth ws) (ProjectionList md)"] p
    unfolding vals_of_def key_of_values_def by metis
qed

text \<open>A tuple that shows a row of the heap file.\<close>

definition shows_row :: "TableHeap \<Rightarrow> Tuple \<Rightarrow> bytes \<Rightarrow> bool" where
  "shows_row th t row \<longleftrightarrow> tuple_of (heap_types th) t \<and> row_of t = map sql_of (decode_row (heap_types th) row)"

lemma tuple_vals: "tuple_of ts t \<Longrightarrow> vals_of ts (tuple_values t)"
  using tuple_values_props [of t] by (simp add: tuple_of_def vals_of_def)

lemma decoded_vals: "wf_desc (th_desc th) \<Longrightarrow> length row = d_bytesPerRow (th_desc th) \<Longrightarrow> vals_of (heap_types th) (decode_row (heap_types th) row)"
  using decode_row_values [of "heap_types th" row] by (simp add: vals_of_def wf_desc_def)

lemma row_key_tuple:
  assumes "wf_desc (th_desc th)" "length row = d_bytesPerRow (th_desc th)" "index_for th md" "shows_row th t row"
  shows "row_key th md row = key_of_values md (tuple_values t)" "key_ok md (row_key th md row)"
proof -
  have v: "vals_of (heap_types th) (tuple_values t)" using assms(4) tuple_vals by (auto simp: shows_row_def)
  show "row_key th md row = key_of_values md (tuple_values t)"
    unfolding row_key_def using assms(4) by (intro key_of_values_cong [OF assms(3) decoded_vals [OF assms(1,2)] v]) (simp add: shows_row_def row_of_def)
  then show "key_ok md (row_key th md row)" using key_of_values_ok [OF assms(3) v] by simp
qed

lemma get_values_all: "(\<And>c. c \<in> set cols \<Longrightarrow> get c = Some (vs ! c)) \<Longrightarrow> get_values get cols = Some (map (nth vs) cols)"
  unfolding get_values_def by (induction cols) auto

lemma tuple_key_values:
  assumes "index_for th md" "tuple_of (heap_types th) t"
  shows "get_values (Tuple_GetValue t) (ProjectionList md) = Some (map (nth (tuple_values t)) (ProjectionList md))"
  using assms by (intro get_values_all Tuple_GetValue_eq) (auto simp: tuple_of_def index_for_def NumColumns_types)

text \<open>The row that a tuple is stored as.\<close>

lemma stored_row:
  assumes "wf_desc (th_desc th)" "tuple_of (heap_types th) t"
  shows "\<exists>raw. WriteToBuffer t (replicate (BytesPerTuple (StorageSchema th)) 0) (StorageSchema th) = Some raw \<and>
    length (rawTuple raw) = d_bytesPerRow (th_desc th) \<and> shows_row th t (rawTuple raw)"
proof -
  have t: "wf_tuple t" "tuple_types t = heap_types th" using assms(2) by (simp_all add: tuple_of_def)
  have d: "NewRawTupleDesc (tuple_types t) = Some (th_desc th)" using assms(1) t(2) by (simp add: NewRawTupleDesc_Some)
  obtain raw where r: "WriteToBuffer t (replicate (BytesPerTuple (StorageSchema th)) 0) (StorageSchema th) = Some raw" "rawTuple raw = row_image t"
    using WriteToBuffer_key [OF t(1) d, of "replicate (BytesPerTuple (StorageSchema th)) 0"] by (auto simp: BytesPerTuple_def StorageSchema_def)
  have "length (row_image t) = d_bytesPerRow (th_desc th)" using length_image [OF t(1)] t(2) assms(1) by (simp add: wf_desc_def)
  moreover have "row_of t = map sql_of (decode_row (heap_types th) (row_image t))" using decode_image [OF t(1), of "[]"] t(2) by simp
  ultimately show ?thesis using r assms(2) by (simp add: shows_row_def)
qed

section \<open>Indexes that agree with the rows\<close>

text \<open>
  The deletions that a transaction has deferred, by index. An index agrees with the rows of the heap file when its
  entries without the deferred ones are the entries of the rows.
\<close>

definition commits :: "'i TransactionContext option \<Rightarrow> 'i IndexTask list" where
  "commits txn = (case txn of None \<Rightarrow> [] | Some t \<Rightarrow> commitActions t)"

definition pending :: "ObjectID TransactionContext option \<Rightarrow> ObjectID \<Rightarrow> index_set" where
  "pending txn oid = (\<lambda>k. (it_Key k, it_RID k)) ` {k \<in> set (commits txn). it_Target k = oid}"

definition task_ok :: "IndexMetadata \<Rightarrow> 'i IndexTask \<Rightarrow> bool" where
  "task_ok md k \<longleftrightarrow> (\<exists>key. key_ok md key \<and> it_Key k = k_RawTuple key \<and> rid_ok (it_RID k))"

definition agrees :: "(bytes, nat, 'h) MapOf \<Rightarrow> ('t \<Rightarrow> btreeItem list) \<Rightarrow> TableHeap \<Rightarrow> (RecordID \<rightharpoonup> bytes) \<Rightarrow> index_set \<Rightarrow> ('h, 't) RuntimeIndex \<Rightarrow> bool" where
  "agrees XI items th rows P ix \<longleftrightarrow> idx_ok XI items ix \<and> index_for th (Index_Metadata ix) \<and>
     idx_set XI items ix - P = row_entries th (Index_Metadata ix) rows"

definition synced :: "(bytes, nat, 'h) MapOf \<Rightarrow> ('t \<Rightarrow> btreeItem list) \<Rightarrow> TableHeap \<Rightarrow> (RecordID \<rightharpoonup> bytes) \<Rightarrow> ObjectID TransactionContext option \<Rightarrow>
    ('h, 't) IndexManager \<Rightarrow> ObjectID \<Rightarrow> bool" where
  "synced XI items th rows txn im oid \<longleftrightarrow> (\<exists>ix. im oid = Some ix \<and> agrees XI items th rows (pending txn oid) ix \<and>
     (\<forall>k \<in> set (commits txn). it_Target k = oid \<longrightarrow> task_ok (Index_Metadata ix) k))"

lemma row_entries_upd:
  "row_entries th md (rows(rid \<mapsto> row)) = {e \<in> row_entries th md rows. snd e \<noteq> rid} \<union> {(k_RawTuple (row_key th md row), rid)}"
  "row_entries th md (rows(rid := None)) = {e \<in> row_entries th md rows. snd e \<noteq> rid}"
  by (auto simp: row_entries_def split: if_splits)

lemma row_entries_rid:
  "rows rid = None \<Longrightarrow> {e \<in> row_entries th md rows. snd e \<noteq> rid} = row_entries th md rows"
  "rows rid = Some row \<Longrightarrow> {e \<in> row_entries th md rows. snd e \<noteq> rid} = row_entries th md rows - {(k_RawTuple (row_key th md row), rid)}"
  by (auto simp: row_entries_def)

lemma agrees_insert:
  assumes "xsync_map XI" "tidwall_btree B item_less items cursor" "agrees XI items th rows P ix"
    "key_ok (Index_Metadata ix) key" "rid_ok rid" "(k_RawTuple key, rid) \<notin> P" "rows rid = None" "k_RawTuple key = k_RawTuple (row_key th (Index_Metadata ix) row)"
  shows "\<exists>ix'. Index_InsertEntry XI B self key rid txn ix = Some (map_option (AddAbortTask (undo_task self key rid)) txn, ix') \<and>
    Index_Metadata ix' = Index_Metadata ix \<and> agrees XI items th (rows(rid \<mapsto> row)) P ix'"
proof -
  let ?md = "Index_Metadata ix"
  have a: "idx_ok XI items ix" "idx_set XI items ix - P = row_entries th ?md rows" using assms(3) by (simp_all add: agrees_def)
  have "(k_RawTuple key, rid) \<notin> idx_set XI items ix"
  proof
    assume "(k_RawTuple key, rid) \<in> idx_set XI items ix"
    then have "(k_RawTuple key, rid) \<in> row_entries th ?md rows" using assms(6) unfolding a(2) [symmetric] by simp
    then show False using assms(7) by (simp add: row_entries_def)
  qed
  then obtain ix' where i: "Index_InsertEntry XI B self key rid txn ix = Some (map_option (AddAbortTask (undo_task self key rid)) txn, ix')"
    "idx_ok XI items ix'" "Index_Metadata ix' = ?md" "idx_set XI items ix' = insert (k_RawTuple key, rid) (idx_set XI items ix)"
    using point_index.index_set_ins [OF point_index_runtime [OF assms(1,2)] a(1) assms(4,5), unfolded idx_set_eq [OF assms(1,2)]] by metis
  have "idx_set XI items ix' - P = row_entries th ?md (rows(rid \<mapsto> row))"
    using a(2) assms(6,8) i(4) row_entries_rid(1) [where rows = rows, OF assms(7)] unfolding row_entries_upd by auto
  then show ?thesis using i assms(3) by (auto simp: agrees_def)
qed

lemma agrees_delete:
  assumes "xsync_map XI" "tidwall_btree B item_less items cursor" "agrees XI items th rows P ix"
    "key_ok (Index_Metadata ix) key" "rid_ok rid" "rows rid = Some row" "k_RawTuple key = k_RawTuple (row_key th (Index_Metadata ix) row)"
  shows "\<exists>txn' ix'. Index_DeleteEntry XI B self key rid txn ix = Some (txn', ix') \<and>
    txn' = map_option (AddCommitTask (delete_task self key rid)) txn \<and>
    Index_Metadata ix' = Index_Metadata ix \<and>
    agrees XI items th (rows(rid := None)) (if txn = None then P else insert (k_RawTuple key, rid) P) ix'"
proof -
  let ?md = "Index_Metadata ix"
  have a: "idx_ok XI items ix" "idx_set XI items ix - P = row_entries th ?md rows" using assms(3) by (simp_all add: agrees_def)
  have upd: "row_entries th ?md (rows(rid := None)) = row_entries th ?md rows - {(k_RawTuple key, rid)}"
    using row_entries_rid(2) [where rows = rows, OF assms(6)] assms(7) unfolding row_entries_upd(2) by simp
  show ?thesis
  proof (cases txn)
    case None
    obtain ix' where i: "Index_DeleteEntry XI B self key rid None ix = Some (None, ix')" "idx_ok XI items ix'" "Index_Metadata ix' = ?md"
      "\<forall>k. set (idx_entries XI items ix' k) = set (idx_entries XI items ix k) - (if k = k_RawTuple key then {rid} else {})"
      using point_index.del_law [OF point_index_runtime [OF assms(1,2)] a(1) assms(4,5), of self] by blast
    have "idx_set XI items ix' = idx_set XI items ix - {(k_RawTuple key, rid)}"
      using i(4) by (auto simp: idx_set_def split: if_splits)
    then have "idx_set XI items ix' - P = row_entries th ?md (rows(rid := None))" using a(2) upd by auto
    then show ?thesis using i assms(3) None by (auto simp: agrees_def)
  next
    case (Some t)
    have "(k_RawTuple key, rid) \<in> row_entries th ?md rows" using assms(6,7) by (auto simp: row_entries_def)
    then have "rid \<in> set (idx_entries XI items ix (k_RawTuple key))" unfolding a(2) [symmetric] by (simp add: idx_set_def)
    then have i: "Index_DeleteEntry XI B self key rid (Some t) ix = Some (Some (AddCommitTask (delete_task self key rid) t), ix)"
      by (rule point_index.del_txn_law [OF point_index_runtime [OF assms(1,2)] a(1) assms(4,5)])
    have "idx_set XI items ix - insert (k_RawTuple key, rid) P = row_entries th ?md (rows(rid := None))" using a(2) upd by auto
    then show ?thesis using i assms(3) Some by (simp add: agrees_def)
  qed
qed

text \<open>A step that has added tasks for one index and one row.\<close>

definition adds_tasks :: "IndexMetadata \<Rightarrow> RecordID \<Rightarrow> ObjectID \<Rightarrow> ObjectID TransactionContext option \<Rightarrow> ObjectID TransactionContext option \<Rightarrow> bool" where
  "adds_tasks md rid oid txn txn' \<longleftrightarrow> (txn' = None \<longleftrightarrow> txn = None) \<and>
     (\<exists>ks. commits txn' = commits txn @ ks \<and> (\<forall>k \<in> set ks. it_Target k = oid \<and> it_RID k = rid \<and> task_ok md k))"

lemma adds_tasks_other:
  assumes "adds_tasks md rid oid txn txn'" "o' \<noteq> oid"
  shows "pending txn' o' = pending txn o'" "k \<in> set (commits txn') \<and> it_Target k = o' \<longleftrightarrow> k \<in> set (commits txn) \<and> it_Target k = o'"
  using assms by (auto simp: adds_tasks_def pending_def)

lemma for_indexes_synced:
  assumes "distinct oids" "\<forall>oid \<in> set oids. synced XI items th rows txn im oid \<and> rid \<notin> snd ` pending txn oid"
    and step: "\<And>oid txn ix. agrees XI items th rows (pending txn oid) ix \<Longrightarrow> rid \<notin> snd ` pending txn oid \<Longrightarrow>
      \<exists>txn' ix'. f oid txn ix = Some (txn', ix') \<and> Index_Metadata ix' = Index_Metadata ix \<and> adds_tasks (Index_Metadata ix) rid oid txn txn' \<and>
        agrees XI items th rows' (pending txn' oid) ix'"
  shows "\<exists>txn' im'. for_indexes f oids txn im = Some (txn', im') \<and> (\<forall>oid \<in> set oids. synced XI items th rows' txn' im' oid) \<and>
    (txn' = None \<longleftrightarrow> txn = None) \<and> (\<forall>k \<in> set (commits txn'). k \<in> set (commits txn) \<or> it_Target k \<in> set oids \<and> it_RID k = rid) \<and>
    (\<forall>oid. oid \<notin> set oids \<longrightarrow> im' oid = im oid \<and> pending txn' oid = pending txn oid \<and>
       (\<forall>k. k \<in> set (commits txn') \<and> it_Target k = oid \<longleftrightarrow> k \<in> set (commits txn) \<and> it_Target k = oid))"
  using assms(1,2)
proof (induction oids arbitrary: txn im)
  case (Cons oid oids)
  obtain ix where ix: "im oid = Some ix" "agrees XI items th rows (pending txn oid) ix"
    "\<forall>k \<in> set (commits txn). it_Target k = oid \<longrightarrow> task_ok (Index_Metadata ix) k"
    using Cons.prems(2) unfolding synced_def by (meson list.set_intros(1))
  have fresh: "rid \<notin> snd ` pending txn oid" using Cons.prems(2) by simp
  obtain t1 ix1 where s: "f oid txn ix = Some (t1, ix1)" "Index_Metadata ix1 = Index_Metadata ix" "adds_tasks (Index_Metadata ix) rid oid txn t1"
    "agrees XI items th rows' (pending t1 oid) ix1"
    using step [OF ix(2) fresh] by blast
  let ?im = "im(oid \<mapsto> ix1)"
  note oth = adds_tasks_other [OF s(3)]
  have d: "distinct oids" "oid \<notin> set oids" using Cons.prems(1) by simp_all
  have rest: "\<forall>o' \<in> set oids. synced XI items th rows t1 ?im o' \<and> rid \<notin> snd ` pending t1 o'"
  proof
    fix o' assume o: "o' \<in> set oids"
    then have ne: "o' \<noteq> oid" using d(2) by auto
    show "synced XI items th rows t1 ?im o' \<and> rid \<notin> snd ` pending t1 o'"
    proof
      have sy: "synced XI items th rows txn im o'" and fr: "rid \<notin> snd ` pending txn o'" using Cons.prems(2) o by simp_all
      show "rid \<notin> snd ` pending t1 o'" using fr oth(1) [OF ne] by simp
      obtain ix' where "im o' = Some ix'" "agrees XI items th rows (pending txn o') ix'"
        "\<forall>k \<in> set (commits txn). it_Target k = o' \<longrightarrow> task_ok (Index_Metadata ix') k" using sy unfolding synced_def by blast
      then show "synced XI items th rows t1 ?im o'" using ne oth(1) [OF ne] oth(2) [OF ne] unfolding synced_def by auto
    qed
  qed
  obtain txn' im' where r: "for_indexes f oids t1 ?im = Some (txn', im')" "\<forall>o' \<in> set oids. synced XI items th rows' txn' im' o'"
    "txn' = None \<longleftrightarrow> t1 = None" "\<forall>k \<in> set (commits txn'). k \<in> set (commits t1) \<or> it_Target k \<in> set oids \<and> it_RID k = rid"
    "\<And>o'. o' \<notin> set oids \<Longrightarrow> im' o' = ?im o' \<and> pending txn' o' = pending t1 o' \<and>
       (\<forall>k. k \<in> set (commits txn') \<and> it_Target k = o' \<longleftrightarrow> k \<in> set (commits t1) \<and> it_Target k = o')"
    using Cons.IH [OF d(1) rest] by blast
  have tasks: "\<forall>k \<in> set (commits t1). it_Target k = oid \<longrightarrow> task_ok (Index_Metadata ix1) k"
    using ix(3) s(2,3) by (auto simp: adds_tasks_def)
  have here: "synced XI items th rows' txn' im' oid"
    using r(5) [OF d(2)] s(4) tasks unfolding synced_def by auto
  have t: "\<forall>k \<in> set (commits txn'). k \<in> set (commits txn) \<or> it_Target k \<in> set (oid # oids) \<and> it_RID k = rid"
    using r(4) s(3) by (auto simp: adds_tasks_def)
  have out: "im' o' = im o' \<and> pending txn' o' = pending txn o' \<and>
       (\<forall>k. k \<in> set (commits txn') \<and> it_Target k = o' \<longleftrightarrow> k \<in> set (commits txn) \<and> it_Target k = o')" if "o' \<notin> set (oid # oids)" for o'
    using r(5) [of o'] oth [of o'] that by simp
  have n: "txn' = None \<longleftrightarrow> txn = None" using r(3) s(3) by (simp add: adds_tasks_def)
  show ?case using ix(1) s(1) r(1,2) here t out n by simp
qed auto

lemma commits_add [simp]:
  "commits (map_option (AddAbortTask k) txn) = commits txn"
  "commits (map_option (AddCommitTask k) txn) = (if txn = None then [] else commits txn @ [k])"
  by (simp_all add: commits_def AddAbortTask_def AddCommitTask_def split: option.split)

lemma commits_None [simp]: "commits None = []" "pending None oid = {}"
  by (simp_all add: commits_def pending_def)

lemma pending_abort [simp]: "pending (map_option (AddAbortTask k) txn) oid = pending txn oid"
  by (simp add: pending_def)

lemma pending_commit:
  "pending (map_option (AddCommitTask (delete_task oid key rid)) txn) oid = (if txn = None then pending txn oid else insert (k_RawTuple key, rid) (pending txn oid))"
proof -
  have "{k \<in> set (ks @ [delete_task oid key rid]). it_Target k = oid} = insert (delete_task oid key rid) {k \<in> set ks. it_Target k = oid}" for ks
    by (auto simp: delete_task_def)
  then show ?thesis unfolding pending_def commits_add by (simp add: delete_task_def)
qed

lemma adds_abort: "adds_tasks md rid oid txn txn' \<Longrightarrow> adds_tasks md rid oid txn (map_option (AddAbortTask k) txn')"
  by (simp add: adds_tasks_def)

lemma adds_refl: "adds_tasks md rid oid txn txn"
  by (simp add: adds_tasks_def)

lemma adds_commit:
  assumes "key_ok md key" "rid_ok rid"
  shows "adds_tasks md rid oid txn (map_option (AddCommitTask (delete_task oid key rid)) txn)"
  using assms by (auto simp: adds_tasks_def task_ok_def delete_task_def commits_def AddCommitTask_def split: option.split)

definition env_libs :: "('s, 'm, 'fs, 'h, 't, 'it) ModifyEnv \<Rightarrow> ('t \<Rightarrow> btreeItem list) \<Rightarrow> ('it \<Rightarrow> btreeItem list \<times> nat) \<Rightarrow> bool" where
  "env_libs env items cursor \<longleftrightarrow> xsync_map (me_keys env) \<and> tidwall_btree (me_btree env) item_less items cursor"

text \<open>The rows of a heap file, as the executors store them.\<close>

definition stored :: "TableHeap \<Rightarrow> Tuple \<Rightarrow> bytes \<Rightarrow> bool" where
  "stored th t row \<longleftrightarrow> wf_desc (th_desc th) \<and> length row = d_bytesPerRow (th_desc th) \<and> shows_row th t row"

lemma stored_key:
  assumes "stored th t row" "index_for th md"
  shows "get_values (Tuple_GetValue t) (ProjectionList md) = Some (map (nth (tuple_values t)) (ProjectionList md))"
    "index_key md (map (nth (tuple_values t)) (ProjectionList md)) = Some (row_key th md row)" "key_ok md (row_key th md row)"
proof -
  have t: "wf_desc (th_desc th)" "length row = d_bytesPerRow (th_desc th)" "shows_row th t row" "tuple_of (heap_types th) t"
    using assms(1) by (simp_all add: stored_def shows_row_def)
  note k = row_key_tuple [OF t(1,2) assms(2) t(3)]
  show "get_values (Tuple_GetValue t) (ProjectionList md) = Some (map (nth (tuple_values t)) (ProjectionList md))"
    by (rule tuple_key_values [OF assms(2) t(4)])
  show "index_key md (map (nth (tuple_values t)) (ProjectionList md)) = Some (row_key th md row)"
    unfolding k(1) by (rule index_key_values [OF assms(2) tuple_vals [OF t(4)]])
  show "key_ok md (row_key th md row)" by (rule k(2))
qed

lemma insert_entry_step:
  assumes "env_libs env items cursor" "stored th t row" "rid_ok rid" "rows rid = None"
    "agrees (me_keys env) items th rows (pending txn oid) ix" "rid \<notin> snd ` pending txn oid"
  shows "\<exists>txn' ix'. insert_entry env t rid oid txn ix = Some (txn', ix') \<and> Index_Metadata ix' = Index_Metadata ix \<and>
    adds_tasks (Index_Metadata ix) rid oid txn txn' \<and> agrees (me_keys env) items th (rows(rid \<mapsto> row)) (pending txn' oid) ix'"
proof -
  let ?md = "Index_Metadata ix" and ?key = "row_key th (Index_Metadata ix) row"
  have lib: "xsync_map (me_keys env)" "tidwall_btree (me_btree env) item_less items cursor" using assms(1) by (simp_all add: env_libs_def)
  have "index_for th ?md" using assms(5) by (simp add: agrees_def)
  note k = stored_key [OF assms(2) this]
  obtain ix' where i: "Index_InsertEntry (me_keys env) (me_btree env) oid ?key rid txn ix = Some (map_option (AddAbortTask (undo_task oid ?key rid)) txn, ix')"
    "Index_Metadata ix' = ?md" "agrees (me_keys env) items th (rows(rid \<mapsto> row)) (pending txn oid) ix'"
    using agrees_insert [OF lib assms(5) k(3) assms(3) _ assms(4), of row oid txn] assms(6) by force
  then show ?thesis using k adds_abort [OF adds_refl] by (auto simp: insert_entry_def)
qed

lemma delete_entry_step:
  assumes "env_libs env items cursor" "stored th t row" "rid_ok (t_rid t)" "rows (t_rid t) = Some row"
    "agrees (me_keys env) items th rows (pending txn oid) ix"
  shows "\<exists>txn' ix'. delete_entry env t oid txn ix = Some (txn', ix') \<and> Index_Metadata ix' = Index_Metadata ix \<and>
    adds_tasks (Index_Metadata ix) (t_rid t) oid txn txn' \<and> agrees (me_keys env) items th (rows(t_rid t := None)) (pending txn' oid) ix'"
proof -
  let ?md = "Index_Metadata ix" and ?key = "row_key th (Index_Metadata ix) row"
  have lib: "xsync_map (me_keys env)" "tidwall_btree (me_btree env) item_less items cursor" using assms(1) by (simp_all add: env_libs_def)
  have "index_for th ?md" using assms(5) by (simp add: agrees_def)
  note k = stored_key [OF assms(2) this]
  obtain txn' ix' where i: "Index_DeleteEntry (me_keys env) (me_btree env) oid ?key (t_rid t) txn ix = Some (txn', ix')"
    "txn' = map_option (AddCommitTask (delete_task oid ?key (t_rid t))) txn" "Index_Metadata ix' = ?md"
    "agrees (me_keys env) items th (rows(t_rid t := None)) (if txn = None then pending txn oid else insert (k_RawTuple ?key, t_rid t) (pending txn oid)) ix'"
    using agrees_delete [OF lib assms(5) k(3) assms(3,4), of oid txn] by blast
  then show ?thesis using k adds_commit [OF k(3) assms(3)] by (auto simp: delete_entry_def pending_commit)
qed

lemma option_list_compare:
  assumes "map v_t vs = map v_t ws" "\<forall>v \<in> set vs. v_t v \<noteq> DefaultType"
  shows "key_changed vs ws = Some (map sql_of vs \<noteq> map sql_of ws)"
proof -
  have "length vs = length ws" using assms(1) by (metis length_map)
  then have "option_list (map2 Value_Compare vs ws) = Some (map2 value_cmp vs ws) \<and>
      ((\<exists>c \<in> set (map2 value_cmp vs ws). c \<noteq> 0) \<longleftrightarrow> map sql_of vs \<noteq> map sql_of ws)"
    using assms
  proof (induction vs ws rule: list_induct2)
    case (Cons v vs w ws)
    have c: "Value_Compare v w = Some (value_cmp v w)" using Value_Compare_total [of v w] Cons.prems by simp
    moreover have "value_cmp v w = 0 \<longleftrightarrow> sql_of v = sql_of w" using Value_Compare_eq_0 [of v w] c Cons.prems by simp
    ultimately show ?case using Cons by auto
  qed simp
  then show ?thesis by (simp add: key_changed_def)
qed

lemma update_entry_step:
  assumes "env_libs env items cursor" "stored th t row" "rid_ok (t_rid t)" "rows (t_rid t) = Some row" "stored th (FromValues (Some vs)) row'"
    "agrees (me_keys env) items th rows (pending txn oid) ix" "t_rid t \<notin> snd ` pending txn oid"
  shows "\<exists>txn' ix'. update_entry env t vs oid txn ix = Some (txn', ix') \<and> Index_Metadata ix' = Index_Metadata ix \<and>
    adds_tasks (Index_Metadata ix) (t_rid t) oid txn txn' \<and> agrees (me_keys env) items th (rows(t_rid t \<mapsto> row')) (pending txn' oid) ix'"
proof -
  let ?md = "Index_Metadata ix" and ?rid = "t_rid t"
  let ?old = "row_key th ?md row" and ?new = "row_key th ?md row'"
  let ?ov = "map (nth (tuple_values t)) (ProjectionList ?md)" and ?nv = "map (nth vs) (ProjectionList ?md)"
  have lib: "xsync_map (me_keys env)" "tidwall_btree (me_btree env) item_less items cursor" using assms(1) by (simp_all add: env_libs_def)
  have fo: "index_for th ?md" using assms(6) by (simp add: agrees_def)
  have nt: "tuple_values (FromValues (Some vs)) = vs" by (simp add: FromValues_def tuple_values_def phys_types_def)
  note ko = stored_key [OF assms(2) fo] and kn = stored_key [OF assms(5) fo, unfolded nt]
  have vo: "vals_of (heap_types th) (tuple_values t)" and vn: "vals_of (heap_types th) vs"
    using assms(2,5) tuple_vals nt by (auto simp: stored_def shows_row_def) (metis nt tuple_vals)
  note po = vals_of_project [OF fo vo] and pn = vals_of_project [OF fo vn]
  have gn: "get_values (idx vs) (ProjectionList ?md) = Some ?nv"
    using fo vals_of_nth(3) [OF vn] by (intro get_values_all) (auto simp: index_for_def)
  have "DefaultType \<notin> set (d_fields (snd (KeySchema ?md)))" using fo unfolding index_for_def schema_ok_def wf_desc_def by blast
  then have nd: "\<forall>v \<in> set ?ov. v_t v \<noteq> DefaultType" using po unfolding vals_of_def by (metis image_eqI image_set)
  have ch: "key_changed ?ov ?nv = Some (map sql_of ?ov \<noteq> map sql_of ?nv)"
    using po pn nd by (intro option_list_compare) (simp_all add: vals_of_def)
  have keys: "map sql_of ?ov = map sql_of ?nv \<longleftrightarrow> k_RawTuple ?old = k_RawTuple ?new"
  proof -
    have "?old = key_of_values ?md (tuple_values t)" "?new = key_of_values ?md vs"
      using ko(2) kn(2) index_key_values [OF fo vo] index_key_values [OF fo vn] by simp_all
    then have "k_RawTuple ?old = encode_row ?ov" "k_RawTuple ?new = encode_row ?nv" by (simp_all add: key_of_values_def)
    then show ?thesis using encode_row_eq_iff [of ?ov ?nv] po pn unfolding vals_of_def by metis
  qed
  show ?thesis
  proof (cases "map sql_of ?ov = map sql_of ?nv")
    case True
    then have "row_entries th ?md (rows(?rid \<mapsto> row')) = row_entries th ?md rows"
      using keys assms(4) by (auto simp: row_entries_def split: if_splits)
    then have "agrees (me_keys env) items th (rows(?rid \<mapsto> row')) (pending txn oid) ix" using assms(6) by (simp add: agrees_def)
    then show ?thesis using ko(1) gn ch True adds_refl by (simp add: update_entry_def)
  next
    case False
    obtain t1 ix1 where d: "Index_DeleteEntry (me_keys env) (me_btree env) oid ?old ?rid txn ix = Some (t1, ix1)"
      "t1 = map_option (AddCommitTask (delete_task oid ?old ?rid)) txn" "Index_Metadata ix1 = ?md"
      "agrees (me_keys env) items th (rows(?rid := None)) (if txn = None then pending txn oid else insert (k_RawTuple ?old, ?rid) (pending txn oid)) ix1"
      using agrees_delete [OF lib assms(6) ko(3) assms(3,4), of oid txn] by blast
    have ag: "agrees (me_keys env) items th (rows(?rid := None)) (pending t1 oid) ix1" using d(2,4) by (simp add: pending_commit)
    have fr: "(k_RawTuple ?new, ?rid) \<notin> pending t1 oid"
    proof
      assume "(k_RawTuple ?new, ?rid) \<in> pending t1 oid"
      then have "(k_RawTuple ?new, ?rid) \<in> pending txn oid \<or> k_RawTuple ?new = k_RawTuple ?old" unfolding d(2) by (auto simp: pending_commit split: if_splits)
      then show False using assms(7) keys False by force
    qed
    have kn3: "key_ok (Index_Metadata ix1) ?new" using kn(3) d(3) by simp
    have "\<exists>ix2. Index_InsertEntry (me_keys env) (me_btree env) oid ?new ?rid t1 ix1 = Some (map_option (AddAbortTask (undo_task oid ?new ?rid)) t1, ix2) \<and>
      Index_Metadata ix2 = Index_Metadata ix1 \<and> agrees (me_keys env) items th ((rows(?rid := None))(?rid \<mapsto> row')) (pending t1 oid) ix2"
      by (rule agrees_insert [OF lib ag kn3 assms(3) fr]) (simp_all add: d(3))
    then obtain ix2 where i: "Index_InsertEntry (me_keys env) (me_btree env) oid ?new ?rid t1 ix1 = Some (map_option (AddAbortTask (undo_task oid ?new ?rid)) t1, ix2)"
      "Index_Metadata ix2 = ?md" "agrees (me_keys env) items th (rows(?rid \<mapsto> row')) (pending t1 oid) ix2"
      unfolding fun_upd_upd d(3) by blast
    let ?t2 = "map_option (AddAbortTask (undo_task oid ?new ?rid)) t1"
    have "update_entry env t vs oid txn ix = Some (?t2, ix2)"
      using ko(1,2) kn(2) gn ch False d(1) i(1) by (simp add: update_entry_def)
    moreover have "adds_tasks ?md ?rid oid txn ?t2" unfolding d(2) by (rule adds_abort [OF adds_commit [OF ko(3) assms(3)]])
    ultimately show ?thesis using i(2,3) by auto
  qed
qed

section \<open>The end of the transaction\<close>

text \<open>A task reaches the index it was registered by.\<close>

definition manager_task :: "(bytes, nat, 'h) MapOf \<Rightarrow> (btreeItem, 't, 'it) BTreeG \<Rightarrow> ObjectID IndexTask \<Rightarrow> ('h, 't) IndexManager option \<Rightarrow>
    ('h, 't) IndexManager option" where
  "manager_task XI B task w = do {
     im \<leftarrow> w;
     ix \<leftarrow> im (it_Target task);
     ix \<leftarrow> Index_Invoke XI B (it_Type task) (it_Key task) (it_RID task) ix;
     Some (im(it_Target task \<mapsto> ix))
   }"

definition task_entries :: "ObjectID IndexTask list \<Rightarrow> ObjectID \<Rightarrow> index_set" where
  "task_entries ks oid = (\<lambda>k. (it_Key k, it_RID k)) ` {k \<in> set ks. it_Target k = oid}"

lemma task_entries_Cons:
  "task_entries (k # ks) oid = (if it_Target k = oid then {(it_Key k, it_RID k)} else {}) \<union> task_entries ks oid"
  by (auto simp: task_entries_def)

lemma manager_tasks:
  assumes "xsync_map XI" "tidwall_btree B item_less items cursor"
    "\<forall>k \<in> set ks. it_Target k \<in> S" "\<forall>oid \<in> S. \<exists>ix. im oid = Some ix \<and> agrees XI items th rows (task_entries ks oid) ix \<and>
      (\<forall>k \<in> set ks. it_Target k = oid \<longrightarrow> task_ok (Index_Metadata ix) k)"
  shows "\<exists>im'. fold (manager_task XI B) ks (Some im) = Some im' \<and> (\<forall>oid \<in> S. \<exists>ix. im' oid = Some ix \<and> agrees XI items th rows {} ix) \<and>
    (\<forall>oid. oid \<notin> S \<longrightarrow> im' oid = im oid)"
  using assms(3,4)
proof (induction ks arbitrary: im)
  case Nil
  then show ?case by (simp add: task_entries_def)
next
  case (Cons k ks)
  let ?o = "it_Target k"
  obtain ix where ix: "im ?o = Some ix" "agrees XI items th rows (task_entries (k # ks) ?o) ix" "\<forall>j \<in> set (k # ks). it_Target j = ?o \<longrightarrow> task_ok (Index_Metadata ix) j"
    using Cons.prems by (metis list.set_intros(1))
  obtain key where key: "key_ok (Index_Metadata ix) key" "it_Key k = k_RawTuple key" "rid_ok (it_RID k)" using ix(3) by (auto simp: task_ok_def)
  have ok: "idx_ok XI items ix" using ix(2) by (simp add: agrees_def)
  obtain ix' where v: "Index_Invoke XI B (it_Type k) (it_Key k) (it_RID k) ix = Some ix'" "idx_ok XI items ix'" "Index_Metadata ix' = Index_Metadata ix"
    "idx_set XI items ix' = idx_set XI items ix - {(it_Key k, it_RID k)}"
    using point_index.index_set_invoke [OF point_index_runtime [OF assms(1,2)] ok key(1,3), unfolded idx_set_eq [OF assms(1,2)]] key(2) by metis
  have ag: "agrees XI items th rows (task_entries ks ?o) ix'"
  proof -
    have "idx_set XI items ix' - task_entries ks ?o = idx_set XI items ix - task_entries (k # ks) ?o" unfolding v(4) task_entries_Cons by auto
    then show ?thesis using ix(2) v(2,3) unfolding agrees_def by simp
  qed
  let ?im = "im(?o \<mapsto> ix')"
  have rest: "\<forall>oid \<in> S. \<exists>ix. ?im oid = Some ix \<and> agrees XI items th rows (task_entries ks oid) ix \<and> (\<forall>k \<in> set ks. it_Target k = oid \<longrightarrow> task_ok (Index_Metadata ix) k)"
  proof
    fix oid assume o: "oid \<in> S"
    show "\<exists>ix. ?im oid = Some ix \<and> agrees XI items th rows (task_entries ks oid) ix \<and> (\<forall>k \<in> set ks. it_Target k = oid \<longrightarrow> task_ok (Index_Metadata ix) k)"
    proof (cases "oid = ?o")
      case True
      then show ?thesis using ag v(3) ix(3) by simp
    next
      case False
      obtain x where x: "im oid = Some x" "agrees XI items th rows (task_entries (k # ks) oid) x"
        "\<forall>j \<in> set (k # ks). it_Target j = oid \<longrightarrow> task_ok (Index_Metadata x) j" using Cons.prems(2) o by blast
      have "task_entries (k # ks) oid = task_entries ks oid" using False by (simp add: task_entries_Cons)
      then show ?thesis using x False by auto
    qed
  qed
  have "fold (manager_task XI B) (k # ks) (Some im) = fold (manager_task XI B) ks (Some ?im)"
    using ix(1) v(1) by (simp add: manager_task_def [of _ _ _ "Some im"])
  moreover have "?o \<in> S" using Cons.prems(1) by simp
  ultimately show ?case using Cons.IH [OF _ rest] Cons.prems(1) by (metis fun_upd_other list.set_intros(2))
qed

text \<open>After the commit the indexes hold the entries of the rows and no others.\<close>

lemma commit_synced:
  assumes "xsync_map XI" "tidwall_btree B item_less items cursor"
    "\<forall>oid \<in> S. synced XI items th rows (Some t) im oid" "\<forall>k \<in> set (commitActions t). it_Target k \<in> S"
  shows "\<exists>im'. Commit (manager_task XI B) t (Some im) = Some im' \<and> (\<forall>oid \<in> S. \<exists>ix. im' oid = Some ix \<and> agrees XI items th rows {} ix)"
proof -
  have "\<forall>oid \<in> S. \<exists>ix. im oid = Some ix \<and> agrees XI items th rows (task_entries (commitActions t) oid) ix \<and>
      (\<forall>k \<in> set (commitActions t). it_Target k = oid \<longrightarrow> task_ok (Index_Metadata ix) k)"
    using assms(3) by (simp add: synced_def pending_def task_entries_def commits_def)
  from manager_tasks [OF assms(1,2,4) this] show ?thesis by (auto simp: Commit_def)
qed

section \<open>Inputs of the executors\<close>

definition lens_ok :: "('s, 'm, 'fs) HeapLens \<Rightarrow> bool" where
  "lens_ok L \<longleftrightarrow> (\<forall>w s. hl_get L (hl_put L w s) = w)"

text \<open>A child that yields its tuples whatever happens to the pool and the files in between, and does not change them: literal rows
  do, a scan of a table does not.\<close>

inductive feeds :: "'s Executor \<Rightarrow> ('s, 'm, 'fs) HeapLens \<Rightarrow> 's \<Rightarrow> Tuple list \<Rightarrow> bool" for E L where
  feeds_end: "ex_Next E s = Some (False, s') \<Longrightarrow> hl_get L s' = hl_get L s \<Longrightarrow> feeds E L s []"
| feeds_row: "ex_Next E s = Some (True, s') \<Longrightarrow> hl_get L s' = hl_get L s \<Longrightarrow> ex_Current E s' = Some t \<Longrightarrow>
    (\<And>w. feeds E L (hl_put L w s') ts) \<Longrightarrow> feeds E L s (t # ts)"

text \<open>A child that is read to its end.\<close>

inductive drained :: "'s Executor \<Rightarrow> 's \<Rightarrow> Tuple list \<Rightarrow> 's \<Rightarrow> bool" for E where
  drained_end: "ex_Next E s = Some (False, s') \<Longrightarrow> drained E s [] s'"
| drained_row: "ex_Next E s = Some (True, s') \<Longrightarrow> ex_Current E s' = Some t \<Longrightarrow> drained E s' ts s'' \<Longrightarrow> drained E s (t # ts) s''"

lemma collect_drained:
  assumes "drained E s ts s'" "\<forall>t \<in> set ts. DeepCopy t d \<noteq> None"
  shows "collect E d acc s = Some (acc @ map (\<lambda>t. the (DeepCopy t d)) ts, s')"
  using assms
proof (induction arbitrary: acc rule: drained.induct)
  case (drained_end s s')
  then show ?case by (subst collect.simps) simp
next
  case (drained_row s s' t ts s'')
  then show ?case by (subst collect.simps) auto
qed

section \<open>The statements\<close>

definition keyed_env :: "('s, 'm, 'fs, 'h, 't, 'it) ModifyEnv \<Rightarrow> ('t \<Rightarrow> btreeItem list) \<Rightarrow> (RecordID \<rightharpoonup> bytes) \<Rightarrow> ObjectID TransactionContext option \<Rightarrow> ('h, 't) IndexManager \<Rightarrow> bool" where
  "keyed_env env items rows txn im \<longleftrightarrow> (\<forall>oid \<in> set (me_oids env). synced (me_keys env) items (me_tableHeap env) rows txn im oid) \<and>
     (\<forall>k \<in> set (commits txn). it_Target k \<in> set (me_oids env))"

lemma keyed_step:
  assumes "distinct (me_oids env)" "keyed_env env items rows txn im" "rid \<notin> it_RID ` set (commits txn)"
    and step: "\<And>oid txn ix. agrees (me_keys env) items (me_tableHeap env) rows (pending txn oid) ix \<Longrightarrow> rid \<notin> snd ` pending txn oid \<Longrightarrow>
      \<exists>txn' ix'. f oid txn ix = Some (txn', ix') \<and> Index_Metadata ix' = Index_Metadata ix \<and> adds_tasks (Index_Metadata ix) rid oid txn txn' \<and>
        agrees (me_keys env) items (me_tableHeap env) rows' (pending txn' oid) ix'"
  shows "\<exists>txn' im'. for_indexes f (me_oids env) txn im = Some (txn', im') \<and> keyed_env env items rows' txn' im' \<and> (txn' = None \<longleftrightarrow> txn = None) \<and>
    it_RID ` set (commits txn') \<subseteq> insert rid (it_RID ` set (commits txn))"
proof -
  have pre: "\<forall>oid \<in> set (me_oids env). synced (me_keys env) items (me_tableHeap env) rows txn im oid \<and> rid \<notin> snd ` pending txn oid"
    using assms(2,3) by (auto simp: keyed_env_def pending_def)
  obtain txn' im' where r: "for_indexes f (me_oids env) txn im = Some (txn', im')"
    "\<forall>oid \<in> set (me_oids env). synced (me_keys env) items (me_tableHeap env) rows' txn' im' oid" "txn' = None \<longleftrightarrow> txn = None"
    "\<forall>k \<in> set (commits txn'). k \<in> set (commits txn) \<or> it_Target k \<in> set (me_oids env) \<and> it_RID k = rid"
    using for_indexes_synced [OF assms(1) pre step] by blast
  then show ?thesis using assms(2) unfolding keyed_env_def by blast
qed

lemma insert_entry_commits:
  assumes "insert_entry env t rid oid txn ix = Some (txn', ix')"
  shows "commits txn' = commits txn" "txn' = None \<longleftrightarrow> txn = None"
  using assms by (cases ix; auto simp: insert_entry_def bind_eq_Some_conv Hash_InsertEntry_def BTree_InsertEntry_def Let_def)+

lemma for_indexes_commits:
  assumes "\<And>oid txn ix txn' ix'. f oid txn ix = Some (txn', ix') \<Longrightarrow> commits txn' = commits txn"
  shows "for_indexes f oids txn im = Some (txn', im') \<Longrightarrow> commits txn' = commits txn"
proof (induction oids arbitrary: txn im)
  case (Cons oid oids)
  then obtain ix t1 ix1 where "f oid txn ix = Some (t1, ix1)" "for_indexes f oids t1 (im(oid \<mapsto> ix1)) = Some (txn', im')" by (auto simp: bind_eq_Some_conv)
  then show ?case using Cons.IH assms by metis
qed simp

text \<open>What the loops need of the environment.\<close>

definition env_ok :: "('s, 'm, 'fs, 'h, 't, 'it) ModifyEnv \<Rightarrow> ('t \<Rightarrow> btreeItem list) \<Rightarrow> ('it \<Rightarrow> btreeItem list \<times> nat) \<Rightarrow> bool" where
  "env_ok env items cursor \<longleftrightarrow> env_libs env items cursor \<and> lens_ok (me_lens env) \<and> distinct (me_oids env) \<and> (\<exists>n. me_fuel env = Suc n)"

text \<open>New rows that show the tuples of a statement.\<close>

definition new_rows :: "TableHeap \<Rightarrow> (RecordID \<rightharpoonup> bytes) \<Rightarrow> (RecordID \<times> bytes) list \<Rightarrow> Tuple list \<Rightarrow> bool" where
  "new_rows th rows new ts \<longleftrightarrow> distinct (map fst new) \<and> (\<forall>rid \<in> fst ` set new. rows rid = None) \<and> list_all2 (\<lambda>x t. shows_row th t (snd x)) new ts"

text \<open>Tuples that show different rows of the heap file, none of them touched by a deferred task.\<close>

definition targets :: "TableHeap \<Rightarrow> (RecordID \<rightharpoonup> bytes) \<Rightarrow> 'i TransactionContext option \<Rightarrow> Tuple list \<Rightarrow> bool" where
  "targets th rows txn ts \<longleftrightarrow> distinct (map t_rid ts) \<and> t_rid ` set ts \<inter> it_RID ` set (commits txn) = {} \<and>
     (\<forall>t \<in> set ts. \<exists>row. rows (t_rid t) = Some row \<and> shows_row th t row)"

lemma targets_Cons:
  assumes "targets th rows txn (t # ts)" "it_RID ` set (commits txn') \<subseteq> insert (t_rid t) (it_RID ` set (commits txn))" "\<forall>rid. rid \<noteq> t_rid t \<longrightarrow> rows' rid = rows rid"
  shows "targets th rows' txn' ts" "t_rid t \<notin> it_RID ` set (commits txn)" "\<exists>row. rows (t_rid t) = Some row \<and> shows_row th t row"
proof -
  have ne: "t_rid u \<noteq> t_rid t" if "u \<in> set ts" for u using assms(1) that by (auto simp: targets_def image_iff)
  have "t_rid ` set ts \<inter> it_RID ` set (commits txn') = {}" using assms(1,2) ne unfolding targets_def by fastforce
  then show "targets th rows' txn' ts" using assms(1,3) ne by (simp add: targets_def)
qed (use assms(1) in \<open>auto simp: targets_def\<close>)

lemma new_rows_Cons:
  assumes "new_rows th (rows(rid \<mapsto> row)) new ts" "rows rid = None" "shows_row th t row"
  shows "new_rows th rows ((rid, row) # new) (t # ts)" "rows(rid \<mapsto> row) ++ map_of new = rows ++ map_of ((rid, row) # new)"
proof -
  have fr: "rid \<notin> fst ` set new" using assms(1) by (auto simp: new_rows_def)
  then show "new_rows th rows ((rid, row) # new) (t # ts)" using assms by (auto simp: new_rows_def split: if_splits)
  show "rows(rid \<mapsto> row) ++ map_of new = rows ++ map_of ((rid, row) # new)"
    using fr [folded map_of_eq_None_iff] by (auto simp: map_add_def fun_eq_iff split: option.split)
qed

context buffer_pool
begin

lemma heap_row_ok:
  assumes "heap_state th bp fs" "rows_of th bp fs rid = Some row"
  shows "rid_ok rid" "valid_rid th rid" "length row = d_bytesPerRow (th_desc th)"
proof -
  let ?pid = "rid_PageID rid" and ?k = "nat (sint (Slot rid))"
  obtain b where b: "Oid ?pid = th_oid th" "view X (pages fs) bp ?pid = Some b" "page_row b (Slot rid) = Some row"
    using assms(2) by (auto simp: heap_rows_def split: if_splits option.splits)
  have wf: "wf_page th b" by (rule heap_page_wf [OF assms(1) b(2,1)])
  have k: "0 \<le> sint (Slot rid)" "?k < NumSlots (page_of b)" "live (abs_page (page_of b) ! ?k) = Some row"
    using b(3) by (auto simp: page_row_def Let_def split: if_splits)
  then show "valid_rid th rid" using wf b(1) by (simp add: valid_rid_def wf_page_def)
  have "pages fs ?pid \<noteq> None" using view_exists [of fs bp ?pid] assms(1) b(2) by (simp add: heap_state_def pool_state_def)
  then have "0 \<le> sint (PageNum ?pid)" using page_nums assms(1) by (auto simp: heap_state_def pool_state_def)
  then show "rid_ok rid" using k(1) by (simp add: rid_ok_def)
  have lay: "wf_layout (page_of b)" using wf by (simp add: wf_page_def wf_heap_page_def)
  have "row = slot_bytes (page_of b) ?k" using k(2,3) by (simp add: live_def split: if_splits)
  moreover have "length (slot_bytes (page_of b) ?k) = RowSize (page_of b)"
    using slot_in_page [OF lay k(2)] lay by (simp add: slot_bytes_def wf_layout_def)
  ultimately show "length row = d_bytesPerRow (th_desc th)" using wf by (simp add: wf_page_def)
qed


text \<open>The heap file and all its indexes.\<close>

definition modify_state :: "('s, 'm, 'fs, 'h, 't, 'it) ModifyEnv \<Rightarrow> ('t \<Rightarrow> btreeItem list) \<Rightarrow> (RecordID \<rightharpoonup> bytes) \<Rightarrow> ('s, 'h, 't) ModifyState \<Rightarrow> bool" where
  "modify_state env items rows e \<longleftrightarrow> (case hl_get (me_lens env) (mo_child e) of (bp, fs) \<Rightarrow>
     heap_state (me_tableHeap env) bp fs \<and> rows_of (me_tableHeap env) bp fs = rows \<and> keyed_env env items rows (mo_txn e) (mo_indexes e))"

lemma insert_row_spec:
  assumes "env_ok env items cursor" "me_pages env = X" "me_files env = M" "modify_state env items rows e" "tuple_of (heap_types (me_tableHeap env)) t"
    "commits (mo_txn e) = []"
  shows "\<exists>r e'. insert_row env t e = Some (r, e') \<and> (\<forall>u. r = Inr u \<longrightarrow> (\<exists>w rid row. mo_child e' = hl_put (me_lens env) w (mo_child e) \<and>
    modify_state env items (rows(rid \<mapsto> row)) e' \<and> rows rid = None \<and> shows_row (me_tableHeap env) t row \<and> commits (mo_txn e') = [] \<and>
    (mo_txn e' = None \<longleftrightarrow> mo_txn e = None)))"
proof -
  let ?th = "me_tableHeap env" and ?L = "me_lens env"
  obtain n where env: "env_libs env items cursor" "lens_ok ?L" "distinct (me_oids env)" "me_fuel env = Suc n" using assms(1) by (auto simp: env_ok_def)
  obtain bp fs where g: "hl_get ?L (mo_child e) = (bp, fs)" by fastforce
  have st: "heap_state ?th bp fs" "rows_of ?th bp fs = rows" "keyed_env env items rows (mo_txn e) (mo_indexes e)"
    using assms(4) g by (simp_all add: modify_state_def)
  have wf: "wf_desc (th_desc ?th)" using st(1) by (simp add: heap_state_def)
  obtain raw where raw: "WriteToBuffer t (replicate (BytesPerTuple (StorageSchema ?th)) 0) (StorageSchema ?th) = Some raw"
    "length (rawTuple raw) = d_bytesPerRow (th_desc ?th)" "shows_row ?th t (rawTuple raw)"
    using stored_row [OF wf assms(5)] by blast
  have sto: "stored ?th t (rawTuple raw)" using wf raw(2,3) by (simp add: stored_def)
  obtain r bp' fs' where i: "InsertTuple (Suc n) X M ?th (rawTuple raw) bp fs = Some (r, bp', fs')"
    "\<And>rid. r = Inr rid \<Longrightarrow> heap_state ?th bp' fs' \<and> valid_rid ?th rid \<and> rows rid = None \<and> rows_of ?th bp' fs' = rows(rid \<mapsto> rawTuple raw)"
    using InsertTuple_spec [OF st(1) raw(2), of n] st(2) by blast
  let ?e = "e\<lparr>mo_child := hl_put ?L (bp', fs') (mo_child e)\<rparr>"
  have oh: "on_heap env (InsertTuple (me_fuel env) (me_pages env) (me_files env) ?th (rawTuple raw)) e = Some (r, ?e)"
    using g i(1) assms(2,3) env(4) by (simp add: on_heap_def)
  show ?thesis
  proof (cases r)
    case (Inl err)
    then show ?thesis using raw(1) oh by (simp add: insert_row_def Let_def)
  next
    case (Inr rid)
    note h = i(2) [OF Inr]
    have rok: "rid_ok rid" using heap_row_ok(1) [of ?th bp' fs' rid] h by simp
    have nr: "rows rid = None" using h by simp
    obtain txn' im' where k: "for_indexes (insert_entry env t rid) (me_oids env) (mo_txn e) (mo_indexes e) = Some (txn', im')"
      "keyed_env env items (rows(rid \<mapsto> rawTuple raw)) txn' im'" "txn' = None \<longleftrightarrow> mo_txn e = None"
      using keyed_step [OF env(3) st(3) _ insert_entry_step [where rows = rows, OF env(1) sto rok nr]] assms(6) by auto
    have c: "commits txn' = []" using for_indexes_commits [OF insert_entry_commits(1) k(1)] assms(6) by simp
    let ?e' = "?e\<lparr>mo_txn := txn', mo_indexes := im'\<rparr>"
    have "insert_row env t e = Some (Inr (), ?e')" using raw(1) oh Inr k(1) by (simp add: insert_row_def Let_def)
    moreover have "modify_state env items (rows(rid \<mapsto> rawTuple raw)) ?e'"
      using h k(2) env(2) by (simp add: modify_state_def lens_ok_def)
    moreover have "mo_child ?e' = hl_put ?L (bp', fs') (mo_child e)" by simp
    ultimately show ?thesis using h raw(3) c k(3) by auto
  qed
qed


lemma insert_loop_spec:
  assumes "feeds E (me_lens env) s ts" "env_ok env items cursor" "me_pages env = X" "me_files env = M"
    "\<forall>t \<in> set ts. tuple_of (heap_types (me_tableHeap env)) t" "s = mo_child e" "modify_state env items rows e" "commits (mo_txn e) = []"
  shows "\<exists>r e'. insert_loop env E n e = Some (r, e') \<and> (\<forall>m. r = Inr m \<longrightarrow> m = n + length ts \<and>
    (\<exists>new. new_rows (me_tableHeap env) rows new ts \<and> modify_state env items (rows ++ map_of new) e') \<and> commits (mo_txn e') = [] \<and>
    (mo_txn e' = None \<longleftrightarrow> mo_txn e = None))"
  using assms(1,5-)
proof (induction arbitrary: e n rows rule: feeds.induct)
  case (feeds_end s s')
  let ?e = "e\<lparr>mo_child := s'\<rparr>"
  have "insert_loop env E n e = Some (Inr n, ?e)" using feeds_end by (subst insert_loop.simps) simp
  moreover have "modify_state env items rows ?e" using feeds_end by (simp add: modify_state_def)
  ultimately show ?case using feeds_end.prems by (auto simp: new_rows_def intro!: exI [of _ "[]"])
next
  case (feeds_row s s' t ts)
  let ?e = "e\<lparr>mo_child := s'\<rparr>" and ?th = "me_tableHeap env"
  have ms: "modify_state env items rows ?e" and c: "commits (mo_txn ?e) = []" and t: "tuple_of (heap_types ?th) t"
    using feeds_row.hyps feeds_row.prems by (simp_all add: modify_state_def)
  obtain r e1 where i: "insert_row env t ?e = Some (r, e1)" "\<forall>u. r = Inr u \<longrightarrow> (\<exists>w rid row. mo_child e1 = hl_put (me_lens env) w (mo_child ?e) \<and>
    modify_state env items (rows(rid \<mapsto> row)) e1 \<and> rows rid = None \<and> shows_row ?th t row \<and> commits (mo_txn e1) = [] \<and> (mo_txn e1 = None \<longleftrightarrow> mo_txn ?e = None))"
    using insert_row_spec [OF assms(2-4) ms t c] by blast
  have loop: "insert_loop env E n e = (case r of Inl err \<Rightarrow> Some (Inl err, e1) | Inr _ \<Rightarrow> insert_loop env E (n + 1) e1)"
    using feeds_row.hyps feeds_row.prems(2) i(1) by (subst insert_loop.simps) simp
  show ?case
  proof (cases r)
    case (Inl err)
    then show ?thesis using loop by simp
  next
    case (Inr u)
    then obtain w rid row where w: "mo_child e1 = hl_put (me_lens env) w s'" "modify_state env items (rows(rid \<mapsto> row)) e1" "rows rid = None"
      "shows_row ?th t row" "commits (mo_txn e1) = []" "mo_txn e1 = None \<longleftrightarrow> mo_txn e = None" using i(2) by (auto simp del: split_paired_Ex)
    have ts: "\<forall>t \<in> set ts. tuple_of (heap_types ?th) t" using feeds_row.prems(1) by simp
    obtain r2 e2 where l: "insert_loop env E (n + 1) e1 = Some (r2, e2)" "\<And>m. r2 = Inr m \<Longrightarrow> m = n + 1 + length ts \<and>
      (\<exists>new. new_rows ?th (rows(rid \<mapsto> row)) new ts \<and> modify_state env items (rows(rid \<mapsto> row) ++ map_of new) e2) \<and> commits (mo_txn e2) = [] \<and>
      (mo_txn e2 = None \<longleftrightarrow> mo_txn e1 = None)"
      using feeds_row.IH [OF ts w(1) [symmetric] w(2,5), of "n + 1"] by blast
    have "m = n + length (t # ts) \<and> (\<exists>new. new_rows ?th rows new (t # ts) \<and> modify_state env items (rows ++ map_of new) e2) \<and>
        commits (mo_txn e2) = [] \<and> (mo_txn e2 = None \<longleftrightarrow> mo_txn e = None)" if "r2 = Inr m" for m
    proof -
      obtain new where n: "new_rows ?th (rows(rid \<mapsto> row)) new ts" "modify_state env items (rows(rid \<mapsto> row) ++ map_of new) e2" using l(2) [OF \<open>r2 = Inr m\<close>] by blast
      note nc = new_rows_Cons [OF n(1) w(3,4)]
      have "new_rows ?th rows ((rid, row) # new) (t # ts) \<and> modify_state env items (rows ++ map_of ((rid, row) # new)) e2" using nc n(2) by simp
      then show ?thesis using l(2) [OF \<open>r2 = Inr m\<close>] w(6) by auto
    qed
    then show ?thesis using loop Inr l(1) by simp
  qed
qed


lemma delete_loop_spec:
  assumes "env_ok env items cursor" "me_pages env = X" "me_files env = M" "targets (me_tableHeap env) rows (mo_txn e) ts" "modify_state env items rows e"
  shows "\<exists>r e'. delete_loop env n ts e = Some (r, e') \<and> (\<forall>m. r = Inr m \<longrightarrow> m = n + length ts \<and>
    modify_state env items (rows |` (- t_rid ` set ts)) e' \<and> (mo_txn e' = None \<longleftrightarrow> mo_txn e = None))"
  using assms(4,5)
proof (induction ts arbitrary: n e rows)
  case (Cons t ts)
  let ?th = "me_tableHeap env" and ?L = "me_lens env" and ?rid = "t_rid t"
  obtain k where env: "env_libs env items cursor" "lens_ok ?L" "distinct (me_oids env)" "me_fuel env = Suc k" using assms(1) by (auto simp: env_ok_def)
  obtain bp fs where g: "hl_get ?L (mo_child e) = (bp, fs)" by fastforce
  have st: "heap_state ?th bp fs" "rows_of ?th bp fs = rows" "keyed_env env items rows (mo_txn e) (mo_indexes e)"
    using Cons.prems(2) g by (simp_all add: modify_state_def)
  note tc = targets_Cons [OF Cons.prems(1)]
  have frsh: "?rid \<notin> it_RID ` set (commits (mo_txn e))" using tc(2) [of "mo_txn e" rows] by blast
  obtain row where row: "rows ?rid = Some row" "shows_row ?th t row" using tc(3) [of "mo_txn e" rows] by blast
  have ho: "rid_ok ?rid" "valid_rid ?th ?rid" "length row = d_bytesPerRow (th_desc ?th)" using heap_row_ok [OF st(1), of ?rid row] st(2) row(1) by simp_all
  have sto: "stored ?th t row" using st(1) row(2) ho(3) by (simp add: stored_def heap_state_def)
  have "\<exists>txn' im'. for_indexes (delete_entry env t) (me_oids env) (mo_txn e) (mo_indexes e) = Some (txn', im') \<and>
      keyed_env env items (rows(?rid := None)) txn' im' \<and> (txn' = None \<longleftrightarrow> mo_txn e = None) \<and> it_RID ` set (commits txn') \<subseteq> insert ?rid (it_RID ` set (commits (mo_txn e)))"
    by (rule keyed_step [OF env(3) st(3) frsh]) (rule delete_entry_step [where rows = rows, OF env(1) sto ho(1) row(1)])
  then obtain txn' im' where d: "for_indexes (delete_entry env t) (me_oids env) (mo_txn e) (mo_indexes e) = Some (txn', im')"
    "keyed_env env items (rows(?rid := None)) txn' im'" "txn' = None \<longleftrightarrow> mo_txn e = None" "it_RID ` set (commits txn') \<subseteq> insert ?rid (it_RID ` set (commits (mo_txn e)))"
    by (elim exE conjE)
  obtain r bp' fs' where h: "DeleteTuple (Suc k) X M ?rid bp fs = Some (r, bp', fs')"
    "(\<exists>e. r = Inl (ErrIO e)) \<or> heap_state ?th bp' fs' \<and> r = Inr () \<and> rows_of ?th bp' fs' = rows(?rid := None)"
    using DeleteTuple_spec [OF st(1) ho(2), of k] row(1) st(2) unfolding heap_contract_def by auto
  let ?e = "e\<lparr>mo_txn := txn', mo_indexes := im', mo_child := hl_put ?L (bp', fs') (mo_child e)\<rparr>"
  have loop: "delete_loop env n (t # ts) e = (case r of Inl err \<Rightarrow> Some (Inl (heap_error_text err), ?e) | Inr _ \<Rightarrow> delete_loop env (n + 1) ts ?e)"
    using d(1) g h(1) assms(2,3) env(4) by (simp add: on_heap_def)
  show ?case
  proof (cases r)
    case (Inl err)
    then show ?thesis using loop by simp
  next
    case (Inr u)
    then have hs: "heap_state ?th bp' fs'" "rows_of ?th bp' fs' = rows(?rid := None)" using h(2) by auto
    have ms: "modify_state env items (rows(?rid := None)) ?e" using hs d(2) env(2) by (simp add: modify_state_def lens_ok_def)
    have tg: "targets ?th (rows(?rid := None)) (mo_txn ?e) ts" using tc(1) [OF d(4), of "rows(?rid := None)"] by simp
    have eq: "(rows(?rid := None)) |` (- t_rid ` set ts) = rows |` (- t_rid ` set (t # ts))" by (auto simp: restrict_map_def fun_eq_iff)
    show ?thesis using Cons.IH [OF tg ms, of "n + 1"] loop Inr d(3) unfolding eq by auto
  qed
qed (simp add: restrict_map_def)

lemma update_loop_spec:
  assumes "env_ok env items cursor" "me_pages env = X" "me_files env = M" "targets (me_tableHeap env) rows (mo_txn e) ts" "modify_state env items rows e"
    "\<forall>t \<in> set ts. \<exists>vs. new_values exprs t = Some vs \<and> vals_of (heap_types (me_tableHeap env)) vs"
  shows "\<exists>r e'. update_loop env exprs n ts e = Some (r, e') \<and> (\<forall>m. r = Inr m \<longrightarrow> m = n + length ts \<and> (mo_txn e' = None \<longleftrightarrow> mo_txn e = None) \<and>
    (\<exists>rows'. modify_state env items rows' e' \<and> (\<forall>rid. rid \<notin> t_rid ` set ts \<longrightarrow> rows' rid = rows rid) \<and>
       (\<forall>t \<in> set ts. \<exists>row. rows' (t_rid t) = Some row \<and> shows_row (me_tableHeap env) (FromValues (new_values exprs t)) row)))"
  using assms(4-6)
proof (induction ts arbitrary: n e rows)
  case (Cons t ts)
  let ?th = "me_tableHeap env" and ?L = "me_lens env" and ?rid = "t_rid t"
  obtain k where env: "env_libs env items cursor" "lens_ok ?L" "distinct (me_oids env)" "me_fuel env = Suc k" using assms(1) by (auto simp: env_ok_def)
  obtain bp fs where g: "hl_get ?L (mo_child e) = (bp, fs)" by fastforce
  have st: "heap_state ?th bp fs" "rows_of ?th bp fs = rows" "keyed_env env items rows (mo_txn e) (mo_indexes e)"
    using Cons.prems(2) g by (simp_all add: modify_state_def)
  note tc = targets_Cons [OF Cons.prems(1)]
  have frsh: "?rid \<notin> it_RID ` set (commits (mo_txn e))" using tc(2) [of "mo_txn e" rows] by blast
  obtain row where row: "rows ?rid = Some row" "shows_row ?th t row" using tc(3) [of "mo_txn e" rows] by blast
  have ho: "rid_ok ?rid" "valid_rid ?th ?rid" "length row = d_bytesPerRow (th_desc ?th)" using heap_row_ok [OF st(1), of ?rid row] st(2) row(1) by simp_all
  have sto: "stored ?th t row" using st(1) row(2) ho(3) by (simp add: stored_def heap_state_def)
  obtain vs where vs: "new_values exprs t = Some vs" "vals_of (heap_types ?th) vs" using Cons.prems(3) by auto
  have tv: "tuple_of (heap_types ?th) (FromValues (Some vs))" using FromValues_props [of vs] vs(2) by (simp add: tuple_of_def vals_of_def)
  have wf: "wf_desc (th_desc ?th)" using st(1) by (simp add: heap_state_def)
  obtain raw where raw: "WriteToBuffer (FromValues (Some vs)) (replicate (BytesPerTuple (StorageSchema ?th)) 0) (StorageSchema ?th) = Some raw"
    "length (rawTuple raw) = d_bytesPerRow (th_desc ?th)" "shows_row ?th (FromValues (Some vs)) (rawTuple raw)"
    using stored_row [OF wf tv] by blast
  have sto': "stored ?th (FromValues (Some vs)) (rawTuple raw)" using wf raw(2,3) by (simp add: stored_def)
  let ?rows = "rows(?rid \<mapsto> rawTuple raw)"
  have "\<exists>txn' im'. for_indexes (update_entry env t vs) (me_oids env) (mo_txn e) (mo_indexes e) = Some (txn', im') \<and>
      keyed_env env items (?rows) txn' im' \<and> (txn' = None \<longleftrightarrow> mo_txn e = None) \<and> it_RID ` set (commits txn') \<subseteq> insert ?rid (it_RID ` set (commits (mo_txn e)))"
    by (rule keyed_step [OF env(3) st(3) frsh]) (rule update_entry_step [where rows = rows, OF env(1) sto ho(1) row(1) sto'])
  then obtain txn' im' where d: "for_indexes (update_entry env t vs) (me_oids env) (mo_txn e) (mo_indexes e) = Some (txn', im')"
    "keyed_env env items (?rows) txn' im'" "txn' = None \<longleftrightarrow> mo_txn e = None" "it_RID ` set (commits txn') \<subseteq> insert ?rid (it_RID ` set (commits (mo_txn e)))"
    by (elim exE conjE)
  obtain r bp' fs' where h: "UpdateTuple (Suc k) X M ?rid (rawTuple raw) bp fs = Some (r, bp', fs')"
    "(\<exists>e. r = Inl (ErrIO e)) \<or> heap_state ?th bp' fs' \<and> r = Inr () \<and> rows_of ?th bp' fs' = ?rows"
    using UpdateTuple_spec [OF st(1) ho(2) raw(2), of k] row(1) st(2) unfolding heap_contract_def by auto
  let ?e = "e\<lparr>mo_child := hl_put ?L (bp', fs') (mo_child e), mo_txn := txn', mo_indexes := im'\<rparr>"
  have loop: "update_loop env exprs n (t # ts) e =
      (case r of Inl err \<Rightarrow> Some (Inl (heap_error_text err), e\<lparr>mo_child := hl_put ?L (bp', fs') (mo_child e)\<rparr>) | Inr _ \<Rightarrow> update_loop env exprs (n + 1) ts ?e)"
    using vs(1) raw(1) d(1) g h(1) assms(2,3) env(4) by (simp add: on_heap_def Let_def split: sum.split)
  show ?case
  proof (cases r)
    case (Inl err)
    then show ?thesis using loop by simp
  next
    case (Inr u)
    then have hs: "heap_state ?th bp' fs'" "rows_of ?th bp' fs' = ?rows" using h(2) by auto
    have ms: "modify_state env items ?rows ?e" using hs d(2) env(2) by (simp add: modify_state_def lens_ok_def)
    have tg: "targets ?th ?rows (mo_txn ?e) ts" using tc(1) [OF d(4), of ?rows] by simp
    have nv: "\<forall>t \<in> set ts. \<exists>vs. new_values exprs t = Some vs \<and> vals_of (heap_types ?th) vs" using Cons.prems(3) by simp
    obtain r2 e2 where l: "update_loop env exprs (n + 1) ts ?e = Some (r2, e2)"
      "\<forall>m. r2 = Inr m \<longrightarrow> m = n + 1 + length ts \<and> (mo_txn e2 = None \<longleftrightarrow> mo_txn ?e = None) \<and>
        (\<exists>rows'. modify_state env items rows' e2 \<and> (\<forall>rid. rid \<notin> t_rid ` set ts \<longrightarrow> rows' rid = ?rows rid) \<and>
           (\<forall>t \<in> set ts. \<exists>row. rows' (t_rid t) = Some row \<and> shows_row ?th (FromValues (new_values exprs t)) row))"
      using Cons.IH [OF tg ms nv, of "n + 1"] by blast
    have nt: "?rid \<notin> t_rid ` set ts" using Cons.prems(1) by (auto simp: targets_def)
    have "\<exists>rows'. modify_state env items rows' e2 \<and> (\<forall>rid. rid \<notin> t_rid ` set (t # ts) \<longrightarrow> rows' rid = rows rid) \<and>
           (\<forall>t \<in> set (t # ts). \<exists>row. rows' (t_rid t) = Some row \<and> shows_row ?th (FromValues (new_values exprs t)) row)" if m: "r2 = Inr m" for m
    proof -
      obtain rows' where rows': "modify_state env items rows' e2" "\<forall>rid. rid \<notin> t_rid ` set ts \<longrightarrow> rows' rid = ?rows rid"
        "\<forall>t \<in> set ts. \<exists>row. rows' (t_rid t) = Some row \<and> shows_row ?th (FromValues (new_values exprs t)) row" using l(2) m by blast
      have "rows' ?rid = Some (rawTuple raw)" using rows'(2) nt by simp
      then have "\<exists>row. rows' ?rid = Some row \<and> shows_row ?th (FromValues (new_values exprs t)) row" using raw(3) vs(1) by simp
      moreover have "\<forall>rid. rid \<notin> t_rid ` set (t # ts) \<longrightarrow> rows' rid = rows rid" using rows'(2) by simp
      ultimately show ?thesis using rows'(1,3) by (intro exI [of _ rows']) simp
    qed
    then show ?thesis using loop Inr l d(3) by simp
  qed
qed auto

end

section \<open>Heap files on disk with their indexes\<close>

definition disk_table :: "(PageID, nat, 'm) MapOf \<Rightarrow> (ObjectID, DiskDBFile, 'd) MapOf \<Rightarrow> TableHeap \<Rightarrow> 'm BufferPool \<times> 'd DiskDBFileManager \<Rightarrow> bool" where
  "disk_table X Y th w \<longleftrightarrow> (case w of (bp, fs) \<Rightarrow> disk_ok Y fs \<and> pool_inv X (disk_pages fs) bp \<and> quiescent bp \<and> wf_desc (th_desc th) \<and> th_oid th \<noteq> 0 \<and>
     (\<forall>pid b. Oid pid = th_oid th \<and> view X (disk_pages fs) bp pid = Some b \<longrightarrow> wf_page th b))"

definition table_rows :: "(PageID, nat, 'm) MapOf \<Rightarrow> TableHeap \<Rightarrow> 'm BufferPool \<times> 'd DiskDBFileManager \<Rightarrow> RecordID \<rightharpoonup> bytes" where
  "table_rows X th w = (case w of (bp, fs) \<Rightarrow> heap_rows th (view X (disk_pages fs) bp))"

text \<open>Every index of the table has one entry for each row, under the key of the row, and no others.\<close>

definition indexes_match :: "(bytes, nat, 'h) MapOf \<Rightarrow> ('t \<Rightarrow> btreeItem list) \<Rightarrow> TableHeap \<Rightarrow> ObjectID list \<Rightarrow> (RecordID \<rightharpoonup> bytes) \<Rightarrow> ('h, 't) IndexManager \<Rightarrow> bool" where
  "indexes_match XI items th oids rows im \<longleftrightarrow> (\<forall>oid \<in> set oids. \<exists>ix. im oid = Some ix \<and> idx_ok XI items ix \<and> index_for th (Index_Metadata ix) \<and>
     idx_set XI items ix = row_entries th (Index_Metadata ix) rows)"

text \<open>The indexes after the end of the statement's transaction, if it runs in one.\<close>

definition committed :: "(bytes, nat, 'h) MapOf \<Rightarrow> (btreeItem, 't, 'it) BTreeG \<Rightarrow> ObjectID TransactionContext option \<Rightarrow> ('h, 't) IndexManager \<Rightarrow> ('h, 't) IndexManager option" where
  "committed XI B txn im = (case txn of None \<Rightarrow> Some im | Some t \<Rightarrow> Commit (manager_task XI B) t (Some im))"

lemma disk_table_heap_state:
  assumes "xsync_map X" "xsync_map Y"
  shows "buffer_pool.heap_state disk_pages (disk_ok Y) X th bp fs \<longleftrightarrow> disk_table X Y th (bp, fs)"
proof -
  have "(\<forall>n b. view X (disk_pages fs) bp (pid_of (th_oid th) n) = Some b \<longrightarrow> wf_page th b) \<longleftrightarrow>
      (\<forall>pid b. Oid pid = th_oid th \<and> view X (disk_pages fs) bp pid = Some b \<longrightarrow> wf_page th b)"
    by (metis (full_types) PageID.select_convs(1) PageID.surjective old.unit.exhaust)
  then show ?thesis
    unfolding buffer_pool.heap_state_def [OF buffer_pool_disk [OF assms]] buffer_pool.pool_state_def [OF buffer_pool_disk [OF assms]] disk_table_def by auto
qed

lemma modify_state_disk:
  assumes "xsync_map X" "xsync_map Y"
  shows "buffer_pool.modify_state disk_pages (disk_ok Y) X env items rows e \<longleftrightarrow> disk_table X Y (me_tableHeap env) (hl_get (me_lens env) (mo_child e)) \<and>
    table_rows X (me_tableHeap env) (hl_get (me_lens env) (mo_child e)) = rows \<and> keyed_env env items rows (mo_txn e) (mo_indexes e)"
  unfolding buffer_pool.modify_state_def [OF buffer_pool_disk [OF assms]]
  by (cases "hl_get (me_lens env) (mo_child e)") (simp add: disk_table_heap_state [OF assms] table_rows_def)

lemma keyed_indexes_match:
  assumes "commits txn = []"
  shows "keyed_env env items rows txn im \<longleftrightarrow> indexes_match (me_keys env) items (me_tableHeap env) (me_oids env) rows im"
  using assms by (auto simp: keyed_env_def indexes_match_def synced_def agrees_def pending_def)

lemma keyed_committed:
  assumes "env_libs env items cursor" "keyed_env env items rows txn im"
  shows "\<exists>im'. committed (me_keys env) (me_btree env) txn im = Some im' \<and> indexes_match (me_keys env) items (me_tableHeap env) (me_oids env) rows im'"
proof (cases txn)
  case None
  then show ?thesis using assms(2) keyed_indexes_match [of txn env items rows im] by (simp add: committed_def)
next
  case (Some t)
  have lib: "xsync_map (me_keys env)" "tidwall_btree (me_btree env) item_less items cursor" using assms(1) by (simp_all add: env_libs_def)
  have "\<forall>oid \<in> set (me_oids env). synced (me_keys env) items (me_tableHeap env) rows (Some t) im oid" "\<forall>k \<in> set (commitActions t). it_Target k \<in> set (me_oids env)"
    using assms(2) Some by (auto simp: keyed_env_def commits_def)
  from commit_synced [OF lib this] show ?thesis using Some by (auto simp: committed_def indexes_match_def agrees_def)
qed


lemma collect_copies:
  assumes "drained E s ts s'" "wf_desc (th_desc th)" "\<forall>t \<in> set ts. tuple_of (heap_types th) t"
  shows "\<exists>cs. collect E (StorageSchema th) [] s = Some (cs, s') \<and> length cs = length ts \<and> map t_rid cs = map t_rid ts \<and>
    list_all2 (\<lambda>t c. DeepCopy t (StorageSchema th) = Some c \<and> tuple_of (heap_types th) c \<and> row_of c = row_of t) ts cs"
proof -
  have d: "NewRawTupleDesc (heap_types th) = Some (StorageSchema th)" using assms(2) by (simp add: NewRawTupleDesc_Some StorageSchema_def)
  have copy: "\<exists>c. DeepCopy t (StorageSchema th) = Some c \<and> tuple_of (heap_types th) c \<and> row_of c = row_of t \<and> t_rid c = t_rid t" if "t \<in> set ts" for t
    using DeepCopy_copy [OF _ d, of t] assms(3) that by (auto simp: DeepCopy_def bind_eq_Some_conv FromRawTuple_def)
  let ?c = "\<lambda>t. the (DeepCopy t (StorageSchema th))"
  have "collect E (StorageSchema th) [] s = Some (map ?c ts, s')" using collect_drained [OF assms(1), of "StorageSchema th" "[]"] copy by fastforce
  moreover have "map t_rid (map ?c ts) = map t_rid ts" using copy by fastforce
  moreover have "list_all2 (\<lambda>t c. DeepCopy t (StorageSchema th) = Some c \<and> tuple_of (heap_types th) c \<and> row_of c = row_of t) ts (map ?c ts)"
    unfolding list_all2_map2 list_all2_same using copy by fastforce
  ultimately show ?thesis by (intro exI [of _ "map ?c ts"]) simp
qed

text \<open>The tuples that a delete or an update works on, as rows of the table.\<close>

lemma copies_targets:
  assumes "distinct (map t_rid ts)" "\<forall>t \<in> set ts. \<exists>row. rows (t_rid t) = Some row \<and> shows_row th t row" "commits txn = []"
    "map t_rid cs = map t_rid ts" "list_all2 (\<lambda>t c. DeepCopy t d = Some c \<and> tuple_of (heap_types th) c \<and> row_of c = row_of t) ts cs"
  shows "targets th rows txn cs"
proof -
  have "\<exists>row. rows (t_rid c) = Some row \<and> shows_row th c row" if mem: "c \<in> set cs" for c
  proof -
    obtain i where i: "i < length cs" "c = cs ! i" using mem unfolding in_set_conv_nth by blast
    have len: "length ts = length cs" using assms(5) by (rule list_all2_lengthD)
    have t: "tuple_of (heap_types th) c" "row_of c = row_of (ts ! i)" using list_all2_nthD [OF assms(5), of i] i len by simp_all
    have r: "t_rid c = t_rid (ts ! i)" using arg_cong [OF assms(4), of "\<lambda>xs. xs ! i"] i len by simp
    have "ts ! i \<in> set ts" using i len by simp
    then show ?thesis using assms(2) t r by (auto simp: shows_row_def)
  qed
  then show ?thesis using assms(1,3,4) by (simp add: targets_def)
qed


lemma copies_each:
  assumes "list_all2 (\<lambda>t c. DeepCopy t d = Some c \<and> P t c) ts cs" "map t_rid cs = map t_rid ts"
  shows "t \<in> set ts \<Longrightarrow> \<exists>t'. t' \<in> set cs \<and> DeepCopy t d = Some t' \<and> t_rid t' = t_rid t" "t' \<in> set cs \<Longrightarrow> \<exists>t \<in> set ts. DeepCopy t d = Some t'"
proof -
  have n: "length cs = length ts" using assms(2) by (metis length_map)
  have at: "DeepCopy (ts ! i) d = Some (cs ! i)" "t_rid (cs ! i) = t_rid (ts ! i)" if "i < length ts" for i
    using that n list_all2_nthD [OF assms(1), of i] arg_cong [OF assms(2), of "\<lambda>xs. xs ! i"] by auto
  show "\<exists>t'. t' \<in> set cs \<and> DeepCopy t d = Some t' \<and> t_rid t' = t_rid t" if t: "t \<in> set ts"
  proof -
    obtain i where i: "i < length ts" "t = ts ! i" using t unfolding in_set_conv_nth by blast
    then show ?thesis using at [OF i(1)] n by (intro exI [of _ "cs ! i"]) simp
  qed
  show "\<exists>t \<in> set ts. DeepCopy t d = Some t'" if t: "t' \<in> set cs"
  proof -
    obtain i where i: "i < length ts" "t' = cs ! i" using t n unfolding in_set_conv_nth by auto
    then show ?thesis using at(1) [OF i(1)] nth_mem by blast
  qed
qed


section \<open>A table with one row and an index\<close>

text \<open>A child over a list of tuples, beside the pool and the files.\<close>

definition canned :: "('w \<times> Tuple list \<times> Tuple) Executor" where
  "canned = \<lparr>ex_Init = (\<lambda>s. Some (None, s)), ex_Next = (\<lambda>(w, ts, c). Some (case ts of [] \<Rightarrow> (False, w, [], c) | t # ts \<Rightarrow> (True, w, ts, t))),
     ex_Current = (\<lambda>(w, ts, c). Some c), ex_Error = (\<lambda>s. None), ex_Close = (\<lambda>s. Some (None, s))\<rparr>"

definition canned_lens :: "(('m BufferPool \<times> 'fs) \<times> Tuple list \<times> Tuple, 'm, 'fs) HeapLens" where
  "canned_lens = \<lparr>hl_get = fst, hl_put = (\<lambda>w s. (w, snd s))\<rparr>"

lemma canned_feeds: "feeds canned canned_lens (w, ts, c) ts"
proof (induction ts arbitrary: w c)
  case Nil
  show ?case by (rule feeds_end [where s' = "(w, [], c)"]) (simp_all add: canned_def)
next
  case (Cons t ts)
  show ?case by (rule feeds_row [where s' = "(w, ts, t)"]) (simp_all add: canned_def canned_lens_def Cons.IH [unfolded canned_def canned_lens_def])
qed

lemma canned_drained: "\<exists>c'. drained canned (w, ts, c) ts (w, [], c')"
proof (induction ts arbitrary: c)
  case Nil
  have "drained canned (w, [], c) [] (w, [], c)" by (rule drained_end) (simp add: canned_def)
  then show ?case ..
next
  case (Cons t ts)
  then obtain c' where "drained canned (w, ts, t) ts (w, [], c')" by blast
  then have "drained canned (w, t # ts, c) (t # ts) (w, [], c')" by (intro drained_row [where s' = "(w, ts, t)"]) (simp_all add: canned_def)
  then show ?case ..
qed

definition row_world :: "(PageID \<Rightarrow> nat option) BufferPool \<times> (ObjectID \<Rightarrow> DiskDBFile option) DiskDBFileManager" where
  "row_world = (NewBufferPool fun_map 2, row_disk)"

definition row_rid :: RecordID where
  "row_rid = \<lparr>rid_PageID = pid_of 1 0, Slot = 0\<rparr>"

definition stored_tuple :: Tuple where
  "stored_tuple = seq_tuple sample_heap (row_rid, replicate 8 1)"

definition row_btree :: "btreeItem list MemBTreeIndex" where
  "row_btree = \<lparr>bx_tree = [entry \<lparr>k_RawTuple = replicate 8 1, k_schema = Some int_ref\<rparr> row_rid], bx_metadata = \<lparr>KeySchema = int_ref, ProjectionList = [0]\<rparr>\<rparr>"

definition row_index :: "(bytes \<Rightarrow> nat option, btreeItem list) RuntimeIndex" where
  "row_index = BTreeIndex row_btree"

definition row_env :: "(_, PageID \<Rightarrow> nat option, (ObjectID \<Rightarrow> DiskDBFile option) DiskDBFileManager, bytes \<Rightarrow> nat option, btreeItem list, btreeItem list \<times> nat) ModifyEnv" where
  "row_env = \<lparr>me_fuel = 1, me_pages = fun_map, me_files = disk_ops fun_map, me_keys = fun_map, me_btree = list_btree item_less,
     me_lens = canned_lens, me_tableHeap = sample_heap, me_oids = [7]\<rparr>"

definition row_statement :: "Tuple list \<Rightarrow> _" where
  "row_statement ts = NewModifyExecutor (row_world, ts, EmptyTuple) [7 \<mapsto> row_index] (Some (NewTestTransactionContext 1))"

lemma row_env_ok: "env_ok row_env id id"
  by (simp add: env_ok_def env_libs_def row_env_def xsync_fun_map tidwall_list_btree lens_ok_def canned_lens_def)

lemma row_table: "disk_table fun_map fun_map sample_heap row_world" "table_rows fun_map sample_heap row_world = [row_rid \<mapsto> replicate 8 1]"
  using row_pool row_disk_spec(1) sample_heap_desc by (simp_all add: disk_table_def table_rows_def row_world_def row_rid_def)

lemma stored_tuple_shows: "shows_row sample_heap stored_tuple (replicate 8 1)" "t_rid stored_tuple = row_rid"
  using seq_tuple_wf [OF sample_heap_desc(1), of "replicate 8 1" row_rid] sample_heap_desc(3)
  by (simp_all add: shows_row_def tuple_of_def stored_tuple_def seq_tuple_row)

lemma row_index_match: "indexes_match fun_map id sample_heap [7] [row_rid \<mapsto> replicate 8 1] [7 \<mapsto> row_index]"
proof -
  have i: "btree_ok id row_btree" "index_for sample_heap (bx_metadata row_btree)" "k_RawTuple (row_key sample_heap (bx_metadata row_btree) (replicate 8 1)) = replicate 8 1"
    by code_simp+
  have "idx_set fun_map id row_index = {(replicate 8 1, row_rid)}"
    unfolding row_index_def idx_set_btree by (simp add: row_btree_def entry_def)
  then show ?thesis using i by (auto simp: indexes_match_def row_entries_def row_index_def)
qed

lemmas row_facts = row_env_ok row_table stored_tuple_shows row_index_match xsync_fun_map

lemmas row_defs = row_env_def row_statement_def NewModifyExecutor_def canned_lens_def commits_def NewTestTransactionContext_def


lemma row_statement_facts:
  "me_pages row_env = fun_map" "me_files row_env = disk_ops fun_map" "\<not> mo_done (row_statement ts)" "commits (mo_txn (row_statement ts)) = []"
  "disk_table fun_map fun_map (me_tableHeap row_env) (hl_get (me_lens row_env) (row_world, [], c))"
  "[row_rid \<mapsto> replicate 8 1] = table_rows fun_map (me_tableHeap row_env) (hl_get (me_lens row_env) (row_world, [], c))"
  "indexes_match (me_keys row_env) id (me_tableHeap row_env) (me_oids row_env) [row_rid \<mapsto> replicate 8 1] (mo_indexes (row_statement ts))"
  "distinct (map t_rid [stored_tuple])" "\<forall>t \<in> set [stored_tuple]. \<exists>row. [row_rid \<mapsto> replicate 8 1] (t_rid t) = Some row \<and> shows_row (me_tableHeap row_env) t row"
  using row_facts by (simp_all add: row_defs)


text \<open>An update that adds 1 to the column.\<close>

definition plus_one :: Expr where
  "plus_one = ArithmeticExpression (BoundValueExpr 0 IntType ''a'') (ConstantValueExpr (NewIntValue 1)) Add"

lemma plus_one_row:
  assumes "DeepCopy stored_tuple (StorageSchema sample_heap) = Some t"
  shows "new_values [Some plus_one] t = Some [NewIntValue 0x0101010101010102]"
proof -
  have "new_values [Some plus_one] (the (DeepCopy stored_tuple (StorageSchema sample_heap))) = Some [NewIntValue 0x0101010101010102]" by code_simp
  then show ?thesis using assms by simp
qed


end
