(* ===== verification/Recovery_Rebuild.thy ===== *)
theory Recovery_Rebuild
  imports Execution_Modify
begin

text \<open>
  Recovery without a log (\<open>recovery/no_log_recovery.go\<close>): the in-memory indexes are rebuilt from the heap files when
  the database starts. The buffers for the keys are kept from row to row, beside the object identifier of the index
  they belong to. No implementation of an index returns an error from \<open>InsertEntry\<close>.

  The theorem starts from a consistent catalog, with the table manager and the index manager that the constructors
  make of it: after a recovery without an error every index of every table agrees with the rows of its heap file,
  which is what the statements that change a table start from.
\<close>

section \<open>The rebuild\<close>

text \<open>The key of a row, field by field, written to the buffer of the index.\<close>

definition project_key :: "TableHeap \<Rightarrow> bytes \<Rightarrow> IndexMetadata \<Rightarrow> bytes \<Rightarrow> bytes option" where
  "project_key heap tupleBytes md buf =
     set_loop (snd (KeySchema md)) 0 (\<lambda>k. do { colIdx \<leftarrow> idx (ProjectionList md) k; RawTupleDesc_GetValue (StorageSchema heap) tupleBytes colIdx })
       [0..<length (ProjectionList md)] buf"

fun rebuild_row :: "(bytes, nat, 'h) MapOf \<Rightarrow> (btreeItem, 't, 'it) BTreeG \<Rightarrow> TableHeap \<Rightarrow> bytes \<Rightarrow> RecordID \<Rightarrow> (ObjectID \<times> bytes) list \<Rightarrow>
    ('h, 't) IndexManager \<Rightarrow> ((ObjectID \<times> bytes) list \<times> ('h, 't) IndexManager) option" where
  "rebuild_row XI B heap tupleBytes rid [] im = Some ([], im)"
| "rebuild_row XI B heap tupleBytes rid ((oid, buf) # bufs) im = do {
     index \<leftarrow> im oid;
     buf \<leftarrow> project_key heap tupleBytes (Index_Metadata index) buf;
     key \<leftarrow> AsKey (Index_Metadata index) buf;
     (_, index) \<leftarrow> Index_InsertEntry XI B oid key rid None index;
     (bufs, im) \<leftarrow> rebuild_row XI B heap tupleBytes rid bufs (im(oid \<mapsto> index));
     Some ((oid, buf) # bufs, im)
   }"

partial_function (option) rebuild_rows :: "nat \<Rightarrow> (PageID, nat, 'm) MapOf \<Rightarrow> 'fs DBFileManager \<Rightarrow> (bytes, nat, 'h) MapOf \<Rightarrow> (btreeItem, 't, 'it) BTreeG \<Rightarrow>
    TableHeap \<Rightarrow> TableHeapIterator \<Rightarrow> (ObjectID \<times> bytes) list \<Rightarrow> ('h, 't) IndexManager \<Rightarrow> 'm BufferPool \<Rightarrow> 'fs \<Rightarrow>
    (TableHeapIterator \<times> ('h, 't) IndexManager \<times> 'm BufferPool \<times> 'fs) option" where
  "rebuild_rows fuel X M XI B heap iter bufs im bp fs = do {
     (b, iter, bp, fs) \<leftarrow> Iterator_Next fuel X M iter bp fs;
     (if \<not> b then Some (iter, im, bp, fs)
      else do {
        tupleBytes \<leftarrow> CurrentTuple iter bp;
        rid \<leftarrow> CurrentRID iter;
        (bufs, im) \<leftarrow> rebuild_row XI B heap tupleBytes rid bufs im;
        rebuild_rows fuel X M XI B heap iter bufs im bp fs
      })
   }"

text \<open>The indexes of a table and new buffers for their keys.\<close>

fun active_indexes :: "('h, 't) IndexManager \<Rightarrow> Index list \<Rightarrow> string + (ObjectID \<times> bytes) list" where
  "active_indexes im [] = Inr []"
| "active_indexes im (i # is) = (case GetIndex im (ix_Oid i) of
     Inl err \<Rightarrow> Inl err
   | Inr index \<Rightarrow> (case active_indexes im is of
       Inl err \<Rightarrow> Inl err
     | Inr bufs \<Rightarrow> Inr ((ix_Oid i, replicate (BytesPerTuple (snd (KeySchema (Index_Metadata index)))) 0) # bufs)))"

type_synonym ('m, 'fs, 'h, 't) rebuilt = "string option \<times> ('h, 't) IndexManager \<times> 'm BufferPool \<times> 'fs"

definition rebuild_table :: "nat \<Rightarrow> (PageID, nat, 'm) MapOf \<Rightarrow> 'fs DBFileManager \<Rightarrow> (bytes, nat, 'h) MapOf \<Rightarrow> (btreeItem, 't, 'it) BTreeG \<Rightarrow>
    (ObjectID \<rightharpoonup> TableHeap) \<Rightarrow> Table \<Rightarrow> ('h, 't) IndexManager \<Rightarrow> 'm BufferPool \<Rightarrow> 'fs \<Rightarrow> ('m, 'fs, 'h, 't) rebuilt option" where
  "rebuild_table fuel X M XI B tm tableDef im bp fs =
     (if tb_Indexes tableDef = [] then Some (None, im, bp, fs)
      else case GetTable tm (tb_Oid tableDef) of
        Inl err \<Rightarrow> Some (Some err, im, bp, fs)
      | Inr heap \<Rightarrow> (case active_indexes im (tb_Indexes tableDef) of
          Inl err \<Rightarrow> Some (Some err, im, bp, fs)
        | Inr bufs \<Rightarrow>
            let (iter, err, fs) = Iterator M heap (replicate (BytesPerTuple (StorageSchema heap)) 0) fs in
            case err of
              Some err \<Rightarrow> Some (Some err, im, bp, fs)
            | None \<Rightarrow> do {
                (iter, im, bp, fs) \<leftarrow> rebuild_rows fuel X M XI B heap iter bufs im bp fs;
                (iter, bp) \<leftarrow> Iterator_Close iter bp;
                Some (it_err iter, im, bp, fs)
              }))"

fun rebuildIndexes :: "nat \<Rightarrow> (PageID, nat, 'm) MapOf \<Rightarrow> 'fs DBFileManager \<Rightarrow> (bytes, nat, 'h) MapOf \<Rightarrow> (btreeItem, 't, 'it) BTreeG \<Rightarrow>
    (ObjectID \<rightharpoonup> TableHeap) \<Rightarrow> Table list \<Rightarrow> ('h, 't) IndexManager \<Rightarrow> 'm BufferPool \<Rightarrow> 'fs \<Rightarrow> ('m, 'fs, 'h, 't) rebuilt option" where
  "rebuildIndexes fuel X M XI B tm [] im bp fs = Some (None, im, bp, fs)"
| "rebuildIndexes fuel X M XI B tm (tableDef # tables) im bp fs = do {
     (err, im, bp, fs) \<leftarrow> rebuild_table fuel X M XI B tm tableDef im bp fs;
     (case err of Some err \<Rightarrow> Some (Some err, im, bp, fs) | None \<Rightarrow> rebuildIndexes fuel X M XI B tm tables im bp fs)
   }"

definition Recover :: "nat \<Rightarrow> (PageID, nat, 'm) MapOf \<Rightarrow> 'fs DBFileManager \<Rightarrow> (bytes, nat, 'h) MapOf \<Rightarrow> (btreeItem, 't, 'it) BTreeG \<Rightarrow>
    Catalog \<Rightarrow> (ObjectID \<rightharpoonup> TableHeap) \<Rightarrow> ('h, 't) IndexManager \<Rightarrow> 'm BufferPool \<Rightarrow> 'fs \<Rightarrow> ('m, 'fs, 'h, 't) rebuilt option" where
  "Recover fuel X M XI B c tm im bp fs = rebuildIndexes fuel X M XI B tm (Tables c) im bp fs"

section \<open>One row\<close>

lemma project_key_row:
  assumes "wf_desc (th_desc th)" "length row = d_bytesPerRow (th_desc th)" "index_for th md" "length buf = KeySize md"
  shows "project_key th row md buf = Some (k_RawTuple (row_key th md row))" "length (k_RawTuple (row_key th md row)) = KeySize md"
    "AsKey md (k_RawTuple (row_key th md row)) = Some (row_key th md row)" "key_ok md (row_key th md row)"
proof -
  let ?d = "snd (KeySchema md)" and ?vs = "decode_row (heap_types th) row"
  let ?ks = "map (nth ?vs) (ProjectionList md)"
  have v: "vals_of (heap_types th) ?vs" by (rule decoded_vals [OF assms(1,2)])
  have ks: "map v_t ?ks = d_fields ?d" "\<forall>v \<in> set ?ks. storable v" using vals_of_project [OF assms(3) v] by (simp_all add: vals_of_def)
  have raw: "k_RawTuple (row_key th md row) = encode_row ?ks" by (simp add: row_key_def key_of_values_def)
  show k: "key_ok md (row_key th md row)" unfolding row_key_def by (rule key_of_values_ok [OF assms(3) v])
  then show len: "length (k_RawTuple (row_key th md row)) = KeySize md" unfolding key_ok_def by blast
  show "AsKey md (k_RawTuple (row_key th md row)) = Some (row_key th md row)" by (rule AsKey_key_ok [OF k])
  have wf: "wf_desc ?d" using assms(3) by (simp add: index_for_def schema_ok_def)
  have buf: "d_bytesPerRow ?d \<le> length buf" using assms(4) by (simp add: KeySize_def BytesPerTuple_def)
  have n: "length (ProjectionList md) = length (d_fields ?d)" using arg_cong [OF ks(1), of length] by simp
  have get: "RawTupleDesc_GetValue (StorageSchema th) row c = Some (?vs ! c)" if "c \<in> set (ProjectionList md)" for c
    using GetValue_decode [OF assms(1), of c row] assms(2,3) that by (simp add: StorageSchema_def index_for_def)
  have "project_key th row md buf = Some (blit (row_size (take 0 (d_fields ?d))) (encode_row ?ks) buf)"
    using set_loop_blit [OF wf buf ks(2), of 0 0] ks(1) n get unfolding project_key_def by simp
  also have "\<dots> = Some (encode_row ?ks)" using len assms(4) unfolding raw by (simp add: blit_def)
  finally show "project_key th row md buf = Some (k_RawTuple (row_key th md row))" unfolding raw .
qed

text \<open>An index with its buffer that has the entries of the rows read so far.\<close>

definition ready :: "(bytes, nat, 'h) MapOf \<Rightarrow> ('t \<Rightarrow> btreeItem list) \<Rightarrow> TableHeap \<Rightarrow> (RecordID \<rightharpoonup> bytes) \<Rightarrow> ('h, 't) IndexManager \<Rightarrow> ObjectID \<times> bytes \<Rightarrow> bool" where
  "ready XI items th rows im ob \<longleftrightarrow> (\<exists>ix. im (fst ob) = Some ix \<and> agrees XI items th rows {} ix \<and> length (snd ob) = KeySize (Index_Metadata ix))"

lemma rebuild_row_spec:
  assumes "xsync_map XI" "tidwall_btree B item_less items cursor" "wf_desc (th_desc th)" "length row = d_bytesPerRow (th_desc th)" "rid_ok rid" "rows rid = None"
    "distinct (map fst bufs)" "\<forall>ob \<in> set bufs. ready XI items th rows im ob"
  shows "\<exists>bufs' im'. rebuild_row XI B th row rid bufs im = Some (bufs', im') \<and> map fst bufs' = map fst bufs \<and>
    (\<forall>ob \<in> set bufs'. ready XI items th (rows(rid \<mapsto> row)) im' ob) \<and> (\<forall>oid. oid \<notin> fst ` set bufs \<longrightarrow> im' oid = im oid)"
  using assms(7,8)
proof (induction bufs arbitrary: im)
  case (Cons ob bufs)
  obtain oid buf where ob: "ob = (oid, buf)" by (cases ob)
  obtain ix where ix: "im oid = Some ix" "agrees XI items th rows {} ix" "length buf = KeySize (Index_Metadata ix)"
    using Cons.prems(2) ob by (auto simp: ready_def)
  let ?md = "Index_Metadata ix" and ?key = "row_key th (Index_Metadata ix) row"
  have "index_for th ?md" using ix(2) by (simp add: agrees_def)
  note k = project_key_row [OF assms(3,4) this ix(3)]
  obtain ix' where i: "Index_InsertEntry XI B oid ?key rid None ix = Some (None, ix')" "Index_Metadata ix' = ?md" "agrees XI items th (rows(rid \<mapsto> row)) {} ix'"
    using agrees_insert [OF assms(1,2) ix(2) k(4) assms(5) _ assms(6), of row oid None] by auto
  have rest: "\<forall>ob \<in> set bufs. ready XI items th rows (im(oid \<mapsto> ix')) ob"
  proof
    fix ob' assume b: "ob' \<in> set bufs"
    then have "fst ob' \<noteq> oid" using Cons.prems(1) ob by (auto simp: image_iff)
    then show "ready XI items th rows (im(oid \<mapsto> ix')) ob'" using Cons.prems(2) b by (simp add: ready_def)
  qed
  have d: "distinct (map fst bufs)" "oid \<notin> fst ` set bufs" using Cons.prems(1) ob by simp_all
  from Cons.IH [OF d(1) rest] obtain bufs' im' where r: "rebuild_row XI B th row rid bufs (im(oid \<mapsto> ix')) = Some (bufs', im')" "map fst bufs' = map fst bufs"
    "\<forall>ob \<in> set bufs'. ready XI items th (rows(rid \<mapsto> row)) im' ob" "\<forall>o'. o' \<notin> fst ` set bufs \<longrightarrow> im' o' = (im(oid \<mapsto> ix')) o'"
    by blast
  have "ready XI items th (rows(rid \<mapsto> row)) im' (oid, k_RawTuple ?key)" using r(4) d(2) i(2,3) k(2) by (simp add: ready_def)
  moreover have "rebuild_row XI B th row rid (ob # bufs) im = Some ((oid, k_RawTuple ?key) # bufs', im')" using ob ix(1) k(1,3) i(1) r(1) by simp
  moreover have "\<forall>o'. o' \<notin> fst ` set (ob # bufs) \<longrightarrow> im' o' = im o'" using r(4) ob by simp
  ultimately show ?case using r(2,3) ob by (intro exI [of _ "(oid, k_RawTuple ?key) # bufs'"] exI [of _ im'] conjI) (simp_all del: fun_upd_apply)
qed simp

section \<open>One table\<close>

lemma ready_indexes_match:
  assumes "\<forall>ob \<in> set bufs. ready XI items th rows im ob" "oids = map fst bufs"
  shows "indexes_match XI items th oids rows im"
  using assms by (fastforce simp: indexes_match_def ready_def agrees_def)

lemma active_indexes_ready:
  assumes "\<forall>i \<in> set is. \<exists>ix. im (ix_Oid i) = Some ix \<and> agrees XI items th rows {} ix"
  shows "\<exists>bufs. active_indexes im is = Inr bufs \<and> map fst bufs = map ix_Oid is \<and> (\<forall>ob \<in> set bufs. ready XI items th rows im ob)"
  using assms by (induction "is") (auto simp: GetIndex_def ready_def KeySize_def)

context buffer_pool
begin

lemma entries_ok:
  assumes "scannable th v n" "iter_at th v n q k it bp fs" "(rid, row) \<in> set (entries_from th v n q k)"
  shows "rid_ok rid" "length row = d_bytesPerRow (th_desc th)" "heap_rows th v rid = Some row"
proof -
  obtain q' k' where e: "rid = entry_rid th q' k'" "q' < n" "heap_rows th v rid = Some row"
    using assms(3) by (auto simp: entries_from_def page_entries_def List.map_filter_def slot_entry_def split: if_splits)
  obtain b where b: "v (pid_of (th_oid th) (of_nat q')) = Some b" "wf_page th b" using assms(1) e(2) by (auto simp: scannable_def)
  have pr: "page_row b (Slot rid) = Some row" using e(1,3) b(1) by (auto simp: heap_rows_def entry_rid_def)
  let ?k = "nat (sint (Slot rid))"
  have k: "0 \<le> sint (Slot rid)" "?k < NumSlots (page_of b)" "live (abs_page (page_of b) ! ?k) = Some row"
    using pr by (auto simp: page_row_def Let_def split: if_splits)
  have "n < 2 ^ 31" using assms(1) by (simp add: scannable_def)
  then have "0 \<le> sint (PageNum (rid_PageID rid))" using e(1,2) by (simp add: entry_rid_def signed_of_nat signed_take_bit_int_eq_self)
  then show "rid_ok rid" using k(1) by (simp add: rid_ok_def)
  have lay: "wf_layout (page_of b)" using b(2) by (simp add: wf_page_def wf_heap_page_def)
  have "row = slot_bytes (page_of b) ?k" using k(2,3) by (simp add: live_def split: if_splits)
  moreover have "length (slot_bytes (page_of b) ?k) = RowSize (page_of b)"
    using slot_in_page [OF lay k(2)] lay by (simp add: slot_bytes_def wf_layout_def)
  ultimately show "length row = d_bytesPerRow (th_desc th)" using b(2) by (simp add: wf_page_def)
  show "heap_rows th v rid = Some row" by (rule e(3))
qed

lemma rebuild_rows_spec:
  assumes "xsync_map XI" "tidwall_btree B item_less items cursor" "wf_desc (th_desc th)" "scannable th v n" "iter_at th v n q k it bp fs"
    "distinct (map fst bufs)" "\<forall>ob \<in> set bufs. ready XI items th rows im ob" "distinct (map fst (entries_from th v n q k))"
    "\<forall>x \<in> set (entries_from th v n q k). rows (fst x) = None"
  shows "\<exists>it' im' bp' fs'. rebuild_rows (Suc m) X M XI B th it bufs im bp fs = Some (it', im', bp', fs') \<and> it_currentFrame it' = None \<and> pool_state bp' fs' \<and>
    (\<forall>oid. oid \<notin> fst ` set bufs \<longrightarrow> im' oid = im oid) \<and>
    (it_err it' = None \<longrightarrow> view X (pages fs') bp' = v \<and> indexes_match XI items th (map fst bufs) (rows ++ map_of (entries_from th v n q k)) im')"
  using assms(5-)
proof (induction "length (entries_from th v n q k)" arbitrary: q k it bp fs bufs im rows rule: less_induct)
  case less
  have "iter_at th v n q k (it\<lparr>it_hasLock := False\<rparr>) bp fs" using less.prems(1) by (simp add: iter_at_def)
  from iter_loop_spec [OF assms(4) this, of m] obtain b it1 bp1 fs1 where
    nx: "Iterator_Next (Suc m) X M it bp fs = Some (b, it1, bp1, fs1)"
    "if b then \<exists>q' k' rid row. iter_at th v n q' k' it1 bp1 fs1 \<and> entries_from th v n q k = (rid, row) # entries_from th v n q' k' \<and>
        it_currentFrame it1 \<noteq> None \<and> CurrentTuple it1 bp1 = Some row \<and> CurrentRID it1 = Some rid
      else it_currentFrame it1 = None \<and> pool_state bp1 fs1 \<and> (it_err it1 = None \<longrightarrow> entries_from th v n q k = [] \<and> view X (pages fs1) bp1 = v)"
    unfolding next_result_def Iterator_Next_def by blast
  show ?case
  proof (cases b)
    case False
    then have "rebuild_rows (Suc m) X M XI B th it bufs im bp fs = Some (it1, im, bp1, fs1)"
      using nx(1) by (subst rebuild_rows.simps) simp
    then show ?thesis using nx(2) False ready_indexes_match [OF less.prems(3) refl] by auto
  next
    case True
    then obtain q' k' rid row where y: "iter_at th v n q' k' it1 bp1 fs1" "entries_from th v n q k = (rid, row) # entries_from th v n q' k'"
      "CurrentTuple it1 bp1 = Some row" "CurrentRID it1 = Some rid" using nx(2) by auto
    have "(rid, row) \<in> set (entries_from th v n q k)" using y(2) by simp
    note e = entries_ok [OF assms(4) less.prems(1) this]
    have fr: "rows rid = None" using less.prems(5) y(2) by simp
    obtain bufs' im1 where r: "rebuild_row XI B th row rid bufs im = Some (bufs', im1)" "map fst bufs' = map fst bufs"
      "\<forall>ob \<in> set bufs'. ready XI items th (rows(rid \<mapsto> row)) im1 ob" "\<forall>oid. oid \<notin> fst ` set bufs \<longrightarrow> im1 oid = im oid"
      using rebuild_row_spec [OF assms(1-3) e(2,1) fr less.prems(2,3)] by blast
    have d: "distinct (map fst bufs')" "distinct (map fst (entries_from th v n q' k'))" "\<forall>x \<in> set (entries_from th v n q' k'). (rows(rid \<mapsto> row)) (fst x) = None"
      "length (entries_from th v n q' k') < length (entries_from th v n q k)"
      using r(2) less.prems(2,4,5) y(2) by auto
    obtain it' im' bp' fs' where h: "rebuild_rows (Suc m) X M XI B th it1 bufs' im1 bp1 fs1 = Some (it', im', bp', fs')" "it_currentFrame it' = None" "pool_state bp' fs'"
      "\<forall>oid. oid \<notin> fst ` set bufs' \<longrightarrow> im' oid = im1 oid"
      "it_err it' = None \<longrightarrow> view X (pages fs') bp' = v \<and> indexes_match XI items th (map fst bufs') (rows(rid \<mapsto> row) ++ map_of (entries_from th v n q' k')) im'"
      using less.hyps [OF d(4) y(1) d(1) r(3) d(2,3)] by (elim exE conjE)
    have "rebuild_rows (Suc m) X M XI B th it bufs im bp fs = Some (it', im', bp', fs')"
      using nx(1) True y(3,4) r(1) h(1) by (subst rebuild_rows.simps) simp
    moreover have "rows(rid \<mapsto> row) ++ map_of (entries_from th v n q' k') = rows ++ map_of (entries_from th v n q k)"
    proof -
      have "map_of (entries_from th v n q' k') rid = None" using less.prems(4) y(2) by (simp add: map_of_eq_None_iff)
      then show ?thesis unfolding y(2) by (auto simp: map_add_def fun_eq_iff split: option.split)
    qed
    moreover have "fst ` set bufs' = fst ` set bufs" using r(2) by (metis image_set)
    ultimately show ?thesis using h(2-5) r(2,4) by auto
  qed
qed

lemma Iterator_start:
  assumes "heap_state th bp fs" "Iterator M th (replicate (BytesPerTuple (StorageSchema th)) 0) fs = (iter, None, fs1)"
  shows "\<exists>n. scannable th (view X (pages fs) bp) n \<and> iter_at th (view X (pages fs) bp) n 0 0 iter bp fs1 \<and>
    distinct (map fst (heap_entries th (view X (pages fs) bp) n)) \<and> map_of (heap_entries th (view X (pages fs) bp) n) = rows_of th bp fs"
proof -
  let ?e = "NewSeqScanExecutor th bp fs" and ?v = "view X (pages fs) bp"
  have e: "ss_pool ?e = bp" "ss_files ?e = fs" "ss_buffer ?e = replicate (BytesPerTuple (StorageSchema th)) 0" by (simp_all add: NewSeqScanExecutor_def)
  have "SeqScan_Init M th ?e = Some (None, ?e\<lparr>ss_iterator := iter, ss_files := fs1\<rparr>)" using assms(2) e by (simp add: SeqScan_Init_def)
  with SeqScan_Init_spec [of th ?e] assms(1) e obtain n where n: "scannable th ?v n" "iter_at th ?v n 0 0 iter bp fs1"
    "\<forall>pid. Oid pid = th_oid th \<longrightarrow> ?v pid \<noteq> None \<longleftrightarrow> (\<exists>q < n. PageNum pid = of_nat q)" by auto
  have small: "n < 2 ^ 31" using n(1) by (simp add: scannable_def)
  have "map_of (heap_entries th ?v n) = rows_of th bp fs"
    using n(3) small heap_page_wf [OF assms(1)] by (intro map_of_heap_entries) blast+
  then show ?thesis using n(1,2) heap_entries_distinct [OF small] by blast
qed

lemma rebuild_table_spec:
  assumes "xsync_map XI" "tidwall_btree B item_less items cursor" "tm (tb_Oid t) = Some th" "heap_state th bp fs" "distinct (map ix_Oid (tb_Indexes t))"
    "\<forall>i \<in> set (tb_Indexes t). \<exists>ix. im (ix_Oid i) = Some ix \<and> agrees XI items th Map.empty {} ix"
  shows "\<exists>err im' bp' fs'. rebuild_table (Suc m) X M XI B tm t im bp fs = Some (err, im', bp', fs') \<and>
    (\<forall>oid. oid \<notin> ix_Oid ` set (tb_Indexes t) \<longrightarrow> im' oid = im oid) \<and>
    (err = None \<longrightarrow> pool_state bp' fs' \<and> view X (pages fs') bp' = view X (pages fs) bp \<and>
       indexes_match XI items th (map ix_Oid (tb_Indexes t)) (rows_of th bp fs) im')"
proof (cases "tb_Indexes t = []")
  case True
  then show ?thesis using assms(4) by (simp add: rebuild_table_def indexes_match_def heap_state_def)
next
  case False
  let ?v = "view X (pages fs) bp"
  have wf: "wf_desc (th_desc th)" using assms(4) by (simp add: heap_state_def)
  obtain bufs where b: "active_indexes im (tb_Indexes t) = Inr bufs" "map fst bufs = map ix_Oid (tb_Indexes t)" "\<forall>ob \<in> set bufs. ready XI items th Map.empty im ob"
    using active_indexes_ready [OF assms(6)] by blast
  have fb: "fst ` set bufs = ix_Oid ` set (tb_Indexes t)" using b(2) by (metis image_set)
  obtain iter err fs1 where it: "Iterator M th (replicate (BytesPerTuple (StorageSchema th)) 0) fs = (iter, err, fs1)" by (metis prod_cases3)
  show ?thesis
  proof (cases err)
    case (Some e)
    then show ?thesis using False assms(3) b(1) it by (simp add: rebuild_table_def GetTable_def)
  next
    case None
    then obtain n where n: "scannable th ?v n" "iter_at th ?v n 0 0 iter bp fs1" "distinct (map fst (heap_entries th ?v n))" "map_of (heap_entries th ?v n) = rows_of th bp fs"
      using Iterator_start [OF assms(4)] it by blast
    have d: "distinct (map fst bufs)" using b(2) assms(5) by simp
    obtain it' im' bp' fs' where r: "rebuild_rows (Suc m) X M XI B th iter bufs im bp fs1 = Some (it', im', bp', fs')" "it_currentFrame it' = None" "pool_state bp' fs'"
      "\<forall>oid. oid \<notin> fst ` set bufs \<longrightarrow> im' oid = im oid"
      "it_err it' = None \<longrightarrow> view X (pages fs') bp' = ?v \<and> indexes_match XI items th (map fst bufs) (Map.empty ++ map_of (entries_from th ?v n 0 0)) im'"
      using rebuild_rows_spec [OF assms(1,2) wf n(1,2) d b(3), of m] n(3) unfolding entries_from_start by auto
    have "rebuild_table (Suc m) X M XI B tm t im bp fs = Some (it_err it', im', bp', fs')"
      using False assms(3) b(1) it None r(1,2) by (simp add: rebuild_table_def GetTable_def Iterator_Close_def Let_def)
    then show ?thesis using r(3-5) n(4) b(2) fb unfolding entries_from_start by simp
  qed
qed

text \<open>The tables that are still to be rebuilt have empty indexes.\<close>

lemma rebuildIndexes_spec:
  assumes "xsync_map XI" "tidwall_btree B item_less items cursor" "pool_state bp fs"
    "\<forall>t \<in> set ts. \<exists>th. tm (tb_Oid t) = Some th \<and> heap_state th bp fs \<and> (\<forall>i \<in> set (tb_Indexes t). \<exists>ix. im (ix_Oid i) = Some ix \<and> agrees XI items th Map.empty {} ix)"
    "distinct (concat (map (\<lambda>t. map ix_Oid (tb_Indexes t)) ts))"
  shows "\<exists>err im' bp' fs'. rebuildIndexes (Suc m) X M XI B tm ts im bp fs = Some (err, im', bp', fs') \<and>
    (\<forall>oid. oid \<notin> (\<Union>t \<in> set ts. ix_Oid ` set (tb_Indexes t)) \<longrightarrow> im' oid = im oid) \<and>
    (err = None \<longrightarrow> pool_state bp' fs' \<and> view X (pages fs') bp' = view X (pages fs) bp \<and>
       (\<forall>t \<in> set ts. \<exists>th. tm (tb_Oid t) = Some th \<and> indexes_match XI items th (map ix_Oid (tb_Indexes t)) (rows_of th bp fs) im'))"
  using assms(3-)
proof (induction ts arbitrary: im bp fs)
  case (Cons t ts)
  let ?I = "\<lambda>t. ix_Oid ` set (tb_Indexes t)"
  obtain th where th: "tm (tb_Oid t) = Some th" "heap_state th bp fs" "\<forall>i \<in> set (tb_Indexes t). \<exists>ix. im (ix_Oid i) = Some ix \<and> agrees XI items th Map.empty {} ix"
    using Cons.prems(2) by (meson list.set_intros(1))
  have d: "distinct (map ix_Oid (tb_Indexes t))" "distinct (concat (map (\<lambda>t. map ix_Oid (tb_Indexes t)) ts))" "\<forall>u \<in> set ts. ?I t \<inter> ?I u = {}"
    using Cons.prems(3) by auto
  obtain err im1 bp1 fs1 where r: "rebuild_table (Suc m) X M XI B tm t im bp fs = Some (err, im1, bp1, fs1)" "\<forall>oid. oid \<notin> ?I t \<longrightarrow> im1 oid = im oid"
    "err = None \<longrightarrow> pool_state bp1 fs1 \<and> view X (pages fs1) bp1 = view X (pages fs) bp \<and> indexes_match XI items th (map ix_Oid (tb_Indexes t)) (rows_of th bp fs) im1"
    using rebuild_table_spec [where tm = tm and im = im, OF assms(1,2) th(1,2) d(1) th(3), of m] by (elim exE conjE)
  show ?case
  proof (cases err)
    case (Some e)
    then show ?thesis using r(1,2) by simp
  next
    case None
    then have s: "pool_state bp1 fs1" "view X (pages fs1) bp1 = view X (pages fs) bp" "indexes_match XI items th (map ix_Oid (tb_Indexes t)) (rows_of th bp fs) im1"
      using r(3) by simp_all
    have hs: "heap_state th' bp1 fs1 \<longleftrightarrow> heap_state th' bp fs" for th' using s(1,2) Cons.prems(1) by (simp add: heap_state_def)
    have later: "\<forall>u \<in> set ts. \<exists>th. tm (tb_Oid u) = Some th \<and> heap_state th bp1 fs1 \<and> (\<forall>i \<in> set (tb_Indexes u). \<exists>ix. im1 (ix_Oid i) = Some ix \<and> agrees XI items th Map.empty {} ix)"
    proof
      fix u assume u: "u \<in> set ts"
      then obtain th' where th': "tm (tb_Oid u) = Some th'" "heap_state th' bp fs" "\<forall>i \<in> set (tb_Indexes u). \<exists>ix. im (ix_Oid i) = Some ix \<and> agrees XI items th' Map.empty {} ix"
        using Cons.prems(2) by (meson list.set_intros(2))
      moreover have "im1 (ix_Oid i) = im (ix_Oid i)" if "i \<in> set (tb_Indexes u)" for i using r(2) d(3) u that by blast
      ultimately show "\<exists>th. tm (tb_Oid u) = Some th \<and> heap_state th bp1 fs1 \<and> (\<forall>i \<in> set (tb_Indexes u). \<exists>ix. im1 (ix_Oid i) = Some ix \<and> agrees XI items th Map.empty {} ix)"
        using hs by auto
    qed
    obtain err' im' bp' fs' where l: "rebuildIndexes (Suc m) X M XI B tm ts im1 bp1 fs1 = Some (err', im', bp', fs')"
      "\<forall>oid. oid \<notin> (\<Union>t \<in> set ts. ?I t) \<longrightarrow> im' oid = im1 oid"
      "err' = None \<longrightarrow> pool_state bp' fs' \<and> view X (pages fs') bp' = view X (pages fs1) bp1 \<and>
        (\<forall>t \<in> set ts. \<exists>th. tm (tb_Oid t) = Some th \<and> indexes_match XI items th (map ix_Oid (tb_Indexes t)) (rows_of th bp1 fs1) im')"
      using Cons.IH [OF s(1) later d(2)] by (elim exE conjE)
    have "indexes_match XI items th (map ix_Oid (tb_Indexes t)) (rows_of th bp fs) im'"
    proof -
      have "im' oid = im1 oid" if "oid \<in> ?I t" for oid using l(2) d(3) that by blast
      then show ?thesis using s(3) by (auto simp: indexes_match_def)
    qed
    then show ?thesis using r(1,2) None l s(2) th(1) by auto
  qed
qed simp

end

section \<open>The managers at the start\<close>

lemma load_tables_get:
  assumes "load_tables ts tables = Some tm" "distinct (map tb_Oid ts)"
  shows "oid \<notin> tb_Oid ` set ts \<Longrightarrow> tm oid = tables oid" "t \<in> set ts \<Longrightarrow> \<exists>th. NewTableHeap t = Some th \<and> tm (tb_Oid t) = Some th"
proof -
  have "(\<forall>oid. oid \<notin> tb_Oid ` set ts \<longrightarrow> tm oid = tables oid) \<and> (\<forall>t \<in> set ts. \<exists>th. NewTableHeap t = Some th \<and> tm (tb_Oid t) = Some th)"
    using assms
  proof (induction ts arbitrary: tables)
    case (Cons u ts)
    obtain th where th: "NewTableHeap u = Some th" "load_tables ts (tables(tb_Oid u \<mapsto> th)) = Some tm" using Cons.prems(1) by (auto simp: bind_eq_Some_conv)
    have "distinct (map tb_Oid ts)" "tb_Oid u \<notin> tb_Oid ` set ts" using Cons.prems(2) by simp_all
    with Cons.IH [OF th(2)] th(1) show ?case by simp
  qed simp
  then show "oid \<notin> tb_Oid ` set ts \<Longrightarrow> tm oid = tables oid" "t \<in> set ts \<Longrightarrow> \<exists>th. NewTableHeap t = Some th \<and> tm (tb_Oid t) = Some th" by blast+
qed

lemma name_map_bound: "name_map cols name = Some i \<Longrightarrow> i < length cols"
proof -
  have "ran (fold (\<lambda>(i, col) m. m(col_Name col \<mapsto> i)) xs m) \<subseteq> ran m \<union> fst ` set xs" for xs :: "(nat \<times> Column) list" and m
  proof (induction xs arbitrary: m)
    case (Cons x xs)
    obtain j col where x: "x = (j, col)" by (cases x)
    have "ran (m(col_Name col \<mapsto> j)) \<subseteq> insert j (ran m)" by (auto simp: ran_def split: if_splits)
    then show ?case using Cons.IH [of "m(col_Name col \<mapsto> j)"] unfolding x by (simp del: fun_upd_apply) blast
  qed simp
  from this [of "enumerate 0 cols" Map.empty] show "name_map cols name = Some i \<Longrightarrow> i < length cols"
    unfolding name_map_def using ranI by (fastforce simp: set_zip enumerate_eq_zip)
qed

lemma key_columns_bound: "key_columns n (name_map cols) ns = Inr is \<Longrightarrow> \<forall>i \<in> set is. i < length cols"
proof (induction ns arbitrary: "is")
  case (Cons a ns)
  then show ?case using name_map_bound by (fastforce split: option.splits sum.splits)
qed simp

lemma new_index_empty:
  assumes "xsync_map XI" "tidwall_btree B item_less items cursor" "NewTableHeap t = Some th" "new_index XI B addr t i = Some (Inr ix)"
  shows "agrees XI items th Map.empty {} ix"
proof -
  obtain cols fields desc where c: "key_columns (tb_Name t) (name_map (tb_Columns t)) (ix_KeySchema i) = Inr cols"
    "option_list (map (\<lambda>c. map_option col_Type (idx (tb_Columns t) c)) cols) = Some fields" "NewRawTupleDesc fields = Some desc"
    "ix = HashIndex (NewMemHashIndex XI (addr, desc) cols) \<or> ix = BTreeIndex (NewMemBTreeIndex B (addr, desc) cols)"
    using assms(4) by (auto simp: new_index_def bind_eq_Some_conv Let_def split: sum.splits if_splits)
  note b = key_columns_bound [OF c(1)]
  have ty: "heap_types th = map col_Type (tb_Columns t)" using assms(3) by (auto simp: NewTableHeap_def bind_eq_Some_conv NewRawTupleDesc_Some)
  have "option_list (map (\<lambda>c. map_option col_Type (idx (tb_Columns t) c)) cols) = Some (map (nth (heap_types th)) cols)"
    using b unfolding ty by (induction cols) auto
  then have f: "fields = map (nth (heap_types th)) cols" using c(2) by simp
  have d: "wf_desc desc" "d_fields desc = fields" using c(3) by (simp_all add: NewRawTupleDesc_Some)
  have "Index_Metadata ix = \<lparr>KeySchema = (addr, desc), ProjectionList = cols\<rparr>" using c(4) by (auto simp: NewMemHashIndex_def NewMemBTreeIndex_def)
  then have fo: "index_for th (Index_Metadata ix)" using b f d by (simp add: index_for_def schema_ok_def ty)
  have ok: "idx_ok XI items ix \<and> idx_set XI items ix = {}"
  proof (cases ix)
    case (HashIndex h)
    then have h: "h = NewMemHashIndex XI (addr, desc) cols" using c(4) by simp
    have "load_bucket XI k h = None" for k using xsync_mapD(1) [OF assms(1)] unfolding h by (simp add: load_bucket_def NewMemHashIndex_def)
    then show ?thesis using HashIndex fo by (simp add: hash_ok_def entries_def idx_set_def index_for_def)
  next
    case (BTreeIndex x)
    then have x: "x = NewMemBTreeIndex B (addr, desc) cols" using c(4) by simp
    have "items (bx_tree x) = []" using assms(2) unfolding x by (simp add: tidwall_btree_def NewMemBTreeIndex_def)
    then show ?thesis using BTreeIndex fo by (simp add: btree_ok_def idx_set_btree index_for_def)
  qed
  then show ?thesis using fo by (simp add: agrees_def row_entries_def)
qed

lemma load_indexes_get:
  assumes "load_indexes XI B addr defs im0 = Some (Inr im)" "distinct (map (ix_Oid \<circ> snd) defs)"
  shows "(\<forall>oid. oid \<notin> (ix_Oid \<circ> snd) ` set defs \<longrightarrow> im oid = im0 oid) \<and> (\<forall>(t, i) \<in> set defs. \<exists>a ix. new_index XI B a t i = Some (Inr ix) \<and> im (ix_Oid i) = Some ix)"
  using assms
proof (induction defs arbitrary: addr im0)
  case (Cons d defs)
  obtain t i where d: "d = (t, i)" by (cases d)
  obtain r where r: "new_index XI B addr t i = Some r" "(case r of Inl err \<Rightarrow> Some (Inl err) | Inr index \<Rightarrow> load_indexes XI B (Suc addr) defs (im0(ix_Oid i \<mapsto> index))) = Some (Inr im)"
    using Cons.prems(1) unfolding d by (auto simp: bind_eq_Some_conv)
  then obtain ix where ix: "new_index XI B addr t i = Some (Inr ix)" "load_indexes XI B (Suc addr) defs (im0(ix_Oid i \<mapsto> ix)) = Some (Inr im)"
    by (cases r) simp_all
  have ds: "distinct (map (ix_Oid \<circ> snd) defs)" "ix_Oid i \<notin> (ix_Oid \<circ> snd) ` set defs" using Cons.prems(2) d by (simp_all add: comp_def)
  have "im (ix_Oid i) = Some ix" using Cons.IH [OF ix(2) ds(1)] ds(2) by simp
  then show ?case using Cons.IH [OF ix(2) ds(1)] ix(1) d by auto
qed simp

lemma catalog_oids_distinct:
  assumes "distinct (catalog_oids ts)"
  shows "distinct (map tb_Oid ts)" "distinct (concat (map (\<lambda>t. map ix_Oid (tb_Indexes t)) ts))"
proof -
  have step: "catalog_oids (t # ts) = tb_Oid t # map ix_Oid (tb_Indexes t) @ catalog_oids ts" for t ts by (simp add: catalog_oids_def)
  have sub: "tb_Oid ` set ts \<subseteq> set (catalog_oids ts) \<and> set (concat (map (\<lambda>t. map ix_Oid (tb_Indexes t)) ts)) \<subseteq> set (catalog_oids ts)" for ts
    by (induction ts) (auto simp: catalog_oids_def)
  have "distinct (map tb_Oid ts) \<and> distinct (concat (map (\<lambda>t. map ix_Oid (tb_Indexes t)) ts))" using assms
  proof (induction ts)
    case (Cons t ts)
    have d: "distinct (map ix_Oid (tb_Indexes t))" "tb_Oid t \<notin> set (catalog_oids ts)" "ix_Oid ` set (tb_Indexes t) \<inter> set (catalog_oids ts) = {}" "distinct (catalog_oids ts)"
      using Cons.prems unfolding step by auto
    have "tb_Oid t \<notin> tb_Oid ` set ts" "ix_Oid ` set (tb_Indexes t) \<inter> set (concat (map (\<lambda>t. map ix_Oid (tb_Indexes t)) ts)) = {}"
      using d(2,3) sub [of ts] by blast+
    then show ?case using Cons.IH [OF d(4)] d(1) unfolding list.map concat.simps distinct_append by simp
  qed simp
  then show "distinct (map tb_Oid ts)" "distinct (concat (map (\<lambda>t. map ix_Oid (tb_Indexes t)) ts))" by simp_all
qed

lemma managers_start:
  assumes "xsync_map XI" "tidwall_btree B item_less items cursor" "catalog_ok c" "NewTableManager c = Some tm" "NewIndexManager XI B c = Some (Inr im)"
    "t \<in> set (Tables c)"
  shows "\<exists>th. tm (tb_Oid t) = Some th \<and> NewTableHeap t = Some th \<and> (\<forall>i \<in> set (tb_Indexes t). \<exists>ix. im (ix_Oid i) = Some ix \<and> agrees XI items th Map.empty {} ix)"
proof -
  have "distinct (catalog_oids (Tables c))" using assms(3) by (simp add: catalog_ok_def)
  note d = catalog_oids_distinct [OF this]
  let ?defs = "concat (map (\<lambda>t. map (Pair t) (tb_Indexes t)) (Tables c))"
  obtain th where th: "NewTableHeap t = Some th" "tm (tb_Oid t) = Some th"
    using load_tables_get(2) [OF assms(4) [unfolded NewTableManager_def] d(1) assms(6)] by blast
  have "distinct (map (ix_Oid \<circ> snd) ?defs)" using d(2) by (simp add: map_concat comp_def)
  then have g: "\<forall>(t, i) \<in> set ?defs. \<exists>a ix. new_index XI B a t i = Some (Inr ix) \<and> im (ix_Oid i) = Some ix"
    by (rule conjunct2 [OF load_indexes_get [OF assms(5) [unfolded NewIndexManager_def]]])
  have "\<exists>ix. im (ix_Oid i) = Some ix \<and> agrees XI items th Map.empty {} ix" if i: "i \<in> set (tb_Indexes t)" for i
  proof -
    have "(t, i) \<in> set ?defs" using assms(6) i by auto
    then obtain a ix where "new_index XI B a t i = Some (Inr ix)" "im (ix_Oid i) = Some ix" using g by blast
    then show ?thesis using new_index_empty [OF assms(1,2) th(1)] by blast
  qed
  then show ?thesis using th by blast
qed

text \<open>
  C11: recovery makes every index agree with its table. From a consistent catalog and the managers that the
  constructors make of it, over heap files on disk, recovery ends; unless it reports an error no page has changed and
  every index of every table has exactly one entry for each row of the heap file, under the key of the row.
\<close>

theorem Recover_indexes:
  assumes "xsync_map X" "xsync_map Y" "xsync_map XI" "tidwall_btree B item_less items cursor" "catalog_ok c" "NewTableManager c = Some tm"
    "NewIndexManager XI B c = Some (Inr im)" "disk_ok Y fs" "pool_inv X (disk_pages fs) bp" "quiescent bp" "\<forall>th \<in> ran tm. disk_table X Y th (bp, fs)"
  shows "\<exists>err im' bp' fs'. Recover (Suc m) X (disk_ops Y) XI B c tm im bp fs = Some (err, im', bp', fs') \<and>
    (err = None \<longrightarrow> disk_ok Y fs' \<and> pool_inv X (disk_pages fs') bp' \<and> quiescent bp' \<and> view X (disk_pages fs') bp' = view X (disk_pages fs) bp \<and>
       (\<forall>t \<in> set (Tables c). \<exists>th. tm (tb_Oid t) = Some th \<and> indexes_match XI items th (map ix_Oid (tb_Indexes t)) (table_rows X th (bp', fs')) im'))"
proof -
  note bp = buffer_pool_disk [OF assms(1,2)]
  have "distinct (catalog_oids (Tables c))" using assms(5) by (simp add: catalog_ok_def)
  note d = catalog_oids_distinct(2) [OF this]
  have st: "buffer_pool.pool_state disk_pages (disk_ok Y) X bp fs" using assms(8-10) by (simp add: buffer_pool.pool_state_def [OF bp])
  have ts: "\<forall>t \<in> set (Tables c). \<exists>th. tm (tb_Oid t) = Some th \<and> buffer_pool.heap_state disk_pages (disk_ok Y) X th bp fs \<and>
      (\<forall>i \<in> set (tb_Indexes t). \<exists>ix. im (ix_Oid i) = Some ix \<and> agrees XI items th Map.empty {} ix)"
    using managers_start [OF assms(3-7)] assms(11) ranI unfolding disk_table_heap_state [OF assms(1,2)] by meson
  obtain err im' bp' fs' where r: "Recover (Suc m) X (disk_ops Y) XI B c tm im bp fs = Some (err, im', bp', fs')"
    "err = None \<longrightarrow> buffer_pool.pool_state disk_pages (disk_ok Y) X bp' fs' \<and> view X (disk_pages fs') bp' = view X (disk_pages fs) bp \<and>
       (\<forall>t \<in> set (Tables c). \<exists>th. tm (tb_Oid t) = Some th \<and> indexes_match XI items th (map ix_Oid (tb_Indexes t)) (heap_rows th (view X (disk_pages fs) bp)) im')"
    using buffer_pool.rebuildIndexes_spec [where tm = tm and im = im, OF bp assms(3,4) st ts d, of m] unfolding Recover_def by (elim exE conjE)
  then show ?thesis unfolding buffer_pool.pool_state_def [OF bp] table_rows_def by (intro exI [of _ err] exI [of _ im'] exI [of _ bp'] exI [of _ fs']) simp
qed

text \<open>A table with one row and an index.\<close>

definition sample_catalog :: Catalog where
  "sample_catalog = fst (the (run_catalog NullPersistenceProvider sample_cat_ops empty_catalog ()))"

lemma sample_catalog_ok: "catalog_ok sample_catalog"
  using run_catalog_ok [OF catalog_ok_empty, of sample_cat_ops NullPersistenceProvider "()"]
  by (auto simp: sample_catalog_def sample_cat_ops_def empty_catalog_def)

lemma sample_tables:
  "Tables sample_catalog = [\<lparr>tb_Oid = 1, tb_Name = ''users'', tb_Columns = [\<lparr>col_Name = ''id'', col_Type = IntType\<rparr>],
     tb_Indexes = [\<lparr>ix_Oid = 2, ix_TableOid = 1, ix_Name = ''pk'', ix_Type = ''btree'', ix_KeySchema = [''id'']\<rparr>]\<rparr>]"
  by (simp add: sample_catalog_def sample_cat_ops_def AddTable_def AddIndex_def GetTableMetadata_def register_table_def empty_catalog_def save_def
      NullPersistenceProvider_def idx_def Let_def)

lemma sample_managers:
  "NewTableManager sample_catalog = Some [1 \<mapsto> sample_heap]"
  "NewIndexManager fun_map (list_btree item_less) sample_catalog =
     Some (Inr [2 \<mapsto> BTreeIndex \<lparr>bx_tree = [], bx_metadata = \<lparr>KeySchema = (0, sample_desc), ProjectionList = [0]\<rparr>\<rparr>])"
proof -
  have d: "NewRawTupleDesc [IntType] = Some sample_desc" by (simp add: NewRawTupleDesc_Some sample_desc_def wf_desc_def)
  show "NewTableManager sample_catalog = Some [1 \<mapsto> sample_heap]"
    by (simp add: NewTableManager_def sample_tables NewTableHeap_def d sample_heap_def)
  show "NewIndexManager fun_map (list_btree item_less) sample_catalog =
      Some (Inr [2 \<mapsto> BTreeIndex \<lparr>bx_tree = [], bx_metadata = \<lparr>KeySchema = (0, sample_desc), ProjectionList = [0]\<rparr>\<rparr>])"
    by (simp add: NewIndexManager_def sample_tables new_index_def name_map_def enumerate_eq_zip idx_def d NewMemBTreeIndex_def list_btree_def Let_def)
qed

theorem Recover_indexes_witness:
  "\<exists>tm im err im' w. NewTableManager sample_catalog = Some tm \<and> NewIndexManager fun_map (list_btree item_less) sample_catalog = Some (Inr im) \<and>
     Recover 1 fun_map (disk_ops fun_map) fun_map (list_btree item_less) sample_catalog tm im (NewBufferPool fun_map 2) row_disk = Some (err, im', w) \<and>
     (err = None \<longrightarrow> indexes_match fun_map id sample_heap [2] [row_rid \<mapsto> replicate 8 1] im')"
proof -
  let ?B = "list_btree item_less :: (btreeItem, btreeItem list, btreeItem list \<times> nat) BTreeG"
  obtain im :: "(bytes \<Rightarrow> nat option, btreeItem list) IndexManager" where im: "NewIndexManager fun_map ?B sample_catalog = Some (Inr im)" using sample_managers(2) by blast
  have dt: "\<forall>th \<in> ran [1 \<mapsto> sample_heap]. disk_table fun_map fun_map th (NewBufferPool fun_map 2, row_disk)" using row_table(1) by (simp add: row_world_def)
  obtain err im' bp' fs' where r: "Recover (Suc 0) fun_map (disk_ops fun_map) fun_map ?B sample_catalog [1 \<mapsto> sample_heap] im (NewBufferPool fun_map 2) row_disk = Some (err, im', bp', fs')"
    "err = None \<longrightarrow> view fun_map (disk_pages fs') bp' = view fun_map (disk_pages row_disk) (NewBufferPool fun_map 2) \<and>
       (\<forall>t \<in> set (Tables sample_catalog). \<exists>th. [1 \<mapsto> sample_heap] (tb_Oid t) = Some th \<and> indexes_match fun_map id th (map ix_Oid (tb_Indexes t)) (table_rows fun_map th (bp', fs')) im')"
    using Recover_indexes [OF xsync_fun_map xsync_fun_map xsync_fun_map tidwall_list_btree sample_catalog_ok sample_managers(1) im row_disk_spec(1) row_pool(1,2) dt, of 0]
    by (elim exE conjE) blast
  have "table_rows fun_map sample_heap (bp', fs') = [row_rid \<mapsto> replicate 8 1]" if "err = None"
    using r(2) that row_pool(4) by (simp add: table_rows_def row_rid_def)
  then have "err = None \<longrightarrow> indexes_match fun_map id sample_heap [2] [row_rid \<mapsto> replicate 8 1] im'" using r(2) by (simp add: sample_tables)
  then show ?thesis using sample_managers(1) im r(1) by (intro exI [of _ "[1 \<mapsto> sample_heap]"] exI [of _ im] exI [of _ err] exI [of _ im'] exI [of _ "(bp', fs')"]) simp
qed

end
