(* ===== verification/Execution_Tree.thy ===== *)
theory Execution_Tree
  imports Planner_Correct Recovery_Rebuild
begin

text \<open>
  The executor tree builder (\<open>execution/executor_tree_builder.go\<close>): from a physical plan to executors.

  An executor of the tree is the call of its constructor: the plan node, the executors of the children, the heap file,
  and the indexes, whose pointers are their object identifiers as in the statements that change a table. A
  constructor that the source leaves unimplemented panics; a panic is \<open>None\<close>, an error is \<open>Inl\<close>. Plans have no nil nodes.

  The theorems show which plans have executors: with the managers that the program makes from its catalog, building the tree
  never fails for a plan over the tables of the catalog unless one of its nodes has no executor, and then it panics.
\<close>

section \<open>Building the tree\<close>

datatype ExecutorTree =
    SeqScanTree PlanNode TableHeap
  | IndexScanTree PlanNode ObjectID TableHeap
  | IndexLookupTree PlanNode ObjectID TableHeap
  | ValuesTree PlanNode
  | InsertTree PlanNode ExecutorTree TableHeap "ObjectID list"
  | DeleteTree PlanNode ExecutorTree TableHeap "ObjectID list"
  | UpdateTree PlanNode ExecutorTree TableHeap "ObjectID list"
  | BlockNestedLoopJoinTree PlanNode ExecutorTree ExecutorTree
  | FilterTree PlanNode ExecutorTree
  | ProjectionTree PlanNode ExecutorTree
  | LimitTree PlanNode ExecutorTree
  | SortTree PlanNode ExecutorTree
  | AggregateTree PlanNode ExecutorTree

type_synonym built_tree = "(string + ExecutorTree) option"

text \<open>The constructors whose body is \<open>panic("unimplemented")\<close>.\<close>

definition NewIndexJoinExecutor :: "PlanNode \<Rightarrow> ExecutorTree \<Rightarrow> ObjectID \<Rightarrow> TableHeap \<Rightarrow> built_tree" where
  "NewIndexJoinExecutor plan left rightIndex rightTableHeap = None"

definition NewHashJoinExecutor :: "PlanNode \<Rightarrow> ExecutorTree \<Rightarrow> ExecutorTree \<Rightarrow> built_tree" where
  "NewHashJoinExecutor plan left right = None"

definition NewSortMergeJoinExecutor :: "PlanNode \<Rightarrow> ExecutorTree \<Rightarrow> ExecutorTree \<Rightarrow> built_tree" where
  "NewSortMergeJoinExecutor plan left right = None"

definition NewTopNExecutor :: "PlanNode \<Rightarrow> ExecutorTree \<Rightarrow> built_tree" where
  "NewTopNExecutor plan child = None"

definition NewMaterializeExecutor :: "PlanNode \<Rightarrow> ExecutorTree \<Rightarrow> built_tree" where
  "NewMaterializeExecutor plan child = None"

lemmas unimplemented_defs = NewIndexJoinExecutor_def NewHashJoinExecutor_def NewSortMergeJoinExecutor_def NewTopNExecutor_def
  NewMaterializeExecutor_def

text \<open>\<open>fmt.Errorf\<close> with the format \<open>failed\<close>, the identifiers and the text of an error.\<close>

definition GoDBError_Error :: "GoDBError \<Rightarrow> string" where
  "GoDBError_Error e = ''err: '' @ GoDBErrorCode_String (Code e) @ ''; msg: '' @ ErrString e"

definition oid_text :: "ObjectID \<Rightarrow> string" where
  "oid_text oid = decimal (unat oid)"

definition wrapped :: "(string \<Rightarrow> string) \<Rightarrow> string + 'a \<Rightarrow> (string + 'a) option" where
  "wrapped context_of r = Some (case r of Inl err \<Rightarrow> Inl (context_of err) | Inr x \<Rightarrow> Inr x)"

text \<open>\<open>BindKey\<close> of \<open>IndexScanNode\<close> and \<open>IndexLookupNode\<close>: the key of the node with the schema of the runtime index.\<close>

definition BindKey :: "('h, 't) RuntimeIndex \<Rightarrow> Key \<Rightarrow> Key option" where
  "BindKey index key = AsKey (Index_Metadata index) (k_RawTuple key)"

text \<open>The indexes of a table in the order of the catalog.\<close>

fun resolve_indexes :: "string \<Rightarrow> ObjectID \<Rightarrow> ('h, 't) IndexManager \<Rightarrow> Index list \<Rightarrow> (string + ObjectID list) option" where
  "resolve_indexes op tableOid im [] = Some (Inr [])"
| "resolve_indexes op tableOid im (idxMeta # idxMetas) =
     fused (wrapped (\<lambda>err. op @ '': failed to get index '' @ oid_text (ix_Oid idxMeta) @ '' for table '' @ oid_text tableOid @ '': '' @ err)
         (GetIndex im (ix_Oid idxMeta))) (\<lambda>_.
     fused (resolve_indexes op tableOid im idxMetas) (\<lambda>indexes. Some (Inr (ix_Oid idxMeta # indexes))))"

definition table_metadata :: "string \<Rightarrow> Catalog \<Rightarrow> ObjectID \<Rightarrow> (string + Table) option" where
  "table_metadata op cat oid = (case GetTableByOid oid cat of
     Inl err \<Rightarrow> Some (Inl (op @ '': failed to get metadata for table '' @ oid_text oid @ '': '' @ GoDBError_Error err))
   | Inr t \<Rightarrow> Some (Inr t))"

text \<open>The common part of the three statements, once the executor of the child is built.\<close>

definition statement_table :: "string \<Rightarrow> Catalog \<Rightarrow> (ObjectID \<rightharpoonup> TableHeap) \<Rightarrow> ('h, 't) IndexManager \<Rightarrow> ObjectID \<Rightarrow>
    (string + TableHeap \<times> ObjectID list) option" where
  "statement_table op cat tm im oid =
     fused (Some (GetTable tm oid)) (\<lambda>targetTable.
     fused (table_metadata op cat oid) (\<lambda>tableMetadata.
     fused (resolve_indexes op oid im (tb_Indexes tableMetadata)) (\<lambda>indexes. Some (Inr (targetTable, indexes)))))"

text \<open>\<open>PlanNode\<close> of the executors.\<close>

fun Tree_PlanNode :: "ExecutorTree \<Rightarrow> PlanNode" where
  "Tree_PlanNode (SeqScanTree plan _) = plan"
| "Tree_PlanNode (IndexScanTree plan _ _) = plan"
| "Tree_PlanNode (IndexLookupTree plan _ _) = plan"
| "Tree_PlanNode (ValuesTree plan) = plan"
| "Tree_PlanNode (InsertTree plan _ _ _) = plan"
| "Tree_PlanNode (DeleteTree plan _ _ _) = plan"
| "Tree_PlanNode (UpdateTree plan _ _ _) = plan"
| "Tree_PlanNode (BlockNestedLoopJoinTree plan _ _) = plan"
| "Tree_PlanNode (FilterTree plan _) = plan"
| "Tree_PlanNode (ProjectionTree plan _) = plan"
| "Tree_PlanNode (LimitTree plan _) = plan"
| "Tree_PlanNode (SortTree plan _) = plan"
| "Tree_PlanNode (AggregateTree plan _) = plan"

text \<open>The whole dispatch. \<open>BindKey\<close> changes the node in place, so the parents see the bound node: the plan of an executor
  holds the plans of the executors of its children.\<close>

fun BuildExecutorTree :: "PlanNode \<Rightarrow> Catalog \<Rightarrow> (ObjectID \<rightharpoonup> TableHeap) \<Rightarrow> ('h, 't) IndexManager \<Rightarrow> built_tree" where
  "BuildExecutorTree (SeqScanNode oid ts mode) cat tm im =
     fused (wrapped (\<lambda>err. ''SeqScan: failed to get table '' @ oid_text oid @ '': '' @ err) (GetTable tm oid)) (\<lambda>tableHeap.
     Some (Inr (SeqScanTree (SeqScanNode oid ts mode) tableHeap)))"
| "BuildExecutorTree (IndexScanNode ixOid oid ts dir key forUpdate) cat tm im =
     fused (wrapped (\<lambda>err. ''IndexScan: failed to get index '' @ oid_text ixOid @ '': '' @ err) (GetIndex im ixOid)) (\<lambda>index.
     fused (wrapped (\<lambda>err. ''IndexScan: failed to get table '' @ oid_text oid @ '': '' @ err) (GetTable tm oid)) (\<lambda>tableHeap. do {
       key \<leftarrow> BindKey index key;
       Some (Inr (IndexScanTree (IndexScanNode ixOid oid ts dir key forUpdate) ixOid tableHeap)) }))"
| "BuildExecutorTree (IndexLookupNode ixOid oid ts key forUpdate) cat tm im =
     fused (wrapped (\<lambda>err. ''IndexLookup: failed to get index '' @ oid_text ixOid @ '': '' @ err) (GetIndex im ixOid)) (\<lambda>index.
     fused (wrapped (\<lambda>err. ''IndexLookup: failed to get table '' @ oid_text oid @ '': '' @ err) (GetTable tm oid)) (\<lambda>tableHeap. do {
       key \<leftarrow> BindKey index key;
       Some (Inr (IndexLookupTree (IndexLookupNode ixOid oid ts key forUpdate) ixOid tableHeap)) }))"
| "BuildExecutorTree (ValuesPlan vs ts) cat tm im = Some (Inr (ValuesTree (ValuesPlan vs ts)))"
| "BuildExecutorTree (InsertNode oid child) cat tm im =
     fused (BuildExecutorTree child cat tm im) (\<lambda>childExec.
     fused (statement_table ''Insert'' cat tm im oid) (\<lambda>(targetTable, indexes).
     Some (Inr (InsertTree (InsertNode oid (Tree_PlanNode childExec)) childExec targetTable indexes))))"
| "BuildExecutorTree (DeleteNode oid child) cat tm im =
     fused (BuildExecutorTree child cat tm im) (\<lambda>childExec.
     fused (statement_table ''Delete'' cat tm im oid) (\<lambda>(targetTable, indexes).
     Some (Inr (DeleteTree (DeleteNode oid (Tree_PlanNode childExec)) childExec targetTable indexes))))"
| "BuildExecutorTree (UpdateNode oid child es) cat tm im =
     fused (BuildExecutorTree child cat tm im) (\<lambda>childExec.
     fused (statement_table ''Update'' cat tm im oid) (\<lambda>(targetTable, indexes).
     Some (Inr (UpdateTree (UpdateNode oid (Tree_PlanNode childExec) es) childExec targetTable indexes))))"
| "BuildExecutorTree (NestedLoopJoinNode left right p) cat tm im =
     fused (BuildExecutorTree left cat tm im) (\<lambda>leftExec.
     fused (BuildExecutorTree right cat tm im) (\<lambda>rightExec.
     Some (Inr (BlockNestedLoopJoinTree (NestedLoopJoinNode (Tree_PlanNode leftExec) (Tree_PlanNode rightExec) p) leftExec rightExec))))"
| "BuildExecutorTree (IndexNestedLoopJoinNode left rightTableOid rightIndexOid keys inner forUpdate) cat tm im =
     fused (BuildExecutorTree left cat tm im) (\<lambda>leftExec.
     fused (wrapped (\<lambda>err. ''INLJ: failed to resolve index '' @ oid_text rightIndexOid @ '': '' @ err) (GetIndex im rightIndexOid)) (\<lambda>_.
     fused (wrapped (\<lambda>err. ''INLJ: failed to resolve table '' @ oid_text rightTableOid @ '' for index '' @ oid_text rightIndexOid @ '': '' @ err)
         (GetTable tm rightTableOid)) (\<lambda>rightTable.
     fused (table_metadata ''INLJ'' cat rightTableOid) (\<lambda>tableMetadata.
     if \<not> (\<exists>idxMeta \<in> set (tb_Indexes tableMetadata). ix_Oid idxMeta = rightIndexOid)
     then Some (Inl (''INLJ: index '' @ oid_text rightIndexOid @ '' does not belong to table '' @ oid_text rightTableOid))
     else NewIndexJoinExecutor (IndexNestedLoopJoinNode (Tree_PlanNode leftExec) rightTableOid rightIndexOid keys inner forUpdate) leftExec rightIndexOid rightTable))))"
| "BuildExecutorTree (HashJoinNode left right lks rks) cat tm im =
     fused (BuildExecutorTree left cat tm im) (\<lambda>leftExec.
     fused (BuildExecutorTree right cat tm im) (\<lambda>rightExec. NewHashJoinExecutor (HashJoinNode (Tree_PlanNode leftExec) (Tree_PlanNode rightExec) lks rks) leftExec rightExec))"
| "BuildExecutorTree (SortMergeJoinNode left right lks rks) cat tm im =
     fused (BuildExecutorTree left cat tm im) (\<lambda>leftExec.
     fused (BuildExecutorTree right cat tm im) (\<lambda>rightExec. NewSortMergeJoinExecutor (SortMergeJoinNode (Tree_PlanNode leftExec) (Tree_PlanNode rightExec) lks rks) leftExec rightExec))"
| "BuildExecutorTree (FilterNode child p) cat tm im =
     fused (BuildExecutorTree child cat tm im) (\<lambda>childExec. Some (Inr (FilterTree (FilterNode (Tree_PlanNode childExec) p) childExec)))"
| "BuildExecutorTree (ProjectionNode child es) cat tm im =
     fused (BuildExecutorTree child cat tm im) (\<lambda>childExec. Some (Inr (ProjectionTree (ProjectionNode (Tree_PlanNode childExec) es) childExec)))"
| "BuildExecutorTree (LimitNode child n) cat tm im =
     fused (BuildExecutorTree child cat tm im) (\<lambda>childExec. Some (Inr (LimitTree (LimitNode (Tree_PlanNode childExec) n) childExec)))"
| "BuildExecutorTree (SortNode child obs) cat tm im =
     fused (BuildExecutorTree child cat tm im) (\<lambda>childExec. Some (Inr (SortTree (SortNode (Tree_PlanNode childExec) obs) childExec)))"
| "BuildExecutorTree (TopNNode child n obs) cat tm im =
     fused (BuildExecutorTree child cat tm im) (\<lambda>childExec. NewTopNExecutor (TopNNode (Tree_PlanNode childExec) n obs) childExec)"
| "BuildExecutorTree (AggregatePlan child groupBy aggs) cat tm im =
     fused (BuildExecutorTree child cat tm im) (\<lambda>childExec. Some (Inr (AggregateTree (AggregatePlan (Tree_PlanNode childExec) groupBy aggs) childExec)))"
| "BuildExecutorTree (MaterializeNode child) cat tm im =
     fused (BuildExecutorTree child cat tm im) (\<lambda>childExec. NewMaterializeExecutor (MaterializeNode (Tree_PlanNode childExec)) childExec)"

section \<open>Plans with executors\<close>

text \<open>No node of the plan has an unimplemented executor.\<close>

fun runnable :: "PlanNode \<Rightarrow> bool" where
  "runnable (SeqScanNode _ _ _) = True"
| "runnable (IndexScanNode _ _ _ _ _ _) = True"
| "runnable (IndexLookupNode _ _ _ _ _) = True"
| "runnable (ValuesPlan _ _) = True"
| "runnable (FilterNode c _) = runnable c"
| "runnable (ProjectionNode c _) = runnable c"
| "runnable (LimitNode c _) = runnable c"
| "runnable (SortNode c _) = runnable c"
| "runnable (TopNNode _ _ _) = False"
| "runnable (MaterializeNode _) = False"
| "runnable (AggregatePlan c _ _) = runnable c"
| "runnable (InsertNode _ c) = runnable c"
| "runnable (DeleteNode _ c) = runnable c"
| "runnable (UpdateNode _ c _) = runnable c"
| "runnable (NestedLoopJoinNode l r _) = (runnable l \<and> runnable r)"
| "runnable (IndexNestedLoopJoinNode _ _ _ _ _ _) = False"
| "runnable (HashJoinNode _ _ _ _) = False"
| "runnable (SortMergeJoinNode _ _ _ _) = False"

text \<open>The tables of the plan are tables of the catalog, an index of a node is an index of its table, and a key is
  long enough for the index.\<close>

definition has_table :: "Catalog \<Rightarrow> ObjectID \<Rightarrow> bool" where
  "has_table cat oid \<longleftrightarrow> (\<exists>t \<in> set (Tables cat). tb_Oid t = oid)"

definition has_index :: "Catalog \<Rightarrow> ObjectID \<Rightarrow> ObjectID \<Rightarrow> bool" where
  "has_index cat oid ixOid \<longleftrightarrow> (\<exists>t \<in> set (Tables cat). tb_Oid t = oid \<and> ixOid \<in> ix_Oid ` set (tb_Indexes t))"

definition key_fits :: "('h, 't) IndexManager \<Rightarrow> ObjectID \<Rightarrow> Key \<Rightarrow> bool" where
  "key_fits im ixOid key \<longleftrightarrow> (case im ixOid of Some index \<Rightarrow> KeySize (Index_Metadata index) \<le> length (k_RawTuple key) | None \<Rightarrow> False)"

fun plan_over :: "Catalog \<Rightarrow> ('h, 't) IndexManager \<Rightarrow> PlanNode \<Rightarrow> bool" where
  "plan_over cat im (SeqScanNode oid _ _) = has_table cat oid"
| "plan_over cat im (IndexScanNode ixOid oid _ _ key _) = (has_index cat oid ixOid \<and> key_fits im ixOid key)"
| "plan_over cat im (IndexLookupNode ixOid oid _ key _) = (has_index cat oid ixOid \<and> key_fits im ixOid key)"
| "plan_over cat im (ValuesPlan _ _) = True"
| "plan_over cat im (FilterNode c _) = plan_over cat im c"
| "plan_over cat im (ProjectionNode c _) = plan_over cat im c"
| "plan_over cat im (LimitNode c _) = plan_over cat im c"
| "plan_over cat im (SortNode c _) = plan_over cat im c"
| "plan_over cat im (TopNNode c _ _) = plan_over cat im c"
| "plan_over cat im (MaterializeNode c) = plan_over cat im c"
| "plan_over cat im (AggregatePlan c _ _) = plan_over cat im c"
| "plan_over cat im (InsertNode oid c) = (has_table cat oid \<and> plan_over cat im c)"
| "plan_over cat im (DeleteNode oid c) = (has_table cat oid \<and> plan_over cat im c)"
| "plan_over cat im (UpdateNode oid c _) = (has_table cat oid \<and> plan_over cat im c)"
| "plan_over cat im (NestedLoopJoinNode l r _) = (plan_over cat im l \<and> plan_over cat im r)"
| "plan_over cat im (IndexNestedLoopJoinNode l oid ixOid _ _ _) = (has_index cat oid ixOid \<and> plan_over cat im l)"
| "plan_over cat im (HashJoinNode l r _ _) = (plan_over cat im l \<and> plan_over cat im r)"
| "plan_over cat im (SortMergeJoinNode l r _ _) = (plan_over cat im l \<and> plan_over cat im r)"

text \<open>The reference: the tree of a plan when every table and index is known, and nothing for a plan with a node that has no
  executor.\<close>

definition bound_key :: "('h, 't) RuntimeIndex option \<Rightarrow> Key \<Rightarrow> Key" where
  "bound_key index key = (case index of
     Some index \<Rightarrow> \<lparr>k_RawTuple = take (KeySize (Index_Metadata index)) (k_RawTuple key), k_schema = Some (KeySchema (Index_Metadata index))\<rparr>
   | None \<Rightarrow> key)"

definition table_indexes :: "Catalog \<Rightarrow> ObjectID \<Rightarrow> ObjectID list" where
  "table_indexes cat oid = (case GetTableByOid oid cat of Inr t \<Rightarrow> map ix_Oid (tb_Indexes t) | Inl _ \<Rightarrow> [])"

fun tree_of :: "Catalog \<Rightarrow> (ObjectID \<rightharpoonup> TableHeap) \<Rightarrow> ('h, 't) IndexManager \<Rightarrow> PlanNode \<Rightarrow> ExecutorTree option" where
  "tree_of cat tm im (SeqScanNode oid ts mode) = map_option (SeqScanTree (SeqScanNode oid ts mode)) (tm oid)"
| "tree_of cat tm im (IndexScanNode ixOid oid ts dir key fu) =
     map_option (IndexScanTree (IndexScanNode ixOid oid ts dir (bound_key (im ixOid) key) fu) ixOid) (tm oid)"
| "tree_of cat tm im (IndexLookupNode ixOid oid ts key fu) =
     map_option (IndexLookupTree (IndexLookupNode ixOid oid ts (bound_key (im ixOid) key) fu) ixOid) (tm oid)"
| "tree_of cat tm im (ValuesPlan vs ts) = Some (ValuesTree (ValuesPlan vs ts))"
| "tree_of cat tm im (InsertNode oid c) = do {
     c \<leftarrow> tree_of cat tm im c; th \<leftarrow> tm oid; Some (InsertTree (InsertNode oid (Tree_PlanNode c)) c th (table_indexes cat oid)) }"
| "tree_of cat tm im (DeleteNode oid c) = do {
     c \<leftarrow> tree_of cat tm im c; th \<leftarrow> tm oid; Some (DeleteTree (DeleteNode oid (Tree_PlanNode c)) c th (table_indexes cat oid)) }"
| "tree_of cat tm im (UpdateNode oid c es) = do {
     c \<leftarrow> tree_of cat tm im c; th \<leftarrow> tm oid; Some (UpdateTree (UpdateNode oid (Tree_PlanNode c) es) c th (table_indexes cat oid)) }"
| "tree_of cat tm im (NestedLoopJoinNode l r p) = do {
     l \<leftarrow> tree_of cat tm im l; r \<leftarrow> tree_of cat tm im r;
     Some (BlockNestedLoopJoinTree (NestedLoopJoinNode (Tree_PlanNode l) (Tree_PlanNode r) p) l r) }"
| "tree_of cat tm im (FilterNode c p) = map_option (\<lambda>c. FilterTree (FilterNode (Tree_PlanNode c) p) c) (tree_of cat tm im c)"
| "tree_of cat tm im (ProjectionNode c es) = map_option (\<lambda>c. ProjectionTree (ProjectionNode (Tree_PlanNode c) es) c) (tree_of cat tm im c)"
| "tree_of cat tm im (LimitNode c n) = map_option (\<lambda>c. LimitTree (LimitNode (Tree_PlanNode c) n) c) (tree_of cat tm im c)"
| "tree_of cat tm im (SortNode c obs) = map_option (\<lambda>c. SortTree (SortNode (Tree_PlanNode c) obs) c) (tree_of cat tm im c)"
| "tree_of cat tm im (AggregatePlan c gs aggs) = map_option (\<lambda>c. AggregateTree (AggregatePlan (Tree_PlanNode c) gs aggs) c) (tree_of cat tm im c)"
| "tree_of cat tm im _ = None"

text \<open>The interface of the managers that the builder relies on: once started they know every table and every index of the
  catalog.\<close>

locale managers =
  fixes started :: "Catalog \<Rightarrow> (ObjectID \<rightharpoonup> TableHeap) \<Rightarrow> ('h, 't) IndexManager \<Rightarrow> bool"
  assumes table_law: "started cat tm im \<Longrightarrow> t \<in> set (Tables cat) \<Longrightarrow> \<exists>th. tm (tb_Oid t) = Some th"
    and index_law: "started cat tm im \<Longrightarrow> t \<in> set (Tables cat) \<Longrightarrow> i \<in> set (tb_Indexes t) \<Longrightarrow> \<exists>ix. im (ix_Oid i) = Some ix"
    and oid_law: "started cat tm im \<Longrightarrow> t \<in> set (Tables cat) \<Longrightarrow> GetTableByOid (tb_Oid t) cat = Inr t"
begin

lemma table_over:
  assumes "started cat tm im" "has_table cat oid"
  shows "\<exists>th t. tm oid = Some th \<and> GetTable tm oid = Inr th \<and> GetTableByOid oid cat = Inr t \<and> t \<in> set (Tables cat)"
  using table_law [OF assms(1)] oid_law [OF assms(1)] assms(2) unfolding has_table_def GetTable_def by fastforce

lemma index_over:
  assumes "started cat tm im" "has_index cat oid ixOid"
  shows "\<exists>ix th t. GetIndex im ixOid = Inr ix \<and> im ixOid = Some ix \<and> GetTable tm oid = Inr th \<and> tm oid = Some th \<and>
    GetTableByOid oid cat = Inr t \<and> (\<exists>i \<in> set (tb_Indexes t). ix_Oid i = ixOid)"
  using table_law [OF assms(1)] oid_law [OF assms(1)] index_law [OF assms(1)] assms(2)
  unfolding has_index_def GetTable_def GetIndex_def by fastforce

lemma resolve_all: "(\<And>i. i \<in> set is \<Longrightarrow> \<exists>ix. im (ix_Oid i) = Some ix) \<Longrightarrow> resolve_indexes op oid im is = Some (Inr (map ix_Oid is))"
proof (induction "is")
  case (Cons i "is")
  then obtain ix where "im (ix_Oid i) = Some ix" by force
  then show ?case using Cons by (simp add: fused_def wrapped_def GetIndex_def)
qed simp

lemma statement_table_over:
  assumes "started cat tm im" "has_table cat oid"
  shows "\<exists>th. tm oid = Some th \<and> statement_table op cat tm im oid = Some (Inr (th, table_indexes cat oid))"
proof -
  obtain th t where t: "tm oid = Some th" "GetTable tm oid = Inr th" "GetTableByOid oid cat = Inr t" "t \<in> set (Tables cat)"
    using table_over [OF assms] by blast
  have "resolve_indexes op oid im (tb_Indexes t) = Some (Inr (map ix_Oid (tb_Indexes t)))"
    using index_law [OF assms(1) t(4)] by (rule resolve_all)
  then show ?thesis using t by (simp add: statement_table_def fused_def table_metadata_def table_indexes_def)
qed

lemma BindKey_fits: "key_fits im ixOid key \<Longrightarrow> im ixOid = Some ix \<Longrightarrow> BindKey ix key = Some (bound_key (Some ix) key)"
  by (simp add: key_fits_def BindKey_def bound_key_def AsKey_def KeySize_def slice_def)

lemma BuildExecutorTree_over:
  assumes st: "started cat tm im"
  shows "plan_over cat im P \<Longrightarrow> BuildExecutorTree P cat tm im = map_option Inr (tree_of cat tm im P)"
proof (induction P)
  case (SeqScanNode oid ts mode)
  then show ?case using table_over [OF st, of oid] by (auto simp: fused_def wrapped_def)
next
  case (IndexScanNode ixOid oid ts dir key fu)
  then show ?case using index_over [OF st, of oid ixOid] BindKey_fits [of im ixOid key] by (auto simp: fused_def wrapped_def)
next
  case (IndexLookupNode ixOid oid ts key fu)
  then show ?case using index_over [OF st, of oid ixOid] BindKey_fits [of im ixOid key] by (auto simp: fused_def wrapped_def)
next
  case (IndexNestedLoopJoinNode l oid ixOid es ts fu)
  then show ?case using index_over [OF st, of oid ixOid]
    by (auto simp: fused_def wrapped_def table_metadata_def unimplemented_defs split: option.splits)
next
  case (InsertNode oid c)
  then show ?case using statement_table_over [OF st, of oid "''Insert''"] by (auto simp: fused_def split: option.split)
next
  case (DeleteNode oid c)
  then show ?case using statement_table_over [OF st, of oid "''Delete''"] by (auto simp: fused_def split: option.split)
next
  case (UpdateNode oid c es)
  then show ?case using statement_table_over [OF st, of oid "''Update''"] by (auto simp: fused_def split: option.split)
qed (auto simp: fused_def unimplemented_defs split: option.split)

lemma tree_of_runnable:
  assumes st: "started cat tm im"
  shows "plan_over cat im P \<Longrightarrow> tree_of cat tm im P = None \<longleftrightarrow> \<not> runnable P"
proof (induction P)
  case (SeqScanNode oid ts mode)
  then show ?case using table_over [OF st, of oid] by auto
next
  case (IndexScanNode ixOid oid ts dir key fu)
  then show ?case using index_over [OF st, of oid ixOid] by auto
next
  case (IndexLookupNode ixOid oid ts key fu)
  then show ?case using index_over [OF st, of oid ixOid] by auto
qed (use table_over [OF st] in \<open>fastforce simp: bind_eq_None_conv\<close>)+

end

text \<open>The managers that \<open>main.go\<close> starts from its catalog.\<close>

definition started_managers :: "(bytes, nat, 'h) MapOf \<Rightarrow> (btreeItem, 't, 'it) BTreeG \<Rightarrow> Catalog \<Rightarrow> (ObjectID \<rightharpoonup> TableHeap) \<Rightarrow> ('h, 't) IndexManager \<Rightarrow> bool" where
  "started_managers XI B cat tm im \<longleftrightarrow> catalog_ok cat \<and> NewTableManager cat = Some tm \<and> NewIndexManager XI B cat = Some (Inr im)"

interpretation started: managers "\<lambda>cat tm im. xsync_map XI \<and> tidwall_btree B item_less items cursor \<and> started_managers XI B cat tm im"
  for XI B items cursor
proof (rule managers.intro)
  fix cat tm and im :: "('a, 'b) IndexManager" and t
  assume a: "xsync_map XI \<and> tidwall_btree B item_less items cursor \<and> started_managers XI B cat tm im" and t: "t \<in> set (Tables cat)"
  show "\<exists>th. tm (tb_Oid t) = Some th" using managers_start [of XI B items cursor cat tm im t] a t by (auto simp: started_managers_def)
  show "\<exists>ix. im (ix_Oid i) = Some ix" if "i \<in> set (tb_Indexes t)" for i
    using managers_start [of XI B items cursor cat tm im t] a t that by (auto simp: started_managers_def)
  show "GetTableByOid (tb_Oid t) cat = Inr t" using lookup_oids(1) [of cat t] a t by (auto simp: started_managers_def catalog_ok_def)
qed

section \<open>The plans of the planner\<close>

text \<open>The installed rules choose by the type of the node.\<close>

lemma convert_installed:
  "convert physicalRules cat (LogicalScanNode n) ps = SeqScanRule_Apply (LogicalScanNode n) ps cat"
  "convert physicalRules cat (LogicalValuesNode vs s) ps = ValuesRule_Apply (LogicalValuesNode vs s) ps cat"
  "convert physicalRules cat (LogicalFilterNode c p) ps = FilterRule_Apply (LogicalFilterNode c p) ps cat"
  "convert physicalRules cat (LogicalJoinNode l r on jt) ps = BlockNestedLoopJoinRule_Apply (LogicalJoinNode l r on jt) ps cat"
  "convert physicalRules cat (LogicalUnaryNode op s c) ps = (case op of
     ProjectionOp _ \<Rightarrow> ProjectionRule_Apply (LogicalUnaryNode op s c) ps cat
   | SortOp _ \<Rightarrow> SortRule_Apply (LogicalUnaryNode op s c) ps cat
   | LimitOp _ _ \<Rightarrow> LimitRule_Apply (LogicalUnaryNode op s c) ps cat
   | AggregationOp _ _ \<Rightarrow> AggregationRule_Apply (LogicalUnaryNode op s c) ps cat
   | SubqueryOp _ \<Rightarrow> Some (Inl (PlanError ''No physical conversion rule matched for node''))
   | InsertOp _ \<Rightarrow> InsertRule_Apply (LogicalUnaryNode op s c) ps cat
   | DeleteOp _ \<Rightarrow> DeleteRule_Apply (LogicalUnaryNode op s c) ps cat
   | UpdateOp _ _ \<Rightarrow> UpdateRule_Apply (LogicalUnaryNode op s c) ps cat)"
  by (simp_all add: convert_def physicalRules_def rule_defs split: logical_op.split)

text \<open>The logical plans whose physical plans have executors: the right side of a join is a table without a predicate of its
  own, and no limit stands directly above a sort.\<close>

fun bare_scan :: "LogicalPlanNode \<Rightarrow> bool" where
  "bare_scan (LogicalScanNode n) \<longleftrightarrow> sn_Predicates n = [] \<and> sn_projection n = None"
| "bare_scan _ \<longleftrightarrow> False"

primrec served :: "LogicalPlanNode \<Rightarrow> bool" where
  "served (LogicalScanNode n) \<longleftrightarrow> True"
| "served (LogicalValuesNode vs s) \<longleftrightarrow> True"
| "served (LogicalFilterNode c p) \<longleftrightarrow> served c"
| "served (LogicalJoinNode l r on jt) \<longleftrightarrow> served l \<and> bare_scan r"
| "served (LogicalUnaryNode op s c) \<longleftrightarrow> served c \<and> (case op of LimitOp _ _ \<Rightarrow> \<not> is_sort c | _ \<Rightarrow> True)"

fun sort_plan :: "PlanNode \<Rightarrow> bool" where
  "sort_plan (SortNode _ _) = True" | "sort_plan _ = False"

text \<open>No installed rule makes a node with a key, so the plan of the tree is the plan.\<close>

fun no_index :: "PlanNode \<Rightarrow> bool" where
  "no_index (SeqScanNode _ _ _) = True"
| "no_index (ValuesPlan _ _) = True"
| "no_index (FilterNode c _) = no_index c"
| "no_index (ProjectionNode c _) = no_index c"
| "no_index (LimitNode c _) = no_index c"
| "no_index (SortNode c _) = no_index c"
| "no_index (TopNNode c _ _) = no_index c"
| "no_index (MaterializeNode c) = no_index c"
| "no_index (AggregatePlan c _ _) = no_index c"
| "no_index (InsertNode _ c) = no_index c"
| "no_index (DeleteNode _ c) = no_index c"
| "no_index (UpdateNode _ c _) = no_index c"
| "no_index (NestedLoopJoinNode l r _) = (no_index l \<and> no_index r)"
| "no_index _ = False"

lemma tree_of_plan: "tree_of cat tm im P = Some tree \<Longrightarrow> no_index P \<Longrightarrow> Tree_PlanNode tree = P"
  by (induction P arbitrary: tree) (auto simp: bind_eq_Some_conv)

lemma project_onto_shape:
  assumes "project_onto es c P = Some (Inr Q)"
  shows "runnable Q = runnable P \<and> plan_over cat im Q = plan_over cat im P \<and> no_index Q = no_index P \<and> \<not> rescannable Q \<and> \<not> sort_plan Q"
proof -
  have own: ?thesis if "own_projection es c P = Some (Inr Q)" using that by (auto simp: own_projection_def bind_eq_Some_conv)
  show ?thesis
  proof (cases P)
    case (ProjectionNode below ces)
    then obtain f :: "string + Expr list" where f: "(case f of Inr es \<Rightarrow> Some (Inr (ProjectionNode below es)) | Inl _ \<Rightarrow> own_projection es c P) = Some (Inr Q)"
      using assms by (auto simp: project_onto_def bind_eq_Some_conv)
    then show ?thesis using own ProjectionNode by (cases f) auto
  qed (use assms own in \<open>auto simp: project_onto_def\<close>)
qed

lemma case_sum_Inr: "(case x of Inl e \<Rightarrow> Some (Inl (f e)) | Inr y \<Rightarrow> g y) = Some (Inr z) \<longleftrightarrow> (\<exists>y. x = Inr y \<and> g y = Some (Inr z))"
  by (cases x) auto

lemma fused_Inr: "fused m f = Some (Inr y) \<longleftrightarrow> (\<exists>x. m = Some (Inr x) \<and> f x = Some (Inr y))"
  by (auto simp: fused_def split: option.splits sum.splits)

lemma GetTableByOid_has: "GetTableByOid oid cat = Inr t \<Longrightarrow> has_table cat oid"
  by (auto simp: GetTableByOid_def has_table_def find_Some_iff split: option.splits)

lemma scan_plan_shape:
  assumes "SeqScanRule_Apply (LogicalScanNode n) ps cat = Some (Inr P)"
  shows "runnable P \<and> plan_over cat im P \<and> no_index P \<and> rescannable P = bare_scan (LogicalScanNode n) \<and> \<not> sort_plan P"
proof -
  obtain oid t Q where q: "GetTableByOid oid cat = Inr t"
    "wrapInFilter (SeqScanNode oid (tableSchemaToTypes t) (if sn_ForUpdate n then LockModeX else LockModeS)) (sn_Predicates n) (sn_schema n) = Some Q"
    "(case sn_projection n of Some (exprs, _) \<Rightarrow> project_onto exprs (LogicalScanNode n) Q | None \<Rightarrow> Some (Inr Q)) = Some (Inr P)"
    using assms by (auto simp: bind_eq_Some_conv Let_def case_sum_Inr)
  have "runnable Q \<and> plan_over cat im Q \<and> no_index Q \<and> rescannable Q = (sn_Predicates n = []) \<and> \<not> sort_plan Q"
    using q(1,2) GetTableByOid_has by (auto simp: wrapInFilter_def bind_eq_Some_conv Let_def split: list.splits)
  then show ?thesis using q(3) project_onto_shape [of _ "LogicalScanNode n" Q P cat im] by (auto split: option.splits)
qed

lemma LimitRule_shape:
  assumes "LimitRule_Apply (LogicalUnaryNode (LimitOp k off) s c) [P] cat = Some (Inr Q)"
  shows "runnable Q = (runnable P \<and> \<not> sort_plan P) \<and> plan_over cat im Q = plan_over cat im P \<and> no_index Q = no_index P \<and> \<not> rescannable Q \<and> \<not> sort_plan Q"
  using assms by (auto split: PlanNode.splits)

lemma unary_plan_shape:
  assumes "convert physicalRules cat (LogicalUnaryNode op s c) [P] = Some (Inr Q)" "op_ok db cat op s c"
  shows "runnable Q = (runnable P \<and> (case op of LimitOp _ _ \<Rightarrow> \<not> sort_plan P | _ \<Rightarrow> True)) \<and> (plan_over cat im P \<longrightarrow> plan_over cat im Q) \<and> no_index Q = no_index P \<and>
    \<not> rescannable Q \<and> sort_plan Q = is_sort (LogicalUnaryNode op s c)"
proof (cases op)
  case (LimitOp k off)
  then show ?thesis using assms(1) LimitRule_shape [of k off s c P cat Q im] unfolding convert_installed by (simp del: LimitRule_Apply.simps)
next
  case (ProjectionOp es)
  then show ?thesis using assms(1) project_onto_shape [of es c P Q cat im] unfolding convert_installed by simp
qed (use assms GetTableByOid_has in \<open>auto simp: convert_installed bind_eq_Some_conv case_sum_Inr\<close>)

lemma Build_shape:
  "Build physicalRules cat q = Some (Inr P) \<Longrightarrow> plannable db cat q \<Longrightarrow>
    runnable P = served q \<and> plan_over cat im P \<and> no_index P \<and> rescannable P = bare_scan q \<and> sort_plan P = is_sort q"
proof (induction q arbitrary: P)
  case (LogicalScanNode n)
  then show ?case using scan_plan_shape [of n "[]" cat P im] by (simp add: convert_installed del: SeqScanRule_Apply.simps)
next
  case (LogicalValuesNode vs s)
  then show ?case by (auto simp: convert_installed bind_eq_Some_conv)
next
  case (LogicalFilterNode c p)
  then show ?case by (fastforce simp: convert_installed bind_eq_Some_conv fused_Inr)
next
  case (LogicalJoinNode l r on jt)
  then obtain L R where b: "Build physicalRules cat l = Some (Inr L)" "Build physicalRules cat r = Some (Inr R)"
    "convert physicalRules cat (LogicalJoinNode l r on jt) [L, R] = Some (Inr P)" by (auto simp: fused_Inr)
  have R: "rescannable R \<Longrightarrow> runnable R" using LogicalJoinNode.IH(2) [OF b(2)] LogicalJoinNode.prems by (cases r) auto
  obtain e where "P = NestedLoopJoinNode L (if rescannable R then R else MaterializeNode R) e"
    using b(3) by (auto simp: convert_installed bind_eq_Some_conv Let_def)
  then show ?case using R LogicalJoinNode.IH(1) [OF b(1)] LogicalJoinNode.IH(2) [OF b(2)] LogicalJoinNode.prems by auto
next
  case (LogicalUnaryNode op s c)
  then obtain C where b: "Build physicalRules cat c = Some (Inr C)" "convert physicalRules cat (LogicalUnaryNode op s c) [C] = Some (Inr P)"
    by (auto simp: fused_Inr)
  have ok: "op_ok db cat op s c" "plannable db cat c" using LogicalUnaryNode.prems(2) by auto
  show ?case using unary_plan_shape [OF b(2) ok(1), of im] LogicalUnaryNode.IH [OF b(1) ok(2)] by (auto split: logical_op.split)
qed

section \<open>A query over the sample table\<close>

text \<open>\<open>SELECT id FROM users WHERE id > 3 LIMIT 5\<close>\<close>

definition users_id :: LogicalColumn where
  "users_id = \<lparr>cname = ''id'', ctype = IntType, origin = Some \<lparr>tr_table = Some 1, tr_alias = ''users'', refID = 1\<rparr>\<rparr>"

definition users_scan :: ScanNode where
  "users_scan = \<lparr>sn_TableRef = \<lparr>tr_table = Some 1, tr_alias = ''users'', refID = 1\<rparr>, sn_schema = [users_id], sn_projection = None,
     sn_Predicates = [], sn_ForUpdate = False\<rparr>"

definition users_where :: Expr where
  "users_where = ComparisonExpression (LogicalColumnExpr users_id) (ConstantValueExpr (NewIntValue 3)) GreaterThan"

definition users_query :: LogicalPlanNode where
  "users_query = NewLogicalLimitNode (NewLogicalProjectionNode (LogicalFilterNode (LogicalScanNode users_scan) users_where)
     [LogicalColumnExpr users_id] [users_id]) 5 0"

lemmas users_defs = users_query_def NewLogicalLimitNode_def NewLogicalProjectionNode_def users_where_def users_scan_def

lemma users_equals: "LogicalColumn_Equals users_id users_id"
  by (simp add: LogicalColumn_Equals_def users_id_def EqualFold_def TableRef_Equals_def)

lemma users_column: "length r = 1 \<Longrightarrow> project_row [users_id] [LogicalColumnExpr users_id] r = Some r"
  by (cases r) (auto simp: project_row_def env_row_def users_equals idx_def)

lemma users_wf:
  assumes "\<forall>r \<in> set (db_table db 1). length r = 1"
  shows "wf_query db users_query"
  using assms users_column
  by (auto simp: users_defs ref_rows_def reports_def List.map_filter_def split: option.splits dest!: in_set_takeD)

lemma users_plannable:
  assumes "\<forall>r \<in> set (db_table db 1). length r = 1"
  shows "plannable db sample_catalog users_query"
proof -
  have b: "bindable [users_id] (LogicalColumnExpr users_id)" "condition [users_id] users_where"
    using users_equals by (simp_all add: condition_def bindable_def users_where_def Schema_Contains_def)
      (simp_all add: users_id_def NewIntValue_def zeroValue_def)
  have "project_row [users_id] [LogicalColumnExpr users_id] r \<noteq> None" if "r \<in> set (ref_rows db (sn_TableRef users_scan))" for r
    using that assms users_column by (simp add: ref_rows_def users_scan_def)
  then show ?thesis using b
    by (auto simp: users_query_def NewLogicalLimitNode_def NewLogicalProjectionNode_def RawOutputSchema_def Planner_Correct.table_ok_def users_scan_def
        sample_tables GetTableByOid_def tableSchemaToTypes_def users_id_def)
qed

section \<open>Properties\<close>

text \<open>Every plan over the tables of the catalog has its executors. With the managers that the program starts from a consistent
  catalog, building the executor tree of a physical plan whose tables and indexes are in the catalog never reports an
  error: every executor gets the heap file of its table, statements get all indexes of the table, and index keys
  are bound to the schema of their index; the builder panics exactly for the plans with a node whose executor is not implemented.\<close>

theorem BuildExecutorTree_total:
  assumes "xsync_map XI" "tidwall_btree B item_less items cursor" "catalog_ok cat" "NewTableManager cat = Some tm"
    "NewIndexManager XI B cat = Some (Inr im)" "plan_over cat im P"
  shows "BuildExecutorTree P cat tm im = map_option Inr (tree_of cat tm im P) \<and> (BuildExecutorTree P cat tm im = None \<longleftrightarrow> \<not> runnable P)"
proof -
  have st: "xsync_map XI \<and> tidwall_btree B item_less items cursor \<and> started_managers XI B cat tm im"
    using assms(1-5) by (simp add: started_managers_def)
  show ?thesis using started.BuildExecutorTree_over [OF st assms(6)] started.tree_of_runnable [OF st assms(6)] by simp
qed

theorem BuildExecutorTree_total_witness:
  "\<exists>im :: (bytes \<Rightarrow> nat option, btreeItem list) IndexManager. NewIndexManager fun_map (list_btree item_less) sample_catalog = Some (Inr im) \<and>
     BuildExecutorTree (UpdateNode 1 (FilterNode (SeqScanNode 1 [IntType] LockModeX) (ConstantValueExpr (NewIntValue 1))) []) sample_catalog [1 \<mapsto> sample_heap] im \<noteq> None"
proof -
  let ?B = "list_btree item_less :: (btreeItem, btreeItem list, btreeItem list \<times> nat) BTreeG"
  let ?P = "UpdateNode 1 (FilterNode (SeqScanNode 1 [IntType] LockModeX) (ConstantValueExpr (NewIntValue 1))) []"
  obtain im :: "(bytes \<Rightarrow> nat option, btreeItem list) IndexManager" where im: "NewIndexManager fun_map ?B sample_catalog = Some (Inr im)"
    using sample_managers(2) by blast
  have "plan_over sample_catalog im ?P" by (simp add: has_table_def sample_tables)
  from BuildExecutorTree_total [OF xsync_fun_map tidwall_list_btree sample_catalog_ok sample_managers(1) im this]
  show ?thesis using im by auto
qed

text \<open>C9: From a logical plan to executors. Every well-formed logical plan whose tables exist and whose columns resolve is
  optimized and planned, and the executor tree of its physical plan is built without an error, unless, after
  push-down, a join has a right side other than a table without a predicate or a limit stands directly above a sort: then, and only
  then, the builder panics. The plan of the tree returns the rows of the logical plan.\<close>

theorem planned_query_executable:
  assumes "xsync_map XI" "tidwall_btree B item_less items cursor" "catalog_ok cat" "NewTableManager cat = Some tm"
    "NewIndexManager XI B cat = Some (Inr im)" "wf_query db p" "plannable db cat p" "weight p < fuel"
  shows "\<exists>q P. OptimizeWithRule fuel p = Some q \<and> Build physicalRules cat q = Some (Inr P) \<and> physical_rows db P = logical_rows db p \<and>
    (if served q then \<exists>tree. BuildExecutorTree P cat tm im = Some (Inr tree) \<and> Tree_PlanNode tree = P else BuildExecutorTree P cat tm im = None)"
proof -
  have st: "xsync_map XI \<and> tidwall_btree B item_less items cursor \<and> started_managers XI B cat tm im"
    using assms(1-5) by (simp add: started_managers_def)
  obtain q where q: "OptimizeWithRule fuel p = Some q" "same_query db p q" "plannable db cat q"
    using OptimizeWithRule_plannable [OF assms(6-8)] by blast
  obtain P where P: "Build physicalRules cat q = Some (Inr P)" "implements db q P" using installed.Build_implements [OF q(3)] by blast
  note sh = Build_shape [OF P(1) q(3), of im]
  have "tree_of cat tm im P = None \<longleftrightarrow> \<not> served q" using started.tree_of_runnable [OF st, of P] sh by simp
  moreover have "Tree_PlanNode tree = P" if "tree_of cat tm im P = Some tree" for tree
    using tree_of_plan [OF that] sh by blast
  ultimately show ?thesis using q P sh started.BuildExecutorTree_over [OF st, of P]
    by (intro exI [of _ q] exI [of _ P]) (auto simp: implements_def same_plan_def)
qed

theorem planned_query_executable_witness:
  "\<exists>q P tree. \<exists>im :: (bytes \<Rightarrow> nat option, btreeItem list) IndexManager. NewIndexManager fun_map (list_btree item_less) sample_catalog = Some (Inr im) \<and>
     OptimizeWithRule 20 users_query = Some q \<and> Build physicalRules sample_catalog q = Some (Inr P) \<and>
     BuildExecutorTree P sample_catalog [1 \<mapsto> sample_heap] im = Some (Inr tree) \<and> Tree_PlanNode tree = P"
proof -
  let ?B = "list_btree item_less :: (btreeItem, btreeItem list, btreeItem list \<times> nat) BTreeG"
  obtain im :: "(bytes \<Rightarrow> nat option, btreeItem list) IndexManager" where im: "NewIndexManager fun_map ?B sample_catalog = Some (Inr im)"
    using sample_managers(2) by blast
  have r: "\<forall>r \<in> set (db_table two_rows 1). length r = 1" by (simp add: two_rows_def)
  have "weight users_query < 20" by (simp add: users_defs)
  from planned_query_executable [OF xsync_fun_map tidwall_list_btree sample_catalog_ok sample_managers(1) im users_wf [OF r] users_plannable [OF r] this]
  obtain q P where q: "OptimizeWithRule 20 users_query = Some q" "Build physicalRules sample_catalog q = Some (Inr P)"
    "if served q then \<exists>tree. BuildExecutorTree P sample_catalog [1 \<mapsto> sample_heap] im = Some (Inr tree) \<and> Tree_PlanNode tree = P
      else BuildExecutorTree P sample_catalog [1 \<mapsto> sample_heap] im = None" by blast
  have "served q" using q(1) by (auto simp: users_defs numeral_eq_Suc bind_eq_Some_conv split: if_splits)
  then show ?thesis using q im by auto
qed

end
