(* ===== verification/Execution_Join.thy ===== *)
theory Execution_Join
  imports Execution_Operators
begin

text \<open>
  The block nested loop join (\<open>execution/block_nested_loop_join_executor.go\<close>): blocks of the left child are
  buffered and the right child is run once per block. Its contract with the children is stated as two
  interfaces: the left child is \<open>orderly\<close> (it stays exhausted and reports no error while it yields) and the
  right child is \<open>rewindable\<close> (\<open>Init\<close> starts it again from any state it reaches).
\<close>

section \<open>The executor\<close>

definition blockSize :: nat where "blockSize = 2 ^ 15"

record ('l, 'r) BlockNestedLoopJoin =
  bj_left :: 'l
  bj_right :: 'r
  bj_leftDesc :: "RawTupleDesc option"
  bj_joinedDesc :: "RawTupleDesc option"
  bj_joinedBuf :: bytes
  bj_current :: Tuple
  bj_err :: "string option"
  bj_leftblock :: "Tuple list"
  bj_blockidx :: nat
  bj_right_has_cur :: bool

definition NewBlockNestedLoopJoinExecutor :: "'l \<Rightarrow> 'r \<Rightarrow> ('l, 'r) BlockNestedLoopJoin" where
  "NewBlockNestedLoopJoinExecutor left right = \<lparr>bj_left = left, bj_right = right, bj_leftDesc = None, bj_joinedDesc = None,
     bj_joinedBuf = [], bj_current = EmptyTuple, bj_err = None, bj_leftblock = [], bj_blockidx = 0, bj_right_has_cur = False\<rparr>"

primrec tuplesize_loop :: "Tuple \<Rightarrow> nat list \<Rightarrow> nat \<Rightarrow> nat option" where
  "tuplesize_loop t [] sz = Some sz"
| "tuplesize_loop t (i # is) sz = do {
     v \<leftarrow> Tuple_GetValue t i;
     n \<leftarrow> Value_SizeInBytes v;
     tuplesize_loop t is (sz + n)
   }"

definition tuplesize :: "Tuple \<Rightarrow> nat option" where
  "tuplesize t = tuplesize_loop t [0..<NumColumns t] 0"

partial_function (option) load_left_loop ::
  "'l Executor \<Rightarrow> RawTupleDesc option \<Rightarrow> 'l \<Rightarrow> Tuple list \<Rightarrow> nat \<Rightarrow> (string option \<times> Tuple list \<times> 'l) option" where
  "load_left_loop EL desc c block usedSize =
     (if usedSize < blockSize then do {
        (b, c) \<leftarrow> ex_Next EL c;
        (if \<not> b then Some (None, block, c)
         else if ex_Error EL c \<noteq> None then Some (ex_Error EL c, block, c)
         else do {
           t \<leftarrow> ex_Current EL c;
           d \<leftarrow> desc;
           tuple \<leftarrow> DeepCopy t d;
           sz \<leftarrow> tuplesize tuple;
           load_left_loop EL desc c (block @ [tuple]) (usedSize + sz)
         })
      } else Some (None, block, c))"

definition loadLeftBlock :: "'l Executor \<Rightarrow> ('l, 'r) BlockNestedLoopJoin \<Rightarrow> (string option \<times> ('l, 'r) BlockNestedLoopJoin) option" where
  "loadLeftBlock EL e = do {
     (err, block, c) \<leftarrow> load_left_loop EL (bj_leftDesc e) (bj_left e) [] 0;
     Some (err, e\<lparr>bj_leftblock := block, bj_left := c\<rparr>)
   }"

definition BlockNestedLoopJoin_Init :: "'l Executor \<Rightarrow> 'r Executor \<Rightarrow> Type list \<Rightarrow> Type list \<Rightarrow>
    ('l, 'r) BlockNestedLoopJoin \<Rightarrow> (string option \<times> ('l, 'r) BlockNestedLoopJoin) option" where
  "BlockNestedLoopJoin_Init EL ER left_types right_types e = do {
     (err, l) \<leftarrow> ex_Init EL (bj_left e);
     let e = e\<lparr>bj_left := l\<rparr>;
     (if err \<noteq> None then Some (err, e)
      else do {
        (err, r) \<leftarrow> ex_Init ER (bj_right e);
        let e = e\<lparr>bj_right := r\<rparr>;
        (if err \<noteq> None then Some (err, e)
         else do {
           leftDesc \<leftarrow> NewRawTupleDesc left_types;
           joinedDesc \<leftarrow> NewRawTupleDesc (left_types @ right_types);
           loadLeftBlock EL (e\<lparr>bj_leftDesc := Some leftDesc, bj_joinedDesc := Some joinedDesc,
             bj_joinedBuf := replicate (BytesPerTuple joinedDesc) 0, bj_leftblock := [], bj_blockidx := 0, bj_right_has_cur := False\<rparr>)
         })
      })
   }"

text \<open>The inner loop over the rest of the block: the next match, the position after it and the buffer.\<close>

fun match_loop :: "Expr \<Rightarrow> RawTupleDesc option \<Rightarrow> Tuple option \<Rightarrow> Tuple list \<Rightarrow> nat \<Rightarrow> bytes \<Rightarrow> (Tuple option \<times> nat \<times> bytes) option" where
  "match_loop predicate desc righttuple [] i buf = Some (None, i, buf)"
| "match_loop predicate desc righttuple (lefttuple # rest) i buf = do {
     right \<leftarrow> righttuple;
     d \<leftarrow> desc;
     joined \<leftarrow> MergeTuples buf d lefttuple right;
     val \<leftarrow> Eval predicate joined;
     (if ExprIsTrue val then Some (Some joined, Suc i, rawTuple joined)
      else match_loop predicate desc righttuple rest (Suc i) (rawTuple joined))
   }"

text \<open>The body of the loop of \<open>Next\<close>: \<open>Some b\<close> for \<open>return b\<close>, \<open>None\<close> for another round.\<close>

definition bnlj_scan :: "Expr \<Rightarrow> 'r Executor \<Rightarrow> ('l, 'r) BlockNestedLoopJoin \<Rightarrow> (bool option \<times> ('l, 'r) BlockNestedLoopJoin) option" where
  "bnlj_scan predicate ER e = do {
     (m, i, buf) \<leftarrow> match_loop predicate (bj_joinedDesc e) (ex_Current ER (bj_right e))
       (drop (bj_blockidx e) (bj_leftblock e)) (bj_blockidx e) (bj_joinedBuf e);
     let e = e\<lparr>bj_blockidx := i, bj_joinedBuf := buf\<rparr>;
     Some (case m of
       Some joined \<Rightarrow> (Some True, e\<lparr>bj_current := joined\<rparr>)
     | None \<Rightarrow> (None, e\<lparr>bj_right_has_cur := False\<rparr>))
   }"

definition bnlj_body :: "Expr \<Rightarrow> 'l Executor \<Rightarrow> 'r Executor \<Rightarrow> ('l, 'r) BlockNestedLoopJoin \<Rightarrow> (bool option \<times> ('l, 'r) BlockNestedLoopJoin) option" where
  "bnlj_body predicate EL ER e =
     (if bj_leftblock e = [] then Some (Some False, e)
      else if bj_right_has_cur e then bnlj_scan predicate ER e
      else do {
        (b, r) \<leftarrow> ex_Next ER (bj_right e);
        let e = e\<lparr>bj_right := r\<rparr>;
        (if b then bnlj_scan predicate ER (e\<lparr>bj_right_has_cur := True, bj_blockidx := 0\<rparr>)
         else if ex_Error ER r \<noteq> None then Some (Some False, e\<lparr>bj_err := ex_Error ER r\<rparr>)
         else do {
           (err, e) \<leftarrow> loadLeftBlock EL e;
           (if err \<noteq> None then Some (Some False, e\<lparr>bj_err := err\<rparr>)
            else if bj_leftblock e = [] then Some (Some False, e)
            else do {
              (err, r) \<leftarrow> ex_Init ER (bj_right e);
              let e = e\<lparr>bj_right := r\<rparr>;
              (if err \<noteq> None then Some (Some False, e\<lparr>bj_err := err\<rparr>) else Some (None, e))
            })
         })
      })"

partial_function (option) bnlj_next :: "Expr \<Rightarrow> 'l Executor \<Rightarrow> 'r Executor \<Rightarrow> ('l, 'r) BlockNestedLoopJoin \<Rightarrow> (bool \<times> ('l, 'r) BlockNestedLoopJoin) option" where
  "bnlj_next predicate EL ER e = do {
     (res, e) \<leftarrow> bnlj_body predicate EL ER e;
     (case res of Some b \<Rightarrow> Some (b, e) | None \<Rightarrow> bnlj_next predicate EL ER e)
   }"

definition BlockNestedLoopJoin_Close :: "'l Executor \<Rightarrow> 'r Executor \<Rightarrow> ('l, 'r) BlockNestedLoopJoin \<Rightarrow> (string option \<times> ('l, 'r) BlockNestedLoopJoin) option" where
  "BlockNestedLoopJoin_Close EL ER e = do {
     (err, l) \<leftarrow> ex_Close EL (bj_left e);
     (if err \<noteq> None then Some (err, e\<lparr>bj_left := l\<rparr>)
      else do { (err, r) \<leftarrow> ex_Close ER (bj_right e); Some (err, e\<lparr>bj_left := l, bj_right := r\<rparr>) })
   }"

definition BlockNestedLoopJoinExecutor :: "Expr \<Rightarrow> Type list \<Rightarrow> Type list \<Rightarrow> 'l Executor \<Rightarrow> 'r Executor \<Rightarrow> ('l, 'r) BlockNestedLoopJoin Executor" where
  "BlockNestedLoopJoinExecutor predicate left_types right_types EL ER = \<lparr>ex_Init = BlockNestedLoopJoin_Init EL ER left_types right_types,
     ex_Next = bnlj_next predicate EL ER, ex_Current = (\<lambda>e. Some (bj_current e)), ex_Error = bj_err,
     ex_Close = BlockNestedLoopJoin_Close EL ER\<rparr>"

section \<open>Evaluation depends on the row\<close>

definition same_value :: "Value \<Rightarrow> Value \<Rightarrow> bool" where
  "same_value v w \<longleftrightarrow> sql_of v = sql_of w \<and> v_t v = v_t w \<and> v_t v \<noteq> DefaultType"

lemma same_value_reads:
  assumes "same_value v w"
  shows "v_null v = v_null w" "ExprIsTrue v = ExprIsTrue w" "ExprIsFalse v = ExprIsFalse w"
    "Value_IntValue v = Value_IntValue w" "Value_StringValue v = Value_StringValue w"
  using assms by (cases "v_t w"; auto simp: same_value_def sql_of_def ExprIsTrue_def ExprIsFalse_def Value_IntValue_def
      Value_StringValue_def Assert_def split: if_splits)+

lemma same_value_eval:
  assumes "same_value v v'" "same_value w w'"
  shows "eval_comparison c v w = eval_comparison c v' w'" "eval_logic k v w = eval_logic k v' w'" "eval_negation v = eval_negation v'"
    "eval_null_check n v = eval_null_check n v'" "eval_arith op v w = eval_arith op v' w'" "eval_concat v w = eval_concat v' w'"
    "eval_like re v (Some w) = eval_like re v' (Some w')"
proof -
  have "Value_Compare v w = Value_Compare v' w'" using assms by (intro Value_Compare_cong) (auto simp: same_value_def)
  note r = this same_value_reads [OF assms(1)] same_value_reads [OF assms(2)]
  show "eval_comparison c v w = eval_comparison c v' w'" by (simp only: eval_comparison_def r)
  show "eval_logic k v w = eval_logic k v' w'" by (cases k) (simp_all only: eval_logic.simps r)
  show "eval_negation v = eval_negation v'" by (simp only: eval_negation_def r)
  show "eval_null_check n v = eval_null_check n v'" by (cases n) (simp_all only: eval_null_check.simps r)
  show "eval_arith op v w = eval_arith op v' w'" by (simp only: eval_arith_def r)
  show "eval_concat v w = eval_concat v' w'" by (simp only: eval_concat_def r)
  show "eval_like re v (Some w) = eval_like re v' (Some w')" by (cases re) (simp_all only: eval_like_def r option.simps bind.bind_lunit)
qed

lemma same_value_refl: "v_t v \<noteq> DefaultType \<Longrightarrow> same_value v v"
  by (simp add: same_value_def)

lemma same_row_get:
  assumes "wf_tuple t" "wf_tuple u" "tuple_types t = tuple_types u" "row_of t = row_of u" "i < length (tuple_types t)"
  shows "rel_option same_value (Tuple_GetValue t i) (Tuple_GetValue u i)"
proof -
  have n: "i < NumColumns t" "i < NumColumns u" using assms by (simp_all add: NumColumns_types)
  note pt = tuple_values_props [OF assms(1)] and pu = tuple_values_props [OF assms(2)]
  have "sql_of (tuple_values t ! i) = sql_of (tuple_values u ! i)"
    using assms(4) n pt(3) pu(3) unfolding row_of_def by (metis nth_map)
  moreover have "v_t (tuple_values t ! i) = v_t (tuple_values u ! i)"
    using assms(3) n pt pu by (metis nth_map)
  moreover have "storable (tuple_values t ! i)" using pt(2,3) n(1) by (metis nth_mem)
  ultimately show ?thesis using Tuple_GetValue_eq [of t i] Tuple_GetValue_eq [of u i] assms n by (simp add: same_value_def storable_def)
qed

lemma rel_option_bind2:
  assumes "rel_option R x x'" "rel_option R y y'" "\<And>a a' b b'. R a a' \<Longrightarrow> R b b' \<Longrightarrow> f a b = f a' b'"
  shows "do { a \<leftarrow> x; b \<leftarrow> y; f a b } = do { a \<leftarrow> x'; b \<leftarrow> y'; f a b }"
  using assms by (cases x; cases x'; cases y; cases y') auto

lemma rel_option_same_refl: "(\<And>v. x = Some v \<Longrightarrow> v_t v \<noteq> DefaultType) \<Longrightarrow> rel_option same_value x x"
  by (cases x) (simp_all add: same_value_refl)

text \<open>Expressions cannot distinguish tuples of the same row.\<close>

lemma Eval_cong:
  assumes "wf_tuple t" "wf_tuple u" "tuple_types t = tuple_types u" "row_of t = row_of u"
  shows "well_typed (tuple_types t) e \<Longrightarrow> rel_option same_value (Eval e t) (Eval e u)"
proof (induction e)
  case (BoundValueExpr off ty nm)
  then show ?case using same_row_get [OF assms, of "nat off"] by simp
next
  case (ConstantValueExpr v)
  then show ?case by (simp add: same_value_refl)
next
  case (ComparisonExpression l r c)
  then have "Eval (ComparisonExpression l r c) t = Eval (ComparisonExpression l r c) u"
    using rel_option_bind2 [of same_value "Eval l t" "Eval l u" "Eval r t" "Eval r u" "eval_comparison c"] same_value_eval(1) by simp
  then show ?case using ComparisonExpression.prems Eval_typed [OF assms(1)] by (metis OutputType.simps(4) Type.distinct(1) rel_option_same_refl)
next
  case (BinaryLogicExpression l r k)
  then have "Eval (BinaryLogicExpression l r k) t = Eval (BinaryLogicExpression l r k) u"
    using rel_option_bind2 [of same_value "Eval l t" "Eval l u" "Eval r t" "Eval r u" "\<lambda>a b. Some (eval_logic k a b)"] same_value_eval(2) by simp
  then show ?case using BinaryLogicExpression.prems Eval_typed [OF assms(1)] by (metis OutputType.simps(5) Type.distinct(1) rel_option_same_refl)
next
  case (ArithmeticExpression l r op)
  then have "Eval (ArithmeticExpression l r op) t = Eval (ArithmeticExpression l r op) u"
    using rel_option_bind2 [of same_value "Eval l t" "Eval l u" "Eval r t" "Eval r u" "eval_arith op"] same_value_eval(5) by simp
  then show ?case using ArithmeticExpression.prems Eval_typed [OF assms(1)] by (metis OutputType.simps(8) Type.distinct(1) rel_option_same_refl)
next
  case (StringConcatExpression l r)
  then have "Eval (StringConcatExpression l r) t = Eval (StringConcatExpression l r) u"
    using rel_option_bind2 [of same_value "Eval l t" "Eval l u" "Eval r t" "Eval r u" "eval_concat"] same_value_eval(6) by simp
  then show ?case using StringConcatExpression.prems Eval_typed [OF assms(1)] by (metis OutputType.simps(9) Type.distinct(3) rel_option_same_refl)
next
  case (LikeExpression l r re)
  have "eval_like re a x = eval_like re b y" if sim: "same_value a b" "rel_option same_value x y" for a b x y
  proof (cases x)
    case None
    then have "y = None" using sim(2) by simp
    then show ?thesis by (simp add: None eval_like_def same_value_reads [OF sim(1)])
  next
    case (Some w)
    then obtain w' where "y = Some w'" "same_value w w'" using sim(2) by (cases y) auto
    then show ?thesis using same_value_eval(7) [OF sim(1)] Some by simp
  qed
  then have "Eval (LikeExpression l r re) t = Eval (LikeExpression l r re) u"
    using LikeExpression by (cases "Eval l t"; cases "Eval l u") simp_all
  then show ?case using LikeExpression.prems Eval_typed [OF assms(1)] by (metis OutputType.simps(10) Type.distinct(1) rel_option_same_refl)
next
  case (NegationExpression e)
  then show ?case using same_value_eval(3) by (cases "Eval e t"; cases "Eval e u") (simp_all add: same_value_refl)
next
  case (NullCheckExpression e n)
  then show ?case using same_value_eval(4) by (cases "Eval e t"; cases "Eval e u") (simp_all add: same_value_refl)
qed simp

lemma keeps_cong:
  assumes "wf_tuple t" "wf_tuple u" "tuple_types t = tuple_types u" "row_of t = row_of u" "well_typed (tuple_types t) p"
  shows "keeps p t = keeps p u" "Eval p t = None \<longleftrightarrow> Eval p u = None"
  using Eval_cong [OF assms] same_value_reads(2) by (cases "Eval p t"; cases "Eval p u"; auto simp: keeps_def)+

section \<open>Pairs of rows\<close>

text \<open>The concatenation of two rows as a tuple, and the matching pairs of two lists.\<close>

definition join_row :: "Tuple \<Rightarrow> Tuple \<Rightarrow> Tuple" where
  "join_row l r = FromValues (Some (tuple_values l @ tuple_values r))"

definition match_rows :: "Expr \<Rightarrow> Tuple \<Rightarrow> Tuple list \<Rightarrow> sqlval list list" where
  "match_rows p r ls = map (\<lambda>l. row_of l @ row_of r) (filter (\<lambda>l. keeps p (join_row l r)) ls)"

definition pair_rows :: "Expr \<Rightarrow> Tuple list \<Rightarrow> Tuple list \<Rightarrow> sqlval list list" where
  "pair_rows p ls rs = concat (map (\<lambda>r. match_rows p r ls) rs)"

lemma pair_rows_append: "mset (pair_rows p (as @ bs) rs) = mset (pair_rows p as rs) + mset (pair_rows p bs rs)"
  by (induction rs) (simp_all add: pair_rows_def match_rows_def)

lemma pair_rows_Nil [simp]: "pair_rows p [] rs = []"
  by (induction rs) (simp_all add: pair_rows_def match_rows_def)

lemma join_row_props:
  assumes "tuple_of lts l" "tuple_of rts r"
  shows "wf_tuple (join_row l r)" "tuple_types (join_row l r) = lts @ rts" "row_of (join_row l r) = row_of l @ row_of r"
proof -
  have wf: "wf_tuple l" "wf_tuple r" "tuple_types l = lts" "tuple_types r = rts" using assms by (auto simp: tuple_of_def)
  note pl = tuple_values_props [OF wf(1)] and pr = tuple_values_props [OF wf(2)]
  have "\<forall>v \<in> set (tuple_values l @ tuple_values r). storable v" using pl(2) pr(2) by auto
  note f = FromValues_props [OF this]
  show "wf_tuple (join_row l r)" using f(1) by (simp add: join_row_def)
  show "tuple_types (join_row l r) = lts @ rts" using f(3) pl(1) pr(1) wf by (simp add: join_row_def)
  show "row_of (join_row l r) = row_of l @ row_of r" using f(2) by (simp add: join_row_def row_of_def)
qed

lemma match_rows_copies:
  assumes "list_all2 (\<lambda>l c. DeepCopy l dl = Some c) ls cs" "\<forall>l \<in> set ls. tuple_of lts l" "NewRawTupleDesc lts = Some dl"
    "tuple_of rts r" "well_typed (lts @ rts) p"
  shows "match_rows p r cs = match_rows p r ls"
  using assms(1,2)
proof (induction rule: list_all2_induct)
  case (Cons l ls c cs)
  then have c: "tuple_of lts l" "tuple_of lts c" "row_of c = row_of l" using DeepCopy_copy [OF _ assms(3), of l] by auto
  have "keeps p (join_row c r) = keeps p (join_row l r)"
    using keeps_cong(1) [of "join_row c r" "join_row l r" p] join_row_props [OF c(1) assms(4)] join_row_props [OF c(2) assms(4)] c(3) assms(5) by simp
  then show ?case using Cons c(3) by (simp add: match_rows_def)
qed simp

lemma merge_match:
  assumes "tuple_of lts l" "tuple_of rts r" "NewRawTupleDesc (lts @ rts) = Some d" "length buf = d_bytesPerRow d"
    "well_typed (lts @ rts) p" "physical p"
  shows "\<exists>m v. MergeTuples buf d l r = Some m \<and> Eval p m = Some v \<and> ExprIsTrue v = keeps p (join_row l r) \<and>
    row_of m = row_of l @ row_of r \<and> length (rawTuple m) = d_bytesPerRow d"
proof -
  have tt: "wf_tuple l" "wf_tuple r" "tuple_types l = lts" "tuple_types r = rts" using assms(1,2) by (auto simp: tuple_of_def)
  obtain m where m: "MergeTuples buf d l r = Some m" "wf_tuple m" "row_of m = row_of l @ row_of r"
    using MergeTuples_spec [OF tt(1,2), of d buf] assms(3,4) tt by auto
  obtain raw where raw: "m = FromRawTuple raw d nilRecordID" using m(1) by (auto simp: MergeTuples_def bind_eq_Some_conv)
  have types: "tuple_types m = lts @ rts"
    using raw assms(3) by (simp add: FromRawTuple_def tuple_types_def phys_types_def NewRawTupleDesc_Some)
  have "length (rawTuple m) = d_bytesPerRow d" using m(2) raw by (simp add: wf_tuple_def FromRawTuple_def)
  moreover obtain v where "Eval p m = Some v" using Eval_total [OF m(2), of p] types assms(5,6) by auto
  moreover have "keeps p m = keeps p (join_row l r)"
    using keeps_cong(1) [OF m(2) join_row_props(1) [OF assms(1,2)], of p] join_row_props(2,3) [OF assms(1,2)] m(3) types assms(5) by simp
  ultimately show ?thesis using m by (auto simp: keeps_def)
qed

lemma match_loop_spec:
  assumes "\<forall>l \<in> set ls. tuple_of lts l" "tuple_of rts r" "NewRawTupleDesc (lts @ rts) = Some d" "length buf = d_bytesPerRow d"
    "well_typed (lts @ rts) p" "physical p"
  shows "(\<exists>i' buf'. match_loop p (Some d) (Some r) ls i buf = Some (None, i', buf') \<and> length buf' = d_bytesPerRow d \<and> match_rows p r ls = []) \<or>
    (\<exists>as l bs m. ls = as @ l # bs \<and> match_loop p (Some d) (Some r) ls i buf = Some (Some m, i + length as + 1, rawTuple m) \<and>
      length (rawTuple m) = d_bytesPerRow d \<and> match_rows p r ls = row_of m # match_rows p r bs)"
  using assms(1,4)
proof (induction ls arbitrary: i buf)
  case (Cons l ls)
  obtain m v where m: "MergeTuples buf d l r = Some m" "Eval p m = Some v" "ExprIsTrue v = keeps p (join_row l r)"
    "row_of m = row_of l @ row_of r" "length (rawTuple m) = d_bytesPerRow d"
    using merge_match [OF _ assms(2,3) Cons.prems(2) assms(5,6), of l] Cons.prems(1) by auto
  show ?case
  proof (cases "ExprIsTrue v")
    case True
    then show ?thesis using m by (intro disjI2 exI [of _ "[]"] exI [of _ l] exI [of _ ls] exI [of _ m]) (simp add: match_rows_def)
  next
    case False
    then have "match_loop p (Some d) (Some r) (l # ls) i buf = match_loop p (Some d) (Some r) ls (Suc i) (rawTuple m)"
      "match_rows p r (l # ls) = match_rows p r ls" using m by (simp_all add: match_rows_def)
    note step = this
    have "\<forall>l \<in> set ls. tuple_of lts l" using Cons.prems(1) by simp
    from Cons.IH [OF this m(5), of "Suc i"] show ?thesis
    proof (elim disjE exE conjE)
      fix as l' bs m'
      assume "ls = as @ l' # bs" "match_loop p (Some d) (Some r) ls (Suc i) (rawTuple m) = Some (Some m', Suc i + length as + 1, rawTuple m')"
        "length (rawTuple m') = d_bytesPerRow d" "match_rows p r ls = row_of m' # match_rows p r bs"
      then show ?thesis unfolding step by (intro disjI2 exI [of _ "l # as"] exI [of _ l'] exI [of _ bs] exI [of _ m']) simp
    qed (use step in auto)
  qed
qed (simp add: match_rows_def)

section \<open>Loading blocks\<close>

lemma tuplesize_total:
  assumes "wf_tuple t"
  shows "\<exists>n. tuplesize t = Some n"
proof -
  have "\<exists>n. tuplesize_loop t is sz = Some n" if "set is \<subseteq> {..<NumColumns t}" for "is" sz
    using that
  proof (induction "is" arbitrary: sz)
    case (Cons i "is")
    then have i: "i < NumColumns t" by simp
    have "storable (tuple_values t ! i)" using tuple_values_props(2,3) [OF assms] i by (metis nth_mem)
    then obtain n where "Value_SizeInBytes (tuple_values t ! i) = Some n" by (auto simp: Value_SizeInBytes_def dest: storable_length)
    then show ?case using Cons Tuple_GetValue_eq [OF assms i] by simp
  qed simp
  then show ?thesis by (simp add: tuplesize_def atLeast0LessThan)
qed

text \<open>An executor that stays exhausted, and whose error is clear while it yields tuples.\<close>

locale orderly =
  fixes E :: "'s Executor"
  assumes quiet: "ex_Next E s = Some (False, s') \<Longrightarrow> \<exists>s''. ex_Next E s' = Some (False, s'')"
    and calm: "ex_Next E s = Some (True, s') \<Longrightarrow> ex_Error E s' = None"
begin

lemma load_left_copies:
  assumes "produces E c ls err" "\<forall>l \<in> set ls. tuple_of lts l" "NewRawTupleDesc lts = Some dl"
  shows "\<exists>cs c' ls1 ls2 err'. load_left_loop E (Some dl) c blk used = Some (None, blk @ cs, c') \<and> ls = ls1 @ ls2 \<and>
    list_all2 (\<lambda>l c. DeepCopy l dl = Some c) ls1 cs \<and> produces E c' ls2 err' \<and> (used < blockSize \<and> ls \<noteq> [] \<longrightarrow> ls1 \<noteq> [])"
  using assms(1,2)
proof (induction arbitrary: blk used rule: produces.induct)
  case (exhausted s s' err)
  show ?case
  proof (cases "used < blockSize")
    case True
    obtain s'' where "ex_Next E s' = Some (False, s'')" using quiet [OF exhausted(1)] by blast
    then have "produces E s' [] (ex_Error E s'')" by (auto intro: produces.exhausted)
    then show ?thesis using True exhausted(1) by (auto simp: load_left_loop.simps [of E "Some dl" s])
  next
    case False
    then show ?thesis using produces.exhausted [OF exhausted(1,2)] by (auto simp: load_left_loop.simps [of E "Some dl" s])
  qed
next
  case (yield_tuple s s' t ls err)
  show ?case
  proof (cases "used < blockSize")
    case True
    obtain k where k: "DeepCopy t dl = Some k" "tuple_of lts k" using DeepCopy_copy [OF _ assms(3), of t] yield_tuple.prems by auto
    obtain sz where sz: "tuplesize k = Some sz" using tuplesize_total k(2) by (auto simp: tuple_of_def)
    obtain cs c' ls1 ls2 err' where "load_left_loop E (Some dl) s' (blk @ [k]) (used + sz) = Some (None, (blk @ [k]) @ cs, c')" "ls = ls1 @ ls2"
      "list_all2 (\<lambda>l c. DeepCopy l dl = Some c) ls1 cs" "produces E c' ls2 err'"
    proof -
      have "\<forall>l \<in> set ls. tuple_of lts l" using yield_tuple.prems by simp
      from yield_tuple.IH [OF this, of "blk @ [k]" "used + sz"] show thesis using that by blast
    qed
    moreover from this have "load_left_loop E (Some dl) s blk used = Some (None, blk @ (k # cs), c')"
      using True yield_tuple.hyps(1,2) calm [OF yield_tuple.hyps(1)] k(1) sz by (simp add: load_left_loop.simps [of E "Some dl" s])
    ultimately show ?thesis using k(1)
      by (intro exI [of _ "k # cs"] exI [of _ c'] exI [of _ "t # ls1"] exI [of _ ls2] exI [of _ err']) simp
  next
    case False
    then show ?thesis using produces.yield_tuple [OF yield_tuple.hyps] by (auto simp: load_left_loop.simps [of E "Some dl" s])
  qed
qed

end

text \<open>An executor that \<open>Init\<close> restarts: from every state of \<open>I\<close> it produces the same tuples.\<close>

locale rewindable =
  fixes E :: "'s Executor" and I :: "'s \<Rightarrow> bool" and rows :: "Tuple list"
  assumes rewind: "I s \<Longrightarrow> runs E s rows None"
    and stays_init: "I s \<Longrightarrow> ex_Init E s = Some (err, s') \<Longrightarrow> I s'"
    and stays_next: "I s \<Longrightarrow> ex_Next E s = Some (b, s') \<Longrightarrow> I s'"

interpretation values_orderly: orderly "ValuesExecutor plan" for plan
  by unfold_locales (auto simp: ValuesExecutor_def Values_Next_def bind_eq_Some_conv split: if_splits)

interpretation values_rewindable: rewindable "ValuesExecutor plan" "\<lambda>_. wf_values plan" "values_rows plan" for plan
  by unfold_locales (simp_all add: Values_runs)

lemma Sort_load_shape: "Sort_load obs E e = Some e' \<Longrightarrow> se_err e' \<noteq> None \<or> se_loaded e' \<and> se_err e' = se_err e"
  by (auto simp: Sort_load_def bind_eq_Some_conv split: option.splits)

lemma Sort_Next_shape:
  assumes "Sort_Next obs E e = Some (b, e')"
  shows "if b then se_err e' = None else se_err e' \<noteq> None \<or> se_loaded e' \<and> int (length (se_buffer e')) \<le> se_pos e' + 1"
proof (cases "se_err e = None")
  case True
  then obtain l where "(if se_loaded e then Some e else Sort_load obs E e) = Some l"
    "Some (b, e') = (if se_err l \<noteq> None then Some (False, l) else if se_pos l + 1 \<ge> int (length (se_buffer l)) then Some (False, l)
       else Some (True, l\<lparr>se_pos := se_pos l + 1\<rparr>))"
    using assms by (auto simp: Sort_Next_def bind_eq_Some_conv)
  then show ?thesis using True Sort_load_shape [of obs E e l] by (auto split: if_splits)
qed (use assms in \<open>auto simp: Sort_Next_def\<close>)

interpretation sort_orderly: orderly "SortExecutor obs sch E" for obs sch E
proof
  show "\<exists>s''. ex_Next (SortExecutor obs sch E) s' = Some (False, s'')" if "ex_Next (SortExecutor obs sch E) s = Some (False, s')" for s s'
    using that Sort_Next_shape [of obs E s False s'] by (auto simp: SortExecutor_def Sort_Next_def [of obs E s'])
  show "ex_Error (SortExecutor obs sch E) s' = None" if "ex_Next (SortExecutor obs sch E) s = Some (True, s')" for s s'
    using that Sort_Next_shape [of obs E s True s'] by (simp add: SortExecutor_def)
qed

section \<open>The run of the join\<close>

text \<open>The run from a state yields tuples with the given multiset of rows and ends without an error.\<close>

definition yields :: "'s Executor \<Rightarrow> 's \<Rightarrow> sqlval list multiset \<Rightarrow> bool" where
  "yields X e M \<longleftrightarrow> (\<exists>out. produces X e out None \<and> mset (map row_of out) = M)"

lemma yields_cong: "yields X e M \<Longrightarrow> ex_Next X e' = ex_Next X e \<Longrightarrow> yields X e' M"
  unfolding yields_def by (blast intro: produces_next_cong)

lemma yields_step:
  assumes "ex_Next X e = Some (True, e')" "ex_Current X e' = Some t" "yields X e' M"
  shows "yields X e (add_mset (row_of t) M)"
proof -
  obtain out where "produces X e' out None" "mset (map row_of out) = M" using assms(3) unfolding yields_def by blast
  then show ?thesis unfolding yields_def using produces.yield_tuple [OF assms(1,2)] by (intro exI [of _ "t # out"]) auto
qed

locale join_inputs = orderly EL + rewindable ER I rs
  for EL :: "'l Executor" and ER :: "'r Executor" and I :: "'r \<Rightarrow> bool" and rs :: "Tuple list" +
  fixes lts rts :: "Type list" and dl d :: RawTupleDesc and p :: Expr
begin

abbreviation X :: "('l, 'r) BlockNestedLoopJoin Executor" where
  "X \<equiv> BlockNestedLoopJoinExecutor p lts rts EL ER"

definition typed :: bool where
  "typed \<longleftrightarrow> NewRawTupleDesc lts = Some dl \<and> NewRawTupleDesc (lts @ rts) = Some d \<and> well_typed (lts @ rts) p \<and> physical p \<and>
     (\<forall>r \<in> set rs. tuple_of rts r)"

definition ready :: "('l, 'r) BlockNestedLoopJoin \<Rightarrow> bool" where
  "ready e \<longleftrightarrow> bj_joinedDesc e = Some d \<and> bj_leftDesc e = Some dl \<and> length (bj_joinedBuf e) = d_bytesPerRow d \<and> bj_err e = None \<and>
     bj_leftblock e \<noteq> [] \<and> (\<forall>l \<in> set (bj_leftblock e). tuple_of lts l)"

definition same_left :: "('l, 'r) BlockNestedLoopJoin \<Rightarrow> ('l, 'r) BlockNestedLoopJoin \<Rightarrow> bool" where
  "same_left e e' \<longleftrightarrow> bj_left e' = bj_left e \<and> bj_leftblock e' = bj_leftblock e"

lemma next_eq: "ex_Next X e = bnlj_next p EL ER e" "ex_Current X e = Some (bj_current e)" "ex_Error X e = bj_err e"
  by (simp_all add: BlockNestedLoopJoinExecutor_def)

lemma next_continue: "bnlj_body p EL ER e = Some (None, e') \<Longrightarrow> bnlj_next p EL ER e = bnlj_next p EL ER e'"
  by (simp add: bnlj_next.simps [of p EL ER e])

lemma next_return: "bnlj_body p EL ER e = Some (Some b, e') \<Longrightarrow> bnlj_next p EL ER e = Some (b, e')"
  by (simp add: bnlj_next.simps [of p EL ER e])

lemma scan_yields:
  assumes "typed" "ready e" "bj_right_has_cur e" "ex_Current ER (bj_right e) = Some r" "tuple_of rts r"
    and rest: "\<And>e'. ready e' \<Longrightarrow> \<not> bj_right_has_cur e' \<Longrightarrow> same_left e e' \<Longrightarrow> bj_right e' = bj_right e \<Longrightarrow> yields X e' M"
  shows "yields X e (mset (match_rows p r (drop (bj_blockidx e) (bj_leftblock e))) + M)"
  using assms(2-6)
proof (induction "length (bj_leftblock e) - bj_blockidx e" arbitrary: e rule: less_induct)
  case less
  let ?B = "drop (bj_blockidx e) (bj_leftblock e)"
  have "\<forall>l \<in> set ?B. tuple_of lts l" using less.prems(1) by (auto simp: ready_def dest: in_set_dropD)
  then consider i' buf' where "match_loop p (Some d) (Some r) ?B (bj_blockidx e) (bj_joinedBuf e) = Some (None, i', buf')"
      "length buf' = d_bytesPerRow d" "match_rows p r ?B = []"
    | as l bs m where "?B = as @ l # bs" "match_loop p (Some d) (Some r) ?B (bj_blockidx e) (bj_joinedBuf e) =
        Some (Some m, bj_blockidx e + length as + 1, rawTuple m)" "length (rawTuple m) = d_bytesPerRow d"
        "match_rows p r ?B = row_of m # match_rows p r bs"
    using match_loop_spec [of ?B lts rts r d "bj_joinedBuf e" p "bj_blockidx e"] less.prems(1,4) assms(1)
    unfolding typed_def ready_def by blast
  then show ?case
  proof cases
    case 1
    let ?e = "e\<lparr>bj_blockidx := i', bj_joinedBuf := buf', bj_right_has_cur := False\<rparr>"
    have "bnlj_body p EL ER e = Some (None, ?e)"
      using 1(1) less.prems by (simp add: bnlj_body_def bnlj_scan_def ready_def)
    moreover have "yields X ?e M" using less.prems(1) 1(2) by (intro less.prems(5)) (simp_all add: ready_def same_left_def)
    ultimately show ?thesis using 1(3) yields_cong [of X ?e M e] next_continue by (simp add: next_eq)
  next
    case 2
    let ?e = "e\<lparr>bj_blockidx := bj_blockidx e + length as + 1, bj_joinedBuf := rawTuple m, bj_current := m\<rparr>"
    have "bnlj_body p EL ER e = Some (Some True, ?e)"
      using 2(2) less.prems by (simp add: bnlj_body_def bnlj_scan_def ready_def)
    then have n: "ex_Next X e = Some (True, ?e)" using next_return by (simp add: next_eq)
    have "length ?B = length as + 1 + length bs" using 2(1) by simp
    then have small: "length (bj_leftblock ?e) - bj_blockidx ?e < length (bj_leftblock e) - bj_blockidx e" by simp
    have "drop (length as + 1) ?B = bs" using 2(1) by simp
    then have bs: "drop (bj_blockidx ?e) (bj_leftblock ?e) = bs" by (simp add: add.commute)
    have "yields X ?e (mset (match_rows p r (drop (bj_blockidx ?e) (bj_leftblock ?e))) + M)"
      using less.prems 2(3) by (intro less.hyps [OF small]) (auto simp: ready_def same_left_def)
    then show ?thesis using yields_step [OF n] 2(4) unfolding bs by (simp add: next_eq)
  qed
qed

lemma right_yields:
  assumes "produces ER s rest None" "typed" "\<forall>r \<in> set rest. tuple_of rts r" "I s" "ready e" "\<not> bj_right_has_cur e" "bj_right e = s"
    and last: "\<And>e' s'. ready e' \<Longrightarrow> \<not> bj_right_has_cur e' \<Longrightarrow> same_left e e' \<Longrightarrow> I (bj_right e') \<Longrightarrow>
      ex_Next ER (bj_right e') = Some (False, s') \<Longrightarrow> ex_Error ER s' = None \<Longrightarrow> yields X e' M"
  shows "yields X e (mset (pair_rows p (bj_leftblock e) rest) + M)"
  using assms(1,3-7) last
proof (induction s rest "None :: string option" arbitrary: e rule: produces.induct)
  case (exhausted s s')
  then show ?case by (simp add: pair_rows_def same_left_def)
next
  case (yield_tuple s s' r rest)
  let ?e = "e\<lparr>bj_right := s', bj_right_has_cur := True, bj_blockidx := 0\<rparr>"
  have "bnlj_body p EL ER e = bnlj_body p EL ER ?e"
    using yield_tuple.hyps(1) yield_tuple.prems(3-5) by (simp add: bnlj_body_def ready_def)
  then have n: "ex_Next X e = ex_Next X ?e" by (simp add: next_eq bnlj_next.simps [of p EL ER e] bnlj_next.simps [of p EL ER ?e])
  have "yields X ?e (mset (match_rows p r (drop (bj_blockidx ?e) (bj_leftblock ?e))) + (mset (pair_rows p (bj_leftblock e) rest) + M))"
  proof (rule scan_yields [OF assms(2)])
    show "ready ?e" using yield_tuple.prems(3) by (simp add: ready_def)
    show "bj_right_has_cur ?e" by simp
    show "ex_Current ER (bj_right ?e) = Some r" using yield_tuple.hyps(2) by simp
    show "tuple_of rts r" using yield_tuple.prems(1) by simp
    fix e' :: "('l, 'r) BlockNestedLoopJoin"
    assume e': "ready e'" "\<not> bj_right_has_cur e'" "same_left ?e e'" "bj_right e' = bj_right ?e"
    then have b: "bj_leftblock e' = bj_leftblock e" "bj_right e' = s'" "same_left e e'" by (simp_all add: same_left_def)
    have "yields X e' (mset (pair_rows p (bj_leftblock e') rest) + M)"
      using yield_tuple.hyps(4) [of e'] yield_tuple.prems stays_next [OF yield_tuple.prems(2) yield_tuple.hyps(1)] e' b
      by (auto simp: same_left_def)
    then show "yields X e' (mset (pair_rows p (bj_leftblock e) rest) + M)" using b by simp
  qed
  then show ?case using yields_cong [OF _ n] by (simp add: pair_rows_def add.assoc)
qed

lemma copies_tuples:
  assumes "typed" "list_all2 (\<lambda>l c. DeepCopy l dl = Some c) ls cs" "\<forall>l \<in> set ls. tuple_of lts l"
  shows "\<forall>c \<in> set cs. tuple_of lts c" "pair_rows p cs rs = pair_rows p ls rs"
proof -
  have dl: "NewRawTupleDesc lts = Some dl" "well_typed (lts @ rts) p" "\<forall>r \<in> set rs. tuple_of rts r" using assms(1) by (auto simp: typed_def)
  show "\<forall>c \<in> set cs. tuple_of lts c" using copies_rows [OF assms(2,3) dl(1)] by blast
  have "match_rows p r cs = match_rows p r ls" if "r \<in> set rs" for r
    using match_rows_copies [OF assms(2,3) dl(1) _ dl(2)] dl(3) that by blast
  then show "pair_rows p cs rs = pair_rows p ls rs" by (simp add: pair_rows_def cong: map_cong)
qed

lemma blocks_yield:
  assumes "typed" "ready e" "\<not> bj_right_has_cur e" "I (bj_right e)" "produces ER (bj_right e) rs None"
    "produces EL (bj_left e) ls err" "\<forall>l \<in> set ls. tuple_of lts l"
  shows "yields X e (mset (pair_rows p (bj_leftblock e) rs) + mset (pair_rows p ls rs))"
  using assms(2-7)
proof (induction "length ls" arbitrary: e ls err rule: less_induct)
  case less
  have typed': "\<forall>r \<in> set rs. tuple_of rts r" "NewRawTupleDesc lts = Some dl" using assms(1) by (auto simp: typed_def)
  show ?case
  proof (rule right_yields [OF less.prems(4) assms(1) typed'(1) less.prems(3,1,2) refl])
    fix e' s'
    assume e': "ready e'" "\<not> bj_right_has_cur e'" "same_left e e'" "I (bj_right e')"
      "ex_Next ER (bj_right e') = Some (False, s')" "ex_Error ER s' = None"
    have left: "produces EL (bj_left e') ls err" using e'(3) less.prems(5) by (simp add: same_left_def)
    obtain cs c' ls1 ls2 err' where load: "load_left_loop EL (Some dl) (bj_left e') [] 0 = Some (None, [] @ cs, c')" "ls = ls1 @ ls2"
      "list_all2 (\<lambda>l c. DeepCopy l dl = Some c) ls1 cs" "produces EL c' ls2 err'" "ls \<noteq> [] \<longrightarrow> ls1 \<noteq> []"
    proof -
      have "(0 :: nat) < blockSize" by (simp add: blockSize_def)
      then show thesis using load_left_copies [OF left less.prems(6) typed'(2), of "[]" 0] that by blast
    qed
    have nonempty: "bj_leftblock e' \<noteq> []" using e'(1) by (simp add: ready_def)
    let ?e = "e'\<lparr>bj_right := s', bj_leftblock := cs, bj_left := c'\<rparr>"
    have block: "loadLeftBlock EL (e'\<lparr>bj_right := s'\<rparr>) = Some (None, ?e)"
      using load(1) e'(1) by (simp add: loadLeftBlock_def ready_def)
    show "yields X e' (mset (pair_rows p ls rs))"
    proof (cases "ls = []")
      case True
      then have "cs = []" using load(2,3) by simp
      then have "bnlj_body p EL ER e' = Some (Some False, ?e)"
        using nonempty by (simp add: bnlj_body_def e'(2,5,6) block)
      then have "produces X e' [] None" using next_return e'(1) by (intro produces.exhausted [of _ _ ?e]) (simp_all add: next_eq ready_def)
      then show ?thesis unfolding yields_def using True by (intro exI [of _ "[]"]) simp
    next
      case False
      then have "ls1 \<noteq> []" using load(5) by blast
      moreover have "length ls1 = length cs" using load(3) by (rule list_all2_lengthD)
      ultimately have cs: "cs \<noteq> []" "length ls2 < length ls" unfolding load(2) by auto
      have "I s'" using stays_next [OF e'(4,5)] .
      then obtain s'' where init: "ex_Init ER s' = Some (None, s'')" "produces ER s'' rs None" using rewind unfolding runs_def by blast
      then have "I s''" using stays_init [OF \<open>I s'\<close>] by blast
      let ?f = "?e\<lparr>bj_right := s''\<rparr>"
      have "bnlj_body p EL ER e' = Some (None, ?f)"
        using nonempty cs(1) by (simp add: bnlj_body_def e'(2,5,6) block init(1))
      then have n: "ex_Next X e' = ex_Next X ?f" using next_continue by (simp add: next_eq)
      have tup: "\<forall>l \<in> set ls1. tuple_of lts l" "\<forall>l \<in> set ls2. tuple_of lts l" using less.prems(6) load(2) by auto
      note copies = copies_tuples [OF assms(1) load(3) tup(1)]
      have "yields X ?f (mset (pair_rows p (bj_leftblock ?f) rs) + mset (pair_rows p ls2 rs))"
        using e'(1,2) cs(1) copies(1) \<open>I s''\<close> init(2) load(4) tup(2) by (intro less.hyps [OF cs(2), of _ err']) (simp_all add: ready_def)
      then show ?thesis using yields_cong [OF _ n] copies(2) by (simp add: load(2) pair_rows_append)
    qed
  qed
qed

lemma join_yields:
  assumes "typed" "runs EL (bj_left e) ls err" "\<forall>l \<in> set ls. tuple_of lts l" "I (bj_right e)" "bj_err e = None"
  shows "\<exists>out. runs X e out None \<and> mset (map row_of out) = mset (pair_rows p ls rs)"
proof -
  have t: "NewRawTupleDesc lts = Some dl" "NewRawTupleDesc (lts @ rts) = Some d" using assms(1) by (auto simp: typed_def)
  obtain l where l: "ex_Init EL (bj_left e) = Some (None, l)" "produces EL l ls err" using assms(2) unfolding runs_def by blast
  obtain r where r: "ex_Init ER (bj_right e) = Some (None, r)" "produces ER r rs None" using rewind [OF assms(4)] unfolding runs_def by blast
  have "I r" using stays_init [OF assms(4) r(1)] .
  have "(0 :: nat) < blockSize" by (simp add: blockSize_def)
  then obtain cs c' ls1 ls2 err' where load: "load_left_loop EL (Some dl) l [] 0 = Some (None, [] @ cs, c')" "ls = ls1 @ ls2"
    "list_all2 (\<lambda>l c. DeepCopy l dl = Some c) ls1 cs" "produces EL c' ls2 err'" "ls \<noteq> [] \<longrightarrow> ls1 \<noteq> []"
    using load_left_copies [OF l(2) assms(3) t(1), of "[]" 0] by blast
  let ?e = "e\<lparr>bj_left := c', bj_right := r, bj_leftDesc := Some dl, bj_joinedDesc := Some d,
    bj_joinedBuf := replicate (BytesPerTuple d) 0, bj_leftblock := cs, bj_blockidx := 0, bj_right_has_cur := False\<rparr>"
  have init: "ex_Init X e = Some (None, ?e)"
    using l(1) r(1) t load(1) by (simp add: BlockNestedLoopJoinExecutor_def BlockNestedLoopJoin_Init_def loadLeftBlock_def)
  have tup: "\<forall>l \<in> set ls1. tuple_of lts l" "\<forall>l \<in> set ls2. tuple_of lts l" using assms(3) load(2) by auto
  note copies = copies_tuples [OF assms(1) load(3) tup(1)]
  have "yields X ?e (mset (pair_rows p ls rs))"
  proof (cases "cs = []")
    case True
    then have "ls = []" using load(3,5) by auto
    moreover have "ex_Next X ?e = Some (False, ?e)" using True by (simp add: next_eq next_return bnlj_body_def)
    ultimately show ?thesis
      unfolding yields_def using assms(5) by (intro exI [of _ "[]"]) (auto simp: next_eq intro: produces.exhausted)
  next
    case False
    have "yields X ?e (mset (pair_rows p (bj_leftblock ?e) rs) + mset (pair_rows p ls2 rs))"
      by (rule blocks_yield [OF assms(1)])
        (use False copies(1) assms(5) \<open>I r\<close> r(2) load(4) tup(2) in \<open>simp_all add: ready_def BytesPerTuple_def\<close>)
    then show ?thesis using copies(2) by (simp add: load(2) pair_rows_append)
  qed
  then show ?thesis using init unfolding yields_def runs_def by blast
qed

end

interpretation values_join: join_inputs "ValuesExecutor lp" "ValuesExecutor rp" "\<lambda>_. wf_values rp" "values_rows rp" lts rts dl d p
  for lp rp lts rts dl d p
  by unfold_locales

section \<open>Properties\<close>

text \<open>C23: The block nested loop join computes the join. For a left child that is orderly and produces the
  tuples \<open>ls\<close>, a right child that can be restarted and produces \<open>rs\<close>, and a well-typed predicate, a run ends and
  yields exactly the concatenations of the pairs on which the predicate is true, each as often as it occurs,
  however the left input is cut into blocks. It reports no error, even if the left child has failed.\<close>

theorem BlockNestedLoopJoin_correct:
  assumes "join_inputs EL ER I rs" "runs EL l ls err" "I r"
    "\<forall>t \<in> set ls. tuple_of lts t" "\<forall>t \<in> set rs. tuple_of rts t" "NewRawTupleDesc (lts @ rts) = Some d" "NewRawTupleDesc lts = Some dl"
    "well_typed (lts @ rts) p" "physical p"
  shows "\<exists>out. runs (BlockNestedLoopJoinExecutor p lts rts EL ER) (NewBlockNestedLoopJoinExecutor l r) out None \<and>
    mset (map row_of out) = mset (concat (map (\<lambda>r. map (\<lambda>l. row_of l @ row_of r) (filter (\<lambda>l. keeps p (join_row l r)) ls)) rs))"
  using join_inputs.join_yields [OF assms(1), where lts = lts and rts = rts and dl = dl and d = d and p = p and
      e = "NewBlockNestedLoopJoinExecutor l r" and ls = ls and err = err] assms(2-9)
  by (simp add: join_inputs.typed_def [OF assms(1)] NewBlockNestedLoopJoinExecutor_def pair_rows_def match_rows_def)

definition demo_join :: Expr where
  "demo_join = ComparisonExpression demo_column (BoundValueExpr 1 IntType ''b'') LessThan"

theorem BlockNestedLoopJoin_correct_witness:
  "\<exists>out. runs (BlockNestedLoopJoinExecutor demo_join [IntType] [IntType] (ValuesExecutor demo_plan) (ValuesExecutor demo_plan))
      (NewBlockNestedLoopJoinExecutor NewValuesExecutor NewValuesExecutor) out None \<and>
    mset (map row_of out) = mset (concat (map (\<lambda>r. map (\<lambda>l. row_of l @ row_of r)
      (filter (\<lambda>l. keeps demo_join (join_row l r)) (values_rows demo_plan))) (values_rows demo_plan)))"
proof -
  have j: "join_inputs (ValuesExecutor demo_plan) (ValuesExecutor demo_plan) (\<lambda>_. wf_values demo_plan) (values_rows demo_plan)"
    by unfold_locales
  have d: "NewRawTupleDesc [IntType] = Some \<lparr>d_fields = [IntType], d_offsets = [0], d_bytesPerRow = 8\<rparr>"
    "NewRawTupleDesc ([IntType] @ [IntType]) = Some \<lparr>d_fields = [IntType, IntType], d_offsets = [0, 8], d_bytesPerRow = 16\<rparr>"
    by (simp_all add: NewRawTupleDesc_def AlignedTo8_def)
  have p: "well_typed ([IntType] @ [IntType]) demo_join" "physical demo_join" by (simp_all add: demo_join_def demo_column_def)
  have t: "\<forall>t \<in> set (values_rows demo_plan). tuple_of [IntType] t" using demo_tuple by blast
  show ?thesis
    by (rule BlockNestedLoopJoin_correct [OF j Values_runs [OF demo_rows(1)] demo_rows(1) t t d(2,1) p])
qed

end
