(* ===== verification/Execution_Query.thy ===== *)
theory Execution_Query
  imports Execution_Tree Execution_Join
begin

text \<open>
  Running the executor tree of a query over one table: executors as objects, what an operator of the tree makes of the rows
  of its child, and the theorem that the tree of a plan yields the rows of the plan.

  An interface value of Go is an object: a value of the codatatype \<open>ExecObject\<close> holds the results of its methods, each with the object
  after the call. The tree is turned into objects from the leaves to the root. Trees with one scan are covered: the scan
  owns the buffer pool and the files.
\<close>

section \<open>Executors as objects\<close>

codatatype ExecObject = ExecObject
  (ob_Init: "(string option \<times> ExecObject) option")
  (ob_Next: "(bool \<times> ExecObject) option")
  (ob_Current: "Tuple option")
  (ob_Error: "string option")
  (ob_Close: "(string option \<times> ExecObject) option")

primcorec boxed :: "'s Executor \<Rightarrow> 's \<Rightarrow> ExecObject" where
  "ob_Init (boxed E s) = map_option (map_prod id (boxed E)) (ex_Init E s)"
| "ob_Next (boxed E s) = map_option (map_prod id (boxed E)) (ex_Next E s)"
| "ob_Current (boxed E s) = ex_Current E s"
| "ob_Error (boxed E s) = ex_Error E s"
| "ob_Close (boxed E s) = map_option (map_prod id (boxed E)) (ex_Close E s)"

text \<open>Calls through the interface.\<close>

definition dispatch :: "ExecObject Executor" where
  "dispatch = \<lparr>ex_Init = ob_Init, ex_Next = ob_Next, ex_Current = ob_Current, ex_Error = ob_Error, ex_Close = ob_Close\<rparr>"

lemma dispatch_sel [simp]: "ex_Init dispatch = ob_Init" "ex_Next dispatch = ob_Next" "ex_Current dispatch = ob_Current"
  "ex_Error dispatch = ob_Error" "ex_Close dispatch = ob_Close"
  by (simp_all add: dispatch_def)

lemma boxed_produces: "produces E s ts err \<Longrightarrow> produces dispatch (boxed E s) ts err"
proof (induction rule: produces.induct)
  case (exhausted s s' err)
  then show ?case by (intro produces.exhausted [where s' = "boxed E s'"]) simp_all
next
  case (yield_tuple s s' t ts err)
  then show ?case by (intro produces.yield_tuple [where s' = "boxed E s'"]) simp_all
qed

lemma boxed_runs: "runs E s ts err \<Longrightarrow> runs dispatch (boxed E s) ts err"
  using boxed_produces unfolding runs_def by fastforce

section \<open>Tuples with the same row\<close>

text \<open>Two tuples of the same types with the same row.\<close>

definition alike :: "Type list \<Rightarrow> Tuple \<Rightarrow> Tuple \<Rightarrow> bool" where
  "alike ts t u \<longleftrightarrow> tuple_of ts t \<and> tuple_of ts u \<and> row_of t = row_of u"

lemma Eval_alike:
  assumes "alike ts t u" "well_typed ts e" "physical e"
  shows "\<exists>v w. Eval e t = Some v \<and> Eval e u = Some w \<and> same_value v w \<and> v_t v = OutputType e"
proof -
  have t: "wf_tuple t" "wf_tuple u" "tuple_types t = ts" "tuple_types t = tuple_types u" "row_of t = row_of u"
    using assms(1) by (auto simp: alike_def tuple_of_def)
  obtain v where v: "Eval e t = Some v" using Eval_total [OF t(1)] assms(2,3) t(3) by auto
  moreover have "rel_option same_value (Eval e t) (Eval e u)" using Eval_cong [OF t(1,2,4,5)] assms(2) t(3) by simp
  ultimately show ?thesis using Eval_typed [OF t(1) _ v] assms(2) t(3) by (cases "Eval e u") auto
qed

lemma same_value_compare: "same_value v v' \<Longrightarrow> same_value w w' \<Longrightarrow> Value_Compare v w = Value_Compare v' w'"
  by (rule Value_Compare_cong) (auto simp: same_value_def)

section \<open>What the operators of a tree yield\<close>

text \<open>An executor answers a list of rows: its \<open>Init\<close> reports an error, or it runs to its end and the tuples it yields are the first rows,
  and all of them if it ends without an error. The relation says how a tuple stands for a row: \<open>stands_for\<close> is what the
  operators above need, \<open>displays\<close> what the client sees.\<close>

definition stands_for :: "Type list \<Rightarrow> Tuple \<Rightarrow> lrow \<Rightarrow> bool" where
  "stands_for ts t r \<longleftrightarrow> alike ts t (row_tuple r)"

definition displays :: "Tuple \<Rightarrow> lrow \<Rightarrow> bool" where
  "displays t r \<longleftrightarrow> row_of t = map sql_of r"

definition answers :: "(Tuple \<Rightarrow> lrow \<Rightarrow> bool) \<Rightarrow> ExecObject \<Rightarrow> lrow list \<Rightarrow> bool" where
  "answers R X rows \<longleftrightarrow> (\<exists>err X'. ob_Init X = Some (Some err, X')) \<or>
     (\<exists>ts err rs. runs dispatch X ts err \<and> prefix rs rows \<and> (err = None \<longrightarrow> rs = rows) \<and> list_all2 R ts rs)"

lemma row_of_row_tuple: "row_of (row_tuple r) = map sql_of r"
  by (simp add: row_of_def tuple_values_def phys_types_def FromValues_def)

lemma stands_for_displays: "stands_for ts t r \<Longrightarrow> displays t r"
  by (simp add: stands_for_def displays_def alike_def row_of_row_tuple)

lemma stands_for_tuple: "stands_for ts t r \<Longrightarrow> tuple_of ts t"
  by (simp add: stands_for_def alike_def)

lemma answers_mono: "answers R X rows \<Longrightarrow> (\<And>t r. R t r \<Longrightarrow> R' t r) \<Longrightarrow> answers R' X rows"
  using list_all2_mono [of R _ _ R'] unfolding answers_def by blast

lemma answersE:
  assumes "answers R X rows"
  obtains (fails) err X' where "ob_Init X = Some (Some err, X')"
    | (yields) us err rs where "runs dispatch X us err" "prefix rs rows" "err = None \<longrightarrow> rs = rows" "list_all2 R us rs"
  using assms unfolding answers_def by blast

lemma answersI:
  assumes "runs E s us err" "prefix rs rows" "err = None \<longrightarrow> rs = rows" "list_all2 R us rs"
  shows "answers R (boxed E s) rows"
  using boxed_runs [OF assms(1)] assms(2-4) unfolding answers_def by blast

lemma keeps_stands:
  assumes "stands_for ts t r" "well_typed ts p" "physical p"
  shows "Eval p t \<noteq> None" "keeps p t \<longleftrightarrow> keeps p (row_tuple r)"
  using Eval_alike [OF assms(1) [unfolded stands_for_def] assms(2,3)] same_value_reads(2) by (auto simp: keeps_def)

lemma filter_rel:
  assumes "list_all2 R xs ys" "\<And>x y. R x y \<Longrightarrow> P x = Q y"
  shows "list_all2 R (filter P xs) (filter Q ys)"
  using assms(1) by (induction rule: list_all2_induct) (auto simp: assms(2))

lemma prefix_filter: "prefix xs ys \<Longrightarrow> prefix (filter P xs) (filter P ys)"
  by (auto simp: prefix_def)

lemma filter_answers:
  assumes "answers (stands_for ts) X rows" "well_typed ts p" "physical p"
  shows "answers (stands_for ts) (boxed (FilterExecutor p dispatch) (NewFilter X)) (filter (\<lambda>r. keeps p (row_tuple r)) rows)"
  using assms(1)
proof (cases rule: answersE)
  case (fails err X')
  then show ?thesis by (simp add: answers_def FilterExecutor_def Filter_Init_def NewFilter_def)
next
  case a: (yields us err rs)
  have ok: "\<forall>t \<in> set us. Eval p t \<noteq> None" using a(4) keeps_stands(1) [OF _ assms(2,3)] by (metis list_all2_conv_all_nth in_set_conv_nth)
  have "runs (FilterExecutor p dispatch) (NewFilter X) (filter (keeps p) us) err"
    using filter.stream_runs [of dispatch "NewFilter X" us err p] a(1) ok by (simp add: map_filter_keeps NewFilter_def)
  moreover have "list_all2 (stands_for ts) (filter (keeps p) us) (filter (\<lambda>r. keeps p (row_tuple r)) rs)"
    by (rule filter_rel [OF a(4) keeps_stands(2) [OF _ assms(2,3)]])
  ultimately show ?thesis using prefix_filter [OF a(2)] a(3) by (auto intro: answersI)
qed

lemma limit_answers:
  assumes "answers R X rows"
  shows "answers R (boxed (LimitExecutor n dispatch) (NewLimitExecutor X)) (take (nat n) rows)"
  using assms
proof (cases rule: answersE)
  case (fails err X')
  then show ?thesis by (simp add: answers_def LimitExecutor_def Limit_Init_def NewLimitExecutor_def)
next
  case a: (yields us err rs)
  obtain err' where r: "runs (LimitExecutor n dispatch) (NewLimitExecutor X) (take (nat n) us) err'" "int (length us) < n \<longrightarrow> err' = err"
    using Limit_runs [of dispatch "NewLimitExecutor X" us err n] a(1) by (auto simp: NewLimitExecutor_def)
  obtain zs where zs: "rows = rs @ zs" using a(2) by (auto simp: prefix_def)
  have "take (nat n) rs = take (nat n) rows" if "err' = None"
  proof (cases "int (length us) < n")
    case False
    then show ?thesis using list_all2_lengthD [OF a(4)] zs by simp
  qed (use that r(2) a(3) in simp)
  moreover have "prefix (take (nat n) rs) (take (nat n) rows)" unfolding zs take_append by (rule prefixI) (rule refl)
  ultimately show ?thesis using list_all2_takeI [OF a(4)] by (intro answersI [OF r(1)]) auto
qed

text \<open>Expressions whose values can be stored in a row: not the arithmetic ones, whose result may be the number that stands for
  NULL.\<close>

fun storable_expr :: "Expr \<Rightarrow> bool" where
  "storable_expr (ConstantValueExpr v) = storable v"
| "storable_expr (ArithmeticExpression _ _ _) = False"
| "storable_expr (StringConcatExpression _ _) = False"
| "storable_expr (LogicalColumnExpr _) = False"
| "storable_expr _ = True"

lemma storable_results: "storable NewNullInt" "storable (int_bool b)" "storable (eval_logic k v w)" "storable (eval_negation v)" "storable (eval_null_check c v)"
  "eval_comparison op v w = Some x \<Longrightarrow> storable x" "eval_like re v p = Some x \<Longrightarrow> storable x"
proof -
  show n: "storable NewNullInt" by (simp add: storable_def NewNullInt_def)
  have i: "storable (NewIntValue 0)" "storable (NewIntValue 1)" by (simp_all add: storable_def NewIntValue_def)
  show b: "storable (int_bool b)" for b using i by (simp add: int_bool_def)
  show "storable (eval_logic k v w)" using i n by (cases k) simp_all
  show "storable (eval_negation v)" using i n by (simp add: eval_negation_def)
  show "storable (eval_null_check c v)" using b by (cases c) simp_all
  show "storable x" if "eval_comparison op v w = Some x" using that n b by (auto simp: eval_comparison_def bind_eq_Some_conv split: if_splits)
  show "storable x" if "eval_like re v p = Some x"
    using that n b by (auto simp: eval_like_def bind_eq_Some_conv split: if_splits option.splits)
qed

lemma Eval_storable:
  assumes "wf_tuple t" "well_typed (tuple_types t) e" "storable_expr e" "Eval e t = Some v"
  shows "storable v"
proof (cases e)
  case (BoundValueExpr off ty nm)
  then have n: "nat off < NumColumns t" using assms(2) by (simp add: NumColumns_types)
  then have "v = tuple_values t ! nat off" using assms(4) BoundValueExpr Tuple_GetValue_eq [OF assms(1)] by (auto split: if_splits)
  then show ?thesis using tuple_values_props(2,3) [OF assms(1)] n by simp
qed (use assms storable_results in \<open>auto simp: bind_eq_Some_conv\<close>)

lemma eval_all_stands:
  assumes "stands_for ts t r" "\<forall>e \<in> set es. well_typed ts e \<and> physical e"
  shows "\<exists>vs ws. eval_all es t = Some vs \<and> eval_all es (row_tuple r) = Some ws \<and> list_all2 same_value vs ws \<and> map v_t vs = map OutputType es"
  using assms(2)
proof (induction es)
  case (Cons e es)
  obtain v w where "Eval e t = Some v" "Eval e (row_tuple r) = Some w" "same_value v w" "v_t v = OutputType e"
    using Eval_alike [OF assms(1) [unfolded stands_for_def], of e] Cons.prems by auto
  then show ?case using Cons by auto
qed simp

lemma eval_all_storable:
  assumes "wf_tuple t" "\<forall>e \<in> set es. well_typed (tuple_types t) e \<and> storable_expr e" "eval_all es t = Some vs"
  shows "\<forall>v \<in> set vs. storable v"
  using assms(2,3) by (induction es arbitrary: vs) (auto simp: bind_eq_Some_conv dest: Eval_storable [OF assms(1)])

lemma project_stands:
  assumes "stands_for ts t r" "\<forall>e \<in> set es. well_typed ts e \<and> physical e"
  shows "\<exists>ws. eval_all es t \<noteq> None \<and> eval_all es (row_tuple r) = Some ws \<and> displays (project es t) ws \<and>
    ((\<forall>e \<in> set es. storable_expr e) \<longrightarrow> stands_for (map OutputType es) (project es t) ws)"
proof -
  obtain vs ws where e: "eval_all es t = Some vs" "eval_all es (row_tuple r) = Some ws" "list_all2 same_value vs ws" "map v_t vs = map OutputType es"
    using eval_all_stands [OF assms] by blast
  have same: "map sql_of vs = map sql_of ws" "map v_t ws = map v_t vs"
    using e(3) by (auto simp: list_all2_conv_all_nth same_value_def intro!: nth_equalityI)
  have st: "stands_for (map OutputType es) (project es t) ws" if s: "\<forall>e \<in> set es. storable_expr e"
  proof -
    have w: "wf_tuple t" "tuple_types t = ts" "wf_tuple (row_tuple r)" "tuple_types (row_tuple r) = ts"
      using assms(1) by (auto simp: stands_for_def alike_def tuple_of_def)
    have "\<forall>v \<in> set vs. storable v" "\<forall>v \<in> set ws. storable v"
      using eval_all_storable [OF w(1) _ e(1)] eval_all_storable [OF w(3) _ e(2)] assms(2) s w(2,4) by auto
    then show ?thesis using FromValues_props [of vs] FromValues_props [of ws] e(1,4) same
      by (simp add: stands_for_def alike_def tuple_of_def project_def row_of_row_tuple)
  qed
  have "displays (project es t) ws" using e(1) same(1) by (simp add: displays_def project_def row_of_row_tuple)
  then show ?thesis using e(1,2) st by auto
qed

lemma map_filter_rel:
  assumes "list_all2 R us rs" "\<And>t r. R t r \<Longrightarrow> \<exists>w. f r = Some w \<and> S (g t) w"
  shows "list_all2 S (map g us) (List.map_filter f rs)"
  using assms(1) by (induction rule: list_all2_induct) (use assms(2) in \<open>force simp: List.map_filter_def\<close>)+

lemma prefix_map_filter: "prefix xs ys \<Longrightarrow> prefix (List.map_filter f xs) (List.map_filter f ys)"
  by (auto simp: prefix_def List.map_filter_def)

lemma projection_answers:
  assumes "answers (stands_for ts) X rows" "\<forall>e \<in> set es. well_typed ts e \<and> physical e"
  shows "answers (if \<forall>e \<in> set es. storable_expr e then stands_for (map OutputType es) else displays)
    (boxed (ProjectionExecutor es dispatch) (NewProjectionExecutor X)) (List.map_filter (\<lambda>r. eval_all es (row_tuple r)) rows)"
  using assms(1)
proof (cases rule: answersE)
  case (fails err X')
  then show ?thesis by (simp add: answers_def ProjectionExecutor_def Projection_Init_def NewProjectionExecutor_def)
next
  case a: (yields us err rs)
  have ok: "\<forall>t \<in> set us. eval_all es t \<noteq> None" using a(4) project_stands [OF _ assms(2)] by (metis list_all2_conv_all_nth in_set_conv_nth)
  have r: "runs (ProjectionExecutor es dispatch) (NewProjectionExecutor X) (map (project es) us) err"
    using projection.stream_runs [of dispatch "NewProjectionExecutor X" us err es] a(1) ok by (simp add: map_filter_project NewProjectionExecutor_def)
  let ?S = "if \<forall>e \<in> set es. storable_expr e then stands_for (map OutputType es) else displays"
  have "\<exists>w. eval_all es (row_tuple r) = Some w \<and> ?S (project es t) w" if "stands_for ts t r" for t r
    using project_stands [OF that assms(2)] by auto
  then have l: "list_all2 ?S (map (project es) us) (List.map_filter (\<lambda>r. eval_all es (row_tuple r)) rs)"
    by (rule map_filter_rel [OF a(4)])
  show ?thesis by (rule answersI [OF r prefix_map_filter [OF a(2)] _ l]) (use a(3) in blast)
qed

text \<open>A stable sort by an order that does not distinguish related elements.\<close>

lemma stable_insert_rel:
  assumes "list_all2 R ys zs" "R x z" "\<And>a b c d. R a c \<Longrightarrow> R b d \<Longrightarrow> lt a b = lt' c d"
  shows "rel_option (list_all2 R) (stable_insert lt x ys) (stable_insert lt' z zs)"
  using assms(1)
proof (induction rule: list_all2_induct)
  case (Cons y ys w ws)
  have "lt x y = lt' z w" by (rule assms(3) [OF assms(2) Cons.hyps(1)])
  then show ?case using Cons assms(2)
    by (cases "lt' z w"; cases "stable_insert lt x ys"; cases "stable_insert lt' z ws") auto
qed (simp add: assms(2))

lemma stable_sort_rel:
  assumes "list_all2 R xs ys" "\<And>a b c d. R a c \<Longrightarrow> R b d \<Longrightarrow> lt a b = lt' c d"
  shows "list_all2 R acc acc' \<Longrightarrow> rel_option (list_all2 R) (stable_sort lt xs acc) (stable_sort lt' ys acc')"
  using assms(1)
proof (induction arbitrary: acc acc' rule: list_all2_induct)
  case (Cons x xs y ys)
  have "rel_option (list_all2 R) (stable_insert lt x acc) (stable_insert lt' y acc')"
    by (rule stable_insert_rel [OF Cons.prems Cons.hyps(1) assms(2)])
  then show ?case using Cons.IH by (cases "stable_insert lt x acc"; cases "stable_insert lt' y acc'") auto
qed simp

lemma sort_less_stands:
  assumes "stands_for ts a c" "stands_for ts b d"
  shows "sortable ts obs \<Longrightarrow> sort_less obs a b = sort_less obs (row_tuple c) (row_tuple d)"
proof (induction obs)
  case (Cons ob obs)
  then have ob: "well_typed ts (ob_Expr ob)" "physical (ob_Expr ob)" "sortable ts obs" by (auto simp: sortable_def)
  obtain v v' where v: "Eval (ob_Expr ob) a = Some v" "Eval (ob_Expr ob) (row_tuple c) = Some v'" "same_value v v'"
    using Eval_alike [OF assms(1) [unfolded stands_for_def] ob(1,2)] by blast
  obtain w w' where w: "Eval (ob_Expr ob) b = Some w" "Eval (ob_Expr ob) (row_tuple d) = Some w'" "same_value w w'"
    using Eval_alike [OF assms(2) [unfolded stands_for_def] ob(1,2)] by blast
  show ?case using v w Cons.IH [OF ob(3)] same_value_compare [OF v(3) w(3)] by (cases "Value_Compare v' w'") simp_all
qed simp

lemma copy_stands:
  assumes "stands_for ts t r" "tuple_of ts c" "row_of c = row_of t"
  shows "stands_for ts c r"
  using assms by (simp add: stands_for_def alike_def)

lemma sort_answers:
  assumes "answers (stands_for ts) X rows" "sortable ts obs" "NewRawTupleDesc ts = Some d"
  shows "answers (stands_for ts) (boxed (SortExecutor obs ts dispatch) (NewSortExecutor X))
    (sort_rows (\<lambda>a b. sort_less obs (row_tuple a) (row_tuple b)) rows)"
  using assms(1)
proof (cases rule: answersE)
  case (fails err X')
  then show ?thesis by (simp add: answers_def SortExecutor_def Sort_Init_def NewSortExecutor_def Let_def)
next
  case a: (yields us err rs)
  have t: "\<forall>t \<in> set us. tuple_of ts t" using a(4) stands_for_tuple by (metis list_all2_conv_all_nth in_set_conv_nth)
  have child: "runs dispatch (se_child (NewSortExecutor X)) us err" using a(1) by (simp add: NewSortExecutor_def)
  obtain cs zs where c: "map row_of cs = map row_of us" "\<forall>c \<in> set cs. tuple_of ts c" "stable_sort (sort_less obs) cs [] = Some zs"
    "runs (SortExecutor obs ts dispatch) (NewSortExecutor X) (if err = None then zs else []) err"
    using SortExecutor_spec [OF child t assms(3,2)] by blast
  have len: "length cs = length us" using c(1) by (metis length_map)
  have st: "list_all2 (stands_for ts) cs rs"
    using a(4) c(2) len copy_stands arg_cong [OF c(1), of "\<lambda>xs. xs ! i" for i] unfolding list_all2_conv_all_nth by (metis nth_map nth_mem)
  have "rel_option (list_all2 (stands_for ts)) (stable_sort (sort_less obs) cs []) (stable_sort (\<lambda>a b. sort_less obs (row_tuple a) (row_tuple b)) rs [])"
    by (rule stable_sort_rel [OF st sort_less_stands [OF _ _ assms(2)]]) simp_all
  then have z: "list_all2 (stands_for ts) zs (sort_rows (\<lambda>a b. sort_less obs (row_tuple a) (row_tuple b)) rs)"
    using c(3) by (auto simp: sort_rows_def option_rel_Some1)
  show ?thesis
  proof (cases err)
    case None
    then show ?thesis using answersI [OF c(4), where R = "stands_for ts"] z a(3) by simp
  next
    case (Some e)
    then show ?thesis using answersI [OF c(4), of "[]", where R = "stands_for ts"] by simp
  qed
qed

text \<open>The leaves.\<close>

lemma row_tuple_stands: "wf_tuple t \<Longrightarrow> tuple_types t = ts \<Longrightarrow> stands_for ts t (tuple_values t)"
  using tuple_values_props(1,2) [of t] FromValues_props [of "tuple_values t"]
  by (simp add: stands_for_def alike_def tuple_of_def row_of_row_tuple row_of_def)

definition values_ok :: "Expr list list \<Rightarrow> Type list \<Rightarrow> bool" where
  "values_ok vs ts \<longleftrightarrow> (\<forall>es \<in> set vs. case eval_all es EmptyTuple of Some ws \<Rightarrow> map v_t ws = ts \<and> (\<forall>w \<in> set ws. storable w) | None \<Rightarrow> False)"

lemma values_answers:
  assumes "values_ok vs ts"
  shows "answers (stands_for ts) (boxed (ValuesExecutor \<lparr>vn_Values = vs, vn_Schema = ts\<rparr>) NewValuesExecutor)
    (List.map_filter (\<lambda>es. eval_all es EmptyTuple) vs)"
proof -
  let ?plan = "\<lparr>vn_Values = vs, vn_Schema = ts\<rparr>"
  have row: "\<exists>ws. eval_all es EmptyTuple = Some ws \<and> map v_t ws = ts \<and> (\<forall>w \<in> set ws. storable w)" if "es \<in> set vs" for es
    using that assms by (auto simp: values_ok_def split: option.splits)
  have "wf_values ?plan" unfolding wf_values_def using row by (fastforce dest: eval_all_length)
  then have r: "runs (ValuesExecutor ?plan) NewValuesExecutor (values_rows ?plan) None" by (rule Values_runs)
  have "\<exists>w. eval_all es EmptyTuple = Some w \<and> stands_for ts (project es EmptyTuple) w" if "es \<in> set vs" for es
    using row [OF that] FromValues_props by (auto simp: stands_for_def alike_def tuple_of_def project_def row_of_row_tuple)
  then have "list_all2 (stands_for ts) (values_rows ?plan) (List.map_filter (\<lambda>es. eval_all es EmptyTuple) vs)"
    unfolding values_rows_def by (intro map_filter_rel [where R = "\<lambda>x y. x = y \<and> x \<in> set vs"]) (auto simp: list_all2_same)
  then show ?thesis by (intro answersI [OF r]) simp_all
qed

text \<open>Record identifiers are finitely many, so the rows of a heap file are a list.\<close>

lemma rid_map_list: "\<exists>xs. map_of xs = (m :: RecordID \<rightharpoonup> 'a) \<and> distinct (map fst xs)"
proof -
  have "dom m \<subseteq> (\<lambda>(a, b, c). \<lparr>rid_PageID = \<lparr>Oid = a, PageNum = b\<rparr>, Slot = c\<rparr>) ` UNIV"
  proof
    fix rid :: RecordID
    show "rid \<in> (\<lambda>(a, b, c). \<lparr>rid_PageID = \<lparr>Oid = a, PageNum = b\<rparr>, Slot = c\<rparr>) ` UNIV"
      by (rule image_eqI [of _ _ "(Oid (rid_PageID rid), PageNum (rid_PageID rid), Slot rid)"]) simp_all
  qed
  then have fin: "finite (dom m)" by (rule finite_subset) simp
  obtain ks where ks: "set ks = dom m" "distinct ks" using finite_distinct_list [OF fin] by (elim exE conjE)
  let ?xs = "map (\<lambda>k. (k, the (m k))) ks"
  have "map_of ?xs k = m k" for k using ks(1) by (cases "m k") (simp_all add: map_of_map_restrict restrict_map_def dom_def)
  then have "map_of ?xs = m" by blast
  then show ?thesis using ks(2) by (intro exI [of _ ?xs]) (simp add: comp_def)
qed

lemma scan_answers:
  assumes "xsync_map X" "xsync_map Y" "disk_table X Y th (bp, fs)"
  shows "\<exists>xs. map_of xs = table_rows X th (bp, fs) \<and> distinct (map fst xs) \<and>
    answers (stands_for (d_fields (th_desc th))) (boxed (SeqScanExecutor (Suc m) X (disk_ops Y) th) (NewSeqScanExecutor th bp fs))
      (map (\<lambda>e. tuple_values (seq_tuple th e)) xs)"
proof -
  let ?E = "SeqScanExecutor (Suc m) X (disk_ops Y) th" and ?e = "NewSeqScanExecutor th bp fs"
  have d: "disk_ok Y fs" "pool_inv X (disk_pages fs) bp" "quiescent bp" "wf_desc (th_desc th)" "th_oid th \<noteq> 0"
    "\<forall>pid b. Oid pid = th_oid th \<and> view X (disk_pages fs) bp pid = Some b \<longrightarrow> wf_page th b"
    using assms(3) by (auto simp: disk_table_def)
  obtain err e where i: "ex_Init ?E ?e = Some (err, e)"
    "err = None \<longrightarrow> (\<exists>xs. map_of xs = table_rows X th (bp, fs) \<and> distinct (map fst xs) \<and>
       (\<exists>ts er. produces ?E e ts er \<and> prefix ts (map (seq_tuple th) xs) \<and> (er = None \<longrightarrow> ts = map (seq_tuple th) xs)))"
    using SeqScan_spec [OF assms(1,2) d, of m] unfolding table_rows_def prod.case by blast
  show ?thesis
  proof (cases err)
    case (Some er)
    then have "answers R (boxed ?E ?e) rows" for R rows using i(1) by (simp add: answers_def)
    then show ?thesis using rid_map_list by blast
  next
    case None
    then obtain xs ts er where x: "map_of xs = table_rows X th (bp, fs)" "distinct (map fst xs)" "produces ?E e ts er"
      "prefix ts (map (seq_tuple th) xs)" "er = None \<longrightarrow> ts = map (seq_tuple th) xs" using i(2) by blast
    have "stands_for (d_fields (th_desc th)) t (tuple_values t)" if t: "t \<in> set (map (seq_tuple th) xs)" for t
    proof -
      obtain rid row where r: "(rid, row) \<in> set xs" "t = seq_tuple th (rid, row)" using t by auto
      then have "heap_rows th (view X (disk_pages fs) bp) rid = Some row" using x(1,2) by (metis case_prod_conv map_of_eq_Some_iff table_rows_def)
      then show ?thesis using r(2) row_tuple_stands seq_tuple_wf [OF d(4) heap_row_length [OF _ d(6)]] by simp
    qed
    then have st: "list_all2 (stands_for (d_fields (th_desc th))) ts (map tuple_values ts)"
      using set_mono_prefix [OF x(4)] by (auto simp: list_all2_conv_all_nth subset_iff)
    have r: "runs ?E ?e ts er" using i(1) None x(3) by (auto simp: runs_def)
    have "prefix (map tuple_values ts) (map (\<lambda>e. tuple_values (seq_tuple th e)) xs)"
      using map_mono_prefix [OF x(4), of tuple_values] by (simp add: comp_def)
    then show ?thesis using x(1,2,5) st by (intro exI [of _ xs] conjI answersI [OF r _ _ st]) (auto simp: comp_def)
  qed
qed

section \<open>From a tree to an executor\<close>

primrec executor_of :: "nat \<Rightarrow> (PageID, nat, 'm) MapOf \<Rightarrow> 'fs DBFileManager \<Rightarrow> 'm BufferPool \<Rightarrow> 'fs \<Rightarrow> ExecutorTree \<Rightarrow> ExecObject option" where
  "executor_of fuel X M bp fs (SeqScanTree _ th) = Some (boxed (SeqScanExecutor fuel X M th) (NewSeqScanExecutor th bp fs))"
| "executor_of fuel X M bp fs (ValuesTree plan) = (case plan of
     ValuesPlan vs ts \<Rightarrow> Some (boxed (ValuesExecutor \<lparr>vn_Values = vs, vn_Schema = ts\<rparr>) NewValuesExecutor) | _ \<Rightarrow> None)"
| "executor_of fuel X M bp fs (FilterTree plan child) = (case plan of
     FilterNode _ p \<Rightarrow> map_option (\<lambda>c. boxed (FilterExecutor p dispatch) (NewFilter c)) (executor_of fuel X M bp fs child) | _ \<Rightarrow> None)"
| "executor_of fuel X M bp fs (ProjectionTree plan child) = (case plan of
     ProjectionNode _ es \<Rightarrow> map_option (\<lambda>c. boxed (ProjectionExecutor es dispatch) (NewProjectionExecutor c)) (executor_of fuel X M bp fs child) | _ \<Rightarrow> None)"
| "executor_of fuel X M bp fs (LimitTree plan child) = (case plan of
     LimitNode _ n \<Rightarrow> map_option (\<lambda>c. boxed (LimitExecutor n dispatch) (NewLimitExecutor c)) (executor_of fuel X M bp fs child) | _ \<Rightarrow> None)"
| "executor_of fuel X M bp fs (SortTree plan child) = (case plan of
     SortNode childPlan obs \<Rightarrow> map_option (\<lambda>c. boxed (SortExecutor obs (PlanNode_OutputSchema childPlan) dispatch) (NewSortExecutor c))
       (executor_of fuel X M bp fs child) | _ \<Rightarrow> None)"
| "executor_of fuel X M bp fs (AggregateTree plan child) = (case plan of
     AggregatePlan _ gs aggs \<Rightarrow> map_option (\<lambda>c. boxed (AggregateExecutor (NewAggregateNode gs aggs) dispatch) (NewAggregateExecutor c))
       (executor_of fuel X M bp fs child) | _ \<Rightarrow> None)"
| "executor_of fuel X M bp fs (IndexScanTree _ _ _) = None"
| "executor_of fuel X M bp fs (IndexLookupTree _ _ _) = None"
| "executor_of fuel X M bp fs (InsertTree _ _ _ _) = None"
| "executor_of fuel X M bp fs (DeleteTree _ _ _ _) = None"
| "executor_of fuel X M bp fs (UpdateTree _ _ _ _) = None"
| "executor_of fuel X M bp fs (BlockNestedLoopJoinTree _ _ _) = None"

text \<open>The queries covered: scans of one table or literal rows under filters, projections, sorts and limits whose expressions have
  the types of the columns; an operator that evaluates or copies tuples stands above storable ones.\<close>

fun stored_rows :: "PlanNode \<Rightarrow> bool" where
  "stored_rows (ProjectionNode _ es) = (\<forall>e \<in> set es. storable_expr e)"
| "stored_rows (LimitNode c _) = stored_rows c"
| "stored_rows _ = True"

fun query_ok :: "(ObjectID \<rightharpoonup> TableHeap) \<Rightarrow> PlanNode \<Rightarrow> bool" where
  "query_ok tm (SeqScanNode oid ts _) = (case tm oid of Some th \<Rightarrow> ts = d_fields (th_desc th) | None \<Rightarrow> False)"
| "query_ok tm (ValuesPlan vs ts) = values_ok vs ts"
| "query_ok tm (FilterNode c p) = (query_ok tm c \<and> stored_rows c \<and> well_typed (PlanNode_OutputSchema c) p \<and> physical p)"
| "query_ok tm (ProjectionNode c es) = (query_ok tm c \<and> stored_rows c \<and> (\<forall>e \<in> set es. well_typed (PlanNode_OutputSchema c) e \<and> physical e))"
| "query_ok tm (LimitNode c _) = query_ok tm c"
| "query_ok tm (SortNode c obs) = (query_ok tm c \<and> stored_rows c \<and> sortable (PlanNode_OutputSchema c) obs \<and> NewRawTupleDesc (PlanNode_OutputSchema c) \<noteq> None)"
| "query_ok tm _ = False"

definition row_relation :: "PlanNode \<Rightarrow> Tuple \<Rightarrow> lrow \<Rightarrow> bool" where
  "row_relation P = (if stored_rows P then stands_for (PlanNode_OutputSchema P) else displays)"

lemma query_tree_answers:
  assumes "\<And>oid th. tm oid = Some th \<Longrightarrow> answers (stands_for (d_fields (th_desc th))) (boxed (SeqScanExecutor fuel X M th) (NewSeqScanExecutor th bp fs)) (db_table db oid)"
  shows "query_ok tm P \<Longrightarrow> \<exists>tree E. BuildExecutorTree P cat tm im = Some (Inr tree) \<and> Tree_PlanNode tree = P \<and>
    executor_of fuel X M bp fs tree = Some E \<and> answers (row_relation P) E (physical_rows db P)"
proof (induction P)
  case (SeqScanNode oid ts mode)
  then show ?case using assms [of oid] by (auto simp: row_relation_def fused_def wrapped_def GetTable_def split: option.splits)
next
  case (ValuesPlan vs ts)
  then show ?case using values_answers [of vs ts] by (simp add: row_relation_def)
next
  case (FilterNode c p)
  then obtain tree E where "BuildExecutorTree c cat tm im = Some (Inr tree)" "Tree_PlanNode tree = c" "executor_of fuel X M bp fs tree = Some E"
    "answers (stands_for (PlanNode_OutputSchema c)) E (physical_rows db c)" by (auto simp: row_relation_def)
  then show ?case using filter_answers [of "PlanNode_OutputSchema c" E _ p] FilterNode.prems by (simp add: row_relation_def fused_def)
next
  case (ProjectionNode c es)
  then obtain tree E where "BuildExecutorTree c cat tm im = Some (Inr tree)" "Tree_PlanNode tree = c" "executor_of fuel X M bp fs tree = Some E"
    "answers (stands_for (PlanNode_OutputSchema c)) E (physical_rows db c)" by (auto simp: row_relation_def)
  then show ?case using projection_answers [of "PlanNode_OutputSchema c" E "physical_rows db c" es] ProjectionNode.prems
    by (auto simp: row_relation_def fused_def split: if_splits)
next
  case (LimitNode c n)
  then obtain tree E where "BuildExecutorTree c cat tm im = Some (Inr tree)" "Tree_PlanNode tree = c" "executor_of fuel X M bp fs tree = Some E"
    "answers (row_relation c) E (physical_rows db c)" by auto
  moreover have "row_relation (LimitNode c n) = row_relation c" by (simp add: row_relation_def)
  ultimately show ?case using limit_answers [of "row_relation c" E _ n] by (simp add: fused_def)
next
  case (SortNode c obs)
  then obtain tree E where "BuildExecutorTree c cat tm im = Some (Inr tree)" "Tree_PlanNode tree = c" "executor_of fuel X M bp fs tree = Some E"
    "answers (stands_for (PlanNode_OutputSchema c)) E (physical_rows db c)" by (auto simp: row_relation_def)
  then show ?case using sort_answers [of "PlanNode_OutputSchema c" E _ obs] SortNode.prems by (auto simp: row_relation_def fused_def)
qed simp_all

text \<open>Every heap file is a table of the database, in the order of its scan.\<close>

definition scan_order :: "(PageID, nat, 'm) MapOf \<Rightarrow> (ObjectID \<rightharpoonup> TableHeap) \<Rightarrow> 'm BufferPool \<times> 'd DiskDBFileManager \<Rightarrow>
    (ObjectID \<Rightarrow> (RecordID \<times> bytes) list) \<Rightarrow> bool" where
  "scan_order X tm w xs \<longleftrightarrow> (\<forall>oid th. tm oid = Some th \<longrightarrow> map_of (xs oid) = table_rows X th w \<and> distinct (map fst (xs oid)))"

definition holds_tables :: "(ObjectID \<rightharpoonup> TableHeap) \<Rightarrow> (ObjectID \<Rightarrow> (RecordID \<times> bytes) list) \<Rightarrow> database \<Rightarrow> bool" where
  "holds_tables tm xs db \<longleftrightarrow> (\<forall>oid th. tm oid = Some th \<longrightarrow> db_table db oid = map (\<lambda>e. tuple_values (seq_tuple th e)) (xs oid))"

lemma scans_answer:
  assumes "xsync_map X" "xsync_map Y" "\<forall>th \<in> ran tm. disk_table X Y th (bp, fs)"
  shows "\<exists>xs. scan_order X tm (bp, fs) xs \<and> (\<forall>db oid th. holds_tables tm xs db \<longrightarrow> tm oid = Some th \<longrightarrow>
    answers (stands_for (d_fields (th_desc th))) (boxed (SeqScanExecutor (Suc m) X (disk_ops Y) th) (NewSeqScanExecutor th bp fs)) (db_table db oid))"
proof -
  let ?P = "\<lambda>oid xs. \<forall>th. tm oid = Some th \<longrightarrow> map_of xs = table_rows X th (bp, fs) \<and> distinct (map fst xs) \<and>
    answers (stands_for (d_fields (th_desc th))) (boxed (SeqScanExecutor (Suc m) X (disk_ops Y) th) (NewSeqScanExecutor th bp fs))
      (map (\<lambda>e. tuple_values (seq_tuple th e)) xs)"
  have "\<exists>xs. ?P oid xs" for oid
  proof (cases "tm oid")
    case (Some th)
    then have "disk_table X Y th (bp, fs)" using assms(3) by (simp add: ranI)
    from scan_answers [OF assms(1,2) this, of m] show ?thesis using Some by auto
  qed simp
  then obtain xs where xs: "\<And>oid. ?P oid (xs oid)" by metis
  then show ?thesis by (intro exI [of _ xs]) (simp add: scan_order_def holds_tables_def)
qed

lemma holds_tables_ex: "\<exists>db. holds_tables tm xs db"
proof
  show "holds_tables tm xs \<lparr>db_table = \<lambda>oid. map (\<lambda>e. tuple_values (seq_tuple (the (tm oid)) e)) (xs oid), db_scan = \<lambda>_ _ _. [],
      db_lookup = \<lambda>_ _. [], db_probe = \<lambda>_ _. [], db_aggregate = \<lambda>_ _. []\<rparr>"
    by (simp add: holds_tables_def)
qed

lemma answers_visible: "answers (row_relation P) E rows \<Longrightarrow> answers displays E rows"
  by (erule answers_mono) (auto simp: row_relation_def split: if_splits intro: stands_for_displays)

section \<open>Plans of SELECT statements over one table\<close>

text \<open>The logical plans whose physical plans are covered. No concatenation, which panics on long strings; no arithmetic below an
  operator that evaluates or copies tuples; no two projections in a row, which the planner fuses; no sort below a
  limit, for which there is no executor.\<close>

fun no_concat :: "Expr \<Rightarrow> bool" where
  "no_concat (ComparisonExpression l r _) = (no_concat l \<and> no_concat r)"
| "no_concat (BinaryLogicExpression l r _) = (no_concat l \<and> no_concat r)"
| "no_concat (NegationExpression e) = no_concat e"
| "no_concat (NullCheckExpression e _) = no_concat e"
| "no_concat (ArithmeticExpression l r _) = (no_concat l \<and> no_concat r)"
| "no_concat (StringConcatExpression _ _) = False"
| "no_concat (LikeExpression l r _) = (no_concat l \<and> no_concat r)"
| "no_concat _ = True"

fun lstorable :: "Expr \<Rightarrow> bool" where
  "lstorable (LogicalColumnExpr _) = True"
| "lstorable e = storable_expr e"

primrec lstored :: "LogicalPlanNode \<Rightarrow> bool" where
  "lstored (LogicalScanNode n) = True"
| "lstored (LogicalValuesNode vs s) = True"
| "lstored (LogicalFilterNode c p) = True"
| "lstored (LogicalJoinNode l r on jt) = True"
| "lstored (LogicalUnaryNode op s c) = (case op of ProjectionOp es \<Rightarrow> \<forall>e \<in> set es. lstorable e | LimitOp _ _ \<Rightarrow> lstored c | _ \<Rightarrow> True)"

primrec select_plan :: "LogicalPlanNode \<Rightarrow> bool" where
  "select_plan (LogicalScanNode n) = (sn_projection n = None \<and> (\<forall>p \<in> set (sn_Predicates n). no_concat p))"
| "select_plan (LogicalValuesNode vs s) = False"
| "select_plan (LogicalFilterNode c p) = (select_plan c \<and> lstored c \<and> no_concat p)"
| "select_plan (LogicalJoinNode l r on jt) = False"
| "select_plan (LogicalUnaryNode op s c) = (select_plan c \<and> (case op of
     ProjectionOp es \<Rightarrow> lstored c \<and> \<not> is_projection c \<and> (\<forall>e \<in> set es. no_concat e)
   | SortOp obs \<Rightarrow> lstored c \<and> NewRawTupleDesc (map ctype (OutputSchema c)) \<noteq> None \<and> (\<forall>ob \<in> set obs. no_concat (ob_Expr ob) \<and> OutputType (ob_Expr ob) \<noteq> DefaultType)
   | LimitOp _ _ \<Rightarrow> \<not> is_sort c
   | _ \<Rightarrow> False))"

text \<open>A bound expression has the types of the columns.\<close>

lemma BindExpr_typed:
  "BindExpr e ls (map ctype ls) = Some e' \<Longrightarrow> bindable ls e \<Longrightarrow> no_concat e \<Longrightarrow>
    well_typed (map ctype ls) e' \<and> physical e' \<and> OutputType e' = OutputType e \<and> storable_expr e' = lstorable e"
proof (induction e arbitrary: e')
  case (LogicalColumnExpr c)
  then obtain i where "i < length ls" "find_column (\<lambda>col. LogicalColumn_Equals col c) ls 0 = Some i" "LogicalColumn_Equals (ls ! i) c"
    using contains_find [of ls c] by (auto simp: bindable_def)
  then show ?case using LogicalColumnExpr.prems(1) by (auto simp: NewColumnValueExpression_def idx_def bind_eq_Some_conv dest: equals_type)
next
  case (LikeExpression l r re)
  then obtain l' r' re' where b: "BindExpr l ls (map ctype ls) = Some l'" "BindExpr r ls (map ctype ls) = Some r'" "e' = LikeExpression l' r' re'"
    using NewLikeExpression_shape by (fastforce simp: bind_eq_Some_conv)
  show ?case using LikeExpression.IH(1) [OF b(1)] LikeExpression.IH(2) [OF b(2)] LikeExpression.prems(2,3) unfolding b(3) by (auto simp: bindable_def)
qed (auto simp: bind_eq_Some_conv bindable_def)

lemma bind_all_typed:
  assumes "bind_all es ls (map ctype ls) = Some es'" "\<forall>e \<in> set es. bindable ls e \<and> no_concat e"
  shows "list_all2 (\<lambda>e e'. well_typed (map ctype ls) e' \<and> physical e' \<and> OutputType e' = OutputType e \<and> storable_expr e' = lstorable e) es es'"
  using assms
proof (induction es arbitrary: es')
  case (Cons e es)
  then obtain e' es'' where "BindExpr e ls (map ctype ls) = Some e'" "bind_all es ls (map ctype ls) = Some es''" "es' = e' # es''"
    by (auto simp: bind_all_def split: option.splits)
  then show ?case using Cons.IH [of es''] BindExpr_typed [of e ls e'] Cons.prems(2) by simp
qed (simp add: bind_all_def)

lemma fold_And_typed:
  assumes "\<forall>p \<in> set (q # ps). condition ls p \<and> no_concat p"
  shows "condition ls (fold (\<lambda>p acc. BinaryLogicExpression acc p And) ps q) \<and> no_concat (fold (\<lambda>p acc. BinaryLogicExpression acc p And) ps q)"
  using assms by (induction ps arbitrary: q) (auto simp: condition_And)

fun projection_plan :: "PlanNode \<Rightarrow> bool" where
  "projection_plan (ProjectionNode _ _) = True" | "projection_plan _ = False"

definition heaps_typed :: "Catalog \<Rightarrow> (ObjectID \<rightharpoonup> TableHeap) \<Rightarrow> bool" where
  "heaps_typed cat tm \<longleftrightarrow> (\<forall>oid t. GetTableByOid oid cat = Inr t \<longrightarrow> (\<exists>th. tm oid = Some th \<and> d_fields (th_desc th) = tableSchemaToTypes t))"

text \<open>What the builder makes of a covered plan.\<close>

definition covered :: "(ObjectID \<rightharpoonup> TableHeap) \<Rightarrow> LogicalPlanNode \<Rightarrow> PlanNode \<Rightarrow> bool" where
  "covered tm q P \<longleftrightarrow> query_ok tm P \<and> PlanNode_OutputSchema P = map ctype (OutputSchema q) \<and> stored_rows P = lstored q \<and>
     projection_plan P = is_projection q \<and> sort_plan P = is_sort q"

lemma scan_covered:
  assumes "SeqScanRule_Apply (LogicalScanNode n) ps cat = Some (Inr P)" "node_ok db cat (LogicalScanNode n)" "select_plan (LogicalScanNode n)" "heaps_typed cat tm"
  shows "covered tm (LogicalScanNode n) P"
proof -
  have "Planner_Correct.table_ok cat n" using assms(2) by simp
  then obtain oid where oid: "tr_table (sn_TableRef n) = Some oid"
    "(case GetTableByOid oid cat of Inl _ \<Rightarrow> False | Inr t \<Rightarrow> tableSchemaToTypes t = map ctype (sn_schema n))"
    by (auto simp: Planner_Correct.table_ok_def split: option.splits)
  then obtain t where o: "tr_table (sn_TableRef n) = Some oid" "GetTableByOid oid cat = Inr t" "tableSchemaToTypes t = map ctype (sn_schema n)"
    by (cases "GetTableByOid oid cat") auto
  obtain th where th: "tm oid = Some th" "d_fields (th_desc th) = map ctype (sn_schema n)" using assms(4) o(2,3) unfolding heaps_typed_def by metis
  let ?scan = "SeqScanNode oid (map ctype (sn_schema n)) (if sn_ForUpdate n then LockModeX else LockModeS)"
  have w: "wrapInFilter ?scan (sn_Predicates n) (sn_schema n) = Some P"
    using assms(1,3) o by (auto simp: GetTableOid_def bind_eq_Some_conv Let_def)
  have s: "OutputSchema (LogicalScanNode n :: LogicalPlanNode) = sn_schema n" using assms(3) by simp
  show ?thesis
  proof (cases "sn_Predicates n")
    case Nil
    then have "P = ?scan" using w by (simp add: wrapInFilter_def)
    then show ?thesis using th s by (simp add: covered_def)
  next
    case (Cons p ps)
    let ?e = "fold (\<lambda>p acc. BinaryLogicExpression acc p And) ps p"
    obtain e' where e: "BindExpr ?e (sn_schema n) (map ctype (sn_schema n)) = Some e'" "P = FilterNode ?scan e'"
      using w Cons by (auto simp: wrapInFilter_def bind_eq_Some_conv Let_def)
    have "condition (sn_schema n) ?e \<and> no_concat ?e" using assms(2,3) Cons by (intro fold_And_typed) auto
    then show ?thesis using BindExpr_typed [OF e(1)] e(2) th s by (simp add: covered_def condition_def)
  qed
qed

lemma unary_covered:
  assumes "convert physicalRules cat (LogicalUnaryNode op s c) [C] = Some (Inr P)" "op_ok db cat op s c" "plannable db cat c"
    "select_plan (LogicalUnaryNode op s c)" "covered tm c C"
  shows "covered tm (LogicalUnaryNode op s c) P"
proof (cases op)
  case (ProjectionOp es)
  have "\<not> projection_plan C" using assms(4,5) ProjectionOp by (simp add: covered_def)
  then have "own_projection es c C = Some (Inr P)" using assms(1) ProjectionOp by (cases C) (simp_all add: convert_installed project_onto_def)
  then obtain es' where e: "bind_all es (OutputSchema c) (map ctype (OutputSchema c)) = Some es'" "P = ProjectionNode C es'"
    using plannable_raw [OF assms(3)] assms(5) by (auto simp: own_projection_def covered_def bind_eq_Some_conv)
  have t: "list_all2 (\<lambda>e e'. well_typed (map ctype (OutputSchema c)) e' \<and> physical e' \<and> OutputType e' = OutputType e \<and> storable_expr e' = lstorable e) es es'"
    using assms(2,4) ProjectionOp by (intro bind_all_typed [OF e(1)]) auto
  have l: "map OutputType es' = map OutputType es" "(\<forall>e \<in> set es'. storable_expr e) = (\<forall>e \<in> set es. lstorable e)"
    "\<forall>e \<in> set es'. well_typed (map ctype (OutputSchema c)) e \<and> physical e"
    using t by (induction rule: list_all2_induct) auto
  then show ?thesis using assms(2,4,5) ProjectionOp e(2) by (simp add: covered_def)
next
  case (SortOp obs)
  obtain es' where e: "bind_all (map ob_Expr obs) (OutputSchema c) (map ctype (OutputSchema c)) = Some es'"
    "P = SortNode C (map2 (\<lambda>e ob. \<lparr>ob_Expr = e, ob_Direction = ob_Direction ob\<rparr>) es' obs)"
    using assms(1,5) SortOp by (auto simp: convert_installed covered_def bind_eq_Some_conv)
  have t: "list_all2 (\<lambda>e e'. well_typed (map ctype (OutputSchema c)) e' \<and> physical e' \<and> OutputType e' = OutputType e \<and> storable_expr e' = lstorable e) (map ob_Expr obs) es'"
    using assms(2,4) SortOp by (intro bind_all_typed [OF e(1)]) auto
  have "sortable (map ctype (OutputSchema c)) (map2 (\<lambda>e ob. \<lparr>ob_Expr = e, ob_Direction = ob_Direction ob\<rparr>) es' obs)"
    using t assms(4) SortOp by (auto simp: sortable_def list_all2_conv_all_nth set_zip)
  then show ?thesis using assms(2,4,5) SortOp e(2) by (simp add: covered_def)
next
  case (LimitOp k off)
  have "\<not> sort_plan C" using assms(4,5) LimitOp by (simp add: covered_def)
  then have "P = LimitNode C k" using assms(1) LimitOp by (cases C) (simp_all add: convert_installed)
  then show ?thesis using assms(2,5) LimitOp by (simp add: covered_def)
qed (use assms(4) in simp_all)

lemma Build_covered:
  "Build physicalRules cat q = Some (Inr P) \<Longrightarrow> plannable db cat q \<Longrightarrow> select_plan q \<Longrightarrow> heaps_typed cat tm \<Longrightarrow> covered tm q P"
proof (induction q arbitrary: P)
  case (LogicalScanNode n)
  then show ?case using scan_covered [of n "[]" cat P db tm] by (simp add: convert_installed del: SeqScanRule_Apply.simps select_plan.simps node_ok.simps)
next
  case (LogicalFilterNode c p)
  then obtain C where C: "Build physicalRules cat c = Some (Inr C)" "convert physicalRules cat (LogicalFilterNode c p) [C] = Some (Inr P)"
    by (auto simp: fused_Inr)
  have cov: "covered tm c C" using LogicalFilterNode.IH [OF C(1)] LogicalFilterNode.prems by simp
  then obtain e where e: "BindExpr p (OutputSchema c) (map ctype (OutputSchema c)) = Some e" "P = FilterNode C e"
    using C(2) by (auto simp: convert_installed covered_def bind_eq_Some_conv)
  then show ?case using BindExpr_typed [OF e(1)] LogicalFilterNode.prems cov by (simp add: covered_def condition_def)
next
  case (LogicalUnaryNode op s c)
  then obtain C where C: "Build physicalRules cat c = Some (Inr C)" "convert physicalRules cat (LogicalUnaryNode op s c) [C] = Some (Inr P)"
    by (auto simp: fused_Inr)
  have cov: "covered tm c C" using LogicalUnaryNode.IH [OF C(1)] LogicalUnaryNode.prems by simp
  show ?case by (rule unary_covered [where db = db, OF C(2) _ _ LogicalUnaryNode.prems(3) cov]) (use LogicalUnaryNode.prems(2) in simp_all)
qed simp_all

text \<open>Push-down keeps a plan covered.\<close>

lemma Optimize_select:
  "OptimizeWithRule fuel p = Some q \<Longrightarrow> select_plan p \<Longrightarrow>
    select_plan q \<and> OutputSchema q = OutputSchema p \<and> (lstored p \<longrightarrow> lstored q) \<and> (is_projection q \<longrightarrow> is_projection p) \<and> (is_sort q \<longrightarrow> is_sort p)"
proof (induction fuel arbitrary: p q)
  case (Suc fuel)
  show ?case
  proof (cases p)
    case (LogicalScanNode n)
    then show ?thesis using Suc.prems by simp
  next
    case (LogicalFilterNode c e)
    show ?thesis
    proof (cases "\<exists>n. c = LogicalScanNode n")
      case True
      then show ?thesis using Suc.prems Suc.IH LogicalFilterNode by (auto simp: bind_eq_Some_conv AddPredicate_def split: if_splits)
    next
      case False
      then have "Apply p = Some p" using LogicalFilterNode Suc.prems(2) by (cases c) simp_all
      then show ?thesis using Suc.prems Suc.IH [of c] LogicalFilterNode by (auto simp: bind_eq_Some_conv)
    qed
  next
    case (LogicalUnaryNode op s c)
    then obtain c' where c: "OptimizeWithRule fuel c = Some c'" "q = LogicalUnaryNode op s c'" using Suc.prems by (auto simp: bind_eq_Some_conv)
    then show ?thesis using Suc.IH [OF c(1)] Suc.prems(2) LogicalUnaryNode by (auto split: logical_op.splits)
  qed (use Suc.prems in simp_all)
qed simp

section \<open>Properties\<close>

text \<open>A query runs its plan. For every physical plan of filters, projections, sorts and limits over a scan or literal
  rows whose expressions fit the types of the columns, the executor tree is built, and run over the buffer pool and the disk it
  either reports an error when it starts or ends after finitely many calls; the rows it yields are the rows
  of the plan on the tables of the disk, all of them unless it reports an error at the end, and the first of them if it does.\<close>

theorem query_tree_correct:
  assumes "xsync_map X" "xsync_map Y" "\<forall>th \<in> ran tm. disk_table X Y th (bp, fs)" "query_ok tm P"
  shows "\<exists>tree E. BuildExecutorTree P cat tm im = Some (Inr tree) \<and> executor_of (Suc m) X (disk_ops Y) bp fs tree = Some E \<and>
    (\<exists>xs. scan_order X tm (bp, fs) xs \<and> (\<forall>db. holds_tables tm xs db \<longrightarrow> answers displays E (physical_rows db P)))"
proof -
  obtain xs where xs: "scan_order X tm (bp, fs) xs" "\<And>db oid th. holds_tables tm xs db \<Longrightarrow> tm oid = Some th \<Longrightarrow>
    answers (stands_for (d_fields (th_desc th))) (boxed (SeqScanExecutor (Suc m) X (disk_ops Y) th) (NewSeqScanExecutor th bp fs)) (db_table db oid)"
    using scans_answer [OF assms(1-3), of m] by blast
  obtain db where "holds_tables tm xs db" using holds_tables_ex by blast
  from query_tree_answers [OF xs(2) [OF this] assms(4), of cat im] obtain tree E where
    t: "BuildExecutorTree P cat tm im = Some (Inr tree)" "executor_of (Suc m) X (disk_ops Y) bp fs tree = Some E" by blast
  have "answers displays E (physical_rows db P)" if db: "holds_tables tm xs db" for db
    using query_tree_answers [OF xs(2) [OF db] assms(4), of cat im] t answers_visible by force
  then show ?thesis using t xs(1) by blast
qed

text \<open>\<open>SELECT id + 1 FROM (SELECT * FROM users WHERE id > 3 ORDER BY id DESC) LIMIT 5\<close>, as a physical plan.\<close>

definition users_sorted :: PlanNode where
  "users_sorted = LimitNode (ProjectionNode (SortNode (FilterNode (SeqScanNode 1 [IntType] LockModeS)
       (ComparisonExpression (BoundValueExpr 0 IntType ''id'') (ConstantValueExpr (NewIntValue 3)) GreaterThan))
       [\<lparr>ob_Expr = BoundValueExpr 0 IntType ''id'', ob_Direction = SortOrderDescending\<rparr>])
     [ArithmeticExpression (BoundValueExpr 0 IntType ''id'') (ConstantValueExpr (NewIntValue 1)) Add]) 5"

lemma sample_heap_types: "d_fields (th_desc sample_heap) = [IntType]" "NewRawTupleDesc [IntType] = Some sample_desc"
  by (simp_all add: sample_heap_def sample_desc_def NewRawTupleDesc_Some wf_desc_def)

lemma sample_disk: "\<forall>th \<in> ran [1 \<mapsto> sample_heap]. disk_table fun_map fun_map th (NewBufferPool fun_map 2, row_disk)"
  using row_table(1) by (simp add: row_world_def)

theorem query_tree_correct_witness:
  "\<exists>tree E. BuildExecutorTree users_sorted sample_catalog [1 \<mapsto> sample_heap] (Map.empty :: (unit, unit) IndexManager) = Some (Inr tree) \<and>
     executor_of 1 fun_map (disk_ops fun_map) (NewBufferPool fun_map 2) row_disk tree = Some E \<and>
     (\<exists>xs. scan_order fun_map [1 \<mapsto> sample_heap] (NewBufferPool fun_map 2, row_disk) xs \<and>
       (\<forall>db. holds_tables [1 \<mapsto> sample_heap] xs db \<longrightarrow> answers displays E (physical_rows db users_sorted)))"
proof -
  have "query_ok [1 \<mapsto> sample_heap] users_sorted"
    by (simp add: users_sorted_def sample_heap_types sortable_def NewIntValue_def)
  from query_tree_correct [OF xsync_fun_map xsync_fun_map sample_disk this, of sample_catalog "Map.empty :: (unit, unit) IndexManager" 0]
  show ?thesis by simp
qed

end
