(* ===== verification/Planner_Builder.thy ===== *)
theory Planner_Builder
  imports Planner_Correct "HOL-Library.AList"
begin

text \<open>
  From SQL to logical plans (\<open>planner/logical_plan_builder.go\<close>, \<open>planner/sql_planner.go\<close>): name resolution, the translation of
  expressions, FROM clauses, joins, aggregation, ordering, limits, and the statements SELECT, INSERT, DELETE and UPDATE.

  The SQL parser \<open>xwb1989/sqlparser\<close> is not part of the repository. Its syntax trees are data: the constructors below are the
  node types that the builder distinguishes, with the fields it reads, and one constructor per sort for all other
  types, which carries the text that \<open>%T\<close> prints. An identifier is the string that its method \<open>String\<close> returns, an
  empty qualifier the empty string, an operator the constant of the parser it is compared with. The functions of the parser
  that the builder calls are the fields of the record \<open>sqlparser\<close>: the comparison and the compliant form of identifiers, the
  printing of nodes, and, for the traversal \<open>sqlparser.Walk\<close> in \<open>planAggregation\<close>, the aggregate calls that it reaches when
  it does not descend into an aggregate call. Nothing is assumed about them.

  A result \<open>None\<close> is a panic, \<open>Inl\<close> an error. Table references are compared by pointer in two places; there, as in
  \<open>Planner_Expr\<close>, a reference is its number, its alias and its table. The assignments of an UPDATE, a Go map, are kept as
  a list of pairs with distinct columns.
\<close>

section \<open>Syntax trees\<close>

datatype ValType = StrVal | HexVal | IntVal | OtherVal string
datatype ComparisonOp = EqualStr | NotEqualStr | GreaterThanStr | LessThanStr | GreaterEqualStr | LessEqualStr | OtherComparison string
datatype BinaryOp = PlusStr | MinusStr | MultStr | DivStr | ModStr | OtherBinary string
datatype JoinOp = JoinStr | LeftJoinStr | RightJoinStr | OtherJoin string

record ColName =
  cn_Name :: string
  cn_Qualifier :: string

datatype SqlExpr =
    NullVal
  | ColNameExpr ColName
  | SQLVal ValType bytes
  | SqlComparison ComparisonOp SqlExpr SqlExpr
  | AndExpr SqlExpr SqlExpr
  | OrExpr SqlExpr SqlExpr
  | NotExpr SqlExpr
  | BinaryExpr BinaryOp SqlExpr SqlExpr
  | IsExpr SqlExpr
  | ParenExpr SqlExpr
  | FuncExpr string "SelectExpr list"
  | OtherExpr string
and SelectExpr =
    StarExpr string
  | AliasedExpr SqlExpr string
  | OtherSelectExpr string

record SqlOrder =
  so_Expr :: SqlExpr
  so_Desc :: bool

record SqlLimit =
  sl_Offset :: "SqlExpr option"
  sl_Rowcount :: "SqlExpr option"

record SelectClauses =
  sel_Exprs :: "SelectExpr list"
  sel_Where :: "SqlExpr option"
  sel_GroupBy :: "SqlExpr list"
  sel_Having :: "SqlExpr option"
  sel_OrderBy :: "SqlOrder list"
  sel_Limit :: "SqlLimit option"

datatype TableExpr =
    AliasedTableExpr TableSource string
  | JoinTableExpr TableExpr JoinOp TableExpr "SqlExpr option" "string list"
  | ParenTableExpr "TableExpr list"
  | OtherTableExpr string
and TableSource =
    TableName string
  | Subquery SelectStatement
  | OtherSource string
and SelectStatement =
    Select "TableExpr list" SelectClauses
  | ParenSelect SelectStatement
  | OtherSelect string

datatype InsertRows = SelectRows SelectStatement | ValuesRows "SqlExpr list list" | OtherRows string

record InsertStatement =
  ins_Table :: string
  ins_Columns :: "string list"
  ins_Rows :: InsertRows

record DeleteStatement =
  del_TableExprs :: "TableExpr list"
  del_Where :: "SqlExpr option"
  del_OrderBy :: "SqlOrder list"
  del_Limit :: "SqlLimit option"

record UpdateStatement =
  upd_TableExprs :: "TableExpr list"
  upd_Exprs :: "(ColName \<times> SqlExpr) list"
  upd_Where :: "SqlExpr option"

datatype Statement =
    SelectStmt SelectStatement
  | InsertStmt InsertStatement
  | DeleteStmt DeleteStatement
  | UpdateStmt UpdateStatement
  | OtherStmt string

record sqlparser =
  EqualString :: "string \<Rightarrow> string \<Rightarrow> bool"
  ColIdent_CompliantName :: "string \<Rightarrow> string"
  TableIdent_CompliantName :: "string \<Rightarrow> string"
  Expr_text :: "SqlExpr \<Rightarrow> string"
  SelectExpr_text :: "SelectExpr \<Rightarrow> string"
  Query_text :: "SelectStatement \<Rightarrow> string"
  Aggregates_of_select :: "SelectExpr \<Rightarrow> (string \<times> SelectExpr list) list"
  Aggregates_of_expr :: "SqlExpr \<Rightarrow> (string \<times> SelectExpr list) list"

section \<open>Strings\<close>

definition text_of :: "bytes \<Rightarrow> string" where
  "text_of = map (\<lambda>b. char_of (unat b))"

definition signed_decimal :: "int \<Rightarrow> string" where
  "signed_decimal i = (if i < 0 then ''-'' @ decimal (nat (- i)) else decimal (nat i))"

definition ToLower :: "string \<Rightarrow> string" where
  "ToLower = map (\<lambda>c. char_of (ascii_lower c))"

definition ToUpper :: "string \<Rightarrow> string" where
  "ToUpper = map (\<lambda>c. let n = of_char c :: nat in if 97 \<le> n \<and> n \<le> 122 then char_of (n - 32) else c)"

text \<open>\<open>strconv.ParseInt\<close> in base 10 with 64 bits.\<close>

datatype num_error = ErrSyntax | ErrRange

fun parse_digits :: "bytes \<Rightarrow> nat \<Rightarrow> num_error + nat" where
  "parse_digits [] n = Inr n"
| "parse_digits (c # cs) n =
     (if unat c < 48 \<or> 57 < unat c then Inl ErrSyntax
      else let m = 10 * n + (unat c - 48) in if 2 ^ 64 \<le> m then Inl ErrRange else parse_digits cs m)"

definition ParseUint :: "bytes \<Rightarrow> num_error + nat" where
  "ParseUint s = (if s = [] then Inl ErrSyntax else parse_digits s 0)"

definition ParseInt :: "bytes \<Rightarrow> num_error + int64" where
  "ParseInt s =
     (let neg = (s \<noteq> [] \<and> hd s = 45);
          digits = (if s \<noteq> [] \<and> (hd s = 43 \<or> hd s = 45) then List.tl s else s)
      in case ParseUint digits of
           Inl err \<Rightarrow> Inl err
         | Inr un \<Rightarrow>
             if \<not> neg \<and> 2 ^ 63 \<le> un then Inl ErrRange
             else if neg \<and> 2 ^ 63 < un then Inl ErrRange
             else Inr (if neg then - of_nat un else of_nat un))"

definition num_error_text :: "bytes \<Rightarrow> num_error \<Rightarrow> string" where
  "num_error_text s err = ''strconv.ParseInt: parsing '' @ [CHR 0x22] @ text_of s @ [CHR 0x22] @
     (case err of ErrSyntax \<Rightarrow> '': invalid syntax'' | ErrRange \<Rightarrow> '': value out of range'')"

section \<open>Printing of expressions\<close>

text \<open>The names of the output columns of an aggregation are printed expressions, and they are how \<open>HAVING\<close> and the select list
  find them. A printed value that is neither an integer nor a string panics.\<close>

definition Value_String :: "Value \<Rightarrow> string option" where
  "Value_String v =
     (if v_t v = StringType
      then (if v_null v then Some ''NULL(string)'' else do { s \<leftarrow> Value_StringValue v; Some (quoted (text_of s)) })
      else if v_null v then Some ''NULL(int)''
      else do { i \<leftarrow> Value_IntValue v; Some (signed_decimal (sint i)) })"

definition LogicalColumn_String :: "LogicalColumn \<Rightarrow> string" where
  "LogicalColumn_String c = (case origin c of
     Some t \<Rightarrow> if tr_alias t \<noteq> [] then tr_alias t @ ''.'' @ cname c else cname c
   | None \<Rightarrow> cname c)"

definition binary_text :: "string option \<Rightarrow> string \<Rightarrow> string option \<Rightarrow> string option" where
  "binary_text l op r = do { a \<leftarrow> l; b \<leftarrow> r; Some (''('' @ a @ '' '' @ op @ '' '' @ b @ '')'') }"

fun Expr_String :: "Expr \<Rightarrow> string option" where
  "Expr_String (BoundValueExpr off ty nm) = Some (''{'' @ nm @ '': offset '' @ signed_decimal off @ '' type '' @ Type_String ty @ ''}'')"
| "Expr_String (ConstantValueExpr v) = Value_String v"
| "Expr_String (LogicalColumnExpr c) = Some (LogicalColumn_String c)"
| "Expr_String (ComparisonExpression l r k) = binary_text (Expr_String l) (ComparisonType_String k) (Expr_String r)"
| "Expr_String (BinaryLogicExpression l r k) = binary_text (Expr_String l) (BinaryLogicType_String k) (Expr_String r)"
| "Expr_String (NegationExpression e) = do { s \<leftarrow> Expr_String e; Some (''!('' @ s @ '')'') }"
| "Expr_String (NullCheckExpression e k) = do { s \<leftarrow> Expr_String e; Some (''('' @ s @ '' '' @ NullCheckType_String k @ '')'') }"
| "Expr_String (ArithmeticExpression l r k) = binary_text (Expr_String l) (ArithmeticType_String k) (Expr_String r)"
| "Expr_String (StringConcatExpression l r) = binary_text (Expr_String l) ''||'' (Expr_String r)"
| "Expr_String (LikeExpression l r _) = binary_text (Expr_String l) ''LIKE'' (Expr_String r)"

fun AggregatorType_String :: "AggregatorType \<Rightarrow> string" where
  "AggregatorType_String AggCount = ''COUNT''"
| "AggregatorType_String AggSum = ''SUM''"
| "AggregatorType_String AggMin = ''MIN''"
| "AggregatorType_String AggMax = ''MAX''"

section \<open>Scopes and columns\<close>

text \<open>A table reference with its schema, as a scope lists it.\<close>

record SourceTable =
  st_ref :: TableRef
  st_schema :: LogicalSchema

type_synonym FromScope = "SourceTable list"

type_synonym 'a binding = "(plan_error + 'a) option"

definition failed :: "string \<Rightarrow> 'a binding" where
  "failed msg = Some (Inl (PlanError msg))"

text \<open>The two loops of a search that stops at the second match.\<close>

fun bind_schema :: "(LogicalColumn \<Rightarrow> bool) \<Rightarrow> string \<Rightarrow> LogicalSchema \<Rightarrow> LogicalColumn option \<Rightarrow> string + LogicalColumn option" where
  "bind_schema is_col ambiguous [] found = Inr found"
| "bind_schema is_col ambiguous (c # cs) found =
     (if is_col c then (if found \<noteq> None then Inl ambiguous else bind_schema is_col ambiguous cs (Some c))
      else bind_schema is_col ambiguous cs found)"

fun bind_tables :: "(SourceTable \<Rightarrow> bool) \<Rightarrow> (LogicalColumn \<Rightarrow> bool) \<Rightarrow> string \<Rightarrow> FromScope \<Rightarrow> LogicalColumn option \<Rightarrow> string + LogicalColumn option" where
  "bind_tables skip is_col ambiguous [] found = Inr found"
| "bind_tables skip is_col ambiguous (ref # rs) found =
     (if skip ref then bind_tables skip is_col ambiguous rs found
      else (case bind_schema is_col ambiguous (st_schema ref) found of
          Inl err \<Rightarrow> Inl err
        | Inr found \<Rightarrow> bind_tables skip is_col ambiguous rs found))"

definition HasPrefix :: "string \<Rightarrow> string \<Rightarrow> bool" where
  "HasPrefix s p \<longleftrightarrow> take (length p) s = p"

definition bindColumn :: "sqlparser \<Rightarrow> ColName \<Rightarrow> FromScope \<Rightarrow> string + LogicalColumn" where
  "bindColumn L col scope =
     (let tableAlias = cn_Qualifier col;
          skip = (\<lambda>ref. tableAlias \<noteq> [] \<and> \<not> HasPrefix (tr_alias (st_ref ref)) ''agg'' \<and> tr_alias (st_ref ref) \<noteq> tableAlias)
      in case bind_tables skip (\<lambda>c. EqualString L (cn_Name col) (cname c)) (''ambiguous column reference '' @ quoted (cn_Name col)) scope None of
           Inl err \<Rightarrow> Inl err
         | Inr None \<Rightarrow> Inl (''column '' @ quoted (cn_Name col) @ '' not found in scope'')
         | Inr (Some c) \<Rightarrow> Inr c)"

definition bindUnqualifiedCol :: "sqlparser \<Rightarrow> string \<Rightarrow> FromScope \<Rightarrow> string + LogicalColumn" where
  "bindUnqualifiedCol L col scope =
     (case bind_tables (\<lambda>_. False) (\<lambda>c. EqualString L col (cname c)) (''Ambiguous column reference '' @ quoted col) scope None of
        Inl err \<Rightarrow> Inl err
      | Inr None \<Rightarrow> Inl (''Column '' @ quoted col @ '' not found in scope'')
      | Inr (Some c) \<Rightarrow> Inr c)"

text \<open>An error of these two is passed on as it is, or with text before it.\<close>

definition bound :: "string \<Rightarrow> string + 'a \<Rightarrow> 'a binding" where
  "bound prefix r = (case r of Inl err \<Rightarrow> failed (prefix @ err) | Inr x \<Rightarrow> Some (Inr x))"

section \<open>Expressions\<close>

definition findInScope :: "FromScope \<Rightarrow> string \<Rightarrow> LogicalColumn option" where
  "findInScope scope name = find (\<lambda>col. EqualFold (cname col) name) (concat (map st_schema scope))"

definition bindConstant :: "ValType \<Rightarrow> bytes \<Rightarrow> Expr binding" where
  "bindConstant ty val =
     (case ty of
        StrVal \<Rightarrow> do { v \<leftarrow> NewStringValue val; Some (Inr (ConstantValueExpr v)) }
      | HexVal \<Rightarrow> do { v \<leftarrow> NewStringValue val; Some (Inr (ConstantValueExpr v)) }
      | IntVal \<Rightarrow> (case ParseInt val of
            Inl err \<Rightarrow> failed (num_error_text val err)
          | Inr i \<Rightarrow> Some (Inr (ConstantValueExpr (NewIntValue i))))
      | OtherVal t \<Rightarrow> failed (''unsupported constant type: '' @ t))"

fun sqlOpToComparisonType :: "ComparisonOp \<Rightarrow> ComparisonType binding" where
  "sqlOpToComparisonType EqualStr = Some (Inr Equal)"
| "sqlOpToComparisonType NotEqualStr = Some (Inr NotEqual)"
| "sqlOpToComparisonType GreaterThanStr = Some (Inr GreaterThan)"
| "sqlOpToComparisonType LessThanStr = Some (Inr LessThan)"
| "sqlOpToComparisonType GreaterEqualStr = Some (Inr GreaterThanOrEqual)"
| "sqlOpToComparisonType LessEqualStr = Some (Inr LessThanOrEqual)"
| "sqlOpToComparisonType (OtherComparison op) = failed (''unsupported comparison operator: '' @ [CHR 0x22] @ op @ [CHR 0x22])"

fun arithmetic_op :: "BinaryOp \<Rightarrow> ArithmeticType binding" where
  "arithmetic_op PlusStr = Some (Inr Add)"
| "arithmetic_op MinusStr = Some (Inr Sub)"
| "arithmetic_op MultStr = Some (Inr Mult)"
| "arithmetic_op DivStr = Some (Inr Div)"
| "arithmetic_op ModStr = Some (Inr Mod)"
| "arithmetic_op (OtherBinary op) = failed (''Unsupported binary operator: '' @ op)"

definition bind_function :: "sqlparser \<Rightarrow> FromScope \<Rightarrow> string \<Rightarrow> SelectExpr list \<Rightarrow> Expr binding" where
  "bind_function L scope name exprs =
     (let funcName = Expr_text L (FuncExpr name exprs);
          count = (if EqualFold name ''COUNT''
            then (case exprs of
                [StarExpr _] \<Rightarrow> findInScope scope ''COUNT(1)''
              | [AliasedExpr e alias] \<Rightarrow> findInScope scope (''COUNT('' @ SelectExpr_text L (AliasedExpr e alias) @ '')'')
              | _ \<Rightarrow> None)
            else None)
      in case findInScope scope funcName of
           Some c \<Rightarrow> Some (Inr (LogicalColumnExpr c))
         | None \<Rightarrow> (case count of
               Some c \<Rightarrow> Some (Inr (LogicalColumnExpr c))
             | None \<Rightarrow> failed (''Unsupported function: '' @ funcName)))"

definition both :: "'a binding \<Rightarrow> 'b binding \<Rightarrow> ('a \<Rightarrow> 'b \<Rightarrow> 'c binding) \<Rightarrow> 'c binding" where
  "both l r f = fused l (\<lambda>a. fused r (f a))"

fun bindExpr :: "sqlparser \<Rightarrow> FromScope \<Rightarrow> SqlExpr \<Rightarrow> Expr binding" where
  "bindExpr L scope NullVal = failed ''NULL support not merged yet''"
| "bindExpr L scope (ColNameExpr col) = fused (bound [] (bindColumn L col scope)) (\<lambda>c. Some (Inr (LogicalColumnExpr c)))"
| "bindExpr L scope (SQLVal ty val) = bindConstant ty val"
| "bindExpr L scope (SqlComparison op l r) = both (bindExpr L scope l) (bindExpr L scope r) (\<lambda>left right.
     if OutputType left \<noteq> OutputType right then failed ''bindExpr: two children of ComparisonExpr do not have the same type.''
     else fused (sqlOpToComparisonType op) (\<lambda>comparisonType. Some (Inr (ComparisonExpression left right comparisonType))))"
| "bindExpr L scope (AndExpr l r) = both (bindExpr L scope l) (bindExpr L scope r) (\<lambda>left right.
     Some (Inr (BinaryLogicExpression left right And)))"
| "bindExpr L scope (OrExpr l r) = both (bindExpr L scope l) (bindExpr L scope r) (\<lambda>left right.
     Some (Inr (BinaryLogicExpression left right Or)))"
| "bindExpr L scope (NotExpr e) = fused (bindExpr L scope e) (\<lambda>child. Some (Inr (NegationExpression child)))"
| "bindExpr L scope (BinaryExpr op l r) = both (bindExpr L scope l) (bindExpr L scope r) (\<lambda>left right.
     fused (arithmetic_op op) (\<lambda>arith. Some (Inr (ArithmeticExpression left right arith))))"
| "bindExpr L scope (IsExpr e) = failed ''IS expression not supported yet''"
| "bindExpr L scope (ParenExpr e) = bindExpr L scope e"
| "bindExpr L scope (FuncExpr name exprs) = bind_function L scope name exprs"
| "bindExpr L scope (OtherExpr t) = failed (''Unsupported expression type: '' @ t)"

fun bind_exprs :: "sqlparser \<Rightarrow> FromScope \<Rightarrow> SqlExpr list \<Rightarrow> Expr list binding" where
  "bind_exprs L scope [] = Some (Inr [])"
| "bind_exprs L scope (e # es) = both (bindExpr L scope e) (bind_exprs L scope es) (\<lambda>e' es'. Some (Inr (e' # es')))"

section \<open>The builder\<close>

record LogicalPlanBuilder =
  lb_catalog :: Catalog
  currentTableRefID :: uint64

definition NewLogicalPlanBuilder :: "Catalog \<Rightarrow> LogicalPlanBuilder" where
  "NewLogicalPlanBuilder cat = \<lparr>lb_catalog = cat, currentTableRefID = 1\<rparr>"

definition getNextTableRefID :: "LogicalPlanBuilder \<Rightarrow> uint64 \<times> LogicalPlanBuilder" where
  "getNextTableRefID b = (currentTableRefID b, b\<lparr>currentTableRefID := currentTableRefID b + 1\<rparr>)"

text \<open>The table of a name; the other errors of the catalog do not occur here.\<close>

definition table_named :: "Catalog \<Rightarrow> string \<Rightarrow> Table binding" where
  "table_named cat name = (case GetTableMetadata name cat of
     Inl (GoDB err) \<Rightarrow> Some (Inl (CatalogError err))
   | Inl _ \<Rightarrow> None
   | Inr a \<Rightarrow> do { t \<leftarrow> idx (Tables cat) a; Some (Inr t) })"

definition column_of :: "TableRef \<Rightarrow> string \<Rightarrow> Type \<Rightarrow> LogicalColumn" where
  "column_of ref name ty = \<lparr>cname = name, ctype = ty, origin = Some ref\<rparr>"

definition table_schema :: "TableRef \<Rightarrow> Table \<Rightarrow> LogicalSchema" where
  "table_schema ref t = map (\<lambda>col. column_of ref (col_Name col) (col_Type col)) (tb_Columns t)"

definition NewLogicalScanNode :: "SourceTable \<Rightarrow> bool \<Rightarrow> ScanNode" where
  "NewLogicalScanNode ref forUpdate = \<lparr>sn_TableRef = st_ref ref, sn_schema = st_schema ref, sn_projection = None,
     sn_Predicates = [], sn_ForUpdate = forUpdate\<rparr>"

definition NewLogicalSubqueryNode :: "SourceTable \<Rightarrow> LogicalPlanNode \<Rightarrow> LogicalPlanNode" where
  "NewLogicalSubqueryNode ref child = LogicalUnaryNode (SubqueryOp (st_ref ref)) (st_schema ref) child"

type_synonym 'a building = "LogicalPlanBuilder \<Rightarrow> (plan_error + 'a \<times> LogicalPlanBuilder) option"

definition base_table :: "string \<Rightarrow> string \<Rightarrow> (FromScope \<times> LogicalPlanNode) building" where
  "base_table tableName alias b = fused (table_named (lb_catalog b) tableName) (\<lambda>t.
     let (i, b) = getNextTableRefID b;
         ref = \<lparr>tr_table = Some (tb_Oid t), tr_alias = (if alias = [] then tableName else alias), refID = i\<rparr>;
         source = \<lparr>st_ref = ref, st_schema = table_schema ref t\<rparr>
     in Some (Inr (([source], LogicalScanNode (NewLogicalScanNode source False)), b)))"

definition derived_table :: "string \<Rightarrow> string \<Rightarrow> LogicalPlanNode \<Rightarrow> (FromScope \<times> LogicalPlanNode) building" where
  "derived_table query alias subPlan b =
     (let (i, b) = getNextTableRefID b;
          ref = \<lparr>tr_table = None, tr_alias = alias, refID = i\<rparr>;
          source = \<lparr>st_ref = ref, st_schema = map (\<lambda>childCol. column_of ref (cname childCol) (ctype childCol)) (OutputSchema subPlan)\<rparr>
      in if alias = [] then failed (''Unexpected unaliased subquery: '' @ query)
         else Some (Inr (([source], NewLogicalSubqueryNode source subPlan), b)))"

fun using_conditions :: "sqlparser \<Rightarrow> string list \<Rightarrow> FromScope \<Rightarrow> FromScope \<Rightarrow> Expr list binding" where
  "using_conditions L [] leftScope rightScope = Some (Inr [])"
| "using_conditions L (col # cols) leftScope rightScope =
     both (bound (''In USING, column '' @ col @ '' not found in left table: '') (bindUnqualifiedCol L col leftScope))
          (bound (''In USING, column '' @ col @ '' not found in right table: '') (bindUnqualifiedCol L col rightScope)) (\<lambda>leftCol rightCol.
       if ctype leftCol \<noteq> ctype rightCol then failed (''In USING clause '' @ col @ '', matching columns have different types.'')
       else fused (using_conditions L cols leftScope rightScope) (\<lambda>conds.
         Some (Inr (ComparisonExpression (LogicalColumnExpr leftCol) (LogicalColumnExpr rightCol) Equal # conds))))"

fun join_type :: "JoinOp \<Rightarrow> JoinType binding" where
  "join_type LeftJoinStr = Some (Inr Left)"
| "join_type RightJoinStr = Some (Inr Right)"
| "join_type JoinStr = Some (Inr Inner)"
| "join_type (OtherJoin op) = failed (''Unsupported join type: '' @ op)"

definition optional :: "'a option \<Rightarrow> ('a \<Rightarrow> 'b binding) \<Rightarrow> 'b option binding" where
  "optional x f = (case x of None \<Rightarrow> Some (Inr None) | Some a \<Rightarrow> fused (f a) (\<lambda>v. Some (Inr (Some v))))"

definition explicit_join :: "sqlparser \<Rightarrow> JoinOp \<Rightarrow> SqlExpr option \<Rightarrow> string list \<Rightarrow> FromScope \<times> LogicalPlanNode \<Rightarrow> FromScope \<times> LogicalPlanNode \<Rightarrow>
    (FromScope \<times> LogicalPlanNode) binding" where
  "explicit_join L op on' usings left right =
     (case (left, right) of ((leftScope, leftPlan), (rightScope, rightPlan)) \<Rightarrow>
        let mergedScope = leftScope @ rightScope
        in both (optional on' (bindExpr L mergedScope)) (using_conditions L usings leftScope rightScope) (\<lambda>condition conds.
          fused (join_type op) (\<lambda>joinType.
            Some (Inr (mergedScope, LogicalJoinNode leftPlan rightPlan ((case condition of None \<Rightarrow> [] | Some c \<Rightarrow> [c]) @ conds) joinType)))))"

section \<open>Clauses\<close>

fun order_clauses :: "sqlparser \<Rightarrow> FromScope \<Rightarrow> SqlOrder list \<Rightarrow> OrderByClause list binding" where
  "order_clauses L scope [] = Some (Inr [])"
| "order_clauses L scope (ob # obs) = both (bindExpr L scope (so_Expr ob)) (order_clauses L scope obs) (\<lambda>expr clauses.
     Some (Inr (\<lparr>ob_Expr = expr, ob_Direction = (if so_Desc ob then SortOrderDescending else SortOrderAscending)\<rparr> # clauses)))"

definition planOrder :: "sqlparser \<Rightarrow> SqlOrder list \<Rightarrow> LogicalPlanNode \<Rightarrow> FromScope \<Rightarrow> LogicalPlanNode binding" where
  "planOrder L obs child scope =
     (if obs = [] then Some (Inr child)
      else fused (order_clauses L scope obs) (\<lambda>clauses. Some (Inr (NewLogicalSortNode child clauses))))"

fun resolveConstantInt :: "SqlExpr \<Rightarrow> int binding" where
  "resolveConstantInt (SQLVal IntVal val) = (case ParseInt val of
       Inl err \<Rightarrow> failed (num_error_text val err)
     | Inr i \<Rightarrow> Some (Inr (sint i)))"
| "resolveConstantInt _ = failed ''Expression input for resolveConstantInt is not a constant integer.''"

definition planLimit :: "SqlLimit option \<Rightarrow> LogicalPlanNode \<Rightarrow> LogicalPlanNode binding" where
  "planLimit lim child =
     (case lim of
        None \<Rightarrow> Some (Inr child)
      | Some l \<Rightarrow> both (optional (sl_Rowcount l) resolveConstantInt) (optional (sl_Offset l) resolveConstantInt) (\<lambda>limit offset.
          Some (Inr (NewLogicalLimitNode child (case limit of None \<Rightarrow> 0 | Some n \<Rightarrow> n) (case offset of None \<Rightarrow> 0 | Some n \<Rightarrow> n)))))"

definition planFilter :: "sqlparser \<Rightarrow> SqlExpr option \<Rightarrow> FromScope \<Rightarrow> LogicalPlanNode \<Rightarrow> LogicalPlanNode binding" where
  "planFilter L wh scope plan = fused (optional wh (bindExpr L scope)) (\<lambda>pred.
     Some (Inr (case pred of None \<Rightarrow> plan | Some p \<Rightarrow> LogicalFilterNode plan p)))"

section \<open>Aggregation\<close>

definition resolveAggregatorType :: "string \<Rightarrow> AggregatorType binding" where
  "resolveAggregatorType funcName =
     (if ToLower funcName = ''count'' then Some (Inr AggCount)
      else if ToLower funcName = ''sum'' then Some (Inr AggSum)
      else if ToLower funcName = ''min'' then Some (Inr AggMin)
      else if ToLower funcName = ''max'' then Some (Inr AggMax)
      else failed (''Unrecognized aggregator function: '' @ funcName))"

text \<open>The first argument is read without a look at the number of arguments.\<close>

fun aggregate_argument :: "sqlparser \<Rightarrow> FromScope \<Rightarrow> string \<Rightarrow> SelectExpr list \<Rightarrow> Expr binding" where
  "aggregate_argument L scope name [StarExpr _] =
     (if ToUpper name \<noteq> ''COUNT'' then failed (quoted ''*'' @ '' argument is only allowed in COUNT'')
      else Some (Inr (ConstantValueExpr (NewIntValue 1))))"
| "aggregate_argument L scope name (AliasedExpr e _ # _) = bindExpr L scope e"
| "aggregate_argument L scope name (_ # _) = failed ''unexpected argument type in aggregate''"
| "aggregate_argument L scope name [] = None"

fun findAggs :: "sqlparser \<Rightarrow> FromScope \<Rightarrow> (string \<times> SelectExpr list) list \<Rightarrow> AggregateClause list binding" where
  "findAggs L scope [] = Some (Inr [])"
| "findAggs L scope ((name, exprs) # calls) =
     both (aggregate_argument L scope name exprs) (resolveAggregatorType (ColIdent_CompliantName L name)) (\<lambda>argExpr aggType.
       fused (findAggs L scope calls) (\<lambda>clauses. Some (Inr (\<lparr>ac_Type = aggType, ac_Expr = argExpr\<rparr> # clauses))))"

definition group_column :: "Expr \<Rightarrow> LogicalColumn option" where
  "group_column e = (case e of
     LogicalColumnExpr c \<Rightarrow> Some \<lparr>cname = cname c, ctype = OutputType e, origin = origin c\<rparr>
   | _ \<Rightarrow> do { s \<leftarrow> Expr_String e; Some \<lparr>cname = s, ctype = OutputType e, origin = None\<rparr> })"

definition aggregate_column :: "AggregateClause \<Rightarrow> LogicalColumn option" where
  "aggregate_column agg = do {
     s \<leftarrow> Expr_String (ac_Expr agg);
     Some \<lparr>cname = AggregatorType_String (ac_Type agg) @ ''('' @ s @ '')'', ctype = OutputType (ac_Expr agg), origin = None\<rparr>
   }"

definition NewLogicalAggregationNode :: "LogicalPlanNode \<Rightarrow> Expr list \<Rightarrow> AggregateClause list \<Rightarrow> LogicalPlanNode option" where
  "NewLogicalAggregationNode child groupBy aggregates = do {
     groups \<leftarrow> those (map group_column groupBy);
     aggs \<leftarrow> those (map aggregate_column aggregates);
     Some (LogicalUnaryNode (AggregationOp groupBy aggregates) (groups @ aggs) child)
   }"

definition aggregate_calls :: "sqlparser \<Rightarrow> SelectClauses \<Rightarrow> (string \<times> SelectExpr list) list" where
  "aggregate_calls L sel = concat (map (Aggregates_of_select L) (sel_Exprs sel)) @
     (case sel_Having sel of None \<Rightarrow> [] | Some e \<Rightarrow> Aggregates_of_expr L e)"

definition planAggregation :: "sqlparser \<Rightarrow> SelectClauses \<Rightarrow> LogicalPlanNode \<Rightarrow> FromScope \<Rightarrow> (LogicalPlanNode \<times> FromScope) building" where
  "planAggregation L sel child scope b =
     fused (findAggs L scope (aggregate_calls L sel)) (\<lambda>aggClauses.
       if sel_GroupBy sel = [] \<and> aggregate_calls L sel = [] then Some (Inr ((child, scope), b))
       else fused (bind_exprs L scope (sel_GroupBy sel)) (\<lambda>groupByExprs. do {
         aggNode \<leftarrow> NewLogicalAggregationNode child groupByExprs aggClauses;
         let (i, b) = getNextTableRefID b;
         let newScope = [\<lparr>st_ref = \<lparr>tr_table = None, tr_alias = ''agg_'' @ decimal (unat i), refID = i\<rparr>, st_schema = OutputSchema aggNode\<rparr>];
         fused (planFilter L (sel_Having sel) newScope aggNode) (\<lambda>plan. Some (Inr ((plan, newScope), b)))
       }))"

section \<open>SELECT\<close>

definition select_alias :: "sqlparser \<Rightarrow> string \<Rightarrow> Expr \<Rightarrow> string option" where
  "select_alias L as' e =
     (let alias = ColIdent_CompliantName L as'
      in if alias \<noteq> [] then Some alias
         else (case e of LogicalColumnExpr c \<Rightarrow> Some (cname c) | _ \<Rightarrow> Expr_String e))"

definition select_origin :: "Expr \<Rightarrow> TableRef option" where
  "select_origin e = (case e of LogicalColumnExpr c \<Rightarrow> origin c | _ \<Rightarrow> None)"

fun select_items :: "sqlparser \<Rightarrow> FromScope \<Rightarrow> LogicalSchema \<Rightarrow> SelectExpr list \<Rightarrow> (Expr list \<times> LogicalSchema) binding" where
  "select_items L scope planSchema [] = Some (Inr ([], []))"
| "select_items L scope planSchema (AliasedExpr e as' # items) = fused (bindExpr L scope e) (\<lambda>projExpr. do {
     finalAlias \<leftarrow> select_alias L as' projExpr;
     fused (select_items L scope planSchema items) (\<lambda>(exprs, schema).
       Some (Inr (projExpr # exprs, \<lparr>cname = finalAlias, ctype = OutputType projExpr, origin = select_origin projExpr\<rparr> # schema)))
   })"
| "select_items L scope planSchema (StarExpr _ # items) = fused (select_items L scope planSchema items) (\<lambda>(exprs, schema).
     Some (Inr (map LogicalColumnExpr planSchema @ exprs, planSchema @ schema)))"
| "select_items L scope planSchema (OtherSelectExpr t # items) = failed (''Unexpected select expression: '' @ t)"

definition planSelect :: "sqlparser \<Rightarrow> SelectClauses \<Rightarrow> FromScope \<Rightarrow> LogicalPlanNode \<Rightarrow> LogicalPlanNode building" where
  "planSelect L sel scope plan b =
     fused (planFilter L (sel_Where sel) scope plan) (\<lambda>plan.
     fused (planAggregation L sel plan scope b) (\<lambda>((plan, scope), b).
     fused (planOrder L (sel_OrderBy sel) plan scope) (\<lambda>plan.
     fused (planLimit (sel_Limit sel) plan) (\<lambda>plan.
     fused (select_items L scope (OutputSchema plan) (sel_Exprs sel)) (\<lambda>(projExpressions, outputSchema).
       Some (Inr (NewLogicalProjectionNode plan projExpressions outputSchema, b)))))))"

fun planTableExpr :: "sqlparser \<Rightarrow> TableExpr \<Rightarrow> (FromScope \<times> LogicalPlanNode) building"
  and planFrom :: "sqlparser \<Rightarrow> TableExpr list \<Rightarrow> (FromScope \<times> LogicalPlanNode) building"
  and cross_joins :: "sqlparser \<Rightarrow> TableExpr list \<Rightarrow> FromScope \<times> LogicalPlanNode \<Rightarrow> (FromScope \<times> LogicalPlanNode) building"
  and planQuery :: "sqlparser \<Rightarrow> SelectStatement \<Rightarrow> LogicalPlanNode building" where
  "planTableExpr L (AliasedTableExpr (TableName name) alias) b = base_table (TableIdent_CompliantName L name) alias b"
| "planTableExpr L (AliasedTableExpr (Subquery query) alias) b = fused (planQuery L query b) (\<lambda>(subPlan, b).
     derived_table (Query_text L query) alias subPlan b)"
| "planTableExpr L (AliasedTableExpr (OtherSource t) alias) b = failed (''Unsupported source in FROM: '' @ t)"
| "planTableExpr L (JoinTableExpr leftExpr op rightExpr on' usings) b =
     fused (planTableExpr L leftExpr b) (\<lambda>(left, b).
     fused (planTableExpr L rightExpr b) (\<lambda>(right, b).
     fused (explicit_join L op on' usings left right) (\<lambda>joined. Some (Inr (joined, b)))))"
| "planTableExpr L (ParenTableExpr exprs) b = planFrom L exprs b"
| "planTableExpr L (OtherTableExpr t) b = failed (''Unsupported table expression: '' @ t)"
| "planFrom L [] b = failed ''FROM clause cannot be empty''"
| "planFrom L (expr # exprs) b = fused (planTableExpr L expr b) (\<lambda>(first, b). cross_joins L exprs first b)"
| "cross_joins L [] joined b = Some (Inr (joined, b))"
| "cross_joins L (expr # exprs) joined b = fused (planTableExpr L expr b) (\<lambda>(next, b).
     cross_joins L exprs (fst joined @ fst next, LogicalJoinNode (snd joined) (snd next) [] Cross) b)"
| "planQuery L (Select from' sel) b = fused (planFrom L from' b) (\<lambda>((scope, plan), b). planSelect L sel scope plan b)"
| "planQuery L (ParenSelect query) b = planQuery L query b"
| "planQuery L (OtherSelect t) b = failed (''Statement '' @ t @ '' not supported yet'')"

section \<open>INSERT\<close>

text \<open>The target columns: those of the column list, or all columns of the table.\<close>

fun insert_columns :: "sqlparser \<Rightarrow> TableRef \<Rightarrow> FromScope \<Rightarrow> string list \<Rightarrow> LogicalSchema binding" where
  "insert_columns L ref scope [] = Some (Inr [])"
| "insert_columns L ref scope (col # cols) =
     fused (bound (''In INSERT, bindUnqualifiedCol fails for column '' @ ColIdent_CompliantName L col @ '' in target table: '')
         (bindUnqualifiedCol L col scope)) (\<lambda>boundCol.
       if origin boundCol \<noteq> Some ref then failed (''In INSERT, column '' @ ColIdent_CompliantName L col @ '' does not belong to target table'')
       else fused (insert_columns L ref scope cols) (\<lambda>schema. Some (Inr (boundCol # schema))))"

fun bind_rows :: "sqlparser \<Rightarrow> SqlExpr list list \<Rightarrow> Expr list list binding" where
  "bind_rows L [] = Some (Inr [])"
| "bind_rows L (tuple # rows) = both (bind_exprs L [] tuple) (bind_rows L rows) (\<lambda>rowExprs exprs. Some (Inr (rowExprs # exprs)))"

text \<open>Without rows the node is nil, and the first use of it panics.\<close>

definition buildValues :: "Expr list list \<Rightarrow> LogicalPlanNode option" where
  "buildValues rows = (case rows of
     [] \<Rightarrow> None
   | firstRow # _ \<Rightarrow> Some (LogicalValuesNode rows
       (map (\<lambda>(i, expr). \<lparr>cname = ''values_col_'' @ decimal i, ctype = OutputType expr, origin = None\<rparr>) (enumerate 0 firstRow))))"

fun insert_source :: "sqlparser \<Rightarrow> InsertRows \<Rightarrow> LogicalPlanNode building" where
  "insert_source L (SelectRows (Select from' sel)) b = planQuery L (Select from' sel) b"
| "insert_source L (SelectRows (ParenSelect query)) b = planQuery L query b"
| "insert_source L (SelectRows (OtherSelect t)) b = failed ''INSERT with UNION is not supported yet''"
| "insert_source L (ValuesRows rows) b = fused (bind_rows L rows) (\<lambda>exprs. do { node \<leftarrow> buildValues exprs; Some (Inr (node, b)) })"
| "insert_source L (OtherRows t) b = failed ''Unexpected INSERT rows type''"

definition exactMatch :: "LogicalSchema \<Rightarrow> Column list \<Rightarrow> bool" where
  "exactMatch schema cols \<longleftrightarrow> list_all2 (\<lambda>c col. ctype c = col_Type col \<and> cname c = col_Name col) schema cols"

text \<open>The source column of each column of the table, or NULL.\<close>

definition sourceMap :: "LogicalSchema \<Rightarrow> LogicalSchema \<Rightarrow> string \<rightharpoonup> Expr" where
  "sourceMap schema sourceSchema = fold (\<lambda>(col, src) m. m(cname col \<mapsto> LogicalColumnExpr src)) (zip schema sourceSchema) Map.empty"

fun null_of :: "Type \<Rightarrow> Value binding" where
  "null_of IntType = Some (Inr NewNullInt)"
| "null_of StringType = Some (Inr NewNullString)"
| "null_of DefaultType = failed (''Unsupported column type in INSERT: '' @ Type_String DefaultType)"

fun aligned_exprs :: "(string \<rightharpoonup> Expr) \<Rightarrow> Column list \<Rightarrow> Expr list binding" where
  "aligned_exprs src [] = Some (Inr [])"
| "aligned_exprs src (tableCol # cols) = both
     (case src (col_Name tableCol) of
        Some sourceCol \<Rightarrow> Some (Inr sourceCol)
      | None \<Rightarrow> fused (null_of (col_Type tableCol)) (\<lambda>nullVal. Some (Inr (ConstantValueExpr nullVal))))
     (aligned_exprs src cols) (\<lambda>e es. Some (Inr (e # es)))"

definition planInsert :: "sqlparser \<Rightarrow> InsertStatement \<Rightarrow> LogicalPlanNode building" where
  "planInsert L ins b = fused (table_named (lb_catalog b) (ins_Table ins)) (\<lambda>t.
     let (i, b) = getNextTableRefID b;
         ref = \<lparr>tr_table = Some (tb_Oid t), tr_alias = ins_Table ins, refID = i\<rparr>;
         insertScope = [\<lparr>st_ref = ref, st_schema = table_schema ref t\<rparr>]
     in fused (if ins_Columns ins \<noteq> [] then insert_columns L ref insertScope (ins_Columns ins) else Some (Inr (table_schema ref t))) (\<lambda>schema.
        fused (insert_source L (ins_Rows ins) b) (\<lambda>(sourceNode, b).
          if length schema \<noteq> length (OutputSchema sourceNode) then failed ''Column count mismatch between INSERT target and source''
          else if exactMatch schema (tb_Columns t) then Some (Inr (NewLogicalInsertNode (tb_Oid t) sourceNode, b))
          else fused (aligned_exprs (sourceMap schema (OutputSchema sourceNode)) (tb_Columns t)) (\<lambda>projExprs.
            Some (Inr (NewLogicalInsertNode (tb_Oid t) (NewLogicalProjectionNode sourceNode projExprs (table_schema ref t)), b))))))"

section \<open>DELETE and UPDATE\<close>

text \<open>Both work on a single base table, whose scan is marked for update.\<close>

definition base_table_of :: "string \<Rightarrow> FromScope \<times> LogicalPlanNode \<Rightarrow> (SourceTable \<times> ObjectID \<times> ScanNode) binding" where
  "base_table_of stmt from' = (case from' of
     ([tableRef], LogicalScanNode scanNode) \<Rightarrow>
       (case tr_table (st_ref tableRef) of
          Some oid \<Rightarrow> Some (Inr (tableRef, oid, scanNode\<lparr>sn_ForUpdate := True\<rparr>))
        | None \<Rightarrow> failed (stmt @ '' only supports a base table now.''))
   | _ \<Rightarrow> failed (stmt @ '' only supports a base table now.''))"

definition planDelete :: "sqlparser \<Rightarrow> DeleteStatement \<Rightarrow> LogicalPlanNode building" where
  "planDelete L del b = fused (planFrom L (del_TableExprs del) b) (\<lambda>(from', b).
     fused (base_table_of ''DELETE'' from') (\<lambda>(tableRef, oid, scanNode).
     fused (planFilter L (del_Where del) [tableRef] (LogicalScanNode scanNode)) (\<lambda>plan.
     fused (planOrder L (del_OrderBy del) plan [tableRef]) (\<lambda>plan.
     fused (planLimit (del_Limit del) plan) (\<lambda>plan. Some (Inr (NewLogicalDeleteNode oid plan, b)))))))"

fun assignments :: "sqlparser \<Rightarrow> SourceTable \<Rightarrow> (ColName \<times> SqlExpr) list \<Rightarrow> (LogicalColumn \<times> Expr) list \<Rightarrow> (LogicalColumn \<times> Expr) list binding" where
  "assignments L tableRef [] assigned = Some (Inr assigned)"
| "assignments L tableRef ((name, e) # updates) assigned =
     fused (bound (''In UPDATE, bindColumn fails for column '' @ cn_Name name @ '' in target table: '') (bindColumn L name [tableRef])) (\<lambda>col.
       if origin col \<noteq> Some (st_ref tableRef) then failed (''In UPDATE, column '' @ cn_Name name @ '' does not belong to target table'')
       else fused (bindExpr L [tableRef] e) (\<lambda>valExpr. assignments L tableRef updates (AList.update col valExpr assigned)))"

definition planUpdate :: "sqlparser \<Rightarrow> UpdateStatement \<Rightarrow> LogicalPlanNode building" where
  "planUpdate L upd b = fused (planFrom L (upd_TableExprs upd) b) (\<lambda>(from', b).
     fused (base_table_of ''UPDATE'' from') (\<lambda>(tableRef, oid, scanNode).
     fused (assignments L tableRef (upd_Exprs upd) []) (\<lambda>assigned.
     fused (planFilter L (upd_Where upd) [tableRef] (LogicalScanNode scanNode)) (\<lambda>plan.
       Some (Inr (NewLogicalUpdateNode oid plan assigned, b))))))"

section \<open>Statements\<close>

fun Plan :: "sqlparser \<Rightarrow> Statement \<Rightarrow> LogicalPlanNode building" where
  "Plan L (SelectStmt query) b = planQuery L query b"
| "Plan L (InsertStmt ins) b = planInsert L ins b"
| "Plan L (DeleteStmt del) b = planDelete L del b"
| "Plan L (UpdateStmt upd) b = planUpdate L upd b"
| "Plan L (OtherStmt t) b = failed (''Statement '' @ t @ '' not supported yet'')"

text \<open>The pipeline of \<open>sql_planner.go\<close>, with the parser as a function and the rules that \<open>main.go\<close> installs.\<close>

datatype sql_error = SqlParseError string | LogicalPlanningError plan_error | PhysicalPlanningError plan_error

definition SQLPlanner_Plan :: "(string \<Rightarrow> string + Statement) \<Rightarrow> sqlparser \<Rightarrow> Catalog \<Rightarrow> nat \<Rightarrow> string \<Rightarrow> (sql_error + PlanNode) option" where
  "SQLPlanner_Plan parse L cat fuel sql = (case parse sql of
     Inl err \<Rightarrow> Some (Inl (SqlParseError err))
   | Inr stmt \<Rightarrow> (case Plan L stmt (NewLogicalPlanBuilder cat) of
       None \<Rightarrow> None
     | Some (Inl err) \<Rightarrow> Some (Inl (LogicalPlanningError err))
     | Some (Inr (logicalPlan, _)) \<Rightarrow> do {
         optimizedPlan \<leftarrow> OptimizeWithRule fuel logicalPlan;
         physicalPlan \<leftarrow> Build physicalRules cat optimizedPlan;
         Some (case physicalPlan of Inl err \<Rightarrow> Inl (PhysicalPlanningError err) | Inr P \<Rightarrow> Inr P)
       }))"

end
