(* ===== verification/Planner_Statement.thy ===== *)
theory Planner_Statement
  imports Planner_Builder
begin

text \<open>
  The builder of logical plans is correct: names resolve to the one column they can mean, every plan that is built is
  resolved (each expression uses only columns that its input offers, each table exists, and the two sides of a join share no
  table reference), and with what the builder leaves unchecked as hypotheses such a plan is planned to the end and
  returns the rows that the logical plan means. An INSERT with a column list puts each value into its column. At the end, the statements
  that the builder gets wrong.
\<close>

named_theorems succeeds \<open>what a step that succeeds has done\<close>

lemma fused_succeeds [succeeds]: "fused m f = Some (Inr y) \<longleftrightarrow> (\<exists>x. m = Some (Inr x) \<and> f x = Some (Inr y))"
  by (auto simp: fused_def split: option.splits sum.splits)

lemma both_succeeds [succeeds]: "both l r f = Some (Inr y) \<longleftrightarrow> (\<exists>a b. l = Some (Inr a) \<and> r = Some (Inr b) \<and> f a b = Some (Inr y))"
  by (auto simp: both_def fused_succeeds)

lemma bound_succeeds [succeeds]: "bound s r = Some (Inr y) \<longleftrightarrow> r = Inr y"
  by (simp add: bound_def failed_def split: sum.split)

lemma failed_succeeds [succeeds]: "failed s = Some (Inr y) \<longleftrightarrow> False"
  by (simp add: failed_def)

lemma optional_succeeds [succeeds]:
  "optional x f = Some (Inr y) \<longleftrightarrow> (case x of None \<Rightarrow> y = None | Some a \<Rightarrow> \<exists>v. f a = Some (Inr v) \<and> y = Some v)"
  by (auto simp: optional_def fused_succeeds split: option.split)

section \<open>Name resolution\<close>

text \<open>The columns of a scope, and those that a reference can mean.\<close>

definition visible :: "FromScope \<Rightarrow> LogicalSchema" where
  "visible scope = concat (map st_schema scope)"

definition only :: "'a list \<Rightarrow> string \<Rightarrow> string \<Rightarrow> string + 'a" where
  "only cs none several = (case cs of [] \<Rightarrow> Inl none | [c] \<Rightarrow> Inr c | _ \<Rightarrow> Inl several)"

definition candidates :: "(SourceTable \<Rightarrow> bool) \<Rightarrow> (LogicalColumn \<Rightarrow> bool) \<Rightarrow> FromScope \<Rightarrow> LogicalColumn list" where
  "candidates in_table is_col scope = filter is_col (visible (filter in_table scope))"

definition qualifies :: "string \<Rightarrow> SourceTable \<Rightarrow> bool" where
  "qualifies q ref \<longleftrightarrow> q = [] \<or> HasPrefix (tr_alias (st_ref ref)) ''agg'' \<or> tr_alias (st_ref ref) = q"

definition at_most_one :: "string \<Rightarrow> 'a option \<Rightarrow> 'a list \<Rightarrow> string + 'a option" where
  "at_most_one several found cs = (case (case found of None \<Rightarrow> [] | Some c \<Rightarrow> [c]) @ cs of
     [] \<Rightarrow> Inr None | [c] \<Rightarrow> Inr (Some c) | _ \<Rightarrow> Inl several)"

lemma bind_schema_eq: "bind_schema P several cs found = at_most_one several found (filter P cs)"
  by (induction P several cs found rule: bind_schema.induct) (auto simp: at_most_one_def split: option.splits list.splits)

lemma at_most_one_append:
  "(case at_most_one several found cs of Inl e \<Rightarrow> Inl e | Inr found \<Rightarrow> at_most_one several found ds) = at_most_one several found (cs @ ds)"
  by (auto simp: at_most_one_def split: option.splits list.splits)

lemma bind_tables_eq: "bind_tables skip P several scope found = at_most_one several found (candidates (\<lambda>t. \<not> skip t) P scope)"
proof (induction skip P several scope found rule: bind_tables.induct)
  case (1 skip P several found)
  then show ?case by (simp add: candidates_def visible_def at_most_one_def split: option.split)
next
  case (2 skip P several ref rs found)
  show ?case
  proof (cases "skip ref")
    case True
    then show ?thesis using 2(1) by (simp add: candidates_def)
  next
    case False
    have "bind_tables skip P several (ref # rs) found =
        (case at_most_one several found (filter P (st_schema ref)) of Inl e \<Rightarrow> Inl e
         | Inr found \<Rightarrow> at_most_one several found (candidates (\<lambda>t. \<not> skip t) P rs))"
      using False 2(2) by (auto simp: bind_schema_eq split: sum.split)
    then show ?thesis using False by (simp add: at_most_one_append candidates_def visible_def)
  qed
qed

lemma at_most_one_only:
  "(case at_most_one several None cs of Inl e \<Rightarrow> Inl e | Inr None \<Rightarrow> Inl none | Inr (Some c) \<Rightarrow> Inr c) = only cs none several"
  by (simp add: at_most_one_def only_def split: list.split)

lemma bindColumn_only:
  "bindColumn L col scope = only (candidates (qualifies (cn_Qualifier col)) (\<lambda>c. EqualString L (cn_Name col) (cname c)) scope)
     (''column '' @ quoted (cn_Name col) @ '' not found in scope'') (''ambiguous column reference '' @ quoted (cn_Name col))"
proof -
  have "(\<lambda>t. \<not> (cn_Qualifier col \<noteq> [] \<and> \<not> HasPrefix (tr_alias (st_ref t)) ''agg'' \<and> tr_alias (st_ref t) \<noteq> cn_Qualifier col)) = qualifies (cn_Qualifier col)"
    by (auto simp: qualifies_def fun_eq_iff)
  then show ?thesis unfolding bindColumn_def Let_def bind_tables_eq at_most_one_only by simp
qed

lemma bindUnqualifiedCol_only:
  "bindUnqualifiedCol L col scope = only (candidates (\<lambda>_. True) (\<lambda>c. EqualString L col (cname c)) scope)
     (''Column '' @ quoted col @ '' not found in scope'') (''Ambiguous column reference '' @ quoted col)"
  unfolding bindUnqualifiedCol_def Let_def bind_tables_eq at_most_one_only by simp

lemma only_Inr: "only cs none several = Inr c \<longleftrightarrow> cs = [c]"
  by (auto simp: only_def split: list.split)

lemma only_member: "only cs none several = Inr c \<Longrightarrow> c \<in> set cs"
  by (simp add: only_Inr)

lemma candidates_visible: "set (candidates T P scope) \<subseteq> set (visible scope)"
  by (auto simp: candidates_def visible_def)

lemma bound_visible:
  "bindColumn L col scope = Inr c \<Longrightarrow> c \<in> set (visible scope)" "bindUnqualifiedCol L name scope = Inr c \<Longrightarrow> c \<in> set (visible scope)"
  unfolding bindColumn_only bindUnqualifiedCol_only by (blast dest: only_member intro: subsetD [OF candidates_visible])+

section \<open>Expressions\<close>

text \<open>What the builder makes sure of for every expression: it is logical, reports all columns it uses, and uses only columns
  of the schema it is bound in.\<close>

definition resolves :: "LogicalSchema \<Rightarrow> Expr \<Rightarrow> bool" where
  "resolves ls e \<longleftrightarrow> built e \<and> logical e \<and> (\<forall>q \<in> set (e # SplitPredicate e). reports q) \<and> set (refs e) \<subseteq> set ls"

lemma findInScope_visible: "findInScope scope name = Some c \<Longrightarrow> c \<in> set (visible scope)"
  unfolding findInScope_def visible_def [symmetric] find_Some_iff by (metis nth_mem)

lemma bind_function_column: "bind_function L scope name es = Some (Inr e) \<Longrightarrow> \<exists>c \<in> set (visible scope). e = LogicalColumnExpr c"
  by (auto simp: bind_function_def Let_def succeeds findInScope_visible split: option.splits if_splits list.splits SelectExpr.splits)

lemma bindConstant_constant: "bindConstant ty v = Some (Inr e) \<Longrightarrow> \<exists>k. e = ConstantValueExpr k \<and> v_t k \<noteq> DefaultType"
  by (cases ty; cases "ParseInt v") (auto simp: bindConstant_def succeeds bind_eq_Some_conv NewStringValue_def split: if_splits)

lemma split_reports: "reports e \<Longrightarrow> (\<forall>l r. e = BinaryLogicExpression l r And \<longrightarrow> (\<forall>q \<in> set (SplitPredicate l @ SplitPredicate r). reports q)) \<Longrightarrow>
    \<forall>q \<in> set (SplitPredicate e). reports q"
  by (cases e rule: SplitPredicate.cases) auto

lemma resolves_simps:
  "resolves ls (LogicalColumnExpr c) \<longleftrightarrow> c \<in> set ls"
  "resolves ls (ConstantValueExpr v)"
  "resolves ls l \<Longrightarrow> resolves ls r \<Longrightarrow> resolves ls (ComparisonExpression l r k)"
  "resolves ls l \<Longrightarrow> resolves ls r \<Longrightarrow> resolves ls (BinaryLogicExpression l r b)"
  "resolves ls l \<Longrightarrow> resolves ls (NegationExpression l)"
  "resolves ls l \<Longrightarrow> resolves ls r \<Longrightarrow> resolves ls (ArithmeticExpression l r a)"
  by (cases b; auto simp: resolves_def reports_def)+

lemma bindExpr_resolves: "bindExpr L scope e = Some (Inr e') \<Longrightarrow> resolves (visible scope) e'"
proof (induction e arbitrary: e' rule: SqlExpr.induct [of _ "\<lambda>_. True"])
  case (FuncExpr name es)
  then show ?case by (auto dest!: bind_function_column simp: resolves_simps)
next
  case (SQLVal ty v)
  then show ?case by (auto dest!: bindConstant_constant simp: resolves_simps)
qed (auto simp: succeeds resolves_simps bound_visible(1) split: if_splits)

lemma bind_exprs_resolves: "bind_exprs L scope es = Some (Inr es') \<Longrightarrow> \<forall>e \<in> set es'. resolves (visible scope) e"
  by (induction es arbitrary: es') (auto simp: succeeds bindExpr_resolves)

lemma resolves_mono: "resolves ls e \<Longrightarrow> set ls \<subseteq> set ks \<Longrightarrow> resolves ks e"
  by (auto simp: resolves_def)

section \<open>Resolved plans\<close>

text \<open>What holds of every plan that is built. The numbers of the table references that a schema draws on: 0 for a column
  of no table.\<close>

definition ids :: "LogicalSchema \<Rightarrow> uint64 list" where
  "ids = map (\<lambda>c. case origin c of Some t \<Rightarrow> refID t | None \<Rightarrow> 0)"

definition apart :: "LogicalSchema \<Rightarrow> LogicalSchema \<Rightarrow> bool" where
  "apart ls rs \<longleftrightarrow> 0 \<notin> set (ids ls) \<and> 0 \<notin> set (ids rs) \<and> set (ids ls) \<inter> set (ids rs) = {}"

definition in_catalog :: "Catalog \<Rightarrow> ObjectID \<Rightarrow> bool" where
  "in_catalog cat oid \<longleftrightarrow> (case GetTableByOid oid cat of Inl _ \<Rightarrow> False | Inr _ \<Rightarrow> True)"

definition scan_resolved :: "Catalog \<Rightarrow> ScanNode \<Rightarrow> bool" where
  "scan_resolved cat n \<longleftrightarrow> sn_projection n = None \<and> sn_Predicates n = [] \<and> (case tr_table (sn_TableRef n) of
     None \<Rightarrow> False
   | Some oid \<Rightarrow> (case GetTableByOid oid cat of Inl _ \<Rightarrow> False | Inr t \<Rightarrow> sn_schema n = table_schema (sn_TableRef n) t))"

fun op_resolved :: "Catalog \<Rightarrow> logical_op \<Rightarrow> LogicalSchema \<Rightarrow> LogicalSchema \<Rightarrow> bool" where
  "op_resolved cat (ProjectionOp es) s ls \<longleftrightarrow> (\<forall>e \<in> set es. resolves ls e) \<and> length es = length s"
| "op_resolved cat (SortOp obs) s ls \<longleftrightarrow> s = ls \<and> (\<forall>ob \<in> set obs. resolves ls (ob_Expr ob))"
| "op_resolved cat (LimitOp _ _) s ls \<longleftrightarrow> s = ls"
| "op_resolved cat (AggregationOp groupBy aggs) s ls \<longleftrightarrow> (\<forall>e \<in> set (groupBy @ map ac_Expr aggs). resolves ls e) \<and>
     map OutputType (groupBy @ map ac_Expr aggs) = map ctype s"
| "op_resolved cat (SubqueryOp ref) s ls \<longleftrightarrow> s = map (\<lambda>c. column_of ref (cname c) (ctype c)) ls"
| "op_resolved cat (InsertOp oid) s ls \<longleftrightarrow> map ctype s = [IntType] \<and> in_catalog cat oid"
| "op_resolved cat (DeleteOp oid) s ls \<longleftrightarrow> map ctype s = [IntType] \<and> in_catalog cat oid"
| "op_resolved cat (UpdateOp oid updates) s ls \<longleftrightarrow> map ctype s = [IntType] \<and> in_catalog cat oid \<and> distinct (map fst updates) \<and>
     (\<forall>(c, e) \<in> set updates. c \<in> set ls \<and> resolves ls e)"

primrec resolved :: "Catalog \<Rightarrow> LogicalPlanNode \<Rightarrow> bool" where
  "resolved cat (LogicalScanNode n) \<longleftrightarrow> scan_resolved cat n"
| "resolved cat (LogicalValuesNode vs s) \<longleftrightarrow> (\<forall>es \<in> set vs. \<forall>e \<in> set es. resolves [] e)"
| "resolved cat (LogicalFilterNode c p) \<longleftrightarrow> resolved cat c \<and> resolves (OutputSchema c) p"
| "resolved cat (LogicalJoinNode l r on jt) \<longleftrightarrow> resolved cat l \<and> resolved cat r \<and>
     (\<forall>p \<in> set on. resolves (OutputSchema l @ OutputSchema r) p) \<and> apart (OutputSchema l) (OutputSchema r)"
| "resolved cat (LogicalUnaryNode op s c) \<longleftrightarrow> resolved cat c \<and> op_resolved cat op s (OutputSchema c)"

text \<open>How many table references a statement needs at most; their numbers must not wrap around.\<close>

fun table_refs :: "TableExpr \<Rightarrow> nat" and from_refs :: "TableExpr list \<Rightarrow> nat" and query_refs :: "SelectStatement \<Rightarrow> nat" where
  "table_refs (AliasedTableExpr (TableName _) _) = 1"
| "table_refs (AliasedTableExpr (Subquery query) _) = query_refs query + 1"
| "table_refs (AliasedTableExpr (OtherSource _) _) = 0"
| "table_refs (JoinTableExpr l _ r _ _) = table_refs l + table_refs r"
| "table_refs (ParenTableExpr exprs) = from_refs exprs"
| "table_refs (OtherTableExpr _) = 0"
| "from_refs [] = 0"
| "from_refs (expr # exprs) = table_refs expr + from_refs exprs"
| "query_refs (Select from' _) = from_refs from' + 1"
| "query_refs (ParenSelect query) = query_refs query"
| "query_refs (OtherSelect _) = 0"

abbreviation next_ref :: "LogicalPlanBuilder \<Rightarrow> nat" where
  "next_ref b \<equiv> unat (currentTableRefID b)"

definition room :: "LogicalPlanBuilder \<Rightarrow> nat \<Rightarrow> bool" where
  "room b k \<longleftrightarrow> catalog_ok (lb_catalog b) \<and> 0 < next_ref b \<and> next_ref b + k < 2 ^ 64"

definition advanced :: "LogicalPlanBuilder \<Rightarrow> LogicalPlanBuilder \<Rightarrow> nat \<Rightarrow> bool" where
  "advanced b b' k \<longleftrightarrow> lb_catalog b' = lb_catalog b \<and> next_ref b \<le> next_ref b' \<and> next_ref b' \<le> next_ref b + k"

text \<open>What FROM leaves: the scope lists the columns of the plan, each with the reference it belongs to, and the references
  have numbers of their own.\<close>

definition attached :: "nat \<Rightarrow> nat \<Rightarrow> FromScope \<Rightarrow> bool" where
  "attached lo hi scope \<longleftrightarrow> (\<forall>t \<in> set scope. lo \<le> unat (refID (st_ref t)) \<and> unat (refID (st_ref t)) < hi \<and>
     (\<forall>c \<in> set (st_schema t). origin c = Some (st_ref t)))"

definition from_ok :: "Catalog \<Rightarrow> nat \<Rightarrow> nat \<Rightarrow> FromScope \<times> LogicalPlanNode \<Rightarrow> bool" where
  "from_ok cat lo hi = (\<lambda>(scope, plan). resolved cat plan \<and> OutputSchema plan = visible scope \<and> attached lo hi scope \<and>
     (\<forall>t \<in> set scope. case tr_table (st_ref t) of None \<Rightarrow> True | Some oid \<Rightarrow> in_catalog cat oid))"

lemma next_ref: "room b (Suc k) \<Longrightarrow> getNextTableRefID b = (i, b') \<Longrightarrow> unat i = next_ref b \<and> advanced b b' 1 \<and> next_ref b' = Suc (next_ref b)"
  by (auto simp: getNextTableRefID_def room_def advanced_def unat_word_ariths)

lemma room_after: "room b (k + l) \<Longrightarrow> advanced b b' k \<Longrightarrow> room b' l"
  by (auto simp: room_def advanced_def)

lemma advanced_trans: "advanced b b' k \<Longrightarrow> advanced b' b'' l \<Longrightarrow> advanced b b'' (k + l)"
  by (auto simp: advanced_def)

lemma room_le: "room b k \<Longrightarrow> l \<le> k \<Longrightarrow> room b l"
  by (auto simp: room_def)

lemma advanced_le: "advanced b b' k \<Longrightarrow> k \<le> l \<Longrightarrow> advanced b b' l"
  by (auto simp: advanced_def)

lemma advanced_refl: "advanced b b k"
  by (simp add: advanced_def)

lemma visible_append [simp]: "visible (xs @ ys) = visible xs @ visible ys" "visible [t] = st_schema t"
  by (simp_all add: visible_def)

lemma attached_append: "attached lo mid xs \<Longrightarrow> attached mid hi ys \<Longrightarrow> lo \<le> mid \<Longrightarrow> mid \<le> hi \<Longrightarrow> attached lo hi (xs @ ys)"
  by (fastforce simp: attached_def)

lemma attached_ids: "attached lo hi scope \<Longrightarrow> i \<in> set (ids (visible scope)) \<Longrightarrow> lo \<le> unat i \<and> unat i < hi"
  by (auto simp: attached_def ids_def visible_def)

lemma attached_apart: "attached lo mid xs \<Longrightarrow> attached mid hi ys \<Longrightarrow> 0 < lo \<Longrightarrow> lo \<le> mid \<Longrightarrow> apart (visible xs) (visible ys)"
  unfolding apart_def by (fastforce dest: attached_ids)

lemma from_ok_le: "from_ok cat mid hi f \<Longrightarrow> lo \<le> mid \<Longrightarrow> from_ok cat lo hi f"
  by (fastforce simp: from_ok_def attached_def)

section \<open>Tables and joins\<close>

lemma table_named_oid:
  assumes "catalog_ok cat" "table_named cat name = Some (Inr t)"
  shows "GetTableByOid (tb_Oid t) cat = Inr t"
proof -
  obtain a where a: "tableMap cat name = Some a" "idx (Tables cat) a = Some t"
    using assms(2) by (auto simp: table_named_def GetTableMetadata_def bind_eq_Some_conv split: option.splits)
  then have t: "t \<in> set (Tables cat)" by (auto simp: idx_def split: if_splits)
  then show ?thesis using lookup_oids(1) [of cat t] assms(1) by (simp add: catalog_ok_def)
qed

lemma base_table_ok:
  assumes "base_table name alias b = Some (Inr (from', b'))" "room b 1"
  shows "advanced b b' 1 \<and> from_ok (lb_catalog b) (next_ref b) (next_ref b') from'"
proof -
  obtain t where t: "table_named (lb_catalog b) name = Some (Inr t)" using assms(1) by (auto simp: base_table_def fused_succeeds)
  obtain i b1 where i: "getNextTableRefID b = (i, b1)" by fastforce
  let ?ref = "\<lparr>tr_table = Some (tb_Oid t), tr_alias = (if alias = [] then name else alias), refID = i\<rparr>"
  let ?source = "\<lparr>st_ref = ?ref, st_schema = table_schema ?ref t\<rparr>"
  have f: "from' = ([?source], LogicalScanNode (NewLogicalScanNode ?source False))" "b' = b1"
    using assms(1) by (simp_all add: base_table_def t i fused_def Let_def)
  have oid: "GetTableByOid (tb_Oid t) (lb_catalog b) = Inr t" using table_named_oid [OF _ t] assms(2) by (simp add: room_def)
  show ?thesis using next_ref [OF _ i, of 0] assms(2) oid
    by (auto simp: f from_ok_def scan_resolved_def in_catalog_def NewLogicalScanNode_def attached_def table_schema_def column_of_def)
qed

lemma derived_table_ok:
  assumes "derived_table query alias p b = Some (Inr (from', b'))" "room b 1" "resolved (lb_catalog b) p"
  shows "advanced b b' 1 \<and> from_ok (lb_catalog b) (next_ref b) (next_ref b') from'"
proof -
  obtain i b1 where i: "getNextTableRefID b = (i, b1)" by fastforce
  let ?ref = "\<lparr>tr_table = None, tr_alias = alias, refID = i\<rparr>"
  let ?source = "\<lparr>st_ref = ?ref, st_schema = map (\<lambda>c. column_of ?ref (cname c) (ctype c)) (OutputSchema p)\<rparr>"
  have f: "from' = ([?source], NewLogicalSubqueryNode ?source p)" "b' = b1"
    using assms(1) by (auto simp: derived_table_def i Let_def failed_def split: if_splits)
  show ?thesis using next_ref [OF _ i, of 0] assms(2,3)
    by (auto simp: f from_ok_def NewLogicalSubqueryNode_def attached_def column_of_def)
qed

lemma using_resolves:
  "using_conditions L cols ls rs = Some (Inr conds) \<Longrightarrow> \<forall>e \<in> set conds. resolves (visible ls @ visible rs) e"
proof (induction cols arbitrary: conds)
  case (Cons col cols)
  then obtain l r cs where c: "bindUnqualifiedCol L col ls = Inr l" "bindUnqualifiedCol L col rs = Inr r"
    "using_conditions L cols ls rs = Some (Inr cs)" "conds = ComparisonExpression (LogicalColumnExpr l) (LogicalColumnExpr r) Equal # cs"
    by (auto simp: succeeds split: if_splits)
  then show ?case using Cons.IH [OF c(3)] by (auto intro!: resolves_simps(3) simp: resolves_simps(1) dest: bound_visible(2))
qed simp

lemma joined_ok:
  assumes "from_ok cat lo mid left" "from_ok cat mid hi right" "0 < lo" "lo \<le> mid" "mid \<le> hi"
    "\<forall>e \<in> set on. resolves (visible (fst left) @ visible (fst right)) e"
  shows "from_ok cat lo hi (fst left @ fst right, LogicalJoinNode (snd left) (snd right) on jt)"
  using assms attached_append [of lo mid "fst left" hi "fst right"] attached_apart [of lo mid "fst left" hi "fst right"]
  by (auto simp: from_ok_def split: prod.splits)

lemma explicit_join_ok:
  assumes "explicit_join L op on' usings left right = Some (Inr joined)" "from_ok cat lo mid left" "from_ok cat mid hi right"
    "0 < lo" "lo \<le> mid" "mid \<le> hi"
  shows "from_ok cat lo hi joined"
proof -
  obtain ls lp rs rp where p: "left = (ls, lp)" "right = (rs, rp)" by (cases left; cases right)
  obtain c conds where c: "optional on' (bindExpr L (ls @ rs)) = Some (Inr c)" "using_conditions L usings ls rs = Some (Inr conds)"
    using assms(1) by (auto simp: explicit_join_def both_succeeds Let_def p)
  obtain jt where j: "joined = (fst left @ fst right, LogicalJoinNode (snd left) (snd right) ((case c of None \<Rightarrow> [] | Some c \<Rightarrow> [c]) @ conds) jt)"
    using assms(1) c by (auto simp: explicit_join_def succeeds Let_def p)
  have "\<forall>e \<in> set ((case c of None \<Rightarrow> [] | Some c \<Rightarrow> [c]) @ conds). resolves (visible (fst left) @ visible (fst right)) e"
    using c(1) using_resolves [OF c(2)] unfolding p fst_conv visible_append(1) [symmetric] by (auto simp: succeeds dest!: bindExpr_resolves split: option.splits)
  then show ?thesis unfolding j by (rule joined_ok [OF assms(2-6)])
qed

section \<open>Clauses\<close>

definition sees :: "Catalog \<Rightarrow> FromScope \<Rightarrow> LogicalPlanNode \<Rightarrow> bool" where
  "sees cat scope plan \<longleftrightarrow> resolved cat plan \<and> OutputSchema plan = visible scope"

lemma planFilter_ok: "planFilter L wh scope plan = Some (Inr plan') \<Longrightarrow> sees cat scope plan \<Longrightarrow> sees cat scope plan'"
  by (auto simp: planFilter_def succeeds sees_def bindExpr_resolves split: option.splits)

lemma order_resolves: "order_clauses L scope obs = Some (Inr clauses) \<Longrightarrow> \<forall>ob \<in> set clauses. resolves (visible scope) (ob_Expr ob)"
  by (induction obs arbitrary: clauses) (auto simp: succeeds bindExpr_resolves)

lemma planOrder_ok: "planOrder L obs plan scope = Some (Inr plan') \<Longrightarrow> sees cat scope plan \<Longrightarrow> sees cat scope plan'"
  by (auto simp: planOrder_def succeeds sees_def NewLogicalSortNode_def order_resolves split: if_splits)

lemma planLimit_ok: "planLimit lim plan = Some (Inr plan') \<Longrightarrow> sees cat scope plan \<Longrightarrow> sees cat scope plan'"
  by (cases lim) (auto simp: planLimit_def both_succeeds sees_def NewLogicalLimitNode_def)

lemma argument_resolves: "aggregate_argument L scope name es = Some (Inr e) \<Longrightarrow> resolves (visible scope) e"
  by (cases "(L, scope, name, es)" rule: aggregate_argument.cases)
    (auto simp: succeeds resolves_simps(2) bindExpr_resolves split: if_splits)

lemma findAggs_resolves: "findAggs L scope calls = Some (Inr aggs) \<Longrightarrow> \<forall>a \<in> set aggs. resolves (visible scope) (ac_Expr a)"
  by (induction L scope calls arbitrary: aggs rule: findAggs.induct) (auto simp: succeeds argument_resolves)

lemma group_column_type: "group_column e = Some c \<Longrightarrow> ctype c = OutputType e"
  by (auto simp: group_column_def bind_eq_Some_conv split: Expr.splits)

lemma aggregate_column_type: "aggregate_column a = Some c \<Longrightarrow> ctype c = OutputType (ac_Expr a)"
  by (auto simp: aggregate_column_def bind_eq_Some_conv)

lemma those_map: "those (map f xs) = Some ys \<Longrightarrow> (\<And>x y. f x = Some y \<Longrightarrow> g y = h x) \<Longrightarrow> map g ys = map h xs"
  by (auto simp: those_eq_Some list_eq_iff_nth_eq)

lemma aggregation_node:
  assumes "NewLogicalAggregationNode child groups aggs = Some p"
  shows "\<exists>s. p = LogicalUnaryNode (AggregationOp groups aggs) s child \<and> map ctype s = map OutputType (groups @ map ac_Expr aggs)"
proof -
  obtain gs as' where "those (map group_column groups) = Some gs" "those (map aggregate_column aggs) = Some as'"
    "p = LogicalUnaryNode (AggregationOp groups aggs) (gs @ as') child"
    using assms by (auto simp: NewLogicalAggregationNode_def bind_eq_Some_conv)
  then show ?thesis using those_map [of group_column groups gs ctype OutputType] those_map [of aggregate_column aggs as' ctype "OutputType \<circ> ac_Expr"]
    by (auto simp: group_column_type aggregate_column_type)
qed

lemma planAggregation_ok:
  assumes "planAggregation L sel plan scope b = Some (Inr ((plan', scope'), b'))" "sees (lb_catalog b) scope plan" "room b 1"
  shows "advanced b b' 1 \<and> sees (lb_catalog b) scope' plan'"
proof -
  obtain aggs where aggs: "findAggs L scope (aggregate_calls L sel) = Some (Inr aggs)"
    using assms(1) by (auto simp: planAggregation_def fused_succeeds)
  show ?thesis
  proof (cases "sel_GroupBy sel = [] \<and> aggregate_calls L sel = []")
    case True
    then show ?thesis using assms aggs by (auto simp: planAggregation_def fused_def advanced_refl)
  next
    case False
    obtain i b1 where i: "getNextTableRefID b = (i, b1)" by fastforce
    obtain groups node where g: "bind_exprs L scope (sel_GroupBy sel) = Some (Inr groups)" "NewLogicalAggregationNode plan groups aggs = Some node"
      "planFilter L (sel_Having sel) scope' node = Some (Inr plan')" "b' = b1" "visible scope' = OutputSchema node"
      using assms(1) aggs False by (auto simp: planAggregation_def fused_succeeds i Let_def bind_eq_Some_conv visible_def)
    obtain s where s: "node = LogicalUnaryNode (AggregationOp groups aggs) s plan" "map ctype s = map OutputType (groups @ map ac_Expr aggs)"
      using aggregation_node [OF g(2)] by blast
    have "sees (lb_catalog b) scope' node"
      using assms(2) s g(5) bind_exprs_resolves [OF g(1)] findAggs_resolves [OF aggs] by (auto simp: sees_def)
    then show ?thesis using planFilter_ok [OF g(3)] next_ref [OF _ i, of 0] assms(3) g(4) by simp
  qed
qed

lemma select_items_ok:
  assumes "select_items L scope (visible scope) items = Some (Inr (es, s))"
  shows "(\<forall>e \<in> set es. resolves (visible scope) e) \<and> map OutputType es = map ctype s"
  using assms
proof (induction items arbitrary: es s)
  case (Cons item items)
  show ?case
  proof (cases item)
    case (AliasedExpr e as')
    then show ?thesis using Cons by (auto simp: fused_succeeds bind_eq_Some_conv bindExpr_resolves)
  next
    case (StarExpr q)
    then show ?thesis using Cons by (auto simp: fused_succeeds resolves_simps(1))
  qed (use Cons in \<open>simp add: succeeds\<close>)
qed simp

lemma planSelect_ok:
  assumes "planSelect L sel scope plan b = Some (Inr (p, b'))" "sees (lb_catalog b) scope plan" "room b 1"
  shows "advanced b b' 1 \<and> resolved (lb_catalog b) p"
proof -
  obtain p1 p2 scope' p3 p4 es s where st: "planFilter L (sel_Where sel) scope plan = Some (Inr p1)"
    "planAggregation L sel p1 scope b = Some (Inr ((p2, scope'), b'))" "planOrder L (sel_OrderBy sel) p2 scope' = Some (Inr p3)"
    "planLimit (sel_Limit sel) p3 = Some (Inr p4)" "select_items L scope' (OutputSchema p4) (sel_Exprs sel) = Some (Inr (es, s))"
    "p = NewLogicalProjectionNode p4 es s"
    using assms(1) by (auto simp: planSelect_def fused_succeeds)
  note ag = planAggregation_ok [OF st(2) planFilter_ok [OF st(1) assms(2)] assms(3)]
  then have "sees (lb_catalog b) scope' p4" using planOrder_ok [OF st(3)] planLimit_ok [OF st(4)] by blast
  then show ?thesis using ag select_items_ok [of L scope' "sel_Exprs sel" es s] st(5,6) map_eq_imp_length_eq
    by (fastforce simp: sees_def NewLogicalProjectionNode_def)
qed

section \<open>Every plan is resolved\<close>

lemma plan_from_ok:
  "planTableExpr L te b = Some (Inr (from', b')) \<Longrightarrow> room b (table_refs te) \<Longrightarrow>
     advanced b b' (table_refs te) \<and> from_ok (lb_catalog b) (next_ref b) (next_ref b') from'"
  "planFrom L tes b = Some (Inr (from', b')) \<Longrightarrow> room b (from_refs tes) \<Longrightarrow>
     advanced b b' (from_refs tes) \<and> from_ok (lb_catalog b) (next_ref b) (next_ref b') from'"
  "cross_joins L tes joined b = Some (Inr (from', b')) \<Longrightarrow> room b (from_refs tes) \<Longrightarrow>
     from_ok (lb_catalog b) lo (next_ref b) joined \<Longrightarrow> 0 < lo \<Longrightarrow> lo \<le> next_ref b \<Longrightarrow>
     advanced b b' (from_refs tes) \<and> from_ok (lb_catalog b) lo (next_ref b') from'"
  "planQuery L query b = Some (Inr (p, b')) \<Longrightarrow> room b (query_refs query) \<Longrightarrow>
     advanced b b' (query_refs query) \<and> resolved (lb_catalog b) p"
proof (induction L te b and L tes b and L tes joined b and L query b arbitrary: from' b' and from' b' and from' b' lo and p b'
    rule: planTableExpr_planFrom_cross_joins_planQuery.induct)
  case (1 L name al b)
  then show ?case using base_table_ok by simp
next
  case (2 L query al b)
  then obtain sub b1 where s: "planQuery L query b = Some (Inr (sub, b1))" "derived_table (Query_text L query) al sub b1 = Some (Inr (from', b'))"
    by (auto simp: fused_succeeds)
  have q: "advanced b b1 (query_refs query)" "resolved (lb_catalog b) sub" using 2(1) [OF s(1)] 2(3) room_le by auto
  note r = room_after [OF _ q(1), of 1]
  have "advanced b1 b' 1 \<and> from_ok (lb_catalog b1) (next_ref b1) (next_ref b') from'"
    using derived_table_ok [OF s(2)] r 2(3) q by (simp add: advanced_def)
  moreover have "lb_catalog b1 = lb_catalog b" "next_ref b \<le> next_ref b1" using q(1) by (simp_all add: advanced_def)
  ultimately show ?case using advanced_trans [OF q(1), of b' 1] from_ok_le [of "lb_catalog b" "next_ref b1" "next_ref b'" from' "next_ref b"] by simp
next
  case (4 L leftExpr op rightExpr on' usings b)
  then obtain l b1 r b2 where s: "planTableExpr L leftExpr b = Some (Inr (l, b1))" "planTableExpr L rightExpr b1 = Some (Inr (r, b2))"
    "explicit_join L op on' usings l r = Some (Inr from')" "b' = b2"
    by (auto simp: fused_succeeds)
  have room: "room b (table_refs leftExpr)" using 4(4) room_le by auto
  note l = 4(1) [OF s(1) this]
  then have "room b1 (table_refs rightExpr)" using room_after 4(4) by auto
  note r = 4(2) [OF s(2) this]
  show ?case using explicit_join_ok [OF s(3), of "lb_catalog b" "next_ref b" "next_ref b1" "next_ref b'"] l r s(4) room advanced_trans
    by (auto simp: advanced_def room_def)
next
  case (8 L expr exprs b)
  then obtain f b1 where s: "planTableExpr L expr b = Some (Inr (f, b1))" "cross_joins L exprs f b1 = Some (Inr (from', b'))"
    by (auto simp: fused_succeeds)
  have room: "room b (table_refs expr)" using 8(4) room_le by auto
  note f = 8(1) [OF s(1) this]
  then have "room b1 (from_refs exprs)" using room_after 8(4) by auto
  note c = 8(2) [OF s(2) this, of "next_ref b"]
  show ?case using c f room advanced_trans [of b b1 "table_refs expr" b' "from_refs exprs"] by (auto simp: advanced_def room_def)
next
  case (10 L expr exprs joined b)
  then obtain f b1 where s: "planTableExpr L expr b = Some (Inr (f, b1))"
    "cross_joins L exprs (fst joined @ fst f, LogicalJoinNode (snd joined) (snd f) [] Cross) b1 = Some (Inr (from', b'))"
    by (auto simp: fused_succeeds)
  have room: "room b (table_refs expr)" using 10(4) room_le by auto
  note f = 10(1) [OF s(1) this]
  then have r1: "room b1 (from_refs exprs)" using room_after 10(4) by auto
  have cat: "lb_catalog b1 = lb_catalog b" "next_ref b \<le> next_ref b1" using f by (auto simp: advanced_def)
  have "from_ok (lb_catalog b) lo (next_ref b1) (fst joined @ fst f, LogicalJoinNode (snd joined) (snd f) [] Cross)"
    using joined_ok [OF 10(5) _ 10(6,7), of "next_ref b1" f "[]" Cross] f cat by simp
  then show ?case using 10(2) [OF s(2) r1, of lo] 10(6,7) cat f advanced_trans [of b b1 "table_refs expr" b' "from_refs exprs"] by auto
next
  case (11 L from1 sel b)
  then obtain scope plan b1 where s: "planFrom L from1 b = Some (Inr ((scope, plan), b1))" "planSelect L sel scope plan b1 = Some (Inr (p, b'))"
    by (auto simp: fused_succeeds)
  have room: "room b (from_refs from1)" using 11(3) room_le by auto
  note f = 11(1) [OF s(1) this]
  then have r1: "room b1 1" using room_after 11(3) by auto
  have "sees (lb_catalog b1) scope plan" using f by (auto simp: from_ok_def sees_def advanced_def)
  from planSelect_ok [OF s(2) this r1] show ?case using f advanced_trans [of b b1 "from_refs from1" b' 1] by (auto simp: advanced_def)
qed (simp_all add: succeeds advanced_refl)

lemma bind_rows_resolves: "bind_rows L rows = Some (Inr exprs) \<Longrightarrow> \<forall>es \<in> set exprs. \<forall>e \<in> set es. resolves [] e"
  using bind_exprs_resolves [of L "[]"] by (induction rows arbitrary: exprs) (auto simp: succeeds visible_def)

fun rows_refs :: "InsertRows \<Rightarrow> nat" where
  "rows_refs (SelectRows query) = query_refs query"
| "rows_refs _ = 0"

lemma buildValues_node: "buildValues rows = Some p \<Longrightarrow> \<exists>s. p = LogicalValuesNode rows s \<and> length s = length (hd rows) \<and> rows \<noteq> []"
  by (cases rows) (auto simp: buildValues_def)

lemma insert_source_ok:
  assumes "insert_source L rows b = Some (Inr (p, b'))" "room b (rows_refs rows)"
  shows "advanced b b' (rows_refs rows) \<and> resolved (lb_catalog b) p"
  using assms
proof (cases "(L, rows, b)" rule: insert_source.cases)
  case (1 L from1 sel b)
  then show ?thesis using assms plan_from_ok(4) [of L "Select from1 sel" b p b'] by simp
next
  case (4 L rows b)
  then obtain exprs where "bind_rows L rows = Some (Inr exprs)" "buildValues exprs = Some p" "b' = b"
    using assms(1) by (auto simp: fused_succeeds bind_eq_Some_conv)
  then show ?thesis using bind_rows_resolves buildValues_node 4 by (fastforce simp: advanced_refl)
qed (use assms plan_from_ok(4) in \<open>auto simp: succeeds\<close>)

lemma sourceMap_range: "sourceMap schema src name = Some e \<Longrightarrow> \<exists>c \<in> set src. e = LogicalColumnExpr c"
proof -
  have "\<exists>c. c \<in> snd ` set ps \<and> e = LogicalColumnExpr c \<or> m name = Some e"
    if "fold (\<lambda>(col, src) m. m(cname col \<mapsto> LogicalColumnExpr src)) ps m name = Some e" for ps :: "(LogicalColumn \<times> LogicalColumn) list" and m
    using that by (induction ps arbitrary: m) (fastforce split: if_splits)+
  from this [of "zip schema src" Map.empty] show "sourceMap schema src name = Some e \<Longrightarrow> ?thesis"
    by (auto simp: sourceMap_def dest: set_zip_rightD)
qed

lemma aligned_ok:
  "aligned_exprs m cols = Some (Inr es) \<Longrightarrow> (\<And>name e. m name = Some e \<Longrightarrow> resolves ls e) \<Longrightarrow> (\<forall>e \<in> set es. resolves ls e) \<and> length es = length cols"
  by (induction cols arbitrary: es) (auto simp: succeeds resolves_simps(2) split: option.splits)

lemma planInsert_ok:
  assumes "planInsert L ins b = Some (Inr (p, b'))" "room b (Suc (rows_refs (ins_Rows ins)))"
  shows "resolved (lb_catalog b) p"
proof -
  obtain t where t: "table_named (lb_catalog b) (ins_Table ins) = Some (Inr t)" using assms(1) by (auto simp: planInsert_def fused_succeeds)
  obtain i b1 where i: "getNextTableRefID b = (i, b1)" by fastforce
  note n = next_ref [OF assms(2) i]
  have oid: "in_catalog (lb_catalog b) (tb_Oid t)" using table_named_oid [OF _ t] assms(2) by (simp add: room_def in_catalog_def)
  obtain schema src where s: "insert_source L (ins_Rows ins) b1 = Some (Inr (src, b'))"
    and p: "p = NewLogicalInsertNode (tb_Oid t) src \<or> (\<exists>es ref. aligned_exprs (sourceMap schema (OutputSchema src)) (tb_Columns t) = Some (Inr es) \<and>
      p = NewLogicalInsertNode (tb_Oid t) (NewLogicalProjectionNode src es (table_schema ref t)))"
    using assms(1) by (auto simp: planInsert_def succeeds t i Let_def split: if_splits)
  have "room b1 (rows_refs (ins_Rows ins))" using room_after [of b 1] n assms(2) by simp
  then have src: "resolved (lb_catalog b) src" using insert_source_ok [OF s] n by (simp add: advanced_def)
  have "(\<forall>e \<in> set es. resolves (OutputSchema src) e) \<and> length es = length (tb_Columns t)"
    if "aligned_exprs (sourceMap schema (OutputSchema src)) (tb_Columns t) = Some (Inr es)" for es
    using aligned_ok [OF that] sourceMap_range by (fastforce simp: resolves_simps(1))
  then show ?thesis using p src oid by (auto simp: NewLogicalInsertNode_def NewLogicalProjectionNode_def count_column_def table_schema_def)
qed

lemma assignments_ok:
  assumes "assignments L tableRef updates assigned = Some (Inr assigned')" "distinct (map fst assigned)"
    "\<forall>(c, e) \<in> set assigned. c \<in> set (st_schema tableRef) \<and> resolves (st_schema tableRef) e"
  shows "distinct (map fst assigned') \<and> (\<forall>(c, e) \<in> set assigned'. c \<in> set (st_schema tableRef) \<and> resolves (st_schema tableRef) e)"
  using assms
proof (induction L tableRef updates assigned rule: assignments.induct)
  case (2 L tableRef name e updates assigned)
  then obtain col v where c: "bindColumn L name [tableRef] = Inr col" "bindExpr L [tableRef] e = Some (Inr v)"
    "origin col = Some (st_ref tableRef)" "assignments L tableRef updates (AList.update col v assigned) = Some (Inr assigned')"
    by (auto simp: succeeds split: if_splits)
  have "col \<in> set (st_schema tableRef)" "resolves (st_schema tableRef) v" using bound_visible(1) [OF c(1)] bindExpr_resolves [OF c(2)] by simp_all
  then have "\<forall>(c, e) \<in> set (AList.update col v assigned). c \<in> set (st_schema tableRef) \<and> resolves (st_schema tableRef) e"
    using 2(4) by (induction assigned) auto
  then show ?case using 2(1) [OF _ c(4)] c(3) distinct_update [OF 2(3)] by blast
qed simp

lemma base_table_of_ok:
  assumes "base_table_of stmt from' = Some (Inr (t, oid, n))" "from_ok cat lo hi from'"
  shows "sees cat [t] (LogicalScanNode n) \<and> in_catalog cat oid"
proof -
  obtain n0 where "from' = ([t], LogicalScanNode n0)" "tr_table (st_ref t) = Some oid" "n = n0\<lparr>sn_ForUpdate := True\<rparr>"
    using assms(1) by (auto simp: base_table_of_def succeeds split: prod.splits list.splits plan.splits option.splits)
  moreover have "scan_resolved cat (n0\<lparr>sn_ForUpdate := True\<rparr>) = scan_resolved cat n0" by (simp add: scan_resolved_def split: option.split sum.split)
  ultimately show ?thesis using assms(2) by (auto simp: from_ok_def sees_def split: option.splits)
qed

lemma planDelete_ok:
  assumes "planDelete L del b = Some (Inr (p, b'))" "room b (from_refs (del_TableExprs del))"
  shows "resolved (lb_catalog b) p"
proof -
  obtain from1 b1 t oid n p1 p2 p3 where st: "planFrom L (del_TableExprs del) b = Some (Inr (from1, b1))" "base_table_of ''DELETE'' from1 = Some (Inr (t, oid, n))"
    "planFilter L (del_Where del) [t] (LogicalScanNode n) = Some (Inr p1)" "planOrder L (del_OrderBy del) p1 [t] = Some (Inr p2)"
    "planLimit (del_Limit del) p2 = Some (Inr p3)" "p = NewLogicalDeleteNode oid p3"
    using assms(1) by (auto simp: planDelete_def fused_succeeds)
  note t = base_table_of_ok [OF st(2), of "lb_catalog b"] plan_from_ok(2) [OF st(1) assms(2)]
  then show ?thesis using planLimit_ok [OF st(5) planOrder_ok [OF st(4) planFilter_ok [OF st(3)]]] st(6)
    by (auto simp: sees_def NewLogicalDeleteNode_def count_column_def)
qed

lemma planUpdate_ok:
  assumes "planUpdate L upd b = Some (Inr (p, b'))" "room b (from_refs (upd_TableExprs upd))"
  shows "resolved (lb_catalog b) p"
proof -
  obtain from1 b1 t oid n as' p1 where st: "planFrom L (upd_TableExprs upd) b = Some (Inr (from1, b1))" "base_table_of ''UPDATE'' from1 = Some (Inr (t, oid, n))"
    "assignments L t (upd_Exprs upd) [] = Some (Inr as')" "planFilter L (upd_Where upd) [t] (LogicalScanNode n) = Some (Inr p1)"
    "p = NewLogicalUpdateNode oid p1 as'"
    using assms(1) by (auto simp: planUpdate_def fused_succeeds)
  note t = base_table_of_ok [OF st(2), of "lb_catalog b"] plan_from_ok(2) [OF st(1) assms(2)]
  then have "sees (lb_catalog b) [t] p1" "in_catalog (lb_catalog b) oid" using planFilter_ok [OF st(4)] by auto
  then show ?thesis using assignments_ok [OF st(3)] st(5) by (auto simp: sees_def NewLogicalUpdateNode_def count_column_def)
qed

fun statement_refs :: "Statement \<Rightarrow> nat" where
  "statement_refs (SelectStmt query) = query_refs query"
| "statement_refs (InsertStmt ins) = Suc (rows_refs (ins_Rows ins))"
| "statement_refs (DeleteStmt del) = from_refs (del_TableExprs del)"
| "statement_refs (UpdateStmt upd) = from_refs (upd_TableExprs upd)"
| "statement_refs (OtherStmt _) = 0"

lemma Plan_resolved_spec:
  assumes "catalog_ok cat" "Plan L stmt (NewLogicalPlanBuilder cat) = Some (Inr (p, b'))" "statement_refs stmt < 2 ^ 64 - 1"
  shows "resolved cat p"
proof -
  have "room (NewLogicalPlanBuilder cat) (statement_refs stmt)" "lb_catalog (NewLogicalPlanBuilder cat) = cat"
    using assms(1,3) by (auto simp: room_def NewLogicalPlanBuilder_def)
  then show ?thesis using assms(2) plan_from_ok(4) planInsert_ok planDelete_ok planUpdate_ok
    by (cases stmt) (fastforce simp: succeeds)+
qed

section \<open>What the builder leaves unchecked\<close>

text \<open>A resolved plan can be planned if its expressions have the types that their operators need, and if it avoids what the
  installed rules do not support: outer joins, offsets and derived tables. The aliases of a FROM clause are different, as SQL
  demands, and the rows of VALUES have one length.\<close>

definition aliases :: "LogicalSchema \<Rightarrow> string list" where
  "aliases = map (\<lambda>c. case origin c of Some t \<Rightarrow> tr_alias t | None \<Rightarrow> [])"

fun op_supported :: "logical_op \<Rightarrow> LogicalSchema \<Rightarrow> bool" where
  "op_supported (ProjectionOp es) s \<longleftrightarrow> (\<forall>e \<in> set es. well_typed [] e) \<and> map OutputType es = map ctype s"
| "op_supported (SortOp obs) s \<longleftrightarrow> (\<forall>ob \<in> set obs. well_typed [] (ob_Expr ob))"
| "op_supported (LimitOp _ offset) s \<longleftrightarrow> offset = 0"
| "op_supported (AggregationOp groupBy aggs) s \<longleftrightarrow> (\<forall>e \<in> set (groupBy @ map ac_Expr aggs). well_typed [] e)"
| "op_supported (SubqueryOp _) s \<longleftrightarrow> False"
| "op_supported (UpdateOp _ updates) s \<longleftrightarrow> (\<forall>(_, e) \<in> set updates. well_typed [] e)"
| "op_supported _ s \<longleftrightarrow> True"

definition boolean :: "Expr \<Rightarrow> bool" where
  "boolean e \<longleftrightarrow> well_typed [] e \<and> OutputType e = IntType"

primrec supported :: "LogicalPlanNode \<Rightarrow> bool" where
  "supported (LogicalScanNode n) \<longleftrightarrow> True"
| "supported (LogicalValuesNode vs s) \<longleftrightarrow> (\<forall>es \<in> set vs. length es = length s \<and> (\<forall>e \<in> set es. well_typed [] e))"
| "supported (LogicalFilterNode c p) \<longleftrightarrow> supported c \<and> boolean p"
| "supported (LogicalJoinNode l r on jt) \<longleftrightarrow> supported l \<and> supported r \<and> jt \<in> {Inner, Cross} \<and> (\<forall>e \<in> set on. boolean e) \<and>
     set (aliases (OutputSchema l)) \<inter> set (aliases (OutputSchema r)) = {}"
| "supported (LogicalUnaryNode op s c) \<longleftrightarrow> supported c \<and> op_supported op s"

text \<open>The database has rows of the length of the tables, an aggregation yields a row of the group key and the aggregates, and
  no expression of a select list panics on the rows it is evaluated on.\<close>

definition rows_fit :: "Catalog \<Rightarrow> database \<Rightarrow> bool" where
  "rows_fit cat db \<longleftrightarrow> (\<forall>oid t. GetTableByOid oid cat = Inr t \<longrightarrow> (\<forall>r \<in> set (db_table db oid). length r = length (tb_Columns t)))"

definition aggregates_fit :: "database \<Rightarrow> bool" where
  "aggregates_fit db \<longleftrightarrow> (\<forall>n kinds rows. (\<forall>(k, a) \<in> set rows. length k = n \<and> length a = length kinds) \<longrightarrow>
     (\<forall>r \<in> set (db_aggregate db kinds rows). length r = n + length kinds))"

fun is_aggregate :: "logical_op \<Rightarrow> bool" where
  "is_aggregate (AggregationOp _ _) \<longleftrightarrow> True" | "is_aggregate _ \<longleftrightarrow> False"

primrec aggregates :: "LogicalPlanNode \<Rightarrow> bool" where
  "aggregates (LogicalScanNode n) \<longleftrightarrow> False"
| "aggregates (LogicalValuesNode vs s) \<longleftrightarrow> False"
| "aggregates (LogicalFilterNode c p) \<longleftrightarrow> aggregates c"
| "aggregates (LogicalJoinNode l r on jt) \<longleftrightarrow> aggregates l \<or> aggregates r"
| "aggregates (LogicalUnaryNode op s c) \<longleftrightarrow> aggregates c \<or> is_aggregate op"

fun op_evaluates :: "logical_op \<Rightarrow> LogicalSchema \<Rightarrow> lrow list \<Rightarrow> bool" where
  "op_evaluates (ProjectionOp es) ls rows \<longleftrightarrow> (\<forall>r \<in> set rows. project_row ls es r \<noteq> None)"
| "op_evaluates _ ls rows \<longleftrightarrow> True"

primrec evaluates :: "database \<Rightarrow> LogicalPlanNode \<Rightarrow> bool" where
  "evaluates db (LogicalScanNode n) \<longleftrightarrow> True"
| "evaluates db (LogicalValuesNode vs s) \<longleftrightarrow> True"
| "evaluates db (LogicalFilterNode c p) \<longleftrightarrow> evaluates db c"
| "evaluates db (LogicalJoinNode l r on jt) \<longleftrightarrow> evaluates db l \<and> evaluates db r"
| "evaluates db (LogicalUnaryNode op s c) \<longleftrightarrow> evaluates db c \<and> op_evaluates op (OutputSchema c) (logical_rows db c)"

lemma apart_disjoint:
  assumes "apart ls rs" "set (aliases ls) \<inter> set (aliases rs) = {}"
  shows "\<not> (Schema_Contains ls c \<and> Schema_Contains rs c)"
proof
  assume "Schema_Contains ls c \<and> Schema_Contains rs c"
  then obtain a b where ab: "a \<in> set ls" "LogicalColumn_Equals a c" "b \<in> set rs" "LogicalColumn_Equals b c"
    by (auto simp: Schema_Contains_def list_ex_iff)
  let ?id = "\<lambda>c. case origin c of Some t \<Rightarrow> refID t | None \<Rightarrow> 0" and ?al = "\<lambda>c. case origin c of Some t \<Rightarrow> tr_alias t | None \<Rightarrow> []"
  have "?id a \<noteq> 0" "?id b \<noteq> 0" "?id a \<noteq> ?id b" "?al a \<noteq> ?al b" using assms ab(1,3) by (force simp: apart_def ids_def aliases_def)+
  then show False using ab(2,4) by (auto simp: LogicalColumn_Equals_def TableRef_Equals_def split: if_splits option.splits)
qed

lemma LogicalColumn_Equals_refl: "LogicalColumn_Equals c c"
  by (simp add: LogicalColumn_Equals_def EqualFold_def TableRef_Equals_def split: option.split)

lemma resolves_contains: "resolves ls e \<Longrightarrow> well_typed [] e \<Longrightarrow> bindable ls e"
  unfolding bindable_def resolves_def Schema_Contains_def list_ex_iff by (metis LogicalColumn_Equals_refl subsetD)

lemma stable_sort_set: "stable_sort lt xs acc = Some ys \<Longrightarrow> set ys = set xs \<union> set acc"
proof -
  have ins: "stable_insert lt x acc = Some ys \<Longrightarrow> set ys = insert x (set acc)" for x acc ys
    by (induction lt x acc arbitrary: ys rule: stable_insert.induct) (auto simp: bind_eq_Some_conv split: if_splits)
  show "stable_sort lt xs acc = Some ys \<Longrightarrow> ?thesis"
    by (induction xs arbitrary: acc) (auto simp: bind_eq_Some_conv dest!: ins)
qed

lemma sort_rows_subset: "set (sort_rows lt rs) \<subseteq> set rs"
  by (cases "stable_sort lt rs []") (auto simp: sort_rows_def dest!: stable_sort_set)

lemma map_filter_member: "y \<in> set (List.map_filter f xs) \<longleftrightarrow> (\<exists>x \<in> set xs. f x = Some y)"
  by (auto simp: map_filter_def image_iff)

lemma fits_aggregate:
  assumes "aggregates_fit db" "\<forall>(k, a) \<in> set rows. length k = n \<and> length a = length kinds" "r \<in> set (db_aggregate db kinds rows)"
  shows "length r = n + length kinds"
  using assms unfolding aggregates_fit_def by blast

lemma op_rows_length:
  assumes "op_resolved cat op s ls" "op_supported op s" "is_aggregate op \<longrightarrow> aggregates_fit db" "\<forall>r \<in> set rows. length r = length ls" "r \<in> set (op_rows db op ls rows)"
  shows "length r = length s"
proof (cases op)
  case (ProjectionOp es)
  then show ?thesis using assms(1,5) project_row_length by (fastforce simp: map_filter_member)
next
  case (SortOp obs)
  then show ?thesis using assms(1,4,5) sort_rows_subset by auto
next
  case (LimitOp l off)
  then show ?thesis using assms(1,4,5) by (auto dest: in_set_takeD in_set_dropD)
next
  case (AggregationOp groupBy aggs)
  let ?rows = "List.map_filter (\<lambda>r. do { k \<leftarrow> project_row ls groupBy r; a \<leftarrow> project_row ls (map ac_Expr aggs) r; Some (k, a) }) rows"
  have "\<forall>(k, a) \<in> set ?rows. length k = length groupBy \<and> length a = length (map ac_Type aggs)"
    by (auto simp: map_filter_member bind_eq_Some_conv dest!: project_row_length)
  moreover have "r \<in> set (db_aggregate db (map ac_Type aggs) ?rows)" using assms(5) by (simp add: AggregationOp)
  ultimately have "length r = length groupBy + length (map ac_Type aggs)" 
    by (rule fits_aggregate [rotated]) (use assms(3) in \<open>simp add: AggregationOp\<close>)
  moreover have "length s = length (groupBy @ map ac_Expr aggs)" using assms(1) AggregationOp by (metis length_map op_resolved.simps(4))
  ultimately show ?thesis by simp
qed (use assms in \<open>auto simp: count_row_def\<close>)

lemma resolved_wf:
  "resolved cat p \<Longrightarrow> supported p \<Longrightarrow> rows_fit cat db \<Longrightarrow> aggregates p \<longrightarrow> aggregates_fit db \<Longrightarrow> wf_query db p"
proof (induction p)
  case (LogicalScanNode n)
  then obtain oid t where t: "tr_table (sn_TableRef n) = Some oid" "GetTableByOid oid cat = Inr t" "sn_schema n = table_schema (sn_TableRef n) t"
    "sn_projection n = None"
    by (auto simp: scan_resolved_def split: option.splits sum.splits)
  then have "length r = length (tb_Columns t)" if "r \<in> set (db_table db oid)" for r using LogicalScanNode.prems(3) that by (auto simp: rows_fit_def)
  then show ?case using t by (simp add: ref_rows_def table_schema_def)
next
  case (LogicalFilterNode c p)
  then show ?case by (auto simp: resolves_def)
next
  case (LogicalJoinNode l r on jt)
  then show ?case using apart_disjoint [of "OutputSchema l" "OutputSchema r"] by auto
next
  case (LogicalUnaryNode op s c)
  then have "wf_query db c" by simp
  then have "\<forall>r \<in> set (logical_rows db c). length r = length (OutputSchema c)" using plan_rows_length by blast
  then show ?case using op_rows_length [of cat op s "OutputSchema c" db "logical_rows db c"] LogicalUnaryNode by simp
qed auto

lemma op_resolved_ok:
  assumes "op_resolved cat op s (OutputSchema c)" "op_supported op s" "op_evaluates op (OutputSchema c) (logical_rows db c)" "RawOutputSchema c = OutputSchema c"
  shows "op_ok db cat op s c"
proof (cases op)
  case (UpdateOp oid updates)
  then show ?thesis using assms by (fastforce simp: in_catalog_def intro: resolves_contains split: sum.splits)
qed (use assms resolves_contains [of "OutputSchema c"] in \<open>auto simp: in_catalog_def split: sum.splits\<close>)

lemma resolved_plannable: "resolved cat p \<Longrightarrow> supported p \<Longrightarrow> evaluates db p \<Longrightarrow> plannable db cat p"
proof (induction p)
  case (LogicalScanNode n)
  then show ?case
    by (auto simp: scan_resolved_def Planner_Correct.table_ok_def table_schema_def tableSchemaToTypes_def column_of_def split: option.splits sum.splits)
next
  case (LogicalUnaryNode op s c)
  then show ?case using op_resolved_ok [of cat op s c db] plannable_raw [of db cat c] by simp
qed (auto simp: resolves_contains condition_def boolean_def)

lemma sql_planner_sound_spec:
  assumes "catalog_ok cat" "Plan L stmt (NewLogicalPlanBuilder cat) = Some (Inr (p, b'))" "statement_refs stmt < 2 ^ 64 - 1"
    "supported p" "rows_fit cat db" "aggregates p \<longrightarrow> aggregates_fit db" "evaluates db p" "weight p < fuel"
  shows "wf_query db p \<and> plannable db cat p \<and>
    (\<exists>q P. OptimizeWithRule fuel p = Some q \<and> Build physicalRules cat q = Some (Inr P) \<and>
       PlanNode_OutputSchema P = map ctype (OutputSchema p) \<and> physical_rows db P = logical_rows db p)"
proof -
  have wf: "wf_query db p" "plannable db cat p"
    using Plan_resolved_spec [OF assms(1-3)] assms(4-7) resolved_wf resolved_plannable by blast+
  then show ?thesis using planner_sound_spec [OF wf assms(8)] by blast
qed

section \<open>INSERT with a column list\<close>

text \<open>Where the value of a column stands in the row that is given: the last target column of its name. Without one the
  column is NULL.\<close>

definition position :: "LogicalSchema \<Rightarrow> string \<rightharpoonup> nat" where
  "position targets = map_of (rev (zip (map cname targets) [0..<length targets]))"

definition null_value :: "Type \<Rightarrow> Value" where
  "null_value ty = (if ty = StringType then NewNullString else NewNullInt)"

definition inserted_row :: "LogicalSchema \<Rightarrow> Column list \<Rightarrow> lrow \<Rightarrow> lrow" where
  "inserted_row targets cols vs = map (\<lambda>col. case position targets (col_Name col) of Some i \<Rightarrow> vs ! i | None \<Rightarrow> null_value (col_Type col)) cols"

lemma position_bound: "position targets name = Some i \<Longrightarrow> i < length targets"
  by (auto simp: position_def dest!: map_of_SomeD set_zip_rightD)

lemma fold_map_upd: "fold (\<lambda>(k, v) m. m(f k \<mapsto> g v)) ps m = m ++ map_of (rev (map (\<lambda>(k, v). (f k, g v)) ps))"
  by (induction ps arbitrary: m) (auto simp: map_add_def fun_eq_iff split: option.splits)

lemma sourceMap_position:
  assumes "length targets = length src"
  shows "sourceMap targets src name = map_option (\<lambda>i. LogicalColumnExpr (src ! i)) (position targets name)"
proof -
  have "map (\<lambda>(k, v). (cname k, LogicalColumnExpr v)) (zip targets src) =
      map (\<lambda>(k, i). (k, LogicalColumnExpr (src ! i))) (zip (map cname targets) [0..<length targets])"
    using assms by (intro nth_equalityI) auto
  then show ?thesis by (simp add: sourceMap_def fold_map_upd position_def rev_map map_of_map)
qed

lemma aligned_exprs_eq:
  "aligned_exprs m cols = Some (Inr es) \<Longrightarrow>
     es = map (\<lambda>col. case m (col_Name col) of Some e \<Rightarrow> e | None \<Rightarrow> ConstantValueExpr (null_value (col_Type col))) cols"
proof (induction cols arbitrary: es)
  case (Cons col cols)
  then show ?case by (cases "col_Type col") (auto simp: succeeds null_value_def split: option.splits)
qed simp

lemma digits_lower: "c \<in> set (decimal n) \<Longrightarrow> ascii_lower c = of_char c"
proof (induction n rule: less_induct)
  case (less n)
  have d: "ascii_lower (digit k) = of_char (digit k)" if "k < 10" for k using that by (simp add: digit_def ascii_lower_def)
  show ?case using less.prems less.IH [of "n div 10"] d [of n] d [of "n mod 10"] by (auto simp: decimal.simps [of n] split: if_splits)
qed

lemma decimal_fold: "EqualFold (s @ decimal i) (s @ decimal j) \<longleftrightarrow> i = j"
proof
  assume "EqualFold (s @ decimal i) (s @ decimal j)"
  then have "map ascii_lower (decimal i) = map ascii_lower (decimal j)" by (simp add: EqualFold_def)
  then have "map of_char (decimal i) = (map of_char (decimal j) :: nat list)" using digits_lower by (simp cong: map_cong)
  then have "decimal i = decimal j" by (rule map_injective) (simp add: inj_def)
  then show "i = j" by (rule decimal_inj)
qed (simp add: EqualFold_def)

text \<open>The columns of VALUES are distinct, so each is found at its own place.\<close>

lemma values_column:
  assumes "buildValues rows = Some (LogicalValuesNode rows s)" "i < length s"
  shows "env_row s vs (s ! i) = idx vs i"
proof -
  obtain r rs where r: "rows = r # rs" using buildValues_node [OF assms(1)] by (cases rows) auto
  have s: "length s = length r" "\<And>k. k < length s \<Longrightarrow> cname (s ! k) = ''values_col_'' @ decimal k \<and> origin (s ! k) = None"
    using assms(1) r by (auto simp: buildValues_def nth_enumerate_eq)
  have "LogicalColumn_Equals (s ! k) (s ! i) \<longleftrightarrow> k = i" if "k < length s" for k
    using s(2) [OF that] s(2) [OF assms(2)] decimal_fold [of "''values_col_''" k i] LogicalColumn_Equals_refl [of "s ! i"]
    by (auto simp: LogicalColumn_Equals_def TableRef_Equals_def)
  moreover obtain j where "j < length s" "find_column (\<lambda>col. LogicalColumn_Equals col (s ! i)) s 0 = Some j" "LogicalColumn_Equals (s ! j) (s ! i)"
  proof -
    have "Schema_Contains s (s ! i)" using nth_mem [OF assms(2)] LogicalColumn_Equals_refl unfolding Schema_Contains_def list_ex_iff by blast
    then show ?thesis using contains_find that by blast
  qed
  ultimately show ?thesis by (simp add: env_row_def)
qed

lemma aligned_row:
  assumes "buildValues rows = Some (LogicalValuesNode rows s)" "length targets = length s"
    "aligned_exprs (sourceMap targets s) cols = Some (Inr es)" "length vs = length s"
  shows "project_row s es vs = Some (inserted_row targets cols vs)"
proof -
  have "leval (env_row s vs) (case sourceMap targets s (col_Name col) of Some e \<Rightarrow> e | None \<Rightarrow> ConstantValueExpr (null_value (col_Type col))) =
      Some (case position targets (col_Name col) of Some i \<Rightarrow> vs ! i | None \<Rightarrow> null_value (col_Type col))" for col
  proof (cases "position targets (col_Name col)")
    case (Some i)
    then have "i < length s" using position_bound assms(2) by fastforce
    then show ?thesis using Some values_column [OF assms(1), of i vs] assms(2,4) by (simp add: sourceMap_position idx_def)
  qed (simp add: sourceMap_position assms(2))
  then show ?thesis unfolding project_row_def those_eq_Some aligned_exprs_eq [OF assms(3)] inserted_row_def map_map comp_def by (intro map_cong refl)
qed

lemma inserted_row_exact:
  assumes "exactMatch targets cols" "distinct (map col_Name cols)" "length vs = length targets"
  shows "inserted_row targets cols vs = vs"
proof -
  have n: "map cname targets = map col_Name cols" "length targets = length cols"
    using assms(1) by (auto simp: exactMatch_def list_all2_conv_all_nth list_eq_iff_nth_eq)
  have "position targets (col_Name (cols ! i)) = Some i" if "i < length cols" for i
  proof -
    have "(map col_Name cols ! i, i) \<in> set (zip (map col_Name cols) [0..<length cols])" using that by (force simp: in_set_zip)
    moreover have "distinct (map fst (rev (zip (map col_Name cols) [0..<length cols])))" using assms(2) by (simp add: rev_map [symmetric])
    ultimately show ?thesis unfolding position_def n using map_of_eq_Some_iff that by fastforce
  qed
  then show ?thesis using assms(3) n(2) by (intro nth_equalityI) (simp_all add: inserted_row_def)
qed

lemma insert_columns_targets:
  "insert_columns L ref scope cols = Some (Inr schema) \<Longrightarrow> list_all2 (\<lambda>name c. EqualString L name (cname c) \<and> c \<in> set (visible scope)) cols schema"
proof (induction cols arbitrary: schema)
  case (Cons col cols)
  then obtain c cs where c: "bindUnqualifiedCol L col scope = Inr c" "insert_columns L ref scope cols = Some (Inr cs)" "schema = c # cs"
    by (auto simp: succeeds split: if_splits)
  have "c \<in> set (candidates (\<lambda>_. True) (\<lambda>c. EqualString L col (cname c)) scope)" using c(1) unfolding bindUnqualifiedCol_only by (rule only_member)
  then show ?case using Cons.IH [OF c(2)] c(3) bound_visible(2) [OF c(1)] by (simp add: candidates_def)
qed simp

lemma map_filter_total: "(\<And>x. x \<in> set xs \<Longrightarrow> f x = Some (g x)) \<Longrightarrow> List.map_filter f xs = map g xs"
  by (induction xs) auto

definition target_columns :: "sqlparser \<Rightarrow> InsertStatement \<Rightarrow> Table \<Rightarrow> LogicalSchema \<Rightarrow> bool" where
  "target_columns L ins t targets \<longleftrightarrow> set (map cname targets) \<subseteq> set (map col_Name (tb_Columns t)) \<and>
     (if ins_Columns ins = [] then map cname targets = map col_Name (tb_Columns t)
      else list_all2 (\<lambda>name c. EqualString L name (cname c)) (ins_Columns ins) targets)"

lemma planInsert_parts:
  assumes "planInsert L ins b = Some (Inr (p, b'))" "ins_Rows ins = ValuesRows rows" "bind_rows L rows = Some (Inr exprs)"
    "table_named (lb_catalog b) (ins_Table ins) = Some (Inr t)"
  obtains targets s where "target_columns L ins t targets" "buildValues exprs = Some (LogicalValuesNode exprs s)" "length targets = length s"
    "exactMatch targets (tb_Columns t) \<and> p = NewLogicalInsertNode (tb_Oid t) (LogicalValuesNode exprs s) \<or>
     (\<exists>es ref. aligned_exprs (sourceMap targets s) (tb_Columns t) = Some (Inr es) \<and>
        p = NewLogicalInsertNode (tb_Oid t) (NewLogicalProjectionNode (LogicalValuesNode exprs s) es (table_schema ref t)))"
proof -
  obtain i b1 where i: "getNextTableRefID b = (i, b1)" by fastforce
  let ?ref = "\<lparr>tr_table = Some (tb_Oid t), tr_alias = ins_Table ins, refID = i\<rparr>"
  obtain src where src: "buildValues exprs = Some src" using assms by (auto simp: planInsert_def i Let_def fused_succeeds bind_eq_Some_conv)
  obtain s where s: "src = LogicalValuesNode exprs s" using buildValues_node [OF src] by blast
  obtain targets where t: "(if ins_Columns ins \<noteq> [] then insert_columns L ?ref [\<lparr>st_ref = ?ref, st_schema = table_schema ?ref t\<rparr>] (ins_Columns ins)
      else Some (Inr (table_schema ?ref t))) = Some (Inr targets)"
    using assms by (auto simp: planInsert_def i Let_def fused_succeeds)
  have p: "length targets = length s" "exactMatch targets (tb_Columns t) \<and> p = NewLogicalInsertNode (tb_Oid t) (LogicalValuesNode exprs s) \<or>
     (\<exists>es ref. aligned_exprs (sourceMap targets s) (tb_Columns t) = Some (Inr es) \<and>
        p = NewLogicalInsertNode (tb_Oid t) (NewLogicalProjectionNode (LogicalValuesNode exprs s) es (table_schema ref t)))"
    using assms(1) unfolding planInsert_def assms(2,4) i Let_def by (auto simp: fused_succeeds failed_succeeds assms(3) t src s split: if_splits)
  have names: "set (map cname (table_schema ?ref t)) = set (map col_Name (tb_Columns t))" by (auto simp: table_schema_def column_of_def)
  have "target_columns L ins t targets"
  proof (cases "ins_Columns ins = []")
    case True
    then show ?thesis using t by (auto simp: target_columns_def table_schema_def column_of_def)
  next
    case False
    then have "list_all2 (\<lambda>name c. EqualString L name (cname c) \<and> c \<in> set (table_schema ?ref t)) (ins_Columns ins) targets"
      using t insert_columns_targets by fastforce
    then show ?thesis using False names by (auto simp: target_columns_def list_all2_conv_all_nth set_conv_nth [of targets])
  qed
  then show thesis using src s p by (intro that) simp_all
qed

section \<open>Sample statements\<close>

text \<open>A parser whose identifiers are case-insensitive and which prints calls the way MySQL does; two tables, \<open>users(id, name)\<close> and
  \<open>aggregates(id, total)\<close>.\<close>

fun sample_text :: "SqlExpr \<Rightarrow> string" where
  "sample_text (ColNameExpr c) = (if cn_Qualifier c = [] then [] else cn_Qualifier c @ ''.'') @ cn_Name c"
| "sample_text (FuncExpr f [StarExpr _]) = f @ ''(*)''"
| "sample_text (FuncExpr f [AliasedExpr (ColNameExpr c) _]) = f @ ''('' @ (if cn_Qualifier c = [] then [] else cn_Qualifier c @ ''.'') @ cn_Name c @ '')''"
| "sample_text _ = ''?''"

fun sample_aggregates :: "SqlExpr \<Rightarrow> (string \<times> SelectExpr list) list" where
  "sample_aggregates (FuncExpr f es) = (if ToLower f \<in> {''count'', ''sum'', ''min'', ''max''} then [(f, es)] else [])"
| "sample_aggregates (SqlComparison _ l r) = sample_aggregates l @ sample_aggregates r"
| "sample_aggregates (AndExpr l r) = sample_aggregates l @ sample_aggregates r"
| "sample_aggregates (OrExpr l r) = sample_aggregates l @ sample_aggregates r"
| "sample_aggregates (NotExpr e) = sample_aggregates e"
| "sample_aggregates (BinaryExpr _ l r) = sample_aggregates l @ sample_aggregates r"
| "sample_aggregates (ParenExpr e) = sample_aggregates e"
| "sample_aggregates _ = []"

fun sample_item_text :: "SelectExpr \<Rightarrow> string" where
  "sample_item_text (AliasedExpr e _) = sample_text e"
| "sample_item_text _ = ''*''"

fun sample_item_aggregates :: "SelectExpr \<Rightarrow> (string \<times> SelectExpr list) list" where
  "sample_item_aggregates (AliasedExpr e _) = sample_aggregates e"
| "sample_item_aggregates _ = []"

definition sample_parser :: sqlparser where
  "sample_parser = \<lparr>EqualString = EqualFold, ColIdent_CompliantName = id, TableIdent_CompliantName = id, Expr_text = sample_text,
     SelectExpr_text = sample_item_text, Query_text = (\<lambda>_. ''query''), Aggregates_of_select = sample_item_aggregates,
     Aggregates_of_expr = sample_aggregates\<rparr>"

definition shop_ops :: "cat_op list" where
  "shop_ops = [OpTable ''users'' [\<lparr>col_Name = ''id'', col_Type = IntType\<rparr>, \<lparr>col_Name = ''name'', col_Type = StringType\<rparr>],
     OpTable ''aggregates'' [\<lparr>col_Name = ''id'', col_Type = IntType\<rparr>, \<lparr>col_Name = ''total'', col_Type = IntType\<rparr>]]"

definition shop :: Catalog where
  "shop = fst (the (run_catalog NullPersistenceProvider shop_ops empty_catalog ()))"

lemma shop_ok: "catalog_ok shop"
  using run_catalog_ok [OF catalog_ok_empty, of shop_ops NullPersistenceProvider "()"] by (auto simp: shop_def shop_ops_def empty_catalog_def)

lemma shop_tables:
  "Tables shop = [\<lparr>tb_Oid = 1, tb_Name = ''users'', tb_Columns = [\<lparr>col_Name = ''id'', col_Type = IntType\<rparr>, \<lparr>col_Name = ''name'', col_Type = StringType\<rparr>], tb_Indexes = []\<rparr>,
     \<lparr>tb_Oid = 2, tb_Name = ''aggregates'', tb_Columns = [\<lparr>col_Name = ''id'', col_Type = IntType\<rparr>, \<lparr>col_Name = ''total'', col_Type = IntType\<rparr>], tb_Indexes = []\<rparr>]"
  by (simp add: shop_def shop_ops_def AddTable_def register_table_def empty_catalog_def save_def NullPersistenceProvider_def Let_def)

lemma shop_named:
  "table_named shop ''users'' = Some (Inr (Tables shop ! 0))" "table_named shop ''aggregates'' = Some (Inr (Tables shop ! 1))"
  using tableMap_ok [OF shop_ok, of "''users''" 0] tableMap_ok [OF shop_ok, of "''aggregates''" 1]
  by (simp_all add: table_named_def GetTableMetadata_def shop_tables idx_def)

definition name_of :: "string \<Rightarrow> string \<Rightarrow> SqlExpr" where
  "name_of q c = ColNameExpr \<lparr>cn_Name = c, cn_Qualifier = q\<rparr>"

definition plain_select :: "SelectExpr list \<Rightarrow> SqlExpr option \<Rightarrow> SqlExpr option \<Rightarrow> SelectClauses" where
  "plain_select items wh having = \<lparr>sel_Exprs = items, sel_Where = wh, sel_GroupBy = [], sel_Having = having, sel_OrderBy = [], sel_Limit = None\<rparr>"

lemmas builder_defs = plain_select_def name_of_def sample_parser_def NewLogicalPlanBuilder_def base_table_def shop_named shop_tables
  getNextTableRefID_def Let_def fused_def planSelect_def planFilter_def optional_def both_def bindColumn_def bound_def EqualFold_def ascii_lower_def
  HasPrefix_def table_schema_def column_of_def NewLogicalScanNode_def bindConstant_def ParseInt_def ParseUint_def planAggregation_def aggregate_calls_def
  planOrder_def planLimit_def NewLogicalProjectionNode_def select_alias_def select_origin_def

text \<open>\<open>SELECT users.name FROM users, aggregates AS a WHERE users.id = a.id\<close>\<close>

definition shop_query :: Statement where
  "shop_query = SelectStmt (Select [AliasedTableExpr (TableName ''users'') [], AliasedTableExpr (TableName ''aggregates'') ''a'']
     (plain_select [AliasedExpr (name_of ''users'' ''name'') []] (Some (SqlComparison EqualStr (name_of ''users'' ''id'') (name_of ''a'' ''id''))) None))"

definition shop_ref :: "nat \<Rightarrow> string \<Rightarrow> TableRef" where
  "shop_ref i al = \<lparr>tr_table = Some (of_nat i), tr_alias = al, refID = of_nat i\<rparr>"

definition shop_scan :: "nat \<Rightarrow> string \<Rightarrow> LogicalPlanNode" where
  "shop_scan i al = LogicalScanNode \<lparr>sn_TableRef = shop_ref i al, sn_schema = table_schema (shop_ref i al) (Tables shop ! (i - 1)), sn_projection = None,
     sn_Predicates = [], sn_ForUpdate = False\<rparr>"

definition shop_column :: "nat \<Rightarrow> string \<Rightarrow> string \<Rightarrow> Type \<Rightarrow> LogicalColumn" where
  "shop_column i al name ty = column_of (shop_ref i al) name ty"

definition shop_plan :: LogicalPlanNode where
  "shop_plan = NewLogicalProjectionNode (LogicalFilterNode (LogicalJoinNode (shop_scan 1 ''users'') (shop_scan 2 ''a'') [] Cross)
     (ComparisonExpression (LogicalColumnExpr (shop_column 1 ''users'' ''id'' IntType)) (LogicalColumnExpr (shop_column 2 ''a'' ''id'' IntType)) Equal))
     [LogicalColumnExpr (shop_column 1 ''users'' ''name'' StringType)] [shop_column 1 ''users'' ''name'' StringType]"

lemmas shop_defs = shop_plan_def shop_scan_def shop_ref_def shop_column_def

lemma shop_query_plan: "\<exists>b. Plan sample_parser shop_query (NewLogicalPlanBuilder shop) = Some (Inr (shop_plan, b))"
  by (simp add: shop_query_def shop_defs builder_defs)

definition shop_rows :: database where
  "shop_rows = \<lparr>db_table = (\<lambda>oid. if oid = 1 then [[NewIntValue 1, NewNullString]] else if oid = 2 then [[NewIntValue 1, NewIntValue 5]] else []),
     db_scan = (\<lambda>_ _ _. []), db_lookup = (\<lambda>_ _. []), db_probe = (\<lambda>_ _. []), db_aggregate = (\<lambda>_ _. [])\<rparr>"

lemma shop_rows_fit: "rows_fit shop shop_rows" "aggregates shop_plan \<longrightarrow> aggregates_fit shop_rows"
  by (auto simp: rows_fit_def aggregates_fit_def shop_rows_def GetTableByOid_def shop_tables split: if_splits)

lemma shop_supported: "supported shop_plan" "weight shop_plan < 20"
  by (simp_all add: shop_defs NewLogicalProjectionNode_def boolean_def column_of_def shop_tables table_schema_def aliases_def)

lemma shop_evaluates: "evaluates shop_rows shop_plan"
proof -
  have "project_row (OutputSchema (shop_scan 1 ''users'') @ OutputSchema (shop_scan 2 ''a'')) [LogicalColumnExpr (shop_column 1 ''users'' ''name'' StringType)] r \<noteq> None"
    if "length r = 4" for r
    using that by (simp add: shop_defs shop_tables table_schema_def column_of_def project_row_def env_row_def LogicalColumn_Equals_def EqualFold_def ascii_lower_def
        TableRef_Equals_def idx_def)
  then show ?thesis
    by (simp add: shop_plan_def NewLogicalProjectionNode_def) (simp add: shop_defs inner_join_def ref_rows_def shop_rows_def)
qed

text \<open>\<open>INSERT INTO users (name, ID) VALUES ('x', 7)\<close>\<close>

definition shop_insert :: InsertStatement where
  "shop_insert = \<lparr>ins_Table = ''users'', ins_Columns = [''name'', ''ID''], ins_Rows = ValuesRows [[SQLVal StrVal [120], SQLVal IntVal [55]]]\<rparr>"

definition shop_from :: "TableExpr list" where
  "shop_from = [AliasedTableExpr (TableName ''users'') [], AliasedTableExpr (TableName ''aggregates'') []]"

section \<open>Properties\<close>

text \<open>
  C12: every plan that the builder makes is resolved. For any statement and any behaviour of the parser, if the builder returns a
  plan then each of its expressions uses only columns that the input of its node offers and reports all of them, each scan
  reads a table of the catalog with exactly its columns, the output schemas have the length and, but for a projection, the types of what is computed, the
  targets of an UPDATE are distinct columns of the table, and the two sides of a join draw on different table references.
\<close>

theorem Plan_resolved:
  assumes "catalog_ok cat" "Plan L stmt (NewLogicalPlanBuilder cat) = Some (Inr (p, b'))" "statement_refs stmt < 2 ^ 64 - 1"
  shows "resolved cat p"
  by (rule Plan_resolved_spec [OF assms])

theorem Plan_resolved_witness: "resolved shop shop_plan"
proof -
  obtain b where b: "Plan sample_parser shop_query (NewLogicalPlanBuilder shop) = Some (Inr (shop_plan, b))" using shop_query_plan by blast
  have "statement_refs shop_query < 2 ^ 64 - 1" by (simp add: shop_query_def)
  from Plan_resolved [OF shop_ok b this] show ?thesis .
qed

text \<open>
  C4: from SQL text to a physical plan. If the parser accepts the text and the builder returns a plan that is typed and avoids
  outer joins, offsets and derived tables, the planner ends without an error or a panic, and its physical plan has the output types of
  the logical plan and returns the rows the logical plan means, on every database that fits the catalog.
\<close>

theorem sql_planner_sound:
  assumes "catalog_ok cat" "parse sql = Inr stmt" "Plan L stmt (NewLogicalPlanBuilder cat) = Some (Inr (p, b'))" "statement_refs stmt < 2 ^ 64 - 1"
    "supported p" "rows_fit cat db" "aggregates p \<longrightarrow> aggregates_fit db" "evaluates db p" "weight p < fuel"
  shows "\<exists>P. SQLPlanner_Plan parse L cat fuel sql = Some (Inr P) \<and> PlanNode_OutputSchema P = map ctype (OutputSchema p) \<and>
    physical_rows db P = logical_rows db p"
  using sql_planner_sound_spec [OF assms(1,3-9)] assms(2,3) by (auto simp: SQLPlanner_Plan_def)

theorem sql_planner_sound_witness:
  "\<exists>P. SQLPlanner_Plan (\<lambda>_. Inr shop_query) sample_parser shop 20 ''SELECT'' = Some (Inr P) \<and> PlanNode_OutputSchema P = [StringType] \<and>
     physical_rows shop_rows P = logical_rows shop_rows shop_plan"
proof -
  obtain b where b: "Plan sample_parser shop_query (NewLogicalPlanBuilder shop) = Some (Inr (shop_plan, b))" using shop_query_plan by blast
  have "statement_refs shop_query < 2 ^ 64 - 1" by (simp add: shop_query_def)
  from sql_planner_sound [where parse = "\<lambda>_. Inr shop_query" and sql = "''SELECT''", OF shop_ok refl b this shop_supported(1) shop_rows_fit(1,2) shop_evaluates shop_supported(2)]
  show ?thesis by (simp add: shop_plan_def NewLogicalProjectionNode_def shop_column_def column_of_def)
qed

text \<open>
  C14: a column reference means the only column it can mean. \<open>bindColumn\<close> returns the column of the name, in any table of the scope or in the tables with
  the alias of the qualifier (tables whose alias begins with \<open>agg\<close> always count), if there is exactly one; without one
  it reports that there is none, and with several that the reference is ambiguous.
\<close>

theorem bindColumn_unique:
  "bindColumn L col scope = only (candidates (qualifies (cn_Qualifier col)) (\<lambda>c. EqualString L (cn_Name col) (cname c)) scope)
     (''column '' @ quoted (cn_Name col) @ '' not found in scope'') (''ambiguous column reference '' @ quoted (cn_Name col))"
  by (rule bindColumn_only)

text \<open>
  C13: \<open>INSERT ... VALUES\<close> puts every value into its column. The target columns are those of the column list, found by name, or all
  columns; each row that VALUES evaluates to becomes a row of the table that has in each column the value given
  for it, in whatever order the columns are listed, and NULL in a column that is not listed.
\<close>

theorem insert_values_rows:
  assumes "planInsert L ins b = Some (Inr (p, b'))" "ins_Rows ins = ValuesRows rows" "bind_rows L rows = Some (Inr exprs)"
    "\<forall>es \<in> set exprs. length es = length (hd exprs)" "table_named (lb_catalog b) (ins_Table ins) = Some (Inr t)" "distinct (map col_Name (tb_Columns t))"
  shows "\<exists>targets child. p = NewLogicalInsertNode (tb_Oid t) child \<and> target_columns L ins t targets \<and> length targets = length (hd exprs) \<and>
    logical_rows db child = map (inserted_row targets (tb_Columns t)) (List.map_filter (\<lambda>es. project_row [] es []) exprs)"
proof -
  obtain targets s where t: "target_columns L ins t targets" "buildValues exprs = Some (LogicalValuesNode exprs s)" "length targets = length s"
    and p: "exactMatch targets (tb_Columns t) \<and> p = NewLogicalInsertNode (tb_Oid t) (LogicalValuesNode exprs s) \<or>
     (\<exists>es ref. aligned_exprs (sourceMap targets s) (tb_Columns t) = Some (Inr es) \<and>
        p = NewLogicalInsertNode (tb_Oid t) (NewLogicalProjectionNode (LogicalValuesNode exprs s) es (table_schema ref t)))"
    using planInsert_parts [OF assms(1-3,5)] by blast
  have n: "length s = length (hd exprs)" using buildValues_node [OF t(2)] by simp
  let ?rows = "List.map_filter (\<lambda>es. project_row [] es []) exprs"
  have len: "length vs = length s" if "vs \<in> set ?rows" for vs using that assms(4) n by (auto simp: map_filter_member dest!: project_row_length)
  show ?thesis
  proof (cases "exactMatch targets (tb_Columns t) \<and> p = NewLogicalInsertNode (tb_Oid t) (LogicalValuesNode exprs s)")
    case True
    have "map (inserted_row targets (tb_Columns t)) ?rows = ?rows" using inserted_row_exact [OF _ assms(6)] True len t(3) by (simp add: map_idI)
    then show ?thesis using True t n by (intro exI [of _ targets] exI [of _ "LogicalValuesNode exprs s"]) simp
  next
    case False
    then obtain es ref where es: "aligned_exprs (sourceMap targets s) (tb_Columns t) = Some (Inr es)"
      "p = NewLogicalInsertNode (tb_Oid t) (NewLogicalProjectionNode (LogicalValuesNode exprs s) es (table_schema ref t))" using p by blast
    have "List.map_filter (project_row s es) ?rows = map (inserted_row targets (tb_Columns t)) ?rows"
      using aligned_row [OF t(2,3) es(1)] len by (intro map_filter_total) simp
    then show ?thesis using es(2) t n
      by (intro exI [of _ targets] exI [of _ "NewLogicalProjectionNode (LogicalValuesNode exprs s) es (table_schema ref t)"]) (simp add: NewLogicalProjectionNode_def)
  qed
qed

theorem insert_values_rows_witness:
  "\<exists>p b targets child. planInsert sample_parser shop_insert (NewLogicalPlanBuilder shop) = Some (Inr (p, b)) \<and> p = NewLogicalInsertNode 1 child \<and>
     target_columns sample_parser shop_insert (Tables shop ! 0) targets \<and> length (logical_rows shop_rows child) = 1"
proof -
  let ?b = "NewLogicalPlanBuilder shop"
  obtain exprs where e: "bind_rows sample_parser [[SQLVal StrVal [120], SQLVal IntVal [55]]] = Some (Inr exprs)" "\<forall>es \<in> set exprs. length es = length (hd exprs)"
    "length (List.map_filter (\<lambda>es. project_row [] es []) exprs) = 1"
    by (simp add: both_def fused_def bindConstant_def NewStringValue_def ParseInt_def ParseUint_def project_row_def)
  have t: "table_named (lb_catalog ?b) (ins_Table shop_insert) = Some (Inr (Tables shop ! 0))"
    by (simp add: NewLogicalPlanBuilder_def shop_insert_def shop_named)
  have d: "distinct (map col_Name (tb_Columns (Tables shop ! 0)))" by (simp add: shop_tables)
  obtain p b where p: "planInsert sample_parser shop_insert ?b = Some (Inr (p, b))"
    by (simp add: planInsert_def shop_insert_def builder_defs bindUnqualifiedCol_def NewStringValue_def buildValues_def exactMatch_def sourceMap_def)
  have r: "ins_Rows shop_insert = ValuesRows [[SQLVal StrVal [120], SQLVal IntVal [55]]]" by (simp add: shop_insert_def)
  obtain targets child where c: "p = NewLogicalInsertNode (tb_Oid (Tables shop ! 0)) child" "target_columns sample_parser shop_insert (Tables shop ! 0) targets"
    "logical_rows shop_rows child = map (inserted_row targets (tb_Columns (Tables shop ! 0))) (List.map_filter (\<lambda>es. project_row [] es []) exprs)"
    using insert_values_rows [OF p r e(1,2) t d, of shop_rows] by blast
  then show ?thesis using p e(3) by (intro exI [of _ p] exI [of _ b] exI [of _ targets] exI [of _ child]) (simp add: shop_tables)
qed

end
