(* ===== verification/Execution_Statement.thy ===== *)
theory Execution_Statement
  imports Execution_Query Planner_Statement
begin

text \<open>
  SELECT statements over one table, from their syntax tree to executors: what the builder of logical plans makes of them is among the
  plans whose executors are covered, and the rows of the heap files have the types of the tables of the catalog.
\<close>

section \<open>What the builder makes of a SELECT over one table\<close>

lemma bindExpr_no_concat: "bindExpr L scope e = Some (Inr e') \<Longrightarrow> no_concat e'"
proof (induction e arbitrary: e' rule: SqlExpr.induct [of _ "\<lambda>_. True"])
  case (FuncExpr name es)
  then show ?case by (auto dest!: bind_function_column)
next
  case (SQLVal ty v)
  then show ?case by (auto dest!: bindConstant_constant)
qed (auto simp: succeeds split: if_splits)

lemma order_no_concat: "order_clauses L scope obs = Some (Inr clauses) \<Longrightarrow> \<forall>ob \<in> set clauses. no_concat (ob_Expr ob)"
  by (induction obs arbitrary: clauses) (auto simp: succeeds bindExpr_no_concat)

lemma select_items_no_concat: "select_items L scope ls items = Some (Inr (es, s)) \<Longrightarrow> \<forall>e \<in> set es. no_concat e"
proof (induction items arbitrary: es s)
  case (Cons item items)
  then show ?case by (cases item) (auto simp: succeeds bind_eq_Some_conv bindExpr_no_concat)
qed simp

text \<open>The type of a resolved expression over columns that can be stored.\<close>

lemma resolves_typed: "resolves ls e \<Longrightarrow> well_typed [] e \<Longrightarrow> DefaultType \<notin> set (map ctype ls) \<Longrightarrow> OutputType e \<noteq> DefaultType"
  by (cases e) (force simp: resolves_def)+

text \<open>No grouping, no aggregates, and not both ORDER BY and LIMIT, for which there is no executor.\<close>

definition plain :: "sqlparser \<Rightarrow> SelectClauses \<Rightarrow> bool" where
  "plain L sel \<longleftrightarrow> sel_GroupBy sel = [] \<and> aggregate_calls L sel = [] \<and> (sel_OrderBy sel = [] \<or> sel_Limit sel = None)"

definition one_table :: "string \<Rightarrow> string \<Rightarrow> SelectClauses \<Rightarrow> Statement" where
  "one_table name al sel = SelectStmt (Select [AliasedTableExpr (TableName name) al] sel)"

lemma one_table_refs: "statement_refs (one_table name al sel) < 2 ^ 64 - 1"
  by (simp add: one_table_def)

text \<open>Filters keep a plan below a projection, a sort or a limit covered.\<close>

definition selectable :: "LogicalPlanNode \<Rightarrow> bool" where
  "selectable p \<longleftrightarrow> select_plan p \<and> lstored p \<and> \<not> is_projection p \<and> \<not> aggregates p"

lemma planFilter_selectable:
  "planFilter L wh scope p = Some (Inr q) \<Longrightarrow> selectable p \<Longrightarrow> \<not> is_sort p \<Longrightarrow> selectable q \<and> \<not> is_sort q \<and> OutputSchema q = OutputSchema p"
  by (auto simp: planFilter_def succeeds selectable_def bindExpr_no_concat split: option.splits)

lemma planLimit_selectable:
  "planLimit lim p = Some (Inr q) \<Longrightarrow> selectable p \<Longrightarrow> \<not> is_sort p \<or> lim = None \<Longrightarrow> selectable q \<and> (lim = None \<longrightarrow> q = p)"
  by (cases lim) (auto simp: planLimit_def both_succeeds selectable_def NewLogicalLimitNode_def)

lemma planOrder_selectable:
  assumes "planOrder L obs p scope = Some (Inr q)" "selectable p" "visible scope = OutputSchema p" "supported q" "NewRawTupleDesc (map ctype (OutputSchema p)) \<noteq> None"
  shows "selectable q \<and> (obs = [] \<longrightarrow> q = p)"
proof (cases "obs = []")
  case False
  then obtain clauses where c: "order_clauses L scope obs = Some (Inr clauses)" "q = NewLogicalSortNode p clauses"
    using assms(1) by (auto simp: planOrder_def fused_succeeds)
  have "DefaultType \<notin> set (map ctype (OutputSchema p))" using assms(5) NewRawTupleDesc_None [of "map ctype (OutputSchema p)"] by auto
  then have "OutputType (ob_Expr ob) \<noteq> DefaultType" if "ob \<in> set clauses" for ob
    using resolves_typed [of "visible scope" "ob_Expr ob"] order_resolves [OF c(1)] assms(3,4) that c(2) by (simp add: NewLogicalSortNode_def)
  then show ?thesis using order_no_concat [OF c(1)] assms(2,5) c(2) False by (simp add: selectable_def NewLogicalSortNode_def)
qed (use assms in \<open>simp add: planOrder_def\<close>)

lemma one_table_select:
  assumes "Plan L (one_table name al sel) b = Some (Inr (p, b'))" "plain L sel" "supported p" "room b 2"
    "\<And>t. GetTableByOid (tb_Oid t) (lb_catalog b) = Inr t \<Longrightarrow> NewRawTupleDesc (tableSchemaToTypes t) \<noteq> None"
  shows "select_plan p \<and> \<not> aggregates p"
proof -
  obtain scope scan b1 where f: "base_table (TableIdent_CompliantName L name) al b = Some (Inr ((scope, scan), b1))"
    and s: "planSelect L sel scope scan b1 = Some (Inr (p, b'))"
    using assms(1) by (auto simp: one_table_def fused_succeeds)
  obtain t where t: "table_named (lb_catalog b) (TableIdent_CompliantName L name) = Some (Inr t)" using f by (auto simp: base_table_def fused_succeeds)
  obtain i b2 where i: "getNextTableRefID b = (i, b2)" by fastforce
  obtain n where n1: "scan = LogicalScanNode n" using f by (auto simp: base_table_def t i fused_def Let_def)
  have n: "sn_Predicates n = []" "sn_projection n = None" "map ctype (OutputSchema scan) = tableSchemaToTypes t" "visible scope = OutputSchema scan"
    using f n1 by (auto simp: base_table_def t i fused_def Let_def NewLogicalScanNode_def table_schema_def column_of_def tableSchemaToTypes_def)
  have desc: "NewRawTupleDesc (map ctype (OutputSchema scan)) \<noteq> None" using assms(4,5) table_named_oid [OF _ t] n(3) by (simp add: room_def)
  obtain p1 p2 p3 es sch where st: "planFilter L (sel_Where sel) scope scan = Some (Inr p1)" "planOrder L (sel_OrderBy sel) p1 scope = Some (Inr p2)"
    "planLimit (sel_Limit sel) p2 = Some (Inr p3)" "select_items L scope (OutputSchema p3) (sel_Exprs sel) = Some (Inr (es, sch))"
    "p = NewLogicalProjectionNode p3 es sch"
    using s assms(2) by (auto simp: planSelect_def planAggregation_def plain_def fused_succeeds)
  have "selectable scan" "\<not> is_sort scan" using n n1 by (simp_all add: selectable_def)
  note p1 = planFilter_selectable [OF st(1) this]
  have "supported p3" using assms(3) st(5) by (simp add: NewLogicalProjectionNode_def)
  then have "supported p2" using st(3) by (cases "sel_Limit sel") (auto simp: planLimit_def both_succeeds NewLogicalLimitNode_def)
  then have p2: "selectable p2" "sel_OrderBy sel = [] \<longrightarrow> p2 = p1" using planOrder_selectable [OF st(2)] p1 n(4) desc by auto
  then have "selectable p3" using planLimit_selectable [OF st(3) p2(1)] p1 assms(2) by (auto simp: plain_def)
  then show ?thesis using st(5) select_items_no_concat [OF st(4)] by (simp add: selectable_def NewLogicalProjectionNode_def)
qed

section \<open>Rows of heap files\<close>

lemma heaps_typed_catalog:
  assumes "catalog_ok cat" "NewTableManager cat = Some tm"
  shows "heaps_typed cat tm"
  unfolding heaps_typed_def
proof (intro allI impI)
  fix oid t
  assume t: "GetTableByOid oid cat = Inr t"
  then have t': "t \<in> set (Tables cat)" "tb_Oid t = oid" by (auto simp: GetTableByOid_def find_Some_iff split: option.splits)
  have "distinct (map tb_Oid (Tables cat))" using assms(1) catalog_oids_distinct(1) by (simp add: catalog_ok_def)
  from load_tables_get(2) [OF assms(2) [unfolded NewTableManager_def] this t'(1)] obtain th where "NewTableHeap t = Some th" "tm oid = Some th"
    using t'(2) by blast
  then show "\<exists>th. tm oid = Some th \<and> d_fields (th_desc th) = tableSchemaToTypes t"
    by (auto simp: NewTableHeap_def tableSchemaToTypes_def bind_eq_Some_conv NewRawTupleDesc_Some)
qed

lemma table_desc:
  assumes "heaps_typed cat tm" "\<forall>th \<in> ran tm. disk_table X Y th w" "GetTableByOid oid cat = Inr t"
  shows "NewRawTupleDesc (tableSchemaToTypes t) \<noteq> None"
proof -
  obtain th where th: "tm oid = Some th" "d_fields (th_desc th) = tableSchemaToTypes t" using assms(1,3) by (auto simp: heaps_typed_def)
  have "disk_table X Y th w" using assms(2) th(1) by (simp add: ranI)
  then have "wf_desc (th_desc th)" by (cases w) (simp add: disk_table_def)
  then show ?thesis using NewRawTupleDesc_Some [of "tableSchemaToTypes t" "th_desc th"] th(2) by simp
qed

lemma stored_rows_typed:
  assumes "heaps_typed cat tm" "\<forall>th \<in> ran tm. disk_table X Y th w" "scan_order X tm w xs" "holds_tables tm xs db"
    "GetTableByOid oid cat = Inr t" "r \<in> set (db_table db oid)"
  shows "map v_t r = tableSchemaToTypes t"
proof -
  obtain th where th: "tm oid = Some th" "d_fields (th_desc th) = tableSchemaToTypes t" using assms(1,5) by (auto simp: heaps_typed_def)
  obtain rid row where e: "(rid, row) \<in> set (xs oid)" "r = tuple_values (seq_tuple th (rid, row))" using assms(4,6) th(1) by (auto simp: holds_tables_def)
  have "disk_table X Y th w" using assms(2) th(1) by (simp add: ranI)
  then obtain bp fs where w: "w = (bp, fs)" "wf_desc (th_desc th)" "\<forall>pid b. Oid pid = th_oid th \<and> view X (disk_pages fs) bp pid = Some b \<longrightarrow> wf_page th b"
    by (cases w) (auto simp: disk_table_def)
  have "heap_rows th (view X (disk_pages fs) bp) rid = Some row"
    using assms(3) th(1) e(1) w(1) map_of_is_SomeI [of "xs oid" rid row] by (simp add: scan_order_def table_rows_def)
  note wf = seq_tuple_wf [OF w(2) heap_row_length [OF this w(3)], of rid]
  show ?thesis using tuple_values_props(1) [OF wf(1)] wf(2) th(2) e(2) by simp
qed

lemma stored_rows_fit:
  assumes "heaps_typed cat tm" "\<forall>th \<in> ran tm. disk_table X Y th w" "scan_order X tm w xs" "holds_tables tm xs db"
  shows "rows_fit cat db"
  unfolding rows_fit_def using stored_rows_typed [OF assms] by (metis length_map tableSchemaToTypes_def)

end
