(* ===== verification/Execution_Select.thy ===== *)
theory Execution_Select
  imports Execution_Statement
begin

text \<open>
  The meaning of a SELECT over one table, stated on its syntax tree and the rows of the table, and the proof that the plan which the builder makes
  of it returns this answer: names, literals and operators (\<open>bindExpr\<close>), WHERE, ORDER BY, LIMIT and the select list (\<open>planSelect\<close> in
  \<open>planner/logical_plan_builder.go\<close>).
\<close>

section \<open>What a SELECT over one table means\<close>

text \<open>The meaning of a statement on the rows of its table, without the builder: a name stands for the only column that it matches, and the
  operators are those of the expressions. \<open>None\<close> is the lack of a meaning. Literals in hexadecimal and calls of functions have none here.\<close>

definition named_column :: "sqlparser \<Rightarrow> Table \<Rightarrow> string \<Rightarrow> nat option" where
  "named_column L t name = (case filter (\<lambda>i. EqualString L name (col_Name (tb_Columns t ! i))) [0..<length (tb_Columns t)] of
     [i] \<Rightarrow> Some i | _ \<Rightarrow> None)"

fun compare_op :: "ComparisonOp \<Rightarrow> ComparisonType option" where
  "compare_op EqualStr = Some Equal"
| "compare_op NotEqualStr = Some NotEqual"
| "compare_op GreaterThanStr = Some GreaterThan"
| "compare_op LessThanStr = Some LessThan"
| "compare_op GreaterEqualStr = Some GreaterThanOrEqual"
| "compare_op LessEqualStr = Some LessThanOrEqual"
| "compare_op (OtherComparison _) = None"

fun binary_op :: "BinaryOp \<Rightarrow> ArithmeticType option" where
  "binary_op PlusStr = Some Add"
| "binary_op MinusStr = Some Sub"
| "binary_op MultStr = Some Mult"
| "binary_op DivStr = Some Div"
| "binary_op ModStr = Some Mod"
| "binary_op (OtherBinary _) = None"

fun sql_value :: "sqlparser \<Rightarrow> Table \<Rightarrow> lrow \<Rightarrow> SqlExpr \<Rightarrow> Value option" where
  "sql_value L t row' (ColNameExpr c) = map_option ((!) row') (named_column L t (cn_Name c))"
| "sql_value L t row' (SQLVal IntVal v) = (case ParseInt v of Inr i \<Rightarrow> Some (NewIntValue i) | Inl _ \<Rightarrow> None)"
| "sql_value L t row' (SQLVal StrVal v) = NewStringValue v"
| "sql_value L t row' (SqlComparison op l r) =
     do { k \<leftarrow> compare_op op; a \<leftarrow> sql_value L t row' l; b \<leftarrow> sql_value L t row' r; eval_comparison k a b }"
| "sql_value L t row' (AndExpr l r) = do { a \<leftarrow> sql_value L t row' l; b \<leftarrow> sql_value L t row' r; Some (eval_logic And a b) }"
| "sql_value L t row' (OrExpr l r) = do { a \<leftarrow> sql_value L t row' l; b \<leftarrow> sql_value L t row' r; Some (eval_logic Or a b) }"
| "sql_value L t row' (NotExpr e) = map_option eval_negation (sql_value L t row' e)"
| "sql_value L t row' (BinaryExpr op l r) =
     do { k \<leftarrow> binary_op op; a \<leftarrow> sql_value L t row' l; b \<leftarrow> sql_value L t row' r; eval_arith k a b }"
| "sql_value L t row' (ParenExpr e) = sql_value L t row' e"
| "sql_value L t row' _ = None"

text \<open>The type of an expression over a table with an alias: names resolve, with no qualifier or that of the table, comparisons are between
  values of one type, connectives and arithmetic take integers.\<close>

fun sql_type :: "sqlparser \<Rightarrow> string \<Rightarrow> Table \<Rightarrow> SqlExpr \<Rightarrow> Type option" where
  "sql_type L al t (ColNameExpr c) = (if cn_Qualifier c = [] \<or> cn_Qualifier c = al
     then map_option (\<lambda>i. col_Type (tb_Columns t ! i)) (named_column L t (cn_Name c)) else None)"
| "sql_type L al t (SQLVal IntVal v) = (case ParseInt v of Inr _ \<Rightarrow> Some IntType | Inl _ \<Rightarrow> None)"
| "sql_type L al t (SQLVal StrVal v) = (if NewStringValue v = None then None else Some StringType)"
| "sql_type L al t (SqlComparison op l r) =
     do { _ \<leftarrow> compare_op op; a \<leftarrow> sql_type L al t l; b \<leftarrow> sql_type L al t r; (if a = b then Some IntType else None) }"
| "sql_type L al t (AndExpr l r) = (if sql_type L al t l = Some IntType \<and> sql_type L al t r = Some IntType then Some IntType else None)"
| "sql_type L al t (OrExpr l r) = (if sql_type L al t l = Some IntType \<and> sql_type L al t r = Some IntType then Some IntType else None)"
| "sql_type L al t (NotExpr e) = (if sql_type L al t e = Some IntType then Some IntType else None)"
| "sql_type L al t (BinaryExpr op l r) =
     (if binary_op op \<noteq> None \<and> sql_type L al t l = Some IntType \<and> sql_type L al t r = Some IntType then Some IntType else None)"
| "sql_type L al t (ParenExpr e) = sql_type L al t e"
| "sql_type L al t _ = None"

text \<open>The names of the columns of a table differ in more than the case of letters.\<close>

definition names_differ :: "Table \<Rightarrow> bool" where
  "names_differ t \<longleftrightarrow> distinct (map (map ascii_lower \<circ> col_Name) (tb_Columns t))"

lemma find_column_first: "i < length ls \<Longrightarrow> P (ls ! i) \<Longrightarrow> \<forall>j < i. \<not> P (ls ! j) \<Longrightarrow> find_column P ls k = Some (k + i)"
proof (induction ls arbitrary: i k)
  case (Cons c ls)
  then show ?case by (cases i) (fastforce simp: All_less_Suc2)+
qed simp

lemma table_schema_nth: "i < length (tb_Columns t) \<Longrightarrow> table_schema ref t ! i = column_of ref (col_Name (tb_Columns t ! i)) (col_Type (tb_Columns t ! i))"
  by (simp add: table_schema_def)

lemma env_row_own:
  assumes "names_differ t" "i < length (tb_Columns t)" "length r = length (tb_Columns t)"
  shows "env_row (table_schema ref t) r (table_schema ref t ! i) = Some (r ! i)"
proof -
  have "\<not> LogicalColumn_Equals (table_schema ref t ! j) (table_schema ref t ! i)" if "j < i" for j
    using assms(1,2) that by (auto simp: names_differ_def distinct_conv_nth table_schema_nth LogicalColumn_Equals_def EqualFold_def column_of_def)
  then have "find_column (\<lambda>c. LogicalColumn_Equals c (table_schema ref t ! i)) (table_schema ref t) 0 = Some i"
    using find_column_first [of i "table_schema ref t" _ 0] assms(2) LogicalColumn_Equals_refl by (simp add: table_schema_def)
  then show ?thesis using assms(2,3) by (simp add: env_row_def idx_def)
qed

definition source_of :: "TableRef \<Rightarrow> Table \<Rightarrow> SourceTable" where
  "source_of ref t = \<lparr>st_ref = ref, st_schema = table_schema ref t\<rparr>"

lemma named_column_bound:
  assumes "named_column L t name = Some i"
  shows "filter (\<lambda>i. EqualString L name (col_Name (tb_Columns t ! i))) [0..<length (tb_Columns t)] = [i]" "i < length (tb_Columns t)"
proof -
  show f: "filter (\<lambda>i. EqualString L name (col_Name (tb_Columns t ! i))) [0..<length (tb_Columns t)] = [i]"
    using assms by (auto simp: named_column_def split: list.splits)
  have "i \<in> set (filter (\<lambda>i. EqualString L name (col_Name (tb_Columns t ! i))) [0..<length (tb_Columns t)])" unfolding f by simp
  then show "i < length (tb_Columns t)" by simp
qed

lemma bindColumn_named:
  assumes "named_column L t (cn_Name c) = Some i" "cn_Qualifier c = [] \<or> cn_Qualifier c = tr_alias ref"
  shows "bindColumn L c [source_of ref t] = Inr (table_schema ref t ! i)"
proof -
  let ?P = "\<lambda>i. EqualString L (cn_Name c) (col_Name (tb_Columns t ! i))"
  have s: "table_schema ref t = map ((!) (table_schema ref t)) [0..<length (tb_Columns t)]" by (metis length_map map_nth table_schema_def)
  have "filter (\<lambda>col. EqualString L (cn_Name c) (cname col)) (table_schema ref t) = map ((!) (table_schema ref t)) (filter ?P [0..<length (tb_Columns t)])"
    by (subst s) (auto simp: filter_map comp_def table_schema_nth column_of_def intro!: arg_cong [of _ _ "map _"] filter_cong)
  then show "bindColumn L c [source_of ref t] = Inr (table_schema ref t ! i)"
    using named_column_bound(1) [OF assms(1)] assms(2) by (auto simp: bindColumn_only candidates_def qualifies_def only_def source_of_def)
qed

lemma bindExpr_typed:
  assumes "names_differ t" "DefaultType \<notin> set (map col_Type (tb_Columns t))"
  shows "sql_type L (tr_alias ref) t e = Some ty \<Longrightarrow> ty \<noteq> DefaultType \<and> (\<exists>e'. bindExpr L [source_of ref t] e = Some (Inr e') \<and> OutputType e' = ty \<and>
    well_typed [] e' \<and> Expr_String e' \<noteq> None \<and>
    (\<forall>r. length r = length (tb_Columns t) \<longrightarrow> leval (env_row (table_schema ref t) r) e' = sql_value L t r e))"
proof (induction e arbitrary: ty rule: SqlExpr.induct [of _ "\<lambda>_. True"])
  case (ColNameExpr c)
  then obtain i where i: "named_column L t (cn_Name c) = Some i" "cn_Qualifier c = [] \<or> cn_Qualifier c = tr_alias ref" "ty = col_Type (tb_Columns t ! i)"
    by (auto split: if_splits)
  note b = named_column_bound(2) [OF i(1)] bindColumn_named [OF i(1,2)]
  have "col_Type (tb_Columns t ! i) \<in> set (map col_Type (tb_Columns t))" using b(1) by simp
  then have "ty \<noteq> DefaultType" using assms(2) i(3) by auto
  then show ?case using b i env_row_own [OF assms(1) b(1)] table_schema_nth [OF b(1)]
    by (simp add: bound_def fused_def column_of_def)
next
  case (SQLVal k v)
  then show ?case
    by (cases k) (auto simp: bindConstant_def Value_String_def NewStringValue_def NewIntValue_def zeroValue_def Value_IntValue_def Value_StringValue_def
        split: sum.splits if_splits)
next
  case (SqlComparison op l r)
  obtain k a where k: "compare_op op = Some k" "sql_type L (tr_alias ref) t l = Some a" "sql_type L (tr_alias ref) t r = Some a" "ty = IntType"
    using SqlComparison.prems by (auto simp: bind_eq_Some_conv split: if_splits)
  have "sqlOpToComparisonType op = Some (Inr k)" using k(1) by (cases op) auto
  then show ?case using SqlComparison.IH(1) [OF k(2)] SqlComparison.IH(2) [OF k(3)] k(1,4) by (auto simp: both_def fused_def binary_text_def)
next
  case (AndExpr l r)
  have k: "sql_type L (tr_alias ref) t l = Some IntType" "sql_type L (tr_alias ref) t r = Some IntType" "ty = IntType" using AndExpr.prems by (auto split: if_splits)
  show ?case using AndExpr.IH(1) [OF k(1)] AndExpr.IH(2) [OF k(2)] k(3) by (auto simp: both_def fused_def binary_text_def simp del: eval_logic.simps)
next
  case (OrExpr l r)
  have k: "sql_type L (tr_alias ref) t l = Some IntType" "sql_type L (tr_alias ref) t r = Some IntType" "ty = IntType" using OrExpr.prems by (auto split: if_splits)
  show ?case using OrExpr.IH(1) [OF k(1)] OrExpr.IH(2) [OF k(2)] k(3) by (auto simp: both_def fused_def binary_text_def simp del: eval_logic.simps)
next
  case (NotExpr e)
  have k: "sql_type L (tr_alias ref) t e = Some IntType" "ty = IntType" using NotExpr.prems by (auto split: if_splits)
  show ?case using NotExpr.IH [OF k(1)] k(2) by (auto simp: fused_def map_option_case split: option.split)
next
  case (BinaryExpr op l r)
  obtain k where k: "binary_op op = Some k" "sql_type L (tr_alias ref) t l = Some IntType" "sql_type L (tr_alias ref) t r = Some IntType" "ty = IntType"
    using BinaryExpr.prems unfolding sql_type.simps by (metis option.distinct(1) option.inject option.exhaust)
  have "arithmetic_op op = Some (Inr k)" using k(1) by (cases op) auto
  then show ?case using BinaryExpr.IH(1) [OF k(2)] BinaryExpr.IH(2) [OF k(3)] k(1,4) by (auto simp: both_def fused_def binary_text_def)
qed auto

text \<open>On rows of the types of the table a typed expression has a value of its type.\<close>

lemma sql_value_typed:
  assumes "DefaultType \<notin> set (map col_Type (tb_Columns t))" "map v_t r = map col_Type (tb_Columns t)"
  shows "sql_type L al t e = Some ty \<Longrightarrow> ty \<noteq> DefaultType \<and> (\<exists>v. sql_value L t r e = Some v \<and> v_t v = ty)"
proof (induction e arbitrary: ty rule: SqlExpr.induct [of _ "\<lambda>_. True"])
  case (ColNameExpr c)
  then obtain i where i: "named_column L t (cn_Name c) = Some i" "ty = col_Type (tb_Columns t ! i)" by (auto split: if_splits)
  note b = named_column_bound(2) [OF i(1)]
  have "v_t (r ! i) = col_Type (tb_Columns t ! i)" using b assms(2) by (metis length_map nth_map)
  moreover have "col_Type (tb_Columns t ! i) \<in> set (map col_Type (tb_Columns t))" using b by simp
  ultimately show ?case using i assms(1) by auto
next
  case (SQLVal k v)
  then show ?case by (cases k) (auto simp: NewStringValue_def NewIntValue_def zeroValue_def split: sum.splits if_splits)
next
  case (SqlComparison op l r')
  obtain k a where k: "compare_op op = Some k" "sql_type L al t l = Some a" "sql_type L al t r' = Some a" "ty = IntType"
    using SqlComparison.prems by (auto simp: bind_eq_Some_conv split: if_splits)
  obtain v w where v: "sql_value L t r l = Some v" "sql_value L t r r' = Some w" "v_t v = v_t w" "v_t v \<noteq> DefaultType"
    using SqlComparison.IH(1) [OF k(2)] SqlComparison.IH(2) [OF k(3)] by auto
  obtain u where "eval_comparison k v w = Some u" using eval_total(1) [OF v(3,4)] by blast
  then show ?case using v(1,2) k(1,4) eval_typed(1) by simp
next
  case (BinaryExpr op l r')
  obtain k where k: "binary_op op = Some k" "sql_type L al t l = Some IntType" "sql_type L al t r' = Some IntType" "ty = IntType"
    using BinaryExpr.prems unfolding sql_type.simps by (metis option.distinct(1) option.inject option.exhaust)
  obtain v w where v: "sql_value L t r l = Some v" "sql_value L t r r' = Some w" "v_t v = IntType" "v_t w = IntType"
    using BinaryExpr.IH(1) [OF k(2)] BinaryExpr.IH(2) [OF k(3)] by auto
  obtain u where "eval_arith k v w = Some u" using eval_total(2) [OF v(3,4)] by blast
  then show ?case using v(1,2) k(1,4) eval_typed(2) by simp
next
  case (NotExpr e)
  have "sql_type L al t e = Some IntType" "ty = IntType" using NotExpr.prems by (auto split: if_splits)
  then show ?case using NotExpr.IH by fastforce
next
  case (AndExpr l r')
  have k: "sql_type L al t l = Some IntType" "sql_type L al t r' = Some IntType" "ty = IntType" using AndExpr.prems by (auto split: if_splits)
  show ?case using AndExpr.IH(1) [OF k(1)] AndExpr.IH(2) [OF k(2)] k(3) by (auto simp del: eval_logic.simps)
next
  case (OrExpr l r')
  have k: "sql_type L al t l = Some IntType" "sql_type L al t r' = Some IntType" "ty = IntType" using OrExpr.prems by (auto split: if_splits)
  show ?case using OrExpr.IH(1) [OF k(1)] OrExpr.IH(2) [OF k(2)] k(3) by (auto simp del: eval_logic.simps)
qed auto

section \<open>The answer\<close>

definition kept :: "sqlparser \<Rightarrow> Table \<Rightarrow> SqlExpr option \<Rightarrow> lrow \<Rightarrow> bool" where
  "kept L t wh row' \<longleftrightarrow> (case wh of None \<Rightarrow> True | Some e \<Rightarrow> (case sql_value L t row' e of Some v \<Rightarrow> ExprIsTrue v | None \<Rightarrow> False))"

fun sql_less :: "sqlparser \<Rightarrow> Table \<Rightarrow> SqlOrder list \<Rightarrow> lrow \<Rightarrow> lrow \<Rightarrow> bool option" where
  "sql_less L t [] a b = Some False"
| "sql_less L t (ob # obs) a b = do {
     v \<leftarrow> sql_value L t a (so_Expr ob);
     w \<leftarrow> sql_value L t b (so_Expr ob);
     c \<leftarrow> Value_Compare v w;
     (if c = 0 then sql_less L t obs a b else Some (if so_Desc ob then 0 < c else c < 0))
   }"

definition limit_of :: "SqlLimit \<Rightarrow> nat option" where
  "limit_of l = (case (sl_Offset l, sl_Rowcount l) of
     (None, Some (SQLVal IntVal v)) \<Rightarrow> (case ParseInt v of Inr n \<Rightarrow> Some (nat (sint n)) | Inl _ \<Rightarrow> None)
   | _ \<Rightarrow> None)"

fun item_values :: "sqlparser \<Rightarrow> Table \<Rightarrow> lrow \<Rightarrow> SelectExpr \<Rightarrow> lrow option" where
  "item_values L t row' (StarExpr _) = Some row'"
| "item_values L t row' (AliasedExpr e _) = map_option (\<lambda>v. [v]) (sql_value L t row' e)"
| "item_values L t row' (OtherSelectExpr _) = None"

definition sql_row :: "sqlparser \<Rightarrow> Table \<Rightarrow> SelectExpr list \<Rightarrow> lrow \<Rightarrow> lrow option" where
  "sql_row L t items row' = map_option concat (those (map (item_values L t row') items))"

text \<open>The rows for which WHERE is true, in a stable order by ORDER BY, cut off by LIMIT, and of each the values of the select list.\<close>

definition select_answer :: "sqlparser \<Rightarrow> Table \<Rightarrow> SelectClauses \<Rightarrow> lrow list \<Rightarrow> lrow list option" where
  "select_answer L t sel rows = do {
     sorted \<leftarrow> stable_sort (sql_less L t (sel_OrderBy sel)) (filter (kept L t (sel_Where sel)) rows) [];
     n \<leftarrow> (case sel_Limit sel of None \<Rightarrow> Some (length sorted) | Some l \<Rightarrow> limit_of l);
     those (map (sql_row L t (sel_Exprs sel)) (take n sorted))
   }"

fun typed_item :: "sqlparser \<Rightarrow> string \<Rightarrow> Table \<Rightarrow> SelectExpr \<Rightarrow> bool" where
  "typed_item L al t (StarExpr q) \<longleftrightarrow> q = [] \<or> q = al"
| "typed_item L al t (AliasedExpr e _) \<longleftrightarrow> sql_type L al t e \<noteq> None"
| "typed_item L al t (OtherSelectExpr _) \<longleftrightarrow> False"

text \<open>The statements that are covered: typed expressions, no aggregation and no HAVING, a limit that is a number and has no offset, and not both
  ORDER BY and LIMIT, for which the program has no executor.\<close>

definition typed_select :: "sqlparser \<Rightarrow> string \<Rightarrow> Table \<Rightarrow> SelectClauses \<Rightarrow> bool" where
  "typed_select L al t sel \<longleftrightarrow> plain L sel \<and> sel_Having sel = None \<and>
     (case sel_Where sel of None \<Rightarrow> True | Some e \<Rightarrow> sql_type L al t e = Some IntType) \<and>
     (\<forall>ob \<in> set (sel_OrderBy sel). sql_type L al t (so_Expr ob) \<noteq> None) \<and>
     (case sel_Limit sel of None \<Rightarrow> True | Some l \<Rightarrow> limit_of l \<noteq> None) \<and>
     (\<forall>item \<in> set (sel_Exprs sel). typed_item L al t item)"

section \<open>The clauses\<close>

definition typed_table :: "Table \<Rightarrow> bool" where
  "typed_table t \<longleftrightarrow> names_differ t \<and> DefaultType \<notin> set (map col_Type (tb_Columns t))"

definition typed_row :: "Table \<Rightarrow> lrow \<Rightarrow> bool" where
  "typed_row t row' \<longleftrightarrow> map v_t row' = map col_Type (tb_Columns t)"

lemma typed_row_length: "typed_row t r \<Longrightarrow> length r = length (tb_Columns t)"
  unfolding typed_row_def by (metis length_map)

text \<open>A plan under the select list: it has the columns of the table, and returns some rows of it.\<close>

definition plan_over :: "database \<Rightarrow> TableRef \<Rightarrow> Table \<Rightarrow> lrow list \<Rightarrow> nat \<Rightarrow> LogicalPlanNode \<Rightarrow> bool" where
  "plan_over db ref t rows n p \<longleftrightarrow> OutputSchema p = table_schema ref t \<and> supported p \<and> evaluates db p \<and> logical_rows db p = rows \<and> weight p \<le> n"

lemma bindExpr_value:
  assumes "typed_table t" "sql_type L (tr_alias ref) t e = Some ty"
  obtains e' where "bindExpr L [source_of ref t] e = Some (Inr e')" "OutputType e' = ty" "well_typed [] e'" "Expr_String e' \<noteq> None" "ty \<noteq> DefaultType"
    "\<And>r. typed_row t r \<Longrightarrow> leval (env_row (table_schema ref t) r) e' = sql_value L t r e"
proof -
  have "\<exists>e'. bindExpr L [source_of ref t] e = Some (Inr e') \<and> OutputType e' = ty \<and> well_typed [] e' \<and> Expr_String e' \<noteq> None \<and>
      (\<forall>r. length r = length (tb_Columns t) \<longrightarrow> leval (env_row (table_schema ref t) r) e' = sql_value L t r e)" "ty \<noteq> DefaultType"
    using bindExpr_typed [OF _ _ assms(2)] assms(1) unfolding typed_table_def by blast+
  then show thesis using that typed_row_length by blast
qed

lemma planFilter_typed:
  assumes "typed_table t" "plan_over db ref t rows 1 p" "\<forall>r \<in> set rows. typed_row t r"
    "case wh of None \<Rightarrow> True | Some e \<Rightarrow> sql_type L (tr_alias ref) t e = Some IntType"
  shows "\<exists>q. planFilter L wh [source_of ref t] p = Some (Inr q) \<and> plan_over db ref t (filter (kept L t wh) rows) 4 q"
proof (cases wh)
  case None
  then show ?thesis using assms(2) by (simp add: planFilter_def optional_def fused_def plan_over_def kept_def)
next
  case (Some e)
  then have ty: "sql_type L (tr_alias ref) t e = Some IntType" using assms(4) by simp
  obtain e' where e: "bindExpr L [source_of ref t] e = Some (Inr e')" "OutputType e' = IntType" "well_typed [] e'"
    "\<And>r. typed_row t r \<Longrightarrow> leval (env_row (table_schema ref t) r) e' = sql_value L t r e"
    by (rule bindExpr_value [OF assms(1) ty]) blast
  have "filter (sat (table_schema ref t) e') rows = filter (kept L t wh) rows"
    using assms(3) e(4) Some by (intro filter_cong) (auto simp: sat_def kept_def)
  then show ?thesis using e(1-3) Some assms(2) by (simp add: planFilter_def optional_def fused_def plan_over_def boolean_def)
qed

lemma order_typed:
  assumes "typed_table t" "\<forall>ob \<in> set obs. sql_type L (tr_alias ref) t (so_Expr ob) \<noteq> None"
  shows "\<exists>clauses. order_clauses L [source_of ref t] obs = Some (Inr clauses) \<and> (\<forall>ob \<in> set clauses. well_typed [] (ob_Expr ob)) \<and>
    (\<forall>a b. typed_row t a \<longrightarrow> typed_row t b \<longrightarrow> row_less (table_schema ref t) clauses a b = sql_less L t obs a b \<and> sql_less L t obs a b \<noteq> None)"
  using assms(2)
proof (induction obs)
  case (Cons ob obs)
  then obtain clauses where c: "order_clauses L [source_of ref t] obs = Some (Inr clauses)" "\<forall>ob \<in> set clauses. well_typed [] (ob_Expr ob)"
    "\<forall>a b. typed_row t a \<longrightarrow> typed_row t b \<longrightarrow> row_less (table_schema ref t) clauses a b = sql_less L t obs a b \<and> sql_less L t obs a b \<noteq> None" by auto
  obtain ty where ty: "sql_type L (tr_alias ref) t (so_Expr ob) = Some ty" using Cons.prems by auto
  obtain e where e: "bindExpr L [source_of ref t] (so_Expr ob) = Some (Inr e)" "well_typed [] e" "ty \<noteq> DefaultType"
    "\<And>r. typed_row t r \<Longrightarrow> leval (env_row (table_schema ref t) r) e = sql_value L t r (so_Expr ob)"
    by (rule bindExpr_value [OF assms(1) ty]) blast
  let ?c = "\<lparr>ob_Expr = e, ob_Direction = (if so_Desc ob then SortOrderDescending else SortOrderAscending)\<rparr>"
  have "row_less (table_schema ref t) (?c # clauses) a b = sql_less L t (ob # obs) a b \<and> sql_less L t (ob # obs) a b \<noteq> None"
    if ab: "typed_row t a" "typed_row t b" for a b
  proof -
    have "\<exists>v. sql_value L t r (so_Expr ob) = Some v \<and> v_t v = ty" if "typed_row t r" for r
      using sql_value_typed [of t r L "tr_alias ref" "so_Expr ob" ty] ty that assms(1) by (simp add: typed_table_def typed_row_def)
    then obtain v w where "sql_value L t a (so_Expr ob) = Some v" "sql_value L t b (so_Expr ob) = Some w" "v_t v = ty" "v_t w = ty" using ab by blast
    then show ?thesis using ab c(3) e(3,4) Value_Compare_total [of v w] by auto
  qed
  then show ?case using c(1,2) e(1,2) by (simp add: both_def fused_def)
qed simp

lemma stable_sort_cong:
  assumes "\<And>a b. a \<in> set xs \<Longrightarrow> b \<in> set xs \<Longrightarrow> lt a b = lt' a b"
  shows "stable_sort lt xs [] = stable_sort lt' xs []"
proof -
  let ?R = "\<lambda>a b. a = b \<and> a \<in> set xs"
  have "rel_option (list_all2 ?R) (stable_sort lt xs []) (stable_sort lt' xs [])"
    by (rule stable_sort_rel) (auto simp: list_all2_same assms)
  then have "rel_option (list_all2 (=)) (stable_sort lt xs []) (stable_sort lt' xs [])"
    by (rule option.rel_mono_strong) (auto elim: list_all2_mono)
  then show ?thesis by (simp add: list.rel_eq option.rel_eq)
qed

lemma stable_sort_total:
  assumes "\<forall>a \<in> A. \<forall>b \<in> A. lt a b \<noteq> None"
  shows "set xs \<subseteq> A \<Longrightarrow> set acc \<subseteq> A \<Longrightarrow> \<exists>ys. stable_sort lt xs acc = Some ys"
proof (induction xs arbitrary: acc)
  case (Cons x xs)
  have "set ys \<subseteq> A \<Longrightarrow> \<exists>zs. stable_insert lt x ys = Some zs \<and> set zs \<subseteq> A" for ys
  proof (induction ys)
    case (Cons y ys)
    have "x \<in> A" "y \<in> A" using Cons.prems \<open>set (x # xs) \<subseteq> A\<close> by auto
    then obtain b where "lt x y = Some b" using assms by blast
    moreover obtain zs where "stable_insert lt x ys = Some zs" "set zs \<subseteq> A" using Cons by auto
    ultimately show ?case using Cons.prems \<open>set (x # xs) \<subseteq> A\<close> by auto
  qed (use Cons.prems(1) in simp)
  then obtain zs where "stable_insert lt x acc = Some zs" "set zs \<subseteq> A" using Cons.prems(2) by blast
  then show ?case using Cons.IH Cons.prems(1) by auto
qed simp

lemma stable_sort_nothing: "stable_sort (\<lambda>_ _. Some False) xs acc = Some (acc @ xs)"
proof (induction xs arbitrary: acc)
  case (Cons x xs)
  have "stable_insert (\<lambda>_ _. Some False) x ys = Some (ys @ [x])" for ys by (induction ys) auto
  then show ?case using Cons by simp
qed simp

lemma planOrder_typed:
  assumes "typed_table t" "plan_over db ref t rows n p" "\<forall>r \<in> set rows. typed_row t r" "\<forall>ob \<in> set obs. sql_type L (tr_alias ref) t (so_Expr ob) \<noteq> None"
  shows "\<exists>q sorted. planOrder L obs p [source_of ref t] = Some (Inr q) \<and> stable_sort (sql_less L t obs) rows [] = Some sorted \<and>
    set sorted = set rows \<and> plan_over db ref t sorted (Suc n) q"
proof -
  obtain clauses where c: "order_clauses L [source_of ref t] obs = Some (Inr clauses)" "\<forall>ob \<in> set clauses. well_typed [] (ob_Expr ob)"
    "\<forall>a b. typed_row t a \<longrightarrow> typed_row t b \<longrightarrow> row_less (table_schema ref t) clauses a b = sql_less L t obs a b \<and> sql_less L t obs a b \<noteq> None"
    using order_typed [OF assms(1,4)] by blast
  obtain sorted where s: "stable_sort (sql_less L t obs) rows [] = Some sorted"
    using stable_sort_total [of "set rows" "sql_less L t obs" rows "[]"] c(3) assms(3) by auto
  have set: "set sorted = set rows" using stable_sort_set [OF s] by simp
  show ?thesis
  proof (cases "obs = []")
    case True
    then have "sql_less L t obs = (\<lambda>_ _. Some False)" by (simp add: fun_eq_iff)
    then have "sorted = rows" using s stable_sort_nothing [of rows "[]"] by simp
    then show ?thesis using s True assms(2) by (auto simp: planOrder_def plan_over_def)
  next
    case False
    have "stable_sort (row_less (table_schema ref t) clauses) rows [] = Some sorted"
      using stable_sort_cong [of rows "row_less (table_schema ref t) clauses" "sql_less L t obs"] c(3) assms(3) s by simp
    then have "plan_over db ref t sorted (Suc n) (NewLogicalSortNode p clauses)"
      using assms(2) c(2) by (simp add: plan_over_def NewLogicalSortNode_def sort_rows_def)
    then show ?thesis using s set False c(1) by (simp add: planOrder_def fused_def)
  qed
qed

lemma planLimit_typed:
  assumes "plan_over db ref t rows n p" "case lim of None \<Rightarrow> True | Some l \<Rightarrow> limit_of l \<noteq> None"
  shows "\<exists>q k. planLimit lim p = Some (Inr q) \<and> (case lim of None \<Rightarrow> Some (length rows) | Some l \<Rightarrow> limit_of l) = Some k \<and>
    plan_over db ref t (take k rows) (Suc n) q"
proof (cases lim)
  case None
  then show ?thesis using assms(1) by (simp add: planLimit_def plan_over_def)
next
  case (Some l)
  then obtain v i where "sl_Offset l = None" "sl_Rowcount l = Some (SQLVal IntVal v)" "ParseInt v = Inr i" "limit_of l = Some (nat (sint i))"
    using assms(2) by (auto simp: limit_of_def split: option.splits SqlExpr.splits ValType.splits sum.splits)
  then show ?thesis using assms(1) Some by (simp add: planLimit_def optional_def both_def fused_def plan_over_def NewLogicalLimitNode_def)
qed

lemma project_star:
  assumes "names_differ t" "length r = length (tb_Columns t)"
  shows "those (map (leval (env_row (table_schema ref t) r)) (map LogicalColumnExpr (table_schema ref t))) = Some r"
proof -
  have "map (leval (env_row (table_schema ref t) r)) (map LogicalColumnExpr (table_schema ref t)) = map Some r"
    using env_row_own [OF assms(1) _ assms(2), of _ ref] assms(2) by (intro nth_equalityI) (simp_all add: table_schema_def)
  then show ?thesis by (simp add: those_eq_Some)
qed

lemma select_items_typed:
  assumes "typed_table t" "\<forall>item \<in> set items. typed_item L (tr_alias ref) t item"
  shows "\<exists>es sch. select_items L [source_of ref t] (table_schema ref t) items = Some (Inr (es, sch)) \<and> (\<forall>e \<in> set es. well_typed [] e) \<and>
    map OutputType es = map ctype sch \<and>
    (\<forall>r. typed_row t r \<longrightarrow> (\<exists>vs. project_row (table_schema ref t) es r = Some vs \<and> sql_row L t items r = Some vs))"
  using assms(2)
proof (induction items)
  case Nil
  then show ?case by (simp add: project_row_def sql_row_def)
next
  case (Cons item items)
  then obtain es sch where i: "select_items L [source_of ref t] (table_schema ref t) items = Some (Inr (es, sch))" "\<forall>e \<in> set es. well_typed [] e"
    "map OutputType es = map ctype sch"
    "\<And>r. typed_row t r \<Longrightarrow> \<exists>vs. project_row (table_schema ref t) es r = Some vs \<and> sql_row L t items r = Some vs" by auto
  have cons: "\<exists>vs. project_row (table_schema ref t) (es' @ es) r = Some vs \<and> sql_row L t (item # items) r = Some vs"
    if "typed_row t r" "item_values L t r item = Some us" "project_row (table_schema ref t) es' r = Some us" for es' r us
    using i(4) [OF that(1)] that(2,3) by (auto simp: project_row_def sql_row_def those_eq_Some)
  show ?case
  proof (cases item)
    case (StarExpr q)
    have "project_row (table_schema ref t) (map LogicalColumnExpr (table_schema ref t)) r = Some r" if "typed_row t r" for r
      using project_star [of t r ref] assms(1) typed_row_length [OF that] by (simp add: typed_table_def project_row_def)
    then show ?thesis using cons [of _ _ "map LogicalColumnExpr (table_schema ref t)"] i(1-3) StarExpr by (auto simp: fused_def)
  next
    case (AliasedExpr e as')
    then obtain ty where ty: "sql_type L (tr_alias ref) t e = Some ty" using Cons.prems by auto
    obtain e' where e: "bindExpr L [source_of ref t] e = Some (Inr e')" "OutputType e' = ty" "well_typed [] e'" "Expr_String e' \<noteq> None"
      "\<And>r. typed_row t r \<Longrightarrow> leval (env_row (table_schema ref t) r) e' = sql_value L t r e"
      by (rule bindExpr_value [OF assms(1) ty]) blast
    have "\<exists>al. select_alias L as' e' = Some al" using e(4) by (auto simp: select_alias_def Let_def split: Expr.split)
    then obtain al where al: "select_alias L as' e' = Some al" ..
    have "\<exists>v. sql_value L t r e = Some v" if "typed_row t r" for r
      using sql_value_typed [of t r L "tr_alias ref" e ty] ty that assms(1) by (auto simp: typed_table_def typed_row_def)
    then have "\<exists>vs. project_row (table_schema ref t) (e' # es) r = Some vs \<and> sql_row L t (item # items) r = Some vs" if "typed_row t r" for r
      using cons [of r _ "[e']"] that e(5) AliasedExpr by (fastforce simp: project_row_def)
    then show ?thesis using i(1-3) e(1-3) al AliasedExpr by (auto simp: fused_def)
  qed (use Cons.prems in auto)
qed

section \<open>The plan of the statement\<close>

definition table_alias :: "sqlparser \<Rightarrow> string \<Rightarrow> string \<Rightarrow> string" where
  "table_alias L name al = (if al = [] then TableIdent_CompliantName L name else al)"

lemma base_table_plan:
  assumes "table_named (lb_catalog b) name = Some (Inr t)"
  obtains ref n b' where "base_table name al b = Some (Inr (([source_of ref t], LogicalScanNode n), b'))" "tr_alias ref = (if al = [] then name else al)"
    "plan_over db ref t (db_table db (tb_Oid t)) 1 (LogicalScanNode n)"
proof -
  obtain i b' where i: "getNextTableRefID b = (i, b')" by fastforce
  let ?ref = "\<lparr>tr_table = Some (tb_Oid t), tr_alias = (if al = [] then name else al), refID = i\<rparr>"
  let ?n = "NewLogicalScanNode (source_of ?ref t) False"
  have "base_table name al b = Some (Inr (([source_of ?ref t], LogicalScanNode ?n), b'))" using assms i by (simp add: base_table_def fused_def source_of_def Let_def)
  moreover have "plan_over db ?ref t (db_table db (tb_Oid t)) 1 (LogicalScanNode ?n)"
    by (simp add: plan_over_def NewLogicalScanNode_def source_of_def ref_rows_def)
  ultimately show thesis using that by simp
qed

lemma those_map_filter: "\<forall>x \<in> set xs. \<exists>v. f x = Some v \<and> g x = Some v \<Longrightarrow> those (map g xs) = Some (List.map_filter f xs)"
  by (induction xs) (auto simp: List.map_filter_def)

text \<open>The builder plans every typed statement, and the plan returns the answer.\<close>

lemma typed_select_plan:
  assumes "table_named (lb_catalog b) (TableIdent_CompliantName L name) = Some (Inr t)" "typed_table t" "typed_select L (table_alias L name al) t sel"
    "\<forall>r \<in> set (db_table db (tb_Oid t)). typed_row t r"
  shows "\<exists>p b'. Plan L (one_table name al sel) b = Some (Inr (p, b')) \<and> supported p \<and> evaluates db p \<and> weight p \<le> 7 \<and>
    select_answer L t sel (db_table db (tb_Oid t)) = Some (logical_rows db p)"
proof -
  let ?rows = "db_table db (tb_Oid t)"
  obtain ref n b' where f: "base_table (TableIdent_CompliantName L name) al b = Some (Inr (([source_of ref t], LogicalScanNode n), b'))"
    "tr_alias ref = table_alias L name al" "plan_over db ref t ?rows 1 (LogicalScanNode n)"
    using base_table_plan [OF assms(1), of al db] by (auto simp: table_alias_def)
  have ts: "plain L sel" "case sel_Where sel of None \<Rightarrow> True | Some e \<Rightarrow> sql_type L (tr_alias ref) t e = Some IntType"
    "\<forall>ob \<in> set (sel_OrderBy sel). sql_type L (tr_alias ref) t (so_Expr ob) \<noteq> None" "case sel_Limit sel of None \<Rightarrow> True | Some l \<Rightarrow> limit_of l \<noteq> None"
    "\<forall>item \<in> set (sel_Exprs sel). typed_item L (tr_alias ref) t item"
    using assms(3) unfolding typed_select_def f(2) by blast+
  let ?kept = "filter (kept L t (sel_Where sel)) ?rows"
  obtain p1 where p1: "planFilter L (sel_Where sel) [source_of ref t] (LogicalScanNode n) = Some (Inr p1)" "plan_over db ref t ?kept 4 p1"
    using planFilter_typed [OF assms(2) f(3) assms(4) ts(2)] by blast
  have typed: "\<forall>r \<in> set ?kept. typed_row t r" using assms(4) by simp
  obtain p2 sorted where p2: "planOrder L (sel_OrderBy sel) p1 [source_of ref t] = Some (Inr p2)"
    "stable_sort (sql_less L t (sel_OrderBy sel)) ?kept [] = Some sorted" "set sorted = set ?kept" "plan_over db ref t sorted 5 p2"
    using planOrder_typed [OF assms(2) p1(2) typed ts(3)] by auto
  obtain p3 k where p3: "planLimit (sel_Limit sel) p2 = Some (Inr p3)" "(case sel_Limit sel of None \<Rightarrow> Some (length sorted) | Some l \<Rightarrow> limit_of l) = Some k"
    "plan_over db ref t (take k sorted) 6 p3"
    using planLimit_typed [OF p2(4) ts(4)] by auto
  obtain es sch where e: "select_items L [source_of ref t] (table_schema ref t) (sel_Exprs sel) = Some (Inr (es, sch))" "\<forall>e \<in> set es. well_typed [] e"
    "map OutputType es = map ctype sch"
    "\<And>r. typed_row t r \<Longrightarrow> \<exists>vs. project_row (table_schema ref t) es r = Some vs \<and> sql_row L t (sel_Exprs sel) r = Some vs"
    using select_items_typed [OF assms(2) ts(5)] by blast
  let ?p = "NewLogicalProjectionNode p3 es sch"
  have out: "\<exists>vs. project_row (table_schema ref t) es r = Some vs \<and> sql_row L t (sel_Exprs sel) r = Some vs" if "r \<in> set (take k sorted)" for r
    using e(4) typed p2(3) in_set_takeD [OF that] by blast
  then have "those (map (sql_row L t (sel_Exprs sel)) (take k sorted)) = Some (List.map_filter (project_row (table_schema ref t) es) (take k sorted))"
    by (intro those_map_filter) blast
  then have "select_answer L t sel ?rows = Some (logical_rows db ?p)"
    using p2(2) p3(2,3) by (simp add: select_answer_def NewLogicalProjectionNode_def plan_over_def)
  moreover have "supported ?p" "evaluates db ?p" "weight ?p \<le> 7" using p3(3) e(2,3) out by (fastforce simp: NewLogicalProjectionNode_def plan_over_def)+
  moreover have "Plan L (one_table name al sel) b = Some (Inr (?p, b'))"
    using f(1) p1(1) p2(1) p3(1,3) e(1) ts(1)
    by (simp add: one_table_def planSelect_def planAggregation_def plain_def fused_def plan_over_def)
  ultimately show ?thesis by blast
qed

section \<open>What the builder ignores\<close>

lemma planSelect_having:
  assumes "sel_GroupBy sel = []" "aggregate_calls L sel = []"
  shows "planSelect L sel scope plan b = planSelect L (sel\<lparr>sel_Having := None\<rparr>) scope plan b"
proof -
  have "aggregate_calls L (sel\<lparr>sel_Having := None\<rparr>) = []" using assms(2) by (simp add: aggregate_calls_def)
  then show ?thesis using assms by (simp add: planSelect_def planAggregation_def fused_def)
qed

lemma planFilter_schema: "planFilter L wh scope p = Some (Inr q) \<Longrightarrow> OutputSchema q = OutputSchema p"
  by (auto simp: planFilter_def succeeds split: option.splits)

lemma planOrder_schema: "planOrder L obs p scope = Some (Inr q) \<Longrightarrow> OutputSchema q = OutputSchema p"
  by (auto simp: planOrder_def succeeds NewLogicalSortNode_def split: if_splits)

lemma planLimit_schema: "planLimit lim p = Some (Inr q) \<Longrightarrow> OutputSchema q = OutputSchema p"
  by (cases lim) (auto simp: planLimit_def succeeds NewLogicalLimitNode_def)

lemma findAggs_no_argument: "findAggs L scope pre = Some (Inr clauses) \<Longrightarrow> findAggs L scope (pre @ (name, []) # post) = None"
proof (induction pre arbitrary: clauses)
  case (Cons call pre)
  then obtain f es where c: "call = (f, es)" by (cases call)
  then obtain a ty rest where "aggregate_argument L scope f es = Some (Inr a)" "resolveAggregatorType (ColIdent_CompliantName L f) = Some (Inr ty)"
    "findAggs L scope pre = Some (Inr rest)" using Cons.prems by (auto simp: succeeds)
  then show ?case using Cons.IH c by (simp add: both_def fused_def)
qed (simp add: both_def fused_def)

section \<open>Properties\<close>


text \<open>On the tables \<open>users\<close> and \<open>aggregates\<close>: \<open>SELECT id FROM users HAVING name\<close>, \<open>SELECT users.* FROM users, aggregates\<close> and \<open>SELECT COUNT() FROM users, aggregates\<close>.\<close>

lemma shop_users:
  "typed_table (Tables shop ! 0)" "named_column sample_parser (Tables shop ! 0) ''id'' = Some 0" "\<forall>r \<in> set (db_table shop_rows 1). typed_row (Tables shop ! 0) r"
  "tb_Oid (Tables shop ! 0) = 1"
  by (simp_all add: typed_table_def names_differ_def shop_tables named_column_def sample_parser_def EqualFold_def ascii_lower_def typed_row_def shop_rows_def)

lemma shop_typed: "typed_select sample_parser ''users'' (Tables shop ! 0) (plain_select [AliasedExpr (name_of [] ''id'') []] None None)"
  using shop_users(2) by (simp add: typed_select_def plain_def plain_select_def aggregate_calls_def name_of_def) (simp add: sample_parser_def)

lemma shop_from_plan: "\<exists>scope plan b. planFrom sample_parser shop_from (NewLogicalPlanBuilder shop) = Some (Inr ((scope, plan), b)) \<and> length (OutputSchema plan) = 4"
  by (simp add: shop_from_def builder_defs)

lemma lower_count: "ToLower ''COUNT'' = ''count''"
  by code_simp


end
