(* ===== verification/Execution_Index.thy ===== *)
theory Execution_Index
  imports Execution_Modify
begin

text \<open>
  The executors that read a table through an index (\<open>execution/index_lookup_executor.go\<close>,
  \<open>execution/index_scan_executor.go\<close>). The index is read in \<open>Init\<close>: a lookup fetches the list of record
  identifiers, a scan takes a snapshot of the tree; \<open>Next\<close> reads one row of the heap file at a time. The tuple that is shown
  is a view of the buffer of the executor; the model reads it when \<open>Next\<close> returns.

  The locale \<open>rid_fetcher\<close> is what both have in common: an executor that walks along record identifiers. The theorems show
  that through an index that agrees with the table, a lookup yields exactly the rows with the key, and a forward scan
  exactly the rows from the start key on, in the order of the keys.
\<close>

section \<open>Point lookup\<close>

record ('m, 'fs) IndexLookupState =
  il_current :: Tuple
  il_buffer :: bytes
  il_rids :: "RecordID list"
  il_ridIdx :: nat
  il_lastErr :: "string option"
  il_pool :: "'m BufferPool"
  il_files :: 'fs

definition NewIndexLookupExecutor :: "TableHeap \<Rightarrow> 'm BufferPool \<Rightarrow> 'fs \<Rightarrow> ('m, 'fs) IndexLookupState" where
  "NewIndexLookupExecutor th bp fs = \<lparr>il_current = EmptyTuple, il_buffer = replicate (BytesPerTuple (StorageSchema th)) 0, il_rids = [], il_ridIdx = 0,
     il_lastErr = None, il_pool = bp, il_files = fs\<rparr>"

definition IndexLookup_Init :: "(bytes, nat, 'h) MapOf \<Rightarrow> (btreeItem, 't, 'it) BTreeG \<Rightarrow> ('h, 't) RuntimeIndex \<Rightarrow> Key \<Rightarrow> ('m, 'fs) IndexLookupState \<Rightarrow>
    (string option \<times> ('m, 'fs) IndexLookupState) option" where
  "IndexLookup_Init XI B index equalityKey e = do {
     rids \<leftarrow> Index_ScanKey XI B equalityKey [] index;
     Some (None, e\<lparr>il_rids := rids, il_ridIdx := 0\<rparr>)
   }"

definition IndexLookup_Next :: "nat \<Rightarrow> (PageID, nat, 'm) MapOf \<Rightarrow> 'fs DBFileManager \<Rightarrow> TableHeap \<Rightarrow> ('m, 'fs) IndexLookupState \<Rightarrow>
    (bool \<times> ('m, 'fs) IndexLookupState) option" where
  "IndexLookup_Next fuel X M th e =
     (if il_ridIdx e < length (il_rids e) then do {
        rid \<leftarrow> idx (il_rids e) (il_ridIdx e);
        let e = e\<lparr>il_ridIdx := il_ridIdx e + 1\<rparr>;
        (r, bp, fs) \<leftarrow> ReadTuple fuel X M rid (il_buffer e) (il_pool e) (il_files e);
        let e = e\<lparr>il_pool := bp, il_files := fs\<rparr>;
        (case r of
           Inl err \<Rightarrow> Some (False, e\<lparr>il_lastErr := Some (heap_error_text err)\<rparr>)
         | Inr buffer \<Rightarrow> Some (True, e\<lparr>il_buffer := buffer, il_current := FromRawTuple buffer (StorageSchema th) rid\<rparr>))
      } else Some (False, e))"

definition IndexLookupExecutor :: "nat \<Rightarrow> (PageID, nat, 'm) MapOf \<Rightarrow> 'fs DBFileManager \<Rightarrow> (bytes, nat, 'h) MapOf \<Rightarrow> (btreeItem, 't, 'it) BTreeG \<Rightarrow> TableHeap \<Rightarrow>
    ('h, 't) RuntimeIndex \<Rightarrow> Key \<Rightarrow> ('m, 'fs) IndexLookupState Executor" where
  "IndexLookupExecutor fuel X M XI B th index equalityKey = \<lparr>ex_Init = IndexLookup_Init XI B index equalityKey, ex_Next = IndexLookup_Next fuel X M th,
     ex_Current = (\<lambda>e. Some (il_current e)), ex_Error = il_lastErr, ex_Close = (\<lambda>e. Some (None, e))\<rparr>"

section \<open>Range scan\<close>

record ('m, 'fs, 'it) IndexScanState =
  is_iterator :: "'it MemBTreeIndexIterator option"
  is_current :: Tuple
  is_buffer :: bytes
  is_lastErr :: "string option"
  is_pool :: "'m BufferPool"
  is_files :: 'fs

definition NewIndexScanExecutor :: "TableHeap \<Rightarrow> 'm BufferPool \<Rightarrow> 'fs \<Rightarrow> ('m, 'fs, 'it) IndexScanState" where
  "NewIndexScanExecutor th bp fs = \<lparr>is_iterator = None, is_current = EmptyTuple, is_buffer = replicate (BytesPerTuple (StorageSchema th)) 0,
     is_lastErr = None, is_pool = bp, is_files = fs\<rparr>"

definition IndexScan_Init :: "(btreeItem, 't, 'it) BTreeG \<Rightarrow> ('h, 't) RuntimeIndex \<Rightarrow> Key \<Rightarrow> ScanDirection \<Rightarrow> ('m, 'fs, 'it) IndexScanState \<Rightarrow>
    (string option \<times> ('m, 'fs, 'it) IndexScanState) option" where
  "IndexScan_Init B index startKey direction e = do {
     r \<leftarrow> Index_Scan B startKey direction index;
     (case r of Inl err \<Rightarrow> Some (Some err, e\<lparr>is_iterator := None\<rparr>) | Inr iter \<Rightarrow> Some (None, e\<lparr>is_iterator := Some iter\<rparr>))
   }"

text \<open>A call through a nil iterator panics.\<close>

definition IndexScan_Next :: "nat \<Rightarrow> (PageID, nat, 'm) MapOf \<Rightarrow> 'fs DBFileManager \<Rightarrow> (btreeItem, 't, 'it) BTreeG \<Rightarrow> TableHeap \<Rightarrow> ('m, 'fs, 'it) IndexScanState \<Rightarrow>
    (bool \<times> ('m, 'fs, 'it) IndexScanState) option" where
  "IndexScan_Next fuel X M B th e = do {
     iter \<leftarrow> is_iterator e;
     let (found, iter) = BTreeIterator_Next B iter;
     let e = e\<lparr>is_iterator := Some iter\<rparr>;
     (if \<not> found then Some (False, e)
      else do {
        let rid = BTreeIterator_Value B iter;
        (r, bp, fs) \<leftarrow> ReadTuple fuel X M rid (is_buffer e) (is_pool e) (is_files e);
        let e = e\<lparr>is_pool := bp, is_files := fs\<rparr>;
        (case r of
           Inl err \<Rightarrow> Some (False, e\<lparr>is_lastErr := Some (heap_error_text err)\<rparr>)
         | Inr buffer \<Rightarrow> Some (True, e\<lparr>is_buffer := buffer, is_current := FromRawTuple buffer (StorageSchema th) rid\<rparr>))
      })
   }"

definition IndexScanExecutor :: "nat \<Rightarrow> (PageID, nat, 'm) MapOf \<Rightarrow> 'fs DBFileManager \<Rightarrow> (btreeItem, 't, 'it) BTreeG \<Rightarrow> TableHeap \<Rightarrow>
    ('h, 't) RuntimeIndex \<Rightarrow> Key \<Rightarrow> ScanDirection \<Rightarrow> ('m, 'fs, 'it) IndexScanState Executor" where
  "IndexScanExecutor fuel X M B th index startKey direction = \<lparr>ex_Init = IndexScan_Init B index startKey direction, ex_Next = IndexScan_Next fuel X M B th,
     ex_Current = (\<lambda>e. Some (is_current e)), ex_Error = is_lastErr, ex_Close = (\<lambda>e. Some (None, e))\<rparr>"

section \<open>Walking along record identifiers\<close>

locale rid_fetcher =
  fixes E :: "'s Executor" and th :: TableHeap and ok :: "'s \<Rightarrow> bool" and rows :: "'s \<Rightarrow> RecordID \<rightharpoonup> bytes" and todo :: "'s \<Rightarrow> RecordID list \<Rightarrow> bool"
  assumes next_end: "ok s \<Longrightarrow> todo s [] \<Longrightarrow> \<exists>s'. ex_Next E s = Some (False, s') \<and> ex_Error E s' = None"
    and next_rid: "ok s \<Longrightarrow> todo s (rid # rids) \<Longrightarrow> rows s rid = Some row \<Longrightarrow> \<exists>b s'. ex_Next E s = Some (b, s') \<and>
      (if b then ok s' \<and> todo s' rids \<and> rows s' = rows s \<and> ex_Current E s' = Some (seq_tuple th (rid, row)) else ex_Error E s' \<noteq> None)"
begin

lemma fetch_produces:
  assumes "ok s" "todo s (map fst xs)" "\<forall>(rid, row) \<in> set xs. rows s rid = Some row"
  shows "\<exists>ts er. produces E s ts er \<and> prefix ts (map (seq_tuple th) xs) \<and> (er = None \<longrightarrow> ts = map (seq_tuple th) xs)"
  using assms
proof (induction xs arbitrary: s)
  case Nil
  then obtain s' where "ex_Next E s = Some (False, s')" "ex_Error E s' = None" using next_end by auto
  then have "produces E s [] None" by (auto intro: produces.exhausted)
  then show ?case by auto
next
  case (Cons x xs)
  obtain rid row where x: "x = (rid, row)" by (cases x)
  obtain b s' where n: "ex_Next E s = Some (b, s')" "if b then ok s' \<and> todo s' (map fst xs) \<and> rows s' = rows s \<and> ex_Current E s' = Some (seq_tuple th (rid, row))
      else ex_Error E s' \<noteq> None"
    using next_rid [of s rid "map fst xs" row] Cons.prems x by auto
  show ?case
  proof (cases b)
    case True
    then have s': "ok s'" "todo s' (map fst xs)" "rows s' = rows s" "ex_Current E s' = Some (seq_tuple th x)" using n(2) x by simp_all
    obtain ts er where t: "produces E s' ts er" "prefix ts (map (seq_tuple th) xs)" "er = None \<longrightarrow> ts = map (seq_tuple th) xs"
      using Cons.IH [OF s'(1,2)] Cons.prems(3) s'(3) by auto
    have "produces E s (seq_tuple th x # ts) er" using n(1) True s'(4) t(1) by (intro produces.yield_tuple [of E s s']) simp_all
    then show ?thesis using t(2,3) by (intro exI [of _ "seq_tuple th x # ts"] exI [of _ er]) simp
  next
    case False
    then obtain er where "ex_Error E s' = Some er" using n(2) by auto
    then have "produces E s [] (Some er)" using n(1) False by (auto intro: produces.exhausted)
    then show ?thesis by (intro exI [of _ "[]"] exI [of _ "Some er"]) simp
  qed
qed

end

text \<open>One read of a row that exists.\<close>

context buffer_pool
begin

lemma ReadTuple_row:
  assumes "heap_state th bp fs" "rows_of th bp fs rid = Some row" "length buffer = d_bytesPerRow (th_desc th)"
  shows "\<exists>r bp' fs'. ReadTuple (Suc m) X M rid buffer bp fs = Some (r, bp', fs') \<and>
    ((\<exists>e. r = Inl e) \<or> r = Inr row \<and> length row = d_bytesPerRow (th_desc th) \<and> heap_state th bp' fs' \<and> rows_of th bp' fs' = rows_of th bp fs)"
  using ReadTuple_spec [OF assms(1) heap_row_ok(2) [OF assms(1,2)] assms(3), of m] heap_row_ok(3) [OF assms(1,2)] assms(2)
  by (auto simp: heap_contract_def map_upd_triv)

end

lemma ReadTuple_table:
  assumes "xsync_map X" "xsync_map Y" "disk_table X Y th (bp, fs)" "table_rows X th (bp, fs) rid = Some row" "length buffer = d_bytesPerRow (th_desc th)"
  shows "\<exists>r bp' fs'. ReadTuple (Suc m) X (disk_ops Y) rid buffer bp fs = Some (r, bp', fs') \<and>
    ((\<exists>e. r = Inl e) \<or> r = Inr row \<and> length row = d_bytesPerRow (th_desc th) \<and> disk_table X Y th (bp', fs') \<and> table_rows X th (bp', fs') = table_rows X th (bp, fs))"
  using buffer_pool.ReadTuple_row [OF buffer_pool_disk [OF assms(1,2)], of th bp fs rid row buffer m] assms(3-5)
  unfolding disk_table_heap_state [OF assms(1,2)] table_rows_def by simp

definition lookup_ok :: "(PageID, nat, 'm) MapOf \<Rightarrow> (ObjectID, DiskDBFile, 'd) MapOf \<Rightarrow> TableHeap \<Rightarrow> ('m, 'd DiskDBFileManager) IndexLookupState \<Rightarrow> bool" where
  "lookup_ok X Y th e \<longleftrightarrow> disk_table X Y th (il_pool e, il_files e) \<and> length (il_buffer e) = d_bytesPerRow (th_desc th) \<and> il_lastErr e = None"

lemma IndexLookup_fetcher:
  assumes "xsync_map X" "xsync_map Y"
  shows "rid_fetcher (IndexLookupExecutor (Suc m) X (disk_ops Y) XI B th index key) th (lookup_ok X Y th) (\<lambda>e. table_rows X th (il_pool e, il_files e))
    (\<lambda>e rids. drop (il_ridIdx e) (il_rids e) = rids)"
proof (unfold_locales, goal_cases)
  case (1 s)
  then show ?case by (simp add: IndexLookupExecutor_def IndexLookup_Next_def lookup_ok_def)
next
  case (2 s rid rids row)
  have i: "il_ridIdx s < length (il_rids s)" "il_rids s ! il_ridIdx s = rid" "drop (Suc (il_ridIdx s)) (il_rids s) = rids"
    using 2(2) by (metis drop_all list.distinct(1) not_le, metis drop_all list.distinct(1) not_le hd_drop_conv_nth list.sel(1), metis drop_Suc list.sel(3) tl_drop)
  have ok: "disk_table X Y th (il_pool s, il_files s)" "length (il_buffer s) = d_bytesPerRow (th_desc th)" "il_lastErr s = None" using 2(1) by (simp_all add: lookup_ok_def)
  obtain r bp' fs' where r: "ReadTuple (Suc m) X (disk_ops Y) rid (il_buffer s) (il_pool s) (il_files s) = Some (r, bp', fs')"
    "(\<exists>e. r = Inl e) \<or> r = Inr row \<and> length row = d_bytesPerRow (th_desc th) \<and> disk_table X Y th (bp', fs') \<and>
       table_rows X th (bp', fs') = table_rows X th (il_pool s, il_files s)"
    using ReadTuple_table [OF assms ok(1) 2(3) ok(2), of m] by blast
  show ?case
  proof (cases r)
    case (Inl err)
    then show ?thesis using i r(1) by (auto simp: IndexLookupExecutor_def IndexLookup_Next_def idx_def Let_def)
  next
    case (Inr buf)
    then show ?thesis using i r ok(3) by (auto simp: IndexLookupExecutor_def IndexLookup_Next_def idx_def Let_def lookup_ok_def seq_tuple_def)
  qed
qed

interpretation lookup: rid_fetcher "IndexLookupExecutor 1 fun_map (disk_ops fun_map) fun_map (list_btree item_less) th index key" th "lookup_ok fun_map fun_map th"
    "\<lambda>e. table_rows fun_map th (il_pool e, il_files e)" "\<lambda>e rids. drop (il_ridIdx e) (il_rids e) = rids"
  for th index key
  using IndexLookup_fetcher [OF xsync_fun_map xsync_fun_map, of 0] by simp

definition scan_ok :: "(PageID, nat, 'm) MapOf \<Rightarrow> (ObjectID, DiskDBFile, 'd) MapOf \<Rightarrow> TableHeap \<Rightarrow> ('m, 'd DiskDBFileManager, 'it) IndexScanState \<Rightarrow> bool" where
  "scan_ok X Y th e \<longleftrightarrow> disk_table X Y th (is_pool e, is_files e) \<and> length (is_buffer e) = d_bytesPerRow (th_desc th) \<and> is_lastErr e = None"

definition scan_todo :: "(btreeItem, 't, 'it) BTreeG \<Rightarrow> ('m, 'fs, 'it) IndexScanState \<Rightarrow> RecordID list \<Rightarrow> bool" where
  "scan_todo B e rids \<longleftrightarrow> (\<exists>it n es. is_iterator e = Some it \<and> drain_scan B n it = Some es \<and> rids = map bi_rid es)"

lemma scan_todo_next:
  fixes e :: "('m, 'fs, 'it) IndexScanState"
  assumes "scan_todo B e rids"
  shows "\<exists>it found it'. is_iterator e = Some it \<and> BTreeIterator_Next B it = (found, it') \<and>
    (case rids of [] \<Rightarrow> \<not> found | rid # rest \<Rightarrow> found \<and> BTreeIterator_Value B it' = rid \<and> (\<forall>e' :: ('m, 'fs, 'it) IndexScanState. is_iterator e' = Some it' \<longrightarrow> scan_todo B e' rest))"
proof -
  obtain it n es where s: "is_iterator e = Some it" "drain_scan B n it = Some es" "rids = map bi_rid es" using assms by (auto simp: scan_todo_def)
  obtain found it' where x: "BTreeIterator_Next B it = (found, it')" by fastforce
  obtain k where k: "n = Suc k" using s(2) by (cases n) simp_all
  show ?thesis
  proof (cases found)
    case True
    then obtain rest where "drain_scan B k it' = Some rest" "es = entry (BTreeIterator_Key B it') (BTreeIterator_Value B it') # rest"
      using s(2) x k by auto
    then show ?thesis using s x True by (auto simp: scan_todo_def entry_def)
  next
    case False
    then show ?thesis using s x k by auto
  qed
qed

lemma IndexScan_fetcher:
  assumes "xsync_map X" "xsync_map Y"
  shows "rid_fetcher (IndexScanExecutor (Suc m) X (disk_ops Y) B th index key d) th (scan_ok X Y th) (\<lambda>e. table_rows X th (is_pool e, is_files e)) (scan_todo B)"
proof (unfold_locales, goal_cases)
  case (1 s)
  then show ?case using scan_todo_next [OF 1(2)] by (auto simp: IndexScanExecutor_def IndexScan_Next_def scan_ok_def)
next
  case (2 s rid rids row)
  obtain it it' where i: "is_iterator s = Some it" "BTreeIterator_Next B it = (True, it')" "BTreeIterator_Value B it' = rid"
    "\<forall>e'. is_iterator e' = Some it' \<longrightarrow> scan_todo B (e' :: ('a, 'b DiskDBFileManager, 'c) IndexScanState) rids"
    using scan_todo_next [OF 2(2)] by auto
  have ok: "disk_table X Y th (is_pool s, is_files s)" "length (is_buffer s) = d_bytesPerRow (th_desc th)" "is_lastErr s = None" using 2(1) by (simp_all add: scan_ok_def)
  obtain r bp' fs' where r: "ReadTuple (Suc m) X (disk_ops Y) rid (is_buffer s) (is_pool s) (is_files s) = Some (r, bp', fs')"
    "(\<exists>e. r = Inl e) \<or> r = Inr row \<and> length row = d_bytesPerRow (th_desc th) \<and> disk_table X Y th (bp', fs') \<and>
       table_rows X th (bp', fs') = table_rows X th (is_pool s, is_files s)"
    using ReadTuple_table [OF assms ok(1) 2(3) ok(2), of m] by blast
  show ?case
  proof (cases r)
    case (Inl err)
    then show ?thesis using i r(1) by (auto simp: IndexScanExecutor_def IndexScan_Next_def Let_def)
  next
    case (Inr buf)
    then show ?thesis using i r ok(3) by (auto simp: IndexScanExecutor_def IndexScan_Next_def Let_def scan_ok_def seq_tuple_def)
  qed
qed

interpretation scan: rid_fetcher "IndexScanExecutor 1 fun_map (disk_ops fun_map) (list_btree item_less) th index key d" th "scan_ok fun_map fun_map th"
    "\<lambda>e. table_rows fun_map th (is_pool e, is_files e)" "scan_todo (list_btree item_less)"
  for th index key d
  using IndexScan_fetcher [OF xsync_fun_map xsync_fun_map, of 0] by simp

section \<open>Rows found through an index\<close>

text \<open>The row of a record identifier that an index lists.\<close>

lemma index_rows:
  assumes "idx_set XI items ix = row_entries th (Index_Metadata ix) rows" "rid \<in> set (idx_entries XI items ix k)"
  shows "\<exists>row. rows rid = Some row \<and> k_RawTuple (row_key th (Index_Metadata ix) row) = k"
proof -
  have "(k, rid) \<in> idx_set XI items ix" using assms(2) by (simp add: idx_set_def)
  then show ?thesis unfolding assms(1) by (auto simp: row_entries_def)
qed

text \<open>
  C15: a lookup through an index finds the rows with the key. If the index agrees with the table, the lookup starts, and
  there is a list of exactly the rows whose key columns have the values of the key, each once: the executor ends and yields
  these rows, or a part of them and the error of a failed page access.
\<close>

theorem IndexLookup_rows:
  assumes "xsync_map X" "xsync_map Y" "xsync_map XI" "tidwall_btree B item_less items cursor" "disk_table X Y th (bp, fs)"
    "indexes_match XI items th [oid] (table_rows X th (bp, fs)) [oid \<mapsto> ix]" "key_ok (Index_Metadata ix) key"
  shows "let E = IndexLookupExecutor (Suc m) X (disk_ops Y) XI B th ix key in
    \<exists>e xs ts er. ex_Init E (NewIndexLookupExecutor th bp fs) = Some (None, e) \<and> distinct (map fst xs) \<and>
      set xs = {(rid, row). table_rows X th (bp, fs) rid = Some row \<and> k_RawTuple (row_key th (Index_Metadata ix) row) = k_RawTuple key} \<and>
      produces E e ts er \<and> prefix ts (map (seq_tuple th) xs) \<and> (er = None \<longrightarrow> ts = map (seq_tuple th) xs)"
proof -
  let ?E = "IndexLookupExecutor (Suc m) X (disk_ops Y) XI B th ix key" and ?rows = "table_rows X th (bp, fs)" and ?k = "k_RawTuple key"
  have ix: "idx_ok XI items ix" "idx_set XI items ix = row_entries th (Index_Metadata ix) ?rows" using assms(6) by (simp_all add: indexes_match_def)
  let ?rids = "idx_entries XI items ix ?k"
  let ?e = "(NewIndexLookupExecutor th bp fs)\<lparr>il_rids := ?rids, il_ridIdx := 0\<rparr>" and ?xs = "map (\<lambda>rid. (rid, the (?rows rid))) ?rids"
  note law = point_index_runtime [OF assms(3,4)]
  have init: "ex_Init ?E (NewIndexLookupExecutor th bp fs) = Some (None, ?e)"
    using point_index.scan_law [OF law ix(1) assms(7), of "[]"] by (simp add: IndexLookupExecutor_def IndexLookup_Init_def)
  have fst: "map fst ?xs = ?rids" by (simp add: comp_def)
  have r: "\<exists>row. ?rows rid = Some row \<and> k_RawTuple (row_key th (Index_Metadata ix) row) = ?k" if "rid \<in> set ?rids" for rid
    using index_rows [OF ix(2) that] .
  have set: "set ?xs = {(rid, row). ?rows rid = Some row \<and> k_RawTuple (row_key th (Index_Metadata ix) row) = ?k}"
  proof (intro set_eqI iffI)
    fix x assume "x \<in> set ?xs"
    then show "x \<in> {(rid, row). ?rows rid = Some row \<and> k_RawTuple (row_key th (Index_Metadata ix) row) = ?k}" using r by force
  next
    fix x assume "x \<in> {(rid, row). ?rows rid = Some row \<and> k_RawTuple (row_key th (Index_Metadata ix) row) = ?k}"
    then obtain rid row where x: "x = (rid, row)" "?rows rid = Some row" "k_RawTuple (row_key th (Index_Metadata ix) row) = ?k" by auto
    then have "(?k, rid) \<in> idx_set XI items ix" unfolding ix(2) by (auto simp: row_entries_def)
    then show "x \<in> set ?xs" using x by (force simp: idx_set_def)
  qed
  have "lookup_ok X Y th ?e" using assms(5) by (simp add: lookup_ok_def NewIndexLookupExecutor_def BytesPerTuple_def StorageSchema_def)
  moreover have "drop (il_ridIdx ?e) (il_rids ?e) = map fst ?xs" using fst by simp
  moreover have "\<forall>(rid, row) \<in> set ?xs. table_rows X th (il_pool ?e, il_files ?e) rid = Some row" unfolding set by (auto simp: NewIndexLookupExecutor_def)
  ultimately obtain ts er where "produces ?E ?e ts er" "prefix ts (map (seq_tuple th) ?xs)" "er = None \<longrightarrow> ts = map (seq_tuple th) ?xs"
    using rid_fetcher.fetch_produces [OF IndexLookup_fetcher [OF assms(1,2)]] by blast
  moreover have "distinct (map fst ?xs)" unfolding fst by (rule point_index.ents_distinct [OF law ix(1)])
  ultimately show ?thesis using init set unfolding Let_def by blast
qed

text \<open>The entries a scan visits are a part of the entries in their order, or in the reverse order.\<close>

lemma subseq_subset: "subseq xs ys \<Longrightarrow> set xs \<subseteq> set ys"
  by (induction rule: list_emb.induct) auto

lemma sorted_wrt_distinct: "sorted_wrt P xs \<Longrightarrow> \<forall>x \<in> set xs. \<not> P x x \<Longrightarrow> distinct xs"
  by (induction xs) auto

lemma sorted_wrt_subseq: "subseq xs ys \<Longrightarrow> sorted_wrt P ys \<Longrightarrow> sorted_wrt P xs"
proof (induction rule: list_emb.induct)
  case (list_emb_Cons2 x y xs ys)
  then show ?case using subseq_subset [OF list_emb_Cons2.hyps(2)] by auto
qed auto

lemma subseq_distinct: "subseq xs ys \<Longrightarrow> distinct ys \<Longrightarrow> distinct xs"
proof (induction rule: list_emb.induct)
  case (list_emb_Cons2 x y xs ys)
  then show ?case using subseq_subset [OF list_emb_Cons2.hyps(2)] by auto
qed auto

lemma scan_range_subseq:
  assumes "btree_ok items index" "Key_IsNil start \<or> key_ok (bx_metadata index) start" "xs = items (bx_tree index)"
  shows "subseq (case d of ScanDirectionForward \<Rightarrow> scan_range (bx_metadata index) start d xs
    | ScanDirectionBackward \<Rightarrow> rev (scan_range (bx_metadata index) start d xs)) xs"
proof -
  let ?md = "bx_metadata index"
  have ok: "schema_ok ?md" "sorted_wrt item_less xs" "\<forall>e \<in> set xs. item_ok ?md e" using assms(1,3) by (simp_all add: btree_ok_def)
  have "subseq (filter (below ?md start) xs @ take 1 (filter (\<lambda>e. bi_key e = start) xs)) xs" if k: "key_ok ?md start"
  proof -
    let ?p = "entry start nilRecordID"
    have "item_ok ?md ?p" using k by (simp add: item_ok_def entry_def)
    then have "strict_total item_less (insert ?p (set xs))" using ok(1,3) by (intro item_less_total) auto
    then have "xs = filter (\<lambda>y. item_less y ?p) xs @ filter (\<lambda>y. \<not> item_less y ?p) xs" by (rule sorted_filter_split [OF ok(2)])
    moreover have "filter (\<lambda>y. item_less y ?p) xs = filter (below ?md start) xs" "filter (\<lambda>y. \<not> item_less y ?p) xs = filter (\<lambda>y. \<not> below ?md start y) xs"
      using item_less_pivot [OF ok(1) k] ok(3) by (auto intro: filter_cong)
    ultimately have split: "filter (below ?md start) xs @ filter (\<lambda>y. \<not> below ?md start y) xs = xs" by simp
    have nb: "\<not> below ?md start e" if "bi_key e = start" for e using key_order.cmp_refl [of ?md start] ok(1) k that by (simp add: below_def)
    have "filter (\<lambda>e. bi_key e = start) (filter (\<lambda>y. \<not> below ?md start y) xs) = filter (\<lambda>e. bi_key e = start) xs"
      using nb by (auto intro: filter_cong)
    then have "subseq (take 1 (filter (\<lambda>e. bi_key e = start) xs)) (filter (\<lambda>y. \<not> below ?md start y) xs)"
      by (metis subseq_order.order_trans subseq_filter_left prefix_imp_subseq take_is_prefix)
    from list_emb_append_mono [OF subseq_order.order_refl this, of "filter (below ?md start) xs"] show ?thesis unfolding split .
  qed
  then show ?thesis using assms(2) by (cases d) (auto simp: scan_range_def key_ok_not_nil)
qed

lemma btree_keys_sorted:
  assumes "btree_ok items index"
  shows "sorted_wrt (\<lambda>a b. key_cmp (bx_metadata index) (bi_key a) (bi_key b) \<le> 0) (items (bx_tree index))" "distinct (items (bx_tree index))"
proof -
  let ?md = "bx_metadata index" and ?xs = "items (bx_tree index)"
  have ok: "schema_ok ?md" "sorted_wrt item_less ?xs" "\<forall>e \<in> set ?xs. item_ok ?md e" using assms by (simp_all add: btree_ok_def)
  have le: "key_cmp ?md (bi_key a) (bi_key b) \<le> 0" if "a \<in> set ?xs" "b \<in> set ?xs" "item_less a b" for a b
    using item_less_iff [OF ok(1), of a b] ok(1,3) that key_order.cmp_refl [of ?md "bi_key b"] by (auto simp: item_ok_def)
  show "sorted_wrt (\<lambda>a b. key_cmp ?md (bi_key a) (bi_key b) \<le> 0) ?xs" by (rule sorted_wrt_mono_rel [OF _ ok(2)]) (rule le)
  have "strict_total item_less (set ?xs)" by (rule item_less_total [OF ok(1,3)])
  then have "\<forall>a \<in> set ?xs. \<not> item_less a a" by (simp add: strict_total_def)
  then show "distinct ?xs" by (rule sorted_wrt_distinct [OF ok(2)])
qed

text \<open>Whether a row belongs to a scan from a start key on; a nil key is no bound.\<close>

definition from_key :: "IndexMetadata \<Rightarrow> Key \<Rightarrow> Key \<Rightarrow> bool" where
  "from_key md start k \<longleftrightarrow> Key_IsNil start \<or> 0 \<le> key_cmp md k start"

text \<open>The entries of an index that agrees with the table are its rows under their keys.\<close>

lemma entry_row:
  assumes "disk_table X Y th (bp, fs)" "rows = table_rows X th (bp, fs)" "btree_ok items index" "index_for th (bx_metadata index)"
    "(\<lambda>e. (k_RawTuple (bi_key e), bi_rid e)) ` set (items (bx_tree index)) = row_entries th (bx_metadata index) rows" "e \<in> set (items (bx_tree index))"
  shows "rows (bi_rid e) = Some (the (rows (bi_rid e))) \<and> row_key th (bx_metadata index) (the (rows (bi_rid e))) = bi_key e"
proof -
  let ?md = "bx_metadata index"
  have "(k_RawTuple (bi_key e), bi_rid e) \<in> row_entries th ?md rows" unfolding assms(5) [symmetric] using assms(6) by blast
  then obtain row where row: "rows (bi_rid e) = Some row" "k_RawTuple (bi_key e) = k_RawTuple (row_key th ?md row)" by (auto simp: row_entries_def)
  have "wf_desc (th_desc th)" "length row = d_bytesPerRow (th_desc th)"
    using assms(1,2) row(1) heap_row_length [of th _ "bi_rid e" row] by (auto simp: disk_table_def table_rows_def)
  then have "key_ok ?md (row_key th ?md row)" unfolding row_key_def by (intro key_of_values_ok [OF assms(4)] decoded_vals)
  moreover have "key_ok ?md (bi_key e)" using assms(3,6) by (simp add: btree_ok_def item_ok_def)
  ultimately show ?thesis using key_ok_eqI row by simp
qed

text \<open>The entries a scan visits, as rows: which rows they are, and in which order.\<close>

lemma scan_range_rows:
  assumes r: "\<And>e. e \<in> set is \<Longrightarrow> rows (bi_rid e) = Some (the (rows (bi_rid e))) \<and> row_key th md (the (rows (bi_rid e))) = bi_key e"
    and all: "\<And>rid row. rows rid = Some row \<Longrightarrow> \<exists>e \<in> set is. bi_rid e = rid"
    and sub: "subseq (case d of ScanDirectionForward \<Rightarrow> es | ScanDirectionBackward \<Rightarrow> rev es) is"
    and sorted: "sorted_wrt (\<lambda>a b. key_cmp md (bi_key a) (bi_key b) \<le> 0) is"
    and es: "es = scan_range md start d is" and md: "schema_ok md" "Key_IsNil start \<or> key_ok md start"
    and xs: "xs = map (\<lambda>e. (bi_rid e, the (rows (bi_rid e)))) es"
  shows "case d of
      ScanDirectionForward \<Rightarrow> set xs = {(rid, row). rows rid = Some row \<and> from_key md start (row_key th md row)} \<and>
        sorted_wrt (\<lambda>x y. key_cmp md (row_key th md (snd x)) (row_key th md (snd y)) \<le> 0) xs
    | ScanDirectionBackward \<Rightarrow> {(rid, row). rows rid = Some row \<and> (Key_IsNil start \<or> key_cmp md (row_key th md row) start < 0)} \<subseteq> set xs \<and>
        set xs \<subseteq> {(rid, row). rows rid = Some row \<and> (Key_IsNil start \<or> key_cmp md (row_key th md row) start \<le> 0)} \<and>
        sorted_wrt (\<lambda>x y. key_cmp md (row_key th md (snd y)) (row_key th md (snd x)) \<le> 0) xs"
proof -
  let ?key = "\<lambda>x. row_key th md (snd x)" and ?row = "\<lambda>e. (bi_rid e, the (rows (bi_rid e)))"
  have sel: "set es \<subseteq> set is" using subseq_subset [OF sub] by (cases d) auto
  have mem: "\<exists>e \<in> set is. x = ?row e" if "rows (fst x) = Some (snd x)" for x using all [OF that] that by (cases x) auto
  have order: "sorted_wrt (\<lambda>x y. key_cmp md (?key x) (?key y) \<le> 0) (map ?row zs)" if "subseq zs is" for zs
    unfolding sorted_wrt_map using sorted_wrt_mono_rel [OF _ sorted_wrt_subseq [OF that sorted]] r subseq_subset [OF that] by (smt (verit) snd_conv subsetD)
  show ?thesis
  proof (cases d)
    case ScanDirectionForward
    have e: "e \<in> set es \<longleftrightarrow> e \<in> set is \<and> from_key md start (bi_key e)" for e
      using ScanDirectionForward by (auto simp: es scan_range_def from_key_def below_def)
    have "x \<in> set xs \<longleftrightarrow> rows (fst x) = Some (snd x) \<and> from_key md start (?key x)" for x
    proof
      assume "x \<in> set xs"
      then show "rows (fst x) = Some (snd x) \<and> from_key md start (?key x)" using e r unfolding xs by auto
    next
      assume x: "rows (fst x) = Some (snd x) \<and> from_key md start (?key x)"
      then obtain a where "a \<in> set is" "x = ?row a" using mem by blast
      then show "x \<in> set xs" using x e [of a] r [of a] unfolding xs by auto
    qed
    then show ?thesis using order [of es] sub ScanDirectionForward xs by (auto simp: set_eq_iff split_beta)
  next
    case ScanDirectionBackward
    have e: "e \<in> set is \<Longrightarrow> (Key_IsNil start \<or> key_cmp md (bi_key e) start < 0) \<Longrightarrow> e \<in> set es"
      "e \<in> set es \<Longrightarrow> Key_IsNil start \<or> key_cmp md (bi_key e) start \<le> 0" for e
      using ScanDirectionBackward key_order.cmp_refl [of md start] md by (auto simp: es scan_range_def below_def split: if_splits dest!: in_set_takeD)
    have "{(rid, row). rows rid = Some row \<and> (Key_IsNil start \<or> key_cmp md (row_key th md row) start < 0)} \<subseteq> set xs"
    proof
      fix x assume x: "x \<in> {(rid, row). rows rid = Some row \<and> (Key_IsNil start \<or> key_cmp md (row_key th md row) start < 0)}"
      then obtain a where "a \<in> set is" "x = ?row a" using mem [of x] by auto
      then show "x \<in> set xs" using x e(1) [of a] r [of a] unfolding xs by auto
    qed
    moreover have "set xs \<subseteq> {(rid, row). rows rid = Some row \<and> (Key_IsNil start \<or> key_cmp md (row_key th md row) start \<le> 0)}"
    proof
      fix x assume "x \<in> set xs"
      then obtain a where a: "a \<in> set es" "x = ?row a" unfolding xs by auto
      then have "a \<in> set is" using sel by blast
      then show "x \<in> {(rid, row). rows rid = Some row \<and> (Key_IsNil start \<or> key_cmp md (row_key th md row) start \<le> 0)}" using e(2) [OF a(1)] r [of a] a(2) by simp
    qed
    moreover have "sorted_wrt (\<lambda>x y. key_cmp md (?key y) (?key x) \<le> 0) xs"
      using order [of "rev es"] sub ScanDirectionBackward by (simp add: xs rev_map [symmetric] sorted_wrt_rev)
    ultimately show ?thesis using ScanDirectionBackward by simp
  qed
qed

text \<open>
  C17: a scan through an index finds a range of rows in order. If the tree index agrees with the table, the scan starts, and
  there is a list of rows, each once and ordered by key in the direction of the scan: forward it has exactly the rows
  whose key is at least the start key (all rows without a start key); backward it has every row below the start key and
  no row above it. The executor ends and yields these rows in this order, or a part of them and the error of a failed
  page access.
\<close>

theorem IndexScan_rows:
  assumes "xsync_map X" "xsync_map Y" "tidwall_btree B item_less items cursor" "disk_table X Y th (bp, fs)"
    "indexes_match XI items th [oid] rows [oid \<mapsto> BTreeIndex index]" "rows = table_rows X th (bp, fs)" "md = bx_metadata index" "Key_IsNil start \<or> key_ok md start"
  shows "let E = IndexScanExecutor (Suc m) X (disk_ops Y) B th (BTreeIndex index :: ('h, 't) RuntimeIndex) start d; key = (\<lambda>x. row_key th md (snd x)) in
    \<exists>e xs ts er. ex_Init E (NewIndexScanExecutor th bp fs) = Some (None, e) \<and> distinct (map fst xs) \<and>
      (case d of
         ScanDirectionForward \<Rightarrow> set xs = {(rid, row). rows rid = Some row \<and> from_key md start (row_key th md row)} \<and> sorted_wrt (\<lambda>x y. key_cmp md (key x) (key y) \<le> 0) xs
       | ScanDirectionBackward \<Rightarrow> {(rid, row). rows rid = Some row \<and> (Key_IsNil start \<or> key_cmp md (row_key th md row) start < 0)} \<subseteq> set xs \<and>
           set xs \<subseteq> {(rid, row). rows rid = Some row \<and> (Key_IsNil start \<or> key_cmp md (row_key th md row) start \<le> 0)} \<and>
           sorted_wrt (\<lambda>x y. key_cmp md (key y) (key x) \<le> 0) xs) \<and>
      produces E e ts er \<and> prefix ts (map (seq_tuple th) xs) \<and> (er = None \<longrightarrow> ts = map (seq_tuple th) xs)"
proof -
  let ?E = "IndexScanExecutor (Suc m) X (disk_ops Y) B th (BTreeIndex index :: ('h, 't) RuntimeIndex) start d" and ?is = "items (bx_tree index)"
  have ok: "btree_ok items index" "index_for th md" "idx_set XI items (BTreeIndex index) = row_entries th md rows" using assms(5,7) by (simp_all add: indexes_match_def)
  have start: "Key_IsNil start \<or> key_ok (bx_metadata index) start" using assms(7,8) by simp
  let ?es = "scan_range md start d ?is" and ?row = "\<lambda>e. (bi_rid e, the (rows (bi_rid e)))"
  let ?xs = "map ?row ?es"
  obtain it where it: "BTree_Scan B start d index = Some it" "drain_scan B (Suc (length ?is)) it = Some ?es"
    using BTree_Scan_nil [OF assms(3), of start index "Suc (length ?is)" d] BTree_Scan_spec [OF assms(3) ok(1), of start "Suc (length ?is)" d] start assms(7) by auto
  let ?e = "(NewIndexScanExecutor th bp fs)\<lparr>is_iterator := Some it\<rparr>"
  have init: "ex_Init ?E (NewIndexScanExecutor th bp fs) = Some (None, ?e)" using it(1) by (simp add: IndexScanExecutor_def IndexScan_Init_def)
  have im: "(\<lambda>e. (k_RawTuple (bi_key e), bi_rid e)) ` set ?is = row_entries th md rows" using ok(3) by (simp add: idx_set_btree)
  note r = entry_row [OF assms(4,6) ok(1) ok(2) [unfolded assms(7)] im [unfolded assms(7)], folded assms(7)]
  have sub: "subseq (case d of ScanDirectionForward \<Rightarrow> ?es | ScanDirectionBackward \<Rightarrow> rev ?es) ?is"
    unfolding assms(7) by (rule scan_range_subseq [OF ok(1) start refl])
  have sel: "set ?es \<subseteq> set ?is" using subseq_subset [OF sub] by (cases d) auto
  have "distinct ?es" using subseq_distinct [OF sub] btree_keys_sorted(2) [OF ok(1)] by (cases d) auto
  moreover have "inj_on bi_rid (set ?es)"
  proof (rule inj_onI)
    fix a b assume ab: "a \<in> set ?es" "b \<in> set ?es" "bi_rid a = bi_rid b"
    then have "a \<in> set ?is" "b \<in> set ?is" using sel by blast+
    from r [OF this(1)] r [OF this(2)] have "bi_key a = bi_key b" unfolding ab(3) by simp
    then show "a = b" using ab(3) by (cases a; cases b) simp
  qed
  ultimately have dist: "distinct (map fst ?xs)" by (simp add: distinct_map comp_def)
  have all: "\<exists>e \<in> set ?is. bi_rid e = rid" if "rows rid = Some row" for rid row
  proof -
    have "(k_RawTuple (row_key th md row), rid) \<in> row_entries th md rows" using that by (auto simp: row_entries_def)
    then show ?thesis unfolding im [symmetric] by auto
  qed
  have "schema_ok md" using ok(2) by (simp add: index_for_def)
  note range = scan_range_rows [OF r all sub btree_keys_sorted(1) [OF ok(1), folded assms(7)] refl this assms(8) refl]
  have "scan_ok X Y th ?e" using assms(4) by (simp add: scan_ok_def NewIndexScanExecutor_def BytesPerTuple_def StorageSchema_def)
  moreover have "scan_todo B ?e (map fst ?xs)" unfolding scan_todo_def
    by (rule exI [of _ it], rule exI [of _ "Suc (length ?is)"], rule exI [of _ ?es]) (simp add: it(2) comp_def del: drain_scan.simps)
  moreover have "\<forall>(rid, row) \<in> set ?xs. table_rows X th (is_pool ?e, is_files ?e) rid = Some row" using r sel assms(6) by (auto simp: NewIndexScanExecutor_def)
  ultimately obtain ts er where "produces ?E ?e ts er" "prefix ts (map (seq_tuple th) ?xs)" "er = None \<longrightarrow> ts = map (seq_tuple th) ?xs"
    using rid_fetcher.fetch_produces [OF IndexScan_fetcher [OF assms(1,2)]] by blast
  then show ?thesis using init dist range unfolding Let_def by (intro exI [of _ ?e] exI [of _ ?xs] exI [of _ ts] exI [of _ er] conjI)
qed

text \<open>The row of a table with one row, found by its key and by a scan of the whole index.\<close>

lemma row_lookup_facts:
  "disk_table fun_map fun_map sample_heap (NewBufferPool fun_map 2, row_disk)" "table_rows fun_map sample_heap (NewBufferPool fun_map 2, row_disk) = [row_rid \<mapsto> replicate 8 1]"
  "indexes_match fun_map id sample_heap [7] [row_rid \<mapsto> replicate 8 1] [7 \<mapsto> row_index]"
  using row_table row_index_match by (simp_all add: row_world_def)

theorem IndexLookup_rows_witness:
  "let E = IndexLookupExecutor 1 fun_map (disk_ops fun_map) fun_map (list_btree item_less) sample_heap row_index \<lparr>k_RawTuple = replicate 8 1, k_schema = Some int_ref\<rparr> in
   \<exists>e ts er. ex_Init E (NewIndexLookupExecutor sample_heap (NewBufferPool fun_map 2) row_disk) = Some (None, e) \<and> produces E e ts er \<and> (er = None \<longrightarrow> ts = [stored_tuple])"
proof -
  let ?k = "\<lparr>k_RawTuple = replicate 8 1, k_schema = Some int_ref\<rparr>" and ?rows = "table_rows fun_map sample_heap (NewBufferPool fun_map 2, row_disk)"
  have k: "key_ok (bx_metadata row_btree) ?k" "k_RawTuple (row_key sample_heap (bx_metadata row_btree) (replicate 8 1)) = replicate 8 1" by code_simp+
  then have k': "key_ok (Index_Metadata row_index) ?k" by (simp add: row_index_def)
  have one: "xs = [(row_rid, replicate 8 1)]"
    if "distinct (map fst xs)" "set xs = {(rid, row). ?rows rid = Some row \<and> k_RawTuple (row_key sample_heap (Index_Metadata row_index) row) = k_RawTuple ?k}" for xs
  proof -
    have "set xs = {(row_rid, replicate 8 1)}" unfolding that(2) row_lookup_facts(2) using k(2) by (auto simp: row_index_def split: if_splits)
    then show ?thesis using that(1) by (cases xs; cases "tl xs") auto
  qed
  show ?thesis
    using IndexLookup_rows [OF xsync_fun_map xsync_fun_map xsync_fun_map tidwall_list_btree row_lookup_facts(1), of 7 row_index ?k 0] k' row_lookup_facts(3) one
    unfolding row_lookup_facts(2) Let_def by (fastforce simp: stored_tuple_def)
qed

theorem IndexScan_rows_witness:
  "let E = IndexScanExecutor 1 fun_map (disk_ops fun_map) (list_btree item_less) sample_heap row_index NilKey ScanDirectionForward in
   \<exists>e ts er. ex_Init E (NewIndexScanExecutor sample_heap (NewBufferPool fun_map 2) row_disk) = Some (None, e) \<and> produces E e ts er \<and> (er = None \<longrightarrow> ts = [stored_tuple])"
proof -
  let ?md = "bx_metadata row_btree"
  have one: "xs = [(row_rid, replicate 8 1)]"
    if "distinct (map fst xs)" "set xs = {(rid, row). [row_rid \<mapsto> replicate 8 1] rid = Some row \<and> from_key ?md NilKey (row_key sample_heap ?md row)}" for xs
  proof -
    have "set xs = {(row_rid, replicate 8 1)}" unfolding that(2) by (auto simp: from_key_def Key_IsNil_def NilKey_def split: if_splits)
    then show ?thesis using that(1) by (cases xs; cases "tl xs") auto
  qed
  have nil: "Key_IsNil NilKey \<or> key_ok ?md NilKey" by (simp add: Key_IsNil_def NilKey_def)
  have "indexes_match fun_map id sample_heap [7] [row_rid \<mapsto> replicate 8 1] [7 \<mapsto> BTreeIndex row_btree]" using row_lookup_facts(3) by (simp add: row_index_def)
  from IndexScan_rows [OF xsync_fun_map xsync_fun_map tidwall_list_btree row_lookup_facts(1) this row_lookup_facts(2) [symmetric] refl nil, of 0 ScanDirectionForward]
  show ?thesis using one unfolding Let_def row_index_def by (fastforce simp: stored_tuple_def)
qed

end
