(* ===== verification/Spec2Isabelle.thy ===== *)
theory Spec2Isabelle
  imports Execution_Select Execution_Index
begin

text \<open>
  A verification library for GoDB (\<open>mit.edu/dsg/godb\<close>), a small relational database in Go: rows in slotted pages of
  heap files, a buffer pool over operating-system files, two-phase locking with deadlock detection, in-memory
  indexes, a rule-based planner and pull-based executors.

  \<^bold>\<open>The program and its theories.\<close> The theories follow the packages. Each component has its data (records for
  structs, datatypes for enumerations), one definition per operation under the source's name, and then its lemmas.

  \<^item> \<open>GoDB_Prelude\<close>: Go integers as words, slices and copies on byte lists (\<open>slice\<close>, \<open>blit\<close>, \<open>seg\<close>), the little-endian
    codec, comparators that return -1, 0 or 1 (locales \<open>comparator\<close> and \<open>comparator_family\<close>) and their lexicographic order.
  \<^item> \<open>Common_Types\<close> (\<open>common/\<close>): column types, identifiers, values with NULL, their codec, order and neighbours.
  \<^item> \<open>Storage_Bitmap\<close>, \<open>Storage_Tuple\<close>, \<open>Storage_HeapPage\<close>, \<open>Storage_LogRecord\<close> (\<open>storage/bitmap.go\<close>, \<open>tuple.go\<close>,
    \<open>page.go\<close>, \<open>heap_page.go\<close>, \<open>log_record.go\<close>, \<open>wal.go\<close>): bit arrays over bytes (locale \<open>bit_array\<close>, for bitmaps and
    for the areas of a page), row layout, tuples with physical and virtual columns, page headers and slots, log records.
  \<^item> \<open>Storage_Disk\<close>, \<open>Storage_BufferPool\<close> (\<open>storage/db_file.go\<close>, \<open>disk_storage.go\<close>, \<open>buffer_pool.go\<close>): files of pages over
    an operating system with a schedule of faults; the locale \<open>page_store\<close> is what the pool relies on, the locale
    \<open>buffer_pool\<close> extends it and holds the lemmas on the pool; both are interpreted on the disk manager.
  \<^item> \<open>Logging_Memory\<close> (\<open>logging/test_log_manager.go\<close>): the in-memory log, its iterator and the checker of the order of
    log records (locale \<open>record_log\<close>, also for the undo buffer of a transaction).
  \<^item> \<open>Transaction_Lock\<close>, \<open>Transaction_Context\<close> (\<open>transaction/\<close>): the lock manager as operations and as a step relation of
    many transactions, held locks, undo records and index tasks.
  \<^item> \<open>Indexing_Hash\<close> (\<open>indexing/index.go\<close>, \<open>key.go\<close>, \<open>mem_hash_index.go\<close>): keys, and the hash index as operations and as a
    step relation of many threads.
  \<^item> \<open>Indexing_BTree\<close>, \<open>Indexing_Manager\<close> (\<open>indexing/mem_btree_index.go\<close>, \<open>index_manager.go\<close>): the ordered index with its scan
    iterator, the interface of all indexes (locale \<open>point_index\<close>, interpreted on the two implementations) and the table of
    the indexes of the catalog.
  \<^item> \<open>Catalog\<close> (\<open>catalog/catalog.go\<close>): tables, columns and indexes with their lookup maps and their JSON document.
  \<^item> \<open>Planner_Expr\<close>, \<open>Planner_Rules\<close> (\<open>planner/expr.go\<close>, \<open>logical_plan_types.go\<close>, \<open>physical_plan_builder.go\<close>,
    \<open>predicate_pushdown.go\<close>, \<open>optimizer.go\<close>, \<open>scan_rules.go\<close>): expressions with three-valued logic (locale \<open>evaluation\<close>),
    binding of columns, predicate push-down, normal forms and the matching of predicates to indexes.
  \<^item> \<open>Planner_Physical\<close>, \<open>Planner_Correct\<close> (\<open>planner/physical_plan_rule.go\<close>, \<open>join_rules.go\<close>, \<open>physical_plan_builder.go\<close>, the logical and
    physical nodes): plan nodes, the conversion rules, the choice among them, and what plans return; the contract of a rule (locale
    \<open>conversion_rule\<close>, interpreted on each of the eleven installed rules) and of a list of rules (locale \<open>rule_set\<close>).
  \<^item> \<open>Planner_Builder\<close>, \<open>Planner_Statement\<close> (\<open>planner/logical_plan_builder.go\<close>, \<open>sql_planner.go\<close>): from the syntax trees of the parser to logical
    plans, name resolution, the clauses of SELECT, and INSERT, DELETE and UPDATE; the second theory holds the invariant of the plans that are built (\<open>resolved\<close>) and what
    the builder leaves unchecked (\<open>supported\<close>).
  \<^item> \<open>Execution_Operators\<close>, \<open>Execution_Aggregate\<close>, \<open>Execution_Join\<close> (\<open>execution/\<close>): an executor is a record of its methods
    over a state; filter, projection, limit, values, sort, aggregation, the hash table of rows and the block nested loop
    join (locales \<open>stream_operator\<close>, \<open>buffered_executor\<close>, \<open>orderly\<close>, \<open>rewindable\<close>, \<open>join_inputs\<close>).
  \<^item> \<open>Execution_TableHeap\<close>, \<open>Execution_Scan\<close> (\<open>execution/table_heap.go\<close>, \<open>table_manager.go\<close>, \<open>seq_scan_executor.go\<close>): heap
    files through the buffer pool, their iterator and the sequential scan.
  \<^item> \<open>Execution_Modify\<close> (\<open>execution/insert_executor.go\<close>, \<open>delete_executor.go\<close>, \<open>update_executor.go\<close>): the statements that
    change a heap file and all indexes of the table.
  \<^item> \<open>Execution_Index\<close>, \<open>Recovery_Rebuild\<close> (\<open>execution/index_lookup_executor.go\<close>, \<open>index_scan_executor.go\<close>,
    \<open>recovery/no_log_recovery.go\<close>): rows read through an index (locale \<open>rid_fetcher\<close>, for both executors) and the rebuild of
    the indexes from the heap files.
  \<^item> \<open>Execution_Tree\<close> (\<open>execution/executor_tree_builder.go\<close>): from a physical plan to executors with their heap files and indexes
    (locale \<open>managers\<close>, what the builder relies on, interpreted on the managers of the catalog).
  \<^item> \<open>Execution_Query\<close>: executors as objects behind the interface, and the run of an executor tree over one table.
  \<^item> \<open>Execution_Statement\<close>, \<open>Execution_Select\<close>: the plans of SELECT statements over one table are among those whose executors are covered; the
    meaning of such a statement on the rows of its table (\<open>select_answer\<close>) and the proof that its plan returns it.
  \<^item> this theory: a SELECT statement from its SQL text down to the disk.

  \<^bold>\<open>How state and effects are modelled.\<close> A panic is \<open>None\<close>, an error is \<open>Inl\<close> of a sum, or \<open>Some\<close> of an error string where Go returns
  only an error. A slice that is a window of a buffer is an offset, or the bytes are written back. Operations on shared
  structures are functions of the state; where the code is concurrent by design (the page LSN, the lock manager, the hash
  index) a step relation interleaves its atomic steps. Frames of the pool, the heap file and the iterator run one
  operation at a time: the page latches and the table mutex order operations, and are not modelled.

  \<^bold>\<open>What the lemmas show.\<close> Storage: codecs and layouts round-trip; page operations change one slot; what a client writes to a pinned page and
  reports is what the next reader gets; flushing keeps every logical page under any faults and, when it succeeds, has written all but those that a
  client has pinned and not yet reported; a heap file is a map from record identifiers to
  rows. Locks: holders are compatible in every interleaving, waiting transactions never form a cycle, and the search for
  cycles is exact. Log and transactions: appended records are read back, held locks agree with the lock manager. Indexes: the
  hash index is linearizable, both kinds of index refine a set of entries and their changes are atomic in a transaction that does
  not insert again what it has deleted, a scan yields the entries of a range. Catalog: names, identifiers and both lookup maps stay consistent, and a stored catalog is
  loaded again. Statements: after an insert of rows that are computed without the table, a delete or an update every index holds exactly one entry for each row; recovery establishes
  this at the start, and lookups and scans through such an index yield exactly the rows they ask for. Planner: evaluation is type-sound; predicate push-down keeps the rows of every
  plan whose predicates report their columns and whose joins have disjoint sides; an index matched by equalities has the key of every row of the
  matched term; and the installed rules turn every typed logical plan whose columns resolve, without outer joins, offsets and derived tables, into a physical plan with its rows. The builder
  binds a name to the only column it can mean, every plan it makes is resolved, and the values of an INSERT go to their columns.
  Execution: each operator yields the rows of its reference definition; the tree builder finds the executors of every plan except those
  with an unimplemented node; and a typed SELECT over one table without aggregation, HAVING, offset, and ORDER BY together with LIMIT, from its SQL text to its executors, yields the answer of the statement. Theorems of kind \<^emph>\<open>error\<close> state behaviour that contradicts the intent of the code.

  \<^bold>\<open>Loops and fuel.\<close> Loops over lists recurse on them. \<open>GetPage\<close> spins while every frame is pinned; its fuel counts the
  attempts, and one attempt is enough exactly when the page is cached or a frame is unpinned (\<open>GetPage_contract\<close>); heap
  operations start with every frame unpinned, so one attempt is enough for them. The depth-first search of the lock manager
  and the log scan have fuel bounded by the number of transactions and of records; the rewriting driver ends when its fuel
  exceeds the weight of the plan. The loops of executors, of the iterator and of the hash index are partial functions
  whose value \<open>None\<close> is a panic or a loop that does not end; the theorems state that they return.

  \<^bold>\<open>Parameters.\<close> \<open>xsync.MapOf\<close> is a record of operations with the hypothesis \<open>xsync_map\<close>, its documented behaviour as a map,
  instantiated by \<open>fun_map\<close> in the witnesses. \<open>btree.BTreeG\<close> is a record of operations with the hypothesis \<open>tidwall_btree\<close>, a
  sorted list of items with cursors, instantiated by \<open>list_btree\<close>. The SQL parser is a function from text to syntax trees and a record \<open>sqlparser\<close> of the functions
  that the builder calls on them, about which nothing is assumed. The operating system is a map of files with a list of faults. The order of
  iteration over Go maps is an argument.

  \<^bold>\<open>Not modelled.\<close> The command line and the loading of CSV and JSON files in \<open>main.go\<close>; printing, except of the
  expressions that name the columns of an aggregation; projection push-down, which \<open>main.go\<close> disables; parts that
  the source leaves unimplemented (the double-buffered log and its iterator, checkpoints, recovery from the log, the background flusher,
  the transaction manager beyond its task loops, hash join, sort-merge join, index nested loop join, top-n and
  materialisation, of which only the panic of the constructors is modelled); the \<open>Match\<close> and \<open>Apply\<close> methods of the two index rules of \<open>scan_rules.go\<close>,
  which \<open>main.go\<close> does not install (the matching of predicates that they use is modelled). The end-to-end theorem covers one scan under filters,
  projections, sorts and limits: in the model a scan owns the pool and the files, so two scans would not share them; joins and
  aggregations are covered by the theorems on their executors.
\<close>

section \<open>From a logical plan to the rows on disk\<close>

text \<open>Every logical plan of filters, projections, sorts and limits over a scan is answered by its executors.\<close>

lemma select_plan_answers:
  assumes "xsync_map X" "xsync_map Y" "catalog_ok cat" "NewTableManager cat = Some tm" "\<forall>th \<in> ran tm. disk_table X Y th (bp, fs)"
  shows "\<exists>xs. scan_order X tm (bp, fs) xs \<and> (\<forall>db p fuel. holds_tables tm xs db \<and> wf_query db p \<and> plannable db cat p \<and> select_plan p \<and> weight p < fuel \<longrightarrow>
    (\<exists>q P tree E. OptimizeWithRule fuel p = Some q \<and> Build physicalRules cat q = Some (Inr P) \<and> BuildExecutorTree P cat tm im = Some (Inr tree) \<and>
       executor_of (Suc m) X (disk_ops Y) bp fs tree = Some E \<and> answers displays E (logical_rows db p)))"
proof -
  obtain xs where xs: "scan_order X tm (bp, fs) xs" "\<And>db oid th. holds_tables tm xs db \<Longrightarrow> tm oid = Some th \<Longrightarrow>
    answers (stands_for (d_fields (th_desc th))) (boxed (SeqScanExecutor (Suc m) X (disk_ops Y) th) (NewSeqScanExecutor th bp fs)) (db_table db oid)"
    using scans_answer [OF assms(1,2,5), of m] by blast
  have "\<exists>q P tree E. OptimizeWithRule fuel p = Some q \<and> Build physicalRules cat q = Some (Inr P) \<and> BuildExecutorTree P cat tm im = Some (Inr tree) \<and>
      executor_of (Suc m) X (disk_ops Y) bp fs tree = Some E \<and> answers displays E (logical_rows db p)"
    if p: "holds_tables tm xs db" "wf_query db p" "plannable db cat p" "select_plan p" "weight p < fuel" for db p fuel
  proof -
    obtain q where q: "OptimizeWithRule fuel p = Some q" "same_query db p q" "plannable db cat q"
      using OptimizeWithRule_plannable [OF p(2,3,5)] by blast
    obtain P where P: "Build physicalRules cat q = Some (Inr P)" "implements db q P" using installed.Build_implements [OF q(3)] by blast
    have "select_plan q" using Optimize_select [OF q(1) p(4)] by blast
    then have "query_ok tm P" using Build_covered [OF P(1) q(3) _ heaps_typed_catalog [OF assms(3,4)]] by (simp add: covered_def)
    then obtain tree E where t: "BuildExecutorTree P cat tm im = Some (Inr tree)" "executor_of (Suc m) X (disk_ops Y) bp fs tree = Some E"
      "answers displays E (physical_rows db P)"
      using query_tree_answers [OF xs(2) [OF p(1)], where P = P and cat = cat and im = im] answers_visible by blast
    moreover have "physical_rows db P = logical_rows db p" using P(2) q(2) by (simp add: implements_def same_plan_def)
    ultimately show ?thesis using q(1) P(1) by auto
  qed
  then show ?thesis using xs(1) by (intro exI [of _ xs]) blast
qed

text \<open>
  C3: a SELECT over a table returns its answer, from the SQL text to the disk. For a consistent catalog and the heap files of its tables
  on disk, take any text that the parser accepts as \<open>SELECT ... FROM t WHERE ... ORDER BY ... LIMIT ...\<close> over one table, with typed expressions: it is
  planned, optimized and turned into executors without an error or a panic. The query then reports an error when it starts, or
  runs to its end and yields exactly the answer of the statement on the rows of the heap file: the rows for which WHERE is true, each row
  of the table counted once, sorted by ORDER BY or in the order of the scan, cut off by LIMIT, with the values of the
  select list; if it ends with an error it has yielded the first of them. The answer is defined on the statement itself and not on its plan.

  Excluded are GROUP BY, aggregates and HAVING, a limit with an offset, ORDER BY together with LIMIT (there is no executor for it), calls of functions
  and hexadecimal literals, and tables with two columns whose names differ only in case.
\<close>

theorem sql_select_end_to_end:
  assumes "xsync_map X" "xsync_map Y" "catalog_ok cat" "NewTableManager cat = Some tm" "\<forall>th \<in> ran tm. disk_table X Y th (bp, fs)"
  shows "\<exists>xs. scan_order X tm (bp, fs) xs \<and> (\<forall>parse L sql name al sel t fuel. parse sql = Inr (one_table name al sel) \<and>
    table_named cat (TableIdent_CompliantName L name) = Some (Inr t) \<and> names_differ t \<and> typed_select L (table_alias L name al) t sel \<and> 7 < fuel \<longrightarrow>
    (\<exists>th P tree E ans. SQLPlanner_Plan parse L cat fuel sql = Some (Inr P) \<and> BuildExecutorTree P cat tm im = Some (Inr tree) \<and>
       executor_of (Suc m) X (disk_ops Y) bp fs tree = Some E \<and> tm (tb_Oid t) = Some th \<and>
       select_answer L t sel (map (\<lambda>e. tuple_values (seq_tuple th e)) (xs (tb_Oid t))) = Some ans \<and> answers displays E ans))"
proof -
  obtain xs where xs: "scan_order X tm (bp, fs) xs" "\<And>db p fuel. holds_tables tm xs db \<Longrightarrow> wf_query db p \<Longrightarrow> plannable db cat p \<Longrightarrow> select_plan p \<Longrightarrow> weight p < fuel \<Longrightarrow>
    \<exists>q P tree E. OptimizeWithRule fuel p = Some q \<and> Build physicalRules cat q = Some (Inr P) \<and> BuildExecutorTree P cat tm im = Some (Inr tree) \<and>
       executor_of (Suc m) X (disk_ops Y) bp fs tree = Some E \<and> answers displays E (logical_rows db p)"
    using select_plan_answers [OF assms, of im m] by meson
  note typed = heaps_typed_catalog [OF assms(3,4)]
  obtain db where db: "holds_tables tm xs db" using holds_tables_ex by blast
  have "\<exists>th P tree E ans. SQLPlanner_Plan parse L cat fuel sql = Some (Inr P) \<and> BuildExecutorTree P cat tm im = Some (Inr tree) \<and>
       executor_of (Suc m) X (disk_ops Y) bp fs tree = Some E \<and> tm (tb_Oid t) = Some th \<and>
       select_answer L t sel (map (\<lambda>e. tuple_values (seq_tuple th e)) (xs (tb_Oid t))) = Some ans \<and> answers displays E ans"
    if sql: "parse sql = Inr (one_table name al sel)" and t: "table_named cat (TableIdent_CompliantName L name) = Some (Inr t)" "names_differ t"
      and sel: "typed_select L (table_alias L name al) t sel" "7 < fuel" for parse L sql name al sel t fuel
  proof -
    let ?b = "NewLogicalPlanBuilder cat"
    have room: "room ?b 2" "lb_catalog ?b = cat" using assms(3) by (simp_all add: room_def NewLogicalPlanBuilder_def)
    have oid: "GetTableByOid (tb_Oid t) cat = Inr t" using table_named_oid [OF assms(3) t(1)] .
    obtain th where th: "tm (tb_Oid t) = Some th" using typed oid unfolding heaps_typed_def by blast
    have "DefaultType \<notin> set (map col_Type (tb_Columns t))"
      using table_desc [OF typed assms(5) oid] NewRawTupleDesc_None [of "tableSchemaToTypes t"] by (auto simp: tableSchemaToTypes_def)
    then have tt: "typed_table t" using t(2) by (simp add: typed_table_def)
    have "\<forall>r \<in> set (db_table db (tb_Oid t)). typed_row t r"
      using stored_rows_typed [OF typed assms(5) xs(1) db oid] by (simp add: typed_row_def tableSchemaToTypes_def)
    moreover have "table_named (lb_catalog ?b) (TableIdent_CompliantName L name) = Some (Inr t)" using t(1) room(2) by simp
    ultimately obtain p b' where p: "Plan L (one_table name al sel) ?b = Some (Inr (p, b'))"
      "supported p" "evaluates db p" "weight p \<le> 7" "select_answer L t sel (db_table db (tb_Oid t)) = Some (logical_rows db p)"
      using typed_select_plan [OF _ tt sel(1)] by blast
    have "plain L sel" using sel(1) by (simp add: typed_select_def)
    then have pl: "select_plan p" "\<not> aggregates p" using one_table_select [OF p(1) _ p(2) room(1)] table_desc [OF typed assms(5)] room(2) by simp_all
    have w: "weight p < fuel" using p(4) sel(2) by simp
    have "wf_query db p" "plannable db cat p"
      using sql_planner_sound_spec [OF assms(3) p(1) one_table_refs p(2) stored_rows_fit [OF typed assms(5) xs(1) db] _ p(3) w] pl(2) by blast+
    from xs(2) [OF db this pl(1) w] obtain q P tree E where "OptimizeWithRule fuel p = Some q" "Build physicalRules cat q = Some (Inr P)"
      "BuildExecutorTree P cat tm im = Some (Inr tree)" "executor_of (Suc m) X (disk_ops Y) bp fs tree = Some E" "answers displays E (logical_rows db p)" by blast
    moreover have "db_table db (tb_Oid t) = map (\<lambda>e. tuple_values (seq_tuple th e)) (xs (tb_Oid t))" using db th by (simp add: holds_tables_def)
    ultimately show ?thesis using sql p(1,5) th by (auto simp: SQLPlanner_Plan_def)
  qed
  then show ?thesis using xs(1) by (intro exI [of _ xs]) blast
qed

text \<open>\<open>SELECT id FROM users WHERE id > 3 LIMIT 5\<close> on the table with one row.\<close>

definition users_clauses :: SelectClauses where
  "users_clauses = (plain_select [AliasedExpr (name_of [] ''id'') []] (Some (SqlComparison GreaterThanStr (name_of [] ''id'') (SQLVal IntVal [51]))) None)
     \<lparr>sel_Limit := Some \<lparr>sl_Offset = None, sl_Rowcount = Some (SQLVal IntVal [53])\<rparr>\<rparr>"

lemma users_table:
  "table_named sample_catalog ''users'' = Some (Inr (Tables sample_catalog ! 0))" "names_differ (Tables sample_catalog ! 0)"
  "tb_Columns (Tables sample_catalog ! 0) = [\<lparr>col_Name = ''id'', col_Type = IntType\<rparr>]" "tb_Oid (Tables sample_catalog ! 0) = 1"
  using tableMap_ok [OF sample_catalog_ok, of "''users''" 0]
  by (simp_all add: table_named_def GetTableMetadata_def sample_tables idx_def names_differ_def)

lemma users_column_named: "named_column sample_parser (Tables sample_catalog ! 0) ''id'' = Some 0"
  by (simp add: named_column_def users_table(3) sample_parser_def EqualFold_def)

lemma users_typed: "typed_select sample_parser ''users'' (Tables sample_catalog ! 0) users_clauses"
proof -
  have "plain sample_parser users_clauses" by (simp add: plain_def users_clauses_def plain_select_def aggregate_calls_def sample_parser_def name_of_def)
  moreover have "sql_type sample_parser ''users'' (Tables sample_catalog ! 0) (name_of [] ''id'') = Some IntType"
    by (simp add: name_of_def users_column_named users_table(3))
  ultimately show ?thesis by (simp add: typed_select_def users_clauses_def plain_select_def limit_of_def ParseInt_def ParseUint_def)
qed

theorem sql_select_end_to_end_witness:
  "\<exists>xs P tree E ans. scan_order fun_map [1 \<mapsto> sample_heap] row_world xs \<and>
     SQLPlanner_Plan (\<lambda>_. Inr (one_table ''users'' [] users_clauses)) sample_parser sample_catalog 20 ''SELECT'' = Some (Inr P) \<and>
     BuildExecutorTree P sample_catalog [1 \<mapsto> sample_heap] (Map.empty :: (unit, unit) IndexManager) = Some (Inr tree) \<and>
     executor_of 1 fun_map (disk_ops fun_map) (fst row_world) (snd row_world) tree = Some E \<and>
     select_answer sample_parser (Tables sample_catalog ! 0) users_clauses (map (\<lambda>e. tuple_values (seq_tuple sample_heap e)) (xs 1)) = Some ans \<and> answers displays E ans"
proof -
  obtain bp fs where w: "row_world = (bp, fs)" by fastforce
  note disk = sample_disk [folded row_world_def, unfolded w]
  let ?t = "Tables sample_catalog ! 0" and ?im = "Map.empty :: (unit, unit) IndexManager"
  obtain xs where xs: "scan_order fun_map [1 \<mapsto> sample_heap] (bp, fs) xs \<and>
    (\<forall>parse L sql name al sel t fuel. parse sql = Inr (one_table name al sel) \<and>
    table_named sample_catalog (TableIdent_CompliantName L name) = Some (Inr t) \<and> names_differ t \<and> typed_select L (table_alias L name al) t sel \<and> 7 < fuel \<longrightarrow>
    (\<exists>th P tree E ans. SQLPlanner_Plan parse L sample_catalog fuel sql = Some (Inr P) \<and> BuildExecutorTree P sample_catalog [1 \<mapsto> sample_heap] ?im = Some (Inr tree) \<and>
       executor_of (Suc 0) fun_map (disk_ops fun_map) bp fs tree = Some E \<and> [1 \<mapsto> sample_heap] (tb_Oid t) = Some th \<and>
       select_answer L t sel (map (\<lambda>e. tuple_values (seq_tuple th e)) (xs (tb_Oid t))) = Some ans \<and> answers displays E ans))"
    using sql_select_end_to_end [OF xsync_fun_map xsync_fun_map sample_catalog_ok sample_managers(1) disk, where im = ?im and m = 0] ..
  have h: "(\<lambda>_. Inr (one_table ''users'' [] users_clauses)) ''SELECT'' = Inr (one_table ''users'' [] users_clauses) \<and>
    table_named sample_catalog (TableIdent_CompliantName sample_parser ''users'') = Some (Inr ?t) \<and> names_differ ?t \<and>
    typed_select sample_parser (table_alias sample_parser ''users'' []) ?t users_clauses \<and> 7 < (20 :: nat)"
    using users_table(1,2) users_typed by (simp add: table_alias_def sample_parser_def)
  from conjunct2 [OF xs, rule_format, where parse = "\<lambda>_. Inr (one_table ''users'' [] users_clauses)" and sql = "''SELECT''", OF h] show ?thesis unfolding w fst_conv snd_conv One_nat_def users_table(4) using conjunct1 [OF xs] by auto
qed

end
